(* ===== verification/Prelude.thy ===== *)
theory Prelude
  imports Complex_Main "HOL-Library.Word" "HOL-Library.AList"
begin

text \<open>
  Shared vocabulary of the development: the outcome of a C function that reports
  through an \<open>int\<close> status and \<open>goto BYE\<close>, the combinators that sequence such
  functions, unsigned machine arithmetic on natural numbers, and the list and
  association-list facts every component uses.

  A C function \<open>int f(...)\<close> that works on a state is modelled as a value of type
  \<open>('s, 'a) prog\<close>.  It returns the new state and either the outputs
  (\<open>Inr\<close>, the C function returned a status that \<open>cBYE\<close> lets pass) or the reason it
  left through \<open>BYE\<close>.  State changes made before the failure are kept, as in C.
\<close>

subsection \<open>Outcomes\<close>

datatype error =
    Status int  \<comment> \<open>\<open>go_BYE(x)\<close>: the function returns the status \<open>x\<close>\<close>
  | Undef       \<comment> \<open>undefined behaviour of C (null dereference, access out of bounds)\<close>
  | Diverges    \<comment> \<open>the C loop does not end\<close>

type_synonym ('s, 'a) prog = "'s \<Rightarrow> (error + 'a) \<times> 's"

definition ret :: "'a \<Rightarrow> ('s, 'a) prog" where
  "ret x s = (Inr x, s)"

definition stop :: "error \<Rightarrow> ('s, 'a) prog" where
  "stop e s = (Inl e, s)"

abbreviation go_BYE :: "int \<Rightarrow> ('s, 'a) prog" where
  "go_BYE st \<equiv> stop (Status st)"

definition seq :: "('s, 'a) prog \<Rightarrow> ('a \<Rightarrow> ('s, 'b) prog) \<Rightarrow> ('s, 'b) prog" where
  "seq m f s = (case m s of (Inl e, s') \<Rightarrow> (Inl e, s') | (Inr x, s') \<Rightarrow> f x s')"

definition get_st :: "('s, 's) prog" where
  "get_st s = (Inr s, s)"

definition put_st :: "'s \<Rightarrow> ('s, unit) prog" where
  "put_st s' s = (Inr (), s')"

definition upd_st :: "('s \<Rightarrow> 's) \<Rightarrow> ('s, unit) prog" where
  "upd_st f s = (Inr (), f s)"

text \<open>\<open>if ( c ) { go_BYE(st); }\<close>\<close>

definition bye_if :: "bool \<Rightarrow> int \<Rightarrow> ('s, unit) prog" where
  "bye_if c st = (if c then go_BYE st else ret ())"

definition undef_if :: "bool \<Rightarrow> ('s, unit) prog" where
  "undef_if c = (if c then stop Undef else ret ())"

text \<open>The loop \<open>for ( x in xs ) { status = f(x); cBYE(status); }\<close>.\<close>

fun for_each :: "'a list \<Rightarrow> ('a \<Rightarrow> ('s, unit) prog) \<Rightarrow> ('s, unit) prog" where
  "for_each [] f = ret ()"
| "for_each (x # xs) f = seq (f x) (\<lambda>_. for_each xs f)"

text \<open>The same loop with variables that the body changes.\<close>

fun for_fold :: "'a list \<Rightarrow> 'b \<Rightarrow> ('a \<Rightarrow> 'b \<Rightarrow> ('s, 'b) prog) \<Rightarrow> ('s, 'b) prog" where
  "for_fold [] acc f = ret acc"
| "for_fold (x # xs) acc f = seq (f x acc) (\<lambda>acc'. for_fold xs acc' f)"

text \<open>Statements one after the other.\<close>

primrec steps :: "('s, unit) prog list \<Rightarrow> ('s, unit) prog" where
  "steps [] = ret ()"
| "steps (m # ms) = seq m (\<lambda>_. steps ms)"

definition ok :: "('s, 'a) prog \<Rightarrow> 's \<Rightarrow> bool" where
  "ok m s = (case fst (m s) of Inl _ \<Rightarrow> False | Inr _ \<Rightarrow> True)"

text \<open>\<open>P\<close> is kept by \<open>m\<close>, whether it succeeds or leaves through \<open>BYE\<close>.\<close>

definition keeps :: "('s \<Rightarrow> bool) \<Rightarrow> ('s, 'a) prog \<Rightarrow> bool" where
  "keeps P m = (\<forall>s. P s \<longrightarrow> P (snd (m s)))"

named_theorems prog_simps \<open>unfolding the sequencing combinators\<close>
named_theorems keeps_intros \<open>preservation of an invariant, operation by operation\<close>

lemmas [prog_simps] = ret_def stop_def get_st_def put_st_def upd_st_def bye_if_def undef_if_def

lemma seq_Inr_iff:
  "seq m f s = (Inr y, s2) \<longleftrightarrow> (\<exists>x s1. m s = (Inr x, s1) \<and> f x s1 = (Inr y, s2))"
  by (auto simp: seq_def split: prod.splits sum.splits)

lemma seq_Inl_iff:
  "seq m f s = (Inl e, s2) \<longleftrightarrow>
     m s = (Inl e, s2) \<or> (\<exists>x s1. m s = (Inr x, s1) \<and> f x s1 = (Inl e, s2))"
  by (auto simp: seq_def split: prod.splits sum.splits)

lemma seq_Inr: "m s = (Inr x, s1) \<Longrightarrow> seq m f s = f x s1"
  by (simp add: seq_def)

lemma seq_Inl: "m s = (Inl e, s1) \<Longrightarrow> seq m f s = (Inl e, s1)"
  by (simp add: seq_def)

lemma seq_ret [simp]: "seq (ret x) f = f x"
  by (rule ext) (simp add: seq_def ret_def)

lemma seq_stop [simp]: "seq (stop e) f = stop e"
  by (rule ext) (simp add: seq_def stop_def)

lemma seq_get_st [simp]: "seq get_st f s = f s s"
  by (simp add: seq_def get_st_def)

lemma seq_put_st [simp]: "seq (put_st s') f s = f () s'"
  by (simp add: seq_def put_st_def)

lemma seq_upd_st [simp]: "seq (upd_st g) f s = f () (g s)"
  by (simp add: seq_def upd_st_def)

lemma seq_bye_if [simp]: "seq (bye_if c st) f s = (if c then (Inl (Status st), s) else f () s)"
  by (simp add: seq_def bye_if_def ret_def stop_def)

lemma seq_undef_if [simp]: "seq (undef_if c) f s = (if c then (Inl Undef, s) else f () s)"
  by (simp add: seq_def undef_if_def ret_def stop_def)

lemma seq_assoc: "seq (seq m f) g = seq m (\<lambda>x. seq (f x) g)"
  by (rule ext) (simp add: seq_def split: prod.splits sum.splits)

lemma seq_if [simp]: "seq (if c then m else m') f = (if c then seq m f else seq m' f)"
  by simp

lemma ok_iff: "ok m s \<longleftrightarrow> (\<exists>x s'. m s = (Inr x, s'))"
  by (cases "m s") (auto simp: ok_def split: sum.splits)

subsection \<open>Invariants of programs\<close>

lemma keepsI: "(\<And>s. P s \<Longrightarrow> P (snd (m s))) \<Longrightarrow> keeps P m"
  by (simp add: keeps_def)

lemma keepsD: "keeps P m \<Longrightarrow> P s \<Longrightarrow> P (snd (m s))"
  by (simp add: keeps_def)

lemma keeps_run: "keeps P m \<Longrightarrow> m s = (r, s') \<Longrightarrow> P s \<Longrightarrow> P s'"
  by (metis keepsD snd_conv)

lemma keeps_ret [keeps_intros]: "keeps P (ret x)"
  by (simp add: keeps_def ret_def)

lemma keeps_stop [keeps_intros]: "keeps P (stop e)"
  by (simp add: keeps_def stop_def)

lemma keeps_get_st [keeps_intros]: "keeps P get_st"
  by (simp add: keeps_def get_st_def)

lemma keeps_bye_if [keeps_intros]: "keeps P (bye_if c st)"
  by (simp add: keeps_def bye_if_def ret_def stop_def)

lemma keeps_undef_if [keeps_intros]: "keeps P (undef_if c)"
  by (simp add: keeps_def undef_if_def ret_def stop_def)

lemma keeps_upd_st: "(\<And>s. P s \<Longrightarrow> P (f s)) \<Longrightarrow> keeps P (upd_st f)"
  by (simp add: keeps_def upd_st_def)

lemma keeps_seq [keeps_intros]:
  assumes "keeps P m" "\<And>x. keeps P (f x)"
  shows "keeps P (seq m f)"
proof (rule keepsI)
  fix s assume "P s"
  with assms show "P (snd (seq m f s))"
    by (cases "m s") (auto simp: seq_def keeps_def split: sum.splits dest: spec [of _ s])
qed

lemma keeps_if [keeps_intros]: "keeps P m \<Longrightarrow> keeps P m' \<Longrightarrow> keeps P (if c then m else m')"
  by simp

lemma keeps_for_each [keeps_intros]:
  "(\<And>x. x \<in> set xs \<Longrightarrow> keeps P (f x)) \<Longrightarrow> keeps P (for_each xs f)"
  by (induction xs) (auto intro: keeps_intros)

subsection \<open>Unsigned arithmetic\<close>

text \<open>Unsigned integers of the vector layer are natural numbers below \<open>2 ^ w\<close>; every
  operation that can wrap is written with one of these.\<close>

definition u16 :: "nat \<Rightarrow> nat" where "u16 n = n mod 2 ^ 16"
definition u32 :: "nat \<Rightarrow> nat" where "u32 n = n mod 2 ^ 32"
definition u64 :: "nat \<Rightarrow> nat" where "u64 n = n mod 2 ^ 64"

definition UINT_MAX :: nat where "UINT_MAX = 2 ^ 32 - 1"

definition u32_sub :: "nat \<Rightarrow> nat \<Rightarrow> nat" where
  "u32_sub a b = (if b \<le> a then a - b else (a + 2 ^ 32) - b)"

definition u64_sub :: "nat \<Rightarrow> nat \<Rightarrow> nat" where
  "u64_sub a b = (if b \<le> a then a - b else (a + 2 ^ 64) - b)"

lemma u16_small [simp]: "n < 65536 \<Longrightarrow> u16 n = n"
  by (simp add: u16_def)

lemma u32_small [simp]: "n < 4294967296 \<Longrightarrow> u32 n = n"
  by (simp add: u32_def)

lemma u64_small [simp]: "n < 18446744073709551616 \<Longrightarrow> u64 n = n"
  by (simp add: u64_def)

lemma u32_bound [simp]: "u32 n < 4294967296" "u32 n \<le> 4294967295"
  by (simp_all add: u32_def) 

lemma u64_bound [simp]: "u64 n < 18446744073709551616"
  by (simp add: u64_def)

subsection \<open>Lists and association lists\<close>

lemma map_of_update [simp]: "map_of (AList.update k v al) = (map_of al)(k \<mapsto> v)"
  by (simp add: update_conv')

lemma map_of_delete [simp]: "map_of (AList.delete k al) = (map_of al)(k := None)"
  by (simp add: delete_conv')

lemma distinct_fst_eq:
  assumes "distinct (map fst al)" "(k, v) \<in> set al"
  shows "map_of al k = Some v"
  using assms by simp

end
