(* ===== verification/Fastdiv.thy ===== *)
theory Fastdiv
  imports Prelude
begin

text \<open>
  Division of 32-bit numbers by an invariant divisor, \<open>TMPL_FIX_HASHMAP/inc/fastdiv.h\<close>,
  and the probe location computed with it, \<open>set_probe_loc.c\<close>.  Machine integers are
  words, so every wrap-around of the C code is the wrap-around of the word operation.
  The result: \<open>fast_div32\<close> and \<open>fast_rem32\<close> with the precomputed \<open>divinfo\<close> are division
  and remainder for every divisor except 0.
\<close>

unbundle bit_operations_syntax

subsection \<open>Find last set bit\<close>

text \<open>\<open>__builtin_clz\<close> counts the zeros above the highest set bit of a 32-bit number.\<close>

fun bit_len :: "nat \<Rightarrow> nat" where
  "bit_len n = (if n = 0 then 0 else Suc (bit_len (n div 2)))"

declare bit_len.simps [simp del]

definition builtin_clz :: "32 word \<Rightarrow> nat" where
  "builtin_clz x = 32 - bit_len (unat x)"

definition fls :: "32 word \<Rightarrow> nat" where
  "fls x = (if x \<noteq> 0 then 4 * 8 - builtin_clz x else 0)"

lemma bit_len_0 [simp]: "bit_len 0 = 0"
  by (simp add: bit_len.simps)

lemma bit_len_upper: "n < 2 ^ bit_len n"
proof (induction n rule: bit_len.induct)
  case (1 n)
  then show ?case by (cases "n = 0") (auto simp: bit_len.simps [of n])
qed

lemma bit_len_lower: "n \<noteq> 0 \<Longrightarrow> 2 ^ (bit_len n - 1) \<le> n"
proof (induction n rule: bit_len.induct)
  case (1 n)
  show ?case
  proof (cases "n div 2 = 0")
    case True
    with 1 have "n = 1" by simp
    then show ?thesis by (simp add: bit_len.simps)
  next
    case False
    with 1 have "2 ^ (bit_len (n div 2) - 1) \<le> n div 2" by auto
    moreover have "bit_len (n div 2) \<noteq> 0" using False by (simp add: bit_len.simps [of "n div 2"])
    ultimately have "2 ^ bit_len (n div 2) \<le> n"
      by (cases "bit_len (n div 2)") auto
    then show ?thesis using 1 by (simp add: bit_len.simps [of n])
  qed
qed

lemma bit_len_le: "n < 2 ^ w \<Longrightarrow> bit_len n \<le> w"
proof (rule ccontr)
  assume n: "n < 2 ^ w" and "\<not> bit_len n \<le> w"
  then have w: "w \<le> bit_len n - 1" and n0: "n \<noteq> 0" by (auto intro: Nat.gr0I)
  from w have "(2::nat) ^ w \<le> 2 ^ (bit_len n - 1)" by (rule power_increasing) simp
  with bit_len_lower [OF n0] n show False by linarith
qed

lemma fls_eq: "fls x = bit_len (unat x)"
proof -
  have "bit_len (unat x) \<le> 32" by (rule bit_len_le) (use unsigned_less [of x, where 'a = nat] in simp)
  then show ?thesis by (auto simp: fls_def builtin_clz_def)
qed

subsection \<open>The code\<close>

definition fast_div32_init :: "32 word \<Rightarrow> 64 word" where
  "fast_div32_init d =
    (let l = fls (d - 1);
         mt = 0x100000000 * (push_bit l 1 - ucast d) :: 64 word;
         s1 = (if l > 1 then 1 else word_of_nat l) :: 8 word;
         s2 = (if l = 0 then 0 else word_of_nat (l - 1)) :: 8 word
     in push_bit 32 (mt div ucast d + 1) OR push_bit 8 (ucast s1) OR ucast s2)"

definition fast_div32 :: "32 word \<Rightarrow> 32 word \<Rightarrow> 64 word \<Rightarrow> 32 word" where
  "fast_div32 v d divinfo =
    (let m = ucast (drop_bit 32 divinfo) :: 32 word;
         s1 = unat (drop_bit 8 (divinfo AND 0x0000ff00));
         s2 = unat (divinfo AND 0x000000ff);
         t = ucast (drop_bit 32 ((ucast v :: 64 word) * ucast m)) :: 32 word
     in drop_bit s2 (t + drop_bit s1 (v - t)))"

definition fast_rem32 :: "32 word \<Rightarrow> 32 word \<Rightarrow> 64 word \<Rightarrow> 32 word" where
  "fast_rem32 v d divinfo = v - d * fast_div32 v d divinfo"

definition set_probe_loc :: "32 word \<Rightarrow> 32 word \<Rightarrow> 64 word \<Rightarrow> 32 word" where
  "set_probe_loc hash sz divinfo = fast_rem32 hash sz divinfo"

subsection \<open>Correctness\<close>

text \<open>The rounding argument on natural numbers: \<open>M\<close> is the 33-bit multiplier
  \<open>m + 2 ^ 32\<close>, \<open>K = 2 ^ (32 + l)\<close>.\<close>

lemma magic_div:
  fixes v d K M r :: nat
  assumes M: "M * d = K + r" and d: "0 < d" and r: "r * v < K"
  shows "M * v div K = v div d"
proof (rule div_nat_eqI)
  have K: "0 < K" using r by simp
  have "(v div d) * d * K \<le> v * K" by (simp add: div_times_less_eq_dividend)
  also have "v * K \<le> M * v * d" using M by (metis add_mult_distrib2 le_add1 mult.assoc mult.commute)
  finally have "(K * (v div d)) * d \<le> (M * v) * d" by (simp add: ac_simps)
  then show "K * (v div d) \<le> M * v" using d by simp
  have "v + 1 \<le> (v div d + 1) * d"
    using d by (simp add: dividend_less_div_times Suc_leI)
  then have "(v + 1) * K \<le> (v div d + 1) * d * K" by (rule mult_right_mono) simp
  moreover have "(M * v) * d = K * v + r * v"
    by (metis M add_mult_distrib mult.assoc mult.commute)
  ultimately have "(M * v) * d < (K * Suc (v div d)) * d"
    using r by (simp add: algebra_simps)
  then show "M * v < K * Suc (v div d)" using d by simp
qed

lemma unat_drop_bit: "unat (drop_bit n x) = unat x div 2 ^ n"
  by (subst unsigned_drop_bit_eq) (simp add: drop_bit_eq_div take_bit_nat_eq_self)

lemma half_sum: "t \<le> v \<Longrightarrow> t + (v - t) div 2 = (t + v) div (2::nat)"
  by linarith

lemma fls_pred_bounds:
  assumes "d \<noteq> (0 :: 32 word)" "l = fls (d - 1)"
  shows "unat d \<le> 2 ^ l" "l \<le> 32" "l \<noteq> 0 \<Longrightarrow> 2 ^ l + 2 \<le> 2 * unat d" "l = 0 \<Longrightarrow> unat d = 1"
proof -
  have u: "unat (d - 1) = unat d - 1" and d0: "0 < unat d"
    using assms(1) by (simp_all add: unat_minus_one unat_gt_0)
  have l: "l = bit_len (unat d - 1)" by (simp add: assms(2) fls_eq u)
  show "unat d \<le> 2 ^ l" unfolding l using bit_len_upper [of "unat d - 1"] d0 by linarith
  show "l \<le> 32" unfolding l by (rule bit_len_le) (use unsigned_less [of d, where 'a = nat] in simp)
  show "2 ^ l + 2 \<le> 2 * unat d" if "l \<noteq> 0"
  proof -
    have n0: "unat d - 1 \<noteq> 0" using that l by (auto intro: ccontr)
    have "2 * 2 ^ (l - 1) \<le> 2 * (unat d - 1)" using bit_len_lower [OF n0] l by simp
    moreover have "2 * 2 ^ (l - 1) = (2::nat) ^ l" using that by (cases l) auto
    ultimately show ?thesis using n0 by linarith
  qed
  show "unat d = 1" if "l = 0"
    using bit_len_upper [of "unat d - 1"] that d0 l by simp
qed

text \<open>The three fields of \<open>divinfo\<close>.\<close>

lemma byte_masks: "(0xff :: 64 word) = mask 8" "(0xff00 :: 64 word) = push_bit 8 (mask 8)"
  by (simp_all add: mask_eq_exp_minus_1 push_bit_eq_mult)

lemma divinfo_m:
  fixes A :: "64 word" and b c :: "8 word"
  shows "(ucast (drop_bit 32 (push_bit 32 A OR push_bit 8 (ucast b) OR ucast c)) :: 32 word) = ucast A"
  by (rule bit_word_eqI) (auto simp: bit_simps dest: bit_imp_le_length)

lemma divinfo_s1:
  fixes A :: "64 word" and b c :: "8 word"
  shows "drop_bit 8 ((push_bit 32 A OR push_bit 8 (ucast b) OR ucast c) AND 0xff00) = ucast b"
  unfolding byte_masks
  by (rule bit_word_eqI) (auto simp: bit_simps dest: bit_imp_le_length)

lemma divinfo_s2:
  fixes A :: "64 word" and b c :: "8 word"
  shows "(push_bit 32 A OR push_bit 8 (ucast b) OR ucast c) AND 0xff = ucast c"
  unfolding byte_masks
  by (rule bit_word_eqI) (auto simp: bit_simps dest: bit_imp_le_length)

lemma magic_multiplier:
  assumes d: "d \<noteq> (0 :: 32 word)" and l: "l = fls (d - 1)"
  defines "q \<equiv> 2 ^ 32 * (2 ^ l - unat d) div unat d"
  shows "unat ((0x100000000 * (push_bit l 1 - ucast d) :: 64 word) div ucast d + 1) = q + 1"
    and "q + 1 < 2 ^ 32"
proof -
  note b = fls_pred_bounds [OF d l]
  have d0: "0 < unat d" using d by (simp add: unat_gt_0)
  have dlt: "unat d < 2 ^ 32" using unsigned_less [of d, where 'a = nat] by simp
  have le: "2 ^ l - unat d \<le> unat d - 1" using b by (cases "l = 0") auto
  have pl: "unat (push_bit l 1 :: 64 word) = 2 ^ l"
    using b(2) by (subst unsigned_push_bit_eq) (simp add: push_bit_eq_mult take_bit_nat_eq_self)
  have ud: "unat (ucast d :: 64 word) = unat d"
    by (use dlt in \<open>simp add: unsigned_ucast_eq take_bit_nat_eq_self\<close>)
  have df: "unat (push_bit l 1 - ucast d :: 64 word) = 2 ^ l - unat d"
    by (subst unat_sub) (use b(1) pl ud in \<open>auto simp: word_le_nat_alt\<close>)
  have mt: "unat (0x100000000 * (push_bit l 1 - ucast d) :: 64 word) = 2 ^ 32 * (2 ^ l - unat d)"
  proof -
    have "4294967296 * (2 ^ l - unat d) < (2::nat) ^ 64" using le dlt by simp
    then show ?thesis by (simp only: unat_word_ariths(2) df) simp
  qed
  have qlt: "q + 1 < 2 ^ 32"
  proof (cases "l = 0")
    case True
    then show ?thesis using b(4) by (simp add: q_def)
  next
    case False
    then have "2 ^ l - unat d \<le> unat d - 2" using b(3) by linarith
    moreover have "2 \<le> unat d"
    proof -
      have "(2::nat) \<le> 2 ^ l" using False by (cases l) auto
      then show ?thesis using False b(3) by linarith
    qed
    ultimately have "2 ^ 32 * (2 ^ l - unat d) \<le> 2 ^ 32 * (unat d - 2)" "2 \<le> unat d"
      by simp_all
    then have "2 ^ 32 * (2 ^ l - unat d) < (2 ^ 32 - 1) * unat d - unat d" 
      using dlt by simp
    then have "2 ^ 32 * (2 ^ l - unat d) < (2 ^ 32 - 2) * unat d" by simp
    then have "q < 2 ^ 32 - 2" unfolding q_def using d0 by (simp add: div_less_iff_less_mult)
    then show ?thesis by simp
  qed
  then show "q + 1 < 2 ^ 32" .
  show "unat ((0x100000000 * (push_bit l 1 - ucast d) :: 64 word) div ucast d + 1) = q + 1"
    using qlt by (simp only: unat_word_ariths(1) unat_div mt ud) (simp add: q_def)
qed

text \<open>The two shift amounts, and the code with all three fields decoded.\<close>

lemma fast_div32_decoded:
  fixes v d :: "32 word"
  assumes d: "d \<noteq> (0 :: 32 word)" and l: "l = fls (d - 1)"
  defines "m \<equiv> 2 ^ 32 * (2 ^ l - unat d) div unat d + 1"
  defines "t \<equiv> unat v * m div 2 ^ 32"
  shows "unat (fast_div32 v d (fast_div32_init d)) =
           (t + (unat v - t) div 2 ^ (if l > 1 then 1 else l)) div 2 ^ (l - 1)"
    and "t \<le> unat v"
proof -
  note b = fls_pred_bounds [OF d l]
  define A where "A = (0x100000000 * (push_bit l 1 - ucast d) :: 64 word) div ucast d + 1"
  have A: "unat A = m" "m < 2 ^ 32"
    using magic_multiplier [OF d l] by (simp_all add: A_def m_def)
  define b1 where "b1 = ((if l > 1 then 1 else word_of_nat l) :: 8 word)"
  define b2 where "b2 = ((if l = 0 then 0 else word_of_nat (l - 1)) :: 8 word)"
  have b1: "unat b1 = (if l > 1 then 1 else l)"
    by (auto simp: b1_def unat_of_nat)
  have b2: "unat b2 = l - 1"
    using b(2) by (auto simp: b2_def unat_of_nat simp del: of_nat_diff)
  have init: "fast_div32_init d = push_bit 32 A OR push_bit 8 (ucast b1) OR ucast b2"
    by (simp add: fast_div32_init_def Let_def A_def b1_def b2_def l)
  define a where "a = (ucast A :: 32 word)"
  have ua: "unat a = m"
    using A by (simp add: a_def unsigned_ucast_eq take_bit_nat_eq_self)
  have ub: "unat (ucast x :: 64 word) = unat x" for x :: "8 word"
    using unsigned_less [of x, where 'a = nat]
    by (simp add: unsigned_ucast_eq take_bit_nat_eq_self)
  have uv: "unat (ucast x :: 64 word) = unat x" for x :: "32 word"
    using unsigned_less [of x, where 'a = nat]
    by (simp add: unsigned_ucast_eq take_bit_nat_eq_self)
  have vlt: "unat v < 2 ^ 32" using unsigned_less [of v, where 'a = nat] by simp
  have vm: "unat v * m \<le> unat v * 2 ^ 32" using A(2) by simp
  then have "unat v * m div 2 ^ 32 \<le> unat v * 2 ^ 32 div 2 ^ 32" by (rule div_le_mono)
  then show tv: "t \<le> unat v" by (simp add: t_def)
  define tw where "tw = (ucast (drop_bit 32 ((ucast v :: 64 word) * ucast a)) :: 32 word)"
  have vm64: "unat v * m < 2 ^ 64" by (rule order_le_less_trans [OF vm]) (use vlt in simp)
  have prod: "unat ((ucast v :: 64 word) * ucast a) = unat v * m"
    by (simp only: unat_word_ariths(2) uv ua) (use vm64 in simp)
  have "unat (drop_bit 32 ((ucast v :: 64 word) * ucast a)) = t"
    by (simp only: unat_drop_bit prod t_def)
  then have tw: "unat tw = t"
    using tv vlt unfolding tw_def by (simp add: unsigned_ucast_eq take_bit_nat_eq_self)
  have dec: "fast_div32 v d (fast_div32_init d) =
      drop_bit (unat (ucast b2 :: 64 word)) (tw + drop_bit (unat (ucast b1 :: 64 word)) (v - tw))"
    unfolding fast_div32_def Let_def init divinfo_m divinfo_s1 divinfo_s2 tw_def a_def ..
  have sub: "unat (v - tw) = unat v - t" using tv tw by (subst unat_sub) (auto simp: word_le_nat_alt)
  have "unat (drop_bit (unat b1) (v - tw)) = (unat v - t) div 2 ^ unat b1"
    by (simp only: unat_drop_bit sub)
  moreover have "t + (unat v - t) div 2 ^ unat b1 < 2 ^ 32"
    using tv vlt by (metis add_le_mono div_le_dividend le_add_diff_inverse le_refl order_le_less_trans)
  ultimately have "unat (tw + drop_bit (unat b1) (v - tw)) = t + (unat v - t) div 2 ^ unat b1"
    by (simp add: unat_word_ariths tw)
  then show "unat (fast_div32 v d (fast_div32_init d)) =
      (t + (unat v - t) div 2 ^ (if l > 1 then 1 else l)) div 2 ^ (l - 1)"
    unfolding dec ub by (simp only: unat_drop_bit b2 b1)
qed

lemma unat_fast_div32:
  assumes d: "d \<noteq> 0"
  shows "unat (fast_div32 v d (fast_div32_init d)) = unat v div unat d"
proof -
  define l where "l = fls (d - 1)"
  note b = fls_pred_bounds [OF d l_def]
  define m where "m = 2 ^ 32 * (2 ^ l - unat d) div unat d + 1"
  define t where "t = unat v * m div 2 ^ 32"
  have q: "unat (fast_div32 v d (fast_div32_init d)) =
      (t + (unat v - t) div 2 ^ (if l > 1 then 1 else l)) div 2 ^ (l - 1)"
    and tv: "t \<le> unat v"
    using fast_div32_decoded [OF d l_def, of v] by (simp_all add: m_def t_def)
  have vlt: "unat v < 2 ^ 32" using unsigned_less [of v, where 'a = nat] by simp
  have d0: "0 < unat d" using d by (simp add: unat_gt_0)
  show ?thesis
  proof (cases "l = 0")
    case True
    then have "t = 0" using b(4) vlt by (simp add: t_def m_def)
    then show ?thesis using q True b(4) by simp
  next
    case False
    have s1: "(if l > 1 then 1 else l) = (1::nat)" using False by auto
    have p: "(2::nat) * 2 ^ (l - 1) = 2 ^ l" using False by (cases l) auto
    have "(t + (unat v - t) div 2 ^ 1) div 2 ^ (l - 1) = (t + unat v) div 2 div 2 ^ (l - 1)"
      using half_sum [OF tv] by simp
    also have "\<dots> = (t + unat v) div 2 ^ l" by (metis div_mult2_eq p)
    also have "t + unat v = (m + 2 ^ 32) * unat v div 2 ^ 32"
      by (simp add: t_def algebra_simps)
    also have "(m + 2 ^ 32) * unat v div 2 ^ 32 div 2 ^ l = (m + 2 ^ 32) * unat v div (2 ^ 32 * 2 ^ l)"
      by (simp add: div_mult2_eq)
    also have "\<dots> = unat v div unat d"
    proof (rule magic_div [OF _ d0])
      let ?x = "2 ^ 32 * (2 ^ l - unat d)"
      have x: "?x div unat d * unat d = ?x - ?x mod unat d" by (simp add: minus_mod_eq_div_mult)
      have ml: "?x mod unat d \<le> ?x" "?x mod unat d < unat d" using d0 by simp_all
      have e: "?x + 2 ^ 32 * unat d = 2 ^ 32 * 2 ^ l"
        using b(1) by (metis add_mult_distrib2 le_add_diff_inverse2)
      have "(m + 2 ^ 32) * unat d = ?x div unat d * unat d + unat d + 2 ^ 32 * unat d"
        by (simp add: m_def algebra_simps)
      also have "\<dots> = 2 ^ 32 * 2 ^ l + (unat d - ?x mod unat d)"
        using x ml e by linarith
      finally show "(m + 2 ^ 32) * unat d = 2 ^ 32 * 2 ^ l + (unat d - ?x mod unat d)" .
      have "unat d - ?x mod unat d \<le> 2 ^ l" using b(1) by linarith
      then have "(unat d - ?x mod unat d) * unat v \<le> 2 ^ l * unat v" by (rule mult_right_mono) simp
      also have "\<dots> < 2 ^ l * 2 ^ 32" using vlt by (intro mult_strict_left_mono) auto
      finally show "(unat d - ?x mod unat d) * unat v < 2 ^ 32 * 2 ^ l" by (simp add: ac_simps)
    qed
    finally show ?thesis using q s1 by simp
  qed
qed

lemma unat_fast_rem32:
  assumes d: "d \<noteq> 0"
  shows "unat (fast_rem32 v d (fast_div32_init d)) = unat v mod unat d"
proof -
  let ?q = "fast_div32 v d (fast_div32_init d)"
  have le: "unat d * (unat v div unat d) \<le> unat v" by simp
  moreover have "unat v < 2 ^ 32" using unsigned_less [of v, where 'a = nat] by simp
  ultimately have "unat d * (unat v div unat d) < 2 ^ 32" by (rule order_le_less_trans)
  then have "unat (d * ?q) = unat d * (unat v div unat d)"
    by (simp add: unat_word_ariths unat_fast_div32 [OF d])
  then show ?thesis
    unfolding fast_rem32_def using le
    by (subst unat_sub) (auto simp: word_le_nat_alt minus_mult_div_eq_mod)
qed

end
