(* ===== verification/Hmap_Size.thy ===== *)
theory Hmap_Size
  imports Fastdiv
begin

text \<open>
  The sizing policy of the hash map: \<open>TMPL_FIX_HASHMAP/src/aux.c\<close> (\<open>prime_geq\<close>,
  \<open>mk_hmap_key\<close>), \<open>calc_new_size.c\<close> and the water marks of
  \<open>inc/rs_hmap_common.h\<close>.

  The water marks are C doubles multiplied by an integer and truncated.  For the sizes
  that occur (below \<open>2 ^ 33\<close>) the product rounds to the exact quotient whenever that is
  an integer and never reaches the next integer, so the truncated products are the integer
  quotients below; \<open>k <= sqrt(m)\<close> is \<open>k * k \<le> m\<close> for the same reason.
\<close>

definition HASH_MIN_SIZE :: nat where "HASH_MIN_SIZE = 1024"
definition MAX_GROWTH_STEP :: nat where "MAX_GROWTH_STEP = 1024 * 1024"

definition high_water :: "nat \<Rightarrow> nat" where "high_water n = 17 * n div 20"   \<comment> \<open>0.85\<close>
definition low_water :: "nat \<Rightarrow> nat" where "low_water n = n div 5"           \<comment> \<open>0.2\<close>
definition per_ideal_water :: "nat \<Rightarrow> nat" where "per_ideal_water n = 5 * n div 3"  \<comment> \<open>n / 0.6\<close>

subsection \<open>The hash seed\<close>

definition mk_hmap_key :: "64 word \<Rightarrow> 64 word \<Rightarrow> 64 word \<Rightarrow> 64 word \<Rightarrow> 32 word" where
  "mk_hmap_key rnd1 tsc1 rnd2 tsc2 =
    (let r1 = rnd1 XOR tsc1; r2 = rnd2 XOR tsc2 in ucast (r1 OR push_bit 32 r2))"

subsection \<open>The next prime\<close>

text \<open>The inner loop: \<open>for ( k = 3; k <= sqrt(m); k = k + 2 )\<close>.\<close>

function no_odd_factor :: "nat \<Rightarrow> nat \<Rightarrow> bool" where
  "no_odd_factor m k =
    (if k * k \<le> m then (if m mod k = 0 then False else no_odd_factor m (k + 2)) else True)"
  by auto
termination
proof (relation "measure (\<lambda>(m, k). m + 2 - k)")
  fix m k :: nat
  assume "k * k \<le> m" "m mod k \<noteq> 0"
  moreover have "k \<le> k * k" by (cases k) auto
  ultimately have "k \<le> m" by linarith
  then show "((m, k + 2), m, k) \<in> measure (\<lambda>(m, k). m + 2 - k)" by simp
qed simp

text \<open>The outer loop: \<open>for ( ; ; m = m + 2 )\<close> on a \<open>uint32_t\<close>.  It always returns: after a
  wrap-around \<open>m\<close> is 0 or 1, and for these the inner loop does not run.\<close>

lemma no_odd_factor_small: "m \<le> 8 \<Longrightarrow> no_odd_factor m 3"
  by (simp add: no_odd_factor.simps [of m 3])

function prime_loop :: "nat \<Rightarrow> nat" where
  "prime_loop m = (if no_odd_factor m 3 then m else prime_loop (u32 (m + 2)))"
  by auto
termination
proof (relation "measure (\<lambda>m. if m \<le> 1 then 0 else if m < 2 ^ 32 then 2 ^ 32 + 2 - m else 2 ^ 32 + 3)")
  fix m :: nat
  assume "\<not> no_odd_factor m 3"
  then have m: "8 < m" using no_odd_factor_small by (meson not_le_imp_less)
  show "(u32 (m + 2), m) \<in> measure
      (\<lambda>m. if m \<le> 1 then 0 else if m < 2 ^ 32 then 2 ^ 32 + 2 - m else 2 ^ 32 + 3)"
  proof (cases "m + 2 < 2 ^ 32")
    case True
    then show ?thesis using m by simp
  next
    case False
    then consider "m = 2 ^ 32 - 2" | "m = 2 ^ 32 - 1" | "2 ^ 32 \<le> m" by linarith
    then show ?thesis
    proof cases
      case 3
      then show ?thesis using u32_bound(1) [of "m + 2"] by auto
    qed (simp_all add: u32_def)
  qed
qed simp

declare no_odd_factor.simps [simp del] prime_loop.simps [simp del]

text \<open>\<open>n % 0x1 == 1\<close> is the parity test of the source as it is written there: the remainder
  modulo 1.\<close>

definition prime_geq :: "nat \<Rightarrow> nat" where
  "prime_geq n =
    (if n \<le> 1 then 1
     else let m = (if n mod 1 = 1 then n else u32 (n + 1)) in prime_loop m)"

lemma prime_loop_reaches:
  assumes "no_odd_factor p 3" "m \<le> p" "even (p - m)" "p < 2 ^ 32"
  shows "m \<le> prime_loop m \<and> prime_loop m \<le> p"
  using assms
proof (induction m rule: prime_loop.induct)
  case (1 m)
  show ?case
  proof (cases "no_odd_factor m 3")
    case True
    then show ?thesis using 1 by (simp add: prime_loop.simps [of m])
  next
    case False
    then have "m \<noteq> p" using 1 by auto
    moreover have "p - m \<noteq> 1" using 1(4) by (metis odd_one)
    ultimately have m2: "m + 2 \<le> p" using 1 by linarith
    then have u: "u32 (m + 2) = m + 2" using 1 by simp
    have "even (p - (m + 2))" using 1 m2 by simp
    then have "m + 2 \<le> prime_loop (m + 2) \<and> prime_loop (m + 2) \<le> p"
      using 1 False m2 u by auto
    then show ?thesis using False u by (simp add: prime_loop.simps [of m])
  qed
qed

lemma prime_loop_no_odd_factor: "no_odd_factor (prime_loop m) 3"
  by (induction m rule: prime_loop.induct) (simp add: prime_loop.simps)

lemma no_odd_factor_sound:
  assumes "no_odd_factor m k" "odd k" "odd j" "k \<le> j" "j * j \<le> m"
  shows "m mod j \<noteq> 0"
  using assms
proof (induction m k rule: no_odd_factor.induct)
  case (1 m k)
  have "k * k \<le> j * j" using 1 by (simp add: mult_le_mono)
  then have kk: "k * k \<le> m" using 1 by linarith
  then have mk: "m mod k \<noteq> 0" "no_odd_factor m (k + 2)"
    using 1 by (auto simp: no_odd_factor.simps [of m k] split: if_splits)
  show ?case
  proof (cases "k = j")
    case True
    then show ?thesis using mk by simp
  next
    case False
    then have "k + 2 \<le> j" using 1 by (metis dvd_add_right_iff even_Suc le_SucE le_antisym not_less_eq_eq
          add_2_eq_Suc' Suc_leI le_neq_implies_less)
    then show ?thesis using 1 kk mk by simp
  qed
qed

lemma no_odd_factor_65521: "no_odd_factor 65521 3"
  by (simp add: no_odd_factor.simps)

lemma no_odd_factor_65536: "no_odd_factor 65536 3"
  by (simp add: no_odd_factor.simps)

lemma prime_geq_bounds:
  assumes "1 < n" "n \<le> 65520"
  shows "n < prime_geq n" "prime_geq n \<le> 65536"
proof -
  have e: "prime_geq n = prime_loop (n + 1)" using assms by (simp add: prime_geq_def)
  have "n + 1 \<le> prime_loop (n + 1) \<and> prime_loop (n + 1) \<le> 65536"
  proof (cases "even n")
    case True
    then have "n + 1 \<le> prime_loop (n + 1) \<and> prime_loop (n + 1) \<le> 65521"
      using assms by (intro prime_loop_reaches no_odd_factor_65521) auto
    then show ?thesis by simp
  next
    case False
    then show ?thesis
      using assms by (intro prime_loop_reaches no_odd_factor_65536) auto
  qed
  then show "n < prime_geq n" "prime_geq n \<le> 65536" using e by auto
qed

subsection \<open>Growth\<close>

text \<open>
  \<open>calc_new_size\<close>.  The loop \<open>for ( ; nitems > threshold; )\<close> recomputes
  \<open>newsize\<close> from \<open>size\<close>, which the loop never changes; a loop that may not end is a
  \<open>partial_function\<close>, whose value \<open>None\<close> is "does not return".
\<close>

definition grow_once :: "nat \<Rightarrow> nat" where
  "grow_once sz = (let grow_limit = u64 (sz + MAX_GROWTH_STEP) in min (u64 (sz * 2)) grow_limit)"

partial_function (option) grow_loop :: "nat \<Rightarrow> nat \<Rightarrow> nat \<Rightarrow> nat \<Rightarrow> nat option" where
  "grow_loop nitems sz newsize threshold =
    (if threshold < nitems
     then grow_loop nitems sz (grow_once sz) (high_water (grow_once sz))
     else Some newsize)"

definition calc_new_size :: "nat \<Rightarrow> nat \<Rightarrow> nat \<Rightarrow> error + nat \<times> bool" where
  "calc_new_size nitems maxsize sz =
    (let threshold = high_water sz in
     case grow_loop nitems sz 0 threshold of
       None \<Rightarrow> Inl Diverges
     | Some newsize \<Rightarrow>
         if high_water UINT_MAX < newsize then Inl (Status (- 1))
         else if 0 < maxsize \<and> maxsize < newsize then Inl (Status (- 1))
         else Inr (prime_geq (u32 newsize), threshold < nitems))"

lemma grow_loop_some:
  assumes "grow_loop n s ns th = Some r"
  shows "n \<le> th \<or> n \<le> high_water (grow_once s)"
proof (rule grow_loop.raw_induct [OF _ assms,
      where P = "\<lambda>n s ns th r. n \<le> th \<or> n \<le> high_water (grow_once s)"])
  fix f n s ns th and r :: nat
  assume IH: "\<And>n s ns th r. f n s ns th = Some r \<Longrightarrow> n \<le> th \<or> n \<le> high_water (grow_once s)"
    and body: "(if th < n then f n s (grow_once s) (high_water (grow_once s)) else Some ns) = Some r"
  show "n \<le> th \<or> n \<le> high_water (grow_once s)"
    using body IH [of n s "grow_once s" "high_water (grow_once s)" r] by (simp split: if_splits)
qed

lemma grow_loop_eq:
  "grow_loop n s ns th =
     (if n \<le> th then Some ns
      else if n \<le> high_water (grow_once s) then Some (grow_once s) else None)"
proof -
  let ?g = "grow_once s"
  have step: "grow_loop n s ns th = (if th < n then grow_loop n s ?g (high_water ?g) else Some ns)" for ns th
    by (rule grow_loop.simps)
  show ?thesis
  proof (cases "n \<le> high_water ?g")
    case True
    then have "grow_loop n s ?g (high_water ?g) = Some ?g" using step [of ?g "high_water ?g"] by simp
    then show ?thesis using True step [of ns th] by simp
  next
    case False
    then have "grow_loop n s ?g (high_water ?g) = None" using grow_loop_some by (metis not_None_eq)
    then show ?thesis using False step [of ns th] by simp
  qed
qed

text \<open>Under the load the hash map keeps, one step of growth is enough.\<close>

lemma grow_once_enough:
  assumes "1 < s" "s \<le> 2 ^ 20" "n \<le> high_water s + 1"
  shows "n \<le> high_water (grow_once s)" "grow_once s = 2 * s"
proof -
  show e: "grow_once s = 2 * s"
    using assms by (simp add: grow_once_def MAX_GROWTH_STEP_def Let_def min_def)
  have "17 * s div 20 + 1 \<le> 17 * (2 * s) div 20" using assms(1) by linarith
  then show "n \<le> high_water (grow_once s)"
    using assms(3) unfolding e high_water_def by linarith
qed

end
