(* ===== verification/Hmap.thy ===== *)
theory Hmap
  imports Hmap_Size
begin

text \<open>
  The Robin Hood hash map of \<open>TMPL_FIX_HASHMAP/src\<close>, operation by operation.  The
  template parameter \<open>tmpl\<close> (key and value types) is the pair of type parameters, the
  function pointers of \<open>rs_hmap_struct.h\<close> that the code calls back are the record
  \<open>fns\<close>, and what an operation reads from outside (the seed drawn by \<open>mk_hmap_key\<close>, the
  outcome of the allocations) is the record \<open>env\<close>.  A pointer argument that may be \<open>NULL\<close>
  is an option.
\<close>

subsection \<open>Data\<close>

record ('k, 'v) bkt =
  b_key :: 'k
  b_psl :: nat
  b_val :: 'v

record config =
  c_min_size :: nat
  c_max_size :: nat
  c_low_water_mark :: rat
  c_high_water_mark :: rat
  c_so_file :: "string option"

record ('k, 'v) fns =
  key_cmp :: "'k \<Rightarrow> 'k \<Rightarrow> bool"
  val_update :: "'v \<Rightarrow> 'v \<Rightarrow> int \<times> 'v"
  set_hash :: "'k \<Rightarrow> 64 word \<Rightarrow> 32 word"
  zero_key :: 'k
  zero_val :: 'v

record ('k, 'v) hmap =
  hm_size :: nat
  hm_nitems :: nat
  hm_divinfo :: "64 word"
  hm_bkts :: "('k, 'v) bkt list"
  hm_full :: "bool list"
  hm_hashkey :: "64 word"
  hm_config :: config
  hm_fns :: "('k, 'v) fns"

record env =
  env_hashkey :: "32 word"
  env_alloc :: bool

text \<open>\<open>memset(bkt, 0, sizeof(bkt))\<close>.\<close>

definition zero_bkt :: "('k, 'v) fns \<Rightarrow> ('k, 'v) bkt" where
  "zero_bkt F = \<lparr> b_key = zero_key F, b_psl = 0, b_val = zero_val F \<rparr>"

definition hash_loc :: "('k, 'v) hmap \<Rightarrow> 'k \<Rightarrow> nat" where
  "hash_loc H k =
    unat (set_probe_loc (set_hash (hm_fns H) k (hm_hashkey H)) (word_of_nat (hm_size H)) (hm_divinfo H))"

text \<open>\<open>probe_loc++; if ( probe_loc == size ) { probe_loc = 0; }\<close>\<close>

definition next_loc :: "nat \<Rightarrow> nat \<Rightarrow> nat" where
  "next_loc n i = (if i + 1 = n then 0 else i + 1)"

subsection \<open>Insert\<close>

text \<open>One probe of the \<open>for ( ; ; )\<close> loop per recursive call.  \<open>key\<close>, \<open>val\<close> and \<open>entry\<close> are
  the item being carried, which changes when a richer bucket is taken over.\<close>

function insert_loop ::
  "'k \<Rightarrow> 'v \<Rightarrow> ('k, 'v) bkt \<Rightarrow> nat \<Rightarrow> nat \<Rightarrow> (('k, 'v) hmap, unit) prog"
where
  "insert_loop key val entry probe_loc num_probes H =
    (if hm_size H \<le> num_probes then (Inl (Status (- 1)), H)
     else
      let b = hm_bkts H ! probe_loc in
      if hm_full H ! probe_loc then
        if key_cmp (hm_fns H) (b_key b) key then
          let (st, v) = val_update (hm_fns H) (b_val b) val;
              H' = H\<lparr>hm_bkts := (hm_bkts H)[probe_loc := b\<lparr>b_val := v\<rparr>]\<rparr>
          in if st < 0 then (Inl (Status st), H') else (Inr (), H')
        else if b_psl b < b_psl entry then
          insert_loop (b_key b) (b_val b) (b\<lparr>b_psl := u16 (b_psl b + 1)\<rparr>)
            (next_loc (hm_size H) probe_loc) (num_probes + 1)
            (H\<lparr>hm_bkts := (hm_bkts H)[probe_loc := entry]\<rparr>)
        else
          insert_loop key val (entry\<lparr>b_psl := u16 (b_psl entry + 1)\<rparr>)
            (next_loc (hm_size H) probe_loc) (num_probes + 1) H
      else
        (Inr (), H\<lparr>hm_bkts := (hm_bkts H)[probe_loc := entry],
                   hm_full := (hm_full H)[probe_loc := True],
                   hm_nitems := u32 (hm_nitems H + 1)\<rparr>))"
  by pat_completeness auto
termination by (relation "measure (\<lambda>(_, _, _, _, np, H). hm_size H - np)") auto

declare insert_loop.simps [simp del]

definition rs_hmap_insert :: "'k \<Rightarrow> 'v \<Rightarrow> (('k, 'v) hmap, unit) prog" where
  "rs_hmap_insert key val H =
    insert_loop key val \<lparr> b_key = key, b_psl = 0, b_val = val \<rparr> (hash_loc H key) 0 H"

subsection \<open>Get\<close>

text \<open>The key of the probed bucket is compared before \<open>bkt_full\<close> is looked at.\<close>

function get_loop ::
  "('k, 'v) hmap \<Rightarrow> 'k \<Rightarrow> 'v \<Rightarrow> nat \<Rightarrow> nat \<Rightarrow> nat \<Rightarrow> error + 'v \<times> bool \<times> nat"
where
  "get_loop H key val my_psl probe_loc num_probes =
    (if hm_size H \<le> num_probes then Inl (Status (- 1))
     else
      let this_bkt = hm_bkts H ! probe_loc in
      if key_cmp (hm_fns H) (b_key this_bkt) key then Inr (b_val this_bkt, True, probe_loc)
      else if hm_full H ! probe_loc = False \<or> b_psl this_bkt < my_psl then Inr (val, False, UINT_MAX)
      else get_loop H key val (my_psl + 1) (next_loc (hm_size H) probe_loc) (num_probes + 1))"
  by pat_completeness auto
termination by (relation "measure (\<lambda>(H, _, _, _, _, np). hm_size H - np)") auto

declare get_loop.simps [simp del]

definition rs_hmap_get :: "('k, 'v) hmap \<Rightarrow> 'k option \<Rightarrow> 'v \<Rightarrow> error + 'v \<times> bool \<times> nat" where
  "rs_hmap_get H in_key val =
    (case in_key of None \<Rightarrow> Inl (Status (- 1))
     | Some key \<Rightarrow> get_loop H key val 0 (hash_loc H key) 0)"

subsection \<open>Resize\<close>

definition rs_hmap_resize :: "env \<Rightarrow> nat \<Rightarrow> (('k, 'v) hmap, unit) prog" where
  "rs_hmap_resize e newsize H =
    (let oldsize = hm_size H; bkts = hm_bkts H; bkt_full = hm_full H; nitems = hm_nitems H in
     if newsize \<le> 0 \<or> UINT_MAX \<le> newsize then (Inl (Status (- 1)), H)
     else if newsize < u32 (high_water nitems) then (Inl (Status (- 1)), H)
     else if \<not> env_alloc e then (Inl Undef, H)
     else
       let H0 = H\<lparr>hm_bkts := replicate newsize (zero_bkt (hm_fns H)),
                  hm_full := replicate newsize False,
                  hm_size := newsize, hm_nitems := 0,
                  hm_divinfo := fast_div32_init (word_of_nat newsize),
                  hm_hashkey := ucast (env_hashkey e)\<rparr>
       in seq (for_each [0..<oldsize]
                (\<lambda>i. if bkt_full ! i = False then ret ()
                     else rs_hmap_insert (b_key (bkts ! i)) (b_val (bkts ! i))))
              (\<lambda>_ H1. if hm_nitems H1 \<noteq> nitems then (Inl (Status (- 1)), H1) else (Inr (), H1)) H0)"

subsection \<open>Put\<close>

definition rs_hmap_put :: "env \<Rightarrow> 'k \<Rightarrow> 'v \<Rightarrow> (('k, 'v) hmap, unit) prog" where
  "rs_hmap_put e key val H =
    (if high_water (hm_size H) < hm_nitems H then
       case calc_new_size (hm_nitems H) (c_max_size (hm_config H)) (hm_size H) of
         Inl er \<Rightarrow> (Inl er, H)
       | Inr (newsize, resize) \<Rightarrow>
           seq (if resize then rs_hmap_resize e newsize else ret ()) (\<lambda>_. rs_hmap_insert key val) H
     else rs_hmap_insert key val H)"

subsection \<open>Delete\<close>

function del_find :: "('k, 'v) hmap \<Rightarrow> 'k \<Rightarrow> nat \<Rightarrow> nat \<Rightarrow> nat \<Rightarrow> error + nat option" where
  "del_find H key my_psl probe_loc num_probes =
    (if hm_size H \<le> num_probes then Inl (Status (- 1))
     else
      let this_psl = b_psl (hm_bkts H ! probe_loc) in
      if hm_full H ! probe_loc = False then Inr None
      else if this_psl < my_psl then Inr None
      else if key_cmp (hm_fns H) (b_key (hm_bkts H ! probe_loc)) key then Inr (Some probe_loc)
      else del_find H key (my_psl + 1) (next_loc (hm_size H) probe_loc) (num_probes + 1))"
  by pat_completeness auto
termination by (relation "measure (\<lambda>(H, _, _, _, np). hm_size H - np)") auto

declare del_find.simps [simp del]

text \<open>The backward shift.  At the head of the loop \<open>this_bkt\<close>, \<open>prev_probe_loc\<close> and
  \<open>probe_loc\<close> are the same bucket, so one argument stands for the three; the loop has no
  counter, it ends because every turn lowers the sum of the probe lengths of the buckets other
  than this one.  A position outside the array does not occur; there the model does nothing.\<close>

definition psl_sum :: "('k, 'v) bkt list \<Rightarrow> nat \<Rightarrow> nat" where
  "psl_sum bs i = (\<Sum>j < length bs. if j = i then 0 else b_psl (bs ! j))"

lemma psl_sum_shift:
  assumes "i < length bs" "q < length bs" "q \<noteq> i" "b_psl (bs ! q) \<noteq> 0"
  shows "psl_sum (bs[i := z, q := c, i := (bs ! q)\<lparr>b_psl := b_psl (bs ! q) - 1\<rparr>]) q < psl_sum bs i"
proof -
  let ?bs' = "bs[i := z, q := c, i := (bs ! q)\<lparr>b_psl := b_psl (bs ! q) - 1\<rparr>]"
  let ?R = "{..<length bs} - {i, q}"
  have split: "(\<Sum>j < length bs. f j) = f i + f q + (\<Sum>j \<in> ?R. f j)" for f :: "nat \<Rightarrow> nat"
  proof -
    have "{..<length bs} = insert i (insert q ?R)" using assms by auto
    moreover have "i \<notin> insert q ?R" "q \<notin> ?R" using assms by auto
    ultimately show ?thesis using assms by (metis (no_types, lifting) add.assoc finite_Diff finite_insert finite_lessThan sum.insert)
  qed
  have "psl_sum ?bs' q = (b_psl (bs ! q) - 1) + (\<Sum>j \<in> ?R. if j = q then 0 else b_psl (?bs' ! j))"
    unfolding psl_sum_def length_list_update split using assms by simp
  moreover have "(\<Sum>j \<in> ?R. if j = q then 0 else b_psl (?bs' ! j)) = (\<Sum>j \<in> ?R. if j = i then 0 else b_psl (bs ! j))"
    by (rule sum.cong) auto
  moreover have "psl_sum bs i = b_psl (bs ! q) + (\<Sum>j \<in> ?R. if j = i then 0 else b_psl (bs ! j))"
    unfolding psl_sum_def split using assms by simp
  ultimately show ?thesis using assms(4) by simp
qed

function del_shift ::
  "('k, 'v) fns \<Rightarrow> nat \<Rightarrow> nat \<Rightarrow> ('k, 'v) bkt list \<Rightarrow> bool list \<Rightarrow> ('k, 'v) bkt list \<times> bool list"
where
  "del_shift F n i bs fs =
    (let bs1 = bs[i := zero_bkt F]; fs1 = fs[i := False]; q = next_loc n i in
     if \<not> (i < length bs \<and> q < length bs) then (bs1, fs1)
     else if fs1 ! q = False \<or> b_psl (bs1 ! q) = 0 then (bs1, fs1)
     else
       let next_bkt = (bs1 ! q)\<lparr>b_psl := b_psl (bs1 ! q) - 1\<rparr> in
       del_shift F n q (bs1[q := next_bkt, i := next_bkt]) (fs1[i := fs1 ! q]))"
  by pat_completeness auto
termination
proof (relation "measure (\<lambda>(F, n, i, bs, fs). psl_sum bs i)")
  fix F :: "('a, 'b) fns" and n i :: nat and bs :: "('a, 'b) bkt list" and fs :: "bool list"
    and bs1 fs1 q next_bkt
  assume d: "bs1 = bs[i := zero_bkt F]" "fs1 = fs[i := False]" "q = next_loc n i"
    and b: "\<not> \<not> (i < length bs \<and> q < length bs)"
    and nz: "\<not> (fs1 ! q = False \<or> b_psl (bs1 ! q) = 0)"
    and nb: "next_bkt = (bs1 ! q)\<lparr>b_psl := b_psl (bs1 ! q) - 1\<rparr>"
  have "q \<noteq> i" using nz b d by (auto simp: zero_bkt_def)
  then have "psl_sum (bs1[q := next_bkt, i := next_bkt]) q < psl_sum bs i"
    using psl_sum_shift [of i bs q "zero_bkt F" next_bkt] b nz d nb by auto
  then show "((F, n, q, bs1[q := next_bkt, i := next_bkt], fs1[i := fs1 ! q]), F, n, i, bs, fs)
      \<in> measure (\<lambda>(F, n, i, bs, fs). psl_sum bs i)"
    by simp
qed simp

declare del_shift.simps [simp del]

definition rs_hmap_del :: "env \<Rightarrow> 'k option \<Rightarrow> (('k, 'v) hmap, 'v \<times> bool) prog" where
  "rs_hmap_del e in_key H =
    (case in_key of None \<Rightarrow> (Inl (Status (- 1)), H)
     | Some key \<Rightarrow>
       (case del_find H key 0 (hash_loc H key) 0 of
          Inl er \<Rightarrow> (Inl er, H)
        | Inr None \<Rightarrow> (Inr (zero_val (hm_fns H), False), H)
        | Inr (Some loc) \<Rightarrow>
            let val = b_val (hm_bkts H ! loc);
                (bs, fs) = del_shift (hm_fns H) (hm_size H) loc (hm_bkts H) (hm_full H);
                H1 = H\<lparr>hm_bkts := bs, hm_full := fs, hm_nitems := u32_sub (hm_nitems H) 1\<rparr>;
                threshold = low_water (hm_size H1);
                new_size = per_ideal_water (hm_nitems H1);
                new_size' = (if new_size < c_min_size (hm_config H1) then c_min_size (hm_config H1) else new_size)
            in if c_min_size (hm_config H1) < hm_nitems H1 \<and> hm_nitems H1 < threshold
               then seq (rs_hmap_resize e new_size') (\<lambda>_. ret (val, True)) H1
               else (Inr (val, True), H1)))"

subsection \<open>Merge\<close>

definition rs_hmap_merge ::
  "(nat \<Rightarrow> env) \<Rightarrow> ('k, 'v) hmap \<Rightarrow> (('k, 'v) hmap, unit) prog" where
  "rs_hmap_merge e src =
    for_each [0..<hm_size src]
      (\<lambda>i. if hm_full src ! i = False then ret ()
           else rs_hmap_put (e i) (b_key (hm_bkts src ! i)) (b_val (hm_bkts src ! i)))"

subsection \<open>Creation and destruction\<close>

text \<open>\<open>so_fns\<close> is what loading the shared object \<open>so_file\<close> yields
  (\<open>set_fn_ptrs\<close>, \<open>None\<close> when \<open>dlopen\<close> or a \<open>dlsym\<close> fails).  The record \<open>H\<close> is the caller's
  struct before the call.\<close>

definition rs_hmap_instantiate ::
  "env \<Rightarrow> (string \<Rightarrow> ('k, 'v) fns option) \<Rightarrow> config \<Rightarrow> (('k, 'v) hmap, unit) prog" where
  "rs_hmap_instantiate e so_fns HC H =
    (let c = hm_config H;
         c1 = c\<lparr>c_min_size := (if c_min_size HC = 0 then HASH_MIN_SIZE else c_min_size HC)\<rparr>;
         c2 = (if c_max_size HC \<noteq> 0 then c1\<lparr>c_max_size := c_max_size HC\<rparr> else c1);
         c3 = (if c_low_water_mark HC = 0 then c2\<lparr>c_low_water_mark := 2 / 10\<rparr> else c2);
         c4 = (if c_high_water_mark HC = 0 then c3\<lparr>c_high_water_mark := 85 / 100\<rparr> else c3)
     in
     if c_low_water_mark c3 \<le> 0 \<or> 1 \<le> c_low_water_mark c3 then (Inl (Status (- 1)), H\<lparr>hm_config := c3\<rparr>)
     else if c_high_water_mark c4 \<le> 0 \<or> 1 \<le> c_high_water_mark c4 then (Inl (Status (- 1)), H\<lparr>hm_config := c4\<rparr>)
     else if c_high_water_mark c4 < c_low_water_mark c4 then (Inl (Status (- 1)), H\<lparr>hm_config := c4\<rparr>)
     else if \<not> env_alloc e then (Inl Undef, H\<lparr>hm_config := c4\<rparr>)
     else
       let n = prime_geq (c_min_size c4);
           H1 = H\<lparr>hm_config := c4, hm_size := n,
                  hm_bkts := replicate n (zero_bkt (hm_fns H)), hm_full := replicate n False,
                  hm_divinfo := fast_div32_init (word_of_nat n),
                  hm_hashkey := ucast (env_hashkey e)\<rparr>
       in case c_so_file HC of
            None \<Rightarrow> (Inl (Status (- 1)), H1)
          | Some so \<Rightarrow>
              if so = [] then (Inl (Status (- 1)), H1)
              else case so_fns so of
                None \<Rightarrow> (Inl (Status (- 1)), H1\<lparr>hm_config := c4\<lparr>c_so_file := Some so\<rparr>\<rparr>)
              | Some F \<Rightarrow>
                  (Inr (), H1\<lparr>hm_config := c4\<lparr>c_so_file := Some so\<rparr>, hm_fns := F,
                             hm_bkts := replicate n (zero_bkt F)\<rparr>))"

definition rs_hmap_destroy :: "('k, 'v) hmap \<Rightarrow> ('k, 'v) hmap" where
  "rs_hmap_destroy H =
    H\<lparr>hm_size := 0, hm_nitems := 0, hm_divinfo := 0, hm_bkts := [], hm_full := [], hm_hashkey := 0,
      hm_config := \<lparr> c_min_size = 0, c_max_size = 0, c_low_water_mark = 0, c_high_water_mark = 0,
                     c_so_file = None \<rparr>\<rparr>"

subsection \<open>Check\<close>

text \<open>\<open>spooky\<close> is \<open>spooky_hash64\<close> with the seed drawn for this check.  The hashes are
  compared pairwise below 1024 items and after sorting from 1024 on.\<close>

fun chk_pairs :: "nat list \<Rightarrow> bool" where
  "chk_pairs [] = True"
| "chk_pairs (h # hs) = (h \<noteq> 0 \<and> (\<forall>h' \<in> set hs. h \<noteq> h') \<and> chk_pairs hs)"

fun chk_adjacent :: "nat list \<Rightarrow> bool" where
  "chk_adjacent (x # y # hs) = (x \<noteq> y \<and> chk_adjacent (y # hs))"
| "chk_adjacent _ = True"

function chk_holes :: "('k, 'v) hmap \<Rightarrow> nat \<Rightarrow> nat \<Rightarrow> nat \<Rightarrow> bool" where
  "chk_holes H probe_loc start_from num_searches =
    (if hm_size H \<le> num_searches then False
     else if \<not> hm_full H ! start_from then False
     else
       let prev = (if start_from = 0 then hm_size H - 1 else start_from - 1) in
       if prev = probe_loc then True else chk_holes H probe_loc prev (num_searches + 1))"
  by pat_completeness auto
termination by (relation "measure (\<lambda>(H, _, _, ns). hm_size H - ns)") auto

declare chk_holes.simps [simp del]

definition chk_bucket :: "('k, 'v) hmap \<Rightarrow> nat \<Rightarrow> bool" where
  "chk_bucket H i =
    (if \<not> hm_full H ! i then True
     else
       let key = b_key (hm_bkts H ! i) in
       case rs_hmap_get H (Some key) (zero_val (hm_fns H)) of
         Inl _ \<Rightarrow> False
       | Inr (_, is_found, _) \<Rightarrow>
           is_found \<and> (hash_loc H key = i \<or> chk_holes H (hash_loc H key) i 0))"

definition rs_hmap_chk :: "('k \<Rightarrow> nat) \<Rightarrow> ('k, 'v) hmap \<Rightarrow> bool" where
  "rs_hmap_chk spooky H =
    (let occ = filter (\<lambda>i. hm_full H ! i) [0..<hm_size H];
         chk_nitems = length occ;
         hashes = map (\<lambda>i. spooky (b_key (hm_bkts H ! i))) occ
     in hm_nitems H = chk_nitems \<and>
        (if chk_nitems < 1024 then chk_pairs hashes else chk_adjacent (sort hashes)) \<and>
        (\<forall>i \<in> set [0..<hm_size H]. chk_bucket H i))"

end
