(* ===== verification/Hmap_Inv.thy ===== *)
theory Hmap_Inv
  imports Hmap
begin

text \<open>
  The Robin Hood invariant on the bucket arrays and its bookkeeping: positions on the ring,
  the contents of a table as a map, the chain of full buckets behind a displaced item, and the
  single steps of insertion and of backward-shift deletion.
\<close>

subsection \<open>Positions on the ring\<close>

definition prev_loc :: "nat \<Rightarrow> nat \<Rightarrow> nat" where
  "prev_loc n i = (if i = 0 then n - 1 else i - 1)"

lemma next_loc_less [simp]: "i < n \<Longrightarrow> next_loc n i < n"
  by (auto simp: next_loc_def)

lemma prev_loc_less [simp]: "i < n \<Longrightarrow> prev_loc n i < n"
  by (auto simp: prev_loc_def)

lemma prev_next [simp]: "i < n \<Longrightarrow> prev_loc n (next_loc n i) = i"
  by (auto simp: prev_loc_def next_loc_def)

lemma next_prev [simp]: "i < n \<Longrightarrow> next_loc n (prev_loc n i) = i"
  by (auto simp: prev_loc_def next_loc_def)

lemma prev_eq_iff: "i < n \<Longrightarrow> p < n \<Longrightarrow> prev_loc n i = p \<longleftrightarrow> i = next_loc n p"
  by auto

lemma next_loc_mod: "0 < n \<Longrightarrow> next_loc n ((h + j) mod n) = (h + Suc j) mod n"
  by (auto simp: next_loc_def mod_Suc)

lemma prev_loc_mod: "0 < n \<Longrightarrow> prev_loc n ((h + Suc j) mod n) = (h + j) mod n"
  by (metis mod_less_divisor next_loc_mod prev_next)

definition ring_dist :: "nat \<Rightarrow> nat \<Rightarrow> nat \<Rightarrow> nat" where
  "ring_dist n p q = (q + n - p) mod n"

lemma ring_dist_less: "0 < n \<Longrightarrow> ring_dist n p q < n"
  by (simp add: ring_dist_def)

lemma ring_dist_next:
  assumes "p < n" "q < n" "p \<noteq> q"
  shows "Suc (ring_dist n (next_loc n p) q) = ring_dist n p q"
proof (cases "p + 1 = n")
  case True
  then have "q < p" using assms by linarith
  have "ring_dist n (next_loc n p) q = q" using True assms by (simp add: ring_dist_def next_loc_def)
  moreover have "q + n - p = Suc q" using True by linarith
  ultimately show ?thesis using \<open>q < p\<close> True by (simp add: ring_dist_def)
next
  case False
  have a: "q + n - (p + 1) = q - (p + 1) + n" "q + n - p = q - p + n" if "p < q"
    using that by linarith+
  show ?thesis
  proof (cases "p < q")
    case True
    have "(q + n - (p + 1)) mod n = q - (p + 1)" "(q + n - p) mod n = q - p"
      unfolding a [OF True] mod_add_self2 using assms True by simp_all
    then show ?thesis using False True by (simp add: ring_dist_def next_loc_def)
  next
    case lt: False
    then have "q + n - p < n" using assms by linarith
    then show ?thesis using False assms lt by (simp add: ring_dist_def next_loc_def Suc_diff_Suc)
  qed
qed

lemma ring_pos_unique:
  assumes "(h + d) mod n = (h + d') mod n" "d < n" "d' < n"
  shows "d = (d' :: nat)"
proof (cases d d' rule: linorder_cases)
  case less
  have "n dvd (h + d') - (h + d)" using assms(1) mod_eq_dvd_iff_nat less by (metis add_le_cancel_left less_imp_le)
  then have "n dvd d' - d" by simp
  then show ?thesis using assms less by (auto dest: dvd_imp_le)
next
  case greater
  have "n dvd (h + d) - (h + d')" using assms(1) mod_eq_dvd_iff_nat greater by (metis add_le_cancel_left less_imp_le)
  then have "n dvd d - d'" by simp
  then show ?thesis using assms greater by (auto dest: dvd_imp_le)
qed simp

lemma ring_surj: "h < n \<Longrightarrow> q < n \<Longrightarrow> \<exists>j < n. (h + j) mod (n::nat) = q"
proof (cases "h \<le> q")
  case True
  assume "h < n" "q < n"
  then show ?thesis using True by (intro exI [of _ "q - h"]) auto
next
  case False
  assume *: "h < n" "q < n"
  have "h + (q + n - h) = q + n" using * by linarith
  then have "(h + (q + n - h)) mod n = q" using * by simp
  then show ?thesis using * False by (intro exI [of _ "q + n - h"]) auto
qed

subsection \<open>The table invariant\<close>

text \<open>Every full bucket holds its item at the probe length it records; an item away from home
  has a full bucket before it whose probe length is at most one smaller; keys are unique; empty
  buckets are zero.\<close>

definition rh_tab ::
  "('k, 'v) fns \<Rightarrow> nat \<Rightarrow> ('k \<Rightarrow> nat) \<Rightarrow> ('k, 'v) bkt list \<Rightarrow> bool list \<Rightarrow> bool" where
  "rh_tab F n hm bs fs \<longleftrightarrow>
     length bs = n \<and> length fs = n \<and>
     (\<forall>i < n. fs ! i \<longrightarrow> b_psl (bs ! i) < n \<and> (hm (b_key (bs ! i)) + b_psl (bs ! i)) mod n = i) \<and>
     (\<forall>i < n. fs ! i \<and> 0 < b_psl (bs ! i) \<longrightarrow>
        fs ! prev_loc n i \<and> b_psl (bs ! i) \<le> Suc (b_psl (bs ! prev_loc n i))) \<and>
     (\<forall>i < n. \<forall>j < n. fs ! i \<and> fs ! j \<and> b_key (bs ! i) = b_key (bs ! j) \<longrightarrow> i = j) \<and>
     (\<forall>i < n. \<not> fs ! i \<longrightarrow> bs ! i = zero_bkt F)"

lemma rh_tabD:
  assumes "rh_tab F n hm bs fs"
  shows "length bs = n" "length fs = n"
    and "\<And>i. i < n \<Longrightarrow> fs ! i \<Longrightarrow> b_psl (bs ! i) < n"
    and "\<And>i. i < n \<Longrightarrow> fs ! i \<Longrightarrow> (hm (b_key (bs ! i)) + b_psl (bs ! i)) mod n = i"
    and "\<And>i. i < n \<Longrightarrow> fs ! i \<Longrightarrow> 0 < b_psl (bs ! i) \<Longrightarrow> fs ! prev_loc n i"
    and "\<And>i. i < n \<Longrightarrow> fs ! i \<Longrightarrow> 0 < b_psl (bs ! i) \<Longrightarrow>
           b_psl (bs ! i) \<le> Suc (b_psl (bs ! prev_loc n i))"
    and "\<And>i j. i < n \<Longrightarrow> j < n \<Longrightarrow> fs ! i \<Longrightarrow> fs ! j \<Longrightarrow> b_key (bs ! i) = b_key (bs ! j) \<Longrightarrow> i = j"
    and "\<And>i. i < n \<Longrightarrow> \<not> fs ! i \<Longrightarrow> bs ! i = zero_bkt F"
  using assms unfolding rh_tab_def by blast+

lemma rh_tabI:
  assumes "length bs = n" "length fs = n"
    and "\<And>i. i < n \<Longrightarrow> fs ! i \<Longrightarrow> b_psl (bs ! i) < n"
    and "\<And>i. i < n \<Longrightarrow> fs ! i \<Longrightarrow> (hm (b_key (bs ! i)) + b_psl (bs ! i)) mod n = i"
    and "\<And>i. i < n \<Longrightarrow> fs ! i \<Longrightarrow> 0 < b_psl (bs ! i) \<Longrightarrow>
           fs ! prev_loc n i \<and> b_psl (bs ! i) \<le> Suc (b_psl (bs ! prev_loc n i))"
    and "\<And>i j. i < n \<Longrightarrow> j < n \<Longrightarrow> fs ! i \<Longrightarrow> fs ! j \<Longrightarrow> b_key (bs ! i) = b_key (bs ! j) \<Longrightarrow> i = j"
    and "\<And>i. i < n \<Longrightarrow> \<not> fs ! i \<Longrightarrow> bs ! i = zero_bkt F"
  shows "rh_tab F n hm bs fs"
  using assms unfolding rh_tab_def by blast

text \<open>The items of a table in bucket order, and the table as a map.\<close>

definition items :: "('k, 'v) bkt list \<Rightarrow> bool list \<Rightarrow> ('k \<times> 'v) list" where
  "items bs fs = map (\<lambda>(b, f). (b_key b, b_val b)) (filter snd (zip bs fs))"

definition stored :: "('k, 'v) bkt list \<Rightarrow> bool list \<Rightarrow> nat \<Rightarrow> 'k \<Rightarrow> 'v \<Rightarrow> bool" where
  "stored bs fs i k v \<longleftrightarrow> i < length bs \<and> fs ! i \<and> b_key (bs ! i) = k \<and> b_val (bs ! i) = v"

lemma set_items: "length fs = length bs \<Longrightarrow> (k, v) \<in> set (items bs fs) \<longleftrightarrow> (\<exists>i. stored bs fs i k v)"
  by (force simp: items_def stored_def set_zip)

lemma map_of_items:
  assumes "rh_tab F n hm bs fs"
  shows "map_of (items bs fs) k = Some v \<longleftrightarrow> (\<exists>i. stored bs fs i k v)"
proof -
  note D = rh_tabD [OF assms]
  have set: "(k, v) \<in> set (items bs fs) \<longleftrightarrow> (\<exists>i. stored bs fs i k v)" for v
    using set_items D by metis
  have u: "v = v'" if "stored bs fs i k v" "stored bs fs j k v'" for i j v v'
    using that D(7) [of i j] D(1) by (auto simp: stored_def)
  show ?thesis
  proof
    assume "map_of (items bs fs) k = Some v"
    then show "\<exists>i. stored bs fs i k v" using map_of_SomeD set by metis
  next
    assume r: "\<exists>i. stored bs fs i k v"
    then obtain v' where v': "map_of (items bs fs) k = Some v'"
      using set weak_map_of_SomeI by metis
    then have "\<exists>i. stored bs fs i k v'" using map_of_SomeD set by metis
    then show "map_of (items bs fs) k = Some v" using r u v' by blast
  qed
qed

lemma map_of_items_None:
  assumes "rh_tab F n hm bs fs"
  shows "map_of (items bs fs) k = None \<longleftrightarrow> (\<forall>i < n. fs ! i \<longrightarrow> b_key (bs ! i) \<noteq> k)"
proof -
  have "map_of (items bs fs) k = None \<longleftrightarrow> (\<forall>v i. \<not> stored bs fs i k v)"
    using map_of_items [OF assms, of k] by (metis not_None_eq)
  then show ?thesis using rh_tabD(1) [OF assms] by (auto simp: stored_def)
qed

text \<open>Two tables whose items agree up to one key.\<close>

lemma map_of_items_upd:
  assumes "rh_tab F n hm bs fs" "rh_tab F' n' hm' bs' fs'"
    and "\<And>k' v'. (\<exists>i. stored bs' fs' i k' v') \<longleftrightarrow> (if k' = k then v' = v else (\<exists>i. stored bs fs i k' v'))"
  shows "map_of (items bs' fs') = (map_of (items bs fs))(k \<mapsto> v)"
proof
  fix k'
  have "map_of (items bs' fs') k' = Some v' \<longleftrightarrow> ((map_of (items bs fs))(k \<mapsto> v)) k' = Some v'" for v'
    using map_of_items [OF assms(2), of k' v'] map_of_items [OF assms(1), of k' v'] assms(3) by auto
  then show "map_of (items bs' fs') k' = ((map_of (items bs fs))(k \<mapsto> v)) k'"
    by (metis not_None_eq)
qed

subsection \<open>Chains of full buckets\<close>

lemma chain:
  assumes T: "rh_tab F n hm bs fs" and n: "0 < n"
    and "fs ! ((h + d) mod n)" "d \<le> b_psl (bs ! ((h + d) mod n))" "j \<le> d"
  shows "fs ! ((h + j) mod n) \<and> j \<le> b_psl (bs ! ((h + j) mod n))"
  using assms(3-)
proof (induction d)
  case 0
  then show ?case by simp
next
  case (Suc d)
  show ?case
  proof (cases "j = Suc d")
    case False
    let ?i = "(h + Suc d) mod n"
    have i: "?i < n" "fs ! ?i" "0 < b_psl (bs ! ?i)" using Suc n by auto
    have "fs ! ((h + d) mod n)" "b_psl (bs ! ?i) \<le> Suc (b_psl (bs ! ((h + d) mod n)))"
      using rh_tabD(5,6) [OF T i] n by (simp_all only: prev_loc_mod)
    then show ?thesis using Suc False by auto
  qed (use Suc in auto)
qed

subsection \<open>The item being carried by insertion\<close>

definition carried ::
  "nat \<Rightarrow> ('k \<Rightarrow> nat) \<Rightarrow> ('k, 'v) bkt list \<Rightarrow> bool list \<Rightarrow> ('k, 'v) bkt \<Rightarrow> nat \<Rightarrow> bool" where
  "carried n hm bs fs e p \<longleftrightarrow>
     (\<forall>i < n. fs ! i \<longrightarrow> b_key (bs ! i) \<noteq> b_key e) \<and>
     b_psl e < n \<and> (hm (b_key e) + b_psl e) mod n = p \<and>
     (0 < b_psl e \<longrightarrow> fs ! prev_loc n p \<and> b_psl e \<le> Suc (b_psl (bs ! prev_loc n p)))"

lemma carried_not_last:
  assumes T: "rh_tab F n hm bs fs" and C: "carried n hm bs fs e p"
    and p: "p < n" "fs ! p" and q: "q < n" "\<not> fs ! q"
  shows "Suc (b_psl e) < n"
proof (rule ccontr)
  assume "\<not> Suc (b_psl e) < n"
  then have n: "n = Suc (b_psl e)" using C by (simp add: carried_def)
  let ?h = "hm (b_key e) mod n"
  have pe: "(?h + b_psl e) mod n = p" using C by (simp add: carried_def mod_add_left_eq)
  have "?h < n" using n by simp
  then obtain j where j: "j < n" "(?h + j) mod n = q" using ring_surj q(1) by blast
  then have jn: "j \<noteq> b_psl e" using pe p q by auto
  then obtain d where d: "b_psl e = Suc d" using j n by (cases "b_psl e") auto
  have pv: "prev_loc n p = (?h + d) mod n" using pe d n prev_loc_mod by (metis zero_less_Suc)
  have "fs ! ((?h + d) mod n)" "d \<le> b_psl (bs ! ((?h + d) mod n))"
    using C d pv by (auto simp: carried_def)
  moreover have "j \<le> d" using j n jn d by linarith
  ultimately have "fs ! ((?h + j) mod n)" using chain [OF T] n by blast
  then show False using j q by simp
qed

lemma carried_next:
  assumes T: "rh_tab F n hm bs fs" and C: "carried n hm bs fs e p"
    and p: "p < n" "fs ! p" and q: "q < n" "\<not> fs ! q"
    and le: "b_psl e \<le> b_psl (bs ! p)"
  shows "carried n hm bs fs (e\<lparr>b_psl := Suc (b_psl e)\<rparr>) (next_loc n p)"
proof -
  have "(hm (b_key e) + Suc (b_psl e)) mod n = next_loc n p"
    using C p next_loc_mod [of n "hm (b_key e)" "b_psl e"] by (auto simp: carried_def)
  then show ?thesis
    using C p le carried_not_last [OF T C p q] by (auto simp: carried_def)
qed

lemma swap_tab:
  assumes T: "rh_tab F n hm bs fs" and C: "carried n hm bs fs e p"
    and p: "p < n" "fs ! p" and lt: "b_psl (bs ! p) < b_psl e"
  shows "rh_tab F n hm (bs[p := e]) fs"
proof (rule rh_tabI)
  note D = rh_tabD [OF T]
  note C' = C [unfolded carried_def]
  have pp: "prev_loc n p \<noteq> p"
  proof
    assume "prev_loc n p = p"
    then have "n = 1" using p by (auto simp: prev_loc_def split: if_splits)
    then show False using C' lt by auto
  qed
  show "length (bs[p := e]) = n" "length fs = n" using D by auto
  show "b_psl ((bs[p := e]) ! i) < n" if "i < n" "fs ! i" for i
    using that D(1,3) C' by (cases "i = p") auto
  show "(hm (b_key ((bs[p := e]) ! i)) + b_psl ((bs[p := e]) ! i)) mod n = i" if "i < n" "fs ! i" for i
    using that D(1,4) C' by (cases "i = p") auto
  show "fs ! prev_loc n i \<and> b_psl ((bs[p := e]) ! i) \<le> Suc (b_psl ((bs[p := e]) ! prev_loc n i))"
    if i: "i < n" "fs ! i" "0 < b_psl ((bs[p := e]) ! i)" for i
  proof (cases "i = p")
    case True
    then show ?thesis using C' pp p D(1) lt by auto
  next
    case False
    then have "b_psl (bs ! i) \<le> Suc (b_psl (bs ! prev_loc n i))" "fs ! prev_loc n i"
      using D(5,6) i by auto
    then show ?thesis using False lt p D(1) by (cases "prev_loc n i = p") auto
  qed
  show "i = j" if "i < n" "j < n" "fs ! i" "fs ! j" "b_key ((bs[p := e]) ! i) = b_key ((bs[p := e]) ! j)" for i j
    using that C' D(1) D(7) [of i j] p by (cases "i = p"; cases "j = p") auto
  show "(bs[p := e]) ! i = zero_bkt F" if "i < n" "\<not> fs ! i" for i
    using that D(8) p by (cases "i = p") auto
qed

lemma swap_carried:
  assumes T: "rh_tab F n hm bs fs" and C: "carried n hm bs fs e p"
    and p: "p < n" "fs ! p" and q: "q < n" "\<not> fs ! q" and lt: "b_psl (bs ! p) < b_psl e"
  shows "carried n hm (bs[p := e]) fs ((bs ! p)\<lparr>b_psl := Suc (b_psl (bs ! p))\<rparr>) (next_loc n p)"
proof -
  note D = rh_tabD [OF T]
  have 1: "(hm (b_key (bs ! p)) + Suc (b_psl (bs ! p))) mod n = next_loc n p"
    using D(4) [OF p] p next_loc_mod [of n "hm (b_key (bs ! p))" "b_psl (bs ! p)"] by auto
  have 2: "Suc (b_psl (bs ! p)) < n" using lt C by (simp add: carried_def)
  have 3: "b_key ((bs[p := e]) ! i) \<noteq> b_key (bs ! p)" if "i < n" "fs ! i" for i
    using that D(1) D(7) [of i p] p C by (cases "i = p") (auto simp: carried_def)
  show ?thesis unfolding carried_def using 1 2 3 lt p D(1) by auto
qed

lemma place_tab:
  assumes T: "rh_tab F n hm bs fs" and C: "carried n hm bs fs e p" and p: "p < n" "\<not> fs ! p"
  shows "rh_tab F n hm (bs[p := e]) (fs[p := True])"
proof (rule rh_tabI)
  note D = rh_tabD [OF T]
  note C' = C [unfolded carried_def]
  have home: "b_psl (bs ! i) = 0" if "i < n" "fs ! i" "prev_loc n i = p" for i
    using D(5) [of i] that p by auto
  show "length (bs[p := e]) = n" "length (fs[p := True]) = n" using D by auto
  show "b_psl ((bs[p := e]) ! i) < n" if "i < n" "fs[p := True] ! i" for i
    using that D(1-3) C' by (cases "i = p") auto
  show "(hm (b_key ((bs[p := e]) ! i)) + b_psl ((bs[p := e]) ! i)) mod n = i"
    if "i < n" "fs[p := True] ! i" for i
    using that D(1,2,4) C' by (cases "i = p") auto
  show "fs[p := True] ! prev_loc n i \<and> b_psl ((bs[p := e]) ! i) \<le> Suc (b_psl ((bs[p := e]) ! prev_loc n i))"
    if i: "i < n" "fs[p := True] ! i" "0 < b_psl ((bs[p := e]) ! i)" for i
  proof (cases "i = p")
    case True
    then have e: "0 < b_psl e" using i D(1) p by simp
    then have "prev_loc n p \<noteq> p" using C' p by auto
    then show ?thesis using True e C' p D(1,2) by auto
  next
    case False
    then have "prev_loc n i \<noteq> p" using i D(1,2) home [of i] by auto
    then show ?thesis using False i D(1,2) D(5,6) [of i] by simp
  qed
  show "i = j"
    if "i < n" "j < n" "fs[p := True] ! i" "fs[p := True] ! j"
      "b_key ((bs[p := e]) ! i) = b_key ((bs[p := e]) ! j)" for i j
    using that C' D(1,2) D(7) [of i j] p by (cases "i = p"; cases "j = p") auto
  show "(bs[p := e]) ! i = zero_bkt F" if "i < n" "\<not> fs[p := True] ! i" for i
    using that D(2,8) p by (cases "i = p") auto
qed

end
