(* ===== verification/Hmap_Ops.thy ===== *)
theory Hmap_Ops
  imports Hmap_Inv
begin

text \<open>
  Correctness of the hash map operations: under the invariant \<open>rh_inv\<close> each of them acts on
  the table as the corresponding operation acts on a map, and keeps the invariant.
\<close>

subsection \<open>The invariant of a hash map and its abstraction\<close>

definition count_full :: "bool list \<Rightarrow> nat" where
  "count_full fs = length (filter (\<lambda>f. f) fs)"

text \<open>Probe lengths are 16 bits wide, so the bound on the size is part of the invariant.\<close>

definition rh_inv :: "('k, 'v) hmap \<Rightarrow> bool" where
  "rh_inv H \<longleftrightarrow>
     1 < hm_size H \<and> hm_size H \<le> 65536 \<and>
     hm_divinfo H = fast_div32_init (word_of_nat (hm_size H)) \<and>
     (\<forall>a b. key_cmp (hm_fns H) a b \<longleftrightarrow> a = b) \<and>
     rh_tab (hm_fns H) (hm_size H) (hash_loc H) (hm_bkts H) (hm_full H) \<and>
     hm_nitems H = count_full (hm_full H)"

definition hm_items :: "('k, 'v) hmap \<Rightarrow> ('k \<times> 'v) list" where
  "hm_items H = items (hm_bkts H) (hm_full H)"

definition hm_map :: "('k, 'v) hmap \<Rightarrow> 'k \<rightharpoonup> 'v" where
  "hm_map H = map_of (hm_items H)"

text \<open>\<open>H'\<close> has the function pointers, the configuration and the geometry of \<open>H\<close>.\<close>

definition same_frame :: "('k, 'v) hmap \<Rightarrow> ('k, 'v) hmap \<Rightarrow> bool" where
  "same_frame H H' \<longleftrightarrow> hm_fns H' = hm_fns H \<and> hm_config H' = hm_config H"

lemma count_full_card: "count_full fs = card {i. i < length fs \<and> fs ! i}"
  by (simp add: count_full_def length_filter_conv_card)

lemma count_full_le: "count_full fs \<le> length fs"
  by (simp add: count_full_def)

lemma count_full_set:
  assumes "p < length fs" "\<not> fs ! p"
  shows "count_full (fs[p := True]) = Suc (count_full fs)"
proof -
  have "{i. i < length fs \<and> fs[p := True] ! i} = insert p {i. i < length fs \<and> fs ! i}"
    using assms by (auto simp: nth_list_update)
  then show ?thesis using assms by (simp add: count_full_card)
qed

lemma count_full_clear:
  assumes "p < length fs" "fs ! p"
  shows "Suc (count_full (fs[p := False])) = count_full fs"
proof -
  have "fs[p := True] = fs" using list_update_id [of fs p] assms by simp
  then show ?thesis using count_full_set [of p "fs[p := False]"] assms by simp
qed

lemma count_full_pos: "p < length fs \<Longrightarrow> fs ! p \<Longrightarrow> 0 < count_full fs"
  using count_full_clear by fastforce

lemma count_full_empty: "count_full (replicate n False) = 0"
  by (simp add: count_full_def)

lemma exists_empty:
  assumes "count_full fs < length fs"
  obtains q where "q < length fs" "\<not> fs ! q"
proof (rule ccontr)
  assume "\<not> thesis"
  then have "fs ! i" if "i < length fs" for i using \<open>i < length fs\<close> \<open>\<And>q. q < length fs \<Longrightarrow> \<not> fs ! q \<Longrightarrow> thesis\<close> by blast
  then have "{i. i < length fs \<and> fs ! i} = {..<length fs}" by auto
  then show False using assms by (simp add: count_full_card)
qed

lemma hash_loc_mod:
  assumes "0 < hm_size H" "hm_size H < 4294967296"
    "hm_divinfo H = fast_div32_init (word_of_nat (hm_size H))"
  shows "hash_loc H k = unat (set_hash (hm_fns H) k (hm_hashkey H)) mod hm_size H"
proof -
  have u: "unat (word_of_nat (hm_size H) :: 32 word) = hm_size H"
    using assms by (simp add: unat_of_nat)
  then have "(word_of_nat (hm_size H) :: 32 word) \<noteq> 0" using assms(1) by (metis less_irrefl unat_0)
  then show ?thesis
    by (simp add: hash_loc_def set_probe_loc_def assms(3) unat_fast_rem32 u)
qed

lemma rh_invD:
  assumes "rh_inv H"
  shows "1 < hm_size H" "hm_size H \<le> 65536" "key_cmp (hm_fns H) a b \<longleftrightarrow> a = b"
    "rh_tab (hm_fns H) (hm_size H) (hash_loc H) (hm_bkts H) (hm_full H)"
    "hm_nitems H = count_full (hm_full H)" "hash_loc H k < hm_size H"
    "hm_divinfo H = fast_div32_init (word_of_nat (hm_size H))"
    "length (hm_bkts H) = hm_size H" "length (hm_full H) = hm_size H"
    "hm_nitems H \<le> hm_size H"
proof -
  show 1: "1 < hm_size H" "hm_size H \<le> 65536" "key_cmp (hm_fns H) a b \<longleftrightarrow> a = b"
    "rh_tab (hm_fns H) (hm_size H) (hash_loc H) (hm_bkts H) (hm_full H)"
    "hm_nitems H = count_full (hm_full H)"
    "hm_divinfo H = fast_div32_init (word_of_nat (hm_size H))"
    using assms by (auto simp: rh_inv_def)
  show "hash_loc H k < hm_size H" using 1 by (simp add: hash_loc_mod)
  show "length (hm_bkts H) = hm_size H" "length (hm_full H) = hm_size H"
    using rh_tabD(1,2) 1(4) by blast+
  then show "hm_nitems H \<le> hm_size H" using 1 count_full_le by metis
qed

lemma hash_loc_cong [simp]:
  "hash_loc (H\<lparr>hm_bkts := bs\<rparr>) = hash_loc H"
  "hash_loc (H\<lparr>hm_full := fs\<rparr>) = hash_loc H"
  "hash_loc (H\<lparr>hm_nitems := n\<rparr>) = hash_loc H"
  by (rule ext, simp add: hash_loc_def)+

lemma hm_map_iff: "rh_inv H \<Longrightarrow> hm_map H k = Some v \<longleftrightarrow> (\<exists>i. stored (hm_bkts H) (hm_full H) i k v)"
  unfolding hm_map_def hm_items_def by (rule map_of_items [OF rh_invD(4)])

lemma hm_map_None:
  "rh_inv H \<Longrightarrow> hm_map H k = None \<longleftrightarrow> (\<forall>i < hm_size H. hm_full H ! i \<longrightarrow> b_key (hm_bkts H ! i) \<noteq> k)"
  unfolding hm_map_def hm_items_def by (rule map_of_items_None [OF rh_invD(4)])

lemma rh_inv_upd:
  assumes "rh_inv H" "rh_tab (hm_fns H) (hm_size H) (hash_loc H) bs fs" "m = count_full fs"
  shows "rh_inv (H\<lparr>hm_bkts := bs, hm_full := fs, hm_nitems := m\<rparr>)"
  using assms by (auto simp: rh_inv_def)

subsection \<open>How single steps change the contents\<close>

lemma map_of_items_swap:
  assumes T: "rh_tab F n hm bs fs" and T': "rh_tab F n hm (bs[p := e]) fs" and p: "p < n" "fs ! p"
  shows "map_of (items (bs[p := e]) fs) = ((map_of (items bs fs))(b_key (bs ! p) := None))(b_key e \<mapsto> b_val e)"
proof
  fix k
  note D = rh_tabD [OF T] and D' = rh_tabD [OF T']
  have "map_of (items (bs[p := e]) fs) k = Some v \<longleftrightarrow>
     ((map_of (items bs fs))(b_key (bs ! p) := None, b_key e \<mapsto> b_val e)) k = Some v" for v
  proof (cases "k = b_key e")
    case True
    have "(\<exists>i. stored (bs[p := e]) fs i k v) \<longleftrightarrow> v = b_val e"
      using True p D(1) D'(7) [of _ p] by (fastforce simp: stored_def)
    then show ?thesis using True map_of_items [OF T', of k v] by auto
  next
    case ke: False
    show ?thesis
    proof (cases "k = b_key (bs ! p)")
      case True
      have "\<not> (\<exists>i. stored (bs[p := e]) fs i k v)"
      proof
        assume "\<exists>i. stored (bs[p := e]) fs i k v"
        then obtain i where i: "i < n" "fs ! i" "b_key (bs[p := e] ! i) = k"
          using D(1) by (auto simp: stored_def)
        then have "i \<noteq> p" using ke D(1) p by auto
        then show False using i True D(7) [of i p] p by auto
      qed
      then show ?thesis using True ke map_of_items [OF T', of k v] by simp
    next
      case False
      have "stored (bs[p := e]) fs i k v \<longleftrightarrow> stored bs fs i k v" for i
        using False ke p D(1) by (cases "i = p") (auto simp: stored_def)
      then show ?thesis using False ke map_of_items [OF T', of k v] map_of_items [OF T, of k v] by simp
    qed
  qed
  then show "map_of (items (bs[p := e]) fs) k =
      ((map_of (items bs fs))(b_key (bs ! p) := None, b_key e \<mapsto> b_val e)) k"
    by (metis not_None_eq)
qed

lemma map_of_items_place:
  assumes T: "rh_tab F n hm bs fs" and T': "rh_tab F n hm (bs[p := e]) (fs[p := True])"
    and p: "p < n" "\<not> fs ! p"
  shows "map_of (items (bs[p := e]) (fs[p := True])) = (map_of (items bs fs))(b_key e \<mapsto> b_val e)"
proof (rule map_of_items_upd [OF T T'])
  fix k v
  note D = rh_tabD [OF T] and D' = rh_tabD [OF T']
  show "(\<exists>i. stored (bs[p := e]) (fs[p := True]) i k v) \<longleftrightarrow>
      (if k = b_key e then v = b_val e else (\<exists>i. stored bs fs i k v))"
  proof (cases "k = b_key e")
    case True
    have "stored (bs[p := e]) (fs[p := True]) p k (b_val e)" using True p D(1,2) by (simp add: stored_def)
    moreover have "i = p" if "stored (bs[p := e]) (fs[p := True]) i k v" for i
      using that True p D(1,2) D'(7) [of i p] by (auto simp: stored_def)
    ultimately show ?thesis using True by (auto simp: stored_def)
  next
    case False
    then have "stored (bs[p := e]) (fs[p := True]) i k v \<longleftrightarrow> stored bs fs i k v" for i
      using p D(1,2) by (cases "i = p") (auto simp: stored_def)
    then show ?thesis using False by simp
  qed
qed

lemma set_val_tab:
  assumes T: "rh_tab F n hm bs fs" and p: "p < n" "fs ! p"
  shows "rh_tab F n hm (bs[p := (bs ! p)\<lparr>b_val := v\<rparr>]) fs"
proof (rule rh_tabI)
  note D = rh_tabD [OF T]
  let ?bs = "bs[p := (bs ! p)\<lparr>b_val := v\<rparr>]"
  have eq: "b_key (?bs ! i) = b_key (bs ! i)" "b_psl (?bs ! i) = b_psl (bs ! i)" for i
    using p D(1) by (cases "i = p"; simp)+
  show "length ?bs = n" "length fs = n" using D by auto
  show "b_psl (?bs ! i) < n" "(hm (b_key (?bs ! i)) + b_psl (?bs ! i)) mod n = i" if "i < n" "fs ! i" for i
    using that D(3,4) by (simp_all add: eq)
  show "fs ! prev_loc n i \<and> b_psl (?bs ! i) \<le> Suc (b_psl (?bs ! prev_loc n i))"
    if "i < n" "fs ! i" "0 < b_psl (?bs ! i)" for i
    using that D(5,6) by (simp add: eq)
  show "i = j" if "i < n" "j < n" "fs ! i" "fs ! j" "b_key (?bs ! i) = b_key (?bs ! j)" for i j
    using that D(7) by (simp add: eq)
  show "?bs ! i = zero_bkt F" if "i < n" "\<not> fs ! i" for i
    using that D(8) p by (cases "i = p") auto
qed

subsection \<open>Insertion of a new key\<close>

lemma insert_loop_new:
  assumes "rh_tab (hm_fns H) n hm (hm_bkts H) (hm_full H)" "carried n hm (hm_bkts H) (hm_full H) e p"
    and "p < n" "q < n" "\<not> hm_full H ! q" "np + ring_dist n p q < n" "hm_size H = n" "n \<le> 65536"
    and "\<And>a b. key_cmp (hm_fns H) a b \<longleftrightarrow> a = b" "hm_nitems H < 65536"
  shows "\<exists>bs fs. insert_loop (b_key e) (b_val e) e p np H =
             (Inr (), H\<lparr>hm_bkts := bs, hm_full := fs, hm_nitems := Suc (hm_nitems H)\<rparr>) \<and>
           rh_tab (hm_fns H) n hm bs fs \<and>
           map_of (items bs fs) = (map_of (items (hm_bkts H) (hm_full H)))(b_key e \<mapsto> b_val e) \<and>
           count_full fs = Suc (count_full (hm_full H))"
  using assms
proof (induction "ring_dist n p q" arbitrary: e p np H)
  case (0 p)
  note T = 0(2) and C = 0(3)
  have "p = q" using 0 ring_dist_next [of p n q] by fastforce
  then have p: "\<not> hm_full H ! p" using 0 by simp
  have T': "rh_tab (hm_fns H) n hm ((hm_bkts H)[p := e]) ((hm_full H)[p := True])"
    using place_tab [OF T C] p 0 by simp
  moreover have "insert_loop (b_key e) (b_val e) e p np H = (Inr (), H\<lparr>hm_bkts := (hm_bkts H)[p := e],
      hm_full := (hm_full H)[p := True], hm_nitems := Suc (hm_nitems H)\<rparr>)"
    using 0 p by (simp add: insert_loop.simps [of _ _ _ p])
  ultimately show ?case
    using map_of_items_place [OF T T'] count_full_set [of p "hm_full H"] rh_tabD(2) [OF T] p 0 by blast
next
  case (Suc m p)
  note T = Suc(3) and C = Suc(4) and p = Suc(5) and q = Suc(6,7)
  note D = rh_tabD [OF T]
  have pq: "p \<noteq> q" using Suc(2) by (auto simp: ring_dist_def)
  have m: "m = ring_dist n (next_loc n p) q" using Suc(2) ring_dist_next [OF p q(1) pq] by simp
  have np: "Suc np + ring_dist n (next_loc n p) q < n" using Suc m by simp
  let ?b = "hm_bkts H ! p"
  show ?case
  proof (cases "hm_full H ! p")
    case False
    then have T': "rh_tab (hm_fns H) n hm ((hm_bkts H)[p := e]) ((hm_full H)[p := True])"
      using place_tab [OF T C p] by simp
    moreover have "insert_loop (b_key e) (b_val e) e p np H = (Inr (), H\<lparr>hm_bkts := (hm_bkts H)[p := e],
        hm_full := (hm_full H)[p := True], hm_nitems := Suc (hm_nitems H)\<rparr>)"
      using Suc False by (simp add: insert_loop.simps [of _ _ _ p])
    ultimately show ?thesis
      using map_of_items_place [OF T T'] count_full_set [of p "hm_full H"] D(2) p False by blast
  next
    case full: True
    have key: "b_key ?b \<noteq> b_key e" using C full p by (auto simp: carried_def)
    show ?thesis
    proof (cases "b_psl ?b < b_psl e")
      case True
      let ?H = "H\<lparr>hm_bkts := (hm_bkts H)[p := e]\<rparr>" and ?e = "?b\<lparr>b_psl := Suc (b_psl ?b)\<rparr>"
      have T': "rh_tab (hm_fns ?H) n hm (hm_bkts ?H) (hm_full ?H)"
        using swap_tab [OF T C p full True] by simp
      have C': "carried n hm (hm_bkts ?H) (hm_full ?H) ?e (next_loc n p)"
        using swap_carried [OF T C p full q True] by simp
      have u: "u16 (b_psl ?b + 1) = Suc (b_psl ?b)"
        using C' Suc by (simp add: carried_def)
      have step: "insert_loop (b_key e) (b_val e) e p np H =
          insert_loop (b_key ?e) (b_val ?e) ?e (next_loc n p) (Suc np) ?H"
        using Suc full key True u by (simp add: insert_loop.simps [of _ _ _ p] Let_def)
      have M: "(map_of (items (hm_bkts ?H) (hm_full ?H)))(b_key ?e \<mapsto> b_val ?e) =
          (map_of (items (hm_bkts H) (hm_full H)))(b_key e \<mapsto> b_val e)"
      proof -
        have "map_of (items (hm_bkts H) (hm_full H)) (b_key ?b) = Some (b_val ?b)"
          using map_of_items [OF T] p full D(1) unfolding stored_def by blast
        then show ?thesis
          using map_of_items_swap [OF T _ p full, of e] T' key by (auto simp: fun_eq_iff)
      qed
      have "\<exists>bs fs. insert_loop (b_key ?e) (b_val ?e) ?e (next_loc n p) (Suc np) ?H =
             (Inr (), ?H\<lparr>hm_bkts := bs, hm_full := fs, hm_nitems := Suc (hm_nitems ?H)\<rparr>) \<and>
           rh_tab (hm_fns ?H) n hm bs fs \<and>
           map_of (items bs fs) = (map_of (items (hm_bkts ?H) (hm_full ?H)))(b_key ?e \<mapsto> b_val ?e) \<and>
           count_full fs = Suc (count_full (hm_full ?H))"
        by (rule Suc(1) [OF m T' C']) (use Suc np p in simp_all)
      then show ?thesis unfolding step M by auto
    next
      case False
      let ?e = "e\<lparr>b_psl := Suc (b_psl e)\<rparr>"
      have C': "carried n hm (hm_bkts H) (hm_full H) ?e (next_loc n p)"
        using carried_next [OF T C p full q] False by simp
      have u: "u16 (b_psl e + 1) = Suc (b_psl e)"
        using C' Suc by (simp add: carried_def)
      have step: "insert_loop (b_key e) (b_val e) e p np H =
          insert_loop (b_key ?e) (b_val ?e) ?e (next_loc n p) (Suc np) H"
        using Suc full key False u by (simp add: insert_loop.simps [of _ _ _ p] Let_def)
      have "\<exists>bs fs. insert_loop (b_key ?e) (b_val ?e) ?e (next_loc n p) (Suc np) H =
             (Inr (), H\<lparr>hm_bkts := bs, hm_full := fs, hm_nitems := Suc (hm_nitems H)\<rparr>) \<and>
           rh_tab (hm_fns H) n hm bs fs \<and>
           map_of (items bs fs) = (map_of (items (hm_bkts H) (hm_full H)))(b_key ?e \<mapsto> b_val ?e) \<and>
           count_full fs = Suc (count_full (hm_full H))"
        by (rule Suc(1) [OF m T C']) (use Suc np p in simp_all)
      then show ?thesis unfolding step by auto
    qed
  qed
qed

subsection \<open>Insertion of a key that is present\<close>

lemma present_chain:
  assumes I: "rh_inv H" and i: "i < hm_size H" "hm_full H ! i"
  defines "h \<equiv> hash_loc H (b_key (hm_bkts H ! i))" and "d \<equiv> b_psl (hm_bkts H ! i)"
  shows "(h + d) mod hm_size H = i" "d < hm_size H"
    and "j \<le> d \<Longrightarrow> hm_full H ! ((h + j) mod hm_size H) \<and> j \<le> b_psl (hm_bkts H ! ((h + j) mod hm_size H))"
    and "j < d \<Longrightarrow> b_key (hm_bkts H ! ((h + j) mod hm_size H)) \<noteq> b_key (hm_bkts H ! i)"
proof -
  note D = rh_invD [OF I]
  note T = rh_tabD [OF D(4)]
  have n: "0 < hm_size H" using D(1) by simp
  show e: "(h + d) mod hm_size H = i" "d < hm_size H"
    using T(3,4) i by (simp_all add: h_def d_def)
  show c: "hm_full H ! ((h + j) mod hm_size H) \<and> j \<le> b_psl (hm_bkts H ! ((h + j) mod hm_size H))" if "j \<le> d" for j
    by (rule chain [OF D(4) n _ _ that]) (use e i in \<open>simp_all add: d_def\<close>)
  show "b_key (hm_bkts H ! ((h + j) mod hm_size H)) \<noteq> b_key (hm_bkts H ! i)" if "j < d"
  proof
    assume "b_key (hm_bkts H ! ((h + j) mod hm_size H)) = b_key (hm_bkts H ! i)"
    then have "(h + j) mod hm_size H = i" using T(7) c [of j] that i n by simp
    then show False using ring_pos_unique [of h j "hm_size H" d] e that by simp
  qed
qed

lemma insert_loop_present:
  assumes I: "rh_inv H" and i: "i < hm_size H" "hm_full H ! i" "b_key (hm_bkts H ! i) = k"
    and upd: "val_update (hm_fns H) (b_val (hm_bkts H ! i)) v = (0, w)"
    and "j \<le> b_psl (hm_bkts H ! i)"
  shows "insert_loop k v \<lparr> b_key = k, b_psl = j, b_val = v \<rparr> ((hash_loc H k + j) mod hm_size H) j H =
           (Inr (), H\<lparr>hm_bkts := (hm_bkts H)[i := (hm_bkts H ! i)\<lparr>b_val := w\<rparr>]\<rparr>)"
  using assms(6)
proof (induction "b_psl (hm_bkts H ! i) - j" arbitrary: j)
  case 0
  note P = present_chain [OF I i(1,2), unfolded i(3)]
  have "j = b_psl (hm_bkts H ! i)" using 0 by simp
  then show ?case
    using P(1,2) i upd rh_invD(3) [OF I] by (simp add: insert_loop.simps [of k])
next
  case (Suc m)
  note P = present_chain [OF I i(1,2), unfolded i(3)]
  have j: "j < b_psl (hm_bkts H ! i)" using Suc by simp
  let ?p = "(hash_loc H k + j) mod hm_size H"
  have "hm_full H ! ?p" "j \<le> b_psl (hm_bkts H ! ?p)" "b_key (hm_bkts H ! ?p) \<noteq> k"
    using P(3) [of j] P(4) [OF j] j by simp_all
  moreover have "u16 (j + 1) = Suc j" using j P(2) rh_invD(2) [OF I] by simp
  moreover have "next_loc (hm_size H) ?p = (hash_loc H k + Suc j) mod hm_size H"
    using rh_invD(1) [OF I] by (intro next_loc_mod) simp
  ultimately have "insert_loop k v \<lparr> b_key = k, b_psl = j, b_val = v \<rparr> ?p j H =
      insert_loop k v \<lparr> b_key = k, b_psl = Suc j, b_val = v \<rparr> ((hash_loc H k + Suc j) mod hm_size H) (Suc j) H"
    using j P(2) rh_invD(3) [OF I] by (simp add: insert_loop.simps [of k v _ ?p])
  then show ?case using Suc(1) [of "Suc j"] Suc(2) j by simp
qed

text \<open>Insertion as a whole: the contract the callers rely on.\<close>

lemma insert_new:
  assumes I: "rh_inv H" and none: "hm_map H k = None" and room: "hm_nitems H < hm_size H"
  obtains bs fs where
    "rs_hmap_insert k v H = (Inr (), H\<lparr>hm_bkts := bs, hm_full := fs, hm_nitems := Suc (hm_nitems H)\<rparr>)"
    "rh_inv (H\<lparr>hm_bkts := bs, hm_full := fs, hm_nitems := Suc (hm_nitems H)\<rparr>)"
    "map_of (items bs fs) = (hm_map H)(k \<mapsto> v)"
proof -
  note D = rh_invD [OF I]
  obtain q where q: "q < hm_size H" "\<not> hm_full H ! q"
    using exists_empty [of "hm_full H"] D(5,9) room by metis
  let ?e = "\<lparr> b_key = k, b_psl = 0, b_val = v \<rparr>"
  have C: "carried (hm_size H) (hash_loc H) (hm_bkts H) (hm_full H) ?e (hash_loc H k)"
    using none D(6) D(1) by (simp add: carried_def hm_map_None [OF I])
  have "\<exists>bs fs. insert_loop (b_key ?e) (b_val ?e) ?e (hash_loc H k) 0 H =
             (Inr (), H\<lparr>hm_bkts := bs, hm_full := fs, hm_nitems := Suc (hm_nitems H)\<rparr>) \<and>
           rh_tab (hm_fns H) (hm_size H) (hash_loc H) bs fs \<and>
           map_of (items bs fs) = (map_of (items (hm_bkts H) (hm_full H)))(b_key ?e \<mapsto> b_val ?e) \<and>
           count_full fs = Suc (count_full (hm_full H))"
    by (rule insert_loop_new [OF D(4) C D(6) q])
       (use D(1,2,3,6) room ring_dist_less in simp_all)
  then obtain bs fs where r: "rs_hmap_insert k v H =
        (Inr (), H\<lparr>hm_bkts := bs, hm_full := fs, hm_nitems := Suc (hm_nitems H)\<rparr>)"
      "rh_tab (hm_fns H) (hm_size H) (hash_loc H) bs fs"
      "map_of (items bs fs) = (hm_map H)(k \<mapsto> v)"
      "count_full fs = Suc (count_full (hm_full H))"
    by (auto simp: rs_hmap_insert_def hm_map_def hm_items_def)
  then show thesis using that rh_inv_upd [OF I r(2)] D(5) by simp
qed

lemma insert_present:
  assumes I: "rh_inv H" and some: "hm_map H k = Some u" and upd: "val_update (hm_fns H) u v = (0, w)"
  obtains bs where
    "rs_hmap_insert k v H = (Inr (), H\<lparr>hm_bkts := bs\<rparr>)"
    "rh_inv (H\<lparr>hm_bkts := bs\<rparr>)" "map_of (items bs (hm_full H)) = (hm_map H)(k \<mapsto> w)"
proof -
  note D = rh_invD [OF I]
  obtain i where i: "i < hm_size H" "hm_full H ! i" "b_key (hm_bkts H ! i) = k" "b_val (hm_bkts H ! i) = u"
    using some hm_map_iff [OF I, of k u] D(8) by (auto simp: stored_def)
  let ?bs = "(hm_bkts H)[i := (hm_bkts H ! i)\<lparr>b_val := w\<rparr>]"
  have T: "rh_tab (hm_fns H) (hm_size H) (hash_loc H) ?bs (hm_full H)"
    by (rule set_val_tab [OF D(4) i(1,2)])
  have r: "rs_hmap_insert k v H = (Inr (), H\<lparr>hm_bkts := ?bs\<rparr>)"
    using insert_loop_present [OF I i(1-3), of v w 0] upd i D(6)
    by (simp add: rs_hmap_insert_def)
  have "map_of (items ?bs (hm_full H)) = (hm_map H)(k \<mapsto> w)"
    using map_of_items_swap [OF D(4) T i(1,2)] i by (simp add: hm_map_def hm_items_def)
  moreover have "rh_inv (H\<lparr>hm_bkts := ?bs\<rparr>)" using I T by (simp add: rh_inv_def)
  ultimately show thesis using that r by blast
qed

end
