(* ===== verification/Hmap_Get_Del.thy ===== *)
theory Hmap_Get_Del
  imports Hmap_Ops
begin

text \<open>
  Look-up and deletion in the Robin Hood hash map.  Look-up is exact for every key except the
  all-zero one, which it compares with the contents of empty buckets; deletion is exact for
  every key and repairs the table by shifting the following run back by one.
\<close>

subsection \<open>Look-up\<close>

lemma get_loop_present:
  assumes I: "rh_inv H" and i: "i < hm_size H" "hm_full H ! i" "b_key (hm_bkts H ! i) = k"
    and "j \<le> b_psl (hm_bkts H ! i)"
  shows "get_loop H k v j ((hash_loc H k + j) mod hm_size H) j = Inr (b_val (hm_bkts H ! i), True, i)"
  using assms(5)
proof (induction "b_psl (hm_bkts H ! i) - j" arbitrary: j)
  case 0
  note P = present_chain [OF I i(1,2), unfolded i(3)]
  have "j = b_psl (hm_bkts H ! i)" using 0 by simp
  then show ?case using P(1,2) i rh_invD(3) [OF I] by (simp add: get_loop.simps)
next
  case (Suc m)
  note P = present_chain [OF I i(1,2), unfolded i(3)]
  have j: "j < b_psl (hm_bkts H ! i)" using Suc by simp
  let ?p = "(hash_loc H k + j) mod hm_size H"
  have "hm_full H ! ?p" "j \<le> b_psl (hm_bkts H ! ?p)" "b_key (hm_bkts H ! ?p) \<noteq> k"
    using P(3) [of j] P(4) [OF j] j by simp_all
  moreover have "next_loc (hm_size H) ?p = (hash_loc H k + Suc j) mod hm_size H"
    using rh_invD(1) [OF I] by (intro next_loc_mod) simp
  ultimately have "get_loop H k v j ?p j = get_loop H k v (Suc j) ((hash_loc H k + Suc j) mod hm_size H) (Suc j)"
    using j P(2) rh_invD(3) [OF I] by (simp add: get_loop.simps [of H k v _ ?p] Let_def)
  then show ?case using Suc(1) [of "Suc j"] Suc(2) j by simp
qed

lemma get_loop_absent:
  assumes I: "rh_inv H" and none: "hm_map H k = None" and k: "k \<noteq> zero_key (hm_fns H)"
    and q: "q < hm_size H" "\<not> hm_full H ! q"
    and "p < hm_size H" "np + ring_dist (hm_size H) p q < hm_size H"
  shows "get_loop H k v j p np = Inr (v, False, UINT_MAX)"
  using assms(6,7)
proof (induction "ring_dist (hm_size H) p q" arbitrary: p np j)
  case 0
  have "p = q" using 0 q ring_dist_next [of p "hm_size H" q] by fastforce
  moreover have "b_key (hm_bkts H ! q) \<noteq> k"
    using rh_tabD(8) [OF rh_invD(4) [OF I] q] k by (simp add: zero_bkt_def)
  ultimately show ?case using q 0 rh_invD(3) [OF I] by (simp add: get_loop.simps)
next
  case (Suc m)
  have pq: "p \<noteq> q" using Suc(2) by (auto simp: ring_dist_def)
  have m: "m = ring_dist (hm_size H) (next_loc (hm_size H) p) q"
    using Suc(2) ring_dist_next [OF Suc(3) q(1) pq] by simp
  have "b_key (hm_bkts H ! p) \<noteq> k"
  proof (cases "hm_full H ! p")
    case True
    then show ?thesis using none Suc(3) by (simp add: hm_map_None [OF I])
  next
    case False
    then show ?thesis using rh_tabD(8) [OF rh_invD(4) [OF I] Suc(3)] k by (simp add: zero_bkt_def)
  qed
  moreover have "get_loop H k v (Suc j) (next_loc (hm_size H) p) (Suc np) = Inr (v, False, UINT_MAX)"
    by (rule Suc(1) [OF m]) (use Suc m in simp_all)
  ultimately show ?case
    using Suc(4) rh_invD(3) [OF I] by (simp add: get_loop.simps [of H k v j p] Let_def)
qed

lemma get_present:
  assumes I: "rh_inv H" and some: "hm_map H k = Some u"
  obtains i where "rs_hmap_get H (Some k) v = Inr (u, True, i)" "stored (hm_bkts H) (hm_full H) i k u"
proof -
  obtain i where i: "stored (hm_bkts H) (hm_full H) i k u" using some hm_map_iff [OF I] by blast
  then have "rs_hmap_get H (Some k) v = Inr (u, True, i)"
    using get_loop_present [OF I, of i k 0 v] rh_invD(6,8) [OF I] by (simp add: rs_hmap_get_def stored_def)
  then show thesis using that i by blast
qed

lemma get_absent:
  assumes I: "rh_inv H" and none: "hm_map H k = None" and k: "k \<noteq> zero_key (hm_fns H)"
    and room: "hm_nitems H < hm_size H"
  shows "rs_hmap_get H (Some k) v = Inr (v, False, UINT_MAX)"
proof -
  obtain q where q: "q < hm_size H" "\<not> hm_full H ! q"
    using exists_empty [of "hm_full H"] rh_invD(5,9) [OF I] room by metis
  show ?thesis
    using get_loop_absent [OF I none k q rh_invD(6) [OF I], of 0] ring_dist_less rh_invD(1) [OF I]
    by (simp add: rs_hmap_get_def)
qed

text \<open>An empty home bucket is all zero, so it answers for the all-zero key.\<close>

lemma get_zero_key_phantom:
  assumes I: "rh_inv H" and empty: "\<not> hm_full H ! hash_loc H (zero_key (hm_fns H))"
  shows "rs_hmap_get H (Some (zero_key (hm_fns H))) v =
           Inr (zero_val (hm_fns H), True, hash_loc H (zero_key (hm_fns H)))"
  using rh_tabD(8) [OF rh_invD(4) [OF I] rh_invD(6) [OF I] empty] rh_invD(1,3) [OF I]
  by (simp add: rs_hmap_get_def get_loop.simps zero_bkt_def)

subsection \<open>Finding the bucket to delete\<close>

lemma del_find_present:
  assumes I: "rh_inv H" and i: "i < hm_size H" "hm_full H ! i" "b_key (hm_bkts H ! i) = k"
    and "j \<le> b_psl (hm_bkts H ! i)"
  shows "del_find H k j ((hash_loc H k + j) mod hm_size H) j = Inr (Some i)"
  using assms(5)
proof (induction "b_psl (hm_bkts H ! i) - j" arbitrary: j)
  case 0
  note P = present_chain [OF I i(1,2), unfolded i(3)]
  have "j = b_psl (hm_bkts H ! i)" using 0 by simp
  then show ?case using P(1,2) i rh_invD(3) [OF I] by (simp add: del_find.simps)
next
  case (Suc m)
  note P = present_chain [OF I i(1,2), unfolded i(3)]
  have j: "j < b_psl (hm_bkts H ! i)" using Suc by simp
  let ?p = "(hash_loc H k + j) mod hm_size H"
  have "hm_full H ! ?p" "j \<le> b_psl (hm_bkts H ! ?p)" "b_key (hm_bkts H ! ?p) \<noteq> k"
    using P(3) [of j] P(4) [OF j] j by simp_all
  moreover have "next_loc (hm_size H) ?p = (hash_loc H k + Suc j) mod hm_size H"
    using rh_invD(1) [OF I] by (intro next_loc_mod) simp
  ultimately have "del_find H k j ?p j = del_find H k (Suc j) ((hash_loc H k + Suc j) mod hm_size H) (Suc j)"
    using j P(2) rh_invD(3) [OF I] by (simp add: del_find.simps [of H k _ ?p] Let_def)
  then show ?case using Suc(1) [of "Suc j"] Suc(2) j by simp
qed

lemma del_find_absent:
  assumes I: "rh_inv H" and none: "hm_map H k = None"
    and q: "q < hm_size H" "\<not> hm_full H ! q"
    and "p < hm_size H" "np + ring_dist (hm_size H) p q < hm_size H"
  shows "del_find H k j p np = Inr None"
  using assms(5,6)
proof (induction "ring_dist (hm_size H) p q" arbitrary: p np j)
  case 0
  have "p = q" using 0 q ring_dist_next [of p "hm_size H" q] by fastforce
  then show ?case using q 0 by (simp add: del_find.simps)
next
  case (Suc m)
  have pq: "p \<noteq> q" using Suc(2) by (auto simp: ring_dist_def)
  have m: "m = ring_dist (hm_size H) (next_loc (hm_size H) p) q"
    using Suc(2) ring_dist_next [OF Suc(3) q(1) pq] by simp
  have key: "b_key (hm_bkts H ! p) \<noteq> k" if "hm_full H ! p"
    using that none Suc(3) by (simp add: hm_map_None [OF I])
  have "del_find H k (Suc j) (next_loc (hm_size H) p) (Suc np) = Inr None"
    by (rule Suc(1) [OF m]) (use Suc m in simp_all)
  then show ?case
    using Suc(4) key rh_invD(3) [OF I] by (simp add: del_find.simps [of H k j p] Let_def)
qed

subsection \<open>The backward shift\<close>

text \<open>A table with a hole at \<open>i\<close>: the invariant, except that the bucket after the hole
  measures itself against the bucket before it.\<close>

definition rh_hole ::
  "('k, 'v) fns \<Rightarrow> nat \<Rightarrow> ('k \<Rightarrow> nat) \<Rightarrow> ('k, 'v) bkt list \<Rightarrow> bool list \<Rightarrow> nat \<Rightarrow> bool" where
  "rh_hole F n hm bs fs i \<longleftrightarrow>
     length bs = n \<and> length fs = n \<and> i < n \<and> \<not> fs ! i \<and>
     (\<forall>r < n. fs ! r \<longrightarrow> b_psl (bs ! r) < n \<and> (hm (b_key (bs ! r)) + b_psl (bs ! r)) mod n = r) \<and>
     (\<forall>r < n. fs ! r \<and> r \<noteq> next_loc n i \<and> 0 < b_psl (bs ! r) \<longrightarrow>
        fs ! prev_loc n r \<and> b_psl (bs ! r) \<le> Suc (b_psl (bs ! prev_loc n r))) \<and>
     (fs ! next_loc n i \<and> 1 < b_psl (bs ! next_loc n i) \<longrightarrow>
        fs ! prev_loc n i \<and> b_psl (bs ! next_loc n i) \<le> Suc (Suc (b_psl (bs ! prev_loc n i)))) \<and>
     (\<forall>r < n. \<forall>j < n. fs ! r \<and> fs ! j \<and> b_key (bs ! r) = b_key (bs ! j) \<longrightarrow> r = j) \<and>
     (\<forall>r < n. \<not> fs ! r \<longrightarrow> bs ! r = zero_bkt F)"

lemma rh_holeD:
  assumes "rh_hole F n hm bs fs i"
  shows "length bs = n" "length fs = n" "i < n" "\<not> fs ! i"
    and "\<And>r. r < n \<Longrightarrow> fs ! r \<Longrightarrow> b_psl (bs ! r) < n"
    and "\<And>r. r < n \<Longrightarrow> fs ! r \<Longrightarrow> (hm (b_key (bs ! r)) + b_psl (bs ! r)) mod n = r"
    and "\<And>r. r < n \<Longrightarrow> fs ! r \<Longrightarrow> r \<noteq> next_loc n i \<Longrightarrow> 0 < b_psl (bs ! r) \<Longrightarrow>
           fs ! prev_loc n r \<and> b_psl (bs ! r) \<le> Suc (b_psl (bs ! prev_loc n r))"
    and "fs ! next_loc n i \<Longrightarrow> 1 < b_psl (bs ! next_loc n i) \<Longrightarrow>
        fs ! prev_loc n i \<and> b_psl (bs ! next_loc n i) \<le> Suc (Suc (b_psl (bs ! prev_loc n i)))"
    and "\<And>r j. r < n \<Longrightarrow> j < n \<Longrightarrow> fs ! r \<Longrightarrow> fs ! j \<Longrightarrow> b_key (bs ! r) = b_key (bs ! j) \<Longrightarrow> r = j"
    and "\<And>r. r < n \<Longrightarrow> \<not> fs ! r \<Longrightarrow> bs ! r = zero_bkt F"
  using assms unfolding rh_hole_def by blast+

lemma rh_holeI:
  assumes "length bs = n" "length fs = n" "i < n" "\<not> fs ! i"
    and "\<And>r. r < n \<Longrightarrow> fs ! r \<Longrightarrow> b_psl (bs ! r) < n"
    and "\<And>r. r < n \<Longrightarrow> fs ! r \<Longrightarrow> (hm (b_key (bs ! r)) + b_psl (bs ! r)) mod n = r"
    and "\<And>r. r < n \<Longrightarrow> fs ! r \<Longrightarrow> r \<noteq> next_loc n i \<Longrightarrow> 0 < b_psl (bs ! r) \<Longrightarrow>
           fs ! prev_loc n r \<and> b_psl (bs ! r) \<le> Suc (b_psl (bs ! prev_loc n r))"
    and "fs ! next_loc n i \<Longrightarrow> 1 < b_psl (bs ! next_loc n i) \<Longrightarrow>
        fs ! prev_loc n i \<and> b_psl (bs ! next_loc n i) \<le> Suc (Suc (b_psl (bs ! prev_loc n i)))"
    and "\<And>r j. r < n \<Longrightarrow> j < n \<Longrightarrow> fs ! r \<Longrightarrow> fs ! j \<Longrightarrow> b_key (bs ! r) = b_key (bs ! j) \<Longrightarrow> r = j"
    and "\<And>r. r < n \<Longrightarrow> \<not> fs ! r \<Longrightarrow> bs ! r = zero_bkt F"
  shows "rh_hole F n hm bs fs i"
  using assms unfolding rh_hole_def by blast

lemma next_neq: "1 < n \<Longrightarrow> i < n \<Longrightarrow> next_loc n i \<noteq> i"
  by (auto simp: next_loc_def)

lemma hole_closed:
  assumes Z: "rh_hole F n hm bs fs i" and stop: "\<not> fs ! next_loc n i \<or> b_psl (bs ! next_loc n i) = 0"
  shows "rh_tab F n hm bs fs"
  by (rule rh_tabI) (use rh_holeD [OF Z] stop in \<open>metis neq0_conv\<close>)+

lemma make_hole:
  assumes T: "rh_tab F n hm bs fs" and i: "i < n" "fs ! i" and n: "1 < n"
  shows "rh_hole F n hm (bs[i := zero_bkt F]) (fs[i := False]) i"
proof (rule rh_holeI)
  note D = rh_tabD [OF T]
  let ?q = "next_loc n i"
  show "length (bs[i := zero_bkt F]) = n" "length (fs[i := False]) = n" "i < n" "\<not> fs[i := False] ! i"
    using D i by auto
  show "b_psl ((bs[i := zero_bkt F]) ! r) < n"
    "(hm (b_key ((bs[i := zero_bkt F]) ! r)) + b_psl ((bs[i := zero_bkt F]) ! r)) mod n = r"
    if "r < n" "fs[i := False] ! r" for r
    using that D(2,3,4) i by (cases "r = i"; simp)+
  show "fs[i := False] ! prev_loc n r \<and> b_psl ((bs[i := zero_bkt F]) ! r) \<le> Suc (b_psl ((bs[i := zero_bkt F]) ! prev_loc n r))"
    if r: "r < n" "fs[i := False] ! r" "r \<noteq> next_loc n i" "0 < b_psl ((bs[i := zero_bkt F]) ! r)" for r
  proof -
    have "r \<noteq> i" using r D(2) i by auto
    moreover have "prev_loc n r \<noteq> i" using r i by auto
    ultimately show ?thesis using r D(5,6) by auto
  qed
  show "fs[i := False] ! prev_loc n i \<and>
      b_psl ((bs[i := zero_bkt F]) ! ?q) \<le> Suc (Suc (b_psl ((bs[i := zero_bkt F]) ! prev_loc n i)))"
    if q: "fs[i := False] ! ?q" "1 < b_psl ((bs[i := zero_bkt F]) ! ?q)"
  proof -
    have qi: "?q \<noteq> i" by (rule next_neq [OF n i(1)])
    have f: "fs ! ?q" "1 < b_psl (bs ! ?q)" using q qi by auto
    have le: "b_psl (bs ! ?q) \<le> Suc (b_psl (bs ! i))" using D(6) [of ?q] f i by simp
    then have pos: "0 < b_psl (bs ! i)" using f by simp
    have "prev_loc n i \<noteq> i" using i n by (auto simp: prev_loc_def)
    then show ?thesis using D(5,6) [OF i pos] le qi by simp
  qed
  show "r = j" if "r < n" "j < n" "fs[i := False] ! r" "fs[i := False] ! j"
    "b_key ((bs[i := zero_bkt F]) ! r) = b_key ((bs[i := zero_bkt F]) ! j)" for r j
    using that D(2) D(7) [of r j] i by (cases "r = i"; cases "j = i") auto
  show "(bs[i := zero_bkt F]) ! r = zero_bkt F" if "r < n" "\<not> fs[i := False] ! r" for r
    using that D(1,8) i by (cases "r = i") auto
qed

lemma move_hole:
  assumes Z: "rh_hole F n hm bs fs i" and n: "1 < n"
    and f: "fs ! next_loc n i" and pos: "0 < b_psl (bs ! next_loc n i)"
  defines "q \<equiv> next_loc n i"
  defines "c \<equiv> (bs ! q)\<lparr>b_psl := b_psl (bs ! q) - 1\<rparr>"
  shows "rh_hole F n hm (bs[i := c, q := zero_bkt F]) (fs[i := True, q := False]) q"
proof (rule rh_holeI)
  note D = rh_holeD [OF Z]
  let ?bs = "bs[i := c, q := zero_bkt F]" and ?fs = "fs[i := True, q := False]"
  have q: "q < n" "q \<noteq> i" using D(3) n next_neq by (auto simp: q_def)
  have fq: "fs ! q" "0 < b_psl (bs ! q)" using f pos by (simp_all add: q_def)
  have bi: "?bs ! i = c" "?fs ! i" using D(1-3) q by auto
  have other: "?bs ! r = bs ! r" "?fs ! r = fs ! r" if "r \<noteq> i" "r \<noteq> q" for r using that by auto
  have atq: "\<not> ?fs ! q" "?bs ! q = zero_bkt F" using D(1,2) q by auto
  show "length ?bs = n" "length ?fs = n" "q < n" "\<not> ?fs ! q" using D q by auto
  obtain d where d: "b_psl (bs ! q) = Suc d" using fq by (cases "b_psl (bs ! q)") auto
  have pc: "b_psl c = d" "b_key c = b_key (bs ! q)" by (simp_all add: c_def d)
  have home: "(hm (b_key c) + d) mod n = i"
  proof -
    have "(hm (b_key (bs ! q)) + Suc d) mod n = q" using D(6) [OF q(1) fq(1)] d by simp
    then have "prev_loc n q = (hm (b_key (bs ! q)) + d) mod n" using prev_loc_mod n by (metis less_trans zero_less_one)
    then show ?thesis using D(3) by (simp add: pc q_def)
  qed
  show "b_psl (?bs ! r) < n" "(hm (b_key (?bs ! r)) + b_psl (?bs ! r)) mod n = r"
    if r: "r < n" "?fs ! r" for r
  proof -
    have "r \<noteq> q" using r atq by auto
    have dn: "d < n" using D(5) [OF q(1) fq(1)] d by simp
    have "b_psl (?bs ! r) < n \<and> (hm (b_key (?bs ! r)) + b_psl (?bs ! r)) mod n = r"
    proof (cases "r = i")
      case True
      then show ?thesis using home dn bi(1) pc by simp
    next
      case False
      then show ?thesis using D(5,6) [of r] r other [OF False \<open>r \<noteq> q\<close>] by simp
    qed
    then show "b_psl (?bs ! r) < n" "(hm (b_key (?bs ! r)) + b_psl (?bs ! r)) mod n = r" by auto
  qed
  show "?fs ! prev_loc n r \<and> b_psl (?bs ! r) \<le> Suc (b_psl (?bs ! prev_loc n r))"
    if r: "r < n" "?fs ! r" "r \<noteq> next_loc n q" "0 < b_psl (?bs ! r)" for r
  proof (cases "r = i")
    case True
    then have "1 < b_psl (bs ! q)" using r bi pc d by simp
    then have "fs ! prev_loc n i \<and> Suc d \<le> Suc (Suc (b_psl (bs ! prev_loc n i)))"
      using D(8) fq d by (simp add: q_def)
    moreover have "prev_loc n i \<noteq> i" using D(3) n by (auto simp: prev_loc_def)
    moreover have "prev_loc n i \<noteq> q" using r True D(3) q by auto
    ultimately show ?thesis using True bi other pc by simp
  next
    case False
    then have "r \<noteq> q" using r atq by auto
    then have "fs ! prev_loc n r \<and> b_psl (bs ! r) \<le> Suc (b_psl (bs ! prev_loc n r))"
      using D(7) [of r] r False other by (simp add: q_def)
    moreover have "prev_loc n r \<noteq> i" "prev_loc n r \<noteq> q"
      using r \<open>r \<noteq> q\<close> D(3) q by (auto simp: q_def prev_eq_iff)
    ultimately show ?thesis using False \<open>r \<noteq> q\<close> other by simp
  qed
  show "?fs ! prev_loc n q \<and> b_psl (?bs ! next_loc n q) \<le> Suc (Suc (b_psl (?bs ! prev_loc n q)))"
    if r: "?fs ! next_loc n q" "1 < b_psl (?bs ! next_loc n q)"
  proof (cases "next_loc n q = i")
    case True
    then show ?thesis using bi D(3) by (simp add: q_def)
  next
    case False
    have rq: "next_loc n q \<noteq> q" using next_neq n q by auto
    have "b_psl (bs ! next_loc n q) \<le> Suc (b_psl (bs ! prev_loc n (next_loc n q)))"
      using D(7) [of "next_loc n q"] r False other rq q by (simp add: q_def)
    then show ?thesis using bi other [OF False rq] D(3) q d pc by (simp add: q_def)
  qed
  let ?src = "\<lambda>r. if r = i then q else r"
  have src: "?src r < n \<and> fs ! ?src r \<and> b_key (?bs ! r) = b_key (bs ! ?src r) \<and> r \<noteq> q"
    if "r < n" "?fs ! r" for r
  proof -
    have "r \<noteq> q" using that atq by auto
    then show ?thesis using that q(1) fq pc bi(1) other by (cases "r = i") simp_all
  qed
  show "r = j" if "r < n" "j < n" "?fs ! r" "?fs ! j" "b_key (?bs ! r) = b_key (?bs ! j)" for r j
  proof -
    have "?src r = ?src j"
      using D(9) [of "?src r" "?src j"] src [OF that(1,3)] src [OF that(2,4)] that(5) by metis
    then show ?thesis using src [OF that(1,3)] src [OF that(2,4)] by (metis (full_types))
  qed
  show "?bs ! r = zero_bkt F" if "r < n" "\<not> ?fs ! r" for r
    using that D(10) bi atq other by (cases "r = i"; cases "r = q") auto
qed

lemma stored_move:
  assumes "length bs = n" "length fs = n" "i < n" "q < n" "q \<noteq> i" "\<not> fs ! i" "fs ! q"
    "b_key c = b_key (bs ! q)" "b_val c = b_val (bs ! q)"
  shows "(\<exists>r. stored (bs[i := c, q := z]) (fs[i := True, q := False]) r k v) \<longleftrightarrow> (\<exists>r. stored bs fs r k v)"
proof
  assume "\<exists>r. stored (bs[i := c, q := z]) (fs[i := True, q := False]) r k v"
  then obtain r where r: "stored (bs[i := c, q := z]) (fs[i := True, q := False]) r k v" by blast
  then have rq: "r \<noteq> q" using assms by (auto simp: stored_def)
  show "\<exists>r. stored bs fs r k v"
  proof (cases "r = i")
    case True
    then show ?thesis using r assms by (intro exI [of _ q]) (auto simp: stored_def)
  next
    case False
    then show ?thesis using r rq by (intro exI [of _ r]) (auto simp: stored_def)
  qed
next
  assume "\<exists>r. stored bs fs r k v"
  then obtain r where r: "stored bs fs r k v" by blast
  then have ri: "r \<noteq> i" using assms by (auto simp: stored_def)
  show "\<exists>r. stored (bs[i := c, q := z]) (fs[i := True, q := False]) r k v"
  proof (cases "r = q")
    case True
    then show ?thesis using r assms by (intro exI [of _ i]) (auto simp: stored_def)
  next
    case False
    then show ?thesis using r ri by (intro exI [of _ r]) (auto simp: stored_def)
  qed
qed

lemma count_full_move:
  assumes "i < length fs" "q < length fs" "q \<noteq> i" "\<not> fs ! i" "fs ! q"
  shows "count_full (fs[i := True, q := False]) = count_full fs"
proof -
  have "Suc (count_full (fs[i := True, q := False])) = count_full (fs[i := True])"
    using assms by (intro count_full_clear) auto
  then show ?thesis using count_full_set [of i fs] assms by simp
qed

lemma del_shift_correct:
  assumes "rh_hole F n hm (bs[i := zero_bkt F]) (fs[i := False]) i" "1 < n"
  shows "\<exists>bs' fs'. del_shift F n i bs fs = (bs', fs') \<and> rh_tab F n hm bs' fs' \<and>
           (\<forall>k v. (\<exists>r. stored bs' fs' r k v) \<longleftrightarrow>
                  (\<exists>r. stored (bs[i := zero_bkt F]) (fs[i := False]) r k v)) \<and>
           count_full fs' = count_full (fs[i := False])"
  using assms
proof (induction F n i bs fs rule: del_shift.induct)
  case (1 F n i bs fs)
  let ?bs = "bs[i := zero_bkt F]" and ?fs = "fs[i := False]" and ?q = "next_loc n i"
  note Z = 1(2)
  note D = rh_holeD [OF Z]
  have len: "length bs = n" "length fs = n" using D(1,2) by auto
  have i: "i < n" "?q < n" using D(3) by auto
  have iq: "?q \<noteq> i" using next_neq 1(3) i by auto
  show ?case
  proof (cases "?fs ! ?q = False \<or> b_psl (?bs ! ?q) = 0")
    case True
    then have "del_shift F n i bs fs = (?bs, ?fs)"
      using i len by (subst del_shift.simps) (simp add: Let_def)
    then show ?thesis using hole_closed [OF Z] True by simp
  next
    case False
    let ?c = "(?bs ! ?q)\<lparr>b_psl := b_psl (?bs ! ?q) - 1\<rparr>"
    have f: "?fs ! ?q" "0 < b_psl (?bs ! ?q)" using False by auto
    have step: "del_shift F n i bs fs = del_shift F n ?q (?bs[?q := ?c, i := ?c]) (?fs[i := ?fs ! ?q])"
      using i len False by (subst del_shift.simps) (simp add: Let_def)
    have z1: "(?bs[?q := ?c, i := ?c])[?q := zero_bkt F] = ?bs[i := ?c, ?q := zero_bkt F]"
      using iq by (simp add: list_update_swap [of ?q i])
    have z2: "(?fs[i := ?fs ! ?q])[?q := False] = ?fs[i := True, ?q := False]"
      using f by simp
    have Z': "rh_hole F n hm ((?bs[?q := ?c, i := ?c])[?q := zero_bkt F]) ((?fs[i := ?fs ! ?q])[?q := False]) ?q"
      unfolding z1 z2 by (rule move_hole [OF Z 1(3) f])
    obtain bs' fs' where r: "del_shift F n ?q (?bs[?q := ?c, i := ?c]) (?fs[i := ?fs ! ?q]) = (bs', fs')"
        "rh_tab F n hm bs' fs'"
        "\<And>k v. (\<exists>r. stored bs' fs' r k v) \<longleftrightarrow>
             (\<exists>r. stored (?bs[i := ?c, ?q := zero_bkt F]) (?fs[i := True, ?q := False]) r k v)"
        "count_full fs' = count_full (?fs[i := True, ?q := False])"
      using 1(1) [OF refl refl refl _ _ refl Z' 1(3)] i len f unfolding z1 z2 by auto
    have "(\<exists>r. stored (?bs[i := ?c, ?q := zero_bkt F]) (?fs[i := True, ?q := False]) r k v) \<longleftrightarrow>
          (\<exists>r. stored ?bs ?fs r k v)" for k v
      by (rule stored_move) (use len i iq D(4) f in auto)
    moreover have "count_full (?fs[i := True, ?q := False]) = count_full ?fs"
      by (rule count_full_move) (use len i iq D(4) f in auto)
    ultimately show ?thesis using r step by auto
  qed
qed

lemma del_shift_removes:
  assumes I: "rh_inv H" and i: "i < hm_size H" "hm_full H ! i"
  obtains bs fs where
    "del_shift (hm_fns H) (hm_size H) i (hm_bkts H) (hm_full H) = (bs, fs)"
    "rh_inv (H\<lparr>hm_bkts := bs, hm_full := fs, hm_nitems := hm_nitems H - 1\<rparr>)"
    "map_of (items bs fs) = (hm_map H)(b_key (hm_bkts H ! i) := None)"
proof -
  note D = rh_invD [OF I]
  let ?z = "zero_bkt (hm_fns H)" and ?k = "b_key (hm_bkts H ! i)"
  have Z: "rh_hole (hm_fns H) (hm_size H) (hash_loc H) ((hm_bkts H)[i := ?z]) ((hm_full H)[i := False]) i"
    by (rule make_hole [OF D(4) i D(1)])
  obtain bs fs where r: "del_shift (hm_fns H) (hm_size H) i (hm_bkts H) (hm_full H) = (bs, fs)"
      "rh_tab (hm_fns H) (hm_size H) (hash_loc H) bs fs"
      "\<And>k v. (\<exists>r. stored bs fs r k v) \<longleftrightarrow>
           (\<exists>r. stored ((hm_bkts H)[i := ?z]) ((hm_full H)[i := False]) r k v)"
      "count_full fs = count_full ((hm_full H)[i := False])"
    using del_shift_correct [OF Z D(1)] by blast
  have cnt: "hm_nitems H - 1 = count_full fs"
    using count_full_clear [of i "hm_full H"] i D(5,9) r(4) by simp
  have st: "(\<exists>r. stored ((hm_bkts H)[i := ?z]) ((hm_full H)[i := False]) r k v) \<longleftrightarrow>
      k \<noteq> ?k \<and> (\<exists>r. stored (hm_bkts H) (hm_full H) r k v)" for k v
  proof -
    have 1: "stored ((hm_bkts H)[i := ?z]) ((hm_full H)[i := False]) r k v \<longleftrightarrow>
        r \<noteq> i \<and> stored (hm_bkts H) (hm_full H) r k v" for r
      using i D(8,9) by (cases "r = i") (auto simp: stored_def)
    have 2: "stored (hm_bkts H) (hm_full H) r k v \<Longrightarrow> r = i \<longleftrightarrow> k = ?k" for r
      using rh_tabD(7) [OF D(4), of r i] i D(8) by (auto simp: stored_def)
    show ?thesis using 1 2 by blast
  qed
  have "map_of (items bs fs) = (hm_map H)(?k := None)"
  proof
    fix k
    have "map_of (items bs fs) k = Some v \<longleftrightarrow> ((hm_map H)(?k := None)) k = Some v" for v
      using map_of_items [OF r(2), of k v] hm_map_iff [OF I, of k v] st r(3) by auto
    then show "map_of (items bs fs) k = ((hm_map H)(?k := None)) k" by (metis not_None_eq)
  qed
  moreover have "rh_inv (H\<lparr>hm_bkts := bs, hm_full := fs, hm_nitems := hm_nitems H - 1\<rparr>)"
    using rh_inv_upd [OF I r(2) cnt] by simp
  ultimately show thesis using that r(1) by blast
qed

end
