(* ===== verification/Hmap_Laws.thy ===== *)
theory Hmap_Laws
  imports Hmap_Get_Del
begin

text \<open>
  The contracts of the exported operations of the hash map: resize keeps the contents, put and
  delete refine the update and the removal on maps (growing and shrinking included), merge is
  the sum of the two maps, and the consistency check passes on every table of the invariant.
\<close>

subsection \<open>Loops over the buckets are loops over the items\<close>

lemma for_each_filter:
  "for_each xs (\<lambda>x. if P x then ret () else f x) = for_each (filter (\<lambda>x. \<not> P x) xs) f"
  by (induction xs) auto

lemma for_each_map: "for_each (map g xs) f = for_each xs (\<lambda>x. f (g x))"
  by (induction xs) auto

lemma items_upt:
  assumes "length bs = n" "length fs = n"
  shows "items bs fs = map (\<lambda>i. (b_key (bs ! i), b_val (bs ! i))) (filter (\<lambda>i. fs ! i) [0..<n])"
proof -
  have "zip bs fs = map (\<lambda>i. (bs ! i, fs ! i)) [0..<n]"
    using assms by (intro nth_equalityI) auto
  then show ?thesis by (simp add: items_def filter_map o_def)
qed

lemma for_each_buckets:
  assumes "length bs = n" "length fs = n"
  shows "for_each [0..<n] (\<lambda>i. if fs ! i = False then ret () else f (b_key (bs ! i)) (b_val (bs ! i))) =
         for_each (items bs fs) (\<lambda>(k, v). f k v)"
  by (simp add: items_upt [OF assms] for_each_filter for_each_map)

lemma distinct_items:
  assumes "rh_tab F n hm bs fs"
  shows "distinct (map fst (items bs fs))"
proof -
  note D = rh_tabD [OF assms]
  have "inj_on (\<lambda>i. b_key (bs ! i)) {i. i < n \<and> fs ! i}" using D(7) by (auto simp: inj_on_def)
  then show ?thesis
    by (simp add: items_upt [OF D(1,2)] distinct_map o_def)
qed

lemma length_items:
  assumes "length bs = length fs"
  shows "length (items bs fs) = count_full fs"
proof -
  have "length (items bs fs) = length (filter (\<lambda>i. fs ! i) [0..<length fs])"
    by (simp add: items_upt assms)
  also have "\<dots> = length (filter (\<lambda>f. f) (map ((!) fs) [0..<length fs]))"
    by (simp only: filter_map o_def length_map)
  finally show ?thesis by (simp only: map_nth count_full_def)
qed

subsection \<open>Resize\<close>

lemma same_frame_trans [trans]: "same_frame H H' \<Longrightarrow> same_frame H' H'' \<Longrightarrow> same_frame H H''"
  by (simp add: same_frame_def)

lemma insert_all_new:
  assumes "rh_inv H" "distinct (map fst its)" "\<forall>kv \<in> set its. hm_map H (fst kv) = None"
    "hm_nitems H + length its \<le> hm_size H"
  shows "\<exists>H'. for_each its (\<lambda>(k, v). rs_hmap_insert k v) H = (Inr (), H') \<and> rh_inv H' \<and>
           hm_map H' = hm_map H ++ map_of its \<and> hm_size H' = hm_size H \<and>
           hm_nitems H' = hm_nitems H + length its \<and> same_frame H H'"
  using assms
proof (induction its arbitrary: H)
  case Nil
  then show ?case by (simp add: ret_def same_frame_def)
next
  case (Cons kv its)
  obtain k v where kv: "kv = (k, v)" by (cases kv)
  have none: "hm_map H k = None" and room: "hm_nitems H < hm_size H" using Cons kv by auto
  obtain bs fs where r:
    "rs_hmap_insert k v H = (Inr (), H\<lparr>hm_bkts := bs, hm_full := fs, hm_nitems := Suc (hm_nitems H)\<rparr>)"
    "rh_inv (H\<lparr>hm_bkts := bs, hm_full := fs, hm_nitems := Suc (hm_nitems H)\<rparr>)"
    "map_of (items bs fs) = (hm_map H)(k \<mapsto> v)"
    by (rule insert_new [OF Cons(2) none room])
  let ?H = "H\<lparr>hm_bkts := bs, hm_full := fs, hm_nitems := Suc (hm_nitems H)\<rparr>"
  have m: "hm_map ?H = (hm_map H)(k \<mapsto> v)" by (simp add: hm_map_def hm_items_def r(3)[unfolded hm_map_def hm_items_def])
  have "\<exists>H'. for_each its (\<lambda>(k, v). rs_hmap_insert k v) ?H = (Inr (), H') \<and> rh_inv H' \<and>
           hm_map H' = hm_map ?H ++ map_of its \<and> hm_size H' = hm_size ?H \<and>
           hm_nitems H' = hm_nitems ?H + length its \<and> same_frame ?H H'"
    by (rule Cons.IH [OF r(2)]) (use Cons.prems kv m in force)+
  then obtain H' where H': "for_each its (\<lambda>(k, v). rs_hmap_insert k v) ?H = (Inr (), H')" "rh_inv H'"
    "hm_map H' = hm_map ?H ++ map_of its" "hm_size H' = hm_size H"
    "hm_nitems H' = Suc (hm_nitems H) + length its" "same_frame H H'"
    by (auto simp: same_frame_def)
  have "map_of its k = None" using Cons.prems kv by (auto simp: map_of_eq_None_iff)
  then have "hm_map H' = hm_map H ++ map_of (kv # its)"
    unfolding H'(3) m kv by (auto simp: map_add_def fun_eq_iff split: option.splits)
  moreover have "for_each (kv # its) (\<lambda>(k, v). rs_hmap_insert k v) H = (Inr (), H')"
    using H'(1) r(1) kv by (simp add: seq_def)
  moreover have "hm_nitems H' = hm_nitems H + length (kv # its)" using H'(5) by simp
  ultimately show ?case using H'(2,4,6) by blast
qed

lemma empty_tab:
  shows "rh_tab F n hm (replicate n (zero_bkt F)) (replicate n False)"
  by (rule rh_tabI) auto

lemma items_empty: "items (replicate n b) (replicate n False) = []"
  by (simp add: items_def zip_replicate)

lemma resize_correct:
  assumes I: "rh_inv H" and n: "1 < n" "n \<le> 65536" "hm_nitems H \<le> n" and a: "env_alloc e"
  obtains H' where "rs_hmap_resize e n H = (Inr (), H')" "rh_inv H'" "hm_map H' = hm_map H"
    "hm_size H' = n" "hm_nitems H' = hm_nitems H" "same_frame H H'"
proof -
  note D = rh_invD [OF I]
  define H0 where "H0 = H\<lparr>hm_bkts := replicate n (zero_bkt (hm_fns H)), hm_full := replicate n False,
      hm_size := n, hm_nitems := 0, hm_divinfo := fast_div32_init (word_of_nat n),
      hm_hashkey := ucast (env_hashkey e)\<rparr>"
  have H0: "hm_fns H0 = hm_fns H" "hm_size H0 = n" "hm_nitems H0 = 0" "hm_config H0 = hm_config H"
    "hm_bkts H0 = replicate n (zero_bkt (hm_fns H))" "hm_full H0 = replicate n False"
    "hm_divinfo H0 = fast_div32_init (word_of_nat n)"
    by (simp_all add: H0_def)
  have I0: "rh_inv H0"
    unfolding rh_inv_def H0 using n D(3)
    by (auto simp: count_full_empty intro!: empty_tab)
  have m0: "hm_map H0 = Map.empty" by (simp add: hm_map_def hm_items_def H0 items_empty)
  have len: "length (hm_items H) = hm_nitems H"
    unfolding hm_items_def D(5) by (rule length_items) (simp add: D(8,9))
  have dist: "distinct (map fst (hm_items H))" unfolding hm_items_def by (rule distinct_items [OF D(4)])
  obtain H' where H': "for_each (hm_items H) (\<lambda>(k, v). rs_hmap_insert k v) H0 = (Inr (), H')"
    "rh_inv H'" "hm_map H' = hm_map H0 ++ map_of (hm_items H)" "hm_size H' = n"
    "hm_nitems H' = hm_nitems H" "same_frame H0 H'"
    using insert_all_new [OF I0 dist] n(3) m0 H0 len by auto
  have hw: "high_water (hm_nitems H) \<le> n" "u32 (high_water (hm_nitems H)) = high_water (hm_nitems H)"
    using n by (auto simp: high_water_def)
  have "rs_hmap_resize e n H = (Inr (), H')"
    using n hw a H'(1,5) for_each_buckets [OF D(8,9), of rs_hmap_insert]
    unfolding rs_hmap_resize_def Let_def H0_def [symmetric]
    by (simp add: hm_items_def [symmetric] seq_def UINT_MAX_def)
  moreover have "hm_map H' = hm_map H" using H'(3) m0 by (simp add: hm_map_def)
  moreover have "same_frame H H'" using H'(6) H0 by (simp add: same_frame_def)
  ultimately show thesis using that H' by blast
qed

subsection \<open>Put\<close>

text \<open>There is room for one more item without growing, or the table can double.\<close>

definition room :: "('k, 'v) hmap \<Rightarrow> bool" where
  "room H \<longleftrightarrow> hm_nitems H \<le> high_water (hm_size H) \<or>
     hm_size H \<le> 32760 \<and> (c_max_size (hm_config H) = 0 \<or> 2 * hm_size H \<le> c_max_size (hm_config H))"

lemma insert_correct:
  assumes I: "rh_inv H" and r: "hm_nitems H < hm_size H"
    and upd: "\<And>u. hm_map H k = Some u \<Longrightarrow> val_update (hm_fns H) u v = (0, w u)"
  obtains H' where "rs_hmap_insert k v H = (Inr (), H')" "rh_inv H'" "same_frame H H'"
    "hm_map H' = (hm_map H)(k \<mapsto> (case hm_map H k of None \<Rightarrow> v | Some u \<Rightarrow> w u))"
    "hm_size H' = hm_size H"
    "hm_nitems H' = (if hm_map H k = None then Suc (hm_nitems H) else hm_nitems H)"
proof (cases "hm_map H k")
  case None
  obtain bs fs where
    "rs_hmap_insert k v H = (Inr (), H\<lparr>hm_bkts := bs, hm_full := fs, hm_nitems := Suc (hm_nitems H)\<rparr>)"
    "rh_inv (H\<lparr>hm_bkts := bs, hm_full := fs, hm_nitems := Suc (hm_nitems H)\<rparr>)"
    "map_of (items bs fs) = (hm_map H)(k \<mapsto> v)"
    by (rule insert_new [OF I None r])
  with None show thesis
    by (intro that [of "H\<lparr>hm_bkts := bs, hm_full := fs, hm_nitems := Suc (hm_nitems H)\<rparr>"])
       (simp_all add: same_frame_def hm_map_def hm_items_def)
next
  case (Some u)
  obtain bs where
    "rs_hmap_insert k v H = (Inr (), H\<lparr>hm_bkts := bs\<rparr>)"
    "rh_inv (H\<lparr>hm_bkts := bs\<rparr>)" "map_of (items bs (hm_full H)) = (hm_map H)(k \<mapsto> w u)"
    by (rule insert_present [OF I Some upd [OF Some]])
  with Some show thesis
    by (intro that [of "H\<lparr>hm_bkts := bs\<rparr>"]) (simp_all add: same_frame_def hm_map_def hm_items_def)
qed

lemma high_water_less: "1 < n \<Longrightarrow> high_water n < n"
  by (simp add: high_water_def div_less_iff_less_mult)

lemma calc_new_size_grow:
  assumes "1 < s" "s \<le> 32760" "n \<le> s" "high_water s < n" "mx = 0 \<or> 2 * s \<le> mx"
  shows "calc_new_size n mx s = Inr (prime_geq (2 * s), True)"
proof -
  have "grow_once s = 2 * s"
    using assms by (simp add: grow_once_def MAX_GROWTH_STEP_def Let_def min_def)
  moreover have "n \<le> high_water (2 * s)" using assms(1,3) unfolding high_water_def by linarith
  ultimately show ?thesis
    using assms by (auto simp: calc_new_size_def grow_loop_eq high_water_def UINT_MAX_def Let_def)
qed

lemma put_correct:
  assumes I: "rh_inv H" and r: "room H" and a: "env_alloc e"
    and upd: "\<And>u. hm_map H k = Some u \<Longrightarrow> val_update (hm_fns H) u v = (0, w u)"
  obtains H' where "rs_hmap_put e k v H = (Inr (), H')" "rh_inv H'" "same_frame H H'"
    "hm_map H' = (hm_map H)(k \<mapsto> (case hm_map H k of None \<Rightarrow> v | Some u \<Rightarrow> w u))"
    "hm_size H \<le> hm_size H'" "hm_nitems H' \<le> high_water (hm_size H') + 1"
    "hm_nitems H' = (if hm_map H k = None then Suc (hm_nitems H) else hm_nitems H)"
proof (cases "high_water (hm_size H) < hm_nitems H")
  case False
  note D = rh_invD [OF I]
  have "hm_nitems H < hm_size H" using False high_water_less [OF D(1)] by linarith
  then obtain H' where "rs_hmap_insert k v H = (Inr (), H')" "rh_inv H'" "same_frame H H'"
    "hm_map H' = (hm_map H)(k \<mapsto> (case hm_map H k of None \<Rightarrow> v | Some u \<Rightarrow> w u))"
    "hm_size H' = hm_size H"
    "hm_nitems H' = (if hm_map H k = None then Suc (hm_nitems H) else hm_nitems H)"
    using insert_correct [of H k v w, OF I _ upd] by metis
  with False show thesis by (intro that [of H']) (simp_all add: rs_hmap_put_def)
next
  case True
  note D = rh_invD [OF I]
  let ?n = "prime_geq (2 * hm_size H)"
  have s: "hm_size H \<le> 32760" using r True by (auto simp: room_def)
  have c: "calc_new_size (hm_nitems H) (c_max_size (hm_config H)) (hm_size H) = Inr (?n, True)"
    by (rule calc_new_size_grow) (use r True D s in \<open>auto simp: room_def\<close>)
  have n: "2 * hm_size H < ?n" "?n \<le> 65536"
    using prime_geq_bounds [of "2 * hm_size H"] D(1) s by simp_all
  obtain H1 where H1: "rs_hmap_resize e ?n H = (Inr (), H1)" "rh_inv H1" "hm_map H1 = hm_map H"
    "hm_size H1 = ?n" "hm_nitems H1 = hm_nitems H" "same_frame H H1"
    by (rule resize_correct [OF I _ n(2) _ a, of ?thesis]) (use n(1) D(1,10) in linarith)+
  have fr: "hm_fns H1 = hm_fns H" using H1(6) by (simp add: same_frame_def)
  have "hm_nitems H1 < hm_size H1" using H1 n D(1,10) by simp
  then obtain H' where H': "rs_hmap_insert k v H1 = (Inr (), H')" "rh_inv H'" "same_frame H1 H'"
    "hm_map H' = (hm_map H1)(k \<mapsto> (case hm_map H1 k of None \<Rightarrow> v | Some u \<Rightarrow> w u))"
    "hm_size H' = hm_size H1"
    "hm_nitems H' = (if hm_map H1 k = None then Suc (hm_nitems H1) else hm_nitems H1)"
    using insert_correct [of H1 k v w, OF H1(2)] upd fr H1(3) by metis
  have "hm_nitems H \<le> high_water ?n" using D(1,10) n(1) unfolding high_water_def by linarith
  moreover have "rs_hmap_put e k v H = (Inr (), H')"
    using True c H1(1) H'(1) by (simp add: rs_hmap_put_def seq_def)
  ultimately show thesis
    using H' H1 n same_frame_trans [OF H1(6) H'(3)] by (intro that [of H']) simp_all
qed

subsection \<open>Delete\<close>

lemma del_absent:
  assumes I: "rh_inv H" and r: "hm_nitems H < hm_size H" and none: "hm_map H k = None"
  shows "rs_hmap_del e (Some k) H = (Inr (zero_val (hm_fns H), False), H)"
proof -
  obtain q where q: "q < hm_size H" "\<not> hm_full H ! q"
    using exists_empty [of "hm_full H"] rh_invD(5,9) [OF I] r by metis
  have "del_find H k 0 (hash_loc H k) 0 = Inr None"
    using del_find_absent [OF I none q rh_invD(6) [OF I], of 0] ring_dist_less rh_invD(1) [OF I] by simp
  then show ?thesis by (simp add: rs_hmap_del_def)
qed

lemma del_correct:
  assumes I: "rh_inv H" and some: "hm_map H k = Some u" and a: "env_alloc e" and m: "1 < c_min_size (hm_config H)"
  obtains H' where "rs_hmap_del e (Some k) H = (Inr (u, True), H')" "rh_inv H'" "same_frame H H'"
    "hm_map H' = (hm_map H)(k := None)" "hm_nitems H' = hm_nitems H - 1"
    "hm_size H' = hm_size H \<or> c_min_size (hm_config H) \<le> hm_size H' \<and> hm_nitems H' \<le> high_water (hm_size H') + 1"
proof -
  note D = rh_invD [OF I]
  obtain i where i: "i < hm_size H" "hm_full H ! i" "b_key (hm_bkts H ! i) = k" "b_val (hm_bkts H ! i) = u"
    using some hm_map_iff [OF I, of k u] D(8) by (auto simp: stored_def)
  have find: "del_find H k 0 (hash_loc H k) 0 = Inr (Some i)"
    using del_find_present [OF I i(1-3), of 0] D(6) by simp
  obtain bs fs where s:
    "del_shift (hm_fns H) (hm_size H) i (hm_bkts H) (hm_full H) = (bs, fs)"
    "rh_inv (H\<lparr>hm_bkts := bs, hm_full := fs, hm_nitems := hm_nitems H - 1\<rparr>)"
    "map_of (items bs fs) = (hm_map H)(b_key (hm_bkts H ! i) := None)"
    by (rule del_shift_removes [OF I i(1,2)])
  let ?H = "H\<lparr>hm_bkts := bs, hm_full := fs, hm_nitems := hm_nitems H - 1\<rparr>"
  let ?n = "per_ideal_water (hm_nitems H - 1)" and ?m = "c_min_size (hm_config H)"
  have pos: "0 < hm_nitems H" using count_full_pos i D by metis
  have map: "hm_map ?H = (hm_map H)(k := None)" using s(3) i by (simp add: hm_map_def hm_items_def)
  have fr: "same_frame H ?H" by (simp add: same_frame_def)
  show thesis
  proof (cases "?m < hm_nitems H - 1 \<and> hm_nitems H - 1 < low_water (hm_size H)")
    case False
    then have "rs_hmap_del e (Some k) H = (Inr (u, True), ?H)"
      using find s(1) i pos by (auto simp: rs_hmap_del_def u32_sub_def)
    then show thesis using that s(2) map fr by simp
  next
    case True
    let ?n' = "if ?n < ?m then ?m else ?n"
    have n': "hm_nitems H - 1 \<le> ?n'" "1 < ?n'" "?n' \<le> 65536" "hm_nitems H - 1 \<le> high_water ?n' + 1" "?m \<le> ?n'"
      using True m D(2) unfolding per_ideal_water_def low_water_def high_water_def by (auto split: if_splits)
    obtain H' where H': "rs_hmap_resize e ?n' ?H = (Inr (), H')" "rh_inv H'" "hm_map H' = hm_map ?H"
      "hm_size H' = ?n'" "hm_nitems H' = hm_nitems ?H" "same_frame ?H H'"
      using resize_correct [OF s(2) n'(2,3) _ a] n'(1) by auto
    have "rs_hmap_del e (Some k) H = (Inr (u, True), H')"
      using find s(1) i pos True H'(1) by (auto simp: rs_hmap_del_def u32_sub_def seq_def ret_def Let_def)
    then show thesis
      using that H' map n'(4,5) same_frame_trans [OF fr H'(6)] by simp
  qed
qed

end
