(* ===== verification/Fasthash.thy ===== *)
theory Fasthash
  imports Hmap
begin

text \<open>
  The hash function of the hash maps, \<open>TMPL_FIX_HASHMAP/src/fasthash.c\<close>, on byte lists, and
  the custom functions (\<open>rsx_*\<close>) of the template's instances: the vector map
  (\<open>VCTR_HMAP\<close>), the chunk map (\<open>CHNK_HMAP\<close>), the two examples and the key counter
  (\<open>KEY_COUNTER\<close>).
\<close>

subsection \<open>fasthash\<close>

definition mix :: "64 word \<Rightarrow> 64 word" where
  "mix h = (let h1 = h XOR drop_bit 23 h; h2 = h1 * 0x2127599bf4325c37 in h2 XOR drop_bit 47 h2)"

definition fh_m :: "64 word" where "fh_m = 0x880355f21e6d1965"

text \<open>A little-endian load of up to eight bytes.\<close>

fun load_le :: "8 word list \<Rightarrow> 64 word" where
  "load_le [] = 0"
| "load_le (b # bs) = ucast b OR push_bit 8 (load_le bs)"

function fh_blocks :: "8 word list \<Rightarrow> 64 word \<Rightarrow> 64 word \<times> 8 word list" where
  "fh_blocks bs h =
    (if length bs < 8 then (h, bs)
     else fh_blocks (drop 8 bs) ((h XOR mix (load_le (take 8 bs))) * fh_m))"
  by pat_completeness auto
termination by (relation "measure (\<lambda>(bs, _). length bs)") auto

declare fh_blocks.simps [simp del]

definition fasthash64 :: "8 word list \<Rightarrow> 64 word \<Rightarrow> 64 word" where
  "fasthash64 buf seed =
    (let (h, rest) = fh_blocks buf (seed XOR (word_of_nat (length buf) * fh_m));
         h' = (if rest = [] then h else (h XOR mix (load_le rest)) * fh_m)
     in mix h')"

definition fasthash32 :: "8 word list \<Rightarrow> 32 word \<Rightarrow> 32 word" where
  "fasthash32 buf seed = (let h = fasthash64 buf (ucast seed) in ucast (h - drop_bit 32 h))"

subsection \<open>Instances of the template\<close>

text \<open>The bytes of a \<open>uint32_t\<close> in memory.\<close>

definition bytes32 :: "nat \<Rightarrow> 8 word list" where
  "bytes32 n = map (\<lambda>i. word_of_nat (n div 256 ^ i)) [0, 1, 2, 3]"

definition overwrite :: "'v \<Rightarrow> 'v \<Rightarrow> int \<times> 'v" where
  "overwrite v1 v2 = (0, v2)"

text \<open>The vector map: the key is the vector's unique identifier.\<close>

definition vctr_fns :: "'v \<Rightarrow> (nat, 'v) fns" where
  "vctr_fns zv = \<lparr> key_cmp = (\<lambda>k1 k2. k1 = k2), val_update = overwrite,
     set_hash = (\<lambda>k hashkey. fasthash32 (bytes32 k) (ucast hashkey)),
     zero_key = 0, zero_val = zv \<rparr>"

text \<open>The chunk map: the key is the pair of a vector's identifier and a chunk's index.\<close>

record chnk_key =
  ck_vctr_uqid :: nat
  ck_chnk_idx :: nat

definition chnk_fns :: "'v \<Rightarrow> (chnk_key, 'v) fns" where
  "chnk_fns zv = \<lparr> key_cmp = (\<lambda>k1 k2. ck_vctr_uqid k1 = ck_vctr_uqid k2 \<and> ck_chnk_idx k1 = ck_chnk_idx k2),
     val_update = overwrite,
     set_hash = (\<lambda>k hashkey. fasthash32 (bytes32 (ck_vctr_uqid k) @ bytes32 (ck_chnk_idx k)) (ucast hashkey)),
     zero_key = \<lparr> ck_vctr_uqid = 0, ck_chnk_idx = 0 \<rparr>, zero_val = zv \<rparr>"

text \<open>The order on keys that sorts a dump.\<close>

definition vctr_key_ordr :: "nat \<Rightarrow> nat \<Rightarrow> int" where
  "vctr_key_ordr k1 k2 = (if k1 < k2 then - 1 else 1)"

definition chnk_key_ordr :: "chnk_key \<Rightarrow> chnk_key \<Rightarrow> int" where
  "chnk_key_ordr k1 k2 =
    (if ck_vctr_uqid k1 < ck_vctr_uqid k2 then - 1
     else if ck_vctr_uqid k2 < ck_vctr_uqid k1 then 1
     else if ck_chnk_idx k1 < ck_chnk_idx k2 then - 1 else 1)"

text \<open>The first example sums 32-bit values.\<close>

definition hello_val_update :: "nat \<Rightarrow> nat \<Rightarrow> int \<times> nat" where
  "hello_val_update v1 v2 = (0, u32 (v1 + v2))"

text \<open>The key counter: a value is the number of occurrences and a group identifier.\<close>

record kc_val =
  kc_count :: nat
  kc_guid :: nat

definition kc_val_update :: "kc_val \<Rightarrow> kc_val \<Rightarrow> int \<times> kc_val" where
  "kc_val_update v1 v2 =
    (if kc_guid v1 = 0 then (- 1, v1)
     else if kc_count v1 = 0 then (- 1, v1)
     else (0, v1\<lparr>kc_count := u32 (kc_count v1 + kc_count v2)\<rparr>))"

definition kc_fns :: "('k \<Rightarrow> 8 word list) \<Rightarrow> 'k \<Rightarrow> ('k, kc_val) fns" where
  "kc_fns bytes zk = \<lparr> key_cmp = (\<lambda>k1 k2. k1 = k2), val_update = kc_val_update,
     set_hash = (\<lambda>k hashkey. fasthash32 (bytes k) (ucast hashkey)),
     zero_key = zk, zero_val = \<lparr> kc_count = 0, kc_guid = 0 \<rparr> \<rparr>"

text \<open>\<open>rsx_kc_put\<close>: every occurrence of a key is put with count 1 and the next group
  identifier.\<close>

definition kc_put1 :: "env \<Rightarrow> 'k \<Rightarrow> (('k, kc_val) hmap, unit) prog" where
  "kc_put1 e key H = rs_hmap_put e key \<lparr> kc_count = 1, kc_guid = u32 (hm_nitems H + 1) \<rparr> H"

definition kc_put :: "(nat \<Rightarrow> env) \<Rightarrow> 'k list \<Rightarrow> (('k, kc_val) hmap, unit) prog" where
  "kc_put e keys = for_each [0..<length keys] (\<lambda>i. kc_put1 (e i) (keys ! i))"

definition kc_sum_count :: "('k, kc_val) hmap \<Rightarrow> nat" where
  "kc_sum_count H =
    fold (\<lambda>i s. if hm_full H ! i = False then s else u64 (s + kc_count (b_val (hm_bkts H ! i))))
      [0..<hm_size H] 0"

lemma vctr_fns_cmp [simp]: "key_cmp (vctr_fns zv) a b \<longleftrightarrow> a = b"
  by (simp add: vctr_fns_def)

lemma chnk_fns_cmp [simp]: "key_cmp (chnk_fns zv) a b \<longleftrightarrow> a = b"
  by (cases a; cases b) (simp add: chnk_fns_def)

lemma fns_overwrite [simp]:
  "val_update (vctr_fns zv) u v = (0, v)" "val_update (chnk_fns zv') u' v' = (0, v')"
  by (simp_all add: vctr_fns_def chnk_fns_def overwrite_def)

end
