(* ===== verification/Hmap_Api.thy ===== *)
theory Hmap_Api
  imports Hmap_Laws Fasthash
begin

text \<open>
  The interface under which the rest of the program uses a hash map, as the locale
  \<open>kv_store\<close>: what a look-up returns after any sequence of puts and deletes.  It is
  interpreted on the Robin Hood hash map and on the association lists with which the vector
  layer is modelled, so the two give the same answers.
\<close>

subsection \<open>The interface\<close>

datatype ('k, 'v) cmd = Put 'k 'v | Del 'k

primrec apply_cmd :: "('k, 'v) cmd \<Rightarrow> ('k \<rightharpoonup> 'v) \<Rightarrow> ('k \<rightharpoonup> 'v)" where
  "apply_cmd (Put k v) m = m(k \<mapsto> v)"
| "apply_cmd (Del k) m = m(k := None)"

primrec exec_cmd ::
  "('k \<Rightarrow> 'v \<Rightarrow> ('h, unit) prog) \<Rightarrow> ('k \<Rightarrow> ('h, bool) prog) \<Rightarrow> ('k, 'v) cmd \<Rightarrow> ('h, unit) prog" where
  "exec_cmd put del (Put k v) = put k v"
| "exec_cmd put del (Del k) = seq (del k) (\<lambda>_. ret ())"

locale kv_store =
  fixes inv :: "'h \<Rightarrow> bool"
    and view :: "'h \<Rightarrow> 'k \<rightharpoonup> 'v"
    and key_ok :: "'k \<Rightarrow> bool"
    and cap :: nat
    and get :: "'h \<Rightarrow> 'k \<Rightarrow> error + 'v option"
    and put :: "'k \<Rightarrow> 'v \<Rightarrow> ('h, unit) prog"
    and del :: "'k \<Rightarrow> ('h, bool) prog"
  assumes fin: "inv h \<Longrightarrow> finite (dom (view h))"
    and get_view: "inv h \<Longrightarrow> key_ok k \<Longrightarrow> get h k = Inr (view h k)"
    and put_view: "inv h \<Longrightarrow> card (dom (view h)) \<le> cap \<Longrightarrow>
      \<exists>h'. put k v h = (Inr (), h') \<and> inv h' \<and> view h' = (view h)(k \<mapsto> v)"
    and del_view: "inv h \<Longrightarrow>
      \<exists>h'. del k h = (Inr (view h k \<noteq> None), h') \<and> inv h' \<and> view h' = (view h)(k := None)"
begin

lemma get_after_put:
  assumes "inv h" "card (dom (view h)) \<le> cap" "key_ok k'"
  obtains h' where "put k v h = (Inr (), h')" "inv h'"
    "get h' k' = Inr (if k' = k then Some v else view h k')"
  using put_view [OF assms(1,2), of k v] get_view [OF _ assms(3)] by auto

lemma get_after_del:
  assumes "inv h" "key_ok k'"
  obtains h' where "del k h = (Inr (view h k \<noteq> None), h')" "inv h'"
    "get h' k' = Inr (if k' = k then None else view h k')"
  using del_view [OF assms(1), of k] get_view [OF _ assms(2)] by auto

lemma card_apply_cmd:
  assumes "finite (dom m)"
  shows "card (dom (apply_cmd c m)) \<le> Suc (card (dom m))"
  using assms by (cases c) (auto simp: card_insert_if card_Diff1_le intro: le_SucI)

lemma exec_cmd_view:
  assumes "inv h" "card (dom (view h)) \<le> cap"
  shows "\<exists>h'. exec_cmd put del c h = (Inr (), h') \<and> inv h' \<and> view h' = apply_cmd c (view h)"
proof (cases c)
  case (Put k v)
  then show ?thesis using put_view [OF assms, of k v] by simp
next
  case (Del k)
  then show ?thesis using del_view [OF assms(1), of k] by (auto simp: seq_def ret_def)
qed

lemma run_view:
  assumes "inv h" "card (dom (view h)) + length cs \<le> Suc cap"
  shows "\<exists>h'. for_each cs (exec_cmd put del) h = (Inr (), h') \<and> inv h' \<and>
           view h' = fold apply_cmd cs (view h)"
  using assms
proof (induction cs arbitrary: h)
  case Nil
  then show ?case by (simp add: ret_def)
next
  case (Cons c cs)
  obtain h1 where h1: "exec_cmd put del c h = (Inr (), h1)" "inv h1" "view h1 = apply_cmd c (view h)"
    using exec_cmd_view [of h c] Cons.prems by auto
  have "card (dom (view h1)) \<le> Suc (card (dom (view h)))"
    unfolding h1(3) by (rule card_apply_cmd) (rule fin [OF Cons.prems(1)])
  then show ?case using Cons.IH [OF h1(2)] Cons.prems h1 by (auto simp: seq_def)
qed

end

subsection \<open>The Robin Hood hash map provides it\<close>

text \<open>A map as the program keeps it: never so full that a probe could run round the table, and
  no limit on its size.\<close>

definition rh_ok :: "('k, 'v) hmap \<Rightarrow> bool" where
  "rh_ok H \<longleftrightarrow> rh_inv H \<and> 7 \<le> hm_size H \<and> 7 \<le> c_min_size (hm_config H) \<and>
     c_max_size (hm_config H) = 0 \<and> hm_nitems H \<le> high_water (hm_size H) + 1 \<and>
     (\<forall>u v. val_update (hm_fns H) u v = (0, v))"

definition rh_cap :: nat where "rh_cap = 27846"

definition rh_env :: "32 word \<Rightarrow> env" where
  "rh_env hk = \<lparr> env_hashkey = hk, env_alloc = True \<rparr>"

definition rh_get :: "('k, 'v) hmap \<Rightarrow> 'k \<Rightarrow> error + 'v option" where
  "rh_get H k = (case rs_hmap_get H (Some k) (zero_val (hm_fns H)) of
     Inl er \<Rightarrow> Inl er | Inr (v, is_found, _) \<Rightarrow> Inr (if is_found then Some v else None))"

definition rh_del :: "env \<Rightarrow> 'k \<Rightarrow> (('k, 'v) hmap, bool) prog" where
  "rh_del e k = seq (rs_hmap_del e (Some k)) (\<lambda>(_, is_found). ret is_found)"

lemma rh_ok_slack:
  assumes "rh_ok H"
  shows "hm_nitems H < hm_size H"
proof -
  have "7 \<le> hm_size H" "hm_nitems H \<le> 17 * hm_size H div 20 + 1"
    using assms by (auto simp: rh_ok_def high_water_def)
  then show ?thesis by linarith
qed

lemma nitems_card_dom:
  assumes "rh_inv H"
  shows "hm_nitems H = card (dom (hm_map H))" "finite (dom (hm_map H))"
proof -
  note D = rh_invD [OF assms]
  have d: "dom (hm_map H) = set (map fst (hm_items H))"
    by (simp add: hm_map_def dom_map_of_conv_image_fst)
  have "distinct (map fst (hm_items H))" unfolding hm_items_def by (rule distinct_items [OF D(4)])
  then have "card (dom (hm_map H)) = length (hm_items H)"
    unfolding d by (simp only: distinct_card length_map)
  also have "\<dots> = hm_nitems H"
    unfolding hm_items_def D(5) by (rule length_items) (simp add: D(8,9))
  finally show "hm_nitems H = card (dom (hm_map H))" by simp
  show "finite (dom (hm_map H))" by (simp add: d)
qed

text \<open>The maps of one instance of the template: the function pointers never change.\<close>

definition rh_ok_of :: "('k, 'v) fns \<Rightarrow> ('k, 'v) hmap \<Rightarrow> bool" where
  "rh_ok_of F H \<longleftrightarrow> rh_ok H \<and> hm_fns H = F"

lemma rh_okD:
  assumes "rh_ok H"
  shows "rh_inv H" "7 \<le> hm_size H" "7 \<le> c_min_size (hm_config H)" "c_max_size (hm_config H) = 0"
    "hm_nitems H \<le> high_water (hm_size H) + 1" "val_update (hm_fns H) u v = (0, v)"
  using assms by (simp_all add: rh_ok_def)

lemma rh_room:
  assumes "c_max_size (hm_config H) = 0" "hm_nitems H \<le> rh_cap"
  shows "room H"
proof (cases "hm_size H \<le> 32760")
  case False
  then have "27846 \<le> 17 * hm_size H div 20" by linarith
  then show ?thesis using assms by (simp add: room_def rh_cap_def high_water_def)
qed (use assms in \<open>simp add: room_def\<close>)

lemma rh_ok_frame:
  assumes "rh_ok_of F H" "rh_inv H'" "same_frame H H'" "7 \<le> hm_size H'"
    "hm_nitems H' \<le> high_water (hm_size H') + 1"
  shows "rh_ok_of F H'"
  using assms by (auto simp: rh_ok_of_def rh_ok_def same_frame_def)

lemma rh_put_ok:
  assumes H: "rh_ok_of F H" and c: "card (dom (hm_map H)) \<le> rh_cap"
  shows "\<exists>H'. rs_hmap_put (rh_env hk) k v H = (Inr (), H') \<and> rh_ok_of F H' \<and> hm_map H' = (hm_map H)(k \<mapsto> v)"
proof -
  have ok: "rh_ok H" using H by (simp add: rh_ok_of_def)
  have r: "room H" using rh_room [OF rh_okD(4) [OF ok]] c nitems_card_dom [OF rh_okD(1) [OF ok]] by simp
  obtain H' where H': "rs_hmap_put (rh_env hk) k v H = (Inr (), H')" "rh_inv H'" "same_frame H H'"
    "hm_map H' = (hm_map H)(k \<mapsto> (case hm_map H k of None \<Rightarrow> v | Some u \<Rightarrow> v))"
    "hm_size H \<le> hm_size H'" "hm_nitems H' \<le> high_water (hm_size H') + 1"
    by (rule put_correct [of H "rh_env hk" k v "\<lambda>_. v", OF rh_okD(1) [OF ok] r _ rh_okD(6) [OF ok]])
       (simp_all add: rh_env_def)
  have "rh_ok_of F H'" using rh_ok_frame [OF H H'(2,3) _ H'(6)] H'(5) rh_okD(2) [OF ok] by simp
  moreover have "hm_map H' = (hm_map H)(k \<mapsto> v)" using H'(4) by (cases "hm_map H k") auto
  ultimately show ?thesis using H'(1) by blast
qed

lemma rh_del_ok:
  assumes H: "rh_ok_of F H"
  shows "\<exists>H'. rh_del (rh_env hk) k H = (Inr (hm_map H k \<noteq> None), H') \<and> rh_ok_of F H' \<and>
           hm_map H' = (hm_map H)(k := None)"
proof (cases "hm_map H k")
  case None
  have ok: "rh_ok H" using H by (simp add: rh_ok_of_def)
  have "rs_hmap_del (rh_env hk) (Some k) H = (Inr (zero_val (hm_fns H), False), H)"
    by (rule del_absent [OF rh_okD(1) [OF ok] rh_ok_slack [OF ok] None])
  then show ?thesis using None H by (simp add: rh_del_def seq_def ret_def fun_upd_idem)
next
  case (Some u)
  have ok: "rh_ok H" using H by (simp add: rh_ok_of_def)
  have m: "1 < c_min_size (hm_config H)" using rh_okD(3) [OF ok] by simp
  obtain H' where H': "rs_hmap_del (rh_env hk) (Some k) H = (Inr (u, True), H')" "rh_inv H'" "same_frame H H'"
    "hm_map H' = (hm_map H)(k := None)" "hm_nitems H' = hm_nitems H - 1"
    "hm_size H' = hm_size H \<or> c_min_size (hm_config H) \<le> hm_size H' \<and> hm_nitems H' \<le> high_water (hm_size H') + 1"
    by (rule del_correct [OF rh_okD(1) [OF ok] Some _ m, of "rh_env hk"]) (simp_all add: rh_env_def)
  have "7 \<le> hm_size H'" "hm_nitems H' \<le> high_water (hm_size H') + 1"
    using H'(5,6) rh_okD(2,3,5) [OF ok] by auto
  then have "rh_ok_of F H'" by (rule rh_ok_frame [OF H H'(2,3)])
  then show ?thesis using Some H'(1,4) by (auto simp: rh_del_def seq_def ret_def)
qed

lemma rh_get_ok:
  assumes H: "rh_ok H" and k: "k \<noteq> zero_key (hm_fns H)"
  shows "rh_get H k = Inr (hm_map H k)"
proof (cases "hm_map H k")
  case None
  then show ?thesis
    using get_absent [OF _ None k rh_ok_slack [OF H]] H by (simp add: rh_get_def rh_ok_def)
next
  case (Some u)
  obtain i where "rs_hmap_get H (Some k) (zero_val (hm_fns H)) = Inr (u, True, i)"
    using get_present [OF _ Some] H unfolding rh_ok_def by metis
  then show ?thesis using Some by (simp add: rh_get_def)
qed

text \<open>The interpretation, for every instance of the template whose value update overwrites;
  the seed of a resize is arbitrary.\<close>

interpretation rh: kv_store "rh_ok_of F" hm_map "\<lambda>k. k \<noteq> zero_key F" rh_cap rh_get
    "rs_hmap_put (rh_env hk)" "rh_del (rh_env hk)" for F :: "('k, 'v) fns" and hk
proof (unfold_locales, goal_cases)
  case (1 H)
  then show ?case by (simp add: nitems_card_dom(2) [OF rh_okD(1)] rh_ok_of_def)
next
  case (2 H k)
  then show ?case by (simp add: rh_get_ok rh_ok_of_def)
next
  case (3 H k v)
  then show ?case by (rule rh_put_ok)
next
  case (4 H k)
  then show ?case by (rule rh_del_ok)
qed

subsection \<open>Association lists provide it\<close>

text \<open>The vector layer's model of a hash map: the items, newest keys last, without the
  bucket positions.\<close>

definition al_get :: "('k \<times> 'v) list \<Rightarrow> 'k \<Rightarrow> error + 'v option" where
  "al_get al k = Inr (map_of al k)"

definition al_put :: "'k \<Rightarrow> 'v \<Rightarrow> (('k \<times> 'v) list, unit) prog" where
  "al_put k v al = (Inr (), AList.update k v al)"

definition al_del :: "'k \<Rightarrow> (('k \<times> 'v) list, bool) prog" where
  "al_del k al = (Inr (map_of al k \<noteq> None), AList.delete k al)"

interpretation al: kv_store "\<lambda>al. distinct (map fst al)" map_of "\<lambda>_. True" cap al_get al_put al_del for cap
  by unfold_locales (auto simp: al_get_def al_put_def al_del_def finite_dom_map_of distinct_update distinct_delete)

subsection \<open>A fresh map\<close>

definition fresh_hmap :: "('k, 'v) fns \<Rightarrow> nat \<Rightarrow> 32 word \<Rightarrow> ('k, 'v) hmap" where
  "fresh_hmap F min_size hk =
    (let n = prime_geq min_size in
     \<lparr> hm_size = n, hm_nitems = 0, hm_divinfo = fast_div32_init (word_of_nat n),
       hm_bkts = replicate n (zero_bkt F), hm_full = replicate n False, hm_hashkey = ucast hk,
       hm_config = \<lparr> c_min_size = min_size, c_max_size = 0, c_low_water_mark = 2 / 10,
                     c_high_water_mark = 85 / 100, c_so_file = Some ''so'' \<rparr>,
       hm_fns = F \<rparr>)"

lemma fresh_hmap_ok:
  assumes "7 \<le> n" "n \<le> 65520" "\<And>a b. key_cmp F a b \<longleftrightarrow> a = b" "\<And>u v. val_update F u v = (0, v)"
  shows "rh_ok_of F (fresh_hmap F n hk)" "hm_map (fresh_hmap F n hk) = Map.empty"
proof -
  have b: "n < prime_geq n" "prime_geq n \<le> 65536" using prime_geq_bounds [of n] assms by simp_all
  show "rh_ok_of F (fresh_hmap F n hk)"
    using b assms empty_tab unfolding rh_ok_of_def rh_ok_def rh_inv_def fresh_hmap_def Let_def
    by (auto simp: count_full_empty)
  show "hm_map (fresh_hmap F n hk) = Map.empty"
    by (simp add: fresh_hmap_def hm_map_def hm_items_def Let_def items_empty)
qed

end
