(* ===== verification/Hmap_Thms.thy ===== *)
theory Hmap_Thms
  imports Hmap_Api
begin

text \<open>
  Merge, the consistency check, instantiation and the key counter; then the properties of the
  hash map, each with a witness on a concrete table.
\<close>

subsection \<open>Merge\<close>

lemma fold_upd_map_add:
  "distinct (map fst its) \<Longrightarrow> fold (\<lambda>(k, v) m. m(k \<mapsto> v)) its m = m ++ map_of its"
proof (induction its arbitrary: m)
  case (Cons kv its)
  obtain k v where kv: "kv = (k, v)" by (cases kv)
  have "map_of its k = None" using Cons.prems kv by (auto simp: map_of_eq_None_iff)
  then have "m(k \<mapsto> v) ++ map_of its = m ++ map_of (kv # its)"
    unfolding kv by (auto simp: map_add_def fun_eq_iff split: option.splits)
  moreover have "distinct (map fst its)" using Cons.prems by simp
  ultimately show ?case using Cons.IH [of "m(k \<mapsto> v)"] by (simp only: kv fold_simps prod.case)
qed simp

lemma merge_prefix:
  assumes H: "rh_ok_of F H" and e: "\<And>i. env_alloc (e i)"
    and c: "card (dom (hm_map H)) + length (filter (\<lambda>i. fs ! i) xs) \<le> Suc rh_cap"
  shows "\<exists>H'. for_each xs (\<lambda>i. if fs ! i = False then ret ()
                    else rs_hmap_put (e i) (b_key (bs ! i)) (b_val (bs ! i))) H = (Inr (), H') \<and>
           rh_ok_of F H' \<and>
           hm_map H' = fold (\<lambda>(k, v) m. m(k \<mapsto> v))
             (map (\<lambda>i. (b_key (bs ! i), b_val (bs ! i))) (filter (\<lambda>i. fs ! i) xs)) (hm_map H)"
  using H c
proof (induction xs arbitrary: H)
  case Nil
  then show ?case by (simp add: ret_def)
next
  case (Cons i xs)
  show ?case
  proof (cases "fs ! i")
    case False
    then show ?thesis using Cons by simp
  next
    case True
    have ei: "e i = rh_env (env_hashkey (e i))" using e by (simp add: rh_env_def)
    have cd: "card (dom (hm_map H)) \<le> rh_cap" using Cons.prems(2) True by simp
    obtain H1 where H1: "rs_hmap_put (e i) (b_key (bs ! i)) (b_val (bs ! i)) H = (Inr (), H1)"
      "rh_ok_of F H1" "hm_map H1 = (hm_map H)(b_key (bs ! i) \<mapsto> b_val (bs ! i))"
      using rh.put_view [OF Cons.prems(1) cd, of "env_hashkey (e i)"] ei by metis
    have "card (dom (hm_map H1)) \<le> Suc (card (dom (hm_map H)))"
      unfolding H1(3) using rh.fin [OF Cons.prems(1)] by (simp add: card_insert_if)
    then have "card (dom (hm_map H1)) + length (filter (\<lambda>i. fs ! i) xs) \<le> Suc rh_cap"
      using Cons.prems(2) True by simp
    from Cons.IH [OF H1(2) this] show ?thesis using H1 True by (auto simp: seq_def)
  qed
qed

lemma merge_correct:
  assumes H: "rh_ok_of F H" and S: "rh_inv S" and e: "\<And>i. env_alloc (e i)"
    and c: "hm_nitems H + hm_nitems S \<le> Suc rh_cap"
  shows "\<exists>H'. rs_hmap_merge e S H = (Inr (), H') \<and> rh_ok_of F H' \<and> hm_map H' = hm_map H ++ hm_map S"
proof -
  note D = rh_invD [OF S]
  have I: "rh_inv H" using H by (simp add: rh_ok_of_def rh_ok_def)
  let ?its = "map (\<lambda>i. (b_key (hm_bkts S ! i), b_val (hm_bkts S ! i)))
      (filter (\<lambda>i. hm_full S ! i) [0..<hm_size S])"
  have its: "?its = hm_items S"
    unfolding hm_items_def by (rule items_upt [symmetric]) (simp_all add: D(8,9))
  have len: "length (filter (\<lambda>i. hm_full S ! i) [0..<hm_size S]) = hm_nitems S"
    using arg_cong [OF its, of length] length_items [of "hm_bkts S" "hm_full S"] D(5,8,9)
    by (simp add: hm_items_def)
  have "distinct (map fst (hm_items S))" unfolding hm_items_def by (rule distinct_items [OF D(4)])
  then have "fold (\<lambda>(k, v) m. m(k \<mapsto> v)) ?its (hm_map H) = hm_map H ++ hm_map S"
    unfolding its by (simp add: fold_upd_map_add hm_map_def)
  then show ?thesis
    using merge_prefix [OF H, where e = e and fs = "hm_full S" and xs = "[0..<hm_size S]" and bs = "hm_bkts S"] e c len nitems_card_dom(1) [OF I]
    unfolding rs_hmap_merge_def by (metis (no_types, lifting))
qed

subsection \<open>The consistency check\<close>

lemma chk_holes_run:
  assumes I: "rh_inv H" and i: "i < hm_size H" "hm_full H ! i" and j: "0 < j" "j \<le> b_psl (hm_bkts H ! i)"
  defines "h \<equiv> hash_loc H (b_key (hm_bkts H ! i))"
  shows "ns + j \<le> hm_size H \<Longrightarrow> chk_holes H h ((h + j) mod hm_size H) ns"
  using j
proof (induction j arbitrary: ns)
  case 0
  then show ?case by simp
next
  case (Suc j)
  note P = present_chain [OF I i, folded h_def]
  have n: "0 < hm_size H" using rh_invD(1) [OF I] by simp
  have prev: "(if (h + Suc j) mod hm_size H = 0 then hm_size H - 1 else (h + Suc j) mod hm_size H - 1) =
      (h + j) mod hm_size H"
    using prev_loc_mod [OF n, of h j] unfolding prev_loc_def .
  have f: "hm_full H ! ((h + Suc j) mod hm_size H)" using P(3) [of "Suc j"] Suc.prems by simp
  have step: "chk_holes H h ((h + Suc j) mod hm_size H) ns =
      (if hm_size H \<le> ns then False else if \<not> hm_full H ! ((h + Suc j) mod hm_size H) then False
       else if (h + j) mod hm_size H = h then True
       else chk_holes H h ((h + j) mod hm_size H) (ns + 1))"
    by (subst chk_holes.simps) (simp only: Let_def prev)
  show ?case
  proof (cases "j = 0")
    case True
    have "h < hm_size H" using rh_invD(6) [OF I] by (simp add: h_def)
    then show ?thesis unfolding step using f Suc.prems True by simp
  next
    case False
    then have "chk_holes H h ((h + j) mod hm_size H) (Suc ns)" using Suc by simp
    then show ?thesis unfolding step using f Suc.prems by simp
  qed
qed

lemma chk_bucket_ok:
  assumes I: "rh_inv H" and i: "i < hm_size H"
  shows "chk_bucket H i"
proof (cases "hm_full H ! i")
  case True
  let ?k = "b_key (hm_bkts H ! i)"
  note P = present_chain [OF I i True]
  have "hm_map H ?k = Some (b_val (hm_bkts H ! i))"
    using hm_map_iff [OF I] i True rh_invD(8) [OF I] by (auto simp: stored_def)
  then obtain w where get: "rs_hmap_get H (Some ?k) (zero_val (hm_fns H)) = Inr (b_val (hm_bkts H ! i), True, w)"
    using get_present [OF I] by metis
  show ?thesis
  proof (cases "b_psl (hm_bkts H ! i) = 0")
    case z: True
    then have "hash_loc H ?k = i" using P(1) rh_invD(6) [OF I] by simp
    then show ?thesis using get by (simp add: chk_bucket_def)
  next
    case False
    then have "chk_holes H (hash_loc H ?k) i 0"
      using chk_holes_run [OF I i True, of "b_psl (hm_bkts H ! i)" 0] P(1,2) by simp
    then show ?thesis using get by (simp add: chk_bucket_def)
  qed
qed (simp add: chk_bucket_def)

lemma chk_pairs_distinct: "distinct hs \<Longrightarrow> 0 \<notin> set hs \<Longrightarrow> chk_pairs hs"
  by (induction hs) auto

lemma chk_adjacent_distinct: "distinct hs \<Longrightarrow> chk_adjacent hs"
  by (induction hs rule: chk_adjacent.induct) auto

lemma chk_passes:
  assumes I: "rh_inv H" and inj: "inj_on spooky (dom (hm_map H))"
    and nz: "\<And>k. k \<in> dom (hm_map H) \<Longrightarrow> spooky k \<noteq> 0"
  shows "rs_hmap_chk spooky H"
proof -
  note D = rh_invD [OF I]
  let ?occ = "filter (\<lambda>i. hm_full H ! i) [0..<hm_size H]"
  have keys: "map (\<lambda>i. b_key (hm_bkts H ! i)) ?occ = map fst (hm_items H)"
    by (simp add: hm_items_def items_upt [OF D(8,9)])
  have len: "length ?occ = hm_nitems H"
    using arg_cong [OF keys, of length] length_items [of "hm_bkts H" "hm_full H"] D(5,8,9)
    by (simp add: hm_items_def)
  have hs: "map (\<lambda>i. spooky (b_key (hm_bkts H ! i))) ?occ = map spooky (map fst (hm_items H))"
    unfolding keys [symmetric] by simp
  have d: "dom (hm_map H) = set (map fst (hm_items H))"
    by (simp add: hm_map_def dom_map_of_conv_image_fst)
  have "distinct (map fst (hm_items H))" unfolding hm_items_def by (rule distinct_items [OF D(4)])
  then have dist: "distinct (map spooky (map fst (hm_items H)))"
    using inj unfolding d distinct_map [of spooky] by blast
  have zero: "0 \<notin> set (map spooky (map fst (hm_items H)))"
    using nz unfolding d by (metis imageE set_map)
  show ?thesis
    unfolding rs_hmap_chk_def Let_def hs len
    using dist zero chk_pairs_distinct chk_adjacent_distinct chk_bucket_ok [OF I] by simp
qed

subsection \<open>Instantiation\<close>

lemma instantiate_ok:
  assumes so: "c_so_file HC = Some so" "so \<noteq> []" "so_fns so = Some F"
    and marks: "c_low_water_mark HC = 0" "c_high_water_mark HC = 0"
    and mn: "c_min_size HC = 0 \<or> 2 \<le> c_min_size HC \<and> c_min_size HC \<le> 65520"
    and a: "env_alloc e" and z: "hm_nitems H = 0" and F: "\<And>a b. key_cmp F a b \<longleftrightarrow> a = b"
  shows "\<exists>H'. rs_hmap_instantiate e so_fns HC H = (Inr (), H') \<and> rh_inv H' \<and> hm_map H' = Map.empty \<and>
           hm_fns H' = F"
proof -
  define m where "m = (if c_min_size HC = 0 then HASH_MIN_SIZE else c_min_size HC)"
  have m: "1 < m" "m \<le> 65520" using mn by (auto simp: m_def HASH_MIN_SIZE_def)
  note b = prime_geq_bounds [OF m]
  have 1: "1 < prime_geq m" "0 < prime_geq m" using b m by auto
  obtain H' where H': "rs_hmap_instantiate e so_fns HC H = (Inr (), H')"
    "hm_size H' = prime_geq m" "hm_nitems H' = 0" "hm_divinfo H' = fast_div32_init (word_of_nat (prime_geq m))"
    "hm_bkts H' = replicate (prime_geq m) (zero_bkt F)" "hm_full H' = replicate (prime_geq m) False"
    "hm_fns H' = F"
    using so marks a z by (simp add: rs_hmap_instantiate_def Let_def m_def)
  have "rh_inv H'" unfolding rh_inv_def H'(2-) using 1 b F empty_tab by (auto simp: count_full_empty)
  moreover have "hm_map H' = Map.empty" by (simp add: hm_map_def hm_items_def H'(5,6) items_empty)
  ultimately show ?thesis using H' by blast
qed

section \<open>Properties of the hash map\<close>

text \<open>A concrete table for the witnesses: a fresh vector map of minimum size 7.\<close>

definition h7 :: "(nat, nat) hmap" where
  "h7 = fresh_hmap (vctr_fns 0) 7 0"

lemma h7: "rh_ok_of (vctr_fns 0) h7" "rh_inv h7" "hm_map h7 = Map.empty" "hm_nitems h7 = 0"
  "hm_fns h7 = vctr_fns 0" "7 \<le> hm_size h7"
proof -
  show *: "rh_ok_of (vctr_fns 0) h7" "hm_map h7 = Map.empty"
    unfolding h7_def by (rule fresh_hmap_ok; simp)+
  then show "rh_inv h7" "7 \<le> hm_size h7" by (simp_all add: rh_ok_of_def rh_ok_def)
  show "hm_nitems h7 = 0" "hm_fns h7 = vctr_fns 0" by (simp_all add: h7_def fresh_hmap_def Let_def)
qed

text \<open>C24. Division by the precomputed multiplier is exact: for every 32-bit dividend and every
  nonzero divisor, \<open>fast_div32\<close> and \<open>fast_rem32\<close> with the \<open>divinfo\<close> that
  \<open>fast_div32_init\<close> computes are quotient and remainder, no matter how the 64-bit and 32-bit
  intermediate results wrap.\<close>

theorem fast_div_rem_exact:
  assumes "d \<noteq> 0"
  shows "fast_div32 v d (fast_div32_init d) = v div d \<and> fast_rem32 v d (fast_div32_init d) = v mod d"
  using unat_fast_div32 [OF assms] unat_fast_rem32 [OF assms]
  by (simp add: unat_div unat_mod word_unat_eq_iff)

lemma fast_div_rem_exact_witness:
  "fast_div32 4294967295 7 (fast_div32_init 7) = 4294967295 div 7 \<and>
   fast_rem32 4294967295 7 (fast_div32_init 7) = 4294967295 mod 7"
  by (rule fast_div_rem_exact) simp

text \<open>C2. Insertion terminates and refines map update: on a table of the invariant with at least
  one empty bucket, \<open>rs_hmap_insert\<close> succeeds, keeps the Robin Hood invariant, and the
  contents become the old contents with the key bound to the new value, or to the merged value
  when the key was present.\<close>

theorem insert_refines_update:
  assumes "rh_inv H" "hm_nitems H < hm_size H"
    and "\<And>u. hm_map H k = Some u \<Longrightarrow> val_update (hm_fns H) u v = (0, w u)"
  shows "\<exists>H'. rs_hmap_insert k v H = (Inr (), H') \<and> rh_inv H' \<and> hm_size H' = hm_size H \<and>
           hm_map H' = (hm_map H)(k \<mapsto> (case hm_map H k of None \<Rightarrow> v | Some u \<Rightarrow> w u))"
proof (rule insert_correct [of H k v w, OF assms])
  fix H'
  assume "rs_hmap_insert k v H = (Inr (), H')" "rh_inv H'" "hm_size H' = hm_size H"
    "hm_map H' = (hm_map H)(k \<mapsto> (case hm_map H k of None \<Rightarrow> v | Some u \<Rightarrow> w u))"
  then show ?thesis by blast
qed

lemma insert_refines_update_witness:
  "\<exists>H'. rs_hmap_insert 5 (9 :: nat) h7 = (Inr (), H') \<and> rh_inv H' \<and> hm_size H' = hm_size h7 \<and>
     hm_map H' = (hm_map h7)(5 \<mapsto> (case hm_map h7 5 of None \<Rightarrow> 9 | Some u \<Rightarrow> u))"
  by (rule insert_refines_update [where w = "\<lambda>u. u"]) (simp_all add: h7(2,3,4), use h7(6) in simp)

text \<open>C4. Look-up is exact for every key but the all-zero one: \<open>rs_hmap_get\<close> always returns,
  finds a key exactly when it is in the table, hands back its value, and leaves the caller's
  value alone otherwise.\<close>

theorem get_exact:
  assumes "rh_inv H" "hm_nitems H < hm_size H" "k \<noteq> zero_key (hm_fns H)"
  shows "case hm_map H k of
           None \<Rightarrow> rs_hmap_get H (Some k) v = Inr (v, False, UINT_MAX)
         | Some u \<Rightarrow> \<exists>i < hm_size H. rs_hmap_get H (Some k) v = Inr (u, True, i)"
proof (cases "hm_map H k")
  case (Some u)
  obtain i where "rs_hmap_get H (Some k) v = Inr (u, True, i)" "stored (hm_bkts H) (hm_full H) i k u"
    by (rule get_present [OF assms(1) Some])
  then show ?thesis using rh_invD(8) [OF assms(1)] by (auto simp: Some stored_def)
qed (use get_absent [OF assms(1) _ assms(3,2)] in simp)

lemma get_exact_witness:
  "case hm_map h7 5 of
     None \<Rightarrow> rs_hmap_get h7 (Some 5) 3 = Inr (3, False, UINT_MAX)
   | Some u \<Rightarrow> \<exists>i < hm_size h7. rs_hmap_get h7 (Some 5) 3 = Inr (u, True, i)"
  by (rule get_exact) (use h7 in \<open>simp_all add: vctr_fns_def\<close>)

text \<open>C40. The all-zero key is answered for by an empty bucket: look-up compares the key before it
  looks at \<open>bkt_full\<close>, so a table that does not hold the all-zero key, and whose home bucket for
  it is empty, still reports it as found, with an all-zero value.\<close>

theorem get_phantom_zero_key:
  assumes "rh_inv H" "\<not> hm_full H ! hash_loc H (zero_key (hm_fns H))"
    "hm_map H (zero_key (hm_fns H)) = None"
  shows "rs_hmap_get H (Some (zero_key (hm_fns H))) v =
           Inr (zero_val (hm_fns H), True, hash_loc H (zero_key (hm_fns H)))"
  using get_zero_key_phantom [OF assms(1,2)] by simp

lemma get_phantom_zero_key_witness:
  "rs_hmap_get h7 (Some (zero_key (hm_fns h7))) 3 =
     Inr (zero_val (hm_fns h7), True, hash_loc h7 (zero_key (hm_fns h7)))"
proof (rule get_phantom_zero_key [OF h7(2)])
  have "hm_full h7 = replicate (hm_size h7) False" by (simp add: h7_def fresh_hmap_def Let_def)
  then show "\<not> hm_full h7 ! hash_loc h7 (zero_key (hm_fns h7))"
    using rh_invD(6) [OF h7(2)] by simp
  show "hm_map h7 (zero_key (hm_fns h7)) = None" by (simp add: h7(3))
qed

text \<open>C3. Deletion refines removal: the backward shift and, when the load has fallen below the low
  water mark, the shrinking of the table, leave exactly the other keys with their values, the
  item count goes down by one, and the deleted value is handed back; a key that is not there
  leaves the table as it is.\<close>

theorem del_refines_remove:
  assumes "rh_inv H" "hm_nitems H < hm_size H" "env_alloc e" "1 < c_min_size (hm_config H)"
  shows "case hm_map H k of
           None \<Rightarrow> rs_hmap_del e (Some k) H = (Inr (zero_val (hm_fns H), False), H)
         | Some u \<Rightarrow> \<exists>H'. rs_hmap_del e (Some k) H = (Inr (u, True), H') \<and> rh_inv H' \<and>
                      hm_map H' = (hm_map H)(k := None) \<and> hm_nitems H' = hm_nitems H - 1"
proof (cases "hm_map H k")
  case (Some u)
  show ?thesis unfolding Some option.simps by (rule del_correct [OF assms(1) Some assms(3,4)]) auto
qed (use del_absent [OF assms(1,2)] in simp)

text \<open>Two items are put, one of them is deleted.\<close>

lemma del_refines_remove_witness:
  "\<exists>H1 H2 H3. rs_hmap_put (rh_env 1) 5 9 h7 = (Inr (), H1) \<and> rs_hmap_put (rh_env 1) 6 8 H1 = (Inr (), H2) \<and>
     rs_hmap_del (rh_env 1) (Some 5) H2 = (Inr (9, True), H3) \<and> rh_inv H3 \<and> hm_map H3 = [6 \<mapsto> 8]"
proof -
  have c: "card (dom (hm_map h7)) \<le> rh_cap" by (simp add: h7(3))
  obtain H1 where H1: "rs_hmap_put (rh_env 1) 5 9 h7 = (Inr (), H1)" "rh_ok_of (vctr_fns 0) H1" "hm_map H1 = [5 \<mapsto> 9]"
    using rh_put_ok [OF h7(1) c, of 1 5 9] h7(3) by auto
  have c1: "card (dom (hm_map H1)) \<le> rh_cap" by (simp add: H1(3) rh_cap_def)
  obtain H2 where H2: "rs_hmap_put (rh_env 1) 6 8 H1 = (Inr (), H2)" "rh_ok_of (vctr_fns 0) H2" "hm_map H2 = [5 \<mapsto> 9, 6 \<mapsto> 8]"
    using rh_put_ok [OF H1(2) c1, of 1 6 8] H1(3) by auto
  have ok: "rh_ok H2" using H2(2) by (simp add: rh_ok_of_def)
  have e: "env_alloc (rh_env 1)" and m: "1 < c_min_size (hm_config H2)" using rh_okD(3) [OF ok] by (simp_all add: rh_env_def)
  show ?thesis
    using del_refines_remove [OF rh_okD(1) [OF ok] rh_ok_slack [OF ok] e m, of 5] H1(1) H2(1,3) by (auto simp: fun_eq_iff)
qed

text \<open>Rehashing keeps the contents: resizing to any size that can hold the items, with a new
  seed and a new divisor, succeeds, and the table has the same keys with the same values.\<close>

theorem resize_keeps_contents:
  assumes "rh_inv H" "1 < n" "n \<le> 65536" "hm_nitems H \<le> n" "env_alloc e"
  shows "\<exists>H'. rs_hmap_resize e n H = (Inr (), H') \<and> rh_inv H' \<and> hm_map H' = hm_map H \<and>
           hm_size H' = n \<and> hm_nitems H' = hm_nitems H"
  by (rule resize_correct [OF assms]) auto

lemma resize_keeps_contents_witness:
  "\<exists>H'. rs_hmap_resize (rh_env 1) 100 h7 = (Inr (), H') \<and> rh_inv H' \<and> hm_map H' = hm_map h7 \<and>
     hm_size H' = 100 \<and> hm_nitems H' = hm_nitems h7"
  by (rule resize_keeps_contents) (use h7 in \<open>simp_all add: rh_env_def\<close>)

text \<open>C1. Any sequence of at most 27847 puts and deletes on a fresh map, with all the growing and
  shrinking it causes, succeeds, and afterwards a look-up of any nonzero key returns what the
  sequence of updates and removals on a map returns; the association lists of the vector layer's
  model give the same answers.\<close>

theorem hmap_runs_as_map:
  assumes "7 \<le> n" "n \<le> 65520" "length cs \<le> Suc rh_cap" "k \<noteq> zero_key F"
    "\<And>a b. key_cmp F a b \<longleftrightarrow> a = b" "\<And>u v. val_update F u v = (0, v)"
  shows "\<exists>H' al. for_each cs (exec_cmd (rs_hmap_put (rh_env hk)) (rh_del (rh_env hk))) (fresh_hmap F n hk0) = (Inr (), H') \<and>
           for_each cs (exec_cmd al_put al_del) [] = (Inr (), al) \<and>
           rh_get H' k = Inr (fold apply_cmd cs Map.empty k) \<and> rh_get H' k = al_get al k"
proof -
  note fr = fresh_hmap_ok [OF assms(1,2,5,6), of hk0]
  obtain H' where H': "for_each cs (exec_cmd (rs_hmap_put (rh_env hk)) (rh_del (rh_env hk))) (fresh_hmap F n hk0) = (Inr (), H')"
    "rh_ok_of F H'" "hm_map H' = fold apply_cmd cs Map.empty"
    using rh.run_view [OF fr(1), of cs hk] fr(2) assms(3) by auto
  obtain al where al: "for_each cs (exec_cmd al_put al_del) [] = (Inr (), al)" "map_of al = fold apply_cmd cs Map.empty"
    using al.run_view [of "[]" cs "length cs"] by auto
  then show ?thesis
    using H' rh.get_view [OF H'(2) assms(4)] by (auto simp: al_get_def)
qed

lemma hmap_runs_as_map_witness:
  "\<exists>H' al. for_each [Put 3 4, Del 3, Put 5 (6 :: nat)]
        (exec_cmd (rs_hmap_put (rh_env 1)) (rh_del (rh_env 1))) (fresh_hmap (vctr_fns 0) 7 0) = (Inr (), H') \<and>
      for_each [Put (3 :: nat) 4, Del 3, Put 5 (6 :: nat)] (exec_cmd al_put al_del) [] = (Inr (), al) \<and>
      rh_get H' 5 = Inr (fold apply_cmd [Put 3 4, Del 3, Put (5 :: nat) 6] Map.empty 5) \<and> rh_get H' 5 = al_get al 5"
  by (rule hmap_runs_as_map) (simp_all add: rh_cap_def vctr_fns_def overwrite_def)

text \<open>Merging a map into another adds its items, the merged map's values winning; the source
  is any table of the invariant.\<close>

theorem merge_is_map_add:
  assumes "rh_ok_of F H" "rh_inv S" "\<And>i. env_alloc (e i)" "hm_nitems H + hm_nitems S \<le> Suc rh_cap"
  shows "\<exists>H'. rs_hmap_merge e S H = (Inr (), H') \<and> rh_inv H' \<and> hm_map H' = hm_map H ++ hm_map S"
  using merge_correct [where e = e, OF assms(1-4)] by (auto simp: rh_ok_of_def rh_ok_def)

lemma merge_is_map_add_witness:
  "\<exists>H'. rs_hmap_merge (\<lambda>_. rh_env 1) h7 h7 = (Inr (), H') \<and> rh_inv H' \<and> hm_map H' = hm_map h7 ++ hm_map h7"
  by (rule merge_is_map_add [OF h7(1,2)]) (simp_all add: rh_env_def h7(4))

text \<open>The consistency check accepts every table of the invariant on whose keys the check's
  hash is injective and not zero: it raises no false alarm.\<close>

theorem chk_accepts_invariant:
  assumes "rh_inv H" "inj_on spooky (dom (hm_map H))" "\<forall>k \<in> dom (hm_map H). spooky k \<noteq> 0"
  shows "rs_hmap_chk spooky H"
  by (rule chk_passes) (use assms in auto)

lemma chk_accepts_invariant_witness: "rs_hmap_chk (\<lambda>k. k + 1) h7"
  by (rule chk_accepts_invariant) (simp_all add: h7)

text \<open>Growing ends unless the table is overfull: \<open>calc_new_size\<close> does not return exactly
  when the items exceed both the high water mark of the current size and that of one growth step,
  because its loop recomputes the same new size.\<close>

theorem calc_new_size_diverges_iff:
  "calc_new_size nitems mx sz = Inl Diverges \<longleftrightarrow>
     high_water sz < nitems \<and> high_water (grow_once sz) < nitems"
  by (auto simp: calc_new_size_def grow_loop_eq Let_def)

text \<open>\<open>prime_geq\<close> never returns its argument: the parity test \<open>n % 0x1 == 1\<close> is always
  false, so the search starts at \<open>n + 1\<close>, and from an odd \<open>n\<close> it runs over even numbers only.
  Up to 65520 the result is larger than \<open>n\<close> and at most 65536, and no odd number from 3 to its
  square root divides it.\<close>

theorem prime_geq_skips:
  assumes "1 < n" "n \<le> 65520"
  shows "n < prime_geq n \<and> prime_geq n \<le> 65536 \<and>
         (\<forall>j. odd j \<and> 3 \<le> j \<and> j * j \<le> prime_geq n \<longrightarrow> prime_geq n mod j \<noteq> 0)"
proof -
  have e: "prime_geq n = prime_loop (n + 1)" using assms by (simp add: prime_geq_def)
  have "no_odd_factor (prime_geq n) 3" unfolding e by (rule prime_loop_no_odd_factor)
  then have "\<forall>j. odd j \<and> 3 \<le> j \<and> j * j \<le> prime_geq n \<longrightarrow> prime_geq n mod j \<noteq> 0"
    using no_odd_factor_sound [of "prime_geq n" 3] by auto
  then show ?thesis using prime_geq_bounds [OF assms] by blast
qed

lemma prime_geq_skips_witness: "8 < prime_geq 8 \<and> prime_geq 8 \<le> 65536 \<and> prime_geq 8 mod 3 \<noteq> 0"
  using prime_geq_skips [of 8] by (auto dest: spec [of _ 3])

lemma prime_geq_7: "prime_geq 7 = 8"
  by (simp add: prime_geq_def prime_loop.simps no_odd_factor.simps)

text \<open>Instantiation from a configuration that leaves the water marks at 0 yields an empty
  table of the invariant; one that sets the low water mark is refused, since the configured
  value is never copied into the (zeroed) table before it is checked.\<close>

theorem instantiate_empty_or_refused:
  assumes "c_so_file HC = Some so" "so \<noteq> []" "so_fns so = Some F" "\<And>a b. key_cmp F a b \<longleftrightarrow> a = b"
    "c_min_size HC = 0 \<or> 2 \<le> c_min_size HC \<and> c_min_size HC \<le> 65520"
    "env_alloc e" "hm_nitems H = 0" "c_low_water_mark (hm_config H) = 0" "c_high_water_mark HC = 0"
  shows "if c_low_water_mark HC = 0
         then \<exists>H'. rs_hmap_instantiate e so_fns HC H = (Inr (), H') \<and> rh_inv H' \<and> hm_map H' = Map.empty
         else fst (rs_hmap_instantiate e so_fns HC H) = Inl (Status (- 1))"
proof (cases "c_low_water_mark HC = 0")
  case True
  then show ?thesis
    using instantiate_ok [where so_fns = so_fns, OF assms(1-3) True assms(9,5,6,7,4)] by auto
next
  case False
  then show ?thesis using assms(8) by (simp add: rs_hmap_instantiate_def Let_def)
qed

lemma instantiate_empty_or_refused_witness:
  "let HC = \<lparr> c_min_size = 0, c_max_size = 0, c_low_water_mark = 0, c_high_water_mark = 0, c_so_file = Some ''x'' \<rparr>
   in if c_low_water_mark HC = 0
      then \<exists>H'. rs_hmap_instantiate (rh_env 1) (\<lambda>_. Some (vctr_fns (0::nat))) HC (rs_hmap_destroy h7) = (Inr (), H') \<and>
             rh_inv H' \<and> hm_map H' = Map.empty
      else fst (rs_hmap_instantiate (rh_env 1) (\<lambda>_. Some (vctr_fns 0)) HC (rs_hmap_destroy h7)) = Inl (Status (- 1))"
  unfolding Let_def
  by (rule instantiate_empty_or_refused [where so = "''x''" and F = "vctr_fns 0"])
     (simp_all add: rh_env_def rs_hmap_destroy_def)

end
