(* ===== verification/Key_Counter.thy ===== *)
theory Key_Counter
  imports Hmap_Thms
begin

text \<open>
  The key counter of \<open>TMPL_FIX_HASHMAP/KEY_COUNTER\<close>: putting every element of a column into
  the map counts the occurrences of each value and numbers the distinct values in the order of
  their first occurrence.
\<close>

text \<open>The abstract specification: the count and the group identifier of \<open>k\<close> in \<open>ks\<close>.\<close>

definition kc_spec :: "'k list \<Rightarrow> 'k \<rightharpoonup> kc_val" where
  "kc_spec ks k =
    (if k \<in> set ks
     then Some \<lparr> kc_count = count_list ks k, kc_guid = Suc (card (set (takeWhile (\<lambda>x. x \<noteq> k) ks))) \<rparr>
     else None)"

lemma kc_spec_Nil [simp]: "kc_spec [] = Map.empty"
  by (simp add: kc_spec_def fun_eq_iff)

lemma takeWhile_neq_append:
  "k \<in> set ks \<Longrightarrow> takeWhile (\<lambda>x. x \<noteq> k) (ks @ xs) = takeWhile (\<lambda>x. x \<noteq> k) ks"
  "k \<notin> set ks \<Longrightarrow> takeWhile (\<lambda>x. x \<noteq> k) (ks @ [k]) = ks"
proof -
  show "k \<in> set ks \<Longrightarrow> takeWhile (\<lambda>x. x \<noteq> k) (ks @ xs) = takeWhile (\<lambda>x. x \<noteq> k) ks"
    by (rule takeWhile_append1) auto
  show "k \<notin> set ks \<Longrightarrow> takeWhile (\<lambda>x. x \<noteq> k) (ks @ [k]) = ks"
    by (subst takeWhile_append2) auto
qed

lemma kc_spec_snoc:
  "kc_spec (ks @ [k]) = (kc_spec ks)(k \<mapsto>
     (case kc_spec ks k of
        None \<Rightarrow> \<lparr> kc_count = 1, kc_guid = Suc (card (set ks)) \<rparr>
      | Some u \<Rightarrow> u\<lparr>kc_count := kc_count u + 1\<rparr>))"
  by (rule ext) (auto simp: kc_spec_def takeWhile_neq_append count_notin)

lemma dom_kc_spec: "dom (kc_spec ks) = set ks"
  by (auto simp: kc_spec_def split: if_splits)

definition kc_ok :: "('k \<Rightarrow> 8 word list) \<Rightarrow> 'k \<Rightarrow> ('k, kc_val) hmap \<Rightarrow> bool" where
  "kc_ok bytes zk H \<longleftrightarrow> rh_inv H \<and> hm_fns H = kc_fns bytes zk \<and> c_max_size (hm_config H) = 0"

lemma kc_ok_frame: "kc_ok bytes zk H \<Longrightarrow> rh_inv H' \<Longrightarrow> same_frame H H' \<Longrightarrow> kc_ok bytes zk H'"
  by (simp add: kc_ok_def same_frame_def)

text \<open>One element more.\<close>

lemma kc_put1_spec:
  assumes ok: "kc_ok bytes zk H" and m: "hm_map H = kc_spec ks" and len: "length ks \<le> rh_cap" and e: "env_alloc e"
  shows "\<exists>H'. kc_put1 e k H = (Inr (), H') \<and> kc_ok bytes zk H' \<and> hm_map H' = kc_spec (ks @ [k])"
proof -
  have I: "rh_inv H" and fns: "hm_fns H = kc_fns bytes zk" and mx: "c_max_size (hm_config H) = 0"
    using ok by (auto simp: kc_ok_def)
  have n: "hm_nitems H = card (set ks)"
    using nitems_card_dom(1) [OF I] by (simp add: m dom_kc_spec)
  then have nle: "hm_nitems H \<le> rh_cap" using card_length [of ks] len by simp
  have guid: "u32 (hm_nitems H + 1) = Suc (card (set ks))" using n nle by (simp add: rh_cap_def)
  let ?v = "\<lparr> kc_count = 1, kc_guid = Suc (card (set ks)) \<rparr>"
  let ?w = "\<lambda>u. u\<lparr>kc_count := kc_count u + 1\<rparr>"
  have upd: "val_update (hm_fns H) u ?v = (0, ?w u)" if "hm_map H k = Some u" for u
  proof -
    have u: "k \<in> set ks" "kc_count u = count_list ks k" "0 < kc_guid u"
      using that unfolding m kc_spec_def by (auto split: if_splits)
    have "0 < count_list ks k" using u(1) by (metis count_list_0_iff gr0I)
    moreover have "count_list ks k + 1 < 4294967296"
      using count_le_length [of ks k] len by (simp add: rh_cap_def)
    ultimately show ?thesis using u by (simp add: fns kc_fns_def kc_val_update_def)
  qed
  obtain H' where H': "rs_hmap_put e k ?v H = (Inr (), H')" "rh_inv H'" "same_frame H H'"
    "hm_map H' = (hm_map H)(k \<mapsto> (case hm_map H k of None \<Rightarrow> ?v | Some u \<Rightarrow> ?w u))"
    by (rule put_correct [of H e k ?v ?w, OF I rh_room [OF mx nle] e upd])
  then have "hm_map H' = kc_spec (ks @ [k])" by (simp add: m kc_spec_snoc)
  moreover have "kc_put1 e k H = (Inr (), H')" using H'(1) unfolding kc_put1_def guid .
  ultimately show ?thesis using kc_ok_frame [OF ok H'(2,3)] by blast
qed

lemma for_each_append: "for_each (xs @ ys) f = seq (for_each xs f) (\<lambda>_. for_each ys f)"
  by (induction xs) (simp_all add: seq_assoc)

lemma kc_put_prefix:
  assumes ok: "kc_ok bytes zk H" and m: "hm_map H = Map.empty" and len: "length ks \<le> Suc rh_cap"
    and e: "\<And>i. env_alloc (e i)" and n: "n \<le> length ks"
  shows "\<exists>H'. for_each [0..<n] (\<lambda>i. kc_put1 (e i) (ks ! i)) H = (Inr (), H') \<and>
           kc_ok bytes zk H' \<and> hm_map H' = kc_spec (take n ks)"
  using n
proof (induction n)
  case 0
  then show ?case using ok m by (simp add: ret_def)
next
  case (Suc n)
  then obtain H1 where H1: "for_each [0..<n] (\<lambda>i. kc_put1 (e i) (ks ! i)) H = (Inr (), H1)"
    "kc_ok bytes zk H1" "hm_map H1 = kc_spec (take n ks)" by auto
  have "length (take n ks) \<le> rh_cap" using Suc.prems len by simp
  then obtain H2 where "kc_put1 (e n) (ks ! n) H1 = (Inr (), H2)" "kc_ok bytes zk H2"
    "hm_map H2 = kc_spec (take n ks @ [ks ! n])"
    using kc_put1_spec [OF H1(2,3) _ e] by blast
  then show ?case
    using H1 Suc.prems by (auto simp: for_each_append seq_def ret_def take_Suc_conv_app_nth)
qed

lemma kc_put_correct:
  assumes "kc_ok bytes zk H" "hm_map H = Map.empty" "length ks \<le> Suc rh_cap" "\<And>i. env_alloc (e i)"
  shows "\<exists>H'. kc_put e ks H = (Inr (), H') \<and> kc_ok bytes zk H' \<and> hm_map H' = kc_spec ks"
  using kc_put_prefix [OF assms(1-4), of "length ks"] by (simp add: kc_put_def)

subsection \<open>The sum of the counts\<close>

lemma fold_u64_sum:
  "fold (\<lambda>i s. if P i = False then s else u64 (s + g i)) xs s0 mod 2 ^ 64 =
     (s0 + sum_list (map g (filter P xs))) mod 2 ^ 64"
proof (induction xs arbitrary: s0)
  case (Cons x xs)
  then show ?case by (cases "P x") (simp_all add: u64_def mod_add_left_eq add.assoc)
qed simp

lemma fold_u64_lt:
  "s0 < 2 ^ 64 \<Longrightarrow> fold (\<lambda>i s. if P i = False then s else u64 (s + g i)) xs s0 < (2::nat) ^ 64"
  by (induction xs arbitrary: s0) (simp_all add: u64_def)

lemma sum_counts:
  assumes "kc_ok bytes zk H" "hm_map H = kc_spec ks" "length ks < 2 ^ 64"
  shows "kc_sum_count H = length ks"
proof -
  have I: "rh_inv H" using assms(1) by (simp add: kc_ok_def)
  note D = rh_invD [OF I]
  let ?occ = "filter (\<lambda>i. hm_full H ! i) [0..<hm_size H]"
  have its: "hm_items H = map (\<lambda>i. (b_key (hm_bkts H ! i), b_val (hm_bkts H ! i))) ?occ"
    by (simp add: hm_items_def items_upt [OF D(8,9)])
  have dist: "distinct (map fst (hm_items H))" unfolding hm_items_def by (rule distinct_items [OF D(4)])
  have set: "set (map fst (hm_items H)) = set ks"
    using dom_kc_spec [of ks] unfolding assms(2) [symmetric] hm_map_def
    by (simp add: dom_map_of_conv_image_fst)
  have v: "kc_count v = count_list ks k" if "(k, v) \<in> set (hm_items H)" for k v
  proof -
    have "hm_map H k = Some v" unfolding hm_map_def by (rule distinct_fst_eq [OF dist that])
    then show ?thesis unfolding assms(2) kc_spec_def by (auto split: if_splits)
  qed
  have "sum_list (map (\<lambda>i. kc_count (b_val (hm_bkts H ! i))) ?occ) =
      sum_list (map (\<lambda>kv. kc_count (snd kv)) (hm_items H))"
    by (simp add: its o_def)
  also have "\<dots> = sum_list (map (count_list ks) (map fst (hm_items H)))"
    using v by (auto intro!: arg_cong [of _ _ sum_list])
  also have "\<dots> = sum (count_list ks) (set ks)"
    using dist set by (simp add: sum_list_distinct_conv_sum_set del: map_map)
  also have "\<dots> = length ks" by (rule sum_count_set) simp_all
  finally have s: "sum_list (map (\<lambda>i. kc_count (b_val (hm_bkts H ! i))) ?occ) = length ks" .
  have "kc_sum_count H < 2 ^ 64" unfolding kc_sum_count_def by (rule fold_u64_lt) simp
  then have "kc_sum_count H = kc_sum_count H mod 2 ^ 64" by simp
  also have "\<dots> = (0 + length ks) mod 2 ^ 64" unfolding kc_sum_count_def fold_u64_sum s ..
  finally show ?thesis using assms(3) by simp
qed

lemma fresh_kc:
  assumes "1 < n" "n \<le> 65520"
  shows "kc_ok bytes zk (fresh_hmap (kc_fns bytes zk) n hk)" "hm_map (fresh_hmap (kc_fns bytes zk) n hk) = Map.empty"
proof -
  have b: "n < prime_geq n" "prime_geq n \<le> 65536" using prime_geq_bounds [of n] assms by simp_all
  show "kc_ok bytes zk (fresh_hmap (kc_fns bytes zk) n hk)"
    using b assms(1) empty_tab unfolding kc_ok_def rh_inv_def fresh_hmap_def Let_def
    by (auto simp: count_full_empty kc_fns_def)
  show "hm_map (fresh_hmap (kc_fns bytes zk) n hk) = Map.empty"
    by (simp add: fresh_hmap_def hm_map_def hm_items_def Let_def items_empty)
qed

section \<open>Property of the key counter\<close>

text \<open>C35. Counting a column of at most 27847 values with an empty key counter succeeds; the map
  then holds exactly the values of the column, each with its number of occurrences and a group
  identifier that numbers the distinct values from 1 in the order of first occurrence; and
  the sum of the counts is the length of the column.\<close>

theorem kc_put_counts:
  assumes "1 < n" "n \<le> 65520" "length ks \<le> Suc rh_cap" "\<And>i. env_alloc (e i)"
  shows "\<exists>H'. kc_put e ks (fresh_hmap (kc_fns bytes zk) n hk) = (Inr (), H') \<and>
           hm_map H' = kc_spec ks \<and> kc_sum_count H' = length ks"
proof -
  obtain H' where H': "kc_put e ks (fresh_hmap (kc_fns bytes zk) n hk) = (Inr (), H')"
    "kc_ok bytes zk H'" "hm_map H' = kc_spec ks"
    using kc_put_correct [where e = e, OF fresh_kc [OF assms(1,2)] assms(3,4)] by blast
  then show ?thesis using sum_counts [OF H'(2,3)] assms(3) by (auto simp: rh_cap_def)
qed

lemma kc_put_counts_witness:
  "\<exists>H'. kc_put (\<lambda>_. rh_env 1) [4, 2, 4 :: nat] (fresh_hmap (kc_fns bytes32 0) 7 0) = (Inr (), H') \<and>
     hm_map H' = kc_spec [4, 2, 4] \<and> kc_sum_count H' = length [4, 2, 4 :: nat]"
  by (rule kc_put_counts) (simp_all add: rh_cap_def rh_env_def)

end
