(* ===== verification/Qtypes.thy ===== *)
theory Qtypes
  imports Prelude
begin

text \<open>
  The element types of vectors and their tables: \<open>UTILS/DEPRECATED/inc/qtype_enums.h\<close> and
  \<open>UTILS/DEPRECATED/src/qtypes.c\<close>.  \<open>QF\<close> is the end marker the runtime compares with (it is
  called \<open>NUM_QTYPES\<close> in that copy of the header).
\<close>

datatype qtype = Q0 | B1 | BL | I1 | I2 | I4 | I8 | I16 | F2 | F4 | F8
  | UI1 | UI2 | UI4 | UI8 | UI16 | SC | SV | TM | TM1 | HL | QF

definition get_width_c_qtype :: "qtype \<Rightarrow> nat" where
  "get_width_c_qtype q =
    (case q of B1 \<Rightarrow> 0 | BL \<Rightarrow> 1
     | I1 \<Rightarrow> 1 | I2 \<Rightarrow> 2 | I4 \<Rightarrow> 4 | I8 \<Rightarrow> 8 | I16 \<Rightarrow> 16
     | UI1 \<Rightarrow> 1 | UI2 \<Rightarrow> 2 | UI4 \<Rightarrow> 4 | UI8 \<Rightarrow> 8 | UI16 \<Rightarrow> 16
     | F2 \<Rightarrow> 2 | F4 \<Rightarrow> 4 | F8 \<Rightarrow> 8
     | TM1 \<Rightarrow> 8 | TM \<Rightarrow> 56
     | _ \<Rightarrow> 0)"

text \<open>\<open>strncmp(a, b, n) == 0\<close>.\<close>

definition prefix_eq :: "nat \<Rightarrow> string \<Rightarrow> string \<Rightarrow> bool" where
  "prefix_eq n a b = (take n a = take n b)"

definition get_c_qtype :: "string option \<Rightarrow> qtype" where
  "get_c_qtype str =
    (case str of None \<Rightarrow> Q0
     | Some s \<Rightarrow>
       if s = ''B1'' then B1 else if s = ''BL'' then BL
       else if s = ''I1'' then I1 else if s = ''I2'' then I2 else if s = ''I4'' then I4
       else if s = ''I8'' then I8 else if s = ''I16'' then I16
       else if s = ''UI1'' then UI1 else if s = ''UI2'' then UI2 else if s = ''UI4'' then UI4
       else if s = ''UI8'' then UI8 else if s = ''UI16'' then UI16
       else if s = ''F2'' then F2 else if s = ''F4'' then F4 else if s = ''F8'' then F8
       else if s = ''SC'' then SC else if prefix_eq 3 ''SC:'' s then SC
       else if s = ''TM1'' then TM1 else if prefix_eq 3 ''TM1:'' s then TM1
       else if s = ''TM'' then TM
       else Q0)"

definition get_width_qtype :: "string option \<Rightarrow> int" where
  "get_width_qtype str = (if str = None then - 1 else int (get_width_c_qtype (get_c_qtype str)))"

definition is_qtype :: "string option \<Rightarrow> bool" where
  "is_qtype str = (if get_c_qtype str = Q0 then False else True)"

text \<open>The second test of \<open>I8\<close> (meant to be \<open>I16\<close>) never applies.\<close>

definition get_str_qtype :: "qtype \<Rightarrow> string option" where
  "get_str_qtype q =
    (if q = Q0 then Some ''Q0'' else if q = B1 then Some ''B1'' else if q = BL then Some ''BL''
     else if q = I1 then Some ''I1'' else if q = I2 then Some ''I2'' else if q = I4 then Some ''I4''
     else if q = I8 then Some ''I8'' else if q = I8 then Some ''U16''
     else if q = UI1 then Some ''UI1'' else if q = UI2 then Some ''UI2'' else if q = UI4 then Some ''UI4''
     else if q = UI8 then Some ''UI8'' else if q = UI16 then Some ''UI16''
     else if q = F2 then Some ''F2'' else if q = F4 then Some ''F4'' else if q = F8 then Some ''F8''
     else if q = TM1 then Some ''TM1'' else if q = TM then Some ''TM''
     else if q = SC then Some ''SC'' else None)"

definition str_qtype_to_str_ctype :: "string \<Rightarrow> string option" where
  "str_qtype_to_str_ctype s =
    map_of [(''B1'', ''uint64_t''), (''BL'', ''bool''), (''I1'', ''int8_t''), (''I2'', ''int16_t''),
      (''I4'', ''int32_t''), (''I8'', ''int64_t''), (''I16'', ''__int128''), (''UI1'', ''uint8_t''),
      (''UI2'', ''uint16_t''), (''UI4'', ''uint32_t''), (''UI8'', ''uint64_t''),
      (''UI16'', ''unsigned __int128''), (''F2'', ''bfloat16''), (''F4'', ''float''), (''F8'', ''double''),
      (''TM1'', ''tm_t''), (''TM'', ''struct tm''), (''SC'', ''char'')] s"

definition str_qtype_to_str_ispctype :: "string \<Rightarrow> string option" where
  "str_qtype_to_str_ispctype s =
    map_of [(''BL'', ''int8''), (''I1'', ''int8''), (''I2'', ''int16''), (''I4'', ''int32''),
      (''I8'', ''int64''), (''UI1'', ''uint8''), (''UI2'', ''uint16''), (''UI4'', ''uint32''),
      (''UI8'', ''uint64''), (''F4'', ''float''), (''F8'', ''double'')] s"

definition get_tm_qtype :: "string \<Rightarrow> qtype" where
  "get_tm_qtype fld =
    (if fld = ''tm_year'' then I1 else if fld = ''tm_mon'' then I1 else if fld = ''tm_mday'' then I1
     else if fld = ''tm_hour'' then I1 else if fld = ''tm_min'' then I1 else if fld = ''tm_sec'' then I1
     else if fld = ''tm_yday'' then I2 else Q0)"

text \<open>\<open>tm_t\<close> and the part of \<open>struct tm\<close> it is widened to.\<close>

record tm_t =
  tm_year :: "16 word"
  tm_mon :: "8 word"
  tm_mday :: "8 word"
  tm_hour :: "8 word"
  tm_wday :: "8 word"
  tm_yday :: "16 word"

record struct_tm =
  s_sec :: int
  s_min :: int
  s_hour :: int
  s_mday :: int
  s_mon :: int
  s_year :: int
  s_wday :: int
  s_yday :: int

text \<open>\<open>None\<close> is a null pointer; the destination is cleared first.\<close>

definition t_assign :: "struct_tm option \<Rightarrow> tm_t option \<Rightarrow> error + struct_tm" where
  "t_assign dst src =
    (case dst of None \<Rightarrow> Inl (Status (- 1))
     | Some _ \<Rightarrow> (case src of None \<Rightarrow> Inl (Status (- 1))
       | Some r \<Rightarrow> Inr \<lparr>s_sec = 0, s_min = 0, s_hour = sint (tm_hour r), s_mday = sint (tm_mday r),
           s_mon = sint (tm_mon r), s_year = sint (tm_year r), s_wday = sint (tm_wday r),
           s_yday = sint (tm_yday r)\<rparr>))"

text \<open>\<open>bfloat16\<close> is the upper half of the bits of a \<open>float\<close> (the bytes 2 and 3 of a little-endian
  machine).\<close>

definition F4_to_F2 :: "32 word \<Rightarrow> 16 word" where
  "F4_to_F2 x = ucast (drop_bit 16 x)"

definition F2_to_F4 :: "16 word \<Rightarrow> 32 word" where
  "F2_to_F4 x = push_bit 16 (ucast x)"

text \<open>The names of the types read back: the name \<open>get_str_qtype\<close> gives a type is parsed by
  \<open>get_c_qtype\<close> to the same type, for every type but \<open>SV\<close>, \<open>HL\<close> and the end marker, which have no
  name by design, and \<open>I16\<close>, which has none because its line tests \<open>I8\<close> by mistake.\<close>

theorem qtype_name_roundtrip:
  "(\<exists>s. get_str_qtype q = Some s \<and> get_c_qtype (Some s) = q) \<longleftrightarrow> q \<notin> {I16, SV, HL, QF}"
  by (cases q) (simp_all add: get_str_qtype_def get_c_qtype_def prefix_eq_def)

text \<open>Narrowing to \<open>bfloat16\<close> undoes widening, and widening the narrowed value keeps
  exactly the upper half of the bits: the value is truncated toward zero, not rounded.\<close>

theorem bfloat16_roundtrip:
  "F4_to_F2 (F2_to_F4 x) = x \<and> F2_to_F4 (F4_to_F2 y) = and y 0xFFFF0000"
proof
  show "F4_to_F2 (F2_to_F4 x) = x"
    by (rule bit_word_eqI) (auto simp: F4_to_F2_def F2_to_F4_def bit_simps)
  have m: "bit (0xFFFF0000 :: 32 word) n \<longleftrightarrow> 16 \<le> n \<and> n < 32" for n
  proof -
    have "(0xFFFF0000 :: 32 word) = push_bit 16 (mask 16)" by (simp add: mask_eq_exp_minus_1 push_bit_eq_mult)
    then show ?thesis by (simp only: bit_push_bit_iff bit_mask_iff) auto
  qed
  show "F2_to_F4 (F4_to_F2 y) = and y 0xFFFF0000"
  proof (rule bit_word_eqI)
    fix n assume "n < LENGTH(32)"
    then show "bit (F2_to_F4 (F4_to_F2 y)) n \<longleftrightarrow> bit (and y 0xFFFF0000) n"
      unfolding bit_and_iff m by (auto simp: F4_to_F2_def F2_to_F4_def bit_simps)
  qed
qed

end
