(* ===== verification/Qstate.thy ===== *)
theory Qstate
  imports Qtypes Fasthash
begin

text \<open>
  The state of the vector runtime and the primitives of its environment.  The maps of vectors
  and of chunks (\<open>g_vctr_hmap\<close>, \<open>g_chnk_hmap\<close>, one per tablespace) are association lists, the
  view of a hash map that theory \<open>Hmap_Api\<close> justifies; a position \<open>where_found\<close> in a map is
  represented by the key found there.  Memory is a heap of blocks, a pointer a block with an
  offset, so that aliasing, use after free and access out of bounds are visible; a file mapped
  with \<open>mmap\<close> is a block that names the file.  What the environment decides (whether an
  allocation succeeds, what uninitialised memory holds, whether a file can be opened, the time
  stamp counter) are fields of the state.
\<close>

subsection \<open>Data\<close>

type_synonym byte = "8 word"
type_synonym ptr = "(nat \<times> nat) option"  \<comment> \<open>\<open>None\<close> is \<open>NULL\<close>\<close>

record vctr =
  v_name :: string
  v_num_elements :: nat
  v_min_chnk_idx :: nat
  v_max_chnk_idx :: nat
  v_max_num_in_chnk :: nat
  v_width :: nat
  v_has_nn :: bool
  v_nn_key :: nat
  v_has_parent :: bool
  v_parent_key :: nat
  v_is_memo :: bool
  v_memo_len :: nat
  v_is_killable :: bool
  v_num_kill_ignore :: nat
  v_is_early_freeable :: bool
  v_num_free_ignore :: nat
  v_qtype :: qtype
  v_is_eov :: bool
  v_is_persist :: bool
  v_is_writable :: bool
  v_is_error :: bool
  v_is_lma :: bool
  v_num_readers :: int
  v_num_writers :: int
  v_X :: ptr
  v_nX :: nat

record chnk =
  c_num_readers :: nat
  c_num_writers :: nat
  c_num_elements :: nat
  c_qtype :: qtype
  c_l2_exists :: bool
  c_num_free_ignore :: nat
  c_size :: nat
  c_l1_mem :: ptr
  c_touch_time :: nat

text \<open>\<open>memset(&val, 0, sizeof(val))\<close>.\<close>

definition zero_vctr :: vctr where
  "zero_vctr = \<lparr> v_name = [], v_num_elements = 0, v_min_chnk_idx = 0, v_max_chnk_idx = 0,
     v_max_num_in_chnk = 0, v_width = 0, v_has_nn = False, v_nn_key = 0, v_has_parent = False,
     v_parent_key = 0, v_is_memo = False, v_memo_len = 0, v_is_killable = False,
     v_num_kill_ignore = 0, v_is_early_freeable = False, v_num_free_ignore = 0, v_qtype = Q0,
     v_is_eov = False, v_is_persist = False, v_is_writable = False, v_is_error = False,
     v_is_lma = False, v_num_readers = 0, v_num_writers = 0, v_X = None, v_nX = 0 \<rparr>"

definition zero_chnk :: chnk where
  "zero_chnk = \<lparr> c_num_readers = 0, c_num_writers = 0, c_num_elements = 0, c_qtype = Q0,
     c_l2_exists = False, c_num_free_ignore = 0, c_size = 0, c_l1_mem = None, c_touch_time = 0 \<rparr>"

text \<open>A scalar: its type, the bytes of its value union, the string a string scalar points to.\<close>

record sclr =
  sc_qtype :: qtype
  sc_bytes :: "byte list"
  sc_str :: "byte list"

text \<open>A memory descriptor handed to and from the operators.\<close>

record cmem =
  cm_data :: ptr
  cm_size :: nat
  cm_qtype :: qtype
  cm_is_foreign :: bool
  cm_is_stealable :: bool

datatype block = Mem "byte list" | Mapped string bool  \<comment> \<open>the flag: mapped for writing\<close>

record qst =
  q_vctrs :: "nat \<Rightarrow> (nat \<times> vctr) list"
  q_chnks :: "nat \<Rightarrow> (chnk_key \<times> chnk) list"
  q_vctr_uqid :: nat
  q_mem_lock :: nat
  q_mem_used :: nat
  q_mem_allowed :: nat
  q_dsk_used :: nat
  q_dsk_allowed :: nat
  q_data_dir_root :: "nat \<Rightarrow> string"
  q_heap :: "nat \<rightharpoonup> block"
  q_next :: nat
  q_files :: "string \<rightharpoonup> byte list"
  q_can_alloc :: "nat \<Rightarrow> bool"
  q_junk :: "nat \<Rightarrow> nat \<Rightarrow> byte"
  q_can_open :: "string \<Rightarrow> bool"
  q_tsc :: nat

type_synonym 'a qprog = "(qst, 'a) prog"

definition Q_MAX_NUM_TABLESPACES :: nat where "Q_MAX_NUM_TABLESPACES = 16"
definition Q_VCTR_MAX_NUM_IN_CHNK :: nat where "Q_VCTR_MAX_NUM_IN_CHNK = 64"

definition ckey :: "nat \<Rightarrow> nat \<Rightarrow> chnk_key" where
  "ckey u i = \<lparr> ck_vctr_uqid = u, ck_chnk_idx = i \<rparr>"

lemma ckey_eq [simp]: "ckey u i = ckey u' i' \<longleftrightarrow> u = u' \<and> i = i'"
  by (simp add: ckey_def)

lemma ckey_sel [simp]: "ck_vctr_uqid (ckey u i) = u" "ck_chnk_idx (ckey u i) = i"
  by (simp_all add: ckey_def)

subsection \<open>Sequencing\<close>

text \<open>\<open>if ( c ) { go_BYE(st); }\<close> where the condition reads the state.\<close>

definition check :: "('s \<Rightarrow> bool) \<Rightarrow> int \<Rightarrow> ('s, unit) prog" where
  "check c st s = (if c s then (Inl (Status st), s) else (Inr (), s))"

text \<open>\<open>status = m();\<close> with no \<open>cBYE\<close>: the status is a value.\<close>

definition attempt :: "('s, 'a) prog \<Rightarrow> ('s, int) prog" where
  "attempt m s =
    (case m s of (Inr _, s') \<Rightarrow> (Inr 0, s') | (Inl (Status st), s') \<Rightarrow> (Inr st, s') | (Inl e, s') \<Rightarrow> (Inl e, s'))"

definition cBYE :: "int \<Rightarrow> ('s, unit) prog" where
  "cBYE st = (if st < 0 then go_BYE st else ret ())"

text \<open>\<open>for ( i = lo; i <= hi; i++ )\<close> on \<open>uint32_t\<close>; with the largest bound the loop does not end.\<close>

definition for_upto :: "nat \<Rightarrow> nat \<Rightarrow> (nat \<Rightarrow> ('s, unit) prog) \<Rightarrow> ('s, unit) prog" where
  "for_upto lo hi f =
    (if hi < lo then ret ()
     else if hi < UINT_MAX then for_each [lo..<Suc hi] f
     else seq (for_each [lo..<Suc hi] f) (\<lambda>_. stop Diverges))"

definition fold_upto :: "nat \<Rightarrow> nat \<Rightarrow> 'b \<Rightarrow> (nat \<Rightarrow> 'b \<Rightarrow> ('s, 'b) prog) \<Rightarrow> ('s, 'b) prog" where
  "fold_upto lo hi acc f =
    (if hi < lo then ret acc
     else if hi < UINT_MAX then for_fold [lo..<Suc hi] acc f
     else seq (for_fold [lo..<Suc hi] acc f) (\<lambda>_. stop Diverges))"

text \<open>The code after the label \<open>BYE\<close>, run whether the body succeeded or not.\<close>

definition after :: "('s, 'a) prog \<Rightarrow> ('s, unit) prog \<Rightarrow> ('s, 'a) prog" where
  "after m fin s =
    (case m s of
       (Inl Undef, s') \<Rightarrow> (Inl Undef, s') | (Inl Diverges, s') \<Rightarrow> (Inl Diverges, s')
     | (r, s') \<Rightarrow> (case fin s' of (Inl e, s'') \<Rightarrow> (Inl e, s'') | (Inr _, s'') \<Rightarrow> (r, s'')))"

text \<open>A function that returns a pointer, \<open>NULL\<close> for a failure.\<close>

definition or_null :: "('s, 'a option) prog \<Rightarrow> ('s, 'a option) prog" where
  "or_null m s = (case m s of (Inl (Status _), s') \<Rightarrow> (Inr None, s') | r \<Rightarrow> r)"

lemma seq_check [simp]: "seq (check c st) f s = (if c s then (Inl (Status st), s) else f () s)"
  by (simp add: seq_def check_def)

lemma keeps_check [keeps_intros]: "keeps P (check c st)"
  by (simp add: keeps_def check_def)

lemma keeps_attempt [keeps_intros]: "keeps P m \<Longrightarrow> keeps P (attempt m)"
  unfolding keeps_def attempt_def by (auto split: prod.splits sum.splits error.splits)

lemma keeps_cBYE [keeps_intros]: "keeps P (cBYE st)"
  by (simp add: cBYE_def keeps_intros)

lemma keeps_steps [keeps_intros]: "(\<And>m. m \<in> set ms \<Longrightarrow> keeps P m) \<Longrightarrow> keeps P (steps ms)"
  by (induction ms) (auto intro!: keeps_intros)

lemma keeps_for_upto [keeps_intros]: "(\<And>x. keeps P (f x)) \<Longrightarrow> keeps P (for_upto lo hi f)"
  unfolding for_upto_def by (intro keeps_intros)

subsection \<open>The maps\<close>

text \<open>An array access \<open>g_vctr_hmap[tbsp]\<close> outside the 16 tablespaces is undefined.\<close>

definition vctr_find :: "nat \<Rightarrow> nat \<Rightarrow> vctr option qprog" where
  "vctr_find t u s =
    (if Q_MAX_NUM_TABLESPACES \<le> t then (Inl Undef, s) else (Inr (map_of (q_vctrs s t) u), s))"

definition chnk_find :: "nat \<Rightarrow> chnk_key \<Rightarrow> chnk option qprog" where
  "chnk_find t k s =
    (if Q_MAX_NUM_TABLESPACES \<le> t then (Inl Undef, s) else (Inr (map_of (q_chnks s t) k), s))"

text \<open>Find, or leave with \<open>go_BYE(-1)\<close>.\<close>

definition need_vctr :: "nat \<Rightarrow> nat \<Rightarrow> vctr qprog" where
  "need_vctr t u = seq (vctr_find t u) (\<lambda>o'. case o' of None \<Rightarrow> go_BYE (- 1) | Some v \<Rightarrow> ret v)"

definition need_chnk :: "nat \<Rightarrow> chnk_key \<Rightarrow> chnk qprog" where
  "need_chnk t k = seq (chnk_find t k) (\<lambda>o'. case o' of None \<Rightarrow> go_BYE (- 1) | Some c \<Rightarrow> ret c)"

text \<open>\<open>bkts[where].val\<close> for a position that was found before.\<close>

definition vctr_at :: "nat \<Rightarrow> nat \<Rightarrow> vctr qprog" where
  "vctr_at t u = seq (vctr_find t u) (\<lambda>o'. case o' of None \<Rightarrow> stop Undef | Some v \<Rightarrow> ret v)"

definition chnk_at :: "nat \<Rightarrow> chnk_key \<Rightarrow> chnk qprog" where
  "chnk_at t k = seq (chnk_find t k) (\<lambda>o'. case o' of None \<Rightarrow> stop Undef | Some c \<Rightarrow> ret c)"

text \<open>\<open>bkts[where].val.field = ...\<close>.\<close>

definition vctr_upd :: "nat \<Rightarrow> nat \<Rightarrow> (vctr \<Rightarrow> vctr) \<Rightarrow> qst \<Rightarrow> qst" where
  "vctr_upd t u f s =
    (case map_of (q_vctrs s t) u of None \<Rightarrow> s
     | Some v \<Rightarrow> s\<lparr>q_vctrs := (q_vctrs s)(t := AList.update u (f v) (q_vctrs s t))\<rparr>)"

definition chnk_upd :: "nat \<Rightarrow> chnk_key \<Rightarrow> (chnk \<Rightarrow> chnk) \<Rightarrow> qst \<Rightarrow> qst" where
  "chnk_upd t k f s =
    (case map_of (q_chnks s t) k of None \<Rightarrow> s
     | Some c \<Rightarrow> s\<lparr>q_chnks := (q_chnks s)(t := AList.update k (f c) (q_chnks s t))\<rparr>)"

definition mod_vctr :: "nat \<Rightarrow> nat \<Rightarrow> (vctr \<Rightarrow> vctr) \<Rightarrow> unit qprog" where
  "mod_vctr t u f = upd_st (vctr_upd t u f)"

definition mod_chnk :: "nat \<Rightarrow> chnk_key \<Rightarrow> (chnk \<Rightarrow> chnk) \<Rightarrow> unit qprog" where
  "mod_chnk t k f = upd_st (chnk_upd t k f)"

text \<open>\<open>vctr_rs_hmap_put\<close>, \<open>vctr_rs_hmap_del\<close> and the same for chunks.\<close>

definition vctr_put :: "nat \<Rightarrow> nat \<Rightarrow> vctr \<Rightarrow> unit qprog" where
  "vctr_put t u v = upd_st (\<lambda>s. s\<lparr>q_vctrs := (q_vctrs s)(t := AList.update u v (q_vctrs s t))\<rparr>)"

definition chnk_put :: "nat \<Rightarrow> chnk_key \<Rightarrow> chnk \<Rightarrow> unit qprog" where
  "chnk_put t k c = upd_st (\<lambda>s. s\<lparr>q_chnks := (q_chnks s)(t := AList.update k c (q_chnks s t))\<rparr>)"

definition vctr_remove :: "nat \<Rightarrow> nat \<Rightarrow> bool qprog" where
  "vctr_remove t u s =
    (Inr (map_of (q_vctrs s t) u \<noteq> None), s\<lparr>q_vctrs := (q_vctrs s)(t := AList.delete u (q_vctrs s t))\<rparr>)"

definition chnk_remove :: "nat \<Rightarrow> chnk_key \<Rightarrow> bool qprog" where
  "chnk_remove t k s =
    (Inr (map_of (q_chnks s t) k \<noteq> None), s\<lparr>q_chnks := (q_chnks s)(t := AList.delete k (q_chnks s t))\<rparr>)"

subsection \<open>Memory\<close>

text \<open>\<open>posix_memalign\<close>: a fresh block with arbitrary contents.  On failure the status is
  positive, which \<open>cBYE\<close> lets pass, and the pointer stays \<open>NULL\<close>.\<close>

definition alloc :: "nat \<Rightarrow> ptr qprog" where
  "alloc sz s =
    (if q_can_alloc s (q_next s)
     then (Inr (Some (q_next s, 0)),
           s\<lparr>q_heap := (q_heap s)(q_next s \<mapsto> Mem (map (q_junk s (q_next s)) [0..<sz])), q_next := Suc (q_next s)\<rparr>)
     else (Inr None, s\<lparr>q_next := Suc (q_next s)\<rparr>))"

definition block_bytes :: "qst \<Rightarrow> nat \<Rightarrow> byte list option" where
  "block_bytes s b =
    (case q_heap s b of None \<Rightarrow> None | Some (Mem bs) \<Rightarrow> Some bs | Some (Mapped f _) \<Rightarrow> q_files s f)"

definition ptr_add :: "ptr \<Rightarrow> nat \<Rightarrow> ptr" where
  "ptr_add p n = map_option (\<lambda>(b, off). (b, off + n)) p"

definition mem_read :: "ptr \<Rightarrow> nat \<Rightarrow> byte list qprog" where
  "mem_read p n s =
    (case p of None \<Rightarrow> (Inl Undef, s)
     | Some (b, off) \<Rightarrow>
       (case block_bytes s b of None \<Rightarrow> (Inl Undef, s)
        | Some bs \<Rightarrow> if off + n \<le> length bs then (Inr (take n (drop off bs)), s) else (Inl Undef, s)))"

definition splice :: "nat \<Rightarrow> 'a list \<Rightarrow> 'a list \<Rightarrow> 'a list" where
  "splice off new bs = take off bs @ new @ drop (off + length new) bs"

definition mem_write :: "ptr \<Rightarrow> byte list \<Rightarrow> unit qprog" where
  "mem_write p new s =
    (case p of None \<Rightarrow> (Inl Undef, s)
     | Some (b, off) \<Rightarrow>
       (case q_heap s b of None \<Rightarrow> (Inl Undef, s)
        | Some (Mem bs) \<Rightarrow>
            if off + length new \<le> length bs
            then (Inr (), s\<lparr>q_heap := (q_heap s)(b \<mapsto> Mem (splice off new bs))\<rparr>)
            else (Inl Undef, s)
        | Some (Mapped f w) \<Rightarrow>
            (case q_files s f of None \<Rightarrow> (Inl Undef, s)
             | Some bs \<Rightarrow>
                 if w \<and> off + length new \<le> length bs
                 then (Inr (), s\<lparr>q_files := (q_files s)(f \<mapsto> splice off new bs)\<rparr>)
                 else (Inl Undef, s))))"

definition mem_free :: "ptr \<Rightarrow> unit qprog" where
  "mem_free p s =
    (case p of None \<Rightarrow> (Inr (), s)
     | Some (b, off) \<Rightarrow>
       (case q_heap s b of
          Some (Mem _) \<Rightarrow> if off = 0 then (Inr (), s\<lparr>q_heap := (q_heap s)(b := None)\<rparr>) else (Inl Undef, s)
        | _ \<Rightarrow> (Inl Undef, s)))"

definition memcpy :: "ptr \<Rightarrow> ptr \<Rightarrow> nat \<Rightarrow> unit qprog" where
  "memcpy dst src n = seq (mem_read src n) (mem_write dst)"

definition munmap :: "ptr \<Rightarrow> unit qprog" where
  "munmap p s =
    (case p of None \<Rightarrow> (Inr (), s) | Some (b, _) \<Rightarrow> (Inr (), s\<lparr>q_heap := (q_heap s)(b := None)\<rparr>))"

definition rdtsc :: "nat qprog" where
  "rdtsc s = (Inr (q_tsc s), s\<lparr>q_tsc := Suc (q_tsc s)\<rparr>)"

subsection \<open>Files\<close>

text \<open>\<open>isfile\<close> and \<open>file_exists\<close>: every file of the model is a regular one.\<close>

definition isfile :: "qst \<Rightarrow> string \<Rightarrow> bool" where
  "isfile s f = (f \<noteq> [] \<and> q_files s f \<noteq> None)"

definition file_exists :: "qst \<Rightarrow> string \<Rightarrow> bool" where
  "file_exists s f = (f \<noteq> [] \<and> q_files s f \<noteq> None)"

definition get_file_size :: "qst \<Rightarrow> string \<Rightarrow> int" where
  "get_file_size s f =
    (if q_can_open s f then (case q_files s f of None \<Rightarrow> - 1 | Some bs \<Rightarrow> int (length bs)) else - 1)"

text \<open>\<open>rs_mmap\<close>: the size, and a block that names the file; no block for an empty file.\<close>

definition rs_mmap :: "string \<Rightarrow> bool \<Rightarrow> (ptr \<times> nat) qprog" where
  "rs_mmap f is_write s =
    (if \<not> q_can_open s f then (Inl (Status (- 1)), s)
     else case q_files s f of None \<Rightarrow> (Inl (Status (- 1)), s)
     | Some bs \<Rightarrow>
         if bs = [] then (Inr (None, 0), s)
         else (Inr (Some (q_next s, 0), length bs),
               s\<lparr>q_heap := (q_heap s)(q_next s \<mapsto> Mapped f is_write), q_next := Suc (q_next s)\<rparr>))"

text \<open>\<open>mk_file(NULL, f, sz)\<close>: the file is truncated, then stretched.  The result of \<open>lseek\<close> goes
  through an \<open>int\<close>, so a size that is a multiple of \<open>2 ^ 32\<close> looks like the error \<open>-1\<close>.\<close>

definition mk_file :: "string \<Rightarrow> nat \<Rightarrow> unit qprog" where
  "mk_file f sz s =
    (if \<not> q_can_open s f then (Inl (Status (- 1)), s)
     else if sz = 0 then (Inr (), s\<lparr>q_files := (q_files s)(f \<mapsto> [])\<rparr>)
     else if u32 (sz - 1) = UINT_MAX then (Inl (Status (- 1)), s\<lparr>q_files := (q_files s)(f \<mapsto> [])\<rparr>)
     else (Inr (), s\<lparr>q_files := (q_files s)(f \<mapsto> replicate sz 0)\<rparr>))"

text \<open>\<open>fopen(f, "wb")\<close> and \<open>fopen(f, "a")\<close>; \<open>False\<close> is \<open>NULL\<close>.\<close>

definition fopen_wb :: "string \<Rightarrow> bool qprog" where
  "fopen_wb f s =
    (if q_can_open s f then (Inr True, s\<lparr>q_files := (q_files s)(f \<mapsto> [])\<rparr>) else (Inr False, s))"

definition fopen_a :: "string \<Rightarrow> bool qprog" where
  "fopen_a f s =
    (if q_can_open s f
     then (Inr True, case q_files s f of None \<Rightarrow> s\<lparr>q_files := (q_files s)(f \<mapsto> [])\<rparr> | Some _ \<Rightarrow> s)
     else (Inr False, s))"

text \<open>\<open>fwrite\<close> of \<open>n\<close> bytes to the end of an open file; undefined for a \<open>NULL\<close> stream.\<close>

definition fwrite :: "ptr \<Rightarrow> nat \<Rightarrow> bool \<Rightarrow> string \<Rightarrow> unit qprog" where
  "fwrite p n fp f = seq (undef_if (\<not> fp)) (\<lambda>_. seq (mem_read p n) (\<lambda>bs.
     upd_st (\<lambda>s. s\<lparr>q_files := (q_files s)(f \<mapsto> (case q_files s f of None \<Rightarrow> bs | Some old \<Rightarrow> old @ bs))\<rparr>)))"

definition rename :: "string \<Rightarrow> string \<Rightarrow> unit qprog" where
  "rename f g s =
    (case q_files s f of None \<Rightarrow> (Inl (Status (- 1)), s)
     | Some bs \<Rightarrow> (Inr (), s\<lparr>q_files := (q_files s)(f := None, g \<mapsto> bs)\<rparr>))"

definition unlink :: "string \<Rightarrow> unit qprog" where
  "unlink f s =
    (if q_files s f = None then (Inl (Status (- 1)), s) else (Inr (), s\<lparr>q_files := (q_files s)(f := None)\<rparr>))"

text \<open>\<open>get_bit_u64\<close> on the little-endian 64-bit words that start at a pointer.\<close>

definition get_bit_u64 :: "byte list \<Rightarrow> nat \<Rightarrow> bool" where
  "get_bit_u64 data i =
    (let widx = i div 64; bidx = i mod 64 in bit (load_le (take 8 (drop (8 * widx) data))) bidx)"

subsection \<open>Running the primitives\<close>

text \<open>How a program that starts with a primitive runs.\<close>

named_theorems run \<open>executing a program by simplification\<close>

lemma seq_vctr_find [run]:
  "seq (vctr_find t u) f s =
    (if Q_MAX_NUM_TABLESPACES \<le> t then (Inl Undef, s) else f (map_of (q_vctrs s t) u) s)"
  by (simp add: seq_def vctr_find_def)

lemma seq_chnk_find [run]:
  "seq (chnk_find t k) f s =
    (if Q_MAX_NUM_TABLESPACES \<le> t then (Inl Undef, s) else f (map_of (q_chnks s t) k) s)"
  by (simp add: seq_def chnk_find_def)

lemma seq_need_vctr [run]:
  "seq (need_vctr t u) f s =
    (if Q_MAX_NUM_TABLESPACES \<le> t then (Inl Undef, s)
     else case map_of (q_vctrs s t) u of None \<Rightarrow> (Inl (Status (- 1)), s) | Some v \<Rightarrow> f v s)"
  by (simp add: need_vctr_def seq_assoc seq_vctr_find split: option.splits) (simp add: stop_def)

lemma seq_need_chnk [run]:
  "seq (need_chnk t k) f s =
    (if Q_MAX_NUM_TABLESPACES \<le> t then (Inl Undef, s)
     else case map_of (q_chnks s t) k of None \<Rightarrow> (Inl (Status (- 1)), s) | Some c \<Rightarrow> f c s)"
  by (simp add: need_chnk_def seq_assoc seq_chnk_find split: option.splits) (simp add: stop_def)

lemma seq_vctr_at [run]:
  "seq (vctr_at t u) f s =
    (if Q_MAX_NUM_TABLESPACES \<le> t then (Inl Undef, s)
     else case map_of (q_vctrs s t) u of None \<Rightarrow> (Inl Undef, s) | Some v \<Rightarrow> f v s)"
  by (simp add: vctr_at_def seq_assoc seq_vctr_find split: option.splits) (simp add: stop_def)

lemma seq_chnk_at [run]:
  "seq (chnk_at t k) f s =
    (if Q_MAX_NUM_TABLESPACES \<le> t then (Inl Undef, s)
     else case map_of (q_chnks s t) k of None \<Rightarrow> (Inl Undef, s) | Some c \<Rightarrow> f c s)"
  by (simp add: chnk_at_def seq_assoc seq_chnk_find split: option.splits) (simp add: stop_def)

lemma seq_mod_vctr [run]: "seq (mod_vctr t u g) f s = f () (vctr_upd t u g s)"
  by (simp add: mod_vctr_def)

lemma seq_mod_chnk [run]: "seq (mod_chnk t k g) f s = f () (chnk_upd t k g s)"
  by (simp add: mod_chnk_def)

lemma mod_vctr_run [run]: "mod_vctr t u g s = (Inr (), vctr_upd t u g s)"
  by (simp add: mod_vctr_def upd_st_def)

lemma mod_chnk_run [run]: "mod_chnk t k g s = (Inr (), chnk_upd t k g s)"
  by (simp add: mod_chnk_def upd_st_def)

lemma seq_cBYE [run]: "seq (cBYE st) f s = (if st < 0 then (Inl (Status st), s) else f () s)"
  by (simp add: cBYE_def stop_def ret_def seq_def)

lemma seq_rdtsc [run]: "seq rdtsc f s = f (q_tsc s) (s\<lparr>q_tsc := Suc (q_tsc s)\<rparr>)"
  by (simp add: rdtsc_def seq_def)

lemma map_of_vctr_upd [simp]:
  "map_of (q_vctrs (vctr_upd t u f s) t') u' =
    (if t' = t \<and> u' = u then map_option f (map_of (q_vctrs s t) u) else map_of (q_vctrs s t') u')"
  by (simp add: vctr_upd_def split: option.splits)

lemma map_of_chnk_upd [simp]:
  "map_of (q_chnks (chnk_upd t k f s) t') k' =
    (if t' = t \<and> k' = k then map_option f (map_of (q_chnks s t) k) else map_of (q_chnks s t') k')"
  by (simp add: chnk_upd_def split: option.splits)

lemma vctr_upd_sel [simp]:
  "q_chnks (vctr_upd t u f s) = q_chnks s" "q_vctr_uqid (vctr_upd t u f s) = q_vctr_uqid s"
  "q_mem_lock (vctr_upd t u f s) = q_mem_lock s" "q_mem_used (vctr_upd t u f s) = q_mem_used s"
  "q_mem_allowed (vctr_upd t u f s) = q_mem_allowed s" "q_dsk_used (vctr_upd t u f s) = q_dsk_used s"
  "q_dsk_allowed (vctr_upd t u f s) = q_dsk_allowed s" "q_data_dir_root (vctr_upd t u f s) = q_data_dir_root s"
  "q_heap (vctr_upd t u f s) = q_heap s" "q_next (vctr_upd t u f s) = q_next s"
  "q_files (vctr_upd t u f s) = q_files s" "q_can_alloc (vctr_upd t u f s) = q_can_alloc s"
  "q_junk (vctr_upd t u f s) = q_junk s" "q_can_open (vctr_upd t u f s) = q_can_open s"
  "q_tsc (vctr_upd t u f s) = q_tsc s"
  by (simp_all add: vctr_upd_def split: option.splits)

lemma chnk_upd_sel [simp]:
  "q_vctrs (chnk_upd t k g s) = q_vctrs s" "q_vctr_uqid (chnk_upd t k g s) = q_vctr_uqid s"
  "q_mem_lock (chnk_upd t k g s) = q_mem_lock s" "q_mem_used (chnk_upd t k g s) = q_mem_used s"
  "q_mem_allowed (chnk_upd t k g s) = q_mem_allowed s" "q_dsk_used (chnk_upd t k g s) = q_dsk_used s"
  "q_dsk_allowed (chnk_upd t k g s) = q_dsk_allowed s" "q_data_dir_root (chnk_upd t k g s) = q_data_dir_root s"
  "q_heap (chnk_upd t k g s) = q_heap s" "q_next (chnk_upd t k g s) = q_next s"
  "q_files (chnk_upd t k g s) = q_files s" "q_can_alloc (chnk_upd t k g s) = q_can_alloc s"
  "q_junk (chnk_upd t k g s) = q_junk s" "q_can_open (chnk_upd t k g s) = q_can_open s"
  "q_tsc (chnk_upd t k g s) = q_tsc s"
  by (simp_all add: chnk_upd_def split: option.splits)

end
