(* ===== verification/Mem_Acct.thy ===== *)
theory Mem_Acct
  imports Qstate
begin

text \<open>
  The accounting of memory and disk, \<open>QJIT/GUTILS/src/mod_mem_used.c\<close>: the spin lock, the four
  counters and the operations that change them; and the interleavings of threads that reserve
  and release memory, as a step relation.
\<close>

subsection \<open>The operations\<close>

definition get_mem_used :: "qst \<Rightarrow> nat" where "get_mem_used s = q_mem_used s"
definition get_mem_allowed :: "qst \<Rightarrow> nat" where "get_mem_allowed s = q_mem_allowed s"
definition get_dsk_used :: "qst \<Rightarrow> nat" where "get_dsk_used s = q_dsk_used s"
definition get_dsk_allowed :: "qst \<Rightarrow> nat" where "get_dsk_allowed s = q_dsk_allowed s"

text \<open>With nobody else running, a lock that is held is never released: the loop spins forever.\<close>

definition lock_mem :: "unit qprog" where
  "lock_mem s = (if q_mem_lock s = 0 then (Inr (), s\<lparr>q_mem_lock := 1\<rparr>) else (Inl Diverges, s))"

definition unlock_mem :: "unit qprog" where
  "unlock_mem s = (if q_mem_lock s = 1 then (Inr (), s\<lparr>q_mem_lock := 0\<rparr>) else (Inl (Status (- 1)), s))"

text \<open>The body between \<open>lock_mem\<close> and \<open>unlock_mem\<close>.  The status \<open>-1\<close> of the failing branch is
  overwritten by the status of \<open>unlock_mem\<close>, so it is no result of the function.\<close>

definition incr_mem_crit :: "nat \<Rightarrow> unit qprog" where
  "incr_mem_crit x = upd_st (\<lambda>s. if q_mem_allowed s < u64 (x + q_mem_used s) then s
     else s\<lparr>q_mem_used := u64 (q_mem_used s + x)\<rparr>)"

definition decr_mem_crit :: "nat \<Rightarrow> unit qprog" where
  "decr_mem_crit x = upd_st (\<lambda>s. if q_mem_used s < x then s
     else s\<lparr>q_mem_used := q_mem_used s - x\<rparr>)"

definition incr_dsk_crit :: "nat \<Rightarrow> unit qprog" where
  "incr_dsk_crit x = upd_st (\<lambda>s. if q_dsk_allowed s < u64 (x + q_dsk_used s) then s
     else s\<lparr>q_dsk_used := u64 (q_dsk_used s + x)\<rparr>)"

definition decr_dsk_crit :: "nat \<Rightarrow> unit qprog" where
  "decr_dsk_crit x = upd_st (\<lambda>s. if q_dsk_used s < x then s
     else s\<lparr>q_dsk_used := q_dsk_used s - x\<rparr>)"

definition incr_mem_used :: "nat \<Rightarrow> unit qprog" where
  "incr_mem_used x = steps
    [bye_if (x = 0) (- 1), bye_if (1024 * 1048576 < x) (- 1), lock_mem, incr_mem_crit x, unlock_mem]"

definition decr_mem_used :: "nat \<Rightarrow> unit qprog" where
  "decr_mem_used x = steps
    [bye_if (x = 0) (- 1), bye_if (1024 * 1048576 < x) (- 1), lock_mem, decr_mem_crit x, unlock_mem]"

definition incr_dsk_used :: "nat \<Rightarrow> unit qprog" where
  "incr_dsk_used x = steps [bye_if (x = 0) (- 1), lock_mem, incr_dsk_crit x, unlock_mem]"

definition decr_dsk_used :: "nat \<Rightarrow> unit qprog" where
  "decr_dsk_used x = steps [bye_if (x = 0) (- 1), lock_mem, decr_dsk_crit x, unlock_mem]"

lemma seq_lock_mem [run]:
  "seq lock_mem f s = (if q_mem_lock s = 0 then f () (s\<lparr>q_mem_lock := 1\<rparr>) else (Inl Diverges, s))"
  by (simp add: seq_def lock_mem_def)

lemma seq_unlock_mem [run]:
  "seq unlock_mem f s =
     (if q_mem_lock s = 1 then f () (s\<lparr>q_mem_lock := 0\<rparr>) else (Inl (Status (- 1)), s))"
  by (simp add: seq_def unlock_mem_def)

lemma qst_lock_id: "q_mem_lock s = 0 \<Longrightarrow> s\<lparr>q_mem_lock := 0\<rparr> = (s :: qst)"
  by (cases s) simp

text \<open>What each operation does when the lock is free.\<close>

lemma incr_mem_used_run:
  assumes "q_mem_lock s = 0" "0 < x" "x \<le> 1073741824"
  shows "incr_mem_used x s = (Inr (), if q_mem_allowed s < u64 (x + q_mem_used s) then s
     else s\<lparr>q_mem_used := u64 (q_mem_used s + x)\<rparr>)"
  using assms by (cases s) (simp add: incr_mem_used_def run incr_mem_crit_def ret_def)

lemma decr_mem_used_run:
  assumes "q_mem_lock s = 0" "0 < x" "x \<le> 1073741824"
  shows "decr_mem_used x s = (Inr (), if q_mem_used s < x then s
     else s\<lparr>q_mem_used := q_mem_used s - x\<rparr>)"
  using assms by (cases s) (simp add: decr_mem_used_def run decr_mem_crit_def ret_def)

lemma incr_dsk_used_run:
  assumes "q_mem_lock s = 0" "0 < x"
  shows "incr_dsk_used x s = (Inr (), if q_dsk_allowed s < u64 (x + q_dsk_used s) then s
     else s\<lparr>q_dsk_used := u64 (q_dsk_used s + x)\<rparr>)"
  using assms by (cases s) (simp add: incr_dsk_used_def run incr_dsk_crit_def ret_def)

lemma decr_dsk_used_run:
  assumes "q_mem_lock s = 0" "0 < x"
  shows "decr_dsk_used x s = (Inr (), if q_dsk_used s < x then s
     else s\<lparr>q_dsk_used := q_dsk_used s - x\<rparr>)"
  using assms by (cases s) (simp add: decr_dsk_used_def run decr_dsk_crit_def ret_def)

lemma mem_used_zero [simp]:
  "incr_mem_used 0 = go_BYE (- 1)" "decr_mem_used 0 = go_BYE (- 1)"
  "incr_dsk_used 0 = go_BYE (- 1)" "decr_dsk_used 0 = go_BYE (- 1)"
  by (rule ext, simp add: incr_mem_used_def decr_mem_used_def incr_dsk_used_def decr_dsk_used_def
      stop_def)+

text \<open>\<open>q_frame\<close>: two states differ in the memory and disk counters only.\<close>

definition acct_frame :: "qst \<Rightarrow> qst \<Rightarrow> bool" where
  "acct_frame s s' = (\<exists>m d. s' = s\<lparr>q_mem_used := m, q_dsk_used := d\<rparr>)"

lemma acct_frame_refl [simp]: "acct_frame s s"
  unfolding acct_frame_def by (rule exI [of _ "q_mem_used s"], rule exI [of _ "q_dsk_used s"]) simp

lemma acct_frameI [intro]:
  "acct_frame s (s\<lparr>q_mem_used := m\<rparr>)" "acct_frame s (s\<lparr>q_dsk_used := d\<rparr>)"
  unfolding acct_frame_def
  by (rule exI [of _ m], rule exI [of _ "q_dsk_used s"], simp)
     (rule exI [of _ "q_mem_used s"], rule exI [of _ d], simp)

lemma acct_frame_used:
  assumes "q_mem_lock s = 0"
  shows "acct_frame s (snd (incr_mem_used x s))" "acct_frame s (snd (decr_mem_used x s))"
    "acct_frame s (snd (incr_dsk_used x s))" "acct_frame s (snd (decr_dsk_used x s))"
proof -
  show "acct_frame s (snd (incr_mem_used x s))"
  proof (cases "x = 0 \<or> 1073741824 < x")
    case True then show ?thesis by (auto simp: incr_mem_used_def stop_def)
  next
    case False then show ?thesis using assms by (auto simp: incr_mem_used_run)
  qed
  show "acct_frame s (snd (decr_mem_used x s))"
  proof (cases "x = 0 \<or> 1073741824 < x")
    case True then show ?thesis by (auto simp: decr_mem_used_def stop_def)
  next
    case False then show ?thesis using assms by (auto simp: decr_mem_used_run)
  qed
  show "acct_frame s (snd (incr_dsk_used x s))"
    using assms by (cases "x = 0") (auto simp: incr_dsk_used_run stop_def)
  show "acct_frame s (snd (decr_dsk_used x s))"
    using assms by (cases "x = 0") (auto simp: decr_dsk_used_run stop_def)
qed

text \<open>The limit is enforced but its violation is not reported: reserving memory beyond
  \<open>g_mem_allowed\<close> leaves every counter as it was and yet returns 0, because the \<open>-1\<close> of the
  failing branch is overwritten by the status of \<open>unlock_mem\<close>.\<close>

theorem mem_limit_silent:
  assumes "q_mem_lock s = 0" "0 < x" "x \<le> 1073741824" "q_mem_allowed s < x + q_mem_used s"
    "x + q_mem_used s < 2 ^ 64"
  shows "incr_mem_used x s = (Inr (), s)"
  using assms by (simp add: incr_mem_used_run)

text \<open>A runtime with nothing in it, allowed \<open>m\<close> bytes of memory.\<close>

definition empty_st :: "nat \<Rightarrow> qst" where
  "empty_st m = \<lparr> q_vctrs = (\<lambda>_. []), q_chnks = (\<lambda>_. []), q_vctr_uqid = 0,
     q_mem_lock = 0, q_mem_used = 0, q_mem_allowed = m, q_dsk_used = 0, q_dsk_allowed = 0,
     q_data_dir_root = (\<lambda>_. []), q_heap = (\<lambda>_. None), q_next = 0,
     q_files = (\<lambda>_. None), q_can_alloc = (\<lambda>_. True), q_junk = (\<lambda>_ _. 0),
     q_can_open = (\<lambda>_. True), q_tsc = 0 \<rparr>"

lemma empty_st_sel [simp]:
  "q_mem_lock (empty_st m) = 0" "q_mem_used (empty_st m) = 0" "q_mem_allowed (empty_st m) = m"
  by (simp_all add: empty_st_def)

lemma mem_limit_silent_witness:
  "incr_mem_used 65 (empty_st 64) = (Inr (), empty_st 64)"
  by (rule mem_limit_silent) simp_all

subsection \<open>Concurrent use\<close>

text \<open>Threads that run \<open>incr_mem_used(x)\<close> (\<open>Incr x\<close>) and \<open>decr_mem_used(x)\<close> (\<open>Decr x\<close>).  Every access to a shared
  variable is a step of its own: a thread is outside of the functions, spins in \<open>lock_mem\<close>, holds the lock before it
  reads \<open>g_mem_used\<close>, has read the value \<open>v\<close> and not yet compared it, has passed the comparison and not yet changed the
  counter (an atomic addition or subtraction), or is before \<open>unlock_mem\<close>.\<close>

datatype req = Incr nat | Decr nat
datatype pc = Outside | Spinning req | Holding req | Loaded req nat | Changing req | Leaving

record mst =
  m_lock :: nat
  m_used :: nat
  m_allowed :: nat
  m_pc :: "nat \<Rightarrow> pc"
  m_granted :: nat   \<comment> \<open>ghost: sum of the reservations that were granted\<close>
  m_released :: nat  \<comment> \<open>ghost: sum of the releases that were carried out\<close>

fun valid_req :: "req \<Rightarrow> bool" where
  "valid_req (Incr x) = (x \<noteq> 0 \<and> x \<le> 1024 * 1048576)"
| "valid_req (Decr x) = (x \<noteq> 0 \<and> x \<le> 1024 * 1048576)"

text \<open>The comparison with the value \<open>v\<close> that was read.\<close>

fun admits :: "nat \<Rightarrow> req \<Rightarrow> nat \<Rightarrow> bool" where
  "admits allowed (Incr x) v = (\<not> allowed < u64 (x + v))"
| "admits allowed (Decr x) v = (\<not> v < x)"

text \<open>The atomic change of the counter as it is at that time; both wrap around.\<close>

fun apply_req :: "req \<Rightarrow> mst \<Rightarrow> mst" where
  "apply_req (Incr x) m = m\<lparr>m_used := u64 (m_used m + x), m_granted := m_granted m + x\<rparr>"
| "apply_req (Decr x) m = m\<lparr>m_used := u64 (m_used m + (2 ^ 64 - x)), m_released := m_released m + x\<rparr>"

inductive mstep :: "mst \<Rightarrow> mst \<Rightarrow> bool" where
  call: "m_pc m i = Outside \<Longrightarrow> valid_req r \<Longrightarrow>
           mstep m (m\<lparr>m_pc := (m_pc m)(i := Spinning r)\<rparr>)"
| acquire: "m_pc m i = Spinning r \<Longrightarrow> m_lock m = 0 \<Longrightarrow>
           mstep m (m\<lparr>m_lock := 1, m_pc := (m_pc m)(i := Holding r)\<rparr>)"
| spin: "m_pc m i = Spinning r \<Longrightarrow> m_lock m \<noteq> 0 \<Longrightarrow> mstep m m"
| load: "m_pc m i = Holding r \<Longrightarrow>
           mstep m (m\<lparr>m_pc := (m_pc m)(i := Loaded r (m_used m))\<rparr>)"
| admit: "m_pc m i = Loaded r v \<Longrightarrow> admits (m_allowed m) r v \<Longrightarrow>
           mstep m (m\<lparr>m_pc := (m_pc m)(i := Changing r)\<rparr>)"
| refuse: "m_pc m i = Loaded r v \<Longrightarrow> \<not> admits (m_allowed m) r v \<Longrightarrow>
           mstep m (m\<lparr>m_pc := (m_pc m)(i := Leaving)\<rparr>)"
| change: "m_pc m i = Changing r \<Longrightarrow>
           mstep m ((apply_req r m)\<lparr>m_pc := (m_pc m)(i := Leaving)\<rparr>)"
| release: "m_pc m i = Leaving \<Longrightarrow> m_lock m = 1 \<Longrightarrow>
           mstep m (m\<lparr>m_lock := 0, m_pc := (m_pc m)(i := Outside)\<rparr>)"
| release_fail: "m_pc m i = Leaving \<Longrightarrow> m_lock m \<noteq> 1 \<Longrightarrow>
           mstep m (m\<lparr>m_pc := (m_pc m)(i := Outside)\<rparr>)"

inductive mreach :: "mst \<Rightarrow> mst \<Rightarrow> bool" for m0 where
  init: "mreach m0 m0"
| step: "mreach m0 m \<Longrightarrow> mstep m m' \<Longrightarrow> mreach m0 m'"

definition mstart :: "nat \<Rightarrow> mst" where
  "mstart allowed = \<lparr>m_lock = 0, m_used = 0, m_allowed = allowed, m_pc = (\<lambda>_. Outside),
     m_granted = 0, m_released = 0\<rparr>"

text \<open>A thread between \<open>lock_mem\<close> and \<open>unlock_mem\<close>.  What it knows: the value it read is still the value of the counter,
  and the comparison it passed still holds.\<close>

fun in_crit :: "pc \<Rightarrow> bool" where
  "in_crit Outside = False"
| "in_crit (Spinning _) = False"
| "in_crit _ = True"

fun pc_ok :: "nat \<Rightarrow> nat \<Rightarrow> pc \<Rightarrow> bool" where
  "pc_ok a u (Spinning r) = valid_req r"
| "pc_ok a u (Holding r) = valid_req r"
| "pc_ok a u (Loaded r v) = (valid_req r \<and> v = u)"
| "pc_ok a u (Changing r) = (valid_req r \<and> admits a r u)"
| "pc_ok a u _ = True"

lemma pc_ok_idle: "\<not> in_crit p \<Longrightarrow> pc_ok a u p = pc_ok a u' p"
  by (cases p) simp_all

definition minv :: "nat \<Rightarrow> mst \<Rightarrow> bool" where
  "minv a m = (m_allowed m = a \<and> m_lock m \<le> 1 \<and>
     (m_lock m = 1 \<longleftrightarrow> (\<exists>i. in_crit (m_pc m i))) \<and>
     (\<forall>i j. in_crit (m_pc m i) \<longrightarrow> in_crit (m_pc m j) \<longrightarrow> i = j) \<and>
     (\<forall>i. pc_ok a (m_used m) (m_pc m i)) \<and>
     m_used m \<le> a \<and> m_granted m = m_used m + m_released m)"

lemma apply_req_frame [simp]:
  "m_lock (apply_req r m) = m_lock m" "m_allowed (apply_req r m) = m_allowed m"
  "m_pc (apply_req r m) = m_pc m"
  by (cases r; simp)+

text \<open>A change that was admitted for the present value stays within the limit.\<close>

lemma u64_sub_exact: "x \<le> v \<Longrightarrow> v < 2 ^ 64 \<Longrightarrow> u64 (v + (2 ^ 64 - x)) = v - x"
proof -
  assume x: "x \<le> v" "v < 2 ^ 64"
  then have "v + (2 ^ 64 - x) = (v - x) + 2 ^ 64" by linarith
  then have "u64 (v + (2 ^ 64 - x)) = ((v - x) + 2 ^ 64) mod 2 ^ 64" by (simp only: u64_def)
  also have "\<dots> = (v - x) mod 2 ^ 64" by (rule mod_add_self2)
  also have "\<dots> = v - x" using x by (intro mod_less) linarith
  finally show ?thesis .
qed

lemma apply_req_counts:
  assumes "valid_req r" "admits a r (m_used m)" "m_used m \<le> a" "a + 1073741824 < 2 ^ 64"
    "m_granted m = m_used m + m_released m"
  shows "m_used (apply_req r m) \<le> a \<and> m_granted (apply_req r m) = m_used (apply_req r m) + m_released (apply_req r m)"
proof (cases r)
  case (Incr x)
  then have "x + m_used m < 2 ^ 64" using assms(1,3,4) by simp
  then show ?thesis using assms Incr by (simp add: u64_def add.commute)
next
  case (Decr x)
  then have x: "x \<le> m_used m" "m_used m < 2 ^ 64" using assms by simp_all
  then have "u64 (m_used m + (2 ^ 64 - x)) = m_used m - x" by (rule u64_sub_exact)
  then show ?thesis using assms Decr x by simp
qed

lemma minv_start: "minv a (mstart a)"
  by (simp add: minv_def mstart_def)

text \<open>A step that only moves one thread on.\<close>

lemma minv_move:
  assumes "minv a m" "in_crit p = in_crit (m_pc m i)" "pc_ok a (m_used m) p"
  shows "minv a (m\<lparr>m_pc := (m_pc m)(i := p)\<rparr>)"
proof -
  have "in_crit (((m_pc m)(i := p)) j) = in_crit (m_pc m j)" for j using assms(2) by simp
  moreover have "pc_ok a (m_used m) (((m_pc m)(i := p)) j)" for j using assms(1,3) by (simp add: minv_def)
  ultimately show ?thesis using assms(1) by (simp add: minv_def)
qed

lemma minv_step:
  assumes "mstep m m'" "minv a m" "a + 1073741824 < 2 ^ 64"
  shows "minv a m'"
proof -
  have ok: "pc_ok a (m_used m) (m_pc m i)" and al: "m_allowed m = a" for i using assms(2) by (simp_all add: minv_def)
  show ?thesis
    using assms(1)
  proof cases
    case (call i r)
    show ?thesis unfolding call(1) by (rule minv_move [OF assms(2)]) (simp_all add: call)
  next
    case (acquire i r)
    then have none: "\<not> in_crit (m_pc m j)" for j using assms(2) by (auto simp: minv_def)
    have "in_crit (m_pc m' j) = (j = i)" for j using acquire none [of j] by (cases "j = i") simp_all
    moreover have "pc_ok a (m_used m') (m_pc m' j)" for j using acquire ok [of j] by (cases "j = i") simp_all
    ultimately show ?thesis using acquire assms(2) by (simp add: minv_def)
  next
    case (load i r)
    show ?thesis unfolding load(1) by (rule minv_move [OF assms(2)]) (use load ok [of i] in simp_all)
  next
    case (admit i r v)
    show ?thesis unfolding admit(1) by (rule minv_move [OF assms(2)]) (use admit ok [of i] al in simp_all)
  next
    case (refuse i r v)
    show ?thesis unfolding refuse(1) by (rule minv_move [OF assms(2)]) (use refuse in simp_all)
  next
    case (change i r)
    then have "m_used (apply_req r m) \<le> a"
      "m_granted (apply_req r m) = m_used (apply_req r m) + m_released (apply_req r m)"
      using ok [of i] apply_req_counts [of r a m] assms by (auto simp: minv_def)
    moreover have crit: "in_crit (m_pc m' j) = in_crit (m_pc m j)" for j using change by (cases "j = i") simp_all
    moreover have "pc_ok a (m_used m') (m_pc m' j)" for j
    proof (cases "j = i")
      case False
      have "in_crit (m_pc m i)" using change by simp
      then have "\<not> in_crit (m_pc m j)" using False assms(2) by (auto simp: minv_def)
      then have "pc_ok a (m_used m') (m_pc m j)" using ok [of j] pc_ok_idle [of "m_pc m j" a "m_used m'" "m_used m"] by simp
      then show ?thesis using False change by simp
    qed (use change in simp)
    ultimately show ?thesis using change assms(2) by (simp add: minv_def)
  next
    case (release i)
    have "in_crit (m_pc m i)" using release by simp
    then have "in_crit (m_pc m j) \<Longrightarrow> j = i" for j using assms(2) by (simp add: minv_def)
    then have "\<not> in_crit (m_pc m' j)" for j using release by (cases "j = i") auto
    moreover have "pc_ok a (m_used m') (m_pc m' j)" for j using release ok [of j] by (cases "j = i") simp_all
    ultimately show ?thesis using release assms(2) by (simp add: minv_def)
  next
    case (release_fail i)
    then have "in_crit (m_pc m i)" by simp
    then have "m_lock m = 1" using assms(2) by (auto simp: minv_def)
    with release_fail show ?thesis by simp
  qed (use assms in simp)
qed

lemma minv_reach:
  assumes "mreach (mstart a) m" "a + 1073741824 < 2 ^ 64"
  shows "minv a m"
  using assms(1) by induction (auto intro: minv_start minv_step assms(2))

text \<open>C32. The lock works: in every state any number of threads can reach by reserving and
  releasing memory, at most one thread is between \<open>lock_mem\<close> and \<open>unlock_mem\<close>, a thread about to
  unlock finds the lock held, and a thread that has passed its comparison finds the counter as it was when it compared,
  so that the memory in use never exceeds the limit, never wraps around, and is exactly what
  was granted less what was released.  (Without the lock two threads could both pass the comparison before either
  changes the counter.)\<close>

theorem mem_lock_excludes:
  assumes "mreach (mstart a) m" "a + 1073741824 < 2 ^ 64"
  shows "(in_crit (m_pc m i) \<and> in_crit (m_pc m j) \<longrightarrow> i = j) \<and>
    (m_pc m i = Leaving \<longrightarrow> m_lock m = 1) \<and>
    (m_pc m i = Loaded r v \<longrightarrow> v = m_used m) \<and> (m_pc m i = Changing r \<longrightarrow> admits a r (m_used m)) \<and>
    m_used m \<le> a \<and> m_granted m = m_used m + m_released m"
proof -
  have inv: "minv a m" using assms by (rule minv_reach)
  moreover have "in_crit (m_pc m i) \<Longrightarrow> m_lock m = 1" using inv by (auto simp: minv_def)
  moreover have "pc_ok a (m_used m) (m_pc m i)" using inv by (simp add: minv_def)
  then have "m_pc m i = Loaded r v \<Longrightarrow> v = m_used m" "m_pc m i = Changing r \<Longrightarrow> admits a r (m_used m)" by simp_all
  ultimately show ?thesis by (auto simp: minv_def)
qed

lemma mem_lock_excludes_witness:
  "m_pc (mstart 100\<lparr>m_lock := 1, m_pc := (\<lambda>_. Outside)(3 := Changing (Incr 7))\<rparr>) 3 = Changing (Incr 7) \<and>
   admits 100 (Incr 7) (m_used (mstart 100\<lparr>m_lock := 1, m_pc := (\<lambda>_. Outside)(3 := Changing (Incr 7))\<rparr>))"
proof -
  let ?m1 = "mstart 100\<lparr>m_pc := (\<lambda>_. Outside)(3 := Spinning (Incr 7))\<rparr>"
  let ?m2 = "mstart 100\<lparr>m_lock := 1, m_pc := (\<lambda>_. Outside)(3 := Holding (Incr 7))\<rparr>"
  let ?m3 = "mstart 100\<lparr>m_lock := 1, m_pc := (\<lambda>_. Outside)(3 := Loaded (Incr 7) 0)\<rparr>"
  let ?m4 = "mstart 100\<lparr>m_lock := 1, m_pc := (\<lambda>_. Outside)(3 := Changing (Incr 7))\<rparr>"
  have "mstep (mstart 100) ?m1"
    using mstep.call [of "mstart 100" 3 "Incr 7"] by (simp add: mstart_def)
  moreover have "mstep ?m1 ?m2"
    using mstep.acquire [of ?m1 3 "Incr 7"] by (simp add: mstart_def)
  moreover have "mstep ?m2 ?m3" using mstep.load [of ?m2 3 "Incr 7"] by (simp add: mstart_def)
  moreover have "mstep ?m3 ?m4" using mstep.admit [of ?m3 3 "Incr 7" 0] by (simp add: mstart_def)
  ultimately have "mreach (mstart 100) ?m4" using mreach.init [of "mstart 100"] by (meson mreach.step)
  from mem_lock_excludes [OF this, of 3 3 "Incr 7" 0] show ?thesis by (simp add: mstart_def)
qed

text \<open>Whoever holds the lock can give it back.\<close>

lemma mstep_then: "mstep m m1 \<Longrightarrow> \<exists>m'. mstep\<^sup>*\<^sup>* m1 m' \<and> P m' \<Longrightarrow> \<exists>m'. mstep\<^sup>*\<^sup>* m m' \<and> P m'"
  by (meson converse_rtranclp_into_rtranclp)

lemma holder_leaves:
  assumes "minv a m" "in_crit (m_pc m j)"
  shows "\<exists>m'. mstep\<^sup>*\<^sup>* m m' \<and> m_pc m' = (m_pc m)(j := Outside) \<and> m_lock m' = 0"
proof -
  have lock: "m_lock m = 1" using assms by (auto simp: minv_def)
  have leave: "\<exists>m'. mstep\<^sup>*\<^sup>* m1 m' \<and> m_pc m' = (m_pc m)(j := Outside) \<and> m_lock m' = 0"
    if "m_pc m1 = (m_pc m)(j := Leaving)" "m_lock m1 = 1" for m1
    using mstep.release [of m1 j] that
    by (intro exI [of _ "m1\<lparr>m_lock := 0, m_pc := (m_pc m1)(j := Outside)\<rparr>"]) auto
  have change: "\<exists>m'. mstep\<^sup>*\<^sup>* m1 m' \<and> m_pc m' = (m_pc m)(j := Outside) \<and> m_lock m' = 0"
    if "m_pc m1 = (m_pc m)(j := Changing r)" "m_lock m1 = 1" for m1 r
    by (rule mstep_then [OF mstep.change [where i = j and r = r] leave]) (use that in simp_all)
  have compare: "\<exists>m'. mstep\<^sup>*\<^sup>* m1 m' \<and> m_pc m' = (m_pc m)(j := Outside) \<and> m_lock m' = 0"
    if "m_pc m1 = (m_pc m)(j := Loaded r v)" "m_lock m1 = 1" for m1 r v
  proof (cases "admits (m_allowed m1) r v")
    case True
    show ?thesis by (rule mstep_then [OF mstep.admit [where i = j and r = r and v = v] change]) (use that True in simp_all)
  next
    case False
    show ?thesis by (rule mstep_then [OF mstep.refuse [where i = j and r = r and v = v] leave]) (use that False in simp_all)
  qed
  have load: "\<exists>m'. mstep\<^sup>*\<^sup>* m1 m' \<and> m_pc m' = (m_pc m)(j := Outside) \<and> m_lock m' = 0"
    if "m_pc m1 = (m_pc m)(j := Holding r)" "m_lock m1 = 1" for m1 r
    by (rule mstep_then [OF mstep.load [where i = j and r = r] compare]) (use that in simp_all)
  have same: "m_pc m = (m_pc m)(j := m_pc m j)" by simp
  show ?thesis
    using assms(2) lock load [of m] compare [of m] change [of m] leave [of m] same by (cases "m_pc m j") auto
qed

text \<open>C33. The lock does not strand anybody: from every reachable state, whatever the threads are
  doing, every thread can still get out, also one that spins while another holds the lock.\<close>

theorem mem_lock_live:
  assumes "mreach (mstart a) m" "a + 1073741824 < 2 ^ 64"
  shows "\<exists>m'. mstep\<^sup>*\<^sup>* m m' \<and> m_pc m' i = Outside"
proof -
  have out: "\<exists>m'. mstep\<^sup>*\<^sup>* m1 m' \<and> m_pc m' i = Outside" if "minv a m1" "in_crit (m_pc m1 i)" for m1
    using holder_leaves [OF that] by auto
  have enter: "\<exists>m'. mstep\<^sup>*\<^sup>* m1 m' \<and> m_pc m' i = Outside"
    if m1: "minv a m1" "m_pc m1 i = Spinning r" "m_lock m1 = 0" for m1 r
  proof -
    let ?m2 = "m1\<lparr>m_lock := 1, m_pc := (m_pc m1)(i := Holding r)\<rparr>"
    have st: "mstep m1 ?m2" by (rule mstep.acquire [OF m1(2,3)])
    obtain m' where "mstep\<^sup>*\<^sup>* ?m2 m'" "m_pc m' i = Outside"
      using out [OF minv_step [OF st m1(1) assms(2)]] by auto
    then show ?thesis using st by (meson converse_rtranclp_into_rtranclp)
  qed
  have inv: "minv a m" using assms by (rule minv_reach)
  show ?thesis
  proof (cases "m_pc m i")
    case (Spinning r)
    show ?thesis
    proof (cases "m_lock m = 0")
      case False
      then obtain j where j: "in_crit (m_pc m j)" using inv by (auto simp: minv_def)
      then obtain m1 where m1: "mstep\<^sup>*\<^sup>* m m1" "m_pc m1 = (m_pc m)(j := Outside)" "m_lock m1 = 0"
        using holder_leaves [OF inv] by blast
      have "j \<noteq> i" using j Spinning by auto
      then have "m_pc m1 i = Spinning r" using m1(2) Spinning by simp
      moreover have "minv a m1" using m1(1) inv
        by (induction rule: rtranclp_induct) (auto intro: minv_step assms(2))
      ultimately show ?thesis using enter [of m1] m1 by (meson rtranclp_trans)
    qed (use enter [OF inv Spinning] in blast)
  qed (use out [OF inv] in auto)
qed

lemma mem_lock_live_witness:
  "\<exists>m'. mstep\<^sup>*\<^sup>* (mstart 100\<lparr>m_pc := (\<lambda>_. Outside)(3 := Spinning (Incr 7))\<rparr>) m' \<and> m_pc m' 3 = Outside"
proof (rule mem_lock_live [of 100])
  show "mreach (mstart 100) (mstart 100\<lparr>m_pc := (\<lambda>_. Outside)(3 := Spinning (Incr 7))\<rparr>)"
    using mreach.step [OF mreach.init mstep.call [of "mstart 100" 3 "Incr 7"]] by (simp add: mstart_def)
qed simp

text \<open>A thread that runs alone takes exactly the steps of the relation.\<close>

definition mabs :: "nat \<Rightarrow> nat \<Rightarrow> qst \<Rightarrow> mst" where
  "mabs g r s = \<lparr>m_lock = q_mem_lock s, m_used = q_mem_used s, m_allowed = q_mem_allowed s,
     m_pc = (\<lambda>_. Outside), m_granted = g, m_released = r\<rparr>"

lemma alone_steps:
  assumes "m_lock m = 0" "\<forall>i. m_pc m i = Outside" "valid_req q"
  shows "mstep\<^sup>*\<^sup>* m (if admits (m_allowed m) q (m_used m) then apply_req q m else m)"
proof -
  let ?in = "\<lambda>p. m\<lparr>m_lock := 1, m_pc := (m_pc m)(0 := p)\<rparr>"
  have pc: "(m_pc m)(0 := Outside) = m_pc m" using assms(2) by auto
  have "mstep m (m\<lparr>m_pc := (m_pc m)(0 := Spinning q)\<rparr>)" using assms by (intro mstep.call) auto
  moreover have "mstep (m\<lparr>m_pc := (m_pc m)(0 := Spinning q)\<rparr>) (?in (Holding q))"
    using mstep.acquire [of "m\<lparr>m_pc := (m_pc m)(0 := Spinning q)\<rparr>" 0 q] assms(1) by simp
  moreover have "mstep (?in (Holding q)) (?in (Loaded q (m_used m)))" using mstep.load [of "?in (Holding q)" 0 q] by simp
  ultimately have start: "mstep\<^sup>*\<^sup>* m (?in (Loaded q (m_used m)))"
    by (metis (no_types, lifting) rtranclp.rtrancl_into_rtrancl rtranclp.rtrancl_refl)
  show ?thesis
  proof (cases "admits (m_allowed m) q (m_used m)")
    case True
    let ?m2 = "(apply_req q (?in (Changing q)))\<lparr>m_pc := (m_pc (?in (Changing q)))(0 := Leaving)\<rparr>"
    have "mstep (?in (Loaded q (m_used m))) (?in (Changing q))"
      using mstep.admit [of "?in (Loaded q (m_used m))" 0 q "m_used m"] True by simp
    moreover have "mstep (?in (Changing q)) ?m2" by (rule mstep.change) simp
    moreover have "mstep ?m2 (apply_req q m)" using mstep.release [of ?m2 0] assms(1) pc by (cases m; cases q) simp_all
    ultimately show ?thesis using start True by (simp add: rtranclp.rtrancl_into_rtrancl)
  next
    case False
    have "mstep (?in (Loaded q (m_used m))) (?in Leaving)" using mstep.refuse [of "?in (Loaded q (m_used m))" 0 q "m_used m"] False by simp
    moreover have "mstep (?in Leaving) m" using mstep.release [of "?in Leaving" 0] assms(1) pc by (cases m) simp
    ultimately show ?thesis using start False by (simp add: rtranclp.rtrancl_into_rtrancl)
  qed
qed

text \<open>The interleaved model refines the code: with the lock free, a call of
  \<open>incr_mem_used(x)\<close> and then one of \<open>decr_mem_used(y)\<close> moves the counters along steps of the
  relation for which \<open>mem_lock_excludes\<close> is proved.\<close>

theorem mem_ops_are_steps:
  assumes "q_mem_lock s = 0" "valid_req (Incr x)" "valid_req (Decr y)" "q_mem_used s < 2 ^ 64"
  shows "\<exists>g' r'. mstep\<^sup>*\<^sup>* (mabs g r s)
    (mabs g' r' (snd (decr_mem_used y (snd (incr_mem_used x s)))))"
proof -
  let ?s1 = "snd (incr_mem_used x s)" let ?s2 = "snd (decr_mem_used y ?s1)"
  have l1: "q_mem_lock ?s1 = 0" using assms by (simp add: incr_mem_used_run)
  let ?do = "\<lambda>q m. if admits (m_allowed m) q (m_used m) then apply_req q m else m"
  have "\<exists>g1. ?do (Incr x) (mabs g r s) = mabs g1 r ?s1"
    using assms by (auto simp: mabs_def incr_mem_used_run)
  then obtain g1 where a1: "?do (Incr x) (mabs g r s) = mabs g1 r ?s1" ..
  have "q_mem_used ?s1 < 2 ^ 64" using assms by (simp add: incr_mem_used_run u64_def)
  then have "\<exists>r1. ?do (Decr y) (mabs g1 r ?s1) = mabs g1 r1 ?s2"
    using assms(3) l1 u64_sub_exact [of y "q_mem_used ?s1"] by (auto simp: mabs_def decr_mem_used_run not_less)
  then obtain r1 where a2: "?do (Decr y) (mabs g1 r ?s1) = mabs g1 r1 ?s2" ..
  have "mstep\<^sup>*\<^sup>* (mabs g r s) (mabs g1 r ?s1)"
    using alone_steps [of "mabs g r s" "Incr x"] assms a1 by (simp add: mabs_def)
  moreover have "mstep\<^sup>*\<^sup>* (mabs g1 r ?s1) (mabs g1 r1 ?s2)"
    using alone_steps [of "mabs g1 r ?s1" "Decr y"] assms l1 a2 by (simp add: mabs_def)
  ultimately show ?thesis by (meson rtranclp_trans)
qed

lemma mem_ops_are_steps_witness:
  "\<exists>g' r'. mstep\<^sup>*\<^sup>* (mabs 0 0 (empty_st 64))
    (mabs g' r' (snd (decr_mem_used 8 (snd (incr_mem_used 64 (empty_st 64))))))"
  by (rule mem_ops_are_steps) simp_all

end
