(* ===== verification/L2_File.thy ===== *)
theory L2_File
  imports Mem_Acct
begin

text \<open>
  The names of the files that back chunks and vectors, \<open>QJIT/GUTILS/src/l2_file_name.c\<close>: the
  data directory, \<open>/_\<close>, six hexadecimal digits of the vector, \<open>_\<close>, six of the chunk.
\<close>

definition hex :: "nat \<Rightarrow> char" where
  "hex x = (if x < 16 then ''0123456789ABCDEF'' ! x else CHR ''_'')"

text \<open>The loop that writes six nibbles, the lowest first.\<close>

fun nibbles :: "nat \<Rightarrow> nat \<Rightarrow> string" where
  "nibbles 0 x = []"
| "nibbles (Suc n) x = hex (x mod 16) # nibbles n (x div 16)"

text \<open>\<open>None\<close> is the result \<open>NULL\<close>.\<close>

definition l2_file_name :: "(nat \<Rightarrow> string) \<Rightarrow> nat \<Rightarrow> nat \<Rightarrow> nat \<Rightarrow> string option" where
  "l2_file_name dirs tbsp vctr_uqid chnk_idx =
    (if Q_MAX_NUM_TABLESPACES \<le> tbsp then None
     else if dirs tbsp = [] then None
     else
       let part1 = vctr_uqid div 2 ^ 24; part2 = chnk_idx div 2 ^ 24;
           dir_num = (if chnk_idx = UINT_MAX then 0 else u32 (part1 * 2 ^ 8 + part2))
       in if dir_num \<noteq> 0 then None
          else Some (dirs tbsp @ ''/_'' @ nibbles 6 (vctr_uqid mod 2 ^ 24) @ ''_'' @
                     nibbles 6 (chnk_idx mod 2 ^ 24)))"

definition l2_name :: "qst \<Rightarrow> nat \<Rightarrow> nat \<Rightarrow> nat \<Rightarrow> string option" where
  "l2_name s = l2_file_name (q_data_dir_root s)"

lemma hex_inj: "hex x = hex y \<Longrightarrow> x < 16 \<Longrightarrow> y < 16 \<Longrightarrow> x = y"
proof -
  have d: "distinct (''0123456789ABCDEF'' :: string)" by simp
  assume "hex x = hex y" "x < 16" "y < 16"
  then show "x = y" using nth_eq_iff_index_eq [OF d, of x y] by (simp add: hex_def)
qed

lemma length_nibbles [simp]: "length (nibbles n x) = n"
  by (induction n x rule: nibbles.induct) simp_all

lemma nibbles_inj: "nibbles n x = nibbles n y \<Longrightarrow> x mod 16 ^ n = y mod 16 ^ n"
proof (induction n arbitrary: x y)
  case (Suc n)
  have h: "hex (x mod 16) = hex (y mod 16)" "nibbles n (x div 16) = nibbles n (y div 16)"
    using Suc.prems by (simp_all only: nibbles.simps list.inject)
  have "x mod 16 = y mod 16" by (rule hex_inj [OF h(1)]) (simp_all only: mod_less_divisor zero_less_numeral)
  moreover have "x div 16 mod 16 ^ n = y div 16 mod 16 ^ n" by (rule Suc.IH [OF h(2)])
  moreover have "z mod 16 ^ Suc n = 16 * (z div 16 mod 16 ^ n) + z mod 16" for z :: nat
    using mod_mult2_eq [of z 16 "16 ^ n"] by (simp only: power_Suc)
  ultimately show ?case by (simp only:)
qed simp

lemma l2_file_name_Some:
  assumes "l2_file_name dirs t u i = Some f"
  shows "t < 16 \<and> dirs t \<noteq> [] \<and>
    f = dirs t @ ''/_'' @ nibbles 6 (u mod 2 ^ 24) @ ''_'' @ nibbles 6 (i mod 2 ^ 24)"
  using assms unfolding l2_file_name_def Let_def Q_MAX_NUM_TABLESPACES_def
  by (simp split: if_splits)

lemma l2_file_name_defined:
  assumes "t < 16" "dirs t \<noteq> []" "u < 2 ^ 24" "i < 2 ^ 24"
  shows "l2_file_name dirs t u i =
    Some (dirs t @ ''/_'' @ nibbles 6 u @ ''_'' @ nibbles 6 i)"
  using assms by (simp add: l2_file_name_def Q_MAX_NUM_TABLESPACES_def UINT_MAX_def)

text \<open>Within a tablespace the backup files of chunks never clash: two chunks that get a
  file name (vector and chunk numbers below \<open>2 ^ 24\<close>) have the same name only if they are the
  same chunk; and every such chunk does get a name.\<close>

theorem l2_file_name_injective:
  assumes "t < 16" "dirs t \<noteq> []" "u < 2 ^ 24" "i < 2 ^ 24" "u' < 2 ^ 24" "i' < 2 ^ 24"
  shows "(l2_file_name dirs t u i = l2_file_name dirs t u' i' \<longleftrightarrow> u = u' \<and> i = i') \<and>
    l2_file_name dirs t u i \<noteq> None"
proof -
  have "u = u' \<and> i = i'" if "nibbles 6 u @ ''_'' @ nibbles 6 i = nibbles 6 u' @ ''_'' @ nibbles 6 i'"
  proof -
    from that have "nibbles 6 u = nibbles 6 u'" "nibbles 6 i = nibbles 6 i'"
      by (simp_all add: append_eq_append_conv)
    then show ?thesis using assms(3-) nibbles_inj [of 6 u u'] nibbles_inj [of 6 i i'] by simp
  qed
  then show ?thesis using assms by (auto simp: l2_file_name_defined)
qed

lemma l2_file_name_injective_witness:
  "l2_file_name (\<lambda>_. ''/q'') 0 1 2 \<noteq> l2_file_name (\<lambda>_. ''/q'') 0 2 1"
  using l2_file_name_injective [of 0 "\<lambda>_. ''/q''" 1 2 2 1] by simp

text \<open>The name of a vector's own file (chunk number \<open>~0\<close>) is not safe: chunk \<open>0xFFFFFF\<close> of
  the same vector has the same name, and so has the file of every vector whose number agrees
  modulo \<open>2 ^ 24\<close>.\<close>

theorem l2_file_name_lma_collides:
  assumes "t < 16" "dirs t \<noteq> []" "u < 2 ^ 24" "u' mod 2 ^ 24 = u"
  shows "l2_file_name dirs t u UINT_MAX = l2_file_name dirs t u 16777215 \<and>
    l2_file_name dirs t u' UINT_MAX = l2_file_name dirs t u UINT_MAX \<and>
    l2_file_name dirs t u UINT_MAX \<noteq> None"
  using assms by (simp add: l2_file_name_def Q_MAX_NUM_TABLESPACES_def UINT_MAX_def)

lemma l2_file_name_lma_collides_witness:
  "l2_file_name (\<lambda>_. ''/q'') 0 16777217 UINT_MAX = l2_file_name (\<lambda>_. ''/q'') 0 1 16777215"
  using l2_file_name_lma_collides [of 0 "\<lambda>_. ''/q''" 1 16777217] by simp

end
