(* ===== verification/Chnk_Ops.thy ===== *)
theory Chnk_Ops
  imports L2_File
begin

text \<open>
  Operations on one chunk: creating the first one, access to its data, deleting it, and moving
  it between memory (level 1) and its file (level 2).  Files \<open>RUNTIME/VCTR/src/chnk_*.c\<close>.
\<close>

subsection \<open>Lookup\<close>

text \<open>\<open>vctr_is\<close> and \<open>chnk_is\<close>.\<close>

definition vctr_is :: "nat \<Rightarrow> nat \<Rightarrow> bool qprog" where
  "vctr_is t u = seq (vctr_find t u) (\<lambda>r. ret (r \<noteq> None))"

definition chnk_is :: "nat \<Rightarrow> nat \<Rightarrow> nat \<Rightarrow> bool qprog" where
  "chnk_is t u i = seq (chnk_find t (ckey u i)) (\<lambda>r. ret (r \<noteq> None))"

definition vctr_cnt :: "nat \<Rightarrow> nat qprog" where
  "vctr_cnt t s = (if Q_MAX_NUM_TABLESPACES \<le> t then (Inl Undef, s) else (Inr (length (q_vctrs s t)), s))"

definition chnk_cnt :: "nat \<Rightarrow> nat qprog" where
  "chnk_cnt t s = (if Q_MAX_NUM_TABLESPACES \<le> t then (Inl Undef, s) else (Inr (length (q_chnks s t)), s))"

text \<open>\<open>if ( !is_found ) { go_BYE(-1); }\<close>.\<close>

definition must :: "bool qprog \<Rightarrow> unit qprog" where
  "must m = seq m (\<lambda>b. bye_if (\<not> b) (- 1))"

subsection \<open>Creating\<close>

text \<open>The chunk that \<open>chnk_first\<close>, \<open>vctr_put1\<close> and \<open>vctr_putn\<close> build for fresh memory.\<close>

definition new_chnk :: "vctr \<Rightarrow> ptr \<Rightarrow> nat \<Rightarrow> chnk" where
  "new_chnk v l1_mem sz = zero_chnk\<lparr>c_l1_mem := l1_mem, c_qtype := v_qtype v, c_size := sz,
     c_num_free_ignore := (if v_is_early_freeable v then v_num_free_ignore v else 0)\<rparr>"

definition chnk_bytes_of :: "vctr \<Rightarrow> nat" where
  "chnk_bytes_of v = u32 (v_width v * v_max_num_in_chnk v)"

definition chnk_first :: "nat \<Rightarrow> nat \<Rightarrow> unit qprog" where
  "chnk_first t u = seq (vctr_at t u) (\<lambda>v.
     if v_num_elements v \<noteq> 0 then ret ()
     else seq (alloc (chnk_bytes_of v)) (\<lambda>l1_mem.
       steps [incr_mem_used (chnk_bytes_of v),
              chnk_put t (ckey u 0) (new_chnk v l1_mem (chnk_bytes_of v))]))"

subsection \<open>Access to the data\<close>

text \<open>Bring a chunk from its file to memory: the mapping, the size check, the copy.\<close>

definition load_l2 :: "nat \<Rightarrow> chnk_key \<Rightarrow> chnk \<Rightarrow> string \<Rightarrow> unit qprog" where
  "load_l2 t k c l2_file = seq (rs_mmap l2_file False) (\<lambda>(X, nX).
     after (seq (bye_if (nX \<noteq> c_size c) (- 1)) (\<lambda>_. seq (alloc (c_size c)) (\<lambda>l1_mem.
       steps [mod_chnk t k (c_l1_mem_update (\<lambda>_. l1_mem)),
              memcpy l1_mem X nX,
              seq (attempt (incr_mem_used (c_size c))) (\<lambda>_. ret ())])))
       (munmap X))"

definition chnk_get_data :: "nat \<Rightarrow> chnk_key \<Rightarrow> bool \<Rightarrow> ptr qprog" where
  "chnk_get_data t k is_write = or_null (seq (chnk_at t k) (\<lambda>c.
     seq (steps [bye_if is_write (- 1),
                 bye_if (0 < c_num_writers c) (- 1),
                 mod_chnk t k (c_num_readers_update (\<lambda>n. u16 (n + 1))),
                 (if c_l1_mem c = None
                  then seq (bye_if (\<not> c_l2_exists c) (- 1)) (\<lambda>_. seq get_st (\<lambda>s.
                    case l2_name s t (ck_vctr_uqid k) (ck_chnk_idx k) of
                      None \<Rightarrow> go_BYE (- 1)
                    | Some l2_file \<Rightarrow> load_l2 t k c l2_file))
                  else ret ())])
       (\<lambda>_. seq (chnk_at t k) (\<lambda>c. seq (bye_if (c_l1_mem c = None) (- 1)) (\<lambda>_. ret (c_l1_mem c))))))"

definition chnk_unget_data :: "nat \<Rightarrow> chnk_key \<Rightarrow> unit qprog" where
  "chnk_unget_data t k = seq (chnk_at t k) (\<lambda>c.
     if c_l1_mem c = None then ret ()
     else seq get_st (\<lambda>s. case l2_name s t (ck_vctr_uqid k) (ck_chnk_idx k) of
         None \<Rightarrow> go_BYE (- 1)
       | Some l2_file \<Rightarrow> steps
          [(if c_l2_exists c then ret ()
            else seq (fopen_wb l2_file) (\<lambda>fp. steps
             [bye_if (\<not> fp) (- 1),
              fwrite (c_l1_mem c) (c_size c) fp l2_file,
              mod_chnk t k (c_l2_exists_update (\<lambda>_. True)),
              seq (attempt (incr_dsk_used (c_size c))) (\<lambda>_. ret ())])),
           mem_free (c_l1_mem c),
           mod_chnk t k (c_l1_mem_update (\<lambda>_. None)),
           seq (attempt (decr_mem_used (c_size c))) (\<lambda>_. ret ())]))"

definition chnk_nop :: "nat \<Rightarrow> nat \<Rightarrow> nat \<Rightarrow> unit qprog" where
  "chnk_nop t u i = seq (chnk_find t (ckey u i)) (\<lambda>_. ret ())"

subsection \<open>Deleting\<close>

definition chnk_free_resources :: "nat \<Rightarrow> chnk_key \<Rightarrow> bool \<Rightarrow> unit qprog" where
  "chnk_free_resources t k is_persist = seq (chnk_at t k) (\<lambda>c. steps
     [bye_if (0 < c_num_readers c) (- 1),
      bye_if (0 < c_num_writers c) (- 1),
      (if c_l1_mem c = None then ret ()
       else steps [decr_mem_used (c_size c), mem_free (c_l1_mem c),
                   mod_chnk t k (c_l1_mem_update (\<lambda>_. None))]),
      (if \<not> is_persist \<and> t = 0 \<and> c_l2_exists c
       then seq get_st (\<lambda>s. case l2_name s t (ck_vctr_uqid k) (ck_chnk_idx k) of
           None \<Rightarrow> go_BYE (- 1)
         | Some l2_file \<Rightarrow> steps
            [check (\<lambda>s. \<not> isfile s l2_file) (- 1), unlink l2_file,
             decr_dsk_used (c_size c), mod_chnk t k (c_l2_exists_update (\<lambda>_. False))])
       else ret ())])"

definition chnk_del :: "nat \<Rightarrow> nat \<Rightarrow> nat \<Rightarrow> bool \<Rightarrow> unit qprog" where
  "chnk_del t u i is_persist = seq (vctr_is t u) (\<lambda>b. if \<not> b then go_BYE (- 2)
     else seq (chnk_is t u i) (\<lambda>b. if \<not> b then go_BYE (- 3)
     else steps
       [check (\<lambda>s. q_chnks s t = []) (- 1),
        chnk_free_resources t (ckey u i) is_persist,
        must (chnk_remove t (ckey u i))]))"

subsection \<open>Moving between levels\<close>

text \<open>Write the chunk to its file, \<open>fopen\<close> unchecked: what \<open>chnk_l1_to_l2\<close> and \<open>chnk_make_mem\<close>
  share.  \<open>fwrite\<close> of nothing reports 0 items.\<close>

definition store_l2 :: "nat \<Rightarrow> chnk_key \<Rightarrow> chnk \<Rightarrow> string \<Rightarrow> unit qprog" where
  "store_l2 t k c l2_file = seq (fopen_wb l2_file) (\<lambda>fp. steps
     [fwrite (c_l1_mem c) (c_size c) fp l2_file,
      bye_if (c_size c = 0) (- 1),
      incr_dsk_used (c_size c),
      mod_chnk t k (c_l2_exists_update (\<lambda>_. True))])"

definition chnk_l1_to_l2 :: "nat \<Rightarrow> chnk_key \<Rightarrow> unit qprog" where
  "chnk_l1_to_l2 t k = seq (bye_if (t \<noteq> 0) (- 1)) (\<lambda>_. seq (chnk_at t k) (\<lambda>c. seq get_st (\<lambda>s.
     case l2_name s t (ck_vctr_uqid k) (ck_chnk_idx k) of
       None \<Rightarrow> go_BYE (- 1)
     | Some l2_file \<Rightarrow>
         if isfile s l2_file then ret ()
         else seq (bye_if (c_l1_mem c = None) (- 1)) (\<lambda>_. store_l2 t k c l2_file))))"

definition chnk_make_mem :: "nat \<Rightarrow> nat \<Rightarrow> nat \<Rightarrow> int \<Rightarrow> unit qprog" where
  "chnk_make_mem t u i level = seq (need_chnk t (ckey u i)) (\<lambda>c. seq get_st (\<lambda>s.
     case l2_name s t u i of
       None \<Rightarrow> go_BYE (- 1)
     | Some l2_file \<Rightarrow>
         if level = 1
         then (if c_l1_mem c \<noteq> None then ret ()
               else seq (bye_if (\<not> isfile s l2_file) (- 1)) (\<lambda>_. load_l2 t (ckey u i) c l2_file))
         else if level = 2
         then (if c_l2_exists c then ret ()
               else seq (bye_if (t \<noteq> 0) (- 1)) (\<lambda>_. store_l2 t (ckey u i) c l2_file))
         else go_BYE (- 1)))"

definition chnk_drop_mem :: "nat \<Rightarrow> nat \<Rightarrow> nat \<Rightarrow> int \<Rightarrow> unit qprog" where
  "chnk_drop_mem t u i level =
     seq (need_vctr t u) (\<lambda>v. seq (need_chnk t (ckey u i)) (\<lambda>c.
       if level = 1
       then (if c_l1_mem c = None then ret ()
             else if \<not> c_l2_exists c \<and> \<not> v_is_lma v then ret ()
             else steps [mem_free (c_l1_mem c),
                         mod_chnk t (ckey u i) (c_l1_mem_update (\<lambda>_. None)),
                         decr_mem_used (c_size c)])
       else if level = 2
       then (if t \<noteq> 0 then ret ()
             else if \<not> c_l2_exists c then ret ()
             else seq get_st (\<lambda>s. case l2_name s t u i of
                 None \<Rightarrow> go_BYE (- 1)
               | Some l2_file \<Rightarrow>
                   if c_l1_mem c = None \<and> \<not> v_is_lma v then ret ()
                   else steps [unlink l2_file, decr_dsk_used (c_size c),
                               mod_chnk t (ckey u i) (c_l2_exists_update (\<lambda>_. False))]))
       else go_BYE (- 1)))"

definition chnk_is_mem :: "nat \<Rightarrow> nat \<Rightarrow> nat \<Rightarrow> bool qprog" where
  "chnk_is_mem t u i = seq (need_vctr t u) (\<lambda>_. seq (need_chnk t (ckey u i)) (\<lambda>c.
     ret (c_l1_mem c \<noteq> None \<or> c_l2_exists c)))"

end
