(* ===== verification/Vctr_Admin.thy ===== *)
theory Vctr_Admin
  imports Chnk_Ops
begin

text \<open>
  The life of a vector apart from its data: creation, the limit on its history (memo), the end
  of appending (eov), persistence, casts, the link to its null vector, killing, early freeing
  and deletion.  Files \<open>RUNTIME/VCTR/src/vctr_*.c\<close>.
\<close>

subsection \<open>Creation and counts\<close>

text \<open>\<open>++g_vctr_uqid\<close> on a \<open>uint32_t\<close>.\<close>

definition vctr_new_uqid :: "nat qprog" where
  "vctr_new_uqid s = (Inr (u32 (q_vctr_uqid s + 1)), s\<lparr>q_vctr_uqid := u32 (q_vctr_uqid s + 1)\<rparr>)"

definition vctr_add :: "qtype \<Rightarrow> nat \<Rightarrow> nat \<Rightarrow> bool \<Rightarrow> int \<Rightarrow> bool \<Rightarrow> int \<Rightarrow> bool \<Rightarrow> int \<Rightarrow> nat qprog" where
  "vctr_add qtype width max_num_in_chnk is_memo memo_len is_killable num_kill_ignore
     is_early_freeable num_free_ignore =
   seq (bye_if (qtype = Q0 \<or> qtype = QF) (- 1)) (\<lambda>_. seq vctr_new_uqid (\<lambda>uqid.
   let width = (if width = 0 then get_width_c_qtype qtype else width) in
   seq (steps
     [(if is_memo then bye_if (memo_len \<le> 0) (- 1) else bye_if (memo_len \<noteq> 0) (- 1)),
      bye_if (num_kill_ignore < 0) (- 1),
      bye_if (16 < num_kill_ignore) (- 1),
      bye_if (\<not> is_killable \<and> num_kill_ignore \<noteq> 0) (- 1),
      bye_if (num_free_ignore < 0) (- 1),
      bye_if (16 < num_free_ignore) (- 1),
      bye_if (\<not> is_early_freeable \<and> num_free_ignore \<noteq> 0) (- 1),
      bye_if (is_memo \<and> is_early_freeable) (- 1)])
   (\<lambda>_. let max_num_in_chnk = (if max_num_in_chnk = 0 then Q_VCTR_MAX_NUM_IN_CHNK else max_num_in_chnk) in
   seq (bye_if (max_num_in_chnk div 64 * 64 \<noteq> max_num_in_chnk) (- 1))
   (\<lambda>_. seq (if qtype = SC then bye_if (width < 2) (- 1)
            else if qtype = B1 then ret () else bye_if (width = 0) (- 1))
   (\<lambda>_. seq (vctr_put 0 uqid (zero_vctr\<lparr>v_qtype := qtype, v_max_num_in_chnk := max_num_in_chnk,
            v_is_memo := is_memo, v_memo_len := nat memo_len, v_is_killable := is_killable,
            v_num_kill_ignore := nat num_kill_ignore, v_is_early_freeable := is_early_freeable,
            v_num_free_ignore := nat num_free_ignore, v_width := width\<rparr>))
   (\<lambda>_. ret uqid))))))"

definition vctr_num_chunks :: "nat \<Rightarrow> nat \<Rightarrow> nat qprog" where
  "vctr_num_chunks t u = seq (need_vctr t u) (\<lambda>v.
     ret (u32 (u32_sub (v_max_chnk_idx v) (v_min_chnk_idx v) + 1)))"

definition vctr_num_elements :: "nat \<Rightarrow> nat \<Rightarrow> nat qprog" where
  "vctr_num_elements t u = seq (need_vctr t u) (\<lambda>v. ret (v_num_elements v))"

definition vctr_nop :: "nat \<Rightarrow> nat \<Rightarrow> unit qprog" where
  "vctr_nop t u = seq (bye_if (u = 0) (- 1)) (\<lambda>_. seq (need_vctr t u) (\<lambda>v.
     for_upto (v_min_chnk_idx v) (v_max_chnk_idx v) (chnk_nop t u)))"

text \<open>\<open>vctr_file_info\<close>: \<open>None\<close> is \<open>NULL\<close>.\<close>

definition vctr_file_info :: "nat \<Rightarrow> nat \<Rightarrow> (string \<times> int) option qprog" where
  "vctr_file_info t u = seq (vctr_find t u) (\<lambda>r. case r of None \<Rightarrow> ret None
    | Some _ \<Rightarrow> seq get_st (\<lambda>s. case l2_name s t u UINT_MAX of
         None \<Rightarrow> ret None
       | Some lma_file \<Rightarrow> ret (Some (lma_file, get_file_size s lma_file))))"

subsection \<open>Memo\<close>

text \<open>A negative length becomes a huge \<open>uint32_t\<close>.\<close>

definition vctr_set_memo :: "nat \<Rightarrow> nat \<Rightarrow> int \<Rightarrow> unit qprog" where
  "vctr_set_memo t u memo_len = seq (need_vctr t u) (\<lambda>v. steps
     [bye_if (0 < v_num_elements v) (- 1),
      bye_if (v_is_persist v) (- 1),
      bye_if (v_is_memo v) (- 1),
      (if memo_len = 0 then ret ()
       else mod_vctr t u (v_is_memo_update (\<lambda>_. True) \<circ> v_memo_len_update (\<lambda>_. nat (memo_len mod 2 ^ 32))))])"

definition vctr_get_memo_len :: "nat \<Rightarrow> nat \<Rightarrow> (bool \<times> nat) qprog" where
  "vctr_get_memo_len t u = seq (need_vctr t u) (\<lambda>v. ret (v_is_memo v, v_memo_len v))"

text \<open>The status of each deletion overwrites the one before, and the last one is returned.\<close>

definition vctr_memo :: "nat \<Rightarrow> unit qprog" where
  "vctr_memo u = seq (vctr_at 0 u) (\<lambda>v.
     if v_memo_len v = 0 then ret ()
     else if v_is_eov v then ret ()
     else let nC = u32_sub (u32 (v_max_chnk_idx v + 1)) (v_min_chnk_idx v) in
       if nC > v_memo_len v
       then let new_min_chnk_idx = u32_sub (u32 (v_max_chnk_idx v + 1)) (v_memo_len v) in
         seq (for_fold [v_min_chnk_idx v..<new_min_chnk_idx] 0
               (\<lambda>i _. attempt (chnk_del 0 u i (v_is_persist v))))
           (\<lambda>status. seq (mod_vctr 0 u (v_min_chnk_idx_update (\<lambda>_. new_min_chnk_idx))) (\<lambda>_. cBYE status))
       else ret ())"

text \<open>\<open>vctr_memo\<close> takes a position in the map of tablespace 0; its callers in another tablespace
  hand it a position of that one, so it reads and changes an unrelated bucket.\<close>

definition vctr_memo_at :: "nat \<Rightarrow> nat \<Rightarrow> unit qprog" where
  "vctr_memo_at t u = seq (undef_if (t \<noteq> 0)) (\<lambda>_. vctr_memo u)"

definition vctr_eov :: "nat \<Rightarrow> nat \<Rightarrow> unit qprog" where
  "vctr_eov t u = seq (need_vctr t u) (\<lambda>v.
     if v_is_eov v then ret ()
     else steps
       [bye_if (v_num_elements v = 0) (- 1),
        vctr_memo_at t u,
        mod_vctr t u (v_is_eov_update (\<lambda>_. True))])"

definition vctr_persist :: "nat \<Rightarrow> nat \<Rightarrow> bool \<Rightarrow> unit qprog" where
  "vctr_persist t u bval =
     (if t \<noteq> 0 then ret ()
      else seq (need_vctr t u) (\<lambda>v. steps
       [bye_if (v_is_error v) (- 1), bye_if (v_is_killable v) (- 1),
        bye_if (v_is_early_freeable v) (- 1), bye_if (v_is_memo v) (- 1),
        mod_vctr t u (v_is_persist_update (\<lambda>_. bval))]))"

subsection \<open>Cast\<close>

text \<open>In the cases of the 8 and 4 byte types a \<open>break\<close> precedes the inner \<open>switch\<close>.\<close>

definition vctr_cast :: "nat \<Rightarrow> nat \<Rightarrow> string option \<Rightarrow> unit qprog" where
  "vctr_cast t u str_qtype = seq (need_vctr t u) (\<lambda>v.
     let old_qtype = v_qtype v; new_qtype = get_c_qtype str_qtype in
     steps
      [(if old_qtype \<in> {BL, I1, UI1} then bye_if (new_qtype \<notin> {BL, I1, UI1}) (- 1)
        else if old_qtype \<in> {I2, UI2, F2} then bye_if (new_qtype \<notin> {I2, UI2, F2}) (- 1)
        else if old_qtype \<in> {I8, F8, UI8} then ret ()
        else if old_qtype \<in> {I4, F4, UI4} then ret ()
        else go_BYE (- 1)),
       bye_if (0 < v_num_writers v) (- 1),
       bye_if (0 < v_num_readers v) (- 1),
       bye_if (\<not> v_is_eov v) (- 1),
       mod_vctr t u (v_qtype_update (\<lambda>_. new_qtype))])"

subsection \<open>Deletion\<close>

text \<open>The first part of \<open>vctr_del\<close>: break the links with the null vector.  The result tells
  whether the function goes on; a null vector that is not there ends it quietly.\<close>

definition break_nn :: "nat \<Rightarrow> nat \<Rightarrow> vctr \<Rightarrow> bool qprog" where
  "break_nn t u v =
     (if \<not> v_has_nn v then ret True
      else seq (steps [bye_if (v_nn_key v = 0) (- 1),
                       mod_vctr t u (v_has_nn_update (\<lambda>_. False) \<circ> v_nn_key_update (\<lambda>_. 0))])
        (\<lambda>_. seq (vctr_find t (v_nn_key v)) (\<lambda>r. case r of None \<Rightarrow> ret False
          | Some nn \<Rightarrow> seq (steps
              [bye_if (\<not> v_has_parent nn) (- 1),
               mod_vctr t (v_nn_key v) (v_has_parent_update (\<lambda>_. False)),
               bye_if (v_parent_key nn = 0) (- 1),
               mod_vctr t (v_nn_key v) (v_parent_key_update (\<lambda>_. 0))])
            (\<lambda>_. ret True))))"

text \<open>The second part: the file of the whole vector.\<close>

definition del_lma :: "nat \<Rightarrow> nat \<Rightarrow> vctr \<Rightarrow> unit qprog" where
  "del_lma t u v =
     (if v_is_lma v \<and> \<not> v_is_persist v
      then steps
       [bye_if (v_num_readers v \<noteq> 0) (- 1),
        bye_if (v_num_writers v \<noteq> 0) (- 1),
        seq get_st (\<lambda>s. case l2_name s t u UINT_MAX of
            None \<Rightarrow> go_BYE (- 1)
          | Some lma_file \<Rightarrow> steps
             [(if file_exists s lma_file \<and> t = 0
               then steps
                [bye_if (get_file_size s lma_file < 0) (- 1),
                 seq (attempt (unlink lma_file)) (\<lambda>_. ret ()),
                 seq (attempt (decr_dsk_used (nat (get_file_size s lma_file)))) (\<lambda>_. ret ())]
               else ret ()),
              seq (vctr_at t u) (\<lambda>v. if v_X v \<noteq> None \<and> v_nX v \<noteq> 0 then munmap (v_X v) else ret ()),
              mod_vctr t u (v_is_lma_update (\<lambda>_. False))])]
      else ret ())"

text \<open>The third part: one chunk.\<close>

definition del_one_chnk :: "nat \<Rightarrow> nat \<Rightarrow> vctr \<Rightarrow> nat \<Rightarrow> unit qprog" where
  "del_one_chnk t u v i = seq (chnk_cnt t) (\<lambda>old_nitems. seq (chnk_is t u i) (\<lambda>chnk_is_found. steps
     [bye_if (\<not> v_is_error v \<and> \<not> chnk_is_found) (- 1),
      chnk_del t u i (v_is_persist v),
      seq (chnk_cnt t) (\<lambda>new_nitems. bye_if (new_nitems \<noteq> u32_sub old_nitems 1) (- 1))]))"

text \<open>The result is \<open>*ptr_is_found\<close>, \<open>None\<close> when it is not set.  The recursive call for the null
  vector passes \<open>nn_key\<close>, which is still 0: it returns at once and changes nothing.\<close>

definition vctr_del :: "nat \<Rightarrow> nat \<Rightarrow> bool option qprog" where
  "vctr_del t u =
     (if u = 0 then ret None
      else seq (vctr_find t u) (\<lambda>r. case r of None \<Rightarrow> ret (Some False)
      | Some v \<Rightarrow> seq (break_nn t u v) (\<lambda>go_on.
          if \<not> go_on then ret (Some True)
          else if v_has_parent v then ret (Some True)
          else seq (del_lma t u v) (\<lambda>_. seq
            (if v_num_elements v = 0 then must (vctr_remove t u)
             else steps
               [for_upto (v_min_chnk_idx v) (v_max_chnk_idx v) (del_one_chnk t u v),
                must (vctr_remove t u)])
            (\<lambda>_. ret (Some True))))))"

subsection \<open>The null vector\<close>

definition vctr_set_nn_vec :: "nat \<Rightarrow> nat \<Rightarrow> nat \<Rightarrow> nat \<Rightarrow> unit qprog" where
  "vctr_set_nn_vec base_tbsp base_uqid nn_tbsp nn_uqid = seq (steps
     [bye_if (base_tbsp \<noteq> 0) (- 1), bye_if (base_tbsp \<noteq> nn_tbsp) (- 1),
      bye_if (base_uqid = nn_uqid) (- 1), bye_if (base_uqid = 0) (- 1), bye_if (nn_uqid = 0) (- 1)])
     (\<lambda>_. seq (need_vctr base_tbsp base_uqid) (\<lambda>base. seq (need_vctr nn_tbsp nn_uqid) (\<lambda>nn. steps
       [bye_if (v_has_nn base) (- 1),
        bye_if (v_nn_key base \<noteq> 0) (- 1),
        bye_if (v_has_parent nn) (- 1),
        bye_if (v_qtype nn \<noteq> BL \<and> v_qtype nn \<noteq> B1) (- 1),
        mod_vctr base_tbsp base_uqid (v_has_nn_update (\<lambda>_. True) \<circ> v_nn_key_update (\<lambda>_. nn_uqid)),
        mod_vctr nn_tbsp nn_uqid (v_has_parent_update (\<lambda>_. True) \<circ> v_parent_key_update (\<lambda>_. base_uqid))])))"

definition vctr_get_nn_vec :: "nat \<Rightarrow> nat \<Rightarrow> (bool \<times> nat) qprog" where
  "vctr_get_nn_vec base_tbsp base_uqid = seq (steps
     [bye_if (base_tbsp \<noteq> 0) (- 1), bye_if (base_uqid = 0) (- 1)])
     (\<lambda>_. seq (need_vctr base_tbsp base_uqid) (\<lambda>base. ret (v_has_nn base, v_nn_key base)))"

definition vctr_brk_nn_vec :: "nat \<Rightarrow> nat \<Rightarrow> bool \<Rightarrow> unit qprog" where
  "vctr_brk_nn_vec base_tbsp base_uqid del_nn = seq (steps
     [bye_if (base_tbsp \<noteq> 0) (- 1), bye_if (base_uqid = 0) (- 1)])
     (\<lambda>_. seq (need_vctr base_tbsp base_uqid) (\<lambda>base.
       if \<not> v_has_nn base then ret ()
       else seq (need_vctr base_tbsp (v_nn_key base)) (\<lambda>_. steps
         [mod_vctr base_tbsp base_uqid (v_has_nn_update (\<lambda>_. False) \<circ> v_nn_key_update (\<lambda>_. 0)),
          mod_vctr base_tbsp (v_nn_key base) (v_has_parent_update (\<lambda>_. False) \<circ> v_parent_key_update (\<lambda>_. 0)),
          (if del_nn
           then seq (vctr_del base_tbsp (v_nn_key base)) (\<lambda>is_found.
             case is_found of None \<Rightarrow> stop Undef | Some b \<Rightarrow> bye_if (\<not> b) (- 1))
           else ret ())])))"

subsection \<open>Killing and early freeing\<close>

definition vctr_set_num_kill_ignore :: "nat \<Rightarrow> nat \<Rightarrow> int \<Rightarrow> unit qprog" where
  "vctr_set_num_kill_ignore t u num_kill_ignore =
     (if t \<noteq> 0 then ret ()
      else seq (steps [bye_if (num_kill_ignore < 0) (- 1), bye_if (16 \<le> num_kill_ignore) (- 1)])
       (\<lambda>_. seq (need_vctr t u) (\<lambda>v. steps
         [bye_if (0 < v_num_elements v) (- 1), bye_if (v_is_persist v) (- 1),
          bye_if (v_is_killable v) (- 1), bye_if (v_is_eov v) (- 1),
          mod_vctr t u (v_is_killable_update (\<lambda>_. True) \<circ>
            v_num_kill_ignore_update (\<lambda>_. nat num_kill_ignore))])))"

text \<open>\<open>None\<close>: the outputs are not set.\<close>

definition vctr_get_num_kill_ignore :: "nat \<Rightarrow> nat \<Rightarrow> (bool \<times> nat) option qprog" where
  "vctr_get_num_kill_ignore t u =
     (if t \<noteq> 0 then ret None
      else seq (vctr_find t u) (\<lambda>r. ret (map_option (\<lambda>v. (v_is_killable v, v_num_kill_ignore v)) r)))"

text \<open>The results are \<open>*ptr_kill_success\<close> (\<open>None\<close> when not set) and the status, which may be the
  failure of \<open>vctr_del\<close> although success is reported; \<open>is_found\<close> was set by the lookup.\<close>

definition vctr_kill :: "nat \<Rightarrow> nat \<Rightarrow> (bool option \<times> int) qprog" where
  "vctr_kill t u = seq (bye_if (t \<noteq> 0) (- 1)) (\<lambda>_. seq (need_vctr t u) (\<lambda>v.
     if \<not> v_is_killable v then ret (None, 0)
     else if v_is_eov v then ret (None, 0)
     else if 0 < v_num_kill_ignore v
     then seq (mod_vctr t u (v_num_kill_ignore_update (\<lambda>n. n - 1))) (\<lambda>_. ret (Some False, 0))
     else seq (attempt (vctr_del t u)) (\<lambda>status. ret (Some True, status))))"

text \<open>One round of the loop of \<open>vctr_early_free\<close>.\<close>

definition early_free_one :: "nat \<Rightarrow> nat \<Rightarrow> nat \<Rightarrow> unit qprog" where
  "early_free_one t u i = seq (chnk_find t (ckey u i)) (\<lambda>r. case r of None \<Rightarrow> ret ()
     | Some c \<Rightarrow>
       if 0 < c_num_free_ignore c
       then mod_chnk t (ckey u i) (c_num_free_ignore_update (\<lambda>n. n - 1))
       else seq (steps [bye_if (c_num_readers c \<noteq> 0) (- 1), bye_if (c_num_writers c \<noteq> 0) (- 1)])
         (\<lambda>_. if c_l1_mem c = None \<and> \<not> c_l2_exists c then ret ()
              else steps [chnk_del t u i False, mod_vctr t u (v_min_chnk_idx_update (\<lambda>_. u32 (i + 1)))]))"

definition vctr_early_free :: "nat \<Rightarrow> nat \<Rightarrow> nat \<Rightarrow> unit qprog" where
  "vctr_early_free t u ub_chnk_idx = seq (vctr_find t u) (\<lambda>r. case r of None \<Rightarrow> ret ()
     | Some v \<Rightarrow>
       if v_is_persist v then ret ()
       else if v_is_eov v then ret ()
       else if v_num_elements v = 0 then ret ()
       else if \<not> v_is_early_freeable v then ret ()
       else for_upto (v_min_chnk_idx v) ub_chnk_idx (early_free_one t u))"

end
