(* ===== verification/Vctr_Lma.thy ===== *)
theory Vctr_Lma
  imports Vctr_Admin
begin

text \<open>
  Linear memory access: the single file that holds all elements of a vector, mapped while
  readers or a writer use it.  Files \<open>RUNTIME/VCTR/src/vctr_lma_access.c\<close>,
  \<open>vctr_chnks_to_lma.c\<close>, \<open>num_read_write.c\<close>.
\<close>

subsection \<open>Reader and writer counts\<close>

text \<open>An \<open>int\<close> read as \<open>uint32_t\<close>.\<close>

definition to_u32 :: "int \<Rightarrow> nat" where
  "to_u32 n = nat (n mod 2 ^ 32)"

definition vctr_get_num_rw :: "nat \<Rightarrow> nat \<Rightarrow> string \<Rightarrow> nat qprog" where
  "vctr_get_num_rw t u rw = seq (need_vctr t u) (\<lambda>v.
     if rw = ''read'' then ret (to_u32 (v_num_readers v))
     else if rw = ''write'' then ret (to_u32 (v_num_writers v))
     else go_BYE (- 1))"

definition vctr_get_num_readers :: "nat \<Rightarrow> nat \<Rightarrow> nat qprog" where
  "vctr_get_num_readers t u = vctr_get_num_rw t u ''read''"

definition vctr_get_num_writers :: "nat \<Rightarrow> nat \<Rightarrow> nat qprog" where
  "vctr_get_num_writers t u = vctr_get_num_rw t u ''write''"

text \<open>Both branches give \<open>num_readers\<close>.\<close>

definition chnk_get_num_rw :: "nat \<Rightarrow> nat \<Rightarrow> nat \<Rightarrow> string \<Rightarrow> nat qprog" where
  "chnk_get_num_rw t u i rw = seq (need_vctr t u) (\<lambda>_. seq (need_chnk t (ckey u i)) (\<lambda>c.
     if rw = ''read'' then ret (c_num_readers c)
     else if rw = ''write'' then ret (c_num_readers c)
     else go_BYE (- 1)))"

definition chnk_get_num_readers :: "nat \<Rightarrow> nat \<Rightarrow> nat \<Rightarrow> nat qprog" where
  "chnk_get_num_readers t u i = chnk_get_num_rw t u i ''read''"

definition chnk_get_num_writers :: "nat \<Rightarrow> nat \<Rightarrow> nat \<Rightarrow> nat qprog" where
  "chnk_get_num_writers t u i = chnk_get_num_rw t u i ''write''"

definition chnk_incr_num_readers :: "nat \<Rightarrow> nat \<Rightarrow> nat \<Rightarrow> unit qprog" where
  "chnk_incr_num_readers t u i = seq (need_vctr t u) (\<lambda>_. seq (need_chnk t (ckey u i)) (\<lambda>_.
     mod_chnk t (ckey u i) (c_num_readers_update (\<lambda>n. u16 (n + 1)))))"

subsection \<open>Access by the runtime itself\<close>

definition vctr_get_lma_X_nX :: "nat \<Rightarrow> nat \<Rightarrow> (ptr \<times> nat) qprog" where
  "vctr_get_lma_X_nX t u = seq (vctr_at t u) (\<lambda>v.
     seq (if 0 < v_num_readers v then ret (v_X v, v_nX v)
          else seq get_st (\<lambda>s. case l2_name s t u UINT_MAX of
              None \<Rightarrow> go_BYE (- 1)
            | Some lma_file \<Rightarrow> seq (rs_mmap lma_file False) (\<lambda>(X, nX).
                seq (mod_vctr t u (v_X_update (\<lambda>_. X) \<circ> v_nX_update (\<lambda>_. nX))) (\<lambda>_. ret (X, nX)))))
     (\<lambda>(X, nX). seq (mod_vctr t u (v_num_readers_update (\<lambda>n. n + 1))) (\<lambda>_. ret (X, nX))))"

definition vctr_unget_lma_X_nX :: "nat \<Rightarrow> nat \<Rightarrow> ptr \<Rightarrow> nat \<Rightarrow> unit qprog" where
  "vctr_unget_lma_X_nX t u X nX = seq (vctr_at t u) (\<lambda>v. steps
     [bye_if (v_num_readers v = 0) (- 1),
      mod_vctr t u (v_num_readers_update (\<lambda>n. n - 1)),
      (if v_num_readers v - 1 = 0
       then steps [munmap X, mod_vctr t u (v_X_update (\<lambda>_. None) \<circ> v_nX_update (\<lambda>_. 0))]
       else ret ())])"

subsection \<open>Access by a client\<close>

definition zero_cmem :: cmem where
  "zero_cmem = \<lparr> cm_data = None, cm_size = 0, cm_qtype = Q0, cm_is_foreign = False, cm_is_stealable = False \<rparr>"

text \<open>Map the file of the vector, for reading or for writing.\<close>

definition map_lma :: "nat \<Rightarrow> nat \<Rightarrow> bool \<Rightarrow> (ptr \<times> nat) qprog" where
  "map_lma t u is_write = seq get_st (\<lambda>s. case l2_name s t u UINT_MAX of
     None \<Rightarrow> go_BYE (- 1)
   | Some lma_file \<Rightarrow> seq (check (\<lambda>s. \<not> file_exists s lma_file) (- 1)) (\<lambda>_.
       seq (rs_mmap lma_file is_write) (\<lambda>(X, nX).
       seq (mod_vctr t u (v_X_update (\<lambda>_. X) \<circ> v_nX_update (\<lambda>_. nX))) (\<lambda>_. ret (X, nX)))))"

definition vctr_get_lma_read :: "nat \<Rightarrow> nat \<Rightarrow> cmem qprog" where
  "vctr_get_lma_read t u = seq (vctr_find t u) (\<lambda>r. case r of None \<Rightarrow> ret zero_cmem
   | Some v \<Rightarrow> seq (steps [bye_if (\<not> v_is_lma v) (- 1), bye_if (v_num_writers v \<noteq> 0) (- 1)])
      (\<lambda>_. seq (if v_X v = None \<or> v_nX v = 0 then map_lma t u False else ret (v_X v, v_nX v))
      (\<lambda>(X, nX). seq (mod_vctr t u (v_num_readers_update (\<lambda>n. n + 1)))
      (\<lambda>_. ret (zero_cmem\<lparr>cm_data := X, cm_size := nX, cm_is_foreign := True\<rparr>)))))"

text \<open>The writer is counted only when the file is mapped by this call.\<close>

definition vctr_get_lma_write :: "nat \<Rightarrow> nat \<Rightarrow> cmem qprog" where
  "vctr_get_lma_write t u = seq (bye_if (t \<noteq> 0) (- 1)) (\<lambda>_. seq (vctr_find t u) (\<lambda>r.
     case r of None \<Rightarrow> ret zero_cmem
   | Some v \<Rightarrow> seq (steps [bye_if (\<not> v_is_lma v) (- 1), bye_if (v_num_writers v \<noteq> 0) (- 1),
                          bye_if (v_num_readers v \<noteq> 0) (- 1)])
      (\<lambda>_. seq (if v_X v = None \<or> v_nX v = 0
                then seq (map_lma t u True) (\<lambda>m. seq (mod_vctr t u (v_num_writers_update (\<lambda>n. n + 1))) (\<lambda>_. ret m))
                else ret (v_X v, v_nX v))
      (\<lambda>(X, nX). ret (zero_cmem\<lparr>cm_data := X, cm_size := nX, cm_is_foreign := True\<rparr>)))))"

definition vctr_unget_lma_read :: "nat \<Rightarrow> nat \<Rightarrow> unit qprog" where
  "vctr_unget_lma_read t u = seq (need_vctr t u) (\<lambda>v. steps
     [bye_if (\<not> v_is_lma v) (- 1), bye_if (v_num_writers v \<noteq> 0) (- 1),
      bye_if (v_num_readers v = 0) (- 1), bye_if (v_X v = None \<or> v_nX v = 0) (- 1),
      mod_vctr t u (v_num_readers_update (\<lambda>n. n - 1)),
      (if v_num_readers v - 1 = 0
       then steps [munmap (v_X v), mod_vctr t u (v_X_update (\<lambda>_. None) \<circ> v_nX_update (\<lambda>_. 0))]
       else ret ())])"

definition vctr_unget_lma_write :: "nat \<Rightarrow> nat \<Rightarrow> unit qprog" where
  "vctr_unget_lma_write t u = seq (bye_if (t \<noteq> 0) (- 1)) (\<lambda>_. seq (vctr_find t u) (\<lambda>r.
     case r of None \<Rightarrow> ret ()
   | Some v \<Rightarrow> steps
      [bye_if (\<not> v_is_lma v) (- 1), bye_if (v_num_writers v \<noteq> 1) (- 1),
       bye_if (v_num_readers v \<noteq> 0) (- 1), bye_if (v_X v = None \<or> v_nX v = 0) (- 1),
       mod_vctr t u (v_num_writers_update (\<lambda>n. n - 1)),
       munmap (v_X v),
       mod_vctr t u (v_X_update (\<lambda>_. None) \<circ> v_nX_update (\<lambda>_. 0))]))"

subsection \<open>From chunks to one file\<close>

text \<open>One round of the loop of \<open>vctr_chnks_to_lma\<close>: the rest of the mapping, \<open>X\<close> and \<open>nX\<close>.\<close>

definition copy_chnk :: "nat \<Rightarrow> nat \<Rightarrow> nat \<Rightarrow> nat \<Rightarrow> ptr \<times> nat \<Rightarrow> (ptr \<times> nat) qprog" where
  "copy_chnk t u width i = (\<lambda>(X, nX). seq (need_chnk t (ckey u i)) (\<lambda>c.
     seq (steps [bye_if (c_num_elements c = 0) (- 1), bye_if (c_num_writers c \<noteq> 0) (- 1)])
     (\<lambda>_. seq
       (if c_l1_mem c \<noteq> None
        then seq (chnk_get_data t (ckey u i) False) (\<lambda>data. seq (chnk_at t (ckey u i)) (\<lambda>c'.
          seq (steps [bye_if (c_num_readers c + 1 \<noteq> c_num_readers c') (- 1),
                      mod_chnk t (ckey u i) (c_num_readers_update (\<lambda>n. n - 1))])
          (\<lambda>_. ret (data, None))))
        else seq (bye_if (\<not> c_l2_exists c) (- 1)) (\<lambda>_. seq get_st (\<lambda>s.
          case l2_name s t u i of None \<Rightarrow> go_BYE (- 1)
          | Some l2_file \<Rightarrow> seq (rs_mmap l2_file False) (\<lambda>(Y, nY). ret (Y, Y)))))
     (\<lambda>(data, Y). let bytes_to_copy = u32 (c_num_elements c * width) in
       seq (steps [bye_if (bytes_to_copy > nX) (- 1), bye_if (data = None) (- 1),
                   memcpy X data bytes_to_copy, munmap Y])
       (\<lambda>_. ret (ptr_add X bytes_to_copy, nX - bytes_to_copy))))))"

definition vctr_chnks_to_lma :: "nat \<Rightarrow> nat \<Rightarrow> unit qprog" where
  "vctr_chnks_to_lma t u = seq (bye_if (u = 0) (- 1)) (\<lambda>_. seq (need_vctr t u) (\<lambda>v.
     if v_is_lma v then ret ()
     else seq (steps
      [bye_if (\<not> v_is_eov v) (- 1), bye_if (v_is_memo v) (- 1), bye_if (v_is_early_freeable v) (- 1),
       bye_if (v_is_killable v) (- 1), bye_if (v_num_elements v = 0) (- 1), bye_if (v_width v = 0) (- 1),
       bye_if (v_num_readers v \<noteq> 0) (- 1), bye_if (v_num_writers v \<noteq> 0) (- 1),
       bye_if (v_X v \<noteq> None) (- 1), bye_if (v_nX v \<noteq> 0) (- 1), bye_if (t \<noteq> 0) (- 1)])
     (\<lambda>_. seq get_st (\<lambda>s. case l2_name s 0 u UINT_MAX of None \<Rightarrow> go_BYE (- 1)
      | Some lma_file \<Rightarrow> let filesz = u64 (v_num_elements v * v_width v) in
         seq (steps
          [bye_if (filesz = 0) (- 1),
           check (\<lambda>s. get_dsk_allowed s < get_dsk_used s) (- 1),
           check (\<lambda>s. get_dsk_allowed s - get_dsk_used s < filesz) (- 1),
           incr_dsk_used filesz,
           mk_file lma_file filesz])
         (\<lambda>_. seq (rs_mmap lma_file True) (\<lambda>(X, nX).
           after (steps
            [bye_if (X = None \<or> nX = 0) (- 1),
             seq (fold_upto 0 (v_max_chnk_idx v) (X, nX) (copy_chnk t u (v_width v))) (\<lambda>_. ret ()),
             mod_vctr t u (v_is_lma_update (\<lambda>_. True))])
            (munmap X)))))))"

end
