(* ===== verification/Vctr_Data.thy ===== *)
theory Vctr_Data
  imports Vctr_Lma
begin

text \<open>
  Putting elements into a vector and getting them out, one by one, in bulk and by chunk.  Files
  \<open>RUNTIME/VCTR/src/vctr_put1.c\<close>, \<open>vctr_putn.c\<close>, \<open>vctr_put_chunk.c\<close>, \<open>vctr_get1.c\<close>,
  \<open>vctr_get_chunk.c\<close>, \<open>vctr_append.c\<close>, \<open>vctr_set_lma.c\<close>, \<open>vctr_lma_to_chnks.c\<close>.
\<close>

subsection \<open>Putting\<close>

text \<open>\<open>memset(p, 0, n)\<close>.\<close>

definition mem_zero :: "ptr \<Rightarrow> nat \<Rightarrow> unit qprog" where
  "mem_zero p n = mem_write p (replicate n 0)"

text \<open>\<open>strcpy(p, s)\<close>: the bytes up to the terminator, and a terminator.\<close>

definition c_string :: "byte list \<Rightarrow> byte list" where
  "c_string bs = takeWhile (\<lambda>b. b \<noteq> 0) bs @ [0]"

text \<open>A further chunk, when the last one is full: what \<open>vctr_put1\<close> and \<open>vctr_putn\<close> do when the
  space runs out.  The status of \<open>incr_mem_used\<close> is overwritten.\<close>

definition grow_vctr :: "nat \<Rightarrow> nat \<Rightarrow> vctr \<Rightarrow> nat \<Rightarrow> unit qprog" where
  "grow_vctr t u v i = seq (alloc (chnk_bytes_of v)) (\<lambda>l1_mem. steps
     [seq (attempt (incr_mem_used (chnk_bytes_of v))) (\<lambda>_. ret ()),
      chnk_put t (ckey u i) (new_chnk v l1_mem (chnk_bytes_of v)),
      mod_vctr t u (v_max_chnk_idx_update (\<lambda>_. i))])"

text \<open>The second half of \<open>vctr_put1\<close>: the chunk has room.  The value is copied out of the union of
  the scalar.\<close>

definition put1_write :: "nat \<Rightarrow> nat \<Rightarrow> vctr \<Rightarrow> sclr \<Rightarrow> nat \<Rightarrow> unit qprog" where
  "put1_write t u v x chnk_idx = seq (need_chnk t (ckey u chnk_idx)) (\<lambda>c.
     let dst = ptr_add (c_l1_mem c) (u32 (c_num_elements c * v_width v)) in
     seq (mem_zero dst (v_width v)) (\<lambda>_. seq
      (if v_qtype v = SC then mem_write dst (c_string (sc_str x))
       else if v_width v \<le> length (sc_bytes x) then mem_write dst (take (v_width v) (sc_bytes x))
       else stop Undef) (\<lambda>_. steps
      [mod_vctr t u (v_num_elements_update (\<lambda>n. u64 (n + 1))),
       mod_chnk t (ckey u chnk_idx) (c_num_elements_update (\<lambda>n. u32 (n + 1))),
       vctr_memo u])))"

text \<open>\<open>None\<close> is a null \<open>ptr_sclr\<close>.\<close>

definition vctr_put1 :: "nat \<Rightarrow> nat \<Rightarrow> sclr option \<Rightarrow> unit qprog" where
  "vctr_put1 t u ptr_sclr = seq (steps
     [bye_if (t \<noteq> 0) (- 1), bye_if (u = 0) (- 1), bye_if (ptr_sclr = None) (- 1)])
   (\<lambda>_. seq (need_vctr t u) (\<lambda>v.
    seq (steps [bye_if (v_is_eov v) (- 1), chnk_first t u])
   (\<lambda>_. seq (vctr_at t u) (\<lambda>v. seq (need_chnk t (ckey u (v_max_chnk_idx v))) (\<lambda>c.
    seq (bye_if (c_l1_mem c = None) (- 1))
   (\<lambda>_. let full = (c_num_elements c = v_max_num_in_chnk v);
           chnk_idx = (if full then u32 (v_max_chnk_idx v + 1) else v_max_chnk_idx v) in
    seq (if full then grow_vctr t u v chnk_idx else ret ())
   (\<lambda>_. put1_write t u v (the ptr_sclr) chnk_idx)))))))"

text \<open>The second half of \<open>vctr_putn\<close>: the number of elements copied into a chunk with room.\<close>

definition putn_copy :: "nat \<Rightarrow> nat \<Rightarrow> vctr \<Rightarrow> ptr \<Rightarrow> nat \<Rightarrow> nat \<Rightarrow> nat qprog" where
  "putn_copy t u v X n chnk_idx = seq (chnk_at t (ckey u chnk_idx)) (\<lambda>c.
    let space_in_chunk = u32_sub (v_max_num_in_chnk v) (c_num_elements c);
        n_to_copy = (if n > space_in_chunk then space_in_chunk else n);
        dst = ptr_add (c_l1_mem c) (u32 (c_num_elements c * v_width v)) in
    seq (steps
     [memcpy dst X (u32 (n_to_copy * v_width v)),
      mod_vctr t u (v_num_elements_update (\<lambda>k. u64 (k + n_to_copy))),
      mod_chnk t (ckey u chnk_idx) (c_num_elements_update (\<lambda>k. u32 (k + n_to_copy)))])
    (\<lambda>_. ret n_to_copy))"

text \<open>One call of \<open>vctr_putn\<close> up to the recursion.\<close>

definition putn_step :: "nat \<Rightarrow> nat \<Rightarrow> ptr \<Rightarrow> nat \<Rightarrow> nat qprog" where
  "putn_step t u X n = seq (steps
     [bye_if (t \<noteq> 0) (- 1), bye_if (u = 0) (- 1), bye_if (X = None) (- 1), bye_if (n = 0) (- 1)])
   (\<lambda>_. seq (need_vctr t u) (\<lambda>v.
    seq (steps [bye_if (v_is_eov v) (- 1), chnk_first t u])
   (\<lambda>_. seq (need_chnk t (ckey u (v_max_chnk_idx v))) (\<lambda>c.
    seq (bye_if (c_l1_mem c = None) (- 1))
   (\<lambda>_. let full = (c_num_elements c = v_max_num_in_chnk v);
           chnk_idx = (if full then u32 (v_max_chnk_idx v + 1) else v_max_chnk_idx v) in
    seq (if full then grow_vctr t u v chnk_idx else ret ()) (\<lambda>_. putn_copy t u v X n chnk_idx))))))"

text \<open>The recursion, on what is left to copy.  A call that copies nothing would repeat for ever.\<close>

function vctr_putn :: "nat \<Rightarrow> nat \<Rightarrow> ptr \<Rightarrow> nat \<Rightarrow> unit qprog" where
  "vctr_putn t u X n s =
     (case putn_step t u X n s of
        (Inl e, s') \<Rightarrow> (Inl e, s')
      | (Inr n_to_copy, s') \<Rightarrow>
          if n_to_copy < n
          then if n_to_copy = 0 then (Inl Diverges, s')
            else (case map_of (q_vctrs s' t) u of
                None \<Rightarrow> (Inl Undef, s')
              | Some v \<Rightarrow>
                  (case vctr_putn t u (ptr_add X (u32 (n_to_copy * v_width v))) (n - n_to_copy) s' of
                     (Inl e, s'') \<Rightarrow> (Inl e, s'')
                   | (Inr _, s'') \<Rightarrow> vctr_memo u s''))
          else vctr_memo u s')"
  by pat_completeness auto
termination by (relation "measure (\<lambda>(t, u, X, n, s). n)") auto

definition vctr_put_chunk :: "nat \<Rightarrow> nat \<Rightarrow> cmem \<Rightarrow> nat \<Rightarrow> cmem qprog" where
  "vctr_put_chunk t u cmem n = seq (steps [bye_if (u = 0) (- 1), bye_if (n = 0) (- 1)])
   (\<lambda>_. seq (need_vctr t u) (\<lambda>v.
    let chnk_size = u32 (cm_size cmem); is_eov = (n < v_max_num_in_chnk v) in
    seq (steps
     [bye_if (v_is_eov v) (- 1),
      bye_if (n > v_max_num_in_chnk v) (- 1),
      bye_if (chnk_size = 0) (- 1),
      bye_if (v_qtype v \<noteq> B1 \<and> chnk_size \<noteq> chnk_bytes_of v) (- 1),
      bye_if (v_num_elements v div v_max_num_in_chnk v * v_max_num_in_chnk v \<noteq> v_num_elements v) (- 1),
      (if is_eov then vctr_memo_at t u else ret ())])
   (\<lambda>_. seq (vctr_at t u) (\<lambda>v'.
    let chnk_idx = (if v_num_elements v = 0 then 0 else u32 (v_max_chnk_idx v' + 1)) in
    seq (if cm_is_stealable cmem
         then seq (bye_if (cm_is_foreign cmem) (- 1))
           (\<lambda>_. ret (cm_data cmem, cmem\<lparr>cm_size := 0, cm_is_foreign := True, cm_is_stealable := False\<rparr>))
         else seq (alloc chnk_size) (\<lambda>l1_mem. seq (steps
           [incr_mem_used chnk_size, memcpy l1_mem (cm_data cmem) (u32 (n * v_width v))])
           (\<lambda>_. ret (l1_mem, cmem))))
   (\<lambda>(l1_mem, cmem'). seq (steps
     [chnk_put t (ckey u chnk_idx) ((new_chnk v l1_mem chnk_size)\<lparr>c_num_elements := n\<rparr>),
      mod_vctr t u (v_num_elements_update (\<lambda>k. u64 (k + n))),
      mod_vctr t u (v_max_chnk_idx_update (\<lambda>_. chnk_idx)),
      vctr_memo_at t u,
      mod_vctr t u (v_is_eov_update (\<lambda>_. is_eov))])
    (\<lambda>_. ret cmem'))))))"

subsection \<open>Getting one element\<close>

definition vctr_get1_lma :: "nat \<Rightarrow> nat \<Rightarrow> nat \<Rightarrow> sclr qprog" where
  "vctr_get1_lma t u elem_idx = seq (vctr_at t u) (\<lambda>v.
    seq (steps [bye_if (\<not> v_is_lma v) (- 1), bye_if (v_num_writers v \<noteq> 0) (- 1),
                bye_if (v_num_elements v \<le> elem_idx) (- 1)])
   (\<lambda>_. seq (vctr_get_lma_X_nX t u) (\<lambda>(X, nX).
    let offset = u64 (v_width v * elem_idx) in
    seq (steps [bye_if (v_qtype v = SC) (- 1), bye_if (v_qtype v = B1) (- 1),
                bye_if (u64 (offset + v_width v) > nX) (- 1)])
   (\<lambda>_. seq (mem_read (ptr_add X offset) (v_width v)) (\<lambda>val.
    seq (vctr_unget_lma_X_nX t u X nX)
   (\<lambda>_. ret \<lparr>sc_qtype = v_qtype v, sc_bytes = val, sc_str = []\<rparr>))))))"

text \<open>The element of a chunk that is in memory at \<open>data\<close>.\<close>

definition read_elem :: "vctr \<Rightarrow> ptr \<Rightarrow> nat \<Rightarrow> sclr qprog" where
  "read_elem v data chnk_off =
    (if v_qtype v = SC
     then seq (mem_read (ptr_add data (u32 (v_width v * chnk_off))) (v_width v))
       (\<lambda>str. ret \<lparr>sc_qtype = SC, sc_bytes = [], sc_str = str\<rparr>)
     else if v_qtype v = B1
     then seq (mem_read (ptr_add data (chnk_off div 64 * 8)) 8)
       (\<lambda>w. ret \<lparr>sc_qtype = BL, sc_bytes = [if get_bit_u64 w (chnk_off mod 64) then 1 else 0], sc_str = []\<rparr>)
     else seq (mem_read (ptr_add data (u32 (v_width v * chnk_off))) (v_width v))
       (\<lambda>val. ret \<lparr>sc_qtype = v_qtype v, sc_bytes = val, sc_str = []\<rparr>))"

definition vctr_get1 :: "nat \<Rightarrow> nat \<Rightarrow> nat \<Rightarrow> sclr qprog" where
  "vctr_get1 t u elem_idx = seq (need_vctr t u) (\<lambda>v.
    seq (bye_if (v_num_elements v \<le> elem_idx) (- 1))
   (\<lambda>_. if v_is_lma v then vctr_get1_lma t u elem_idx
    else seq (undef_if (v_max_num_in_chnk v = 0)) (\<lambda>_.
     let chnk_idx = u32 (elem_idx div v_max_num_in_chnk v);
         chnk_off = elem_idx mod v_max_num_in_chnk v in
     seq (need_chnk t (ckey u chnk_idx)) (\<lambda>_.
     seq (chnk_get_data t (ckey u chnk_idx) False) (\<lambda>data.
     seq (bye_if (data = None) (- 1))
    (\<lambda>_. after
      (seq (chnk_at t (ckey u chnk_idx)) (\<lambda>c.
       seq (bye_if (chnk_off + 1 > c_num_elements c) (- 1)) (\<lambda>_. read_elem v data chnk_off)))
      (mod_chnk t (ckey u chnk_idx) (c_num_readers_update (\<lambda>n. u16 (n + 65535))))))))))"

subsection \<open>Getting a chunk\<close>

text \<open>Only three fields of the caller's descriptor are set.\<close>

definition vctr_get_chunk_lma :: "nat \<Rightarrow> nat \<Rightarrow> nat \<Rightarrow> cmem \<Rightarrow> (cmem \<times> nat) qprog" where
  "vctr_get_chunk_lma t u i cmem = seq (vctr_at t u) (\<lambda>v.
    seq (steps [bye_if (\<not> v_is_lma v) (- 1), bye_if (v_num_writers v \<noteq> 0) (- 1)])
   (\<lambda>_. seq (vctr_get_lma_X_nX t u) (\<lambda>(X, nX).
    let chunk_size = (if v_qtype v = B1 then v_max_num_in_chnk v div 8 else chnk_bytes_of v);
        offset = u64 (chunk_size * i) in
    seq (steps [bye_if (offset > nX) (- 1), undef_if (v_width v = 0)])
   (\<lambda>_. let size = min (nX - offset) chunk_size in
     ret (cmem\<lparr>cm_data := ptr_add X offset, cm_size := size, cm_is_foreign := True\<rparr>,
          u32 (size div v_width v))))))"

text \<open>The results are the descriptor, the number of elements and \<open>yes_vec_no_chunk\<close>; the last
  with the status \<open>-1\<close>, so it is a value here.\<close>

definition vctr_get_chunk :: "nat \<Rightarrow> nat \<Rightarrow> nat \<Rightarrow> cmem \<Rightarrow> (cmem \<times> nat) option qprog" where
  "vctr_get_chunk t u i cmem = seq (need_vctr t u) (\<lambda>v.
    if v_is_lma v then seq (vctr_get_chunk_lma t u i cmem) (\<lambda>r. ret (Some r))
    else seq (chnk_find t (ckey u i)) (\<lambda>r. case r of None \<Rightarrow> ret None
    | Some _ \<Rightarrow>
      seq (chnk_get_data t (ckey u i) False) (\<lambda>data.
      seq (bye_if (data = None) (- 1)) (\<lambda>_. seq (chnk_at t (ckey u i)) (\<lambda>c. seq rdtsc (\<lambda>touch_time.
      seq (mod_chnk t (ckey u i) (c_touch_time_update (\<lambda>_. touch_time)))
      (\<lambda>_. ret (Some (\<lparr>cm_data = data, cm_size = chnk_bytes_of v, cm_qtype = v_qtype v,
                      cm_is_foreign = True, cm_is_stealable = False\<rparr>, c_num_elements c)))))))))"

definition vctr_unget_chunk :: "nat \<Rightarrow> nat \<Rightarrow> int \<Rightarrow> unit qprog" where
  "vctr_unget_chunk t u in_chnk_idx = seq (need_vctr t u) (\<lambda>v.
    if v_is_lma v
    then steps
     [bye_if (v_num_readers v = 0) (- 1),
      mod_vctr t u (v_num_readers_update (\<lambda>n. n - 1)),
      (if v_num_readers v - 1 = 0
       then steps [munmap (v_X v), mod_vctr t u (v_X_update (\<lambda>_. None) \<circ> v_nX_update (\<lambda>_. 0))]
       else ret ())]
    else let k = ckey u (nat (in_chnk_idx mod 2 ^ 32)) in
     seq (need_chnk t k) (\<lambda>c. steps
     [bye_if (c_num_readers c = 0) (- 1),
      mod_chnk t k (c_num_readers_update (\<lambda>n. n - 1)),
      seq rdtsc (\<lambda>touch_time. mod_chnk t k (c_touch_time_update (\<lambda>_. touch_time)))]))"

end
