(* ===== verification/Vec_Inv.thy ===== *)
theory Vec_Inv
  imports Vctr_Data
begin

text \<open>
  The abstract view of the vector runtime: a vector represents the list of its elements, held
  slice by slice in the chunks that its record names; every chunk owns its memory block.  The
  lemmas say how allocation, writing, and deleting a chunk act on this view.
\<close>

subsection \<open>Ownership of memory\<close>

definition owns :: "qst \<Rightarrow> nat \<Rightarrow> chnk_key \<Rightarrow> nat \<Rightarrow> bool" where
  "owns s t k b = (\<exists>c off. map_of (q_chnks s t) k = Some c \<and> c_l1_mem c = Some (b, off))"

text \<open>Nobody holds the lock; a chunk in memory points to the start of a live block of its size,
  which no other chunk points to; blocks not yet handed out are not live.\<close>

definition rt_ok :: "qst \<Rightarrow> bool" where
  "rt_ok s = (q_mem_lock s = 0 \<and>
     (\<forall>t k c p. map_of (q_chnks s t) k = Some c \<longrightarrow> c_l1_mem c = Some p \<longrightarrow>
        (\<exists>b bs. p = (b, 0) \<and> q_heap s b = Some (Mem bs) \<and> length bs = c_size c)) \<and>
     (\<forall>t k t' k' b. owns s t k b \<longrightarrow> owns s t' k' b \<longrightarrow> t = t' \<and> k = k') \<and>
     (\<forall>b. q_next s \<le> b \<longrightarrow> q_heap s b = None))"

lemma rt_lock: "rt_ok s \<Longrightarrow> q_mem_lock s = 0"
  by (simp add: rt_ok_def)

lemma rt_block:
  assumes "rt_ok s" "map_of (q_chnks s t) k = Some c" "c_l1_mem c = Some p"
  obtains b bs where "p = (b, 0)" "q_heap s b = Some (Mem bs)" "length bs = c_size c" "b < q_next s"
  using assms unfolding rt_ok_def by (metis not_le option.distinct(1))

lemma rt_inj: "rt_ok s \<Longrightarrow> owns s t k b \<Longrightarrow> owns s t' k' b \<Longrightarrow> t = t' \<and> k = k'"
  unfolding rt_ok_def by blast

lemma rt_fresh: "rt_ok s \<Longrightarrow> q_next s \<le> b \<Longrightarrow> q_heap s b = None"
  by (simp add: rt_ok_def)

text \<open>The fields the view depends on.\<close>

definition same_view :: "qst \<Rightarrow> qst \<Rightarrow> bool" where
  "same_view s s' = (q_vctrs s' = q_vctrs s \<and> q_chnks s' = q_chnks s \<and> q_heap s' = q_heap s \<and>
     q_next s' = q_next s \<and> q_mem_lock s' = q_mem_lock s \<and> q_can_alloc s' = q_can_alloc s \<and>
     q_files s' = q_files s \<and> q_data_dir_root s' = q_data_dir_root s \<and> q_can_open s' = q_can_open s)"

lemma same_view_refl [simp]: "same_view s s"
  by (simp add: same_view_def)

lemma same_view_acct: "acct_frame s s' \<Longrightarrow> same_view s s'"
  by (auto simp: acct_frame_def same_view_def)

lemma rt_ok_same_view: "same_view s s' \<Longrightarrow> rt_ok s' = rt_ok s"
  by (simp add: rt_ok_def owns_def same_view_def)

lemma owns_chnks: "q_chnks s' = q_chnks s \<Longrightarrow> owns s' = owns s"
  by (simp add: owns_def fun_eq_iff)

lemma rt_ok_mod_vctr [simp]: "rt_ok (vctr_upd t u f s) = rt_ok s"
  by (simp add: rt_ok_def owns_def)

text \<open>Changing fields of a chunk other than its pointer and size.\<close>

lemma owns_mod_chnk:
  assumes "\<And>c. map_of (q_chnks s t) k = Some c \<Longrightarrow> c_l1_mem (f c) = c_l1_mem c"
  shows "owns (chnk_upd t k f s) t' k' b = owns s t' k' b"
  using assms by (cases "map_of (q_chnks s t) k") (auto simp: owns_def)

lemma rt_ok_mod_chnk:
  assumes "rt_ok s" "\<And>c. map_of (q_chnks s t) k = Some c \<Longrightarrow> c_l1_mem (f c) = c_l1_mem c"
    "\<And>c. map_of (q_chnks s t) k = Some c \<Longrightarrow> c_size (f c) = c_size c"
  shows "rt_ok (chnk_upd t k f s)"
proof -
  have "\<exists>b bs. p = (b, 0) \<and> q_heap s b = Some (Mem bs) \<and> length bs = c_size c"
    if "map_of (q_chnks (chnk_upd t k f s) t') k' = Some c" "c_l1_mem c = Some p" for t' k' c p
    using that assms by (auto split: if_splits elim: rt_block)
  moreover have "owns (chnk_upd t k f s) = owns s"
    by (intro ext) (rule owns_mod_chnk, rule assms(2))
  ultimately show ?thesis using assms(1) unfolding rt_ok_def by simp
qed

text \<open>Writing to a live block without changing its length.\<close>

lemma rt_ok_heap_write:
  assumes "rt_ok s" "q_heap s b = Some (Mem bs)" "length bs' = length bs"
  shows "rt_ok (s\<lparr>q_heap := (q_heap s)(b \<mapsto> Mem bs')\<rparr>)"
proof -
  have "b < q_next s" using assms rt_fresh by (metis not_le option.distinct(1))
  moreover have "\<exists>b' bs''. p = (b', 0) \<and> ((q_heap s)(b \<mapsto> Mem bs')) b' = Some (Mem bs'') \<and> length bs'' = c_size c"
    if "map_of (q_chnks s t) k = Some c" "c_l1_mem c = Some p" for t k c p
    using rt_block [OF assms(1) that] assms(2,3) by (metis block.inject(1) fun_upd_apply option.inject)
  ultimately show ?thesis using assms(1) unfolding rt_ok_def owns_def by auto
qed

text \<open>A fresh block for a new chunk.\<close>

lemma rt_ok_new_chnk:
  assumes ok: "rt_ok s" and c: "length bs = c_size c" "c_l1_mem c = Some (q_next s, 0)"
    and s': "q_mem_lock s' = 0" "q_next s' = Suc (q_next s)" "q_heap s' = (q_heap s)(q_next s \<mapsto> Mem bs)"
      "\<And>t' k'. map_of (q_chnks s' t') k' =
         (if t' = t \<and> k' = k then Some c else map_of (q_chnks s t') k')"
  shows "rt_ok s'"
proof -
  have old: "b < q_next s" if "owns s t' k' b" for t' k' b
    using that ok by (auto simp: owns_def elim: rt_block)
  have own: "owns s' t' k' b \<longleftrightarrow> (if t' = t \<and> k' = k then b = q_next s else owns s t' k' b)" for t' k' b
    using c(2) s'(4) by (auto simp: owns_def)
  have "\<exists>b' bs'. p = (b', 0) \<and> q_heap s' b' = Some (Mem bs') \<and> length bs' = c_size c'"
    if "map_of (q_chnks s' t') k' = Some c'" "c_l1_mem c' = Some p" for t' k' c' p
  proof (cases "t' = t \<and> k' = k")
    case True then show ?thesis using that c s'(3,4) by simp
  next
    case False
    then have "map_of (q_chnks s t') k' = Some c'" using that(1) s'(4) by (auto split: if_splits)
    from rt_block [OF ok this that(2)] obtain b bs
      where "p = (b, 0)" "q_heap s b = Some (Mem bs)" "length bs = c_size c'" "b < q_next s" .
    then show ?thesis using s'(3) by simp
  qed
  moreover have "t1 = t2 \<and> k1 = k2" if "owns s' t1 k1 b" "owns s' t2 k2 b" for t1 k1 t2 k2 b
    using that old rt_inj [OF ok] unfolding own by (auto split: if_splits)
  ultimately show ?thesis using ok s'(1-3) unfolding rt_ok_def by auto
qed

text \<open>Giving a chunk and its block up.  The equations hold of the maps, whatever the order of
  their lists.\<close>

lemma rt_ok_drop_chnk:
  assumes ok: "rt_ok s" and c: "map_of (q_chnks s t) k = Some c" "c_l1_mem c = Some (b, 0)"
    and s': "q_mem_lock s' = 0" "q_next s' = q_next s" "q_heap s' = (q_heap s)(b := None)"
      "\<And>t' k'. map_of (q_chnks s' t') k' =
         (if t' = t \<and> k' = k then r else map_of (q_chnks s t') k')"
      "\<And>c'. r = Some c' \<Longrightarrow> c_l1_mem c' = None"
  shows "rt_ok s'"
proof -
  have own: "owns s' t' k' b' \<longleftrightarrow> \<not> (t' = t \<and> k' = k) \<and> owns s t' k' b'" for t' k' b'
    using s'(4,5) by (auto simp: owns_def)
  have b: "owns s t k b" using c by (auto simp: owns_def)
  have "\<exists>b' bs. p = (b', 0) \<and> q_heap s' b' = Some (Mem bs) \<and> length bs = c_size c'"
    if *: "map_of (q_chnks s' t') k' = Some c'" "c_l1_mem c' = Some p" for t' k' c' p
  proof -
    have ne: "\<not> (t' = t \<and> k' = k)" using * s'(4,5) by (metis option.distinct(1))
    then have m: "map_of (q_chnks s t') k' = Some c'" using *(1) s'(4) by (auto split: if_splits)
    from rt_block [OF ok m *(2)] obtain b' bs
      where p: "p = (b', 0)" "q_heap s b' = Some (Mem bs)" "length bs = c_size c'" .
    have "owns s t' k' b'" using m *(2) p by (auto simp: owns_def)
    then have "b' \<noteq> b" using rt_inj [OF ok b] ne by auto
    then show ?thesis using p s'(3) by simp
  qed
  moreover have "t1 = t2 \<and> k1 = k2" if "owns s' t1 k1 b'" "owns s' t2 k2 b'" for t1 k1 t2 k2 b'
    using that rt_inj [OF ok] unfolding own by blast
  moreover have "\<forall>b'. q_next s' \<le> b' \<longrightarrow> q_heap s' b' = None"
    using ok s'(2,3) by (simp add: rt_ok_def)
  ultimately show ?thesis using s'(1) unfolding rt_ok_def by blast
qed

subsection \<open>The elements of a vector\<close>

definition slice :: "nat \<Rightarrow> nat \<Rightarrow> 'a list \<Rightarrow> 'a list" where
  "slice m k xs = take m (drop (k * m) xs)"

text \<open>Chunk \<open>k\<close> holds its slice of the elements at the start of its block, which belongs to it;
  it is in memory only, and nobody uses it.\<close>

definition chnk_rep :: "qst \<Rightarrow> nat \<Rightarrow> vctr \<Rightarrow> byte list list \<Rightarrow> nat \<Rightarrow> bool" where
  "chnk_rep s u v xs k = (\<exists>c b pad. map_of (q_chnks s 0) (ckey u k) = Some c \<and>
     c_l1_mem c = Some (b, 0) \<and> q_heap s b = Some (Mem (concat (slice (v_max_num_in_chnk v) k xs) @ pad)) \<and>
     length (concat (slice (v_max_num_in_chnk v) k xs) @ pad) = v_width v * v_max_num_in_chnk v \<and>
     c_size c = v_width v * v_max_num_in_chnk v \<and>
     c_num_elements c = length (slice (v_max_num_in_chnk v) k xs) \<and>
     c_qtype c = v_qtype v \<and> c_num_readers c = 0 \<and> c_num_writers c = 0 \<and> \<not> c_l2_exists c \<and>
     c_num_free_ignore c \<le> v_num_free_ignore v)"

text \<open>The record of a vector that is not persisted, has no file, and whose sizes fit the machine:
  a chunk is at most 1 GiB (more is refused by the accounting) and the numbers of elements and
  of chunks are below \<open>2 ^ 32\<close>.\<close>

definition wf_vctr :: "vctr \<Rightarrow> nat \<Rightarrow> bool" where
  "wf_vctr v n = (v_num_elements v = n \<and> n < 2 ^ 32 - 1 \<and> 0 < v_width v \<and> 0 < v_max_num_in_chnk v \<and>
     v_width v * v_max_num_in_chnk v \<le> 1073741824 \<and> v_min_chnk_idx v \<le> v_max_chnk_idx v \<and>
     \<not> v_is_lma v \<and> \<not> v_is_persist v \<and> v_memo_len v < 2 ^ 32)"

text \<open>The chunks in use are those from the least one kept up to \<open>K\<close>.\<close>

definition vec_core :: "qst \<Rightarrow> nat \<Rightarrow> vctr \<Rightarrow> byte list list \<Rightarrow> nat \<Rightarrow> bool" where
  "vec_core s u v xs K = (u \<noteq> 0 \<and> map_of (q_vctrs s 0) u = Some v \<and> wf_vctr v (length xs) \<and>
     v_max_chnk_idx v = K \<and> (\<forall>x \<in> set xs. length x = v_width v) \<and>
     (\<forall>k. v_min_chnk_idx v \<le> k \<and> k \<le> K \<longrightarrow> chnk_rep s u v xs k) \<and>
     (\<forall>k. map_of (q_chnks s 0) (ckey u k) \<noteq> None \<longrightarrow> v_min_chnk_idx v \<le> k \<and> k \<le> K))"

text \<open>Vector \<open>u\<close>, with record \<open>v\<close>, represents the elements \<open>xs\<close>, those before chunk
  \<open>v_min_chnk_idx\<close> having been given up.\<close>

definition vec_rep :: "qst \<Rightarrow> nat \<Rightarrow> vctr \<Rightarrow> byte list list \<Rightarrow> bool" where
  "vec_rep s u v xs =
     (if xs = []
      then u \<noteq> 0 \<and> map_of (q_vctrs s 0) u = Some v \<and> wf_vctr v 0 \<and> v_max_chnk_idx v = 0 \<and>
        (\<forall>k. map_of (q_chnks s 0) (ckey u k) = None)
      else vec_core s u v xs ((length xs - 1) div v_max_num_in_chnk v))"

text \<open>A live block that no chunk of vector \<open>u\<close> owns: memory of a client, or of another vector.\<close>

definition not_mine :: "nat \<Rightarrow> qst \<Rightarrow> nat \<Rightarrow> bool" where
  "not_mine u s b = (q_heap s b \<noteq> None \<and> (\<forall>k. ck_vctr_uqid k = u \<longrightarrow> \<not> owns s 0 k b))"

text \<open>What happens to the rest of the world when vector \<open>u\<close> is worked on: nothing.\<close>

definition others_same :: "nat \<Rightarrow> qst \<Rightarrow> qst \<Rightarrow> bool" where
  "others_same u s s' =
    ((\<forall>t k. t \<noteq> 0 \<or> ck_vctr_uqid k \<noteq> u \<longrightarrow> map_of (q_chnks s' t) k = map_of (q_chnks s t) k) \<and>
     (\<forall>t u'. t \<noteq> 0 \<or> u' \<noteq> u \<longrightarrow> map_of (q_vctrs s' t) u' = map_of (q_vctrs s t) u') \<and>
     (\<forall>t k b. t \<noteq> 0 \<or> ck_vctr_uqid k \<noteq> u \<longrightarrow> owns s t k b \<longrightarrow> q_heap s' b = q_heap s b) \<and>
     (\<forall>b. not_mine u s b \<longrightarrow> q_heap s' b = q_heap s b \<and> not_mine u s' b) \<and>
     q_files s' = q_files s \<and> q_can_alloc s' = q_can_alloc s)"

lemma os_chnks: "others_same u s s' \<Longrightarrow> t \<noteq> 0 \<or> ck_vctr_uqid k \<noteq> u \<Longrightarrow>
    map_of (q_chnks s' t) k = map_of (q_chnks s t) k"
  unfolding others_same_def by blast

lemma os_vctrs: "others_same u s s' \<Longrightarrow> t \<noteq> 0 \<or> u' \<noteq> u \<Longrightarrow>
    map_of (q_vctrs s' t) u' = map_of (q_vctrs s t) u'"
  unfolding others_same_def by blast

lemma os_heap: "others_same u s s' \<Longrightarrow> t \<noteq> 0 \<or> ck_vctr_uqid k \<noteq> u \<Longrightarrow> owns s t k b \<Longrightarrow>
    q_heap s' b = q_heap s b"
  unfolding others_same_def by blast

lemma os_env: "others_same u s s' \<Longrightarrow> q_files s' = q_files s \<and> q_can_alloc s' = q_can_alloc s"
  unfolding others_same_def by blast

lemma os_client: "others_same u s s' \<Longrightarrow> not_mine u s b \<Longrightarrow> q_heap s' b = q_heap s b \<and> not_mine u s' b"
  unfolding others_same_def by blast

lemma others_same_refl [simp]: "others_same u s s"
  by (simp add: others_same_def)

lemma others_same_owns:
  assumes "others_same u s s'" "t \<noteq> 0 \<or> ck_vctr_uqid k \<noteq> u"
  shows "owns s' t k b = owns s t k b"
  unfolding owns_def os_chnks [OF assms] ..

lemma others_same_trans:
  assumes "others_same u s s1" "others_same u s1 s2"
  shows "others_same u s s2"
  unfolding others_same_def
proof (intro conjI allI impI)
  fix t k b assume a: "t \<noteq> 0 \<or> ck_vctr_uqid k \<noteq> u" "owns s t k b"
  then have "owns s1 t k b" using others_same_owns [OF assms(1)] by simp
  then show "q_heap s2 b = q_heap s b" using os_heap [OF assms(1)] os_heap [OF assms(2)] a by simp
next
  fix b assume "not_mine u s b"
  then show "q_heap s2 b = q_heap s b" "not_mine u s2 b"
    using os_client [OF assms(1)] os_client [OF assms(2)] by auto
qed (simp_all only: os_chnks [OF assms(1)] os_chnks [OF assms(2)] os_vctrs [OF assms(1)]
      os_vctrs [OF assms(2)] os_env [OF assms(1)] os_env [OF assms(2)])

lemma others_same_view: "same_view s s' \<Longrightarrow> others_same u s s'"
  by (simp add: same_view_def others_same_def not_mine_def owns_def)

lemma chnk_rep_frame:
  assumes "others_same u s s'" "u' \<noteq> u" "chnk_rep s u' v xs k"
  shows "chnk_rep s' u' v xs k"
proof -
  obtain c b pad where c: "map_of (q_chnks s 0) (ckey u' k) = Some c" "c_l1_mem c = Some (b, 0)"
    and rest: "q_heap s b = Some (Mem (concat (slice (v_max_num_in_chnk v) k xs) @ pad))"
      "length (concat (slice (v_max_num_in_chnk v) k xs) @ pad) = v_width v * v_max_num_in_chnk v"
      "c_size c = v_width v * v_max_num_in_chnk v"
      "c_num_elements c = length (slice (v_max_num_in_chnk v) k xs)"
      "c_qtype c = v_qtype v" "c_num_readers c = 0" "c_num_writers c = 0" "\<not> c_l2_exists c"
      "c_num_free_ignore c \<le> v_num_free_ignore v"
    using assms(3) unfolding chnk_rep_def by blast
  have "owns s 0 (ckey u' k) b" using c by (auto simp: owns_def)
  then have "q_heap s' b = q_heap s b" by (rule os_heap [OF assms(1), rotated]) (simp add: assms(2))
  moreover have "map_of (q_chnks s' 0) (ckey u' k) = Some c" using os_chnks [OF assms(1)] assms(2) c(1) by simp
  ultimately show ?thesis unfolding chnk_rep_def using c(2) rest by metis
qed

lemma vec_core_frame:
  assumes "others_same u s s'" "u' \<noteq> u" "vec_core s u' v xs K"
  shows "vec_core s' u' v xs K"
proof -
  have "map_of (q_vctrs s' 0) u' = map_of (q_vctrs s 0) u'"
    "\<And>k. map_of (q_chnks s' 0) (ckey u' k) = map_of (q_chnks s 0) (ckey u' k)"
    using os_vctrs [OF assms(1)] os_chnks [OF assms(1)] assms(2) by simp_all
  then show ?thesis using assms(3) chnk_rep_frame [OF assms(1,2)] unfolding vec_core_def by simp
qed

lemma vec_rep_frame:
  assumes "others_same u s s'" "u' \<noteq> u" "vec_rep s u' v xs"
  shows "vec_rep s' u' v xs"
proof -
  have "map_of (q_vctrs s' 0) u' = map_of (q_vctrs s 0) u'"
    "\<And>k. map_of (q_chnks s' 0) (ckey u' k) = map_of (q_chnks s 0) (ckey u' k)"
    using os_vctrs [OF assms(1)] os_chnks [OF assms(1)] assms(2) by simp_all
  then show ?thesis using assms(3) vec_core_frame [OF assms(1,2)] unfolding vec_rep_def by (cases "xs = []") simp_all
qed

lemma chnk_rep_same_view: "same_view s s' \<Longrightarrow> chnk_rep s' u v xs k = chnk_rep s u v xs k"
  by (simp add: same_view_def chnk_rep_def)

lemma vec_core_same_view:
  assumes "same_view s s'"
  shows "vec_core s' u v xs K = vec_core s u v xs K"
proof -
  have "q_vctrs s' = q_vctrs s" "q_chnks s' = q_chnks s" using assms by (simp_all add: same_view_def)
  then show ?thesis unfolding vec_core_def chnk_rep_same_view [OF assms] by (simp only:)
qed

end
