(* ===== verification/Vec_Step.thy ===== *)
theory Vec_Step
  imports Vec_Inv
begin

text \<open>
  The steps of the operations on the abstract view: writing elements into the open chunk,
  opening a new chunk, deleting one.
\<close>

subsection \<open>Slices\<close>

lemma length_slice [simp]: "length (slice m k xs) = min m (length xs - k * m)"
  by (simp add: slice_def)

lemma slice_Nil [simp]: "slice m k [] = []"
  by (simp add: slice_def)

lemma slice_append_full:
  assumes "Suc k * m \<le> length xs"
  shows "slice m k (xs @ ys) = slice m k xs"
  using assms by (simp add: slice_def)

lemma slice_append_last:
  assumes "0 < m" "length ys \<le> m - length xs mod m"
  shows "slice m (length xs div m) (xs @ ys) = slice m (length xs div m) xs @ ys"
proof -
  have l: "length xs div m * m \<le> length xs" by simp
  have "length (drop (length xs div m * m) xs) = length xs mod m"
    by (simp add: minus_div_mult_eq_mod)
  moreover have "length xs mod m < m" using assms(1) by simp
  ultimately show ?thesis using l assms(2) by (simp add: slice_def)
qed

lemma slice_beyond: "length xs \<le> k * m \<Longrightarrow> slice m k xs = []"
  by (simp add: slice_def)

lemma length_concat_const: "\<forall>x \<in> set xs. length x = w \<Longrightarrow> length (concat xs) = w * length xs"
  by (induction xs) (simp_all add: algebra_simps)

lemma set_slice: "set (slice m k xs) \<subseteq> set xs"
  by (auto simp: slice_def dest: in_set_takeD in_set_dropD)

lemma length_concat_slice:
  assumes "\<forall>x \<in> set xs. length x = w"
  shows "length (concat (slice m k xs)) = w * length (slice m k xs)"
proof (rule length_concat_const, rule ballI)
  fix x assume "x \<in> set (slice m k xs)"
  then have "x \<in> set xs" by (rule subsetD [OF set_slice])
  then show "length x = w" using assms by simp
qed

lemma div_less_slice_full:
  assumes "0 < m" "k < length xs div m"
  shows "Suc k * m \<le> length xs"
proof -
  have "Suc k \<le> length xs div m" by (rule Suc_leI) (rule assms)
  then have "Suc k * m \<le> length xs div m * m" by (rule mult_le_mono1)
  also have "\<dots> \<le> length xs" by (rule div_times_less_eq_dividend)
  finally show ?thesis .
qed

subsection \<open>Writing\<close>

text \<open>New elements in the open chunk: its block keeps what was there and holds them next.\<close>

lemma vec_write:
  fixes s u v xs ys c b bs bs' f g
  defines "m \<equiv> v_max_num_in_chnk v" and "w \<equiv> v_width v" and "K \<equiv> length xs div v_max_num_in_chnk v"
  assumes ok: "rt_ok s" and core: "vec_core s u v xs K"
    and ys: "length ys \<le> m - length xs mod m" "\<forall>y \<in> set ys. length y = w"
      "length xs + length ys < 2 ^ 32 - 1"
    and c: "map_of (q_chnks s 0) (ckey u K) = Some c" "c_l1_mem c = Some (b, 0)"
      "q_heap s b = Some (Mem bs)"
    and bs': "length bs' = length bs" "take (w * c_num_elements c) bs' = take (w * c_num_elements c) bs"
      "take (w * length ys) (drop (w * c_num_elements c) bs') = concat ys"
    and fg: "f v = v\<lparr>v_num_elements := length (xs @ ys)\<rparr>"
      "g c = c\<lparr>c_num_elements := c_num_elements c + length ys\<rparr>"
    and s': "s' = chnk_upd 0 (ckey u K) g (vctr_upd 0 u f (s\<lparr>q_heap := (q_heap s)(b \<mapsto> Mem bs')\<rparr>))"
  shows "rt_ok s' \<and> vec_core s' u (f v) (xs @ ys) K \<and> others_same u s s'"
proof (intro conjI)
  have wf: "wf_vctr v (length xs)" and v: "map_of (q_vctrs s 0) u = Some v" and u: "u \<noteq> 0"
    and lens: "\<forall>x \<in> set xs. length x = w" and K: "v_max_chnk_idx v = K" "v_min_chnk_idx v \<le> K"
    using core by (auto simp: vec_core_def wf_vctr_def w_def)
  have m: "0 < m" using wf by (simp add: wf_vctr_def m_def)
  have sel: "v_max_num_in_chnk (f v) = m" "v_width (f v) = w" "v_min_chnk_idx (f v) = v_min_chnk_idx v"
    "v_max_chnk_idx (f v) = K" "v_qtype (f v) = v_qtype v" "v_num_free_ignore (f v) = v_num_free_ignore v"
    using fg(1) K by (simp_all add: m_def w_def)
  have chnks: "map_of (q_chnks s' t) k = (if t = 0 \<and> k = ckey u K then Some (g c) else map_of (q_chnks s t) k)" for t k
    using c(1) by (simp add: s')
  have vctrs: "map_of (q_vctrs s' t) u' = (if t = 0 \<and> u' = u then Some (f v) else map_of (q_vctrs s t) u')" for t u'
    using v by (simp add: s')
  have heap: "q_heap s' = (q_heap s)(b \<mapsto> Mem bs')" by (simp add: s')
  have own: "owns s 0 (ckey u K) b" using c by (auto simp: owns_def)
  obtain pad where rep: "bs = concat (slice m K xs) @ pad" "length bs = w * m" "c_size c = w * m"
      "c_num_elements c = length (slice m K xs)" "c_qtype c = v_qtype v" "c_num_readers c = 0"
      "c_num_writers c = 0" "\<not> c_l2_exists c" "c_num_free_ignore c \<le> v_num_free_ignore v"
  proof -
    have "chnk_rep s u v xs K" using core K(2) by (simp add: vec_core_def)
    then show ?thesis using c that unfolding chnk_rep_def m_def w_def by auto
  qed
  have l: "length (concat (slice m K xs)) = w * c_num_elements c"
    using length_concat_slice [OF lens] rep(4) by simp
  have slK: "slice m K (xs @ ys) = slice m K xs @ ys"
    unfolding K_def using slice_append_last [OF m ys(1)] by (simp add: m_def)
  have "bs' = take (w * c_num_elements c) bs' @ take (w * length ys) (drop (w * c_num_elements c) bs') @
      drop (w * length ys) (drop (w * c_num_elements c) bs')"
    by (simp only: append_take_drop_id)
  also have "\<dots> = concat (slice m K (xs @ ys)) @ drop (w * length ys) (drop (w * c_num_elements c) bs')"
    using bs' rep(1) l slK by simp
  finally obtain pad' where pad': "bs' = concat (slice m K (xs @ ys)) @ pad'" by blast
  have repK: "chnk_rep s' u (f v) (xs @ ys) K"
    unfolding chnk_rep_def sel
    by (rule exI [of _ "g c"], rule exI [of _ b], rule exI [of _ pad'])
      (use chnks heap pad' rep bs'(1) slK fg(2) c(2) in simp)
  have repk: "chnk_rep s' u (f v) (xs @ ys) k" if k: "v_min_chnk_idx v \<le> k" "k < K" for k
  proof -
    have "chnk_rep s u v xs k" using core k by (simp add: vec_core_def)
    then obtain c' b' pad'' where r: "map_of (q_chnks s 0) (ckey u k) = Some c'" "c_l1_mem c' = Some (b', 0)"
       "q_heap s b' = Some (Mem (concat (slice m k xs) @ pad''))"
       "length (concat (slice m k xs) @ pad'') = w * m" "c_size c' = w * m"
       "c_num_elements c' = length (slice m k xs)" "c_qtype c' = v_qtype v" "c_num_readers c' = 0"
       "c_num_writers c' = 0" "\<not> c_l2_exists c'" "c_num_free_ignore c' \<le> v_num_free_ignore v"
      unfolding chnk_rep_def m_def w_def by blast
    have "owns s 0 (ckey u k) b'" using r by (auto simp: owns_def)
    then have "b' = b \<Longrightarrow> k = K" using rt_inj [OF ok own, of 0 "ckey u k"] by auto
    then have "b' \<noteq> b" using k by auto
    moreover have "slice m k (xs @ ys) = slice m k xs"
      using k m by (intro slice_append_full div_less_slice_full) (simp_all add: K_def m_def)
    ultimately show ?thesis unfolding chnk_rep_def sel
      by (intro exI [of _ c'] exI [of _ b'] exI [of _ pad'']) (use r chnks heap k in simp)
  qed
  show "vec_core s' u (f v) (xs @ ys) K"
    unfolding vec_core_def sel
  proof (intro conjI allI impI ballI)
    show "wf_vctr (f v) (length (xs @ ys))" using wf ys(3) fg(1) by (simp add: wf_vctr_def)
    show "length x = w" if "x \<in> set (xs @ ys)" for x using that lens ys(2) by auto
    fix k
    show "chnk_rep s' u (f v) (xs @ ys) k" if "v_min_chnk_idx v \<le> k \<and> k \<le> K"
      using that repK repk by (cases "k = K") auto
    show "v_min_chnk_idx v \<le> k" "k \<le> K" if "map_of (q_chnks s' 0) (ckey u k) \<noteq> None"
      using that core chnks K(2) by (auto simp: vec_core_def split: if_splits)
  qed (use u vctrs in simp_all)
  show "rt_ok s'"
    unfolding s' using fg(2)
    by (intro rt_ok_mod_chnk) (use ok c bs'(1) rt_ok_heap_write in \<open>auto\<close>)
  show "others_same u s s'"
    unfolding others_same_def
  proof (intro conjI allI impI)
    fix t k b' assume a: "t \<noteq> 0 \<or> ck_vctr_uqid k \<noteq> u" "owns s t k b'"
    have "b' = b \<Longrightarrow> t = 0 \<and> k = ckey u K" using rt_inj [OF ok own, of t k] a(2) by auto
    then have "b' \<noteq> b" using a(1) by auto
    then show "q_heap s' b' = q_heap s b'" using heap by simp
  next
    fix b' assume a: "not_mine u s b'"
    then have "b' \<noteq> b" using own by (auto simp: not_mine_def)
    moreover have "owns s' = owns s"
      unfolding s' by (intro ext) (use c fg(2) in \<open>auto simp: owns_def\<close>)
    ultimately show "q_heap s' b' = q_heap s b'" "not_mine u s' b'"
      using heap a by (simp_all add: not_mine_def)
  qed (use chnks vctrs in \<open>auto simp: s'\<close>)
qed

subsection \<open>Opening a chunk\<close>

text \<open>All chunks before \<open>K\<close> hold their slices and there is no other: the situation in which
  chunk \<open>K\<close> is created.\<close>

definition vec_before :: "qst \<Rightarrow> nat \<Rightarrow> vctr \<Rightarrow> byte list list \<Rightarrow> nat \<Rightarrow> bool" where
  "vec_before s u v xs K = (u \<noteq> 0 \<and> map_of (q_vctrs s 0) u = Some v \<and> wf_vctr v (length xs) \<and>
     v_min_chnk_idx v \<le> K \<and> length xs = K * v_max_num_in_chnk v \<and>
     (\<forall>x \<in> set xs. length x = v_width v) \<and>
     (\<forall>k. v_min_chnk_idx v \<le> k \<and> k < K \<longrightarrow> chnk_rep s u v xs k) \<and>
     (\<forall>k. map_of (q_chnks s 0) (ckey u k) \<noteq> None \<longrightarrow> v_min_chnk_idx v \<le> k \<and> k < K))"

text \<open>A chunk that may be put: its block holds whole elements \<open>ys\<close> (none, for a fresh one).\<close>

lemma vec_open:
  fixes s u v xs ys K c f bs
  defines "m \<equiv> v_max_num_in_chnk v" and "w \<equiv> v_width v"
  assumes ok: "rt_ok s" and bef: "vec_before s u v xs K"
    and ys: "length ys \<le> m" "\<forall>y \<in> set ys. length y = w" "length xs + length ys < 2 ^ 32 - 1"
    and c: "c_l1_mem c = Some (q_next s, 0)" "c_size c = w * m" "c_num_elements c = length ys"
      "c_qtype c = v_qtype v" "c_num_readers c = 0" "c_num_writers c = 0" "\<not> c_l2_exists c"
      "c_num_free_ignore c \<le> v_num_free_ignore v"
    and bs: "length bs = w * m" "take (w * length ys) bs = concat ys"
    and v': "v' = v\<lparr>v_max_chnk_idx := K, v_num_elements := length (xs @ ys)\<rparr>"
    and s': "q_mem_lock s' = 0" "q_next s' = Suc (q_next s)" "q_heap s' = (q_heap s)(q_next s \<mapsto> Mem bs)"
      "\<And>t' k'. map_of (q_chnks s' t') k' =
         (if t' = 0 \<and> k' = ckey u K then Some c else map_of (q_chnks s t') k')"
      "\<And>t' u'. map_of (q_vctrs s' t') u' = (if t' = 0 \<and> u' = u then Some v' else map_of (q_vctrs s t') u')"
      "q_files s' = q_files s" "q_can_alloc s' = q_can_alloc s"
  shows "rt_ok s' \<and> vec_core s' u v' (xs @ ys) K \<and> others_same u s s'"
proof (intro conjI)
  have wf: "wf_vctr v (length xs)" and u: "u \<noteq> 0" and K: "length xs = K * m" "v_min_chnk_idx v \<le> K"
    and lens: "\<forall>x \<in> set xs. length x = w"
    using bef by (auto simp: vec_before_def m_def w_def)
  have m: "0 < m" using wf by (simp add: wf_vctr_def m_def)
  have sel: "v_max_num_in_chnk v' = m" "v_width v' = w" "v_min_chnk_idx v' = v_min_chnk_idx v"
    "v_max_chnk_idx v' = K" "v_qtype v' = v_qtype v" "v_num_free_ignore v' = v_num_free_ignore v"
    using v' by (simp_all add: m_def w_def)
  show rt': "rt_ok s'" by (rule rt_ok_new_chnk [OF ok _ c(1) s'(1-4)]) (simp add: bs c(2))
  have slK: "slice m K (xs @ ys) = ys" using K(1) ys(1) by (simp add: slice_def)
  have bs2: "bs = concat ys @ drop (w * length ys) bs" using bs(2) by (metis append_take_drop_id)
  have repK: "chnk_rep s' u v' (xs @ ys) K"
    unfolding chnk_rep_def sel slK
    by (intro exI [of _ c] exI [of _ "q_next s"] exI [of _ "drop (w * length ys) bs"])
      (use bs bs2 [symmetric] c s'(3,4) in simp)
  have repk: "chnk_rep s' u v' (xs @ ys) k" if k: "v_min_chnk_idx v \<le> k" "k < K" for k
  proof -
    have "chnk_rep s u v xs k" using bef k by (simp add: vec_before_def)
    then obtain c' b' pad where r: "map_of (q_chnks s 0) (ckey u k) = Some c'" "c_l1_mem c' = Some (b', 0)"
       "q_heap s b' = Some (Mem (concat (slice m k xs) @ pad))"
       "length (concat (slice m k xs) @ pad) = w * m" "c_size c' = w * m"
       "c_num_elements c' = length (slice m k xs)" "c_qtype c' = v_qtype v" "c_num_readers c' = 0"
       "c_num_writers c' = 0" "\<not> c_l2_exists c'" "c_num_free_ignore c' \<le> v_num_free_ignore v"
      unfolding chnk_rep_def m_def w_def by blast
    have "b' \<noteq> q_next s" using r(3) rt_fresh [OF ok] by auto
    moreover have "Suc k * m \<le> length xs" unfolding K(1) by (rule mult_le_mono1) (use k in simp)
    then have "slice m k (xs @ ys) = slice m k xs" by (rule slice_append_full)
    ultimately show ?thesis unfolding chnk_rep_def sel
      by (intro exI [of _ c'] exI [of _ b'] exI [of _ pad]) (use r s'(3,4) k in simp)
  qed
  show "vec_core s' u v' (xs @ ys) K"
    unfolding vec_core_def sel
  proof (intro conjI allI impI ballI)
    show "wf_vctr v' (length (xs @ ys))" using wf ys(3) v' K(2) by (simp add: wf_vctr_def)
    show "length x = w" if "x \<in> set (xs @ ys)" for x using that lens ys(2) by auto
    fix k
    show "chnk_rep s' u v' (xs @ ys) k" if "v_min_chnk_idx v \<le> k \<and> k \<le> K"
      using that repK repk by (cases "k = K") auto
    show "v_min_chnk_idx v \<le> k" "k \<le> K" if "map_of (q_chnks s' 0) (ckey u k) \<noteq> None"
      using that bef s'(4) K(2) by (auto simp: vec_before_def split: if_splits intro: less_imp_le)
  qed (use u s'(5) in simp_all)
  show "others_same u s s'"
    unfolding others_same_def
  proof (intro conjI allI impI)
    fix t k b assume "owns s t k b"
    then have "b \<noteq> q_next s" using ok by (auto simp: owns_def elim!: rt_block)
    then show "q_heap s' b = q_heap s b" using s'(3) by simp
  next
    fix b assume a: "not_mine u s b"
    then have "b \<noteq> q_next s" using rt_fresh [OF ok] by (auto simp: not_mine_def)
    then show "q_heap s' b = q_heap s b" "not_mine u s' b"
      using a s'(3,4) c(1) by (auto simp: not_mine_def owns_def split: if_splits)
  qed (use s'(4-7) in auto)
qed

text \<open>A full vector, or an empty one, is in that situation.\<close>

lemma vec_before_full:
  assumes "vec_core s u v xs ((length xs - 1) div v_max_num_in_chnk v)" "xs \<noteq> []"
    "length xs mod v_max_num_in_chnk v = 0"
  shows "vec_before s u v xs (Suc (v_max_chnk_idx v)) \<and>
    Suc (v_max_chnk_idx v) = length xs div v_max_num_in_chnk v"
proof -
  let ?m = "v_max_num_in_chnk v"
  have m: "0 < ?m" and K: "v_max_chnk_idx v = (length xs - 1) div ?m"
    using assms(1) by (auto simp: vec_core_def wf_vctr_def)
  obtain q where q: "length xs = q * ?m" using assms(3) by (metis dvdE mod_eq_0_iff_dvd mult.commute)
  have "0 < q" using q assms(2) by (cases q) simp_all
  then obtain q' where q': "q = Suc q'" by (cases q) auto
  have e: "length xs - 1 = (?m - 1) + q' * ?m" using q q' m by simp
  have "v_max_chnk_idx v = q'" unfolding K e using m by (subst div_mult_self1) simp_all
  moreover from this have "length xs div ?m = Suc q'" using q q' m by simp
  ultimately show ?thesis
    using assms(1) q q' K unfolding vec_core_def vec_before_def
    by (auto simp: wf_vctr_def less_Suc_eq_le)
qed

lemma vec_before_empty:
  assumes "vec_rep s u v []"
  shows "vec_before s u v [] 0"
  using assms by (simp add: vec_rep_def vec_before_def wf_vctr_def)

lemma vec_open_chunk:
  assumes "vec_core s u v xs ((length xs - 1) div v_max_num_in_chnk v)" "xs \<noteq> []"
    "length xs mod v_max_num_in_chnk v \<noteq> 0"
  shows "(length xs - 1) div v_max_num_in_chnk v = length xs div v_max_num_in_chnk v"
proof -
  let ?m = "v_max_num_in_chnk v"
  obtain n where n: "length xs = Suc n" using assms(2) by (cases xs) auto
  then show ?thesis using assms(3) by (simp add: div_Suc)
qed

end
