(* ===== verification/Vec_Del.thy ===== *)
theory Vec_Del
  imports Vec_Step
begin

text \<open>
  Deleting chunks on the abstract view: one chunk, and the chunks that age out of a vector with
  a limited history (\<open>vctr_memo\<close>).
\<close>

text \<open>The accounting calls return and touch the counters only.\<close>

lemma decr_mem_ok:
  assumes "q_mem_lock s = 0" "0 < x" "x \<le> 1073741824"
  obtains s1 where "decr_mem_used x s = (Inr (), s1)" "same_view s s1"
  using acct_frame_used(2) [OF assms(1), of x] decr_mem_used_run [OF assms]
  by (auto intro: same_view_acct)

lemma incr_mem_ok:
  assumes "q_mem_lock s = 0" "0 < x" "x \<le> 1073741824"
  obtains s1 where "incr_mem_used x s = (Inr (), s1)" "same_view s s1"
  using acct_frame_used(1) [OF assms(1), of x] incr_mem_used_run [OF assms]
  by (auto intro: same_view_acct)

lemma steps_seq: "steps (seq m f # ms) = seq m (\<lambda>x. steps (f x # ms))"
  by (rule ext) (simp add: seq_assoc)

text \<open>What is left after chunk \<open>(u, i)\<close> with block \<open>b\<close> is gone.\<close>

definition chnk_gone :: "nat \<Rightarrow> nat \<Rightarrow> nat \<Rightarrow> qst \<Rightarrow> qst \<Rightarrow> bool" where
  "chnk_gone u i b s s' = (q_vctrs s' = q_vctrs s \<and>
     (\<forall>t k. map_of (q_chnks s' t) k = (if t = 0 \<and> k = ckey u i then None else map_of (q_chnks s t) k)) \<and>
     q_heap s' = (q_heap s)(b := None) \<and> q_next s' = q_next s \<and> q_mem_lock s' = 0 \<and>
     q_files s' = q_files s \<and> q_can_alloc s' = q_can_alloc s)"

lemma chnk_del_run:
  assumes ok: "rt_ok s" and v: "map_of (q_vctrs s 0) u \<noteq> None"
    and c: "map_of (q_chnks s 0) (ckey u i) = Some c" "c_l1_mem c = Some (b, 0)"
      "c_num_readers c = 0" "c_num_writers c = 0" "\<not> c_l2_exists c"
      "0 < c_size c" "c_size c \<le> 1073741824"
  obtains s' where "chnk_del 0 u i p s = (Inr (), s')" "rt_ok s'" "chnk_gone u i b s s'"
    "q_chnks s' = (q_chnks s)(0 := AList.delete (ckey u i) (q_chnks s 0))" "c_size c \<le> q_mem_used s \<Longrightarrow> q_mem_used s' + c_size c = q_mem_used s"
proof -
  obtain bs where b: "q_heap s b = Some (Mem bs)" using rt_block [OF ok c(1,2)] by auto
  obtain s1 where s1: "decr_mem_used (c_size c) s = (Inr (), s1)" "same_view s s1"
    using decr_mem_ok rt_lock [OF ok] c(6,7) by metis
  have used: "c_size c \<le> q_mem_used s \<Longrightarrow> q_mem_used s1 + c_size c = q_mem_used s"
    using s1(1) decr_mem_used_run [OF rt_lock [OF ok] c(6,7)] by auto
  let ?s2 = "s1\<lparr>q_heap := (q_heap s1)(b := None)\<rparr>"
  let ?s3 = "chnk_upd 0 (ckey u i) (c_l1_mem_update (\<lambda>_. None)) ?s2"
  let ?s4 = "?s3\<lparr>q_chnks := (q_chnks ?s3)(0 := AList.delete (ckey u i) (q_chnks ?s3 0))\<rparr>"
  have view: "q_chnks s1 = q_chnks s" "q_vctrs s1 = q_vctrs s" "q_heap s1 = q_heap s"
    "q_next s1 = q_next s" "q_mem_lock s1 = 0" "q_files s1 = q_files s" "q_can_alloc s1 = q_can_alloc s"
    using s1(2) rt_lock [OF ok] by (simp_all add: same_view_def)
  have free: "mem_free (Some (b, 0)) s1 = (Inr (), ?s2)" using b view by (simp add: mem_free_def)
  have "chnk_free_resources 0 (ckey u i) p s = (Inr (), ?s3)"
    unfolding chnk_free_resources_def
    using c by (simp add: run Q_MAX_NUM_TABLESPACES_def seq_assoc seq_Inr [of "decr_mem_used (c_size c)" s, OF s1(1)]
      seq_Inr [of "mem_free (Some (b, 0))" s1, OF free])
      (simp add: ret_def)
  moreover have "must (chnk_remove 0 (ckey u i)) ?s3 = (Inr (), ?s4)"
    using c(1) view by (simp add: must_def seq_def chnk_remove_def bye_if_def ret_def)
  ultimately have "chnk_del 0 u i p s = (Inr (), ?s4)"
    unfolding chnk_del_def vctr_is_def chnk_is_def
    using v c(1) by (auto simp: run Q_MAX_NUM_TABLESPACES_def seq_assoc seq_Inr ret_def)
  moreover have "rt_ok ?s4"
    by (rule rt_ok_drop_chnk [OF ok c(1,2), where r = None]) (use view c(1) in simp_all)
  moreover have "chnk_gone u i b s ?s4" using view c(1) by (simp add: chnk_gone_def)
  moreover have "q_chnks ?s4 = (q_chnks s)(0 := AList.delete (ckey u i) (q_chnks s 0))"
    using view c(1) by (simp add: chnk_upd_def delete_update_same)
  moreover have "c_size c \<le> q_mem_used s \<Longrightarrow> q_mem_used ?s4 + c_size c = q_mem_used s" using used by (simp add: chnk_upd_def split: option.split)
  ultimately show ?thesis by (rule that)
qed

lemma chnk_gone_rep:
  assumes ok: "rt_ok s" and gone: "chnk_gone u i b s s'" and own: "owns s 0 (ckey u i) b"
    and rep: "chnk_rep s u v xs k" and k: "k \<noteq> i"
  shows "chnk_rep s' u v xs k"
proof -
  obtain c' b' where c': "map_of (q_chnks s 0) (ckey u k) = Some c'" "c_l1_mem c' = Some (b', 0)"
    using rep unfolding chnk_rep_def by blast
  then have "owns s 0 (ckey u k) b'" by (auto simp: owns_def)
  then have "b' = b \<Longrightarrow> ckey u k = ckey u i" using rt_inj [OF ok own, of 0 "ckey u k"] by auto
  then have "b' \<noteq> b" using k by auto
  then have "q_heap s' b' = q_heap s b'" "map_of (q_chnks s' 0) (ckey u k) = Some c'"
    using gone k c'(1) by (simp_all add: chnk_gone_def)
  then show ?thesis using rep c' unfolding chnk_rep_def by auto
qed

lemma chnk_gone_others:
  assumes ok: "rt_ok s" and gone: "chnk_gone u i b s s'" and own: "owns s 0 (ckey u i) b"
  shows "others_same u s s'"
  unfolding others_same_def
proof (intro conjI allI impI)
  fix t k b' assume a: "t \<noteq> 0 \<or> ck_vctr_uqid k \<noteq> u" "owns s t k b'"
  have "b' = b \<Longrightarrow> t = 0 \<and> k = ckey u i" using rt_inj [OF ok own, of t k] a(2) by auto
  then have "b' \<noteq> b" using a(1) by auto
  then show "q_heap s' b' = q_heap s b'" using gone by (simp add: chnk_gone_def)
next
  fix b' assume a: "not_mine u s b'"
  then have "b' \<noteq> b" using own by (auto simp: not_mine_def)
  then show "q_heap s' b' = q_heap s b'" "not_mine u s' b'"
    using a gone by (auto simp: not_mine_def owns_def chnk_gone_def split: if_splits)
qed (use gone in \<open>auto simp: chnk_gone_def\<close>)

text \<open>The memory of the chunks from \<open>j\<close> to below \<open>j'\<close>, of size \<open>sz\<close> each, has been given back and nothing else: blocks of these
  chunks are gone, other blocks are as before, and the counter is lower by their size (if it was not too low).\<close>

definition freed :: "nat \<Rightarrow> nat \<Rightarrow> nat \<Rightarrow> nat \<Rightarrow> qst \<Rightarrow> qst \<Rightarrow> bool" where
  "freed u sz j j' s s' \<longleftrightarrow>
     (\<forall>b. q_heap s' b = (if \<exists>k. j \<le> k \<and> k < j' \<and> owns s 0 (ckey u k) b then None else q_heap s b)) \<and>
     (\<forall>k b. owns s' 0 (ckey u k) b \<longleftrightarrow> \<not> (j \<le> k \<and> k < j') \<and> owns s 0 (ckey u k) b) \<and>
     ((j' - j) * sz \<le> q_mem_used s \<longrightarrow> q_mem_used s' + (j' - j) * sz = q_mem_used s)"

lemma freed_refl: "freed u sz j j s s"
  by (auto simp: freed_def)

lemma freed_one: "freed u sz j (Suc j) s s' \<longleftrightarrow>
    (\<forall>b. q_heap s' b = (if owns s 0 (ckey u j) b then None else q_heap s b)) \<and>
    (\<forall>k b. owns s' 0 (ckey u k) b \<longleftrightarrow> k \<noteq> j \<and> owns s 0 (ckey u k) b) \<and>
    (sz \<le> q_mem_used s \<longrightarrow> q_mem_used s' + sz = q_mem_used s)"
proof -
  have "j \<le> k \<and> k < Suc j \<longleftrightarrow> k = j" for k by auto
  then have "(\<exists>k. j \<le> k \<and> k < Suc j \<and> owns s 0 (ckey u k) b) = owns s 0 (ckey u j) b" "(\<not> (j \<le> k \<and> k < Suc j)) = (k \<noteq> j)" for k b by metis+
  then show ?thesis by (simp only: freed_def) simp
qed

lemma freed_step:
  assumes "freed u sz j (Suc j) s s1" "freed u sz (Suc j) j' s1 s2" "Suc j \<le> j'"
  shows "freed u sz j j' s s2"
proof -
  have k: "j \<le> k \<and> k < j' \<longleftrightarrow> k = j \<or> Suc j \<le> k \<and> k < j'" for k using assms(3) by auto
  note one = assms(1) [unfolded freed_one]
  have n: "(j' - j) * sz = sz + (j' - Suc j) * sz" using assms(3) by (simp add: Suc_diff_le [symmetric] mult_Suc [symmetric] del: mult_Suc)
  have "q_heap s2 b = (if \<exists>k. j \<le> k \<and> k < j' \<and> owns s 0 (ckey u k) b then None else q_heap s b)" for b
  proof -
    have "q_heap s2 b = (if \<exists>k. Suc j \<le> k \<and> k < j' \<and> owns s1 0 (ckey u k) b then None else q_heap s1 b)"
      using assms(2) by (simp add: freed_def)
    moreover have "(\<exists>k. Suc j \<le> k \<and> k < j' \<and> owns s1 0 (ckey u k) b) \<longleftrightarrow> (\<exists>k. Suc j \<le> k \<and> k < j' \<and> owns s 0 (ckey u k) b)" using one by auto
    moreover have "(\<exists>k. j \<le> k \<and> k < j' \<and> owns s 0 (ckey u k) b) \<longleftrightarrow> owns s 0 (ckey u j) b \<or> (\<exists>k. Suc j \<le> k \<and> k < j' \<and> owns s 0 (ckey u k) b)"
      unfolding conj_assoc [symmetric] k by blast
    moreover have "q_heap s1 b = (if owns s 0 (ckey u j) b then None else q_heap s b)" using one by simp
    ultimately show ?thesis
      by (cases "owns s 0 (ckey u j) b"; cases "\<exists>k. Suc j \<le> k \<and> k < j' \<and> owns s 0 (ckey u k) b") (simp_all only: simp_thms if_True if_False)
  qed
  moreover have "owns s2 0 (ckey u m) b \<longleftrightarrow> \<not> (j \<le> m \<and> m < j') \<and> owns s 0 (ckey u m) b" for m b
    using assms(2) one k [of m] by (auto simp: freed_def)
  moreover have "q_mem_used s2 + (j' - j) * sz = q_mem_used s" if "(j' - j) * sz \<le> q_mem_used s"
    using assms(2) one that unfolding n freed_def by auto
  ultimately show ?thesis by (simp add: freed_def)
qed

text \<open>The loop that deletes the oldest chunks.\<close>

definition kept_from :: "qst \<Rightarrow> nat \<Rightarrow> vctr \<Rightarrow> byte list list \<Rightarrow> nat \<Rightarrow> nat \<Rightarrow> bool" where
  "kept_from s u v xs j K = (rt_ok s \<and> (\<forall>k. j \<le> k \<and> k \<le> K \<longrightarrow> chnk_rep s u v xs k) \<and>
     (\<forall>k. map_of (q_chnks s 0) (ckey u k) \<noteq> None \<longrightarrow> j \<le> k \<and> k \<le> K))"

lemma del_oldest:
  assumes kept: "kept_from s u v xs j K" and v: "map_of (q_vctrs s 0) u = Some v"
    and wf: "wf_vctr v n" and jK: "j \<le> K"
  obtains s' where "chnk_del 0 u j p s = (Inr (), s')" "kept_from s' u v xs (Suc j) K"
    "others_same u s s'" "q_vctrs s' = q_vctrs s"
    "q_chnks s' = (q_chnks s)(0 := AList.delete (ckey u j) (q_chnks s 0))"
    "freed u (v_width v * v_max_num_in_chnk v) j (Suc j) s s'"
proof -
  have ok: "rt_ok s" and reps: "\<And>k. j \<le> k \<Longrightarrow> k \<le> K \<Longrightarrow> chnk_rep s u v xs k"
    and only: "\<And>k. map_of (q_chnks s 0) (ckey u k) \<noteq> None \<Longrightarrow> j \<le> k \<and> k \<le> K"
    using kept by (auto simp: kept_from_def)
  have "chnk_rep s u v xs j" using reps jK by simp
  then obtain c b where c: "map_of (q_chnks s 0) (ckey u j) = Some c" "c_l1_mem c = Some (b, 0)"
      "c_num_readers c = 0" "c_num_writers c = 0" "\<not> c_l2_exists c"
      "c_size c = v_width v * v_max_num_in_chnk v"
    unfolding chnk_rep_def by blast
  have sz: "0 < c_size c" "c_size c \<le> 1073741824" using wf c(6) by (auto simp: wf_vctr_def)
  obtain s' where s': "chnk_del 0 u j p s = (Inr (), s')" "rt_ok s'" "chnk_gone u j b s s'"
      "q_chnks s' = (q_chnks s)(0 := AList.delete (ckey u j) (q_chnks s 0))" "c_size c \<le> q_mem_used s \<Longrightarrow> q_mem_used s' + c_size c = q_mem_used s"
    by (rule chnk_del_run [OF ok _ c(1-5) sz]) (use v in auto)
  have own: "owns s 0 (ckey u j) b" using c by (auto simp: owns_def)
  have "kept_from s' u v xs (Suc j) K"
    unfolding kept_from_def
  proof (intro conjI allI impI)
    show "chnk_rep s' u v xs k" if "Suc j \<le> k \<and> k \<le> K" for k
      using that reps [of k] chnk_gone_rep [OF ok s'(3) own, of v xs k] by simp
    show "Suc j \<le> k" "k \<le> K" if "map_of (q_chnks s' 0) (ckey u k) \<noteq> None" for k
    proof -
      have "k \<noteq> j" "map_of (q_chnks s 0) (ckey u k) \<noteq> None"
        using that s'(3) by (auto simp: chnk_gone_def split: if_splits)
      then show "Suc j \<le> k" "k \<le> K" using only [of k] by auto
    qed
  qed (rule s'(2))
  moreover have "q_vctrs s' = q_vctrs s" using s'(3) by (simp add: chnk_gone_def)
  moreover have "freed u (v_width v * v_max_num_in_chnk v) j (Suc j) s s'"
  proof -
    have "owns s 0 (ckey u j) b' \<longleftrightarrow> b' = b" for b' using c(1,2) by (auto simp: owns_def)
    moreover have "owns s' 0 (ckey u k) b' \<longleftrightarrow> k \<noteq> j \<and> owns s 0 (ckey u k) b'" for k b' using s'(3) by (auto simp: owns_def chnk_gone_def)
    moreover have "q_heap s' = (q_heap s)(b := None)" using s'(3) by (simp add: chnk_gone_def)
    ultimately show ?thesis using s'(5) c(6) by (auto simp: freed_one)
  qed
  ultimately show ?thesis using that s'(1,4) chnk_gone_others [OF ok s'(3) own] by blast
qed

lemma del_loop:
  assumes "kept_from s u v xs j K" "map_of (q_vctrs s 0) u = Some v" "wf_vctr v n" "j + d \<le> Suc K"
  shows "\<exists>s'. for_fold [j..<j + d] (0 :: int) (\<lambda>i _. attempt (chnk_del 0 u i p)) s = (Inr 0, s') \<and>
    kept_from s' u v xs (j + d) K \<and> others_same u s s' \<and> q_vctrs s' = q_vctrs s"
  using assms
proof (induction d arbitrary: s j)
  case 0
  then show ?case by (simp add: ret_def)
next
  case (Suc d)
  obtain s1 where s1: "chnk_del 0 u j p s = (Inr (), s1)" "kept_from s1 u v xs (Suc j) K"
    "others_same u s s1" "q_vctrs s1 = q_vctrs s"
    by (rule del_oldest [OF Suc.prems(1-3)]) (use Suc.prems(4) in auto)
  obtain s2 where s2: "for_fold [Suc j..<Suc j + d] (0 :: int) (\<lambda>i _. attempt (chnk_del 0 u i p)) s1 = (Inr 0, s2)"
    "kept_from s2 u v xs (Suc j + d) K" "others_same u s1 s2" "q_vctrs s2 = q_vctrs s1"
    using Suc.IH [OF s1(2)] s1(4) Suc.prems by auto
  have "attempt (chnk_del 0 u j p) s = (Inr 0, s1)" using s1(1) by (simp add: attempt_def)
  then have "for_fold [j..<j + Suc d] (0 :: int) (\<lambda>i _. attempt (chnk_del 0 u i p)) s = (Inr 0, s2)"
    using s2(1) by (simp add: upt_conv_Cons seq_Inr del: upt_Suc)
  then show ?case using s2 s1 others_same_trans by auto
qed

text \<open>Where a vector's history begins after \<open>vctr_memo\<close>.\<close>

definition memo_min :: "vctr \<Rightarrow> nat" where
  "memo_min v = (if v_memo_len v = 0 \<or> v_is_eov v then v_min_chnk_idx v
     else max (v_min_chnk_idx v) (Suc (v_max_chnk_idx v) - v_memo_len v))"

lemma vctr_memo_core:
  assumes ok: "rt_ok s" and core: "vec_core s u v xs K" and K: "K < 2 ^ 32 - 1"
  obtains s' where "vctr_memo u s = (Inr (), s')" "rt_ok s'"
    "vec_core s' u (v\<lparr>v_min_chnk_idx := memo_min v\<rparr>) xs K" "others_same u s s'"
proof -
  have v: "map_of (q_vctrs s 0) u = Some v" and wf: "wf_vctr v (length xs)" and vK: "v_max_chnk_idx v = K"
    and minK: "v_min_chnk_idx v \<le> K" and u: "u \<noteq> 0"
    using core by (auto simp: vec_core_def wf_vctr_def)
  have u1: "u32 (Suc K) = Suc K" using K by simp
  show ?thesis
  proof (cases "v_memo_len v = 0 \<or> v_is_eov v \<or> Suc K - v_min_chnk_idx v \<le> v_memo_len v")
    case True
    then have "memo_min v = v_min_chnk_idx v" using vK by (auto simp: memo_min_def)
    moreover have "vctr_memo u s = (Inr (), s)"
      using True v vK u1 minK unfolding vctr_memo_def
      by (auto simp: run Q_MAX_NUM_TABLESPACES_def ret_def u32_sub_def)
    ultimately show ?thesis using that ok core by simp
  next
    case False
    let ?lo = "v_min_chnk_idx v" and ?new = "Suc K - v_memo_len v"
    have lt: "?lo < ?new" "?new \<le> Suc K" using False by auto
    have mm: "memo_min v = ?new" using False vK lt by (auto simp: memo_min_def)
    have kept: "kept_from s u v xs ?lo K" using ok core by (auto simp: kept_from_def vec_core_def)
    obtain s1 where s1: "for_fold [?lo..<?lo + (?new - ?lo)] (0 :: int)
        (\<lambda>i _. attempt (chnk_del 0 u i (v_is_persist v))) s = (Inr 0, s1)"
      "kept_from s1 u v xs (?lo + (?new - ?lo)) K" "others_same u s s1" "q_vctrs s1 = q_vctrs s"
      using del_loop [OF kept v wf, of "?new - ?lo" "v_is_persist v"] lt by auto
    let ?s2 = "vctr_upd 0 u (v_min_chnk_idx_update (\<lambda>_. ?new)) s1"
    have "vctr_memo u s = (Inr (), ?s2)"
      using False v vK u1 minK s1(1) lt unfolding vctr_memo_def
      by (auto simp: run Q_MAX_NUM_TABLESPACES_def u32_sub_def Let_def seq_Inr cBYE_def ret_def not_le)
    moreover have "rt_ok ?s2" using s1(2) by (simp add: kept_from_def)
    moreover have "vec_core ?s2 u (v\<lparr>v_min_chnk_idx := memo_min v\<rparr>) xs K"
    proof -
      have "chnk_rep ?s2 u (v\<lparr>v_min_chnk_idx := ?new\<rparr>) xs k" if "?new \<le> k" "k \<le> K" for k
        using s1(2) that lt by (simp add: kept_from_def chnk_rep_def)
      then show ?thesis
        using s1(2,4) wf vK v u lt core False unfolding mm vec_core_def
        by (auto simp: kept_from_def wf_vctr_def)
    qed
    moreover have "others_same u s ?s2"
    proof (rule others_same_trans [OF s1(3)])
      show "others_same u s1 ?s2" by (auto simp: others_same_def not_mine_def owns_def)
    qed
    ultimately show ?thesis by (rule that)
  qed
qed

end
