(* ===== verification/Vec_Put.thy ===== *)
theory Vec_Put
  imports Vec_Del
begin

text \<open>
  Appending: \<open>vctr_put1\<close> and \<open>vctr_putn\<close> act on the abstract list of elements as an append at
  the end, whatever chunks have to be created or given up on the way.
\<close>

lemma seq_ret_right [simp]: "seq m ret = m"
  by (rule ext) (simp add: seq_def ret_def split: prod.splits sum.splits)

subsection \<open>Making room\<close>

definition fresh_block :: "qst \<Rightarrow> nat \<Rightarrow> qst" where
  "fresh_block s sz = s\<lparr>q_heap := (q_heap s)(q_next s \<mapsto> Mem (map (q_junk s (q_next s)) [0..<sz])),
     q_next := Suc (q_next s)\<rparr>"

lemma seq_alloc:
  "q_can_alloc s (q_next s) \<Longrightarrow> seq (alloc sz) f s = f (Some (q_next s, 0)) (fresh_block s sz)"
  by (simp add: seq_def alloc_def fresh_block_def)

lemma fresh_block_sel [simp]:
  "q_heap (fresh_block s sz) = (q_heap s)(q_next s \<mapsto> Mem (map (q_junk s (q_next s)) [0..<sz]))"
  "q_next (fresh_block s sz) = Suc (q_next s)" "q_vctrs (fresh_block s sz) = q_vctrs s"
  "q_chnks (fresh_block s sz) = q_chnks s" "q_mem_lock (fresh_block s sz) = q_mem_lock s"
  "q_files (fresh_block s sz) = q_files s" "q_can_alloc (fresh_block s sz) = q_can_alloc s"
  by (simp_all add: fresh_block_def)

lemma chnk_bytes_of_small:
  "wf_vctr v n \<Longrightarrow> chnk_bytes_of v = v_width v * v_max_num_in_chnk v \<and> 0 < chnk_bytes_of v \<and>
    chnk_bytes_of v \<le> 1073741824"
  by (simp add: wf_vctr_def chnk_bytes_of_def)

lemma new_chnk_sel [simp]:
  "c_l1_mem (new_chnk v p sz) = p" "c_size (new_chnk v p sz) = sz" "c_num_elements (new_chnk v p sz) = 0"
  "c_qtype (new_chnk v p sz) = v_qtype v" "c_num_readers (new_chnk v p sz) = 0"
  "c_num_writers (new_chnk v p sz) = 0" "\<not> c_l2_exists (new_chnk v p sz)"
  "c_num_free_ignore (new_chnk v p sz) \<le> v_num_free_ignore v"
  by (simp_all add: new_chnk_def zero_chnk_def)

text \<open>A fresh, empty chunk \<open>K\<close>.\<close>

lemma vec_open_fresh:
  assumes ok: "rt_ok s" and bef: "vec_before s u v xs K" and can: "q_can_alloc s (q_next s)"
    and view: "same_view (fresh_block s (chnk_bytes_of v)) s1"
    and s2: "s2 = vctr_upd 0 u (v_max_chnk_idx_update (\<lambda>_. K))
      (s1\<lparr>q_chnks := (q_chnks s1)(0 := AList.update (ckey u K)
         (new_chnk v (Some (q_next s, 0)) (chnk_bytes_of v)) (q_chnks s1 0))\<rparr>)"
  shows "rt_ok s2 \<and> vec_core s2 u (v\<lparr>v_max_chnk_idx := K\<rparr>) xs K \<and> others_same u s s2"
proof -
  let ?c = "new_chnk v (Some (q_next s, 0)) (chnk_bytes_of v)"
  have wf: "wf_vctr v (length xs)" and v: "map_of (q_vctrs s 0) u = Some v" using bef by (auto simp: vec_before_def)
  have ne: "v_num_elements v = length xs" "length xs < 2 ^ 32 - 1" using wf by (auto simp: wf_vctr_def)
  have sz: "chnk_bytes_of v = v_width v * v_max_num_in_chnk v" using chnk_bytes_of_small [OF wf] by simp
  have s1: "q_mem_lock s1 = 0" "q_next s1 = Suc (q_next s)" "q_vctrs s1 = q_vctrs s" "q_chnks s1 = q_chnks s"
    "q_heap s1 = (q_heap s)(q_next s \<mapsto> Mem (map (q_junk s (q_next s)) [0..<chnk_bytes_of v]))"
    "q_files s1 = q_files s" "q_can_alloc s1 = q_can_alloc s"
    using view rt_lock [OF ok] by (simp_all add: same_view_def)
  have "rt_ok s2 \<and> vec_core s2 u (v\<lparr>v_max_chnk_idx := K, v_num_elements := length (xs @ [])\<rparr>) (xs @ []) K \<and>
      others_same u s s2"
  proof (rule vec_open [OF ok bef, where c = ?c and bs = "map (q_junk s (q_next s)) [0..<chnk_bytes_of v]"])
    show "map_of (q_vctrs s2 t') u' = (if t' = 0 \<and> u' = u
        then Some (v\<lparr>v_max_chnk_idx := K, v_num_elements := length (xs @ [])\<rparr>)
        else map_of (q_vctrs s t') u')" for t' u'
      using s1 v ne(1) by (simp add: s2)
  qed (use s1 sz ne in \<open>simp_all add: s2\<close>)
  moreover have "v\<lparr>v_max_chnk_idx := K, v_num_elements := length xs\<rparr> = v\<lparr>v_max_chnk_idx := K\<rparr>"
    using ne(1) by (cases v) simp
  ultimately show ?thesis by simp
qed

lemma chnk_first_nonempty:
  assumes "map_of (q_vctrs s 0) u = Some v" "v_num_elements v \<noteq> 0"
  shows "chnk_first 0 u s = (Inr (), s)"
  using assms by (simp add: chnk_first_def run Q_MAX_NUM_TABLESPACES_def ret_def)

lemma chnk_first_empty:
  assumes ok: "rt_ok s" and rep: "vec_rep s u v []" and can: "q_can_alloc s (q_next s)"
  obtains s1 where "chnk_first 0 u s = (Inr (), s1)" "rt_ok s1" "vec_core s1 u v [] 0" "others_same u s s1"
proof -
  let ?sz = "chnk_bytes_of v" let ?s0 = "fresh_block s ?sz"
  have v: "map_of (q_vctrs s 0) u = Some v" "v_num_elements v = 0" "v_max_chnk_idx v = 0" "wf_vctr v 0"
    using rep by (auto simp: vec_rep_def wf_vctr_def)
  have sz: "0 < ?sz" "?sz \<le> 1073741824" using chnk_bytes_of_small [OF v(4)] by auto
  obtain s1 where s1: "incr_mem_used ?sz ?s0 = (Inr (), s1)" "same_view ?s0 s1"
    using incr_mem_ok [of ?s0 ?sz] rt_lock [OF ok] sz by auto
  let ?s2 = "s1\<lparr>q_chnks := (q_chnks s1)(0 := AList.update (ckey u 0)
         (new_chnk v (Some (q_next s, 0)) ?sz) (q_chnks s1 0))\<rparr>"
  have first: "chnk_first 0 u s = (Inr (), ?s2)"
    using v can unfolding chnk_first_def
    by (simp add: run Q_MAX_NUM_TABLESPACES_def seq_alloc seq_Inr [of "incr_mem_used ?sz" ?s0, OF s1(1)] chnk_put_def)
      (simp add: upd_st_def)
  let ?s3 = "vctr_upd 0 u (v_max_chnk_idx_update (\<lambda>_. 0)) ?s2"
  have vv: "v\<lparr>v_max_chnk_idx := 0\<rparr> = v" using v(3) by (cases v) simp
  have 3: "rt_ok ?s3 \<and> vec_core ?s3 u v [] 0 \<and> others_same u s ?s3"
    using vec_open_fresh [OF ok vec_before_empty [OF rep] can s1(2) refl] unfolding vv .
  have m: "map_of (q_vctrs ?s2 t) u' = map_of (q_vctrs ?s3 t) u'" for t u'
    using s1(2) v(1) vv by (simp add: same_view_def)
  have ok3: "rt_ok ?s3" and core3: "vec_core ?s3 u v [] 0" and others3: "others_same u s ?s3"
    using 3 by blast+
  have reps: "chnk_rep ?s2 u v [] k = chnk_rep ?s3 u v [] k" for k
    unfolding chnk_rep_def vctr_upd_sel ..
  have "rt_ok ?s2" using ok3 unfolding rt_ok_mod_vctr .
  moreover have "vec_core ?s2 u v [] 0"
    using core3 unfolding vec_core_def reps m vctr_upd_sel .
  moreover have "others_same u s ?s2"
  proof (rule others_same_trans)
    show "others_same u s ?s3" by (rule others3)
    show "others_same u ?s3 ?s2"
      unfolding others_same_def by (intro conjI allI impI m) (simp_all add: not_mine_def owns_def)
  qed
  ultimately show ?thesis by (rule that [OF first])
qed

text \<open>The last chunk of a vector that represents \<open>xs\<close>, after \<open>chnk_first\<close>.\<close>

lemma last_chnk:
  assumes "rt_ok s" "vec_core s u v xs K"
  obtains c b bs where "map_of (q_chnks s 0) (ckey u K) = Some c" "c_l1_mem c = Some (b, 0)"
    "q_heap s b = Some (Mem bs)" "length bs = v_width v * v_max_num_in_chnk v"
    "c_num_elements c = length (slice (v_max_num_in_chnk v) K xs)"
proof -
  have "chnk_rep s u v xs K" using assms(2) by (auto simp: vec_core_def wf_vctr_def)
  then show ?thesis unfolding chnk_rep_def using that by blast
qed

text \<open>Opening a further chunk.\<close>

lemma grow_vctr_run:
  assumes ok: "rt_ok s" and bef: "vec_before s u v xs K" and can: "q_can_alloc s (q_next s)"
  obtains s2 where "grow_vctr 0 u v K s = (Inr (), s2)" "rt_ok s2"
    "vec_core s2 u (v\<lparr>v_max_chnk_idx := K\<rparr>) xs K" "others_same u s s2"
proof -
  let ?sz = "chnk_bytes_of v" let ?s0 = "fresh_block s ?sz"
  have "wf_vctr v (length xs)" using bef unfolding vec_before_def by blast
  from chnk_bytes_of_small [OF this] have sz: "0 < ?sz" "?sz \<le> 1073741824" by blast+
  obtain s1 where s1: "incr_mem_used ?sz ?s0 = (Inr (), s1)" "same_view ?s0 s1"
    using incr_mem_ok [of ?s0 ?sz] rt_lock [OF ok] sz by auto
  have att: "attempt (incr_mem_used ?sz) ?s0 = (Inr 0, s1)" using s1(1) by (simp add: attempt_def)
  let ?s2 = "s1\<lparr>q_chnks := (q_chnks s1)(0 := AList.update (ckey u K)
         (new_chnk v (Some (q_next s, 0)) ?sz) (q_chnks s1 0))\<rparr>"
  let ?s3 = "vctr_upd 0 u (v_max_chnk_idx_update (\<lambda>_. K)) ?s2"
  have "grow_vctr 0 u v K s = (Inr (), ?s3)"
    unfolding grow_vctr_def seq_alloc [OF can]
    by (simp add: seq_assoc seq_Inr [of "attempt (incr_mem_used ?sz)" ?s0, OF att] chnk_put_def run)
  moreover have "rt_ok ?s3 \<and> vec_core ?s3 u (v\<lparr>v_max_chnk_idx := K\<rparr>) xs K \<and> others_same u s ?s3"
    by (rule vec_open_fresh [OF ok bef can s1(2) refl])
  ultimately show ?thesis using that by blast
qed

text \<open>The common part of \<open>vctr_put1\<close> and \<open>vctr_putn\<close>: after it the chunk \<open>K\<close> has room.\<close>

lemma put_room:
  assumes ok: "rt_ok s" and rep: "vec_rep s u v xs" and can: "\<And>b. q_can_alloc s b"
    and len: "length xs < 2 ^ 32 - 2"
  defines "m \<equiv> v_max_num_in_chnk v"
  obtains s1 c0 s2 where "chnk_first 0 u s = (Inr (), s1)" "map_of (q_vctrs s1 0) u = Some v"
    "map_of (q_chnks s1 0) (ckey u (v_max_chnk_idx v)) = Some c0" "c_l1_mem c0 \<noteq> None"
    "(if c_num_elements c0 = m then u32 (v_max_chnk_idx v + 1) else v_max_chnk_idx v) = length xs div m"
    "(if c_num_elements c0 = m then grow_vctr 0 u v (length xs div m) else ret ()) s1 = (Inr (), s2)"
    "rt_ok s2" "vec_core s2 u (v\<lparr>v_max_chnk_idx := length xs div m\<rparr>) xs (length xs div m)"
    "others_same u s s2"
proof (cases "xs = []")
  case True
  have rep0: "vec_rep s u v []" using rep True by simp
  have v: "wf_vctr v 0" "v_max_chnk_idx v = 0" using rep0 by (auto simp: vec_rep_def)
  then have m: "0 < m" by (simp add: m_def wf_vctr_def)
  obtain s1 where s1: "chnk_first 0 u s = (Inr (), s1)" "rt_ok s1" "vec_core s1 u v [] 0" "others_same u s s1"
    by (rule chnk_first_empty [OF ok rep0 can])
  obtain c b where c: "map_of (q_chnks s1 0) (ckey u 0) = Some c" "c_l1_mem c = Some (b, 0)" "c_num_elements c = 0"
    using last_chnk [OF s1(2,3)] by (metis length_0_conv slice_Nil)
  have e: "length xs div m = 0" using True by simp
  have e2: "v\<lparr>v_max_chnk_idx := 0\<rparr> = v" using v(2) by (cases v) simp
  have v1: "map_of (q_vctrs s1 0) u = Some v" using s1(3) unfolding vec_core_def by blast
  show ?thesis
    by (rule that [of s1 c s1]) (use s1 c m v(2) v1 True in \<open>simp_all add: e e2 ret_def\<close>)
next
  case False
  have core: "vec_core s u v xs ((length xs - 1) div m)" using rep False by (simp add: vec_rep_def m_def)
  then have v: "map_of (q_vctrs s 0) u = Some v" "wf_vctr v (length xs)" "v_max_chnk_idx v = (length xs - 1) div m"
    by (auto simp: vec_core_def)
  then have m: "0 < m" "v_num_elements v \<noteq> 0" using False by (auto simp: m_def wf_vctr_def)
  note first = chnk_first_nonempty [OF v(1) m(2)]
  obtain c b where c: "map_of (q_chnks s 0) (ckey u (v_max_chnk_idx v)) = Some c" "c_l1_mem c = Some (b, 0)"
      "c_num_elements c = length (slice m (v_max_chnk_idx v) xs)"
    using last_chnk [OF ok core] unfolding v(3) m_def by metis
  show ?thesis
  proof (cases "length xs mod m = 0")
    case True
    have bef: "vec_before s u v xs (length xs div m)" and K: "Suc (v_max_chnk_idx v) = length xs div m"
      using vec_before_full [of s u v xs] core False True by (auto simp: m_def)
    have l: "length xs = length xs div m * m" using bef by (simp add: vec_before_def m_def)
    have "length xs - v_max_chnk_idx v * m = m"
      unfolding K [symmetric] by (subst l, subst K [symmetric]) simp
    then have full: "c_num_elements c = m" using c(3) by simp
    have "length xs div m \<le> length xs" by simp
    then have "length xs div m < 2 ^ 32" using len by linarith
    then have idx: "u32 (v_max_chnk_idx v + 1) = length xs div m" using K by simp
    obtain s2 where s2: "grow_vctr 0 u v (length xs div m) s = (Inr (), s2)" "rt_ok s2"
       "vec_core s2 u (v\<lparr>v_max_chnk_idx := length xs div m\<rparr>) xs (length xs div m)" "others_same u s s2"
      by (rule grow_vctr_run [OF ok bef can])
    show ?thesis using first v(1) c full idx s2 by (intro that [of s c s2]) simp_all
  next
    case nz: False
    have K: "v_max_chnk_idx v = length xs div m"
      using vec_open_chunk [of s u v xs] core False nz v(3) by (simp add: m_def)
    have "length xs - length xs div m * m = length xs mod m" by (simp add: minus_div_mult_eq_mod)
    then have "c_num_elements c < m" using c(3) K m by simp
    then have ne: "c_num_elements c \<noteq> m" by simp
    have e: "v\<lparr>v_max_chnk_idx := length xs div m\<rparr> = v" using K by (cases v) simp
    have core': "vec_core s u v xs (length xs div m)" using core K v(3) by simp
    have c': "map_of (q_chnks s 0) (ckey u (v_max_chnk_idx v)) = Some c" "c_l1_mem c \<noteq> None" using c by simp_all
    show ?thesis
      by (rule that [of s c s, OF first v(1) c']) (simp_all add: ne K e core' ok ret_def)
  qed
qed

subsection \<open>Writing into the room\<close>

lemma length_splice [simp]: "off + length new \<le> length bs \<Longrightarrow> length (splice off new bs) = length bs"
  by (simp add: splice_def)

lemma take_splice [simp]: "n \<le> off \<Longrightarrow> off \<le> length bs \<Longrightarrow> take n (splice off new bs) = take n bs"
  by (simp add: splice_def min_def)

lemma take_drop_splice [simp]:
  "off + length new \<le> length bs \<Longrightarrow> n = length new \<Longrightarrow> take n (drop off (splice off new bs)) = new"
  by (simp add: splice_def)

text \<open>Overwriting the front of what was just written.\<close>

lemma splice_splice:
  assumes "length d \<le> length z" "off + length z \<le> length bs"
  shows "splice off d (splice off z bs) = splice off (d @ drop (length d) z) bs"
  using assms by (simp add: splice_def)

lemma mem_write_run:
  assumes "q_heap s b = Some (Mem bs)" "off + length new \<le> length bs"
  shows "mem_write (Some (b, off)) new s = (Inr (), s\<lparr>q_heap := (q_heap s)(b \<mapsto> Mem (splice off new bs))\<rparr>)"
  using assms by (simp add: mem_write_def)

text \<open>The record after an append that leaves \<open>n\<close> elements: first the counters, then the chunks
  that age out.\<close>

definition v_grown :: "vctr \<Rightarrow> nat \<Rightarrow> vctr" where
  "v_grown v n = v\<lparr>v_num_elements := n, v_max_chnk_idx := (n - 1) div v_max_num_in_chnk v\<rparr>"

definition v_aged :: "vctr \<Rightarrow> vctr" where
  "v_aged v = v\<lparr>v_min_chnk_idx := memo_min v\<rparr>"

definition v_appended :: "vctr \<Rightarrow> nat \<Rightarrow> vctr" where
  "v_appended v n = v_aged (v_grown v n)"

lemma v_grown_sel [simp]:
  "v_num_elements (v_grown v n) = n" "v_max_num_in_chnk (v_grown v n) = v_max_num_in_chnk v"
  "v_width (v_grown v n) = v_width v" "v_qtype (v_grown v n) = v_qtype v" "v_is_eov (v_grown v n) = v_is_eov v"
  "v_min_chnk_idx (v_grown v n) = v_min_chnk_idx v" "v_memo_len (v_grown v n) = v_memo_len v"
  "v_max_chnk_idx (v_grown v n) = (n - 1) div v_max_num_in_chnk v"
  by (simp_all add: v_grown_def)

lemma v_grown_grown: "v_grown (v_grown v a) n = v_grown v n"
  by (cases v) (simp add: v_grown_def)

lemma v_aged_aged: "v_aged (v_aged v) = v_aged v"
  by (cases v) (simp add: v_aged_def memo_min_def)

text \<open>The write itself.  \<open>s2\<close> is the state in which there is room, \<open>bs'\<close> the block with the new
  elements in it.\<close>

lemma finish_write:
  assumes ok: "rt_ok s2" and core: "vec_core s2 u (v\<lparr>v_max_chnk_idx := K\<rparr>) xs K"
    and K: "K = length xs div v_max_num_in_chnk v"
    and ys: "length ys \<le> v_max_num_in_chnk v - length xs mod v_max_num_in_chnk v"
      "\<forall>y \<in> set ys. length y = v_width v" "length xs + length ys < 2 ^ 32 - 1" "ys \<noteq> []"
    and c: "map_of (q_chnks s2 0) (ckey u K) = Some c" "c_l1_mem c = Some (b, 0)" "q_heap s2 b = Some (Mem bs)"
    and bs': "length bs' = length bs"
      "take (v_width v * c_num_elements c) bs' = take (v_width v * c_num_elements c) bs"
      "take (v_width v * length ys) (drop (v_width v * c_num_elements c) bs') = concat ys"
    and s3: "s3 = chnk_upd 0 (ckey u K) (c_num_elements_update (\<lambda>k. u32 (k + length ys)))
      (vctr_upd 0 u (v_num_elements_update (\<lambda>k. u64 (k + length ys))) (s2\<lparr>q_heap := (q_heap s2)(b \<mapsto> Mem bs')\<rparr>))"
  shows "rt_ok s3 \<and> vec_rep s3 u (v_grown v (length (xs @ ys))) (xs @ ys) \<and> others_same u s2 s3"
proof -
  let ?v2 = "v\<lparr>v_max_chnk_idx := K\<rparr>" let ?m = "v_max_num_in_chnk v"
  let ?f = "v_num_elements_update (\<lambda>k. u64 (k + length ys))"
  have wf: "wf_vctr ?v2 (length xs)" using core unfolding vec_core_def by blast
  then have m: "0 < ?m" "v_num_elements v = length xs" by (auto simp: wf_vctr_def)
  have f: "?f ?v2 = ?v2\<lparr>v_num_elements := length (xs @ ys)\<rparr>" using m ys(3) by (cases v) simp
  have cn: "c_num_elements c = length (slice ?m K xs)"
  proof -
    have "chnk_rep s2 u ?v2 xs K" using core wf by (simp add: vec_core_def wf_vctr_def)
    then show ?thesis using c(1) by (auto simp: chnk_rep_def)
  qed
  have "c_num_elements c + length ys \<le> length xs + length ys" unfolding cn by simp
  then have "c_num_elements c + length ys < 2 ^ 32" using ys(3) by linarith
  then have g: "c_num_elements_update (\<lambda>k. u32 (k + length ys)) c = c\<lparr>c_num_elements := c_num_elements c + length ys\<rparr>"
    by simp
  have 3: "rt_ok s3 \<and> vec_core s3 u (?f ?v2) (xs @ ys) K \<and> others_same u s2 s3"
    using vec_write [of s2 u ?v2 xs ys c b bs bs' ?f _ s3] ok core ys c bs' f g s3 K by simp
  have last: "(length (xs @ ys) - 1) div ?m = K"
  proof -
    define r where "r = length xs mod ?m + length ys - 1"
    have pos: "0 < length ys" using ys(4) by simp
    have e: "length (xs @ ys) - 1 = length xs div ?m * ?m + r"
      using pos div_mult_mod_eq [of "length xs" ?m] unfolding r_def length_append by linarith
    have "r < ?m" unfolding r_def using pos ys(1) mod_less_divisor [OF m(1), of "length xs"] by linarith
    then show ?thesis unfolding e K using m(1) by (subst div_mult_self3) simp_all
  qed
  have "?f ?v2 = v_grown v (length (xs @ ys))"
    unfolding v_grown_def last f by (cases v) simp
  then have "vec_core s3 u (v_grown v (length (xs @ ys))) (xs @ ys) K" using 3 by simp
  then have "vec_rep s3 u (v_grown v (length (xs @ ys))) (xs @ ys)"
    unfolding vec_rep_def using ys(4) last by simp
  then show ?thesis using 3 by blast
qed

text \<open>The end of an append: the oldest chunks go.\<close>

lemma vctr_memo_rep:
  assumes ok: "rt_ok s" and rep: "vec_rep s u v xs" and ne: "xs \<noteq> []"
  obtains s' where "vctr_memo u s = (Inr (), s')" "rt_ok s'" "vec_rep s' u (v_aged v) xs" "others_same u s s'"
proof -
  let ?K = "(length xs - 1) div v_max_num_in_chnk v"
  have core: "vec_core s u v xs ?K" using rep ne by (simp add: vec_rep_def)
  then have "length xs < 2 ^ 32 - 1" by (simp add: vec_core_def wf_vctr_def)
  moreover have "?K \<le> length xs - 1" by (rule div_le_dividend)
  ultimately have K32: "?K < 2 ^ 32 - 1" by linarith
  obtain s' where s': "vctr_memo u s = (Inr (), s')" "rt_ok s'"
      "vec_core s' u (v\<lparr>v_min_chnk_idx := memo_min v\<rparr>) xs ?K" "others_same u s s'"
    by (rule vctr_memo_core [OF ok core K32])
  then show ?thesis using that ne by (simp add: vec_rep_def v_aged_def)
qed

subsection \<open>One element\<close>

text \<open>The bytes that \<open>vctr_put1\<close> stores for a scalar, and when the scalar fits: a string with its
  terminator within the width (longer ones overwrite the next element), any other value with as
  many bytes as the width.\<close>

definition put1_bytes :: "vctr \<Rightarrow> sclr \<Rightarrow> byte list" where
  "put1_bytes v x =
     (if v_qtype v = SC
      then c_string (sc_str x) @ replicate (v_width v - length (c_string (sc_str x))) 0
      else take (v_width v) (sc_bytes x))"

definition sclr_fits :: "vctr \<Rightarrow> sclr \<Rightarrow> bool" where
  "sclr_fits v x = (if v_qtype v = SC then length (c_string (sc_str x)) \<le> v_width v
     else v_width v \<le> length (sc_bytes x))"

lemma length_put1_bytes: "sclr_fits v x \<Longrightarrow> length (put1_bytes v x) = v_width v"
  by (simp add: sclr_fits_def put1_bytes_def split: if_splits)

text \<open>The two writes of \<open>vctr_put1\<close> are one write of these bytes.\<close>

lemma put1_writes:
  assumes "q_heap s b = Some (Mem bs)" "off + v_width v \<le> length bs" "sclr_fits v x"
  shows "seq (mem_zero (Some (b, off)) (v_width v)) (\<lambda>_. seq
      (if v_qtype v = SC then mem_write (Some (b, off)) (c_string (sc_str x))
       else if v_width v \<le> length (sc_bytes x) then mem_write (Some (b, off)) (take (v_width v) (sc_bytes x))
       else stop Undef) f) s =
    f () (s\<lparr>q_heap := (q_heap s)(b \<mapsto> Mem (splice off (put1_bytes v x) bs))\<rparr>)"
proof -
  let ?w = "v_width v" let ?z = "replicate ?w (0 :: byte)"
  let ?s1 = "s\<lparr>q_heap := (q_heap s)(b \<mapsto> Mem (splice off ?z bs))\<rparr>"
  have z: "mem_zero (Some (b, off)) ?w s = (Inr (), ?s1)"
    unfolding mem_zero_def by (rule mem_write_run) (use assms in simp_all)
  define d where "d = (if v_qtype v = SC then c_string (sc_str x) else take ?w (sc_bytes x))"
  have d: "length d \<le> ?w" using assms(3) by (simp add: d_def sclr_fits_def split: if_splits)
  have "put1_bytes v x = d @ drop (length d) ?z" using assms(3) by (simp add: d_def put1_bytes_def sclr_fits_def)
  then have sp: "splice off d (splice off ?z bs) = splice off (put1_bytes v x) bs"
    using splice_splice [of d ?z off bs] d assms(2) by simp
  have "mem_write (Some (b, off)) d ?s1 =
      (Inr (), ?s1\<lparr>q_heap := (q_heap ?s1)(b \<mapsto> Mem (splice off d (splice off ?z bs)))\<rparr>)"
    by (rule mem_write_run) (use assms(2) d in simp_all)
  then have w: "mem_write (Some (b, off)) d ?s1 =
      (Inr (), s\<lparr>q_heap := (q_heap s)(b \<mapsto> Mem (splice off (put1_bytes v x) bs))\<rparr>)"
    unfolding sp by simp
  have m: "(if v_qtype v = SC then mem_write (Some (b, off)) (c_string (sc_str x))
       else if ?w \<le> length (sc_bytes x) then mem_write (Some (b, off)) (take ?w (sc_bytes x))
       else stop Undef) = mem_write (Some (b, off)) d"
    using assms(3) by (simp add: d_def sclr_fits_def)
  show ?thesis
    unfolding m seq_Inr [of "mem_zero (Some (b, off)) ?w" s, OF z]
      seq_Inr [of "mem_write (Some (b, off)) d" ?s1, OF w] ..
qed

lemma put1_run:
  assumes ok: "rt_ok s" and rep: "vec_rep s u v xs" and can: "\<And>b. q_can_alloc s b"
    and eov: "\<not> v_is_eov v" and len: "length xs < 2 ^ 32 - 2" and fits: "sclr_fits v x"
  obtains s' where "vctr_put1 0 u (Some x) s = (Inr (), s')" "rt_ok s'"
    "vec_rep s' u (v_appended v (Suc (length xs))) (xs @ [put1_bytes v x])" "others_same u s s'"
proof -
  let ?m = "v_max_num_in_chnk v" let ?w = "v_width v" let ?K = "length xs div ?m" let ?y = "put1_bytes v x"
  have v: "u \<noteq> 0" "map_of (q_vctrs s 0) u = Some v" "wf_vctr v (length xs)"
    using rep by (auto simp: vec_rep_def vec_core_def split: if_splits)
  have m: "0 < ?m" using v(3) by (simp add: wf_vctr_def)
  obtain s1 c0 s2 where r: "chnk_first 0 u s = (Inr (), s1)" "map_of (q_vctrs s1 0) u = Some v"
    "map_of (q_chnks s1 0) (ckey u (v_max_chnk_idx v)) = Some c0" "c_l1_mem c0 \<noteq> None"
    "(if c_num_elements c0 = ?m then u32 (v_max_chnk_idx v + 1) else v_max_chnk_idx v) = ?K"
    "(if c_num_elements c0 = ?m then grow_vctr 0 u v ?K else ret ()) s1 = (Inr (), s2)"
    "rt_ok s2" "vec_core s2 u (v\<lparr>v_max_chnk_idx := ?K\<rparr>) xs ?K" "others_same u s s2"
    by (rule put_room [OF ok rep can len])
  obtain c b bs where c: "map_of (q_chnks s2 0) (ckey u ?K) = Some c" "c_l1_mem c = Some (b, 0)"
    "q_heap s2 b = Some (Mem bs)" "length bs = ?w * ?m" "c_num_elements c = length (slice ?m ?K xs)"
    using last_chnk [OF r(7,8)] by auto
  have cn: "c_num_elements c = length xs mod ?m"
    using c(5) m by (simp add: minus_div_mult_eq_mod min_absorb2 less_imp_le)
  have lt: "Suc (c_num_elements c) \<le> ?m" unfolding cn by (rule Suc_leI) (rule mod_less_divisor [OF m])
  have fit: "?w * c_num_elements c + ?w \<le> length bs"
    unfolding c(4) using mult_le_mono2 [OF lt, of ?w] by simp
  have wm: "?w * ?m \<le> 1073741824" using v(3) by (simp add: wf_vctr_def)
  have off: "u32 (c_num_elements c * ?w) = ?w * c_num_elements c"
    using fit wm unfolding c(4) by (simp add: mult.commute)
  let ?bs' = "splice (?w * c_num_elements c) ?y bs"
  let ?s3 = "chnk_upd 0 (ckey u ?K) (c_num_elements_update (\<lambda>k. u32 (k + length [?y])))
      (vctr_upd 0 u (v_num_elements_update (\<lambda>k. u64 (k + length [?y]))) (s2\<lparr>q_heap := (q_heap s2)(b \<mapsto> Mem ?bs')\<rparr>))"
  have y: "length ?y = ?w" by (rule length_put1_bytes [OF fits])
  have 3: "rt_ok ?s3 \<and> vec_rep ?s3 u (v_grown v (length (xs @ [?y]))) (xs @ [?y]) \<and> others_same u s2 ?s3"
  proof (rule finish_write [OF r(7,8) refl _ _ _ _ c(1-3) _ _ _ refl])
    show "length [?y] \<le> ?m - length xs mod ?m" using lt cn by simp
  qed (use y fit len in simp_all)
  obtain s' where s': "vctr_memo u ?s3 = (Inr (), s')" "rt_ok s'"
    "vec_rep s' u (v_appended v (length (xs @ [?y]))) (xs @ [?y])" "others_same u ?s3 s'"
    unfolding v_appended_def by (rule vctr_memo_rep [of ?s3 u "v_grown v (length (xs @ [?y]))" "xs @ [?y]"]) (use 3 in auto)
  let ?grow = "if c_num_elements c0 = ?m then grow_vctr 0 u v ?K else ret ()"
  have "vctr_put1 0 u (Some x) s = seq ?grow (\<lambda>_. put1_write 0 u v x ?K) s1"
    unfolding vctr_put1_def
    by (simp add: run Q_MAX_NUM_TABLESPACES_def seq_assoc
       seq_Inr [of "chnk_first 0 u" s, OF r(1)] r(2,3,4) v(1,2) eov Let_def)
      (use r(5) in \<open>auto split: if_splits\<close>)
  also have "\<dots> = put1_write 0 u v x ?K s2" by (rule seq_Inr [of ?grow s1, OF r(6)])
  also have "\<dots> = vctr_memo u ?s3"
    unfolding put1_write_def
    by (simp add: run Q_MAX_NUM_TABLESPACES_def c(1,2) ptr_add_def off put1_writes [OF c(3) fit fits] Let_def
        del: seq_if split del: if_split cong: if_cong)
  finally have "vctr_put1 0 u (Some x) s = vctr_memo u ?s3" .
  moreover have "others_same u s s'" using 3 s'(4) others_same_trans r(9) by blast
  ultimately show ?thesis using that s' by simp
qed

end
