(* ===== verification/Vec_Putn.thy ===== *)
theory Vec_Putn
  imports Vec_Put
begin

text \<open>
  Appending in bulk: \<open>vctr_putn\<close>, with its recursion over chunks, is an append of all the
  elements.
\<close>

text \<open>The elements \<open>ys\<close> lie one after the other at \<open>X\<close>, in memory that is not the vector's.\<close>

definition source :: "qst \<Rightarrow> nat \<Rightarrow> nat \<Rightarrow> ptr \<Rightarrow> byte list list \<Rightarrow> bool" where
  "source s u w X ys = (\<exists>b off blk. X = Some (b, off) \<and> q_heap s b = Some (Mem blk) \<and>
     off + w * length ys \<le> length blk \<and> take (w * length ys) (drop off blk) = concat ys \<and> not_mine u s b)"

lemma source_others:
  assumes "source s u w X ys" "others_same u s s'"
  shows "source s' u w X ys"
  using assms os_client [OF assms(2)] unfolding source_def by metis

lemma source_read:
  assumes "source s u w X ys" "\<forall>y \<in> set ys. length y = w" "n \<le> length ys"
  shows "mem_read X (w * n) s = (Inr (concat (take n ys)), s)"
proof -
  obtain b off blk where X: "X = Some (b, off)" "q_heap s b = Some (Mem blk)"
    "off + w * length ys \<le> length blk" "take (w * length ys) (drop off blk) = concat ys"
    using assms(1) unfolding source_def by blast
  have le: "w * n \<le> w * length ys" using assms(3) by (rule mult_le_mono2)
  have "take (w * n) (drop off blk) = take (w * n) (concat ys)"
    using X(4) le by (metis min_absorb1 take_take)
  also have "concat ys = concat (take n ys) @ concat (drop n ys)"
    by (metis append_take_drop_id concat_append)
  also have "take (w * n) (concat (take n ys) @ concat (drop n ys)) = concat (take n ys)"
  proof -
    have "\<forall>y \<in> set (take n ys). length y = w" using assms(2) by (meson in_set_takeD)
    then have "length (concat (take n ys)) = w * n" using length_concat_const [of "take n ys" w] assms(3) by (simp add: min_absorb2)
    then show ?thesis by simp
  qed
  finally have "take (w * n) (drop off blk) = concat (take n ys)" .
  moreover have "off + w * n \<le> length blk" using X(3) le by linarith
  ultimately show ?thesis using X(1,2) by (simp add: mem_read_def block_bytes_def)
qed

lemma source_rest:
  assumes "source s u w X ys" "\<forall>y \<in> set ys. length y = w" "n \<le> length ys"
  shows "source s u w (ptr_add X (w * n)) (drop n ys)"
proof -
  obtain b off blk where X: "X = Some (b, off)" "q_heap s b = Some (Mem blk)"
    "off + w * length ys \<le> length blk" "take (w * length ys) (drop off blk) = concat ys" "not_mine u s b"
    using assms(1) unfolding source_def by blast
  have e: "w * length ys = w * n + w * length (drop n ys)" using assms(3)
    by (metis add_mult_distrib2 le_add_diff_inverse length_drop)
  have len: "length (concat (take n ys)) = w * n"
  proof -
    have "\<forall>y \<in> set (take n ys). length y = w" using assms(2) by (meson in_set_takeD)
    then show ?thesis using length_concat_const [of "take n ys" w] assms(3) by (simp add: min_absorb2)
  qed
  have "drop (w * n) (concat ys) = concat (drop n ys)"
    using len by (metis append_eq_conv_conj append_take_drop_id concat_append)
  then have "take (w * length (drop n ys)) (drop (off + w * n) blk) = concat (drop n ys)"
    using X(4) unfolding e by (metis add.commute drop_drop drop_take add_diff_cancel_left')
  then show ?thesis unfolding source_def ptr_add_def using X e by auto
qed

subsection \<open>One call\<close>

lemma putn_step_run:
  assumes ok: "rt_ok s" and rep: "vec_rep s u v xs" and can: "\<And>b. q_can_alloc s b"
    and eov: "\<not> v_is_eov v" and len: "length xs + length ys < 2 ^ 32 - 1" and ne: "ys \<noteq> []"
    and ys: "\<forall>y \<in> set ys. length y = v_width v" and src: "source s u (v_width v) X ys"
  defines "n \<equiv> min (length ys) (v_max_num_in_chnk v - length xs mod v_max_num_in_chnk v)"
  obtains s' where "putn_step 0 u X (length ys) s = (Inr n, s')" "rt_ok s'"
    "vec_rep s' u (v_grown v (length xs + n)) (xs @ take n ys)" "others_same u s s'" "0 < n"
proof -
  let ?m = "v_max_num_in_chnk v" let ?w = "v_width v" let ?K = "length xs div ?m"
  have v: "u \<noteq> 0" "map_of (q_vctrs s 0) u = Some v" "wf_vctr v (length xs)"
    using rep by (auto simp: vec_rep_def vec_core_def split: if_splits)
  have m: "0 < ?m" using v(3) by (simp add: wf_vctr_def)
  have mod: "length xs mod ?m < ?m" by (rule mod_less_divisor [OF m])
  have pos: "0 < n" "n \<le> length ys" "n \<le> ?m - length xs mod ?m" using ne mod by (auto simp: n_def)
  have len2: "length xs < 2 ^ 32 - 2" using len ne by (cases ys) simp_all
  obtain s1 c0 s2 where r: "chnk_first 0 u s = (Inr (), s1)" "map_of (q_vctrs s1 0) u = Some v"
    "map_of (q_chnks s1 0) (ckey u (v_max_chnk_idx v)) = Some c0" "c_l1_mem c0 \<noteq> None"
    "(if c_num_elements c0 = ?m then u32 (v_max_chnk_idx v + 1) else v_max_chnk_idx v) = ?K"
    "(if c_num_elements c0 = ?m then grow_vctr 0 u v ?K else ret ()) s1 = (Inr (), s2)"
    "rt_ok s2" "vec_core s2 u (v\<lparr>v_max_chnk_idx := ?K\<rparr>) xs ?K" "others_same u s s2"
    by (rule put_room [OF ok rep can len2])
  obtain c b bs where c: "map_of (q_chnks s2 0) (ckey u ?K) = Some c" "c_l1_mem c = Some (b, 0)"
    "q_heap s2 b = Some (Mem bs)" "length bs = ?w * ?m" "c_num_elements c = length (slice ?m ?K xs)"
    using last_chnk [OF r(7,8)] by auto
  have cn: "c_num_elements c = length xs mod ?m"
    using c(5) m by (simp add: minus_div_mult_eq_mod min_absorb2 less_imp_le)
  have lt: "c_num_elements c + n \<le> ?m" using pos(3) mod unfolding cn by linarith
  have fit: "?w * c_num_elements c + ?w * n \<le> length bs"
    unfolding c(4) using mult_le_mono2 [OF lt, of ?w] by (simp add: add_mult_distrib2)
  have wm: "?w * ?m \<le> 1073741824" using v(3) by (simp add: wf_vctr_def)
  have off: "u32 (c_num_elements c * ?w) = ?w * c_num_elements c" "u32 (n * ?w) = ?w * n"
    using fit wm unfolding c(4) by (simp_all add: mult.commute)
  have bm: "?m \<le> ?w * ?m" using v(3) by (simp add: wf_vctr_def)
  have space: "u32_sub ?m (c_num_elements c) = ?m - length xs mod ?m"
    unfolding cn using mod by (simp add: u32_sub_def)
  let ?new = "concat (take n ys)"
  have tw: "\<forall>y \<in> set (take n ys). length y = ?w" using ys by (meson in_set_takeD)
  have ln: "length ?new = ?w * n" using length_concat_const [OF tw] pos(2) by simp
  let ?bs' = "splice (?w * c_num_elements c) ?new bs"
  let ?h = "s2\<lparr>q_heap := (q_heap s2)(b \<mapsto> Mem ?bs')\<rparr>"
  let ?s3 = "chnk_upd 0 (ckey u ?K) (c_num_elements_update (\<lambda>k. u32 (k + length (take n ys))))
      (vctr_upd 0 u (v_num_elements_update (\<lambda>k. u64 (k + length (take n ys)))) ?h)"
  have 3: "rt_ok ?s3 \<and> vec_rep ?s3 u (v_grown v (length (xs @ take n ys))) (xs @ take n ys) \<and> others_same u s2 ?s3"
    by (rule finish_write [OF r(7,8) refl _ tw _ _ c(1-3) _ _ _ refl]) (use pos fit len ne ln in simp_all)
  have rd: "mem_read X (?w * n) s2 = (Inr ?new, s2)"
    by (rule source_read [OF source_others [OF src r(9)] ys pos(2)])
  have wr: "mem_write (Some (b, ?w * c_num_elements c)) ?new s2 = (Inr (), ?h)"
    by (rule mem_write_run [OF c(3)]) (use fit ln in simp)
  have cp: "memcpy (Some (b, ?w * c_num_elements c)) X (?w * n) s2 = (Inr (), ?h)"
    unfolding memcpy_def seq_Inr [of "mem_read X (?w * n)" s2, OF rd] by (rule wr)
  have X: "X \<noteq> None" using src by (auto simp: source_def)
  let ?grow = "if c_num_elements c0 = ?m then grow_vctr 0 u v ?K else ret ()"
  have nc: "(if length ys > u32_sub ?m (c_num_elements c) then u32_sub ?m (c_num_elements c) else length ys) = n"
    unfolding space n_def by auto
  have "putn_step 0 u X (length ys) s = (Inr n, ?s3)"
  proof -
    have "putn_step 0 u X (length ys) s = seq ?grow (\<lambda>_. putn_copy 0 u v X (length ys) ?K) s1"
      unfolding putn_step_def
      by (simp add: run Q_MAX_NUM_TABLESPACES_def seq_assoc seq_Inr [of "chnk_first 0 u" s, OF r(1)]
          r(2,3,4) v(1,2) eov ne X Let_def)
        (use r(5) in \<open>auto split: if_splits\<close>)
    also have "\<dots> = putn_copy 0 u v X (length ys) ?K s2" by (rule seq_Inr [of ?grow s1, OF r(6)])
    also have "\<dots> = (Inr n, ?s3)"
      unfolding putn_copy_def
      by (simp add: run Q_MAX_NUM_TABLESPACES_def c(1,2) Let_def nc off ptr_add_def seq_assoc
          seq_Inr [of "memcpy (Some (b, ?w * c_num_elements c)) X (?w * n)" s2, OF cp] pos(2) min_absorb2
          split del: if_split) (simp add: ret_def)
    finally show ?thesis .
  qed
  moreover have "vec_rep ?s3 u (v_grown v (length xs + n)) (xs @ take n ys)" using 3 pos(2) by (simp add: min_absorb2)
  moreover have "others_same u s ?s3" using 3 r(9) others_same_trans by blast
  ultimately show ?thesis using that 3 pos(1) by blast
qed

subsection \<open>The recursion\<close>

lemma v_grown_fits: "source s u (v_width v) X ys \<Longrightarrow> source s u (v_width (v_grown v n)) X ys"
  by simp

lemma putn_run:
  assumes "rt_ok s" "vec_rep s u v xs" "\<And>b. q_can_alloc s b"
    "\<not> v_is_eov v" "length xs + length ys < 2 ^ 32 - 1" "ys \<noteq> []"
    "\<forall>y \<in> set ys. length y = v_width v" "source s u (v_width v) X ys"
  shows "\<exists>s'. vctr_putn 0 u X (length ys) s = (Inr (), s') \<and> rt_ok s' \<and>
    vec_rep s' u (v_appended v (length xs + length ys)) (xs @ ys) \<and> others_same u s s'"
  using assms
proof (induction "length ys" arbitrary: s v xs ys X rule: less_induct)
  case less
  let ?m = "v_max_num_in_chnk v" let ?w = "v_width v"
  define n where "n = min (length ys) (?m - length xs mod ?m)"
  obtain s1 where s1: "putn_step 0 u X (length ys) s = (Inr n, s1)" "rt_ok s1"
    "vec_rep s1 u (v_grown v (length xs + n)) (xs @ take n ys)" "others_same u s s1" "0 < n"
    unfolding n_def by (rule putn_step_run [OF less.prems])
  have v: "wf_vctr v (length xs)" using less.prems(2) by (auto simp: vec_rep_def vec_core_def split: if_splits)
  show ?case
  proof (cases "n < length ys")
    case False
    then have n: "n = length ys" by (simp add: n_def)
    obtain s' where s': "vctr_memo u s1 = (Inr (), s')" "rt_ok s'"
      "vec_rep s' u (v_appended v (length xs + length ys)) (xs @ ys)" "others_same u s1 s'"
      unfolding v_appended_def
      by (rule vctr_memo_rep [OF s1(2,3)]) (use less.prems(6) n in auto)
    have "vctr_putn 0 u X (length ys) s = (Inr (), s')"
      by (subst vctr_putn.simps) (simp add: s1(1) n s'(1))
    then show ?thesis using s' others_same_trans [OF s1(4)] by blast
  next
    case True
    let ?v1 = "v_grown v (length xs + n)" let ?X = "ptr_add X (?w * n)"
    have mw: "n * ?w \<le> 1073741824"
    proof -
      have "n \<le> ?m" by (simp add: n_def)
      then have "n * ?w \<le> ?m * ?w" by (rule mult_le_mono1)
      moreover have "?m * ?w \<le> 1073741824" using v by (simp add: wf_vctr_def mult.commute)
      ultimately show ?thesis by (rule order_trans)
    qed
    then have off: "u32 (n * ?w) = ?w * n" by (simp add: mult.commute)
    have v1: "map_of (q_vctrs s1 0) u = Some ?v1"
      using s1(3) by (auto simp: vec_rep_def vec_core_def split: if_splits)
    have can: "\<And>b. q_can_alloc s1 b" using os_env [OF s1(4)] less.prems(3) by simp
    have dn: "length (drop n ys) < length ys" using True s1(5) by simp
    have "\<exists>s'. vctr_putn 0 u ?X (length (drop n ys)) s1 = (Inr (), s') \<and> rt_ok s' \<and>
        vec_rep s' u (v_appended ?v1 (length (xs @ take n ys) + length (drop n ys)))
          ((xs @ take n ys) @ drop n ys) \<and> others_same u s1 s'"
    proof (rule less.hyps [OF dn s1(2,3) can])
      show "\<forall>y \<in> set (drop n ys). length y = v_width ?v1" using less.prems(7) by (auto dest: in_set_dropD)
      show "source s1 u (v_width ?v1) ?X (drop n ys)"
        using source_rest [OF source_others [OF less.prems(8) s1(4)] less.prems(7)] True by simp
    qed (use less.prems(4,5) True in auto)
    then obtain s2 where s2: "vctr_putn 0 u ?X (length ys - n) s1 = (Inr (), s2)" "rt_ok s2"
      "vec_rep s2 u (v_appended v (length xs + length ys)) (xs @ ys)" "others_same u s1 s2"
      using True by (auto simp: v_appended_def v_grown_grown)
    obtain s3 where s3: "vctr_memo u s2 = (Inr (), s3)" "rt_ok s3"
      "vec_rep s3 u (v_appended v (length xs + length ys)) (xs @ ys)" "others_same u s2 s3"
    proof (rule vctr_memo_rep [OF s2(2,3)])
      show "xs @ ys \<noteq> []" using less.prems(6) by simp
    qed (simp add: v_appended_def v_aged_aged)
    have "vctr_putn 0 u X (length ys) s = (Inr (), s3)"
      by (subst vctr_putn.simps) (use True s1(5) in \<open>simp add: s1(1) v1 off s2(1) s3(1) del: vctr_putn.simps\<close>)
    then show ?thesis using s3 s1(4) s2(4) others_same_trans by blast
  qed
qed

end
