(* ===== verification/Vec_Get.thy ===== *)
theory Vec_Get
  imports Vec_Putn
begin

text \<open>
  Reading on the abstract view: \<open>vctr_get1\<close> returns the element of the list, and changes nothing.
\<close>

lemma concat_nth_slice:
  assumes "\<forall>y \<in> set ys. length y = w" "j < length ys"
  shows "take w (drop (w * j) (concat ys @ pad)) = ys ! j"
  using assms
proof (induction ys arbitrary: j)
  case (Cons y ys)
  then show ?case by (cases j) simp_all
qed simp

lemma slice_nth:
  assumes "i < length xs" "0 < m"
  shows "slice m (i div m) xs ! (i mod m) = xs ! i"
proof -
  have "i div m * m \<le> length xs" using div_times_less_eq_dividend [of i m] assms(1) by linarith
  then show ?thesis using assms(2) by (simp add: slice_def nth_drop)
qed

lemma mod_less_slice:
  assumes "i < length xs" "0 < m"
  shows "i mod m < length (slice m (i div m) xs)"
proof -
  have "i mod m < m" using assms(2) by simp
  moreover have "i mod m < length xs - i div m * m"
    using assms(1) div_mult_mod_eq [of i m] by linarith
  ultimately show ?thesis by simp
qed

text \<open>Putting a bucket back as it was.\<close>

lemma update_same: "map_of al k = Some c \<Longrightarrow> AList.update k c al = al"
  by (induction al) (auto split: if_splits)

lemma update_update: "AList.update k c' (AList.update k c al) = AList.update k c' al"
  by (induction al) auto

lemma chnk_upd_back:
  assumes "map_of (q_chnks s t) k = Some c" "g (f c) = c"
  shows "chnk_upd t k g (chnk_upd t k f s) = s"
  using assms by (cases s) (simp add: chnk_upd_def update_same update_update fun_upd_idem)

text \<open>Access to a chunk that is in memory: one more reader.\<close>

lemma chnk_get_data_run:
  assumes "map_of (q_chnks s 0) k = Some c" "c_l1_mem c = Some p" "c_num_writers c = 0"
  shows "chnk_get_data 0 k False s =
    (Inr (Some p), chnk_upd 0 k (c_num_readers_update (\<lambda>n. u16 (Suc n))) s)"
  using assms unfolding chnk_get_data_def or_null_def
  by (simp add: run Q_MAX_NUM_TABLESPACES_def seq_assoc) (simp add: ret_def)

lemma mem_read_run:
  assumes "q_heap s b = Some (Mem bs)" "off + n \<le> length bs"
  shows "mem_read (Some (b, off)) n s = (Inr (take n (drop off bs)), s)"
  using assms by (simp add: mem_read_def block_bytes_def)

definition elem_of :: "vctr \<Rightarrow> byte list \<Rightarrow> sclr" where
  "elem_of v y = (if v_qtype v = SC then \<lparr>sc_qtype = SC, sc_bytes = [], sc_str = y\<rparr>
     else \<lparr>sc_qtype = v_qtype v, sc_bytes = y, sc_str = []\<rparr>)"

lemma get1_run:
  assumes ok: "rt_ok s" and rep: "vec_rep s u v xs" and i: "i < length xs"
    and kept: "v_min_chnk_idx v * v_max_num_in_chnk v \<le> i" and q: "v_qtype v \<noteq> B1"
  shows "vctr_get1 0 u i s = (Inr (elem_of v (xs ! i)), s)"
proof -
  let ?m = "v_max_num_in_chnk v" let ?w = "v_width v" let ?k = "i div ?m" let ?j = "i mod ?m"
  have ne: "xs \<noteq> []" using i by auto
  then have core: "vec_core s u v xs ((length xs - 1) div ?m)" using rep by (simp add: vec_rep_def)
  then have v: "map_of (q_vctrs s 0) u = Some v" "wf_vctr v (length xs)" and lens: "\<forall>x \<in> set xs. length x = ?w"
    by (auto simp: vec_core_def)
  have m: "0 < ?m" and wm: "?w * ?m \<le> 1073741824" and ln: "length xs < 2 ^ 32 - 1" "v_num_elements v = length xs"
    and lma: "\<not> v_is_lma v"
    using v(2) by (auto simp: wf_vctr_def)
  have k: "v_min_chnk_idx v \<le> ?k" "?k \<le> (length xs - 1) div ?m"
    using div_le_mono [OF kept, of ?m] m i by (auto intro: div_le_mono)
  then have "chnk_rep s u v xs ?k" using core by (simp add: vec_core_def)
  then obtain c b pad where c: "map_of (q_chnks s 0) (ckey u ?k) = Some c" "c_l1_mem c = Some (b, 0)"
     "q_heap s b = Some (Mem (concat (slice ?m ?k xs) @ pad))"
     "length (concat (slice ?m ?k xs) @ pad) = ?w * ?m"
     "c_num_elements c = length (slice ?m ?k xs)" "c_num_readers c = 0" "c_num_writers c = 0"
    unfolding chnk_rep_def by blast
  have j: "?j < length (slice ?m ?k xs)" by (rule mod_less_slice [OF i m])
  then have jm: "Suc ?j \<le> ?m" by simp
  have fit: "?w * ?j + ?w \<le> ?w * ?m" using mult_le_mono2 [OF jm, of ?w] by simp
  then have off: "u32 (?w * ?j) = ?w * ?j" using wm by simp
  have k32: "u32 ?k = ?k"
  proof -
    have "?k \<le> i" by (rule div_le_dividend)
    then have "?k < 2 ^ 32" using i ln(1) by linarith
    then show ?thesis by simp
  qed
  let ?s1 = "chnk_upd 0 (ckey u ?k) (c_num_readers_update (\<lambda>n. u16 (Suc n))) s"
  let ?bs = "concat (slice ?m ?k xs) @ pad"
  have el: "take ?w (drop (?w * ?j) ?bs) = xs ! i"
    using concat_nth_slice [OF _ j, of ?w pad] slice_nth [OF i m] lens set_slice [of ?m ?k xs] by auto
  have rd: "mem_read (Some (b, ?w * ?j)) ?w ?s1 = (Inr (xs ! i), ?s1)"
    using mem_read_run [of ?s1 b ?bs "?w * ?j" ?w] c(3,4) fit el by simp
  have elem: "read_elem v (Some (b, 0)) ?j ?s1 = (Inr (elem_of v (xs ! i)), ?s1)"
    unfolding read_elem_def ptr_add_def
    using q by (simp add: off seq_Inr [of "mem_read (Some (b, ?w * ?j)) ?w" ?s1, OF rd] elem_of_def)
      (simp add: ret_def)
  have undone: "chnk_upd 0 (ckey u ?k) (c_num_readers_update (\<lambda>n. u16 (n + 65535))) ?s1 = s"
    by (rule chnk_upd_back [OF c(1)]) (use c(6) in \<open>cases c, simp add: u16_def\<close>)
  have cj: "\<not> c_num_elements c < Suc ?j" unfolding c(5) using j by linarith
  have ni: "\<not> length xs \<le> i" using i by simp
  show ?thesis
    unfolding vctr_get1_def
    using c(1) m elem undone
    by (simp add: run Q_MAX_NUM_TABLESPACES_def v(1) ln ni lma k32 Let_def
        seq_Inr [of "chnk_get_data 0 (ckey u ?k) False" s, OF chnk_get_data_run [OF c(1,2,7)]]
        after_def cj)
qed

lemma get1_out_of_range:
  assumes "map_of (q_vctrs s 0) u = Some v" "v_num_elements v \<le> i"
  shows "vctr_get1 0 u i s = (Inl (Status (- 1)), s)"
  using assms by (simp add: vctr_get1_def run Q_MAX_NUM_TABLESPACES_def)

lemma get1_aged_out:
  assumes rep: "vec_rep s u v xs" and i: "i < v_min_chnk_idx v * v_max_num_in_chnk v"
  shows "vctr_get1 0 u i s = (Inl (Status (- 1)), s)"
proof (cases "i < length xs")
  case True
  let ?m = "v_max_num_in_chnk v"
  have "xs \<noteq> []" using True by auto
  then have core: "vec_core s u v xs ((length xs - 1) div ?m)" using rep by (simp add: vec_rep_def)
  then have v: "map_of (q_vctrs s 0) u = Some v" "wf_vctr v (length xs)" by (auto simp: vec_core_def)
  have ln: "v_num_elements v = length xs" "length xs < 2 ^ 32 - 1" "\<not> v_is_lma v" "0 < ?m"
    using v(2) by (auto simp: wf_vctr_def)
  have "i div ?m < v_min_chnk_idx v" using i ln(4) by (simp add: less_mult_imp_div_less)
  then have none: "map_of (q_chnks s 0) (ckey u (i div ?m)) = None"
    using core unfolding vec_core_def by (metis not_le)
  have "i div ?m \<le> i" by (rule div_le_dividend)
  then have "i div ?m < 2 ^ 32" using True ln(2) by linarith
  then have "u32 (i div ?m) = i div ?m" by simp
  then show ?thesis
    using v(1) ln True none by (simp add: vctr_get1_def run Q_MAX_NUM_TABLESPACES_def Let_def)
next
  case False
  have "map_of (q_vctrs s 0) u = Some v" "v_num_elements v = length xs"
    using rep by (auto simp: vec_rep_def vec_core_def wf_vctr_def split: if_splits)
  then show ?thesis using False get1_out_of_range [of s u v i] by simp
qed

end
