(* ===== verification/Vctr_Move.thy ===== *)
theory Vctr_Move
  imports Vctr_Data
begin

text \<open>
  Moving whole vectors: between memory and files, from one file back to chunks, adopting a file,
  appending one vector's file to another's.  Files \<open>RUNTIME/VCTR/src/vctr_l1_to_l2.c\<close>,
  \<open>vctr_make_mem.c\<close>, \<open>vctr_drop_mem.c\<close>, \<open>vctr_lma_to_chnks.c\<close>, \<open>vctr_set_lma.c\<close>, \<open>vctr_append.c\<close>.
\<close>

subsection \<open>All chunks of a vector\<close>

definition vctr_l1_to_l2 :: "nat \<Rightarrow> nat \<Rightarrow> nat \<Rightarrow> unit qprog" where
  "vctr_l1_to_l2 t u nn = seq (steps [bye_if (u = 0) (- 1), bye_if (nn \<noteq> 0) (- 1)])
   (\<lambda>_. seq (need_vctr t u) (\<lambda>v. for_upto (v_min_chnk_idx v) (v_max_chnk_idx v)
     (\<lambda>i. seq (need_chnk t (ckey u i)) (\<lambda>_. chnk_l1_to_l2 t (ckey u i)))))"

definition vctr_make_mem :: "nat \<Rightarrow> nat \<Rightarrow> int \<Rightarrow> unit qprog" where
  "vctr_make_mem t u level = seq (steps [bye_if (u = 0) (- 1), bye_if (level < 1 \<or> 2 < level) (- 1)])
   (\<lambda>_. seq (need_vctr t u) (\<lambda>v. for_upto (v_min_chnk_idx v) (v_max_chnk_idx v)
     (\<lambda>i. seq (need_chnk t (ckey u i)) (\<lambda>_. chnk_make_mem t u i level))))"

text \<open>The loop of level 3 stops at the first chunk with no copy.\<close>

fun all_have_mem :: "nat \<Rightarrow> nat \<Rightarrow> nat list \<Rightarrow> bool qprog" where
  "all_have_mem t u [] = ret True"
| "all_have_mem t u (i # is) = seq (chnk_is_mem t u i) (\<lambda>chnk_mem.
     if \<not> chnk_mem then ret False else all_have_mem t u is)"

definition vctr_drop_mem :: "nat \<Rightarrow> nat \<Rightarrow> int \<Rightarrow> unit qprog" where
  "vctr_drop_mem t u level = seq (bye_if (u = 0) (- 1)) (\<lambda>_. seq (need_vctr t u) (\<lambda>v.
     if level = 3
     then (if \<not> v_is_lma v then ret ()
       else seq (all_have_mem t u [v_min_chnk_idx v..<Suc (v_max_chnk_idx v)]) (\<lambda>all_mem.
         if \<not> all_mem then ret ()
         else if v_max_chnk_idx v = UINT_MAX then stop Diverges
         else seq get_st (\<lambda>s. case l2_name s 0 u UINT_MAX of None \<Rightarrow> go_BYE (- 1)
          | Some lma_file \<Rightarrow> steps
             [bye_if (\<not> file_exists s lma_file) (- 1),
              bye_if (get_file_size s lma_file < 0) (- 1),
              seq (attempt (unlink lma_file)) (\<lambda>_. ret ()),
              seq (attempt (decr_dsk_used (nat (get_file_size s lma_file)))) (\<lambda>status. seq
                (mod_vctr t u (v_is_lma_update (\<lambda>_. False))) (\<lambda>_. cBYE status))])))
     else if level = 1 \<or> level = 2
     then for_upto (v_min_chnk_idx v) (v_max_chnk_idx v) (\<lambda>i. chnk_drop_mem t u i level)
     else go_BYE (- 1)))"

subsection \<open>From one file back to chunks\<close>

text \<open>Number of chunks for \<open>n\<close> elements: the quotient, plus one for a remainder.\<close>

definition num_chunks_for :: "nat \<Rightarrow> nat \<Rightarrow> nat" where
  "num_chunks_for n m = (let q = u32 (n div m) in if u32 (q * m) \<noteq> n then u32 (q + 1) else q)"

definition fill_chnk :: "nat \<Rightarrow> nat \<Rightarrow> int \<Rightarrow> vctr \<Rightarrow> ptr \<Rightarrow> nat \<Rightarrow> unit qprog" where
  "fill_chnk t u level v X i = seq (need_chnk t (ckey u i)) (\<lambda>c.
     seq (chnk_get_data t (ckey u i) False) (\<lambda>chnk_data.
     seq (if chnk_data \<noteq> None then ret ()
       else let Y = ptr_add X (u64 (u32 (v_width v * i) * v_max_num_in_chnk v));
                bytes_to_copy = u32 (v_width v * c_num_elements c) in
         if level = 1
         then seq (alloc (c_size c)) (\<lambda>l1_mem. steps
           [mod_chnk t (ckey u i) (c_l1_mem_update (\<lambda>_. l1_mem)),
            memcpy l1_mem Y bytes_to_copy,
            seq (attempt (incr_mem_used (c_size c))) (\<lambda>_. ret ())])
         else seq (bye_if (c_l2_exists c) (- 1)) (\<lambda>_. seq get_st (\<lambda>s.
           case l2_name s t u i of None \<Rightarrow> go_BYE (- 1)
           | Some l2_file \<Rightarrow>
             seq (attempt (mk_file l2_file (c_size c))) (\<lambda>_. seq (rs_mmap l2_file True) (\<lambda>(Z, nZ). steps
              [memcpy Z Y bytes_to_copy,
               mod_chnk t (ckey u i) (c_l2_exists_update (\<lambda>_. True)),
               seq (attempt (incr_dsk_used (c_size c))) (\<lambda>_. ret ())])))))
     (\<lambda>_. mod_chnk t (ckey u i) (c_num_readers_update (\<lambda>_. c_num_readers c)))))"

definition vctr_lma_to_chnks :: "nat \<Rightarrow> nat \<Rightarrow> int \<Rightarrow> unit qprog" where
  "vctr_lma_to_chnks t u level = seq (steps
     [bye_if (t \<noteq> 0) (- 1), bye_if (u = 0) (- 1), bye_if (\<not> (level = 1 \<or> level = 2)) (- 1)])
   (\<lambda>_. seq (need_vctr t u) (\<lambda>v.
    seq (steps
     [bye_if (\<not> v_is_lma v) (- 1), bye_if (\<not> v_is_eov v) (- 1), bye_if (v_is_killable v) (- 1),
      bye_if (v_is_early_freeable v) (- 1), bye_if (v_is_memo v) (- 1),
      bye_if (v_num_readers v \<noteq> 0) (- 1), bye_if (v_num_writers v \<noteq> 0) (- 1)])
   (\<lambda>_. seq get_st (\<lambda>s. case l2_name s t u UINT_MAX of None \<Rightarrow> go_BYE (- 1)
    | Some lma_file \<Rightarrow> seq (steps
        [bye_if (\<not> file_exists s lma_file) (- 1), bye_if (get_file_size s lma_file \<le> 0) (- 1)])
     (\<lambda>_. seq (if v_X v = None then rs_mmap lma_file True else ret (v_X v, v_nX v)) (\<lambda>(X, nX).
       steps
        [bye_if (X = None \<or> nX = 0) (- 1),
         bye_if (v_max_num_in_chnk v = 0) (- 1),
         for_each [0..<num_chunks_for (v_num_elements v) (v_max_num_in_chnk v)] (fill_chnk t u level v X),
         munmap X,
         munmap X]))))))"

subsection \<open>Adopting a file\<close>

text \<open>One empty chunk, with a stolen null pointer; the status of \<open>vctr_put_chunk\<close> is not looked
  at.  The accumulator is \<open>num_elements_to_put\<close> and the status.\<close>

definition put_empty_chnk :: "nat \<Rightarrow> nat \<Rightarrow> vctr \<Rightarrow> nat \<Rightarrow> nat \<times> int \<Rightarrow> (nat \<times> int) qprog" where
  "put_empty_chnk t u v i = (\<lambda>(num_elements_to_put, _).
     let k = min (v_max_num_in_chnk v) num_elements_to_put in
     seq (bye_if (k = 0) (- 1)) (\<lambda>_.
     seq (attempt (vctr_put_chunk t u (zero_cmem\<lparr>cm_is_stealable := True, cm_size := chnk_bytes_of v\<rparr>) k))
     (\<lambda>status. ret (num_elements_to_put - k, status))))"

text \<open>A \<open>uint64_t\<close> read as \<open>int64_t\<close>.\<close>

definition to_i64 :: "nat \<Rightarrow> int" where
  "to_i64 n = (if n < 2 ^ 63 then int n else int n - 2 ^ 64)"

definition vctr_set_lma :: "nat \<Rightarrow> nat \<Rightarrow> string option \<Rightarrow> nat \<Rightarrow> unit qprog" where
  "vctr_set_lma t u in_file_name num_elements = seq (steps
     [bye_if (t \<noteq> 0) (- 1), bye_if (in_file_name = None \<or> in_file_name = Some []) (- 1)])
   (\<lambda>_. seq (need_vctr t u) (\<lambda>v.
    seq (steps
     [bye_if (v_is_lma v) (- 1), bye_if (v_X v \<noteq> None) (- 1), bye_if (v_nX v \<noteq> 0) (- 1),
      bye_if (v_num_readers v \<noteq> 0) (- 1), bye_if (v_num_writers v \<noteq> 0) (- 1),
      bye_if (v_num_elements v \<noteq> 0) (- 1)])
   (\<lambda>_. seq get_st (\<lambda>s. case l2_name s t u UINT_MAX of None \<Rightarrow> go_BYE (- 1)
    | Some lma_file \<Rightarrow>
      let in_file = the in_file_name; filesz = get_file_size s in_file; w = v_width v;
          n = (if num_elements = 0 then nat filesz div w else num_elements) in
      seq (steps
       [bye_if (lma_file = in_file) (- 1),
        bye_if (filesz \<le> 0) (- 1),
        bye_if (\<not> file_exists s in_file) (- 1),
        bye_if (to_i64 (get_dsk_allowed s) < to_i64 (get_dsk_used s)) (- 1),
        bye_if (to_i64 (get_dsk_allowed s) - to_i64 (get_dsk_used s) < filesz) (- 1),
        incr_dsk_used (nat filesz),
        rename in_file lma_file,
        bye_if (w = 0) (- 1),
        (if num_elements = 0 then bye_if (u64 (n * w) \<noteq> nat filesz) (- 1)
         else bye_if (u64 (n * w) < nat filesz) (- 1)),
        bye_if (v_max_num_in_chnk v = 0) (- 1)])
     (\<lambda>_. seq (for_fold [0..<num_chunks_for n (v_max_num_in_chnk v)] (u32 n, 0) (put_empty_chnk t u v))
     (\<lambda>(_, status). steps
       [mod_vctr t u (v_is_lma_update (\<lambda>_. True)),
        mod_vctr t u (v_num_elements_update (\<lambda>_. n)),
        mod_vctr t u (v_is_eov_update (\<lambda>_. True)),
        cBYE status]))))))"

subsection \<open>Appending\<close>

definition vctr_append :: "nat \<Rightarrow> nat \<Rightarrow> nat \<Rightarrow> nat \<Rightarrow> unit qprog" where
  "vctr_append dst_t dst_u src_t src_u =
   (if dst_t \<noteq> 0 then ret ()
    else seq (need_vctr dst_t dst_u) (\<lambda>dst. seq (steps
     [bye_if (\<not> v_is_eov dst) (- 1), bye_if (\<not> v_is_lma dst) (- 1),
      bye_if (v_num_readers dst \<noteq> 0) (- 1), bye_if (v_num_writers dst \<noteq> 0) (- 1)])
   (\<lambda>_. seq get_st (\<lambda>s. case l2_name s dst_t dst_u UINT_MAX of None \<Rightarrow> go_BYE (- 1)
    | Some dst_lma_file \<Rightarrow> seq (need_vctr src_t src_u) (\<lambda>src. seq (steps
       [bye_if (\<not> v_is_eov src) (- 1), bye_if (\<not> v_is_lma src) (- 1),
        bye_if (v_num_readers src \<noteq> 0) (- 1), bye_if (v_num_writers src \<noteq> 0) (- 1)])
     (\<lambda>_. case l2_name s src_t src_u UINT_MAX of None \<Rightarrow> go_BYE (- 1)
      | Some src_lma_file \<Rightarrow> seq (rs_mmap src_lma_file True) (\<lambda>(src_X, src_nX).
         after (steps
          [bye_if (v_qtype src \<noteq> v_qtype dst) (- 1),
           bye_if (v_num_elements src = 0) (- 1),
           seq (fopen_a dst_lma_file) (\<lambda>dst_fp. steps
             [bye_if (\<not> dst_fp) (- 1),
              (if src_nX = 0 then ret () else fwrite src_X src_nX dst_fp dst_lma_file)]),
           mod_vctr dst_t dst_u (v_num_elements_update (\<lambda>n. u64 (n + v_num_elements src))),
           incr_dsk_used src_nX])
          (munmap src_X))))))))"

end
