(* ===== verification/Vec_Chunk.thy ===== *)
theory Vec_Chunk
  imports Vec_Get Vctr_Move
begin

text \<open>
  Whole chunks on the abstract view, and the end of a vector: \<open>vctr_put_chunk\<close> appends the
  elements of a client's buffer, \<open>vctr_eov\<close> closes the list.
\<close>

subsection \<open>The end of a vector\<close>

lemma rep_vctr:
  assumes "vec_rep s u v xs"
  shows "u \<noteq> 0" "map_of (q_vctrs s 0) u = Some v" "wf_vctr v (length xs)"
  using assms by (auto simp: vec_rep_def vec_core_def split: if_splits)

text \<open>Changing a field of the record the view does not depend on.\<close>

lemma others_same_mod_vctr: "others_same u s (vctr_upd 0 u f s)"
  by (auto simp: others_same_def not_mine_def owns_def)

lemma vec_rep_mod_vctr:
  assumes rep: "vec_rep s u v xs" and same: "wf_vctr (f v) (length xs)" "v_max_chnk_idx (f v) = v_max_chnk_idx v"
    "v_min_chnk_idx (f v) = v_min_chnk_idx v" "v_width (f v) = v_width v" "v_qtype (f v) = v_qtype v"
    "v_max_num_in_chnk (f v) = v_max_num_in_chnk v" "v_num_free_ignore (f v) = v_num_free_ignore v"
  shows "vec_rep (vctr_upd 0 u f s) u (f v) xs"
proof -
  have "chnk_rep (vctr_upd 0 u f s) u (f v) xs k = chnk_rep s u v xs k" for k
    by (simp add: chnk_rep_def same)
  then show ?thesis
    using rep rep_vctr(2) [OF rep] same by (cases "xs = []") (simp_all add: vec_rep_def vec_core_def)
qed

lemma vec_rep_eov:
  assumes "vec_rep s u v xs"
  shows "vec_rep (vctr_upd 0 u (v_is_eov_update (\<lambda>_. e)) s) u (v\<lparr>v_is_eov := e\<rparr>) xs"
proof -
  have "vec_rep (vctr_upd 0 u (v_is_eov_update (\<lambda>_. e)) s) u (v_is_eov_update (\<lambda>_. e) v) xs"
    by (rule vec_rep_mod_vctr [OF assms]) (use rep_vctr(3) [OF assms] in \<open>simp_all add: wf_vctr_def\<close>)
  then show ?thesis by simp
qed

text \<open>\<open>vctr_memo\<close> on any vector; an empty one has nothing to give up.\<close>

lemma vctr_memo_any:
  assumes ok: "rt_ok s" and rep: "vec_rep s u v xs"
  obtains s' where "vctr_memo u s = (Inr (), s')" "rt_ok s'" "vec_rep s' u (v_aged v) xs" "others_same u s s'"
proof (cases "xs = []")
  case False then show ?thesis using vctr_memo_rep [OF ok rep] that by blast
next
  case True
  have v: "v_max_chnk_idx v = 0" "v_min_chnk_idx v = 0" "map_of (q_vctrs s 0) u = Some v"
    using rep True by (auto simp: vec_rep_def wf_vctr_def)
  then have "memo_min v = v_min_chnk_idx v" by (auto simp: memo_min_def)
  then have "v_aged v = v" by (cases v) (simp add: v_aged_def)
  moreover have "vctr_memo u s = (Inr (), s)"
    using v by (simp add: vctr_memo_def run Q_MAX_NUM_TABLESPACES_def ret_def u32_sub_def)
  ultimately show ?thesis using that ok rep by simp
qed

lemma v_aged_eov [simp]: "v_is_eov (v_aged v) = v_is_eov v" "v_num_elements (v_aged v) = v_num_elements v"
  "v_width (v_aged v) = v_width v" "v_qtype (v_aged v) = v_qtype v"
  "v_max_num_in_chnk (v_aged v) = v_max_num_in_chnk v" "v_max_chnk_idx (v_aged v) = v_max_chnk_idx v"
  by (simp_all add: v_aged_def)

lemma eov_run:
  assumes ok: "rt_ok s" and rep: "vec_rep s u v xs" and ne: "xs \<noteq> []" and eov: "\<not> v_is_eov v"
  obtains s' where "vctr_eov 0 u s = (Inr (), s')" "rt_ok s'"
    "vec_rep s' u ((v_aged v)\<lparr>v_is_eov := True\<rparr>) xs" "others_same u s s'"
proof -
  obtain s1 where s1: "vctr_memo u s = (Inr (), s1)" "rt_ok s1" "vec_rep s1 u (v_aged v) xs" "others_same u s s1"
    by (rule vctr_memo_any [OF ok rep])
  let ?s2 = "vctr_upd 0 u (v_is_eov_update (\<lambda>_. True)) s1"
  have "v_num_elements v = length xs" using rep_vctr(3) [OF rep] by (simp add: wf_vctr_def)
  then have "vctr_eov 0 u s = (Inr (), ?s2)"
    unfolding vctr_eov_def vctr_memo_at_def
    using rep_vctr(2) [OF rep] eov ne
    by (simp add: run Q_MAX_NUM_TABLESPACES_def seq_assoc seq_Inr [of "vctr_memo u" s, OF s1(1)])
  moreover have "rt_ok ?s2" using s1(2) by simp
  ultimately show ?thesis
    using that vec_rep_eov [OF s1(3)] others_same_trans [OF s1(4) others_same_mod_vctr] by blast
qed

text \<open>After its end a vector is closed to the three ways of putting elements into chunks.\<close>

lemma eov_closed:
  assumes "map_of (q_vctrs s 0) u = Some v" "v_is_eov v" "u \<noteq> 0"
  shows "vctr_put1 0 u (Some x) s = (Inl (Status (- 1)), s)"
    "n \<noteq> 0 \<Longrightarrow> X \<noteq> None \<Longrightarrow> vctr_putn 0 u X n s = (Inl (Status (- 1)), s)"
    "vctr_put_chunk 0 u cm n s = (Inl (Status (- 1)), s)"
    "vctr_eov 0 u s = (Inr (), s)"
proof -
  show "vctr_put1 0 u (Some x) s = (Inl (Status (- 1)), s)"
    using assms by (simp add: vctr_put1_def seq_assoc run Q_MAX_NUM_TABLESPACES_def)
  show "vctr_putn 0 u X n s = (Inl (Status (- 1)), s)" if "n \<noteq> 0" "X \<noteq> None"
    using assms that by (subst vctr_putn.simps) (simp add: putn_step_def seq_assoc run Q_MAX_NUM_TABLESPACES_def)
  show "vctr_put_chunk 0 u cm n s = (Inl (Status (- 1)), s)"
    using assms by (cases "n = 0") (simp_all add: vctr_put_chunk_def seq_assoc run Q_MAX_NUM_TABLESPACES_def Let_def)
  show "vctr_eov 0 u s = (Inr (), s)"
    using assms by (simp add: vctr_eov_def run Q_MAX_NUM_TABLESPACES_def ret_def)
qed

subsection \<open>Appending a chunk\<close>

lemma others_same_fresh:
  assumes "rt_ok s"
  shows "others_same u s (fresh_block s sz)"
  unfolding others_same_def
proof (intro conjI allI impI)
  fix t k b assume "owns s t k b"
  then have "b \<noteq> q_next s" using assms by (auto simp: owns_def elim!: rt_block)
  then show "q_heap (fresh_block s sz) b = q_heap s b" by simp
next
  fix b assume a: "not_mine u s b"
  then have "b \<noteq> q_next s" using rt_fresh [OF assms] by (auto simp: not_mine_def)
  then show "q_heap (fresh_block s sz) b = q_heap s b" "not_mine u (fresh_block s sz) b"
    using a by (auto simp: not_mine_def owns_def)
qed simp_all

text \<open>The place of the next chunk when all chunks are full.\<close>

lemma before_next:
  assumes rep: "vec_rep s u v xs" and full: "length xs mod v_max_num_in_chnk v = 0"
  shows "vec_before s u v xs (length xs div v_max_num_in_chnk v)"
    "(if v_num_elements v = 0 then 0 else u32 (v_max_chnk_idx v + 1)) = length xs div v_max_num_in_chnk v"
proof -
  let ?m = "v_max_num_in_chnk v"
  have wf: "wf_vctr v (length xs)" by (rule rep_vctr(3) [OF rep])
  have "vec_before s u v xs (length xs div ?m) \<and>
    (if v_num_elements v = 0 then 0 else u32 (v_max_chnk_idx v + 1)) = length xs div ?m"
  proof (cases "xs = []")
    case True
    then show ?thesis using vec_before_empty [of s u v] rep wf by (simp add: wf_vctr_def)
  next
    case False
    then have core: "vec_core s u v xs ((length xs - 1) div ?m)" using rep by (simp add: vec_rep_def)
    have "length xs div ?m \<le> length xs" by (rule div_le_dividend)
    moreover have "length xs < 2 ^ 32 - 1" using wf unfolding wf_vctr_def by blast
    ultimately have "length xs div ?m < 2 ^ 32" by linarith
    then show ?thesis using vec_before_full [OF core False full] False wf by (auto simp: wf_vctr_def)
  qed
  then show "vec_before s u v xs (length xs div ?m)"
    "(if v_num_elements v = 0 then 0 else u32 (v_max_chnk_idx v + 1)) = length xs div ?m" by blast+
qed

text \<open>Giving up the oldest chunks twice is giving them up once.\<close>

lemma v_appended_aged:
  assumes "wf_vctr v k" "v_max_chnk_idx v \<le> (n - 1) div v_max_num_in_chnk v"
  shows "v_appended (v_aged v) n = v_appended v n"
  using assms by (cases v) (auto simp: v_appended_def v_aged_def v_grown_def memo_min_def)

lemma next_chnk_idx:
  assumes "0 < m" "k mod m = 0" "0 < n" "n \<le> m"
  shows "(k + n - 1) div m = k div (m :: nat)"
proof -
  have e: "k + n - 1 = k div m * m + (n - 1)" using assms div_mult_mod_eq [of k m] by linarith
  have "n - 1 < m" using assms by linarith
  then show ?thesis unfolding e using assms(1) by (subst div_mult_self3) simp_all
qed

text \<open>The copy into fresh memory: the state in which the new chunk is entered.\<close>

lemma put_chunk_copy:
  assumes ok: "rt_ok s" and can: "q_can_alloc s (q_next s)" and sz: "0 < sz" "sz \<le> 1073741824"
    and src: "source s u w X ys" and ys: "\<forall>y \<in> set ys. length y = w" "w * length ys \<le> sz"
  obtains s1 bs where
    "\<forall>f :: ptr \<Rightarrow> 'c qprog.
       seq (alloc sz) (\<lambda>l1_mem. seq (steps [incr_mem_used sz, memcpy l1_mem X (u32 (length ys * w))]) (\<lambda>_. f l1_mem)) s =
       f (Some (q_next s, 0)) s1"
    "q_heap s1 = (q_heap s)(q_next s \<mapsto> Mem bs)" "length bs = sz" "take (w * length ys) bs = concat ys"
    "q_mem_lock s1 = 0" "q_next s1 = Suc (q_next s)" "q_vctrs s1 = q_vctrs s" "q_chnks s1 = q_chnks s"
    "q_files s1 = q_files s" "q_can_alloc s1 = q_can_alloc s"
proof -
  let ?s0 = "fresh_block s sz"
  obtain s1 where s1: "incr_mem_used sz ?s0 = (Inr (), s1)" "same_view ?s0 s1"
    using incr_mem_ok [of ?s0 sz] rt_lock [OF ok] sz by auto
  let ?b = "q_next s" let ?junk = "map (q_junk s ?b) [0..<sz]"
  have l: "length (concat ys) = w * length ys" by (rule length_concat_const [OF ys(1)])
  have h1: "q_heap s1 = (q_heap s)(?b \<mapsto> Mem ?junk)" using s1(2) by (simp add: same_view_def)
  let ?s2 = "s1\<lparr>q_heap := (q_heap s1)(?b \<mapsto> Mem (splice 0 (concat ys) ?junk))\<rparr>"
  have "source s1 u w X ys"
    by (rule source_others [OF src others_same_trans [OF others_same_fresh [OF ok] others_same_view [OF s1(2)]]])
  then have rd: "mem_read X (w * length ys) s1 = (Inr (concat ys), s1)"
    using source_read [of s1 u w X ys "length ys"] ys(1) by simp
  have wr: "mem_write (Some (?b, 0)) (concat ys) s1 = (Inr (), ?s2)"
    by (rule mem_write_run) (use h1 l ys(2) in simp_all)
  have cp: "memcpy (Some (?b, 0)) X (u32 (length ys * w)) s1 = (Inr (), ?s2)"
    using ys(2) sz(2) by (simp add: memcpy_def mult.commute seq_Inr [of "mem_read X (w * length ys)" s1, OF rd] wr)
  have "seq (alloc sz) (\<lambda>l1_mem. seq (steps [incr_mem_used sz, memcpy l1_mem X (u32 (length ys * w))]) (\<lambda>_. f l1_mem)) s =
      f (Some (?b, 0)) ?s2" for f :: "ptr \<Rightarrow> 'c qprog"
    by (simp add: seq_alloc can seq_assoc seq_Inr [of "incr_mem_used sz" ?s0, OF s1(1)]
        seq_Inr [of "memcpy (Some (?b, 0)) X (u32 (length ys * w))" s1, OF cp])
  moreover have "take (w * length ys) (splice 0 (concat ys) ?junk) = concat ys"
    using l ys(2) by (simp add: splice_def)
  ultimately show ?thesis
    using that [of ?s2 "splice 0 (concat ys) ?junk"] h1 l ys(2) s1(2) rt_lock [OF ok]
    by (simp add: same_view_def)
qed

lemma put_chunk_run:
  assumes ok: "rt_ok s" and rep: "vec_rep s u v xs" and can: "\<And>b. q_can_alloc s b" and eov: "\<not> v_is_eov v"
    and full: "length xs mod v_max_num_in_chnk v = 0"
    and cm: "\<not> cm_is_stealable cm" "cm_size cm = v_width v * v_max_num_in_chnk v"
    and ys: "ys \<noteq> []" "length ys \<le> v_max_num_in_chnk v" "length xs + length ys < 2 ^ 32 - 1"
      "\<forall>y \<in> set ys. length y = v_width v" and src: "source s u (v_width v) (cm_data cm) ys"
  obtains s' where "vctr_put_chunk 0 u cm (length ys) s = (Inr cm, s')" "rt_ok s'"
    "vec_rep s' u ((v_appended v (length xs + length ys))\<lparr>v_is_eov := length ys < v_max_num_in_chnk v\<rparr>) (xs @ ys)"
    "others_same u s s'"
proof -
  let ?m = "v_max_num_in_chnk v" let ?w = "v_width v" let ?K = "length xs div ?m" let ?n = "length ys"
  let ?sz = "?w * ?m"
  have wf: "wf_vctr v (length xs)" by (rule rep_vctr(3) [OF rep])
  then have m: "0 < ?m" "0 < ?sz" "?sz \<le> 1073741824" "v_num_elements v = length xs" by (auto simp: wf_vctr_def)
  have bytes: "chnk_bytes_of v = ?sz" using chnk_bytes_of_small [OF wf] by simp
  define v1 where "v1 = (if ?n < ?m then v_aged v else v)"
  have v1: "v_width v1 = ?w" "v_max_num_in_chnk v1 = ?m" "v_qtype v1 = v_qtype v" "v_num_elements v1 = length xs"
    using m by (simp_all add: v1_def)
  obtain s1 where s1: "(if ?n < ?m then vctr_memo_at 0 u else ret ()) s = (Inr (), s1)" "rt_ok s1"
    "vec_rep s1 u v1 xs" "others_same u s s1"
  proof (cases "?n < ?m")
    case True
    then show ?thesis using vctr_memo_any [OF ok rep] that
      by (auto simp: v1_def vctr_memo_at_def)
  qed (use that ok rep in \<open>simp add: v1_def ret_def\<close>)
  have can1: "\<And>b. q_can_alloc s1 b" using os_env [OF s1(4)] can by simp
  note bef = before_next [OF s1(3), unfolded v1, OF full]
  obtain s2 bs where s2:
    "\<forall>f :: ptr \<Rightarrow> cmem qprog.
       seq (alloc ?sz) (\<lambda>l1_mem. seq (steps [incr_mem_used ?sz, memcpy l1_mem (cm_data cm) (u32 (?n * ?w))]) (\<lambda>_. f l1_mem)) s1 =
       f (Some (q_next s1, 0)) s2"
    "q_heap s2 = (q_heap s1)(q_next s1 \<mapsto> Mem bs)" "length bs = ?sz" "take (?w * ?n) bs = concat ys"
    "q_mem_lock s2 = 0" "q_next s2 = Suc (q_next s1)" "q_vctrs s2 = q_vctrs s1" "q_chnks s2 = q_chnks s1"
    "q_files s2 = q_files s1" "q_can_alloc s2 = q_can_alloc s1"
    by (rule put_chunk_copy [OF s1(2) can1 m(2,3) source_others [OF src s1(4)] ys(4) mult_le_mono2 [OF ys(2)]])
  let ?c = "(new_chnk v (Some (q_next s1, 0)) ?sz)\<lparr>c_num_elements := ?n\<rparr>"
  let ?s3 = "s2\<lparr>q_chnks := (q_chnks s2)(0 := AList.update (ckey u ?K) ?c (q_chnks s2 0))\<rparr>"
  let ?s4 = "vctr_upd 0 u (v_max_chnk_idx_update (\<lambda>_. ?K)) (vctr_upd 0 u (v_num_elements_update (\<lambda>k. u64 (k + ?n))) ?s3)"
  let ?v4 = "v1\<lparr>v_max_chnk_idx := ?K, v_num_elements := length (xs @ ys)\<rparr>"
  have mv1: "map_of (q_vctrs s1 0) u = Some v1" by (rule rep_vctr(2) [OF s1(3)])
  have 4: "rt_ok ?s4 \<and> vec_core ?s4 u ?v4 (xs @ ys) ?K \<and> others_same u s1 ?s4"
  proof (rule vec_open [OF s1(2) bef(1), where c = ?c and bs = bs])
    show "map_of (q_vctrs ?s4 t') u' = (if t' = 0 \<and> u' = u then Some ?v4 else map_of (q_vctrs s1 t') u')" for t' u'
      using s2(7) mv1 v1(4) ys(3) by simp
  qed (use s2 v1 ys in \<open>simp_all add: v1_def v_aged_def\<close>)
  have l4: "(length (xs @ ys) - 1) div ?m = ?K"
    using next_chnk_idx [OF m(1) full _ ys(2)] ys(1) by simp
  have g4: "?v4 = v_grown v1 (length (xs @ ys))" unfolding v_grown_def v1 l4 by (cases v1) simp
  then have "vec_rep ?s4 u (v_grown v1 (length (xs @ ys))) (xs @ ys)"
    using 4 l4 ys(1) by (simp add: vec_rep_def v1)
  then obtain s5 where s5: "vctr_memo u ?s4 = (Inr (), s5)" "rt_ok s5"
    "vec_rep s5 u (v_appended v1 (length (xs @ ys))) (xs @ ys)" "others_same u ?s4 s5"
    using vctr_memo_any [of ?s4 u] 4 by (metis v_appended_def)
  let ?s6 = "vctr_upd 0 u (v_is_eov_update (\<lambda>_. ?n < ?m)) s5"
  have app: "v_appended v1 (length (xs @ ys)) = v_appended v (length xs + ?n)"
  proof -
    have "v_max_chnk_idx v \<le> (length xs + ?n - 1) div ?m"
    proof -
      have "v_max_chnk_idx v = (length xs - 1) div ?m" using rep by (auto simp: vec_rep_def vec_core_def split: if_splits)
      then show ?thesis by (simp add: div_le_mono)
    qed
    then show ?thesis using v_appended_aged [OF wf] by (simp add: v1_def)
  qed
  have "vctr_put_chunk 0 u cm ?n s = (Inr cm, ?s6)"
  proof -
    let ?memo = "if ?n < ?m then vctr_memo_at 0 u else ret ()"
    have al: "seq (alloc ?sz) (\<lambda>p. seq (incr_mem_used ?sz) (\<lambda>_. seq (memcpy p (cm_data cm) (u32 (?n * ?w))) (\<lambda>_. f p))) s1 =
        f (Some (q_next s1, 0)) s2" for f :: "ptr \<Rightarrow> cmem qprog"
      using spec [OF s2(1), of f] by (simp add: seq_assoc)
    have mult: "length xs div ?m * ?m = length xs" using full div_mult_mod_eq [of "length xs" ?m] by simp
    have ne: "ys \<noteq> []" "\<not> ?m < ?n" "?w \<noteq> 0" "?m \<noteq> 0" using ys m by auto
    have idx: "(if xs = [] then 0 else u32 (v_max_chnk_idx v1 + 1)) = ?K" using bef(2) v1(4) by simp
    have memo: "vctr_memo_at 0 u ?s4 = (Inr (), s5)" using s5(1) by (simp add: vctr_memo_at_def)
    have u32sz: "u32 ?sz = ?sz" using m by simp
    show ?thesis
      unfolding vctr_put_chunk_def
      by (simp add: run Q_MAX_NUM_TABLESPACES_def seq_assoc rep_vctr(1,2) [OF rep] ne eov cm u32sz bytes m(4) mult
          seq_Inr [of ?memo s, OF s1(1)] mv1 idx al Let_def chnk_put_def
          seq_Inr [of "vctr_memo_at 0 u" ?s4, OF memo]
          del: seq_if split_paired_All mult_eq_0_iff One_nat_def split del: if_split cong: if_cong)
        (simp add: ret_def)
  qed
  moreover have "others_same u s ?s6"
    using others_same_trans [OF s1(4)] others_same_trans [OF _ s5(4)] 4 others_same_trans others_same_mod_vctr by blast
  ultimately show ?thesis using that [of ?s6] s5(2) vec_rep_eov [OF s5(3)] app by simp
qed

end
