(* ===== verification/Vec_Life.thy ===== *)
theory Vec_Life
  imports Vec_Chunk
begin

text \<open>
  The beginning and the end of a vector on the abstract view: \<open>vctr_add\<close> enters an empty list,
  \<open>vctr_del\<close> gives back every chunk and its memory.
\<close>

subsection \<open>Adding\<close>

text \<open>The arguments \<open>vctr_add\<close> accepts, and the record it enters for them.\<close>

definition add_accepts :: "qtype \<Rightarrow> nat \<Rightarrow> nat \<Rightarrow> bool \<Rightarrow> int \<Rightarrow> bool \<Rightarrow> int \<Rightarrow> bool \<Rightarrow> int \<Rightarrow> bool" where
  "add_accepts q w m is_memo memo_len is_killable num_kill is_early num_free \<longleftrightarrow>
     q \<noteq> Q0 \<and> q \<noteq> QF \<and> (if is_memo then 0 < memo_len else memo_len = 0) \<and>
     0 \<le> num_kill \<and> num_kill \<le> 16 \<and> (is_killable \<or> num_kill = 0) \<and>
     0 \<le> num_free \<and> num_free \<le> 16 \<and> (is_early \<or> num_free = 0) \<and> \<not> (is_memo \<and> is_early) \<and>
     64 dvd m \<and>
     (let w' = if w = 0 then get_width_c_qtype q else w in if q = SC then 2 \<le> w' else q = B1 \<or> 0 < w')"

definition added_vctr :: "qtype \<Rightarrow> nat \<Rightarrow> nat \<Rightarrow> bool \<Rightarrow> int \<Rightarrow> bool \<Rightarrow> int \<Rightarrow> bool \<Rightarrow> int \<Rightarrow> vctr" where
  "added_vctr q w m is_memo memo_len is_killable num_kill is_early num_free =
     zero_vctr\<lparr>v_qtype := q, v_max_num_in_chnk := (if m = 0 then 64 else m), v_is_memo := is_memo,
       v_memo_len := nat memo_len, v_is_killable := is_killable, v_num_kill_ignore := nat num_kill,
       v_is_early_freeable := is_early, v_num_free_ignore := nat num_free,
       v_width := (if w = 0 then get_width_c_qtype q else w)\<rparr>"

lemma seq_vctr_new_uqid [run]:
  "seq vctr_new_uqid f s = f (u32 (q_vctr_uqid s + 1)) (s\<lparr>q_vctr_uqid := u32 (q_vctr_uqid s + 1)\<rparr>)"
  by (simp add: seq_def vctr_new_uqid_def)

lemma seq_vctr_put [run]:
  "seq (vctr_put t u v) f s = f () (s\<lparr>q_vctrs := (q_vctrs s)(t := AList.update u v (q_vctrs s t))\<rparr>)"
  by (simp add: vctr_put_def)

lemma dvd_div_mult_iff: "(n div 64 * 64 \<noteq> n) = (\<not> 64 dvd (n :: nat))"
  by (metis dvd_div_mult_self dvd_triv_right)

lemma bye_if_choice: "(if c then bye_if a st else bye_if b st) = bye_if (if c then a else b) st"
  by simp

lemma bye_if_skip: "(if c then ret () else bye_if b st) = bye_if (\<not> c \<and> b) st"
  by (simp add: bye_if_def)

lemma if_chain: "(if a then x else if b then x else y) = (if a \<or> b then x else y)"
  by simp

text \<open>Both outcomes; a refused call has used up a number unless the type was refused.\<close>

lemma vctr_add_run:
  "vctr_add q w m is_memo memo_len is_killable num_kill is_early num_free s =
    (if q = Q0 \<or> q = QF then (Inl (Status (- 1)), s)
     else let s1 = s\<lparr>q_vctr_uqid := u32 (q_vctr_uqid s + 1)\<rparr> in
       if add_accepts q w m is_memo memo_len is_killable num_kill is_early num_free
       then (Inr (q_vctr_uqid s1), s1\<lparr>q_vctrs := (q_vctrs s)(0 := AList.update (q_vctr_uqid s1)
         (added_vctr q w m is_memo memo_len is_killable num_kill is_early num_free) (q_vctrs s 0))\<rparr>)
       else (Inl (Status (- 1)), s1))"
proof (cases "q = Q0 \<or> q = QF")
  case True
  then show ?thesis by (simp add: vctr_add_def)
next
  case False
  define m' where "m' = (if m = 0 then 64 else m)"
  define w' where "w' = (if w = 0 then get_width_c_qtype q else w)"
  have m': "64 dvd m \<longleftrightarrow> 64 dvd m'" by (simp add: m'_def)
  have acc: "(\<not> add_accepts q w m is_memo memo_len is_killable num_kill is_early num_free) =
    ((if is_memo then memo_len \<le> 0 else memo_len \<noteq> 0) \<or> num_kill < 0 \<or> 16 < num_kill \<or>
     (\<not> is_killable \<and> num_kill \<noteq> 0) \<or> num_free < 0 \<or> 16 < num_free \<or>
     (\<not> is_early \<and> num_free \<noteq> 0) \<or> (is_memo \<and> is_early) \<or> m' div 64 * 64 \<noteq> m' \<or>
     (if q = SC then w' < 2 else q \<noteq> B1 \<and> w' = 0))" (is "_ = ?bad")
    using False unfolding add_accepts_def Let_def w'_def [symmetric] m' dvd_div_mult_iff
    by (cases is_memo; cases "q = SC"; auto simp: not_le not_less)
  have "vctr_add q w m is_memo memo_len is_killable num_kill is_early num_free s =
      (let s1 = s\<lparr>q_vctr_uqid := u32 (q_vctr_uqid s + 1)\<rparr> in if ?bad then (Inl (Status (- 1)), s1)
       else (Inr (q_vctr_uqid s1), s1\<lparr>q_vctrs := (q_vctrs s)(0 := AList.update (q_vctr_uqid s1)
         (added_vctr q w m is_memo memo_len is_killable num_kill is_early num_free) (q_vctrs s 0))\<rparr>))"
    unfolding vctr_add_def added_vctr_def Q_VCTR_MAX_NUM_IN_CHNK_def m'_def [symmetric] w'_def [symmetric] Let_def
    using False
    by (simp only: steps.simps seq_assoc bye_if_choice bye_if_skip seq_bye_if seq_vctr_new_uqid seq_ret if_chain
        seq_vctr_put simp_thms if_False disj_assoc) (simp add: ret_def del: de_Morgan_disj split del: if_split cong: if_cong)
  then show ?thesis using False acc by (simp add: Let_def)
qed

text \<open>What an accepted call enters, whatever the width and the size of the chunks.\<close>

lemma vctr_add_enters:
  assumes ok: "rt_ok s" and acc: "add_accepts q w m is_memo memo_len is_killable num_kill is_early num_free"
    and id: "q_vctr_uqid s < 2 ^ 32 - 1"
    and v: "v = added_vctr q w m is_memo memo_len is_killable num_kill is_early num_free"
  obtains s' where
    "vctr_add q w m is_memo memo_len is_killable num_kill is_early num_free s = (Inr (Suc (q_vctr_uqid s)), s')"
    "rt_ok s'" "map_of (q_vctrs s' 0) (Suc (q_vctr_uqid s)) = Some v" "q_chnks s' = q_chnks s" "q_mem_used s' = q_mem_used s"
    "others_same (Suc (q_vctr_uqid s)) s s'"
proof -
  let ?u = "Suc (q_vctr_uqid s)"
  have u: "u32 ?u = ?u" using id(1) by simp
  let ?s' = "s\<lparr>q_vctr_uqid := ?u, q_vctrs := (q_vctrs s)(0 := AList.update ?u v (q_vctrs s 0))\<rparr>"
  have "q \<noteq> Q0 \<and> q \<noteq> QF" using acc by (simp add: add_accepts_def)
  then have run: "vctr_add q w m is_memo memo_len is_killable num_kill is_early num_free s = (Inr ?u, ?s')"
    using acc u by (simp add: vctr_add_run v Let_def)
  have own: "owns ?s' = owns s" by (intro ext) (simp add: owns_def)
  have "rt_ok ?s'" using ok unfolding rt_ok_def own by simp
  moreover have "others_same ?u s ?s'" by (auto simp: others_same_def not_mine_def own)
  ultimately show ?thesis using that [of ?s'] run by simp
qed

text \<open>The new vector is an empty list, if its elements have a width and its chunks a size the
  accounting accepts (a bit vector has width 0: it can be filled by chunks only).\<close>

lemma added_rep:
  assumes "add_accepts q w m is_memo memo_len is_killable num_kill is_early num_free"
    "v = added_vctr q w m is_memo memo_len is_killable num_kill is_early num_free"
    "0 < v_width v" "v_width v * v_max_num_in_chnk v \<le> 1073741824" "memo_len < 2 ^ 31"
    "u \<noteq> 0" "map_of (q_vctrs s' 0) u = Some v" "\<And>k. map_of (q_chnks s' 0) (ckey u k) = None"
  shows "vec_rep s' u v []"
proof -
  have "nat memo_len < 4294967296" using assms(5) by (cases "0 \<le> memo_len") (simp_all add: nat_less_iff)
  then have "wf_vctr v 0"
    using assms(1-4) by (simp add: wf_vctr_def added_vctr_def zero_vctr_def add_accepts_def)
  then show ?thesis using assms(2,6-8) by (simp add: vec_rep_def added_vctr_def zero_vctr_def)
qed

lemma vctr_add_fresh:
  assumes ok: "rt_ok s" and acc: "add_accepts q w m is_memo memo_len is_killable num_kill is_early num_free"
    and id: "q_vctr_uqid s < 2 ^ 32 - 1" "map_of (q_vctrs s 0) (Suc (q_vctr_uqid s)) = None"
      "\<And>k. map_of (q_chnks s 0) (ckey (Suc (q_vctr_uqid s)) k) = None"
    and v: "v = added_vctr q w m is_memo memo_len is_killable num_kill is_early num_free"
    and sz: "0 < v_width v" "v_width v * v_max_num_in_chnk v \<le> 1073741824" "memo_len < 2 ^ 31"
  obtains s' where
    "vctr_add q w m is_memo memo_len is_killable num_kill is_early num_free s = (Inr (Suc (q_vctr_uqid s)), s')"
    "rt_ok s'" "vec_rep s' (Suc (q_vctr_uqid s)) v []" "others_same (Suc (q_vctr_uqid s)) s s'"
proof -
  obtain s' where s': "vctr_add q w m is_memo memo_len is_killable num_kill is_early num_free s = (Inr (Suc (q_vctr_uqid s)), s')"
    "rt_ok s'" "map_of (q_vctrs s' 0) (Suc (q_vctr_uqid s)) = Some v" "q_chnks s' = q_chnks s" "others_same (Suc (q_vctr_uqid s)) s s'"
    by (rule vctr_add_enters [OF ok acc id(1) v]) (rule that)
  have "vec_rep s' (Suc (q_vctr_uqid s)) v []" by (rule added_rep [OF acc v sz]) (use s'(3,4) id(3) in simp_all)
  then show ?thesis using s' that by blast
qed

subsection \<open>Deleting\<close>

text \<open>A map holds a key once; it has at most \<open>2 ^ 32 - 1\<close> items.\<close>

definition chnks_ok :: "qst \<Rightarrow> bool" where
  "chnks_ok s = (distinct (map fst (q_chnks s 0)) \<and> length (q_chnks s 0) < 2 ^ 32)"

lemma length_delete_distinct:
  assumes "distinct (map fst al)" "map_of al k \<noteq> None"
  shows "length (AList.delete k al) = length al - 1"
  using assms
proof (induction al)
  case (Cons p al)
  show ?case
  proof (cases "fst p = k")
    case True
    then have "map_of al k = None" using Cons.prems(1) by (auto simp: map_of_eq_None_iff)
    then have "AList.delete k al = al" by (intro delete_id) (auto simp: map_of_eq_None_iff)
    then show ?thesis using True by (cases p) simp
  next
    case False
    then have "map_of al k \<noteq> None" using Cons.prems(2) by (cases p) auto
    moreover from this have "al \<noteq> []" by auto
    ultimately show ?thesis using Cons False by (cases p) simp
  qed
qed simp

lemma del_one_chnk_run:
  assumes kept: "kept_from s u v xs j K" and v: "map_of (q_vctrs s 0) u = Some v"
    and wf: "wf_vctr v n" and jK: "j \<le> K" and d: "chnks_ok s"
  obtains s' where "del_one_chnk 0 u v j s = (Inr (), s')" "kept_from s' u v xs (Suc j) K"
    "others_same u s s'" "q_vctrs s' = q_vctrs s" "chnks_ok s'" "freed u (v_width v * v_max_num_in_chnk v) j (Suc j) s s'"
proof -
  obtain s' where s': "chnk_del 0 u j (v_is_persist v) s = (Inr (), s')" "kept_from s' u v xs (Suc j) K"
    "others_same u s s'" "q_vctrs s' = q_vctrs s"
    "q_chnks s' = (q_chnks s)(0 := AList.delete (ckey u j) (q_chnks s 0))" "freed u (v_width v * v_max_num_in_chnk v) j (Suc j) s s'"
    by (rule del_oldest [OF kept v wf jK])
  have "chnk_rep s u v xs j" using kept jK by (simp add: kept_from_def)
  then have some: "map_of (q_chnks s 0) (ckey u j) \<noteq> None" by (auto simp: chnk_rep_def)
  then have pos: "0 < length (q_chnks s 0)" by auto
  have len: "length (q_chnks s' 0) = length (q_chnks s 0) - 1"
    using s'(5) length_delete_distinct [OF _ some] d by (simp add: chnks_ok_def)
  have "chnks_ok s'" using d len s'(5) by (auto simp: chnks_ok_def distinct_delete)
  moreover have "del_one_chnk 0 u v j s = (Inr (), s')"
    using some pos len
    by (simp add: del_one_chnk_def chnk_is_def chnk_cnt_def run seq_assoc Q_MAX_NUM_TABLESPACES_def
        seq_def [of "chnk_cnt 0"] seq_Inr [of "chnk_del 0 u j (v_is_persist v)" s, OF s'(1)] u32_sub_def)
      (use pos in \<open>simp add: bye_if_def ret_def Suc_le_eq\<close>)
  ultimately show ?thesis using that s'(2-4,6) by blast
qed

lemma del_chnks_loop:
  assumes "kept_from s u v xs j K" "map_of (q_vctrs s 0) u = Some v" "wf_vctr v n" "j + d = Suc K" "chnks_ok s"
  shows "\<exists>s'. for_each [j..<Suc K] (del_one_chnk 0 u v) s = (Inr (), s') \<and>
    kept_from s' u v xs (Suc K) K \<and> others_same u s s' \<and> q_vctrs s' = q_vctrs s \<and> chnks_ok s' \<and>
    freed u (v_width v * v_max_num_in_chnk v) j (Suc K) s s'"
  using assms
proof (induction d arbitrary: s j)
  case 0
  then show ?case by (simp add: ret_def freed_refl)
next
  case (Suc d)
  have jK: "j \<le> K" using Suc.prems(4) by simp
  obtain s1 where s1: "del_one_chnk 0 u v j s = (Inr (), s1)" "kept_from s1 u v xs (Suc j) K"
    "others_same u s s1" "q_vctrs s1 = q_vctrs s" "chnks_ok s1" "freed u (v_width v * v_max_num_in_chnk v) j (Suc j) s s1"
    by (rule del_one_chnk_run [OF Suc.prems(1-3) jK Suc.prems(5)])
  obtain s2 where s2: "for_each [Suc j..<Suc K] (del_one_chnk 0 u v) s1 = (Inr (), s2)"
    "kept_from s2 u v xs (Suc K) K" "others_same u s1 s2" "q_vctrs s2 = q_vctrs s1" "chnks_ok s2"
    "freed u (v_width v * v_max_num_in_chnk v) (Suc j) (Suc K) s1 s2"
    using Suc.IH [OF s1(2) _ Suc.prems(3) _ s1(5)] s1(4) Suc.prems by auto
  have "for_each [j..<Suc K] (del_one_chnk 0 u v) s = (Inr (), s2)"
    using s2(1) jK by (simp add: upt_conv_Cons seq_Inr [of "del_one_chnk 0 u v j" s, OF s1(1)] del: upt_Suc)
  then show ?case using s2 s1 others_same_trans freed_step [OF s1(6) s2(6)] jK by auto
qed

lemma vctr_remove_run:
  assumes "map_of (q_vctrs s 0) u \<noteq> None"
  shows "must (vctr_remove 0 u) s = (Inr (), s\<lparr>q_vctrs := (q_vctrs s)(0 := AList.delete u (q_vctrs s 0))\<rparr>)"
  using assms by (simp add: must_def seq_def vctr_remove_def bye_if_def ret_def)

lemma vctr_del_run:
  assumes ok: "rt_ok s" and rep: "vec_rep s u v xs" and links: "\<not> v_has_nn v" "\<not> v_has_parent v"
    and d: "chnks_ok s"
  obtains s' where "vctr_del 0 u s = (Inr (Some True), s')" "rt_ok s'" "chnks_ok s'" "others_same u s s'"
    "map_of (q_vctrs s' 0) u = None" "\<forall>k. map_of (q_chnks s' 0) (ckey u k) = None"
    "freed u (v_width v * v_max_num_in_chnk v) (v_min_chnk_idx v) (if xs = [] then v_min_chnk_idx v else Suc (v_max_chnk_idx v)) s s'"
    "\<forall>k b. owns s 0 (ckey u k) b \<longrightarrow> xs \<noteq> [] \<and> v_min_chnk_idx v \<le> k \<and> k \<le> v_max_chnk_idx v"
proof -
  have v: "u \<noteq> 0" "map_of (q_vctrs s 0) u = Some v" and wf: "wf_vctr v (length xs)"
    using rep_vctr [OF rep] by auto
  let ?body = "if v_num_elements v = 0 then must (vctr_remove 0 u)
     else steps [for_upto (v_min_chnk_idx v) (v_max_chnk_idx v) (del_one_chnk 0 u v), must (vctr_remove 0 u)]"
  let ?drop = "\<lambda>s. s\<lparr>q_vctrs := (q_vctrs s)(0 := AList.delete u (q_vctrs s 0))\<rparr>"
  obtain s1 where s1: "?body s = (Inr (), ?drop s1)" "rt_ok s1" "chnks_ok s1" "others_same u s s1"
    "\<And>k. map_of (q_chnks s1 0) (ckey u k) = None"
    "freed u (v_width v * v_max_num_in_chnk v) (v_min_chnk_idx v) (if xs = [] then v_min_chnk_idx v else Suc (v_max_chnk_idx v)) s s1"
    "\<forall>k b. owns s 0 (ckey u k) b \<longrightarrow> xs \<noteq> [] \<and> v_min_chnk_idx v \<le> k \<and> k \<le> v_max_chnk_idx v"
  proof (cases "xs = []")
    case True
    then have "v_num_elements v = 0" "\<And>k. map_of (q_chnks s 0) (ckey u k) = None"
      using rep by (auto simp: vec_rep_def wf_vctr_def)
    then show ?thesis using that [of s] vctr_remove_run v ok d freed_refl True by (simp add: owns_def)
  next
    case False
    let ?K = "v_max_chnk_idx v"
    have core: "vec_core s u v xs ?K" and K: "?K = (length xs - 1) div v_max_num_in_chnk v"
      using rep False by (auto simp: vec_rep_def vec_core_def)
    then have kept: "kept_from s u v xs (v_min_chnk_idx v) ?K" using ok by (auto simp: kept_from_def vec_core_def)
    have minK: "v_min_chnk_idx v \<le> ?K" "v_num_elements v = length xs" "length xs < 2 ^ 32 - 1"
      using wf by (auto simp: wf_vctr_def)
    have "?K \<le> length xs - 1" unfolding K by (rule div_le_dividend)
    then have K32: "?K < UINT_MAX" using minK(3) by (simp add: UINT_MAX_def)
    obtain s1 where s1: "for_each [v_min_chnk_idx v..<Suc ?K] (del_one_chnk 0 u v) s = (Inr (), s1)"
      "kept_from s1 u v xs (Suc ?K) ?K" "others_same u s s1" "q_vctrs s1 = q_vctrs s" "chnks_ok s1"
      "freed u (v_width v * v_max_num_in_chnk v) (v_min_chnk_idx v) (Suc ?K) s s1"
      using del_chnks_loop [OF kept v(2) wf _ d, of "Suc ?K - v_min_chnk_idx v"] minK(1) by auto
    have "?body s = (Inr (), ?drop s1)"
      using False minK K32 v(2) s1(4) vctr_remove_run [of s1 u]
      by (simp add: for_upto_def seq_Inr [of "for_each [v_min_chnk_idx v..<Suc ?K] (del_one_chnk 0 u v)" s, OF s1(1)] del: upt_Suc)
    moreover have "map_of (q_chnks s1 0) (ckey u k) = None" for k
      using s1(2) by (auto simp: kept_from_def)
    moreover have "rt_ok s1" using s1(2) by (simp add: kept_from_def)
    moreover have "\<forall>k b. owns s 0 (ckey u k) b \<longrightarrow> xs \<noteq> [] \<and> v_min_chnk_idx v \<le> k \<and> k \<le> ?K"
      using kept False by (auto simp: kept_from_def owns_def)
    moreover have "freed u (v_width v * v_max_num_in_chnk v) (v_min_chnk_idx v) (if xs = [] then v_min_chnk_idx v else Suc ?K) s s1"
      using s1(6) False by simp
    ultimately show ?thesis using s1(3,5) by (intro that [of s1])
  qed
  have b: "seq ?body (\<lambda>_. ret (Some True)) s = (Inr (Some True), ?drop s1)"
    by (simp only: seq_Inr [of ?body s, OF s1(1)] ret_def)
  have "\<not> v_is_lma v" using wf by (simp add: wf_vctr_def)
  then have "vctr_del 0 u s = (Inr (Some True), ?drop s1)"
    unfolding vctr_del_def
    using v links b by (simp add: run Q_MAX_NUM_TABLESPACES_def break_nn_def del_lma_def)
  moreover have own: "owns (?drop s1) = owns s1" by (intro ext) (simp add: owns_def)
  have "rt_ok (?drop s1)" using s1(2) unfolding rt_ok_def own by simp
  moreover have "others_same u s (?drop s1)"
    by (rule others_same_trans [OF s1(4)]) (auto simp: others_same_def not_mine_def own)
  moreover have "freed u (v_width v * v_max_num_in_chnk v) (v_min_chnk_idx v) (if xs = [] then v_min_chnk_idx v else Suc (v_max_chnk_idx v)) s (?drop s1)"
    using s1(6) by (simp add: freed_def own)
  ultimately show ?thesis using that [of "?drop s1"] s1(3,5,7) by (simp add: chnks_ok_def)
qed

end
