(* ===== verification/Vec_Store.thy ===== *)
theory Vec_Store
  imports Vec_Life
begin

text \<open>
  The contract of a vector towards the operators that fill it element by element, seal it and
  then read it, as a locale; the vector layer provides it.
\<close>

subsection \<open>The contract\<close>

text \<open>\<open>rep s xs\<close>: in state \<open>s\<close> the store holds \<open>xs\<close> and can be appended to, up to \<open>room\<close> elements.\<close>

locale append_store =
  fixes rep :: "'s \<Rightarrow> 'a list \<Rightarrow> bool"
    and put :: "'a \<Rightarrow> ('s, unit) prog"
    and get :: "nat \<Rightarrow> ('s, 'b) prog"
    and out :: "'a \<Rightarrow> 'b"
    and fits :: "'a \<Rightarrow> bool"
    and room :: nat
  assumes put_appends: "rep s xs \<Longrightarrow> fits x \<Longrightarrow> length xs < room \<Longrightarrow> \<exists>s'. put x s = (Inr (), s') \<and> rep s' (xs @ [x])"
    and get_nth: "rep s xs \<Longrightarrow> i < length xs \<Longrightarrow> get i s = (Inr (out (xs ! i)), s)"
begin

lemma put_all:
  assumes "rep s xs" "\<forall>y \<in> set ys. fits y" "length xs + length ys \<le> room"
  shows "\<exists>s'. for_each ys put s = (Inr (), s') \<and> rep s' (xs @ ys)"
  using assms
proof (induction ys arbitrary: s xs)
  case Nil
  then show ?case by (simp add: ret_def)
next
  case (Cons y ys)
  obtain s1 where s1: "put y s = (Inr (), s1)" "rep s1 (xs @ [y])" using put_appends Cons.prems by fastforce
  obtain s2 where "for_each ys put s1 = (Inr (), s2)" "rep s2 ((xs @ [y]) @ ys)"
    using Cons.IH [OF s1(2)] Cons.prems by fastforce
  then show ?case using s1 by (simp add: seq_Inr)
qed

lemma read_back:
  assumes "rep s []" "\<forall>y \<in> set ys. fits y" "length ys \<le> room"
  obtains s' where "for_each ys put s = (Inr (), s')" "\<And>i. i < length ys \<Longrightarrow> get i s' = (Inr (out (ys ! i)), s')"
  using put_all [OF assms(1,2)] assms(3) get_nth by auto

end

text \<open>A store that can be sealed: afterwards it still answers and takes no more.\<close>

locale sealable_store = append_store +
  fixes seal :: "('s, unit) prog"
    and sealed :: "'s \<Rightarrow> 'a list \<Rightarrow> bool"
  assumes seal: "rep s xs \<Longrightarrow> xs \<noteq> [] \<Longrightarrow> \<exists>s'. seal s = (Inr (), s') \<and> sealed s' xs"
    and sealed_get: "sealed s xs \<Longrightarrow> i < length xs \<Longrightarrow> get i s = (Inr (out (xs ! i)), s)"
    and sealed_put: "sealed s xs \<Longrightarrow> put x s = (Inl (Status (- 1)), s)"
begin

lemma fill_and_seal:
  assumes "rep s []" "\<forall>y \<in> set ys. fits y" "length ys \<le> room" "ys \<noteq> []"
  obtains s1 s2 where "for_each ys put s = (Inr (), s1)" "seal s1 = (Inr (), s2)" "sealed s2 ys"
    "\<And>i. i < length ys \<Longrightarrow> get i s2 = (Inr (out (ys ! i)), s2)" "\<And>x. put x s2 = (Inl (Status (- 1)), s2)"
proof -
  obtain s1 where s1: "for_each ys put s = (Inr (), s1)" "rep s1 ys" using put_all [OF assms(1,2)] assms(3) by auto
  obtain s2 where s2: "seal s1 = (Inr (), s2)" "sealed s2 ys" using seal [OF s1(2) assms(4)] by auto
  show ?thesis by (rule that [OF s1(1) s2 sealed_get [OF s2(2)] sealed_put [OF s2(2)]])
qed

end

subsection \<open>Vectors keep the contract\<close>

definition bytes_sclr :: "qtype \<Rightarrow> byte list \<Rightarrow> sclr" where
  "bytes_sclr q y = \<lparr>sc_qtype = q, sc_bytes = y, sc_str = []\<rparr>"

text \<open>Vector \<open>u\<close> of tablespace 0, of a type \<open>q\<close> whose elements are \<open>w\<close> bytes, with its whole
  history, at its end (\<open>e\<close>) or not.\<close>

definition vstore :: "bool \<Rightarrow> nat \<Rightarrow> nat \<Rightarrow> qtype \<Rightarrow> qst \<Rightarrow> byte list list \<Rightarrow> bool" where
  "vstore e u w q s ys = (rt_ok s \<and> (\<forall>b. q_can_alloc s b) \<and> q \<notin> {SC, B1} \<and>
     (\<exists>v. vec_rep s u v ys \<and> v_is_eov v = e \<and> v_memo_len v = 0 \<and> v_min_chnk_idx v = 0 \<and>
        v_width v = w \<and> v_qtype v = q))"

lemma vstore_put:
  assumes st: "vstore False u w q s ys" and y: "length y = w" "length ys < 2 ^ 32 - 2"
  shows "\<exists>s'. vctr_put1 0 u (Some (bytes_sclr q y)) s = (Inr (), s') \<and> vstore False u w q s' (ys @ [y])"
proof -
  obtain v where v: "vec_rep s u v ys" "\<not> v_is_eov v" "v_memo_len v = 0" "v_min_chnk_idx v = 0"
    "v_width v = w" "v_qtype v = q" and env: "rt_ok s" "\<And>b. q_can_alloc s b" "q \<notin> {SC, B1}"
    using st by (auto simp: vstore_def)
  have fit: "sclr_fits v (bytes_sclr q y)" "put1_bytes v (bytes_sclr q y) = y"
    using v(5,6) env(3) y(1) by (auto simp: sclr_fits_def put1_bytes_def bytes_sclr_def)
  obtain s' where s': "vctr_put1 0 u (Some (bytes_sclr q y)) s = (Inr (), s')" "rt_ok s'"
    "vec_rep s' u (v_appended v (Suc (length ys))) (ys @ [y])" "others_same u s s'"
    by (rule put1_run [OF env(1) v(1) env(2) v(2) y(2) fit(1), unfolded fit(2)])
  have "vstore False u w q s' (ys @ [y])"
    unfolding vstore_def using s'(2,3) v env os_env [OF s'(4)]
    by (auto intro!: exI [of _ "v_appended v (Suc (length ys))"] simp: v_appended_def v_aged_def memo_min_def v_grown_def)
  then show ?thesis using s'(1) by blast
qed

lemma vstore_get:
  assumes "vstore e u w q s ys" "i < length ys"
  shows "vctr_get1 0 u i s = (Inr (bytes_sclr q (ys ! i)), s)"
proof -
  obtain v where v: "vec_rep s u v ys" "v_min_chnk_idx v = 0" "v_qtype v = q" and ok: "rt_ok s" "q \<notin> {SC, B1}"
    using assms(1) by (auto simp: vstore_def)
  then show ?thesis
    using get1_run [OF ok(1) v(1) assms(2)] by (auto simp: elem_of_def bytes_sclr_def)
qed

lemma vstore_seal:
  assumes "vstore False u w q s ys" "ys \<noteq> []"
  shows "\<exists>s'. vctr_eov 0 u s = (Inr (), s') \<and> vstore True u w q s' ys"
proof -
  obtain v where v: "vec_rep s u v ys" "\<not> v_is_eov v" "v_memo_len v = 0" "v_min_chnk_idx v = 0"
    "v_width v = w" "v_qtype v = q" and env: "rt_ok s" "\<And>b. q_can_alloc s b" "q \<notin> {SC, B1}"
    using assms(1) by (auto simp: vstore_def)
  obtain s' where s': "vctr_eov 0 u s = (Inr (), s')" "rt_ok s'"
    "vec_rep s' u ((v_aged v)\<lparr>v_is_eov := True\<rparr>) ys" "others_same u s s'"
    by (rule eov_run [OF env(1) v(1) assms(2) v(2)])
  have "vstore True u w q s' ys"
    unfolding vstore_def using s'(2,3) v env os_env [OF s'(4)]
    by (auto intro!: exI [of _ "(v_aged v)\<lparr>v_is_eov := True\<rparr>"] simp: v_aged_def memo_min_def)
  then show ?thesis using s'(1) by blast
qed

lemma vstore_sealed_put:
  assumes "vstore True u w q s ys"
  shows "vctr_put1 0 u (Some x) s = (Inl (Status (- 1)), s)"
proof -
  obtain v where "vec_rep s u v ys" "v_is_eov v" using assms by (auto simp: vstore_def)
  then show ?thesis using eov_closed(1) [of s u v x] rep_vctr [of s u v ys] by simp
qed

interpretation vst: sealable_store "vstore False u w q" "\<lambda>y. vctr_put1 0 u (Some (bytes_sclr q y))"
    "vctr_get1 0 u" "bytes_sclr q" "\<lambda>y. length y = w" "2 ^ 32 - 2" "vctr_eov 0 u" "vstore True u w q" for u w q
  by unfold_locales (rule vstore_put vstore_get vstore_seal vstore_sealed_put; assumption)+

end
