(* ===== verification/Vec_Demo.thy ===== *)
theory Vec_Demo
  imports Vec_Store
begin

text \<open>
  Concrete states of the runtime, in which the witnesses of the properties run.
\<close>

subsection \<open>Concrete states\<close>

text \<open>A vector of 4-byte integers, 64 to a chunk, that keeps its last chunk only when
  \<open>memo_len\<close> is 1; the runtime that holds it as vector 1, with a client's block 0 of bytes.\<close>

definition demo_vctr :: "nat \<Rightarrow> vctr" where
  "demo_vctr memo_len = zero_vctr\<lparr>v_qtype := I4, v_width := 4, v_max_num_in_chnk := 64,
     v_is_memo := (memo_len \<noteq> 0), v_memo_len := memo_len\<rparr>"

definition demo_st :: "vctr \<Rightarrow> byte list \<Rightarrow> qst" where
  "demo_st v client = \<lparr> q_vctrs = (\<lambda>t. if t = 0 then [(1, v)] else []), q_chnks = (\<lambda>_. []), q_vctr_uqid = 1,
     q_mem_lock = 0, q_mem_used = 0, q_mem_allowed = 2 ^ 40, q_dsk_used = 0, q_dsk_allowed = 2 ^ 40,
     q_data_dir_root = (\<lambda>_. ''/q''), q_heap = (\<lambda>_. None)(0 := Some (Mem client)), q_next = 1,
     q_files = (\<lambda>_. None), q_can_alloc = (\<lambda>_. True), q_junk = (\<lambda>_ _. 7), q_can_open = (\<lambda>_. True), q_tsc = 0 \<rparr>"

definition demo_sclr :: "byte list \<Rightarrow> sclr" where
  "demo_sclr bs = \<lparr> sc_qtype = I4, sc_bytes = bs, sc_str = [] \<rparr>"

definition demo_cmem :: cmem where
  "demo_cmem = \<lparr> cm_data = Some (0, 0), cm_size = 256, cm_qtype = I4, cm_is_foreign = False, cm_is_stealable = False \<rparr>"

lemma demo_ok [simp]: "rt_ok (demo_st v cl)"
  by (simp add: rt_ok_def demo_st_def owns_def)

lemma demo_can [simp]: "q_can_alloc (demo_st v cl) b"
  by (simp add: demo_st_def)

lemma demo_rep [simp]: "k < 2 ^ 32 \<Longrightarrow> vec_rep (demo_st (demo_vctr k) cl) 1 (demo_vctr k) []"
  by (simp add: vec_rep_def demo_st_def demo_vctr_def zero_vctr_def wf_vctr_def)

lemmas demo_rep_Suc [simp] = demo_rep [unfolded One_nat_def]

lemma demo_vctr_sel [simp]:
  "v_qtype (demo_vctr k) = I4" "v_width (demo_vctr k) = 4" "v_max_num_in_chnk (demo_vctr k) = 64"
  "\<not> v_is_eov (demo_vctr k)" "v_memo_len (demo_vctr k) = k" "v_min_chnk_idx (demo_vctr k) = 0"
  by (simp_all add: demo_vctr_def zero_vctr_def)

text \<open>The same vector with two elements, in a chunk whose memory is block 0, and freeable early or not.\<close>

definition full_vctr :: "bool \<Rightarrow> vctr" where
  "full_vctr early = (demo_vctr 0)\<lparr>v_num_elements := 2, v_is_early_freeable := early\<rparr>"

definition full_st :: "bool \<Rightarrow> qst" where
  "full_st early = (demo_st (full_vctr early) ([1, 2, 3, 4, 5, 6, 7, 8] @ replicate 248 0))\<lparr>q_chnks := (\<lambda>t. if t = 0
     then [(ckey 1 0, zero_chnk\<lparr>c_num_elements := 2, c_qtype := I4, c_size := 256, c_l1_mem := Some (0, 0)\<rparr>)]
     else [])\<rparr>"

lemma full_chnk: "map_of (q_chnks (full_st e) t) k = (if t = 0 \<and> k = ckey 1 0
    then Some (zero_chnk\<lparr>c_num_elements := 2, c_qtype := I4, c_size := 256, c_l1_mem := Some (0, 0)\<rparr>) else None)"
  by (simp add: full_st_def)

lemma full_ok [simp]: "rt_ok (full_st e)"
proof -
  have "q_mem_lock (full_st e) = 0" "q_heap (full_st e) = [0 \<mapsto> Mem ([1, 2, 3, 4, 5, 6, 7, 8] @ replicate 248 0)]"
    "q_next (full_st e) = 1" by (simp_all add: full_st_def demo_st_def)
  then show ?thesis by (auto simp: rt_ok_def owns_def full_chnk)
qed

lemma full_rep [simp]: "vec_rep (full_st e) 1 (full_vctr e) [[1, 2, 3, 4], [5, 6, 7, 8]]"
proof -
  have v: "map_of (q_vctrs (full_st e) 0) 1 = Some (full_vctr e)" "wf_vctr (full_vctr e) 2" "v_max_chnk_idx (full_vctr e) = 0"
    "v_width (full_vctr e) = 4" "v_max_num_in_chnk (full_vctr e) = 64" "v_min_chnk_idx (full_vctr e) = 0" "v_qtype (full_vctr e) = I4"
    by (simp_all add: full_st_def demo_st_def full_vctr_def demo_vctr_def zero_vctr_def wf_vctr_def)
  have "q_heap (full_st e) 0 = Some (Mem ([1, 2, 3, 4, 5, 6, 7, 8] @ replicate 248 0))"
    by (simp add: full_st_def demo_st_def)
  then have "chnk_rep (full_st e) 1 (full_vctr e) [[1, 2, 3, 4], [5, 6, 7, 8]] 0"
    unfolding chnk_rep_def v by (simp add: full_chnk slice_def zero_chnk_def)
  then show ?thesis using v by (simp add: vec_rep_def vec_core_def full_chnk numeral_2_eq_2)
qed

end
