(* ===== verification/Vctr_Thms.thy ===== *)
theory Vctr_Thms
  imports Vec_Demo
begin

text \<open>
  The properties of adding, appending, reading, ending and deleting.
\<close>

subsection \<open>Appending\<close>

text \<open>C5. \<open>vctr_put1\<close> refines an append: on a vector that represents \<open>xs\<close>, is not at its end and
  whose allocations succeed, it returns 0 and leaves the vector representing \<open>xs\<close> with the bytes
  of the scalar at the end, whether it had to create the first chunk, a further chunk, or give up
  the oldest chunks of a limited history; every chunk still owns its memory, and every other
  vector represents what it did.\<close>

theorem put1_appends:
  assumes "rt_ok s" "vec_rep s u v xs" "\<And>b. q_can_alloc s b" "\<not> v_is_eov v"
    "length xs < 2 ^ 32 - 2" "sclr_fits v x"
  shows "\<exists>s'. vctr_put1 0 u (Some x) s = (Inr (), s') \<and> rt_ok s' \<and>
    vec_rep s' u (v_appended v (Suc (length xs))) (xs @ [put1_bytes v x]) \<and>
    (u' \<noteq> u \<and> vec_rep s u' v' ys \<longrightarrow> vec_rep s' u' v' ys)"
proof -
  obtain s' where s': "vctr_put1 0 u (Some x) s = (Inr (), s')" "rt_ok s'"
    "vec_rep s' u (v_appended v (Suc (length xs))) (xs @ [put1_bytes v x])" "others_same u s s'"
    by (rule put1_run [OF assms])
  then show ?thesis using vec_rep_frame [OF s'(4)] by blast
qed

lemma put1_appends_witness:
  "\<exists>s'. vctr_put1 0 1 (Some (demo_sclr [1, 2, 3, 4])) (demo_st (demo_vctr 0) []) = (Inr (), s') \<and>
     vec_rep s' 1 (v_appended (demo_vctr 0) 1) [[1, 2, 3, 4]]"
  using put1_appends [of "demo_st (demo_vctr 0) []" 1 "demo_vctr 0" "[]" "demo_sclr [1, 2, 3, 4]" 1 "demo_vctr 0" "[]"]
  by (simp add: sclr_fits_def put1_bytes_def demo_sclr_def) blast

text \<open>C6. \<open>vctr_putn\<close> refines an append of all its elements, however many chunks they fill: given
  \<open>n\<close> elements of the right width at \<open>X\<close> in memory that is not the vector's own, the recursion
  ends, returns 0 and leaves the vector representing \<open>xs\<close> followed by them.\<close>

theorem putn_appends:
  assumes "rt_ok s" "vec_rep s u v xs" "\<And>b. q_can_alloc s b" "\<not> v_is_eov v"
    "length xs + length ys < 2 ^ 32 - 1" "ys \<noteq> []"
    "\<forall>y \<in> set ys. length y = v_width v" "source s u (v_width v) X ys"
  shows "\<exists>s'. vctr_putn 0 u X (length ys) s = (Inr (), s') \<and> rt_ok s' \<and>
    vec_rep s' u (v_appended v (length xs + length ys)) (xs @ ys) \<and>
    (u' \<noteq> u \<and> vec_rep s u' v' zs \<longrightarrow> vec_rep s' u' v' zs)"
  using putn_run [OF assms] vec_rep_frame by blast

text \<open>150 elements fill two chunks and part of a third.\<close>

lemma putn_appends_witness:
  "\<exists>s'. vctr_putn 0 1 (Some (0, 0)) 150 (demo_st (demo_vctr 0) (concat (replicate 150 [1, 2, 3, 4]))) = (Inr (), s') \<and>
     vec_rep s' 1 (v_appended (demo_vctr 0) 150) (replicate 150 [1, 2, 3, 4])"
proof -
  let ?ys = "replicate 150 [1, 2, 3, 4 :: byte]" let ?s = "demo_st (demo_vctr 0) (concat ?ys)"
  have w: "\<forall>y \<in> set ?ys. length y = v_width (demo_vctr 0)" by simp
  have "length (concat ?ys) = 4 * length ?ys" using length_concat_const [OF w] by simp
  then have src: "source ?s 1 (v_width (demo_vctr 0)) (Some (0, 0)) ?ys"
    by (simp add: source_def demo_st_def not_mine_def owns_def)
  have l: "length ?ys = 150" "length ([] :: byte list list) + length ?ys < 2 ^ 32 - 1" "?ys \<noteq> []"
    "length ([] :: byte list list) + length ?ys = 150" by simp_all
  show ?thesis
    using putn_appends [OF demo_ok demo_rep [of 0] demo_can demo_vctr_sel(4) l(2,3) w src] l(1,4)
    by (simp del: vctr_putn.simps One_nat_def) blast
qed

subsection \<open>Reading\<close>

text \<open>C7. \<open>vctr_get1\<close> on a vector that represents \<open>xs\<close> (of any type but the bit type): an index
  below the length and not in a chunk that was given up yields that element of \<open>xs\<close>; any other
  index yields the status \<open>-1\<close>; and in each case the state of the runtime, the reader count of the
  chunk included, is what it was.\<close>

theorem get1_outcomes:
  assumes "rt_ok s" "vec_rep s u v xs" "v_qtype v \<noteq> B1"
  shows "vctr_get1 0 u i s =
    (if v_min_chnk_idx v * v_max_num_in_chnk v \<le> i \<and> i < length xs
     then Inr (elem_of v (xs ! i)) else Inl (Status (- 1)), s)"
proof -
  have v: "map_of (q_vctrs s 0) u = Some v" "v_num_elements v = length xs"
    using assms(2) by (auto simp: vec_rep_def vec_core_def wf_vctr_def split: if_splits)
  show ?thesis
    using get1_run [OF assms(1,2) _ _ assms(3)] get1_out_of_range [OF v(1)] get1_aged_out [OF assms(2)] v(2)
    by (auto simp: not_le not_less)
qed

lemma get1_outcomes_witness:
  "vctr_get1 0 1 1 (full_st False) = (Inr (elem_of (full_vctr False) [5, 6, 7, 8]), full_st False) \<and>
   vctr_get1 0 1 2 (full_st False) = (Inl (Status (- 1)), full_st False)"
proof -
  have "v_qtype (full_vctr False) \<noteq> B1" "v_min_chnk_idx (full_vctr False) = 0"
    by (simp_all add: full_vctr_def demo_vctr_def zero_vctr_def)
  then show ?thesis using get1_outcomes [OF full_ok full_rep [of False]] by simp
qed

lemma mem_read_length: "mem_read p n s = (Inr bs, s') \<Longrightarrow> length bs = n"
  by (auto simp: mem_read_def split: option.splits prod.splits if_splits)

lemma after_Inr: "after m fin s = (Inr x, s') \<Longrightarrow> \<exists>s1. m s = (Inr x, s1)"
  by (cases "m s") (auto simp: after_def split: sum.splits error.splits prod.splits)

text \<open>The shape of a scalar read from a vector with record \<open>v\<close>.\<close>

definition sclr_typed :: "vctr \<Rightarrow> sclr \<Rightarrow> bool" where
  "sclr_typed v x = (sc_qtype x = (if v_qtype v = B1 then BL else v_qtype v) \<and>
     (if v_qtype v = SC then length (sc_str x) = v_width v
      else length (sc_bytes x) = (if v_qtype v = B1 then 1 else v_width v)))"

lemma read_elem_typed: "read_elem v data j s = (Inr x, s') \<Longrightarrow> sclr_typed v x"
  by (auto simp: read_elem_def sclr_typed_def seq_Inr_iff ret_def dest: mem_read_length split: if_splits)

lemma get1_lma_typed:
  assumes "vctr_get1_lma t u i s = (Inr x, s')" "map_of (q_vctrs s t) u = Some v"
  shows "sclr_typed v x"
  using assms unfolding vctr_get1_lma_def
  by (auto simp: run seq_Inr_iff ret_def sclr_typed_def seq_assoc Let_def dest!: mem_read_length split: if_splits)

text \<open>Reads are typed: in any state whatever (chunks in memory, in files or one linear file),
  a scalar that \<open>vctr_get1\<close> returns has the type of the vector, a bit read as a boolean, and as
  many bytes as the vector is wide, a boolean one.\<close>

theorem get1_typed:
  assumes "vctr_get1 t u i s = (Inr x, s')"
  shows "\<exists>v. map_of (q_vctrs s t) u = Some v \<and> sclr_typed v x"
proof -
  obtain v where v: "map_of (q_vctrs s t) u = Some v"
    using assms by (auto simp: vctr_get1_def run split: if_splits option.splits)
  have "sclr_typed v x"
  proof (cases "v_is_lma v")
    case True
    then show ?thesis using assms v get1_lma_typed [OF _ v]
      by (auto simp: vctr_get1_def run split: if_splits)
  next
    case False
    then obtain data j s1 s2 where "read_elem v data j s1 = (Inr x, s2)"
      using assms v
      by (auto simp: vctr_get1_def run Let_def seq_Inr_iff bye_if_def ret_def stop_def split: if_splits option.splits dest!: after_Inr)
    then show ?thesis by (rule read_elem_typed)
  qed
  then show ?thesis using v by blast
qed

lemma get1_typed_witness: "sclr_typed (full_vctr False) (elem_of (full_vctr False) [5, 6, 7, 8])"
proof -
  have "vctr_get1 0 1 1 (full_st False) = (Inr (elem_of (full_vctr False) ([[1, 2, 3, 4], [5, 6, 7, 8]] ! 1)), (full_st False))"
    by (rule get1_run [OF full_ok full_rep [of False]]) (simp_all add: full_vctr_def demo_vctr_def zero_vctr_def)
  from get1_typed [OF this] show ?thesis by (simp add: full_st_def demo_st_def)
qed

text \<open>C8. What \<open>vctr_put1\<close> stores, \<open>vctr_get1\<close> returns: after a put to a vector of \<open>n\<close> elements, a
  read at index \<open>n\<close> gives the same bytes, and a read at any earlier index that is still kept gives
  what a read before the put gave.\<close>

theorem put1_get1:
  assumes "rt_ok s" "vec_rep s u v xs" "\<And>b. q_can_alloc s b" "\<not> v_is_eov v"
    "length xs < 2 ^ 32 - 2" "sclr_fits v x" "v_qtype v \<noteq> B1" "vctr_put1 0 u (Some x) s = (r, s')"
  shows "vctr_get1 0 u (length xs) s' = (Inr (elem_of v (put1_bytes v x)), s') \<and>
    (i < length xs \<and> memo_min (v_grown v (Suc (length xs))) * v_max_num_in_chnk v \<le> i \<longrightarrow>
      fst (vctr_get1 0 u i s') = fst (vctr_get1 0 u i s))"
proof -
  let ?v = "v_appended v (Suc (length xs))" let ?n = "length xs"
  obtain s1 where "vctr_put1 0 u (Some x) s = (Inr (), s1)" "rt_ok s1"
    "vec_rep s1 u ?v (xs @ [put1_bytes v x])" "others_same u s s1"
    by (rule put1_run [OF assms(1-6)])
  then have ok': "rt_ok s'" and rep': "vec_rep s' u ?v (xs @ [put1_bytes v x])" using assms(8) by auto
  have sel: "v_qtype ?v = v_qtype v" "v_max_num_in_chnk ?v = v_max_num_in_chnk v"
    "v_min_chnk_idx ?v = memo_min (v_grown v (Suc ?n))" "elem_of ?v = elem_of v"
    by (simp_all add: v_appended_def v_aged_def elem_of_def fun_eq_iff)
  have wf: "wf_vctr ?v (Suc ?n)" "v_max_chnk_idx ?v = ?n div v_max_num_in_chnk v"
    using rep' by (auto simp: vec_rep_def vec_core_def sel)
  then have "v_min_chnk_idx ?v * v_max_num_in_chnk v \<le> ?n div v_max_num_in_chnk v * v_max_num_in_chnk v"
    by (auto simp: wf_vctr_def)
  also have "\<dots> \<le> ?n" by (rule div_times_less_eq_dividend)
  finally have last: "v_min_chnk_idx ?v * v_max_num_in_chnk v \<le> ?n" .
  have "v_min_chnk_idx v \<le> memo_min (v_grown v (Suc ?n))" by (simp add: memo_min_def)
  then have older: "v_min_chnk_idx v * v_max_num_in_chnk v \<le> memo_min (v_grown v (Suc ?n)) * v_max_num_in_chnk v"
    by (rule mult_le_mono1)
  have now: "vctr_get1 0 u i s = (if v_min_chnk_idx v * v_max_num_in_chnk v \<le> i \<and> i < length xs
      then Inr (elem_of v (xs ! i)) else Inl (Status (- 1)), s)" for i
    by (rule get1_outcomes [OF assms(1,2,7)])
  have later: "vctr_get1 0 u i s' = (if v_min_chnk_idx ?v * v_max_num_in_chnk v \<le> i \<and> i < Suc ?n
      then Inr (elem_of v ((xs @ [put1_bytes v x]) ! i)) else Inl (Status (- 1)), s')" for i
    using get1_outcomes [OF ok' rep', of i] assms(7) by (simp add: sel)
  have "vctr_get1 0 u ?n s' = (Inr (elem_of v (put1_bytes v x)), s')" by (simp add: later last)
  moreover have "fst (vctr_get1 0 u i s') = fst (vctr_get1 0 u i s)"
    if "i < ?n" "memo_min (v_grown v (Suc ?n)) * v_max_num_in_chnk v \<le> i"
    using that order_trans [OF older that(2)] by (simp add: sel now later nth_append)
  ultimately show ?thesis by blast
qed

lemma put1_get1_witness:
  "let s' = snd (vctr_put1 0 1 (Some (demo_sclr [1, 2, 3, 4])) (demo_st (demo_vctr 0) []))
   in vctr_get1 0 1 0 s' = (Inr (elem_of (demo_vctr 0) [1, 2, 3, 4]), s')"
  using put1_get1 [OF demo_ok demo_rep [of 0] demo_can demo_vctr_sel(4), of "demo_sclr [1, 2, 3, 4]"]
  by (simp add: sclr_fits_def put1_bytes_def demo_sclr_def Let_def prod_eq_iff)

subsection \<open>Whole chunks and the end\<close>

text \<open>C11. \<open>vctr_put_chunk\<close> refines an append of a buffer: with \<open>n\<close> elements at the start of a client's
  buffer of chunk size, none of the vector's chunks half full, it returns 0, leaves the descriptor
  as it was and the vector representing the old elements followed by the new ones; fewer elements
  than fit a chunk put the vector at its end.\<close>

theorem put_chunk_appends:
  assumes "rt_ok s" "vec_rep s u v xs" "\<And>b. q_can_alloc s b" "\<not> v_is_eov v"
    "length xs mod v_max_num_in_chnk v = 0" "\<not> cm_is_stealable cm"
    "cm_size cm = v_width v * v_max_num_in_chnk v" "ys \<noteq> []" "length ys \<le> v_max_num_in_chnk v"
    "length xs + length ys < 2 ^ 32 - 1" "\<forall>y \<in> set ys. length y = v_width v"
    "source s u (v_width v) (cm_data cm) ys"
  shows "\<exists>s'. vctr_put_chunk 0 u cm (length ys) s = (Inr cm, s') \<and> rt_ok s' \<and>
    vec_rep s' u ((v_appended v (length xs + length ys))\<lparr>v_is_eov := length ys < v_max_num_in_chnk v\<rparr>) (xs @ ys) \<and>
    (u' \<noteq> u \<and> vec_rep s u' v' zs \<longrightarrow> vec_rep s' u' v' zs)"
proof -
  obtain s' where "vctr_put_chunk 0 u cm (length ys) s = (Inr cm, s')" "rt_ok s'"
    "vec_rep s' u ((v_appended v (length xs + length ys))\<lparr>v_is_eov := length ys < v_max_num_in_chnk v\<rparr>) (xs @ ys)"
    "others_same u s s'"
    by (rule put_chunk_run [OF assms])
  then show ?thesis using vec_rep_frame by blast
qed

lemma put_chunk_appends_witness:
  "\<exists>s'. vctr_put_chunk 0 1 demo_cmem 2 (demo_st (demo_vctr 1) [1, 2, 3, 4, 5, 6, 7, 8]) = (Inr demo_cmem, s') \<and>
     vec_rep s' 1 ((v_appended (demo_vctr 1) 2)\<lparr>v_is_eov := True\<rparr>) [[1, 2, 3, 4], [5, 6, 7, 8]]"
proof -
  let ?ys = "[[1, 2, 3, 4], [5, 6, 7, 8]] :: byte list list" let ?s = "demo_st (demo_vctr 1) (concat ?ys)"
  have src: "source ?s 1 (v_width (demo_vctr 1)) (cm_data demo_cmem) ?ys"
    by (simp add: source_def demo_st_def not_mine_def owns_def demo_cmem_def)
  have l: "length ([] :: byte list list) mod v_max_num_in_chnk (demo_vctr 1) = 0" "\<not> cm_is_stealable demo_cmem"
    "cm_size demo_cmem = v_width (demo_vctr 1) * v_max_num_in_chnk (demo_vctr 1)" "?ys \<noteq> []"
    "length ?ys \<le> v_max_num_in_chnk (demo_vctr 1)" "length ([] :: byte list list) + length ?ys < 2 ^ 32 - 1"
    "\<forall>y \<in> set ?ys. length y = v_width (demo_vctr 1)"
    by (simp_all add: demo_cmem_def)
  show ?thesis
    using put_chunk_appends [OF demo_ok demo_rep [of 1] demo_can demo_vctr_sel(4) l src]
    by (simp del: One_nat_def) (simp add: numeral_2_eq_2, blast)
qed

text \<open>C34. \<open>vctr_eov\<close> ends a vector whose elements are in chunks: the elements stay, the oldest chunks of a
  limited history are given up a last time, and in the state after it \<open>vctr_put1\<close>, \<open>vctr_putn\<close> and
  \<open>vctr_put_chunk\<close> return -1 and change nothing, \<open>vctr_append\<close>, which appends only to a vector that is ended and
  in one linear file, returns -1 and changes nothing as well, and a second \<open>vctr_eov\<close> returns 0 and
  changes nothing.\<close>

theorem eov_closes:
  assumes "rt_ok s" "vec_rep s u v xs" "xs \<noteq> []" "\<not> v_is_eov v"
  shows "\<exists>s'. vctr_eov 0 u s = (Inr (), s') \<and> rt_ok s' \<and>
    vec_rep s' u (v\<lparr>v_min_chnk_idx := memo_min v, v_is_eov := True\<rparr>) xs \<and>
    vctr_put1 0 u (Some x) s' = (Inl (Status (- 1)), s') \<and>
    vctr_putn 0 u (Some p) (Suc n) s' = (Inl (Status (- 1)), s') \<and>
    vctr_put_chunk 0 u cm k s' = (Inl (Status (- 1)), s') \<and>
    vctr_append 0 u src_t src_u s' = (Inl (Status (- 1)), s') \<and>
    vctr_eov 0 u s' = (Inr (), s')"
proof -
  obtain s' where s': "vctr_eov 0 u s = (Inr (), s')" "rt_ok s'"
    "vec_rep s' u ((v_aged v)\<lparr>v_is_eov := True\<rparr>) xs" "others_same u s s'"
    by (rule eov_run [OF assms])
  note r = rep_vctr [OF s'(3)]
  have "vctr_append 0 u src_t src_u s' = (Inl (Status (- 1)), s')"
    using r by (simp add: vctr_append_def run Q_MAX_NUM_TABLESPACES_def seq_assoc wf_vctr_def)
  then show ?thesis
    using s' eov_closed [of s' u "(v_aged v)\<lparr>v_is_eov := True\<rparr>"] r(1,2)
    by (auto simp: v_aged_def simp del: vctr_putn.simps)
qed

lemma eov_closes_witness:
  "\<exists>s'. vctr_eov 0 1 (full_st False) = (Inr (), s') \<and> vec_rep s' 1 ((full_vctr False)\<lparr>v_is_eov := True\<rparr>) [[1, 2, 3, 4], [5, 6, 7, 8]] \<and>
     vctr_put1 0 1 (Some (demo_sclr [1, 2, 3, 4])) s' = (Inl (Status (- 1)), s')"
  using eov_closes [OF full_ok full_rep [of False], where x = "demo_sclr [1, 2, 3, 4]" and p = "(0, 0)" and n = 0
    and cm = demo_cmem and k = 1]
  by (auto simp: memo_min_def full_vctr_def demo_vctr_def zero_vctr_def simp del: vctr_putn.simps)

subsection \<open>From the beginning to the end\<close>

text \<open>C12. \<open>vctr_add\<close> checks its arguments completely: for those that \<open>add_accepts\<close> admits it
  returns the next number and enters the record with these attributes under it; for all others it returns -1 and enters
  nothing.  Either way no chunk and no memory is touched and all other vectors represent what they did.  The new vector
  is an empty list, provided its elements have a width and a full chunk is no larger than the accounting of memory
  accepts (1 GB).\<close>

theorem vctr_add_outcomes:
  assumes "rt_ok s" "q_vctr_uqid s < 2 ^ 32 - 1" "map_of (q_vctrs s 0) (Suc (q_vctr_uqid s)) = None"
    "\<And>k. map_of (q_chnks s 0) (ckey (Suc (q_vctr_uqid s)) k) = None" "memo_len < 2 ^ 31"
    "v = added_vctr q w m is_memo memo_len is_killable num_kill is_early num_free"
  shows "\<exists>s'. vctr_add q w m is_memo memo_len is_killable num_kill is_early num_free s =
      (if add_accepts q w m is_memo memo_len is_killable num_kill is_early num_free
       then Inr (Suc (q_vctr_uqid s)) else Inl (Status (- 1)), s') \<and>
    rt_ok s' \<and> q_chnks s' = q_chnks s \<and> q_mem_used s' = q_mem_used s \<and>
    (u' \<noteq> Suc (q_vctr_uqid s) \<and> vec_rep s u' v' ys \<longrightarrow> vec_rep s' u' v' ys) \<and>
    (if add_accepts q w m is_memo memo_len is_killable num_kill is_early num_free
     then map_of (q_vctrs s' 0) (Suc (q_vctr_uqid s)) = Some v \<and>
       (0 < v_width v \<and> v_width v * v_max_num_in_chnk v \<le> 1073741824 \<longrightarrow> vec_rep s' (Suc (q_vctr_uqid s)) v [])
     else q_vctrs s' = q_vctrs s)"
proof (cases "add_accepts q w m is_memo memo_len is_killable num_kill is_early num_free")
  case True
  obtain s' where s': "vctr_add q w m is_memo memo_len is_killable num_kill is_early num_free s =
      (Inr (Suc (q_vctr_uqid s)), s')"
    "rt_ok s'" "map_of (q_vctrs s' 0) (Suc (q_vctr_uqid s)) = Some v" "q_chnks s' = q_chnks s" "q_mem_used s' = q_mem_used s"
    "others_same (Suc (q_vctr_uqid s)) s s'"
    by (rule vctr_add_enters [OF assms(1) True assms(2,6)])
  have "vec_rep s' (Suc (q_vctr_uqid s)) v []" if "0 < v_width v" "v_width v * v_max_num_in_chnk v \<le> 1073741824"
    by (rule added_rep [OF True assms(6) that assms(5)]) (use s'(3,4) assms(4) in simp_all)
  then show ?thesis using True s' vec_rep_frame [OF s'(6)] by auto
next
  case False
  have "vec_rep (s\<lparr>q_vctr_uqid := n\<rparr>) u' v' ys = vec_rep s u' v' ys" for n
    by (simp add: vec_rep_def vec_core_def chnk_rep_def)
  then show ?thesis
    using assms(1) False by (auto simp: vctr_add_run Let_def rt_ok_def owns_def)
qed

text \<open>Accepted: an integer vector.  Refused: strings on the heap without a width, the case in which the width is still 0
  after the default was looked up.\<close>

lemma vctr_add_outcomes_witness:
  "(\<exists>s'. vctr_add I4 4 64 False 0 False 0 False 0 (full_st False) = (Inr 2, s') \<and>
     vec_rep s' 2 (added_vctr I4 4 64 False 0 False 0 False 0) [] \<and>
     vec_rep s' 1 (full_vctr False) [[1, 2, 3, 4], [5, 6, 7, 8]]) \<and>
   (\<exists>s'. vctr_add SV 0 64 False 0 False 0 False 0 (full_st False) = (Inl (Status (- 1)), s') \<and> q_vctrs s' = q_vctrs (full_st False))"
proof -
  have "q_vctr_uqid (full_st False) = 1" "q_vctrs (full_st False) 0 = [(1, (full_vctr False))]"
    by (simp_all add: full_st_def demo_st_def)
  note st = this full_chnk numeral_2_eq_2 [symmetric] added_vctr_def zero_vctr_def add_accepts_def get_width_c_qtype_def
  have "\<exists>s'. vctr_add I4 4 64 False 0 False 0 False 0 (full_st False) = (Inr 2, s') \<and>
     vec_rep s' 2 (added_vctr I4 4 64 False 0 False 0 False 0) [] \<and>
     vec_rep s' 1 (full_vctr False) [[1, 2, 3, 4], [5, 6, 7, 8]]"
    using vctr_add_outcomes [OF full_ok [of False], of 0 "added_vctr I4 4 64 False 0 False 0 False 0" I4 4 64 False False 0 False 0 1
        "full_vctr False" "[[1, 2, 3, 4], [5, 6, 7, 8]]"] full_rep by (auto simp: st)
  moreover have "\<not> add_accepts SV 0 64 False 0 False 0 False 0" by (simp add: add_accepts_def get_width_c_qtype_def)
  then have "\<exists>s'. vctr_add SV 0 64 False 0 False 0 False 0 (full_st False) = (Inl (Status (- 1)), s') \<and> q_vctrs s' = q_vctrs (full_st False)"
    using vctr_add_outcomes [OF full_ok [of False] _ _ _ _ refl, of 0 SV 0 64 False False 0 False 0 0 undefined "[]"] st(1,2) by (auto simp: full_chnk)
  ultimately show ?thesis ..
qed

text \<open>C16. \<open>vctr_del\<close> on a vector without null vector or parent gives everything back: it reports the
  vector as found, afterwards neither the vector nor any of its chunks exists, of all blocks of memory exactly those of
  its chunks are freed, the counter of memory is lower by the size of its chunks (if it counted them), and every other
  vector represents what it did.\<close>

theorem vctr_del_frees:
  assumes "rt_ok s" "vec_rep s u v xs" "\<not> v_has_nn v" "\<not> v_has_parent v" "chnks_ok s"
    "n = (if xs = [] then 0 else Suc (v_max_chnk_idx v) - v_min_chnk_idx v) * (v_width v * v_max_num_in_chnk v)"
  shows "\<exists>s'. vctr_del 0 u s = (Inr (Some True), s') \<and> rt_ok s' \<and>
    map_of (q_vctrs s' 0) u = None \<and> (\<forall>k. map_of (q_chnks s' 0) (ckey u k) = None) \<and>
    (\<forall>b. q_heap s' b = (if \<exists>k. owns s 0 (ckey u k) b then None else q_heap s b)) \<and>
    (n \<le> q_mem_used s \<longrightarrow> q_mem_used s' = q_mem_used s - n) \<and>
    (u' \<noteq> u \<and> vec_rep s u' v' ys \<longrightarrow> vec_rep s' u' v' ys)"
proof -
  obtain s' where s': "vctr_del 0 u s = (Inr (Some True), s')" "rt_ok s'" "chnks_ok s'" "others_same u s s'"
    "map_of (q_vctrs s' 0) u = None" "\<forall>k. map_of (q_chnks s' 0) (ckey u k) = None"
    "freed u (v_width v * v_max_num_in_chnk v) (v_min_chnk_idx v) (if xs = [] then v_min_chnk_idx v else Suc (v_max_chnk_idx v)) s s'"
    "\<forall>k b. owns s 0 (ckey u k) b \<longrightarrow> xs \<noteq> [] \<and> v_min_chnk_idx v \<le> k \<and> k \<le> v_max_chnk_idx v"
    by (rule vctr_del_run [OF assms(1-5)])
  have "q_heap s' b = (if \<exists>k. owns s 0 (ckey u k) b then None else q_heap s b)" for b
  proof (cases "\<exists>k. owns s 0 (ckey u k) b")
    case True
    then show ?thesis using s'(7,8) by (fastforce simp: freed_def less_Suc_eq_le)
  next
    case False
    then show ?thesis using s'(7) by (auto simp: freed_def)
  qed
  moreover have "n \<le> q_mem_used s \<longrightarrow> q_mem_used s' = q_mem_used s - n" using s'(7) assms(6) by (auto simp: freed_def split: if_splits)
  ultimately show ?thesis using s' vec_rep_frame [OF s'(4)] by blast
qed

text \<open>One chunk of 64 elements of 4 bytes.\<close>

lemma vctr_del_frees_witness:
  "\<exists>s'. vctr_del 0 1 (full_st False) = (Inr (Some True), s') \<and> map_of (q_vctrs s' 0) 1 = None \<and> rt_ok s' \<and>
     q_heap s' 0 = None"
proof -
  have "\<not> v_has_nn (full_vctr False)" "\<not> v_has_parent (full_vctr False)" "chnks_ok (full_st False)"
    by (simp_all add: full_vctr_def demo_vctr_def zero_vctr_def chnks_ok_def full_st_def)
  then show ?thesis using vctr_del_frees [OF full_ok full_rep [of False], of _ 1 "full_vctr False" "[]"]
    by (fastforce simp: owns_def full_st_def demo_st_def)
qed

text \<open>A whole session: a vector that is added with the whole history kept, filled with \<open>ys\<close> one
  element after the other and ended, yields at every index the scalar that was put there, and
  refuses a further put; every call of the session succeeds.\<close>

theorem session_reads_back:
  assumes "rt_ok s" "\<And>b. q_can_alloc s b" "q_vctr_uqid s < 2 ^ 32 - 1"
    "map_of (q_vctrs s 0) (Suc (q_vctr_uqid s)) = None"
    "\<And>k. map_of (q_chnks s 0) (ckey (Suc (q_vctr_uqid s)) k) = None"
    "add_accepts q w m False 0 is_killable num_kill is_early num_free" "q \<notin> {SC, B1}" "0 < w"
    "w * (if m = 0 then 64 else m) \<le> 1073741824" "ys \<noteq> []" "length ys \<le> 2 ^ 32 - 2" "\<forall>y \<in> set ys. length y = w"
  shows "\<exists>s1 s2 s3. vctr_add q w m False 0 is_killable num_kill is_early num_free s = (Inr (Suc (q_vctr_uqid s)), s1) \<and>
    for_each ys (\<lambda>y. vctr_put1 0 (Suc (q_vctr_uqid s)) (Some (bytes_sclr q y))) s1 = (Inr (), s2) \<and>
    vctr_eov 0 (Suc (q_vctr_uqid s)) s2 = (Inr (), s3) \<and>
    (\<forall>i < length ys. vctr_get1 0 (Suc (q_vctr_uqid s)) i s3 = (Inr (bytes_sclr q (ys ! i)), s3)) \<and>
    vctr_put1 0 (Suc (q_vctr_uqid s)) (Some (bytes_sclr q x)) s3 = (Inl (Status (- 1)), s3)"
proof -
  let ?u = "Suc (q_vctr_uqid s)" let ?v = "added_vctr q w m False 0 is_killable num_kill is_early num_free"
  have v: "v_width ?v = w" "v_max_num_in_chnk ?v = (if m = 0 then 64 else m)" "v_qtype ?v = q"
    "v_memo_len ?v = 0" "v_min_chnk_idx ?v = 0" "\<not> v_is_eov ?v"
    using assms(8) by (simp_all add: added_vctr_def zero_vctr_def)
  obtain s1 where s1: "vctr_add q w m False 0 is_killable num_kill is_early num_free s = (Inr ?u, s1)"
    "rt_ok s1" "vec_rep s1 ?u ?v []" "others_same ?u s s1"
    by (rule vctr_add_fresh [OF assms(1,6,3-5) refl]) (use v assms(8,9) in simp_all)
  have "vstore False ?u w q s1 []"
    unfolding vstore_def using s1(2,3) v assms(2,7) os_env [OF s1(4)] by auto
  from vst.fill_and_seal [OF this assms(12,11,10)] show ?thesis using s1(1) by metis
qed

lemma session_reads_back_witness:
  "\<exists>s1 s2 s3. vctr_add I4 4 64 False 0 False 0 False 0 (full_st False) = (Inr 2, s1) \<and>
    for_each [[1, 2, 3, 4], [9, 9, 9, 9]] (\<lambda>y. vctr_put1 0 2 (Some (bytes_sclr I4 y))) s1 = (Inr (), s2) \<and>
    vctr_eov 0 2 s2 = (Inr (), s3) \<and> vctr_get1 0 2 1 s3 = (Inr (bytes_sclr I4 [9, 9, 9, 9]), s3)"
proof -
  have "q_vctr_uqid (full_st False) = 1" "q_vctrs (full_st False) 0 = [(1, (full_vctr False))]" "\<And>b. q_can_alloc (full_st False) b"
    by (simp_all add: full_st_def demo_st_def)
  then show ?thesis
    using session_reads_back [OF full_ok [of False], where q = I4 and w = 4 and m = 64 and is_killable = False and num_kill = 0
        and is_early = False and num_free = 0 and ys = "[[1, 2, 3, 4], [9, 9, 9, 9]]" and x = "[]"]
    by (simp add: full_chnk add_accepts_def numeral_2_eq_2 [symmetric] Suc_le_eq) (fastforce dest: spec [of _ 1])
qed

end
