(* ===== verification/Vctr_Chk.thy ===== *)
theory Vctr_Chk
  imports Vctr_Move
begin

text \<open>
  Meta-data access, resource usage, and the runtime's own consistency checks.  Files
  \<open>RUNTIME/VCTR/src/vctr_get_set.c\<close>, \<open>vctr_usage.c\<close>, \<open>vctr_chk.c\<close>.
\<close>

subsection \<open>Meta-data\<close>

text \<open>The enumeration, in the order of the header.\<close>

definition qtype_enum :: "qtype list" where
  "qtype_enum = [Q0, B1, BL, I1, I2, I4, I8, I16, F2, F4, F8, UI1, UI2, UI4, UI8, UI16, SC, SV, TM, TM1, HL, QF]"

definition qtype_num :: "qtype \<Rightarrow> nat" where
  "qtype_num q = length (takeWhile (\<lambda>x. x \<noteq> q) qtype_enum)"

text \<open>What is written through the output pointers.\<close>

datatype meta_out = OutNone | OutBl bool | OutI8 int | OutStr string | OutFree bool int

definition MAX_LEN_VCTR_NAME :: nat where "MAX_LEN_VCTR_NAME = 31"

text \<open>A name that may only be read, may be set to the same effect as doing nothing, or is
  handled on its own.\<close>

definition vctr_get_set ::
  "nat \<Rightarrow> nat \<Rightarrow> string option \<Rightarrow> string option \<Rightarrow> bool \<Rightarrow> int \<Rightarrow> string option \<Rightarrow> meta_out qprog" where
  "vctr_get_set t u meta get_or_set bl i8 in_str = seq (steps
     [bye_if (meta = None) (- 1), bye_if (get_or_set = None) (- 1),
      (if get_or_set = Some ''get'' then ret ()
       else if get_or_set = Some ''set'' then bye_if (t \<noteq> 0) (- 1)
       else go_BYE (- 1))])
   (\<lambda>_. seq (need_vctr t u) (\<lambda>v. seq (bye_if (v_is_error v) (- 1))
   (\<lambda>_. let get = (get_or_set = Some ''get''); m = the meta in
     if m = ''eov''
     then (if get then ret (OutBl (v_is_eov v))
           else seq (mod_vctr t u (v_is_eov_update (\<lambda>_. True))) (\<lambda>_. ret OutNone))
     else if m = ''error''
     then (if get then ret (OutBl (v_is_error v))
           else seq (mod_vctr t u (v_is_error_update (\<lambda>_. True))) (\<lambda>_. ret OutNone))
     else if m = ''lma''
     then (if get then ret (OutBl (v_is_lma v)) else go_BYE (- 1))
     else if m = ''persist''
     then (if get then ret (OutBl (v_is_persist v))
           else seq (mod_vctr t u (v_is_persist_update (\<lambda>_. bl))) (\<lambda>_. ret OutNone))
     else if m = ''max_num_in_chunk''
     then (if get then ret (OutI8 (int (v_max_num_in_chnk v)))
           else seq (steps
             [bye_if (i8 < 64) (- 1), bye_if (i8 div 64 * 64 \<noteq> i8) (- 1),
              mod_vctr t u (v_max_num_in_chnk_update (\<lambda>_. nat (i8 mod 2 ^ 32)))]) (\<lambda>_. ret OutNone))
     else if m = ''max_chnk_idx''
     then (if get then ret (OutI8 (int (v_max_chnk_idx v))) else ret OutNone)
     else if m = ''min_chnk_idx''
     then (if get then ret (OutI8 (int (v_min_chnk_idx v))) else ret OutNone)
     else if m = ''width''
     then (if get then ret (OutI8 (int (v_width v))) else ret OutNone)
     else if m = ''qtype''
     then (if get then ret (OutI8 (int (qtype_num (v_qtype v))))
           else seq (steps
             [bye_if (i8 \<le> int (qtype_num Q0) \<or> int (qtype_num QF) \<le> i8) (- 1),
              mod_vctr t u (v_qtype_update (\<lambda>_. qtype_enum ! nat i8))]) (\<lambda>_. ret OutNone))
     else if m = ''name''
     then (if get then ret (OutStr (v_name v))
           else (case in_str of None \<Rightarrow> go_BYE (- 1)
             | Some str \<Rightarrow> seq (steps
                 [bye_if (MAX_LEN_VCTR_NAME < length str) (- 1),
                  mod_vctr t u (v_name_update (\<lambda>_. str))]) (\<lambda>_. ret OutNone)))
     else if m = ''has_parent''
     then (if get then ret (OutBl (v_has_parent v)) else go_BYE (- 1))
     else if m = ''nn_key''
     then (if get then ret (OutI8 (int (v_nn_key v))) else go_BYE (- 1))
     else if m = ''has_nn''
     then (if get then ret (OutBl (v_has_nn v)) else go_BYE (- 1))
     else if m = ''is_nn''
     then (if get then ret (OutBl (v_has_parent v)) else go_BYE (- 1))
     else if m = ''early_freeable''
     then (if get then ret (OutFree (v_is_early_freeable v) (int (v_num_free_ignore v)))
           else seq (steps
             [bye_if (v_is_early_freeable v) (- 1),
              mod_vctr t u (v_is_early_freeable_update (\<lambda>_. True)),
              bye_if (i8 < 0) (- 1),
              mod_vctr t u (v_num_free_ignore_update (\<lambda>_. nat (i8 mod 2 ^ 16)))]) (\<lambda>_. ret OutNone))
     else go_BYE (- 1))))"

subsection \<open>Usage\<close>

text \<open>One chunk: memory and disk so far.  A negative size is added modulo \<open>2 ^ 64\<close>.\<close>

definition chnk_usage :: "nat \<Rightarrow> nat \<Rightarrow> bool \<Rightarrow> nat \<Rightarrow> nat \<times> nat \<Rightarrow> (nat \<times> nat) qprog" where
  "chnk_usage t u is_lma i = (\<lambda>(mem, dsk). seq (chnk_find t (ckey u i)) (\<lambda>r. case r of
     None \<Rightarrow> ret (mem, dsk)
   | Some c \<Rightarrow> seq (steps
      [bye_if (c_l1_mem c = None \<and> \<not> c_l2_exists c \<and> \<not> is_lma) (- 1),
       bye_if (c_l1_mem c \<noteq> None \<and> c_size c = 0) (- 1)])
     (\<lambda>_. let mem' = (if c_l1_mem c \<noteq> None then u64 (mem + c_size c) else mem) in
       if \<not> c_l2_exists c then ret (mem', dsk)
       else seq get_st (\<lambda>s. case l2_name s t u i of None \<Rightarrow> go_BYE (- 1)
        | Some l2_file \<Rightarrow> let filesz = get_file_size s l2_file in
            seq (bye_if (filesz \<le> 0) (- 1)) (\<lambda>_. ret (mem', u64 (dsk + nat filesz)))))))"

text \<open>The status 1 of an unknown vector is no failure for \<open>cBYE\<close>.\<close>

definition vctr_usage :: "nat \<Rightarrow> nat \<Rightarrow> (int \<times> nat \<times> nat) qprog" where
  "vctr_usage t u = seq (vctr_find t u) (\<lambda>r. case r of None \<Rightarrow> ret (1, 0, 0)
   | Some v \<Rightarrow> seq
      (if v_is_lma v
       then seq get_st (\<lambda>s. case l2_name s t u UINT_MAX of None \<Rightarrow> go_BYE (- 1)
         | Some lma_file \<Rightarrow> ret (v_nX v, nat (get_file_size s lma_file mod 2 ^ 64)))
       else ret (0, 0))
     (\<lambda>acc. seq (fold_upto (v_min_chnk_idx v) (v_max_chnk_idx v) acc (chnk_usage t u (v_is_lma v)))
     (\<lambda>(mem, dsk). ret (0, mem, dsk))))"

text \<open>What \<open>vctr_hogs\<close> prints, line by line: the number, the name, memory and disk.\<close>

type_synonym hog_line = "nat \<times> string \<times> nat option \<times> nat option"

definition lower :: "string \<Rightarrow> string" where
  "lower = map (\<lambda>c. if c \<in> set ''ABCDEFGHIJKLMNOPQRSTUVWXYZ'' then char_of (of_char c + (32 :: nat)) else c)"

definition hog_one :: "string \<Rightarrow> nat \<Rightarrow> hog_line list \<Rightarrow> hog_line list qprog" where
  "hog_one mode u out = seq (vctr_usage 0 u) (\<lambda>(_, mem, dsk).
     seq (vctr_get_set 0 u (Some ''name'') (Some ''get'') False 0 None) (\<lambda>r.
     let name = (case r of OutStr n \<Rightarrow> n | _ \<Rightarrow> ''anonymous'') in
     if mode = '''' then ret (out @ [(u, name, Some mem, Some dsk)])
     else if lower mode = ''mem''
     then ret (if mem \<noteq> 0 then out @ [(u, name, Some mem, None)] else out)
     else if lower mode = ''dsk''
     then ret (if dsk \<noteq> 0 then out @ [(u, name, None, Some dsk)] else out)
     else go_BYE (- 1)))"

definition vctr_hogs :: "string option \<Rightarrow> hog_line list qprog" where
  "vctr_hogs mode = (let m = (case mode of None \<Rightarrow> '''' | Some m \<Rightarrow> m) in
     seq (bye_if (\<not> (m = '''' \<or> lower m = ''mem'' \<or> lower m = ''dsk'')) (- 1))
     (\<lambda>_. seq get_st (\<lambda>s. for_fold (map fst (q_vctrs s 0)) [] (hog_one m))))"

subsection \<open>The checker of one vector\<close>

text \<open>A \<open>uint32_t\<close> read as \<open>int\<close>.\<close>

definition to_i32 :: "nat \<Rightarrow> int" where
  "to_i32 n = (if n < 2 ^ 31 then int n else int n - 2 ^ 32)"

text \<open>The checks on the type and the width.\<close>

definition chk_width :: "vctr \<Rightarrow> unit qprog" where
  "chk_width v = steps
     [bye_if (v_qtype v = QF) (- 1), bye_if (v_qtype v = Q0) (- 1),
      (if v_qtype v = B1 then bye_if (v_width v \<noteq> 0) (- 1)
       else if v_qtype v = SC then bye_if (v_width v < 2) (- 1)
       else bye_if (int (get_width_c_qtype (v_qtype v)) \<noteq> to_i32 (v_width v)) (- 1))]"

text \<open>A vector without elements, which ends the check.\<close>

definition chk_empty :: "vctr \<Rightarrow> unit qprog" where
  "chk_empty v = steps
     [bye_if (v_min_chnk_idx v \<noteq> 0) (- 1), bye_if (v_max_chnk_idx v \<noteq> 0) (- 1),
      bye_if (v_is_eov v) (- 1), bye_if (v_is_persist v) (- 1), bye_if (v_is_lma v) (- 1),
      bye_if (v_X v \<noteq> None) (- 1), bye_if (v_nX v \<noteq> 0) (- 1)]"

definition chk_num_chnks :: "vctr \<Rightarrow> nat" where
  "chk_num_chnks v = u32 (u32_sub (v_max_chnk_idx v) (v_min_chnk_idx v) + 1)"

text \<open>The checks that concern only the record of the vector.\<close>

definition chk_meta :: "vctr \<Rightarrow> unit qprog" where
  "chk_meta v = steps
     [bye_if (v_min_chnk_idx v > v_max_chnk_idx v) (- 1),
      bye_if (v_num_elements v < u32 (u32_sub (chk_num_chnks v) 1 * v_max_num_in_chnk v)) (- 1),
      bye_if (\<not> v_is_memo v \<and> v_num_elements v > u32 (chk_num_chnks v * v_max_num_in_chnk v)) (- 1),
      bye_if (v_is_persist v \<and> v_is_early_freeable v) (- 1),
      bye_if (v_is_persist v \<and> v_is_killable v) (- 1),
      bye_if (0 < v_num_free_ignore v \<and> v_is_persist v) (- 1),
      bye_if (0 < v_num_free_ignore v \<and> \<not> v_is_early_freeable v) (- 1),
      bye_if (0 < v_num_kill_ignore v \<and> v_is_persist v) (- 1),
      bye_if (0 < v_num_kill_ignore v \<and> \<not> v_is_killable v) (- 1),
      bye_if (\<not> v_is_early_freeable v \<and> v_num_free_ignore v \<noteq> 0) (- 1),
      bye_if (\<not> v_is_killable v \<and> v_num_kill_ignore v \<noteq> 0) (- 1),
      bye_if (\<not> v_is_lma v \<and> (v_X v \<noteq> None \<or> v_nX v \<noteq> 0 \<or> v_num_readers v \<noteq> 0 \<or> v_num_writers v \<noteq> 0)) (- 1),
      bye_if (v_num_readers v = 0 \<and> v_num_writers v = 0 \<and> (v_X v \<noteq> None \<or> v_nX v \<noteq> 0)) (- 1),
      bye_if (0 < v_num_readers v \<and> (v_num_writers v \<noteq> 0 \<or> v_X v = None \<or> v_nX v = 0)) (- 1),
      bye_if (0 < v_num_writers v \<and> (v_num_readers v \<noteq> 0 \<or> v_num_writers v \<noteq> 1 \<or> v_X v = None \<or> v_nX v = 0)) (- 1),
      bye_if (v_X v = None \<and> (v_nX v \<noteq> 0 \<or> v_num_readers v \<noteq> 0 \<or> v_num_writers v \<noteq> 0)) (- 1),
      bye_if (v_X v \<noteq> None \<and> v_nX v = 0) (- 1),
      bye_if (v_X v \<noteq> None \<and> \<not> v_is_eov v) (- 1)]"

text \<open>The file of the whole vector.\<close>

definition chk_lma :: "nat \<Rightarrow> nat \<Rightarrow> vctr \<Rightarrow> unit qprog" where
  "chk_lma t u v =
     (if v_is_lma v
      then seq (bye_if (\<not> v_is_eov v) (- 1)) (\<lambda>_. seq get_st (\<lambda>s.
        case l2_name s t u UINT_MAX of None \<Rightarrow> go_BYE (- 1)
        | Some lma_file \<Rightarrow> steps
           [bye_if (\<not> isfile s lma_file) (- 1),
            bye_if (get_file_size s lma_file \<noteq> int (u32 (v_num_elements v * v_width v))) (- 1)]))
      else bye_if (0 < v_num_elements v \<and> chk_num_chnks v = 0) (- 1))"

text \<open>One chunk.  A chunk that is not there is read at a position that was never set.\<close>

definition chk_chnk :: "nat \<Rightarrow> nat \<Rightarrow> vctr \<Rightarrow> nat \<Rightarrow> unit qprog" where
  "chk_chnk t u v i = seq (chnk_at t (ckey u i)) (\<lambda>c. steps
     [bye_if (v_is_early_freeable v \<and> c_num_free_ignore c > v_num_free_ignore v) (- 1),
      bye_if (c_num_readers c \<noteq> 0) (- 1), bye_if (c_num_writers c \<noteq> 0) (- 1),
      bye_if (c_num_elements c = 0 \<or> c_num_elements c > v_max_num_in_chnk v) (- 1),
      bye_if (i < v_max_chnk_idx v \<and> c_num_elements c \<noteq> v_max_num_in_chnk v) (- 1),
      bye_if (c_qtype c \<noteq> v_qtype v) (- 1),
      (if \<not> c_l2_exists c then bye_if (c_l1_mem c = None \<and> \<not> v_is_lma v) (- 1)
       else seq get_st (\<lambda>s. case l2_name s t u i of None \<Rightarrow> go_BYE (- 1)
        | Some l2_file \<Rightarrow> steps
           [bye_if (\<not> (isfile s l2_file \<or> v_is_lma v)) (- 1),
            bye_if (get_file_size s l2_file \<noteq> to_i32 (chnk_bytes_of v)) (- 1)]))])"

definition vctr_chk :: "nat \<Rightarrow> nat \<Rightarrow> unit qprog" where
  "vctr_chk t u =
     (if u = 0 then ret ()
      else seq (need_vctr t u) (\<lambda>v. seq (chk_width v) (\<lambda>_.
        if v_num_elements v = 0 then chk_empty v
        else steps
          [chk_meta v,
           chk_lma t u v,
           bye_if (v_max_num_in_chnk v div 64 * 64 \<noteq> v_max_num_in_chnk v) (- 1),
           bye_if (MAX_LEN_VCTR_NAME < length (v_name v)) (- 1),
           (if v_is_lma v \<and> chk_num_chnks v = 0 then ret ()
            else steps
             [(if \<not> v_is_memo v then bye_if (v_min_chnk_idx v \<noteq> 0) (- 1)
               else bye_if (chk_num_chnks v > v_memo_len v) (- 1)),
              for_upto (v_min_chnk_idx v) (v_max_chnk_idx v) (chk_chnk t u v)])])))"

subsection \<open>The checks across vectors\<close>

text \<open>The keys collected as \<open>parent_keys\<close> and \<open>nn_keys\<close> are those of the vectors themselves, so
  they cannot repeat; only one of the two lists is sorted.\<close>

definition adjacent_differ :: "nat list \<Rightarrow> bool" where
  "adjacent_differ ks = (\<forall>i < length ks. 0 < i \<longrightarrow> ks ! i \<noteq> ks ! (i - 1))"

definition vctrs_chk :: "nat \<Rightarrow> unit qprog" where
  "vctrs_chk t = seq (vctr_cnt t) (\<lambda>nitems. seq get_st (\<lambda>s.
     let al = q_vctrs s t in
     seq (for_fold al 0 (\<lambda>(u, v) total. seq (vctr_chk t u) (\<lambda>_.
           ret (if 0 < v_num_elements v then u32 (total + chk_num_chnks v) else total))))
     (\<lambda>total_num_chnks. seq (chnk_cnt t) (\<lambda>n_chnks.
       seq (bye_if (total_num_chnks \<noteq> n_chnks) (- 1)) (\<lambda>_.
       if nitems = 0 then ret ()
       else let parent_keys = map fst (filter (\<lambda>(u, v). v_has_parent v) al);
                nn_keys = map fst (filter (\<lambda>(u, v). v_has_nn v) al) in
        steps
         [bye_if (\<exists>(u, v) \<in> set al. v_has_parent v \<and> v_qtype v \<noteq> B1 \<and> v_qtype v \<noteq> BL) (- 1),
          bye_if (\<exists>(u, v) \<in> set al. v_has_parent v \<and> v_has_nn v) (- 1),
          bye_if (length parent_keys \<noteq> length nn_keys) (- 1),
          bye_if (\<not> adjacent_differ (sort nn_keys)) (- 1),
          bye_if (nn_keys \<noteq> [] \<and> \<not> adjacent_differ parent_keys) (- 1),
          for_each (sort nn_keys) (\<lambda>u. must (vctr_is t u)),
          for_each parent_keys (\<lambda>u. must (vctr_is t u))])))))"

end
