(* ===== verification/Vec_Check.thy ===== *)
theory Vec_Check
  imports Vec_Demo Vctr_Chk
begin

text \<open>
  The consistency check \<open>vctr_chk\<close> against the abstract view: the operations keep
  the attributes it tests, so it passes after any sequence of them, and it refuses what \<open>vctr_early_free\<close> leaves behind.
\<close>

lemma for_each_same: "(\<And>x. x \<in> set xs \<Longrightarrow> f x s = (Inr (), s)) \<Longrightarrow> for_each xs f s = (Inr (), s)"
  by (induction xs) (simp_all add: ret_def seq_Inr)

text \<open>The attributes of a vector whose elements are in chunks, as \<open>vctr_add\<close> enters them and the
  operations keep them (\<open>plain_added\<close>, \<open>plain_step\<close>): the width that belongs to the type, counts only with their flags, no linear access,
  a history no longer than its limit.\<close>

definition plain_attrs :: "vctr \<Rightarrow> bool" where
  "plain_attrs v = (v_qtype v \<notin> {Q0, QF, B1} \<and>
     (if v_qtype v = SC then 2 \<le> v_width v else v_width v = get_width_c_qtype (v_qtype v)) \<and>
     64 dvd v_max_num_in_chnk v \<and> length (v_name v) \<le> MAX_LEN_VCTR_NAME \<and>
     (v_is_early_freeable v \<or> v_num_free_ignore v = 0) \<and> (v_is_killable v \<or> v_num_kill_ignore v = 0) \<and>
     v_X v = None \<and> v_nX v = 0 \<and> v_num_readers v = 0 \<and> v_num_writers v = 0 \<and>
     (if v_is_memo v then Suc (v_max_chnk_idx v) - v_min_chnk_idx v \<le> v_memo_len v else v_min_chnk_idx v = 0))"

lemma width_i32: "int (get_width_c_qtype q) = to_i32 (get_width_c_qtype q)"
  by (cases q) (simp_all add: get_width_c_qtype_def to_i32_def)

lemma chk_width_run: "plain_attrs v \<Longrightarrow> chk_width v s = (Inr (), s)"
  unfolding chk_width_def plain_attrs_def
  by (auto simp: width_i32 bye_if_def ret_def split: if_splits)

text \<open>The arithmetic of the number of chunks.\<close>

lemma chunk_bounds:
  fixes n m :: nat
  assumes "0 < m" "0 < n"
  shows "(n - 1) div m * m < n" "n \<le> Suc ((n - 1) div m) * m"
proof -
  have "(n - 1) div m * m \<le> n - 1" by (rule div_times_less_eq_dividend)
  then show "(n - 1) div m * m < n" using assms by linarith
  have "n - 1 < Suc ((n - 1) div m) * m"
    using div_mult_mod_eq [of "n - 1" m] mod_less_divisor [OF assms(1), of "n - 1"]
    by (simp only: mult_Suc)
  then show "n \<le> Suc ((n - 1) div m) * m" by linarith
qed

text \<open>A vector with elements: its last chunk, and its checks.\<close>

lemma rep_nonempty:
  assumes "vec_rep s u v xs" "xs \<noteq> []"
  shows "v_max_chnk_idx v = (length xs - 1) div v_max_num_in_chnk v"
    "\<And>k. v_min_chnk_idx v \<le> k \<Longrightarrow> k \<le> v_max_chnk_idx v \<Longrightarrow> chnk_rep s u v xs k"
  using assms by (auto simp: vec_rep_def vec_core_def)

lemma chk_num_chnks_run:
  assumes "wf_vctr v n" "v_max_chnk_idx v = (n - 1) div v_max_num_in_chnk v" "0 < n"
  shows "chk_num_chnks v = Suc (v_max_chnk_idx v) - v_min_chnk_idx v"
    "u32 (u32_sub (chk_num_chnks v) 1 * v_max_num_in_chnk v) \<le> n"
proof -
  let ?m = "v_max_num_in_chnk v" let ?K = "v_max_chnk_idx v"
  have v: "v_min_chnk_idx v \<le> ?K" "0 < ?m" "n < 2 ^ 32 - 1" using assms(1) by (auto simp: wf_vctr_def)
  have "?K \<le> n - 1" unfolding assms(2) by (rule div_le_dividend)
  then have K: "?K < 2 ^ 32 - 1" using v(3) by linarith
  show c: "chk_num_chnks v = Suc ?K - v_min_chnk_idx v"
    using v(1) K by (simp add: chk_num_chnks_def u32_sub_def Suc_diff_le)
  have "?K * ?m < n" unfolding assms(2) using chunk_bounds(1) [OF v(2) assms(3)] .
  moreover have "(?K - v_min_chnk_idx v) * ?m \<le> ?K * ?m" by (rule mult_le_mono1) simp
  ultimately have "(?K - v_min_chnk_idx v) * ?m \<le> n" by linarith
  moreover have "u32_sub (chk_num_chnks v) 1 = ?K - v_min_chnk_idx v"
    unfolding c using v(1) by (simp add: u32_sub_def Suc_diff_le)
  ultimately show "u32 (u32_sub (chk_num_chnks v) 1 * ?m) \<le> n"
    unfolding u32_def by (metis le_trans mod_less_eq_dividend)
qed

lemma chk_meta_run:
  assumes wf: "wf_vctr v n" and K: "v_max_chnk_idx v = (n - 1) div v_max_num_in_chnk v" and n: "0 < n"
    and plain: "plain_attrs v" and big: "n + v_max_num_in_chnk v \<le> 2 ^ 32"
  shows "chk_meta v s = (Inr (), s)"
proof -
  let ?m = "v_max_num_in_chnk v" let ?K = "v_max_chnk_idx v"
  have v: "v_min_chnk_idx v \<le> ?K" "0 < ?m" "v_num_elements v = n" "\<not> v_is_persist v" "\<not> v_is_lma v"
    using wf by (auto simp: wf_vctr_def)
  note c = chk_num_chnks_run [OF wf K n]
  have "v_is_memo v \<or> n \<le> u32 (chk_num_chnks v * ?m)"
  proof (cases "v_is_memo v")
    case False
    have "v_min_chnk_idx v = 0" using False plain by (simp add: plain_attrs_def)
    then have e: "chk_num_chnks v = Suc ?K" unfolding c by simp
    have "?K * ?m < n" "n \<le> Suc ?K * ?m" unfolding K using chunk_bounds [OF v(2) n] by auto
    moreover from this have "Suc ?K * ?m < 2 ^ 32" using big by simp
    ultimately show ?thesis unfolding e by simp
  qed simp
  then show ?thesis
    using v c(2) plain unfolding chk_meta_def plain_attrs_def
    by (auto simp: not_less bye_if_def ret_def)
qed

lemma chk_chnk_run:
  assumes rep: "vec_rep s u v xs" and ne: "xs \<noteq> []" and i: "v_min_chnk_idx v \<le> i" "i \<le> v_max_chnk_idx v"
  shows "chk_chnk 0 u v i s = (Inr (), s)"
proof -
  let ?m = "v_max_num_in_chnk v" let ?n = "length xs"
  have m: "0 < ?m" using rep_vctr(3) [OF rep] by (simp add: wf_vctr_def)
  note K = rep_nonempty(1) [OF rep ne]
  obtain c where c: "map_of (q_chnks s 0) (ckey u i) = Some c" "c_l1_mem c \<noteq> None"
    "c_num_elements c = min ?m (?n - i * ?m)" "c_qtype c = v_qtype v" "c_num_readers c = 0"
    "c_num_writers c = 0" "\<not> c_l2_exists c" "c_num_free_ignore c \<le> v_num_free_ignore v"
    using rep_nonempty(2) [OF rep ne i] unfolding chnk_rep_def by auto
  have last: "v_max_chnk_idx v * ?m < ?n" unfolding K using chunk_bounds(1) [OF m] ne by simp
  have "i * ?m \<le> v_max_chnk_idx v * ?m" using i(2) by (rule mult_le_mono1)
  then have pos: "0 < ?n - i * ?m" using last by linarith
  have full: "c_num_elements c = ?m" if "i < v_max_chnk_idx v"
  proof -
    have "Suc i * ?m \<le> v_max_chnk_idx v * ?m" using that by (intro mult_le_mono1) simp
    then show ?thesis using last c(3) by simp
  qed
  show ?thesis
    unfolding chk_chnk_def using c pos m full
    by (auto simp: run Q_MAX_NUM_TABLESPACES_def seq_assoc bye_if_def ret_def)
qed

text \<open>A vector that represents a list and has such attributes passes the check, which changes nothing
  (as long as the capacity of its chunks, rounded up, stays within 32 bits).\<close>

lemma vctr_chk_rep:
  assumes rep: "vec_rep s u v xs" and plain: "plain_attrs v"
    and big: "length xs + v_max_num_in_chnk v \<le> 2 ^ 32" and eov: "xs = [] \<longrightarrow> \<not> v_is_eov v"
  shows "vctr_chk 0 u s = (Inr (), s)"
proof -
  have v: "u \<noteq> 0" "map_of (q_vctrs s 0) u = Some v" and wf: "wf_vctr v (length xs)" using rep_vctr [OF rep] by auto
  note w = chk_width_run [OF plain]
  show ?thesis
  proof (cases "xs = []")
    case True
    then have "v_min_chnk_idx v = 0" "v_max_chnk_idx v = 0" "v_num_elements v = 0"
      using rep by (auto simp: vec_rep_def wf_vctr_def)
    then show ?thesis
      unfolding vctr_chk_def chk_empty_def using v wf True eov plain
      by (simp add: w run Q_MAX_NUM_TABLESPACES_def seq_Inr [of "chk_width v" s, OF w] wf_vctr_def plain_attrs_def
          bye_if_def ret_def)
  next
    case False
    then have n: "0 < length xs" by simp
    note K = rep_nonempty(1) [OF rep False]
    note meta = chk_meta_run [OF wf K n plain big] and cn = chk_num_chnks_run(1) [OF wf K n]
    have pos: "chk_num_chnks v \<noteq> 0" unfolding cn using wf by (simp add: wf_vctr_def)
    have lma: "chk_lma 0 u v s = (Inr (), s)"
      unfolding chk_lma_def using pos wf by (simp add: wf_vctr_def bye_if_def ret_def)
    have "v_max_chnk_idx v \<le> length xs - 1" unfolding K by (rule div_le_dividend)
    moreover have "length xs < 2 ^ 32 - 1" using wf unfolding wf_vctr_def by blast
    ultimately have "v_max_chnk_idx v < UINT_MAX" unfolding UINT_MAX_def by linarith
    then have loop: "for_upto (v_min_chnk_idx v) (v_max_chnk_idx v) (chk_chnk 0 u v) s = (Inr (), s)"
      using for_each_same [of "[v_min_chnk_idx v..<Suc (v_max_chnk_idx v)]" "chk_chnk 0 u v" s]
        chk_chnk_run [OF rep False] by (auto simp: for_upto_def ret_def less_Suc_eq_le simp del: upt_Suc)
    have div: "v_max_num_in_chnk v div 64 * 64 = v_max_num_in_chnk v" using plain by (simp add: plain_attrs_def)
    let ?hist = "if \<not> v_is_memo v then bye_if (0 < v_min_chnk_idx v) (- 1)
      else bye_if (v_memo_len v < chk_num_chnks v) (- 1) :: unit qprog"
    have hist: "?hist s = (Inr (), s)"
      using plain unfolding cn plain_attrs_def by (auto simp: bye_if_def ret_def)
    have name: "\<not> MAX_LEN_VCTR_NAME < length (v_name v)" using plain by (simp add: plain_attrs_def)
    have ne: "v_num_elements v \<noteq> 0" "\<not> v_is_lma v" using wf n by (auto simp: wf_vctr_def)
    show ?thesis
      unfolding vctr_chk_def
      by (simp add: run Q_MAX_NUM_TABLESPACES_def v ne name div seq_Inr [of "chk_width v" s, OF w]
          seq_Inr [of "chk_meta v" s, OF meta] seq_Inr [of "chk_lma 0 u v" s, OF lma] seq_Inr [of ?hist s, OF hist] loop
          del: seq_if split del: if_split cong: if_cong)
  qed
qed

lemma plain_full: "plain_attrs (full_vctr e)"
  by (simp add: plain_attrs_def full_vctr_def demo_vctr_def zero_vctr_def get_width_c_qtype_def)

subsection \<open>The check after a life of the vector\<close>

text \<open>Calls on a vector, with the arguments of the C functions.\<close>

datatype vcmd = VPut1 sclr | VPutn ptr nat | VPutChunk cmem nat | VEov | VGet1 nat | VMemo int

fun vcmd_run :: "nat \<Rightarrow> vcmd \<Rightarrow> unit qprog" where
  "vcmd_run u (VPut1 x) = vctr_put1 0 u (Some x)"
| "vcmd_run u (VPutn X n) = vctr_putn 0 u X n"
| "vcmd_run u (VPutChunk cm n) = seq (vctr_put_chunk 0 u cm n) (\<lambda>_. ret ())"
| "vcmd_run u VEov = vctr_eov 0 u"
| "vcmd_run u (VGet1 i) = seq (vctr_get1 0 u i) (\<lambda>_. ret ())"
| "vcmd_run u (VMemo k) = vctr_set_memo 0 u k"

text \<open>A client that goes on whatever status a call returns.\<close>

definition vcmds_run :: "nat \<Rightarrow> vcmd list \<Rightarrow> unit qprog" where
  "vcmds_run u cs = for_each cs (\<lambda>c. seq (attempt (vcmd_run u c)) (\<lambda>_. ret ()))"

fun vcmd_len :: "vcmd \<Rightarrow> nat" where
  "vcmd_len (VPut1 x) = 1"
| "vcmd_len (VPutn X n) = n"
| "vcmd_len (VPutChunk cm n) = n"
| "vcmd_len c = 0"

text \<open>What the C functions take for granted of the memory they are handed: a scalar that fits, buffers
  that hold the elements and are not the vector's own; an \<open>int\<close>.\<close>

definition buffer :: "qst \<Rightarrow> nat \<Rightarrow> nat \<Rightarrow> ptr \<Rightarrow> nat \<Rightarrow> bool" where
  "buffer s u w X n = (\<exists>ys. length ys = n \<and> (\<forall>y \<in> set ys. length y = w) \<and> source s u w X ys)"

fun vcmd_ok :: "qst \<Rightarrow> nat \<Rightarrow> vctr \<Rightarrow> vcmd \<Rightarrow> bool" where
  "vcmd_ok s u v (VPut1 x) = sclr_fits v x"
| "vcmd_ok s u v (VPutn X n) = (0 < n \<and> buffer s u (v_width v) X n)"
| "vcmd_ok s u v (VPutChunk cm n) = (\<not> cm_is_stealable cm \<and> cm_size cm = v_width v * v_max_num_in_chnk v \<and>
     0 < n \<and> n \<le> v_max_num_in_chnk v \<and> buffer s u (v_width v) (cm_data cm) n)"
| "vcmd_ok s u v (VMemo k) = (- (2 ^ 31) \<le> k \<and> k < 2 ^ 31)"
| "vcmd_ok s u v c = True"

definition same_shape :: "vctr \<Rightarrow> vctr \<Rightarrow> bool" where
  "same_shape v v' = (v_width v' = v_width v \<and> v_qtype v' = v_qtype v \<and> v_max_num_in_chnk v' = v_max_num_in_chnk v)"

lemma same_shape_refl [simp]: "same_shape v v"
  and same_shape_trans: "same_shape v v' \<Longrightarrow> same_shape v' v'' \<Longrightarrow> same_shape v v''"
  by (auto simp: same_shape_def)

lemma vcmd_ok_later: "vcmd_ok s u v c \<Longrightarrow> others_same u s s' \<Longrightarrow> same_shape v v' \<Longrightarrow> vcmd_ok s' u v' c"
  by (cases c) (auto simp: same_shape_def buffer_def sclr_fits_def dest: source_others)

text \<open>The invariant: the vector represents a list and has the attributes the check looks for.\<close>

definition plain_inv :: "qst \<Rightarrow> nat \<Rightarrow> vctr \<Rightarrow> byte list list \<Rightarrow> bool" where
  "plain_inv s u v xs = (rt_ok s \<and> vec_rep s u v xs \<and> plain_attrs v \<and> (v_is_memo v \<longleftrightarrow> 0 < v_memo_len v) \<and>
     (xs = [] \<longrightarrow> \<not> v_is_eov v) \<and> (\<forall>b. q_can_alloc s b))"

lemma plain_added:
  assumes "add_accepts q w m is_memo memo_len is_killable num_kill is_early num_free"
    "q \<noteq> B1" "q = SC \<or> w = 0 \<or> w = get_width_c_qtype q"
  shows "plain_attrs (added_vctr q w m is_memo memo_len is_killable num_kill is_early num_free)"
  using assms unfolding add_accepts_def Let_def
  by (auto simp: plain_attrs_def added_vctr_def zero_vctr_def Suc_le_eq split: if_splits)

lemma plain_appended:
  assumes "plain_attrs v" "v_is_memo v \<longleftrightarrow> 0 < v_memo_len v" "\<not> v_is_eov v"
  shows "plain_attrs ((v_appended v n)\<lparr>v_is_eov := e\<rparr>)" "plain_attrs (v_appended v n)"
  using assms by (auto simp: plain_attrs_def v_appended_def v_aged_def v_grown_def memo_min_def)

lemma plain_aged:
  assumes "plain_attrs v" "v_is_memo v \<longleftrightarrow> 0 < v_memo_len v"
  shows "plain_attrs ((v_aged v)\<lparr>v_is_eov := e\<rparr>)"
  using assms by (auto simp: plain_attrs_def v_aged_def memo_min_def)

lemma appended_same:
  "same_shape v (v_appended v n)" "v_is_memo (v_appended v n) = v_is_memo v" "v_memo_len (v_appended v n) = v_memo_len v"
  by (simp_all add: same_shape_def v_appended_def v_aged_def v_grown_def)

lemma get1_any:
  assumes "rt_ok s" "vec_rep s u v xs" "v_qtype v \<noteq> B1"
  shows "\<exists>r. vctr_get1 0 u i s = (r, s) \<and> (\<forall>e. r = Inl e \<longrightarrow> e = Status (- 1))"
proof -
  have v: "map_of (q_vctrs s 0) u = Some v" "v_num_elements v = length xs"
    using rep_vctr [OF assms(2)] by (auto simp: wf_vctr_def)
  then show ?thesis
    using get1_run [OF assms(1,2) _ _ assms(3), of i] get1_out_of_range [OF v(1), of i] get1_aged_out [OF assms(2), of i]
    by (cases "v_min_chnk_idx v * v_max_num_in_chnk v \<le> i"; cases "i < length xs") (auto simp: not_le not_less)
qed

text \<open>Two outcomes of a call: refused, with nothing changed, or done.\<close>

lemma plain_step_same:
  assumes "plain_inv s u v xs" "vcmd_run u c s = (r, s)" "\<And>e. r = Inl e \<Longrightarrow> e = Status (- 1)"
  shows "\<exists>st s' v' xs'. attempt (vcmd_run u c) s = (Inr st, s') \<and> plain_inv s' u v' xs' \<and> others_same u s s' \<and>
    same_shape v v' \<and> length xs' \<le> length xs + vcmd_len c"
proof -
  have "\<exists>st. attempt (vcmd_run u c) s = (Inr st, s)"
    using assms(2,3) by (cases r) (auto simp: attempt_def)
  then show ?thesis using assms(1) same_shape_refl by (metis le_add1 others_same_refl)
qed

lemma plain_step_done:
  assumes "vcmd_run u c s = (Inr (), s')" "plain_inv s' u v' xs'" "others_same u s s'" "same_shape v v'"
    "length xs' \<le> length xs + vcmd_len c"
  shows "\<exists>st s' v' xs'. attempt (vcmd_run u c) s = (Inr st, s') \<and> plain_inv s' u v' xs' \<and> others_same u s s' \<and>
    same_shape v v' \<and> length xs' \<le> length xs + vcmd_len c"
  using assms by (auto simp: attempt_def)

lemma plain_step_put1:
  assumes inv: "plain_inv s u v xs" and ok: "sclr_fits v x" and len: "Suc (length xs) < 2 ^ 32 - 1" and open_v: "\<not> v_is_eov v"
  shows "\<exists>s' v' xs'. vctr_put1 0 u (Some x) s = (Inr (), s') \<and> plain_inv s' u v' xs' \<and> others_same u s s' \<and>
    same_shape v v' \<and> length xs' \<le> Suc (length xs)"
proof -
  have i: "rt_ok s" "vec_rep s u v xs" "plain_attrs v" "v_is_memo v \<longleftrightarrow> 0 < v_memo_len v" "\<And>b. q_can_alloc s b"
    using inv by (auto simp: plain_inv_def)
  obtain s' where "vctr_put1 0 u (Some x) s = (Inr (), s')" "rt_ok s'"
    "vec_rep s' u (v_appended v (Suc (length xs))) (xs @ [put1_bytes v x])" "others_same u s s'"
    by (rule put1_run [OF i(1,2,5) open_v _ ok]) (use len in auto)
  then show ?thesis
    using plain_appended(2) [OF i(3,4) open_v] appended_same i(4,5) os_env [of u s s']
    by (intro exI [of _ s'] exI [of _ "v_appended v (Suc (length xs))"] exI [of _ "xs @ [put1_bytes v x]"]) (auto simp: plain_inv_def)
qed

lemma plain_step_putn:
  assumes inv: "plain_inv s u v xs" and ok: "0 < n" "buffer s u (v_width v) X n" and len: "length xs + n < 2 ^ 32 - 1"
    and open_v: "\<not> v_is_eov v"
  shows "\<exists>s' v' xs'. vctr_putn 0 u X n s = (Inr (), s') \<and> plain_inv s' u v' xs' \<and> others_same u s s' \<and>
    same_shape v v' \<and> length xs' \<le> length xs + n"
proof -
  have i: "rt_ok s" "vec_rep s u v xs" "plain_attrs v" "v_is_memo v \<longleftrightarrow> 0 < v_memo_len v" "\<And>b. q_can_alloc s b"
    using inv by (auto simp: plain_inv_def)
  obtain ys where ys: "length ys = n" "\<forall>y \<in> set ys. length y = v_width v" "source s u (v_width v) X ys"
    using ok(2) by (auto simp: buffer_def)
  have "ys \<noteq> []" "length xs + length ys < 2 ^ 32 - 1" using ys(1) ok(1) len by auto
  from putn_run [OF i(1,2,5) open_v this(2,1) ys(2,3)] obtain s' where "vctr_putn 0 u X n s = (Inr (), s')" "rt_ok s'"
    "vec_rep s' u (v_appended v (length xs + length ys)) (xs @ ys)" "others_same u s s'" using ys(1) by auto
  then show ?thesis
    using plain_appended(2) [OF i(3,4) open_v] appended_same i(4,5) os_env [of u s s'] \<open>ys \<noteq> []\<close> ys(1)
    by (intro exI [of _ s'] exI [of _ "v_appended v (length xs + length ys)"] exI [of _ "xs @ ys"]) (auto simp: plain_inv_def)
qed

lemma put_chunk_unaligned:
  assumes "vec_rep s u v xs" "length xs mod v_max_num_in_chnk v \<noteq> 0"
  shows "vctr_put_chunk 0 u cm n s = (Inl (Status (- 1)), s)"
proof -
  have "v_num_elements v = length xs" using rep_vctr(3) [OF assms(1)] by (simp add: wf_vctr_def)
  moreover from this have "v_num_elements v div v_max_num_in_chnk v * v_max_num_in_chnk v \<noteq> v_num_elements v"
    using assms(2) by (metis mod_mult_self2_is_0)
  ultimately show ?thesis using rep_vctr(1,2) [OF assms(1)]
    by (simp add: vctr_put_chunk_def seq_assoc run Q_MAX_NUM_TABLESPACES_def Let_def)
qed

lemma plain_step_put_chunk:
  assumes inv: "plain_inv s u v xs" and ok: "vcmd_ok s u v (VPutChunk cm n)" and len: "length xs + n < 2 ^ 32 - 1"
    and open_v: "\<not> v_is_eov v" and full: "length xs mod v_max_num_in_chnk v = 0"
  shows "\<exists>s' v' xs'. vctr_put_chunk 0 u cm n s = (Inr cm, s') \<and> plain_inv s' u v' xs' \<and> others_same u s s' \<and>
    same_shape v v' \<and> length xs' \<le> length xs + n"
proof -
  have i: "rt_ok s" "vec_rep s u v xs" "plain_attrs v" "v_is_memo v \<longleftrightarrow> 0 < v_memo_len v" "\<And>b. q_can_alloc s b"
    using inv by (auto simp: plain_inv_def)
  obtain ys where ys: "length ys = n" "\<forall>y \<in> set ys. length y = v_width v" "source s u (v_width v) (cm_data cm) ys"
    using ok by (auto simp: buffer_def)
  have cm: "\<not> cm_is_stealable cm" "cm_size cm = v_width v * v_max_num_in_chnk v" "ys \<noteq> []"
    "length ys \<le> v_max_num_in_chnk v" "length xs + length ys < 2 ^ 32 - 1" using ok ys(1) len by auto
  let ?v = "(v_appended v (length xs + length ys))\<lparr>v_is_eov := length ys < v_max_num_in_chnk v\<rparr>"
  obtain s' where s': "vctr_put_chunk 0 u cm (length ys) s = (Inr cm, s')" "rt_ok s'" "vec_rep s' u ?v (xs @ ys)" "others_same u s s'"
    by (rule put_chunk_run [OF i(1,2,5) open_v full cm ys(2,3)])
  have "same_shape v ?v" "v_is_memo ?v \<longleftrightarrow> 0 < v_memo_len ?v" using appended_same [of v] i(4) by (simp_all add: same_shape_def)
  then show ?thesis
    using s' plain_appended(1) [OF i(3,4) open_v] i(5) os_env [of u s s'] cm(3) ys(1)
    by (intro exI [of _ s'] exI [of _ ?v] exI [of _ "xs @ ys"]) (simp add: plain_inv_def)
qed

lemma plain_step_eov:
  assumes inv: "plain_inv s u v xs" and ne: "xs \<noteq> []" and open_v: "\<not> v_is_eov v"
  shows "\<exists>s' v' xs'. vctr_eov 0 u s = (Inr (), s') \<and> plain_inv s' u v' xs' \<and> others_same u s s' \<and>
    same_shape v v' \<and> length xs' \<le> length xs"
proof -
  have i: "rt_ok s" "vec_rep s u v xs" "plain_attrs v" "v_is_memo v \<longleftrightarrow> 0 < v_memo_len v" "\<And>b. q_can_alloc s b"
    using inv by (auto simp: plain_inv_def)
  let ?v = "(v_aged v)\<lparr>v_is_eov := True\<rparr>"
  obtain s' where s': "vctr_eov 0 u s = (Inr (), s')" "rt_ok s'" "vec_rep s' u ?v xs" "others_same u s s'"
    by (rule eov_run [OF i(1,2) ne open_v])
  have "same_shape v ?v" "v_is_memo ?v \<longleftrightarrow> 0 < v_memo_len ?v" using i(4) by (simp_all add: same_shape_def v_aged_def)
  then show ?thesis
    using s' plain_aged [OF i(3,4)] i(5) os_env [of u s s'] ne
    by (intro exI [of _ s'] exI [of _ ?v] exI [of _ xs]) (simp add: plain_inv_def)
qed

text \<open>A limit on the history can be set while there are no elements.  A nonzero \<open>int\<close> is a nonzero
  \<open>uint32_t\<close>.\<close>

lemma int_as_uint32:
  fixes k :: int
  assumes "k \<noteq> 0" "- (2 ^ 31) \<le> k" "k < 2 ^ 31"
  shows "0 < nat (k mod 2 ^ 32)" "nat (k mod 2 ^ 32) < 2 ^ 32"
proof -
  have "k mod 2 ^ 32 = (if k < 0 then k + 2 ^ 32 else k)"
  proof (cases "k < 0")
    case True
    have "k mod 2 ^ 32 = (k + 2 ^ 32) mod 2 ^ 32" by simp
    also have "\<dots> = k + 2 ^ 32" by (rule mod_pos_pos_trivial) (use True assms in simp_all)
    finally show ?thesis using True by simp
  qed (use assms in simp)
  then show "0 < nat (k mod 2 ^ 32)" "nat (k mod 2 ^ 32) < 2 ^ 32" using assms by (auto simp: nat_less_iff)
qed

lemma plain_step_memo:
  assumes inv: "plain_inv s u v xs" and k: "- (2 ^ 31) \<le> k" "k < 2 ^ 31"
  shows "vctr_set_memo 0 u k s = (Inl (Status (- 1)), s) \<or> (\<exists>s' v' xs'. vctr_set_memo 0 u k s = (Inr (), s') \<and>
    plain_inv s' u v' xs' \<and> others_same u s s' \<and> same_shape v v' \<and> length xs' \<le> length xs)"
proof (cases "xs = [] \<and> \<not> v_is_memo v \<and> k \<noteq> 0")
  case True
  have i: "rt_ok s" "vec_rep s u v xs" "plain_attrs v" "\<And>b. q_can_alloc s b" "\<not> v_is_eov v"
    using inv True by (auto simp: plain_inv_def)
  let ?f = "v_is_memo_update (\<lambda>_. True) \<circ> v_memo_len_update (\<lambda>_. nat (k mod 2 ^ 32))"
  let ?s = "vctr_upd 0 u ?f s"
  have v: "u \<noteq> 0" "map_of (q_vctrs s 0) u = Some v" "wf_vctr v 0" "v_max_chnk_idx v = 0"
    using rep_vctr [OF i(2)] i(2) True by (auto simp: vec_rep_def)
  then have "vctr_set_memo 0 u k s = (Inr (), ?s)"
    using True by (simp add: vctr_set_memo_def run Q_MAX_NUM_TABLESPACES_def wf_vctr_def ret_def)
  moreover have pos: "0 < nat (k mod 2 ^ 32)" "nat (k mod 2 ^ 32) < 2 ^ 32"
    using int_as_uint32 [of k] k True by simp_all
  have "vec_rep ?s u (?f v) xs" by (rule vec_rep_mod_vctr [OF i(2)]) (use v(3) pos True in \<open>auto simp: wf_vctr_def\<close>)
  moreover have "plain_attrs (?f v)" using i(3) v(3,4) pos by (auto simp: plain_attrs_def wf_vctr_def)
  ultimately show ?thesis
    using i pos True others_same_mod_vctr [of u s ?f]
    by (intro disjI2 exI [of _ ?s] exI [of _ "?f v"] exI [of _ xs]) (simp add: plain_inv_def same_shape_def)
next
  case False
  have i: "vec_rep s u v xs" using inv by (simp add: plain_inv_def)
  note v = rep_vctr [OF i]
  have "vctr_set_memo 0 u k s = (Inl (Status (- 1)), s) \<or> vctr_set_memo 0 u k s = (Inr (), s)"
    using v False by (auto simp: vctr_set_memo_def run Q_MAX_NUM_TABLESPACES_def wf_vctr_def ret_def)
  then show ?thesis using inv same_shape_refl others_same_refl by (metis order_refl)
qed

lemma plain_step:
  assumes inv: "plain_inv s u v xs" and ok: "vcmd_ok s u v c" and len: "length xs + vcmd_len c < 2 ^ 32 - 1"
    and q: "v_qtype v \<noteq> B1"
  shows "\<exists>st s' v' xs'. attempt (vcmd_run u c) s = (Inr st, s') \<and> plain_inv s' u v' xs' \<and> others_same u s s' \<and>
    same_shape v v' \<and> length xs' \<le> length xs + vcmd_len c"
proof -
  have rep: "vec_rep s u v xs" and rt: "rt_ok s" and e: "xs = [] \<longrightarrow> \<not> v_is_eov v" using inv by (auto simp: plain_inv_def)
  note r = rep_vctr [OF rep] and same = plain_step_same [OF inv] and go = plain_step_done
  show ?thesis
  proof (cases c)
    case (VPut1 x)
    show ?thesis
    proof (cases "v_is_eov v")
      case True
      show ?thesis by (rule same [of c "Inl (Status (- 1))"]) (use eov_closed(1) [OF r(2) True r(1)] VPut1 in simp_all)
    next
      case False
      then show ?thesis using plain_step_put1 [OF inv, of x] ok len go [of u c s] by (fastforce simp: VPut1)
    qed
  next
    case (VPutn X n)
    have X: "X \<noteq> None" "n \<noteq> 0" using ok VPutn by (auto simp: buffer_def source_def)
    show ?thesis
    proof (cases "v_is_eov v")
      case True
      show ?thesis by (rule same [of c "Inl (Status (- 1))"]) (use eov_closed(2) [OF r(2) True r(1) X(2,1)] VPutn in simp_all)
    next
      case False
      then show ?thesis using plain_step_putn [OF inv, of n X] ok len go [of u c s] by (fastforce simp: VPutn simp del: vctr_putn.simps)
    qed
  next
    case (VPutChunk cm n)
    show ?thesis
    proof (cases "v_is_eov v \<or> length xs mod v_max_num_in_chnk v \<noteq> 0")
      case True
      then have "vctr_put_chunk 0 u cm n s = (Inl (Status (- 1)), s)"
        using eov_closed(3) [OF r(2) _ r(1)] put_chunk_unaligned [OF rep] by blast
      then have "vcmd_run u c s = (Inl (Status (- 1)), s)" using VPutChunk by (simp add: seq_Inl)
      then show ?thesis by (rule same) simp
    next
      case False
      then obtain s' v' xs' where s': "vctr_put_chunk 0 u cm n s = (Inr cm, s')" "plain_inv s' u v' xs'" "others_same u s s'"
        "same_shape v v'" "length xs' \<le> length xs + n"
        using plain_step_put_chunk [OF inv, of cm n] ok len by (auto simp: VPutChunk)
      have "vcmd_run u c s = (Inr (), s')" using VPutChunk by (simp add: seq_Inr [of "vctr_put_chunk 0 u cm n" s, OF s'(1)] ret_def)
      from go [OF this s'(2-4)] show ?thesis using s'(5) VPutChunk by simp
    qed
  next
    case VEov
    show ?thesis
    proof (cases "v_is_eov v \<or> xs = []")
      case True
      have "vctr_eov 0 u s = (if v_is_eov v then Inr () else Inl (Status (- 1)), s)"
        using True r e by (auto simp: vctr_eov_def run Q_MAX_NUM_TABLESPACES_def ret_def wf_vctr_def)
      then have "vcmd_run u c s = (if v_is_eov v then Inr () else Inl (Status (- 1)), s)" using VEov by simp
      then show ?thesis by (rule same) (simp split: if_splits)
    next
      case False
      then show ?thesis using plain_step_eov [OF inv] go [of u c s] by (fastforce simp: VEov)
    qed
  next
    case (VGet1 i)
    obtain r0 where "vctr_get1 0 u i s = (r0, s)" "\<And>e. r0 = Inl e \<Longrightarrow> e = Status (- 1)"
      using get1_any [OF rt rep q, of i] by blast
    then have "\<exists>r1. vcmd_run u c s = (r1, s) \<and> (\<forall>e. r1 = Inl e \<longrightarrow> e = Status (- 1))"
      using VGet1 by (cases r0) (auto simp: seq_Inr seq_Inl ret_def)
    then show ?thesis using same by blast
  next
    case (VMemo k)
    have "- (2 ^ 31) \<le> k" "k < 2 ^ 31" using ok VMemo by auto
    from plain_step_memo [OF inv this] show ?thesis
    proof (elim disjE exE conjE)
      assume "vctr_set_memo 0 u k s = (Inl (Status (- 1)), s)"
      then have "vcmd_run u c s = (Inl (Status (- 1)), s)" using VMemo by simp
      then show ?thesis by (rule same) simp
    next
      fix s' v' xs' assume *: "vctr_set_memo 0 u k s = (Inr (), s')" "plain_inv s' u v' xs'" "others_same u s s'" "same_shape v v'"
        "length xs' \<le> length xs"
      show ?thesis by (rule go [OF _ *(2-4)]) (use * VMemo in simp_all)
    qed
  qed
qed

lemma plain_steps:
  assumes "plain_inv s u v xs" "\<forall>c \<in> set cs. vcmd_ok s u v c" "length xs + sum_list (map vcmd_len cs) < 2 ^ 32 - 1"
    "v_qtype v \<noteq> B1"
  shows "\<exists>s' v' xs'. vcmds_run u cs s = (Inr (), s') \<and> plain_inv s' u v' xs' \<and> others_same u s s' \<and>
    same_shape v v' \<and> length xs' \<le> length xs + sum_list (map vcmd_len cs)"
  using assms
proof (induction cs arbitrary: s v xs)
  case Nil
  then show ?case
    by (intro exI [of _ s] exI [of _ v] exI [of _ xs]) (simp add: vcmds_run_def ret_def)
next
  case (Cons c cs)
  obtain st s1 v1 xs1 where s1: "attempt (vcmd_run u c) s = (Inr st, s1)" "plain_inv s1 u v1 xs1" "others_same u s s1"
    "same_shape v v1" "length xs1 \<le> length xs + vcmd_len c"
    using plain_step [OF Cons.prems(1), of c] Cons.prems(2-4) by auto
  have "\<forall>c \<in> set cs. vcmd_ok s1 u v1 c" using Cons.prems(2) vcmd_ok_later [OF _ s1(3,4)] by auto
  moreover have "length xs1 + sum_list (map vcmd_len cs) < 2 ^ 32 - 1" "v_qtype v1 \<noteq> B1"
    using s1(4,5) Cons.prems(3,4) by (auto simp: same_shape_def)
  ultimately obtain s2 v2 xs2 where s2: "vcmds_run u cs s1 = (Inr (), s2)" "plain_inv s2 u v2 xs2" "others_same u s1 s2"
    "same_shape v1 v2" "length xs2 \<le> length xs1 + sum_list (map vcmd_len cs)"
    using Cons.IH [OF s1(2)] by blast
  have "vcmds_run u (c # cs) s = (Inr (), s2)"
    using s2(1) by (simp add: vcmds_run_def seq_assoc seq_Inr [of "attempt (vcmd_run u c)" s, OF s1(1)])
  then show ?case using s2 s1 others_same_trans same_shape_trans by (intro exI [of _ s2] exI [of _ v2] exI [of _ xs2]) force
qed

text \<open>C25. The consistency check accepts what the operations leave behind: after \<open>vctr_add\<close> has accepted
  a vector (of the width of its type, or of strings of any width, but not of bits), and after any sequence of
  \<open>vctr_put1\<close>, \<open>vctr_putn\<close>, \<open>vctr_put_chunk\<close>, \<open>vctr_eov\<close>, \<open>vctr_get1\<close> and \<open>vctr_set_memo\<close> on it, some
  of which may have been refused with a status, \<open>vctr_chk\<close> returns 0 and changes nothing.\<close>

theorem vctr_chk_accepts:
  assumes "rt_ok s" "\<And>b. q_can_alloc s b" "u = Suc (q_vctr_uqid s)" "u < 2 ^ 32"
    "map_of (q_vctrs s 0) u = None" "\<And>k. map_of (q_chnks s 0) (ckey u k) = None"
    "v = added_vctr q w m is_memo memo_len is_killable num_kill is_early num_free"
    "add_accepts q w m is_memo memo_len is_killable num_kill is_early num_free"
    "q \<noteq> B1" "q = SC \<or> w = 0 \<or> w = get_width_c_qtype q" "memo_len < 2 ^ 31"
    "v_width v * v_max_num_in_chnk v \<le> 1073741824" "\<forall>c \<in> set cs. vcmd_ok s u v c"
    "sum_list (map vcmd_len cs) + v_max_num_in_chnk v < 2 ^ 32"
  shows "\<exists>s1 s2. vctr_add q w m is_memo memo_len is_killable num_kill is_early num_free s = (Inr u, s1) \<and>
    vcmds_run u cs s1 = (Inr (), s2) \<and> vctr_chk 0 u s2 = (Inr (), s2)"
proof -
  have v: "0 < v_width v" "v_qtype v = q" "0 < v_max_num_in_chnk v" "v_is_memo v \<longleftrightarrow> 0 < v_memo_len v" "\<not> v_is_eov v"
    using assms(7-9) by (auto simp: added_vctr_def zero_vctr_def add_accepts_def Let_def split: if_splits)
  obtain s1 where s1: "vctr_add q w m is_memo memo_len is_killable num_kill is_early num_free s = (Inr u, s1)"
    "rt_ok s1" "vec_rep s1 u v []" "others_same u s s1"
    unfolding assms(3)
    by (rule vctr_add_fresh [OF assms(1,8) _ assms(5,6) [unfolded assms(3)] assms(7) v(1) assms(12,11)])
      (use assms(3,4) in \<open>simp_all\<close>)
  have inv: "plain_inv s1 u v []"
    unfolding plain_inv_def using s1(2,3) v(4,5) plain_added [OF assms(8-10)] assms(2,7) os_env [OF s1(4)] by auto
  have "\<forall>c \<in> set cs. vcmd_ok s1 u v c" using assms(13) vcmd_ok_later [OF _ s1(4) same_shape_refl] by blast
  moreover have "length ([] :: byte list list) + sum_list (map vcmd_len cs) < 2 ^ 32 - 1" using assms(14) v(3) by simp
  ultimately obtain s2 v2 xs where s2: "vcmds_run u cs s1 = (Inr (), s2)" "plain_inv s2 u v2 xs" "same_shape v v2"
    "length xs \<le> sum_list (map vcmd_len cs)"
    using plain_steps [OF inv] assms(9) v(2) by fastforce
  have "vctr_chk 0 u s2 = (Inr (), s2)"
    by (rule vctr_chk_rep [of s2 u v2 xs]) (use s2 assms(14) in \<open>auto simp: plain_inv_def same_shape_def\<close>)
  then show ?thesis using s1(1) s2(1) by blast
qed

text \<open>A vector with a limit on its history: 150 elements in bulk, of which the first two chunks are given up, a chunk
  that is refused because the last one is not full, one more element, the end, and a put that is refused.\<close>

lemma vctr_chk_accepts_witness:
  "\<exists>s1 s2. vctr_add I4 4 64 True 1 False 0 False 0 (demo_st (demo_vctr 0) (concat (replicate 150 [1, 2, 3, 4]))) = (Inr 2, s1) \<and>
     vcmds_run 2 [VPutn (Some (0, 0)) 150, VPutChunk demo_cmem 2, VPut1 (demo_sclr [1, 2, 3, 4]), VEov, VPut1 (demo_sclr [5, 6, 7, 8])] s1 = (Inr (), s2) \<and>
     vctr_chk 0 2 s2 = (Inr (), s2)"
proof -
  let ?v = "added_vctr I4 4 64 True 1 False 0 False 0" let ?ys = "replicate 150 [1, 2, 3, 4 :: byte]"
  let ?s = "demo_st (demo_vctr 0) (concat ?ys)"
  let ?cs = "[VPutn (Some (0, 0)) 150, VPutChunk demo_cmem 2, VPut1 (demo_sclr [1, 2, 3, 4]), VEov, VPut1 (demo_sclr [5, 6, 7, 8])]"
  have v: "v_width ?v = 4" "v_max_num_in_chnk ?v = 64" "v_qtype ?v = I4" by (simp_all add: added_vctr_def zero_vctr_def)
  have st: "q_vctr_uqid ?s = 1" "map_of (q_vctrs ?s 0) 2 = None" "\<And>k. map_of (q_chnks ?s 0) (ckey 2 k) = None"
    by (simp_all add: demo_st_def)
  have buf: "buffer ?s 2 4 (Some (0, 0)) n" if "n \<le> 150" for n
  proof -
    have w: "\<forall>y \<in> set (replicate k [1, 2, 3, 4 :: byte]). length y = 4" for k by simp
    have l: "length (concat (replicate k [1, 2, 3, 4 :: byte])) = 4 * k" for k using length_concat_const [OF w] by simp
    have e: "?ys = replicate n [1, 2, 3, 4] @ replicate (150 - n) [1, 2, 3, 4]" using that by (simp add: replicate_add [symmetric])
    have t: "take (4 * n) (concat ?ys) = concat (replicate n [1, 2, 3, 4])"
      unfolding e concat_append using l [of n] by simp
    have h: "q_heap ?s 0 = Some (Mem (concat ?ys))" "not_mine 2 ?s 0" by (simp_all add: demo_st_def not_mine_def owns_def)
    have "4 * n \<le> length (concat ?ys)" unfolding l using that by simp
    then show ?thesis
      unfolding buffer_def source_def using h t w
      by (intro exI [of _ "replicate n [1, 2, 3, 4]"] conjI exI [of _ 0] exI [of _ "concat ?ys"]) simp_all
  qed
  have ok: "\<forall>c \<in> set ?cs. vcmd_ok ?s 2 ?v c"
    using buf [of 150] buf [of 2] by (simp add: v demo_cmem_def sclr_fits_def demo_sclr_def)
  have acc: "add_accepts I4 4 64 True 1 False 0 False 0" by (simp add: add_accepts_def)
  have n: "2 = Suc (q_vctr_uqid ?s)" "(2 :: nat) < 2 ^ 32" "(1 :: int) < 2 ^ 31" "v_width ?v * v_max_num_in_chnk ?v \<le> 1073741824"
    "sum_list (map vcmd_len ?cs) + v_max_num_in_chnk ?v < 2 ^ 32" "I4 \<noteq> B1" "I4 = SC \<or> 4 = (0 :: nat) \<or> 4 = get_width_c_qtype I4"
    using st(1) by (simp_all add: v get_width_c_qtype_def)
  show ?thesis
    by (rule vctr_chk_accepts [OF demo_ok demo_can n(1,2) st(2,3) refl acc n(6,7,3,4) ok n(5)])
qed

subsection \<open>Early freeing\<close>

lemma kept_from_mod_vctr: "kept_from (vctr_upd 0 u f s) u v xs j K = kept_from s u v xs j K"
  by (simp add: kept_from_def chnk_rep_def)

text \<open>A chunk nobody asked to spare is deleted, and the history begins after it.\<close>

lemma early_free_one_run:
  assumes kept: "kept_from s u v xs j K" and v: "map_of (q_vctrs s 0) u = Some v'" and v': "v' = v\<lparr>v_min_chnk_idx := j\<rparr>"
    and wf: "wf_vctr v n" and jK: "j \<le> K" "K < 2 ^ 32 - 1" and spare: "v_num_free_ignore v = 0"
  obtains s' where "early_free_one 0 u j s = (Inr (), s')" "kept_from s' u v xs (Suc j) K" "others_same u s s'"
    "map_of (q_vctrs s' 0) u = Some (v\<lparr>v_min_chnk_idx := Suc j\<rparr>)"
proof -
  have ok: "rt_ok s" using kept by (simp add: kept_from_def)
  have "chnk_rep s u v xs j" using kept jK by (simp add: kept_from_def)
  then obtain c where c: "map_of (q_chnks s 0) (ckey u j) = Some c" "c_l1_mem c \<noteq> None" "c_num_free_ignore c = 0"
     "c_num_readers c = 0" "c_num_writers c = 0" "\<not> c_l2_exists c" "c_size c = v_width v * v_max_num_in_chnk v"
    using spare unfolding chnk_rep_def by auto
  from c(2) obtain p where p: "c_l1_mem c = Some p" by auto
  obtain b where b: "c_l1_mem c = Some (b, 0)" using rt_block [OF ok c(1) p] p by auto
  have sz: "0 < c_size c" "c_size c \<le> 1073741824" using wf c(7) by (auto simp: wf_vctr_def)
  have own: "owns s 0 (ckey u j) b" using c(1) b by (auto simp: owns_def)
  obtain s1 where s1: "chnk_del 0 u j False s = (Inr (), s1)" "rt_ok s1" "chnk_gone u j b s s1"
    by (rule chnk_del_run [OF ok _ c(1) b c(4-6) sz]) (use v in auto)
  let ?s2 = "vctr_upd 0 u (v_min_chnk_idx_update (\<lambda>_. u32 (j + 1))) s1"
  have run: "early_free_one 0 u j s = (Inr (), ?s2)"
    unfolding early_free_one_def using c b
    by (simp add: run Q_MAX_NUM_TABLESPACES_def seq_assoc seq_Inr [of "chnk_del 0 u j False" s, OF s1(1)])
  have "kept_from s1 u v xs (Suc j) K"
    unfolding kept_from_def
  proof (intro conjI allI impI)
    show "chnk_rep s1 u v xs k" if "Suc j \<le> k \<and> k \<le> K" for k
      using that kept chnk_gone_rep [OF ok s1(3) own, of v xs k] by (simp add: kept_from_def)
    show "Suc j \<le> k" "k \<le> K" if "map_of (q_chnks s1 0) (ckey u k) \<noteq> None" for k
    proof -
      have "k \<noteq> j" "map_of (q_chnks s 0) (ckey u k) \<noteq> None"
        using that s1(3) by (auto simp: chnk_gone_def split: if_splits)
      then have "j \<le> k" "k \<noteq> j" "k \<le> K" using kept by (auto simp: kept_from_def)
      then show "Suc j \<le> k" "k \<le> K" by auto
    qed
  qed (rule s1(2))
  moreover have "map_of (q_vctrs ?s2 0) u = Some (v\<lparr>v_min_chnk_idx := Suc j\<rparr>)"
    using v v' s1(3) jK by (simp add: chnk_gone_def)
  ultimately show ?thesis
    using that [of ?s2] run others_same_trans [OF chnk_gone_others [OF ok s1(3) own] others_same_mod_vctr]
    by (simp add: kept_from_mod_vctr)
qed

lemma early_free_loop:
  assumes "kept_from s u v xs j K" "map_of (q_vctrs s 0) u = Some (v\<lparr>v_min_chnk_idx := j\<rparr>)"
    "wf_vctr v n" "j + d \<le> Suc K" "K < 2 ^ 32 - 1" "v_num_free_ignore v = 0"
  shows "\<exists>s'. for_each [j..<j + d] (early_free_one 0 u) s = (Inr (), s') \<and> kept_from s' u v xs (j + d) K \<and>
    others_same u s s' \<and> map_of (q_vctrs s' 0) u = Some (v\<lparr>v_min_chnk_idx := j + d\<rparr>)"
  using assms
proof (induction d arbitrary: s j)
  case 0
  then show ?case by (simp add: ret_def)
next
  case (Suc d)
  have jK: "j \<le> K" using Suc.prems(4) by simp
  obtain s1 where s1: "early_free_one 0 u j s = (Inr (), s1)" "kept_from s1 u v xs (Suc j) K" "others_same u s s1"
    "map_of (q_vctrs s1 0) u = Some (v\<lparr>v_min_chnk_idx := Suc j\<rparr>)"
    by (rule early_free_one_run [OF Suc.prems(1,2) refl Suc.prems(3) jK Suc.prems(5,6)])
  obtain s2 where s2: "for_each [Suc j..<Suc j + d] (early_free_one 0 u) s1 = (Inr (), s2)"
    "kept_from s2 u v xs (Suc j + d) K" "others_same u s1 s2"
    "map_of (q_vctrs s2 0) u = Some (v\<lparr>v_min_chnk_idx := Suc j + d\<rparr>)"
    using Suc.IH [OF s1(2,4) Suc.prems(3) _ Suc.prems(5,6)] Suc.prems(4) by auto
  have "for_each [j..<j + Suc d] (early_free_one 0 u) s = (Inr (), s2)"
    using s2(1) by (simp add: upt_conv_Cons seq_Inr [of "early_free_one 0 u j" s, OF s1(1)] del: upt_Suc)
  then show ?case using s2 s1 others_same_trans by auto
qed

lemma chk_meta_early:
  assumes wf: "wf_vctr v n" and K: "v_max_chnk_idx v = (n - 1) div v_max_num_in_chnk v" and n: "0 < n"
    and j: "0 < j" "j \<le> Suc (v_max_chnk_idx v)" and memo: "\<not> v_is_memo v"
  shows "chk_meta (v\<lparr>v_min_chnk_idx := j\<rparr>) s = (Inl (Status (- 1)), s)"
proof (cases "v_max_chnk_idx v < j")
  case True
  then show ?thesis by (simp add: chk_meta_def)
next
  case False
  let ?v = "v\<lparr>v_min_chnk_idx := j\<rparr>" let ?m = "v_max_num_in_chnk v" let ?K = "v_max_chnk_idx v"
  have v: "0 < ?m" "n < 2 ^ 32 - 1" "v_num_elements v = n" and wf': "wf_vctr ?v n"
    using wf False by (auto simp: wf_vctr_def)
  have c: "chk_num_chnks ?v = Suc ?K - j" using chk_num_chnks_run(1) [OF wf'] K n by simp
  have "?K * ?m < n" unfolding K by (rule chunk_bounds(1) [OF v(1) n])
  moreover have "(Suc ?K - j) * ?m \<le> ?K * ?m" using j by (intro mult_le_mono1) simp
  ultimately have "(Suc ?K - j) * ?m < n" by linarith
  then have "u32 (chk_num_chnks ?v * ?m) < n" unfolding c u32_def by (metis le_less_trans mod_less_eq_dividend)
  then show ?thesis unfolding chk_meta_def using memo v(3) by simp
qed

lemma early_free_run:
  assumes ok: "rt_ok s" and rep: "vec_rep s u v xs" and ne: "xs \<noteq> []" and eov: "\<not> v_is_eov v"
    and free: "v_is_early_freeable v" "v_num_free_ignore v = 0"
    and ub: "v_min_chnk_idx v \<le> ub" "ub \<le> v_max_chnk_idx v"
  obtains s' where "vctr_early_free 0 u ub s = (Inr (), s')" "kept_from s' u v xs (Suc ub) (v_max_chnk_idx v)"
    "others_same u s s'" "map_of (q_vctrs s' 0) u = Some (v\<lparr>v_min_chnk_idx := Suc ub\<rparr>)"
proof -
  have v: "map_of (q_vctrs s 0) u = Some v" and wf: "wf_vctr v (length xs)" using rep_vctr [OF rep] by auto
  let ?K = "v_max_chnk_idx v" let ?j = "v_min_chnk_idx v"
  have "?K \<le> length xs - 1" unfolding rep_nonempty(1) [OF rep ne] by (rule div_le_dividend)
  moreover have "length xs < 2 ^ 32 - 1" using wf unfolding wf_vctr_def by blast
  ultimately have K: "?K < 2 ^ 32 - 1" by linarith
  have "vec_core s u v xs ?K" using rep ne by (auto simp: vec_rep_def vec_core_def)
  then have kept: "kept_from s u v xs ?j ?K" using ok by (auto simp: kept_from_def vec_core_def)
  have same: "v\<lparr>v_min_chnk_idx := ?j\<rparr> = v" by simp
  obtain s' where s': "for_each [?j..<?j + (Suc ub - ?j)] (early_free_one 0 u) s = (Inr (), s')"
    "kept_from s' u v xs (?j + (Suc ub - ?j)) ?K" "others_same u s s'"
    "map_of (q_vctrs s' 0) u = Some (v\<lparr>v_min_chnk_idx := ?j + (Suc ub - ?j)\<rparr>)"
    using early_free_loop [of s u v xs ?j ?K "length xs" "Suc ub - ?j"] kept v same wf ub K free(2) by auto
  have e: "?j + (Suc ub - ?j) = Suc ub" using ub by simp
  have "ub < UINT_MAX" using ub K by (simp add: UINT_MAX_def)
  then have "vctr_early_free 0 u ub s = (Inr (), s')"
    using v wf eov free(1) ne ub s'(1) unfolding vctr_early_free_def e
    by (simp add: run Q_MAX_NUM_TABLESPACES_def wf_vctr_def for_upto_def del: upt_Suc)
  then show ?thesis using that s'(2-4) unfolding e by blast
qed

lemma kept_from_rep:
  assumes kept: "kept_from s u v xs j (v_max_chnk_idx v)" and rep: "vec_rep s0 u v xs" and ne: "xs \<noteq> []"
    and j: "j \<le> v_max_chnk_idx v" and v: "map_of (q_vctrs s 0) u = Some (v\<lparr>v_min_chnk_idx := j\<rparr>)"
  shows "vec_rep s u (v\<lparr>v_min_chnk_idx := j\<rparr>) xs"
proof -
  have reps: "chnk_rep s u (v\<lparr>v_min_chnk_idx := j\<rparr>) xs k = chnk_rep s u v xs k" for k by (simp add: chnk_rep_def)
  show ?thesis
    using kept rep ne j v rep_nonempty(1) [OF rep ne] rep_vctr [OF rep] unfolding vec_rep_def vec_core_def reps
    by (auto simp: kept_from_def wf_vctr_def)
qed

lemma vctr_chk_early:
  assumes v: "map_of (q_vctrs s 0) u = Some (v\<lparr>v_min_chnk_idx := j\<rparr>)" and rep: "vec_rep s0 u v xs" and ne: "xs \<noteq> []"
    and plain: "plain_attrs v" "\<not> v_is_memo v" and j: "0 < j" "j \<le> Suc (v_max_chnk_idx v)"
  shows "vctr_chk 0 u s = (Inl (Status (- 1)), s)"
proof -
  let ?v = "v\<lparr>v_min_chnk_idx := j\<rparr>"
  have "chk_width ?v = chk_width v" by (simp add: chk_width_def)
  then have w: "chk_width ?v s = (Inr (), s)" using chk_width_run [OF plain(1), of s] by simp
  note r = rep_vctr [OF rep]
  have meta: "chk_meta ?v s = (Inl (Status (- 1)), s)"
    by (rule chk_meta_early [OF r(3) rep_nonempty(1) [OF rep ne] _ j plain(2)]) (use ne in simp)
  show ?thesis
    unfolding vctr_chk_def using v r ne
    by (simp add: run Q_MAX_NUM_TABLESPACES_def seq_Inr [of "chk_width ?v" s, OF w]
        seq_Inl [of "chk_meta ?v" s, OF meta] wf_vctr_def)
qed

text \<open>\<open>vctr_early_free\<close> does more than its comments say, and the check does not know it: it frees
  all chunks up to and including the bound it is given, the most recent chunk of the vector among
  them if that is the bound, and every vector it has worked on (without a limit on its history)
  fails \<open>vctr_chk\<close>, although the elements after the bound are all there.\<close>

theorem early_free_includes_bound:
  assumes "rt_ok s" "vec_rep s u v xs" "xs \<noteq> []" "\<not> v_is_eov v" "v_is_early_freeable v" "v_num_free_ignore v = 0"
    "v_min_chnk_idx v \<le> ub" "ub \<le> v_max_chnk_idx v" "plain_attrs v" "\<not> v_is_memo v"
  shows "\<exists>s'. vctr_early_free 0 u ub s = (Inr (), s') \<and> rt_ok s' \<and>
    (\<forall>k. k \<le> ub \<longrightarrow> map_of (q_chnks s' 0) (ckey u k) = None) \<and>
    (ub < v_max_chnk_idx v \<longrightarrow> vec_rep s' u (v\<lparr>v_min_chnk_idx := Suc ub\<rparr>) xs) \<and>
    vctr_chk 0 u s' = (Inl (Status (- 1)), s')"
proof -
  obtain s' where s': "vctr_early_free 0 u ub s = (Inr (), s')" "kept_from s' u v xs (Suc ub) (v_max_chnk_idx v)"
    "others_same u s s'" "map_of (q_vctrs s' 0) u = Some (v\<lparr>v_min_chnk_idx := Suc ub\<rparr>)"
    by (rule early_free_run [OF assms(1-8)])
  have "vctr_chk 0 u s' = (Inl (Status (- 1)), s')"
    by (rule vctr_chk_early [OF s'(4) assms(2,3,9,10)]) (use assms(8) in simp_all)
  moreover have "ub < v_max_chnk_idx v \<longrightarrow> vec_rep s' u (v\<lparr>v_min_chnk_idx := Suc ub\<rparr>) xs"
    using kept_from_rep [OF s'(2) assms(2,3) _ s'(4)] by auto
  moreover have "map_of (q_chnks s' 0) (ckey u k) = None" if "k \<le> ub" for k
    using s'(2) that unfolding kept_from_def by (metis not_less_eq_eq)
  ultimately show ?thesis using s'(1,2) by (auto simp: kept_from_def)
qed

lemma early_free_includes_bound_witness:
  "\<exists>s'. vctr_early_free 0 1 0 (full_st True) = (Inr (), s') \<and> map_of (q_chnks s' 0) (ckey 1 0) = None \<and>
     vctr_chk 0 1 s' = (Inl (Status (- 1)), s')"
proof -
  have "\<not> v_is_eov (full_vctr True)" "v_is_early_freeable (full_vctr True)" "v_num_free_ignore (full_vctr True) = 0"
    "v_min_chnk_idx (full_vctr True) \<le> 0" "0 \<le> v_max_chnk_idx (full_vctr True)" "\<not> v_is_memo (full_vctr True)"
    by (simp_all add: full_vctr_def demo_vctr_def zero_vctr_def)
  then show ?thesis
    using early_free_includes_bound [OF full_ok [of True] full_rep [of True], where ub = 0] plain_full [of True] by blast
qed

end
