(* ===== verification/Chnk_Level.thy ===== *)
theory Chnk_Level
  imports Vec_Demo
begin

text \<open>
  A chunk on its way between memory (level 1) and its file (level 2): what is flushed, dropped and
  loaded again is what was there, unless it was changed after the first flush.
\<close>

text \<open>A chunk in memory with the bytes \<open>D\<close>, and the state it needs to move.\<close>

definition in_mem :: "qst \<Rightarrow> nat \<Rightarrow> nat \<Rightarrow> chnk \<Rightarrow> nat \<Rightarrow> byte list \<Rightarrow> string \<Rightarrow> bool" where
  "in_mem s u i c b D f = (map_of (q_chnks s 0) (ckey u i) = Some c \<and> c_l1_mem c = Some (b, 0) \<and>
     q_heap s b = Some (Mem D) \<and> length D = c_size c \<and> 0 < c_size c \<and> c_size c \<le> 1073741824 \<and>
     c_num_writers c = 0 \<and> q_mem_lock s = 0 \<and> l2_name s 0 u i = Some f \<and> f \<noteq> [] \<and> q_can_open s f \<and>
     map_of (q_vctrs s 0) u \<noteq> None \<and> (\<forall>b. q_can_alloc s b) \<and> b < q_next s)"

text \<open>What two states share when only counters, files and chunk records differ.\<close>

definition same_base :: "qst \<Rightarrow> qst \<Rightarrow> bool" where
  "same_base s s' = (q_vctrs s' = q_vctrs s \<and> q_mem_lock s' = q_mem_lock s \<and> q_can_alloc s' = q_can_alloc s \<and>
     q_data_dir_root s' = q_data_dir_root s \<and> q_can_open s' = q_can_open s)"

lemma same_base_refl [simp]: "same_base s s"
  by (simp add: same_base_def)

lemma l2_name_base: "same_base s s' \<Longrightarrow> l2_name s' t u i = l2_name s t u i"
  by (simp add: l2_name_def same_base_def)

text \<open>The first flush writes the file and notes it.\<close>

lemma l1_to_l2_run:
  assumes m: "in_mem s u i c b D f" and new: "q_files s f = None"
  obtains s1 where "chnk_l1_to_l2 0 (ckey u i) s = (Inr (), s1)" "in_mem s1 u i (c\<lparr>c_l2_exists := True\<rparr>) b D f"
    "q_files s1 = (q_files s)(f \<mapsto> D)" "same_base s s1" "q_next s1 = q_next s" "q_heap s1 = q_heap s"
proof -
  let ?k = "ckey u i"
  have c: "map_of (q_chnks s 0) ?k = Some c" "c_l1_mem c = Some (b, 0)" "q_heap s b = Some (Mem D)"
    "length D = c_size c" "0 < c_size c" "l2_name s 0 u i = Some f" "q_can_open s f" "q_mem_lock s = 0"
    using m by (auto simp: in_mem_def)
  let ?s1 = "s\<lparr>q_files := (q_files s)(f \<mapsto> [])\<rparr>" let ?s2 = "s\<lparr>q_files := (q_files s)(f \<mapsto> D)\<rparr>"
  have op: "fopen_wb f s = (Inr True, ?s1)" using c by (simp add: fopen_wb_def)
  have rd: "mem_read (Some (b, 0)) (c_size c) ?s1 = (Inr D, ?s1)"
    using mem_read_run [of ?s1 b D 0 "c_size c"] c by simp
  have fw: "fwrite (Some (b, 0)) (c_size c) True f ?s1 = (Inr (), ?s2)"
    by (simp add: fwrite_def seq_Inr [of "mem_read (Some (b, 0)) (c_size c)" ?s1, OF rd] upd_st_def)
  obtain s3 where s3: "incr_dsk_used (c_size c) ?s2 = (Inr (), s3)" "acct_frame ?s2 s3"
    using incr_dsk_used_run [of ?s2 "c_size c"] acct_frame_used(3) [of ?s2 "c_size c"] c by auto
  let ?s4 = "chnk_upd 0 ?k (c_l2_exists_update (\<lambda>_. True)) s3"
  have "chnk_l1_to_l2 0 ?k s = (Inr (), ?s4)"
    unfolding chnk_l1_to_l2_def store_l2_def
    using c new by (simp add: run Q_MAX_NUM_TABLESPACES_def isfile_def seq_Inr [of "fopen_wb f" s, OF op]
        seq_Inr [of "fwrite (Some (b, 0)) (c_size c) True f" ?s1, OF fw] seq_Inr [of "incr_dsk_used (c_size c)" ?s2, OF s3(1)])
  moreover have "in_mem ?s4 u i (c\<lparr>c_l2_exists := True\<rparr>) b D f"
    using m s3(2) unfolding in_mem_def by (auto simp: acct_frame_def l2_name_def)
  ultimately show ?thesis using that s3(2) by (auto simp: acct_frame_def same_base_def)
qed

text \<open>Every later flush finds the file and does nothing.\<close>

lemma l1_to_l2_again:
  assumes "in_mem s u i c b D f" "q_files s f \<noteq> None"
  shows "chnk_l1_to_l2 0 (ckey u i) s = (Inr (), s)"
  using assms unfolding chnk_l1_to_l2_def
  by (auto simp: in_mem_def run Q_MAX_NUM_TABLESPACES_def isfile_def ret_def)

text \<open>Dropping level 1 frees the memory if there is a file.\<close>

lemma drop_mem_run:
  assumes m: "in_mem s u i c b D f" and l2: "c_l2_exists c"
  obtains s1 where "chnk_drop_mem 0 u i 1 s = (Inr (), s1)"
    "map_of (q_chnks s1 0) (ckey u i) = Some (c\<lparr>c_l1_mem := None\<rparr>)"
    "q_heap s1 = (q_heap s)(b := None)" "q_files s1 = q_files s" "same_base s s1" "q_next s1 = q_next s"
proof -
  let ?k = "ckey u i"
  have c: "map_of (q_chnks s 0) ?k = Some c" "c_l1_mem c = Some (b, 0)" "q_heap s b = Some (Mem D)"
    "0 < c_size c" "c_size c \<le> 1073741824" "q_mem_lock s = 0"
    using m by (auto simp: in_mem_def)
  obtain v where v: "map_of (q_vctrs s 0) u = Some v" using m by (auto simp: in_mem_def)
  let ?s1 = "s\<lparr>q_heap := (q_heap s)(b := None)\<rparr>" let ?s2 = "chnk_upd 0 ?k (c_l1_mem_update (\<lambda>_. None)) ?s1"
  have fr: "mem_free (Some (b, 0)) s = (Inr (), ?s1)" using c(3) by (simp add: mem_free_def)
  obtain s3 where s3: "decr_mem_used (c_size c) ?s2 = (Inr (), s3)" "acct_frame ?s2 s3"
    using decr_mem_used_run [of ?s2 "c_size c"] acct_frame_used(2) [of ?s2 "c_size c"] c by auto
  have "chnk_drop_mem 0 u i 1 s = (Inr (), s3)"
    unfolding chnk_drop_mem_def
    using c(1,2) v l2 by (simp add: run Q_MAX_NUM_TABLESPACES_def seq_Inr [of "mem_free (Some (b, 0))" s, OF fr] s3(1)
        seq_Inr [of "decr_mem_used (c_size c)" ?s2, OF s3(1)] ret_def)
  then show ?thesis using that s3(2) c(1) by (auto simp: acct_frame_def same_base_def)
qed

text \<open>Without a file the drop is refused silently: the last copy is never dropped.\<close>

lemma drop_mem_keeps:
  assumes "in_mem s u i c b D f" "\<not> c_l2_exists c" "\<And>v. map_of (q_vctrs s 0) u = Some v \<Longrightarrow> \<not> v_is_lma v"
  shows "chnk_drop_mem 0 u i 1 s = (Inr (), s)"
  using assms unfolding chnk_drop_mem_def
  by (auto simp: in_mem_def run Q_MAX_NUM_TABLESPACES_def ret_def)

text \<open>Access to the data of a chunk that is only in its file.\<close>

lemma get_data_loads:
  assumes c: "map_of (q_chnks s 0) (ckey u i) = Some c" "c_l1_mem c = None" "c_l2_exists c" "c_num_writers c = 0"
    "0 < c_size c" "c_size c \<le> 1073741824"
    and f: "l2_name s 0 u i = Some f" "q_files s f = Some D" "length D = c_size c" "q_can_open s f"
    and s: "q_mem_lock s = 0" "\<And>b. q_can_alloc s b"
  shows "\<exists>s' b. chnk_get_data 0 (ckey u i) False s = (Inr (Some (b, 0)), s') \<and> q_heap s' b = Some (Mem D)"
proof -
  let ?k = "ckey u i" let ?n = "q_next s" let ?sz = "c_size c"
  let ?s1 = "chnk_upd 0 ?k (c_num_readers_update (\<lambda>n. u16 (Suc n))) s"
  let ?s2 = "?s1\<lparr>q_heap := (q_heap s)(?n \<mapsto> Mapped f False), q_next := Suc ?n\<rparr>"
  let ?s3 = "fresh_block ?s2 ?sz"
  let ?s4 = "chnk_upd 0 ?k (c_l1_mem_update (\<lambda>_. Some (Suc ?n, 0))) ?s3"
  have D: "D \<noteq> []" using f(3) c(5) by auto
  have mm: "rs_mmap f False ?s1 = (Inr (Some (?n, 0), ?sz), ?s2)"
    using f D by (simp add: rs_mmap_def)
  have rd: "mem_read (Some (?n, 0)) ?sz ?s4 = (Inr D, ?s4)"
    using f by (simp add: mem_read_def block_bytes_def)
  let ?junk = "map (q_junk ?s2 (Suc ?n)) [0..<?sz]"
  let ?s5 = "?s4\<lparr>q_heap := (q_heap ?s4)(Suc ?n \<mapsto> Mem (splice 0 D ?junk))\<rparr>"
  have wr: "mem_write (Some (Suc ?n, 0)) D ?s4 = (Inr (), ?s5)"
    by (rule mem_write_run) (use f in simp_all)
  have cp: "memcpy (Some (Suc ?n, 0)) (Some (?n, 0)) ?sz ?s4 = (Inr (), ?s5)"
    by (simp only: memcpy_def seq_Inr [of "mem_read (Some (?n, 0)) ?sz" ?s4, OF rd] wr)
  obtain s6 where s6: "incr_mem_used ?sz ?s5 = (Inr (), s6)" "same_view ?s5 s6"
    using incr_mem_ok [of ?s5 ?sz] s(1) c(5,6) by auto
  have att: "seq (attempt (incr_mem_used ?sz)) (\<lambda>_. ret ()) ?s5 = (Inr (), s6)"
    using s6(1) by (simp add: attempt_def seq_def ret_def)
  let ?s7 = "s6\<lparr>q_heap := (q_heap s6)(?n := None)\<rparr>"
  have ld: "load_l2 0 ?k c f ?s1 = (Inr (), ?s7)"
    unfolding load_l2_def
    using s(2) att by (simp add: seq_Inr [of "rs_mmap f False" ?s1, OF mm] after_def seq_alloc run
        seq_Inr [of "memcpy (Some (Suc ?n, 0)) (Some (?n, 0)) ?sz" ?s4, OF cp] munmap_def)
  have c7: "map_of (q_chnks ?s7 0) ?k = Some (c\<lparr>c_l1_mem := Some (Suc ?n, 0), c_num_readers := u16 (c_num_readers c + 1)\<rparr>)"
    using s6(2) c(1) by (simp add: same_view_def)
  have nm: "l2_name ?s1 0 u i = Some f" using f(1) by (simp add: l2_name_def)
  have "chnk_get_data 0 ?k False s = (Inr (Some (Suc ?n, 0)), ?s7)"
    unfolding chnk_get_data_def or_null_def
    using c c7 nm by (simp add: run Q_MAX_NUM_TABLESPACES_def seq_assoc seq_Inr [of "load_l2 0 ?k c f" ?s1, OF ld]) (simp add: ret_def)
  moreover have "q_heap ?s7 (Suc ?n) = Some (Mem D)"
    using s6(2) f(3) by (simp add: same_view_def splice_def)
  ultimately show ?thesis by blast
qed

subsection \<open>The properties\<close>

text \<open>C23. A chunk survives the way to its file and back: flushed by \<open>chnk_l1_to_l2\<close>, dropped from
  memory by \<open>chnk_drop_mem\<close> (its block is freed) and asked for again, \<open>chnk_get_data\<close> returns a
  block with the same bytes.  A drop before any flush changes nothing: the only copy is kept.\<close>

theorem chnk_l2_roundtrip:
  assumes "in_mem s u i c b D f" "q_files s f = None" "\<not> c_l2_exists c"
    "\<And>v. map_of (q_vctrs s 0) u = Some v \<Longrightarrow> \<not> v_is_lma v"
  shows "chnk_drop_mem 0 u i 1 s = (Inr (), s) \<and>
    (\<exists>s1 s2 s3 b'. chnk_l1_to_l2 0 (ckey u i) s = (Inr (), s1) \<and> chnk_drop_mem 0 u i 1 s1 = (Inr (), s2) \<and>
       q_heap s2 b = None \<and> chnk_get_data 0 (ckey u i) False s2 = (Inr (Some (b', 0)), s3) \<and>
       q_heap s3 b' = Some (Mem D))"
proof -
  obtain s1 where s1: "chnk_l1_to_l2 0 (ckey u i) s = (Inr (), s1)" "in_mem s1 u i (c\<lparr>c_l2_exists := True\<rparr>) b D f"
    "q_files s1 = (q_files s)(f \<mapsto> D)" "same_base s s1"
    by (rule l1_to_l2_run [OF assms(1,2)])
  obtain s2 where s2: "chnk_drop_mem 0 u i 1 s1 = (Inr (), s2)"
    "map_of (q_chnks s2 0) (ckey u i) = Some (c\<lparr>c_l2_exists := True, c_l1_mem := None\<rparr>)"
    "q_heap s2 = (q_heap s1)(b := None)" "q_files s2 = q_files s1" "same_base s1 s2"
    using drop_mem_run [OF s1(2)] by auto
  have "\<exists>s3 b'. chnk_get_data 0 (ckey u i) False s2 = (Inr (Some (b', 0)), s3) \<and> q_heap s3 b' = Some (Mem D)"
    by (rule get_data_loads [OF s2(2), where f = f])
      (use s1 s2 assms(1) l2_name_base [OF s2(5)] in \<open>simp_all add: in_mem_def same_base_def\<close>)
  then show ?thesis using s1(1) s2(1,3) drop_mem_keeps [OF assms(1,3,4)] by auto
qed

text \<open>A change after the first flush is lost: when the bytes of a chunk are changed from \<open>D\<close> to
  \<open>D'\<close> after it was flushed (as a further \<open>vctr_put1\<close> into it does), a second flush reports
  success without writing, the drop frees the only copy of \<open>D'\<close>, and the next access returns the
  old bytes \<open>D\<close>.\<close>

theorem stale_backup:
  assumes "in_mem s u i c b D f" "q_files s f = None" "length D' = length D"
  shows "\<exists>s1 s2 s3 s4 b'. chnk_l1_to_l2 0 (ckey u i) s = (Inr (), s1) \<and>
    s2 = s1\<lparr>q_heap := (q_heap s1)(b \<mapsto> Mem D')\<rparr> \<and> chnk_l1_to_l2 0 (ckey u i) s2 = (Inr (), s2) \<and>
    chnk_drop_mem 0 u i 1 s2 = (Inr (), s3) \<and>
    chnk_get_data 0 (ckey u i) False s3 = (Inr (Some (b', 0)), s4) \<and> q_heap s4 b' = Some (Mem D)"
proof -
  obtain s1 where s1: "chnk_l1_to_l2 0 (ckey u i) s = (Inr (), s1)" "in_mem s1 u i (c\<lparr>c_l2_exists := True\<rparr>) b D f"
    "q_files s1 = (q_files s)(f \<mapsto> D)" "same_base s s1"
    by (rule l1_to_l2_run [OF assms(1,2)])
  let ?s2 = "s1\<lparr>q_heap := (q_heap s1)(b \<mapsto> Mem D')\<rparr>"
  have m2: "in_mem ?s2 u i (c\<lparr>c_l2_exists := True\<rparr>) b D' f"
    using s1(2) assms(3) by (simp add: in_mem_def l2_name_def)
  have again: "chnk_l1_to_l2 0 (ckey u i) ?s2 = (Inr (), ?s2)"
    by (rule l1_to_l2_again [OF m2]) (simp add: s1(3))
  obtain s3 where s3: "chnk_drop_mem 0 u i 1 ?s2 = (Inr (), s3)"
    "map_of (q_chnks s3 0) (ckey u i) = Some (c\<lparr>c_l2_exists := True, c_l1_mem := None\<rparr>)"
    "q_files s3 = q_files ?s2" "same_base ?s2 s3"
    using drop_mem_run [OF m2] by auto
  have "\<exists>s4 b'. chnk_get_data 0 (ckey u i) False s3 = (Inr (Some (b', 0)), s4) \<and> q_heap s4 b' = Some (Mem D)"
    by (rule get_data_loads [OF s3(2), where f = f])
      (use s1 s3 m2 assms(3) l2_name_base [OF s3(4)] in \<open>simp_all add: in_mem_def same_base_def\<close>)
  then show ?thesis using s1(1) again s3(1) by blast
qed

text \<open>The witnesses: the chunk of \<open>full_st\<close>.\<close>

definition demo_chnk :: chnk where
  "demo_chnk = zero_chnk\<lparr>c_num_elements := 2, c_qtype := I4, c_size := 256, c_l1_mem := Some (0, 0)\<rparr>"

lemma full_in_mem: "in_mem (full_st False) 1 0 demo_chnk 0 ([1, 2, 3, 4, 5, 6, 7, 8] @ replicate 248 0) ''/q/_100000_000000''"
proof -
  have nib: "nibbles 6 1 = ''100000''" "nibbles 6 0 = ''000000''"
    by code_simp+
  have "l2_name (full_st False) 0 1 0 = Some ''/q/_100000_000000''"
    using l2_file_name_defined [of 0 "q_data_dir_root (full_st False)" 1 0]
    by (simp add: l2_name_def full_st_def demo_st_def nib [unfolded One_nat_def])
  then show ?thesis
    by (simp add: in_mem_def full_chnk demo_chnk_def) (simp add: full_st_def demo_st_def zero_chnk_def)
qed

lemma chnk_l2_roundtrip_witness:
  "\<exists>s1 s2 s3 b'. chnk_l1_to_l2 0 (ckey 1 0) (full_st False) = (Inr (), s1) \<and> chnk_drop_mem 0 1 0 1 s1 = (Inr (), s2) \<and>
     chnk_get_data 0 (ckey 1 0) False s2 = (Inr (Some (b', 0)), s3) \<and>
     q_heap s3 b' = Some (Mem ([1, 2, 3, 4, 5, 6, 7, 8] @ replicate 248 0))"
proof -
  have "q_files (full_st False) ''/q/_100000_000000'' = None" "\<not> c_l2_exists demo_chnk"
    "\<And>v. map_of (q_vctrs (full_st False) 0) 1 = Some v \<Longrightarrow> \<not> v_is_lma v"
    by (simp_all add: full_st_def demo_st_def demo_chnk_def zero_chnk_def full_vctr_def demo_vctr_def zero_vctr_def)
  from chnk_l2_roundtrip [OF full_in_mem this] show ?thesis by blast
qed

lemma stale_backup_witness:
  "\<exists>s1 s3 s4 b'. chnk_l1_to_l2 0 (ckey 1 0) (full_st False) = (Inr (), s1) \<and>
     chnk_drop_mem 0 1 0 1 (s1\<lparr>q_heap := (q_heap s1)(0 \<mapsto> Mem (replicate 256 9))\<rparr>) = (Inr (), s3) \<and>
     chnk_get_data 0 (ckey 1 0) False s3 = (Inr (Some (b', 0)), s4) \<and>
     q_heap s4 b' = Some (Mem ([1, 2, 3, 4, 5, 6, 7, 8] @ replicate 248 0))"
proof -
  have "q_files (full_st False) ''/q/_100000_000000'' = None" by (simp add: full_st_def demo_st_def)
  from stale_backup [OF full_in_mem this, of "replicate 256 9"] show ?thesis by auto
qed

end
