(* ===== verification/Lma_Lock.thy ===== *)
theory Lma_Lock
  imports Vec_Demo
begin

text \<open>
  Readers and writers of the linear file of a vector: the four calls a client has
  (\<open>RUNTIME/VCTR/src/vctr_lma_access.c\<close>) as steps, and the exclusion they keep.
\<close>

subsection \<open>The protocol\<close>

text \<open>\<open>lma_run u s0 s r w\<close>: from \<open>s0\<close> clients have brought the runtime to \<open>s\<close> by calls for vector
  \<open>u\<close>, and hold \<open>r\<close> read handles and \<open>w\<close> write handles.  A client gives back only what it holds; a call
  that fails leaves the handles as they are.\<close>

inductive lma_run :: "nat \<Rightarrow> qst \<Rightarrow> qst \<Rightarrow> nat \<Rightarrow> nat \<Rightarrow> bool" for u s0 where
  start: "lma_run u s0 s0 0 0"
| get_read: "lma_run u s0 s r w \<Longrightarrow> vctr_get_lma_read 0 u s = (Inr cm, s') \<Longrightarrow> lma_run u s0 s' (Suc r) w"
| get_read_fail: "lma_run u s0 s r w \<Longrightarrow> vctr_get_lma_read 0 u s = (Inl e, s') \<Longrightarrow> lma_run u s0 s' r w"
| get_write: "lma_run u s0 s r w \<Longrightarrow> vctr_get_lma_write 0 u s = (Inr cm, s') \<Longrightarrow> lma_run u s0 s' r (Suc w)"
| get_write_fail: "lma_run u s0 s r w \<Longrightarrow> vctr_get_lma_write 0 u s = (Inl e, s') \<Longrightarrow> lma_run u s0 s' r w"
| unget_read: "lma_run u s0 s (Suc r) w \<Longrightarrow> vctr_unget_lma_read 0 u s = (Inr x, s') \<Longrightarrow> lma_run u s0 s' r w"
| unget_read_fail: "lma_run u s0 s (Suc r) w \<Longrightarrow> vctr_unget_lma_read 0 u s = (Inl e, s') \<Longrightarrow> lma_run u s0 s' (Suc r) w"
| unget_write: "lma_run u s0 s r (Suc w) \<Longrightarrow> vctr_unget_lma_write 0 u s = (Inr x, s') \<Longrightarrow> lma_run u s0 s' r w"
| unget_write_fail: "lma_run u s0 s r (Suc w) \<Longrightarrow> vctr_unget_lma_write 0 u s = (Inl e, s') \<Longrightarrow> lma_run u s0 s' r (Suc w)"

text \<open>The invariant: the counts are the handles, readers exclude writers and writers each other,
  and the file is mapped exactly while a handle is out.\<close>

definition lma_inv :: "nat \<Rightarrow> qst \<Rightarrow> nat \<Rightarrow> nat \<Rightarrow> bool" where
  "lma_inv u s r w = (\<exists>v f bs. map_of (q_vctrs s 0) u = Some v \<and> v_is_lma v \<and>
     l2_name s 0 u UINT_MAX = Some f \<and> q_files s f = Some bs \<and> bs \<noteq> [] \<and>
     v_num_readers v = int r \<and> v_num_writers v = int w \<and> (r = 0 \<or> w = 0) \<and> w \<le> 1 \<and>
     (v_X v = None \<longleftrightarrow> r + w = 0) \<and> (v_nX v = 0 \<longleftrightarrow> r + w = 0))"

lemma seq_rs_mmap:
  assumes "q_files s f = Some bs" "bs \<noteq> []"
  shows "seq (rs_mmap f wr) g s = (if \<not> q_can_open s f then (Inl (Status (- 1)), s)
    else g (Some (q_next s, 0), length bs)
      (s\<lparr>q_heap := (q_heap s)(q_next s \<mapsto> Mapped f wr), q_next := Suc (q_next s)\<rparr>))"
  using assms by (simp add: seq_def rs_mmap_def)

lemma l2_name_upd [simp]:
  "l2_name (vctr_upd t u f s) = l2_name s" "l2_name (s\<lparr>q_heap := h\<rparr>) = l2_name s"
  "l2_name (s\<lparr>q_heap := h, q_next := n\<rparr>) = l2_name s"
  by (simp_all add: l2_name_def)

lemma munmap_run [run]: "munmap (Some (b, off)) s = (Inr (), s\<lparr>q_heap := (q_heap s)(b := None)\<rparr>)"
  by (simp add: munmap_def)

lemma seq_munmap [run]: "seq (munmap (Some (b, off))) f s = f () (s\<lparr>q_heap := (q_heap s)(b := None)\<rparr>)"
  by (simp add: seq_def munmap_run)

lemma inv_get_read:
  assumes "lma_inv u s r w"
  shows "case vctr_get_lma_read 0 u s of (Inr _, s') \<Rightarrow> lma_inv u s' (Suc r) w | (Inl _, s') \<Rightarrow> lma_inv u s' r w"
proof -
  obtain v f bs where v: "map_of (q_vctrs s 0) u = Some v" "v_is_lma v" "l2_name s 0 u UINT_MAX = Some f"
    "q_files s f = Some bs" "bs \<noteq> []" "v_num_readers v = int r" "v_num_writers v = int w" "r = 0 \<or> w = 0" "w \<le> 1"
    "v_X v = None \<longleftrightarrow> r + w = 0" "v_nX v = 0 \<longleftrightarrow> r + w = 0"
    using assms unfolding lma_inv_def by (elim exE conjE) (rule that)
  show ?thesis
    using v assms by (simp add: vctr_get_lma_read_def map_lma_def run Q_MAX_NUM_TABLESPACES_def seq_assoc
        seq_rs_mmap [OF v(4,5)] file_exists_def ret_def lma_inv_def) auto
qed

lemma inv_get_write:
  assumes "lma_inv u s r w"
  shows "case vctr_get_lma_write 0 u s of (Inr _, s') \<Rightarrow> lma_inv u s' r (Suc w) | (Inl _, s') \<Rightarrow> lma_inv u s' r w"
proof -
  obtain v f bs where v: "map_of (q_vctrs s 0) u = Some v" "v_is_lma v" "l2_name s 0 u UINT_MAX = Some f"
    "q_files s f = Some bs" "bs \<noteq> []" "v_num_readers v = int r" "v_num_writers v = int w" "r = 0 \<or> w = 0" "w \<le> 1"
    "v_X v = None \<longleftrightarrow> r + w = 0" "v_nX v = 0 \<longleftrightarrow> r + w = 0"
    using assms unfolding lma_inv_def by (elim exE conjE) (rule that)
  show ?thesis
    using v assms by (simp add: vctr_get_lma_write_def map_lma_def run Q_MAX_NUM_TABLESPACES_def seq_assoc
        seq_rs_mmap [OF v(4,5)] file_exists_def ret_def lma_inv_def) auto
qed

lemma inv_unget_read:
  assumes "lma_inv u s (Suc r) w"
  shows "\<exists>s'. vctr_unget_lma_read 0 u s = (Inr (), s') \<and> lma_inv u s' r w"
proof -
  obtain v f bs where v: "map_of (q_vctrs s 0) u = Some v" "v_is_lma v" "l2_name s 0 u UINT_MAX = Some f"
    "q_files s f = Some bs" "bs \<noteq> []" "v_num_readers v = int (Suc r)" "w = 0" "v_num_writers v = 0"
    "v_X v \<noteq> None" "v_nX v \<noteq> 0"
    using assms by (auto simp: lma_inv_def)
  then obtain b off where X: "v_X v = Some (b, off)" by auto
  show ?thesis
    using v X by (simp add: vctr_unget_lma_read_def run Q_MAX_NUM_TABLESPACES_def ret_def lma_inv_def)
qed

lemma inv_unget_write:
  assumes "lma_inv u s r (Suc w)"
  shows "\<exists>s'. vctr_unget_lma_write 0 u s = (Inr (), s') \<and> lma_inv u s' r w"
proof -
  obtain v f bs where v: "map_of (q_vctrs s 0) u = Some v" "v_is_lma v" "l2_name s 0 u UINT_MAX = Some f"
    "q_files s f = Some bs" "bs \<noteq> []" "v_num_readers v = 0" "r = 0" "w = 0" "v_num_writers v = 1"
    "v_X v \<noteq> None" "v_nX v \<noteq> 0"
    using assms by (auto simp: lma_inv_def)
  then obtain b off where X: "v_X v = Some (b, off)" by auto
  show ?thesis
    using v X by (simp add: vctr_unget_lma_write_def run Q_MAX_NUM_TABLESPACES_def ret_def lma_inv_def)
qed

text \<open>Without handles, a writer gets in if the file can be opened.\<close>

lemma get_write_succeeds:
  assumes "lma_inv u s 0 0" "\<And>f. q_can_open s f" "\<And>f. l2_name s 0 u UINT_MAX = Some f \<Longrightarrow> f \<noteq> []"
  shows "\<exists>cm s'. vctr_get_lma_write 0 u s = (Inr cm, s')"
proof -
  obtain v f bs where v: "map_of (q_vctrs s 0) u = Some v" "v_is_lma v" "l2_name s 0 u UINT_MAX = Some f"
    "q_files s f = Some bs" "bs \<noteq> []" "v_num_readers v = 0" "v_num_writers v = 0" "v_X v = None"
    using assms(1) unfolding lma_inv_def by auto
  show ?thesis
    using v assms(2,3) by (simp add: vctr_get_lma_write_def map_lma_def run Q_MAX_NUM_TABLESPACES_def seq_assoc
        seq_rs_mmap [OF v(4,5)] file_exists_def ret_def)
qed

lemma lma_run_inv: "lma_run u s0 s r w \<Longrightarrow> lma_inv u s0 0 0 \<Longrightarrow> lma_inv u s r w"
proof (induction rule: lma_run.induct)
  case (get_read s r w cm s') then show ?case using inv_get_read [of u s r w] by simp
next
  case (get_read_fail s r w e s') then show ?case using inv_get_read [of u s r w] by simp
next
  case (get_write s r w cm s') then show ?case using inv_get_write [of u s r w] by simp
next
  case (get_write_fail s r w e s') then show ?case using inv_get_write [of u s r w] by simp
next
  case (unget_read s r w x s') then show ?case using inv_unget_read [of u s r w] by auto
next
  case (unget_read_fail s r w e s') then show ?case using inv_unget_read [of u s r w] by auto
next
  case (unget_write s r w x s') then show ?case using inv_unget_write [of u s r w] by auto
next
  case (unget_write_fail s r w e s') then show ?case using inv_unget_write [of u s r w] by auto
qed simp

text \<open>C20. Access to the linear file excludes: in every state that clients reach by any sequence of
  getting and giving back (calls that fail included), there is at most one write handle, never one
  beside read handles, the counts of the vector are exactly the handles that are out, and the file
  is mapped exactly while there is one.  A handle can always be given back.\<close>

theorem lma_exclusion:
  assumes "lma_run u s0 s r w" "lma_inv u s0 0 0"
  shows "(r = 0 \<or> w = 0) \<and> w \<le> 1 \<and>
    (\<exists>v. map_of (q_vctrs s 0) u = Some v \<and> v_num_readers v = int r \<and> v_num_writers v = int w \<and>
       (v_X v = None \<longleftrightarrow> r = 0 \<and> w = 0)) \<and>
    (0 < r \<longrightarrow> (\<exists>s'. vctr_unget_lma_read 0 u s = (Inr (), s'))) \<and>
    (0 < w \<longrightarrow> (\<exists>s'. vctr_unget_lma_write 0 u s = (Inr (), s')))"
proof -
  have inv: "lma_inv u s r w" using assms by (rule lma_run_inv)
  have "\<exists>s'. vctr_unget_lma_read 0 u s = (Inr (), s')" if "0 < r"
    using inv_unget_read [of u s "r - 1" w] that inv by auto
  moreover have "\<exists>s'. vctr_unget_lma_write 0 u s = (Inr (), s')" if "0 < w"
    using inv_unget_write [of u s r "w - 1"] that inv by auto
  moreover have "(r = 0 \<or> w = 0) \<and> w \<le> 1 \<and>
    (\<exists>v. map_of (q_vctrs s 0) u = Some v \<and> v_num_readers v = int r \<and> v_num_writers v = int w \<and>
       (v_X v = None \<longleftrightarrow> r = 0 \<and> w = 0))"
    using inv unfolding lma_inv_def by auto
  ultimately show ?thesis by blast
qed

text \<open>A vector whose two elements are in its linear file.\<close>

definition lma_vctr :: vctr where
  "lma_vctr = (full_vctr False)\<lparr>v_is_lma := True, v_is_eov := True\<rparr>"

definition lma_st :: qst where
  "lma_st = (demo_st lma_vctr [])\<lparr>q_files := [''/q/_100000_FFFFFF'' \<mapsto> [1, 2, 3, 4, 5, 6, 7, 8]]\<rparr>"

lemma lma_name: "l2_name lma_st 0 1 UINT_MAX = Some ''/q/_100000_FFFFFF''"
proof -
  have six: "(6 :: nat) = Suc (Suc (Suc (Suc (Suc (Suc 0)))))" by simp
  have "nibbles 6 (Suc 0) = ''100000''" "nibbles 6 16777215 = ''FFFFFF''"
    unfolding six by (simp_all add: hex_def)
  then show ?thesis
    by (simp add: l2_name_def l2_file_name_def lma_st_def demo_st_def Q_MAX_NUM_TABLESPACES_def UINT_MAX_def)
qed

lemma lma_st_inv: "lma_inv 1 lma_st 0 0"
proof -
  have "map_of (q_vctrs lma_st 0) 1 = Some lma_vctr" "q_files lma_st ''/q/_100000_FFFFFF'' = Some [1, 2, 3, 4, 5, 6, 7, 8]"
    by (simp_all add: lma_st_def demo_st_def)
  moreover have "v_is_lma lma_vctr" "v_num_readers lma_vctr = 0" "v_num_writers lma_vctr = 0" "v_X lma_vctr = None" "v_nX lma_vctr = 0"
    by (simp_all add: lma_vctr_def full_vctr_def demo_vctr_def zero_vctr_def)
  ultimately show ?thesis using lma_name unfolding lma_inv_def by auto
qed

lemma lma_exclusion_witness:
  "\<exists>cm s'. vctr_get_lma_write 0 1 lma_st = (Inr cm, s') \<and>
     (\<exists>v. map_of (q_vctrs s' 0) 1 = Some v \<and> v_num_writers v = 1 \<and> v_num_readers v = 0) \<and>
     (\<exists>s''. vctr_unget_lma_write 0 1 s' = (Inr (), s''))"
proof -
  have "q_can_open lma_st f" for f by (simp add: lma_st_def demo_st_def)
  then obtain cm s' where s': "vctr_get_lma_write 0 1 lma_st = (Inr cm, s')"
    using get_write_succeeds [OF lma_st_inv] lma_name by auto
  have "lma_run 1 lma_st s' 0 (Suc 0)" by (rule lma_run.get_write [OF lma_run.start s'])
  from lma_exclusion [OF this lma_st_inv] show ?thesis using s' by auto
qed

end
