(* ===== verification/Csv_Text.thy ===== *)
theory Csv_Text
  imports Qtypes
begin

text \<open>
  Numbers and their text: what \<open>UTILS/DEPRECATED/src/txt_to_*.c\<close> and \<open>*_to_txt.c\<close> do, with
  the parts of \<open>ctype.h\<close>, \<open>stdlib.h\<close> and \<open>string.h\<close> they call.  A string argument is the
  characters before its terminating null character; a buffer is all its characters.
\<close>

subsection \<open>Characters\<close>

definition NUL :: char where "NUL = CHR 0x00"
definition eoln :: char where "eoln = CHR 0x0A"
definition dquote :: char where "dquote = CHR 0x22"
definition bslash :: char where "bslash = CHR 0x5C"

lemmas special_chars = NUL_def eoln_def dquote_def bslash_def

text \<open>\<open>isspace\<close> in the C locale: tab, line feed, vertical tab, form feed, carriage return, blank.\<close>

definition isspace :: "char \<Rightarrow> bool" where
  "isspace c = (c = CHR '' '' \<or> c \<in> {CHR 0x09, CHR 0x0A, CHR 0x0B, CHR 0x0C, CHR 0x0D})"

definition isdigit :: "char \<Rightarrow> bool" where
  "isdigit c = (48 \<le> (of_char c :: nat) \<and> (of_char c :: nat) \<le> 57)"

definition digit_val :: "char \<Rightarrow> nat" where
  "digit_val c = of_char c - 48"

definition tolower :: "char \<Rightarrow> char" where
  "tolower c = (let n = of_char c :: nat in if 65 \<le> n \<and> n \<le> 90 then char_of (n + 32) else c)"

definition strcasecmp_eq :: "string \<Rightarrow> string \<Rightarrow> bool" where
  "strcasecmp_eq a b = (map tolower a = map tolower b)"

text \<open>The string a buffer holds.\<close>

definition cstr :: "string \<Rightarrow> string" where
  "cstr b = takeWhile (\<lambda>c. c \<noteq> NUL) b"

text \<open>A buffer of \<open>n\<close> bytes that was cleared and then filled with \<open>s\<close>.\<close>

definition pad :: "nat \<Rightarrow> string \<Rightarrow> string" where
  "pad n s = s @ replicate (n - length s) NUL"

lemma length_pad [simp]: "length s \<le> n \<Longrightarrow> length (pad n s) = n"
  by (simp add: pad_def)

lemma cstr_pad [simp]: "NUL \<notin> set s \<Longrightarrow> cstr (pad n s) = s"
  unfolding cstr_def pad_def by (subst takeWhile_append2) auto

lemma cstr_id: "NUL \<notin> set s \<Longrightarrow> cstr s = s"
  unfolding cstr_def by (rule takeWhile_eq_all_conv [THEN iffD2]) auto

subsection \<open>Reading a number\<close>

definition LLONG_MAX :: int where "LLONG_MAX = 2 ^ 63 - 1"
definition LLONG_MIN :: int where "LLONG_MIN = - (2 ^ 63)"
definition ULLONG_MAX :: nat where "ULLONG_MAX = 2 ^ 64 - 1"

definition dec_val :: "string \<Rightarrow> nat" where
  "dec_val ds = foldl (\<lambda>n c. 10 * n + digit_val c) 0 ds"

text \<open>The shape \<open>strtoll\<close> and \<open>strtoull\<close> look for with base 10: blanks, a sign, digits.  The result
  is the sign, the digits and where they end; without digits the end is the start of the string.\<close>

definition scan_dec :: "string \<Rightarrow> bool \<times> string \<times> nat" where
  "scan_dec X =
    (let ws = takeWhile isspace X; r = drop (length ws) X;
         neg = (r \<noteq> [] \<and> hd r = CHR ''-''); sgn = (r \<noteq> [] \<and> (hd r = CHR ''-'' \<or> hd r = CHR ''+''));
         r' = (if sgn then tl r else r); ds = takeWhile isdigit r'
     in (neg, ds, if ds = [] then 0 else length ws + (if sgn then 1 else 0) + length ds))"

definition strtoll :: "string \<Rightarrow> int \<times> nat" where
  "strtoll X = (case scan_dec X of (neg, ds, k) \<Rightarrow>
     (let n = int (dec_val ds); z = (if neg then - n else n)
      in (max LLONG_MIN (min LLONG_MAX z), k)))"

text \<open>A magnitude that fits is negated modulo \<open>2 ^ 64\<close>.\<close>

definition strtoull :: "string \<Rightarrow> nat \<times> nat" where
  "strtoull X = (case scan_dec X of (neg, ds, k) \<Rightarrow>
     (let n = dec_val ds
      in (if ULLONG_MAX < n then ULLONG_MAX else if neg then u64_sub 0 n else n, k)))"

text \<open>The character at \<open>endptr\<close> is neither the end of the string nor a line feed.\<close>

definition bad_end :: "string \<Rightarrow> nat \<Rightarrow> bool" where
  "bad_end X k = (k < length X \<and> X ! k \<noteq> eoln)"

text \<open>The body the template \<open>txt_to_I.tmpl\<close> gives the signed readers.\<close>

definition txt_to_I :: "int \<Rightarrow> int \<Rightarrow> string option \<Rightarrow> error + int" where
  "txt_to_I mn mx X =
    (case X of None \<Rightarrow> Inl (Status (- 1))
     | Some s \<Rightarrow>
        if s = [] then Inl (Status (- 1))
        else case strtoll s of (out, endptr) \<Rightarrow>
          if bad_end s endptr then Inl (Status (- 1))
          else if out < mn \<or> mx < out then Inl (Status (- 1))
          else if endptr = 0 then Inl (Status (- 1))
          else Inr out)"

definition txt_to_I1 :: "string option \<Rightarrow> error + int" where
  "txt_to_I1 = txt_to_I (- 128) 127"

definition txt_to_I2 :: "string option \<Rightarrow> error + int" where
  "txt_to_I2 = txt_to_I (- 32768) 32767"

definition txt_to_I4 :: "string option \<Rightarrow> error + int" where
  "txt_to_I4 = txt_to_I (- 2147483648) 2147483647"

definition txt_to_I8 :: "string option \<Rightarrow> error + int" where
  "txt_to_I8 X =
    (case X of None \<Rightarrow> Inl (Status (- 1))
     | Some s \<Rightarrow>
        if s = [] then Inl (Status (- 1))
        else case strtoll s of (out, endptr) \<Rightarrow>
          if bad_end s endptr then Inl (Status (- 1))
          else if endptr = 0 then Inl (Status (- 1))
          else Inr out)"

definition txt_to_UI :: "nat \<Rightarrow> string option \<Rightarrow> error + nat" where
  "txt_to_UI mx X =
    (case X of None \<Rightarrow> Inl (Status (- 1))
     | Some s \<Rightarrow>
        if s = [] then Inl (Status (- 1))
        else case strtoull s of (out, endptr) \<Rightarrow>
          if bad_end s endptr then Inl (Status (- 1))
          else if mx < out then Inl (Status (- 1))
          else if endptr = 0 then Inl (Status (- 1))
          else Inr out)"

definition txt_to_UI1 :: "string option \<Rightarrow> error + nat" where
  "txt_to_UI1 = txt_to_UI 255"

definition txt_to_UI2 :: "string option \<Rightarrow> error + nat" where
  "txt_to_UI2 = txt_to_UI 65535"

definition txt_to_UI4 :: "string option \<Rightarrow> error + nat" where
  "txt_to_UI4 = txt_to_UI 4294967295"

definition txt_to_UI8 :: "string option \<Rightarrow> error + nat" where
  "txt_to_UI8 X =
    (case X of None \<Rightarrow> Inl (Status (- 1))
     | Some s \<Rightarrow>
        if s = [] then Inl (Status (- 1))
        else case strtoull s of (out, endptr) \<Rightarrow>
          if bad_end s endptr then Inl (Status (- 1))
          else if endptr = 0 then Inl (Status (- 1))
          else Inr out)"

definition txt_to_BL :: "string option \<Rightarrow> error + bool" where
  "txt_to_BL X =
    (case X of None \<Rightarrow> Inl (Status (- 1))
     | Some s \<Rightarrow>
        if s = [] then Inl (Status (- 1))
        else if s = ''true'' \<or> s = ''1'' then Inr True
        else if s = ''false'' \<or> s = ''0'' then Inr False
        else Inl (Status (- 1)))"

text \<open>Once a backslash is seen the tests compare the backslash itself with the characters that may
  follow one: only the last test can hold, and then the character after the backslash is copied,
  a null character included, with the scan going on behind it; the bytes behind the string are
  \<open>beyond\<close>, \<open>None\<close> when the scan leaves them too.\<close>

fun txt_to_SC_loop :: "string \<Rightarrow> nat \<Rightarrow> string \<Rightarrow> error + string" where
  "txt_to_SC_loop [] room out = Inl Undef"
| "txt_to_SC_loop [c] room out =
    (if c = NUL then Inr out
     else if room = 0 then Inl (Status (- 1)) else Inl Undef)"
| "txt_to_SC_loop (c # d # cs) room out =
    (if c = NUL then Inr out
     else if c = bslash
     then (if room = 0 then Inl (Status (- 1)) else txt_to_SC_loop cs (room - 1) (out @ [d]))
     else (if room = 0 then Inl (Status (- 1)) else txt_to_SC_loop (d # cs) (room - 1) (out @ [c])))"

text \<open>\<open>X\<close> is all the memory from the argument on, terminator included.\<close>

definition txt_to_SC :: "string option \<Rightarrow> nat \<Rightarrow> error + string" where
  "txt_to_SC X sz_out =
    (case X of None \<Rightarrow> Inl (Status (- 1))
     | Some s \<Rightarrow>
        if s = [] then Inl Undef
        else if hd s = NUL then Inl (Status (- 1))
        else txt_to_SC_loop s (u64_sub sz_out 1) [])"

definition is_valid_chars_for_num :: "string option \<Rightarrow> bool" where
  "is_valid_chars_for_num X =
    (case X of None \<Rightarrow> False
     | Some s \<Rightarrow> s \<noteq> [] \<and> (\<forall>c\<in>set s. isdigit c \<or> c \<in> set ''ABCDEF.+-XeE''))"

subsection \<open>Writing a number\<close>

fun dec_nat :: "nat \<Rightarrow> string" where
  "dec_nat n = (if n < 10 then [char_of (48 + n)] else dec_nat (n div 10) @ [char_of (48 + n mod 10)])"

declare dec_nat.simps [simp del]

text \<open>What \<open>%d\<close> prints, whatever the width of the type.\<close>

definition dec_int :: "int \<Rightarrow> string" where
  "dec_int z = (if z < 0 then CHR ''-'' # dec_nat (nat (- z)) else dec_nat (nat z))"

text \<open>\<open>snprintf(X, n, ...)\<close> keeps the first \<open>n - 1\<close> characters of what it prints and returns the
  length of all of it.\<close>

definition snprintf :: "nat \<Rightarrow> string \<Rightarrow> string \<times> nat" where
  "snprintf n out = (take (n - 1) out, length out)"

text \<open>The four signed writers share one body.  \<open>fmt\<close> is \<open>None\<close> for the default format, else what the
  caller's format makes of a value.  The result is the string in the buffer.\<close>

definition I_to_txt :: "int \<Rightarrow> (int \<Rightarrow> string) option \<Rightarrow> nat option \<Rightarrow> error + string" where
  "I_to_txt x fmt X =
    (case X of None \<Rightarrow> Inl (Status (- 1))
     | Some nX \<Rightarrow>
        if nX < 8 then Inl (Status (- 1))
        else case snprintf (nX - 1) (case fmt of None \<Rightarrow> dec_int x | Some f \<Rightarrow> f x) of (txt, nw) \<Rightarrow>
          if nX \<le> nw then Inl (Status (- 1)) else Inr txt)"

definition I1_to_txt :: "8 word \<Rightarrow> (int \<Rightarrow> string) option \<Rightarrow> nat option \<Rightarrow> error + string" where
  "I1_to_txt x = I_to_txt (sint x)"

definition I2_to_txt :: "16 word \<Rightarrow> (int \<Rightarrow> string) option \<Rightarrow> nat option \<Rightarrow> error + string" where
  "I2_to_txt x = I_to_txt (sint x)"

definition I4_to_txt :: "32 word \<Rightarrow> (int \<Rightarrow> string) option \<Rightarrow> nat option \<Rightarrow> error + string" where
  "I4_to_txt x = I_to_txt (sint x)"

definition I8_to_txt :: "64 word \<Rightarrow> (int \<Rightarrow> string) option \<Rightarrow> nat option \<Rightarrow> error + string" where
  "I8_to_txt x = I_to_txt (sint x)"

text \<open>\<open>strncpy\<close> pads with null characters and cuts without terminating: with a buffer of 5 bytes
  \<open>false\<close> fills it.  The result is the buffer.\<close>

definition strncpy :: "nat \<Rightarrow> string \<Rightarrow> string" where
  "strncpy n s = take n (pad n s)"

definition BL_to_txt :: "bool \<Rightarrow> nat option \<Rightarrow> error + string" where
  "BL_to_txt b X =
    (case X of None \<Rightarrow> Inl (Status (- 1))
     | Some nX \<Rightarrow> if nX < 5 then Inl (Status (- 1))
                 else Inr (strncpy nX (if b then ''true'' else ''false'')))"

definition sc_special :: "char \<Rightarrow> bool" where
  "sc_special c = (c = dquote \<or> c = CHR '','' \<or> c = eoln \<or> c = bslash)"

fun SC_to_txt_loop :: "string \<Rightarrow> nat \<Rightarrow> string \<Rightarrow> error + string" where
  "SC_to_txt_loop [] nX X = Inr X"
| "SC_to_txt_loop (c # cs) nX X =
    (if sc_special c
     then (if nX - 1 \<le> length X then Inl (Status (- 1))
           else if nX - 1 \<le> Suc (length X) then Inl (Status (- 1))
           else SC_to_txt_loop cs nX (X @ [bslash, c]))
     else if nX - 1 \<le> length X then Inl (Status (- 1))
     else SC_to_txt_loop cs nX (X @ [c]))"

text \<open>With no room at all \<open>nX-1\<close> wraps and the first character is written out of bounds.\<close>

definition SC_to_txt :: "string option \<Rightarrow> nat \<Rightarrow> error + string" where
  "SC_to_txt inp nX =
    (case inp of None \<Rightarrow> Inl (Status (- 1))
     | Some s \<Rightarrow> if nX = 0 \<and> s \<noteq> [] then Inl Undef else SC_to_txt_loop s nX [])"

subsection \<open>Printing and reading back\<close>

lemma of_char_digit: "d < 10 \<Longrightarrow> (of_char (char_of (48 + d)) :: nat) = 48 + d"
  by simp

lemma isdigit_code: "isdigit c \<Longrightarrow> of_char c \<noteq> (32 :: nat) \<and> of_char c \<notin> {9 :: nat, 10, 11, 12, 13, 0, 43, 45}"
  by (auto simp: isdigit_def)

lemma digit_not: "isdigit c \<Longrightarrow> \<not> isspace c \<and> c \<noteq> CHR ''-'' \<and> c \<noteq> CHR ''+'' \<and> c \<noteq> NUL"
  using isdigit_code [of c] by (auto simp: isspace_def NUL_def)

lemma digit_char [simp]:
  assumes "d < 10"
  shows "isdigit (char_of (48 + d))" "digit_val (char_of (48 + d)) = d"
  using of_char_digit [OF assms] assms by (simp_all add: isdigit_def digit_val_def del: of_char_of)

lemma dec_nat_not_Nil [simp]: "dec_nat n \<noteq> []"
  by (subst dec_nat.simps) simp

lemma dec_nat_digits: "c \<in> set (dec_nat n) \<Longrightarrow> isdigit c"
proof (induction n rule: dec_nat.induct)
  case (1 n)
  show ?case
  proof (cases "n < 10")
    case True
    with "1.prems" show ?thesis by (simp add: dec_nat.simps [of n])
  next
    case False
    with "1.prems" have "c \<in> set (dec_nat (n div 10)) \<or> c = char_of (48 + n mod 10)"
      by (auto simp: dec_nat.simps [of n])
    with "1.IH" [OF False] show ?thesis by auto
  qed
qed

lemma dec_val_snoc: "dec_val (ds @ [c]) = 10 * dec_val ds + digit_val c"
  by (simp add: dec_val_def)

lemma dec_val_dec_nat [simp]: "dec_val (dec_nat n) = n"
proof (induction n rule: dec_nat.induct)
  case (1 n)
  show ?case
  proof (cases "n < 10")
    case True
    then show ?thesis by (simp add: dec_nat.simps [of n] dec_val_def)
  next
    case False
    then show ?thesis using "1.IH" [OF False] by (simp add: dec_nat.simps [of n] dec_val_snoc)
  qed
qed

lemma takeWhile_digits: "takeWhile isdigit (dec_nat n) = dec_nat n"
  by (rule takeWhile_eq_all_conv [THEN iffD2]) (auto dest: dec_nat_digits)

lemma hd_dec_nat: "isdigit (hd (dec_nat n))"
  by (rule dec_nat_digits [of _ n]) simp

lemma takeWhile_space_digits: "takeWhile isspace (dec_nat n) = []"
  using hd_dec_nat [of n] digit_not by (cases "dec_nat n") auto

lemma scan_dec_int: "scan_dec (dec_int z) = (z < 0, dec_nat (nat \<bar>z\<bar>), length (dec_int z))"
proof (cases "z < 0")
  case True
  moreover have "\<not> isspace CHR ''-''" by (simp add: isspace_def)
  ultimately show ?thesis by (simp add: scan_dec_def dec_int_def Let_def takeWhile_digits)
next
  case False
  have "hd (dec_nat (nat z)) \<noteq> CHR ''-''" "hd (dec_nat (nat z)) \<noteq> CHR ''+''"
    using digit_not [OF hd_dec_nat] by auto
  with False show ?thesis
    by (simp add: scan_dec_def dec_int_def Let_def takeWhile_digits takeWhile_space_digits)
qed

lemma strtoll_dec_int:
  "LLONG_MIN \<le> z \<Longrightarrow> z \<le> LLONG_MAX \<Longrightarrow> strtoll (dec_int z) = (z, length (dec_int z))"
  by (auto simp: strtoll_def scan_dec_int Let_def)

lemma dec_int_not_Nil [simp]: "dec_int z \<noteq> []"
  by (simp add: dec_int_def)

lemma dec_int_chars: "c \<in> set (dec_int z) \<Longrightarrow> isdigit c \<or> c = CHR ''-''"
  by (auto simp: dec_int_def dest: dec_nat_digits split: if_splits)

lemma txt_to_I_dec:
  "LLONG_MIN \<le> z \<Longrightarrow> z \<le> LLONG_MAX \<Longrightarrow>
     txt_to_I mn mx (Some (dec_int z)) = (if mn \<le> z \<and> z \<le> mx then Inr z else Inl (Status (- 1)))"
  by (auto simp: txt_to_I_def strtoll_dec_int bad_end_def)

lemma txt_to_I8_dec:
  "LLONG_MIN \<le> z \<Longrightarrow> z \<le> LLONG_MAX \<Longrightarrow> txt_to_I8 (Some (dec_int z)) = Inr z"
  by (auto simp: txt_to_I8_def strtoll_dec_int bad_end_def)

lemma length_dec_nat: "n < 10 ^ Suc k \<Longrightarrow> length (dec_nat n) \<le> Suc k"
proof (induction k arbitrary: n)
  case 0
  then show ?case by (simp add: dec_nat.simps [of n])
next
  case (Suc k)
  show ?case
  proof (cases "n < 10")
    case False
    have "n div 10 < 10 ^ Suc k" using Suc.prems by (simp add: less_mult_imp_div_less)
    with Suc.IH [of "n div 10"] False show ?thesis by (simp add: dec_nat.simps [of n])
  qed (simp add: dec_nat.simps [of n])
qed

lemma strtoull_dec_int:
  "0 \<le> z \<Longrightarrow> z < 2 ^ 64 \<Longrightarrow> strtoull (dec_int z) = (nat z, length (dec_int z))"
  by (auto simp: strtoull_def scan_dec_int Let_def ULLONG_MAX_def)

lemma txt_to_UI_dec:
  "0 \<le> z \<Longrightarrow> z < 2 ^ 64 \<Longrightarrow>
     txt_to_UI mx (Some (dec_int z)) = (if nat z \<le> mx then Inr (nat z) else Inl (Status (- 1)))"
  by (auto simp: txt_to_UI_def strtoull_dec_int bad_end_def)

lemma txt_to_UI8_dec: "0 \<le> z \<Longrightarrow> z < 2 ^ 64 \<Longrightarrow> txt_to_UI8 (Some (dec_int z)) = Inr (nat z)"
  by (auto simp: txt_to_UI8_def strtoull_dec_int bad_end_def)

end
