(* ===== verification/Csv_Cell.thy ===== *)
theory Csv_Cell
  imports Csv_Text
begin

text \<open>
  One cell of a CSV file: \<open>OPERATORS/LOAD_CSV/src/get_cell.c\<close> and
  \<open>UTILS/DEPRECATED/src/trim.c\<close>.  The file is the string \<open>X\<close>; reading behind its end is
  undefined.  Buffers are strings of their full size.
\<close>

subsection \<open>trim\<close>

text \<open>The first \<open>length new\<close> characters of the buffer are overwritten.\<close>

definition over :: "string \<Rightarrow> string \<Rightarrow> string" where
  "over new buf = new @ drop (length new) buf"

text \<open>The last index below \<open>n\<close> whose character is neither null nor a space, plus one; the loop that
  runs down to \<open>-1\<close>.\<close>

fun stop_after :: "string \<Rightarrow> nat \<Rightarrow> nat" where
  "stop_after b 0 = 0"
| "stop_after b (Suc i) = (if b ! i = NUL \<or> isspace (b ! i) then stop_after b i else Suc i)"

definition trim :: "string \<Rightarrow> string \<Rightarrow> nat \<Rightarrow> error + string" where
  "trim inbuf outbuf n =
    (if n \<le> 1 then Inl (Status (- 1))
     else if inbuf ! (n - 1) \<noteq> NUL then Inl (Status (- 1))
     else let len = length (cstr inbuf) in
       if len = 0 then Inr (over (replicate n NUL) outbuf)
       else if \<not> isspace (inbuf ! 0) \<and> \<not> isspace (inbuf ! (len - 1))
       then Inr (over (cstr inbuf @ [NUL]) outbuf)
       else let start_idx = length (takeWhile isspace (take n inbuf)); stop = stop_after inbuf n
            in Inr (over (take (stop - start_idx) (drop start_idx inbuf)) outbuf))"

subsection \<open>The scan\<close>

datatype cell_end =
    Cell_end nat  \<comment> \<open>the position behind the cell\<close>
  | Cell_bye      \<comment> \<open>\<open>go_BYE(-1)\<close>\<close>
  | Cell_eoln     \<comment> \<open>a line feed in a cell without quotes: \<open>*ptr_is_err\<close> is set\<close>

text \<open>What ends the cell: the quote, the separator, or the end of the line.\<close>

record cell_fmt =
  cf_sep :: char
  cf_last :: bool    \<comment> \<open>\<open>is_last_col\<close>\<close>
  cf_dquote :: bool  \<comment> \<open>\<open>start_dquote\<close>\<close>

definition row_char :: "cell_fmt \<Rightarrow> char" where
  "row_char F = (if cf_last F then eoln else cf_sep F)"

definition last_char :: "cell_fmt \<Rightarrow> char" where
  "last_char F = (if cf_dquote F then dquote else row_char F)"

text \<open>The endless loop of \<open>get_cell\<close>: \<open>acc\<close> is what \<open>lbuf\<close> holds, \<open>length acc\<close> is \<open>bufidx\<close>.\<close>

function scan_cell :: "string \<Rightarrow> cell_fmt \<Rightarrow> nat \<Rightarrow> nat \<Rightarrow> string \<Rightarrow> cell_end \<times> string" where
  "scan_cell X F bufsz xidx acc =
    (if length X < xidx then (Cell_bye, acc)
     else if xidx = length X then (Cell_end xidx, acc)
     else if X ! xidx = last_char F
     then (if cf_dquote F
           then (if length X \<le> Suc xidx then (Cell_bye, acc)
                 else if X ! Suc xidx \<noteq> row_char F then (Cell_bye, acc)
                 else (Cell_end (xidx + 2), acc))
           else (Cell_end (Suc xidx), acc))
     else if X ! xidx = bslash
     then (if length X \<le> Suc xidx then (Cell_bye, acc)
           else if bufsz \<le> length acc then (Cell_bye, acc)
           else scan_cell X F bufsz (xidx + 2) (acc @ [X ! Suc xidx]))
     else if bufsz \<le> length acc then (Cell_bye, acc)
     else if \<not> cf_dquote F \<and> X ! xidx = eoln then (Cell_eoln, acc)
     else scan_cell X F bufsz (Suc xidx) (acc @ [X ! xidx]))"
  by pat_completeness auto

termination
  by (relation "measure (\<lambda>(X, F, bufsz, xidx, acc). Suc (length X) - xidx)") auto

declare scan_cell.simps [simp del]

subsection \<open>get_cell\<close>

text \<open>The result is the value returned, the contents of \<open>buf\<close>, and \<open>*ptr_is_err\<close>.  \<open>has_lbuf\<close>: the
  caller wants the cell trimmed.  A cell that starts with a backslash is taken for \<open>\\N\<close>; the
  characters behind it are looked at only when they may lie behind the end of the file.\<close>

definition get_cell ::
    "string option \<Rightarrow> nat \<Rightarrow> char \<Rightarrow> bool \<Rightarrow> string \<Rightarrow> bool \<Rightarrow> nat \<Rightarrow> error + nat \<times> string \<times> bool" where
  "get_cell file xidx fld_sep is_last_col buf has_lbuf bufsz =
    (case file of None \<Rightarrow> Inr (0, buf, False)
     | Some X \<Rightarrow>
       if length X = 0 then Inr (0, buf, False)
       else if xidx = length X then Inr (0, buf, False)
       else if bufsz = 0 then Inr (0, buf, False)
       else let buf0 = over (replicate bufsz NUL) buf in
         if length X < xidx then Inl Undef
         else if X ! xidx = bslash
         then (if length X \<le> xidx + 2 \<and> (length X \<le> xidx + 1 \<or> X ! Suc xidx = CHR ''N'')
               then Inl Undef else Inr (xidx + 3, buf0, False))
         else let dq = (X ! xidx = dquote);
                  F = \<lparr>cf_sep = fld_sep, cf_last = is_last_col, cf_dquote = dq\<rparr>;
                  start = (if dq then Suc xidx else xidx)
              in case scan_cell X F bufsz start [] of (end', acc) \<Rightarrow>
                let lbuf = pad bufsz acc; buf1 = (if has_lbuf then buf0 else over lbuf buf0)
                in case end' of
                  Cell_bye \<Rightarrow> Inr (0, buf1, False)
                | Cell_eoln \<Rightarrow> Inr (0, buf1, True)
                | Cell_end xidx' \<Rightarrow>
                    if has_lbuf
                    then (case trim lbuf buf1 bufsz of Inl _ \<Rightarrow> Inr (0, buf1, False)
                          | Inr b \<Rightarrow> Inr (xidx', b, False))
                    else Inr (xidx', buf1, False))"

subsection \<open>Cells as they are written\<close>

text \<open>\<open>sc_escape\<close> is what \<open>SC_to_txt\<close> writes when there is room.\<close>

definition sc_escape :: "string \<Rightarrow> string" where
  "sc_escape c = concat (map (\<lambda>ch. if sc_special ch then [bslash, ch] else [ch]) c)"

lemma sc_escape_simps [simp]:
  "sc_escape [] = []"
  "sc_escape (ch # c) = (if sc_special ch then [bslash, ch] else [ch]) @ sc_escape c"
  by (simp_all add: sc_escape_def)

lemma SC_to_txt_loop_escape:
  "SC_to_txt_loop s nX X = (if length X + length (sc_escape s) < nX then Inr (X @ sc_escape s) else
     SC_to_txt_loop s nX X)"
proof (induction s arbitrary: X)
  case (Cons c cs)
  show ?case using Cons.IH [of "X @ [bslash, c]"] Cons.IH [of "X @ [c]"] by auto
qed auto

lemma SC_to_txt_escape:
  "length (sc_escape s) < nX \<Longrightarrow> SC_to_txt (Some s) nX = Inr (sc_escape s)"
  using SC_to_txt_loop_escape [of s nX "[]"] by (simp add: SC_to_txt_def)

lemma special_simps [simp]:
  "sc_special dquote" "sc_special bslash" "sc_special eoln" "dquote \<noteq> bslash" "bslash \<noteq> dquote"
  "dquote \<noteq> eoln" "eoln \<noteq> dquote" "bslash \<noteq> eoln" "eoln \<noteq> bslash"
  by (simp_all add: sc_special_def special_chars)

lemma nth_here [simp]: "(pre @ c # suf) ! length pre = c" "(pre @ c # d # suf) ! Suc (length pre) = d"
  by (simp_all add: nth_append)

text \<open>Between quotes only the quote and the backslash have to be escaped; any character may be.\<close>

inductive quoted :: "string \<Rightarrow> string \<Rightarrow> bool" where
  Nil: "quoted [] []"
| escaped: "quoted c q \<Longrightarrow> quoted (ch # c) (bslash # ch # q)"
| literal: "quoted c q \<Longrightarrow> ch \<noteq> dquote \<Longrightarrow> ch \<noteq> bslash \<Longrightarrow> quoted (ch # c) (ch # q)"

lemma quoted_escape: "quoted c (sc_escape c)"
  by (induction c) (auto simp: sc_special_def intro: quoted.intros)

lemma scan_quoted:
  assumes "quoted c q" "cf_dquote F" "length acc + length c \<le> n"
  shows "scan_cell (pre @ q @ dquote # row_char F # rest) F n (length pre) acc =
    (Cell_end (length pre + length q + 2), acc @ c)"
  using assms(1,3)
proof (induction arbitrary: pre acc rule: quoted.induct)
  case Nil
  show ?case using assms(2) by (subst scan_cell.simps) (simp add: last_char_def)
next
  case (escaped c q ch)
  have "scan_cell (pre @ (bslash # ch # q) @ dquote # row_char F # rest) F n (length pre) acc =
      scan_cell ((pre @ [bslash, ch]) @ q @ dquote # row_char F # rest) F n
        (length (pre @ [bslash, ch])) (acc @ [ch])"
    using assms(2) escaped.prems by (subst scan_cell.simps) (simp add: last_char_def)
  also have "\<dots> = (Cell_end (length (pre @ [bslash, ch]) + length q + 2), (acc @ [ch]) @ c)"
    by (rule escaped.IH) (use escaped.prems in simp)
  finally show ?case by simp
next
  case (literal c q ch)
  have "scan_cell (pre @ (ch # q) @ dquote # row_char F # rest) F n (length pre) acc =
      scan_cell ((pre @ [ch]) @ q @ dquote # row_char F # rest) F n (length (pre @ [ch])) (acc @ [ch])"
    using literal.hyps literal.prems assms(2) by (subst scan_cell.simps) (simp add: last_char_def)
  also have "\<dots> = (Cell_end (length (pre @ [ch]) + length q + 2), (acc @ [ch]) @ c)"
    by (rule literal.IH) (use literal.prems in simp)
  finally show ?case by simp
qed

text \<open>A cell that can be written without quotes.\<close>

definition plain :: "char \<Rightarrow> string \<Rightarrow> bool" where
  "plain sep c = ((c = [] \<or> hd c \<noteq> dquote) \<and> (\<forall>ch\<in>set c. ch \<noteq> sep \<and> ch \<noteq> eoln \<and> ch \<noteq> bslash))"

lemma scan_plain:
  assumes "\<not> cf_dquote F" "length acc + length c \<le> n"
    and "\<forall>ch\<in>set c. ch \<noteq> cf_sep F \<and> ch \<noteq> eoln \<and> ch \<noteq> bslash"
  shows "scan_cell (pre @ c @ row_char F # rest) F n (length pre) acc =
    (Cell_end (length pre + length c + 1), acc @ c)"
  using assms(2,3)
proof (induction c arbitrary: pre acc)
  case Nil
  show ?case using assms(1) by (subst scan_cell.simps) (simp add: last_char_def)
next
  case (Cons ch c)
  have "scan_cell (pre @ (ch # c) @ row_char F # rest) F n (length pre) acc =
      scan_cell ((pre @ [ch]) @ c @ row_char F # rest) F n (length (pre @ [ch])) (acc @ [ch])"
    using assms(1) Cons.prems
    by (subst scan_cell.simps) (auto simp: last_char_def row_char_def)
  also have "\<dots> = (Cell_end (length (pre @ [ch]) + length c + 1), (acc @ [ch]) @ c)"
    by (rule Cons.IH) (use Cons.prems in auto)
  finally show ?case by simp
qed

subsection \<open>Trimming\<close>

definition strip :: "string \<Rightarrow> string" where
  "strip c = dropWhile isspace (rev (dropWhile isspace (rev c)))"

lemma stop_after_eq:
  "i \<le> length b \<Longrightarrow> stop_after b i = length (dropWhile (\<lambda>c. c = NUL \<or> isspace c) (rev (take i b)))"
  by (induction i) (auto simp: take_Suc_conv_app_nth)

lemma not_space_NUL [simp]: "\<not> isspace NUL"
  by (simp add: isspace_def NUL_def)

lemma stop_after_pad:
  assumes "NUL \<notin> set c" "length c \<le> n"
  shows "stop_after (pad n c) n = length (dropWhile isspace (rev c))"
proof -
  have "dropWhile (\<lambda>c. c = NUL \<or> isspace c) (rev (pad n c)) = dropWhile (\<lambda>c. c = NUL \<or> isspace c) (rev c)"
    unfolding pad_def rev_append rev_replicate by (rule dropWhile_append2) simp
  also have "\<dots> = dropWhile isspace (rev c)"
    by (rule dropWhile_cong) (use assms in auto)
  finally show ?thesis using assms by (simp add: stop_after_eq)
qed

lemma rev_dropWhile_take: "rev (dropWhile P (rev c)) = take (length (dropWhile P (rev c))) c"
  by (metis append_eq_conv_conj length_rev rev_append rev_rev_ident takeWhile_dropWhile_id)

lemma strip_slice:
  "strip c = take (length (dropWhile isspace (rev c)) - length (takeWhile isspace c))
     (drop (length (takeWhile isspace c)) c)"
proof (cases "dropWhile isspace (rev c) = []")
  case False
  let ?t = "length (dropWhile isspace (rev c))"
  have r: "rev (dropWhile isspace (rev c)) = take ?t c" by (rule rev_dropWhile_take)
  obtain x where x: "x \<in> set (take ?t c)" "\<not> isspace x"
    using hd_dropWhile [OF False] False r by (metis hd_in_set set_rev)
  have "takeWhile isspace (take ?t c @ drop ?t c) = takeWhile isspace (take ?t c)"
    by (rule takeWhile_append1 [of x]) (use x in auto)
  then have "takeWhile isspace (take ?t c) = takeWhile isspace c" by simp
  then have "strip c = drop (length (takeWhile isspace c)) (take ?t c)"
    unfolding strip_def r by (simp only: dropWhile_eq_drop)
  then show ?thesis by (simp only: drop_take)
next
  case True
  then show ?thesis unfolding strip_def True by simp
qed

lemma over_zeros: "length s \<le> n \<Longrightarrow> over s (replicate n NUL @ tl') = pad n s @ tl'"
  by (simp add: over_def pad_def)

lemma pad_snoc: "length s < n \<Longrightarrow> pad n (s @ [NUL]) = pad n s"
  by (simp add: pad_def) (metis Suc_diff_Suc replicate_Suc)

lemma length_strip: "length (strip c) \<le> length c"
  unfolding strip_def by (metis dual_order.trans length_dropWhile_le length_rev)

lemma strip_no_space:
  assumes "c \<noteq> []" "\<not> isspace (c ! 0)" "\<not> isspace (c ! (length c - 1))"
  shows "strip c = c"
proof -
  have "dropWhile isspace (rev c) = rev c"
    using assms by (cases c rule: rev_cases) auto
  then show ?thesis using assms by (cases c) (auto simp: strip_def)
qed

lemma trim_strip:
  assumes c: "NUL \<notin> set c" "length c < n" and n: "1 < n"
  shows "trim (pad n c) (replicate n NUL @ tl') n = Inr (pad n (strip c) @ tl')"
proof -
  have "\<not> n - 1 < length c" using c by simp
  then have last: "pad n c ! (n - 1) = NUL" using c n by (simp add: pad_def nth_append)
  have cs: "cstr (pad n c) = c" using c by simp
  have nth: "i < length c \<Longrightarrow> pad n c ! i = c ! i" for i by (simp add: pad_def nth_append)
  show ?thesis
  proof (cases "c = []")
    case True
    then show ?thesis using n last cs by (simp add: trim_def Let_def over_def pad_def strip_def)
  next
    case False
    show ?thesis
    proof (cases "\<not> isspace (c ! 0) \<and> \<not> isspace (c ! (length c - 1))")
      case True
      with False have "strip c = c" by (simp add: strip_no_space)
      then show ?thesis
        using n last cs True False nth [of 0] nth [of "length c - 1"] c
        by (simp add: trim_def Let_def over_zeros pad_snoc del: append.simps)
    next
      case sp: False
      have tw: "takeWhile isspace (take n (pad n c)) = takeWhile isspace c"
      proof -
        have "n - length c \<noteq> 0" using c by simp
        then obtain k where "replicate (n - length c) NUL = NUL # replicate k NUL"
          by (metis not0_implies_Suc replicate_Suc)
        then have p: "pad n c = c @ NUL # replicate k NUL" by (simp add: pad_def)
        have "takeWhile isspace (c @ NUL # replicate k NUL) = takeWhile isspace c"
          by (rule takeWhile_tail) simp
        moreover have "take n (pad n c) = pad n c" using c by simp
        ultimately show ?thesis using p by simp
      qed
      let ?st = "length (takeWhile isspace c)" and ?t = "length (dropWhile isspace (rev c))"
      have t: "?t \<le> length c" using length_dropWhile_le [of isspace "rev c"] by simp
      have "take (?t - ?st) (drop ?st (pad n c)) = strip c"
        using t length_takeWhile_le [of isspace c] by (simp add: strip_slice pad_def)
      then show ?thesis
        using n last cs sp False nth [of 0] nth [of "length c - 1"] c length_strip [of c] tw
        by (auto simp: trim_def Let_def stop_after_pad over_zeros)
    qed
  qed
qed

subsection \<open>Reading a cell back\<close>

text \<open>How \<open>c\<close> may stand in a file: in quotes, or as it is.\<close>

definition cell_text :: "char \<Rightarrow> string \<Rightarrow> string \<Rightarrow> bool" where
  "cell_text sep c t = ((\<exists>q. quoted c q \<and> t = dquote # q @ [dquote]) \<or> t = c \<and> plain sep c)"

definition fits :: "bool \<Rightarrow> nat \<Rightarrow> string \<Rightarrow> bool" where
  "fits tr n c = (NUL \<notin> set c \<and> (if tr then length c < n \<and> 1 < n else length c \<le> n \<and> 0 < n))"

definition cell_read :: "bool \<Rightarrow> string \<Rightarrow> string" where
  "cell_read tr c = (if tr then strip c else c)"

lemma over_over: "length a \<le> length b \<Longrightarrow> over b (over a x) = over b x"
  by (simp add: over_def)

lemma get_cell_text:
  assumes t: "cell_text sep c t" and f: "fits tr n c" and sep: "sep \<noteq> dquote" "sep \<noteq> bslash"
    and buf: "n \<le> length buf" and rc: "rc = (if lst then eoln else sep)"
  shows "get_cell (Some (pre @ t @ rc # rest)) (length pre) sep lst buf tr n =
    Inr (Suc (length pre + length t), pad n (cell_read tr c) @ drop n buf, False)"
proof -
  let ?X = "pre @ t @ rc # rest"
  define dq where "dq = (?X ! length pre = dquote)"
  define F where "F = \<lparr>cf_sep = sep, cf_last = lst, cf_dquote = dq\<rparr>"
  have n: "0 < n" "length c \<le> n" "NUL \<notin> set c" using f by (auto simp: fits_def split: if_splits)
  have row: "row_char F = rc" by (simp add: row_char_def F_def rc)
  have rcn: "rc \<noteq> dquote" "rc \<noteq> bslash" using sep rc by auto
  have first: "?X ! length pre \<noteq> bslash"
    using t rcn by (cases t) (auto simp: cell_text_def plain_def)
  have scan: "scan_cell ?X F n (if dq then Suc (length pre) else length pre) [] =
      (Cell_end (Suc (length pre + length t)), c)"
  proof (cases "\<exists>q. quoted c q \<and> t = dquote # q @ [dquote]")
    case True
    then obtain q where q: "quoted c q" "t = dquote # q @ [dquote]" by blast
    then have dq: "dq" by (simp add: dq_def)
    then show ?thesis
      using q(2) scan_quoted [OF q(1), of F "[]" n "pre @ [dquote]" rest] n row by (simp add: F_def)
  next
    case False
    with t have p: "t = c" "plain sep c" by (auto simp: cell_text_def)
    then have dq: "\<not> dq" using rcn by (cases c) (auto simp: dq_def plain_def)
    then show ?thesis
      using p scan_plain [of F "[]" c n pre rest] n row by (simp add: F_def plain_def)
  qed
  have buf0: "over (replicate n NUL) buf = replicate n NUL @ drop n buf" by (simp add: over_def)
  have get: "get_cell (Some ?X) (length pre) sep lst buf tr n =
      (if tr then case trim (pad n c) (replicate n NUL @ drop n buf) n of
           Inl _ \<Rightarrow> Inr (0, replicate n NUL @ drop n buf, False)
         | Inr b \<Rightarrow> Inr (Suc (length pre + length t), b, False)
       else Inr (Suc (length pre + length t), over (pad n c) (replicate n NUL @ drop n buf), False))"
    using n first scan by (simp add: get_cell_def Let_def buf0 F_def dq_def [symmetric])
  show ?thesis
  proof (cases tr)
    case True
    with f show ?thesis unfolding get by (simp add: fits_def trim_strip cell_read_def)
  next
    case False
    then show ?thesis unfolding get using n by (simp add: cell_read_def over_def)
  qed
qed

subsection \<open>Cells that are too long\<close>

lemma scan_long:
  assumes "\<not> cf_dquote F" "\<forall>ch\<in>set c. ch \<noteq> cf_sep F \<and> ch \<noteq> eoln \<and> ch \<noteq> bslash"
    and "length acc \<le> n" "n < length acc + length c"
  shows "scan_cell (pre @ c @ rest) F n (length pre) acc = (Cell_bye, acc @ take (n - length acc) c)"
  using assms(2-)
proof (induction c arbitrary: pre acc)
  case (Cons ch c)
  have ch: "ch \<noteq> last_char F" "ch \<noteq> bslash" "ch \<noteq> eoln"
    using Cons.prems(1) assms(1) by (auto simp: last_char_def row_char_def)
  show ?case
  proof (cases "n \<le> length acc")
    case True
    then show ?thesis using ch by (subst scan_cell.simps) simp
  next
    case False
    have "scan_cell (pre @ (ch # c) @ rest) F n (length pre) acc =
        scan_cell ((pre @ [ch]) @ c @ rest) F n (length (pre @ [ch])) (acc @ [ch])"
      using ch False assms(1) by (subst scan_cell.simps) simp
    also have "\<dots> = (Cell_bye, (acc @ [ch]) @ take (n - length (acc @ [ch])) c)"
      by (rule Cons.IH) (use Cons.prems False in auto)
    finally show ?thesis using False by (simp add: take_Cons' Suc_diff_Suc)
  qed
qed simp

lemma drop_replicate_Suc: "drop n (x # replicate n x) = [x]"
  by (induction n) simp_all

lemma get_cell_long:
  assumes "plain sep c" "n < length c" "0 < n"
  shows "get_cell (Some (pre @ c @ rest)) (length pre) sep lst (replicate (Suc n) NUL) False n =
    Inr (0, take n c @ [NUL], False)"
proof -
  obtain ch c' where c: "c = ch # c'" using assms(2) by (cases c) auto
  have ch: "ch \<noteq> bslash" "ch \<noteq> dquote" using assms(1) by (auto simp: c plain_def)
  have "scan_cell (pre @ c @ rest) \<lparr>cf_sep = sep, cf_last = lst, cf_dquote = False\<rparr> n (length pre) [] =
      (Cell_bye, take n c)"
    using scan_long [of "\<lparr>cf_sep = sep, cf_last = lst, cf_dquote = False\<rparr>" c "[]" n pre rest] assms
    by (simp add: plain_def)
  then show ?thesis
    using assms(2,3) ch by (simp add: get_cell_def Let_def over_def pad_def c drop_replicate_Suc)
qed

text \<open>What \<open>SC_to_txt\<close> returns is the escaped string.\<close>

lemma SC_to_txt_loop_Inr: "SC_to_txt_loop s nX X = Inr t \<Longrightarrow> t = X @ sc_escape s"
  by (induction s arbitrary: X) (fastforce split: if_splits)+

lemma SC_to_txt_Inr: "SC_to_txt (Some s) nX = Inr t \<Longrightarrow> t = sc_escape s"
  by (auto simp: SC_to_txt_def dest: SC_to_txt_loop_Inr split: if_splits)

end
