(* ===== verification/Csv_Float.thy ===== *)
theory Csv_Float
  imports Csv_Text
begin

text \<open>
  Reading floating-point numbers: \<open>UTILS/DEPRECATED/src/txt_to_F4.c\<close> and \<open>txt_to_F8.c\<close>, with
  \<open>strtold\<close> and the conversions between the IEEE formats written out.  A value is a sign, a
  mantissa and an exponent of two; every conversion rounds to the nearest value, ties to the even
  mantissa.  Of a not-a-number only the sign is kept, not the payload \<open>nan(...)\<close> may give.
\<close>

subsection \<open>Values and rounding\<close>

datatype fp = Fin bool nat int | Infty bool | NaN bool  \<comment> \<open>the flag: negative\<close>

fun bitlen :: "nat \<Rightarrow> nat" where
  "bitlen n = (if n = 0 then 0 else Suc (bitlen (n div 2)))"

declare bitlen.simps [simp del]

definition round_half_even :: "nat \<Rightarrow> nat \<Rightarrow> nat" where
  "round_half_even n d =
    (let q = n div d; r = n mod d
     in if 2 * r < d then q else if d < 2 * r then Suc q else if even q then q else Suc q)"

text \<open>A format: the bits of its mantissa, its least exponent and its greatest exponent, for values
  \<open>m * 2 ^ e\<close> with \<open>m < 2 ^ prec\<close>.\<close>

record fmt =
  prec :: nat
  emin :: int
  emax :: int

definition F80_fmt :: fmt where "F80_fmt = \<lparr>prec = 64, emin = - 16445, emax = 16320\<rparr>"
definition F64_fmt :: fmt where "F64_fmt = \<lparr>prec = 53, emin = - 1074, emax = 971\<rparr>"
definition F32_fmt :: fmt where "F32_fmt = \<lparr>prec = 24, emin = - 149, emax = 104\<rparr>"

text \<open>The mantissa of \<open>num / den\<close> at exponent \<open>e\<close>.\<close>

definition scaled :: "nat \<Rightarrow> nat \<Rightarrow> int \<Rightarrow> nat" where
  "scaled num den e = (if 0 \<le> e then round_half_even num (den * 2 ^ nat e)
                       else round_half_even (num * 2 ^ nat (- e)) den)"

definition pick_exp :: "fmt \<Rightarrow> nat \<Rightarrow> nat \<Rightarrow> int" where
  "pick_exp F num den =
    (let e = int (bitlen num) - int (bitlen den) - int (prec F);
         big = (if 0 \<le> e then den * 2 ^ (nat e + prec F) \<le> num else den * 2 ^ prec F \<le> num * 2 ^ nat (- e))
     in max (emin F) (if big then e + 1 else e))"

definition fp_round :: "fmt \<Rightarrow> bool \<Rightarrow> nat \<Rightarrow> nat \<Rightarrow> fp" where
  "fp_round F neg num den =
    (if num = 0 then Fin neg 0 (emin F)
     else let e = pick_exp F num den; m = scaled num den e;
              (m', e') = (if m = 2 ^ prec F then (2 ^ (prec F - 1), e + 1) else (m, e))
          in if emax F < e' then Infty neg else Fin neg m' e')"

text \<open>A conversion to a narrower format.\<close>

definition fp_conv :: "fmt \<Rightarrow> fp \<Rightarrow> fp" where
  "fp_conv F v = (case v of
     Fin neg m e \<Rightarrow> if 0 \<le> e then fp_round F neg (m * 2 ^ nat e) 1 else fp_round F neg m (2 ^ nat (- e))
   | _ \<Rightarrow> v)"

text \<open>\<open>x > m * 2 ^ e\<close> in magnitude, for a nonnegative exponent.\<close>

definition mag_gt :: "nat \<Rightarrow> int \<Rightarrow> nat \<Rightarrow> nat \<Rightarrow> bool" where
  "mag_gt m e lm le = (if 0 \<le> e then lm * 2 ^ le < m * 2 ^ nat e else lm * 2 ^ (le + nat (- e)) < m)"

text \<open>\<open>( out < - MAX ) || ( out > MAX )\<close>: false for a not-a-number.\<close>

definition out_of_range :: "fmt \<Rightarrow> fp \<Rightarrow> bool" where
  "out_of_range F v = (case v of
     Fin _ m e \<Rightarrow> mag_gt m e (2 ^ prec F - 1) (nat (emax F)) | Infty _ \<Rightarrow> True | NaN _ \<Rightarrow> False)"

text \<open>The bits in memory; \<open>bits\<close> is the width of the format.\<close>

definition fp_bits :: "fmt \<Rightarrow> nat \<Rightarrow> fp \<Rightarrow> nat" where
  "fp_bits F bits v =
    (let frac = prec F - 1; ebits = bits - prec F; sgn = (\<lambda>b. if b then 2 ^ (bits - 1) else 0)
     in case v of
       Fin neg m e \<Rightarrow> sgn neg + (if m < 2 ^ frac then m else nat (e - emin F + 1) * 2 ^ frac + (m - 2 ^ frac))
     | Infty neg \<Rightarrow> sgn neg + (2 ^ ebits - 1) * 2 ^ frac
     | NaN neg \<Rightarrow> sgn neg + (2 ^ ebits - 1) * 2 ^ frac + 2 ^ (frac - 1))"

subsection \<open>Scanning\<close>

definition isxdigit :: "char \<Rightarrow> bool" where
  "isxdigit c = (isdigit c \<or> tolower c \<in> set ''abcdef'')"

definition xdigit_val :: "char \<Rightarrow> nat" where
  "xdigit_val c = (if isdigit c then digit_val c else of_char (tolower c) - 87)"

definition base_val :: "nat \<Rightarrow> string \<Rightarrow> nat" where
  "base_val b ds = foldl (\<lambda>n c. b * n + xdigit_val c) 0 ds"

text \<open>\<open>digits [ . digits ]\<close> with at least one digit: the digits before and after the point, and
  where they end.\<close>

definition scan_mant :: "(char \<Rightarrow> bool) \<Rightarrow> string \<Rightarrow> (string \<times> string \<times> nat) option" where
  "scan_mant isd r =
    (let a = takeWhile isd r; r1 = drop (length a) r;
         pt = (r1 \<noteq> [] \<and> hd r1 = CHR ''.''); b = (if pt then takeWhile isd (tl r1) else [])
     in if a = [] \<and> b = [] then None
        else Some (a, b, length a + (if pt then Suc (length b) else 0)))"

text \<open>An exponent, introduced by \<open>mark\<close>; without digits there is none.\<close>

definition scan_exp :: "char \<Rightarrow> string \<Rightarrow> int \<times> nat" where
  "scan_exp mark r =
    (if r \<noteq> [] \<and> tolower (hd r) = mark
     then case scan_dec (tl r) of (neg, ds, k) \<Rightarrow>
       if k = 0 \<or> isspace (hd (tl r)) then (0, 0)
       else (if neg then - int (dec_val ds) else int (dec_val ds), Suc k)
     else (0, 0))"

text \<open>\<open>+-(m * b ^ x)\<close> rounded.\<close>

definition pow_round :: "fmt \<Rightarrow> bool \<Rightarrow> nat \<Rightarrow> nat \<Rightarrow> int \<Rightarrow> fp" where
  "pow_round F neg m b x =
    (if 0 \<le> x then fp_round F neg (m * b ^ nat x) 1 else fp_round F neg m (b ^ nat (- x)))"

definition starts :: "string \<Rightarrow> string \<Rightarrow> bool" where
  "starts pre r = (map tolower (take (length pre) r) = pre)"

definition nan_payload :: "string \<Rightarrow> nat" where
  "nan_payload r =
    (if r \<noteq> [] \<and> hd r = CHR ''(''
     then let p = takeWhile (\<lambda>c. isdigit c \<or> tolower c \<in> set ''abcdefghijklmnopqrstuvwxyz'' \<or> c = CHR ''_'') (tl r);
              q = drop (length p) (tl r)
          in if q \<noteq> [] \<and> hd q = CHR '')'' then length p + 2 else 0
     else 0)"

definition scan_decimal :: "bool \<Rightarrow> string \<Rightarrow> fp \<times> nat" where
  "scan_decimal neg r =
    (case scan_mant isdigit r of None \<Rightarrow> (Fin False 0 (emin F80_fmt), 0)
     | Some (a, b, k) \<Rightarrow> (case scan_exp CHR ''e'' (drop k r) of (x, k') \<Rightarrow>
         (pow_round F80_fmt neg (base_val 10 (a @ b)) 10 (x - int (length b)), k + k')))"

definition scan_hex :: "bool \<Rightarrow> string \<Rightarrow> (fp \<times> nat) option" where
  "scan_hex neg r =
    (if starts ''0x'' r
     then (case scan_mant isxdigit (drop 2 r) of None \<Rightarrow> None
       | Some (a, b, k) \<Rightarrow> (case scan_exp CHR ''p'' (drop (2 + k) r) of (x, k') \<Rightarrow>
           Some (pow_round F80_fmt neg (base_val 16 (a @ b)) 2 (x - 4 * int (length b)), 2 + k + k')))
     else None)"

definition scan_unsigned :: "bool \<Rightarrow> string \<Rightarrow> fp \<times> nat" where
  "scan_unsigned neg r =
    (if starts ''infinity'' r then (Infty neg, 8)
     else if starts ''inf'' r then (Infty neg, 3)
     else if starts ''nan'' r then (NaN neg, 3 + nan_payload (drop 3 r))
     else case scan_hex neg r of Some v \<Rightarrow> v | None \<Rightarrow> scan_decimal neg r)"

text \<open>\<open>strtold\<close>: the value and where it ends, 0 when there is no number.\<close>

definition strtold :: "string \<Rightarrow> fp \<times> nat" where
  "strtold X =
    (let w = length (takeWhile isspace X); r = drop w X;
         neg = (r \<noteq> [] \<and> hd r = CHR ''-''); sgn = (r \<noteq> [] \<and> (hd r = CHR ''-'' \<or> hd r = CHR ''+''));
         r' = (if sgn then tl r else r)
     in case scan_unsigned neg r' of (v, k) \<Rightarrow>
          (v, if k = 0 then 0 else w + (if sgn then 1 else 0) + k))"

subsection \<open>The readers\<close>

text \<open>Every failure becomes the value \<open>FLT_MAX\<close> and the status 0.\<close>

definition FLT_MAX_bits :: nat where "FLT_MAX_bits = fp_bits F32_fmt 32 (Fin False (2 ^ 24 - 1) 104)"

definition txt_to_F4 :: "string option \<Rightarrow> nat" where
  "txt_to_F4 X =
    (case X of None \<Rightarrow> FLT_MAX_bits
     | Some s \<Rightarrow>
        if s = [] then FLT_MAX_bits
        else case strtold s of (ld, endptr) \<Rightarrow>
          let out = fp_conv F64_fmt ld in
          if bad_end s endptr then FLT_MAX_bits
          else if endptr = 0 then FLT_MAX_bits
          else if out_of_range F32_fmt out then FLT_MAX_bits
          else fp_bits F32_fmt 32 (fp_conv F32_fmt out))"

definition txt_to_F8 :: "string option \<Rightarrow> error + nat" where
  "txt_to_F8 X =
    (case X of None \<Rightarrow> Inl (Status (- 1))
     | Some s \<Rightarrow>
        if s = [] then Inl (Status (- 1))
        else case strtold s of (ld, endptr) \<Rightarrow>
          let out = fp_conv F64_fmt ld in
          if bad_end s endptr then Inl (Status (- 1))
          else if endptr = 0 then Inl (Status (- 1))
          else if out_of_range F64_fmt out then Inl (Status (- 1))
          else Inr (fp_bits F64_fmt 64 out))"

end
