(* ===== verification/Csv_Load.thy ===== *)
theory Csv_Load
  imports Csv_Cell Csv_Float Qstate
begin

text \<open>
  The CSV loader: \<open>OPERATORS/LOAD_CSV/src/load_csv_seq.c\<close> with \<open>asc_to_bin.c\<close>, \<open>chk_data.c\<close>,
  \<open>get_fld_sep.c\<close>, and \<open>UTILS/DEPRECATED/src/set_bit_u64.c\<close>.  Each column has a buffer of bytes
  for its values and one for its null flags; writing outside a buffer is undefined.  The arrays of
  per-column settings are one list of records.
\<close>

subsection \<open>Buffers\<close>

type_synonym 'a bufprog = "(byte list, 'a) prog"

definition buf_write :: "nat \<Rightarrow> byte list \<Rightarrow> unit bufprog" where
  "buf_write off new b =
    (if off + length new \<le> length b then (Inr (), splice off new b) else (Inl Undef, b))"

definition buf_read :: "nat \<Rightarrow> nat \<Rightarrow> byte list bufprog" where
  "buf_read off n b = (if off + n \<le> length b then (Inr (take n (drop off b)), b) else (Inl Undef, b))"

text \<open>A number in memory, little end first, negative ones in two's complement.\<close>

definition le_bytes :: "nat \<Rightarrow> int \<Rightarrow> byte list" where
  "le_bytes k z = map (\<lambda>i. word_of_int (z div 256 ^ i)) [0..<k]"

definition le_val :: "byte list \<Rightarrow> int" where
  "le_val bs = foldr (\<lambda>b acc. uint b + 256 * acc) bs 0"

lemma length_le_bytes [simp]: "length (le_bytes k z) = k"
  by (simp add: le_bytes_def)

text \<open>\<open>((T *)data)[i] = z\<close> for a type of \<open>k\<close> bytes.\<close>

definition store_num :: "nat \<Rightarrow> nat \<Rightarrow> int \<Rightarrow> unit bufprog" where
  "store_num k i z = buf_write (i * k) (le_bytes k z)"

definition set_bit_u64 :: "nat \<Rightarrow> nat \<Rightarrow> unit bufprog" where
  "set_bit_u64 i val =
    (let widx = i div 64; bidx = i mod 64 in
     seq (bye_if (val \<noteq> 0 \<and> val \<noteq> 1) (- 1)) (\<lambda>_.
     seq (buf_read (8 * widx) 8) (\<lambda>bs.
       let x = word_of_int (le_val bs) :: 64 word;
           y = or (and x (not (push_bit bidx 1))) (push_bit bidx (of_nat val))
       in buf_write (8 * widx) (le_bytes 8 (uint y)))))"

subsection \<open>asc_to_bin\<close>

text \<open>The value is stored even when the conversion failed; the status is returned after that.\<close>

definition put_num :: "nat \<Rightarrow> nat \<Rightarrow> bool \<Rightarrow> error + int \<Rightarrow> unit bufprog" where
  "put_num k row is_val_null r =
    (if is_val_null then store_num k row 0
     else case r of Inr z \<Rightarrow> store_num k row z
          | Inl e \<Rightarrow> seq (store_num k row 0) (\<lambda>_. stop e))"

definition asc_to_bin :: "string \<Rightarrow> bool \<Rightarrow> qtype \<Rightarrow> nat \<Rightarrow> nat \<Rightarrow> unit bufprog" where
  "asc_to_bin buf is_val_null qtype width row_idx =
    (let s = cstr buf; u = map_sum id int in
     case qtype of
       B1 \<Rightarrow> (case txt_to_I1 (Some s) of Inl e \<Rightarrow> stop e
              | Inr v \<Rightarrow> if v < 0 \<or> 1 < v then go_BYE (- 1) else set_bit_u64 row_idx (nat v))
     | BL \<Rightarrow> if is_val_null then store_num 1 row_idx 0
             else if strcasecmp_eq s ''true'' \<or> s = ''1'' then store_num 1 row_idx 1
             else if strcasecmp_eq s ''false'' \<or> s = ''0'' then store_num 1 row_idx 0
             else go_BYE (- 1)
     | I1 \<Rightarrow> put_num 1 row_idx is_val_null (txt_to_I1 (Some s))
     | I2 \<Rightarrow> put_num 2 row_idx is_val_null (txt_to_I2 (Some s))
     | I4 \<Rightarrow> put_num 4 row_idx is_val_null (txt_to_I4 (Some s))
     | I8 \<Rightarrow> put_num 8 row_idx is_val_null (txt_to_I8 (Some s))
     | UI1 \<Rightarrow> put_num 1 row_idx is_val_null (u (txt_to_UI1 (Some s)))
     | UI2 \<Rightarrow> put_num 2 row_idx is_val_null (u (txt_to_UI2 (Some s)))
     | UI4 \<Rightarrow> put_num 4 row_idx is_val_null (u (txt_to_UI4 (Some s)))
     | UI8 \<Rightarrow> put_num 8 row_idx is_val_null (u (txt_to_UI8 (Some s)))
     | F4 \<Rightarrow> put_num 4 row_idx is_val_null (Inr (int (txt_to_F4 (Some s))))
     | F8 \<Rightarrow> put_num 8 row_idx is_val_null (u (txt_to_F8 (Some s)))
     | SC \<Rightarrow> seq (buf_write (u32 (row_idx * width)) (replicate width 0)) (\<lambda>_.
             seq (undef_if (length buf < width)) (\<lambda>_.
               buf_write (u32 (row_idx * width)) (map of_char (take width buf))))
     | _ \<Rightarrow> go_BYE (- 1))"

subsection \<open>Columns and arguments\<close>

record csv_col =
  col_qtype :: qtype
  col_trim :: bool
  col_load :: bool
  col_nulls :: bool
  col_width :: nat

text \<open>\<open>f_nR\<close> and \<open>f_offset\<close> are \<open>*ptr_nR\<close> and \<open>*ptr_file_offset\<close>; \<open>f_files\<close> are the files that can be
  mapped, \<open>f_can_malloc\<close> whether the two cell buffers can be had.\<close>

record csvst =
  f_data :: "byte list option list"
  f_nn :: "byte list option list"
  f_nR :: nat
  f_offset :: nat
  f_files :: "string \<rightharpoonup> string"
  f_can_malloc :: bool

type_synonym 'a csvprog = "(csvst, 'a) prog"

fun chk_cols :: "csv_col list \<Rightarrow> 'a option list \<Rightarrow> 'b option list \<Rightarrow> nat \<Rightarrow> error + unit" where
  "chk_cols [] data nn max_width = Inr ()"
| "chk_cols (c # cs) (d # ds) (n # ns) max_width =
    (if col_load c \<and> d = None then Inl (Status (- 1))
     else if \<not> col_load c \<and> d \<noteq> None then Inl (Status (- 1))
     else if \<not> col_load c \<and> n \<noteq> None then Inl (Status (- 1))
     else if col_nulls c \<and> n = None then Inl (Status (- 1))
     else if \<not> col_nulls c \<and> n \<noteq> None then Inl (Status (- 1))
     else if max_width < col_width c then Inl (Status (- 1))
     else chk_cols cs ds ns max_width)"
| "chk_cols (c # cs) _ _ max_width = Inl Undef"

definition chk_data ::
    "'a option list option \<Rightarrow> 'b option list option \<Rightarrow> csv_col list \<Rightarrow> nat \<Rightarrow> error + unit" where
  "chk_data data nn_data cols max_width =
    (if max_width = 0 then Inl (Status (- 1))
     else if 65536 < max_width then Inl (Status (- 1))
     else if cols = [] then Inr ()
     else case (data, nn_data) of
       (Some d, Some n) \<Rightarrow> chk_cols cols d n max_width
     | _ \<Rightarrow> Inl (Status (- 1)))"

definition get_fld_sep :: "string option \<Rightarrow> error + char" where
  "get_fld_sep str_fld_sep =
    (case str_fld_sep of None \<Rightarrow> Inl (Status (- 1))
     | Some s \<Rightarrow>
        if strcasecmp_eq s ''comma'' then Inr CHR '',''
        else if strcasecmp_eq s ''tab'' then Inr CHR 0x09
        else Inl (Status (- 1)))"

definition lift_res :: "error + 'a \<Rightarrow> ('s, 'a) prog" where
  "lift_res r s = (r, s)"

text \<open>Work on the buffer of column \<open>i\<close>.\<close>

definition at_buf :: "byte list option list \<Rightarrow> nat \<Rightarrow> unit bufprog \<Rightarrow> (error + unit) \<times> byte list option list" where
  "at_buf bufs i m =
    (if i < length bufs
     then (case bufs ! i of None \<Rightarrow> (Inl Undef, bufs)
           | Some b \<Rightarrow> (case m b of (r, b') \<Rightarrow> (r, bufs[i := Some b'])))
     else (Inl Undef, bufs))"

definition in_data :: "nat \<Rightarrow> unit bufprog \<Rightarrow> unit csvprog" where
  "in_data i m s = (case at_buf (f_data s) i m of (r, d) \<Rightarrow> (r, s\<lparr>f_data := d\<rparr>))"

definition in_nn :: "nat \<Rightarrow> unit bufprog \<Rightarrow> unit csvprog" where
  "in_nn i m s = (case at_buf (f_nn s) i m of (r, d) \<Rightarrow> (r, s\<lparr>f_nn := d\<rparr>))"

subsection \<open>The loop\<close>

text \<open>What stays the same during a call: the file, the columns, the separator, the chunk size, the
  size of the cell buffers, the type of the null flags.  Without a valid separator its variable is
  not initialised.\<close>

record csv_args =
  a_file :: string
  a_cols :: "csv_col list"
  a_sep :: "char option"
  a_chunk :: nat
  a_max_width :: nat
  a_nn_qtype :: qtype

text \<open>The variables of the loop.\<close>

record csv_pos =
  p_xidx :: nat
  p_row :: nat
  p_col :: nat
  p_hdr :: bool

text \<open>From the test for a null value to the end of \<open>asc_to_bin\<close>.\<close>

definition put_nn :: "csv_args \<Rightarrow> nat \<Rightarrow> nat \<Rightarrow> bool \<Rightarrow> unit csvprog" where
  "put_nn A row col is_val_null =
    (if a_nn_qtype A = B1 then in_nn col (set_bit_u64 row (of_bool (\<not> is_val_null)))
     else if a_nn_qtype A = BL then in_nn col (store_num 1 row (of_bool (\<not> is_val_null)))
     else go_BYE (- 1))"

definition put_cell :: "csv_args \<Rightarrow> nat \<Rightarrow> nat \<Rightarrow> string \<Rightarrow> unit csvprog" where
  "put_cell A row col buf =
    (let c = a_cols A ! col; is_val_null = (buf ! 0 = NUL) in steps
     [bye_if (is_val_null \<and> \<not> col_nulls c) (- 1),
      (if col_nulls c then put_nn A row col is_val_null else ret ()),
      in_data col (asc_to_bin buf is_val_null (col_qtype c) (col_width c) (u32 row))])"

text \<open>The next cell of the row, or the first of the next row.\<close>

definition next_cell :: "csv_args \<Rightarrow> csv_pos \<Rightarrow> nat \<Rightarrow> csv_pos" where
  "next_cell A p xidx =
    (if p_col p + 1 = length (a_cols A)
     then p\<lparr>p_xidx := xidx, p_col := 0, p_row := u64 (p_row p + 1)\<rparr>
     else p\<lparr>p_xidx := xidx, p_col := p_col p + 1\<rparr>)"

definition chunk_done :: "csv_args \<Rightarrow> csv_pos \<Rightarrow> bool" where
  "chunk_done A p = (p_col p = 0 \<and> p_row p = a_chunk A)"

text \<open>One round of \<open>while ( true )\<close>; the flag is the \<open>break\<close>.\<close>

definition csv_step :: "csv_args \<Rightarrow> csv_pos \<Rightarrow> (csv_pos \<times> bool) csvprog" where
  "csv_step A p =
    (case a_sep A of None \<Rightarrow> stop Undef
     | Some fld_sep \<Rightarrow>
       let nX = length (a_file A); is_last_col = (p_col p = length (a_cols A) - 1);
           c = a_cols A ! p_col p in
       seq (lift_res (get_cell (Some (a_file A)) (p_xidx p) fld_sep is_last_col
              (replicate (a_max_width A) NUL) (col_trim c) (a_max_width A - 1)))
       (\<lambda>(xidx, buf, is_err). seq (bye_if is_err (- 1)) (\<lambda>_. seq get_st (\<lambda>s.
         if p_hdr p \<and> f_offset s = 0
         then seq (bye_if (p_row p \<noteq> 0) (- 1)) (\<lambda>_.
           ret (p\<lparr>p_xidx := xidx, p_col := (if is_last_col then 0 else p_col p + 1), p_hdr := \<not> is_last_col\<rparr>,
                nX \<le> xidx))
         else if \<not> col_load c
         then (let p' = next_cell A p xidx in ret (p', chunk_done A p' \<or> xidx = nX))
         else seq (put_cell A (p_row p) (p_col p) buf) (\<lambda>_.
           let p' = next_cell A p xidx in ret (p', chunk_done A p' \<or> nX \<le> xidx))))))"

primrec csv_loop :: "nat \<Rightarrow> csv_args \<Rightarrow> csv_pos \<Rightarrow> csv_pos csvprog" where
  "csv_loop 0 A p = stop Diverges"
| "csv_loop (Suc n) A p = seq (csv_step A p) (\<lambda>(p', brk). if brk then ret p' else csv_loop n A p')"

text \<open>Rounds that are enough: a header and a chunk, a chunk of size 0 being one of \<open>2 ^ 64\<close> rows.\<close>

definition csv_rounds :: "csv_args \<Rightarrow> nat" where
  "csv_rounds A = length (a_cols A) * Suc (if a_chunk A = 0 then 2 ^ 64 else a_chunk A)"

definition load_csv_seq ::
    "string option \<Rightarrow> csv_col list \<Rightarrow> string option \<Rightarrow> nat \<Rightarrow> nat \<Rightarrow> qtype \<Rightarrow> bool \<Rightarrow> unit csvprog" where
  "load_csv_seq infile cols str_fld_sep chunk_size max_width nn_qtype is_hdr =
    seq (steps [bye_if (infile = None \<or> infile = Some []) (- 1), bye_if (cols = []) (- 1)]) (\<lambda>_.
    seq get_st (\<lambda>s.
    seq (lift_res (chk_data (Some (f_data s)) (Some (f_nn s)) cols max_width)) (\<lambda>_.
    seq (bye_if (\<not> f_can_malloc s) (- 1)) (\<lambda>_.
    let fld_sep = (case get_fld_sep str_fld_sep of Inl _ \<Rightarrow> None | Inr c \<Rightarrow> Some c) in
    case f_files s (the infile) of None \<Rightarrow> go_BYE (- 1)
    | Some X \<Rightarrow>
      seq (steps [bye_if (X = []) (- 1), bye_if (length X < f_offset s) (- 1),
                  upd_st (\<lambda>s. s\<lparr>f_nR := 0\<rparr>)]) (\<lambda>_.
      if length X \<le> f_offset s then ret ()
      else let A = \<lparr>a_file = X, a_cols = cols, a_sep = fld_sep, a_chunk = chunk_size,
                    a_max_width = max_width, a_nn_qtype = nn_qtype\<rparr> in
        seq (csv_loop (csv_rounds A) A \<lparr>p_xidx = f_offset s, p_row = 0, p_col = 0, p_hdr = is_hdr\<rparr>)
        (\<lambda>p. upd_st (\<lambda>s. s\<lparr>f_nR := p_row p, f_offset := p_xidx p\<rparr>)))))))"

end
