(* ===== verification/Csv_Print.thy ===== *)
theory Csv_Print
  imports Csv_Load
begin

text \<open>
  The printer: \<open>OPERATORS/PRINT/src/cprint.c\<close> writes rows of columns as CSV or as an HTML table.
  Output goes to the end of a stream, the file it opened for appending or standard output.
\<close>

subsection \<open>printf\<close>

text \<open>\<open>%0nd\<close> and \<open>%nd\<close>.\<close>

definition pad_left :: "char \<Rightarrow> nat \<Rightarrow> string \<Rightarrow> string" where
  "pad_left c n s = replicate (n - length s) c @ s"

definition fmt_0d :: "nat \<Rightarrow> int \<Rightarrow> string" where
  "fmt_0d n z = (if z < 0 then CHR ''-'' # pad_left CHR ''0'' (n - 1) (dec_nat (nat (- z)))
                 else pad_left CHR ''0'' n (dec_nat (nat z)))"

definition fmt_d :: "nat \<Rightarrow> int \<Rightarrow> string" where
  "fmt_d n z = pad_left CHR '' '' n (dec_int z)"

text \<open>\<open>%f\<close>: six digits after the point, rounded to nearest, ties to even.\<close>

definition fmt_f :: "fp \<Rightarrow> string" where
  "fmt_f v = (case v of
     Fin neg m e \<Rightarrow>
       (let q = (if 0 \<le> e then m * 2 ^ nat e * 1000000 else round_half_even (m * 1000000) (2 ^ nat (- e)))
        in (if neg then ''-'' else []) @ dec_nat (q div 1000000) @ ''.'' @ pad_left CHR ''0'' 6 (dec_nat (q mod 1000000)))
   | Infty neg \<Rightarrow> (if neg then ''-inf'' else ''inf'')
   | NaN neg \<Rightarrow> (if neg then ''-nan'' else ''nan''))"

definition fp_of_bits :: "fmt \<Rightarrow> nat \<Rightarrow> nat \<Rightarrow> fp" where
  "fp_of_bits F bits n =
    (let frac = prec F - 1; ebits = bits - prec F; neg = (2 ^ (bits - 1) \<le> n);
         ex = n div 2 ^ frac mod 2 ^ ebits; m = n mod 2 ^ frac
     in if ex = 2 ^ ebits - 1 then (if m = 0 then Infty neg else NaN neg)
        else if ex = 0 then Fin neg m (emin F)
        else Fin neg (m + 2 ^ frac) (emin F + int ex - 1))"

subsection \<open>Reading elements\<close>

definition read_uint :: "byte list \<Rightarrow> nat \<Rightarrow> nat \<Rightarrow> error + int" where
  "read_uint X off k = (if off + k \<le> length X then Inr (le_val (take k (drop off X))) else Inl Undef)"

definition read_int :: "byte list \<Rightarrow> nat \<Rightarrow> nat \<Rightarrow> error + int" where
  "read_int X off k = map_sum id (\<lambda>u. if 2 ^ (8 * k - 1) \<le> u then u - 2 ^ (8 * k) else u) (read_uint X off k)"

subsection \<open>The stream\<close>

type_synonym 'a out = "(string, 'a) prog"

definition emit :: "string \<Rightarrow> unit out" where
  "emit t = upd_st (\<lambda>o'. o' @ t)"

definition emit_res :: "(int \<Rightarrow> string) \<Rightarrow> error + int \<Rightarrow> unit out" where
  "emit_res f r = (case r of Inl e \<Rightarrow> stop e | Inr z \<Rightarrow> emit (f z))"

text \<open>The characters of a string cell, up to the first null; outside HTML quotes and backslashes are
  escaped.  The string is read byte by byte from \<open>X\<close>.\<close>

fun emit_sc :: "bool \<Rightarrow> byte list \<Rightarrow> nat \<Rightarrow> unit out" where
  "emit_sc is_html X 0 = ret ()"
| "emit_sc is_html [] (Suc k) = stop Undef"
| "emit_sc is_html (b # X) (Suc k) =
    (if b = 0 then ret ()
     else let c = char_of (unat b) in
       seq (emit ((if \<not> is_html \<and> (c = bslash \<or> c = dquote) then [bslash] else []) @ [c]))
           (\<lambda>_. emit_sc is_html X k))"

text \<open>The fields of the \<open>tm_t\<close> at \<open>off\<close>: year, month, day, hour, day of the week, day of the year.\<close>

definition tm_fields :: "byte list \<Rightarrow> nat \<Rightarrow> (int \<times> int \<times> int \<times> int \<times> int \<times> int) option" where
  "tm_fields X off =
    (case (read_int X off 2, read_int X (off + 2) 1, read_int X (off + 3) 1, read_int X (off + 4) 1,
           read_int X (off + 5) 1, read_int X (off + 6) 2) of
       (Inr y, Inr mo, Inr d, Inr h, Inr wd, Inr yd) \<Rightarrow> Some (y, mo, d, h, wd, yd) | _ \<Rightarrow> None)"

definition tm_text :: "string option \<Rightarrow> int \<times> int \<times> int \<times> int \<times> int \<times> int \<Rightarrow> string" where
  "tm_text format = (\<lambda>(y, mo, d, h, wd, yd). take 62
    (if format = Some ''%Y-%m-%d''
     then [dquote] @ fmt_d 4 (y + 1900) @ ''-'' @ fmt_0d 2 (mo + 1) @ ''-'' @ fmt_0d 2 d @ [dquote]
     else [dquote] @ dec_int (y + 1900) @ ''-'' @ fmt_0d 2 (mo + 1) @ ''-'' @ fmt_0d 2 d @ '' '' @
            dec_int h @ '':'' @ dec_int wd @ '':'' @ dec_int yd @ [dquote]))"

subsection \<open>cprint\<close>

definition print_elem :: "bool \<Rightarrow> qtype \<Rightarrow> int \<Rightarrow> string option \<Rightarrow> byte list \<Rightarrow> nat \<Rightarrow> unit out" where
  "print_elem is_html qt width format X i =
    (case qt of
       BL \<Rightarrow> emit_res (\<lambda>z. if z \<noteq> 0 then ''true'' else ''false'') (read_uint X i 1)
     | I1 \<Rightarrow> emit_res dec_int (read_int X i 1)
     | I2 \<Rightarrow> emit_res dec_int (read_int X (i * 2) 2)
     | I4 \<Rightarrow> emit_res dec_int (read_int X (i * 4) 4)
     | I8 \<Rightarrow> emit_res dec_int (read_int X (i * 8) 8)
     | UI1 \<Rightarrow> emit_res dec_int (read_uint X i 1)
     | UI2 \<Rightarrow> emit_res dec_int (read_uint X (i * 2) 2)
     | UI4 \<Rightarrow> emit_res dec_int (read_uint X (i * 4) 4)
     | UI8 \<Rightarrow> emit_res dec_int (read_uint X (i * 8) 8)
     | F2 \<Rightarrow> emit_res (\<lambda>u. fmt_f (fp_of_bits F32_fmt 32 (unat (F2_to_F4 (word_of_int u))))) (read_uint X (i * 2) 2)
     | F4 \<Rightarrow> emit_res (\<lambda>u. fmt_f (fp_of_bits F32_fmt 32 (nat u))) (read_uint X (i * 4) 4)
     | F8 \<Rightarrow> emit_res (\<lambda>u. fmt_f (fp_of_bits F64_fmt 64 (nat u))) (read_uint X (i * 8) 8)
     | SC \<Rightarrow> if width \<le> 1 then go_BYE (- 1)
             else steps [emit (if is_html then [] else [dquote]),
                         emit_sc is_html (drop (i * nat width) X) (nat width),
                         emit (if is_html then [] else [dquote])]
     | TM1 \<Rightarrow> (case tm_fields X (i * 8) of None \<Rightarrow> stop Undef | Some t \<Rightarrow> emit (tm_text format t))
     | _ \<Rightarrow> go_BYE (- 1))"

text \<open>The settings and buffers of one column.\<close>

record out_col =
  oc_qtype :: qtype
  oc_width :: int
  oc_data :: "byte list option"
  oc_nn :: "byte list option"
  oc_format :: "string option"

definition print_cell :: "bool \<Rightarrow> nat \<Rightarrow> nat \<Rightarrow> out_col \<Rightarrow> unit out" where
  "print_cell is_html i j c =
    (let body = steps [emit (if is_html then ''<td> '' else []),
                       (case oc_data c of None \<Rightarrow> stop Undef
                        | Some X \<Rightarrow> print_elem is_html (oc_qtype c) (oc_width c) (oc_format c) X i),
                       emit (if is_html then ''</td> '' else [])]
     in seq (emit (if \<not> is_html \<and> 0 < j then '','' else [])) (\<lambda>_.
        case oc_nn c of
          None \<Rightarrow> body
        | Some nn \<Rightarrow> (case read_uint nn i 1 of Inl e \<Rightarrow> stop e
                     | Inr z \<Rightarrow> if z = 0 then emit [dquote, dquote] else body)))"

fun print_cells :: "bool \<Rightarrow> nat \<Rightarrow> nat \<Rightarrow> out_col list \<Rightarrow> unit out" where
  "print_cells is_html i j [] = ret ()"
| "print_cells is_html i j (c # cs) = seq (print_cell is_html i j c) (\<lambda>_. print_cells is_html i (Suc j) cs)"

definition print_row :: "bool \<Rightarrow> out_col list \<Rightarrow> nat \<Rightarrow> unit out" where
  "print_row is_html cs i = steps
    [emit (if is_html then ''   <tr> '' else []), print_cells is_html i 0 cs,
     emit (if is_html then ''</tr>'' else []), emit [eoln]]"

definition col_bad :: "out_col \<Rightarrow> bool" where
  "col_bad c \<longleftrightarrow> oc_qtype c = Q0 \<or> oc_qtype c = QF \<or> (oc_qtype c \<noteq> SC \<and> (oc_width c \<le> 0 \<or> 32 \<le> oc_width c))"

definition print_table :: "bool \<Rightarrow> out_col list \<Rightarrow> nat \<Rightarrow> nat \<Rightarrow> unit out" where
  "print_table is_html cs lb ub = steps
    [emit (if is_html then ''<HTML>'' @ [eoln] @ '' <table>'' @ [eoln] else []),
     for_each [lb..<ub] (print_row is_html cs),
     emit (if is_html then '' </table>'' @ [eoln] @ ''</HTML>'' @ [eoln] else [])]"

text \<open>The files that can be appended to, what is in them, and what was printed to standard output.\<close>

record outst =
  o_files :: "string \<rightharpoonup> string"
  o_can_append :: "string \<Rightarrow> bool"
  o_stdout :: string

text \<open>\<open>cfld\<close> has to be \<open>NULL\<close>; the four arrays are one list, so they are given or not together.\<close>

definition cprint ::
    "string option \<Rightarrow> bool \<Rightarrow> bool \<Rightarrow> out_col list option \<Rightarrow> nat \<Rightarrow> nat \<Rightarrow> (outst, unit) prog" where
  "cprint opfile is_html cfld_given cols lb ub =
    (case cols of None \<Rightarrow> go_BYE (- 1)
     | Some cs \<Rightarrow> seq (steps
        [bye_if cfld_given (- 1), bye_if (cs = []) (- 1), bye_if (\<exists>c\<in>set cs. oc_data c = None) (- 1),
         bye_if (ub \<le> lb) (- 1), bye_if (\<exists>c\<in>set cs. col_bad c) (- 1)]) (\<lambda>_.
        if opfile \<noteq> None \<and> opfile \<noteq> Some []
        then seq get_st (\<lambda>s.
          if \<not> o_can_append s (the opfile) then go_BYE (- 1)
          else (\<lambda>s. case print_table is_html cs lb ub (case o_files s (the opfile) of None \<Rightarrow> [] | Some t \<Rightarrow> t) of
                 (r, t) \<Rightarrow> (r, s\<lparr>o_files := (o_files s)(the opfile \<mapsto> t)\<rparr>)))
        else (\<lambda>s. case print_table is_html cs lb ub (o_stdout s) of (r, t) \<Rightarrow> (r, s\<lparr>o_stdout := t\<rparr>))))"

end
