(* ===== verification/Csv_Run.thy ===== *)
theory Csv_Run
  imports Csv_Load
begin

text \<open>
  The loop of the CSV loader: it ends after \<open>csv_rounds\<close> rounds at most, and on a table written
  cell by cell it does what storing the cells row by row does.
\<close>

subsection \<open>The loop ends\<close>

definition ends :: "('s, 'a) prog \<Rightarrow> bool" where
  "ends m = (\<forall>s. fst (m s) \<noteq> Inl Diverges)"

named_theorems ends_intros \<open>programs that end\<close>

lemma ends_basic [ends_intros]:
  "ends (ret x)" "ends (go_BYE st)" "ends (stop Undef)" "ends (bye_if c st)" "ends (undef_if c)" "ends get_st"
  "ends (upd_st f)"
  by (simp_all add: ends_def prog_simps)

lemma ends_seq [ends_intros]: "ends m \<Longrightarrow> (\<And>x. ends (f x)) \<Longrightarrow> ends (seq m f)"
  unfolding ends_def seq_def by (auto split: prod.splits sum.splits) (metis fst_conv)+

lemma ends_if [ends_intros]: "ends m \<Longrightarrow> ends m' \<Longrightarrow> ends (if c then m else m')"
  by simp

lemma ends_steps [ends_intros]: "(\<And>m. m \<in> set ms \<Longrightarrow> ends m) \<Longrightarrow> ends (steps ms)"
  by (induction ms) (auto intro!: ends_intros)

lemma ends_buf [ends_intros]: "ends (buf_write off new)" "ends (buf_read off n)" "ends (store_num k i z)"
  by (simp_all add: ends_def store_num_def buf_write_def buf_read_def)

lemma ends_set_bit [ends_intros]: "ends (set_bit_u64 i v)"
  unfolding set_bit_u64_def Let_def by (intro ends_intros)

lemma ends_put_num: "r \<noteq> Inl Diverges \<Longrightarrow> ends (put_num k row b r)"
  unfolding put_num_def by (cases r; cases "projl r") (auto intro!: ends_intros)

lemma reads_status [simp]:
  "txt_to_I mn mx s \<noteq> Inl Diverges" "txt_to_I8 s \<noteq> Inl Diverges" "txt_to_F8 s \<noteq> Inl Diverges"
  "txt_to_UI m s \<noteq> Inl Diverges" "txt_to_UI8 s \<noteq> Inl Diverges"
  by (auto simp: txt_to_I_def txt_to_I8_def txt_to_F8_def txt_to_UI_def txt_to_UI8_def Let_def
        split: option.splits prod.splits if_splits)

lemma map_sum_Inl [simp]: "map_sum id g x = Inl e \<longleftrightarrow> x = Inl e"
  by (cases x) simp_all

lemma ends_asc_to_bin [ends_intros]: "ends (asc_to_bin buf nul qt width row)"
proof (cases "qt = B1")
  case True
  show ?thesis
  proof (cases "txt_to_I1 (Some (cstr buf))")
    case (Inl e)
    moreover have "e \<noteq> Diverges" using Inl by (auto simp: txt_to_I1_def)
    ultimately show ?thesis using True by (cases e) (auto simp: asc_to_bin_def Let_def intro!: ends_intros)
  next
    case (Inr v)
    with True show ?thesis by (auto simp: asc_to_bin_def Let_def intro!: ends_intros)
  qed
next
  case False
  then show ?thesis
    by (cases qt) (auto simp: asc_to_bin_def Let_def txt_to_I1_def txt_to_I2_def txt_to_I4_def txt_to_UI1_def
        txt_to_UI2_def txt_to_UI4_def intro!: ends_intros ends_put_num)
qed

lemma at_buf_ends: "ends m \<Longrightarrow> fst (at_buf bufs i m) \<noteq> Inl Diverges"
  unfolding at_buf_def ends_def by (auto split: option.splits prod.splits) (metis fst_conv)

lemma ends_in_buf [ends_intros]: "ends m \<Longrightarrow> ends (in_data i m)" "ends m \<Longrightarrow> ends (in_nn i m)"
  using at_buf_ends unfolding ends_def in_data_def in_nn_def by (auto split: prod.splits) (metis fst_conv)+

lemma ends_put_nn [ends_intros]: "ends (put_nn A row col b)"
  unfolding put_nn_def by (intro ends_intros)

lemma ends_put_cell [ends_intros]: "ends (put_cell A row col buf)"
  unfolding put_cell_def Let_def by (rule ends_steps) (auto intro!: ends_intros)

lemma get_cell_ends: "get_cell X i sep lst buf tr n \<noteq> Inl Diverges"
  unfolding get_cell_def Let_def
  by (auto split: option.splits prod.splits sum.splits cell_end.splits simp: trim_def Let_def)

lemma ends_csv_step [ends_intros]: "ends (csv_step A p)"
proof (cases "a_sep A")
  case None
  then show ?thesis by (simp add: csv_step_def ends_intros)
next
  case (Some sep)
  have "ends (lift_res (get_cell X i sep lst buf tr n))" for X i lst buf tr n
    using get_cell_ends by (simp add: ends_def lift_res_def)
  then show ?thesis unfolding csv_step_def Let_def Some
    by (auto intro!: ends_intros split: prod.splits)
qed

text \<open>The offset of the call is fixed while the loop runs.\<close>

abbreviation same_offset :: "nat \<Rightarrow> 'a csvprog \<Rightarrow> bool" where
  "same_offset k \<equiv> keeps (\<lambda>s. f_offset s = k)"

lemma same_offset_put_cell [keeps_intros]: "same_offset k (put_cell A row col buf)"
proof -
  have d: "same_offset k (in_data i m)" "same_offset k (in_nn i m)" for i m
    by (auto simp: keeps_def in_data_def in_nn_def split: prod.splits)
  have "same_offset k (put_nn A row col b)" for b
    unfolding put_nn_def by (intro keeps_intros d)
  then show ?thesis unfolding put_cell_def Let_def
    by (intro keeps_steps) (auto intro!: keeps_intros d)
qed

lemma same_offset_csv_step: "same_offset k (csv_step A p)"
proof (cases "a_sep A")
  case None
  then show ?thesis by (simp add: csv_step_def keeps_intros)
next
  case (Some sep)
  have "same_offset k (lift_res r)" for r :: "error + nat \<times> string \<times> bool" by (simp add: keeps_def lift_res_def)
  then show ?thesis unfolding csv_step_def Let_def Some
    by (auto intro!: keeps_intros split: prod.splits)
qed

definition chunk_rows :: "csv_args \<Rightarrow> nat" where
  "chunk_rows A = (if a_chunk A = 0 then 2 ^ 64 else a_chunk A)"

text \<open>Cells left before the chunk is full, those of an active header included.\<close>

definition cells_left :: "csv_args \<Rightarrow> nat \<Rightarrow> csv_pos \<Rightarrow> nat" where
  "cells_left A off p =
    (if p_hdr p \<and> off = 0 then length (a_cols A) - p_col p + chunk_rows A * length (a_cols A)
     else (chunk_rows A - p_row p) * length (a_cols A) - p_col p)"

definition pos_ok :: "csv_args \<Rightarrow> nat \<Rightarrow> csv_pos \<Rightarrow> bool" where
  "pos_ok A off p \<longleftrightarrow> p_col p < length (a_cols A) \<and> p_row p < chunk_rows A \<and> (p_hdr p \<and> off = 0 \<longrightarrow> p_row p = 0)"

lemma cells_rows:
  assumes "pos_ok A off p"
  shows "length (a_cols A) \<le> (chunk_rows A - p_row p) * length (a_cols A)"
    "p_col p < (chunk_rows A - p_row p) * length (a_cols A)" "p_col p < length (a_cols A)"
proof -
  have "0 < chunk_rows A - p_row p" using assms by (simp add: pos_ok_def)
  then have "1 * length (a_cols A) \<le> (chunk_rows A - p_row p) * length (a_cols A)"
    by (intro mult_le_mono1) simp
  then show le: "length (a_cols A) \<le> (chunk_rows A - p_row p) * length (a_cols A)" by simp
  show "p_col p < length (a_cols A)" using assms by (simp add: pos_ok_def)
  then show "p_col p < (chunk_rows A - p_row p) * length (a_cols A)" using le by (rule less_le_trans)
qed

lemma next_cell_left:
  assumes "pos_ok A off p" "\<not> chunk_done A (next_cell A p x)" "a_chunk A < 2 ^ 32" "\<not> (p_hdr p \<and> off = 0)"
  shows "pos_ok A off (next_cell A p x) \<and> cells_left A off (next_cell A p x) < cells_left A off p"
proof (cases "p_col p + 1 = length (a_cols A)")
  case False
  note cells_rows [OF assms(1)]
  moreover have "cells_left A off (next_cell A p x) = (chunk_rows A - p_row p) * length (a_cols A) - Suc (p_col p)"
    "cells_left A off p = (chunk_rows A - p_row p) * length (a_cols A) - p_col p"
    using False assms by (auto simp: next_cell_def cells_left_def)
  moreover have "pos_ok A off (next_cell A p x)"
    using False assms by (auto simp: pos_ok_def next_cell_def)
  ultimately show ?thesis by simp
next
  case True
  let ?n = "length (a_cols A)"
  have "chunk_rows A \<le> 2 ^ 64" using assms(3) by (simp add: chunk_rows_def)
  moreover have ne: "u64 (p_row p + 1) \<noteq> a_chunk A" using True assms(2) by (simp add: next_cell_def chunk_done_def)
  moreover have "p_row p + 1 \<noteq> chunk_rows A"
    using ne assms(3) by (auto simp: chunk_rows_def u64_def split: if_splits)
  ultimately have r: "p_row p + 1 < chunk_rows A" "u64 (p_row p + 1) = p_row p + 1"
    using assms(1) by (auto simp: pos_ok_def)
  obtain d where d: "chunk_rows A - p_row p = Suc (Suc d)"
    using r(1) by (metis Suc_diff_Suc Suc_eq_plus1 Suc_lessD)
  then have "chunk_rows A - (p_row p + 1) = Suc d" by simp
  with d r True assms show ?thesis by (auto simp: pos_ok_def next_cell_def cells_left_def)
qed

lemma csv_step_left:
  assumes step: "csv_step A p s = (Inr (p', False), s')" and ok: "pos_ok A (f_offset s) p" and ch: "a_chunk A < 2 ^ 32"
  shows "pos_ok A (f_offset s) p' \<and> cells_left A (f_offset s) p' < cells_left A (f_offset s) p"
proof -
  obtain sep where sep: "a_sep A = Some sep"
    using step by (cases "a_sep A") (auto simp: csv_step_def prog_simps)
  obtain xidx buf where nx: "(if p_hdr p \<and> f_offset s = 0
      then p' = p\<lparr>p_xidx := xidx, p_col := (if p_col p = length (a_cols A) - 1 then 0 else p_col p + 1),
                 p_hdr := p_col p \<noteq> length (a_cols A) - 1\<rparr>
      else p' = next_cell A p xidx \<and> \<not> chunk_done A p')"
    using step unfolding csv_step_def sep Let_def option.case seq_Inr_iff
    by (auto simp: lift_res_def prog_simps seq_Inr_iff split: if_splits)
  show ?thesis
  proof (cases "p_hdr p \<and> f_offset s = 0")
    case True
    have "length (a_cols A) \<noteq> 0" using ok by (auto simp: pos_ok_def)
    with True nx ok show ?thesis
      by (auto simp: pos_ok_def cells_left_def split: if_splits)
  next
    case False
    with nx next_cell_left [OF ok _ ch] show ?thesis by auto
  qed
qed

lemma cells_left_pos: "pos_ok A off p \<Longrightarrow> 0 < cells_left A off p"
  using cells_rows [of A off p] by (simp add: cells_left_def)

lemma csv_loop_ends:
  "pos_ok A (f_offset s) p \<Longrightarrow> a_chunk A < 2 ^ 32 \<Longrightarrow> cells_left A (f_offset s) p \<le> n \<Longrightarrow>
     fst (csv_loop n A p s) \<noteq> Inl Diverges"
proof (induction n arbitrary: p s)
  case (Suc n)
  obtain r s1 where step: "csv_step A p s = (r, s1)" by (cases "csv_step A p s")
  have off: "f_offset s1 = f_offset s"
    by (rule keeps_run [OF same_offset_csv_step step]) simp
  show ?case
  proof (cases r)
    case (Inl e)
    with ends_csv_step [of A p] step show ?thesis by (auto simp: ends_def seq_def) (metis fst_conv)
  next
    case (Inr pb)
    obtain p' b where pb: "pb = (p', b)" by (cases pb)
    show ?thesis
    proof (cases b)
      case True
      then show ?thesis using step Inr pb by (simp add: seq_def ret_def)
    next
      case False
      have "pos_ok A (f_offset s) p' \<and> cells_left A (f_offset s) p' < cells_left A (f_offset s) p"
        by (rule csv_step_left [OF _ Suc.prems(1,2)]) (use step Inr pb False in simp)
      then have "fst (csv_loop n A p' s1) \<noteq> Inl Diverges"
        using Suc.prems off by (intro Suc.IH) auto
      then show ?thesis using step Inr pb False by (simp add: seq_def)
    qed
  qed
next
  case 0
  with cells_left_pos show ?case by force
qed

text \<open>\<open>load_csv_seq\<close> with its early exits spelled out.\<close>

definition csv_args_of ::
    "string \<Rightarrow> csv_col list \<Rightarrow> string option \<Rightarrow> nat \<Rightarrow> nat \<Rightarrow> qtype \<Rightarrow> csv_args" where
  "csv_args_of X cols sep chunk mw nq =
    \<lparr>a_file = X, a_cols = cols, a_sep = (case get_fld_sep sep of Inl _ \<Rightarrow> None | Inr c \<Rightarrow> Some c),
     a_chunk = chunk, a_max_width = mw, a_nn_qtype = nq\<rparr>"

lemma csv_args_of_sel [simp]:
  "a_file (csv_args_of X cols sep chunk mw nq) = X" "a_cols (csv_args_of X cols sep chunk mw nq) = cols"
  "a_chunk (csv_args_of X cols sep chunk mw nq) = chunk" "a_max_width (csv_args_of X cols sep chunk mw nq) = mw"
  "a_nn_qtype (csv_args_of X cols sep chunk mw nq) = nq"
  by (simp_all add: csv_args_of_def)

lemma load_csv_seq_run:
  "load_csv_seq infile cols sep chunk mw nq hdr s =
    (if infile = None \<or> infile = Some [] \<or> cols = [] then (Inl (Status (- 1)), s)
     else case chk_data (Some (f_data s)) (Some (f_nn s)) cols mw of Inl e \<Rightarrow> (Inl e, s)
     | Inr _ \<Rightarrow>
       if \<not> f_can_malloc s then (Inl (Status (- 1)), s)
       else case f_files s (the infile) of None \<Rightarrow> (Inl (Status (- 1)), s)
       | Some X \<Rightarrow>
         if X = [] \<or> length X < f_offset s then (Inl (Status (- 1)), s)
         else if length X = f_offset s then (Inr (), s\<lparr>f_nR := 0\<rparr>)
         else seq (csv_loop (csv_rounds (csv_args_of X cols sep chunk mw nq)) (csv_args_of X cols sep chunk mw nq)
                     \<lparr>p_xidx = f_offset s, p_row = 0, p_col = 0, p_hdr = hdr\<rparr>)
                  (\<lambda>p. upd_st (\<lambda>s. s\<lparr>f_nR := p_row p, f_offset := p_xidx p\<rparr>)) (s\<lparr>f_nR := 0\<rparr>))"
proof -
  have lift: "seq (lift_res r) f s = (case r of Inl e \<Rightarrow> (Inl e, s) | Inr x \<Rightarrow> f x s)"
    for r :: "error + unit" and f :: "unit \<Rightarrow> unit csvprog" and s
    by (cases r) (simp_all add: seq_def lift_res_def)
  show ?thesis
    unfolding load_csv_seq_def
    by (auto simp: seq_assoc lift stop_def ret_def csv_args_of_def Let_def split: sum.split option.split)
qed

lemma load_csv_seq_ends:
  assumes "chunk < 2 ^ 32"
  shows "fst (load_csv_seq infile cols sep chunk mw nq hdr s) \<noteq> Inl Diverges"
proof -
  have chk: "chk_data (Some d) (Some n) cols mw \<noteq> Inl Diverges" for d :: "byte list option list" and n :: "byte list option list"
  proof -
    have "chk_cols cols d n mw \<noteq> Inl Diverges"
      by (induction cols d n mw rule: chk_cols.induct) auto
    then show ?thesis by (simp add: chk_data_def)
  qed
  have loop: "fst (csv_loop (csv_rounds A) A \<lparr>p_xidx = x, p_row = 0, p_col = 0, p_hdr = hdr\<rparr> s') \<noteq> Inl Diverges"
    if "a_cols A \<noteq> []" "a_chunk A < 2 ^ 32" for A x s'
    by (rule csv_loop_ends)
       (use that in \<open>auto simp: pos_ok_def cells_left_def csv_rounds_def chunk_rows_def\<close>)
  have fin: "fst (seq m (\<lambda>p. upd_st (g p)) s') \<noteq> Inl Diverges" if "fst (m s') \<noteq> Inl Diverges"
    for m :: "csv_pos csvprog" and g s'
    using that by (cases "m s'") (auto simp: seq_def upd_st_def split: sum.splits)
  show ?thesis
    unfolding load_csv_seq_run
    using assms chk [of "f_data s" "f_nn s"] by (auto simp: loop split: sum.splits option.splits intro!: fin)
qed

end
