(* ===== verification/Csv_Table.thy ===== *)
theory Csv_Table
  imports Csv_Run
begin

text \<open>
  Whole tables: the loader run on a table written cell by cell stores each cell of each row, and
  the buffers then hold the encodings of the columns.
\<close>

subsection \<open>Rows and tables as text\<close>

text \<open>A row: the texts of its cells, separated, and the end of the line.\<close>

fun row_line :: "char \<Rightarrow> string list \<Rightarrow> string" where
  "row_line sep [] = []"
| "row_line sep [t] = t @ [eoln]"
| "row_line sep (t # t' # ts) = t @ sep # row_line sep (t' # ts)"

lemma row_line_Cons: "ts \<noteq> [] \<Longrightarrow> row_line sep (t # ts) = t @ sep # row_line sep ts"
  by (cases ts) simp_all

lemma row_line_not_Nil [simp]: "ts \<noteq> [] \<Longrightarrow> row_line sep ts \<noteq> []"
  by (cases "(sep, ts)" rule: row_line.cases) auto

lemma seq_run_cong: "m s = m' s \<Longrightarrow> seq m f s = seq m' f s"
  by (simp add: seq_def)

lemma seq_cont_cong: "(\<And>x s1. m s = (Inr x, s1) \<Longrightarrow> f x s1 = g x s1) \<Longrightarrow> seq m f s = seq m g s"
  by (cases "m s") (auto simp: seq_def split: sum.splits)

text \<open>\<open>cs\<close> are the values of the cells, \<open>ts\<close> their texts, from column \<open>j\<close> on.\<close>

definition row_texts :: "csv_args \<Rightarrow> nat \<Rightarrow> string list \<Rightarrow> string list \<Rightarrow> bool" where
  "row_texts A j cs ts \<longleftrightarrow> j + length cs = length (a_cols A) \<and> list_all2 (cell_text (the (a_sep A))) cs ts \<and>
     (\<forall>i<length cs. fits (col_trim (a_cols A ! (j + i))) (a_max_width A - 1) (cs ! i))"

definition cell_buf :: "csv_args \<Rightarrow> nat \<Rightarrow> string \<Rightarrow> string" where
  "cell_buf A j c = pad (a_max_width A - 1) (cell_read (col_trim (a_cols A ! j)) c) @ [NUL]"

lemma row_texts_Cons:
  "row_texts A j (c # cs) (t # ts) \<longleftrightarrow>
     cell_text (the (a_sep A)) c t \<and> fits (col_trim (a_cols A ! j)) (a_max_width A - 1) c \<and> row_texts A (Suc j) cs ts"
  unfolding row_texts_def by (auto simp: nth_Cons less_Suc_eq_0_disj split: nat.splits)

text \<open>Storing a row, and storing rows, cell after cell.\<close>

fun store_row :: "csv_args \<Rightarrow> nat \<Rightarrow> nat \<Rightarrow> string list \<Rightarrow> unit csvprog" where
  "store_row A r j [] = ret ()"
| "store_row A r j (c # cs) =
    seq (if col_load (a_cols A ! j) then put_cell A r j (cell_buf A j c) else ret ())
        (\<lambda>_. store_row A r (Suc j) cs)"

fun store_rows :: "csv_args \<Rightarrow> nat \<Rightarrow> string list list \<Rightarrow> unit csvprog" where
  "store_rows A r [] = ret ()"
| "store_rows A r (cs # css) = seq (store_row A r 0 cs) (\<lambda>_. store_rows A (Suc r) css)"

definition sep_ok :: "csv_args \<Rightarrow> bool" where
  "sep_ok A \<longleftrightarrow> (\<exists>sep. a_sep A = Some sep \<and> sep \<noteq> dquote \<and> sep \<noteq> bslash)"

lemma sep_ok_get_fld_sep:
  "get_fld_sep s = Inr c \<Longrightarrow> sep_ok (csv_args_of X cols s chunk mw nq)"
  by (auto simp: sep_ok_def csv_args_of_def get_fld_sep_def special_chars split: option.splits if_splits)

subsection \<open>One cell\<close>

lemma get_cell_in_row:
  assumes "row_texts A j (c # cs) (t # ts)" "sep_ok A" "a_file A = pre @ row_line (the (a_sep A)) (t # ts) @ rest"
  shows "get_cell (Some (a_file A)) (length pre) (the (a_sep A)) (j = length (a_cols A) - 1)
      (replicate (a_max_width A) NUL) (col_trim (a_cols A ! j)) (a_max_width A - 1) =
    Inr (Suc (length pre + length t), cell_buf A j c, False)"
proof -
  let ?sep = "the (a_sep A)" and ?lst = "j = length (a_cols A) - 1" and ?n = "a_max_width A - 1"
  have sep: "?sep \<noteq> dquote" "?sep \<noteq> bslash" using assms(2) by (auto simp: sep_ok_def)
  have t: "cell_text ?sep c t" and f: "fits (col_trim (a_cols A ! j)) ?n c"
    using assms(1) by (auto simp: row_texts_Cons)
  have n: "0 < ?n" using f by (auto simp: fits_def split: if_splits)
  have len: "length ts = length cs" "?lst \<longleftrightarrow> cs = []"
    using assms(1) by (cases cs; auto simp: row_texts_def dest: list_all2_lengthD)+
  obtain rest' where X: "a_file A = pre @ t @ (if ?lst then eoln else ?sep) # rest'"
    using assms(3) len by (cases ts) auto
  have w: "a_max_width A - ?n = Suc 0" using n by simp
  have d: "replicate (a_max_width A - ?n) NUL = [NUL]"
    unfolding w by simp
  have "get_cell (Some (a_file A)) (length pre) ?sep ?lst (replicate (a_max_width A) NUL)
      (col_trim (a_cols A ! j)) ?n = Inr (Suc (length pre + length t),
      pad ?n (cell_read (col_trim (a_cols A ! j)) c) @ drop ?n (replicate (a_max_width A) NUL), False)"
    unfolding X by (rule get_cell_text [OF t f sep]) simp_all
  then show ?thesis by (simp only: cell_buf_def drop_replicate d)
qed

lemma row_line_length_more:
  assumes "row_texts A j (c # cs) (t # ts)" "a_file A = pre @ row_line sep (t # ts) @ rest"
  shows "if cs = [] then a_file A = (pre @ t @ [eoln]) @ rest
         else a_file A = (pre @ t @ [sep]) @ row_line sep ts @ rest \<and> Suc (length pre + length t) < length (a_file A)"
proof -
  have "length ts = length cs" using assms(1) by (auto simp: row_texts_def dest: list_all2_lengthD)
  moreover have "ts \<noteq> [] \<Longrightarrow> 0 < length (row_line sep ts)" by simp
  ultimately show ?thesis using assms(2) by (cases ts) (auto simp: row_line_Cons)
qed

subsection \<open>One row\<close>

abbreviation at_row :: "nat \<Rightarrow> nat \<Rightarrow> nat \<Rightarrow> bool \<Rightarrow> csv_pos" where
  "at_row x r j h \<equiv> \<lparr>p_xidx = x, p_row = r, p_col = j, p_hdr = h\<rparr>"

lemma csv_step_cell:
  assumes row: "row_texts A j (c # cs) (t # ts)" and sep: "sep_ok A"
    and X: "a_file A = pre @ row_line (the (a_sep A)) (t # ts) @ rest"
    and hdr: "\<not> (h \<and> f_offset s = 0)" and r: "r < 2 ^ 64 - 1"
  shows "csv_step A (at_row (length pre) r j h) s =
    seq (if col_load (a_cols A ! j) then put_cell A r j (cell_buf A j c) else ret ())
      (\<lambda>_. ret (if cs = [] then (at_row (Suc (length pre + length t)) (Suc r) 0 h, Suc r = a_chunk A \<or> rest = [])
                else (at_row (Suc (length pre + length t)) r (Suc j) h, False))) s"
proof -
  have j: "j + Suc (length cs) = length (a_cols A)" using row by (simp add: row_texts_def)
  obtain sp where sp: "a_sep A = Some sp" using sep by (auto simp: sep_ok_def)
  have u: "u64 (Suc r) = Suc r" using r by (simp add: u64_def)
  note more = row_line_length_more [OF row X]
  have nc: "next_cell A (at_row (length pre) r j h) (Suc (length pre + length t)) =
      (if cs = [] then at_row (Suc (length pre + length t)) (Suc r) 0 h
       else at_row (Suc (length pre + length t)) r (Suc j) h)"
    using j u by (cases cs) (auto simp: next_cell_def)
  have stop: "length (a_file A) \<le> Suc (length pre + length t) \<longleftrightarrow> cs = [] \<and> rest = []"
    "Suc (length pre + length t) = length (a_file A) \<longleftrightarrow> cs = [] \<and> rest = []"
    using more by (cases "cs = []"; simp)+
  have lift: "seq (lift_res (Inr x)) f s = f x s" for x and f :: "_ \<Rightarrow> _ csvprog" and s
    by (simp add: seq_def lift_res_def)
  have "csv_step A (at_row (length pre) r j h) s =
      (if \<not> col_load (a_cols A ! j)
       then ret (next_cell A (at_row (length pre) r j h) (Suc (length pre + length t)),
         chunk_done A (next_cell A (at_row (length pre) r j h) (Suc (length pre + length t))) \<or>
         Suc (length pre + length t) = length (a_file A))
       else seq (put_cell A r j (cell_buf A j c)) (\<lambda>_. ret (next_cell A (at_row (length pre) r j h) (Suc (length pre + length t)),
         chunk_done A (next_cell A (at_row (length pre) r j h) (Suc (length pre + length t))) \<or>
         length (a_file A) \<le> Suc (length pre + length t)))) s"
  proof -
    have h0: "(h \<and> f_offset s = 0) = False" using hdr by simp
    have g: "get_cell (Some (a_file A)) (length pre) sp (j = length (a_cols A) - 1) (replicate (a_max_width A) NUL)
        (col_trim (a_cols A ! j)) (a_max_width A - 1) = Inr (Suc (length pre + length t), cell_buf A j c, False)"
      using get_cell_in_row [OF row sep X] sp by simp
    show ?thesis
      by (simp only: csv_step_def sp option.case Let_def csv_pos.simps g lift prod.case seq_bye_if if_False seq_get_st h0
          cong: if_cong)
  qed
  also have "\<dots> = seq (if col_load (a_cols A ! j) then put_cell A r j (cell_buf A j c) else ret ())
      (\<lambda>_. ret (if cs = [] then (at_row (Suc (length pre + length t)) (Suc r) 0 h, Suc r = a_chunk A \<or> rest = [])
                else (at_row (Suc (length pre + length t)) r (Suc j) h, False))) s"
    by (simp add: nc chunk_done_def stop)
  finally show ?thesis .
qed

lemma csv_loop_row:
  assumes "row_texts A j cs ts" "cs \<noteq> []" "sep_ok A" "a_file A = pre @ row_line (the (a_sep A)) ts @ rest"
    "\<not> (h \<and> f_offset s = 0)" "r < 2 ^ 64 - 1"
  shows "csv_loop (length cs + m) A (at_row (length pre) r j h) s =
    seq (store_row A r j cs) (\<lambda>_.
      let p = at_row (length pre + length (row_line (the (a_sep A)) ts)) (Suc r) 0 h in
      if Suc r = a_chunk A \<or> rest = [] then ret p else csv_loop m A p) s"
  using assms(1,2,4,5)
proof (induction cs arbitrary: j ts pre s)
  case (Cons c cs)
  let ?sep = "the (a_sep A)"
  obtain t ts' where ts: "ts = t # ts'" using Cons.prems(1) by (cases ts) (auto simp: row_texts_def)
  note row = Cons.prems(1) [unfolded ts] and X = Cons.prems(3) [unfolded ts]
  note step = csv_step_cell [OF row assms(3) X Cons.prems(4) assms(6)]
  have len: "length ts' = length cs" using row by (auto simp: row_texts_def dest: list_all2_lengthD)
  let ?put = "if col_load (a_cols A ! j) then put_cell A r j (cell_buf A j c) else ret ()"
  have off: "same_offset (f_offset s) ?put" by (intro keeps_intros)
  let ?fin = "\<lambda>x. let p = at_row x (Suc r) 0 h in
    if Suc r = a_chunk A \<or> rest = [] then ret p else csv_loop m A p"
  have loop: "csv_loop (length (c # cs) + m) A (at_row (length pre) r j h) s =
      seq ?put (\<lambda>_. if cs = [] then ?fin (Suc (length pre + length t))
        else csv_loop (length cs + m) A (at_row (Suc (length pre + length t)) r (Suc j) h)) s"
  proof -
    let ?g = "\<lambda>(p', brk). if brk then ret p' else csv_loop (length cs + m) A p'"
    have "seq (csv_step A (at_row (length pre) r j h)) ?g s =
        seq (seq ?put (\<lambda>_. ret (if cs = [] then (at_row (Suc (length pre + length t)) (Suc r) 0 h, Suc r = a_chunk A \<or> rest = [])
                else (at_row (Suc (length pre + length t)) r (Suc j) h, False)))) ?g s"
      by (rule seq_run_cong, rule step)
    note run = this
    show ?thesis
    proof (cases "cs = []")
      case True
      then show ?thesis using run by (simp add: seq_assoc Let_def cong: if_cong del: seq_if split del: if_split)
    next
      case False
      then show ?thesis using run by (simp add: seq_assoc Let_def cong: if_cong del: seq_if split del: if_split)
    qed
  qed
  show ?case
  proof (cases "cs = []")
    case True
    with len have "ts' = []" by simp
    with True show ?thesis unfolding loop ts by (simp add: seq_assoc)
  next
    case False
    have more: "a_file A = (pre @ t @ [?sep]) @ row_line ?sep ts' @ rest"
      using row_line_length_more [OF row X] False by simp
    have l: "length pre + length (row_line ?sep (t # ts')) = Suc (length pre + length t) + length (row_line ?sep ts')"
      using False len by (subst row_line_Cons) auto
    have ih: "csv_loop (length cs + m) A (at_row (Suc (length pre + length t)) r (Suc j) h) s' =
        seq (store_row A r (Suc j) cs) (\<lambda>_. ?fin (length pre + length (row_line ?sep ts))) s'"
      if "f_offset s' = f_offset s" for s'
      using Cons.IH [of "Suc j" ts' "pre @ t @ [?sep]" s'] row more False Cons.prems(4) that
      by (simp add: row_texts_Cons ts l)
    have "seq ?put (\<lambda>_. csv_loop (length cs + m) A (at_row (Suc (length pre + length t)) r (Suc j) h)) s =
        seq ?put (\<lambda>_. seq (store_row A r (Suc j) cs) (\<lambda>_. ?fin (length pre + length (row_line ?sep ts)))) s"
      by (rule seq_cont_cong, rule ih, rule keeps_run [OF off]) simp_all
    with False show ?thesis unfolding loop by (simp only: store_row.simps seq_assoc if_False)
  qed
qed simp

subsection \<open>The header and the rows\<close>

lemma csv_loop_hdr:
  assumes "row_texts A j cs ts" "cs \<noteq> []" "sep_ok A" "a_file A = pre @ row_line (the (a_sep A)) ts @ rest"
    "f_offset s = 0"
  shows "csv_loop (length cs + m) A (at_row (length pre) 0 j True) s =
    (let p = at_row (length pre + length (row_line (the (a_sep A)) ts)) 0 0 False in
     if rest = [] then ret p else csv_loop m A p) s"
  using assms(1,2,4)
proof (induction cs arbitrary: j ts pre)
  case (Cons c cs)
  let ?sep = "the (a_sep A)"
  obtain t ts' where ts: "ts = t # ts'" using Cons.prems(1) by (cases ts) (auto simp: row_texts_def)
  note row = Cons.prems(1) [unfolded ts] and X = Cons.prems(3) [unfolded ts]
  have len: "length ts' = length cs" using row by (auto simp: row_texts_def dest: list_all2_lengthD)
  have j: "j + Suc (length cs) = length (a_cols A)" using row by (simp add: row_texts_def)
  then have last: "j = length (a_cols A) - 1 \<longleftrightarrow> cs = []" by (cases cs) auto
  obtain sp where sp: "a_sep A = Some sp" using assms(3) by (auto simp: sep_ok_def)
  have lift: "seq (lift_res (Inr x)) f s = f x s" for x and f :: "_ \<Rightarrow> _ csvprog" and s
    by (simp add: seq_def lift_res_def)
  have g: "get_cell (Some (a_file A)) (length pre) sp (j = length (a_cols A) - 1) (replicate (a_max_width A) NUL)
      (col_trim (a_cols A ! j)) (a_max_width A - 1) = Inr (Suc (length pre + length t), cell_buf A j c, False)"
    using get_cell_in_row [OF row assms(3) X] sp by simp
  have step: "csv_step A (at_row (length pre) 0 j True) s =
      ret (at_row (Suc (length pre + length t)) 0 (if cs = [] then 0 else j + 1) (cs \<noteq> []),
           length (a_file A) \<le> Suc (length pre + length t)) s"
    by (simp only: csv_step_def sp option.case Let_def csv_pos.simps g [unfolded last] lift prod.case seq_bye_if
        if_False seq_get_st assms(5) if_True last simp_thms cong: if_cong)
  have loop: "csv_loop (length (c # cs) + m) A (at_row (length pre) 0 j True) s =
      (if length (a_file A) \<le> Suc (length pre + length t)
       then ret (at_row (Suc (length pre + length t)) 0 (if cs = [] then 0 else j + 1) (cs \<noteq> []))
       else csv_loop (length cs + m) A (at_row (Suc (length pre + length t)) 0 (if cs = [] then 0 else j + 1) (cs \<noteq> []))) s"
    by (simp add: seq_def step ret_def)
  note more = row_line_length_more [OF row X]
  show ?case
  proof (cases "cs = []")
    case True
    with len have "ts' = []" by simp
    moreover have "length (a_file A) \<le> Suc (length pre + length t) \<longleftrightarrow> rest = []" using more True by simp
    ultimately show ?thesis unfolding loop ts using True by simp
  next
    case False
    then have more': "a_file A = (pre @ t @ [?sep]) @ row_line ?sep ts' @ rest"
      "\<not> length (a_file A) \<le> Suc (length pre + length t)" using more by auto
    have l: "length pre + length (row_line ?sep (t # ts')) = Suc (length pre + length t) + length (row_line ?sep ts')"
      using False len by (subst row_line_Cons) auto
    have "csv_loop (length cs + m) A (at_row (Suc (length pre + length t)) 0 (Suc j) True) s =
        (let p = at_row (length pre + length (row_line ?sep ts)) 0 0 False in
         if rest = [] then ret p else csv_loop m A p) s"
      using Cons.IH [of "Suc j" ts' "pre @ t @ [?sep]"] row more'(1) False by (simp add: row_texts_Cons ts l)
    with False more'(2) show ?thesis unfolding loop by simp
  qed
qed simp

text \<open>A table: every row has a cell for each column.\<close>

definition table_texts :: "csv_args \<Rightarrow> string list list \<Rightarrow> string list list \<Rightarrow> bool" where
  "table_texts A css tss = list_all2 (row_texts A 0) css tss"

definition table_text :: "csv_args \<Rightarrow> string list list \<Rightarrow> string" where
  "table_text A tss = concat (map (row_line (the (a_sep A))) tss)"

lemma table_text_simps [simp]:
  "table_text A [] = []" "table_text A (ts # tss) = row_line (the (a_sep A)) ts @ table_text A tss"
  by (simp_all add: table_text_def)

lemma table_text_Nil:
  assumes "table_texts A css tss" "a_cols A \<noteq> []"
  shows "table_text A tss = [] \<longleftrightarrow> css = []"
proof (cases tss)
  case (Cons ts tss')
  with assms obtain cs where row: "row_texts A 0 cs ts" and "css \<noteq> []"
    by (cases css) (auto simp: table_texts_def)
  have "ts \<noteq> []" using row assms(2) by (auto simp: row_texts_def)
  with \<open>css \<noteq> []\<close> Cons show ?thesis by simp
qed (use assms in \<open>simp add: table_texts_def\<close>)

lemma same_offset_store_row: "same_offset k (store_row A r j cs)"
  by (induction cs arbitrary: j) (auto intro!: keeps_intros)

lemma csv_loop_rows:
  assumes "table_texts A css tss" "css \<noteq> []" "a_cols A \<noteq> []" "sep_ok A" "a_file A = pre @ table_text A tss"
    "\<not> (h \<and> f_offset s = 0)" "r < a_chunk A" "a_chunk A < 2 ^ 32"
    "length (a_cols A) * min (a_chunk A - r) (length css) \<le> n"
  shows "csv_loop n A (at_row (length pre) r 0 h) s =
    (let k = min (a_chunk A - r) (length css) in
     seq (store_rows A r (take k css)) (\<lambda>_.
       ret (at_row (length pre + length (table_text A (take k tss))) (r + k) 0 h)) s)"
  using assms(1,2,5-7,9)
proof (induction css arbitrary: tss pre s r n)
  case (Cons cs css)
  obtain ts tss' where tss: "tss = ts # tss'" and row: "row_texts A 0 cs ts" and tab: "table_texts A css tss'"
    using Cons.prems(1) by (cases tss) (auto simp: table_texts_def)
  let ?sep = "the (a_sep A)" and ?k = "min (a_chunk A - r) (length (cs # css))" and ?k' = "min (a_chunk A - Suc r) (length css)"
  have "a_chunk A - r = Suc (a_chunk A - Suc r)" using Cons.prems(5) by simp
  then have k: "?k = Suc ?k'" by (simp only: list.size add_Suc_right add_0_right min_Suc_Suc)
  have lc: "length cs = length (a_cols A)" "cs \<noteq> []" using row assms(3) by (auto simp: row_texts_def)
  have "length (a_cols A) * Suc ?k' \<le> n" using Cons.prems(6) unfolding k .
  then obtain d where "n = length (a_cols A) * Suc ?k' + d" by (auto simp: le_iff_add)
  then obtain m where n: "n = length cs + m" and m: "length (a_cols A) * ?k' \<le> m"
    using lc(1) by (metis add.assoc le_add1 mult_Suc_right)
  have X: "a_file A = pre @ row_line ?sep ts @ table_text A tss'" using Cons.prems(3) by (simp add: tss)
  have r: "r < 2 ^ 64 - 1" using Cons.prems(5) assms(8) by simp
  let ?x = "length pre + length (row_line ?sep ts)"
  have nil: "table_text A tss' = [] \<longleftrightarrow> css = []" by (rule table_text_Nil [OF tab assms(3)])
  have loop: "csv_loop n A (at_row (length pre) r 0 h) s =
      seq (store_row A r 0 cs) (\<lambda>_. let p = at_row ?x (Suc r) 0 h in
        if Suc r = a_chunk A \<or> css = [] then ret p else csv_loop m A p) s"
    unfolding n by (subst csv_loop_row [OF row lc(2) assms(4) X Cons.prems(4) r]) (simp add: nil)
  show ?case
  proof (cases "Suc r = a_chunk A \<or> css = []")
    case True
    then have "?k' = 0" by auto
    with True show ?thesis unfolding loop Let_def k by (simp add: tss seq_assoc)
  next
    case False
    have ih: "csv_loop m A (at_row ?x (Suc r) 0 h) s' =
        seq (store_rows A (Suc r) (take ?k' css)) (\<lambda>_.
          ret (at_row (length pre + length (table_text A (take ?k tss))) (r + ?k) 0 h)) s'"
      if "f_offset s' = f_offset s" for s'
    proof -
      show ?thesis unfolding k
        using Cons.IH [of tss' "pre @ row_line ?sep ts" s' "Suc r" m] tab False X Cons.prems(4,5) m that
        by (simp add: Let_def tss add.assoc)
    qed
    have "seq (store_row A r 0 cs) (\<lambda>_. csv_loop m A (at_row ?x (Suc r) 0 h)) s =
        seq (store_row A r 0 cs) (\<lambda>_. seq (store_rows A (Suc r) (take ?k' css)) (\<lambda>_.
          ret (at_row (length pre + length (table_text A (take ?k tss))) (r + ?k) 0 h))) s"
      by (rule seq_cont_cong, rule ih, rule keeps_run [OF same_offset_store_row]) simp_all
    with False show ?thesis unfolding loop Let_def by (simp only: k take_Suc_Cons store_rows.simps seq_assoc if_False)
  qed
qed simp

end
