(* ===== verification/Csv_Values.thy ===== *)
theory Csv_Values
  imports Csv_Table
begin

text \<open>
  Tables of typed values: how a value is written as a cell, which bytes stand for it in the buffer
  of its column, and that storing the cells of a table leaves exactly these bytes.
\<close>

subsection \<open>Values\<close>

text \<open>Floating-point and time values are not among them.\<close>

datatype cval = CNull | CInt int | CBool bool | CStr string

fun cv_text :: "cval \<Rightarrow> string" where
  "cv_text CNull = []"
| "cv_text (CInt z) = dec_int z"
| "cv_text (CBool b) = (if b then ''true'' else ''false'')"
| "cv_text (CStr s) = s"

definition elem_w :: "csv_col \<Rightarrow> nat" where
  "elem_w c = (if col_qtype c = SC then col_width c else get_width_c_qtype (col_qtype c))"

fun cv_bytes :: "csv_col \<Rightarrow> cval \<Rightarrow> byte list" where
  "cv_bytes c CNull = replicate (elem_w c) 0"
| "cv_bytes c (CInt z) = le_bytes (elem_w c) z"
| "cv_bytes c (CBool b) = le_bytes (elem_w c) (of_bool b)"
| "cv_bytes c (CStr s) = map of_char (pad (elem_w c) s)"

text \<open>The integer types and their ranges.\<close>

definition int_range :: "qtype \<Rightarrow> (int \<times> int) option" where
  "int_range q =
    (case q of I1 \<Rightarrow> Some (- 128, 127) | I2 \<Rightarrow> Some (- 32768, 32767)
     | I4 \<Rightarrow> Some (- 2147483648, 2147483647) | I8 \<Rightarrow> Some (LLONG_MIN, LLONG_MAX)
     | UI1 \<Rightarrow> Some (0, 255) | UI2 \<Rightarrow> Some (0, 65535) | UI4 \<Rightarrow> Some (0, 4294967295)
     | UI8 \<Rightarrow> Some (0, int ULLONG_MAX) | _ \<Rightarrow> None)"

text \<open>The values a column takes.\<close>

fun cv_typed :: "csv_col \<Rightarrow> cval \<Rightarrow> bool" where
  "cv_typed c CNull = (col_nulls c \<and> col_qtype c \<in> {BL, I1, I2, I4, I8, UI1, UI2, UI4, UI8, F4, F8, SC})"
| "cv_typed c (CInt z) = (case int_range (col_qtype c) of None \<Rightarrow> False | Some (lo, hi) \<Rightarrow> lo \<le> z \<and> z \<le> hi)"
| "cv_typed c (CBool b) = (col_qtype c = BL)"
| "cv_typed c (CStr s) =
    (col_qtype c = SC \<and> s \<noteq> [] \<and> length s \<le> col_width c \<and> (col_trim c \<longrightarrow> strip s = s))"

text \<open>The cell fits the cell buffer of \<open>mw\<close> bytes; a column that is not loaded takes any cell.\<close>

definition cv_ok :: "csv_col \<Rightarrow> nat \<Rightarrow> cval \<Rightarrow> bool" where
  "cv_ok c mw v \<longleftrightarrow> fits (col_trim c) (mw - 1) (cv_text v) \<and> (col_load c \<longrightarrow> cv_typed c v)"

subsection \<open>One value\<close>

lemma length_cv_bytes: "cv_typed c v \<Longrightarrow> length (cv_bytes c v) = elem_w c"
  by (cases v) (auto simp: elem_w_def)

lemma strip_dec_int [simp]: "strip (dec_int z) = dec_int z"
proof (rule strip_no_space)
  have ns: "c \<in> set (dec_int z) \<Longrightarrow> \<not> isspace c" for c
    using dec_int_chars [of c z] digit_not [of c] by (auto simp: isspace_def)
  have l: "0 < length (dec_int z)" by simp
  then have l': "length (dec_int z) - 1 < length (dec_int z)" by linarith
  show "\<not> isspace (dec_int z ! 0)" by (rule ns, rule nth_mem) (rule l)
  show "\<not> isspace (dec_int z ! (length (dec_int z) - 1))" by (rule ns, rule nth_mem) (rule l')
qed simp

lemma cell_read_value:
  "cv_typed c v \<Longrightarrow> cell_read (col_trim c) (cv_text v) = cv_text v"
  by (cases v) (simp_all add: cell_read_def, simp_all add: strip_def isspace_def)

lemma cv_text_Nil: "cv_typed c v \<Longrightarrow> cv_text v = [] \<longleftrightarrow> v = CNull"
  by (cases v) auto

lemma cell_buf_value:
  assumes "cv_ok (a_cols A ! j) (a_max_width A) v" "col_load (a_cols A ! j)"
  shows "cell_buf A j (cv_text v) = pad (a_max_width A) (cv_text v)"
    "NUL \<notin> set (cv_text v)" "length (cv_text v) < a_max_width A"
proof -
  have f: "fits (col_trim (a_cols A ! j)) (a_max_width A - 1) (cv_text v)" and t: "cv_typed (a_cols A ! j) v"
    using assms by (auto simp: cv_ok_def)
  show nul: "NUL \<notin> set (cv_text v)" using f by (simp add: fits_def)
  have len: "length (cv_text v) \<le> a_max_width A - 1" "0 < a_max_width A - 1"
    using f by (auto simp: fits_def split: if_splits)
  then show less: "length (cv_text v) < a_max_width A" by simp
  then obtain k where "a_max_width A = Suc (length (cv_text v) + k)" by (auto dest: less_imp_Suc_add)
  then show "cell_buf A j (cv_text v) = pad (a_max_width A) (cv_text v)"
    unfolding cell_buf_def cell_read_value [OF t] by (simp add: pad_def replicate_append_same)
qed

lemma le_bytes_0: "le_bytes k 0 = replicate k 0"
  by (simp add: le_bytes_def map_replicate_const)

lemma buf_write_ok: "off + length new \<le> length b \<Longrightarrow> buf_write off new b = (Inr (), splice off new b)"
  by (simp add: buf_write_def)

lemma splice_splice_same: "length x = length y \<Longrightarrow> off + length x \<le> length b \<Longrightarrow> splice off y (splice off x b) = splice off y b"
  by (simp add: splice_def)

lemma of_char_NUL [simp]: "of_char NUL = (0 :: byte)"
  by (simp add: NUL_def)

lemma take_pad: "length s \<le> w \<Longrightarrow> w \<le> n \<Longrightarrow> take w (pad n s) = pad w s"
  by (simp add: pad_def min_def)

lemma put_num_ok:
  "\<not> nul \<Longrightarrow> r = Inr z \<Longrightarrow> row * k + k \<le> length b \<Longrightarrow> put_num k row nul r b = (Inr (), splice (row * k) (le_bytes k z) b)"
  "nul \<Longrightarrow> row * k + k \<le> length b \<Longrightarrow> put_num k row nul r b = (Inr (), splice (row * k) (le_bytes k 0) b)"
  by (simp_all add: put_num_def store_num_def buf_write_ok)

lemma put_num_byte: "Suc row \<le> length b \<Longrightarrow> put_num (Suc 0) row False (Inr z) b = (Inr (), splice row (le_bytes (Suc 0) z) b)"
  using put_num_ok(1) [of False "Inr z" z row 1 b] by simp

lemma asc_to_bin_value:
  assumes t: "cv_typed c v" and nul: "NUL \<notin> set (cv_text v)" and mw: "length (cv_text v) < mw" "col_width c \<le> mw"
    and room: "row * elem_w c + elem_w c \<le> length b" and small: "col_qtype c = SC \<longrightarrow> row * elem_w c < 2 ^ 32"
  shows "asc_to_bin (pad mw (cv_text v)) (v = CNull) (col_qtype c) (col_width c) row b =
    (Inr (), splice (row * elem_w c) (cv_bytes c v) b)"
proof -
  have s: "cstr (pad mw (cv_text v)) = cv_text v" using nul by simp
  have sc: "asc_to_bin (pad mw (cv_text v)) (v = CNull) SC (col_width c) row b =
      (Inr (), splice (row * elem_w c) (map of_char (pad (elem_w c) (cv_text v))) b)"
    if "col_qtype c = SC" "length (cv_text v) \<le> col_width c"
    using that room small mw
    by (simp add: asc_to_bin_def Let_def elem_w_def seq_Inr [OF buf_write_ok] take_pad buf_write_ok
        splice_splice_same seq_def buf_write_def undef_if_def ret_def) (simp add: splice_def)
  show ?thesis
  proof (cases v)
    case CNull
    show ?thesis
    proof (cases "col_qtype c = SC")
      case True
      then show ?thesis using sc CNull by (simp add: pad_def)
    next
      case False
      with t CNull room show ?thesis
        by (auto simp: asc_to_bin_def Let_def put_num_ok le_bytes_0 elem_w_def get_width_c_qtype_def store_num_def buf_write_ok)
    qed
  next
    case (CInt z)
    obtain lo hi where r: "int_range (col_qtype c) = Some (lo, hi)" "lo \<le> z" "z \<le> hi"
      using t CInt by (auto split: option.splits)
    with CInt room s show ?thesis
      by (cases "col_qtype c")
         (auto simp: int_range_def asc_to_bin_def Let_def elem_w_def get_width_c_qtype_def LLONG_MIN_def LLONG_MAX_def ULLONG_MAX_def
            txt_to_I1_def txt_to_I2_def txt_to_I4_def txt_to_I_dec txt_to_I8_dec txt_to_UI1_def txt_to_UI2_def
            txt_to_UI4_def txt_to_UI_dec txt_to_UI8_dec intro!: put_num_ok(1) put_num_byte)
  next
    case (CBool x)
    have "strcasecmp_eq ''true'' ''true''" "\<not> strcasecmp_eq ''false'' ''true''" "strcasecmp_eq ''false'' ''false''"
      by (simp_all add: strcasecmp_eq_def tolower_def Let_def)
    with CBool t room s show ?thesis
      by (auto simp: asc_to_bin_def Let_def elem_w_def get_width_c_qtype_def store_num_def buf_write_ok)
  next
    case (CStr x)
    with t sc show ?thesis by auto
  qed
qed

subsection \<open>Rows and columns\<close>

text \<open>The buffers are large enough for a chunk, and there are exactly those the columns ask for.\<close>

definition data_room :: "csv_args \<Rightarrow> byte list option list \<Rightarrow> bool" where
  "data_room A D \<longleftrightarrow> length D = length (a_cols A) \<and> (\<forall>i<length (a_cols A). let c = a_cols A ! i in
     col_width c \<le> a_max_width A \<and> (col_qtype c = SC \<longrightarrow> a_chunk A * elem_w c < 2 ^ 32) \<and>
     (case D ! i of None \<Rightarrow> \<not> col_load c | Some b \<Rightarrow> col_load c \<and> a_chunk A * elem_w c \<le> length b))"

definition nn_room :: "csv_args \<Rightarrow> byte list option list \<Rightarrow> bool" where
  "nn_room A N \<longleftrightarrow> length N = length (a_cols A) \<and> a_nn_qtype A = BL \<and> (\<forall>i<length (a_cols A). let c = a_cols A ! i in
     case N ! i of None \<Rightarrow> \<not> col_nulls c | Some b \<Rightarrow> col_nulls c \<and> col_load c \<and> a_chunk A \<le> length b)"

text \<open>The buffers after rows \<open>r, r + 1, ...\<close> with the values \<open>vss\<close>.\<close>

definition data_after :: "csv_args \<Rightarrow> nat \<Rightarrow> cval list list \<Rightarrow> byte list option list \<Rightarrow> byte list option list" where
  "data_after A r vss D = map (\<lambda>i. map_option (\<lambda>b. splice (r * elem_w (a_cols A ! i))
     (concat (map (\<lambda>vs. cv_bytes (a_cols A ! i) (vs ! i)) vss)) b) (D ! i)) [0..<length (a_cols A)]"

definition nn_after :: "csv_args \<Rightarrow> nat \<Rightarrow> cval list list \<Rightarrow> byte list option list \<Rightarrow> byte list option list" where
  "nn_after A r vss N = map (\<lambda>i. map_option (\<lambda>b. splice r
     (map (\<lambda>vs. of_bool (vs ! i \<noteq> CNull)) vss) b) (N ! i)) [0..<length (a_cols A)]"

definition row_ok :: "csv_args \<Rightarrow> nat \<Rightarrow> cval list \<Rightarrow> bool" where
  "row_ok A j vs \<longleftrightarrow> j + length vs = length (a_cols A) \<and>
     (\<forall>i<length vs. cv_ok (a_cols A ! (j + i)) (a_max_width A) (vs ! i))"

lemma row_ok_Cons: "row_ok A j (v # vs) \<longleftrightarrow> j < length (a_cols A) \<and> cv_ok (a_cols A ! j) (a_max_width A) v \<and> row_ok A (Suc j) vs"
  unfolding row_ok_def by (auto simp: nth_Cons less_Suc_eq_0_disj split: nat.splits)

lemma put_cell_value:
  assumes ok: "cv_ok (a_cols A ! j) (a_max_width A) v" and load: "col_load (a_cols A ! j)"
    and j: "j < length (a_cols A)" and r: "r < a_chunk A" "a_chunk A < 2 ^ 32"
    and D: "data_room A (f_data s)" and N: "nn_room A (f_nn s)"
  shows "put_cell A r j (cell_buf A j (cv_text v)) s = (Inr (),
    s\<lparr>f_data := (f_data s)[j := map_option (splice (r * elem_w (a_cols A ! j)) (cv_bytes (a_cols A ! j) v)) (f_data s ! j)],
      f_nn := (f_nn s)[j := map_option (splice r [of_bool (v \<noteq> CNull)]) (f_nn s ! j)]\<rparr>)"
proof -
  let ?c = "a_cols A ! j" and ?w = "elem_w (a_cols A ! j)"
  note buf = cell_buf_value [OF ok load]
  have t: "cv_typed ?c v" using ok load by (simp add: cv_ok_def)
  obtain b where b: "f_data s ! j = Some b" "a_chunk A * ?w \<le> length b" "col_width ?c \<le> a_max_width A"
    "col_qtype ?c = SC \<longrightarrow> a_chunk A * ?w < 2 ^ 32"
    using D load j by (auto simp: data_room_def Let_def split: option.splits)
  have "Suc r * ?w \<le> a_chunk A * ?w" using r by (intro mult_le_mono1) simp
  then have room: "r * ?w + ?w \<le> length b" "col_qtype ?c = SC \<longrightarrow> r * ?w < 2 ^ 32" using b by auto
  have null: "(cell_buf A j (cv_text v) ! 0 = NUL) = (v = CNull)"
    using buf cv_text_Nil [OF t] by (cases "cv_text v") (auto simp: pad_def nth_append)
  have nn: "(if col_nulls ?c then put_nn A r j (v = CNull) else ret ()) s =
      (Inr (), s\<lparr>f_nn := (f_nn s)[j := map_option (splice r [of_bool (v \<noteq> CNull)]) (f_nn s ! j)]\<rparr>)"
  proof (cases "f_nn s ! j")
    case None
    with N j have "\<not> col_nulls ?c" by (auto simp: nn_room_def Let_def split: option.splits)
    with None show ?thesis by (simp add: ret_def) (metis csvst.surjective csvst.update_convs(2) list_update_id)
  next
    case (Some nb)
    with N j have nb: "col_nulls ?c" "a_chunk A \<le> length nb" "j < length (f_nn s)" "a_nn_qtype A = BL"
      by (auto simp: nn_room_def Let_def split: option.splits)
    have one: "le_bytes 1 (of_bool (v \<noteq> CNull)) = [of_bool (v \<noteq> CNull)]" by (simp add: le_bytes_def)
    have "store_num 1 r (of_bool (v \<noteq> CNull)) nb = (Inr (), splice r [of_bool (v \<noteq> CNull)] nb)"
      using r nb one by (simp add: store_num_def buf_write_def)
    with nb Some show ?thesis
      by (simp add: put_nn_def in_nn_def at_buf_def)
  qed
  have dat: "in_data j (asc_to_bin (cell_buf A j (cv_text v)) (v = CNull) (col_qtype ?c) (col_width ?c) (u32 r)) s' =
      (Inr (), s'\<lparr>f_data := (f_data s')[j := Some (splice (r * ?w) (cv_bytes ?c v) b)]\<rparr>)"
    if "f_data s' = f_data s" for s'
  proof -
    have "asc_to_bin (cell_buf A j (cv_text v)) (v = CNull) (col_qtype ?c) (col_width ?c) (u32 r) b =
        (Inr (), splice (r * ?w) (cv_bytes ?c v) b)"
      using asc_to_bin_value [OF t buf(2,3) b(3) room] r by (simp add: buf(1))
    then show ?thesis
      using b D j that by (simp add: in_data_def at_buf_def data_room_def)
  qed
  have notnull: "\<not> (v = CNull \<and> \<not> col_nulls ?c)" using t by (cases v) auto
  have three: "steps [bye_if False st, m1, m2] s = (Inr (), s2)"
    if "m1 s = (Inr (), s1)" "m2 s1 = (Inr (), s2)" for st m1 m2 s1 s2
    using that by (simp add: seq_def prog_simps)
  have "put_cell A r j (cell_buf A j (cv_text v)) s = steps [bye_if False (- 1),
      (if col_nulls ?c then put_nn A r j (v = CNull) else ret ()),
      in_data j (asc_to_bin (cell_buf A j (cv_text v)) (v = CNull) (col_qtype ?c) (col_width ?c) (u32 r))] s"
    unfolding put_cell_def Let_def null using notnull by simp
  also have "\<dots> = (Inr (),
    s\<lparr>f_data := (f_data s)[j := map_option (splice (r * ?w) (cv_bytes ?c v)) (f_data s ! j)],
      f_nn := (f_nn s)[j := map_option (splice r [of_bool (v \<noteq> CNull)]) (f_nn s ! j)]\<rparr>)"
    by (rule three, rule nn, subst dat) (simp_all add: b(1))
  finally show ?thesis .
qed

end
