(* ===== verification/Csv_Thms.thy ===== *)
theory Csv_Thms
  imports Csv_Values
begin

text \<open>
  What the CSV loader promises: cells and numbers read back, tables of values end up in the buffers
  of their columns, every call returns, and what becomes of a cell that cannot be read.
\<close>

subsection \<open>Storing a table\<close>

text \<open>The columns from \<open>j\<close> on after one row.\<close>

definition row_data :: "csv_args \<Rightarrow> nat \<Rightarrow> nat \<Rightarrow> cval list \<Rightarrow> byte list option list \<Rightarrow> byte list option list" where
  "row_data A r j vs D = map (\<lambda>i. if i < j then D ! i else map_option (splice (r * elem_w (a_cols A ! i))
     (cv_bytes (a_cols A ! i) (vs ! (i - j)))) (D ! i)) [0..<length (a_cols A)]"

definition row_nn :: "csv_args \<Rightarrow> nat \<Rightarrow> nat \<Rightarrow> cval list \<Rightarrow> byte list option list \<Rightarrow> byte list option list" where
  "row_nn A r j vs N = map (\<lambda>i. if i < j then N ! i else map_option (splice r
     [of_bool (vs ! (i - j) \<noteq> CNull)]) (N ! i)) [0..<length (a_cols A)]"

lemma nth_upd_map: "length D = n \<Longrightarrow> i < n \<Longrightarrow> D[j := f] ! i = (if i = j then f else D ! i)"
  by (simp add: nth_list_update)

lemma nth_Cons_from: "j \<le> i \<Longrightarrow> (v # vs) ! (i - j) = (if i = j then v else vs ! (i - Suc j))"
  by (cases "i = j") (simp_all add: nth_Cons' flip: diff_Suc_eq_diff_pred)

lemma row_data_Cons:
  "length D = length (a_cols A) \<Longrightarrow> j < length (a_cols A) \<Longrightarrow>
     row_data A r (Suc j) vs (D[j := map_option (splice (r * elem_w (a_cols A ! j)) (cv_bytes (a_cols A ! j) v)) (D ! j)]) =
     row_data A r j (v # vs) D"
  by (rule nth_equalityI) (auto simp: row_data_def nth_upd_map nth_Cons_from not_less less_Suc_eq_le)

lemma row_nn_Cons:
  "length N = length (a_cols A) \<Longrightarrow> j < length (a_cols A) \<Longrightarrow>
     row_nn A r (Suc j) vs (N[j := map_option (splice r [of_bool (v \<noteq> CNull)]) (N ! j)]) = row_nn A r j (v # vs) N"
  by (rule nth_equalityI) (auto simp: row_nn_def nth_upd_map nth_Cons_from not_less less_Suc_eq_le)

lemma length_splice_in: "off + length new \<le> length b \<Longrightarrow> length (splice off new b) = length b"
  by (simp add: splice_def)

text \<open>Room is a matter of the sizes only.\<close>

abbreviation sizes :: "byte list option list \<Rightarrow> nat option list" where
  "sizes \<equiv> map (map_option length)"

lemma room_sizes:
  assumes "sizes D' = sizes D"
  shows "data_room A D \<Longrightarrow> data_room A D'" "nn_room A D \<Longrightarrow> nn_room A D'"
proof -
  have len: "length D' = length D" using assms by (rule map_eq_imp_length_eq)
  have "map_option length (D' ! i) = map_option length (D ! i)" if "i < length D" for i
    using arg_cong [OF assms, of "\<lambda>xs. xs ! i"] that len by simp
  then have nth: "i < length D \<Longrightarrow> (D ! i = None \<and> D' ! i = None) \<or>
      (\<exists>b b'. D ! i = Some b \<and> D' ! i = Some b' \<and> length b' = length b)" for i
    by (cases "D ! i"; cases "D' ! i") force+
  show "data_room A D \<Longrightarrow> data_room A D'" "nn_room A D \<Longrightarrow> nn_room A D'"
    unfolding data_room_def nn_room_def Let_def using len nth by fastforce+
qed

lemma data_length:
  assumes "data_room A D" "i < length (a_cols A)" "D ! i = Some b" "cv_ok (a_cols A ! i) (a_max_width A) v" "r < a_chunk A"
  shows "length (splice (r * elem_w (a_cols A ! i)) (cv_bytes (a_cols A ! i) v) b) = length b"
proof (rule length_splice_in)
  let ?w = "elem_w (a_cols A ! i)"
  have b: "col_load (a_cols A ! i)" "a_chunk A * ?w \<le> length b"
    using assms(1-3) by (auto simp: data_room_def Let_def split: option.splits)
  moreover have "Suc r * ?w \<le> a_chunk A * ?w" using assms(5) by (intro mult_le_mono1) simp
  ultimately show "r * ?w + length (cv_bytes (a_cols A ! i) v) \<le> length b"
    using assms(4) by (simp add: cv_ok_def length_cv_bytes)
qed

lemma nn_length:
  "nn_room A N \<Longrightarrow> i < length (a_cols A) \<Longrightarrow> N ! i = Some b \<Longrightarrow> r < a_chunk A \<Longrightarrow> length (splice r [x] b) = length b"
  by (rule length_splice_in) (auto simp: nn_room_def Let_def split: option.splits)

lemma sizes_upd: "j < length D \<Longrightarrow> map_option length x = map_option length (D ! j) \<Longrightarrow> sizes (D[j := x]) = sizes D"
  by (simp add: map_update) (metis length_map list_update_id nth_map)

lemma rooms_upd:
  assumes "cv_ok (a_cols A ! j) (a_max_width A) v" "j < length (a_cols A)" "r < a_chunk A"
  shows "data_room A D \<Longrightarrow> data_room A (D[j := map_option (splice (r * elem_w (a_cols A ! j)) (cv_bytes (a_cols A ! j) v)) (D ! j)])"
    and "nn_room A N \<Longrightarrow> nn_room A (N[j := map_option (splice r [x]) (N ! j)])"
proof -
  show "data_room A (D[j := map_option (splice (r * elem_w (a_cols A ! j)) (cv_bytes (a_cols A ! j) v)) (D ! j)])" if D: "data_room A D"
  proof (rule room_sizes(1) [OF sizes_upd D])
    show "j < length D" using D assms(2) by (simp add: data_room_def)
    show "map_option length (map_option (splice (r * elem_w (a_cols A ! j)) (cv_bytes (a_cols A ! j) v)) (D ! j)) = map_option length (D ! j)"
      using data_length [OF D assms(2) _ assms(1,3)] by (cases "D ! j") simp_all
  qed
  show "nn_room A (N[j := map_option (splice r [x]) (N ! j)])" if N: "nn_room A N"
  proof (rule room_sizes(2) [OF sizes_upd N])
    show "j < length N" using N assms(2) by (simp add: nn_room_def)
    show "map_option length (map_option (splice r [x]) (N ! j)) = map_option length (N ! j)"
      using nn_length [OF N assms(2) _ assms(3)] by (cases "N ! j") simp_all
  qed
qed

lemma store_row_values:
  assumes "row_ok A j vs" "r < a_chunk A" "a_chunk A < 2 ^ 32" "data_room A (f_data s)" "nn_room A (f_nn s)"
  shows "store_row A r j (map cv_text vs) s =
    (Inr (), s\<lparr>f_data := row_data A r j vs (f_data s), f_nn := row_nn A r j vs (f_nn s)\<rparr>)"
  using assms(1,4,5)
proof (induction vs arbitrary: j s)
  case Nil
  then have "row_data A r j [] (f_data s) = f_data s" "row_nn A r j [] (f_nn s) = f_nn s"
    by (auto simp: row_ok_def data_room_def nn_room_def row_data_def row_nn_def intro!: nth_equalityI)
  then show ?case by (simp add: ret_def)
next
  case (Cons v vs)
  let ?D = "(f_data s)[j := map_option (splice (r * elem_w (a_cols A ! j)) (cv_bytes (a_cols A ! j) v)) (f_data s ! j)]"
    and ?N = "(f_nn s)[j := map_option (splice r [of_bool (v \<noteq> CNull)]) (f_nn s ! j)]"
  have j: "j < length (a_cols A)" and ok: "cv_ok (a_cols A ! j) (a_max_width A) v" and rest: "row_ok A (Suc j) vs"
    using Cons.prems(1) by (auto simp: row_ok_Cons)
  have len: "length (f_data s) = length (a_cols A)" "length (f_nn s) = length (a_cols A)"
    using Cons.prems by (auto simp: data_room_def nn_room_def)
  have first: "(if col_load (a_cols A ! j) then put_cell A r j (cell_buf A j (cv_text v)) else ret ()) s =
      (Inr (), s\<lparr>f_data := ?D, f_nn := ?N\<rparr>)"
  proof (cases "col_load (a_cols A ! j)")
    case True
    then show ?thesis using put_cell_value [OF ok True j assms(2,3) Cons.prems(2,3)] by simp
  next
    case False
    with Cons.prems j have "f_data s ! j = None" "f_nn s ! j = None"
      by (auto simp: data_room_def nn_room_def Let_def split: option.splits)
    then have "?D = f_data s" "?N = f_nn s" using list_update_id [of "f_data s" j] list_update_id [of "f_nn s" j] by simp_all
    with False show ?thesis by (simp add: ret_def)
  qed
  have "store_row A r (Suc j) (map cv_text vs) (s\<lparr>f_data := ?D, f_nn := ?N\<rparr>) =
      (Inr (), s\<lparr>f_data := row_data A r j (v # vs) (f_data s), f_nn := row_nn A r j (v # vs) (f_nn s)\<rparr>)"
    using Cons.IH [OF rest, of "s\<lparr>f_data := ?D, f_nn := ?N\<rparr>"] rooms_upd [OF ok j assms(2)] Cons.prems len j
    by (simp add: row_data_Cons row_nn_Cons)
  with first show ?case unfolding list.map store_row.simps by (simp only: seq_def prod.case sum.case)
qed

lemma splice_adjacent:
  assumes "off + length x + length y \<le> length b"
  shows "splice (off + length x) y (splice off x b) = splice off (x @ y) b"
  using assms by (simp add: splice_def ac_simps)

lemma data_after_Cons:
  assumes "row_ok A 0 vs" "data_room A D" "r < a_chunk A" "r + Suc (length vss) \<le> a_chunk A" "\<forall>vs\<in>set vss. row_ok A 0 vs"
  shows "data_after A (Suc r) vss (row_data A r 0 vs D) = data_after A r (vs # vss) D"
proof (rule nth_equalityI)
  fix i assume "i < length (data_after A (Suc r) vss (row_data A r 0 vs D))"
  then have i: "i < length (a_cols A)" by (simp add: data_after_def)
  let ?c = "a_cols A ! i"
  have clen: "length (concat (map (\<lambda>vs. cv_bytes ?c (vs ! i)) xs)) = length xs * elem_w ?c"
    if "\<forall>vs\<in>set xs. row_ok A 0 vs" "col_load ?c" for xs
    using that i by (induction xs) (auto simp: row_ok_def cv_ok_def length_cv_bytes)
  show "data_after A (Suc r) vss (row_data A r 0 vs D) ! i = data_after A r (vs # vss) D ! i"
  proof (cases "D ! i")
    case (Some b)
    with assms(2) i have b: "col_load ?c" "a_chunk A * elem_w ?c \<le> length b"
      by (auto simp: data_room_def Let_def split: option.splits)
    have v: "length (cv_bytes ?c (vs ! i)) = elem_w ?c"
      using assms(1) i b by (auto simp: row_ok_def cv_ok_def intro: length_cv_bytes)
    have "(r + Suc (length vss)) * elem_w ?c \<le> length b"
      using b(2) mult_le_mono1 [OF assms(4), of "elem_w ?c"] by linarith
    then have "r * elem_w ?c + length (cv_bytes ?c (vs ! i)) +
        length (concat (map (\<lambda>vs. cv_bytes ?c (vs ! i)) vss)) \<le> length b"
      unfolding v clen [OF assms(5) b(1)] by (simp add: algebra_simps)
    from splice_adjacent [OF this] Some i show ?thesis
      by (simp add: data_after_def row_data_def v add.commute)
  qed (use i in \<open>simp add: data_after_def row_data_def\<close>)
qed (simp add: data_after_def)

lemma nn_after_Cons:
  assumes "nn_room A N" "r + Suc (length vss) \<le> a_chunk A"
  shows "nn_after A (Suc r) vss (row_nn A r 0 vs N) = nn_after A r (vs # vss) N"
proof (rule nth_equalityI)
  fix i assume "i < length (nn_after A (Suc r) vss (row_nn A r 0 vs N))"
  then have i: "i < length (a_cols A)" by (simp add: nn_after_def)
  show "nn_after A (Suc r) vss (row_nn A r 0 vs N) ! i = nn_after A r (vs # vss) N ! i"
  proof (cases "N ! i")
    case (Some b)
    with assms i have "r + 1 + length vss \<le> length b" by (auto simp: nn_room_def Let_def split: option.splits)
    then have "r + length [of_bool (vs ! i \<noteq> CNull)] + length (map (\<lambda>vs. of_bool (vs ! i \<noteq> CNull)) vss) \<le> length b"
      by simp
    from splice_adjacent [OF this] Some i show ?thesis by (simp add: nn_after_def row_nn_def)
  qed (use i in \<open>simp add: nn_after_def row_nn_def\<close>)
qed (simp add: nn_after_def)

lemma rooms_row:
  assumes "row_ok A 0 vs" "r < a_chunk A"
  shows "data_room A D \<Longrightarrow> data_room A (row_data A r 0 vs D)" "nn_room A N \<Longrightarrow> nn_room A (row_nn A r 0 vs N)"
proof -
  have ok: "i < length (a_cols A) \<Longrightarrow> cv_ok (a_cols A ! i) (a_max_width A) (vs ! i)" for i
    using assms(1) by (auto simp: row_ok_def)
  show "data_room A (row_data A r 0 vs D)" if D: "data_room A D"
  proof (rule room_sizes(1) [OF _ D], rule nth_equalityI)
    fix i assume "i < length (sizes (row_data A r 0 vs D))"
    then have i: "i < length (a_cols A)" by (simp add: row_data_def)
    with D ok [OF i] data_length [OF D i _ ok [OF i] assms(2)]
    show "sizes (row_data A r 0 vs D) ! i = sizes D ! i"
      by (cases "D ! i") (simp_all add: row_data_def data_room_def)
  qed (use D in \<open>simp add: row_data_def data_room_def\<close>)
  show "nn_room A (row_nn A r 0 vs N)" if N: "nn_room A N"
  proof (rule room_sizes(2) [OF _ N], rule nth_equalityI)
    fix i assume "i < length (sizes (row_nn A r 0 vs N))"
    then have i: "i < length (a_cols A)" by (simp add: row_nn_def)
    with N nn_length [OF N i _ assms(2)]
    show "sizes (row_nn A r 0 vs N) ! i = sizes N ! i"
      by (cases "N ! i") (simp_all add: row_nn_def nn_room_def)
  qed (use N in \<open>simp add: row_nn_def nn_room_def\<close>)
qed

lemma store_rows_values:
  assumes "\<forall>vs\<in>set vss. row_ok A 0 vs" "r + length vss \<le> a_chunk A" "a_chunk A < 2 ^ 32"
    "data_room A (f_data s)" "nn_room A (f_nn s)"
  shows "store_rows A r (map (map cv_text) vss) s =
    (Inr (), s\<lparr>f_data := data_after A r vss (f_data s), f_nn := nn_after A r vss (f_nn s)\<rparr>)"
  using assms(1,2,4,5)
proof (induction vss arbitrary: r s)
  case Nil
  have "splice off [] b = b" for off and b :: "byte list" by (simp add: splice_def)
  then have "data_after A r [] (f_data s) = f_data s" "nn_after A r [] (f_nn s) = f_nn s"
    using Nil by (auto simp: data_after_def nn_after_def data_room_def nn_room_def option.map_id0
        intro!: nth_equalityI option.map_ident_strong)
  then show ?case by (simp add: ret_def)
next
  case (Cons vs vss)
  have ok: "row_ok A 0 vs" "\<forall>vs\<in>set vss. row_ok A 0 vs" and r: "r < a_chunk A" "Suc r + length vss \<le> a_chunk A"
    using Cons.prems by auto
  let ?s = "s\<lparr>f_data := row_data A r 0 vs (f_data s), f_nn := row_nn A r 0 vs (f_nn s)\<rparr>"
  have "store_rows A (Suc r) (map (map cv_text) vss) ?s =
      (Inr (), s\<lparr>f_data := data_after A r (vs # vss) (f_data s), f_nn := nn_after A r (vs # vss) (f_nn s)\<rparr>)"
    using Cons.IH [OF ok(2) r(2), of ?s] rooms_row [OF ok(1) r(1)] Cons.prems r ok
    by (simp add: data_after_Cons nn_after_Cons)
  with store_row_values [OF ok(1) r(1) assms(3) Cons.prems(3,4)] show ?case
    by (simp add: seq_def)
qed

subsection \<open>The whole call\<close>

lemma chk_cols_room:
  assumes "length D = length cols" "length N = length cols"
    "\<forall>i<length cols. col_width (cols ! i) \<le> mw \<and> (D ! i \<noteq> None \<longleftrightarrow> col_load (cols ! i)) \<and>
      (N ! i \<noteq> None \<longleftrightarrow> col_nulls (cols ! i)) \<and> (N ! i \<noteq> None \<longrightarrow> col_load (cols ! i))"
  shows "chk_cols cols D N mw = Inr ()"
  using assms
proof (induction cols arbitrary: D N)
  case (Cons c cols)
  obtain d D' n N' where D: "D = d # D'" and N: "N = n # N'" using Cons.prems(1,2) by (cases D; cases N) auto
  have "chk_cols cols D' N' mw = Inr ()"
    by (rule Cons.IH) (use Cons.prems D N in \<open>auto dest: spec [of _ "Suc _"]\<close>)
  with Cons.prems(3) D N show ?case by (auto dest: spec [of _ 0])
qed simp

lemma chk_data_room:
  assumes "data_room A D" "nn_room A N" "0 < a_max_width A" "a_max_width A \<le> 65536"
  shows "chk_data (Some D) (Some N) (a_cols A) (a_max_width A) = Inr ()"
proof -
  have "chk_cols (a_cols A) D N (a_max_width A) = Inr ()"
    by (rule chk_cols_room) (use assms(1,2) in \<open>auto simp: data_room_def nn_room_def Let_def split: option.splits\<close>)
  with assms(3,4) show ?thesis by (simp add: chk_data_def)
qed

lemma row_texts_values:
  assumes "row_ok A 0 vs" "list_all2 (\<lambda>v t. cell_text (the (a_sep A)) (cv_text v) t) vs ts"
  shows "row_texts A 0 (map cv_text vs) ts"
  using assms by (auto simp: row_texts_def row_ok_def cv_ok_def list.rel_map)

lemma table_texts_values:
  assumes "\<forall>vs\<in>set vss. row_ok A 0 vs"
    "list_all2 (list_all2 (\<lambda>v t. cell_text (the (a_sep A)) (cv_text v) t)) vss tss"
  shows "table_texts A (map (map cv_text) vss) tss"
  using assms(2,1) unfolding table_texts_def list.rel_map
  by (induction rule: list_all2_induct) (auto intro: row_texts_values)

lemma csv_loop_values:
  assumes vals: "\<forall>vs\<in>set vss. row_ok A 0 vs"
      "list_all2 (list_all2 (\<lambda>v t. cell_text (the (a_sep A)) (cv_text v) t)) vss tss"
    and A: "a_cols A \<noteq> []" "sep_ok A" "0 < a_chunk A" "a_chunk A < 2 ^ 32" "a_file A = pre @ table_text A tss" "vss \<noteq> []"
    and s: "\<not> (h \<and> f_offset s = 0)" "data_room A (f_data s)" "nn_room A (f_nn s)"
    and n: "length (a_cols A) * a_chunk A \<le> n"
  shows "csv_loop n A (at_row (length pre) 0 0 h) s =
    (Inr (at_row (length pre + length (table_text A (take (a_chunk A) tss))) (min (a_chunk A) (length vss)) 0 h),
     s\<lparr>f_data := data_after A 0 (take (a_chunk A) vss) (f_data s), f_nn := nn_after A 0 (take (a_chunk A) vss) (f_nn s)\<rparr>)"
proof -
  let ?k = "min (a_chunk A) (length vss)"
  have "length (a_cols A) * min (a_chunk A) (length (map (map cv_text) vss)) \<le> n"
    using n by (meson le_trans min.cobounded1 mult_le_mono2)
  then have "csv_loop n A (at_row (length pre) 0 0 h) s =
      seq (store_rows A 0 (take ?k (map (map cv_text) vss))) (\<lambda>_.
        ret (at_row (length pre + length (table_text A (take ?k tss))) ?k 0 h)) s"
    using csv_loop_rows [OF table_texts_values [OF vals] _ A(1,2,5) s(1), of 0 n] A by (simp add: Let_def)
  moreover have "take ?k vss = take (a_chunk A) vss" "take ?k tss = take (a_chunk A) tss"
    using list_all2_lengthD [OF vals(2)] by (cases "a_chunk A \<le> length vss"; simp)+
  moreover have "store_rows A 0 (map (map cv_text) (take ?k vss)) s = (Inr (),
      s\<lparr>f_data := data_after A 0 (take ?k vss) (f_data s), f_nn := nn_after A 0 (take ?k vss) (f_nn s)\<rparr>)"
    by (rule store_rows_values) (use vals(1) A s in \<open>auto dest: in_set_takeD\<close>)
  ultimately show ?thesis by (simp add: seq_def ret_def take_map)
qed

lemma after_Nil: "data_room A D \<Longrightarrow> data_after A r [] D = D" "nn_room A N \<Longrightarrow> nn_after A r [] N = N"
proof -
  have "splice off [] b = b" for off and b :: "byte list" by (simp add: splice_def)
  then show "data_room A D \<Longrightarrow> data_after A r [] D = D" "nn_room A N \<Longrightarrow> nn_after A r [] N = N"
    by (auto simp: data_after_def nn_after_def data_room_def nn_room_def intro!: nth_equalityI option.map_ident_strong)
qed

text \<open>A header stands in front of the rows when the call reads the start of a file that has one.\<close>

definition header_text :: "csv_args \<Rightarrow> bool \<Rightarrow> string \<Rightarrow> string \<Rightarrow> bool" where
  "header_text A hdr seen h = (if hdr \<and> seen = [] then (\<exists>cs ts. row_texts A 0 cs ts \<and> h = row_line (the (a_sep A)) ts) else h = [])"

lemma csv_loop_table:
  assumes vals: "\<forall>vs\<in>set vss. row_ok A 0 vs"
      "list_all2 (list_all2 (\<lambda>v t. cell_text (the (a_sep A)) (cv_text v) t)) vss tss"
    and A: "a_cols A \<noteq> []" "sep_ok A" "0 < a_chunk A" "a_chunk A < 2 ^ 32"
    and X: "a_file A = seen @ h @ table_text A tss" "length seen < length (a_file A)"
    and h: "header_text A hdr seen h"
    and s: "f_offset s = length seen" "data_room A (f_data s)" "nn_room A (f_nn s)"
  shows "seq (csv_loop (csv_rounds A) A (at_row (length seen) 0 0 hdr))
      (\<lambda>p. upd_st (\<lambda>s. s\<lparr>f_nR := p_row p, f_offset := p_xidx p\<rparr>)) s =
    (Inr (), s\<lparr>f_data := data_after A 0 (take (a_chunk A) vss) (f_data s), f_nn := nn_after A 0 (take (a_chunk A) vss) (f_nn s),
       f_nR := min (a_chunk A) (length vss),
       f_offset := length seen + length h + length (table_text A (take (a_chunk A) tss))\<rparr>)"
proof -
  let ?n = "length (a_cols A)"
  have rounds: "csv_rounds A = ?n + ?n * a_chunk A" using A(3) by (simp add: csv_rounds_def)
  show ?thesis
  proof (cases "hdr \<and> seen = []")
    case False
    then have h: "h = []" using h by (auto simp: header_text_def)
    have "vss \<noteq> []" using X h list_all2_lengthD [OF vals(2)] by auto
    from csv_loop_values [OF vals A _ this _ s(2,3), where pre = seen and h = hdr and n = "csv_rounds A"]
    show ?thesis using False X s(1) h rounds by (simp add: seq_def upd_st_def)
  next
    case True
    obtain cs ts where row: "row_texts A 0 cs ts" and hd: "h = row_line (the (a_sep A)) ts"
      using h True by (auto simp: header_text_def)
    have cs: "cs \<noteq> []" "length cs = ?n" using row A(1) by (auto simp: row_texts_def)
    have contents: "a_file A = [] @ row_line (the (a_sep A)) ts @ table_text A tss" using X True hd by simp
    have off: "f_offset s = 0" using s True by simp
    have nil: "table_text A tss = [] \<longleftrightarrow> vss = []"
      using table_text_Nil [OF table_texts_values [OF vals] A(1)] by simp
    have "csv_loop (csv_rounds A) A (at_row 0 0 0 True) s =
        (let p = at_row (length h) 0 0 False in
         if table_text A tss = [] then ret p else csv_loop (?n * a_chunk A) A p) s"
      using csv_loop_hdr [OF row cs(1) A(2) contents off, of "?n * a_chunk A"] by (simp add: rounds cs hd)
    also have "\<dots> = (Inr (at_row (length h + length (table_text A (take (a_chunk A) tss))) (min (a_chunk A) (length vss)) 0 False),
        s\<lparr>f_data := data_after A 0 (take (a_chunk A) vss) (f_data s), f_nn := nn_after A 0 (take (a_chunk A) vss) (f_nn s)\<rparr>)"
    proof (cases "vss = []")
      case True
      then have "tss = []" using list_all2_lengthD [OF vals(2)] by simp
      with True nil s show ?thesis by (simp add: ret_def after_Nil)
    next
      case False
      from csv_loop_values [OF vals A _ this _ s(2,3), where pre = h and h = False and n = "?n * a_chunk A"]
      show ?thesis using contents hd nil False by simp
    qed
    finally show ?thesis using True by (simp add: seq_def upd_st_def)
  qed
qed

subsection \<open>The properties\<close>

text \<open>C29. A cell survives the file: whatever string \<open>SC_to_txt\<close> escapes, \<open>get_cell\<close> gives back, when
  the string fits its buffer and the text stands in quotes, followed by the separator or, in the last column, by the end of the
  line.  The position returned is that of the next cell.  With trimming the string comes back
  stripped.  The quotes are needed: see \<open>unquoted_escape_lost\<close>.\<close>

theorem csv_cell_roundtrip:
  assumes "SC_to_txt (Some s) nX = Inr t" "fits tr n s" "get_fld_sep fs = Inr sep" "n \<le> length buf"
    "rc = (if lst then eoln else sep)"
  shows "get_cell (Some (pre @ (dquote # t @ [dquote]) @ rc # rest)) (length pre) sep lst buf tr n =
    Inr (length pre + length t + 3, pad n (if tr then strip s else s) @ drop n buf, False)"
proof -
  have "cell_text sep s (dquote # t @ [dquote])"
    using SC_to_txt_Inr [OF assms(1)] quoted_escape [of s] by (auto simp: cell_text_def)
  moreover have "sep \<noteq> dquote" "sep \<noteq> bslash"
    using assms(3) by (auto simp: get_fld_sep_def special_chars split: option.splits if_splits)
  ultimately show ?thesis
    using get_cell_text [of sep s "dquote # t @ [dquote]" tr n buf rc lst pre rest] assms
    by (simp add: cell_read_def)
qed

lemma csv_cell_roundtrip_witness:
  "get_cell (Some ([] @ (dquote # [CHR ''a'', bslash, CHR '','', CHR ''b''] @ [dquote]) @ CHR '','' # ''1'')) (length ([] :: string)) CHR '',''
     False (replicate 5 NUL) False 4 =
   Inr (length ([] :: string) + length [CHR ''a'', bslash, CHR '','', CHR ''b''] + 3, pad 4 (if False then strip ''a,b'' else ''a,b'') @ drop 4 (replicate 5 NUL), False)"
  by (rule csv_cell_roundtrip [where nX = 9 and fs = "Some ''comma''"])
     (simp_all add: SC_to_txt_def sc_special_def special_chars fits_def get_fld_sep_def strcasecmp_eq_def tolower_def Let_def)

lemma I_to_txt_whole:
  "I_to_txt z None (Some nX) = Inr t \<Longrightarrow> length (dec_int z) + 2 \<le> nX \<Longrightarrow> t = dec_int z"
  by (auto simp: I_to_txt_def snprintf_def split: if_splits)

lemma length_dec_int: "\<bar>z\<bar> < 10 ^ Suc k \<Longrightarrow> length (dec_int z) \<le> Suc k + (if z < 0 then 1 else 0)"
proof -
  assume "\<bar>z\<bar> < 10 ^ Suc k"
  then have "nat \<bar>z\<bar> < nat (10 ^ Suc k)" by (intro nat_less_eq_zless [THEN iffD2]) auto
  then have "nat \<bar>z\<bar> < 10 ^ Suc k" by (simp add: nat_power_eq nat_mult_distrib)
  then have "length (dec_nat (nat \<bar>z\<bar>)) \<le> Suc k" by (rule length_dec_nat)
  then show ?thesis by (auto simp: dec_int_def)
qed

lemma sint_range:
  "- (2 ^ (LENGTH('a) - 1)) \<le> sint (x :: 'a::len word)" "sint x \<le> 2 ^ (LENGTH('a) - 1) - 1"
  using sint_ge [of x] sint_lt [of x] by simp_all

text \<open>Numbers survive their text: what the four signed writers print, with a buffer that holds it,
  the reader of the same type reads as the same number.  The bounds are the longest number and two
  bytes; with one byte less the writers cut the last digit and report success, see
  \<open>int_text_cut\<close>.\<close>

theorem int_text_roundtrip:
  "(8 \<le> nX \<longrightarrow> I1_to_txt x1 None (Some nX) = Inr t1 \<longrightarrow> txt_to_I1 (Some t1) = Inr (sint x1)) \<and>
   (8 \<le> nX \<longrightarrow> I2_to_txt x2 None (Some nX) = Inr t2 \<longrightarrow> txt_to_I2 (Some t2) = Inr (sint x2)) \<and>
   (13 \<le> nX \<longrightarrow> I4_to_txt x4 None (Some nX) = Inr t4 \<longrightarrow> txt_to_I4 (Some t4) = Inr (sint x4)) \<and>
   (22 \<le> nX \<longrightarrow> I8_to_txt x8 None (Some nX) = Inr t8 \<longrightarrow> txt_to_I8 (Some t8) = Inr (sint x8))"
proof -
  have r1: "- 128 \<le> sint x1" "sint x1 \<le> 127" using sint_range [of x1] by simp_all
  have r2: "- 32768 \<le> sint x2" "sint x2 \<le> 32767" using sint_range [of x2] by simp_all
  have r4: "- 2147483648 \<le> sint x4" "sint x4 \<le> 2147483647" using sint_range [of x4] by simp_all
  have r8: "LLONG_MIN \<le> sint x8" "sint x8 \<le> LLONG_MAX"
    using sint_range [of x8] by (simp_all add: LLONG_MIN_def LLONG_MAX_def)
  have l1: "length (dec_int (sint x1)) \<le> 6"
  proof -
    have "\<bar>sint x1\<bar> < 10 ^ Suc 2" using r1 by (simp add: abs_less_iff)
    from length_dec_int [OF this] show ?thesis by (simp split: if_splits)
  qed
  have l2: "length (dec_int (sint x2)) \<le> 6"
  proof -
    have "\<bar>sint x2\<bar> < 10 ^ Suc 4" using r2 by (simp add: abs_less_iff)
    from length_dec_int [OF this] show ?thesis by (simp split: if_splits)
  qed
  have l4: "length (dec_int (sint x4)) \<le> 11"
  proof -
    have "\<bar>sint x4\<bar> < 10 ^ Suc 9" using r4 by (simp add: abs_less_iff)
    from length_dec_int [OF this] show ?thesis by (simp split: if_splits)
  qed
  have l8: "length (dec_int (sint x8)) \<le> 20"
  proof -
    have "\<bar>sint x8\<bar> < 10 ^ Suc 18" using r8 by (simp add: abs_less_iff LLONG_MIN_def LLONG_MAX_def)
    from length_dec_int [OF this] show ?thesis by (simp split: if_splits)
  qed
  have "txt_to_I1 (Some t1) = Inr (sint x1)" if "8 \<le> nX" "I1_to_txt x1 None (Some nX) = Inr t1"
    using I_to_txt_whole [of "sint x1" nX t1] that l1 r1
    by (simp add: I1_to_txt_def txt_to_I1_def txt_to_I_dec LLONG_MIN_def LLONG_MAX_def)
  moreover have "txt_to_I2 (Some t2) = Inr (sint x2)" if "8 \<le> nX" "I2_to_txt x2 None (Some nX) = Inr t2"
    using I_to_txt_whole [of "sint x2" nX t2] that l2 r2
    by (simp add: I2_to_txt_def txt_to_I2_def txt_to_I_dec LLONG_MIN_def LLONG_MAX_def)
  moreover have "txt_to_I4 (Some t4) = Inr (sint x4)" if "13 \<le> nX" "I4_to_txt x4 None (Some nX) = Inr t4"
    using I_to_txt_whole [of "sint x4" nX t4] that l4 r4
    by (simp add: I4_to_txt_def txt_to_I4_def txt_to_I_dec LLONG_MIN_def LLONG_MAX_def)
  moreover have "txt_to_I8 (Some t8) = Inr (sint x8)" if "22 \<le> nX" "I8_to_txt x8 None (Some nX) = Inr t8"
    using I_to_txt_whole [of "sint x8" nX t8] that l8 r8 by (simp add: I8_to_txt_def txt_to_I8_dec)
  ultimately show ?thesis by blast
qed

lemma dec_int_demo: "dec_int (- 47) = ''-47''"
  by code_simp

lemma int_text_roundtrip_witness:
  "txt_to_I1 (Some ''-47'') = Inr (sint (- 47 :: 8 word))"
  using int_text_roundtrip [of 8 "- 47" "''-47''", THEN conjunct1]
  by (simp add: I1_to_txt_def I_to_txt_def snprintf_def dec_int_demo)

text \<open>With one byte less than the number needs the last digit is cut and success is reported.\<close>

lemma int_text_cut:
  "8 \<le> nX \<Longrightarrow> nX = length (dec_int z) + 1 \<Longrightarrow> I_to_txt z None (Some nX) = Inr (butlast (dec_int z))"
  by (simp add: I_to_txt_def snprintf_def butlast_conv_take)

text \<open>C14. A table is loaded as it is: when the file holds, from the position of the call on, an optional
  header and rows whose cells are the texts of integers, booleans, strings and nulls, each in quotes and escaped or plain, one
  call of \<open>load_csv_seq\<close> succeeds, reports the number of rows of the chunk and the position of the
  first row it left, and the buffer of every column holds the encodings of its values one after
  the other, with the rest of the buffer unchanged; likewise the null flags.\<close>

theorem csv_load_stores_table:
  assumes src: "f \<noteq> []" "f_files s f = Some X" "X \<noteq> []"
      "X = seen @ h @ concat (map (row_line sep) tss)" "f_offset s = length seen"
    and args: "cols \<noteq> []" "get_fld_sep fs = Inr sep" "0 < chunk" "chunk < 2 ^ 32" "0 < mw" "mw \<le> 65536"
      "A = csv_args_of X cols fs chunk mw BL" "header_text A hdr seen h"
    and table: "list_all2 (list_all2 (\<lambda>v t. cell_text sep (cv_text v) t)) vss tss" "\<forall>vs\<in>set vss. row_ok A 0 vs"
    and room: "data_room A (f_data s)" "nn_room A (f_nn s)" "f_can_malloc s"
  shows "load_csv_seq (Some f) cols fs chunk mw BL hdr s =
    (Inr (), s\<lparr>f_data := data_after A 0 (take chunk vss) (f_data s), f_nn := nn_after A 0 (take chunk vss) (f_nn s),
       f_nR := min chunk (length vss),
       f_offset := length seen + length h + length (concat (map (row_line sep) (take chunk tss)))\<rparr>)"
proof -
  have A: "a_cols A = cols" "a_chunk A = chunk" "a_max_width A = mw" "a_sep A = Some sep" "a_file A = X"
    using args(2) by (simp_all add: args(7) csv_args_of_def)
  have sep_ok: "sep_ok A" using sep_ok_get_fld_sep [OF args(2)] by (simp add: args(7))
  have chk: "chk_data (Some (f_data s)) (Some (f_nn s)) cols mw = Inr ()"
    using chk_data_room [OF room(1,2)] args(5,6) A by simp
  have le: "length seen \<le> length X" using src(4) by simp
  have run: "load_csv_seq (Some f) cols fs chunk mw BL hdr s =
      (if length X = length seen then (Inr (), s\<lparr>f_nR := 0\<rparr>)
       else seq (csv_loop (csv_rounds A) A (at_row (length seen) 0 0 hdr))
              (\<lambda>p. upd_st (\<lambda>s. s\<lparr>f_nR := p_row p, f_offset := p_xidx p\<rparr>)) (s\<lparr>f_nR := 0\<rparr>))"
    using src(1-3,5) args(1) chk room(3) le by (simp add: load_csv_seq_run args(7))
  show ?thesis
  proof (cases "length seen = length X")
    case False
    with le have "length seen < length (a_file A)" by (simp add: A)
    moreover have "a_file A = seen @ h @ table_text A tss" using src(4) by (simp add: A table_text_def)
    ultimately show ?thesis
      using csv_loop_table [of vss A tss seen h hdr "s\<lparr>f_nR := 0\<rparr>"] args(1,3,4,8) src(5) table room A(1,2,4) sep_ok False
      by (simp add: run table_text_def)
  next
    case True
    then have h: "h = []" "concat (map (row_line sep) tss) = []" using src(4) by auto
    then have "vss = []"
      using table_text_Nil [OF table_texts_values [of vss A tss], unfolded A] table args(1) A by (simp add: table_text_def)
    moreover from this have "tss = []" using list_all2_lengthD [OF table(1)] by simp
    ultimately show ?thesis using True h src(5) room by (simp add: run after_Nil)
  qed
qed

text \<open>C31. Every call returns: whatever the file, the columns and the buffers, \<open>load_csv_seq\<close> ends, with a
  status, with outputs, or in undefined behaviour, after at most \<open>csv_rounds\<close> cells.\<close>

theorem csv_load_returns:
  assumes "chunk < 2 ^ 32"
  shows "fst (load_csv_seq infile cols fs chunk mw nq hdr s) \<noteq> Inl Diverges"
  by (rule load_csv_seq_ends [OF assms])

text \<open>Text that starts with an escape is skipped: three characters are taken for \<open>\N\<close>, whatever they
  are, and the cell reads as empty.\<close>

lemma unquoted_escape_lost:
  "0 < n \<Longrightarrow> get_cell (Some (bslash # a # b # rest)) 0 sep lst buf tr n = Inr (3, over (replicate n NUL) buf, False)"
  by (simp add: get_cell_def Let_def)

definition demo_cols :: "csv_col list" where
  "demo_cols = [\<lparr>col_qtype = SC, col_trim = False, col_load = True, col_nulls = True, col_width = 4\<rparr>,
     \<lparr>col_qtype = I2, col_trim = True, col_load = True, col_nulls = False, col_width = 2\<rparr>]"

definition demo_file :: string where
  "demo_file = ''s,n'' @ [eoln] @ dquote # ''a,b'' @ [dquote] @ '',-5'' @ [eoln] @ '',7'' @ [eoln]"

definition demo_csv :: csvst where
  "demo_csv = \<lparr>f_data = [Some (replicate 16 9), Some (replicate 8 9)], f_nn = [Some (replicate 4 9), None],
     f_nR = 0, f_offset = 0, f_files = [''t.csv'' \<mapsto> demo_file], f_can_malloc = True\<rparr>"

text \<open>A file of three lines, of which the first is a header.\<close>

lemma csv_load_returns_witness: "fst (load_csv_seq (Some ''t.csv'') demo_cols (Some ''comma'') 4 8 BL True demo_csv) \<noteq> Inl Diverges"
  by (rule csv_load_returns) simp

definition demo_args :: csv_args where
  "demo_args = csv_args_of demo_file demo_cols (Some ''comma'') 4 8 BL"

lemma demo_comma: "get_fld_sep (Some ''comma'') = Inr CHR '',''"
  by (simp add: get_fld_sep_def strcasecmp_eq_def)

lemma demo_args_sel [simp]:
  "a_cols demo_args = demo_cols" "a_chunk demo_args = 4" "a_max_width demo_args = 8" "a_nn_qtype demo_args = BL"
  "a_sep demo_args = Some CHR '',''"
  using demo_comma by (simp_all add: demo_args_def csv_args_of_def)

definition demo_values :: "cval list list" where
  "demo_values = [[CStr ''a,b'', CInt (- 5)], [CNull, CInt 7]]"

definition demo_texts :: "string list list" where
  "demo_texts = [[dquote # ''a,b'' @ [dquote], ''-5''], [[], ''7'']]"

lemma dec_int_57: "dec_int (- 5) = ''-5''" "dec_int 7 = ''7''"
  by code_simp+

lemma csv_load_stores_table_witness:
  "load_csv_seq (Some ''t.csv'') demo_cols (Some ''comma'') 4 8 BL True demo_csv =
    (Inr (), demo_csv\<lparr>f_data := data_after demo_args 0 (take 4 demo_values) (f_data demo_csv),
       f_nn := nn_after demo_args 0 (take 4 demo_values) (f_nn demo_csv), f_nR := min 4 (length demo_values),
       f_offset := length ([] :: string) + length (row_line CHR '','' [''s'', ''n'']) +
         length (concat (map (row_line CHR '','') (take 4 demo_texts)))\<rparr>)"
proof (rule csv_load_stores_table [where X = demo_file and sep = "CHR '',''"])
  show "header_text demo_args True [] (row_line CHR '','' [''s'', ''n''])"
    unfolding header_text_def
    by (simp, rule exI [of _ "[''s'', ''n'']"], rule exI [of _ "[''s'', ''n'']"])
       (simp add: row_texts_def demo_cols_def cell_text_def plain_def fits_def special_chars less_Suc_eq numeral_2_eq_2)
  show "list_all2 (list_all2 (\<lambda>v t. cell_text CHR '','' (cv_text v) t)) demo_values demo_texts"
    by (auto simp: demo_values_def demo_texts_def cell_text_def dec_int_57 plain_def special_chars
        intro!: quoted.intros)
  show "\<forall>vs\<in>set demo_values. row_ok demo_args 0 vs"
    by (simp add: demo_values_def row_ok_def demo_cols_def cv_ok_def fits_def dec_int_57 int_range_def special_chars
        less_Suc_eq numeral_2_eq_2)
  show "data_room demo_args (f_data demo_csv)" "nn_room demo_args (f_nn demo_csv)"
    by (simp_all add: data_room_def nn_room_def demo_cols_def demo_csv_def elem_w_def get_width_c_qtype_def less_Suc_eq)
  show "demo_file = [] @ row_line CHR '','' [''s'', ''n''] @ concat (map (row_line CHR '','') demo_texts)"
    by (simp add: demo_file_def demo_texts_def)
  show "f_files demo_csv ''t.csv'' = Some demo_file" "f_offset demo_csv = length ([] :: string)" "f_can_malloc demo_csv"
    by (simp_all add: demo_csv_def)
  show "demo_args = csv_args_of demo_file demo_cols (Some ''comma'') 4 8 BL" by (simp add: demo_args_def)
  show "demo_cols \<noteq> []" by (simp add: demo_cols_def)
  show "demo_file \<noteq> []" by (simp add: demo_file_def)
  show "get_fld_sep (Some ''comma'') = Inr CHR '',''" by (rule demo_comma)
qed simp_all

text \<open>The buffers of that call in full.\<close>

lemma replicate_4: "replicate 4 x = [x, x, x, x]" "replicate 2 x = [x, x]"
  by (simp_all add: eval_nat_numeral)

lemma demo_bytes:
  "data_after demo_args 0 demo_values (f_data demo_csv) =
     [Some ([97, 44, 98, 0, 0, 0, 0, 0] @ replicate 8 9), Some ([251, 255, 7, 0] @ replicate 4 9)]"
  "nn_after demo_args 0 demo_values (f_nn demo_csv) = [Some ([1, 0] @ replicate 2 9), None]"
  by (simp_all add: data_after_def nn_after_def demo_values_def demo_csv_def demo_cols_def splice_def elem_w_def
      get_width_c_qtype_def pad_def le_bytes_def upt_rec replicate_4)

subsection \<open>A cell that is too long\<close>

text \<open>A table of one string column that is not trimmed, whose first cell has more characters than the
  cell buffer.\<close>

definition long_first :: "csv_args \<Rightarrow> string \<Rightarrow> bool" where
  "long_first A c \<longleftrightarrow> (\<exists>sep col rest. a_file A = c @ rest \<and> a_sep A = Some sep \<and> a_cols A = [col] \<and>
     col_qtype col = SC \<and> col_load col \<and> \<not> col_trim col \<and> a_max_width A - 1 \<le> col_width col \<and>
     plain sep c \<and> a_max_width A - 1 < length c \<and> 1 < a_max_width A \<and> NUL \<notin> set c)"

lemma csv_step_long:
  assumes "long_first A c" "r < 2 ^ 64 - 1"
  shows "csv_step A (at_row 0 r 0 False) s =
    seq (store_row A r 0 [take (a_max_width A - 1) c]) (\<lambda>_. ret (at_row 0 (Suc r) 0 False, Suc r = a_chunk A)) s"
proof -
  obtain sep col rest where A: "a_file A = c @ rest" "a_sep A = Some sep" "a_cols A = [col]" "col_load col" "\<not> col_trim col"
    and c: "plain sep c" "a_max_width A - 1 < length c" "1 < a_max_width A"
    using assms(1) by (auto simp: long_first_def)
  let ?n = "a_max_width A - 1"
  have mw: "a_max_width A = Suc ?n" using c(3) by simp
  have g: "get_cell (Some (a_file A)) 0 sep True (replicate (a_max_width A) NUL) False ?n =
      Inr (0, take ?n c @ [NUL], False)"
    unfolding A(1) using get_cell_long [OF c(1,2), of "[]" rest True] c(3) mw by simp
  have buf: "cell_buf A 0 (take ?n c) = take ?n c @ [NUL]"
    using c(2) A(3,5) by (simp add: cell_buf_def cell_read_def pad_def)
  have lift: "seq (lift_res (Inr x)) f s = f x s" for x and f :: "_ \<Rightarrow> _ csvprog" and s
    by (simp add: seq_def lift_res_def)
  have ne: "\<not> length (a_file A) \<le> 0" using A(1) c(2) by auto
  have nc: "next_cell A (at_row 0 r 0 False) 0 = at_row 0 (Suc r) 0 False"
    using assms(2) by (simp add: next_cell_def A(3) u64_def)
  show ?thesis
    using g ne buf by (simp add: csv_step_def A(2-5) lift Let_def nc chunk_done_def seq_assoc)
qed

lemma csv_loop_long:
  assumes "long_first A c" "a_chunk A < 2 ^ 32" "a_chunk A = r + Suc d"
  shows "csv_loop (Suc (d + m)) A (at_row 0 r 0 False) s =
    seq (store_rows A r (replicate (Suc d) [take (a_max_width A - 1) c])) (\<lambda>_. ret (at_row 0 (a_chunk A) 0 False)) s"
  using assms(3)
proof (induction d arbitrary: r s)
  case (0 r s)
  let ?g = "\<lambda>(p', brk). if brk then ret p' else csv_loop m A p'"
  from 0 have r: "r < 2 ^ 64 - 1" "Suc r = a_chunk A" using assms(2) by auto
  have "seq (csv_step A (at_row 0 r 0 False)) ?g s = seq (seq (store_row A r 0 [take (a_max_width A - 1) c])
      (\<lambda>_. ret (at_row 0 (Suc r) 0 False, Suc r = a_chunk A))) ?g s"
    by (rule seq_run_cong, rule csv_step_long [OF assms(1) r(1)])
  then show ?case by (simp add: seq_assoc r(2) del: store_row.simps)
next
  case (Suc d r s)
  let ?g = "\<lambda>(p', brk). if brk then ret p' else csv_loop (Suc d + m) A p'"
  from Suc.prems have r: "r < 2 ^ 64 - 1" "Suc r \<noteq> a_chunk A" "a_chunk A = Suc r + Suc d" using assms(2) by auto
  have "csv_loop (Suc (Suc d + m)) A (at_row 0 r 0 False) s = seq (csv_step A (at_row 0 r 0 False)) ?g s"
    by (simp only: csv_loop.simps)
  also have "\<dots> = seq (seq (store_row A r 0 [take (a_max_width A - 1) c])
      (\<lambda>_. ret (at_row 0 (Suc r) 0 False, Suc r = a_chunk A))) ?g s"
    by (rule seq_run_cong, rule csv_step_long [OF assms(1) r(1)])
  also have "\<dots> = seq (store_row A r 0 [take (a_max_width A - 1) c]) (\<lambda>_. csv_loop (Suc (d + m)) A (at_row 0 (Suc r) 0 False)) s"
    using r(2) by (simp only: seq_assoc seq_ret prod.case if_False add_Suc)
  also have "\<dots> = seq (store_row A r 0 [take (a_max_width A - 1) c]) (\<lambda>_. seq (store_rows A (Suc r)
      (replicate (Suc d) [take (a_max_width A - 1) c])) (\<lambda>_. ret (at_row 0 (a_chunk A) 0 False))) s"
    by (rule seq_cont_cong, rule Suc.IH, rule r(3))
  finally show ?case by (simp only: replicate_Suc store_rows.simps seq_assoc)
qed

text \<open>C39. A cell that is too long for the cell buffer is an error that \<open>get_cell\<close> reports by returning 0, the
  value its caller takes for the next position.  So the loader starts over at the beginning of the
  file: from a file of one string column whose first cell is too long it fills a whole chunk with
  copies of the cut cell, reports success and leaves the position at 0, so that the next call does
  the same; the rows behind the cell are never read.\<close>

theorem csv_long_cell_restarts:
  assumes "long_first A c" "A = csv_args_of X cols fs chunk mw BL" "f \<noteq> []" "f_files s f = Some X" "f_offset s = 0"
    "0 < chunk" "chunk < 2 ^ 32" "mw \<le> 65536" "data_room A (f_data s)" "nn_room A (f_nn s)" "f_can_malloc s"
  shows "load_csv_seq (Some f) cols fs chunk mw BL False s =
    (Inr (), s\<lparr>f_data := data_after A 0 (replicate chunk [CStr (take (mw - 1) c)]) (f_data s),
       f_nn := nn_after A 0 (replicate chunk [CStr (take (mw - 1) c)]) (f_nn s), f_nR := chunk, f_offset := 0\<rparr>)"
proof -
  have A: "a_cols A = cols" "a_chunk A = chunk" "a_max_width A = mw" "a_file A = X"
    by (simp_all add: assms(2))
  obtain sep col rest where L: "X = c @ rest" "cols = [col]" "col_qtype col = SC" "col_load col" "\<not> col_trim col"
      "mw - 1 \<le> col_width col" "mw - 1 < length c" "1 < mw" "NUL \<notin> set c"
    using assms(1) by (auto simp: long_first_def A)
  let ?v = "CStr (take (mw - 1) c)"
  have chk: "chk_data (Some (f_data s)) (Some (f_nn s)) cols mw = Inr ()"
    using chk_data_room [OF assms(9,10)] assms(8) A L(8) by simp
  have "NUL \<notin> set (take (mw - 1) c)" using L(9) by (auto dest: in_set_takeD)
  moreover have "take (mw - 1) c \<noteq> []" using L(7,8) by auto
  ultimately have row: "row_ok A 0 [?v]"
    using L(2-8) by (auto simp: row_ok_def cv_ok_def fits_def A)
  have store: "store_rows A 0 (replicate chunk [take (mw - 1) c]) (s\<lparr>f_nR := 0\<rparr>) = (Inr (), s\<lparr>f_nR := 0,
      f_data := data_after A 0 (replicate chunk [?v]) (f_data s), f_nn := nn_after A 0 (replicate chunk [?v]) (f_nn s)\<rparr>)"
    using store_rows_values [of "replicate chunk [?v]" A 0 "s\<lparr>f_nR := 0\<rparr>"] row assms(7,9,10) A by simp
  obtain d where d: "chunk = Suc d" using assms(6) by (cases chunk) auto
  have loop: "csv_loop (csv_rounds A) A (at_row 0 0 0 False) (s\<lparr>f_nR := 0\<rparr>) =
      (Inr (at_row 0 chunk 0 False), s\<lparr>f_nR := 0,
      f_data := data_after A 0 (replicate chunk [?v]) (f_data s), f_nn := nn_after A 0 (replicate chunk [?v]) (f_nn s)\<rparr>)"
  proof -
    have rounds: "csv_rounds A = Suc (d + 1)" using L(2) d by (simp add: csv_rounds_def A)
    have "csv_loop (Suc (d + 1)) A (at_row 0 0 0 False) (s\<lparr>f_nR := 0\<rparr>) =
        seq (store_rows A 0 (replicate (Suc d) [take (a_max_width A - 1) c]))
          (\<lambda>_. ret (at_row 0 (a_chunk A) 0 False)) (s\<lparr>f_nR := 0\<rparr>)"
      by (rule csv_loop_long) (use assms(1,7) A d in auto)
    with store show ?thesis unfolding rounds by (simp add: A d seq_def ret_def del: store_rows.simps replicate_Suc)
  qed
  have "X \<noteq> []" "cols \<noteq> []" using L(1,2,7) by auto
  then show ?thesis
    using assms(3-5,11) chk by (simp add: load_csv_seq_run assms(2) [symmetric] loop seq_def upd_st_def)
qed

definition long_csv :: csvst where
  "long_csv = \<lparr>f_data = [Some (replicate 6 9)], f_nn = [None], f_nR = 0, f_offset = 0,
     f_files = [''l.csv'' \<mapsto> ''abcde'' @ [eoln] @ ''x'' @ [eoln]], f_can_malloc = True\<rparr>"

definition long_cols :: "csv_col list" where
  "long_cols = [\<lparr>col_qtype = SC, col_trim = False, col_load = True, col_nulls = False, col_width = 3\<rparr>]"

lemma csv_long_cell_restarts_witness:
  "load_csv_seq (Some ''l.csv'') long_cols (Some ''comma'') 2 4 BL False long_csv =
    (Inr (), long_csv\<lparr>
       f_data := data_after (csv_args_of (''abcde'' @ [eoln] @ ''x'' @ [eoln]) long_cols (Some ''comma'') 2 4 BL) 0
         (replicate 2 [CStr (take (4 - 1) ''abcde'')]) (f_data long_csv),
       f_nn := nn_after (csv_args_of (''abcde'' @ [eoln] @ ''x'' @ [eoln]) long_cols (Some ''comma'') 2 4 BL) 0
         (replicate 2 [CStr (take (4 - 1) ''abcde'')]) (f_nn long_csv),
       f_nR := 2, f_offset := 0\<rparr>)"
proof (rule csv_long_cell_restarts)
  show "long_first (csv_args_of (''abcde'' @ [eoln] @ ''x'' @ [eoln]) long_cols (Some ''comma'') 2 4 BL) ''abcde''"
    by (simp add: long_first_def csv_args_of_def demo_comma long_cols_def plain_def special_chars)
qed (simp_all add: data_room_def nn_room_def long_csv_def long_cols_def elem_w_def)

end
