(* ===== verification/Csv_Trip.thy ===== *)
theory Csv_Trip
  imports Csv_Print Csv_Thms
begin

text \<open>
  From columns to a file and back: what \<open>cprint\<close> writes of columns of integers, booleans, strings and nulls,
  \<open>load_csv_seq\<close> reads as the same columns; floating-point numbers are printed with too few digits for that.
\<close>

subsection \<open>Bytes of numbers and strings\<close>

lemma le_bytes_Suc: "le_bytes (Suc k) z = word_of_int z # le_bytes k (z div 256)"
proof -
  have "z div 256 ^ Suc i = z div 256 div 256 ^ i" for i
    by (simp add: zdiv_zmult2_eq)
  then show ?thesis by (simp add: le_bytes_def upt_conv_Cons map_Suc_upt [symmetric] del: upt_Suc power_Suc)
qed

lemma le_val_le_bytes: "le_val (le_bytes k z) = z mod 256 ^ k"
proof (induction k arbitrary: z)
  case 0
  show ?case by (simp add: le_val_def le_bytes_def)
next
  case (Suc k)
  have "le_val (le_bytes (Suc k) z) = z mod 256 + 256 * (z div 256 mod 256 ^ k)"
    using Suc by (simp add: le_bytes_Suc le_val_def uint_word_of_int)
  also have "\<dots> = z mod (256 * 256 ^ k)" by (simp add: zmod_zmult2_eq)
  finally show ?case by simp
qed

text \<open>The elements of a column: \<open>i\<close> elements of width \<open>w\<close> stand before the one that is read.\<close>

lemma read_uint_elem: "length P = i * w \<Longrightarrow> read_uint (P @ le_bytes w z @ S) (i * w) w = Inr (z mod 256 ^ w)"
  by (simp add: read_uint_def le_val_le_bytes)

lemma read_uint_byte: "length P = i \<Longrightarrow> read_uint (P @ le_bytes (Suc 0) z @ S) i (Suc 0) = Inr (z mod 256)"
  using read_uint_elem [of P i 1] by simp

lemma signed_mod:
  assumes "- (2 ^ (8 * k - 1)) \<le> (z :: int)" "z < 2 ^ (8 * k - 1)" "0 < k"
  shows "(if 2 ^ (8 * k - 1) \<le> z mod 256 ^ k then z mod 256 ^ k - 2 ^ (8 * k) else z mod 256 ^ k) = z"
proof -
  have p: "(256 :: int) ^ k = 2 ^ (8 * k)" by (simp add: power_mult)
  have h: "(2 :: int) ^ (8 * k) = 2 * 2 ^ (8 * k - 1)"
    using assms(3) by (cases "8 * k") simp_all
  show ?thesis
  proof (cases "0 \<le> z")
    case True
    then have "z mod 256 ^ k = z" using assms p h by (intro mod_pos_pos_trivial) auto
    with assms show ?thesis by simp
  next
    case False
    then have "(z + 256 ^ k) mod 256 ^ k = z + 256 ^ k" using assms p h by (intro mod_pos_pos_trivial) auto
    with False assms p h show ?thesis by simp
  qed
qed

lemma read_int_elem:
  "length P = i * w \<Longrightarrow> 0 < w \<Longrightarrow> - (2 ^ (8 * w - 1)) \<le> z \<Longrightarrow> z < 2 ^ (8 * w - 1) \<Longrightarrow>
     read_int (P @ le_bytes w z @ S) (i * w) w = Inr z"
  using signed_mod [of w z] by (simp add: read_int_def read_uint_elem)

lemma of_char_byte [simp]: "char_of (unat (of_char c :: byte)) = c"
proof -
  have "(of_char c :: byte) = of_nat (of_char c)" by (simp only: of_nat_of_char)
  moreover have "(of_char c :: nat) < 256" 
    using of_char_mod_256 [of c, where ?'a = nat] mod_less_divisor [of 256 "of_char c"] by simp
  ultimately have "unat (of_char c :: byte) = of_char c" by (simp add: unat_of_nat take_bit_eq_mod)
  then show ?thesis by simp
qed

lemma of_char_byte_0 [simp]: "(of_char c :: byte) = 0 \<longleftrightarrow> c = NUL"
  by (metis of_char_NUL of_char_byte)

text \<open>What the printer makes of a string: only quotes and backslashes are escaped.\<close>

definition print_escape :: "string \<Rightarrow> string" where
  "print_escape s = concat (map (\<lambda>c. if c = bslash \<or> c = dquote then [bslash, c] else [c]) s)"

lemma quoted_print_escape: "quoted s (print_escape s)"
  by (induction s) (auto simp: print_escape_def intro: quoted.intros)

lemma emit_sc_string:
  "NUL \<notin> set s \<Longrightarrow> length s \<le> w \<Longrightarrow>
     emit_sc False (map of_char (pad w s) @ S) w o' = (Inr (), o' @ print_escape s)"
proof (induction s arbitrary: w o')
  case Nil
  show ?case by (cases w) (simp_all add: pad_def print_escape_def ret_def)
next
  case (Cons c s)
  obtain w' where w: "w = Suc w'" using Cons.prems by (cases w) auto
  have p: "map of_char (pad w (c # s)) @ S = of_char c # (map of_char (pad w' s) @ S)" by (simp add: w pad_def)
  let ?e = "if c = bslash \<or> c = dquote then [bslash, c] else [c]"
  have ne: "\<not> (of_char c :: byte) = 0" using Cons.prems by auto
  have "emit_sc False (map of_char (pad w (c # s)) @ S) w o' = emit_sc False (map of_char (pad w' s) @ S) w' (o' @ ?e)"
    unfolding p unfolding w emit_sc.simps using ne by (auto simp: emit_def Let_def)
  then show ?case using Cons.IH [of w'] Cons.prems w by (simp add: print_escape_def)
qed

subsection \<open>The text of a table\<close>

definition print_value :: "cval \<Rightarrow> string" where
  "print_value v = (case v of CNull \<Rightarrow> [dquote, dquote] | CStr s \<Rightarrow> dquote # print_escape s @ [dquote] | _ \<Rightarrow> cv_text v)"

lemma print_value_cell: "cv_typed c v \<Longrightarrow> cell_text CHR '','' (cv_text v) (print_value v)"
proof (cases v)
  case (CInt z)
  have "c \<noteq> CHR '','' \<and> c \<noteq> eoln \<and> c \<noteq> bslash \<and> c \<noteq> dquote" if "c \<in> set (dec_int z)" for c
    using dec_int_chars [OF that] by (auto simp: special_chars isdigit_def)
  moreover have "hd (dec_int z) \<in> set (dec_int z)" by (rule hd_in_set) simp
  ultimately have "plain CHR '','' (dec_int z)" unfolding plain_def by blast
  with CInt show ?thesis by (simp add: cell_text_def print_value_def)
qed (auto simp: cell_text_def print_value_def plain_def special_chars quoted_print_escape intro: quoted.intros)

text \<open>The printable columns of a table of values.\<close>

definition col_bytes :: "csv_col \<Rightarrow> nat \<Rightarrow> cval list list \<Rightarrow> byte list" where
  "col_bytes c j vss = concat (map (\<lambda>vs. cv_bytes c (vs ! j)) vss)"

definition col_flags :: "nat \<Rightarrow> cval list list \<Rightarrow> byte list" where
  "col_flags j vss = map (\<lambda>vs. of_bool (vs ! j \<noteq> CNull)) vss"

definition out_of :: "csv_col list \<Rightarrow> cval list list \<Rightarrow> nat \<Rightarrow> out_col" where
  "out_of cols vss j = \<lparr>oc_qtype = col_qtype (cols ! j), oc_width = int (elem_w (cols ! j)),
     oc_data = Some (col_bytes (cols ! j) j vss),
     oc_nn = (if col_nulls (cols ! j) then Some (col_flags j vss) else None), oc_format = None\<rparr>"

definition table_typed :: "csv_col list \<Rightarrow> cval list list \<Rightarrow> bool" where
  "table_typed cols vss \<longleftrightarrow> (\<forall>vs\<in>set vss. length vs = length cols \<and> (\<forall>j<length cols. cv_typed (cols ! j) (vs ! j))) \<and>
     (\<forall>c\<in>set cols. col_qtype c = SC \<longrightarrow> 2 \<le> col_width c)"

lemma col_bytes_split:
  assumes "table_typed cols vss" "j < length cols" "i < length vss"
  shows "\<exists>P S. col_bytes (cols ! j) j vss = P @ cv_bytes (cols ! j) (vss ! i ! j) @ S \<and> length P = i * elem_w (cols ! j)"
proof (intro exI conjI)
  let ?f = "\<lambda>vs. cv_bytes (cols ! j) (vs ! j)"
  show "col_bytes (cols ! j) j vss =
      concat (map ?f (take i vss)) @ cv_bytes (cols ! j) (vss ! i ! j) @ concat (map ?f (drop (Suc i) vss))"
    unfolding col_bytes_def by (subst id_take_nth_drop [OF assms(3)]) simp
  have "length (concat (map ?f xs)) = length xs * elem_w (cols ! j)" if "set xs \<subseteq> set vss" for xs
    using that assms(1,2) by (induction xs) (auto simp: table_typed_def length_cv_bytes)
  then show "length (concat (map ?f (take i vss))) = i * elem_w (cols ! j)"
    using assms(3) set_take_subset [of i vss] by simp
qed

subsection \<open>One cell printed\<close>

lemma print_elem_value:
  assumes t: "cv_typed c v" "v \<noteq> CNull" and nul: "NUL \<notin> set (cv_text v)" and sc: "col_qtype c = SC \<longrightarrow> 2 \<le> col_width c"
    and X: "X = P @ cv_bytes c v @ S" "length P = i * elem_w c"
  shows "print_elem False (col_qtype c) (int (elem_w c)) None X i o' = (Inr (), o' @ print_value v)"
proof (cases v)
  case CNull
  with t show ?thesis by simp
next
  case (CInt z)
  obtain lo hi where r: "int_range (col_qtype c) = Some (lo, hi)" "lo \<le> z" "z \<le> hi"
    using t CInt by (auto split: option.splits)
  have rd: "0 < elem_w c \<Longrightarrow> - (2 ^ (8 * elem_w c - 1)) \<le> z \<Longrightarrow> z < 2 ^ (8 * elem_w c - 1) \<Longrightarrow>
      read_int X (i * elem_w c) (elem_w c) = Inr z"
    unfolding X(1) CInt cv_bytes.simps by (rule read_int_elem) (use X(2) in simp_all)
  have ru: "read_uint X (i * elem_w c) (elem_w c) = Inr (z mod 256 ^ elem_w c)"
    unfolding X(1) CInt cv_bytes.simps by (rule read_uint_elem) (use X(2) in simp_all)
  show ?thesis
    using r rd ru CInt
    by (cases "col_qtype c")
       (auto simp: int_range_def print_elem_def elem_w_def get_width_c_qtype_def LLONG_MIN_def LLONG_MAX_def ULLONG_MAX_def
          emit_res_def emit_def prog_simps print_value_def)
next
  case (CBool b)
  have w: "elem_w c = Suc 0" using t CBool by (simp add: elem_w_def get_width_c_qtype_def)
  have "read_uint X i (Suc 0) = Inr (of_bool b)"
    using read_uint_elem [of P i "elem_w c" "of_bool b" S] X CBool w by simp
  with CBool t show ?thesis by (simp add: print_elem_def emit_res_def emit_def prog_simps print_value_def)
next
  case (CStr s)
  with t sc have w: "col_qtype c = SC" "elem_w c = col_width c" "2 \<le> col_width c" "length s \<le> col_width c"
    by (auto simp: elem_w_def)
  have "emit_sc False (drop (i * elem_w c) X) (elem_w c) o'' = (Inr (), o'' @ print_escape s)" for o''
    using emit_sc_string [of s "elem_w c" S o''] nul CStr X w by simp
  with w CStr show ?thesis
    by (simp add: print_elem_def seq_def emit_def prog_simps print_value_def)
qed

lemma print_cell_value:
  assumes t: "table_typed cols vss" and j: "j < length cols" and i: "i < length vss"
    and nul: "NUL \<notin> set (cv_text (vss ! i ! j))"
  shows "print_cell False i j (out_of cols vss j) o' =
    (Inr (), o' @ (if 0 < j then '','' else []) @ print_value (vss ! i ! j))"
proof -
  let ?c = "cols ! j" and ?v = "vss ! i ! j"
  have tv: "cv_typed ?c ?v" and sc: "col_qtype ?c = SC \<longrightarrow> 2 \<le> col_width ?c"
    using t j i by (auto simp: table_typed_def)
  obtain P S where X: "col_bytes ?c j vss = P @ cv_bytes ?c ?v @ S" "length P = i * elem_w ?c"
    using col_bytes_split [OF t j i] by blast
  have pe: "print_elem False (col_qtype ?c) (int (elem_w ?c)) None (col_bytes ?c j vss) i o'' = (Inr (), o'' @ print_value ?v)"
    if "?v \<noteq> CNull" for o''
    by (rule print_elem_value [OF tv that nul sc X])
  have fl: "read_uint (col_flags j vss) i 1 = Inr (of_bool (?v \<noteq> CNull))"
    using i by (simp add: read_uint_def col_flags_def le_val_def take_Suc_conv_app_nth drop_map take_map
        Cons_nth_drop_Suc [symmetric] del: drop_Suc_Cons)
  show ?thesis
  proof (cases "?v = CNull")
    case True
    with tv have "col_nulls ?c" by auto
    with True fl show ?thesis
      by (simp add: print_cell_def out_of_def Let_def seq_def emit_def prog_simps print_value_def)
  next
    case False
    with fl pe show ?thesis
      by (simp add: print_cell_def out_of_def Let_def seq_def emit_def prog_simps)
  qed
qed

subsection \<open>Rows and the file\<close>

lemma print_cells_values:
  assumes t: "table_typed cols vss" and i: "i < length vss" and nul: "\<forall>v\<in>set (vss ! i). NUL \<notin> set (cv_text v)"
    and j: "j < length cols"
  shows "\<exists>x. print_cells False i j (map (out_of cols vss) [j..<length cols]) o' = (Inr (), o' @ x) \<and>
    x @ [eoln] = (if 0 < j then '','' else []) @ row_line CHR '','' (map print_value (drop j (vss ! i)))"
  using j
proof (induction "length cols - j" arbitrary: j o')
  case (Suc d)
  have len: "length (vss ! i) = length cols" using t i by (simp add: table_typed_def)
  let ?p = "(if 0 < j then '','' else []) @ print_value (vss ! i ! j)"
  have c: "print_cell False i j (out_of cols vss j) o' = (Inr (), o' @ ?p)"
    by (rule print_cell_value [OF t Suc.prems i]) (use nul len Suc.prems in simp)
  have "[j..<length cols] = j # [Suc j..<length cols]" using Suc.prems by (rule upt_conv_Cons)
  then have step: "print_cells False i j (map (out_of cols vss) [j..<length cols]) o' =
      print_cells False i (Suc j) (map (out_of cols vss) [Suc j..<length cols]) (o' @ ?p)"
    by (simp add: seq_def c)
  have row: "drop j (vss ! i) = vss ! i ! j # drop (Suc j) (vss ! i)"
    using len Suc.prems by (simp add: Cons_nth_drop_Suc)
  show ?case
  proof (cases "Suc j < length cols")
    case True
    have "d = length cols - Suc j" using Suc.hyps(2) by simp
    from Suc.hyps(1) [OF this True, of "o' @ ?p"] obtain x where
      x: "print_cells False i (Suc j) (map (out_of cols vss) [Suc j..<length cols]) (o' @ ?p) = (Inr (), (o' @ ?p) @ x)"
      "x @ [eoln] = '','' @ row_line CHR '','' (map print_value (drop (Suc j) (vss ! i)))"
      by auto
    have "map print_value (drop (Suc j) (vss ! i)) \<noteq> []" using True len by simp
    with x show ?thesis unfolding step row by (intro exI [of _ "?p @ x"]) (simp add: row_line_Cons)
  next
    case False
    with len have e: "map (out_of cols vss) [Suc j..<length cols] = []" "drop (Suc j) (vss ! i) = []" by simp_all
    show ?thesis unfolding step row e by (intro exI [of _ ?p]) (simp add: ret_def)
  qed
qed simp

lemma print_row_values:
  assumes "table_typed cols vss" "i < length vss" "\<forall>v\<in>set (vss ! i). NUL \<notin> set (cv_text v)" "cols \<noteq> []"
  shows "print_row False (map (out_of cols vss) [0..<length cols]) i o' =
    (Inr (), o' @ row_line CHR '','' (map print_value (vss ! i)))"
proof -
  obtain x where "print_cells False i 0 (map (out_of cols vss) [0..<length cols]) o' = (Inr (), o' @ x)"
      "x @ [eoln] = row_line CHR '','' (map print_value (vss ! i))"
    using print_cells_values [OF assms(1-3), of 0 o'] assms(4) by auto
  then show ?thesis by (simp add: print_row_def seq_def emit_def prog_simps)
qed

lemma print_rows_values:
  assumes "table_typed cols vss" "\<forall>vs\<in>set vss. \<forall>v\<in>set vs. NUL \<notin> set (cv_text v)" "cols \<noteq> []" "\<forall>i\<in>set is. i < length vss"
  shows "for_each is (print_row False (map (out_of cols vss) [0..<length cols])) o' =
    (Inr (), o' @ concat (map (\<lambda>i. row_line CHR '','' (map print_value (vss ! i))) is))"
  using assms(4)
proof (induction "is" arbitrary: o')
  case (Cons i "is")
  then have i: "i < length vss" by simp
  then have "\<forall>v\<in>set (vss ! i). NUL \<notin> set (cv_text v)" using assms(2) by (auto dest: nth_mem)
  from print_row_values [OF assms(1) i this assms(3)] Cons show ?case by (simp add: seq_def)
qed (simp add: ret_def)

definition table_csv :: "cval list list \<Rightarrow> string" where
  "table_csv vss = concat (map (row_line CHR '','') (map (map print_value) vss))"

lemma print_table_values:
  assumes "table_typed cols vss" "\<forall>vs\<in>set vss. \<forall>v\<in>set vs. NUL \<notin> set (cv_text v)" "cols \<noteq> []"
  shows "print_table False (map (out_of cols vss) [0..<length cols]) 0 (length vss) o' = (Inr (), o' @ table_csv vss)"
proof -
  have "map (\<lambda>i. row_line CHR '','' (map print_value (vss ! i))) [0..<length vss] = map (row_line CHR '','') (map (map print_value) vss)"
    by (rule nth_equalityI) simp_all
  with print_rows_values [OF assms, of "[0..<length vss]"] show ?thesis
    by (simp add: print_table_def seq_def emit_def prog_simps table_csv_def)
qed

lemma out_of_good:
  assumes "table_typed cols vss" "vss \<noteq> []" "j < length cols"
  shows "\<not> col_bad (out_of cols vss j)" "oc_data (out_of cols vss j) \<noteq> None"
proof -
  have "cv_typed (cols ! j) (hd vss ! j)" using assms by (simp add: table_typed_def)
  then show "\<not> col_bad (out_of cols vss j)"
    by (cases "hd vss ! j") (auto simp: col_bad_def out_of_def elem_w_def get_width_c_qtype_def int_range_def split: qtype.splits)
qed (simp add: out_of_def)

lemma cprint_values:
  assumes "table_typed cols vss" "\<forall>vs\<in>set vss. \<forall>v\<in>set vs. NUL \<notin> set (cv_text v)" "cols \<noteq> []" "vss \<noteq> []"
    "f \<noteq> []" "o_can_append ou f"
  shows "cprint (Some f) False False (Some (map (out_of cols vss) [0..<length cols])) 0 (length vss) ou =
    (Inr (), ou\<lparr>o_files := (o_files ou)(f \<mapsto> (case o_files ou f of None \<Rightarrow> [] | Some t \<Rightarrow> t) @ table_csv vss)\<rparr>)"
  using assms(3-6) out_of_good [OF assms(1,4)] print_table_values [OF assms(1-3)]
  by (auto simp: cprint_def seq_def prog_simps bye_if_def)

subsection \<open>Back again\<close>

lemma room_args:
  assumes "A' = csv_args_of X cols fs chunk mw nq" "A = csv_args_of Y cols fs chunk mw nq"
  shows "data_room A' D = data_room A D" "nn_room A' N = nn_room A N" "row_ok A' j vs = row_ok A j vs"
    "data_after A' r vss D = data_after A r vss D" "nn_after A' r vss N = nn_after A r vss N"
  using assms by (simp_all add: data_room_def nn_room_def row_ok_def data_after_def nn_after_def cong: option.case_cong)

lemma table_csv_not_Nil: "vss \<noteq> [] \<Longrightarrow> [] \<notin> set vss \<Longrightarrow> table_csv vss \<noteq> []"
  by (cases vss) (auto simp: table_csv_def)

lemma splice_front: "splice 0 new b = new @ drop (length new) b"
  by (simp add: splice_def)

text \<open>A float is printed with six digits after the point, which is not enough to read it back: the eight
  bytes of \<open>2 ^ -30\<close> are printed as zero, which is read as zero.\<close>

lemma floats_lose_digits:
  "print_elem False F8 8 None (le_bytes 8 (993 * 2 ^ 52)) 0 o' = (Inr (), o' @ ''0.000000'')"
  "txt_to_F8 (Some ''0.000000'') = Inr 0"
proof -
  have v: "fp_of_bits F64_fmt 64 (993 * 2 ^ 52) = Fin False (2 ^ 52) (- 82)"
    by (simp add: fp_of_bits_def F64_fmt_def Let_def)
  have "read_uint (le_bytes 8 (993 * 2 ^ 52)) 0 8 = Inr (993 * 2 ^ 52)"
    using read_uint_elem [of "[]" 0 8 "993 * 2 ^ 52" "[]"] by simp
  moreover have "fmt_f (Fin False (2 ^ 52) (- 82)) = dec_nat 0 @ ''.'' @ pad_left CHR ''0'' 6 (dec_nat 0)"
    by (simp add: fmt_f_def round_half_even_def Let_def)
  moreover have "dec_nat 0 @ ''.'' @ pad_left CHR ''0'' 6 (dec_nat 0) = ''0.000000''" by code_simp
  ultimately show "print_elem False F8 8 None (le_bytes 8 (993 * 2 ^ 52)) 0 o' = (Inr (), o' @ ''0.000000'')"
    using v by (simp add: print_elem_def emit_res_def emit_def upd_st_def)
  have "\<not> starts ''infinity'' ''0.000000''" "\<not> starts ''inf'' ''0.000000''" "\<not> starts ''nan'' ''0.000000''"
    "\<not> starts ''0x'' ''0.000000''" "base_val 10 ''0000000'' = 0"
    "scan_mant isdigit ''0.000000'' = Some (''0'', ''000000'', 8)" "takeWhile isspace ''0.000000'' = []"
    by code_simp+
  then have "strtold ''0.000000'' = (Fin False 0 (- 16445), 8)"
    by (simp add: strtold_def scan_unsigned_def scan_hex_def scan_decimal_def scan_exp_def pow_round_def fp_round_def F80_fmt_def)
  moreover have "fp_conv F64_fmt (Fin False 0 e) = Fin False 0 (- 1074)" for e
    by (simp add: fp_conv_def fp_round_def F64_fmt_def)
  ultimately show "txt_to_F8 (Some ''0.000000'') = Inr 0"
    by (simp add: txt_to_F8_def bad_end_def out_of_range_def mag_gt_def fp_bits_def Let_def)
qed

text \<open>C15. Print and load, for tables of integers, booleans, nonempty strings and nulls: \<open>cprint\<close> appends such a
  table to a file as CSV, and \<open>load_csv_seq\<close>, started where the
  table begins, reads as many rows and leaves at the front of every column's buffer the very bytes
  that were printed, and the same null flags, whatever quotes, backslashes, commas and line ends the
  strings contain, and whatever the file held before.  Floating-point and time values are not values of these
  tables (\<open>cval\<close>): six digits of a fraction do not give a float back (\<open>floats_lose_digits\<close>).\<close>

theorem csv_print_load_roundtrip:
  assumes table: "cols \<noteq> []" "vss \<noteq> []" "table_typed cols vss"
    and args: "length vss \<le> chunk" "chunk < 2 ^ 32" "0 < mw" "mw \<le> 65536" "A = csv_args_of [] cols (Some ''comma'') chunk mw BL"
    and rows: "\<forall>vs\<in>set vss. row_ok A 0 vs" "\<forall>vs\<in>set vss. \<forall>v\<in>set vs. NUL \<notin> set (cv_text v)"
    and out: "f \<noteq> []" "o_can_append ou f"
    and room: "data_room A (f_data s)" "nn_room A (f_nn s)" "f_can_malloc s"
      "f_offset s = length (case o_files ou f of None \<Rightarrow> [] | Some t \<Rightarrow> t)"
  shows "\<exists>o' s'. cprint (Some f) False False (Some (map (out_of cols vss) [0..<length cols])) 0 (length vss) ou = (Inr (), o') \<and>
    load_csv_seq (Some f) cols (Some ''comma'') chunk mw BL False (s\<lparr>f_files := o_files o'\<rparr>) = (Inr (), s') \<and>
    f_nR s' = length vss \<and>
    (\<forall>j<length cols.
      (f_data s ! j \<noteq> None \<longrightarrow> (\<exists>rest. f_data s' ! j = Some (the (oc_data (out_of cols vss j)) @ rest))) \<and>
      (f_nn s ! j \<noteq> None \<longrightarrow> (\<exists>rest. f_nn s' ! j = Some (the (oc_nn (out_of cols vss j)) @ rest))))"
proof -
  let ?old = "case o_files ou f of None \<Rightarrow> [] | Some t \<Rightarrow> t"
  let ?o = "ou\<lparr>o_files := (o_files ou)(f \<mapsto> ?old @ table_csv vss)\<rparr>"
  let ?s = "s\<lparr>f_files := o_files ?o\<rparr>" and ?X = "?old @ table_csv vss"
  let ?A = "csv_args_of ?X cols (Some ''comma'') chunk mw BL"
  let ?s' = "?s\<lparr>f_data := data_after A 0 vss (f_data s), f_nn := nn_after A 0 vss (f_nn s), f_nR := length vss,
     f_offset := length ?old + length (table_csv vss)\<rparr>"
  note same = room_args [OF refl [of ?A] args(5)]
  have ne: "[] \<notin> set vss" using table by (auto simp: table_typed_def)
  have cells: "list_all2 (list_all2 (\<lambda>v t. cell_text CHR '','' (cv_text v) t)) vss (map (map print_value) vss)"
  proof (rule list_all2_all_nthI)
    fix i assume i: "i < length vss"
    then have "length (vss ! i) = length cols" "\<forall>j<length cols. cv_typed (cols ! j) (vss ! i ! j)"
      using table(3) by (auto simp: table_typed_def)
    with i show "list_all2 (\<lambda>v t. cell_text CHR '','' (cv_text v) t) (vss ! i) (map (map print_value) vss ! i)"
      by (auto simp: list_all2_conv_all_nth intro: print_value_cell)
  qed simp
  have load: "load_csv_seq (Some f) cols (Some ''comma'') chunk mw BL False ?s =
      (Inr (), ?s\<lparr>f_data := data_after ?A 0 (take chunk vss) (f_data ?s), f_nn := nn_after ?A 0 (take chunk vss) (f_nn ?s),
        f_nR := min chunk (length vss), f_offset := length ?old + length ([] :: string) +
          length (concat (map (row_line CHR '','') (take chunk (map (map print_value) vss))))\<rparr>)"
  proof (rule csv_load_stores_table [where X = ?X])
    show "?X = ?old @ [] @ concat (map (row_line CHR '','') (map (map print_value) vss))" by (simp add: table_csv_def)
    show "?X \<noteq> []" using table_csv_not_Nil [OF table(2) ne] by simp
    show "0 < chunk" using table(2) args(1) by (cases vss) auto
    show "header_text ?A False ?old []" by (simp add: header_text_def)
  qed (use out table args rows room cells demo_comma same in simp_all)
  have "cprint (Some f) False False (Some (map (out_of cols vss) [0..<length cols])) 0 (length vss) ou = (Inr (), ?o)"
    by (rule cprint_values) (use table rows out in auto)
  moreover have "load_csv_seq (Some f) cols (Some ''comma'') chunk mw BL False (s\<lparr>f_files := o_files ?o\<rparr>) = (Inr (), ?s')"
    using load args(1) same by (simp add: table_csv_def)
  moreover have "f_nR ?s' = length vss" by simp
  moreover have "\<forall>j<length cols.
      (f_data s ! j \<noteq> None \<longrightarrow> (\<exists>rest. f_data ?s' ! j = Some (the (oc_data (out_of cols vss j)) @ rest))) \<and>
      (f_nn s ! j \<noteq> None \<longrightarrow> (\<exists>rest. f_nn ?s' ! j = Some (the (oc_nn (out_of cols vss j)) @ rest)))"
    using room(2) args(5)
    by (auto simp: data_after_def nn_after_def out_of_def col_bytes_def col_flags_def splice_front nn_room_def Let_def
        split: option.splits)
  ultimately show ?thesis by blast
qed

definition demo_out :: outst where
  "demo_out = \<lparr>o_files = [''t.csv'' \<mapsto> ''x'' @ [eoln]], o_can_append = (\<lambda>f. f = ''t.csv''), o_stdout = []\<rparr>"

lemma demo_rows_ok: "\<forall>vs\<in>set demo_values. row_ok (csv_args_of [] demo_cols (Some ''comma'') 4 8 BL) 0 vs"
  by (simp add: demo_values_def row_ok_def demo_cols_def cv_ok_def fits_def dec_int_57 int_range_def special_chars
      less_Suc_eq numeral_2_eq_2)

lemma csv_print_load_roundtrip_witness:
  "\<exists>o' s'. cprint (Some ''t.csv'') False False (Some (map (out_of demo_cols demo_values) [0..<length demo_cols])) 0
      (length demo_values) demo_out = (Inr (), o') \<and>
    load_csv_seq (Some ''t.csv'') demo_cols (Some ''comma'') 4 8 BL False (demo_csv\<lparr>f_offset := 2, f_files := o_files o'\<rparr>) = (Inr (), s') \<and>
    f_nR s' = length demo_values \<and>
    (\<forall>j<length demo_cols.
      (f_data (demo_csv\<lparr>f_offset := 2\<rparr>) ! j \<noteq> None \<longrightarrow>
        (\<exists>rest. f_data s' ! j = Some (the (oc_data (out_of demo_cols demo_values j)) @ rest))) \<and>
      (f_nn (demo_csv\<lparr>f_offset := 2\<rparr>) ! j \<noteq> None \<longrightarrow>
        (\<exists>rest. f_nn s' ! j = Some (the (oc_nn (out_of demo_cols demo_values j)) @ rest))))"
proof (rule csv_print_load_roundtrip [where A = "csv_args_of [] demo_cols (Some ''comma'') 4 8 BL" and s = "demo_csv\<lparr>f_offset := 2\<rparr>"])
  show "table_typed demo_cols demo_values"
    by (simp add: table_typed_def demo_cols_def demo_values_def int_range_def less_Suc_eq)
  show "\<forall>vs\<in>set demo_values. row_ok (csv_args_of [] demo_cols (Some ''comma'') 4 8 BL) 0 vs" by (rule demo_rows_ok)
  show "\<forall>vs\<in>set demo_values. \<forall>v\<in>set vs. NUL \<notin> set (cv_text v)"
    by (simp add: demo_values_def dec_int_57 special_chars)
  show "data_room (csv_args_of [] demo_cols (Some ''comma'') 4 8 BL) (f_data (demo_csv\<lparr>f_offset := 2\<rparr>))"
    "nn_room (csv_args_of [] demo_cols (Some ''comma'') 4 8 BL) (f_nn (demo_csv\<lparr>f_offset := 2\<rparr>))"
    by (simp_all add: data_room_def nn_room_def demo_cols_def demo_csv_def elem_w_def get_width_c_qtype_def less_Suc_eq)
qed (simp_all add: demo_cols_def demo_values_def demo_out_def demo_csv_def)

end
