(* ===== verification/Sort_Quick.thy ===== *)
theory Sort_Quick
  imports Prelude
begin

text \<open>
  The quicksort of the sort operator, \<open>OPERATORS/F_IN_PLACE/src/qsort_asc_I4.c\<close>, and the instances of
  the same code for other element types.  The state is the array; a pointer into it is the index of
  the element, and a read or write outside of the array is undefined behaviour.  The comparison
  \<open>lt\<close> is the \<open><\<close> of the element type.
\<close>

subsection \<open>Elements\<close>

type_synonym ('a, 'b) arr = "('a list, 'b) prog"

text \<open>\<open>*i < *j\<close>\<close>

definition lt_at :: "('a \<Rightarrow> 'a \<Rightarrow> bool) \<Rightarrow> nat \<Rightarrow> nat \<Rightarrow> ('a, bool) arr" where
  "lt_at lt i j xs =
    (if i < length xs \<and> j < length xs then (Inr (lt (xs ! i) (xs ! j)), xs) else (Inl Undef, xs))"

text \<open>\<open>SWAP\<close>\<close>

definition swap_at :: "nat \<Rightarrow> nat \<Rightarrow> ('a, unit) arr" where
  "swap_at i j xs =
    (if i < length xs \<and> j < length xs then (Inr (), xs[i := xs ! j, j := xs ! i]) else (Inl Undef, xs))"

subsection \<open>Partition\<close>

definition MAX_THRESH :: nat where "MAX_THRESH = 4"

text \<open>The median of the first, middle and last element goes to the middle.\<close>

definition median3 :: "('a \<Rightarrow> 'a \<Rightarrow> bool) \<Rightarrow> nat \<Rightarrow> nat \<Rightarrow> nat \<Rightarrow> ('a, unit) arr" where
  "median3 lt lo mid hi =
    seq (lt_at lt mid lo) (\<lambda>b. seq (if b then swap_at mid lo else ret ()) (\<lambda>_.
    seq (lt_at lt hi mid) (\<lambda>b.
      if b then seq (swap_at mid hi) (\<lambda>_. seq (lt_at lt mid lo) (\<lambda>b. if b then swap_at mid lo else ret ()))
      else ret ())))"

text \<open>The two inner loops.\<close>

function scan_up :: "('a \<Rightarrow> 'a \<Rightarrow> bool) \<Rightarrow> nat \<Rightarrow> nat \<Rightarrow> ('a, nat) arr" where
  "scan_up lt mid l xs =
    (if l < length xs \<and> mid < length xs
     then if lt (xs ! l) (xs ! mid) then scan_up lt mid (Suc l) xs else (Inr l, xs)
     else (Inl Undef, xs))"
  by pat_completeness auto
termination by (relation "measure (\<lambda>(lt, mid, l, xs). length xs - l)") auto

fun scan_down :: "('a \<Rightarrow> 'a \<Rightarrow> bool) \<Rightarrow> nat \<Rightarrow> nat \<Rightarrow> ('a, nat) arr" where
  "scan_down lt mid r xs =
    (if r < length xs \<and> mid < length xs
     then if lt (xs ! mid) (xs ! r)
          then (case r of 0 \<Rightarrow> (Inl Undef, xs) | Suc r' \<Rightarrow> scan_down lt mid r' xs)
          else (Inr r, xs)
     else (Inl Undef, xs))"

declare scan_up.simps [simp del] scan_down.simps [simp del]

text \<open>The loop \<open>do ... while ( left_ptr <= right_ptr )\<close>, for at most \<open>k\<close> rounds.\<close>

primrec collapse :: "nat \<Rightarrow> ('a \<Rightarrow> 'a \<Rightarrow> bool) \<Rightarrow> nat \<Rightarrow> nat \<Rightarrow> nat \<Rightarrow> ('a, nat \<times> nat) arr" where
  "collapse 0 lt mid l r = stop Diverges"
| "collapse (Suc k) lt mid l r =
    seq (scan_up lt mid l) (\<lambda>l. seq (scan_down lt mid r) (\<lambda>r.
      if l < r
      then seq (swap_at l r) (\<lambda>_.
        let mid = (if mid = l then r else if mid = r then l else mid)
        in if l + 1 \<le> r - 1 then collapse k lt mid (l + 1) (r - 1) else ret (l + 1, r - 1))
      else if l = r then ret (l + 1, r - 1)
      else ret (l, r)))"

definition split_part :: "('a \<Rightarrow> 'a \<Rightarrow> bool) \<Rightarrow> nat \<Rightarrow> nat \<Rightarrow> ('a, nat \<times> nat) arr" where
  "split_part lt lo hi =
    (let mid = lo + (hi - lo) div 2 in
     seq (median3 lt lo mid hi) (\<lambda>_. collapse (hi - lo) lt mid (lo + 1) (hi - 1)))"

subsection \<open>The stack\<close>

text \<open>The pair of null pointers at the bottom is left out: \<open>None\<close> is the end of the loop, after
  that pair was popped.  A \<open>PUSH\<close> on a full stack writes behind its end.\<close>

definition STACK_SIZE :: nat where "STACK_SIZE = 64"

type_synonym pending = "nat \<times> nat \<times> (nat \<times> nat) list"

definition pop_part :: "(nat \<times> nat) list \<Rightarrow> ('a, pending option) arr" where
  "pop_part st = (case st of [] \<Rightarrow> ret None | (lo, hi) # st \<Rightarrow> ret (Some (lo, hi, st)))"

definition push_part :: "nat \<times> nat \<Rightarrow> nat \<Rightarrow> nat \<Rightarrow> (nat \<times> nat) list \<Rightarrow> ('a, pending option) arr" where
  "push_part p lo hi st = seq (undef_if (STACK_SIZE \<le> Suc (length st))) (\<lambda>_. ret (Some (lo, hi, p # st)))"

text \<open>A difference of pointers, cast to \<open>size_t\<close>, is at most the threshold.\<close>

definition small_part :: "nat \<Rightarrow> nat \<Rightarrow> bool" where
  "small_part lo hi \<longleftrightarrow> lo \<le> hi \<and> hi - lo \<le> MAX_THRESH"

definition next_part :: "nat \<Rightarrow> nat \<Rightarrow> nat \<Rightarrow> nat \<Rightarrow> (nat \<times> nat) list \<Rightarrow> ('a, pending option) arr" where
  "next_part lo hi l r st =
    (if small_part lo r
     then if small_part l hi then pop_part st else ret (Some (l, hi, st))
     else if small_part l hi then ret (Some (lo, r, st))
     else if int hi - int l < int r - int lo then push_part (lo, r) l hi st
     else push_part (l, hi) lo r st)"

primrec qs_loop :: "nat \<Rightarrow> ('a \<Rightarrow> 'a \<Rightarrow> bool) \<Rightarrow> nat \<Rightarrow> nat \<Rightarrow> (nat \<times> nat) list \<Rightarrow> ('a, unit) arr" where
  "qs_loop 0 lt lo hi st = stop Diverges"
| "qs_loop (Suc k) lt lo hi st =
    seq (split_part lt lo hi) (\<lambda>(l, r). seq (next_part lo hi l r st) (\<lambda>p.
      case p of None \<Rightarrow> ret () | Some (lo, hi, st) \<Rightarrow> qs_loop k lt lo hi st))"

subsection \<open>Insertion sort\<close>

text \<open>The index of the smallest element up to the threshold.\<close>

definition find_min :: "('a \<Rightarrow> 'a \<Rightarrow> bool) \<Rightarrow> nat \<Rightarrow> ('a, nat) arr" where
  "find_min lt n = for_fold [1..<Suc (min (n - 1) MAX_THRESH)] 0
     (\<lambda>run tmp. seq (lt_at lt run tmp) (\<lambda>b. ret (if b then run else tmp)))"

text \<open>The element at \<open>hi\<close> goes to \<open>lo\<close>, the ones before it move up.  The code does this for
  the last byte of the elements, then for the one before it, and so on, each byte by this loop.\<close>

fun shift_up :: "nat \<Rightarrow> nat \<Rightarrow> 'a list \<Rightarrow> 'a list" where
  "shift_up lo 0 xs = xs"
| "shift_up lo (Suc hi) xs = (if lo \<le> hi then shift_up lo hi (xs[Suc hi := xs ! hi]) else xs)"

definition move_down :: "nat \<Rightarrow> nat \<Rightarrow> ('a, unit) arr" where
  "move_down lo hi xs =
    (if lo \<le> hi \<and> hi < length xs then (Inr (), (shift_up lo hi xs)[lo := xs ! hi]) else (Inl Undef, xs))"

text \<open>The loop that looks for the place of the element at \<open>run\<close> is that of \<open>scan_down\<close>.
  \<open>limit\<close>: where the code keeps the position of an element in a signed integer, the first position
  that does not fit; the access at the converted position is out of bounds.\<close>

definition insert_at :: "('a \<Rightarrow> 'a \<Rightarrow> bool) \<Rightarrow> nat option \<Rightarrow> nat \<Rightarrow> ('a, unit) arr" where
  "insert_at lt limit run =
    seq (undef_if (case limit of None \<Rightarrow> False | Some L \<Rightarrow> L \<le> run)) (\<lambda>_.
    seq (scan_down lt run (run - 1)) (\<lambda>tmp. if tmp + 1 \<noteq> run then move_down (tmp + 1) run else ret ()))"

definition insertion :: "('a \<Rightarrow> 'a \<Rightarrow> bool) \<Rightarrow> nat option \<Rightarrow> nat \<Rightarrow> ('a, unit) arr" where
  "insertion lt limit n =
    seq (find_min lt n) (\<lambda>tmp. seq (if tmp \<noteq> 0 then swap_at tmp 0 else ret ()) (\<lambda>_.
      for_each [2..<n] (insert_at lt limit)))"

subsection \<open>The whole sort\<close>

text \<open>\<open>2 * n\<close> rounds are enough for the stack of partitions.\<close>

definition gnu_qsort :: "('a \<Rightarrow> 'a \<Rightarrow> bool) \<Rightarrow> nat option \<Rightarrow> nat \<Rightarrow> ('a, unit) arr" where
  "gnu_qsort lt limit n =
    (if n = 0 then ret ()
     else steps [if MAX_THRESH < n then qs_loop (2 * n) lt 0 (n - 1) [] else ret (), insertion lt limit n])"

end
