(* ===== verification/Sort_Part.thy ===== *)
theory Sort_Part
  imports Sort_Quick "HOL-Library.Multiset"
begin

text \<open>
  One round of the quicksort: the median, the two scans and the exchange loop stay inside of their
  part of the array, end, permute it, and divide it at a pivot.
\<close>

text \<open>What the sort needs of the comparison, on the elements that occur.\<close>

locale sort_order =
  fixes lt :: "'a \<Rightarrow> 'a \<Rightarrow> bool" and A :: "'a set"
  assumes lt_asym: "a \<in> A \<Longrightarrow> b \<in> A \<Longrightarrow> lt a b \<Longrightarrow> \<not> lt b a"
    and nlt_trans: "a \<in> A \<Longrightarrow> b \<in> A \<Longrightarrow> c \<in> A \<Longrightarrow> \<not> lt a b \<Longrightarrow> \<not> lt b c \<Longrightarrow> \<not> lt a c"

subsection \<open>Permutations of a part\<close>

definition perm_in :: "nat \<Rightarrow> nat \<Rightarrow> 'a list \<Rightarrow> 'a list \<Rightarrow> bool" where
  "perm_in lo hi xs ys \<longleftrightarrow> length ys = length xs \<and> mset ys = mset xs \<and>
     (\<forall>i<length xs. i < lo \<or> hi < i \<longrightarrow> ys ! i = xs ! i) \<and>
     (\<forall>j. lo \<le> j \<and> j \<le> hi \<longrightarrow> (\<exists>i. lo \<le> i \<and> i \<le> hi \<and> ys ! i = xs ! j))"

lemma perm_in_refl [simp]: "perm_in lo hi xs xs"
  by (auto simp: perm_in_def)

lemma perm_in_trans: "perm_in lo hi xs ys \<Longrightarrow> perm_in lo hi ys zs \<Longrightarrow> perm_in lo hi xs zs"
  unfolding perm_in_def by (metis (no_types, lifting))

lemma perm_in_mono:
  assumes "perm_in lo hi xs ys" "lo' \<le> lo" "hi \<le> hi'" "hi' < length xs"
  shows "perm_in lo' hi' xs ys"
  unfolding perm_in_def
proof (intro conjI allI impI)
  fix j assume j: "lo' \<le> j \<and> j \<le> hi'"
  show "\<exists>i. lo' \<le> i \<and> i \<le> hi' \<and> ys ! i = xs ! j"
  proof (cases "lo \<le> j \<and> j \<le> hi")
    case True
    then obtain i where "lo \<le> i" "i \<le> hi" "ys ! i = xs ! j" using assms(1) unfolding perm_in_def by blast
    with assms(2,3) show ?thesis by (meson le_trans)
  next
    case False
    with assms(1,4) j have "ys ! j = xs ! j" unfolding perm_in_def by (meson le_less_trans not_less)
    with j show ?thesis by blast
  qed
qed (use assms in \<open>auto simp: perm_in_def\<close>)

lemma perm_inD:
  assumes "perm_in lo hi xs ys"
  shows "length ys = length xs" "mset ys = mset xs" "set ys = set xs"
    "i < length xs \<Longrightarrow> i < lo \<or> hi < i \<Longrightarrow> ys ! i = xs ! i"
  using assms mset_eq_setD [of ys xs] by (auto simp: perm_in_def)

lemma swap_at_run:
  assumes "lo \<le> i" "i \<le> hi" "lo \<le> j" "j \<le> hi" "hi < length xs"
  obtains ys where "swap_at i j xs = (Inr (), ys)" "perm_in lo hi xs ys"
    "ys ! i = xs ! j" "ys ! j = xs ! i" "\<And>k. k \<noteq> i \<Longrightarrow> k \<noteq> j \<Longrightarrow> ys ! k = xs ! k"
proof
  let ?ys = "xs[i := xs ! j, j := xs ! i]"
  have len: "i < length xs" "j < length xs" using assms by auto
  then show "swap_at i j xs = (Inr (), ?ys)" by (simp add: swap_at_def)
  show ij: "?ys ! i = xs ! j" "?ys ! j = xs ! i" and k: "\<And>k. k \<noteq> i \<Longrightarrow> k \<noteq> j \<Longrightarrow> ?ys ! k = xs ! k"
    using len by (simp_all add: nth_list_update)
  have "mset ?ys = mset xs" by (rule mset_swap [OF len(2,1)])
  moreover have "\<exists>i'. lo \<le> i' \<and> i' \<le> hi \<and> ?ys ! i' = xs ! k" if "lo \<le> k \<and> k \<le> hi" for k
    using ij k [of k] that assms by metis
  ultimately show "perm_in lo hi xs ?ys"
    using assms len by (simp add: perm_in_def nth_list_update)
qed

lemma seq_lt_at [simp]:
  "i < length xs \<Longrightarrow> j < length xs \<Longrightarrow> seq (lt_at lt i j) f xs = f (lt (xs ! i) (xs ! j)) xs"
  by (simp add: seq_def lt_at_def)

subsection \<open>The scans\<close>

lemma scan_up_run:
  assumes "l \<le> j" "j < length xs" "mid < length xs" "\<not> lt (xs ! j) (xs ! mid)"
  obtains l' where "scan_up lt mid l xs = (Inr l', xs)" "l \<le> l'" "l' \<le> j" "\<not> lt (xs ! l') (xs ! mid)"
    "\<And>i. l \<le> i \<Longrightarrow> i < l' \<Longrightarrow> lt (xs ! i) (xs ! mid)"
  using assms
proof (induction "j - l" arbitrary: l thesis)
  case 0
  then have "scan_up lt mid l xs = (Inr l, xs)" by (simp add: scan_up.simps [of lt mid l])
  with 0 show ?case by auto
next
  case (Suc d)
  show ?case
  proof (cases "lt (xs ! l) (xs ! mid)")
    case False
    with Suc.prems have "scan_up lt mid l xs = (Inr l, xs)" by (simp add: scan_up.simps [of lt mid l])
    with False Suc.prems show ?thesis by auto
  next
    case True
    with Suc.prems have eq: "scan_up lt mid l xs = scan_up lt mid (Suc l) xs" and le: "Suc l \<le> j"
      by (simp_all add: scan_up.simps [of lt mid l]) (metis Suc_leI le_neq_implies_less)
    have "d = j - Suc l" using Suc.hyps(2) by simp
    from Suc.hyps(1) [OF this _ le Suc.prems(3-5)] obtain l' where
      "scan_up lt mid (Suc l) xs = (Inr l', xs)" "Suc l \<le> l'" "l' \<le> j" "\<not> lt (xs ! l') (xs ! mid)"
      "\<And>i. Suc l \<le> i \<Longrightarrow> i < l' \<Longrightarrow> lt (xs ! i) (xs ! mid)" by metis
    with True eq show ?thesis by (intro Suc.prems(1) [of l']) (auto simp: le_eq_less_or_eq [of l])
  qed
qed

lemma scan_down_run:
  assumes "j \<le> r" "r < length xs" "mid < length xs" "\<not> lt (xs ! mid) (xs ! j)"
  obtains r' where "scan_down lt mid r xs = (Inr r', xs)" "j \<le> r'" "r' \<le> r" "\<not> lt (xs ! mid) (xs ! r')"
    "\<And>i. r' < i \<Longrightarrow> i \<le> r \<Longrightarrow> lt (xs ! mid) (xs ! i)"
  using assms
proof (induction r arbitrary: thesis)
  case 0
  then have "scan_down lt mid 0 xs = (Inr 0, xs)" by (simp add: scan_down.simps [of lt mid 0])
  with 0 show ?case by auto
next
  case (Suc r)
  show ?case
  proof (cases "lt (xs ! mid) (xs ! Suc r)")
    case False
    with Suc.prems have "scan_down lt mid (Suc r) xs = (Inr (Suc r), xs)" by (simp add: scan_down.simps [of lt mid "Suc r"])
    with False Suc.prems show ?thesis by auto
  next
    case True
    with Suc.prems have eq: "scan_down lt mid (Suc r) xs = scan_down lt mid r xs" and le: "j \<le> r"
      by (simp_all add: scan_down.simps [of lt mid "Suc r"]) (metis le_Suc_eq)
    from Suc.IH [OF _ le] Suc.prems obtain r' where
      "scan_down lt mid r xs = (Inr r', xs)" "j \<le> r'" "r' \<le> r" "\<not> lt (xs ! mid) (xs ! r')"
      "\<And>i. r' < i \<Longrightarrow> i \<le> r \<Longrightarrow> lt (xs ! mid) (xs ! i)" by (metis Suc_lessD)
    with True eq show ?thesis by (intro Suc.prems(1) [of r']) (auto simp: le_Suc_eq)
  qed
qed

subsection \<open>The exchange loop\<close>

text \<open>What the loop knows: the elements it passed on the left are at most the pivot, those on the right
  at least the pivot, and \<open>mid\<close> is where the pivot is.\<close>

definition walls :: "('a \<Rightarrow> 'a \<Rightarrow> bool) \<Rightarrow> nat \<Rightarrow> nat \<Rightarrow> 'a \<Rightarrow> nat \<Rightarrow> nat \<Rightarrow> 'a list \<Rightarrow> bool" where
  "walls lt lo hi p l r xs \<longleftrightarrow> lo < l \<and> r < hi \<and> hi < length xs \<and>
     (\<forall>i. lo \<le> i \<and> i < l \<longrightarrow> \<not> lt p (xs ! i)) \<and> (\<forall>i. r < i \<and> i \<le> hi \<longrightarrow> \<not> lt (xs ! i) p)"

definition divided :: "('a \<Rightarrow> 'a \<Rightarrow> bool) \<Rightarrow> nat \<Rightarrow> nat \<Rightarrow> 'a \<Rightarrow> nat \<Rightarrow> nat \<Rightarrow> 'a list \<Rightarrow> bool" where
  "divided lt lo hi p l r xs \<longleftrightarrow> lo \<le> r \<and> r < l \<and> l \<le> hi \<and> lo < l \<and> r < hi \<and> hi < length xs \<and>
     (\<forall>i. lo \<le> i \<and> i \<le> r \<longrightarrow> \<not> lt p (xs ! i)) \<and> (\<forall>i. r < i \<and> i \<le> hi \<longrightarrow> \<not> lt (xs ! i) p)"

context sort_order
begin

lemma lt_irrefl: "a \<in> A \<Longrightarrow> \<not> lt a a"
  using lt_asym by blast

lemma scans_run:
  assumes w: "walls lt lo hi p l r xs" and lr: "l \<le> r" and mid: "lo \<le> mid" "mid \<le> hi" "xs ! mid = p" and A: "set xs \<subseteq> A"
  obtains l' r' where "scan_up lt mid l xs = (Inr l', xs)" "scan_down lt mid r xs = (Inr r', xs)"
    "walls lt lo hi p l' r' xs" "l \<le> l'" "r' \<le> r" "l' \<le> hi" "lo \<le> r'" "l' \<le> Suc r'" "l' \<le> Suc r"
    "\<not> lt (xs ! l') p" "\<not> lt p (xs ! r')"
proof -
  have W: "lo < l" "r < hi" "hi < length xs" "\<And>i. lo \<le> i \<Longrightarrow> i < l \<Longrightarrow> \<not> lt p (xs ! i)"
    "\<And>i. r < i \<Longrightarrow> i \<le> hi \<Longrightarrow> \<not> lt (xs ! i) p"
    using w by (auto simp: walls_def)
  have inA: "xs ! i \<in> A" if "i \<le> hi" for i using A W(3) that nth_mem [of i xs] by auto
  have pA: "p \<in> A" using inA [OF mid(2)] mid(3) by simp
  have r1: "Suc r < length xs" "Suc r \<le> hi" "\<not> lt (xs ! Suc r) (xs ! mid)" using W mid by auto
  have midlen: "mid < length xs" and rlen: "r < length xs" using mid W(2,3) by linarith+
  obtain l' where l': "scan_up lt mid l xs = (Inr l', xs)" "l \<le> l'" "l' \<le> Suc r" "\<not> lt (xs ! l') (xs ! mid)"
      "\<And>i. l \<le> i \<Longrightarrow> i < l' \<Longrightarrow> lt (xs ! i) (xs ! mid)"
    by (rule scan_up_run [where xs = xs and lt = lt, OF le_SucI [OF lr] r1(1) midlen r1(3)]) blast
  have low: "\<not> lt p (xs ! i)" if "lo \<le> i" "i < l'" for i
  proof (cases "i < l")
    case False
    with that l' mid have "lt (xs ! i) p" by simp
    moreover have "i \<le> hi" using that l'(3) r1 by simp
    ultimately show ?thesis using lt_asym inA pA by blast
  qed (use W that in simp)
  have l0: "lo \<le> l' - 1" "l' - 1 \<le> r" "\<not> lt (xs ! mid) (xs ! (l' - 1))" using mid(3) W(1) l'(2,3) low [of "l' - 1"] by auto
  obtain r' where r': "scan_down lt mid r xs = (Inr r', xs)" "l' - 1 \<le> r'" "r' \<le> r" "\<not> lt (xs ! mid) (xs ! r')"
      "\<And>i. r' < i \<Longrightarrow> i \<le> r \<Longrightarrow> lt (xs ! mid) (xs ! i)"
    by (rule scan_down_run [where xs = xs and lt = lt, OF l0(2) rlen midlen l0(3)]) blast
  have high: "\<not> lt (xs ! i) p" if "r' < i" "i \<le> hi" for i
  proof (cases "i \<le> r")
    case True
    with that r' mid have "lt p (xs ! i)" by simp
    then show ?thesis using lt_asym [OF pA inA [OF that(2)]] by blast
  qed (use W that in simp)
  have "walls lt lo hi p l' r' xs"
    unfolding walls_def using W l'(2) r'(3) low high by (metis le_less_trans less_le_trans)
  with l' r' r1 l0 mid show ?thesis by (intro that [of l' r']) auto
qed

lemma collapse_run:
  assumes "walls lt lo hi p l r xs" "l \<le> r" "lo \<le> mid" "mid \<le> hi" "xs ! mid = p" "set xs \<subseteq> A" "r < l + k"
  obtains l' r' ys where "collapse k lt mid l r xs = (Inr (l', r'), ys)" "perm_in lo hi xs ys" "divided lt lo hi p l' r' ys"
  using assms
proof (induction k arbitrary: mid l r xs thesis)
  case (Suc k)
  obtain l1 r1 where s: "scan_up lt mid l xs = (Inr l1, xs)" "scan_down lt mid r xs = (Inr r1, xs)"
    "walls lt lo hi p l1 r1 xs" "l \<le> l1" "r1 \<le> r" "l1 \<le> hi" "lo \<le> r1" "l1 \<le> Suc r1" "l1 \<le> Suc r"
    "\<not> lt (xs ! l1) p" "\<not> lt p (xs ! r1)"
    using scans_run [OF Suc.prems(2-7)] by metis
  have W: "lo < l1" "r1 < hi" "hi < length xs" using s(3) by (auto simp: walls_def)
  have run: "collapse (Suc k) lt mid l r xs =
     (if l1 < r1
      then seq (swap_at l1 r1) (\<lambda>_.
        let mid = (if mid = l1 then r1 else if mid = r1 then l1 else mid)
        in if l1 + 1 \<le> r1 - 1 then collapse k lt mid (l1 + 1) (r1 - 1) else ret (l1 + 1, r1 - 1))
      else if l1 = r1 then ret (l1 + 1, r1 - 1) else ret (l1, r1)) xs"
    by (simp add: seq_Inr [where m = "scan_up lt mid l", OF s(1)] seq_Inr [where m = "scan_down lt mid r", OF s(2)])
  consider "l1 < r1" | "l1 = r1" | "l1 = Suc r1" using s(8) by linarith
  then show ?case
  proof cases
    case 1
    obtain ys where y: "swap_at l1 r1 xs = (Inr (), ys)" "perm_in lo hi xs ys" "ys ! l1 = xs ! r1" "ys ! r1 = xs ! l1"
        "\<And>k. k \<noteq> l1 \<Longrightarrow> k \<noteq> r1 \<Longrightarrow> ys ! k = xs ! k"
      using swap_at_run [of lo l1 hi r1 xs] W 1 s(7) by (metis less_imp_le s(6))
    let ?mid = "if mid = l1 then r1 else if mid = r1 then l1 else mid"
    have len: "length ys = length xs" and A: "set ys \<subseteq> A" using perm_inD [OF y(2)] Suc.prems(7) by simp_all
    have w: "walls lt lo hi p (l1 + 1) (r1 - 1) ys"
      using s(3,10,11) y(3-5) 1 len unfolding walls_def by (auto simp: less_Suc_eq) (metis Suc_leI Suc_pred le_less not_less_eq gr_implies_not0 neq0_conv)+
    have m: "lo \<le> ?mid" "?mid \<le> hi" "ys ! ?mid = p" using y(3-5) Suc.prems(4-6) W 1 s(6,7) by auto
    show ?thesis
    proof (cases "l1 + 1 \<le> r1 - 1")
      case True
      have "r1 - 1 < l1 + 1 + k" using Suc.prems(8) s(4,5) by simp
      from Suc.IH [OF _ w True m A this] obtain l' r' zs where
        z: "collapse k lt ?mid (l1 + 1) (r1 - 1) ys = (Inr (l', r'), zs)" "perm_in lo hi ys zs" "divided lt lo hi p l' r' zs"
        by metis
      show ?thesis
        by (rule Suc.prems(1) [OF _ perm_in_trans [OF y(2) z(2)] z(3)])
           (use z(1) 1 True in \<open>simp only: run if_True seq_Inr [where m = "swap_at l1 r1", OF y(1)] Let_def\<close>)
    next
      case False
      with 1 w have d: "divided lt lo hi p (l1 + 1) (r1 - 1) ys" using W s(6,7)
        unfolding walls_def divided_def by auto
      show ?thesis
        by (rule Suc.prems(1) [OF _ y(2) d])
           (use False 1 in \<open>simp only: run if_True if_False seq_Inr [where m = "swap_at l1 r1", OF y(1)] Let_def ret_def\<close>)
    qed
  next
    case 2
    have w: "\<not> lt p (xs ! i)" if "lo \<le> i" "i < r1" for i using s(3) 2 that by (simp add: walls_def)
    have w': "\<not> lt (xs ! i) p" if "r1 \<le> i" "i \<le> hi" for i
      using s(3,10) 2 that by (cases "i = r1") (simp_all add: walls_def)
    have "divided lt lo hi p (l1 + 1) (r1 - 1) xs"
      unfolding divided_def using 2 W w w' by auto
    then show ?thesis by (rule Suc.prems(1) [OF _ perm_in_refl, rotated]) (simp add: run 2 ret_def del: collapse.simps)
  next
    case 3
    then have "divided lt lo hi p l1 r1 xs" using W s(3,6,7) unfolding walls_def divided_def by auto
    then show ?thesis by (rule Suc.prems(1) [OF _ perm_in_refl, rotated]) (simp add: run 3 ret_def del: collapse.simps)
  qed
qed simp

end

end
