(* ===== verification/Sort_Loop.thy ===== *)
theory Sort_Loop
  imports Sort_Part
begin

text \<open>
  The quicksort loop: it ends, its stack of 64 entries is never full, and it leaves a smallest
  element among the first five.
\<close>

context sort_order
begin

lemma median3_run:
  assumes "lo < mid" "mid < hi" "hi < length xs" "set xs \<subseteq> A"
  obtains ys where "median3 lt lo mid hi xs = (Inr (), ys)" "perm_in lo hi xs ys"
    "\<not> lt (ys ! mid) (ys ! lo)" "\<not> lt (ys ! hi) (ys ! mid)"
proof -
  let ?sw = "\<lambda>b. if b then swap_at mid lo else ret ()"
  have inA: "ys ! i \<in> A" if "perm_in lo hi xs ys" "i \<le> hi" for ys i
    using perm_inD [OF that(1)] that(2) assms(3,4) nth_mem [of i ys] by auto
  have order: "\<exists>zs. ?sw (lt (ys ! mid) (ys ! lo)) ys = (Inr (), zs) \<and> perm_in lo hi xs zs \<and>
      \<not> lt (zs ! mid) (zs ! lo) \<and> zs ! hi = ys ! hi \<and> (zs ! mid = ys ! mid \<or> zs ! mid = ys ! lo \<and> lt (ys ! mid) (ys ! lo))"
    if p: "perm_in lo hi xs ys" for ys
  proof (cases "lt (ys ! mid) (ys ! lo)")
    case True
    have len: "hi < length ys" using perm_inD [OF p] assms by simp
    obtain zs where z: "swap_at mid lo ys = (Inr (), zs)" "perm_in lo hi ys zs" "zs ! mid = ys ! lo" "zs ! lo = ys ! mid"
        "\<And>k. k \<noteq> mid \<Longrightarrow> k \<noteq> lo \<Longrightarrow> zs ! k = ys ! k"
      using swap_at_run [of lo mid hi lo ys] assms(1,2) len by (metis less_imp_le order_refl less_trans)
    have "\<not> lt (ys ! lo) (ys ! mid)" using lt_asym True inA [OF p] assms by (metis less_imp_le less_trans)
    with z True assms perm_in_trans [OF p z(2)] show ?thesis by auto
  qed (use p in \<open>auto simp: ret_def\<close>)
  obtain y1 where y1: "?sw (lt (xs ! mid) (xs ! lo)) xs = (Inr (), y1)" "perm_in lo hi xs y1" "\<not> lt (y1 ! mid) (y1 ! lo)"
    using order [OF perm_in_refl] by metis
  have len: "hi < length y1" using perm_inD [OF y1(2)] assms by simp
  have run: "median3 lt lo mid hi xs =
      (if lt (y1 ! hi) (y1 ! mid)
       then seq (swap_at mid hi) (\<lambda>_. seq (lt_at lt mid lo) (\<lambda>b. if b then swap_at mid lo else ret ())) else ret ()) y1"
    using assms len by (simp add: median3_def seq_Inr [where m = "?sw (lt (xs ! mid) (xs ! lo))", OF y1(1)] del: seq_if)
  show ?thesis
  proof (cases "lt (y1 ! hi) (y1 ! mid)")
    case False
    with run y1 show ?thesis by (intro that [of y1]) (simp_all add: ret_def)
  next
    case True
    obtain y2 where y2: "swap_at mid hi y1 = (Inr (), y2)" "perm_in lo hi y1 y2" "y2 ! mid = y1 ! hi" "y2 ! hi = y1 ! mid"
        "\<And>k. k \<noteq> mid \<Longrightarrow> k \<noteq> hi \<Longrightarrow> y2 ! k = y1 ! k"
      using swap_at_run [of lo mid hi hi y1] assms(1,2) len by (metis less_imp_le order_refl less_trans)
    have p2: "perm_in lo hi xs y2" by (rule perm_in_trans [OF y1(2) y2(2)])
    have len2: "mid < length y2" "lo < length y2" using perm_inD [OF p2] assms by simp_all
    obtain y3 where y3: "?sw (lt (y2 ! mid) (y2 ! lo)) y2 = (Inr (), y3)" "perm_in lo hi xs y3" "\<not> lt (y3 ! mid) (y3 ! lo)"
        "y3 ! hi = y2 ! hi" "y3 ! mid = y2 ! mid \<or> y3 ! mid = y2 ! lo"
      using order [OF p2] by metis
    have "y2 ! lo = y1 ! lo" using y2(5) assms by simp
    moreover have "\<not> lt (y1 ! mid) (y1 ! hi)" using lt_asym True inA [OF y1(2)] assms by (metis less_imp_le order_refl)
    ultimately have "\<not> lt (y3 ! hi) (y3 ! mid)" using y3(4,5) y2(3,4) y1(3) by auto
    moreover have "median3 lt lo mid hi xs = (Inr (), y3)"
      using run True y3(1) len2 by (simp add: seq_Inr [where m = "swap_at mid hi", OF y2(1)])
    ultimately show ?thesis using that y3 by blast
  qed
qed

lemma split_part_run:
  assumes "lo + MAX_THRESH \<le> hi" "hi < length xs" "set xs \<subseteq> A"
  obtains l r p ys where "split_part lt lo hi xs = (Inr (l, r), ys)" "perm_in lo hi xs ys" "divided lt lo hi p l r ys" "p \<in> A"
proof -
  let ?mid = "lo + (hi - lo) div 2"
  have mid: "lo < ?mid" "?mid < hi" using assms(1) by (simp_all add: MAX_THRESH_def)
  obtain y1 where y1: "median3 lt lo ?mid hi xs = (Inr (), y1)" "perm_in lo hi xs y1"
      "\<not> lt (y1 ! ?mid) (y1 ! lo)" "\<not> lt (y1 ! hi) (y1 ! ?mid)"
    using median3_run [OF mid assms(2,3)] by metis
  have len: "hi < length y1" and A: "set y1 \<subseteq> A" using perm_inD [OF y1(2)] assms by simp_all
  have w: "walls lt lo hi (y1 ! ?mid) (lo + 1) (hi - 1) y1"
    unfolding walls_def
  proof (intro conjI allI impI)
    show "\<not> lt (y1 ! ?mid) (y1 ! i)" if "lo \<le> i \<and> i < lo + 1" for i
    proof -
      have "i = lo" using that by simp
      with y1(3) show ?thesis by simp
    qed
    show "\<not> lt (y1 ! i) (y1 ! ?mid)" if "hi - 1 < i \<and> i \<le> hi" for i
    proof -
      have "i = hi" using that by linarith
      with y1(4) show ?thesis by simp
    qed
  qed (use assms(1) len mid in \<open>simp_all add: MAX_THRESH_def\<close>)
  have b: "lo + 1 \<le> hi - 1" "lo \<le> ?mid" "?mid \<le> hi" "hi - 1 < lo + 1 + (hi - lo)"
    using assms(1) mid by (simp_all add: MAX_THRESH_def)
  obtain l r ys where c: "collapse (hi - lo) lt ?mid (lo + 1) (hi - 1) y1 = (Inr (l, r), ys)" "perm_in lo hi y1 ys"
      "divided lt lo hi (y1 ! ?mid) l r ys"
    using collapse_run [OF w b(1-3) refl A b(4)] by metis
  have "split_part lt lo hi xs = (Inr (l, r), ys)"
    unfolding split_part_def Let_def by (simp only: seq_Inr [where m = "median3 lt lo ?mid hi", OF y1(1)] c(1))
  moreover have "y1 ! ?mid \<in> A" using A len mid nth_mem [of ?mid y1] by auto
  ultimately show ?thesis using that c perm_in_trans [OF y1(2) c(2)] by blast
qed

end

subsection \<open>The stack\<close>

type_synonym part = "nat \<times> nat"

text \<open>Measures of a list of parts, the current one first.\<close>

fun work :: "part list \<Rightarrow> nat" where
  "work [] = 0"
| "work ((lo, hi) # ps) = 2 * (hi - lo) + 1 + work ps"

fun stack_fits :: "nat \<Rightarrow> part list \<Rightarrow> bool" where
  "stack_fits n [] = True"
| "stack_fits n ((lo, hi) # ps) = ((hi - lo + 1) * 2 ^ length ps \<le> n \<and> stack_fits n ps)"

definition parts_in :: "nat \<Rightarrow> part list \<Rightarrow> bool" where
  "parts_in n ps \<longleftrightarrow> (\<forall>(lo, hi)\<in>set ps. lo + MAX_THRESH \<le> hi \<and> hi < n)"

definition part_list :: "pending option \<Rightarrow> part list" where
  "part_list p = (case p of None \<Rightarrow> [] | Some (lo, hi, st) \<Rightarrow> (lo, hi) # st)"

lemma part_list_simps [simp]: "part_list None = []" "part_list (Some (lo, hi, st)) = (lo, hi) # st"
  by (simp_all add: part_list_def)

lemma power_small: "2 ^ k < (2 :: nat) ^ 64 \<Longrightarrow> k < 64"
  by (metis one_less_numeral_iff power_less_imp_less_exp semiring_norm(76))

definition big :: "part \<Rightarrow> part multiset" where
  "big p = (if MAX_THRESH < snd p - fst p then {#p#} else {#})"

lemma next_part_run:
  assumes d: "lo \<le> r" "r < l" "l \<le> hi" "lo < l" "r < hi" and fits: "stack_fits n ((lo, hi) # st)" and n: "n < 2 ^ 64"
  obtains p where "next_part lo hi l r st xs = (Inr p, xs)" "stack_fits n (part_list p)"
    "work (part_list p) < work ((lo, hi) # st)"
    "mset (part_list p) = big (lo, r) + big (l, hi) + mset st"
proof -
  let ?N = "\<lambda>p. next_part lo hi l r st xs = (Inr p, xs) \<and> stack_fits n (part_list p) \<and>
    work (part_list p) < work ((lo, hi) # st) \<and>
    mset (part_list p) = big (lo, r) + big (l, hi) + mset st"
  have small: "small_part lo r \<longleftrightarrow> r - lo \<le> MAX_THRESH" "small_part l hi \<longleftrightarrow> hi - l \<le> MAX_THRESH"
    using d by (simp_all add: small_part_def)
  have fit: "(hi - lo + 1) * 2 ^ length st \<le> n" "stack_fits n st" using fits by simp_all
  have part: "stack_fits n ((a, b) # st)" if "b - a \<le> hi - lo" for a b
  proof -
    have "(b - a + 1) * 2 ^ length st \<le> (hi - lo + 1) * 2 ^ length st" by (rule mult_le_mono1) (use that in simp)
    with fit(1) have "(b - a + 1) * 2 ^ length st \<le> n" by (rule order_trans [rotated])
    with fit(2) show ?thesis by simp
  qed
  have twice: "x \<le> y \<Longrightarrow> x + y + 1 \<le> h \<Longrightarrow> 2 * (x + 1) \<le> h + 1" for x y h :: nat by arith
  have half: "stack_fits n ((a, b) # (a', b') # st) \<and> Suc (length st) < 64"
    if "b - a \<le> b' - a'" "(b - a) + (b' - a') + 1 \<le> hi - lo" "MAX_THRESH < b - a" for a b a' b'
  proof -
    have "2 * (b - a + 1) \<le> hi - lo + 1" by (rule twice [OF that(1,2)])
    then have "(b - a + 1) * 2 ^ Suc (length st) \<le> (hi - lo + 1) * 2 ^ length st"
      using mult_le_mono1 [of "2 * (b - a + 1)" "hi - lo + 1" "2 ^ length st"] by (simp only: power_Suc ac_simps)
    with fit(1) have fit': "(b - a + 1) * 2 ^ Suc (length st) \<le> n" by (rule order_trans [rotated])
    have "2 ^ Suc (length st) \<le> (b - a + 1) * 2 ^ Suc (length st)" by simp
    with fit' n have "2 ^ Suc (length st) < (2 :: nat) ^ 64" by linarith
    then have "Suc (length st) < 64" by (rule power_small)
    moreover have "b' - a' \<le> hi - lo" using that by linarith
    from part [OF this] have "stack_fits n ((a', b') # st)" .
    ultimately show ?thesis using fit' by simp
  qed
  consider (both) "r - lo \<le> MAX_THRESH" "hi - l \<le> MAX_THRESH" | (right) "r - lo \<le> MAX_THRESH" "MAX_THRESH < hi - l"
    | (left) "MAX_THRESH < r - lo" "hi - l \<le> MAX_THRESH"
    | (pl) "MAX_THRESH < r - lo" "MAX_THRESH < hi - l" "hi - l < r - lo"
    | (pr) "MAX_THRESH < r - lo" "MAX_THRESH < hi - l" "r - lo \<le> hi - l"
    by linarith
  then have "\<exists>p. ?N p"
  proof cases
    case both
    show ?thesis
    proof (cases st)
      case Nil
      with both small show ?thesis by (intro exI [of _ None]) (auto simp: big_def next_part_def pop_part_def ret_def)
    next
      case (Cons q st')
      obtain a b where "q = (a, b)" by (cases q)
      with both small Cons fit(2) show ?thesis
        by (intro exI [of _ "Some (a, b, st')"]) (auto simp: big_def next_part_def pop_part_def ret_def)
    qed
  next
    case right
    with small part [of hi l] d show ?thesis
      by (intro exI [of _ "Some (l, hi, st)"]) (auto simp: big_def next_part_def ret_def)
  next
    case left
    with small part [of r lo] d show ?thesis
      by (intro exI [of _ "Some (lo, r, st)"]) (auto simp: big_def next_part_def ret_def)
  next
    case pl
    with d have "int hi - int l < int r - int lo" "(hi - l) + (r - lo) + 1 \<le> hi - lo" by linarith+
    with pl small half [of hi l r lo] d show ?thesis
      by (intro exI [of _ "Some (l, hi, (lo, r) # st)"]) (auto simp: big_def next_part_def push_part_def STACK_SIZE_def ret_def)
  next
    case pr
    with d have "\<not> int hi - int l < int r - int lo" "(r - lo) + (hi - l) + 1 \<le> hi - lo" by linarith+
    with pr small half [of r lo hi l] d show ?thesis
      by (intro exI [of _ "Some (lo, r, (l, hi) # st)"]) (auto simp: big_def next_part_def push_part_def STACK_SIZE_def ret_def)
  qed
  then show ?thesis using that by blast
qed

subsection \<open>The smallest element\<close>

definition smallest_at :: "('a \<Rightarrow> 'a \<Rightarrow> bool) \<Rightarrow> nat \<Rightarrow> 'a list \<Rightarrow> bool" where
  "smallest_at lt i xs \<longleftrightarrow> i < length xs \<and> (\<forall>y\<in>set xs. \<not> lt y (xs ! i))"

text \<open>A smallest element is in a first part of the array that is small or still to be divided.\<close>

definition front :: "('a \<Rightarrow> 'a \<Rightarrow> bool) \<Rightarrow> part list \<Rightarrow> 'a list \<Rightarrow> bool" where
  "front lt ps xs \<longleftrightarrow> (\<exists>r i. i \<le> r \<and> smallest_at lt i xs \<and>
     (let F = filter_mset (\<lambda>p. fst p \<le> r) (mset ps) in F = {#} \<and> r \<le> MAX_THRESH \<or> F = {#(0, r)#}))"

context sort_order
begin

lemma front_step:
  assumes f: "front lt ((lo, hi) # st) xs" and p: "perm_in lo hi xs ys" and d: "divided lt lo hi p l r ys"
    and A: "set xs \<subseteq> A" "p \<in> A" and ps: "mset ps = big (lo, r) + big (l, hi) + mset st"
  shows "front lt ps ys"
proof -
  let ?F = "\<lambda>q ps. filter_mset (\<lambda>p. fst p \<le> q) (mset ps)"
  obtain q i where q: "i \<le> q" "smallest_at lt i xs"
      "?F q ((lo, hi) # st) = {#} \<and> q \<le> MAX_THRESH \<or> ?F q ((lo, hi) # st) = {#(0, q)#}"
    using f unfolding front_def Let_def by blast
  note ys = perm_inD [OF p]
  have D: "lo \<le> r" "r < l" "l \<le> hi" "r < hi" "hi < length ys" "\<And>i. lo \<le> i \<Longrightarrow> i \<le> r \<Longrightarrow> \<not> lt p (ys ! i)"
    "\<And>i. r < i \<Longrightarrow> i \<le> hi \<Longrightarrow> \<not> lt (ys ! i) p"
    using d unfolding divided_def by auto
  have inA: "y \<in> A" if "y \<in> set ys" for y using that ys(3) A by auto
  show ?thesis
  proof (cases "q < lo")
    case True
    have "ys ! i = xs ! i" using ys(4) q(1,2) True by (simp add: smallest_at_def)
    with q(2) ys have s: "smallest_at lt i ys" by (simp add: smallest_at_def)
    have "?F q ps = ?F q ((lo, hi) # st)" using True D unfolding ps by (simp add: big_def)
    with q(1,3) s show ?thesis unfolding front_def Let_def by metis
  next
    case False
    then have F: "lo = 0" "hi = q" "?F q st = {#}" using q(3) by (auto split: if_splits)
    obtain i1 where i1: "i1 \<le> hi" "ys ! i1 = xs ! i" using p q(1) F unfolding perm_in_def by auto
    have s1: "smallest_at lt i1 ys" using q(2) i1 ys D(5) by (simp add: smallest_at_def)
    obtain j where j: "j \<le> r" "smallest_at lt j ys"
    proof (cases "i1 \<le> r")
      case False
      have "0 < length ys" "i1 < length ys" using D(5) i1(1) by linarith+
      then have in0: "ys ! 0 \<in> A" "ys ! i1 \<in> A" by (auto intro: inA)
      have "\<not> lt (ys ! i1) p" "\<not> lt p (ys ! 0)" using D(6) [of 0] D(7) [of i1] F False i1 by auto
      then have le: "\<not> lt (ys ! i1) (ys ! 0)" using nlt_trans in0 A(2) by blast
      have "\<not> lt y (ys ! 0)" if "y \<in> set ys" for y
        using nlt_trans [OF inA [OF that] in0(2,1) _ le] s1 that by (simp add: smallest_at_def)
      with \<open>0 < length ys\<close> have "smallest_at lt 0 ys" by (simp add: smallest_at_def)
      then show ?thesis using that [of 0] by simp
    qed (use s1 that in blast)
    have "?F r st = {#}" using F(2,3) D(4) by (auto simp: multiset_eq_iff split: if_splits)
    then have "?F r ps = {#} \<and> r \<le> MAX_THRESH \<or> ?F r ps = {#(0, r)#}"
      using D F(1) unfolding ps by (auto simp: big_def)
    with j show ?thesis unfolding front_def Let_def by blast
  qed
qed

lemma qs_loop_run:
  assumes "work ((lo, hi) # st) \<le> k" "stack_fits n ((lo, hi) # st)" "n < 2 ^ 64" "parts_in (length xs) ((lo, hi) # st)"
    "front lt ((lo, hi) # st) xs" "set xs \<subseteq> A"
  obtains ys i where "qs_loop k lt lo hi st xs = (Inr (), ys)" "mset ys = mset xs" "smallest_at lt i ys" "i \<le> MAX_THRESH"
  using assms
proof (induction k arbitrary: lo hi st xs thesis)
  case (Suc k)
  have b: "lo + MAX_THRESH \<le> hi" "hi < length xs" using Suc.prems(5) by (auto simp: parts_in_def)
  obtain l r p ys where sp: "split_part lt lo hi xs = (Inr (l, r), ys)" "perm_in lo hi xs ys" "divided lt lo hi p l r ys" "p \<in> A"
    using split_part_run [OF b Suc.prems(7)] by metis
  note ys = perm_inD [OF sp(2)]
  have d: "lo \<le> r" "r < l" "l \<le> hi" "lo < l" "r < hi" using sp(3) by (auto simp: divided_def)
  obtain q where q: "next_part lo hi l r st ys = (Inr q, ys)" "stack_fits n (part_list q)"
      "work (part_list q) < work ((lo, hi) # st)"
      "mset (part_list q) = big (lo, r) + big (l, hi) + mset st"
    using next_part_run [OF d Suc.prems(3,4), where xs = ys] by metis
  have f: "front lt (part_list q) ys" by (rule front_step [OF Suc.prems(6) sp(2,3) Suc.prems(7) sp(4) q(4)])
  have run: "qs_loop (Suc k) lt lo hi st xs =
      (case q of None \<Rightarrow> ret () | Some (lo, hi, st) \<Rightarrow> qs_loop k lt lo hi st) ys"
    by (simp add: seq_Inr [where m = "split_part lt lo hi", OF sp(1)] seq_Inr [where m = "next_part lo hi l r st", OF q(1)])
  show ?case
  proof (cases q)
    case None
    with f obtain i where "smallest_at lt i ys" "i \<le> MAX_THRESH" unfolding front_def by auto
    then show ?thesis using Suc.prems(1) run None ys(2) by (simp add: ret_def)
  next
    case (Some t)
    obtain lo' hi' st' where t: "t = (lo', hi', st')" by (cases t)
    have w1: "work ((lo', hi') # st') \<le> k" using q(3) Suc.prems(2) Some t by simp
    have w2: "stack_fits n ((lo', hi') # st')" and w3: "front lt ((lo', hi') # st') ys" using q(2) f Some t by simp_all
    have w4: "parts_in (length ys) ((lo', hi') # st')"
      unfolding parts_in_def
    proof (rule ballI, rule prod.case_eq_if [THEN iffD2])
      fix ab assume "ab \<in> set ((lo', hi') # st')"
      then have "ab = (lo, r) \<and> MAX_THRESH < r - lo \<or> ab = (l, hi) \<and> MAX_THRESH < hi - l \<or> ab \<in> set st"
        using arg_cong [OF q(4), of set_mset] Some t by (auto simp: big_def split: if_splits)
      then show "fst ab + MAX_THRESH \<le> snd ab \<and> snd ab < length ys"
        using Suc.prems(5) b(2) d ys(1) unfolding parts_in_def by auto
    qed
    have w5: "set ys \<subseteq> A" using ys(3) Suc.prems(7) by simp
    obtain zs i where "qs_loop k lt lo' hi' st' ys = (Inr (), zs)" "mset zs = mset ys" "smallest_at lt i zs" "i \<le> MAX_THRESH"
      using Suc.IH [OF _ w1 w2 Suc.prems(4) w4 w3 w5] by blast
    then show ?thesis using Suc.prems(1) run Some t ys(2) by simp
  qed
qed simp

end

end
