(* ===== verification/Sort_Insert.thy ===== *)
theory Sort_Insert
  imports Sort_Loop
begin

text \<open>
  The insertion sort that finishes the quicksort, with a smallest element as sentinel, and the whole
  sort.
\<close>

subsection \<open>Moving an element down\<close>

lemma length_shift_up [simp]: "length (shift_up lo hi xs) = length xs"
  by (induction hi arbitrary: xs) auto

lemma nth_shift_up:
  "hi < length xs \<Longrightarrow> k < length xs \<Longrightarrow> shift_up lo hi xs ! k = (if lo < k \<and> k \<le> hi then xs ! (k - 1) else xs ! k)"
proof (induction hi arbitrary: xs)
  case (Suc hi)
  then show ?case by (auto simp: nth_list_update le_Suc_eq)
qed simp

lemma move_down_run:
  assumes "lo \<le> hi" "hi < length xs"
  shows "move_down lo hi xs = (Inr (), take lo xs @ xs ! hi # take (hi - lo) (drop lo xs) @ drop (Suc hi) xs)"
proof -
  have "(shift_up lo hi xs)[lo := xs ! hi] = take lo xs @ xs ! hi # take (hi - lo) (drop lo xs) @ drop (Suc hi) xs"
  proof (rule nth_equalityI)
    fix k assume "k < length ((shift_up lo hi xs)[lo := xs ! hi])"
    then have k: "k < length xs" by simp
    consider "k < lo" | "k = lo" | "lo < k" "k \<le> hi" | "hi < k" by linarith
    then show "(shift_up lo hi xs)[lo := xs ! hi] ! k =
        (take lo xs @ xs ! hi # take (hi - lo) (drop lo xs) @ drop (Suc hi) xs) ! k"
      by cases (use assms k in \<open>auto simp: nth_append nth_Cons' nth_shift_up min_def\<close>)
  qed (use assms in simp)
  with assms show ?thesis by (simp add: move_down_def)
qed

lemma split_at: "lo \<le> hi \<Longrightarrow> hi < length xs \<Longrightarrow> xs = take lo xs @ take (hi - lo) (drop lo xs) @ xs ! hi # drop (Suc hi) xs"
  by (metis Cons_nth_drop_Suc append.assoc append_take_drop_id le_add_diff_inverse take_add)

text \<open>All positions fit.\<close>

definition pos_fit :: "nat option \<Rightarrow> nat \<Rightarrow> bool" where
  "pos_fit limit n \<longleftrightarrow> (case limit of None \<Rightarrow> True | Some L \<Rightarrow> n \<le> L)"

context sort_order
begin

subsection \<open>The sentinel\<close>

lemma find_min_loop:
  assumes "m < length xs" "set xs \<subseteq> A" "tmp \<le> a" "a \<le> m" "\<forall>j\<le>a. \<not> lt (xs ! j) (xs ! tmp)"
  obtains tmp' where "for_fold [Suc a..<Suc m] tmp (\<lambda>run tmp. seq (lt_at lt run tmp) (\<lambda>b. ret (if b then run else tmp))) xs =
      (Inr tmp', xs)" "tmp' \<le> m" "\<forall>j\<le>m. \<not> lt (xs ! j) (xs ! tmp')"
  using assms(3-5)
proof (induction "m - a" arbitrary: a tmp thesis)
  case 0
  then show ?case by (simp add: ret_def)
next
  case (Suc d)
  then have a: "Suc a \<le> m" by linarith
  let ?t = "if lt (xs ! Suc a) (xs ! tmp) then Suc a else tmp"
  have inA: "xs ! j \<in> A" if "j \<le> m" for j using assms(1,2) that nth_mem [of j xs] by auto
  have "\<not> lt (xs ! j) (xs ! ?t)" if "j \<le> Suc a" for j
  proof (cases "lt (xs ! Suc a) (xs ! tmp)")
    case False
    with that Suc.prems(4) show ?thesis by (cases "j = Suc a") auto
  next
    case True
    have A: "xs ! j \<in> A" "xs ! tmp \<in> A" "xs ! Suc a \<in> A" using inA that a Suc.prems(2) by auto
    show ?thesis
    proof (cases "j = Suc a")
      case False
      with that have "\<not> lt (xs ! j) (xs ! tmp)" using Suc.prems(4) by simp
      with True show ?thesis using nlt_trans [OF A] lt_asym [OF A(3,2) True] by simp
    qed (use True lt_irrefl A in simp)
  qed
  moreover have "?t \<le> Suc a" using Suc.prems(2) by simp
  moreover have "d = m - Suc a" using Suc.hyps(2) by simp
  ultimately obtain tmp' where t: "for_fold [Suc (Suc a)..<Suc m] ?t (\<lambda>run tmp. seq (lt_at lt run tmp) (\<lambda>b. ret (if b then run else tmp))) xs =
      (Inr tmp', xs)" "tmp' \<le> m" "\<forall>j\<le>m. \<not> lt (xs ! j) (xs ! tmp')"
    using Suc.hyps(1) [of "Suc a" ?t] a by blast
  have "[Suc a..<Suc m] = Suc a # [Suc (Suc a)..<Suc m]" using a by (simp add: upt_rec)
  then have "for_fold [Suc a..<Suc m] tmp (\<lambda>run tmp. seq (lt_at lt run tmp) (\<lambda>b. ret (if b then run else tmp))) xs = (Inr tmp', xs)"
    using t(1) a Suc.prems(2) assms(1) by (simp add: seq_assoc del: upt_Suc)
  with t(2,3) show ?case using Suc.prems(1) by blast
qed

lemma sentinel_run:
  assumes "xs \<noteq> []" "set xs \<subseteq> A" "length xs \<le> Suc MAX_THRESH \<or> (\<exists>i\<le>MAX_THRESH. smallest_at lt i xs)"
  obtains ys where "seq (find_min lt (length xs)) (\<lambda>tmp. if tmp \<noteq> 0 then swap_at tmp 0 else ret ()) xs = (Inr (), ys)"
    "mset ys = mset xs" "smallest_at lt 0 ys"
proof -
  let ?m = "min (length xs - 1) MAX_THRESH"
  have m: "?m < length xs" using assms(1) by (cases xs) auto
  have inA: "y \<in> A" if "y \<in> set xs" for y using that assms(2) by auto
  have "xs ! 0 \<in> A" by (rule inA) (use assms(1) in simp)
  then have z: "\<forall>j\<le>0. \<not> lt (xs ! j) (xs ! 0)" using lt_irrefl by simp
  obtain tmp where t: "find_min lt (length xs) xs = (Inr tmp, xs)" "tmp \<le> ?m" "\<forall>j\<le>?m. \<not> lt (xs ! j) (xs ! tmp)"
    using find_min_loop [OF m assms(2) order_refl le0 z] unfolding find_min_def One_nat_def by blast
  have tl: "tmp < length xs" using t(2) m by linarith
  have tA: "xs ! tmp \<in> A" by (rule inA) (use tl in simp)
  have s: "smallest_at lt tmp xs"
    using assms(3)
  proof
    assume l: "length xs \<le> Suc MAX_THRESH"
    have "\<not> lt y (xs ! tmp)" if y: "y \<in> set xs" for y
    proof -
      obtain j where "j < length xs" "y = xs ! j" using y by (auto simp: in_set_conv_nth)
      with l t(3) show ?thesis by auto
    qed
    with tl show ?thesis by (simp add: smallest_at_def)
  next
    assume "\<exists>i\<le>MAX_THRESH. smallest_at lt i xs"
    then obtain i where i': "i \<le> MAX_THRESH" "i < length xs" "\<forall>y\<in>set xs. \<not> lt y (xs ! i)" by (auto simp: smallest_at_def)
    then have i: "i \<le> ?m" "i < length xs" "\<forall>y\<in>set xs. \<not> lt y (xs ! i)" by auto
    have "\<not> lt y (xs ! tmp)" if "y \<in> set xs" for y
      using nlt_trans [OF inA [OF that] inA [OF nth_mem [OF i(2)]] tA] i(3) that t(3) i(1) by blast
    with tl show ?thesis by (simp add: smallest_at_def)
  qed
  show ?thesis
  proof (cases "tmp = 0")
    case True
    with s t(1) show ?thesis by (intro that [of xs]) (simp_all add: seq_Inr [where m = "find_min lt (length xs)"] ret_def)
  next
    case False
    let ?hi = "length xs - 1"
    have hi: "tmp \<le> ?hi" "0 \<le> ?hi" "?hi < length xs" using tl by linarith+
    obtain ys where y: "swap_at tmp 0 xs = (Inr (), ys)" "perm_in 0 ?hi xs ys" "ys ! 0 = xs ! tmp"
      using swap_at_run [of 0 tmp ?hi 0 xs] hi by (metis le0)
    note ys = perm_inD [OF y(2)]
    have "smallest_at lt 0 ys" using s y(3) ys tl by (auto simp: smallest_at_def)
    with False t(1) y(1) ys(2) show ?thesis by (intro that [of ys]) (simp_all add: seq_Inr [where m = "find_min lt (length xs)"])
  qed
qed

subsection \<open>Insertion\<close>

abbreviation ordered :: "'a list \<Rightarrow> bool" where
  "ordered \<equiv> sorted_wrt (\<lambda>a b. \<not> lt b a)"

lemma insert_at_run:
  assumes s: "smallest_at lt 0 xs" and o: "ordered (take run xs)" and run: "1 \<le> run" "run < length xs"
    and A: "set xs \<subseteq> A" and L: "pos_fit limit (Suc run)"
  obtains ys where "insert_at lt limit run xs = (Inr (), ys)" "mset ys = mset xs" "smallest_at lt 0 ys" "ordered (take (Suc run) ys)"
proof -
  let ?x = "xs ! run"
  have inA: "y \<in> A" if "y \<in> set xs" for y using that A by auto
  have xA: "?x \<in> A" by (rule inA) (use run in simp)
  have sent: "\<not> lt ?x (xs ! 0)" using s run by (simp add: smallest_at_def)
  have r1: "0 \<le> run - 1" "run - 1 < length xs" using run by auto
  obtain j where j: "scan_down lt run (run - 1) xs = (Inr j, xs)" "j \<le> run - 1" "\<not> lt ?x (xs ! j)"
      "\<And>i. j < i \<Longrightarrow> i \<le> run - 1 \<Longrightarrow> lt ?x (xs ! i)"
    by (rule scan_down_run [where xs = xs and lt = lt, OF r1 run(2) sent]) blast
  let ?L = "take (Suc j) xs" and ?R = "take (run - Suc j) (drop (Suc j) xs)" and ?T = "drop (Suc run) xs"
  let ?ys = "?L @ ?x # ?R @ ?T"
  have jr: "Suc j \<le> run" using j(2) run by linarith
  have lim: "undef_if (case limit of None \<Rightarrow> False | Some L \<Rightarrow> L \<le> run) = ret ()"
    using L by (auto simp: undef_if_def pos_fit_def split: option.splits)
  have "(if j + 1 \<noteq> run then move_down (j + 1) run else ret ()) xs = (Inr (), ?ys)"
  proof (cases "j + 1 = run")
    case True
    then have "?ys = xs" using id_take_nth_drop [of run xs] run by simp
    with True show ?thesis by (simp add: ret_def)
  qed (use move_down_run [OF jr run(2)] in simp)
  then have 1: "insert_at lt limit run xs = (Inr (), ?ys)"
    unfolding insert_at_def lim by (simp only: seq_ret seq_Inr [where m = "scan_down lt run (run - 1)", OF j(1)])
  have xs: "xs = ?L @ ?R @ ?x # ?T" by (rule split_at [OF jr run(2)])
  have "mset (?L @ ?R @ ?x # ?T) = mset ?ys" by simp
  then have 2: "mset ?ys = mset xs" using xs by simp
  have nz: "?ys ! 0 = xs ! 0" using run by (cases xs) simp_all
  have "set ?ys = set xs" "length ?ys = length xs" using 2 by (rule mset_eq_setD, rule mset_eq_length)
  with s nz have 3: "smallest_at lt 0 ?ys" by (simp add: smallest_at_def)
  have "take run xs = ?L @ ?R" using jr by (metis le_add_diff_inverse take_add)
  with o have LR: "ordered (?L @ ?R)" by simp
  have low: "\<not> lt ?x y" if y: "y \<in> set ?L" for y
  proof -
    obtain i where i: "i \<le> j" "y = xs ! i" using y by (auto simp: in_set_conv_nth less_Suc_eq_le)
    have "\<not> lt (xs ! j) y"
    proof (cases "i = j")
      case False
      with i jr run have "i < j" "j < length (take run xs)" by auto
      from sorted_wrt_nth_less [OF o this] show ?thesis using i jr by simp
    next
      case True
      show ?thesis unfolding i(2) True by (rule lt_irrefl, rule inA) (use jr run in simp)
    qed
    moreover have "xs ! j \<in> A" "y \<in> A" using inA i jr run by auto
    ultimately show ?thesis using nlt_trans [OF xA _ _ j(3)] by blast
  qed
  have high: "\<not> lt y ?x" if y: "y \<in> set ?R" for y
  proof -
    obtain i where i: "i < run - Suc j" "y = xs ! (Suc j + i)" using y run by (auto simp: in_set_conv_nth)
    have "lt ?x y" unfolding i(2) by (rule j(4)) (use i in auto)
    moreover have "y \<in> A" unfolding i(2) by (rule inA) (use i run in simp)
    ultimately show ?thesis using lt_asym xA by blast
  qed
  have lenLR: "length ?L = Suc j" "length ?R = run - Suc j" using jr run by simp_all
  have "Suc run - length ?L = Suc (length ?R)" using lenLR jr by linarith
  then have "take (Suc run) ?ys = ?L @ ?x # ?R" using lenLR jr by (simp only: take_append) simp
  moreover have "ordered (?L @ ?x # ?R)" using LR low high by (simp add: sorted_wrt_append)
  ultimately have 4: "ordered (take (Suc run) ?ys)" by simp
  show ?thesis by (rule that [OF 1 2 3 4])
qed

lemma insertion_loop:
  assumes "smallest_at lt 0 xs" "ordered (take a xs)" "1 \<le> a" "a \<le> b" "b \<le> length xs" "set xs \<subseteq> A" "pos_fit limit b"
  obtains ys where "for_each [a..<b] (insert_at lt limit) xs = (Inr (), ys)" "mset ys = mset xs" "ordered (take b ys)"
  using assms
proof (induction "b - a" arbitrary: a xs thesis)
  case 0
  then show ?case by (simp add: ret_def)
next
  case (Suc d)
  then have a: "a < b" "a < length xs" by linarith+
  have L: "pos_fit limit (Suc a)" using Suc.prems(8) a by (auto simp: pos_fit_def split: option.splits)
  obtain ys where y: "insert_at lt limit a xs = (Inr (), ys)" "mset ys = mset xs" "smallest_at lt 0 ys" "ordered (take (Suc a) ys)"
    using insert_at_run [OF Suc.prems(2-4) a(2) Suc.prems(7) L] by blast
  have len: "length ys = length xs" and set: "set ys = set xs" using y(2) by (rule mset_eq_length, rule mset_eq_setD)
  have d: "d = b - Suc a" using Suc.hyps(2) by simp
  obtain zs where z: "for_each [Suc a..<b] (insert_at lt limit) ys = (Inr (), zs)" "mset zs = mset ys" "ordered (take b zs)"
    using Suc.hyps(1) [OF d _ y(3,4)] a len set Suc.prems(6,7,8) by auto
  have "[a..<b] = a # [Suc a..<b]" using a by (simp add: upt_conv_Cons)
  then have "for_each [a..<b] (insert_at lt limit) xs = (Inr (), zs)"
    using z(1) by (simp add: seq_Inr [where m = "insert_at lt limit a", OF y(1)])
  with z y(2) show ?case using Suc.prems(1) by simp
qed

text \<open>The array before the insertions.\<close>

lemma insertion_start:
  assumes "2 \<le> length xs" "set xs \<subseteq> A" "length xs \<le> Suc MAX_THRESH \<or> (\<exists>i\<le>MAX_THRESH. smallest_at lt i xs)"
  obtains ys where "insertion lt limit (length xs) xs = for_each [2..<length xs] (insert_at lt limit) ys"
    "mset ys = mset xs" "smallest_at lt 0 ys" "ordered (take 2 ys)"
proof -
  have "xs \<noteq> []" using assms(1) by auto
  then obtain ys where y: "seq (find_min lt (length xs)) (\<lambda>tmp. if tmp \<noteq> 0 then swap_at tmp 0 else ret ()) xs = (Inr (), ys)"
      "mset ys = mset xs" "smallest_at lt 0 ys"
    using sentinel_run [OF _ assms(2,3)] by blast
  have run: "insertion lt limit (length xs) xs = for_each [2..<length xs] (insert_at lt limit) ys"
    unfolding insertion_def seq_assoc [symmetric] by (rule seq_Inr) (rule y(1))
  have len: "length ys = length xs" using y(2) by (rule mset_eq_length)
  then have "ys ! 1 \<in> set ys" using assms(1) by simp
  then have "\<not> lt (ys ! 1) (ys ! 0)" using y(3) by (simp add: smallest_at_def)
  moreover have "take 2 ys = [ys ! 0, ys ! 1]" using assms(1) len by (cases ys; cases "tl ys") (auto simp: numeral_2_eq_2)
  ultimately have "ordered (take 2 ys)" by simp
  then show ?thesis using that run y by blast
qed

lemma insertion_run:
  assumes "xs \<noteq> []" "set xs \<subseteq> A" "length xs \<le> Suc MAX_THRESH \<or> (\<exists>i\<le>MAX_THRESH. smallest_at lt i xs)" "pos_fit limit (length xs)"
  obtains ys where "insertion lt limit (length xs) xs = (Inr (), ys)" "mset ys = mset xs" "ordered ys"
proof (cases "length xs = 1")
  case True
  then obtain x where x: "xs = [x]" by (auto simp: length_Suc_conv)
  have "find_min lt 1 [x] = (Inr 0, [x])" by (simp add: find_min_def ret_def)
  then have "insertion lt limit (length xs) xs = (Inr (), xs)" unfolding x by (simp add: insertion_def seq_def ret_def)
  with x show ?thesis by (intro that [of xs]) simp_all
next
  case False
  moreover have "length xs \<noteq> 0" using assms(1) by simp
  ultimately have two: "2 \<le> length xs" by linarith
  obtain ys where y: "insertion lt limit (length xs) xs = for_each [2..<length xs] (insert_at lt limit) ys"
      "mset ys = mset xs" "smallest_at lt 0 ys" "ordered (take 2 ys)"
    using insertion_start [OF two assms(2,3)] by blast
  have len: "length xs = length ys" and set: "set ys = set xs" using y(2) by (metis mset_eq_length, metis mset_eq_setD)
  obtain zs where z: "for_each [2..<length xs] (insert_at lt limit) ys = (Inr (), zs)" "mset zs = mset ys" "ordered (take (length xs) zs)"
    using insertion_loop [OF y(3,4) _ two _ _ assms(4)] assms(2) len set by auto
  have "length zs = length xs" using z(2) y(2) by (metis mset_eq_length)
  with z y show ?thesis by (intro that [of zs]) simp_all
qed

text \<open>An array with more elements than there are positions: the access to the first position that does
  not fit is undefined.\<close>

lemma insertion_overflow:
  assumes "set xs \<subseteq> A" "length xs \<le> Suc MAX_THRESH \<or> (\<exists>i\<le>MAX_THRESH. smallest_at lt i xs)" "2 \<le> L" "L < length xs"
  shows "fst (insertion lt (Some L) (length xs) xs) = Inl Undef"
proof -
  have two: "2 \<le> length xs" using assms(3,4) by linarith
  obtain ys where y: "insertion lt (Some L) (length xs) xs = for_each [2..<length xs] (insert_at lt (Some L)) ys"
      "mset ys = mset xs" "smallest_at lt 0 ys" "ordered (take 2 ys)"
    using insertion_start [OF two assms(1,2)] by blast
  have len: "length xs = length ys" and set: "set ys = set xs" using y(2) by (metis mset_eq_length, metis mset_eq_setD)
  have le: "L \<le> length ys" and sub: "set ys \<subseteq> A" and fit: "pos_fit (Some L) L"
    using assms(1,4) len set by (simp_all add: pos_fit_def)
  obtain zs where z: "for_each [2..<L] (insert_at lt (Some L)) ys = (Inr (), zs)"
    using insertion_loop [OF y(3,4) _ assms(3) le sub fit] one_le_numeral by blast
  have split: "[2..<length xs] = [2..<L] @ L # [Suc L..<length xs]"
    using assms(3,4) by (metis less_imp_le upt_add_eq_append upt_conv_Cons le_add_diff_inverse)
  have app: "for_each (us @ vs) f s = seq (for_each us f) (\<lambda>_. for_each vs f) s" for us vs :: "nat list" and f and s :: "'a list"
    by (induction us arbitrary: s) (simp_all add: seq_def split: prod.splits sum.splits)
  have "insert_at lt (Some L) L zs = (Inl Undef, zs)" by (simp add: insert_at_def)
  then show ?thesis
    unfolding y(1) split app seq_Inr [where m = "for_each [2..<L] (insert_at lt (Some L))", OF z] by (simp add: seq_def)
qed

subsection \<open>The sort\<close>

lemma quick_phase:
  assumes "set xs \<subseteq> A" "length xs < 2 ^ 64" "xs \<noteq> []"
  obtains ys where "gnu_qsort lt limit (length xs) xs = seq (insertion lt limit (length xs)) ret ys" "mset ys = mset xs"
    "length ys \<le> Suc MAX_THRESH \<or> (\<exists>i\<le>MAX_THRESH. smallest_at lt i ys)"
proof -
  let ?n = "length xs" and ?q = "if MAX_THRESH < length xs then qs_loop (2 * length xs) lt 0 (length xs - 1) [] else ret ()"
  obtain ys where y: "?q xs = (Inr (), ys)" "mset ys = mset xs"
      "length ys \<le> Suc MAX_THRESH \<or> (\<exists>i\<le>MAX_THRESH. smallest_at lt i ys)"
  proof (cases "MAX_THRESH < ?n")
    case True
    have "\<exists>i. smallest_at lt i xs"
    proof -
      have z: "\<forall>j\<le>0. \<not> lt (xs ! j) (xs ! 0)" using lt_irrefl assms(1,3) by (cases xs) auto
      have l: "?n - 1 < ?n" using assms(3) by (cases xs) auto
      obtain t where "t \<le> ?n - 1" "\<forall>j\<le>?n - 1. \<not> lt (xs ! j) (xs ! t)"
        using find_min_loop [OF l assms(1) order_refl le0 z] by blast
      with l show ?thesis by (auto simp: smallest_at_def in_set_conv_nth intro!: exI [of _ t])
    qed
    then obtain i where i: "smallest_at lt i xs" by blast
    have "front lt [(0, ?n - 1)] xs"
      unfolding front_def Let_def using i by (intro exI [of _ "?n - 1"] exI [of _ i]) (auto simp: smallest_at_def)
    moreover have "work [(0, ?n - 1)] \<le> 2 * ?n" "stack_fits ?n [(0, ?n - 1)]" "parts_in ?n [(0, ?n - 1)]"
      using True by (simp_all add: parts_in_def MAX_THRESH_def) linarith
    ultimately obtain ys i where "qs_loop (2 * ?n) lt 0 (?n - 1) [] xs = (Inr (), ys)" "mset ys = mset xs" "smallest_at lt i ys" "i \<le> MAX_THRESH"
      using qs_loop_run [of 0 "?n - 1" "[]" "2 * ?n" ?n xs] assms(1,2) by metis
    with True show ?thesis using that by auto
  qed (use that [of xs] in \<open>auto simp: ret_def\<close>)
  have n0: "?n \<noteq> 0" using assms(3) by simp
  have unit: "(\<lambda>_. ret ()) = ret" by (rule ext) simp
  have "gnu_qsort lt limit ?n xs = seq (insertion lt limit ?n) ret ys"
    unfolding gnu_qsort_def steps.simps if_not_P [OF n0] seq_Inr [where m = ?q, OF y(1)] unit ..
  with y show ?thesis using that by blast
qed

lemma gnu_qsort_sorts:
  assumes "set xs \<subseteq> A" "length xs < 2 ^ 64" "pos_fit limit (length xs)"
  shows "\<exists>ys. gnu_qsort lt limit (length xs) xs = (Inr (), ys) \<and> mset ys = mset xs \<and> ordered ys"
proof (cases "xs = []")
  case False
  obtain ys where y: "gnu_qsort lt limit (length xs) xs = seq (insertion lt limit (length xs)) ret ys" "mset ys = mset xs"
      "length ys \<le> Suc MAX_THRESH \<or> (\<exists>i\<le>MAX_THRESH. smallest_at lt i ys)"
    using quick_phase [OF assms(1,2) False] by blast
  have len: "length ys = length xs" and set: "set ys = set xs" using y(2) by (rule mset_eq_length, rule mset_eq_setD)
  have "ys \<noteq> []" using False len by auto
  then obtain zs where "insertion lt limit (length xs) ys = (Inr (), zs)" "mset zs = mset ys" "ordered zs"
    using insertion_run [of ys limit] y(3) assms(1,3) len set by auto
  with y show ?thesis by (simp add: seq_def ret_def)
qed (simp add: gnu_qsort_def ret_def)

lemma gnu_qsort_overflow:
  assumes "set xs \<subseteq> A" "length xs < 2 ^ 64" "2 \<le> L" "L < length xs"
  shows "fst (gnu_qsort lt (Some L) (length xs) xs) = Inl Undef"
proof -
  have "xs \<noteq> []" using assms(4) by auto
  then obtain ys where y: "gnu_qsort lt (Some L) (length xs) xs = seq (insertion lt (Some L) (length xs)) ret ys" "mset ys = mset xs"
      "length ys \<le> Suc MAX_THRESH \<or> (\<exists>i\<le>MAX_THRESH. smallest_at lt i ys)"
    using quick_phase [OF assms(1,2)] by blast
  have len: "length ys = length xs" and set: "set ys = set xs" using y(2) by (rule mset_eq_length, rule mset_eq_setD)
  have "fst (insertion lt (Some L) (length ys) ys) = Inl Undef"
    by (rule insertion_overflow [OF _ y(3) assms(3)]) (use assms set len in simp_all)
  then show ?thesis unfolding y(1) by (cases "insertion lt (Some L) (length xs) ys") (simp add: seq_def len)
qed

end

end
