(* ===== verification/Sort_Thms.thy ===== *)
theory Sort_Thms
  imports Sort_Insert Csv_Print
begin

text \<open>
  The instances of the sort, for integers, doubles, and floats or integers that drag an index along,
  and what they promise.
\<close>

subsection \<open>The instances\<close>

text \<open>\<open>OPERATORS/F_IN_PLACE/src/qsort_asc_I4.c\<close>\<close>

definition lt_I4 :: "32 word \<Rightarrow> 32 word \<Rightarrow> bool" where
  "lt_I4 a b \<longleftrightarrow> sint a < sint b"

definition qsort_asc_I4 :: "nat \<Rightarrow> (32 word, unit) arr" where
  "qsort_asc_I4 total_elems = gnu_qsort lt_I4 None total_elems"

text \<open>\<open>GRAPH/CONN_COMP/src/qsort_asc_I4.c\<close> and \<open>approxalgos/ApproxFrequent/src/qsort_asc_I4.c\<close>: the same with the size of
  an element; another size ends the process with status 1.  The comparison function that is handed over is
  not called.\<close>

definition qsort_asc_I4_sized :: "nat \<Rightarrow> nat \<Rightarrow> (32 word, unit) arr" where
  "qsort_asc_I4_sized total_elems sz =
    steps [bye_if (sz \<noteq> 4) 1, gnu_qsort lt_I4 None total_elems]"

definition qsort_asc_I4_freq :: "nat \<Rightarrow> nat \<Rightarrow> (32 word, unit) arr" where
  "qsort_asc_I4_freq total_elems sz =
    steps [bye_if (sz \<noteq> 4) 1, gnu_qsort lt_I4 None total_elems]"

text \<open>Floating-point numbers by their bits; the comparison with a not-a-number is false.\<close>

fun fp_less :: "fp \<Rightarrow> fp \<Rightarrow> bool" where
  "fp_less (Fin n m e) (Fin n' m' e') =
     ((if n then - int m else int m) * 2 ^ nat (e - min e e') < (if n' then - int m' else int m') * 2 ^ nat (e' - min e e'))"
| "fp_less (Infty n) (Infty n') = (n \<and> \<not> n')"
| "fp_less (Infty n) (Fin n' m' e') = n"
| "fp_less (Fin n m e) (Infty n') = (\<not> n')"
| "fp_less _ _ = False"

fun is_nan :: "fp \<Rightarrow> bool" where
  "is_nan (NaN _) = True"
| "is_nan _ = False"

definition f4_val :: "32 word \<Rightarrow> fp" where
  "f4_val w = fp_of_bits F32_fmt 32 (unat w)"

definition f8_val :: "64 word \<Rightarrow> fp" where
  "f8_val w = fp_of_bits F64_fmt 64 (unat w)"

text \<open>\<open>approxalgos/ApproxQuantile/src/qsort_asc_F8.c\<close>\<close>

definition qsort_asc_F8 :: "nat \<Rightarrow> (64 word, unit) arr" where
  "qsort_asc_F8 total_elems = gnu_qsort (\<lambda>a b. fp_less (f8_val a) (f8_val b)) None total_elems"

text \<open>\<open>OPERATORS/F1F2_IN_PLACE/src/qsort2_asc_I4_basic.c\<close>: the two arrays are one array of pairs, whose
  second components are dragged along.  Positions are kept in an \<open>int\<close>.\<close>

definition qsort2_asc_I4_basic :: "nat \<Rightarrow> (32 word \<times> 32 word, int) arr" where
  "qsort2_asc_I4_basic total_elems =
    (if total_elems = 0 then ret (- 1)
     else seq (gnu_qsort (\<lambda>p q. lt_I4 (fst p) (fst q)) (Some (2 ^ 31)) total_elems) (\<lambda>_. ret 1))"

text \<open>\<open>DT/src/qsort_asc_val_F4_idx_I1.c\<close> and \<open>DT/src/qsort_asc_val_F4_idx_I2.c\<close>: values with the order \<open>srt_ordr\<close>; positions are
  kept in an \<open>int8_t\<close> and in an \<open>int16_t\<close>.\<close>

definition lt_val :: "32 word \<times> 'b \<Rightarrow> 32 word \<times> 'b \<Rightarrow> bool" where
  "lt_val p q \<longleftrightarrow> fp_less (f4_val (fst p)) (f4_val (fst q))"

definition qsort_asc_val_F4_idx_I1 :: "nat \<Rightarrow> (32 word \<times> 8 word, int) arr" where
  "qsort_asc_val_F4_idx_I1 total_elems = seq (gnu_qsort lt_val (Some 128) total_elems) (\<lambda>_. ret 0)"

definition qsort_asc_val_F4_idx_I2 :: "nat \<Rightarrow> (32 word \<times> 16 word, int) arr" where
  "qsort_asc_val_F4_idx_I2 total_elems = seq (gnu_qsort lt_val (Some 32768) total_elems) (\<lambda>_. ret 0)"

subsection \<open>The orders\<close>

text \<open>Numbers in the order of the pairs of a rank, which tells the infinities apart, and a real value.\<close>

fun fp_rank :: "fp \<Rightarrow> int" where
  "fp_rank (Infty n) = (if n then - 1 else 1)"
| "fp_rank _ = 0"

fun fp_value :: "fp \<Rightarrow> real" where
  "fp_value (Fin n m e) = (if n then - real m else real m) * 2 powr real_of_int e"
| "fp_value _ = 0"

lemma scale_powr: "real_of_int (s * 2 ^ nat (e - d)) = real_of_int s * 2 powr real_of_int e / 2 powr real_of_int d" if "d \<le> e"
proof -
  have "(2 :: real) ^ nat (e - d) = 2 powr real_of_int (e - d)" using that by (simp add: powr_realpow [symmetric])
  then show ?thesis by (simp add: powr_diff)
qed

lemma fp_less_key:
  "fp_less a b \<longleftrightarrow> \<not> is_nan a \<and> \<not> is_nan b \<and>
     (fp_rank a < fp_rank b \<or> fp_rank a = fp_rank b \<and> fp_value a < fp_value b)"
proof (induction a b rule: fp_less.induct)
  case (1 n m e n' m' e')
  let ?s = "if n then - int m else int m" and ?s' = "if n' then - int m' else int m'" and ?d = "min e e'"
  have "(?s * 2 ^ nat (e - ?d) < ?s' * 2 ^ nat (e' - ?d)) \<longleftrightarrow>
      real_of_int (?s * 2 ^ nat (e - ?d)) < real_of_int (?s' * 2 ^ nat (e' - ?d))"
    by (rule of_int_less_iff [symmetric])
  also have "\<dots> \<longleftrightarrow> real_of_int ?s * 2 powr real_of_int e < real_of_int ?s' * 2 powr real_of_int e'"
    unfolding scale_powr [OF min.cobounded1] scale_powr [OF min.cobounded2] by (simp add: divide_less_cancel)
  finally show ?case by (simp split: if_splits)
qed simp_all

lemma fp_sort_order: "sort_order (\<lambda>p q. fp_less (f p) (f q)) {p. \<not> is_nan (f p)}"
  by unfold_locales (auto simp: fp_less_key)

interpretation i4: sort_order lt_I4 UNIV
  by unfold_locales (auto simp: lt_I4_def)

interpretation i4_pair: sort_order "\<lambda>p q. lt_I4 (fst p) (fst q)" UNIV
  by unfold_locales (auto simp: lt_I4_def)

interpretation f8: sort_order "\<lambda>a b. fp_less (f8_val a) (f8_val b)" "{a. \<not> is_nan (f8_val a)}"
  by (rule fp_sort_order)

interpretation f4_idx: sort_order "lt_val :: 32 word \<times> 'b \<Rightarrow> _" "{p. \<not> is_nan (f4_val (fst p))}"
  unfolding lt_val_def by (rule fp_sort_order)

subsection \<open>What they promise\<close>

text \<open>C17. The quicksort with its explicit stack of 64 parts, its median of three, its threshold and its final
  insertion sort behind a sentinel sorts every array of integers: it ends, never leaves the array or
  the stack, and the result is a sorted permutation.\<close>

theorem qsort_I4_sorts:
  assumes "length xs < 2 ^ 64"
  shows "\<exists>ys. qsort_asc_I4 (length xs) xs = (Inr (), ys) \<and> mset ys = mset xs \<and> sorted (map sint ys)"
  using i4.gnu_qsort_sorts [of xs None] assms
  by (auto simp: qsort_asc_I4_def pos_fit_def lt_I4_def sorted_wrt_map not_less)

lemma qsort_I4_sorts_witness:
  "\<exists>ys. qsort_asc_I4 (length [5, - 3, 9, 0, 5, 7, - 8 :: 32 word]) [5, - 3, 9, 0, 5, 7, - 8] = (Inr (), ys) \<and>
     mset ys = mset [5, - 3, 9, 0, 5, 7, - 8] \<and> sorted (map sint ys)"
  by (rule qsort_I4_sorts) simp

text \<open>Sorting with a dragged index keeps every value with its index, as long as the positions fit the
  \<open>int8_t\<close> the code keeps them in: up to 128 values are sorted and status 0 is returned; with more,
  whatever the values, a negative position is used and the access to the order is out of bounds.\<close>

theorem qsort_idx_I1_limit:
  assumes "\<forall>p\<in>set xs. \<not> is_nan (f4_val (fst p))" "length xs < 2 ^ 64"
  shows "if length xs \<le> 128
    then \<exists>ys. qsort_asc_val_F4_idx_I1 (length xs) xs = (Inr 0, ys) \<and> mset ys = mset xs \<and>
           sorted_wrt (\<lambda>p q. \<not> fp_less (f4_val (fst q)) (f4_val (fst p))) ys
    else fst (qsort_asc_val_F4_idx_I1 (length xs) xs) = Inl Undef"
proof -
  have A: "set xs \<subseteq> {p. \<not> is_nan (f4_val (fst p))}" using assms(1) by auto
  show ?thesis
  proof (cases "length xs \<le> 128")
    case True
    with f4_idx.gnu_qsort_sorts [OF A assms(2), of "Some 128"] show ?thesis
      by (auto simp: qsort_asc_val_F4_idx_I1_def pos_fit_def lt_val_def seq_def ret_def)
  next
    case False
    then have "128 < length xs" by simp
    from f4_idx.gnu_qsort_overflow [OF A assms(2) _ this] False show ?thesis
      by (cases "gnu_qsort lt_val (Some 128) (length xs) xs") (auto simp: qsort_asc_val_F4_idx_I1_def seq_def)
  qed
qed

lemma qsort_idx_I1_limit_witness:
  "fst (qsort_asc_val_F4_idx_I1 (length (replicate 129 (0 :: 32 word, 0 :: 8 word))) (replicate 129 (0, 0))) = Inl Undef"
proof -
  have "\<not> is_nan (f4_val 0)" by (simp add: f4_val_def fp_of_bits_def F32_fmt_def)
  then have "\<forall>p\<in>set (replicate 129 (0 :: 32 word, 0 :: 8 word)). \<not> is_nan (f4_val (fst p))" by simp
  from qsort_idx_I1_limit [OF this] show ?thesis by simp
qed

lemma qsort_idx_I2_sorts:
  assumes "\<forall>p\<in>set xs. \<not> is_nan (f4_val (fst p))" "length xs \<le> 32768"
  shows "\<exists>ys. qsort_asc_val_F4_idx_I2 (length xs) xs = (Inr 0, ys) \<and> mset ys = mset xs \<and>
    sorted_wrt (\<lambda>p q. \<not> fp_less (f4_val (fst q)) (f4_val (fst p))) ys"
proof -
  have "set xs \<subseteq> {p. \<not> is_nan (f4_val (fst p))}" using assms(1) by auto
  from f4_idx.gnu_qsort_sorts [OF this, of "Some 32768"] assms(2) show ?thesis
    by (auto simp: qsort_asc_val_F4_idx_I2_def pos_fit_def lt_val_def seq_def ret_def)
qed

lemma qsort2_sorts:
  assumes "xs \<noteq> []" "length xs \<le> 2 ^ 31"
  shows "\<exists>ys. qsort2_asc_I4_basic (length xs) xs = (Inr 1, ys) \<and> mset ys = mset xs \<and> sorted (map (sint \<circ> fst) ys)"
  using i4_pair.gnu_qsort_sorts [of xs "Some (2 ^ 31)"] assms
  by (auto simp: qsort2_asc_I4_basic_def pos_fit_def lt_I4_def seq_def ret_def sorted_wrt_map not_less)

lemma qsort_F8_sorts:
  assumes "\<forall>x\<in>set xs. \<not> is_nan (f8_val x)" "length xs < 2 ^ 64"
  shows "\<exists>ys. qsort_asc_F8 (length xs) xs = (Inr (), ys) \<and> mset ys = mset xs \<and>
    sorted_wrt (\<lambda>a b. \<not> fp_less (f8_val b) (f8_val a)) ys"
  using f8.gnu_qsort_sorts [of xs None] assms by (auto simp: qsort_asc_F8_def pos_fit_def)

end
