(* ===== verification/Dt_Float.thy ===== *)
theory Dt_Float
  imports Sort_Thms
begin

text \<open>
  The arithmetic on \<open>double\<close> that \<open>DT/src/eval_metrics.c\<close> uses: every operation rounds its exact
  result to the nearest number of the format, ties to the even mantissa (IEEE 754).  The lemmas bound
  a rounded result by numbers of the format: rounding never crosses one.
\<close>

subsection \<open>Operations\<close>

text \<open>The number of the format nearest to \<open>m * 2 ^ e\<close>.\<close>

definition fp_scale :: "fmt \<Rightarrow> bool \<Rightarrow> nat \<Rightarrow> int \<Rightarrow> fp" where
  "fp_scale F neg m e = (if 0 \<le> e then fp_round F neg (m * 2 ^ nat e) 1 else fp_round F neg m (2 ^ nat (- e)))"

definition F8_of_nat :: "nat \<Rightarrow> fp" where
  "F8_of_nat n = fp_scale F64_fmt False n 0"

fun fp_neg :: "fp \<Rightarrow> fp" where
  "fp_neg (Fin n m e) = Fin (\<not> n) m e"
| "fp_neg (Infty n) = Infty (\<not> n)"
| "fp_neg (NaN n) = NaN (\<not> n)"

text \<open>A sum that is exactly zero is \<open>+0\<close>, unless both terms are negative.\<close>

fun fp_add :: "fp \<Rightarrow> fp \<Rightarrow> fp" where
  "fp_add (Fin n m e) (Fin n' m' e') =
    (let d = min e e';
         s = (if n then - int m else int m) * 2 ^ nat (e - d) + (if n' then - int m' else int m') * 2 ^ nat (e' - d)
     in fp_scale F64_fmt (if s = 0 then n \<and> n' else s < 0) (nat \<bar>s\<bar>) d)"
| "fp_add (NaN n) y = NaN n"
| "fp_add x (NaN n) = NaN n"
| "fp_add (Infty n) (Infty n') = (if n = n' then Infty n else NaN True)"
| "fp_add (Infty n) (Fin n' m' e') = Infty n"
| "fp_add (Fin n m e) (Infty n') = Infty n'"

definition fp_sub :: "fp \<Rightarrow> fp \<Rightarrow> fp" where
  "fp_sub x y = fp_add x (fp_neg y)"

fun fp_mul :: "fp \<Rightarrow> fp \<Rightarrow> fp" where
  "fp_mul (Fin n m e) (Fin n' m' e') = fp_scale F64_fmt (n \<noteq> n') (m * m') (e + e')"
| "fp_mul (NaN n) y = NaN n"
| "fp_mul x (NaN n) = NaN n"
| "fp_mul (Infty n) (Infty n') = Infty (n \<noteq> n')"
| "fp_mul (Infty n) (Fin n' m' e') = (if m' = 0 then NaN True else Infty (n \<noteq> n'))"
| "fp_mul (Fin n m e) (Infty n') = (if m = 0 then NaN True else Infty (n \<noteq> n'))"

fun fp_div :: "fp \<Rightarrow> fp \<Rightarrow> fp" where
  "fp_div (Fin n m e) (Fin n' m' e') =
    (if m' = 0 then if m = 0 then NaN True else Infty (n \<noteq> n')
     else if e' \<le> e then fp_round F64_fmt (n \<noteq> n') (m * 2 ^ nat (e - e')) m'
     else fp_round F64_fmt (n \<noteq> n') m (m' * 2 ^ nat (e' - e)))"
| "fp_div (NaN n) y = NaN n"
| "fp_div x (NaN n) = NaN n"
| "fp_div (Infty n) (Infty n') = NaN True"
| "fp_div (Infty n) (Fin n' m' e') = Infty (n \<noteq> n')"
| "fp_div (Fin n m e) (Infty n') = Fin (n \<noteq> n') 0 0"

fun fp_eq :: "fp \<Rightarrow> fp \<Rightarrow> bool" where
  "fp_eq x y = (\<not> is_nan x \<and> \<not> is_nan y \<and> \<not> fp_less x y \<and> \<not> fp_less y x)"

declare fp_eq.simps [simp del]

subsection \<open>Rounding does not cross a number of the format\<close>

lemma bitlen_pos [simp]: "bitlen 0 = 0"
  by (simp add: bitlen.simps)

lemma bitlen_bounds: "0 < n \<Longrightarrow> 2 ^ (bitlen n - 1) \<le> n \<and> n < 2 ^ bitlen n \<and> 0 < bitlen n"
proof (induction n rule: bitlen.induct)
  case (1 n)
  show ?case
  proof (cases "n div 2 = 0")
    case True
    with 1 have "n = 1" by simp
    then show ?thesis by (simp add: bitlen.simps)
  next
    case False
    with 1 have IH: "2 ^ (bitlen (n div 2) - 1) \<le> n div 2" "n div 2 < 2 ^ bitlen (n div 2)" "0 < bitlen (n div 2)"
      by simp_all
    have B: "bitlen n = Suc (bitlen (n div 2))" using "1.prems" by (simp add: bitlen.simps [of n])
    obtain k where K: "bitlen (n div 2) = Suc k" using IH(3) by (cases "bitlen (n div 2)") auto
    show ?thesis using IH unfolding B K by simp arith
  qed
qed

lemma rhe_lower: "k \<le> round_half_even num den" if "real k \<le> real num / real den" "0 < den"
proof -
  from that have "real (k * den) \<le> real num" by (simp add: field_simps)
  then have "k * den \<le> num" by linarith
  with that(2) have "k \<le> num div den" by (simp add: less_eq_div_iff_mult_less_eq)
  then show ?thesis by (simp add: round_half_even_def Let_def)
qed

lemma rhe_upper: "round_half_even num den \<le> k" if "real num / real den \<le> real k" "0 < den"
proof -
  from that have "real num \<le> real (k * den)" by (simp add: field_simps)
  then have L: "num \<le> k * den" by linarith
  show ?thesis
  proof (cases "num mod den = 0")
    case True
    then have "round_half_even num den = num div den" using that(2) by (simp add: round_half_even_def)
    also have "\<dots> \<le> k * den div den" using L by (rule div_le_mono)
    finally show ?thesis using that(2) by simp
  next
    case False
    then have "num \<noteq> k * den" by auto
    with L have "num < k * den" by simp
    with that(2) have "num div den < k" by (simp add: div_less_iff_less_mult)
    then show ?thesis by (simp add: round_half_even_def Let_def)
  qed
qed


text \<open>The scale that \<open>fp_round\<close> picks: the quotient has at most \<open>prec\<close> bits in front of the point, and exactly
  that many unless the exponent is the least one.\<close>

lemma pow_split: "(2 :: real) ^ nat (e - d) = 2 powr real_of_int e / 2 powr real_of_int d" if "d \<le> e"
  using scale_powr [OF that, of 1] by simp

lemma bitlen_quotient:
  assumes "0 < num" "0 < den"
  shows "2 powr real_of_int (int (bitlen num) - int (bitlen den) - 1) < real num / real den"
    "real num / real den < 2 powr real_of_int (int (bitlen num) - int (bitlen den) + 1)"
proof -
  obtain a where a: "bitlen num = Suc a" "2 ^ a \<le> num" "num < 2 ^ Suc a"
    using bitlen_bounds [OF assms(1)] by (cases "bitlen num") auto
  obtain b where b: "bitlen den = Suc b" "2 ^ b \<le> den" "den < 2 ^ Suc b"
    using bitlen_bounds [OF assms(2)] by (cases "bitlen den") auto
  have "real (2 ^ a) \<le> real num" "real num < real (2 ^ Suc a)" "real (2 ^ b) \<le> real den" "real den < real (2 ^ Suc b)"
    using a b by (simp_all only: of_nat_le_iff of_nat_less_iff)
  then have n: "2 powr real a \<le> real num" "real num < 2 powr (real a + 1)"
    and d: "2 powr real b \<le> real den" "real den < 2 powr (real b + 1)"
    by (simp_all add: powr_realpow powr_add)
  have "2 powr (real a - real b - 1) * real den < 2 powr (real a - real b - 1) * 2 powr (real b + 1)"
    using d by (intro mult_strict_left_mono) auto
  also have "\<dots> = 2 powr real a" by (simp flip: powr_add)
  also have "\<dots> \<le> real num" by (rule n)
  finally show "2 powr real_of_int (int (bitlen num) - int (bitlen den) - 1) < real num / real den"
    using assms a b by (simp add: field_simps)
  have "real num < 2 powr (real a + 1)" by (rule n)
  also have "\<dots> = 2 powr (real a - real b + 1) * 2 powr real b" by (simp flip: powr_add)
  also have "\<dots> \<le> 2 powr (real a - real b + 1) * real den" using d by (intro mult_left_mono) auto
  finally show "real num / real den < 2 powr real_of_int (int (bitlen num) - int (bitlen den) + 1)"
    using assms a b by (simp add: field_simps)
qed

lemma big_iff:
  assumes "0 < den"
  shows "(if 0 \<le> e then den * 2 ^ (nat e + p) \<le> num else den * 2 ^ p \<le> num * 2 ^ nat (- e)) \<longleftrightarrow>
    2 powr real_of_int (e + int p) \<le> real num / real den"
proof (cases "0 \<le> e")
  case True
  have "2 powr real_of_int (e + int p) = 2 ^ (nat e + p)"
    using True by (simp flip: powr_realpow)
  moreover have "den * 2 ^ (nat e + p) \<le> num \<longleftrightarrow> real (den * 2 ^ (nat e + p)) \<le> real num" by (simp only: of_nat_le_iff)
  ultimately show ?thesis using True assms by (simp add: field_simps)
next
  case False
  have P: "2 powr real_of_int (e + int p) = 2 ^ p / 2 ^ nat (- e)"
    using False by (simp add: powr_diff powr_add powr_minus_divide flip: powr_realpow)
  have "den * 2 ^ p \<le> num * 2 ^ nat (- e) \<longleftrightarrow> real (den * 2 ^ p) \<le> real (num * 2 ^ nat (- e))"
    by (simp only: of_nat_le_iff)
  also have "\<dots> \<longleftrightarrow> 2 powr real_of_int (e + int p) \<le> real num / real den"
    unfolding P using assms by (simp add: field_simps)
  finally show ?thesis using False by simp
qed

lemma pick_exp_bounds:
  assumes "0 < num" "0 < den"
  shows "real num / real den < 2 powr real_of_int (pick_exp F num den + int (prec F))"
    "emin F \<le> pick_exp F num den"
    "emin F < pick_exp F num den \<Longrightarrow> 2 powr real_of_int (pick_exp F num den + int (prec F) - 1) \<le> real num / real den"
proof -
  define e where "e = int (bitlen num) - int (bitlen den) - int (prec F)"
  have B: "pick_exp F num den = max (emin F) (if 2 powr real_of_int (e + int (prec F)) \<le> real num / real den then e + 1 else e)"
    unfolding pick_exp_def Let_def big_iff [OF assms(2)] e_def ..
  note Q = bitlen_quotient [OF assms]
  have up: "real num / real den < 2 powr real_of_int (e + int (prec F) + 1)" 
    and lo: "2 powr real_of_int (e + int (prec F) - 1) \<le> real num / real den" 
    using Q by (simp_all add: e_def)
  show "emin F \<le> pick_exp F num den" unfolding B by simp
  show "real num / real den < 2 powr real_of_int (pick_exp F num den + int (prec F))"
  proof (cases "2 powr real_of_int (e + int (prec F)) \<le> real num / real den")
    case True
    have "2 powr real_of_int (e + int (prec F) + 1) \<le> 2 powr real_of_int (pick_exp F num den + int (prec F))"
      unfolding B using True by (intro powr_mono) auto
    with up show ?thesis by linarith
  next
    case False
    have "2 powr real_of_int (e + int (prec F)) \<le> 2 powr real_of_int (pick_exp F num den + int (prec F))"
      unfolding B using False by (intro powr_mono) auto
    with False show ?thesis by linarith
  qed
  assume "emin F < pick_exp F num den"
  then have "pick_exp F num den = (if 2 powr real_of_int (e + int (prec F)) \<le> real num / real den then e + 1 else e)"
    unfolding B by (simp add: max_def split: if_splits)
  then show "2 powr real_of_int (pick_exp F num den + int (prec F) - 1) \<le> real num / real den"
    using lo by (simp split: if_splits)
qed


text \<open>The numbers of a format, and a value known to be finite and between two bounds.\<close>

definition repr :: "fmt \<Rightarrow> real \<Rightarrow> bool" where
  "repr F r \<longleftrightarrow> (\<exists>k q. \<bar>r\<bar> = real k * 2 powr real_of_int q \<and> k < 2 ^ prec F \<and> emin F \<le> q \<and> q \<le> emax F)"

definition is_fin :: "fp \<Rightarrow> bool" where
  "is_fin v \<longleftrightarrow> fp_rank v = 0 \<and> \<not> is_nan v"

definition between :: "real \<Rightarrow> real \<Rightarrow> fp \<Rightarrow> bool" where
  "between a b v \<longleftrightarrow> is_fin v \<and> a \<le> fp_value v \<and> fp_value v \<le> b"

lemma scaled_rhe:
  assumes "0 < den"
  obtains N D where "scaled num den e = round_half_even N D" "0 < D"
    "real N / real D = real num / real den / 2 powr real_of_int e"
proof (cases "0 \<le> e")
  case True
  have "2 powr real_of_int e = 2 ^ nat e" using True by (simp flip: powr_realpow)
  then show ?thesis using True assms
    by (intro that [of num "den * 2 ^ nat e"]) (simp_all add: scaled_def)
next
  case False
  have P: "2 powr real_of_int e = 1 / 2 ^ nat (- e)"
    using False by (simp add: powr_minus_divide flip: powr_realpow)
  show ?thesis
  proof (rule that [of "num * 2 ^ nat (- e)" den])
    show "scaled num den e = round_half_even (num * 2 ^ nat (- e)) den" using False by (simp add: scaled_def)
    show "real (num * 2 ^ nat (- e)) / real den = real num / real den / 2 powr real_of_int e"
      unfolding P by simp
  qed (rule assms)
qed

lemma scaled_lower: "0 < den \<Longrightarrow> real k \<le> real num / real den / 2 powr real_of_int e \<Longrightarrow> k \<le> scaled num den e"
  by (rule scaled_rhe [of den num e]) (auto intro: rhe_lower)

lemma scaled_upper: "0 < den \<Longrightarrow> real num / real den / 2 powr real_of_int e \<le> real k \<Longrightarrow> scaled num den e \<le> k"
  by (rule scaled_rhe [of den num e]) (auto intro: rhe_upper)

lemma repr_minus: "repr F (- r) \<longleftrightarrow> repr F r"
  by (simp add: repr_def)

text \<open>A bound that is a number of the format is, on the scale of the result, a whole number, or it lies below
  every result of this scale.\<close>

lemma repr_scale:
  assumes "repr F r" "0 \<le> r" "emin F \<le> e"
  obtains k where "r = real k * 2 powr real_of_int e"
  | "emin F < e" "r < 2 powr real_of_int (e + int (prec F) - 1)"
proof -
  from assms obtain k q where r: "r = real k * 2 powr real_of_int q" "k < 2 ^ prec F" "emin F \<le> q"
    by (auto simp: repr_def)
  show ?thesis
  proof (cases "e \<le> q")
    case True
    have "r = real (k * 2 ^ nat (q - e)) * 2 powr real_of_int e"
      using pow_split [OF True] by (simp add: r)
    then show ?thesis by (rule that(1))
  next
    case False
    have "real k < real (2 ^ prec F)" using r(2) by (simp only: of_nat_less_iff)
    then have "r < 2 powr real (prec F) * 2 powr real_of_int q" using r by (simp add: powr_realpow)
    also have "\<dots> = 2 powr real_of_int (q + int (prec F))" by (simp add: powr_add)
    also have "\<dots> \<le> 2 powr real_of_int (e + int (prec F) - 1)" using False by (intro powr_mono) auto
    finally show ?thesis using False r(3) by (intro that(2)) auto
  qed
qed

lemma fp_value_pow: "fp_value (Fin neg (2 ^ (p - 1)) (e + 1)) = fp_value (Fin neg (2 ^ p) e)" if "0 < p"
  using that by (cases p) (simp_all add: powr_add)

lemma powr_prec: "0 < p \<Longrightarrow> 2 powr real_of_int (e + int p - 1) = real (2 ^ (p - 1)) * 2 powr real_of_int e"
  by (cases p) (simp_all add: powr_add powr_realpow)

text \<open>The magnitude of a rounded quotient.\<close>

lemma fp_round_between:
  assumes den: "0 < den" and a: "repr F a" "0 \<le> a" "a \<le> real num / real den"
    and b: "repr F b" "real num / real den \<le> b" and F: "0 < prec F" "emin F \<le> emax F"
  obtains m e where "fp_round F neg num den = Fin neg m e" "a \<le> real m * 2 powr real_of_int e" "real m * 2 powr real_of_int e \<le> b"
proof (cases "num = 0")
  case True
  have "fp_round F neg num den = Fin neg 0 (emin F)" using True by (simp add: fp_round_def)
  then show ?thesis by (rule that) (use True a b in auto)
next
  case False
  then have num: "0 < num" by simp
  define e where "e = pick_exp F num den"
  define m where "m = scaled num den e"
  let ?x = "real num / real den"
  note E = pick_exp_bounds [OF num den, of F, folded e_def]
  have b0: "0 \<le> b" using a b by linarith
  have A: "a \<le> real m * 2 powr real_of_int e"
  proof (rule repr_scale [OF a(1,2) E(2)])
    fix k assume k: "a = real k * 2 powr real_of_int e"
    then have "real k = a / 2 powr real_of_int e" by simp
    also have "\<dots> \<le> ?x / 2 powr real_of_int e" using a(3) by (rule divide_right_mono) simp
    finally have "k \<le> m" unfolding m_def by (rule scaled_lower [OF den])
    then show ?thesis by (simp add: k)
  next
    assume *: "emin F < e" "a < 2 powr real_of_int (e + int (prec F) - 1)"
    note H = powr_prec [OF F(1), of e]
    have "2 ^ (prec F - 1) \<le> m"
      unfolding m_def using E(3) [OF *(1)] unfolding H by (intro scaled_lower [OF den]) (simp only: pos_le_divide_eq powr_gt_zero)
    then have "real (2 ^ (prec F - 1)) \<le> real m" by (simp only: of_nat_le_iff)
    then have "2 powr real_of_int (e + int (prec F) - 1) \<le> real m * 2 powr real_of_int e" unfolding H by simp
    with * show ?thesis by linarith
  qed
  have B: "real m * 2 powr real_of_int e \<le> b"
  proof (rule repr_scale [OF b(1) b0 E(2)])
    fix k assume k: "b = real k * 2 powr real_of_int e"
    have "?x / 2 powr real_of_int e \<le> b / 2 powr real_of_int e" using b(2) by (rule divide_right_mono) simp
    also have "\<dots> = real k" by (simp add: k)
    finally have "m \<le> k" unfolding m_def by (rule scaled_upper [OF den])
    then show ?thesis by (simp add: k)
  next
    assume *: "emin F < e" "b < 2 powr real_of_int (e + int (prec F) - 1)"
    with E(3) b(2) show ?thesis by linarith
  qed
  define me where "me = (if m = 2 ^ prec F then (2 ^ (prec F - 1), e + 1) else (m, e))"
  obtain m' e' where me: "me = (m', e')" by (cases me)
  have V: "real m' * 2 powr real_of_int e' = real m * 2 powr real_of_int e"
    using me fp_value_pow [OF F(1), of False e] by (auto simp: me_def split: if_splits)
  have "e' \<le> emax F"
  proof (rule ccontr)
    assume "\<not> e' \<le> emax F"
    then have e': "emax F + 1 \<le> e'" by simp
    obtain k q where r: "b = real k * 2 powr real_of_int q" "k < 2 ^ prec F" "q \<le> emax F"
      using b(1) b0 by (auto simp: repr_def)
    have "2 ^ (prec F - 1) \<le> m'"
    proof (cases "m = 2 ^ prec F")
      case True then show ?thesis using me by (simp add: me_def)
    next
      case False
      then have [simp]: "m' = m" "e' = e" using me by (simp_all add: me_def)
      have *: "emin F < e" using e' F by simp
      note H = powr_prec [OF F(1), of e]
      show ?thesis
        unfolding m_def \<open>m' = m\<close> using E(3) [OF *(1)] unfolding H by (intro scaled_lower [OF den]) (simp only: pos_le_divide_eq powr_gt_zero)
    qed
    then have m': "real (2 ^ (prec F - 1)) \<le> real m'" by (simp only: of_nat_le_iff)
    have "real k < real (2 ^ prec F)" using r(2) by (simp only: of_nat_less_iff)
    then have "b < real (2 ^ prec F) * 2 powr real_of_int q" using r by simp
    also have "\<dots> \<le> real (2 ^ prec F) * 2 powr real_of_int (emax F)" using r(3) by (intro mult_left_mono powr_mono) auto
    also have "\<dots> = real (2 ^ (prec F - 1)) * 2 powr real_of_int (emax F + 1)"
      using F by (cases "prec F") (simp_all add: powr_add)
    also have "\<dots> \<le> real m' * 2 powr real_of_int e'"
      using m' e' by (intro mult_mono powr_mono) auto
    finally show False using B V by linarith
  qed
  moreover have "fp_round F neg num den = (case me of (m', e') \<Rightarrow> if emax F < e' then Infty neg else Fin neg m' e')"
    unfolding fp_round_def Let_def me_def m_def e_def using False by (simp only: if_False)
  ultimately have "fp_round F neg num den = Fin neg m' e'" by (simp add: me)
  then show ?thesis by (rule that) (use A B V in auto)
qed


subsection \<open>Bounds of the operations on doubles\<close>

text \<open>Bounds that are numbers of the format on the exact result are bounds on the rounded one.\<close>

lemma between_signed:
  assumes a: "repr F a" "a \<le> r" and b: "repr F b" "r \<le> b"
    and r: "r = (if neg then - x else x)" "0 \<le> x"
    and v: "\<And>a b. repr F a \<Longrightarrow> 0 \<le> a \<Longrightarrow> a \<le> x \<Longrightarrow> repr F b \<Longrightarrow> x \<le> b \<Longrightarrow>
      \<exists>m e. v = Fin neg m e \<and> a \<le> real m * 2 powr real_of_int e \<and> real m * 2 powr real_of_int e \<le> b"
    and zero: "repr F 0"
  shows "between a b v"
proof (cases neg)
  case True
  have "repr F (max 0 (- b))" using b zero by (simp add: max_def repr_minus)
  moreover have "repr F (- a)" using a by (simp add: repr_minus)
  moreover have "max 0 (- b) \<le> x" "x \<le> - a" using a(2) b(2) r True by simp_all
  ultimately obtain m e where "v = Fin neg m e" "max 0 (- b) \<le> real m * 2 powr real_of_int e" "real m * 2 powr real_of_int e \<le> - a"
    using v [of "max 0 (- b)" "- a"] by auto
  then show ?thesis using True by (simp add: between_def is_fin_def)
next
  case False
  have "repr F (max 0 a)" using a zero by (simp add: max_def)
  moreover have "max 0 a \<le> x" "x \<le> b" using a(2) b(2) r False by simp_all
  ultimately obtain m e where "v = Fin neg m e" "max 0 a \<le> real m * 2 powr real_of_int e" "real m * 2 powr real_of_int e \<le> b"
    using v [of "max 0 a" b] b(1) by auto
  then show ?thesis using False by (simp add: between_def is_fin_def)
qed

lemma repr_0 [simp]: "emin F \<le> emax F \<Longrightarrow> repr F 0"
  unfolding repr_def by (intro exI [of _ 0] exI [of _ "emin F"]) simp

lemma F64_simps [simp]: "prec F64_fmt = 53" "emin F64_fmt = - 1074" "emax F64_fmt = 971"
  by (simp_all add: F64_fmt_def)

lemma round_between:
  assumes "0 < den" "repr F64_fmt a" "repr F64_fmt b"
    "a \<le> (if neg then - (real num / real den) else real num / real den)"
    "(if neg then - (real num / real den) else real num / real den) \<le> b"
  shows "between a b (fp_round F64_fmt neg num den)"
proof (rule between_signed [OF assms(2,4,3,5) refl])
  fix a b assume "repr F64_fmt a" "0 \<le> a" "a \<le> real num / real den" "repr F64_fmt b" "real num / real den \<le> b"
  then show "\<exists>m e. fp_round F64_fmt neg num den = Fin neg m e \<and> a \<le> real m * 2 powr real_of_int e \<and> real m * 2 powr real_of_int e \<le> b"
    by (rule_tac fp_round_between [OF assms(1), of F64_fmt a num b neg]) auto
qed simp_all

lemma fp_scale_quot:
  obtains num den where "fp_scale F neg m e = fp_round F neg num den" "0 < den"
    "real num / real den = real m * 2 powr real_of_int e"
proof (cases "0 \<le> e")
  case True
  then have "2 powr real_of_int e = 2 ^ nat e" by (simp flip: powr_realpow)
  then show ?thesis using True by (intro that [of "m * 2 ^ nat e" 1]) (simp_all add: fp_scale_def)
next
  case False
  then have "2 powr real_of_int e = 1 / 2 ^ nat (- e)" by (simp add: powr_minus_divide flip: powr_realpow)
  then show ?thesis using False by (intro that [of m "2 ^ nat (- e)"]) (simp_all add: fp_scale_def)
qed

lemma scale_between:
  assumes "repr F64_fmt a" "repr F64_fmt b" "a \<le> fp_value (Fin neg m e)" "fp_value (Fin neg m e) \<le> b"
  shows "between a b (fp_scale F64_fmt neg m e)"
proof (rule fp_scale_quot [of F64_fmt neg m e])
  fix num den assume *: "fp_scale F64_fmt neg m e = fp_round F64_fmt neg num den" "0 < den"
    "real num / real den = real m * 2 powr real_of_int e"
  show ?thesis unfolding *(1) using assms * by (intro round_between) (auto split: if_splits)
qed

lemma is_finE: "is_fin v \<Longrightarrow> (\<And>neg m e. v = Fin neg m e \<Longrightarrow> thesis) \<Longrightarrow> thesis"
  by (cases v) (auto simp: is_fin_def split: if_splits)

lemma betweenD: "between a b v \<Longrightarrow> is_fin v" "between a b v \<Longrightarrow> a \<le> fp_value v" "between a b v \<Longrightarrow> fp_value v \<le> b"
  by (simp_all add: between_def)

lemma is_fin_Fin [simp]: "is_fin (Fin n m e)"
  by (simp add: is_fin_def)

lemma fin_value: "fp_value (Fin n m e) = real_of_int (if n then - int m else int m) * 2 powr real_of_int e"
  by simp

lemma add_between:
  assumes "is_fin x" "is_fin y" "repr F64_fmt a" "repr F64_fmt b" "a \<le> fp_value x + fp_value y" "fp_value x + fp_value y \<le> b"
  shows "between a b (fp_add x y)"
proof -
  obtain n m e n' m' e' where [simp]: "x = Fin n m e" "y = Fin n' m' e'" using assms by (auto elim!: is_finE)
  define d where "d = min e e'"
  define s where "s = (if n then - int m else int m) * 2 ^ nat (e - d) + (if n' then - int m' else int m') * 2 ^ nat (e' - d)"
  have "real_of_int s * 2 powr real_of_int d = fp_value x + fp_value y"
    unfolding s_def fin_value \<open>x = _\<close> \<open>y = _\<close> of_int_add
    using scale_powr [of d e "if n then - int m else int m"] scale_powr [of d e' "if n' then - int m' else int m'"]
    by (simp add: d_def distrib_right)
  moreover have "fp_value (Fin (if s = 0 then n \<and> n' else s < 0) (nat \<bar>s\<bar>) d) = real_of_int s * 2 powr real_of_int d"
    by (auto simp: algebra_simps)
  ultimately have "between a b (fp_scale F64_fmt (if s = 0 then n \<and> n' else s < 0) (nat \<bar>s\<bar>) d)"
    using assms(3-6) by (intro scale_between) (simp_all only:)
  then show ?thesis unfolding \<open>x = _\<close> \<open>y = _\<close> fp_add.simps(1) Let_def d_def s_def .
qed

lemma neg_value [simp]: "fp_value (fp_neg v) = - fp_value v"
  by (cases v) auto

lemma neg_fin [simp]: "is_fin (fp_neg v) = is_fin v"
  by (cases v) (auto simp: is_fin_def)

lemma sub_between:
  assumes "is_fin x" "is_fin y" "repr F64_fmt a" "repr F64_fmt b" "a \<le> fp_value x - fp_value y" "fp_value x - fp_value y \<le> b"
  shows "between a b (fp_sub x y)"
  unfolding fp_sub_def using assms by (intro add_between) auto

lemma mul_between:
  assumes "is_fin x" "is_fin y" "repr F64_fmt a" "repr F64_fmt b" "a \<le> fp_value x * fp_value y" "fp_value x * fp_value y \<le> b"
  shows "between a b (fp_mul x y)"
proof -
  obtain n m e n' m' e' where [simp]: "x = Fin n m e" "y = Fin n' m' e'" using assms by (auto elim!: is_finE)
  have "fp_value (Fin (n \<noteq> n') (m * m') (e + e')) = fp_value x * fp_value y" by (auto simp: powr_add)
  with assms(3-6) have "between a b (fp_scale F64_fmt (n \<noteq> n') (m * m') (e + e'))" by (intro scale_between) auto
  then show ?thesis by simp
qed

lemma div_between:
  assumes "is_fin x" "is_fin y" "fp_value y \<noteq> 0" "repr F64_fmt a" "repr F64_fmt b" "a \<le> fp_value x / fp_value y" "fp_value x / fp_value y \<le> b"
  shows "between a b (fp_div x y)"
proof -
  obtain n m e n' m' e' where [simp]: "x = Fin n m e" "y = Fin n' m' e'" using assms by (auto elim!: is_finE)
  from assms(3) have m': "0 < m'" by (cases "m' = 0") (auto split: if_splits)
  show ?thesis
  proof (cases "e' \<le> e")
    case True
    have "(if n \<noteq> n' then - (real (m * 2 ^ nat (e - e')) / real m') else real (m * 2 ^ nat (e - e')) / real m') = fp_value x / fp_value y"
      using pow_split [OF True] m' by auto
    with assms(4-7) m' have "between a b (fp_round F64_fmt (n \<noteq> n') (m * 2 ^ nat (e - e')) m')"
      by (intro round_between) auto
    then show ?thesis using True m' by simp
  next
    case False
    then have "e \<le> e'" by simp
    have "(if n \<noteq> n' then - (real m / real (m' * 2 ^ nat (e' - e))) else real m / real (m' * 2 ^ nat (e' - e))) = fp_value x / fp_value y"
      using pow_split [OF \<open>e \<le> e'\<close>] m' by auto
    with assms(4-7) m' have "between a b (fp_round F64_fmt (n \<noteq> n') m (m' * 2 ^ nat (e' - e)))"
      by (intro round_between) auto
    then show ?thesis using False m' by simp
  qed
qed

text \<open>Natural numbers with at most 53 bits are exact.\<close>

lemma repr_nat: "n < 2 ^ 53 \<Longrightarrow> repr F64_fmt (real n)"
  unfolding repr_def by (intro exI [of _ n] exI [of _ 0]) simp

lemma repr_frac: "k < 2 ^ 53 \<Longrightarrow> q \<le> 971 \<Longrightarrow> - 1074 \<le> q \<Longrightarrow> \<bar>r\<bar> = real k * 2 powr real_of_int q \<Longrightarrow> repr F64_fmt r"
  unfolding repr_def by (intro exI [of _ k] exI [of _ q]) simp

lemma F8_of_nat: "n < 2 ^ 53 \<Longrightarrow> is_fin (F8_of_nat n) \<and> fp_value (F8_of_nat n) = real n"
  using scale_between [of "real n" "real n" False n 0] by (auto simp: F8_of_nat_def between_def repr_nat)

end
