(* ===== verification/Dt_Data.thy ===== *)
theory Dt_Data
  imports Dt_Float
begin

text \<open>
  The data of the decision-tree builder (\<open>DT\<close>): its configuration, the nodes of the tree, the generated
  data set, and the encoding of a feature as 64-bit composite values (\<open>DT/src/preproc_j.c\<close>).

  Floats are kept as their 32 bits.  A feature \<open>j\<close> is a record of the three arrays \<open>Y[j]\<close>, \<open>tmpY[j]\<close> and
  \<open>to[j]\<close>.  Unsigned integers are natural numbers; arithmetic on them is written with \<open>u32\<close> where it can
  wrap.  The build is the scalar one without \<open>DEBUG\<close> and \<open>SEQUENTIAL\<close>.
\<close>

unbundle bit_operations_syntax

subsection \<open>Types (\<open>DT/inc/types.h\<close>)\<close>

record four_nums_t =
  n_T_L :: nat
  n_H_L :: nat
  n_T_R :: nat
  n_H_R :: nat

record node_t =
  nd_depth :: int
  lchild_id :: int
  rchild_id :: int
  parent_id :: int
  nd_yidx :: int
  nd_yval :: nat
  nd_xval :: "32 word"
  nd_nH :: nat
  nd_nT :: nat

record config_t =
  min_percentage_improvement :: "32 word"
  dump_binary_data :: bool
  read_binary_data :: bool
  is_verbose :: bool
  is_debug :: bool
  max_depth :: nat
  min_leaf_size :: nat
  num_features :: nat
  num_instances :: nat
  metrics_buffer_size :: nat
  min_partition_size :: nat
  max_nodes_in_tree :: nat
  num_cores :: nat

record feature =
  f_Y :: "64 word list"
  f_tmpY :: "64 word list"
  f_to :: "nat list"

subsection \<open>Configuration (\<open>DT/src/read_config.c\<close>)\<close>

text \<open>\<open>procs\<close> is what \<open>omp_get_num_procs\<close> returns.\<close>

definition read_config :: "nat \<Rightarrow> config_t" where
  "read_config procs =
    \<lparr>min_percentage_improvement = 0, dump_binary_data = False, read_binary_data = False, is_verbose = False,
     is_debug = False, max_depth = 16, min_leaf_size = 32, num_features = 4, num_instances = 32 * 1024,
     metrics_buffer_size = 8, min_partition_size = 32, max_nodes_in_tree = 4096,
     num_cores = (if 4 < procs then 4 else procs)\<rparr>"

subsection \<open>The generated data set (\<open>DT/src/make_data.c\<close>)\<close>

text \<open>\<open>rnd k\<close> is the value of the \<open>k\<close>-th call of \<open>random()\<close>, and the state is the number of calls so far.\<close>

type_synonym 'a rprog = "(nat, 'a) prog"

definition random :: "(nat \<Rightarrow> nat) \<Rightarrow> nat rprog" where
  "random rnd k = (Inr (rnd k), Suc k)"

text \<open>The conversion of an unsigned integer to \<open>float\<close>.\<close>

definition F4_of_nat :: "nat \<Rightarrow> 32 word" where
  "F4_of_nat n = of_nat (fp_bits F32_fmt 32 (fp_scale F32_fmt False n 0))"

text \<open>The bound of the loop is the unsigned \<open>n - 2\<close>; a remainder by zero and an access out of bounds are
  undefined.\<close>

definition init_and_permute :: "(nat \<Rightarrow> nat) \<Rightarrow> 32 word list \<Rightarrow> nat \<Rightarrow> 32 word list rprog" where
  "init_and_permute rnd X n =
    for_fold [0..<Suc (u32_sub n 2)] X (\<lambda>i X.
      seq (undef_if (u32_sub n i = 0)) (\<lambda>_.
      seq (random rnd) (\<lambda>r.
      let j = u32 (i + r mod u32_sub n i) in
      seq (undef_if (length X \<le> i \<or> length X \<le> j)) (\<lambda>_.
      ret (X[i := X ! j, j := X ! i])))))"

definition make_data :: "(nat \<Rightarrow> nat) \<Rightarrow> nat \<Rightarrow> nat \<Rightarrow> (32 word list list \<times> nat list) rprog" where
  "make_data rnd m n =
    seq (bye_if (2 ^ 31 \<le> n) (- 1)) (\<lambda>_.
    seq (for_fold [0..<m] [] (\<lambda>j Xs.
      seq (init_and_permute rnd (map (\<lambda>i. F4_of_nat (i + 1)) [0..<n]) n) (\<lambda>X. ret (Xs @ [X])))) (\<lambda>Xs.
    seq (for_fold [0..<n] [] (\<lambda>i g. seq (random rnd) (\<lambda>r. ret (g @ [r mod 2])))) (\<lambda>g.
    ret (Xs, g))))"

subsection \<open>Composite values (\<open>DT/inc/macros.h\<close>, \<open>DT/src/preproc_j.c\<close>)\<close>

definition get_from :: "64 word \<Rightarrow> nat" where
  "get_from x = unat (drop_bit 32 x)"

definition get_goal :: "64 word \<Rightarrow> nat" where
  "get_goal x = unat (drop_bit 31 x AND 1)"

definition get_yval :: "64 word \<Rightarrow> nat" where
  "get_yval x = unat (x AND 0x7FFFFFFF)"

definition x_mk_comp_val :: "64 word \<Rightarrow> 64 word \<Rightarrow> 64 word \<Rightarrow> 64 word" where
  "x_mk_comp_val from goal yval =
    (let tmp1 = push_bit 32 from; tmp2 = push_bit 31 goal; tmp3 = tmp1 OR tmp2 in tmp3 OR yval)"

record comp_key_t =
  ck_xval :: "32 word"
  ck_idx :: nat
  ck_g :: nat

definition sortfn :: "comp_key_t \<Rightarrow> comp_key_t \<Rightarrow> int" where
  "sortfn r1 r2 = (if fp_less (f4_val (ck_xval r1)) (f4_val (ck_xval r2)) then - 1 else 1)"

text \<open>The C library's \<open>qsort\<close> is a parameter \<open>qs\<close>: a comparison and the elements give the sorted elements.
  What the code relies on: a permutation in which no element is below an earlier one.  The standard promises it
  for comparisons that are consistent; \<open>sortfn\<close> is not when two values are equal (it answers 1 in both directions), and
  the code relies on the same outcome then, which the sort of \<open>Dt_Thms\<close> delivers.\<close>

type_synonym 'a sorter = "('a \<Rightarrow> 'a \<Rightarrow> int) \<Rightarrow> 'a list \<Rightarrow> 'a list"

definition sorts :: "'a sorter \<Rightarrow> ('a \<Rightarrow> 'a \<Rightarrow> int) \<Rightarrow> 'a list \<Rightarrow> bool" where
  "sorts qs cmp xs \<longleftrightarrow> mset (qs cmp xs) = mset xs \<and> sorted_wrt (\<lambda>a b. \<not> cmp b a < 0) (qs cmp xs)"

text \<open>The loop over the sorted keys: a new value gets the next code.\<close>

fun encode :: "32 word \<Rightarrow> nat \<Rightarrow> comp_key_t list \<Rightarrow> 64 word list" where
  "encode xval yval [] = []"
| "encode xval yval (c # cs) =
    (let g_i = ck_g c;
         (xval, yval) = (if \<not> fp_eq (f4_val (ck_xval c)) (f4_val xval) then (ck_xval c, u32 (yval + 1)) else (xval, yval));
         from_i = ck_idx c
     in x_mk_comp_val (of_nat from_i) (of_nat g_i) (of_nat yval) # encode xval yval cs)"

text \<open>\<open>to[get_from(Yj[i])] = i\<close> for every \<open>i\<close>; the array is not initialised before.\<close>

definition mk_to :: "nat \<Rightarrow> 64 word list \<Rightarrow> ('s, nat list) prog" where
  "mk_to n Y = for_fold [0..<n] (replicate n 0) (\<lambda>i to.
     let pos = get_from (Y ! i) in
     seq (bye_if (n \<le> pos) (- 1)) (\<lambda>_. ret (to[pos := i])))"

text \<open>With \<open>is_debug\<close> the first composite value is taken apart again, and the array \<open>alt_to\<close> of \<open>n\<close> words is
  written at index \<open>i\<close>, which is \<open>n\<close> there.  With no instances \<open>C[0]\<close> is read from an empty block.\<close>

definition preproc_j :: "config_t \<Rightarrow> comp_key_t sorter \<Rightarrow> 32 word list \<Rightarrow> nat \<Rightarrow> nat list \<Rightarrow> ('s, 64 word list \<times> nat list) prog" where
  "preproc_j C qs Xj n g =
    seq (undef_if (length Xj < n \<or> length g < n)) (\<lambda>_.
    case qs sortfn (map (\<lambda>i. \<lparr>ck_xval = Xj ! i, ck_idx = i, ck_g = g ! i\<rparr>) [0..<n]) of
      [] \<Rightarrow> stop Undef
    | c # cs \<Rightarrow>
        let y0 = x_mk_comp_val (of_nat (ck_idx c)) (of_nat (ck_g c)) (of_nat 1);
            Y = y0 # encode (ck_xval c) 1 cs
        in seq (bye_if (is_debug C \<and> (get_yval y0 \<noteq> 1 \<or> get_goal y0 \<noteq> ck_g c \<or> get_from y0 \<noteq> ck_idx c)) (- 1)) (\<lambda>_.
           seq (mk_to n Y) (\<lambda>to.
           seq (undef_if (is_debug C)) (\<lambda>_.
           ret (Y, to)))))"

end
