(* ===== verification/Dt_Search.thy ===== *)
theory Dt_Search
  imports Dt_Data Qstate
begin

text \<open>
  Searching a segment \<open>lb .. ub - 1\<close> of the sorted features for the best split: \<open>DT/src/accumulate.c\<close>,
  \<open>eval_metrics.c\<close>, \<open>calc_best_metric.c\<close>, \<open>search_j.c\<close> and \<open>search.c\<close>.

  The buffers \<open>g_M[j]\<close> are cleared at the start of \<open>search_j\<close> and are its working state, with the counter
  \<open>g_num_gini_calc\<close>.  The loops over the features that run in parallel touch different elements of the arrays;
  they are run in order.
\<close>

subsection \<open>The buffer of candidates (\<open>metrics_t\<close>)\<close>

record metrics_t =
  m_yval :: "nat list"
  m_yidx :: "nat list"
  m_nT :: "nat list"
  m_nH :: "nat list"
  m_metric :: "fp list"
  m_gini :: nat

type_synonym 'a mprog = "(metrics_t, 'a) prog"

definition m_ok :: "nat \<Rightarrow> metrics_t \<Rightarrow> bool" where
  "m_ok k M \<longleftrightarrow> k < length (m_yval M) \<and> k < length (m_yidx M) \<and> k < length (m_nT M) \<and> k < length (m_nH M) \<and> k < length (m_metric M)"

definition m_upd :: "nat \<Rightarrow> (metrics_t \<Rightarrow> metrics_t) \<Rightarrow> unit mprog" where
  "m_upd k f = seq get_st (\<lambda>M. seq (undef_if (\<not> m_ok k M)) (\<lambda>_. put_st (f M)))"

definition set_cand :: "nat \<Rightarrow> nat \<Rightarrow> nat \<Rightarrow> nat \<Rightarrow> nat \<Rightarrow> unit mprog" where
  "set_cand k yidx yval nT nH = m_upd k (\<lambda>M. M\<lparr>m_yidx := (m_yidx M)[k := yidx], m_yval := (m_yval M)[k := yval],
     m_nT := (m_nT M)[k := nT], m_nH := (m_nH M)[k := nH]\<rparr>)"

definition count_goal :: "nat \<Rightarrow> nat \<Rightarrow> unit mprog" where
  "count_goal k goal = m_upd k (\<lambda>M. if goal = 0 then M\<lparr>m_nT := (m_nT M)[k := u32 (m_nT M ! k + 1)]\<rparr>
     else M\<lparr>m_nH := (m_nH M)[k := u32 (m_nH M ! k + 1)]\<rparr>)"

definition set_yidx :: "nat \<Rightarrow> nat \<Rightarrow> unit mprog" where
  "set_yidx k yidx = m_upd k (\<lambda>M. M\<lparr>m_yidx := (m_yidx M)[k := yidx]\<rparr>)"

subsection \<open>\<open>accumulate\<close>\<close>

text \<open>The result is \<open>*ptr_nbuf\<close> and \<open>*ptr_lb\<close>.\<close>

function acc_loop :: "config_t \<Rightarrow> 64 word list \<Rightarrow> nat \<Rightarrow> nat \<Rightarrow> nat \<Rightarrow> nat \<Rightarrow> nat \<Rightarrow> nat \<Rightarrow> (nat \<times> nat) mprog" where
  "acc_loop C Y ub i curr_yval nbuf consumed_so_far left_to_consume =
    (if ub \<le> i then seq (bye_if (metrics_buffer_size C < nbuf) (- 1)) (\<lambda>_. ret (nbuf, ub))
     else if length Y \<le> i then stop Undef
     else
       let yval_i = get_yval (Y ! i); goal_i = get_goal (Y ! i) in
       if yval_i \<noteq> curr_yval \<and> min_partition_size C \<le> consumed_so_far \<and> min_partition_size C \<le> left_to_consume then
         if nbuf = metrics_buffer_size C then ret (nbuf, i)
         else
           seq (seq get_st (\<lambda>M. steps [set_cand nbuf i yval_i (m_nT M ! (nbuf - 1)) (m_nH M ! (nbuf - 1)), count_goal nbuf goal_i])) (\<lambda>_.
           acc_loop C Y ub (Suc i) yval_i (nbuf + 1) (u32 (consumed_so_far + 1)) (u32_sub left_to_consume 1))
       else
         seq (steps [set_yidx (nbuf - 1) i, count_goal (nbuf - 1) goal_i]) (\<lambda>_.
         acc_loop C Y ub (Suc i) curr_yval nbuf (u32 (consumed_so_far + 1)) (u32_sub left_to_consume 1)))"
  by pat_completeness auto

termination
  by (relation "measure (\<lambda>(C, Y, ub, i, _). ub - i)") auto

declare acc_loop.simps [simp del]

text \<open>\<open>nbuf\<close> and \<open>new_lb\<close> are what the caller's variables hold before the call.\<close>

definition accumulate :: "config_t \<Rightarrow> 64 word list \<Rightarrow> nat \<Rightarrow> nat \<Rightarrow> nat \<Rightarrow> nat \<Rightarrow> nat \<Rightarrow> nat \<Rightarrow> (nat \<times> nat) mprog" where
  "accumulate C Y lb ub prev_nT prev_nH nbuf new_lb =
    (if ub \<le> lb then ret (nbuf, new_lb)
     else
       let consumed_so_far = u32 (prev_nT + prev_nH); left_to_consume = u32_sub (u32_sub ub lb) consumed_so_far in
       seq (undef_if (length Y \<le> lb)) (\<lambda>_.
       seq (steps [set_cand 0 lb (get_yval (Y ! lb)) prev_nT prev_nH, count_goal 0 (get_goal (Y ! lb))]) (\<lambda>_.
       acc_loop C Y ub (Suc lb) (get_yval (Y ! lb)) 1 (u32 (consumed_so_far + 1)) (u32_sub left_to_consume 1))))"

subsection \<open>\<open>eval_metrics\<close> and \<open>calc_best_metric\<close>\<close>

definition F8_one :: fp where "F8_one = F8_of_nat 1"
definition F8_minus_one :: fp where "F8_minus_one = fp_neg F8_one"

definition gini :: "nat \<Rightarrow> nat \<Rightarrow> nat \<Rightarrow> nat \<Rightarrow> fp" where
  "gini nT nH in_nTL in_nHL =
    (let n = F8_of_nat (u32 (nT + nH));
         nTL = F8_of_nat in_nTL; nHL = F8_of_nat in_nHL;
         nTR = fp_sub (F8_of_nat nT) nTL; nHR = fp_sub (F8_of_nat nH) nHL;
         nR = fp_add nTR nHR; nL = fp_add nTL nHL
     in if fp_eq nR (F8_of_nat 0) \<or> nT = 0 then F8_minus_one
        else
          let xLT = fp_div nTL nL; xLT = fp_mul xLT xLT; xLH = fp_div nHL nL; xLH = fp_mul xLH xLH;
              giniL = fp_sub (fp_sub F8_one xLT) xLH;
              xRT = fp_div nTR nR; xRT = fp_mul xRT xRT; xRH = fp_div nHR nR; xRH = fp_mul xRH xRH;
              giniR = fp_sub (fp_sub F8_one xRT) xRH
          in fp_add (fp_mul (fp_div nL n) giniL) (fp_mul (fp_div nR n) giniR))"

definition eval_metrics :: "config_t \<Rightarrow> nat \<Rightarrow> nat \<Rightarrow> nat \<Rightarrow> unit mprog" where
  "eval_metrics C nT nH nbuf =
    steps [bye_if (metrics_buffer_size C < nbuf) (- 1),
      for_each [0..<nbuf] (\<lambda>i. m_upd i (\<lambda>M. M\<lparr>m_metric := (m_metric M)[i := gini nT nH (m_nT M ! i) (m_nH M ! i)]\<rparr>))]"

definition calc_best_metric :: "nat \<Rightarrow> nat mprog" where
  "calc_best_metric nbuf =
    seq get_st (\<lambda>M.
    seq (undef_if (\<not> m_ok 0 M)) (\<lambda>_.
    seq (for_fold [1..<nbuf] (0, m_metric M ! 0) (\<lambda>i (loc, best_metric).
      seq (undef_if (\<not> m_ok i M)) (\<lambda>_.
      ret (if fp_less best_metric (m_metric M ! i) then (i, m_metric M ! i) else (loc, best_metric))))) (\<lambda>(loc, _).
    ret loc)))"

subsection \<open>The state of the builder (globals of \<open>DT/src/main.c\<close>)\<close>

text \<open>The arrays \<open>g_best_metrics\<close>, \<open>g_best_yvals\<close>, \<open>g_best_yidxs\<close>, \<open>g_best_num4s\<close> and \<open>g_is_splittables\<close> are one list of
  records.\<close>

record best_t =
  b_metric :: fp
  b_yval :: nat
  b_yidx :: nat
  b_num4 :: four_nums_t
  b_splittable :: bool

record dt_state =
  g_feats :: "feature list"
  g_best :: "best_t list"
  g_num_gini_calc :: nat
  g_tree :: "node_t list"
  g_n_tree :: nat
  g_sz_tree :: int

type_synonym 'a dprog = "(dt_state, 'a) prog"

subsection \<open>\<open>search_j\<close>\<close>

definition zero_num4 :: four_nums_t where
  "zero_num4 = \<lparr>n_T_L = 0, n_H_L = 0, n_T_R = 0, n_H_R = 0\<rparr>"

definition clear_M :: "nat \<Rightarrow> nat \<Rightarrow> metrics_t" where
  "clear_M bufsz gini_calc = \<lparr>m_yval = replicate bufsz 0, m_yidx = replicate bufsz 0, m_nT = replicate bufsz 0,
     m_nH = replicate bufsz 0, m_metric = replicate bufsz (F8_of_nat 0), m_gini = gini_calc\<rparr>"

definition better :: "nat \<Rightarrow> nat \<Rightarrow> metrics_t \<Rightarrow> nat \<Rightarrow> best_t \<Rightarrow> best_t" where
  "better nT nH M loc best =
    (if fp_less (b_metric best) (m_metric M ! loc) then
       best\<lparr>b_metric := m_metric M ! loc, b_yval := m_yval M ! loc, b_yidx := m_yidx M ! loc,
         b_num4 := \<lparr>n_T_L = m_nT M ! loc, n_H_L = m_nH M ! loc, n_T_R = u32_sub nT (m_nT M ! loc), n_H_R = u32_sub nH (m_nH M ! loc)\<rparr>\<rparr>
     else best)"

text \<open>The loop over the fillings of the buffer.  Every filling consumes an element, so \<open>Suc (ub - lb)\<close> rounds are
  enough.\<close>

primrec search_loop :: "nat \<Rightarrow> config_t \<Rightarrow> 64 word list \<Rightarrow> nat \<Rightarrow> nat \<Rightarrow> nat \<Rightarrow> nat \<Rightarrow> nat \<Rightarrow> nat \<Rightarrow> nat \<Rightarrow> nat \<Rightarrow> nat \<Rightarrow> best_t \<Rightarrow> best_t mprog" where
  "search_loop 0 C Y ub nT nH iter lb new_lb prev_nT prev_nH nbuf best = stop Diverges"
| "search_loop (Suc fuel) C Y ub nT nH iter lb new_lb prev_nT prev_nH nbuf best =
    (if ub \<le> new_lb then ret best
     else
       seq (accumulate C Y lb ub prev_nT prev_nH nbuf new_lb) (\<lambda>(nbuf, new_lb).
       seq (bye_if (nbuf = 0) (- 1)) (\<lambda>_.
       if iter = 0 \<and> nbuf \<le> 1 then ret (best\<lparr>b_splittable := False\<rparr>)
       else
         seq (upd_st (\<lambda>M. M\<lparr>m_gini := u32 (m_gini M + nbuf)\<rparr>)) (\<lambda>_.
         seq (eval_metrics C nT nH nbuf) (\<lambda>_.
         seq (calc_best_metric nbuf) (\<lambda>loc.
         seq get_st (\<lambda>M.
         seq (undef_if (\<not> m_ok loc M \<or> \<not> m_ok (nbuf - 1) M)) (\<lambda>_.
         let best = better nT nH M loc best in
         if nbuf < metrics_buffer_size C then ret best
         else search_loop fuel C Y ub nT nH (iter + 1) new_lb new_lb (m_nT M ! (nbuf - 1)) (m_nH M ! (nbuf - 1)) nbuf best))))))))"

definition set_best :: "nat \<Rightarrow> (best_t \<Rightarrow> best_t) \<Rightarrow> unit dprog" where
  "set_best j f = seq get_st (\<lambda>s. seq (undef_if (length (g_best s) \<le> j)) (\<lambda>_.
     put_st (s\<lparr>g_best := (g_best s)[j := f (g_best s ! j)]\<rparr>)))"

text \<open>\<open>search_j\<close> works in the buffers of the feature; the counter of the state is brought up to date in any
  case.\<close>

definition in_buffers :: "config_t \<Rightarrow> 'a mprog \<Rightarrow> 'a dprog" where
  "in_buffers C m s =
    (case m (clear_M (metrics_buffer_size C) (g_num_gini_calc s)) of (r, M) \<Rightarrow> (r, s\<lparr>g_num_gini_calc := m_gini M\<rparr>))"

definition search_j :: "config_t \<Rightarrow> 64 word list \<Rightarrow> nat \<Rightarrow> nat \<Rightarrow> nat \<Rightarrow> nat \<Rightarrow> nat \<Rightarrow> nat \<Rightarrow> nat \<Rightarrow> unit dprog" where
  "search_j C Yj j lb ub m n nT nH =
    (if u32_sub ub lb \<le> min_leaf_size C then set_best j (\<lambda>b. b\<lparr>b_splittable := False\<rparr>)
     else if length Yj \<le> lb \<or> length Yj \<le> u32_sub ub 1 then stop Undef
     else if Yj ! lb = Yj ! u32_sub ub 1 then set_best j (\<lambda>b. b\<lparr>b_splittable := False\<rparr>)
     else steps [bye_if (m \<le> j) (- 1), set_best j (\<lambda>b. b\<lparr>b_splittable := True\<rparr>),
       bye_if (ub \<le> lb) (- 1), bye_if (n < ub) (- 1),
       seq (in_buffers C (search_loop (Suc (ub - lb)) C Yj ub nT nH 0 lb lb 0 0 0
         \<lparr>b_metric = F8_minus_one, b_yval = 0, b_yidx = 0, b_num4 = zero_num4, b_splittable = True\<rparr>))
       (\<lambda>best. set_best j (\<lambda>_. best))])"

subsection \<open>\<open>search\<close>\<close>

record srch_t =
  s_feature :: nat
  s_yval :: nat
  s_yidx :: nat
  s_num4 :: four_nums_t
  s_splittable :: bool

text \<open>The feature with the best metric, the first one of several.\<close>

definition pick_feature :: "best_t list \<Rightarrow> nat \<Rightarrow> nat option" where
  "pick_feature bs m = foldl (\<lambda>acc j.
     if \<not> b_splittable (bs ! j) then acc
     else case acc of None \<Rightarrow> Some j
       | Some i \<Rightarrow> if fp_less (b_metric (bs ! i)) (b_metric (bs ! j)) then Some j else acc) None [0..<m]"

definition search :: "config_t \<Rightarrow> nat \<Rightarrow> nat \<Rightarrow> nat \<Rightarrow> nat \<Rightarrow> nat \<Rightarrow> nat \<Rightarrow> srch_t dprog" where
  "search C lb ub nT nH m n =
    seq (for_fold [0..<m] 0 (\<lambda>j status.
      seq get_st (\<lambda>s.
      seq (undef_if (length (g_feats s) \<le> j)) (\<lambda>_.
      seq (attempt (search_j C (f_Y (g_feats s ! j)) j lb ub m n nT nH)) (\<lambda>lstatus.
      ret (if lstatus < 0 then lstatus else status)))))) (\<lambda>status.
    seq (cBYE status) (\<lambda>_.
    seq get_st (\<lambda>s.
    let (best_feature, best_yval, best_yidx, best_num4, splittable) =
      (case pick_feature (g_best s) m of
         None \<Rightarrow> (UINT_MAX, 0, UINT_MAX, zero_num4, False)
       | Some j \<Rightarrow> (j, b_yval (g_best s ! j), b_yidx (g_best s ! j), b_num4 (g_best s ! j), True)) in
    seq (bye_if (is_debug C \<and> (m \<le> best_feature \<or> ub \<le> best_yidx \<or> best_yidx < lb)) (- 1)) (\<lambda>_.
    ret \<lparr>s_feature = best_feature, s_yval = best_yval, s_yidx = u32 (best_yidx + 1), s_num4 = best_num4, s_splittable = splittable\<rparr>))))"

end
