(* ===== verification/Dt_Split.thy ===== *)
theory Dt_Split
  imports Dt_Search
begin

text \<open>
  Growing the tree: the stable reordering of the features (\<open>DT/src/reorder.c\<close>), the recursive split of a node
  (\<open>split.c\<close>), the debugging checks (\<open>check.c\<close>, \<open>check_tree.c\<close>), the preparation of all features (\<open>preproc.c\<close>)
  and the main program (\<open>main.c\<close>).

  Memory is not exhausted, and printing is left out.
\<close>

subsection \<open>Reordering one feature\<close>

definition reorder_step :: "nat list \<Rightarrow> nat \<Rightarrow> nat \<Rightarrow> nat \<times> nat \<Rightarrow> (feature, nat \<times> nat) prog" where
  "reorder_step to_split_j split_yidx i lr =
    (case lr of (lidx, ridx) \<Rightarrow>
    seq get_st (\<lambda>f.
    seq (undef_if (length (f_Y f) \<le> i)) (\<lambda>_.
    let from_i = get_from (f_Y f ! i) in
    seq (undef_if (length to_split_j \<le> from_i)) (\<lambda>_.
    let to_i = to_split_j ! from_i; left = to_i < split_yidx; idx = (if left then lidx else ridx) in
    seq (undef_if (length (f_tmpY f) \<le> idx \<or> length (f_to f) \<le> from_i)) (\<lambda>_.
    seq (put_st (f\<lparr>f_tmpY := (f_tmpY f)[idx := f_Y f ! i], f_to := (f_to f)[from_i := idx]\<rparr>)) (\<lambda>_.
    ret (if left then (u32 (lidx + 1), ridx) else (lidx, u32 (ridx + 1)))))))))"

text \<open>The arrays \<open>Yj\<close>, \<open>tmpYj\<close> and \<open>to_j\<close> are the state, \<open>to_split_j\<close> is an array of another feature.  The result is
  \<open>*ptr_lidx\<close> and \<open>*ptr_ridx\<close>.\<close>

definition reorder :: "nat list \<Rightarrow> nat \<Rightarrow> nat \<Rightarrow> nat \<Rightarrow> nat \<Rightarrow> nat \<Rightarrow> (feature, nat \<times> nat) prog" where
  "reorder to_split_j lb ub split_yidx lidx ridx =
    seq get_st (\<lambda>f.
    seq (undef_if (length (f_Y f) \<le> lb \<or> length (f_Y f) \<le> u32_sub ub 1)) (\<lambda>_.
    seq (bye_if (f_Y f ! lb = f_Y f ! u32_sub ub 1) (- 1)) (\<lambda>_.
    for_fold [lb..<ub] (lidx, ridx) (reorder_step to_split_j split_yidx))))"

text \<open>\<open>memcpy(Yj+lb, tmpYj+lb, (ub-lb) * sizeof(uint64_t))\<close>\<close>

definition copy_back :: "nat \<Rightarrow> nat \<Rightarrow> (feature, unit) prog" where
  "copy_back lb ub =
    seq get_st (\<lambda>f. let k = u32_sub ub lb in
    seq (undef_if (length (f_Y f) < lb + k \<or> length (f_tmpY f) < lb + k)) (\<lambda>_.
    put_st (f\<lparr>f_Y := take lb (f_Y f) @ take k (drop lb (f_tmpY f)) @ drop (lb + k) (f_Y f)\<rparr>)))"

definition on_feat :: "nat \<Rightarrow> (feature, 'a) prog \<Rightarrow> 'a dprog" where
  "on_feat j m s =
    (if length (g_feats s) \<le> j then (Inl Undef, s)
     else case m (g_feats s ! j) of (r, f) \<Rightarrow> (r, s\<lparr>g_feats := (g_feats s)[j := f]\<rparr>))"

text \<open>The body of the loop over the features in \<open>split\<close>; the status of \<open>reorder\<close> is not looked at.\<close>

definition reorder_feature :: "nat \<Rightarrow> nat \<Rightarrow> nat \<Rightarrow> nat \<Rightarrow> nat \<Rightarrow> unit dprog" where
  "reorder_feature lb ub split_j split_yidx j =
    (if j = split_j then ret ()
     else
       seq get_st (\<lambda>s.
       seq (undef_if (length (g_feats s) \<le> j \<or> length (g_feats s) \<le> split_j)) (\<lambda>_.
       let Yj = f_Y (g_feats s ! j) in
       seq (undef_if (length Yj \<le> lb \<or> length Yj \<le> u32_sub ub 1)) (\<lambda>_.
       if Yj ! lb = Yj ! u32_sub ub 1 then ret ()
       else
         seq (on_feat j (attempt (reorder (f_to (g_feats s ! split_j)) lb ub split_yidx lb split_yidx))) (\<lambda>_.
         on_feat j (copy_back lb ub))))))"

subsection \<open>The checks of the debugging mode\<close>

definition sortfn_U4 :: "nat \<Rightarrow> nat \<Rightarrow> int" where
  "sortfn_U4 r1 r2 = (if r1 < r2 then - 1 else 1)"

text \<open>The sorted copy that \<open>chk_is_unique\<close> makes is not used.\<close>

definition chk_is_unique :: "nat list \<Rightarrow> nat \<Rightarrow> bool" where
  "chk_is_unique X n = list_all (\<lambda>i. X ! i \<noteq> X ! (i - 1)) [1..<n]"

definition chk_set_equality :: "nat sorter \<Rightarrow> nat list \<Rightarrow> nat list \<Rightarrow> nat \<Rightarrow> bool" where
  "chk_set_equality qs X Y n =
    (let tmpX = qs sortfn_U4 (take n X); tmpY = qs sortfn_U4 (take n Y)
     in list_all (\<lambda>i. tmpX ! i = tmpY ! i) [0..<n])"

definition froms :: "nat \<Rightarrow> nat \<Rightarrow> feature \<Rightarrow> nat list" where
  "froms lb ub f = map (\<lambda>i. get_from (f_Y f ! i)) [lb..<ub]"

text \<open>The goal counts are kept in a \<open>uint8_t\<close>.\<close>

definition goal_count :: "nat \<Rightarrow> nat \<Rightarrow> feature \<Rightarrow> nat \<Rightarrow> nat" where
  "goal_count lb ub f k = length (filter (\<lambda>i. get_goal (f_Y f ! i) = k) [lb..<ub]) mod 256"

text \<open>The froms of every feature are compared with those of the last one, which the inner loop leaves behind.\<close>

definition dt_check :: "config_t \<Rightarrow> nat sorter \<Rightarrow> nat list \<Rightarrow> nat \<Rightarrow> nat \<Rightarrow> nat \<Rightarrow> nat \<Rightarrow> nat \<Rightarrow> nat \<Rightarrow> unit dprog" where
  "dt_check C qs g lb ub nT nH n m =
    (if u32_sub ub lb \<le> min_leaf_size C then ret ()
     else steps [bye_if (n < ub) (- 1), bye_if (u32 (nT + nH) \<noteq> u32_sub ub lb) (- 1),
       seq get_st (\<lambda>s. let F = (\<lambda>j. g_feats s ! j) in steps [
         undef_if (length (g_feats s) < m \<or> \<not> list_all (\<lambda>j. ub \<le> length (f_Y (F j))) [0..<m]),
         for_each [0..<m] (\<lambda>j1. bye_if (\<not> chk_set_equality qs (froms lb ub (F j1)) (froms lb ub (F (m - 1))) (u32_sub ub lb)) (- 1)),
         for_each [0..<m] (\<lambda>j. for_each [lb + 1..<ub] (\<lambda>i. bye_if (get_yval (f_Y (F j) ! i) < get_yval (f_Y (F j) ! (i - 1))) (- 1))),
         for_each [0..<m] (\<lambda>j. bye_if (\<not> chk_is_unique (froms lb ub (F j)) (u32_sub ub lb)) (- 1)),
         for_each [0..<m] (\<lambda>j. for_each [lb..<ub] (\<lambda>i. bye_if (1 < get_goal (f_Y (F j) ! i)) (- 1))),
         for_each [0..<m] (\<lambda>j1. for_each [j1 + 1..<m] (\<lambda>j2. for_each [0..<2] (\<lambda>k.
           bye_if (goal_count lb ub (F j1) k \<noteq> goal_count lb ub (F j2) k) (- 1)))),
         for_each [0..<m] (\<lambda>j. for_each [lb..<ub] (\<lambda>i. let from_i = get_from (f_Y (F j) ! i) in
           steps [undef_if (length (f_to (F j)) \<le> from_i), bye_if (f_to (F j) ! from_i \<noteq> i) (- 1)])),
         for_each [0..<m] (\<lambda>j. for_each [lb..<ub] (\<lambda>i. let from_i = get_from (f_Y (F j) ! i) in
           steps [undef_if (length g \<le> from_i), bye_if (g ! from_i \<noteq> get_goal (f_Y (F j) ! i)) (- 1)]))])])"

text \<open>The conversion of an unsigned integer to \<open>int\<close>.\<close>

definition i32 :: "nat \<Rightarrow> int" where
  "i32 k = (if k mod 2 ^ 32 < 2 ^ 31 then int (k mod 2 ^ 32) else int (k mod 2 ^ 32) - 2 ^ 32)"

definition check_node :: "config_t \<Rightarrow> node_t list \<Rightarrow> nat \<Rightarrow> ('s, unit) prog" where
  "check_node C tree i =
    (let depth = nd_depth (tree ! i); nT = nd_nT (tree ! i); nH = nd_nH (tree ! i);
         lchild = lchild_id (tree ! i); rchild = rchild_id (tree ! i); parent = parent_id (tree ! i)
     in steps [undef_if (length tree \<le> i),
       bye_if (u32 (nT + nH) < min_partition_size C) (- 1),
       bye_if (depth < 0 \<or> i32 (max_depth C) < depth) (- 1),
       bye_if (i = 0 \<and> parent \<noteq> - 1 \<or> i \<noteq> 0 \<and> parent < 0) (- 1),
       bye_if (lchild = 0) (- 1), bye_if (rchild = 0) (- 1),
       bye_if (0 < lchild \<and> lchild \<le> parent) (- 1), bye_if (0 < rchild \<and> rchild \<le> parent) (- 1),
       bye_if (0 < rchild \<and> lchild = rchild) (- 1),
       undef_if (0 < i \<and> int (length tree) \<le> parent),
       bye_if (0 < i \<and> lchild_id (tree ! nat parent) \<noteq> int i \<and> rchild_id (tree ! nat parent) \<noteq> int i) (- 1),
       bye_if (0 < i \<and> depth \<le> 0) (- 1),
       bye_if (0 < i \<and> depth \<noteq> nd_depth (tree ! nat parent) + 1) (- 1),
       bye_if (i = 0 \<and> depth \<noteq> 0) (- 1)])"

definition is_leaf :: "node_t \<Rightarrow> bool" where
  "is_leaf nd \<longleftrightarrow> lchild_id nd < 0 \<and> rchild_id nd < 0"

definition check_tree :: "config_t \<Rightarrow> node_t list \<Rightarrow> nat \<Rightarrow> ('s, unit) prog" where
  "check_tree C tree n_tree =
    steps [undef_if (tree = []), bye_if (parent_id (tree ! 0) \<noteq> - 1) (- 1), for_each [0..<n_tree] (check_node C tree),
      (let num_leaves = length (filter (\<lambda>i. is_leaf (tree ! i)) [0..<n_tree]);
           num_interior = length (filter (\<lambda>i. \<not> is_leaf (tree ! i)) [0..<n_tree])
       in bye_if (num_leaves + num_interior \<noteq> n_tree) (- 1))]"

subsection \<open>Splitting a node\<close>

text \<open>The new node becomes a child of \<open>parent\<close>; \<open>link\<close> stores its index there.\<close>

definition add_child :: "(int \<Rightarrow> node_t \<Rightarrow> node_t) \<Rightarrow> int \<Rightarrow> nat \<Rightarrow> nat \<Rightarrow> nat \<Rightarrow> unit dprog" where
  "add_child link parent nT nH depth =
    seq get_st (\<lambda>s. let k = g_n_tree s in
    seq (undef_if (length (g_tree s) \<le> k \<or> parent < 0 \<or> int (length (g_tree s)) \<le> parent)) (\<lambda>_.
    put_st (s\<lparr>g_tree := (g_tree s)[nat parent := link (int k) (g_tree s ! nat parent),
        k := (g_tree s ! k)\<lparr>parent_id := parent, nd_nT := nT, nd_nH := nH, nd_depth := i32 depth\<rparr>],
      g_n_tree := k + 1\<rparr>)))"

definition link_left :: "int \<Rightarrow> node_t \<Rightarrow> node_t" where
  "link_left k nd = nd\<lparr>lchild_id := k\<rparr>"

definition link_right :: "int \<Rightarrow> node_t \<Rightarrow> node_t" where
  "link_right k nd = nd\<lparr>rchild_id := k\<rparr>"

text \<open>The recursion ends at depth \<open>max_depth\<close>; the fuel is above the number of levels left.\<close>

primrec split_node :: "nat \<Rightarrow> config_t \<Rightarrow> nat sorter \<Rightarrow> nat list \<Rightarrow> nat \<Rightarrow> nat \<Rightarrow> nat \<Rightarrow> nat \<Rightarrow> nat \<Rightarrow> nat \<Rightarrow> nat \<Rightarrow> unit dprog" where
  "split_node 0 C qs g lb ub nT nH n m depth = stop Diverges"
| "split_node (Suc fuel) C qs g lb ub nT nH n m depth =
    seq get_st (\<lambda>s.
    if g_sz_tree s \<le> int (g_n_tree s) then ret ()
    else if u32_sub ub lb < u32 (2 * min_leaf_size C) then ret ()
    else if max_depth C \<le> depth then ret ()
    else if nH = 0 \<or> nT = 0 then ret ()
    else
      seq (if is_debug C then dt_check C qs g lb ub nT nH n m else ret ()) (\<lambda>_.
      seq (search C lb ub nT nH m n) (\<lambda>r.
      if \<not> s_splittable r then ret ()
      else
        let split_j = s_feature r; split_yidx = s_yidx r; num4 = s_num4 r in
        seq (for_each [0..<m] (reorder_feature lb ub split_j split_yidx)) (\<lambda>_.
        let parent = int (g_n_tree s) - 1 in
        seq (if min_partition_size C \<le> u32_sub split_yidx lb then
               seq (add_child link_left parent (n_T_L num4) (n_H_L num4) (u32 (depth + 1))) (\<lambda>_.
               split_node fuel C qs g lb split_yidx (n_T_L num4) (n_H_L num4) n m (u32 (depth + 1)))
             else ret ()) (\<lambda>_.
        seq get_st (\<lambda>s.
        if g_sz_tree s \<le> int (g_n_tree s) then ret ()
        else if min_partition_size C \<le> u32_sub ub split_yidx then
          seq (add_child link_right parent (n_T_R num4) (n_H_R num4) (u32 (depth + 1))) (\<lambda>_.
          split_node fuel C qs g split_yidx ub (n_T_R num4) (n_H_R num4) n m (u32 (depth + 1)))
        else ret ()))))))"

subsection \<open>The program\<close>

definition preproc :: "config_t \<Rightarrow> comp_key_t sorter \<Rightarrow> nat sorter \<Rightarrow> 32 word list list \<Rightarrow> nat \<Rightarrow> nat \<Rightarrow> nat list \<Rightarrow> (nat \<times> nat) dprog" where
  "preproc C qsk qs X m n g =
    seq (for_fold [0..<m] [] (\<lambda>j fs.
      seq (undef_if (length X \<le> j)) (\<lambda>_.
      seq (preproc_j C qsk (X ! j) n g) (\<lambda>(Y, to). ret (fs @ [\<lparr>f_Y = Y, f_tmpY = replicate n 0, f_to = to\<rparr>]))))) (\<lambda>fs.
    seq (undef_if (length g < n)) (\<lambda>_.
    seq (upd_st (\<lambda>s. s\<lparr>g_feats := fs\<rparr>)) (\<lambda>_.
    let nH = foldl (\<lambda>nH i. u32 (nH + g ! i)) 0 [0..<n]; nT = u32_sub n nH in
    if is_debug C then
      let nT = u32 (nT + length (filter (\<lambda>i. g ! i = 0) [0..<n]));
          nH = u32 (nH + length (filter (\<lambda>i. g ! i \<noteq> 0) [0..<n]))
      in seq (bye_if (0 \<noteq> nT) (- 1)) (\<lambda>_. seq (bye_if (0 \<noteq> nH) (- 1)) (\<lambda>_.
         seq (dt_check C qs g 0 n nT nH n m) (\<lambda>_. ret (nT, nH))))
    else ret (nT, nH))))"

definition blank_node :: node_t where
  "blank_node = \<lparr>nd_depth = - 1, lchild_id = - 1, rchild_id = - 1, parent_id = - 1, nd_yidx = - 1, nd_yval = 0,
     nd_xval = 0, nd_nH = 0, nd_nT = 0\<rparr>"

text \<open>The globals after their allocation; what \<open>malloc\<close> leaves in the best splits does not matter.\<close>

definition init_globals :: "config_t \<Rightarrow> best_t list \<Rightarrow> dt_state" where
  "init_globals C junk = \<lparr>g_feats = [], g_best = junk, g_num_gini_calc = 0,
     g_tree = replicate (nat (i32 (max_nodes_in_tree C))) blank_node, g_n_tree = 0, g_sz_tree = i32 (max_nodes_in_tree C)\<rparr>"

definition make_root :: "nat \<Rightarrow> nat \<Rightarrow> unit dprog" where
  "make_root nT nH =
    seq get_st (\<lambda>s. let k = g_n_tree s in
    seq (undef_if (length (g_tree s) \<le> k)) (\<lambda>_.
    put_st (s\<lparr>g_tree := (g_tree s)[k := (g_tree s ! k)\<lparr>nd_nT := nT, nd_nH := nH, nd_depth := 0\<rparr>], g_n_tree := k + 1\<rparr>)))"

text \<open>From the data set to the checked tree.\<close>

definition build_tree :: "config_t \<Rightarrow> comp_key_t sorter \<Rightarrow> nat sorter \<Rightarrow> 32 word list list \<Rightarrow> nat list \<Rightarrow> nat \<Rightarrow> nat \<Rightarrow> unit dprog" where
  "build_tree C qsk qs X g m n =
    seq (preproc C qsk qs X m n g) (\<lambda>(nT, nH).
    seq (make_root nT nH) (\<lambda>_.
    seq (split_node (Suc (max_depth C)) C qs g 0 n nT nH n m 0) (\<lambda>_.
    seq get_st (\<lambda>s. check_tree C (g_tree s) (g_n_tree s)))))"

text \<open>The program: \<open>m\<close> is an \<open>uint8_t\<close>, and the data is generated, as the configuration that \<open>read_config\<close> makes
  never asks for data in files.\<close>

definition dt_main :: "nat \<Rightarrow> (nat \<Rightarrow> nat) \<Rightarrow> comp_key_t sorter \<Rightarrow> nat sorter \<Rightarrow> best_t list \<Rightarrow> (error + unit) \<times> dt_state" where
  "dt_main procs rnd qsk qs junk =
    (let C = read_config procs; n = num_instances C; m = num_features C mod 256; s = init_globals C junk in
     if g_sz_tree s < 0 then (Inl (Status (- 1)), s)
     else case make_data rnd m n 0 of
       (Inl e, _) \<Rightarrow> (Inl e, s)
     | (Inr (X, g), _) \<Rightarrow> build_tree C qsk qs X g m n s)"

end
