(* ===== verification/Dt_Count.thy ===== *)
theory Dt_Count
  imports Dt_Search
begin

text \<open>
  What \<open>accumulate\<close> and \<open>eval_metrics\<close> promise: the counts of every candidate are those of the elements up to
  it, and the metric of a candidate that leaves both sides nonempty is above the \<open>-1\<close> of a bad one.
\<close>

subsection \<open>Counting goals\<close>

definition cnt :: "64 word list \<Rightarrow> nat \<Rightarrow> nat \<Rightarrow> nat \<Rightarrow> nat" where
  "cnt Y v a b = length (filter (\<lambda>i. get_goal (Y ! i) = v) [a..<b])"

lemma cnt_Suc: "a \<le> b \<Longrightarrow> cnt Y v a (Suc b) = cnt Y v a b + (if get_goal (Y ! b) = v then 1 else 0)"
  by (simp add: cnt_def)

lemma cnt_empty [simp]: "b \<le> a \<Longrightarrow> cnt Y v a b = 0"
  by (simp add: cnt_def)

lemma cnt_le: "cnt Y v a b \<le> b - a"
  unfolding cnt_def by (rule order_trans [OF length_filter_le]) simp

lemma cnt_split: "a \<le> b \<Longrightarrow> b \<le> c \<Longrightarrow> cnt Y v a c = cnt Y v a b + cnt Y v b c"
  unfolding cnt_def using upt_add_eq_append [of a b "c - b"] by simp

lemma get_goal_cases: "get_goal w = 0 \<or> get_goal w = 1"
proof -
  have "get_goal w = unat (drop_bit 31 w) mod 2" by (simp add: get_goal_def and_one_eq unat_mod)
  then show ?thesis by auto
qed

lemma cnt_total: "cnt Y 0 a b + cnt Y 1 a b = b - a"
proof -
  have "filter (\<lambda>i. get_goal (Y ! i) = 1) [a..<b] = filter (\<lambda>i. \<not> get_goal (Y ! i) = 0) [a..<b]"
    by (rule filter_cong) (metis get_goal_cases zero_neq_one)+
  then show ?thesis using sum_length_filter_compl [of "\<lambda>i. get_goal (Y ! i) = 0" "[a..<b]"] by (simp add: cnt_def)
qed

subsection \<open>Steps on the buffer\<close>

definition m_len :: "nat \<Rightarrow> metrics_t \<Rightarrow> bool" where
  "m_len B M \<longleftrightarrow> length (m_yval M) = B \<and> length (m_yidx M) = B \<and> length (m_nT M) = B \<and> length (m_nH M) = B \<and> length (m_metric M) = B"

lemma m_len_ok [simp]: "m_len B M \<Longrightarrow> m_ok k M \<longleftrightarrow> k < B"
  by (auto simp: m_len_def m_ok_def)

lemma m_upd_run: "m_ok k M \<Longrightarrow> m_upd k f M = (Inr (), f M)"
  by (simp add: m_upd_def put_st_def)

definition cand_ok :: "64 word list \<Rightarrow> nat \<Rightarrow> nat \<Rightarrow> nat \<Rightarrow> metrics_t \<Rightarrow> nat \<Rightarrow> bool" where
  "cand_ok Y lb0 lb i M k \<longleftrightarrow> lb \<le> m_yidx M ! k \<and> m_yidx M ! k < i \<and>
     m_nT M ! k = cnt Y 0 lb0 (Suc (m_yidx M ! k)) \<and> m_nH M ! k = cnt Y 1 lb0 (Suc (m_yidx M ! k))"

text \<open>The buffer holds \<open>Suc p\<close> candidates, the last of which reaches up to \<open>i\<close>.\<close>

definition acc_inv :: "nat \<Rightarrow> 64 word list \<Rightarrow> nat \<Rightarrow> nat \<Rightarrow> nat \<Rightarrow> nat \<Rightarrow> metrics_t \<Rightarrow> bool" where
  "acc_inv B Y lb0 lb i p M \<longleftrightarrow> m_len B M \<and> p < B \<and> (\<forall>k\<le>p. cand_ok Y lb0 lb i M k) \<and> Suc (m_yidx M ! p) = i \<and>
     (\<forall>k<p. m_yidx M ! k < m_yidx M ! p)"

lemma acc_first:
  assumes "m_len B M" "0 < B" "lb0 \<le> lb" "lb < 4294967295"
  obtains M' where "steps [set_cand 0 lb yv (cnt Y 0 lb0 lb) (cnt Y 1 lb0 lb), count_goal 0 (get_goal (Y ! lb))] M = (Inr (), M')"
    "acc_inv B Y lb0 lb (Suc lb) 0 M'" "m_gini M' = m_gini M"
proof -
  let ?M1 = "M\<lparr>m_yidx := (m_yidx M)[0 := lb], m_yval := (m_yval M)[0 := yv],
     m_nT := (m_nT M)[0 := cnt Y 0 lb0 lb], m_nH := (m_nH M)[0 := cnt Y 1 lb0 lb]\<rparr>"
  have 1: "set_cand 0 lb yv (cnt Y 0 lb0 lb) (cnt Y 1 lb0 lb) M = (Inr (), ?M1)"
    unfolding set_cand_def using assms by (simp add: m_upd_run)
  have L: "m_len B ?M1" using assms(1) by (simp add: m_len_def)
  let ?M2 = "if get_goal (Y ! lb) = 0 then ?M1\<lparr>m_nT := (m_nT ?M1)[0 := u32 (m_nT ?M1 ! 0 + 1)]\<rparr>
     else ?M1\<lparr>m_nH := (m_nH ?M1)[0 := u32 (m_nH ?M1 ! 0 + 1)]\<rparr>"
  have 2: "count_goal 0 (get_goal (Y ! lb)) ?M1 = (Inr (), ?M2)"
    unfolding count_goal_def by (rule m_upd_run) (use L assms in simp)
  have "cnt Y v lb0 lb < 4294967295" for v using cnt_le [of Y v lb0 lb] assms(4) by arith
  then have "acc_inv B Y lb0 lb (Suc lb) 0 ?M2"
    using assms get_goal_cases [of "Y ! lb"] by (auto simp: acc_inv_def cand_ok_def cnt_Suc m_len_def)
  moreover have "m_gini ?M2 = m_gini M" by simp
  ultimately show ?thesis using 1 2 by (intro that [of ?M2]) (simp_all add: seq_def ret_def)
qed

lemma acc_extend:
  assumes I: "acc_inv B Y lb0 lb i p M" and b: "lb0 \<le> lb" "i < 4294967295"
  obtains M' where "steps [set_yidx p i, count_goal p (get_goal (Y ! i))] M = (Inr (), M')"
    "acc_inv B Y lb0 lb (Suc i) p M'" "m_gini M' = m_gini M"
proof -
  let ?M1 = "M\<lparr>m_yidx := (m_yidx M)[p := i]\<rparr>"
  have L: "m_len B M" "p < B" using I by (simp_all add: acc_inv_def)
  have 1: "set_yidx p i M = (Inr (), ?M1)" unfolding set_yidx_def using L by (simp add: m_upd_run)
  have L1: "m_len B ?M1" using L by (simp add: m_len_def)
  let ?M2 = "if get_goal (Y ! i) = 0 then ?M1\<lparr>m_nT := (m_nT ?M1)[p := u32 (m_nT ?M1 ! p + 1)]\<rparr>
     else ?M1\<lparr>m_nH := (m_nH ?M1)[p := u32 (m_nH ?M1 ! p + 1)]\<rparr>"
  have 2: "count_goal p (get_goal (Y ! i)) ?M1 = (Inr (), ?M2)"
    unfolding count_goal_def by (rule m_upd_run) (use L1 L in simp)
  have C: "m_nT M ! p = cnt Y 0 lb0 i" "m_nH M ! p = cnt Y 1 lb0 i" "lb < i" "m_yidx M ! p < i"
    using I by (auto simp: acc_inv_def cand_ok_def)
  have S: "cnt Y v lb0 i < 4294967295" for v using cnt_le [of Y v lb0 i] b(2) by arith
  have "cand_ok Y lb0 lb (Suc i) ?M2 k" if "k \<le> p" for k
  proof (cases "k = p")
    case True
    then show ?thesis using L C S b get_goal_cases [of "Y ! i"] by (auto simp: cand_ok_def cnt_Suc m_len_def)
  next
    case False
    then show ?thesis using I that by (auto simp: acc_inv_def cand_ok_def less_SucI)
  qed
  moreover have "m_yidx ?M2 ! k < m_yidx ?M2 ! p" if "k < p" for k
    using I that L by (auto simp: acc_inv_def cand_ok_def m_len_def intro: less_trans)
  moreover have "Suc (m_yidx ?M2 ! p) = Suc i" "m_len B ?M2" using L by (simp_all add: m_len_def)
  ultimately have "acc_inv B Y lb0 lb (Suc i) p ?M2" using L(2) unfolding acc_inv_def by blast
  moreover have "m_gini ?M2 = m_gini M" by simp
  ultimately show ?thesis using 1 2 by (intro that [of ?M2]) (simp_all add: seq_def ret_def)
qed

lemma acc_new:
  assumes I: "acc_inv B Y lb0 lb i p M" and b: "lb0 \<le> lb" "i < 4294967295" "Suc p < B"
  obtains M' where
    "steps [set_cand (Suc p) i yv (m_nT M ! p) (m_nH M ! p), count_goal (Suc p) (get_goal (Y ! i))] M = (Inr (), M')"
    "acc_inv B Y lb0 lb (Suc i) (Suc p) M'" "m_gini M' = m_gini M"
proof -
  let ?M1 = "M\<lparr>m_yidx := (m_yidx M)[Suc p := i], m_yval := (m_yval M)[Suc p := yv],
     m_nT := (m_nT M)[Suc p := m_nT M ! p], m_nH := (m_nH M)[Suc p := m_nH M ! p]\<rparr>"
  have L: "m_len B M" "p < B" using I by (simp_all add: acc_inv_def)
  have 1: "set_cand (Suc p) i yv (m_nT M ! p) (m_nH M ! p) M = (Inr (), ?M1)"
    unfolding set_cand_def using L b by (simp add: m_upd_run)
  have L1: "m_len B ?M1" using L by (simp add: m_len_def)
  let ?M2 = "if get_goal (Y ! i) = 0 then ?M1\<lparr>m_nT := (m_nT ?M1)[Suc p := u32 (m_nT ?M1 ! Suc p + 1)]\<rparr>
     else ?M1\<lparr>m_nH := (m_nH ?M1)[Suc p := u32 (m_nH ?M1 ! Suc p + 1)]\<rparr>"
  have 2: "count_goal (Suc p) (get_goal (Y ! i)) ?M1 = (Inr (), ?M2)"
    unfolding count_goal_def by (rule m_upd_run) (use L1 b in simp)
  have C: "m_nT M ! p = cnt Y 0 lb0 i" "m_nH M ! p = cnt Y 1 lb0 i" "lb < i" "m_yidx M ! p < i"
    using I by (auto simp: acc_inv_def cand_ok_def)
  have S: "cnt Y v lb0 i < 4294967295" for v using cnt_le [of Y v lb0 i] b(2) by arith
  have "cand_ok Y lb0 lb (Suc i) ?M2 k" if "k \<le> Suc p" for k
  proof (cases "k = Suc p")
    case True
    then show ?thesis using L C S b get_goal_cases [of "Y ! i"] by (auto simp: cand_ok_def cnt_Suc m_len_def)
  next
    case False
    then show ?thesis using I that by (auto simp: acc_inv_def cand_ok_def less_SucI)
  qed
  moreover have "m_yidx ?M2 ! k < m_yidx ?M2 ! Suc p" if "k < Suc p" for k
    using I that L b by (auto simp: acc_inv_def cand_ok_def m_len_def intro: less_trans)
  moreover have "Suc (m_yidx ?M2 ! Suc p) = Suc i" "m_len B ?M2" using L b by (simp_all add: m_len_def)
  ultimately have "acc_inv B Y lb0 lb (Suc i) (Suc p) ?M2" using b(3) unfolding acc_inv_def by blast
  moreover have "m_gini ?M2 = m_gini M" by simp
  ultimately show ?thesis using 1 2 by (intro that [of ?M2]) (simp_all add: seq_def ret_def)
qed


lemma acc_loop_same:
  assumes "i < ub" "ub \<le> length Y" "get_yval (Y ! i) = cy \<or> cons < min_partition_size C \<or> left < min_partition_size C"
    and M1: "steps [set_yidx p i, count_goal p (get_goal (Y ! i))] M = (Inr (), M1)"
  shows "acc_loop C Y ub i cy (Suc p) cons left M = acc_loop C Y ub (Suc i) cy (Suc p) (u32 (cons + 1)) (u32_sub left 1) M1"
proof -
  have F: "(ub \<le> i) = False" "(length Y \<le> i) = False"
    "(get_yval (Y ! i) \<noteq> cy \<and> min_partition_size C \<le> cons \<and> min_partition_size C \<le> left) = False" using assms(1-3) by auto
  have "acc_loop C Y ub i cy (Suc p) cons left = seq (steps [set_yidx p i, count_goal p (get_goal (Y ! i))])
      (\<lambda>_. acc_loop C Y ub (Suc i) cy (Suc p) (u32 (cons + 1)) (u32_sub left 1))"
    by (subst acc_loop.simps) (simp only: Let_def if_False F diff_Suc_1)
  then show ?thesis by (simp only: seq_Inr [where m = "steps [set_yidx p i, count_goal p (get_goal (Y ! i))]", OF M1])
qed

lemma acc_loop_new:
  assumes "i < ub" "ub \<le> length Y" "get_yval (Y ! i) \<noteq> cy" "min_partition_size C \<le> cons" "min_partition_size C \<le> left"
    "Suc p \<noteq> metrics_buffer_size C"
    and M1: "steps [set_cand (Suc p) i (get_yval (Y ! i)) (m_nT M ! p) (m_nH M ! p), count_goal (Suc p) (get_goal (Y ! i))] M = (Inr (), M1)"
  shows "acc_loop C Y ub i cy (Suc p) cons left M =
    acc_loop C Y ub (Suc i) (get_yval (Y ! i)) (Suc (Suc p)) (u32 (cons + 1)) (u32_sub left 1) M1"
proof -
  have F: "(ub \<le> i) = False" "(length Y \<le> i) = False" "(Suc p = metrics_buffer_size C) = False"
    "(get_yval (Y ! i) \<noteq> cy \<and> min_partition_size C \<le> cons \<and> min_partition_size C \<le> left) = True" using assms(1-6) by auto
  let ?m = "seq get_st (\<lambda>M. steps [set_cand (Suc p) i (get_yval (Y ! i)) (m_nT M ! p) (m_nH M ! p), count_goal (Suc p) (get_goal (Y ! i))])"
  have m: "?m M = (Inr (), M1)" by (simp only: seq_get_st M1)
  have "acc_loop C Y ub i cy (Suc p) cons left =
      seq ?m (\<lambda>_. acc_loop C Y ub (Suc i) (get_yval (Y ! i)) (Suc (Suc p)) (u32 (cons + 1)) (u32_sub left 1))"
    by (subst acc_loop.simps) (simp only: Let_def if_True if_False F diff_Suc_1 Suc_eq_plus1 [symmetric])
  then show ?thesis by (simp only: seq_Inr [where m = ?m, OF m])
qed

text \<open>The whole scan, from the state in which the buffer reaches up to \<open>i\<close>.  When it stops before \<open>ub\<close> the buffer
  is full.\<close>

lemma acc_loop_run:
  assumes "acc_inv (metrics_buffer_size C) Y lb0 lb i p M" "lb0 \<le> lb" "i \<le> ub" "ub \<le> length Y" "ub < 4294967295"
  shows "\<exists>p' lb' M'. acc_loop C Y ub i cy (Suc p) cons left M = (Inr (Suc p', lb'), M') \<and>
    acc_inv (metrics_buffer_size C) Y lb0 lb lb' p' M' \<and> i \<le> lb' \<and> lb' \<le> ub \<and> m_gini M' = m_gini M \<and>
    (Suc p' < metrics_buffer_size C \<longrightarrow> lb' = ub)"
  using assms
proof (induction "ub - i" arbitrary: i p M cy cons left)
  case 0
  then have u: "ub \<le> i" "i = ub" by simp_all
  have "p < metrics_buffer_size C" using 0 by (simp add: acc_inv_def)
  with u(1) have "acc_loop C Y ub i cy (Suc p) cons left M = (Inr (Suc p, ub), M)"
    by (simp add: acc_loop.simps [of C Y ub i] ret_def)
  then show ?case using 0 u(2) by auto
next
  case (Suc d)
  from Suc.hyps(2) have i: "i < ub" "d = ub - Suc i" by simp_all
  let ?new = "get_yval (Y ! i) \<noteq> cy \<and> min_partition_size C \<le> cons \<and> min_partition_size C \<le> left"
  have in_range: "(ub \<le> i) = False" "(length Y \<le> i) = False" using i Suc.prems by simp_all
  consider (full) "?new" "Suc p = metrics_buffer_size C" | (new) "?new" "Suc p \<noteq> metrics_buffer_size C" | (same) "\<not> ?new"
    by blast
  then show ?case
  proof cases
    case full
    then have "acc_loop C Y ub i cy (Suc p) cons left M = (Inr (Suc p, i), M)"
      using in_range by (simp add: acc_loop.simps [of C Y ub i] ret_def)
    then show ?thesis by (rule_tac exI [of _ p], rule_tac exI [of _ i], rule_tac exI [of _ M]) (use Suc.prems full i in auto)
  next
    case new
    then have "Suc p < metrics_buffer_size C" using Suc.prems by (simp add: acc_inv_def)
    with Suc.prems i obtain M1 where M1:
      "steps [set_cand (Suc p) i (get_yval (Y ! i)) (m_nT M ! p) (m_nH M ! p), count_goal (Suc p) (get_goal (Y ! i))] M = (Inr (), M1)"
      "acc_inv (metrics_buffer_size C) Y lb0 lb (Suc i) (Suc p) M1" "m_gini M1 = m_gini M"
      by (rule_tac acc_new [of "metrics_buffer_size C" Y lb0 lb i p M "get_yval (Y ! i)"]) auto
    have E: "acc_loop C Y ub i cy (Suc p) cons left M =
        acc_loop C Y ub (Suc i) (get_yval (Y ! i)) (Suc (Suc p)) (u32 (cons + 1)) (u32_sub left 1) M1"
      by (rule acc_loop_new [OF i(1) Suc.prems(4) _ _ _ _ M1(1)]) (use new in auto)
    show ?thesis unfolding E
      using Suc.hyps(1) [OF i(2) M1(2) Suc.prems(2) _ Suc.prems(4,5), of "get_yval (Y ! i)" "u32 (cons + 1)" "u32_sub left 1"] i M1(3)
      by fastforce
  next
    case same
    obtain M1 where M1: "steps [set_yidx p i, count_goal p (get_goal (Y ! i))] M = (Inr (), M1)"
      "acc_inv (metrics_buffer_size C) Y lb0 lb (Suc i) p M1" "m_gini M1 = m_gini M"
      using Suc.prems i by (rule_tac acc_extend [of "metrics_buffer_size C" Y lb0 lb i p M]) auto
    have E: "acc_loop C Y ub i cy (Suc p) cons left M =
        acc_loop C Y ub (Suc i) cy (Suc p) (u32 (cons + 1)) (u32_sub left 1) M1"
      by (rule acc_loop_same [OF i(1) Suc.prems(4) _ M1(1)]) (use same in auto)
    show ?thesis unfolding E
      using Suc.hyps(1) [OF i(2) M1(2) Suc.prems(2) _ Suc.prems(4,5), of cy "u32 (cons + 1)" "u32_sub left 1"] i M1(3)
      by fastforce
  qed
qed


text \<open>\<open>C\<close> counts exactly: after a call the buffer holds the numbers of tails and heads among the elements from
  the start of the segment to each candidate, and the call has consumed elements.\<close>

lemma accumulate_run:
  assumes "m_len (metrics_buffer_size C) M" "0 < metrics_buffer_size C" "lb0 \<le> lb" "lb < ub" "ub \<le> length Y" "ub < 4294967295"
  obtains p lb' M' where
    "accumulate C Y lb ub (cnt Y 0 lb0 lb) (cnt Y 1 lb0 lb) nb nl M = (Inr (Suc p, lb'), M')"
    "acc_inv (metrics_buffer_size C) Y lb0 lb lb' p M'" "lb < lb'" "lb' \<le> ub" "m_gini M' = m_gini M"
    "Suc p < metrics_buffer_size C \<Longrightarrow> lb' = ub"
proof -
  have lb: "lb < 4294967295" "lb < length Y" using assms by simp_all
  obtain M1 where M1: "steps [set_cand 0 lb (get_yval (Y ! lb)) (cnt Y 0 lb0 lb) (cnt Y 1 lb0 lb), count_goal 0 (get_goal (Y ! lb))] M = (Inr (), M1)"
    "acc_inv (metrics_buffer_size C) Y lb0 lb (Suc lb) 0 M1" "m_gini M1 = m_gini M"
    by (rule acc_first [OF assms(1-3) lb(1), of "get_yval (Y ! lb)"]) blast
  have "Suc lb \<le> ub" using assms by simp
  from acc_loop_run [OF M1(2) assms(3) this assms(5,6), of "get_yval (Y ! lb)"
      "u32 (u32 (cnt Y 0 lb0 lb + cnt Y 1 lb0 lb) + 1)" "u32_sub (u32_sub (u32_sub ub lb) (u32 (cnt Y 0 lb0 lb + cnt Y 1 lb0 lb))) 1"]
  obtain p lb' M' where R: "acc_loop C Y ub (Suc lb) (get_yval (Y ! lb)) (Suc 0) (u32 (u32 (cnt Y 0 lb0 lb + cnt Y 1 lb0 lb) + 1))
      (u32_sub (u32_sub (u32_sub ub lb) (u32 (cnt Y 0 lb0 lb + cnt Y 1 lb0 lb))) 1) M1 = (Inr (Suc p, lb'), M')"
    "acc_inv (metrics_buffer_size C) Y lb0 lb lb' p M'" "Suc lb \<le> lb'" "lb' \<le> ub" "m_gini M' = m_gini M1"
    "Suc p < metrics_buffer_size C \<longrightarrow> lb' = ub"
    by blast
  have "(ub \<le> lb) = False" "(length Y \<le> lb) = False" using assms(4) lb(2) by simp_all
  then have "accumulate C Y lb ub (cnt Y 0 lb0 lb) (cnt Y 1 lb0 lb) nb nl M = (Inr (Suc p, lb'), M')"
    by (simp only: accumulate_def Let_def if_False seq_undef_if One_nat_def R(1) [unfolded One_nat_def]
      seq_Inr [where m = "steps [set_cand 0 lb (get_yval (Y ! lb)) (cnt Y 0 lb0 lb) (cnt Y 1 lb0 lb), count_goal 0 (get_goal (Y ! lb))]",
        OF M1(1), unfolded One_nat_def])
  then show ?thesis by (rule that [OF _ R(2)]) (use R(3-6) M1(3) in simp_all)
qed

subsection \<open>The metric of a candidate\<close>

lemma F8_one: "is_fin F8_one" "fp_value F8_one = 1"
  using F8_of_nat [of 1] by (simp_all add: F8_one_def)

lemma F8_minus_one: "is_fin F8_minus_one" "fp_value F8_minus_one = - 1"
  by (simp_all add: F8_minus_one_def F8_one)

lemma fin_less: "is_fin a \<Longrightarrow> is_fin b \<Longrightarrow> fp_less a b \<longleftrightarrow> fp_value a < fp_value b"
  by (simp add: fp_less_key is_fin_def)

lemma fin_eq: "is_fin a \<Longrightarrow> is_fin b \<Longrightarrow> fp_eq a b \<longleftrightarrow> fp_value a = fp_value b"
  by (auto simp: fp_eq.simps fp_less_key is_fin_def)

lemma reprs: "repr F64_fmt 0" "repr F64_fmt 1" "repr F64_fmt 2" "repr F64_fmt (1 / 2)" "repr F64_fmt (1 / 4)" "repr F64_fmt (3 / 4)"
  "repr F64_fmt (- (1 / 4))" "repr F64_fmt (- (1 / 2))" "repr F64_fmt (- 1)"
proof -
  show "repr F64_fmt 0" by simp
  show "repr F64_fmt 1" "repr F64_fmt 2" using repr_nat [of 1] repr_nat [of 2] by simp_all
  show "repr F64_fmt (1 / 2)" "repr F64_fmt (- (1 / 2))"
    by (rule repr_frac [of 1 "- 1"], simp_all add: powr_minus_divide)+
  show "repr F64_fmt (1 / 4)" "repr F64_fmt (- (1 / 4))"
    by (rule repr_frac [of 1 "- 2"], simp_all add: powr_minus_divide)+
  show "repr F64_fmt (3 / 4)" by (rule repr_frac [of 3 "- 2"]) (simp_all add: powr_minus_divide)
  show "repr F64_fmt (- 1)" by (rule repr_frac [of 1 0]) simp_all
qed

text \<open>Differences and sums of counts are exact.\<close>

lemma sub_exact:
  assumes "is_fin x" "is_fin y" "fp_value x = real a" "fp_value y = real b" "b \<le> a" "a < 2 ^ 53"
  shows "is_fin (fp_sub x y) \<and> fp_value (fp_sub x y) = real (a - b)"
  using sub_between [OF assms(1,2), of "real (a - b)" "real (a - b)"] assms repr_nat [of "a - b"]
  by (auto simp: between_def of_nat_diff)

lemma add_exact:
  assumes "is_fin x" "is_fin y" "fp_value x = real a" "fp_value y = real b" "a + b < 2 ^ 53"
  shows "is_fin (fp_add x y) \<and> fp_value (fp_add x y) = real (a + b)"
  using add_between [OF assms(1,2), of "real (a + b)" "real (a + b)"] assms repr_nat [of "a + b"]
  by (auto simp: between_def)

text \<open>The square of a share that is at most \<open>b\<close>.\<close>

lemma share_square:
  assumes "is_fin x" "is_fin y" "fp_value x = real k" "fp_value y = real n" "k \<le> n" "0 < n"
  shows "between 0 1 (let q = fp_div x y in fp_mul q q)"
    "2 * k \<le> n \<Longrightarrow> between 0 (1 / 4) (let q = fp_div x y in fp_mul q q)"
proof -
  have q: "between 0 1 (fp_div x y)"
    using assms by (intro div_between reprs) (auto simp: divide_le_eq)
  show "between 0 1 (let q = fp_div x y in fp_mul q q)" unfolding Let_def
    using betweenD [OF q] by (intro mul_between reprs) (auto simp: mult_le_one)
  assume h: "2 * k \<le> n"
  then have "real k / real n \<le> 1 / 2" using assms by (simp add: field_simps)
  then have "between 0 (1 / 2) (fp_div x y)"
    using assms by (intro div_between reprs) auto
  from betweenD [OF this] show "between 0 (1 / 4) (let q = fp_div x y in fp_mul q q)" unfolding Let_def
    using mult_mono [of "fp_value (fp_div x y)" "1 / 2" "fp_value (fp_div x y)" "1 / 2"]
    by (intro mul_between reprs) auto
qed

lemma impurity_between:
  assumes "is_fin x" "is_fin y" "is_fin z" "fp_value x = real k" "fp_value y = real l" "fp_value z = real (k + l)" "0 < k + l"
  shows "between (- (1 / 4)) 1 (fp_sub (fp_sub F8_one (let q = fp_div x z in fp_mul q q)) (let q = fp_div y z in fp_mul q q))"
proof -
  let ?a = "let q = fp_div x z in fp_mul q q" and ?b = "let q = fp_div y z in fp_mul q q"
  have a: "between 0 1 ?a" by (rule share_square(1) [OF assms(1,3,4,6)]) (use assms(7) in simp_all)
  have b: "between 0 1 ?b" by (rule share_square(1) [OF assms(2,3,5,6)]) (use assms(7) in simp_all)
  have lt: "2 * k \<le> k + l \<or> 2 * l \<le> k + l" by linarith
  have a1: "between 0 1 (fp_sub F8_one ?a)" using betweenD [OF a] F8_one by (intro sub_between reprs) auto
  from lt show ?thesis
  proof
    assume h: "2 * k \<le> k + l"
    have "between 0 (1 / 4) ?a" by (rule share_square(2) [OF assms(1,3,4,6)]) (use assms(7) h in simp_all)
    from betweenD [OF this] have a3: "between (3 / 4) 1 (fp_sub F8_one ?a)"
      using F8_one by (intro sub_between reprs) auto
    show ?thesis
      using betweenD(2,3) [OF a3] betweenD(2,3) [OF b] by (intro sub_between reprs betweenD(1) [OF a3] betweenD(1) [OF b]) linarith+
  next
    assume h: "2 * l \<le> k + l"
    have b4: "between 0 (1 / 4) ?b" by (rule share_square(2) [OF assms(2,3,5,6)]) (use assms(7) h in simp_all)
    show ?thesis
      using betweenD(2,3) [OF a1] betweenD(2,3) [OF b4] by (intro sub_between reprs betweenD(1) [OF a1] betweenD(1) [OF b4]) linarith+
  qed
qed


text \<open>A side is empty, or every tail is gone: the bad value \<open>-1\<close>; otherwise the weighted impurity, which rounding
  cannot take near \<open>-1\<close>.\<close>

lemma gini_cases:
  assumes "a \<le> nT" "b \<le> nH" "nT + nH < 4294967296" "0 < a + b"
  shows "if nT = 0 \<or> a + b = nT + nH then gini nT nH a b = F8_minus_one
    else between (- (1 / 2)) 2 (gini nT nH a b)"
proof -
  have le: "(2 :: nat) ^ 53 = 9007199254740992" by simp
  note N = F8_of_nat
  define n where "n = F8_of_nat (u32 (nT + nH))"
  define L T where "L = F8_of_nat a" and "T = F8_of_nat b"
  have n: "is_fin n" "fp_value n = real (nT + nH)" using N [of "nT + nH"] assms by (simp_all add: n_def le)
  have L: "is_fin L" "fp_value L = real a" using N [of a] assms by (simp_all add: L_def le)
  have T: "is_fin T" "fp_value T = real b" using N [of b] assms by (simp_all add: T_def le)
  define RT where "RT = fp_sub (F8_of_nat nT) L"
  define RH where "RH = fp_sub (F8_of_nat nH) T"
  have RT: "is_fin RT" "fp_value RT = real (nT - a)"
    using sub_exact [of "F8_of_nat nT" L nT a] N [of nT] L assms by (simp_all add: RT_def le)
  have RH: "is_fin RH" "fp_value RH = real (nH - b)"
    using sub_exact [of "F8_of_nat nH" T nH b] N [of nH] T assms by (simp_all add: RH_def le)
  define nR where "nR = fp_add RT RH"
  define nL where "nL = fp_add L T"
  have nR: "is_fin nR" "fp_value nR = real (nT - a + (nH - b))"
    using add_exact [OF RT(1) RH(1) RT(2) RH(2)] assms by (simp_all add: nR_def le)
  have nL: "is_fin nL" "fp_value nL = real (a + b)"
    using add_exact [OF L(1) T(1) L(2) T(2)] assms by (simp_all add: nL_def le)
  let ?sq = "\<lambda>x z. let q = fp_div x z in fp_mul q q"
  let ?gL = "fp_sub (fp_sub F8_one (?sq L nL)) (?sq T nL)"
  let ?gR = "fp_sub (fp_sub F8_one (?sq RT nR)) (?sq RH nR)"
  have G: "gini nT nH a b = (if fp_eq nR (F8_of_nat 0) \<or> nT = 0 then F8_minus_one
      else fp_add (fp_mul (fp_div nL n) ?gL) (fp_mul (fp_div nR n) ?gR))"
    by (simp add: gini_def Let_def n_def L_def T_def RT_def RH_def nR_def nL_def)
  have Z: "is_fin (F8_of_nat 0)" "fp_value (F8_of_nat 0) = 0" using N [of 0] by simp_all
  have E: "fp_eq nR (F8_of_nat 0) \<longleftrightarrow> a + b = nT + nH" unfolding fin_eq [OF nR(1) Z(1)] nR(2) Z(2) using assms(1,2) by auto
  show ?thesis
  proof (cases "nT = 0 \<or> a + b = nT + nH")
    case True
    then show ?thesis unfolding G E by auto
  next
    case False
    then have pos: "0 < nT - a + (nH - b)" using assms(1,2) by linarith
    have gL: "between (- (1 / 4)) 1 ?gL" by (rule impurity_between [OF L(1) T(1) nL(1) L(2) T(2) nL(2) assms(4)])
    have gR: "between (- (1 / 4)) 1 ?gR" by (rule impurity_between [OF RT(1) RH(1) nR(1) RT(2) RH(2) nR(2) pos])
    have w: "between 0 1 (fp_div x n)" if "is_fin x" "fp_value x = real k" "k \<le> nT + nH" for x k
      using that n assms(3,4) False by (intro div_between reprs) (auto simp: divide_le_eq)
    have wg: "between (- (1 / 4)) 1 (fp_mul x y)" if x: "between 0 1 x" and y: "between (- (1 / 4)) 1 y" for x y
    proof (rule mul_between [OF betweenD(1) [OF x] betweenD(1) [OF y]])
      note b = betweenD(2,3) [OF x] betweenD(2,3) [OF y]
      have "- (1 / 4) * 1 \<le> - (1 / 4) * fp_value x" using b by simp
      also have "\<dots> \<le> fp_value y * fp_value x" using b by (intro mult_right_mono) auto
      finally show "- (1 / 4) \<le> fp_value x * fp_value y" by (simp add: mult.commute)
      have "fp_value y * fp_value x \<le> 1 * fp_value x" using b by (intro mult_right_mono) auto
      then show "fp_value x * fp_value y \<le> 1" using b by (simp add: mult.commute)
    qed (rule reprs)+
    have 1: "between (- (1 / 4)) 1 (fp_mul (fp_div nL n) ?gL)" by (rule wg [OF w [OF nL] gL]) (use assms in simp)
    have 2: "between (- (1 / 4)) 1 (fp_mul (fp_div nR n) ?gR)" by (rule wg [OF w [OF nR] gR]) (use assms in simp)
    have "between (- (1 / 2)) 2 (fp_add (fp_mul (fp_div nL n) ?gL) (fp_mul (fp_div nR n) ?gR))"
      using betweenD(2,3) [OF 1] betweenD(2,3) [OF 2] by (intro add_between betweenD(1) [OF 1] betweenD(1) [OF 2] reprs) linarith+
    then show ?thesis unfolding G E using False by simp
  qed
qed

end
