(* ===== verification/Dt_Find.thy ===== *)
theory Dt_Find
  imports Dt_Count
begin

text \<open>
  The search for a split ends without an error, and a split that it offers lies inside the segment and comes
  with the exact numbers of tails and heads on its two sides.
\<close>

subsection \<open>Loops over an interval\<close>

lemma for_fold_upt:
  assumes "P a acc s" "a \<le> b"
    and step: "\<And>i acc s. a \<le> i \<Longrightarrow> i < b \<Longrightarrow> P i acc s \<Longrightarrow> \<exists>acc' s'. f i acc s = (Inr acc', s') \<and> P (Suc i) acc' s'"
  shows "\<exists>acc' s'. for_fold [a..<b] acc f s = (Inr acc', s') \<and> P b acc' s'"
  using assms(1,2) step
proof (induction "b - a" arbitrary: a acc s)
  case 0
  then show ?case by (auto simp: ret_def)
next
  case (Suc d)
  then have "a < b" by simp
  obtain acc1 s1 where 1: "f a acc s = (Inr acc1, s1)" "P (Suc a) acc1 s1"
    using Suc.prems(3) [OF order_refl \<open>a < b\<close> Suc.prems(1)] by blast
  have "\<exists>acc' s'. for_fold [Suc a..<b] acc1 f s1 = (Inr acc', s') \<and> P b acc' s'"
    by (rule Suc.hyps(1)) (use Suc \<open>a < b\<close> 1 in auto)
  then show ?case by (simp add: upt_conv_Cons [OF \<open>a < b\<close>] seq_Inr [where m = "f a acc", OF 1(1)])
qed

lemma for_each_upt:
  assumes "P a s" "a \<le> b"
    and step: "\<And>i s. a \<le> i \<Longrightarrow> i < b \<Longrightarrow> P i s \<Longrightarrow> \<exists>s'. f i s = (Inr (), s') \<and> P (Suc i) s'"
  shows "\<exists>s'. for_each [a..<b] f s = (Inr (), s') \<and> P b s'"
  using assms(1,2) step
proof (induction "b - a" arbitrary: a s)
  case 0
  then show ?case by (auto simp: ret_def)
next
  case (Suc d)
  then have "a < b" by simp
  obtain s1 where 1: "f a s = (Inr (), s1)" "P (Suc a) s1"
    using Suc.prems(3) [OF order_refl \<open>a < b\<close> Suc.prems(1)] by blast
  have "\<exists>s'. for_each [Suc a..<b] f s1 = (Inr (), s') \<and> P b s'"
    by (rule Suc.hyps(1)) (use Suc \<open>a < b\<close> 1 in auto)
  then show ?case by (simp add: upt_conv_Cons [OF \<open>a < b\<close>] seq_Inr [where m = "f a", OF 1(1)])
qed

subsection \<open>Evaluating and choosing\<close>

definition with_metrics :: "metrics_t \<Rightarrow> fp list \<Rightarrow> metrics_t" where
  "with_metrics M ms = M\<lparr>m_metric := ms\<rparr>"

lemma eval_metrics_run:
  assumes "m_len B M" "nbuf \<le> B" "B = metrics_buffer_size C"
  obtains ms where "eval_metrics C nT nH nbuf M = (Inr (), with_metrics M ms)" "length ms = B"
    "\<forall>k<nbuf. ms ! k = gini nT nH (m_nT M ! k) (m_nH M ! k)"
proof -
  let ?P = "\<lambda>i M'. \<exists>ms. M' = with_metrics M ms \<and> length ms = B \<and> (\<forall>k<i. ms ! k = gini nT nH (m_nT M ! k) (m_nH M ! k))"
  let ?f = "\<lambda>i. m_upd i (\<lambda>M. M\<lparr>m_metric := (m_metric M)[i := gini nT nH (m_nT M ! i) (m_nH M ! i)]\<rparr>)"
  have "\<exists>M'. for_each [0..<nbuf] ?f M = (Inr (), M') \<and> ?P nbuf M'"
  proof (rule for_each_upt)
    show "?P 0 M" using assms(1) by (intro exI [of _ "m_metric M"]) (simp add: with_metrics_def m_len_def)
    fix i M' assume i: "i < nbuf" and "?P i M'"
    then obtain ms where ms: "M' = with_metrics M ms" "length ms = B" "\<forall>k<i. ms ! k = gini nT nH (m_nT M ! k) (m_nH M ! k)"
      by blast
    have "m_len B M'" using assms(1) ms by (simp add: m_len_def with_metrics_def)
    then have "m_ok i M'" using i assms(2) by simp
    then have "?f i M' = (Inr (), with_metrics M (ms[i := gini nT nH (m_nT M ! i) (m_nH M ! i)]))"
      by (simp add: m_upd_run ms(1) with_metrics_def)
    moreover have "?P (Suc i) (with_metrics M (ms[i := gini nT nH (m_nT M ! i) (m_nH M ! i)]))"
      using ms i assms(2) by (intro exI [of _ "ms[i := gini nT nH (m_nT M ! i) (m_nH M ! i)]"]) (auto simp: nth_list_update less_Suc_eq)
    ultimately show "\<exists>s'. ?f i M' = (Inr (), s') \<and> ?P (Suc i) s'" by blast
  qed simp
  then obtain ms where *: "for_each [0..<nbuf] ?f M = (Inr (), with_metrics M ms)" "length ms = B"
      "\<forall>k<nbuf. ms ! k = gini nT nH (m_nT M ! k) (m_nH M ! k)"
    by blast
  have "\<not> metrics_buffer_size C < nbuf" using assms by simp
  then have "eval_metrics C nT nH nbuf M = (Inr (), with_metrics M ms)"
    unfolding eval_metrics_def by (simp add: seq_Inr [where m = "for_each [0..<nbuf] ?f", OF *(1)] ret_def)
  then show ?thesis by (rule that [OF _ *(2,3)])
qed

text \<open>The place found holds the greatest metric, and the first one of several.\<close>

lemma calc_best_run:
  assumes "m_len B M" "0 < nbuf" "nbuf \<le> B" "\<forall>k<nbuf. is_fin (m_metric M ! k)"
  obtains loc where "calc_best_metric nbuf M = (Inr loc, M)" "loc < nbuf"
    "\<forall>k<nbuf. fp_value (m_metric M ! k) \<le> fp_value (m_metric M ! loc)"
    "\<forall>k<loc. fp_value (m_metric M ! k) < fp_value (m_metric M ! loc)"
proof -
  let ?v = "\<lambda>k. fp_value (m_metric M ! k)"
  let ?P = "\<lambda>i (loc, best) M'. M' = M \<and> loc < i \<and> best = m_metric M ! loc \<and> (\<forall>k<i. ?v k \<le> ?v loc) \<and> (\<forall>k<loc. ?v k < ?v loc)"
  let ?f = "\<lambda>i (loc, best_metric). seq (undef_if (\<not> m_ok i M)) (\<lambda>_.
      ret (if fp_less best_metric (m_metric M ! i) then (i, m_metric M ! i) else (loc, best_metric)))"
  have "\<exists>acc M'. for_fold [1..<nbuf] (0, m_metric M ! 0) ?f M = (Inr acc, M') \<and> ?P nbuf acc M'"
  proof (rule for_fold_upt)
    show "?P 1 (0, m_metric M ! 0) M" by simp
    fix i acc M' assume i: "1 \<le> i" "i < nbuf" and P: "?P i acc M'"
    obtain loc best where [simp]: "acc = (loc, best)" by (cases acc)
    have fin: "is_fin best" "is_fin (m_metric M ! i)" using P i assms(4) by auto
    have R: "?f i acc M' = (Inr (if fp_less best (m_metric M ! i) then (i, m_metric M ! i) else (loc, best)), M)"
      using P i assms by (simp add: ret_def)
    show "\<exists>acc' s'. ?f i acc M' = (Inr acc', s') \<and> ?P (Suc i) acc' s'"
      unfolding R fin_less [OF fin] using P by (auto simp: less_Suc_eq not_less intro: less_le_trans le_less_trans)
  qed (use assms in simp)
  then obtain acc M' where *: "for_fold [1..<nbuf] (0, m_metric M ! 0) ?f M = (Inr acc, M')" "?P nbuf acc M'" by blast
  obtain loc best where [simp]: "acc = (loc, best)" by (cases acc)
  have "(\<not> m_ok 0 M) = False" "M' = M" using assms *(2) by auto
  then have "calc_best_metric nbuf M = (Inr loc, M)"
    by (simp only: calc_best_metric_def seq_get_st seq_undef_if if_False
      seq_Inr [where m = "for_fold [1..<nbuf] (0, m_metric M ! 0) ?f", OF *(1)] \<open>acc = _\<close> prod.case ret_def)
  then show ?thesis by (rule that) (use *(2) in auto)
qed


subsection \<open>The rounds of the search\<close>

text \<open>A candidate that can be returned: both sides are nonempty and their numbers are right.\<close>

definition best_ok :: "64 word list \<Rightarrow> nat \<Rightarrow> nat \<Rightarrow> best_t \<Rightarrow> bool" where
  "best_ok Y lb ub b \<longleftrightarrow> lb \<le> b_yidx b \<and> Suc (b_yidx b) < ub \<and>
     b_num4 b = \<lparr>n_T_L = cnt Y 0 lb (Suc (b_yidx b)), n_H_L = cnt Y 1 lb (Suc (b_yidx b)),
       n_T_R = cnt Y 0 (Suc (b_yidx b)) ub, n_H_R = cnt Y 1 (Suc (b_yidx b)) ub\<rparr>"

definition best_inv :: "64 word list \<Rightarrow> nat \<Rightarrow> nat \<Rightarrow> nat \<Rightarrow> best_t \<Rightarrow> bool" where
  "best_inv Y lb ub iter b \<longleftrightarrow> b_splittable b \<and> is_fin (b_metric b) \<and>
     (iter = 0 \<and> fp_value (b_metric b) = - 1 \<or> - 1 < fp_value (b_metric b) \<and> best_ok Y lb ub b)"

lemma u32_sub_cnt: "a \<le> b \<Longrightarrow> b \<le> c \<Longrightarrow> u32_sub (cnt Y v a c) (cnt Y v a b) = cnt Y v b c"
  using cnt_split [of a b c Y v] by (simp add: u32_sub_def)

lemma better_inv:
  assumes I: "acc_inv B Y lb0 lb i p M" and lb: "lb0 \<le> lb" "i \<le> ub" and ub: "ub < 4294967296"
    and M': "M' = with_metrics M ms" "\<forall>k\<le>p. ms ! k = gini (cnt Y 0 lb0 ub) (cnt Y 1 lb0 ub) (m_nT M ! k) (m_nH M ! k)"
    and T: "cnt Y 0 lb0 ub \<noteq> 0"
    and loc: "loc \<le> p" "\<forall>k\<le>p. fp_value (ms ! k) \<le> fp_value (ms ! loc)"
    and b: "best_inv Y lb0 ub iter best" and first: "iter = 0 \<longrightarrow> 0 < p"
  shows "best_inv Y lb0 ub (iter + 1) (better (cnt Y 0 lb0 ub) (cnt Y 1 lb0 ub) M' loc best)"
    "\<forall>k\<le>p. is_fin (ms ! k)"
proof -
  let ?nT = "cnt Y 0 lb0 ub" and ?nH = "cnt Y 1 lb0 ub"
  have C: "lb \<le> m_yidx M ! k" "m_yidx M ! k < i" "m_nT M ! k = cnt Y 0 lb0 (Suc (m_yidx M ! k))"
    "m_nH M ! k = cnt Y 1 lb0 (Suc (m_yidx M ! k))" if "k \<le> p" for k
    using I that by (auto simp: acc_inv_def cand_ok_def)
  have G: "if Suc (m_yidx M ! k) = ub then ms ! k = F8_minus_one else between (- (1 / 2)) 2 (ms ! k)" if k: "k \<le> p" for k
  proof -
    let ?x = "Suc (m_yidx M ! k)"
    have x: "lb0 \<le> ?x" "?x \<le> ub" using C(1,2) [OF k] lb by linarith+
    have sums: "cnt Y 0 lb0 ?x + cnt Y 1 lb0 ?x = ?x - lb0" "?nT + ?nH = ub - lb0" by (rule cnt_total)+
    have "lb0 < ?x" using C(1) [OF k] lb by linarith
    with sums(1) have pos: "0 < cnt Y 0 lb0 ?x + cnt Y 1 lb0 ?x" by simp
    have lt: "?nT + ?nH < 4294967296" using sums(2) ub by simp
    have le: "cnt Y 0 lb0 ?x \<le> ?nT" "cnt Y 1 lb0 ?x \<le> ?nH" using cnt_split [OF x] by simp_all
    have iff: "cnt Y 0 lb0 ?x + cnt Y 1 lb0 ?x = ?nT + ?nH \<longleftrightarrow> ?x = ub" unfolding sums using x \<open>lb0 < ?x\<close> by linarith
    have e: "gini ?nT ?nH (cnt Y 0 lb0 ?x) (cnt Y 1 lb0 ?x) = ms ! k" using M'(2) k C(3,4) [OF k] by simp
    from T have "(?nT = 0) = False" by simp
    with gini_cases [OF le lt pos] show ?thesis by (simp only: iff e simp_thms)
  qed
  show fin: "\<forall>k\<le>p. is_fin (ms ! k)" using G F8_minus_one by (metis betweenD(1))
  have inside: "Suc (m_yidx M ! k) < ub" if "k \<le> p" "- 1 < fp_value (ms ! k)" for k
    using G [OF that(1)] C(2) [OF that(1)] lb that(2) F8_minus_one by (auto split: if_splits)
  have good: "- 1 < fp_value (ms ! k)" if "k \<le> p" "Suc (m_yidx M ! k) < ub" for k
    using G [OF that(1)] that(2) by (auto split: if_splits dest!: betweenD(2))
  have bf: "is_fin (b_metric best)" "is_fin (ms ! loc)" using b fin loc by (auto simp: best_inv_def)
  let ?b = "best\<lparr>b_metric := ms ! loc, b_yval := m_yval M ! loc, b_yidx := m_yidx M ! loc,
      b_num4 := \<lparr>n_T_L = m_nT M ! loc, n_H_L = m_nH M ! loc, n_T_R = u32_sub ?nT (m_nT M ! loc), n_H_R = u32_sub ?nH (m_nH M ! loc)\<rparr>\<rparr>"
  have B: "better ?nT ?nH M' loc best = (if fp_value (b_metric best) < fp_value (ms ! loc) then ?b else best)"
    unfolding better_def M'(1) by (simp add: with_metrics_def fin_less [OF bf])
  show "best_inv Y lb0 ub (iter + 1) (better ?nT ?nH M' loc best)"
  proof (cases "fp_value (b_metric best) < fp_value (ms ! loc)")
    case True
    have "- 1 \<le> fp_value (b_metric best)" using b by (auto simp: best_inv_def)
    with True have pos: "- 1 < fp_value (ms ! loc)" by simp
    note i = inside [OF loc(1) pos]
    have "lb0 \<le> Suc (m_yidx M ! loc)" using C(1) [OF loc(1)] lb by linarith
    then have "best_ok Y lb0 ub ?b"
      using i C [OF loc(1)] lb by (simp add: best_ok_def u32_sub_cnt)
    then show ?thesis unfolding B using True pos b bf(2) by (simp add: best_inv_def)
  next
    case False
    have "- 1 < fp_value (b_metric best)" if 0: "iter = 0"
    proof -
      from 0 first have p: "0 < p" by simp
      then have "m_yidx M ! 0 < m_yidx M ! p" "m_yidx M ! p < i" using I C(2) [of p] by (auto simp: acc_inv_def)
      then have "- 1 < fp_value (ms ! 0)" using lb by (intro good) auto
      then have "- 1 < fp_value (ms ! loc)" using loc(2) by force
      with False show ?thesis by simp
    qed
    then have "- 1 < fp_value (b_metric best) \<and> best_ok Y lb0 ub best" using b by (auto simp: best_inv_def)
    then show ?thesis unfolding B using b False by (auto simp: best_inv_def)
  qed
qed


lemma search_loop_run:
  assumes "ub - lb < fuel" "lb0 \<le> lb" "lb \<le> ub" "ub \<le> length Y" "ub < 4294967295"
    "0 < metrics_buffer_size C" "m_len (metrics_buffer_size C) M" "cnt Y 0 lb0 ub \<noteq> 0"
    "best_inv Y lb0 ub iter best" "iter = 0 \<longrightarrow> lb < ub"
  shows "\<exists>best' M'. search_loop fuel C Y ub (cnt Y 0 lb0 ub) (cnt Y 1 lb0 ub) iter lb lb (cnt Y 0 lb0 lb) (cnt Y 1 lb0 lb) nb best M =
      (Inr best', M') \<and> (b_splittable best' \<longrightarrow> best_ok Y lb0 ub best')"
  using assms
proof (induction fuel arbitrary: iter lb nb best M)
  case 0
  then show ?case by simp
next
  case (Suc fuel)
  let ?B = "metrics_buffer_size C" and ?nT = "cnt Y 0 lb0 ub" and ?nH = "cnt Y 1 lb0 ub"
  show ?case
  proof (cases "ub \<le> lb")
    case True
    then show ?thesis using Suc.prems by (auto simp: ret_def best_inv_def)
  next
    case False
    then have lb: "lb < ub" by simp
    obtain p lb' M1 where acc: "accumulate C Y lb ub (cnt Y 0 lb0 lb) (cnt Y 1 lb0 lb) nb lb M = (Inr (Suc p, lb'), M1)"
      "acc_inv ?B Y lb0 lb lb' p M1" "lb < lb'" "lb' \<le> ub" "Suc p < ?B \<Longrightarrow> lb' = ub"
      by (rule accumulate_run [OF Suc.prems(7,6,2) lb Suc.prems(4,5), of nb lb]) blast
    show ?thesis
    proof (cases "iter = 0 \<and> Suc p \<le> 1")
      case True
      then have "search_loop (Suc fuel) C Y ub ?nT ?nH iter lb lb (cnt Y 0 lb0 lb) (cnt Y 1 lb0 lb) nb best M = (Inr (best\<lparr>b_splittable := False\<rparr>), M1)"
        unfolding search_loop.simps using False
        by (simp only: if_False seq_Inr [where m = "accumulate C Y lb ub (cnt Y 0 lb0 lb) (cnt Y 1 lb0 lb) nb lb", OF acc(1)] prod.case
            seq_bye_if nat.distinct if_True simp_thms ret_def)
      then show ?thesis by simp
    next
      case go: False
      define M2 where "M2 = M1\<lparr>m_gini := u32 (m_gini M1 + Suc p)\<rparr>"
      have p: "p < ?B" "m_len ?B M2" using acc(2) by (simp_all add: acc_inv_def m_len_def M2_def)
      then obtain ms where ms: "eval_metrics C ?nT ?nH (Suc p) M2 = (Inr (), with_metrics M2 ms)" "length ms = ?B"
        "\<forall>k<Suc p. ms ! k = gini ?nT ?nH (m_nT M2 ! k) (m_nH M2 ! k)"
        by (rule_tac eval_metrics_run [of ?B M2 "Suc p" C ?nT ?nH]) auto
      define M3 where "M3 = with_metrics M2 ms"
      have I2: "acc_inv ?B Y lb0 lb lb' p M2" using acc(2) by (simp add: acc_inv_def cand_ok_def m_len_def M2_def)
      have g: "\<forall>k\<le>p. ms ! k = gini ?nT ?nH (m_nT M2 ! k) (m_nH M2 ! k)" using ms(3) by auto
      have ub: "ub < 4294967296" using Suc.prems(5) by simp
      have p0: "iter = 0 \<longrightarrow> 0 < p" using go by auto
      have L3: "m_len ?B M3" using p(2) ms(2) by (simp add: M3_def with_metrics_def m_len_def)
      have fin: "\<forall>k\<le>p. is_fin (ms ! k)"
      proof -
        have F: "is_fin (gini ?nT ?nH a b)" if "a \<le> ?nT" "b \<le> ?nH" "0 < a + b" for a b
        proof -
          have "?nT + ?nH < 4294967296" using cnt_total [of Y lb0 ub] ub by simp
          from gini_cases [OF that(1,2) this that(3)] show ?thesis using F8_minus_one by (auto split: if_splits dest: betweenD(1))
        qed
        show ?thesis
        proof (intro allI impI)
          fix k assume k: "k \<le> p"
          then have c: "cand_ok Y lb0 lb lb' M2 k" using I2 by (simp add: acc_inv_def)
          let ?x = "Suc (m_yidx M2 ! k)"
          have x: "lb0 \<le> ?x" "?x \<le> ub" "lb0 < ?x" using c Suc.prems(2) acc(4) by (auto simp: cand_ok_def)
          have "cnt Y 0 lb0 ?x + cnt Y 1 lb0 ?x = ?x - lb0" by (rule cnt_total)
          then have "is_fin (gini ?nT ?nH (cnt Y 0 lb0 ?x) (cnt Y 1 lb0 ?x))"
            using cnt_split [OF x(1,2), of Y] x(3) by (intro F) simp_all
          then show "is_fin (ms ! k)" using g k c by (simp add: cand_ok_def)
        qed
      qed
      obtain loc where loc: "calc_best_metric (Suc p) M3 = (Inr loc, M3)" "loc < Suc p"
        "\<forall>k<Suc p. fp_value (m_metric M3 ! k) \<le> fp_value (m_metric M3 ! loc)"
        using L3 p fin by (rule_tac calc_best_run [of ?B M3 "Suc p"]) (auto simp: M3_def with_metrics_def)
      have loc_max: "\<forall>k\<le>p. fp_value (ms ! k) \<le> fp_value (ms ! loc)" and "loc \<le> p"
        using loc(2,3) by (auto simp: M3_def with_metrics_def less_Suc_eq_le)
      let ?b = "better ?nT ?nH M3 loc best"
      have inv: "best_inv Y lb0 ub (iter + 1) ?b"
        by (rule better_inv(1) [OF I2 Suc.prems(2) acc(4) ub M3_def g Suc.prems(8) \<open>loc \<le> p\<close> loc_max Suc.prems(9) p0])
      have ok: "(\<not> m_ok loc M3 \<or> \<not> m_ok (Suc p - 1) M3) = False" using L3 p(1) loc(2) by simp
      have upd: "upd_st (\<lambda>M. M\<lparr>m_gini := u32 (m_gini M + Suc p)\<rparr>) M1 = (Inr (), M2)" by (simp add: upd_st_def M2_def)
      have E: "search_loop (Suc fuel) C Y ub ?nT ?nH iter lb lb (cnt Y 0 lb0 lb) (cnt Y 1 lb0 lb) nb best M =
         (if Suc p < ?B then ret ?b
          else search_loop fuel C Y ub ?nT ?nH (iter + 1) lb' lb' (m_nT M3 ! (Suc p - 1)) (m_nH M3 ! (Suc p - 1)) (Suc p) ?b) M3"
        unfolding search_loop.simps using False go
        by (simp only: if_False seq_Inr [where m = "accumulate C Y lb ub (cnt Y 0 lb0 lb) (cnt Y 1 lb0 lb) nb lb", OF acc(1)] prod.case
            seq_bye_if nat.distinct simp_thms seq_Inr [where m = "upd_st (\<lambda>M. M\<lparr>m_gini := u32 (m_gini M + Suc p)\<rparr>)", OF upd]
            seq_Inr [where m = "eval_metrics C ?nT ?nH (Suc p)", OF ms(1), folded M3_def]
            seq_Inr [where m = "calc_best_metric (Suc p)", OF loc(1)] seq_get_st seq_undef_if ok Let_def)
      show ?thesis
      proof (cases "Suc p < ?B")
        case True
        then show ?thesis unfolding E using inv by (auto simp: ret_def best_inv_def)
      next
        case more: False
        have c: "m_nT M3 ! (Suc p - 1) = cnt Y 0 lb0 lb'" "m_nH M3 ! (Suc p - 1) = cnt Y 1 lb0 lb'"
          using I2 by (auto simp: acc_inv_def cand_ok_def M3_def with_metrics_def)
        have "\<exists>best' M'. search_loop fuel C Y ub ?nT ?nH (iter + 1) lb' lb' (cnt Y 0 lb0 lb') (cnt Y 1 lb0 lb') (Suc p) ?b M3 =
            (Inr best', M') \<and> (b_splittable best' \<longrightarrow> best_ok Y lb0 ub best')"
          by (rule Suc.IH) (use Suc.prems acc lb L3 inv in simp_all)
        then show ?thesis unfolding E c using more by simp
      qed
    qed
  qed
qed


subsection \<open>One feature and all features\<close>

lemma search_j_run:
  assumes "lb < ub" "ub \<le> n" "ub \<le> length Y" "ub < 4294967295" "0 < metrics_buffer_size C" "cnt Y 0 lb ub \<noteq> 0"
    "j < m" "j < length (g_best s)"
  obtains b g where "search_j C Y j lb ub m n (cnt Y 0 lb ub) (cnt Y 1 lb ub) s = (Inr (), s\<lparr>g_best := (g_best s)[j := b], g_num_gini_calc := g\<rparr>)"
    "b_splittable b \<longrightarrow> best_ok Y lb ub b"
proof -
  note result = that
  have set: "set_best j f s = (Inr (), s\<lparr>g_best := (g_best s)[j := f (g_best s ! j)]\<rparr>)" if "j < length (g_best s)" for f s
    using that by (simp add: set_best_def put_st_def)
  let ?no = "set_best j (\<lambda>b. b\<lparr>b_splittable := False\<rparr>)"
  let ?b0 = "\<lparr>b_metric = F8_minus_one, b_yval = 0, b_yidx = 0, b_num4 = zero_num4, b_splittable = True\<rparr>"
  have no: thesis if "search_j C Y j lb ub m n (cnt Y 0 lb ub) (cnt Y 1 lb ub) s = ?no s"
    by (rule result [where b = "(g_best s ! j)\<lparr>b_splittable := False\<rparr>" and g = "g_num_gini_calc s"]) (use that set [OF assms(8)] in simp_all)
  show thesis
  proof (cases "u32_sub ub lb \<le> min_leaf_size C")
    case True
    then show thesis by (intro no) (simp add: search_j_def)
  next
    case big: False
    have r: "(length Y \<le> lb \<or> length Y \<le> u32_sub ub 1) = False" "(ub \<le> lb) = False" "(n < ub) = False" "(m \<le> j) = False"
      using assms by (simp_all add: u32_sub_def)
    show thesis
    proof (cases "Y ! lb = Y ! u32_sub ub 1")
      case True
      then show thesis using big r by (intro no) (simp only: search_j_def if_False if_True simp_thms)
    next
      case diff: False
      let ?s1 = "s\<lparr>g_best := (g_best s)[j := (g_best s ! j)\<lparr>b_splittable := True\<rparr>]\<rparr>"
      let ?M0 = "clear_M (metrics_buffer_size C) (g_num_gini_calc s)"
      have "\<exists>best' M'. search_loop (Suc (ub - lb)) C Y ub (cnt Y 0 lb ub) (cnt Y 1 lb ub) 0 lb lb (cnt Y 0 lb lb) (cnt Y 1 lb lb) 0 ?b0 ?M0 =
          (Inr best', M') \<and> (b_splittable best' \<longrightarrow> best_ok Y lb ub best')"
        by (rule search_loop_run) (use assms F8_minus_one in \<open>simp_all add: m_len_def clear_M_def best_inv_def\<close>)
      then obtain b M' where L: "search_loop (Suc (ub - lb)) C Y ub (cnt Y 0 lb ub) (cnt Y 1 lb ub) 0 lb lb 0 0 0 ?b0 ?M0 = (Inr b, M')"
        "b_splittable b \<longrightarrow> best_ok Y lb ub b" by auto
      define run where "run = in_buffers C (search_loop (Suc (ub - lb)) C Y ub (cnt Y 0 lb ub) (cnt Y 1 lb ub) 0 lb lb 0 0 0 ?b0)"
      have B: "run ?s1 = (Inr b, ?s1\<lparr>g_num_gini_calc := m_gini M'\<rparr>)"
        using L(1) by (simp add: run_def in_buffers_def del: search_loop.simps)
      have S1: "set_best j (\<lambda>b. b\<lparr>b_splittable := True\<rparr>) s = (Inr (), ?s1)" by (rule set [OF assms(8)])
      have "search_j C Y j lb ub m n (cnt Y 0 lb ub) (cnt Y 1 lb ub) s =
          seq (set_best j (\<lambda>b. b\<lparr>b_splittable := True\<rparr>)) (\<lambda>_. seq (seq run (\<lambda>best. set_best j (\<lambda>_. best))) (\<lambda>_. ret ())) s"
        using big diff r
        by (simp only: search_j_def if_False steps.simps seq_bye_if run_def [symmetric])
          (simp add: seq_def bye_if_def ret_def split: prod.splits sum.splits)
      also have "\<dots> = seq run (\<lambda>best. seq (set_best j (\<lambda>_. best)) (\<lambda>_. ret ())) ?s1"
        by (simp only: seq_Inr [where m = "set_best j _", OF S1] seq_assoc)
      also have "\<dots> = seq (set_best j (\<lambda>_. b)) (\<lambda>_. ret ()) (?s1\<lparr>g_num_gini_calc := m_gini M'\<rparr>)"
        by (simp only: seq_Inr [where m = run, OF B])
      also have "\<dots> = (Inr (), s\<lparr>g_best := (g_best s)[j := b], g_num_gini_calc := m_gini M'\<rparr>)"
        using assms(8) by (simp add: seq_def set ret_def)
      finally show thesis by (rule that) (rule L(2))
    qed
  qed
qed


lemma pick_feature_some:
  assumes "pick_feature bs m = Some j"
  shows "j < m \<and> b_splittable (bs ! j)"
proof -
  let ?f = "\<lambda>acc j. if \<not> b_splittable (bs ! j) then acc
     else case acc of None \<Rightarrow> Some j | Some i \<Rightarrow> if fp_less (b_metric (bs ! i)) (b_metric (bs ! j)) then Some j else acc"
  have "foldl ?f acc xs = Some j \<Longrightarrow> acc = Some j \<or> j \<in> set xs \<and> b_splittable (bs ! j)" for acc xs
  proof (induction xs arbitrary: acc)
    case (Cons x xs)
    from Cons.IH [of "?f acc x"] Cons.prems show ?case by (auto split: if_splits option.splits)
  qed simp
  from this [of None "[0..<m]"] assms show ?thesis by (auto simp: pick_feature_def)
qed

definition srch_ok :: "feature list \<Rightarrow> nat \<Rightarrow> nat \<Rightarrow> nat \<Rightarrow> srch_t \<Rightarrow> bool" where
  "srch_ok fs lb ub m r \<longleftrightarrow> s_feature r < m \<and> lb < s_yidx r \<and> s_yidx r < ub \<and>
     (let Y = f_Y (fs ! s_feature r) in s_num4 r = \<lparr>n_T_L = cnt Y 0 lb (s_yidx r), n_H_L = cnt Y 1 lb (s_yidx r),
       n_T_R = cnt Y 0 (s_yidx r) ub, n_H_R = cnt Y 1 (s_yidx r) ub\<rparr>)"

lemma search_run:
  assumes "lb < ub" "ub \<le> n" "n < 4294967295" "0 < metrics_buffer_size C" "\<not> is_debug C"
    and fs: "m = length (g_feats s)" "m \<le> length (g_best s)" "\<forall>f\<in>set (g_feats s). length (f_Y f) = n"
    and counts: "\<forall>f\<in>set (g_feats s). cnt (f_Y f) 0 lb ub = nT \<and> cnt (f_Y f) 1 lb ub = nH" "nT \<noteq> 0"
  obtains r bs g where "search C lb ub nT nH m n s = (Inr r, s\<lparr>g_best := bs, g_num_gini_calc := g\<rparr>)"
    "length bs = length (g_best s)" "s_splittable r \<longrightarrow> srch_ok (g_feats s) lb ub m r"
proof -
  let ?P = "\<lambda>j acc s'. acc = (0 :: int) \<and> (\<exists>bs g. s' = s\<lparr>g_best := bs, g_num_gini_calc := g\<rparr> \<and> length bs = length (g_best s) \<and>
      (\<forall>k<j. b_splittable (bs ! k) \<longrightarrow> best_ok (f_Y (g_feats s ! k)) lb ub (bs ! k)))"
  let ?f = "\<lambda>j status. seq get_st (\<lambda>s. seq (undef_if (length (g_feats s) \<le> j)) (\<lambda>_.
      seq (attempt (search_j C (f_Y (g_feats s ! j)) j lb ub m n nT nH)) (\<lambda>lstatus.
      ret (if lstatus < 0 then lstatus else status))))"
  have "\<exists>acc s'. for_fold [0..<m] 0 ?f s = (Inr acc, s') \<and> ?P m acc s'"
  proof (rule for_fold_upt)
    show "?P 0 0 s" by (intro conjI refl exI [of _ "g_best s"] exI [of _ "g_num_gini_calc s"]) simp_all
    fix j acc s' assume j: "j < m" and "?P j acc s'"
    then obtain bs g where s': "acc = 0" "s' = s\<lparr>g_best := bs, g_num_gini_calc := g\<rparr>" "length bs = length (g_best s)"
      "\<forall>k<j. b_splittable (bs ! k) \<longrightarrow> best_ok (f_Y (g_feats s ! k)) lb ub (bs ! k)" by blast
    let ?Y = "f_Y (g_feats s ! j)"
    have f: "g_feats s ! j \<in> set (g_feats s)" using j fs by simp
    have c: "cnt ?Y 0 lb ub = nT" "cnt ?Y 1 lb ub = nH" "length ?Y = n" using counts fs f by auto
    have cz: "cnt ?Y 0 lb ub \<noteq> 0" "ub \<le> length ?Y" "ub < 4294967295" "j < length (g_best s')"
      using c counts(2) assms j s' fs by simp_all
    obtain b g' where b: "search_j C ?Y j lb ub m n nT nH s' = (Inr (), s'\<lparr>g_best := (g_best s')[j := b], g_num_gini_calc := g'\<rparr>)"
      "b_splittable b \<longrightarrow> best_ok ?Y lb ub b"
      by (rule search_j_run [OF assms(1,2) cz(2,3) assms(4) cz(1) j cz(4), unfolded c]) blast
    have "?f j acc s' = (Inr 0, s\<lparr>g_best := bs[j := b], g_num_gini_calc := g'\<rparr>)"
      using b(1) s' j fs by (simp add: seq_def attempt_def ret_def undef_if_def get_st_def)
    moreover have "?P (Suc j) 0 (s\<lparr>g_best := bs[j := b], g_num_gini_calc := g'\<rparr>)"
      using s' b(2) j fs by (intro conjI refl exI [of _ "bs[j := b]"] exI [of _ g']) (auto simp: nth_list_update less_Suc_eq)
    ultimately show "\<exists>acc' s''. ?f j acc s' = (Inr acc', s'') \<and> ?P (Suc j) acc' s''" by blast
  qed simp
  then obtain acc s' bs g where L: "for_fold [0..<m] 0 ?f s = (Inr acc, s')" "acc = 0" "s' = s\<lparr>g_best := bs, g_num_gini_calc := g\<rparr>"
    "length bs = length (g_best s)" "\<forall>k<m. b_splittable (bs ! k) \<longrightarrow> best_ok (f_Y (g_feats s ! k)) lb ub (bs ! k)" by blast
  have c0: "cBYE 0 = ret ()" by (simp add: cBYE_def)
  show thesis
  proof (cases "pick_feature bs m")
    case None
    have "search C lb ub nT nH m n s =
        (Inr \<lparr>s_feature = UINT_MAX, s_yval = 0, s_yidx = u32 (UINT_MAX + 1), s_num4 = zero_num4, s_splittable = False\<rparr>, s')"
      using assms(5) None L(2,3)
      by (simp add: search_def seq_Inr [where m = "for_fold [0..<m] 0 ?f", OF L(1)] c0 ret_def)
    from this [unfolded L(3)] show thesis by (rule that) (use L in simp_all)
  next
    case (Some j)
    from pick_feature_some [OF this] have j: "j < m" "b_splittable (bs ! j)" by auto
    let ?r = "\<lparr>s_feature = j, s_yval = b_yval (bs ! j), s_yidx = u32 (b_yidx (bs ! j) + 1), s_num4 = b_num4 (bs ! j), s_splittable = True\<rparr>"
    have E: "search C lb ub nT nH m n s = (Inr ?r, s')"
      using assms(5) Some L(2,3)
      by (simp add: search_def seq_Inr [where m = "for_fold [0..<m] 0 ?f", OF L(1)] c0 ret_def)
    have ok: "best_ok (f_Y (g_feats s ! j)) lb ub (bs ! j)" using L(5) j by blast
    then have "u32 (b_yidx (bs ! j) + 1) = Suc (b_yidx (bs ! j))" using assms by (simp add: best_ok_def)
    then have "srch_ok (g_feats s) lb ub m ?r" using ok j by (simp add: srch_ok_def best_ok_def Let_def)
    then show thesis by (intro that [OF E [unfolded L(3)]]) (use L in simp_all)
  qed
qed

end
