(* ===== verification/Dt_Part.thy ===== *)
theory Dt_Part
  imports Dt_Split Dt_Find
begin

text \<open>
  \<open>reorder\<close> is a stable partition: the elements that go left come first, in their old order, then the others,
  in theirs; the array \<open>to\<close> stays the inverse of the positions.
\<close>

subsection \<open>Segments\<close>

definition elems :: "'a list \<Rightarrow> nat \<Rightarrow> nat \<Rightarrow> 'a list" where
  "elems xs a b = map ((!) xs) [a..<b]"

lemma length_elems [simp]: "length (elems xs a b) = b - a"
  by (simp add: elems_def)

lemma elems_empty [simp]: "elems xs a a = []"
  by (simp add: elems_def)

lemma elems_Suc: "a \<le> b \<Longrightarrow> elems xs a (Suc b) = elems xs a b @ [xs ! b]"
  by (simp add: elems_def)

lemma elems_nth [simp]: "i < b - a \<Longrightarrow> elems xs a b ! i = xs ! (a + i)"
  by (simp add: elems_def)

lemma elems_append: "a \<le> b \<Longrightarrow> b \<le> c \<Longrightarrow> elems xs a b @ elems xs b c = elems xs a c"
  using upt_add_eq_append [of a b "c - b"] by (simp add: elems_def)

lemma elems_cong: "(\<And>i. a \<le> i \<Longrightarrow> i < b \<Longrightarrow> xs ! i = ys ! i) \<Longrightarrow> elems xs a b = elems ys a b"
  by (simp add: elems_def)

lemma set_elems: "set (elems xs a b) = (!) xs ` {a..<b}"
  by (simp add: elems_def)

lemma cnt_elems: "cnt Y v a b = length (filter (\<lambda>w. get_goal w = v) (elems Y a b))"
  by (simp add: cnt_def elems_def filter_map comp_def)

lemma froms_elems: "froms a b f = map get_from (elems (f_Y f) a b)"
  by (simp add: froms_def elems_def comp_def)

subsection \<open>A feature and its inverse\<close>

definition feat_ok :: "nat \<Rightarrow> nat list \<Rightarrow> feature \<Rightarrow> bool" where
  "feat_ok n g f \<longleftrightarrow> length (f_Y f) = n \<and> length (f_tmpY f) = n \<and> length (f_to f) = n \<and>
     (\<forall>i<n. get_from (f_Y f ! i) < n \<and> f_to f ! get_from (f_Y f ! i) = i \<and> get_goal (f_Y f ! i) = g ! get_from (f_Y f ! i))"

lemma feat_okD:
  assumes "feat_ok n g f"
  shows "length (f_Y f) = n" "length (f_tmpY f) = n" "length (f_to f) = n"
    "i < n \<Longrightarrow> get_from (f_Y f ! i) < n" "i < n \<Longrightarrow> f_to f ! get_from (f_Y f ! i) = i"
    "i < n \<Longrightarrow> get_goal (f_Y f ! i) = g ! get_from (f_Y f ! i)"
  using assms by (auto simp: feat_ok_def)

lemma from_inj: "feat_ok n g f \<Longrightarrow> inj_on (\<lambda>i. get_from (f_Y f ! i)) {..<n}"
  by (rule inj_onI) (metis feat_okD(5) lessThan_iff)

lemma distinct_froms: "feat_ok n g f \<Longrightarrow> b \<le> n \<Longrightarrow> distinct (froms a b f)"
  unfolding froms_def by (simp add: distinct_map) (rule inj_on_subset [OF from_inj], auto)

text \<open>The instances in a segment, and what the segment has to be.\<close>

definition seg_ok :: "nat set \<Rightarrow> nat \<Rightarrow> nat \<Rightarrow> feature \<Rightarrow> bool" where
  "seg_ok A lb ub f \<longleftrightarrow> set (froms lb ub f) = A \<and> sorted (map get_yval (elems (f_Y f) lb ub))"

lemma cnt_card:
  assumes "feat_ok n g f" "set (froms lb ub f) = A" "ub \<le> n"
  shows "cnt (f_Y f) v lb ub = card {x \<in> A. g ! x = v}"
proof -
  have "cnt (f_Y f) v lb ub = length (filter (\<lambda>x. g ! x = v) (froms lb ub f))"
    unfolding cnt_def froms_def filter_map length_map comp_def
    by (rule arg_cong [where f = length], rule filter_cong) (use assms in \<open>auto simp: feat_ok_def\<close>)
  also have "\<dots> = card (set (filter (\<lambda>x. g ! x = v) (froms lb ub f)))"
    using distinct_card [of "filter (\<lambda>x. g ! x = v) (froms lb ub f)"] distinct_froms [OF assms(1,3), of lb] by simp
  finally show ?thesis using assms(2) by simp
qed

lemma card_inst: "feat_ok n g f \<Longrightarrow> set (froms lb ub f) = A \<Longrightarrow> ub \<le> n \<Longrightarrow> card A = ub - lb"
  using distinct_card [OF distinct_froms [of n g f ub lb]] by (auto simp: froms_def)

subsection \<open>The loop\<close>

text \<open>After the elements \<open>lb .. i - 1\<close>: those that go left fill \<open>tmpY\<close> from \<open>lb\<close> on, the others from the split
  on, and \<open>to\<close> has their new places.\<close>

definition part_inv :: "nat \<Rightarrow> feature \<Rightarrow> (64 word \<Rightarrow> bool) \<Rightarrow> nat \<Rightarrow> nat \<Rightarrow> nat \<Rightarrow> nat \<times> nat \<Rightarrow> feature \<Rightarrow> bool" where
  "part_inv n f0 P lb sy i lr f \<longleftrightarrow> (case lr of (lidx, ridx) \<Rightarrow>
     f_Y f = f_Y f0 \<and> length (f_tmpY f) = n \<and> length (f_to f) = n \<and>
     lidx = lb + length (filter P (elems (f_Y f0) lb i)) \<and> ridx = sy + length (filter (\<lambda>w. \<not> P w) (elems (f_Y f0) lb i)) \<and>
     elems (f_tmpY f) lb lidx = filter P (elems (f_Y f0) lb i) \<and>
     elems (f_tmpY f) sy ridx = filter (\<lambda>w. \<not> P w) (elems (f_Y f0) lb i) \<and>
     (\<forall>p. lb \<le> p \<and> p < lidx \<or> sy \<le> p \<and> p < ridx \<longrightarrow> f_to f ! get_from (f_tmpY f ! p) = p) \<and>
     (\<forall>p<n. p < lb \<or> i \<le> p \<longrightarrow> f_to f ! get_from (f_Y f0 ! p) = p))"

lemma filter_elems_mono: "a \<le> i \<Longrightarrow> i \<le> b \<Longrightarrow> length (filter P (elems xs a i)) + length (filter P (elems xs i b)) = length (filter P (elems xs a b))"
  using elems_append [of a i b xs] by (metis filter_append length_append)

lemma filter_elems_Cons: "i < b \<Longrightarrow> length (filter P (elems xs i b)) = (if P (xs ! i) then 1 else 0) + length (filter P (elems xs (Suc i) b))"
  by (simp add: elems_def upt_conv_Cons)

lemma part_step:
  assumes f0: "feat_ok n g f0" and I: "part_inv n f0 P lb sy i lr f" and i: "lb \<le> i" "i < ub" "ub \<le> n" "n < 4294967295"
    and sy: "length (filter P (elems (f_Y f0) lb ub)) = sy - lb" "lb \<le> sy" "sy \<le> ub"
    and P: "P = (\<lambda>w. to_s ! get_from w < sy)" "length to_s = n"
  shows "\<exists>lr' f'. reorder_step to_s sy i lr f = (Inr lr', f') \<and> part_inv n f0 P lb sy (Suc i) lr' f'"
proof -
  obtain lidx ridx where lr: "lr = (lidx, ridx)" by (cases lr)
  note I' = I [unfolded part_inv_def lr prod.case]
  let ?w = "f_Y f0 ! i" and ?nP = "\<lambda>w. \<not> P w" and ?S = "elems (f_Y f0) lb"
  have Y: "f_Y f = f_Y f0" and len: "length (f_tmpY f) = n" "length (f_to f) = n" "length (f_Y f0) = n" "length (f_tmpY f0) = n"
    using I' feat_okD [OF f0] by auto
  have frm: "get_from ?w < n" using feat_okD(4) [OF f0] i by simp
  have tot: "length (filter ?nP (?S ub)) = ub - sy"
    using sum_length_filter_compl [of P "?S ub"] sy i by simp
  have cl: "length (filter P (?S i)) + (if P ?w then 1 else 0) \<le> sy - lb"
    using filter_elems_mono [of lb i ub P "f_Y f0"] filter_elems_Cons [of i ub P "f_Y f0"] sy(1) i by (cases "P ?w") simp_all
  have cr: "length (filter ?nP (?S i)) + (if P ?w then 0 else 1) \<le> ub - sy"
    using filter_elems_mono [of lb i ub ?nP "f_Y f0"] filter_elems_Cons [of i ub ?nP "f_Y f0"] tot i by (cases "P ?w") simp_all
  have lidx: "lidx = lb + length (filter P (?S i))" and ridx: "ridx = sy + length (filter ?nP (?S i))" using I' by auto
  have b: "P ?w \<Longrightarrow> lidx < sy" "\<not> P ?w \<Longrightarrow> ridx < ub" "lidx \<le> sy" "sy \<le> ridx" "lb \<le> lidx" "ridx \<le> ub"
    using cl cr lidx ridx sy by (auto split: if_splits)
  have ne: "get_from (f_tmpY f ! p) \<noteq> get_from ?w" if p: "lb \<le> p \<and> p < lidx \<or> sy \<le> p \<and> p < ridx" for p
  proof -
    have "f_tmpY f ! p \<in> set (elems (f_tmpY f) lb lidx) \<union> set (elems (f_tmpY f) sy ridx)" using p by (auto simp: set_elems)
    also have "\<dots> \<subseteq> set (?S i)" using I' by auto
    finally obtain k where k: "lb \<le> k" "k < i" "f_tmpY f ! p = f_Y f0 ! k" by (auto simp: set_elems)
    show ?thesis
    proof
      assume "get_from (f_tmpY f ! p) = get_from ?w"
      then have "k = i" using inj_onD [OF from_inj [OF f0], of k i] k i by simp
      then show False using k by simp
    qed
  qed
  have ne0: "get_from (f_Y f0 ! p) \<noteq> get_from ?w" if "p < n" "p \<noteq> i" for p
    using inj_onD [OF from_inj [OF f0], of p i] that i by auto
  have I1: "elems (f_tmpY f) lb lidx = filter P (?S i)" and I2: "elems (f_tmpY f) sy ridx = filter ?nP (?S i)" using I' by blast+
  define idx where "idx = (if P ?w then lidx else ridx)"
  have idx: "idx < n" "idx < 4294967295" using b i sy by (auto simp: idx_def)
  let ?f' = "f\<lparr>f_tmpY := (f_tmpY f)[idx := ?w], f_to := (f_to f)[get_from ?w := idx]\<rparr>"
  let ?lr' = "if P ?w then (Suc lidx, ridx) else (lidx, Suc ridx)"
  have "reorder_step to_s sy i lr f = (Inr ?lr', ?f')"
    using len frm i P idx unfolding reorder_step_def lr prod.case
    by (simp add: Y Let_def idx_def put_st_def ret_def seq_def undef_if_def get_st_def split: if_splits)
  moreover have "part_inv n f0 P lb sy (Suc i) ?lr' ?f'"
  proof (cases "P ?w")
    case True
    have 1: "elems ((f_tmpY f)[lidx := ?w]) lb (Suc lidx) = elems (f_tmpY f) lb lidx @ [?w]"
      using b len idx True by (simp add: elems_Suc idx_def) (rule elems_cong, simp)
    have 2: "elems ((f_tmpY f)[lidx := ?w]) sy ridx = elems (f_tmpY f) sy ridx"
      using b(1) True by (intro elems_cong) simp
    have 3: "(f_to f)[get_from ?w := lidx] ! get_from ((f_tmpY f)[lidx := ?w] ! p) = p"
      if "lb \<le> p \<and> p < Suc lidx \<or> sy \<le> p \<and> p < ridx" for p
    proof (cases "p = lidx")
      case True
      then show ?thesis using idx frm len \<open>P ?w\<close> by (simp add: idx_def)
    next
      case False
      then have p: "lb \<le> p \<and> p < lidx \<or> sy \<le> p \<and> p < ridx" using that by auto
      then have "f_to f ! get_from (f_tmpY f ! p) = p" using I' by blast
      then show ?thesis using ne [OF p] False by simp
    qed
    have 4: "(f_to f)[get_from ?w := lidx] ! get_from (f_Y f0 ! p) = p" if "p < n" "p < lb \<or> Suc i \<le> p" for p
      using that I' ne0 [of p] i by auto
    let ?g = "f\<lparr>f_tmpY := (f_tmpY f)[lidx := ?w], f_to := (f_to f)[get_from ?w := lidx]\<rparr>"
    have "part_inv n f0 P lb sy (Suc i) (Suc lidx, ridx) ?g"
    proof (unfold part_inv_def prod.case, intro conjI)
      show "f_Y ?g = f_Y f0" "length (f_tmpY ?g) = n" "length (f_to ?g) = n" using Y len by simp_all
      show "Suc lidx = lb + length (filter P (?S (Suc i)))" "ridx = sy + length (filter ?nP (?S (Suc i)))"
        using lidx ridx True i by (simp_all add: elems_Suc)
      show "elems (f_tmpY ?g) lb (Suc lidx) = filter P (?S (Suc i))" "elems (f_tmpY ?g) sy (ridx) = filter ?nP (?S (Suc i))"
        using 1 2 I1 I2 True i by (simp_all add: elems_Suc)
      show "\<forall>p. lb \<le> p \<and> p < Suc lidx \<or> sy \<le> p \<and> p < ridx \<longrightarrow> f_to ?g ! get_from (f_tmpY ?g ! p) = p" using 3 by simp
      show "\<forall>p<n. p < lb \<or> Suc i \<le> p \<longrightarrow> f_to ?g ! get_from (f_Y f0 ! p) = p" using 4 by simp
    qed
    then show ?thesis using True by (simp add: idx_def)
  next
    case False
    have 1: "elems ((f_tmpY f)[ridx := ?w]) sy (Suc ridx) = elems (f_tmpY f) sy ridx @ [?w]"
      using b len idx False by (simp add: elems_Suc idx_def) (rule elems_cong, simp)
    have 2: "elems ((f_tmpY f)[ridx := ?w]) lb lidx = elems (f_tmpY f) lb lidx"
      using b by (intro elems_cong) simp
    have 3: "(f_to f)[get_from ?w := ridx] ! get_from ((f_tmpY f)[ridx := ?w] ! p) = p"
      if "lb \<le> p \<and> p < lidx \<or> sy \<le> p \<and> p < Suc ridx" for p
    proof (cases "p = ridx")
      case True
      then show ?thesis using idx frm len False by (simp add: idx_def)
    next
      case neq: False
      then have p: "lb \<le> p \<and> p < lidx \<or> sy \<le> p \<and> p < ridx" using that by auto
      then have "f_to f ! get_from (f_tmpY f ! p) = p" using I' by blast
      then show ?thesis using ne [OF p] neq by simp
    qed
    have 4: "(f_to f)[get_from ?w := ridx] ! get_from (f_Y f0 ! p) = p" if "p < n" "p < lb \<or> Suc i \<le> p" for p
      using that I' ne0 [of p] i by auto
    let ?g = "f\<lparr>f_tmpY := (f_tmpY f)[ridx := ?w], f_to := (f_to f)[get_from ?w := ridx]\<rparr>"
    have "part_inv n f0 P lb sy (Suc i) (lidx, Suc ridx) ?g"
    proof (unfold part_inv_def prod.case, intro conjI)
      show "f_Y ?g = f_Y f0" "length (f_tmpY ?g) = n" "length (f_to ?g) = n" using Y len by simp_all
      show "lidx = lb + length (filter P (?S (Suc i)))" "Suc ridx = sy + length (filter ?nP (?S (Suc i)))"
        using lidx ridx False i by (simp_all add: elems_Suc)
      show "elems (f_tmpY ?g) lb (lidx) = filter P (?S (Suc i))" "elems (f_tmpY ?g) sy (Suc ridx) = filter ?nP (?S (Suc i))"
        using 1 2 I1 I2 False i by (simp_all add: elems_Suc)
      show "\<forall>p. lb \<le> p \<and> p < lidx \<or> sy \<le> p \<and> p < Suc ridx \<longrightarrow> f_to ?g ! get_from (f_tmpY ?g ! p) = p" using 3 by simp
      show "\<forall>p<n. p < lb \<or> Suc i \<le> p \<longrightarrow> f_to ?g ! get_from (f_Y f0 ! p) = p" using 4 by simp
    qed
    then show ?thesis using False by (simp add: idx_def)
  qed
  ultimately show ?thesis by blast
qed


lemma ends_differ:
  assumes "feat_ok n g f" "Suc lb < ub" "ub \<le> n"
  shows "f_Y f ! lb \<noteq> f_Y f ! u32_sub ub 1"
proof
  assume "f_Y f ! lb = f_Y f ! u32_sub ub 1"
  moreover have "u32_sub ub 1 = ub - 1" using assms by (simp add: u32_sub_def)
  ultimately have "lb = ub - 1" using inj_onD [OF from_inj [OF assms(1)], of lb "ub - 1"] assms by simp
  then show False using assms(2) by simp
qed

lemma set_same:
  assumes "length xs = n" "length ys = n" "lb \<le> ub" "ub \<le> n" "set (elems xs lb ub) = set (elems ys lb ub)"
    "\<forall>i<n. i < lb \<or> ub \<le> i \<longrightarrow> xs ! i = ys ! i"
  shows "set xs = set ys"
proof -
  have split: "set zs = set (elems zs 0 lb) \<union> set (elems zs lb ub) \<union> set (elems zs ub n)" if "length zs = n" for zs :: "'a list"
  proof -
    have "{0..<n} = {0..<lb} \<union> {lb..<ub} \<union> {ub..<n}" using assms(3,4) by auto
    then have "set (elems zs 0 n) = set (elems zs 0 lb) \<union> set (elems zs lb ub) \<union> set (elems zs ub n)"
      unfolding set_elems by (simp only: image_Un)
    moreover have "elems zs 0 n = zs" using that map_nth [of zs] by (simp add: elems_def)
    ultimately show ?thesis by (simp only:)
  qed
  have "elems xs 0 lb = elems ys 0 lb" "elems xs ub n = elems ys ub n"
    by (rule elems_cong, use assms in simp)+
  then show ?thesis using split [OF assms(1)] split [OF assms(2)] assms(5) by simp
qed

lemma reorder_run:
  assumes f: "feat_ok n g f" and b: "Suc lb < ub" "ub \<le> n" "n < 4294967295" "lb \<le> sy" "sy \<le> ub"
    and to_s: "length to_s = n" and P: "P = (\<lambda>w. to_s ! get_from w < sy)" "length (filter P (elems (f_Y f) lb ub)) = sy - lb"
  obtains f1 where "reorder to_s lb ub sy lb sy f = (Inr (sy, ub), f1)" "part_inv n f P lb sy ub (sy, ub) f1"
proof -
  have len: "length (f_Y f) = n" "length (f_tmpY f) = n" "length (f_to f) = n" using feat_okD [OF f] by auto
  have "\<exists>lr f1. for_fold [lb..<ub] (lb, sy) (reorder_step to_s sy) f = (Inr lr, f1) \<and> part_inv n f P lb sy ub lr f1"
  proof (rule for_fold_upt)
    show "part_inv n f P lb sy lb (lb, sy) f" using len feat_okD(5) [OF f] by (auto simp: part_inv_def)
    show "\<exists>lr' s'. reorder_step to_s sy i lr f1 = (Inr lr', s') \<and> part_inv n f P lb sy (Suc i) lr' s'"
      if "lb \<le> i" "i < ub" "part_inv n f P lb sy i lr f1" for i lr f1
      by (rule part_step [OF f that(3,1,2) b(2,3) P(2) b(4,5) P(1) to_s])
  qed (use b in simp)
  then obtain lr f1 where L: "for_fold [lb..<ub] (lb, sy) (reorder_step to_s sy) f = (Inr lr, f1)" "part_inv n f P lb sy ub lr f1" by blast
  have "length (filter (\<lambda>w. \<not> P w) (elems (f_Y f) lb ub)) = ub - sy"
    using sum_length_filter_compl [of P "elems (f_Y f) lb ub"] P(2) b by simp
  then have "lr = (sy, ub)" using L(2) P(2) b by (auto simp: part_inv_def)
  moreover have "(length (f_Y f) \<le> lb \<or> length (f_Y f) \<le> u32_sub ub 1) = False" using b len by (simp add: u32_sub_def)
  moreover have "(f_Y f ! lb = f_Y f ! u32_sub ub 1) = False" using ends_differ [OF f b(1,2)] by simp
  ultimately have "reorder to_s lb ub sy lb sy f = (Inr (sy, ub), f1)"
    using L(1) by (simp only: reorder_def seq_get_st seq_undef_if seq_bye_if if_False)
  then show ?thesis by (rule that) (use L(2) \<open>lr = _\<close> in simp)
qed

text \<open>Copied back, the segment is the stable partition, nothing else moved, and \<open>to\<close> is the inverse again.\<close>

lemma reorder_copy:
  assumes f: "feat_ok n g f" and b: "Suc lb < ub" "ub \<le> n" "n < 4294967295" "lb \<le> sy" "sy \<le> ub"
    and to_s: "length to_s = n" and P: "P = (\<lambda>w. to_s ! get_from w < sy)" "length (filter P (elems (f_Y f) lb ub)) = sy - lb"
  obtains f1 f2 where "reorder to_s lb ub sy lb sy f = (Inr (sy, ub), f1)" "copy_back lb ub f1 = (Inr (), f2)"
    "feat_ok n g f2" "elems (f_Y f2) lb ub = filter P (elems (f_Y f) lb ub) @ filter (\<lambda>w. \<not> P w) (elems (f_Y f) lb ub)"
    "\<forall>i<n. i < lb \<or> ub \<le> i \<longrightarrow> f_Y f2 ! i = f_Y f ! i" "set (f_Y f2) = set (f_Y f)"
proof -
  obtain f1 where 1: "reorder to_s lb ub sy lb sy f = (Inr (sy, ub), f1)" "part_inv n f P lb sy ub (sy, ub) f1"
    by (rule reorder_run [OF assms]) blast
  note I = 1(2) [unfolded part_inv_def prod.case]
  have len: "length (f_Y f) = n" "length (f_tmpY f1) = n" "length (f_to f1) = n" "f_Y f1 = f_Y f" using feat_okD [OF f] I by auto
  let ?Y = "take lb (f_Y f) @ take (ub - lb) (drop lb (f_tmpY f1)) @ drop ub (f_Y f)"
  let ?f2 = "f1\<lparr>f_Y := ?Y\<rparr>"
  have lb: "u32_sub ub lb = ub - lb" "lb + (ub - lb) = ub" using b by (simp_all add: u32_sub_def)
  have C: "copy_back lb ub f1 = (Inr (), ?f2)"
    using len b by (simp add: copy_back_def lb Let_def put_st_def)
  have nth: "?Y ! i = (if lb \<le> i \<and> i < ub then f_tmpY f1 ! i else f_Y f ! i)" if "i < n" for i
    using that len b by (auto simp: nth_append)
  have "length ?Y = n" using len b by simp
  have seg: "elems ?Y lb ub = filter P (elems (f_Y f) lb ub) @ filter (\<lambda>w. \<not> P w) (elems (f_Y f) lb ub)"
  proof -
    have "elems ?Y lb ub = elems (f_tmpY f1) lb ub" using nth b by (intro elems_cong) simp
    also have "\<dots> = elems (f_tmpY f1) lb sy @ elems (f_tmpY f1) sy ub" using b by (simp add: elems_append)
    also have "elems (f_tmpY f1) lb sy = filter P (elems (f_Y f) lb ub)" using I by blast
    also have "elems (f_tmpY f1) sy ub = filter (\<lambda>w. \<not> P w) (elems (f_Y f) lb ub)" using I by blast
    finally show ?thesis .
  qed
  have ok: "get_from (?Y ! i) < n \<and> f_to f1 ! get_from (?Y ! i) = i \<and> get_goal (?Y ! i) = g ! get_from (?Y ! i)" if i: "i < n" for i
  proof (cases "lb \<le> i \<and> i < ub")
    case True
    then have "?Y ! i \<in> set (elems ?Y lb ub)" by (auto simp: set_elems)
    then have "?Y ! i \<in> set (elems (f_Y f) lb ub)" unfolding seg by auto
    then obtain k where "k \<in> {lb..<ub}" "?Y ! i = f_Y f ! k" unfolding set_elems by blast
    then have k: "k < n" "?Y ! i = f_Y f ! k" using b by simp_all
    have "f_to f1 ! get_from (f_tmpY f1 ! i) = i" using I True by auto
    then show ?thesis using feat_okD(4,6) [OF f k(1)] nth [OF i] True k(2) by simp
  next
    case False
    then have "f_to f1 ! get_from (f_Y f ! i) = i" using I i by auto
    then show ?thesis using feat_okD(4,6) [OF f i] nth [OF i] False by simp
  qed
  show ?thesis
  proof (rule that [OF 1(1) C])
    show "feat_ok n g ?f2" using ok len \<open>length ?Y = n\<close> by (simp add: feat_ok_def)
    show "elems (f_Y ?f2) lb ub = filter P (elems (f_Y f) lb ub) @ filter (\<lambda>w. \<not> P w) (elems (f_Y f) lb ub)" using seg by simp
    show outside: "\<forall>i<n. i < lb \<or> ub \<le> i \<longrightarrow> f_Y ?f2 ! i = f_Y f ! i" using nth by auto
    have "set (elems ?Y lb ub) = set (elems (f_Y f) lb ub)" unfolding seg by auto
    then show "set (f_Y ?f2) = set (f_Y f)"
      using set_same [of ?Y n "f_Y f" lb ub] outside \<open>length ?Y = n\<close> len b by simp
  qed
qed

subsection \<open>All features\<close>

text \<open>The instances that the split feature sends to the left.\<close>

definition go_left :: "feature \<Rightarrow> nat \<Rightarrow> nat set \<Rightarrow> nat set" where
  "go_left f sy A = {x \<in> A. f_to f ! x < sy}"

lemma left_froms:
  assumes "feat_ok n g f" "set (froms lb ub f) = A" "lb \<le> sy" "sy \<le> ub" "ub \<le> n"
  shows "set (froms lb sy f) = go_left f sy A" "set (froms sy ub f) = A - go_left f sy A"
proof -
  have to: "f_to f ! get_from (f_Y f ! i) = i" if "i < ub" for i using feat_okD(5) [OF assms(1)] that assms by simp
  have A: "A = (\<lambda>i. get_from (f_Y f ! i)) ` {lb..<ub}" unfolding assms(2) [symmetric] by (simp add: froms_def)
  have sub: "{i \<in> {lb..<ub}. i < sy} = {lb..<sy}" "{i \<in> {lb..<ub}. \<not> i < sy} = {sy..<ub}" using assms(3,4) by auto
  have "go_left f sy A = (\<lambda>i. get_from (f_Y f ! i)) ` {i \<in> {lb..<ub}. i < sy}"
    unfolding go_left_def A using to by auto
  moreover have "A - go_left f sy A = {x \<in> A. \<not> f_to f ! x < sy}" by (auto simp: go_left_def)
  moreover have "{x \<in> A. \<not> f_to f ! x < sy} = (\<lambda>i. get_from (f_Y f ! i)) ` {i \<in> {lb..<ub}. \<not> i < sy}"
    unfolding A using to by auto
  ultimately have "go_left f sy A = (\<lambda>i. get_from (f_Y f ! i)) ` {lb..<sy}" "A - go_left f sy A = (\<lambda>i. get_from (f_Y f ! i)) ` {sy..<ub}"
    by (simp_all only: sub)
  then show "set (froms lb sy f) = go_left f sy A" "set (froms sy ub f) = A - go_left f sy A"
    by (simp_all only: froms_def set_map set_upt)
qed

lemma sorted_map_filter: "sorted (map h xs) \<Longrightarrow> sorted (map h (filter P xs))"
  by (rule sorted_filter)

text \<open>What one pass of the loop makes of a feature.\<close>

definition moved :: "nat list \<Rightarrow> nat \<Rightarrow> nat \<Rightarrow> nat \<Rightarrow> feature \<Rightarrow> feature" where
  "moved to_s lb ub sy f = snd (copy_back lb ub (snd (reorder to_s lb ub sy lb sy f)))"

lemma reorder_feature_run:
  assumes s: "\<forall>f\<in>set (g_feats s). feat_ok n g f \<and> set (froms lb ub f) = A" and b: "Suc lb < ub" "ub \<le> n" "n < 4294967295" "lb \<le> sy" "sy \<le> ub"
    and j: "j < length (g_feats s)" "split_j < length (g_feats s)" and sj: "j \<noteq> split_j"
    and seg: "seg_ok A lb ub (g_feats s ! j)"
  obtains f2 where "f2 = moved (f_to (g_feats s ! split_j)) lb ub sy (g_feats s ! j)"
    "reorder_feature lb ub split_j sy j s = (Inr (), s\<lparr>g_feats := (g_feats s)[j := f2]\<rparr>)"
    "feat_ok n g f2" "seg_ok (go_left (g_feats s ! split_j) sy A) lb sy f2" "seg_ok (A - go_left (g_feats s ! split_j) sy A) sy ub f2"
    "\<forall>i<n. i < lb \<or> ub \<le> i \<longrightarrow> f_Y f2 ! i = f_Y (g_feats s ! j) ! i" "set (f_Y f2) = set (f_Y (g_feats s ! j))"
proof -
  let ?f = "g_feats s ! j" and ?fs = "g_feats s ! split_j"
  have f: "feat_ok n g ?f" "set (froms lb ub ?f) = A" and fs: "feat_ok n g ?fs" "set (froms lb ub ?fs) = A" using s j by auto
  define P where "P = (\<lambda>w. f_to ?fs ! get_from w < sy)"
  have seteq: "get_from ` set (filter P (elems (f_Y ?f) lb ub)) = go_left ?fs sy A"
    unfolding go_left_def P_def using f(2) by (auto simp: froms_elems)
  have inj: "inj_on get_from (set (elems (f_Y ?f) lb ub))" and dis: "distinct (elems (f_Y ?f) lb ub)"
    using distinct_froms [OF f(1) b(2), of lb] by (simp_all add: froms_elems distinct_map)
  have "length (filter P (elems (f_Y ?f) lb ub)) = card (set (filter P (elems (f_Y ?f) lb ub)))"
    using dis by (simp add: distinct_card del: set_filter)
  also have "\<dots> = card (get_from ` set (filter P (elems (f_Y ?f) lb ub)))"
    by (rule card_image [symmetric]) (rule inj_on_subset [OF inj], auto)
  also have "\<dots> = card (set (froms lb sy ?fs))" using seteq left_froms [OF fs b(4,5,2)] by simp
  also have "\<dots> = sy - lb" using card_inst [OF fs(1) refl, of sy lb] b by simp
  finally have num: "length (filter P (elems (f_Y ?f) lb ub)) = sy - lb" .
  obtain f1 f2 where R: "reorder (f_to ?fs) lb ub sy lb sy ?f = (Inr (sy, ub), f1)" "copy_back lb ub f1 = (Inr (), f2)"
    "feat_ok n g f2" "elems (f_Y f2) lb ub = filter P (elems (f_Y ?f) lb ub) @ filter (\<lambda>w. \<not> P w) (elems (f_Y ?f) lb ub)"
    "\<forall>i<n. i < lb \<or> ub \<le> i \<longrightarrow> f_Y f2 ! i = f_Y ?f ! i" "set (f_Y f2) = set (f_Y ?f)"
    using feat_okD(3) [OF fs(1)] by (rule_tac reorder_copy [OF f(1) b _ P_def num]) blast+
  have r: "(length (f_Y ?f) \<le> lb \<or> length (f_Y ?f) \<le> u32_sub ub 1) = False" using b feat_okD(1) [OF f(1)] by (simp add: u32_sub_def)
  have d: "(f_Y ?f ! lb = f_Y ?f ! u32_sub ub 1) = False" using ends_differ [OF f(1) b(1,2)] by simp
  have u: "(length (g_feats s) \<le> j \<or> length (g_feats s) \<le> split_j) = False" using j by simp
  have A1: "on_feat j (attempt (reorder (f_to ?fs) lb ub sy lb sy)) s = (Inr 0, s\<lparr>g_feats := (g_feats s)[j := f1]\<rparr>)"
    using j R(1) by (simp add: on_feat_def attempt_def)
  have A2: "on_feat j (copy_back lb ub) (s\<lparr>g_feats := (g_feats s)[j := f1]\<rparr>) = (Inr (), s\<lparr>g_feats := (g_feats s)[j := f2]\<rparr>)"
    using j R(2) by (simp add: on_feat_def)
  have E: "reorder_feature lb ub split_j sy j s = (Inr (), s\<lparr>g_feats := (g_feats s)[j := f2]\<rparr>)"
    using sj
    by (simp only: reorder_feature_def if_False seq_get_st seq_undef_if u Let_def r d A2
      seq_Inr [where m = "on_feat j (attempt _)", OF A1])
  have part: "elems (f_Y f2) lb sy = filter P (elems (f_Y ?f) lb ub)" "elems (f_Y f2) sy ub = filter (\<lambda>w. \<not> P w) (elems (f_Y ?f) lb ub)"
  proof -
    have "elems (f_Y f2) lb sy @ elems (f_Y f2) sy ub = filter P (elems (f_Y ?f) lb ub) @ filter (\<lambda>w. \<not> P w) (elems (f_Y ?f) lb ub)"
      using R(4) elems_append [OF b(4,5), of "f_Y f2"] by simp
    then show "elems (f_Y f2) lb sy = filter P (elems (f_Y ?f) lb ub)" "elems (f_Y f2) sy ub = filter (\<lambda>w. \<not> P w) (elems (f_Y ?f) lb ub)"
      using num by (simp_all add: append_eq_append_conv)
  qed
  have sort: "sorted (map get_yval (elems (f_Y ?f) lb ub))" using seg by (simp add: seg_ok_def)
  have M: "f2 = moved (f_to ?fs) lb ub sy ?f" using R(1,2) by (simp add: moved_def)
  show ?thesis
  proof (rule that [OF M E R(3) _ _ R(5,6)])
    show "seg_ok (go_left ?fs sy A) lb sy f2"
      unfolding seg_ok_def froms_elems part using seteq sorted_map_filter [OF sort] by simp
    have "get_from ` set (filter (\<lambda>w. \<not> P w) (elems (f_Y ?f) lb ub)) = A - go_left ?fs sy A"
      unfolding go_left_def P_def using f(2) by (auto simp: froms_elems)
    then show "seg_ok (A - go_left ?fs sy A) sy ub f2"
      unfolding seg_ok_def froms_elems part using sorted_map_filter [OF sort] by simp
  qed
qed


lemma seg_join:
  assumes "seg_ok B lb sy f" "seg_ok (A - B) sy ub f" "B \<subseteq> A" "lb \<le> sy" "sy \<le> ub"
  shows "set (froms lb ub f) = A"
proof -
  have "froms lb ub f = froms lb sy f @ froms sy ub f" using elems_append [OF assms(4,5), of "f_Y f"] by (simp add: froms_elems flip: map_append)
  then show ?thesis using assms by (auto simp: seg_ok_def)
qed

text \<open>The parallel loop over the features: in whatever order the iterations run, each feature but the split one is
  moved, and the others are left alone.\<close>

lemma reorder_all_run:
  assumes "\<forall>f\<in>set (g_feats s). feat_ok n g f \<and> seg_ok A lb ub f" "Suc lb < ub" "ub \<le> n" "n < 4294967295" "lb \<le> sy" "sy \<le> ub"
    "split_j < length (g_feats s)" "distinct js" "set js \<subseteq> {..<length (g_feats s)}"
  shows "for_each js (reorder_feature lb ub split_j sy) s = (Inr (), s\<lparr>g_feats := map (\<lambda>j.
      if j \<in> set js \<and> j \<noteq> split_j then moved (f_to (g_feats s ! split_j)) lb ub sy (g_feats s ! j) else g_feats s ! j)
      [0..<length (g_feats s)]\<rparr>)"
proof -
  have "for_each js (reorder_feature lb ub split_j sy) s = (Inr (), s\<lparr>g_feats := map (\<lambda>j.
      if j \<in> set js \<and> j \<noteq> split_j then moved (f_to (g_feats s ! split_j)) lb ub sy (g_feats s ! j) else g_feats s ! j)
      [0..<length (g_feats s)]\<rparr>)"
    if "\<forall>f\<in>set (g_feats s). feat_ok n g f \<and> set (froms lb ub f) = A" "\<forall>j\<in>set js. seg_ok A lb ub (g_feats s ! j)"
      "split_j < length (g_feats s)" "distinct js" "set js \<subseteq> {..<length (g_feats s)}" for js s
    using that
  proof (induction js arbitrary: s)
    case Nil
    then show ?case by (simp add: ret_def map_nth)
  next
    case (Cons j js)
    show ?case
    proof (cases "j = split_j")
      case True
      then have "reorder_feature lb ub split_j sy j s = (Inr (), s)" by (simp add: reorder_feature_def ret_def)
      then have "for_each (j # js) (reorder_feature lb ub split_j sy) s = for_each js (reorder_feature lb ub split_j sy) s"
        by (simp add: seq_Inr [where m = "reorder_feature lb ub split_j sy j"])
      moreover have "(x \<in> set (j # js) \<and> x \<noteq> split_j) = (x \<in> set js \<and> x \<noteq> split_j)" for x using True by auto
      ultimately show ?thesis using Cons.IH [of s] Cons.prems by (simp only:) simp
    next
      case False
      have j: "j < length (g_feats s)" "j \<notin> set js" using Cons.prems by auto
      obtain f2 where f2: "f2 = moved (f_to (g_feats s ! split_j)) lb ub sy (g_feats s ! j)"
        "reorder_feature lb ub split_j sy j s = (Inr (), s\<lparr>g_feats := (g_feats s)[j := f2]\<rparr>)" "feat_ok n g f2"
        "seg_ok (go_left (g_feats s ! split_j) sy A) lb sy f2" "seg_ok (A - go_left (g_feats s ! split_j) sy A) sy ub f2"
        using Cons.prems by (rule_tac reorder_feature_run [OF Cons.prems(1) assms(2-6) j(1) Cons.prems(3) False]) auto
      have A2: "set (froms lb ub f2) = A"
        by (rule seg_join [OF f2(4,5) _ assms(5,6)]) (auto simp: go_left_def)
      let ?s1 = "s\<lparr>g_feats := (g_feats s)[j := f2]\<rparr>"
      have "for_each js (reorder_feature lb ub split_j sy) ?s1 = (Inr (), ?s1\<lparr>g_feats := map (\<lambda>x.
          if x \<in> set js \<and> x \<noteq> split_j then moved (f_to (g_feats ?s1 ! split_j)) lb ub sy (g_feats ?s1 ! x) else g_feats ?s1 ! x)
          [0..<length (g_feats ?s1)]\<rparr>)"
      proof (rule Cons.IH)
        show "\<forall>f\<in>set (g_feats ?s1). feat_ok n g f \<and> set (froms lb ub f) = A"
          using Cons.prems(1) f2(3) A2 set_update_subset_insert [of "g_feats s" j f2] by auto
        show "\<forall>x\<in>set js. seg_ok A lb ub (g_feats ?s1 ! x)" using Cons.prems(2) j by (auto simp: nth_list_update)
      qed (use Cons.prems in auto)
      also have "\<dots> = (Inr (), s\<lparr>g_feats := map (\<lambda>x.
          if x \<in> set (j # js) \<and> x \<noteq> split_j then moved (f_to (g_feats s ! split_j)) lb ub sy (g_feats s ! x) else g_feats s ! x)
          [0..<length (g_feats s)]\<rparr>)"
        using j False by (simp add: f2(1) nth_list_update)
      finally show ?thesis by (simp add: seq_Inr [where m = "reorder_feature lb ub split_j sy j", OF f2(2)])
    qed
  qed
  from this [of s js] assms show ?thesis by (simp add: seg_ok_def subset_iff)
qed

lemma go_left_subset: "go_left f sy A \<subseteq> A"
  by (auto simp: go_left_def)

text \<open>After the loop over all features both parts are segments of every feature, and nothing outside changed.\<close>

lemma reorder_features_run:
  assumes fs: "\<forall>f\<in>set (g_feats s). feat_ok n g f \<and> seg_ok A lb ub f" and b: "Suc lb < ub" "ub \<le> n" "n < 4294967295" "lb \<le> sy" "sy \<le> ub"
    and sj: "split_j < length (g_feats s)" and m: "m = length (g_feats s)"
  obtains fs' where "for_each [0..<m] (reorder_feature lb ub split_j sy) s = (Inr (), s\<lparr>g_feats := fs'\<rparr>)" "length fs' = m"
    "fs' ! split_j = g_feats s ! split_j"
    "\<forall>f\<in>set fs'. feat_ok n g f \<and> seg_ok (go_left (g_feats s ! split_j) sy A) lb sy f \<and> seg_ok (A - go_left (g_feats s ! split_j) sy A) sy ub f"
    "\<forall>j<m. \<forall>i<n. i < lb \<or> ub \<le> i \<longrightarrow> f_Y (fs' ! j) ! i = f_Y (g_feats s ! j) ! i"
    "\<forall>j<m. set (f_Y (fs' ! j)) = set (f_Y (g_feats s ! j))"
proof -
  let ?sf = "g_feats s ! split_j"
  let ?fs' = "map (\<lambda>j. if j \<noteq> split_j then moved (f_to ?sf) lb ub sy (g_feats s ! j) else g_feats s ! j) [0..<m]"
  have R: "for_each [0..<m] (reorder_feature lb ub split_j sy) s = (Inr (), s\<lparr>g_feats := ?fs'\<rparr>)"
  proof -
    have "for_each [0..<m] (reorder_feature lb ub split_j sy) s = (Inr (), s\<lparr>g_feats := map (\<lambda>j.
      if j \<in> set [0..<m] \<and> j \<noteq> split_j then moved (f_to ?sf) lb ub sy (g_feats s ! j) else g_feats s ! j) [0..<m]\<rparr>)"
      unfolding m by (rule reorder_all_run [OF fs b sj]) auto
    also have "map (\<lambda>j. if j \<in> set [0..<m] \<and> j \<noteq> split_j then moved (f_to ?sf) lb ub sy (g_feats s ! j) else g_feats s ! j) [0..<m] = ?fs'"
      by (rule map_cong) auto
    finally show ?thesis .
  qed
  have F: "\<forall>f\<in>set (g_feats s). feat_ok n g f \<and> set (froms lb ub f) = A" using fs by (simp add: seg_ok_def)
  have P: "feat_ok n g (?fs' ! j) \<and> seg_ok (go_left ?sf sy A) lb sy (?fs' ! j) \<and> seg_ok (A - go_left ?sf sy A) sy ub (?fs' ! j) \<and>
      (\<forall>i<n. i < lb \<or> ub \<le> i \<longrightarrow> f_Y (?fs' ! j) ! i = f_Y (g_feats s ! j) ! i) \<and> set (f_Y (?fs' ! j)) = set (f_Y (g_feats s ! j))" if j: "j < m" for j
  proof (cases "j = split_j")
    case True
    have f: "feat_ok n g ?sf" "seg_ok A lb ub ?sf" using fs sj by auto
    have "sorted (map get_yval (elems (f_Y ?sf) lb sy) @ map get_yval (elems (f_Y ?sf) sy ub))"
      using f(2) elems_append [OF b(4,5), of "f_Y ?sf"] by (simp add: seg_ok_def flip: map_append)
    then show ?thesis
      using True j f left_froms [OF f(1) _ b(4,5,2), of A] by (simp add: seg_ok_def sorted_append)
  next
    case False
    have j': "j < length (g_feats s)" using j m by simp
    obtain f2 where "f2 = moved (f_to ?sf) lb ub sy (g_feats s ! j)" "feat_ok n g f2"
      "seg_ok (go_left ?sf sy A) lb sy f2" "seg_ok (A - go_left ?sf sy A) sy ub f2"
      "\<forall>i<n. i < lb \<or> ub \<le> i \<longrightarrow> f_Y f2 ! i = f_Y (g_feats s ! j) ! i" "set (f_Y f2) = set (f_Y (g_feats s ! j))"
      using fs j' by (rule_tac reorder_feature_run [OF F b j' sj False]) auto
    then show ?thesis using False j by simp
  qed
  show ?thesis
  proof (rule that [OF R])
    show "\<forall>f\<in>set ?fs'. feat_ok n g f \<and> seg_ok (go_left ?sf sy A) lb sy f \<and> seg_ok (A - go_left ?sf sy A) sy ub f"
      using P by (metis (no_types, lifting) in_set_conv_nth length_map length_upt diff_zero)
  qed (use P sj m in auto)
qed

end
