(* ===== verification/Dt_Grow.thy ===== *)
theory Dt_Grow
  imports Dt_Part
begin

text \<open>
  The tree that \<open>split\<close> grows: every node stands for a set of instances, whose tails and heads it counts; the
  children of a node divide its instances by the order of one feature; and \<open>check_tree\<close> accepts the tree.
\<close>

subsection \<open>The invariant of the tree\<close>

text \<open>\<open>I k\<close> are the instances of node \<open>k\<close>, and \<open>J L R\<close> says that some feature has the instances of \<open>L\<close> before those
  of \<open>R\<close>.\<close>

definition count_ok :: "config_t \<Rightarrow> nat list \<Rightarrow> node_t list \<Rightarrow> (nat \<Rightarrow> nat set) \<Rightarrow> nat \<Rightarrow> bool" where
  "count_ok C g T I k \<longleftrightarrow> nd_nT (T ! k) = card {x \<in> I k. g ! x = 0} \<and> nd_nH (T ! k) = card {x \<in> I k. g ! x = 1} \<and>
     min_partition_size C \<le> nd_nT (T ! k) + nd_nH (T ! k) \<and> nd_nT (T ! k) + nd_nH (T ! k) < 4294967296 \<and>
     0 \<le> nd_depth (T ! k) \<and> nd_depth (T ! k) \<le> int (max_depth C)"

definition up_ok :: "node_t list \<Rightarrow> (nat \<Rightarrow> nat set) \<Rightarrow> nat \<Rightarrow> bool" where
  "up_ok T I k \<longleftrightarrow> (if k = 0 then parent_id (T ! k) = - 1 \<and> nd_depth (T ! k) = 0
     else \<exists>p<k. parent_id (T ! k) = int p \<and> nd_depth (T ! k) = nd_depth (T ! p) + 1 \<and>
       (lchild_id (T ! p) = int k \<or> rchild_id (T ! p) = int k) \<and> I k \<subseteq> I p)"

definition child_ok :: "node_t list \<Rightarrow> nat \<Rightarrow> nat \<Rightarrow> int \<Rightarrow> bool" where
  "child_ok T N k c \<longleftrightarrow> c = - 1 \<or> int k < c \<and> c < int N \<and> parent_id (T ! nat c) = int k"

definition down_ok :: "(nat set \<Rightarrow> nat set \<Rightarrow> bool) \<Rightarrow> node_t list \<Rightarrow> nat \<Rightarrow> (nat \<Rightarrow> nat set) \<Rightarrow> nat \<Rightarrow> bool" where
  "down_ok J T N I k \<longleftrightarrow> child_ok T N k (lchild_id (T ! k)) \<and> child_ok T N k (rchild_id (T ! k)) \<and>
     (rchild_id (T ! k) \<noteq> - 1 \<longrightarrow> rchild_id (T ! k) \<noteq> lchild_id (T ! k)) \<and>
     (lchild_id (T ! k) \<noteq> - 1 \<longrightarrow> J (I (nat (lchild_id (T ! k)))) (I k - I (nat (lchild_id (T ! k))))) \<and>
     (rchild_id (T ! k) \<noteq> - 1 \<longrightarrow> J (I k - I (nat (rchild_id (T ! k)))) (I (nat (rchild_id (T ! k))))) \<and>
     (lchild_id (T ! k) \<noteq> - 1 \<and> rchild_id (T ! k) \<noteq> - 1 \<longrightarrow> I (nat (rchild_id (T ! k))) = I k - I (nat (lchild_id (T ! k))))"

definition tree_inv :: "config_t \<Rightarrow> nat list \<Rightarrow> (nat set \<Rightarrow> nat set \<Rightarrow> bool) \<Rightarrow> node_t list \<Rightarrow> nat \<Rightarrow> (nat \<Rightarrow> nat set) \<Rightarrow> bool" where
  "tree_inv C g J T N I \<longleftrightarrow> 0 < N \<and> N \<le> length T \<and> (\<forall>k<N. count_ok C g T I k \<and> up_ok T I k \<and> down_ok J T N I k) \<and>
     (\<forall>k<length T. N \<le> k \<longrightarrow> T ! k = blank_node)"

lemma i32_small: "k < 2 ^ 31 \<Longrightarrow> i32 k = int k"
  by (simp add: i32_def)

text \<open>The tests of \<open>check_tree\<close> follow from the invariant.\<close>

lemma steps_same: "list_all (\<lambda>m. m s = (Inr (), s)) ms \<Longrightarrow> steps ms s = (Inr (), s)"
proof (induction ms)
  case (Cons m ms)
  then show ?case by (simp add: seq_Inr [where m = m])
qed (simp add: ret_def)

lemma bye_ok: "\<not> c \<Longrightarrow> bye_if c st s = (Inr (), s)"
  by (simp add: bye_if_def ret_def)

lemma undef_ok: "\<not> c \<Longrightarrow> undef_if c s = (Inr (), s)"
  by (simp add: undef_if_def ret_def)

lemma check_node_ok:
  assumes "tree_inv C g J T N I" "k < N" "max_depth C < 2 ^ 31"
  shows "check_node C T k s = (Inr (), s)"
proof -
  have c: "count_ok C g T I k" "up_ok T I k" "down_ok J T N I k" "k < length T" "N \<le> length T" using assms by (auto simp: tree_inv_def)
  have n: "\<not> u32 (nd_nT (T ! k) + nd_nH (T ! k)) < min_partition_size C" using c(1) by (simp add: count_ok_def)
  have d: "\<not> (nd_depth (T ! k) < 0 \<or> i32 (max_depth C) < nd_depth (T ! k))" using c(1) by (simp add: count_ok_def i32_small [OF assms(3)])
  have lr: "lchild_id (T ! k) = - 1 \<or> int k < lchild_id (T ! k)" "rchild_id (T ! k) = - 1 \<or> int k < rchild_id (T ! k)"
    "rchild_id (T ! k) \<noteq> - 1 \<longrightarrow> rchild_id (T ! k) \<noteq> lchild_id (T ! k)" using c(3) by (auto simp: down_ok_def child_ok_def)
  have up: "k = 0 \<and> parent_id (T ! k) = - 1 \<and> nd_depth (T ! k) = 0 \<or>
      k \<noteq> 0 \<and> 0 \<le> parent_id (T ! k) \<and> parent_id (T ! k) < int k \<and> nd_depth (T ! k) = nd_depth (T ! nat (parent_id (T ! k))) + 1 \<and>
      (lchild_id (T ! nat (parent_id (T ! k))) = int k \<or> rchild_id (T ! nat (parent_id (T ! k))) = int k)"
    using c(2) by (auto simp: up_ok_def split: if_splits)
  have pd: "0 \<le> nd_depth (T ! nat (parent_id (T ! k)))" if "k \<noteq> 0"
  proof -
    have "nat (parent_id (T ! k)) < N" using up that assms(2) by auto
    then show ?thesis using assms(1) by (auto simp: tree_inv_def count_ok_def)
  qed
  show ?thesis
    unfolding check_node_def Let_def
    by (rule steps_same, simp only: list.pred_inject simp_thms, intro conjI bye_ok undef_ok) (use n d lr up pd c(4,5) in \<open>(linarith | force)+\<close>)
qed

lemma check_tree_ok:
  assumes "tree_inv C g J T N I" "max_depth C < 2 ^ 31"
  shows "check_tree C T N s = (Inr (), s)"
proof -
  have "T \<noteq> []" "0 < N" using assms(1) by (auto simp: tree_inv_def)
  then have p: "parent_id (T ! 0) = - 1" using assms(1) by (auto simp: tree_inv_def up_ok_def)
  have "\<exists>s'. for_each [0..<N] (check_node C T) s = (Inr (), s') \<and> s' = s"
    by (rule for_each_upt) (use check_node_ok [OF assms(1) _ assms(2)] in auto)
  then have L: "for_each [0..<N] (check_node C T) s = (Inr (), s)" by blast
  show ?thesis
    using \<open>T \<noteq> []\<close> p by (simp add: check_tree_def seq_Inr [where m = "for_each [0..<N] (check_node C T)", OF L]
      sum_length_filter_compl [of "\<lambda>i. is_leaf (T ! i)" "[0..<N]", simplified] ret_def)
qed

subsection \<open>Adding a child\<close>

lemma add_child_tree:
  assumes inv: "tree_inv C g J T N I" and p: "p < N" "N < length T"
    and nd: "nd = (if left then link_left (int N) (T ! p) else link_right (int N) (T ! p))"
    and free: "if left then lchild_id (T ! p) = - 1 \<and> rchild_id (T ! p) = - 1 else rchild_id (T ! p) = - 1"
    and B: "B \<subseteq> I p" "nT = card {x \<in> B. g ! x = 0}" "nH = card {x \<in> B. g ! x = 1}"
      "min_partition_size C \<le> nT + nH" "nT + nH < 4294967296" 
    and d: "nd_depth (T ! p) < int (max_depth C)"
    and J: "if left then J B (I p - B) else J (I p - B) B"
      "\<not> left \<and> lchild_id (T ! p) \<noteq> - 1 \<longrightarrow> B = I p - I (nat (lchild_id (T ! p)))"
    and T': "T' = T[p := nd, N := (T ! N)\<lparr>parent_id := int p, nd_nT := nT, nd_nH := nH, nd_depth := nd_depth (T ! p) + 1\<rparr>]"
  shows "tree_inv C g J T' (Suc N) (I(N := B))"
proof -
  let ?I = "I(N := B)" and ?new = "(T ! N)\<lparr>parent_id := int p, nd_nT := nT, nd_nH := nH, nd_depth := nd_depth (T ! p) + 1\<rparr>"
  have blank: "T ! N = blank_node" using inv p by (simp add: tree_inv_def)
  have nth: "T' ! k = (if k = N then ?new else if k = p then nd else T ! k)" if "k < length T" for k
    using that p unfolding T' by (simp add: nth_list_update)
  have len: "length T' = length T" unfolding T' by simp
  have old: "count_ok C g T I k" "up_ok T I k" "down_ok J T N I k" if "k < N" for k using inv that by (auto simp: tree_inv_def)
  have same: "nd_depth (T' ! k) = nd_depth (T ! k)" "parent_id (T' ! k) = parent_id (T ! k)"
    "nd_nT (T' ! k) = nd_nT (T ! k)" "nd_nH (T' ! k) = nd_nH (T ! k)" if "k < N" for k
    using that p nth [of k] by (auto simp: nd link_left_def link_right_def)
  have kids: "lchild_id (T' ! k) = (if k = p \<and> left then int N else lchild_id (T ! k))"
    "rchild_id (T' ! k) = (if k = p \<and> \<not> left then int N else rchild_id (T ! k))" if "k < N" for k
    using that p nth [of k] by (auto simp: nd link_left_def link_right_def)
  have new: "T' ! N = ?new" using nth [of N] p by simp
  have dp: "0 \<le> nd_depth (T ! p)" using old(1) [OF p(1)] by (simp add: count_ok_def)
  have cnt: "count_ok C g T' ?I k" if "k < Suc N" for k
  proof (cases "k = N")
    case True
    then show ?thesis using B d dp by (simp add: count_ok_def new)
  next
    case False
    then show ?thesis using that old(1) [of k] same [of k] by (simp add: count_ok_def)
  qed
  have up: "up_ok T' ?I k" if k: "k < Suc N" for k
  proof (cases "k = N")
    case True
    then show ?thesis using p B(1) same(1) [OF p(1)] kids [OF p(1)] by (auto simp: up_ok_def new intro!: exI [of _ p])
  next
    case False
    then have kN: "k < N" using k by simp
    show ?thesis
    proof (cases "k = 0")
      case True
      then show ?thesis using old(2) [OF kN] same [OF kN] by (simp add: up_ok_def)
    next
      case nz: False
      obtain q where q: "q < k" "parent_id (T ! k) = int q" "nd_depth (T ! k) = nd_depth (T ! q) + 1"
        "lchild_id (T ! q) = int k \<or> rchild_id (T ! q) = int k" "I k \<subseteq> I q"
        using old(2) [OF kN] nz by (auto simp: up_ok_def)
      have "lchild_id (T' ! q) = int k \<or> rchild_id (T' ! q) = int k"
        using q kN kids [of q] free by (auto split: if_splits)
      then show ?thesis using q kN nz same [of k] same [of q] by (auto simp: up_ok_def)
    qed
  qed
  have child: "child_ok T' (Suc N) k c" if "k < N" "child_ok T N k c" for k c
    using that same(2) [of "nat c"] by (auto simp: child_ok_def)
  have childN: "child_ok T' (Suc N) p (int N)" using p by (simp add: child_ok_def new)
  have keep: "?I (nat c) = I (nat c)" if "child_ok T N k c" "c \<noteq> - 1" for k c using that by (auto simp: child_ok_def)
  have down: "down_ok J T' (Suc N) ?I k" if k: "k < Suc N" for k
  proof (cases "k = N")
    case True
    then show ?thesis using p by (simp add: down_ok_def child_ok_def new blank blank_node_def)
  next
    case False
    then have kN: "k < N" using k by simp
    note o = old(3) [OF kN, unfolded down_ok_def]
    show ?thesis
    proof (cases "k = p")
      case False
      with kids [OF kN] have "lchild_id (T' ! k) = lchild_id (T ! k)" "rchild_id (T' ! k) = rchild_id (T ! k)" by auto
      then show ?thesis unfolding down_ok_def
        using o child [OF kN] keep [of k "lchild_id (T ! k)"] keep [of k "rchild_id (T ! k)"] kN by simp
    next
      case [simp]: True
      show ?thesis
      proof (cases left)
        case True
        then have "lchild_id (T' ! p) = int N" "rchild_id (T' ! p) = - 1" using kids [OF p(1)] free by simp_all
        then show ?thesis using childN J(1) True p by (simp add: down_ok_def) (simp add: child_ok_def)
      next
        case False
        then have c: "lchild_id (T' ! p) = lchild_id (T ! p)" "rchild_id (T' ! p) = int N" using kids [OF p(1)] by simp_all
        have l: "child_ok T N p (lchild_id (T ! p))" using o by simp
        then have "lchild_id (T ! p) \<noteq> int N" by (auto simp: child_ok_def)
        then show ?thesis unfolding down_ok_def
          using False c childN child [OF p(1) l] keep [OF l] J o p by simp
      qed
    qed
  qed
  show ?thesis
    unfolding tree_inv_def len
  proof (intro conjI allI impI)
    show "T' ! k = blank_node" if "k < length T" "Suc N \<le> k" for k
      using inv that p nth [of k] by (auto simp: tree_inv_def)
  qed (use p cnt up down in auto)
qed


subsection \<open>The contract of \<open>split\<close>\<close>

text \<open>Outside of the segment nothing changes, and no feature loses or gains a value.\<close>

definition frame :: "nat \<Rightarrow> nat list \<Rightarrow> nat \<Rightarrow> nat \<Rightarrow> feature list \<Rightarrow> feature list \<Rightarrow> bool" where
  "frame n g lb ub fs fs' \<longleftrightarrow> length fs' = length fs \<and> (\<forall>f\<in>set fs'. feat_ok n g f) \<and>
     (\<forall>j<length fs. (\<forall>i<n. i < lb \<or> ub \<le> i \<longrightarrow> f_Y (fs' ! j) ! i = f_Y (fs ! j) ! i) \<and> set (f_Y (fs' ! j)) = set (f_Y (fs ! j)))"

text \<open>In some feature the values of the instances in \<open>L\<close> are not above those of the instances in \<open>R\<close>.\<close>

definition separated :: "feature list \<Rightarrow> nat set \<Rightarrow> nat set \<Rightarrow> bool" where
  "separated fs L R \<longleftrightarrow> (\<exists>j<length fs. \<forall>u\<in>set (f_Y (fs ! j)). \<forall>v\<in>set (f_Y (fs ! j)).
     get_from u \<in> L \<and> get_from v \<in> R \<longrightarrow> get_yval u \<le> get_yval v)"

lemma frame_refl: "\<forall>f\<in>set fs. feat_ok n g f \<Longrightarrow> frame n g lb ub fs fs"
  by (simp add: frame_def)

lemma frame_trans:
  assumes "frame n g a b fs1 fs2" "frame n g c d fs2 fs3" "lb \<le> a" "b \<le> ub" "lb \<le> c" "d \<le> ub"
  shows "frame n g lb ub fs1 fs3"
  unfolding frame_def
proof (intro conjI allI impI)
  show "length fs3 = length fs1" "\<forall>f\<in>set fs3. feat_ok n g f" using assms(1,2) by (simp_all add: frame_def)
  fix j assume j: "j < length fs1"
  then show "set (f_Y (fs3 ! j)) = set (f_Y (fs1 ! j))" using assms(1,2) by (simp add: frame_def)
  fix i assume "i < n" "i < lb \<or> ub \<le> i"
  moreover from this have "i < a \<or> b \<le> i" "i < c \<or> d \<le> i" using assms(3-6) by linarith+
  ultimately have "f_Y (fs2 ! j) ! i = f_Y (fs1 ! j) ! i" "f_Y (fs3 ! j) ! i = f_Y (fs2 ! j) ! i"
    using assms(1,2) j by (auto simp: frame_def)
  then show "f_Y (fs3 ! j) ! i = f_Y (fs1 ! j) ! i" by simp
qed

lemma frame_separated: "frame n g lb ub fs fs' \<Longrightarrow> separated fs' = separated fs"
  by (intro ext) (auto simp: frame_def separated_def)

lemma frame_seg:
  assumes "frame n g a b fs fs'" "\<forall>f\<in>set fs. seg_ok A lb ub f" "b \<le> lb \<or> ub \<le> a" "ub \<le> n"
  shows "\<forall>f\<in>set fs'. seg_ok A lb ub f"
proof
  fix f' assume "f' \<in> set fs'"
  then obtain j where j: "j < length fs'" "f' = fs' ! j" by (auto simp: in_set_conv_nth)
  then have j': "j < length fs" using assms(1) by (simp add: frame_def)
  have "elems (f_Y f') lb ub = elems (f_Y (fs ! j)) lb ub"
    using assms j j' by (intro elems_cong) (auto simp: frame_def)
  then have "seg_ok A lb ub f' \<longleftrightarrow> seg_ok A lb ub (fs ! j)" by (simp add: seg_ok_def froms_elems)
  then show "seg_ok A lb ub f'" using assms(2) j' by simp
qed

definition tree_of :: "config_t \<Rightarrow> nat list \<Rightarrow> (nat set \<Rightarrow> nat set \<Rightarrow> bool) \<Rightarrow> (nat \<Rightarrow> nat set) \<Rightarrow> dt_state \<Rightarrow> bool" where
  "tree_of C g J I s \<longleftrightarrow> tree_inv C g J (g_tree s) (g_n_tree s) I \<and> g_sz_tree s = int (length (g_tree s))"

text \<open>The call for the last node of the tree, which has no children yet and stands for the segment.\<close>

definition split_pre :: "config_t \<Rightarrow> nat list \<Rightarrow> nat \<Rightarrow> nat \<Rightarrow> nat \<Rightarrow> nat \<Rightarrow> nat \<Rightarrow> nat \<Rightarrow> nat \<Rightarrow> nat set \<Rightarrow> (nat \<Rightarrow> nat set) \<Rightarrow> dt_state \<Rightarrow> bool" where
  "split_pre C g n m lb ub nT nH depth A I s \<longleftrightarrow>
     0 < metrics_buffer_size C \<and> \<not> is_debug C \<and> max_depth C < 2 ^ 31 \<and> n < 2 ^ 31 \<and> lb \<le> ub \<and> ub \<le> n \<and>
     0 < m \<and> m = length (g_feats s) \<and> m \<le> length (g_best s) \<and>
     (\<forall>f\<in>set (g_feats s). feat_ok n g f \<and> seg_ok A lb ub f) \<and>
     nT = card {x \<in> A. g ! x = 0} \<and> nH = card {x \<in> A. g ! x = 1} \<and>
     tree_of C g (separated (g_feats s)) I s \<and>
     (let nd = g_tree s ! (g_n_tree s - 1) in lchild_id nd = - 1 \<and> rchild_id nd = - 1 \<and> nd_depth nd = int depth) \<and>
     I (g_n_tree s - 1) = A"

definition split_post :: "config_t \<Rightarrow> nat list \<Rightarrow> nat \<Rightarrow> nat \<Rightarrow> nat \<Rightarrow> (nat \<Rightarrow> nat set) \<Rightarrow> dt_state \<Rightarrow> (nat \<Rightarrow> nat set) \<Rightarrow> dt_state \<Rightarrow> bool" where
  "split_post C g n lb ub I s I' s' \<longleftrightarrow> frame n g lb ub (g_feats s) (g_feats s') \<and> length (g_best s') = length (g_best s) \<and>
     length (g_tree s') = length (g_tree s) \<and> tree_of C g (separated (g_feats s)) I' s' \<and> g_n_tree s \<le> g_n_tree s' \<and>
     (\<forall>k<g_n_tree s. I' k = I k) \<and> (\<forall>k. Suc k < g_n_tree s \<longrightarrow> g_tree s' ! k = g_tree s ! k)"

definition split_spec :: "config_t \<Rightarrow> nat sorter \<Rightarrow> nat list \<Rightarrow> nat \<Rightarrow> nat \<Rightarrow> nat \<Rightarrow> bool" where
  "split_spec C qs g n m fuel \<longleftrightarrow> (\<forall>lb ub nT nH depth A I s. split_pre C g n m lb ub nT nH depth A I s \<and> max_depth C - depth < fuel \<longrightarrow>
     (\<exists>s' I'. split_node fuel C qs g lb ub nT nH n m depth s = (Inr (), s') \<and> split_post C g n lb ub I s I' s'))"

text \<open>Creating a child and splitting it.\<close>

lemma child_run:
  assumes IH: "split_spec C qs g n m fuel"
    and C: "0 < metrics_buffer_size C" "\<not> is_debug C" "max_depth C < 2 ^ 31" "n < 2 ^ 31" "lb \<le> ub" "ub \<le> n"
      "0 < m" "m = length (g_feats s)" "m \<le> length (g_best s)" "max_depth C \<le> fuel + depth" "depth < max_depth C"
    and fs: "\<forall>f\<in>set (g_feats s). feat_ok n g f \<and> seg_ok B lb ub f"
    and cnt: "nT = card {x \<in> B. g ! x = 0}" "nH = card {x \<in> B. g ! x = 1}" "min_partition_size C \<le> nT + nH" "nT + nH < 4294967296"
    and tree: "tree_of C g (separated (g_feats s)) I s" "\<not> g_sz_tree s \<le> int (g_n_tree s)" "p < g_n_tree s" "nd_depth (g_tree s ! p) = int depth"
    and free: "if left then lchild_id (g_tree s ! p) = - 1 \<and> rchild_id (g_tree s ! p) = - 1 else rchild_id (g_tree s ! p) = - 1"
    and B: "B \<subseteq> I p" "if left then separated (g_feats s) B (I p - B) else separated (g_feats s) (I p - B) B"
      "\<not> left \<and> lchild_id (g_tree s ! p) \<noteq> - 1 \<longrightarrow> B = I p - I (nat (lchild_id (g_tree s ! p)))"
    and link: "link = (if left then link_left else link_right)"
  obtains s' I' where
    "seq (add_child link (int p) nT nH (u32 (depth + 1))) (\<lambda>_. split_node fuel C qs g lb ub nT nH n m (u32 (depth + 1))) s = (Inr (), s')"
    "frame n g lb ub (g_feats s) (g_feats s')" "length (g_best s') = length (g_best s)" "length (g_tree s') = length (g_tree s)"
    "tree_of C g (separated (g_feats s)) I' s'" "g_n_tree s < g_n_tree s'" "\<forall>k<g_n_tree s. I' k = I k" "I' (g_n_tree s) = B"
    "\<forall>k<g_n_tree s. g_tree s' ! k = (if k = p then link (int (g_n_tree s)) (g_tree s ! p) else g_tree s ! k)"
proof -
  let ?T = "g_tree s" and ?N = "g_n_tree s" and ?J = "separated (g_feats s)"
  have inv: "tree_inv C g ?J ?T ?N I" and sz: "g_sz_tree s = int (length ?T)" using tree(1) by (simp_all add: tree_of_def)
  have N: "?N < length ?T" using tree(2) sz by simp
  have d: "u32 (depth + 1) = depth + 1" "i32 (depth + 1) = int depth + 1" using C(3,11) by (simp_all add: i32_small)
  let ?nd = "link (int ?N) (?T ! p)"
  let ?T' = "?T[p := ?nd, ?N := (?T ! ?N)\<lparr>parent_id := int p, nd_nT := nT, nd_nH := nH, nd_depth := nd_depth (?T ! p) + 1\<rparr>]"
  let ?s1 = "s\<lparr>g_tree := ?T', g_n_tree := ?N + 1\<rparr>"
  have A: "add_child link (int p) nT nH (u32 (depth + 1)) s = (Inr (), ?s1)"
    unfolding d(1) using N tree(3,4) d(2) by (simp add: add_child_def put_st_def Let_def)
  have inv1: "tree_inv C g ?J ?T' (Suc ?N) (I(?N := B))"
    by (rule add_child_tree [OF inv tree(3) N _ free B(1) cnt _ B(2,3) refl]) (use link tree(4) C(11) in auto)
  have blank: "?T ! ?N = blank_node" using inv N by (simp add: tree_inv_def)
  have nodeN: "?T' ! ?N = (?T ! ?N)\<lparr>parent_id := int p, nd_nT := nT, nd_nH := nH, nd_depth := nd_depth (?T ! p) + 1\<rparr>" using N by simp
  have nd: "lchild_id (?T' ! ?N) = - 1" "rchild_id (?T' ! ?N) = - 1" "nd_depth (?T' ! ?N) = int (depth + 1)"
    unfolding nodeN using blank tree(4) by (simp_all add: blank_node_def)
  have pre: "split_pre C g n m lb ub nT nH (depth + 1) B (I(?N := B)) ?s1"
    unfolding split_pre_def using C fs cnt(1,2) inv1 sz nd by (simp add: tree_of_def Let_def)
  moreover have "max_depth C - (depth + 1) < fuel" using C(10,11) by linarith
  ultimately obtain s' I' where R: "split_node fuel C qs g lb ub nT nH n m (depth + 1) ?s1 = (Inr (), s')"
    "split_post C g n lb ub (I(?N := B)) ?s1 I' s'"
    using IH unfolding split_spec_def by blast
  have E: "seq (add_child link (int p) nT nH (u32 (depth + 1))) (\<lambda>_. split_node fuel C qs g lb ub nT nH n m (u32 (depth + 1))) s = (Inr (), s')"
    using R(1) by (simp only: seq_Inr [where m = "add_child _ _ _ _ _", OF A [unfolded d(1)]] d(1))
  note P = R(2) [unfolded split_post_def]
  have nodes: "g_tree s' ! k = (if k = p then ?nd else ?T ! k)" if "k < ?N" for k
  proof -
    have "g_tree s' ! k = ?T' ! k" using P that by simp
    then show ?thesis using that N tree(3) by (simp add: nth_list_update)
  qed
  show ?thesis
    by (rule that [where s' = s' and I' = I', OF E]) (use P nodes in auto)
qed


text \<open>The order of the split feature separates the two sides.\<close>

lemma split_separated:
  assumes f: "f = fs ! j" "j < length fs" "feat_ok n g f" "seg_ok A lb ub f" and b: "lb \<le> sy" "sy \<le> ub" "ub \<le> n"
  shows "separated fs (go_left f sy A) (A - go_left f sy A)"
  unfolding separated_def
proof (intro exI [of _ j] conjI ballI impI f(2), elim conjE)
  fix u v assume uv: "u \<in> set (f_Y (fs ! j))" "v \<in> set (f_Y (fs ! j))" "get_from u \<in> go_left f sy A" "get_from v \<in> A - go_left f sy A"
  note L = left_froms [OF f(3) _ b, of A]
  have A: "set (froms lb ub f) = A" using f(4) by (simp add: seg_ok_def)
  have pos: "\<exists>i. a \<le> i \<and> i < c \<and> w = f_Y f ! i" if "w \<in> set (f_Y f)" "get_from w \<in> set (froms a c f)" "c \<le> n" for w a c
  proof -
    note w = that
    obtain k where "k < length (f_Y f)" "f_Y f ! k = w" using w(1) unfolding in_set_conv_nth by blast
    then have k: "k < n" "w = f_Y f ! k" using feat_okD(1) [OF f(3)] by simp_all
    obtain i where i: "a \<le> i" "i < c" "get_from w = get_from (f_Y f ! i)" using w(2) by (auto simp: froms_def)
    have "k = i" using inj_onD [OF from_inj [OF f(3)], of k i] k i w(3) by simp
    then show ?thesis using i k by blast
  qed
  obtain i where i: "lb \<le> i" "i < sy" "u = f_Y f ! i" using pos [of u lb sy] uv(1,3) L(1) [OF A] f(1) b by auto
  obtain k where k: "sy \<le> k" "k < ub" "v = f_Y f ! k" using pos [of v sy ub] uv(2,4) L(2) [OF A] f(1) b by auto
  have "sorted (map get_yval (elems (f_Y f) lb ub))" using f(4) by (simp add: seg_ok_def)
  from sorted_nth_mono [OF this, of "i - lb" "k - lb"] show "get_yval u \<le> get_yval v" using i k by simp
qed

text \<open>One call, given the contract of the recursive ones.\<close>

lemma split_step:
  assumes IH: "split_spec C qs g n m fuel"
    and pre: "split_pre C g n m lb ub nT nH depth A I s" "max_depth C \<le> fuel + depth"
  shows "\<exists>s' I'. split_node (Suc fuel) C qs g lb ub nT nH n m depth s = (Inr (), s') \<and> split_post C g n lb ub I s I' s'"
proof -
  note P = pre(1) [unfolded split_pre_def Let_def]
  have feats: "\<forall>f\<in>set (g_feats s). feat_ok n g f \<and> seg_ok A lb ub f" and C: "0 < metrics_buffer_size C" "\<not> is_debug C" "max_depth C < 2 ^ 31"
    "n < 2 ^ 31" "lb \<le> ub" "ub \<le> n" "0 < m" "m = length (g_feats s)" "m \<le> length (g_best s)" using P by blast+
  have cA: "nT = card {x \<in> A. g ! x = 0}" "nH = card {x \<in> A. g ! x = 1}" using P by blast+
  have tree: "tree_of C g (separated (g_feats s)) I s" and IA: "I (g_n_tree s - 1) = A" and nd: "lchild_id (g_tree s ! (g_n_tree s - 1)) = - 1"
    "rchild_id (g_tree s ! (g_n_tree s - 1)) = - 1" "nd_depth (g_tree s ! (g_n_tree s - 1)) = int depth" using P by blast+
  have N0: "0 < g_n_tree s" using tree by (simp add: tree_of_def tree_inv_def)
  have same: thesis_same if "split_node (Suc fuel) C qs g lb ub nT nH n m depth s = (Inr (), s\<lparr>g_best := bs, g_num_gini_calc := gc\<rparr>)"
    "length bs = length (g_best s)"
    "thesis_same \<longleftrightarrow> (\<exists>s' I'. split_node (Suc fuel) C qs g lb ub nT nH n m depth s = (Inr (), s') \<and> split_post C g n lb ub I s I' s')"
    for thesis_same bs gc
    unfolding that(3) by (rule exI, rule exI [of _ I], rule conjI [OF that(1)])
      (use feats tree that(2) in \<open>simp add: split_post_def tree_of_def frame_refl\<close>)
  have early: ?thesis if "split_node (Suc fuel) C qs g lb ub nT nH n m depth s = (Inr (), s)"
    by (rule same [where bs = "g_best s" and gc = "g_num_gini_calc s"]) (use that in simp_all)
  show ?thesis
  proof (cases "g_sz_tree s \<le> int (g_n_tree s) \<or> u32_sub ub lb < u32 (2 * min_leaf_size C) \<or> max_depth C \<le> depth \<or> nH = 0 \<or> nT = 0")
    case True
    then have "split_node (Suc fuel) C qs g lb ub nT nH n m depth s = ret () s"
      unfolding split_node.simps seq_get_st by (elim disjE) simp_all
    then show ?thesis by (intro early) (simp add: ret_def)
  next
    case False
    then have go: "(g_sz_tree s \<le> int (g_n_tree s)) = False" "(u32_sub ub lb < u32 (2 * min_leaf_size C)) = False" "(max_depth C \<le> depth) = False"
      "(nH = 0 \<or> nT = 0) = False" by blast+
    obtain f0 where f0: "f0 \<in> set (g_feats s)" using C(7,8) by (cases "g_feats s") auto
    have cnts: "\<forall>f\<in>set (g_feats s). cnt (f_Y f) 0 lb ub = nT \<and> cnt (f_Y f) 1 lb ub = nH"
      using feats cA cnt_card [of n g _ lb ub A] C(6) by (auto simp: seg_ok_def)
    have two: "Suc lb < ub" using cnt_total [of "f_Y f0" lb ub] cnts f0 go(4) by auto
    have cardA: "card A = ub - lb" "finite A" using feats f0 card_inst [of n g f0 lb ub A] C(6) by (auto simp: seg_ok_def)
    obtain r bs gc where S: "search C lb ub nT nH m n s = (Inr r, s\<lparr>g_best := bs, g_num_gini_calc := gc\<rparr>)"
      "length bs = length (g_best s)" "s_splittable r \<longrightarrow> srch_ok (g_feats s) lb ub m r"
      using C two feats cnts go(4) by (rule_tac search_run [of lb ub n C m s nT nH]) (auto simp: feat_ok_def)
    let ?s1 = "s\<lparr>g_best := bs, g_num_gini_calc := gc\<rparr>"
    show ?thesis
    proof (cases "s_splittable r")
      case False
      then have "split_node (Suc fuel) C qs g lb ub nT nH n m depth s = (Inr (), ?s1)"
        unfolding split_node.simps seq_get_st go if_False using C(2)
        by (simp add: seq_Inr [where m = "search C lb ub nT nH m n", OF S(1)] ret_def)
      then show ?thesis using S(2) by (rule same) simp
    next
      case split: True
      then have ok: "srch_ok (g_feats s) lb ub m r" using S(3) by blast
      define sf where "sf = g_feats s ! s_feature r"
      define sy where "sy = s_yidx r"
      define B where "B = go_left sf sy A"
      let ?N = "g_n_tree s" and ?J = "separated (g_feats s)" and ?n4 = "s_num4 r"
      have j: "s_feature r < m" and sy: "lb < sy" "sy < ub" "lb \<le> sy" "sy \<le> ub"
        and n4: "?n4 = \<lparr>n_T_L = cnt (f_Y sf) 0 lb sy, n_H_L = cnt (f_Y sf) 1 lb sy, n_T_R = cnt (f_Y sf) 0 sy ub, n_H_R = cnt (f_Y sf) 1 sy ub\<rparr>"
        using ok by (simp_all add: srch_ok_def Let_def sf_def sy_def)
      have sf: "feat_ok n g sf" "seg_ok A lb ub sf" "sf \<in> set (g_feats s)" using feats j C(8) by (auto simp: sf_def)
      have n_lt: "n < 4294967295" using C(4) by simp
      obtain fs' where F: "for_each [0..<m] (reorder_feature lb ub (s_feature r) sy) ?s1 = (Inr (), ?s1\<lparr>g_feats := fs'\<rparr>)" "length fs' = m"
        "\<forall>f\<in>set fs'. feat_ok n g f \<and> seg_ok B lb sy f \<and> seg_ok (A - B) sy ub f"
        "\<forall>j<m. \<forall>i<n. i < lb \<or> ub \<le> i \<longrightarrow> f_Y (fs' ! j) ! i = f_Y (g_feats s ! j) ! i"
        "\<forall>j<m. set (f_Y (fs' ! j)) = set (f_Y (g_feats s ! j))"
        using feats j C(8) by (rule_tac reorder_features_run [of ?s1 n g A lb ub sy "s_feature r" m, OF _ two C(6) n_lt sy(3,4)])
          (auto simp: B_def sf_def)
      let ?s2 = "?s1\<lparr>g_feats := fs'\<rparr>"
      have fr0: "frame n g lb ub (g_feats s) fs'" using F C(8) by (simp add: frame_def)
      have J: "separated fs' = ?J" by (rule frame_separated [OF fr0])
      have sepB: "?J B (A - B)" unfolding B_def by (rule split_separated [OF sf_def _ sf(1,2) sy(3,4) C(6)]) (use j C(8) in simp)
      have BA: "B \<subseteq> A" "A - (A - B) = B" by (auto simp: B_def go_left_def)
      have L: "set (froms lb sy sf) = B" "set (froms sy ub sf) = A - B"
        using left_froms [OF sf(1) _ sy(3,4) C(6), of A] sf(2) by (simp_all add: B_def seg_ok_def)
      have cB: "n_T_L ?n4 = card {x \<in> B. g ! x = 0}" "n_H_L ?n4 = card {x \<in> B. g ! x = 1}" "n_T_L ?n4 + n_H_L ?n4 = sy - lb"
        using cnt_card [OF sf(1) L(1)] cnt_total [of "f_Y sf" lb sy] sy C(6) by (simp_all add: n4)
      have cR: "n_T_R ?n4 = card {x \<in> A - B. g ! x = 0}" "n_H_R ?n4 = card {x \<in> A - B. g ! x = 1}" "n_T_R ?n4 + n_H_R ?n4 = ub - sy"
        using cnt_card [OF sf(1) L(2)] cnt_total [of "f_Y sf" sy ub] C(6) by (simp_all add: n4)
      have par: "int ?N - 1 = int (?N - 1)" using N0 by simp
      have us: "u32_sub sy lb = sy - lb" "u32_sub ub sy = ub - sy" using sy by (simp_all add: u32_sub_def)
      define LEFT where "LEFT = (if min_partition_size C \<le> sy - lb then
               seq (add_child link_left (int (?N - 1)) (n_T_L ?n4) (n_H_L ?n4) (u32 (depth + 1))) (\<lambda>_.
               split_node fuel C qs g lb sy (n_T_L ?n4) (n_H_L ?n4) n m (u32 (depth + 1)))
             else ret ())"
      define RIGHT where "RIGHT = (\<lambda>s :: dt_state. if g_sz_tree s \<le> int (g_n_tree s) then ret ()
        else if min_partition_size C \<le> ub - sy then
          seq (add_child link_right (int (?N - 1)) (n_T_R ?n4) (n_H_R ?n4) (u32 (depth + 1))) (\<lambda>_.
          split_node fuel C qs g sy ub (n_T_R ?n4) (n_H_R ?n4) n m (u32 (depth + 1)))
        else ret ())"
      have E: "split_node (Suc fuel) C qs g lb ub nT nH n m depth s = seq LEFT (\<lambda>_. seq get_st RIGHT) ?s2"
      proof -
        have b: "is_debug C = False" "s_splittable r = True" using C(2) split by simp_all
        show ?thesis
          by (simp only: split_node.simps seq_get_st go if_False b if_True simp_thms seq_ret Let_def
            seq_Inr [where m = "search C lb ub nT nH m n", OF S(1)] sy_def [symmetric]
            seq_Inr [where m = "for_each [0..<m] _", OF F(1)] LEFT_def RIGHT_def par us)
      qed
      have tree2: "tree_of C g (separated (g_feats ?s2)) I ?s2" using tree J by (simp add: tree_of_def)
      have p: "?N - 1 < ?N" using N0 by simp
      have dep: "depth < max_depth C" using go(3) by simp
      have "\<exists>s3 I3. LEFT ?s2 = (Inr (), s3) \<and> frame n g lb sy fs' (g_feats s3) \<and> length (g_best s3) = length (g_best s) \<and>
          length (g_tree s3) = length (g_tree s) \<and> tree_of C g ?J I3 s3 \<and> ?N \<le> g_n_tree s3 \<and> (\<forall>k<?N. I3 k = I k) \<and>
          (\<forall>k<?N. k \<noteq> ?N - 1 \<longrightarrow> g_tree s3 ! k = g_tree s ! k) \<and> rchild_id (g_tree s3 ! (?N - 1)) = - 1 \<and>
          nd_depth (g_tree s3 ! (?N - 1)) = int depth \<and>
          (lchild_id (g_tree s3 ! (?N - 1)) = - 1 \<or> lchild_id (g_tree s3 ! (?N - 1)) = int ?N \<and> I3 ?N = B)"
      proof (cases "min_partition_size C \<le> sy - lb")
        case False
        then have "LEFT ?s2 = (Inr (), ?s2)" by (simp add: LEFT_def ret_def)
        then show ?thesis
          by (rule_tac exI [of _ ?s2], rule_tac exI [of _ I]) (use F(3) S(2) tree nd frame_refl [of fs' n g lb sy] in \<open>simp add: tree_of_def\<close>)
      next
        case True
        have l0: "sy \<le> n" using sy(4) C(6) by simp
        have m2: "m = length (g_feats ?s2)" and l1: "m \<le> length (g_best ?s2)" using F(2) C(9) S(2) by simp_all
        have seg2: "\<forall>f\<in>set (g_feats ?s2). feat_ok n g f \<and> seg_ok B lb sy f" using F(3) by simp
        have l2: "min_partition_size C \<le> n_T_L ?n4 + n_H_L ?n4" "n_T_L ?n4 + n_H_L ?n4 < 4294967296"
          using True cB(3) l0 C(4) by simp_all
        have l3: "\<not> g_sz_tree ?s2 \<le> int (g_n_tree ?s2)" "?N - 1 < g_n_tree ?s2" using go(1) p by simp_all
        have l4: "nd_depth (g_tree ?s2 ! (?N - 1)) = int depth" using nd(3) by simp
        have l5: "if True then lchild_id (g_tree ?s2 ! (?N - 1)) = - 1 \<and> rchild_id (g_tree ?s2 ! (?N - 1)) = - 1 else rchild_id (g_tree ?s2 ! (?N - 1)) = - 1"
          using nd(1,2) by simp
        have l6: "B \<subseteq> I (?N - 1)" unfolding IA by (rule BA(1))
        have l7: "if True then separated (g_feats ?s2) B (I (?N - 1) - B) else separated (g_feats ?s2) (I (?N - 1) - B) B"
          using sepB unfolding IA by (simp add: J)
        have l8: "\<not> True \<and> lchild_id (g_tree ?s2 ! (?N - 1)) \<noteq> - 1 \<longrightarrow> B = I (?N - 1) - I (nat (lchild_id (g_tree ?s2 ! (?N - 1))))" by simp
        have l9: "link_left = (if True then link_left else link_right)" by simp
        obtain s3 I3 where c: "seq (add_child link_left (int (?N - 1)) (n_T_L ?n4) (n_H_L ?n4) (u32 (depth + 1))) (\<lambda>_.
               split_node fuel C qs g lb sy (n_T_L ?n4) (n_H_L ?n4) n m (u32 (depth + 1))) ?s2 = (Inr (), s3)"
          "frame n g lb sy (g_feats ?s2) (g_feats s3)" "length (g_best s3) = length (g_best ?s2)" "length (g_tree s3) = length (g_tree ?s2)"
          "tree_of C g (separated (g_feats ?s2)) I3 s3" "g_n_tree ?s2 < g_n_tree s3" "\<forall>k<g_n_tree ?s2. I3 k = I k" "I3 (g_n_tree ?s2) = B"
          "\<forall>k<g_n_tree ?s2. g_tree s3 ! k = (if k = ?N - 1 then link_left (int (g_n_tree ?s2)) (g_tree ?s2 ! (?N - 1)) else g_tree ?s2 ! k)"
          by (rule child_run [where left = True and p = "?N - 1" and s = ?s2 and lb = lb and ub = sy and B = B and link = link_left and I = I
                and nT = "n_T_L ?n4" and nH = "n_H_L ?n4" and m = m and depth = depth,
                OF IH C(1-4) sy(3) l0 C(7) m2 l1 pre(2) dep seg2 cB(1,2) l2 tree2 l3 l4 l5 l6 l7 l8 l9]) blast
        then show ?thesis
          by (rule_tac exI [of _ s3], rule_tac exI [of _ I3]) (use True J S(2) nd N0 in \<open>simp add: LEFT_def link_left_def\<close>)
      qed
      then obtain s3 I3 where L3: "LEFT ?s2 = (Inr (), s3)" "frame n g lb sy fs' (g_feats s3)" "length (g_best s3) = length (g_best s)"
          "length (g_tree s3) = length (g_tree s)" "tree_of C g ?J I3 s3" "?N \<le> g_n_tree s3" "\<forall>k<?N. I3 k = I k"
          "\<forall>k<?N. k \<noteq> ?N - 1 \<longrightarrow> g_tree s3 ! k = g_tree s ! k" "rchild_id (g_tree s3 ! (?N - 1)) = - 1"
          "nd_depth (g_tree s3 ! (?N - 1)) = int depth"
          "lchild_id (g_tree s3 ! (?N - 1)) = - 1 \<or> lchild_id (g_tree s3 ! (?N - 1)) = int ?N \<and> I3 ?N = B" by blast
      have fr3: "frame n g lb ub (g_feats s) (g_feats s3)" by (rule frame_trans [OF fr0 L3(2)]) (use sy in simp_all)
      have J3: "separated (g_feats s3) = ?J" by (rule frame_separated [OF fr3])
      have "\<exists>s4 I4. RIGHT s3 s3 = (Inr (), s4) \<and> split_post C g n lb ub I s I4 s4"
      proof (cases "g_sz_tree s3 \<le> int (g_n_tree s3) \<or> \<not> min_partition_size C \<le> ub - sy")
        case True
        then have "RIGHT s3 s3 = (Inr (), s3)" by (auto simp: RIGHT_def ret_def)
        then show ?thesis
          by (rule_tac exI [of _ s3], rule_tac exI [of _ I3]) (use L3 fr3 in \<open>simp add: split_post_def\<close>)
      next
        case False
        have seg3: "\<forall>f\<in>set (g_feats s3). feat_ok n g f \<and> seg_ok (A - B) sy ub f"
          using L3(2) F(3) frame_seg [OF L3(2), of "A - B" sy ub] C(6) by (auto simp: frame_def)
        have m3: "m = length (g_feats s3)" using L3(2) F(2) by (simp add: frame_def)
        have IA3: "I3 (?N - 1) = A" using L3(7) p IA by simp
        have lt: "n_T_R ?n4 + n_H_R ?n4 < 4294967296" using cR(3) C(4,6) by simp
        have tree3: "tree_of C g (separated (g_feats s3)) I3 s3" using L3(5) J3 by simp
        have r1: "m \<le> length (g_best s3)" using C(9) L3(3) by simp
        have r2: "min_partition_size C \<le> n_T_R ?n4 + n_H_R ?n4" and r3: "\<not> g_sz_tree s3 \<le> int (g_n_tree s3)" using False cR(3) by simp_all
        have r4: "?N - 1 < g_n_tree s3" using p L3(6) by simp
        have r5: "if False then lchild_id (g_tree s3 ! (?N - 1)) = - 1 \<and> rchild_id (g_tree s3 ! (?N - 1)) = - 1 else rchild_id (g_tree s3 ! (?N - 1)) = - 1"
          using L3(9) by simp
        have r6: "A - B \<subseteq> I3 (?N - 1)" unfolding IA3 by blast
        have r7: "if False then separated (g_feats s3) (A - B) (I3 (?N - 1) - (A - B)) else separated (g_feats s3) (I3 (?N - 1) - (A - B)) (A - B)"
          unfolding IA3 BA(2) J3 using sepB by simp
        have r8: "\<not> False \<and> lchild_id (g_tree s3 ! (?N - 1)) \<noteq> - 1 \<longrightarrow> A - B = I3 (?N - 1) - I3 (nat (lchild_id (g_tree s3 ! (?N - 1))))"
          unfolding IA3 using L3(11) by auto
        have r9: "link_right = (if False then link_left else link_right)" by simp
        obtain s4 I4 where c: "seq (add_child link_right (int (?N - 1)) (n_T_R ?n4) (n_H_R ?n4) (u32 (depth + 1))) (\<lambda>_.
               split_node fuel C qs g sy ub (n_T_R ?n4) (n_H_R ?n4) n m (u32 (depth + 1))) s3 = (Inr (), s4)"
          "frame n g sy ub (g_feats s3) (g_feats s4)" "length (g_best s4) = length (g_best s3)" "length (g_tree s4) = length (g_tree s3)"
          "tree_of C g (separated (g_feats s3)) I4 s4" "g_n_tree s3 < g_n_tree s4" "\<forall>k<g_n_tree s3. I4 k = I3 k" "I4 (g_n_tree s3) = A - B"
          "\<forall>k<g_n_tree s3. g_tree s4 ! k = (if k = ?N - 1 then link_right (int (g_n_tree s3)) (g_tree s3 ! (?N - 1)) else g_tree s3 ! k)"
          by (rule child_run [where left = False and p = "?N - 1" and s = s3 and lb = sy and ub = ub and B = "A - B" and link = link_right and I = I3
                and nT = "n_T_R ?n4" and nH = "n_H_R ?n4" and m = m and depth = depth,
                OF IH C(1-4) sy(4) C(6,7) m3 r1 pre(2) dep seg3 cR(1,2) r2 lt tree3 r3 r4 L3(10) r5 r6 r7 r8 r9]) blast
        have "RIGHT s3 s3 = (Inr (), s4)" using False c(1) by (simp add: RIGHT_def)
        moreover have "split_post C g n lb ub I s I4 s4"
          unfolding split_post_def
        proof (intro conjI allI impI)
          show "frame n g lb ub (g_feats s) (g_feats s4)" by (rule frame_trans [OF fr3 c(2)]) (use sy in simp_all)
          show "g_tree s4 ! k = g_tree s ! k" if "Suc k < ?N" for k using c(9) L3(6,8) that by simp
          show "I4 k = I k" if "k < ?N" for k using c(7) L3(6,7) that by simp
        qed (use c L3 J3 in simp_all)
        ultimately show ?thesis by blast
      qed
      then show ?thesis unfolding E by (simp only: seq_Inr [where m = LEFT, OF L3(1)] seq_get_st)
    qed
  qed
qed


lemma split_run: "split_spec C qs g n m fuel"
proof (induction fuel)
  case 0
  then show ?case by (simp add: split_spec_def)
next
  case (Suc fuel)
  show ?case
    unfolding split_spec_def
  proof (intro allI impI, elim conjE)
    fix lb ub nT nH depth A I s
    assume "split_pre C g n m lb ub nT nH depth A I s" "max_depth C - depth < Suc fuel"
    then show "\<exists>s' I'. split_node (Suc fuel) C qs g lb ub nT nH n m depth s = (Inr (), s') \<and> split_post C g n lb ub I s I' s'"
      by (intro split_step [OF Suc]) simp_all
  qed
qed

end
