(* ===== verification/Dt_Prep.thy ===== *)
theory Dt_Prep
  imports Dt_Grow
begin

text \<open>
  The encoding of a feature (\<open>preproc_j\<close>): composite values can be taken apart again, the encoded values have the
  order of the floats, and \<open>to\<close> is the inverse of the positions.
\<close>

subsection \<open>Composite values\<close>

lemma bit_small: "bit (of_nat a :: 64 word) k \<Longrightarrow> a < 2 ^ m \<Longrightarrow> k < m"
proof (rule ccontr)
  assume a: "bit (of_nat a :: 64 word) k" "a < 2 ^ m" "\<not> k < m"
  then have "(2 :: nat) ^ m \<le> 2 ^ k" by (intro power_increasing) auto
  with a(2) have "a < 2 ^ k" by linarith
  then have "\<not> bit a k" by (simp add: bit_iff_odd)
  moreover have "bit (word_of_int (int a) :: 64 word) k" using a(1) by simp
  ultimately show False by (simp only: bit_word_of_int_iff bit_of_nat_iff_bit simp_thms)
qed

lemma unat_small: "a < 2 ^ 64 \<Longrightarrow> unat (of_nat a :: 64 word) = a"
  by (simp add: unat_of_nat)

lemma get_from_mk:
  assumes "from_i < 2 ^ 32" "goal < 2" "yval < 2 ^ 31"
  shows "get_from (x_mk_comp_val (of_nat from_i) (of_nat goal) (of_nat yval)) = from_i"
proof -
  have "drop_bit 32 (x_mk_comp_val (of_nat from_i) (of_nat goal) (of_nat yval)) = (of_nat from_i :: 64 word)"
  proof (rule bit_word_eqI)
    fix k assume k: "k < LENGTH(64)"
    have "\<not> bit (of_nat goal :: 64 word) (k + 32 - 31)" using bit_small [of goal "k + 32 - 31" 1] assms by auto
    moreover have "\<not> bit (of_nat yval :: 64 word) (k + 32)" using bit_small [of yval "k + 32" 31] assms by auto
    moreover have "bit (of_nat from_i :: 64 word) k \<Longrightarrow> k < 32" using bit_small [of from_i k 32] assms by auto
    ultimately show "bit (drop_bit 32 (x_mk_comp_val (of_nat from_i) (of_nat goal) (of_nat yval)) :: 64 word) k = bit (of_nat from_i :: 64 word) k"
      using k by (auto simp: x_mk_comp_val_def Let_def bit_drop_bit_eq bit_or_iff bit_push_bit_iff add.commute)
  qed
  then show ?thesis using assms(1) by (simp add: get_from_def unat_small)
qed


lemma get_goal_mk:
  assumes "from_i < 2 ^ 32" "goal < 2" "yval < 2 ^ 31"
  shows "get_goal (x_mk_comp_val (of_nat from_i) (of_nat goal) (of_nat yval)) = goal"
proof -
  have "drop_bit 31 (x_mk_comp_val (of_nat from_i) (of_nat goal) (of_nat yval)) AND 1 = (of_nat goal :: 64 word)"
  proof (rule bit_word_eqI)
    fix k assume k: "k < LENGTH(64)"
    have "\<not> bit (of_nat yval :: 64 word) (k + 31)" using bit_small [of yval "k + 31" 31] assms by auto
    moreover have "bit (of_nat goal :: 64 word) k \<Longrightarrow> k = 0" using bit_small [of goal k 1] assms by auto
    ultimately show "bit (drop_bit 31 (x_mk_comp_val (of_nat from_i) (of_nat goal) (of_nat yval)) AND 1 :: 64 word) k = bit (of_nat goal :: 64 word) k"
      using k by (cases "k = 0") (auto simp: x_mk_comp_val_def Let_def bit_drop_bit_eq bit_or_iff bit_and_iff bit_push_bit_iff bit_1_iff add.commute)
  qed
  then show ?thesis using assms(2) by (simp add: get_goal_def unat_small)
qed

lemma get_yval_mk:
  assumes "from_i < 2 ^ 32" "goal < 2" "yval < 2 ^ 31"
  shows "get_yval (x_mk_comp_val (of_nat from_i) (of_nat goal) (of_nat yval)) = yval"
proof -
  have m: "(0x7FFFFFFF :: 64 word) = mask 31" by (simp add: mask_eq_exp_minus_1)
  have "x_mk_comp_val (of_nat from_i) (of_nat goal) (of_nat yval) AND 0x7FFFFFFF = (of_nat yval :: 64 word)"
    unfolding m
  proof (rule bit_word_eqI)
    fix k assume k: "k < LENGTH(64)"
    have "bit (of_nat yval :: 64 word) k \<Longrightarrow> k < 31" using bit_small [of yval k 31] assms by auto
    then show "bit (x_mk_comp_val (of_nat from_i) (of_nat goal) (of_nat yval) AND mask 31 :: 64 word) k = bit (of_nat yval :: 64 word) k"
      using k by (auto simp: x_mk_comp_val_def Let_def bit_or_iff bit_and_iff bit_push_bit_iff bit_mask_iff)
  qed
  then show ?thesis using assms(3) by (simp add: get_yval_def unat_small)
qed

subsection \<open>The codes\<close>

text \<open>The codes that \<open>encode\<close> gives to the values in sorted order.\<close>

fun codes :: "fp \<Rightarrow> nat \<Rightarrow> fp list \<Rightarrow> nat list" where
  "codes x y [] = []"
| "codes x y (v # vs) = (if \<not> fp_eq v x then Suc y # codes v (Suc y) vs else y # codes x y vs)"

lemma fp_less_asym: "fp_less a b \<Longrightarrow> \<not> fp_less b a"
  by (auto simp: fp_less_key)

lemma length_codes [simp]: "length (codes x y vs) = length vs"
  by (induction x y vs rule: codes.induct) auto

lemma codes_bounds: "c \<in> set (codes x y vs) \<Longrightarrow> y \<le> c \<and> c \<le> y + length vs"
  by (induction x y vs arbitrary: c rule: codes.induct) (force split: if_splits)+

lemma encode_codes:
  assumes "y + length cs < 4294967296"
  shows "encode x y cs = map2 (\<lambda>c k. x_mk_comp_val (of_nat (ck_idx c)) (of_nat (ck_g c)) (of_nat k)) cs
    (codes (f4_val x) y (map (f4_val \<circ> ck_xval) cs))"
  using assms by (induction x y cs rule: encode.induct) (auto simp: Let_def)

text \<open>They have the order of the values.\<close>

lemma codes_order:
  assumes "\<not> is_nan x" "\<forall>v\<in>set vs. \<not> is_nan v" "sorted_wrt (\<lambda>a b. \<not> fp_less b a) (x # vs)"
  shows "sorted (y # codes x y vs) \<and> (\<forall>i\<le>length vs. \<forall>k\<le>length vs.
    (y # codes x y vs) ! i < (y # codes x y vs) ! k \<longleftrightarrow> fp_less ((x # vs) ! i) ((x # vs) ! k))"
  using assms
proof (induction x y vs rule: codes.induct)
  case (1 x y)
  then show ?case by (auto simp: fp_less_key)
next
  case (2 x y v vs)
  show ?case
  proof (cases "fp_eq v x")
    case True
    then have e: "fp_less v w = fp_less x w" "fp_less w v = fp_less w x" for w
      using 2 by (auto simp: fp_eq.simps fp_less_key)
    have IH: "sorted (y # codes x y vs)" "\<forall>i\<le>length vs. \<forall>k\<le>length vs. (y # codes x y vs) ! i < (y # codes x y vs) ! k \<longleftrightarrow> fp_less ((x # vs) ! i) ((x # vs) ! k)"
      using "2.IH"(2) True "2.prems" by auto
    have C: "codes x y (v # vs) = y # codes x y vs" using True by simp
    show ?thesis
    proof (intro conjI allI impI)
      show "sorted (y # codes x y (v # vs))" unfolding C using IH(1) by simp
      fix i k assume ik: "i \<le> length (v # vs)" "k \<le> length (v # vs)"
      have A: "(y # codes x y (v # vs)) ! i = (y # codes x y vs) ! (i - 1)" for i unfolding C by (cases i) auto
      have B: "fp_less ((x # v # vs) ! i) w = fp_less ((x # vs) ! (i - 1)) w" "fp_less w ((x # v # vs) ! i) = fp_less w ((x # vs) ! (i - 1))" for i w
        using e by (cases i; cases "i - 1"; simp)+
      show "(y # codes x y (v # vs)) ! i < (y # codes x y (v # vs)) ! k \<longleftrightarrow> fp_less ((x # v # vs) ! i) ((x # v # vs) ! k)"
        unfolding A B using IH(2) ik by simp
    qed
  next
    case False
    have lt: "fp_less x v" using False 2 by (auto simp: fp_eq.simps)
    have nan: "\<not> is_nan w" if "w \<in> set (v # vs)" for w using "2.prems" that by auto
    have ltw: "fp_less x w" if "w \<in> set (v # vs)" for w
    proof -
      have "w = v \<or> \<not> fp_less w v" using "2.prems"(3) that by auto
      then show ?thesis using lt nan [OF that] by (auto simp: fp_less_key)
    qed
    have IH: "sorted (Suc y # codes v (Suc y) vs)"
      "\<forall>i\<le>length vs. \<forall>k\<le>length vs. (Suc y # codes v (Suc y) vs) ! i < (Suc y # codes v (Suc y) vs) ! k \<longleftrightarrow> fp_less ((v # vs) ! i) ((v # vs) ! k)"
      using "2.IH"(1) False "2.prems" by auto
    have C: "codes x y (v # vs) = Suc y # codes v (Suc y) vs" using False by simp
    have big: "y < (Suc y # codes v (Suc y) vs) ! i" if "i \<le> length vs" for i
      using that codes_bounds [of "codes v (Suc y) vs ! (i - 1)" v "Suc y" vs] by (cases i) auto
    show ?thesis
    proof (intro conjI allI impI)
      show "sorted (y # codes x y (v # vs))" unfolding C using IH(1) by auto
      fix i k assume ik: "i \<le> length (v # vs)" "k \<le> length (v # vs)"
      show "(y # codes x y (v # vs)) ! i < (y # codes x y (v # vs)) ! k \<longleftrightarrow> fp_less ((x # v # vs) ! i) ((x # v # vs) ! k)"
      proof (cases i)
        case 0
        show ?thesis
        proof (cases k)
          case (Suc k')
          then have k': "k' \<le> length vs" using ik by simp
          then have "(v # vs) ! k' \<in> set (v # vs)" by (intro nth_mem) simp
          then show ?thesis unfolding C using 0 Suc big [OF k'] ltw by simp
        qed (use 0 in \<open>simp add: fp_less_key\<close>)
      next
        case (Suc i')
        then have i': "i' \<le> length vs" using ik by simp
        show ?thesis
        proof (cases k)
          case 0
          have "(v # vs) ! i' \<in> set (v # vs)" using i' by (intro nth_mem) simp
          then have "\<not> fp_less ((v # vs) ! i') x" by (rule fp_less_asym [OF ltw])
          then show ?thesis unfolding C using 0 Suc big [OF i'] by simp
        next
          case (Suc k')
          then show ?thesis unfolding C using \<open>i = Suc i'\<close> i' ik IH(2) by simp
        qed
      qed
    qed
  qed
qed


subsection \<open>Preparing a feature\<close>

text \<open>What is asked of the data: enough instances for the 31 bits of a code, goals that are 0 or 1, and floats that
  are numbers.\<close>

definition data_ok :: "32 word list \<Rightarrow> nat \<Rightarrow> nat list \<Rightarrow> bool" where
  "data_ok Xj n g \<longleftrightarrow> 0 < n \<and> n < 2 ^ 31 \<and> n \<le> length Xj \<and> n \<le> length g \<and> (\<forall>i<n. g ! i < 2) \<and> (\<forall>i<n. \<not> is_nan (f4_val (Xj ! i)))"

definition key_of :: "32 word list \<Rightarrow> nat list \<Rightarrow> nat \<Rightarrow> comp_key_t" where
  "key_of Xj g i = \<lparr>ck_xval = Xj ! i, ck_idx = i, ck_g = g ! i\<rparr>"

lemma mk_to_run:
  assumes "length Y = n" "\<forall>i<n. get_from (Y ! i) < n" "inj_on (\<lambda>i. get_from (Y ! i)) {..<n}"
  obtains to where "mk_to n Y s = (Inr to, s)" "length to = n" "\<forall>i<n. to ! get_from (Y ! i) = i"
proof -
  let ?P = "\<lambda>i to s'. s' = s \<and> length to = n \<and> (\<forall>k<i. to ! get_from (Y ! k) = k)"
  let ?f = "\<lambda>i to. let pos = get_from (Y ! i) in seq (bye_if (n \<le> pos) (- 1)) (\<lambda>_. ret (to[pos := i]))"
  have "\<exists>to s'. for_fold [0..<n] (replicate n 0) ?f s = (Inr to, s') \<and> ?P n to s'"
  proof (rule for_fold_upt [where P = ?P])
    fix i to s' assume i: "i < n" and P: "?P i to s'"
    have "?f i to s' = (Inr (to[get_from (Y ! i) := i]), s)" using P i assms(2) by (simp add: Let_def ret_def not_le)
    moreover have "\<forall>k<Suc i. to[get_from (Y ! i) := i] ! get_from (Y ! k) = k"
    proof (intro allI impI)
      fix k assume k: "k < Suc i"
      have inj: "get_from (Y ! k) = get_from (Y ! i) \<Longrightarrow> k = i" using inj_onD [OF assms(3), of k i] k i by simp
      show "to[get_from (Y ! i) := i] ! get_from (Y ! k) = k"
        using P k i assms(2) inj by (cases "k = i") (auto simp: nth_list_update)
    qed
    ultimately have "?f i to s' = (Inr (to[get_from (Y ! i) := i]), s) \<and> ?P (Suc i) (to[get_from (Y ! i) := i]) s" using P by simp
    then show "\<exists>to' s''. ?f i to s' = (Inr to', s'') \<and> ?P (Suc i) to' s''" by blast
  qed simp_all
  then show ?thesis using that by (auto simp: mk_to_def)
qed

lemma preproc_j_run:
  assumes d: "data_ok Xj n g" and q: "sorts qs sortfn (map (key_of Xj g) [0..<n])"
  obtains Y to where "preproc_j C qs Xj n g s = (if is_debug C then (Inl Undef, s) else (Inr (Y, to), s))"
    "feat_ok n g \<lparr>f_Y = Y, f_tmpY = replicate n 0, f_to = to\<rparr>" "sorted (map get_yval Y)"
    "\<forall>i<n. \<forall>k<n. get_yval (Y ! i) < get_yval (Y ! k) \<longleftrightarrow> fp_less (f4_val (Xj ! get_from (Y ! i))) (f4_val (Xj ! get_from (Y ! k)))"
proof -
  define K where "K = qs sortfn (map (key_of Xj g) [0..<n])"
  note D = d [unfolded data_ok_def]
  have ms: "mset K = mset (map (key_of Xj g) [0..<n])" and sw: "sorted_wrt (\<lambda>a b. \<not> sortfn b a < 0) K"
    using q by (simp_all add: sorts_def K_def)
  have len: "length K = n" using mset_eq_length [OF ms] by simp
  have "mset (map ck_idx K) = mset [0..<n]"
  proof -
    have "mset (map ck_idx K) = image_mset ck_idx (mset (map (key_of Xj g) [0..<n]))" by (simp only: mset_map ms)
    also have "\<dots> = mset (map (ck_idx \<circ> key_of Xj g) [0..<n])" by (simp only: mset_map flip: map_map)
    also have "ck_idx \<circ> key_of Xj g = id" by (auto simp: key_of_def)
    finally show ?thesis by simp
  qed
  then have dis: "distinct (map ck_idx K)" by (metis distinct_upt mset_eq_imp_distinct_iff)
  have key: "ck_idx (K ! i) < n \<and> K ! i = key_of Xj g (ck_idx (K ! i))" if "i < n" for i
  proof -
    have "K ! i \<in> set (map (key_of Xj g) [0..<n])" using that len mset_eq_setD [OF ms] nth_mem [of i K] by simp
    then show ?thesis by (auto simp: key_of_def)
  qed
  define v :: "comp_key_t \<Rightarrow> fp" where "v = f4_val \<circ> ck_xval"
  obtain c cs where K: "K = c # cs" using len D by (cases K) auto
  have sv: "sorted_wrt (\<lambda>a b. \<not> fp_less b a) (map v K)"
  proof -
    have "sortfn b a < 0 \<longleftrightarrow> fp_less (v b) (v a)" for a b by (simp add: sortfn_def v_def)
    then show ?thesis using sw by (simp add: sorted_wrt_map)
  qed
  have vx: "v (K ! i) = f4_val (Xj ! ck_idx (K ! i))" if "i < n" for i
  proof -
    have "ck_xval (key_of Xj g k) = Xj ! k" for k by (simp add: key_of_def)
    then show ?thesis using key [OF that] unfolding v_def comp_def by metis
  qed
  have nn: "\<not> is_nan (v a)" if "a \<in> set K" for a using that D key vx len by (metis in_set_conv_nth)
  define cd where "cd = 1 # codes (v c) 1 (map v cs)"
  have O: "sorted cd \<and> (\<forall>i\<le>length (map v cs). \<forall>k\<le>length (map v cs). cd ! i < cd ! k \<longleftrightarrow> fp_less ((v c # map v cs) ! i) ((v c # map v cs) ! k))"
    unfolding cd_def by (rule codes_order) (use nn sv K in auto)
  have ln: "length cs = n - 1" "length cd = n" using len K D by (simp_all add: cd_def)
  have cd: "cd ! i \<le> n" if "i < n" for i
  proof (cases i)
    case 0
    then show ?thesis using D by (simp add: cd_def)
  next
    case (Suc i')
    then have "cd ! i \<in> set (codes (v c) 1 (map v cs))" using that ln by (simp add: cd_def)
    then show ?thesis using codes_bounds [of "cd ! i" "v c" 1 "map v cs"] ln D by auto
  qed
  let ?mk = "\<lambda>c k. x_mk_comp_val (of_nat (ck_idx c)) (of_nat (ck_g c)) (of_nat k)"
  define Y where "Y = map2 ?mk K cd"
  have Yl: "length Y = n" using len ln by (simp add: Y_def)
  have Yi: "get_from (Y ! i) = ck_idx (K ! i) \<and> get_goal (Y ! i) = g ! ck_idx (K ! i) \<and> get_yval (Y ! i) = cd ! i" if i: "i < n" for i
  proof -
    have "Y ! i = ?mk (K ! i) (cd ! i)" using i len ln by (simp add: Y_def)
    moreover have "ck_g (K ! i) = g ! ck_idx (K ! i)" using key [OF i] by (metis comp_key_t.select_convs(3) key_of_def)
    moreover have "ck_idx (K ! i) < 2 ^ 32" "g ! ck_idx (K ! i) < 2" "cd ! i < 2 ^ 31" using key [OF i] D cd [OF i] by auto
    ultimately show ?thesis using get_from_mk get_goal_mk get_yval_mk by auto
  qed
  have inj: "inj_on (\<lambda>i. get_from (Y ! i)) {..<n}"
  proof (rule inj_onI)
    fix i k assume "i \<in> {..<n}" "k \<in> {..<n}" "get_from (Y ! i) = get_from (Y ! k)"
    then show "i = k" using Yi dis len by (simp add: distinct_map inj_on_def nth_eq_iff_index_eq) (metis nth_eq_iff_index_eq nth_mem)
  qed
  obtain to where to: "mk_to n Y s = (Inr to, s)" "length to = n" "\<forall>i<n. to ! get_from (Y ! i) = i"
    by (rule mk_to_run [OF Yl _ inj]) (use Yi key in auto)
  have enc: "x_mk_comp_val (of_nat (ck_idx c)) (of_nat (ck_g c)) (of_nat 1) # encode (ck_xval c) 1 cs = Y"
  proof -
    have "encode (ck_xval c) 1 cs = map2 ?mk cs (codes (f4_val (ck_xval c)) 1 (map (f4_val \<circ> ck_xval) cs))"
      by (rule encode_codes) (use ln D in simp)
    then show ?thesis by (simp add: Y_def K cd_def v_def)
  qed
  have qK: "qs sortfn (map (\<lambda>i. \<lparr>ck_xval = Xj ! i, ck_idx = i, ck_g = g ! i\<rparr>) [0..<n]) = c # cs"
    using K by (simp add: K_def key_of_def [abs_def])
  have u: "(length Xj < n \<or> length g < n) = False" using D by auto
  let ?y0 = "x_mk_comp_val (of_nat (ck_idx c)) (of_nat (ck_g c)) (of_nat 1)"
  have "?y0 = Y ! 0" "cd ! 0 = 1" "K ! 0 = c" "ck_g c = g ! ck_idx c"
    using enc [symmetric] K key [of 0] D by (simp_all add: cd_def) (metis comp_key_t.select_convs(3) key_of_def)
  then have chk: "(is_debug C \<and> (get_yval ?y0 \<noteq> 1 \<or> get_goal ?y0 \<noteq> ck_g c \<or> get_from ?y0 \<noteq> ck_idx c)) = False"
    using Yi [of 0] D by simp
  have R: "preproc_j C qs Xj n g s = (if is_debug C then (Inl Undef, s) else (Inr (Y, to), s))"
    by (simp only: preproc_j_def seq_undef_if u if_False qK list.case Let_def chk seq_bye_if enc
      seq_Inr [where m = "mk_to n Y", OF to(1)] ret_def)
  show ?thesis
  proof (rule that [OF R])
    show "feat_ok n g \<lparr>f_Y = Y, f_tmpY = replicate n 0, f_to = to\<rparr>"
      using Yl Yi to key by (simp add: feat_ok_def)
    have "map get_yval Y = cd" using Yl Yi ln by (intro nth_equalityI) auto
    then show "sorted (map get_yval Y)" using O by simp
    show "\<forall>i<n. \<forall>k<n. get_yval (Y ! i) < get_yval (Y ! k) \<longleftrightarrow> fp_less (f4_val (Xj ! get_from (Y ! i))) (f4_val (Xj ! get_from (Y ! k)))"
    proof (intro allI impI)
      fix i k assume ik: "i < n" "k < n"
      have e: "(v c # map v cs) ! i = f4_val (Xj ! get_from (Y ! i))" if "i < n" for i
      proof -
        have "(v c # map v cs) ! i = map v K ! i" using K by simp
        also have "\<dots> = v (K ! i)" using that len by simp
        finally show ?thesis using vx [OF that] Yi [OF that] by simp
      qed
      have "i \<le> length (map v cs)" "k \<le> length (map v cs)" using ik ln by auto
      then show "get_yval (Y ! i) < get_yval (Y ! k) \<longleftrightarrow> fp_less (f4_val (Xj ! get_from (Y ! i))) (f4_val (Xj ! get_from (Y ! k)))"
        using O Yi [OF ik(1)] Yi [OF ik(2)] e [OF ik(1)] e [OF ik(2)] by simp
    qed
  qed
qed

end
