(* ===== verification/Dt_Build.thy ===== *)
theory Dt_Build
  imports Dt_Prep
begin

text \<open>
  All features together, the whole construction of the tree, and the generated data of the program.
\<close>

subsection \<open>All features\<close>

lemma goal_sum:
  assumes "\<forall>i<n. g ! i < (2 :: nat)" "n < 2 ^ 31"
  shows "foldl (\<lambda>nH i. u32 (nH + g ! i)) 0 [0..<n] = card {x \<in> {..<n}. g ! x = 1} \<and> card {x \<in> {..<n}. g ! x = 1} \<le> n"
  using assms
proof (induction n)
  case (Suc n)
  then have IH: "foldl (\<lambda>nH i. u32 (nH + g ! i)) 0 [0..<n] = card {x \<in> {..<n}. g ! x = 1}" "card {x \<in> {..<n}. g ! x = 1} \<le> n" by auto
  have n: "{x \<in> {..<Suc n}. g ! x = 1} = (if g ! n = 1 then insert n {x \<in> {..<n}. g ! x = 1} else {x \<in> {..<n}. g ! x = 1})"
    by (auto simp: less_Suc_eq)
  have "card {x \<in> {..<Suc n}. g ! x = 1} = card {x \<in> {..<n}. g ! x = 1} + g ! n"
    using Suc.prems(1) less_2_cases [of "g ! n"] unfolding n by auto
  moreover have "g ! n < 2" using Suc.prems(1) by simp
  ultimately show ?case using IH Suc.prems(2) by simp
qed simp

lemma goals_split:
  assumes "\<forall>i<n. g ! i < (2 :: nat)"
  shows "card {x \<in> {..<n}. g ! x = 0} + card {x \<in> {..<n}. g ! x = 1} = n"
proof -
  have "{..<n} = {x \<in> {..<n}. g ! x = 0} \<union> {x \<in> {..<n}. g ! x = 1}" using assms less_2_cases by auto
  moreover have "card ({x \<in> {..<n}. g ! x = 0} \<union> {x \<in> {..<n}. g ! x = 1}) = card {x \<in> {..<n}. g ! x = 0} + card {x \<in> {..<n}. g ! x = 1}"
    by (rule card_Un_disjoint) auto
  ultimately show ?thesis by (metis card_lessThan)
qed

definition feats_for :: "32 word list list \<Rightarrow> nat \<Rightarrow> nat list \<Rightarrow> feature list \<Rightarrow> bool" where
  "feats_for X n g fs \<longleftrightarrow> (\<forall>j<length fs. feat_ok n g (fs ! j) \<and> sorted (map get_yval (f_Y (fs ! j))) \<and>
     (\<forall>u\<in>set (f_Y (fs ! j)). \<forall>v\<in>set (f_Y (fs ! j)). get_yval u < get_yval v \<longleftrightarrow>
        fp_less (f4_val (X ! j ! get_from u)) (f4_val (X ! j ! get_from v))))"

lemma preproc_run:
  assumes d: "\<forall>j<m. data_ok (X ! j) n g \<and> sorts qsk sortfn (map (key_of (X ! j) g) [0..<n])"
    and m: "0 < m" "m \<le> length X" and dbg: "\<not> is_debug C"
  obtains fs where "preproc C qsk qs X m n g s = (Inr (card {x \<in> {..<n}. g ! x = 0}, card {x \<in> {..<n}. g ! x = 1}), s\<lparr>g_feats := fs\<rparr>)"
    "length fs = m" "feats_for X n g fs"
proof -
  have d0: "\<forall>i<n. g ! i < 2" "n < 2 ^ 31" "n \<le> length g" using d m(1) by (auto simp: data_ok_def)
  let ?f = "\<lambda>j fs. seq (undef_if (length X \<le> j)) (\<lambda>_.
      seq (preproc_j C qsk (X ! j) n g) (\<lambda>(Y, to). ret (fs @ [\<lparr>f_Y = Y, f_tmpY = replicate n 0, f_to = to\<rparr>])))"
  let ?P = "\<lambda>j fs s'. s' = s \<and> length fs = j \<and> feats_for X n g fs"
  have "\<exists>fs s'. for_fold [0..<m] [] ?f s = (Inr fs, s') \<and> ?P m fs s'"
  proof (rule for_fold_upt [where P = ?P])
    show "?P 0 [] s" by (simp add: feats_for_def)
    fix j fs s' assume j: "j < m" and P: "?P j fs s'"
    obtain Y to where Y: "preproc_j C qsk (X ! j) n g s = (if is_debug C then (Inl Undef, s) else (Inr (Y, to), s))"
      "feat_ok n g \<lparr>f_Y = Y, f_tmpY = replicate n 0, f_to = to\<rparr>" "sorted (map get_yval Y)"
      "\<forall>i<n. \<forall>k<n. get_yval (Y ! i) < get_yval (Y ! k) \<longleftrightarrow> fp_less (f4_val (X ! j ! get_from (Y ! i))) (f4_val (X ! j ! get_from (Y ! k)))"
      using d j by (rule_tac preproc_j_run [of "X ! j" n g qsk C s]) blast+
    let ?fs = "fs @ [\<lparr>f_Y = Y, f_tmpY = replicate n 0, f_to = to\<rparr>]"
    have "preproc_j C qsk (X ! j) n g s = (Inr (Y, to), s)" using Y(1) dbg by simp
    then have "?f j fs s' = (Inr ?fs, s)"
      using j m P by (simp add: seq_Inr [where m = "preproc_j C qsk (X ! j) n g"] ret_def)
    moreover have "feats_for X n g ?fs"
      unfolding feats_for_def
    proof (intro allI impI)
      fix k assume k: "k < length ?fs"
      show "feat_ok n g (?fs ! k) \<and> sorted (map get_yval (f_Y (?fs ! k))) \<and>
         (\<forall>u\<in>set (f_Y (?fs ! k)). \<forall>v\<in>set (f_Y (?fs ! k)). get_yval u < get_yval v \<longleftrightarrow>
            fp_less (f4_val (X ! k ! get_from u)) (f4_val (X ! k ! get_from v)))"
      proof (cases "k < j")
        case True
        then show ?thesis using P by (simp add: feats_for_def nth_append)
      next
        case False
        then have "k = j" using k P by simp
        moreover have "length Y = n" using Y(2) by (simp add: feat_ok_def)
        ultimately show ?thesis using P Y(2-4) by (auto simp: nth_append in_set_conv_nth)
      qed
    qed
    ultimately show "\<exists>fs' s''. ?f j fs s' = (Inr fs', s'') \<and> ?P (Suc j) fs' s''" using P by auto
  qed simp
  then obtain fs where fs: "for_fold [0..<m] [] ?f s = (Inr fs, s)" "length fs = m" "feats_for X n g fs" by blast
  have g: "foldl (\<lambda>nH i. u32 (nH + g ! i)) 0 [0..<n] = card {x \<in> {..<n}. g ! x = 1}" "card {x \<in> {..<n}. g ! x = 1} \<le> n"
    using goal_sum [OF d0(1,2)] by simp_all
  have t: "u32_sub n (card {x \<in> {..<n}. g ! x = 1}) = card {x \<in> {..<n}. g ! x = 0}"
    using g(2) goals_split [OF d0(1)] by (simp add: u32_sub_def)
  have F: "(length g < n) = False" "is_debug C = False" using d0(3) dbg by simp_all
  have "preproc C qsk qs X m n g s = (Inr (card {x \<in> {..<n}. g ! x = 0}, card {x \<in> {..<n}. g ! x = 1}), s\<lparr>g_feats := fs\<rparr>)"
    by (simp only: preproc_def seq_Inr [where m = "for_fold [0..<m] [] ?f", OF fs(1)] seq_undef_if F if_False seq_upd_st g(1) t Let_def ret_def)
  then show ?thesis using fs(2,3) by (rule that)
qed

lemma whole_seg:
  assumes "feat_ok n g f" "sorted (map get_yval (f_Y f))"
  shows "seg_ok {..<n} 0 n f"
proof -
  have "set (froms 0 n f) \<subseteq> {..<n}" using feat_okD(4) [OF assms(1)] by (auto simp: froms_def)
  moreover have "card (set (froms 0 n f)) = card {..<n}" using card_inst [OF assms(1) refl, of n 0] by simp
  ultimately have "set (froms 0 n f) = {..<n}" by (intro card_subset_eq) auto
  moreover have "elems (f_Y f) 0 n = f_Y f" using feat_okD(1) [OF assms(1)] map_nth [of "f_Y f"] by (simp add: elems_def)
  ultimately show ?thesis using assms(2) by (simp add: seg_ok_def)
qed

subsection \<open>The tree of a data set\<close>

text \<open>In some feature no float of an instance in \<open>R\<close> is below one of an instance in \<open>L\<close>.\<close>

definition below :: "32 word list list \<Rightarrow> nat \<Rightarrow> nat set \<Rightarrow> nat set \<Rightarrow> bool" where
  "below X m L R \<longleftrightarrow> (\<exists>j<m. \<forall>x\<in>L. \<forall>y\<in>R. \<not> fp_less (f4_val (X ! j ! y)) (f4_val (X ! j ! x)))"

lemma separated_below:
  assumes fs: "feats_for X n g fs" and s: "separated fs L R" "L \<subseteq> {..<n}" "R \<subseteq> {..<n}"
  shows "below X (length fs) L R"
proof -
  obtain j where j: "j < length fs" "\<forall>u\<in>set (f_Y (fs ! j)). \<forall>v\<in>set (f_Y (fs ! j)).
     get_from u \<in> L \<and> get_from v \<in> R \<longrightarrow> get_yval u \<le> get_yval v"
    using s(1) by (auto simp: separated_def)
  have f: "feat_ok n g (fs ! j)" "sorted (map get_yval (f_Y (fs ! j)))"
    "\<forall>u\<in>set (f_Y (fs ! j)). \<forall>v\<in>set (f_Y (fs ! j)). get_yval u < get_yval v \<longleftrightarrow>
        fp_less (f4_val (X ! j ! get_from u)) (f4_val (X ! j ! get_from v))"
    using fs j(1) by (simp_all add: feats_for_def)
  have word: "\<exists>u\<in>set (f_Y (fs ! j)). get_from u = x" if "x < n" for x
  proof -
    have "x \<in> set (froms 0 n (fs ! j))" using whole_seg [OF f(1,2)] that by (simp add: seg_ok_def)
    then show ?thesis using feat_okD(1) [OF f(1)] by (auto simp: froms_def)
  qed
  show ?thesis
    unfolding below_def
  proof (intro exI [of _ j] conjI ballI j(1))
    fix x y assume x: "x \<in> L" and y: "y \<in> R"
    obtain u v where "u \<in> set (f_Y (fs ! j))" "get_from u = x" "v \<in> set (f_Y (fs ! j))" "get_from v = y"
      using word x y s(2,3) by blast
    then show "\<not> fp_less (f4_val (X ! j ! y)) (f4_val (X ! j ! x))" using j(2) f(3) x y by (metis not_le)
  qed
qed

lemma tree_inv_mono:
  assumes "tree_inv C g J T N I" "\<And>L R. L \<subseteq> I 0 \<Longrightarrow> R \<subseteq> I 0 \<Longrightarrow> J L R \<Longrightarrow> J' L R"
  shows "tree_inv C g J' T N I"
proof -
  have up: "up_ok T I k" and down: "down_ok J T N I k" if "k < N" for k using assms(1) that by (simp_all add: tree_inv_def)
  have sub: "I k \<subseteq> I 0" if "k < N" for k
    using that
  proof (induction k rule: less_induct)
    case (less k)
    show ?case
    proof (cases "k = 0")
      case False
      then obtain p where "p < k" "I k \<subseteq> I p" using up [OF less.prems] by (auto simp: up_ok_def)
      then show ?thesis using less.IH [of p] less.prems by auto
    qed simp
  qed
  have "down_ok J' T N I k" if k: "k < N" for k
  proof -
    have c: "I (nat c) \<subseteq> I 0" if "child_ok T N k c" "c \<noteq> - 1" for c
    proof (rule sub)
      show "nat c < N" using that by (auto simp: child_ok_def)
    qed
    show ?thesis using down [OF k] unfolding down_ok_def
      by (auto intro!: assms(2) dest!: c intro: subsetD [OF sub [OF k]])
  qed
  then show ?thesis using assms(1) by (simp add: tree_inv_def)
qed

text \<open>The configurations the program can work with.\<close>

definition config_ok :: "config_t \<Rightarrow> nat \<Rightarrow> bool" where
  "config_ok C n \<longleftrightarrow> \<not> is_debug C \<and> 0 < metrics_buffer_size C \<and> max_depth C < 2 ^ 31 \<and> 0 < max_nodes_in_tree C \<and>
     max_nodes_in_tree C < 2 ^ 31 \<and> min_partition_size C \<le> n"

lemma build_run:
  assumes C: "config_ok C n" and m: "0 < m" "m \<le> length X" "m \<le> length junk"
    and d: "\<forall>j<m. data_ok (X ! j) n g \<and> sorts qsk sortfn (map (key_of (X ! j) g) [0..<n])"
  shows "\<exists>s I. build_tree C qsk qs X g m n (init_globals C junk) = (Inr (), s) \<and> I 0 = {..<n} \<and>
    tree_inv C g (below X m) (g_tree s) (g_n_tree s) I"
proof -
  let ?s0 = "init_globals C junk" and ?nT = "card {x \<in> {..<n}. g ! x = 0}" and ?nH = "card {x \<in> {..<n}. g ! x = 1}"
  note C' = C [unfolded config_ok_def]
  have d0: "\<forall>i<n. g ! i < 2" "n < 2 ^ 31" "0 < n" using d m(1) by (auto simp: data_ok_def)
  obtain fs where fs: "preproc C qsk qs X m n g ?s0 = (Inr (?nT, ?nH), ?s0\<lparr>g_feats := fs\<rparr>)" "length fs = m" "feats_for X n g fs"
    using C' by (rule_tac preproc_run [OF d m(1,2), of C qs ?s0]) auto
  have ok: "\<forall>f\<in>set fs. feat_ok n g f \<and> seg_ok {..<n} 0 n f"
  proof
    fix f assume "f \<in> set fs"
    then obtain j where "j < length fs" "f = fs ! j" by (auto simp: in_set_conv_nth)
    then have "feat_ok n g f" "sorted (map get_yval (f_Y f))" using fs(3) by (simp_all add: feats_for_def)
    then show "feat_ok n g f \<and> seg_ok {..<n} 0 n f" using whole_seg by blast
  qed
  let ?N = "max_nodes_in_tree C"
  have T0: "g_tree ?s0 = replicate ?N blank_node" "g_sz_tree ?s0 = int ?N" "g_n_tree ?s0 = 0" "g_best ?s0 = junk"
    using C' by (simp_all add: init_globals_def i32_small)
  let ?T = "(replicate ?N blank_node)[0 := blank_node\<lparr>nd_nT := ?nT, nd_nH := ?nH, nd_depth := 0\<rparr>]"
  let ?s1 = "?s0\<lparr>g_feats := fs, g_tree := ?T, g_n_tree := 1\<rparr>"
  have R: "make_root ?nT ?nH (?s0\<lparr>g_feats := fs\<rparr>) = (Inr (), ?s1)"
    using C' by (simp add: make_root_def T0 Let_def put_st_def)
  define I0 where "I0 = (\<lambda>k :: nat. {..<n})"
  have inv: "tree_inv C g (separated fs) ?T 1 I0"
    using C' d0 goals_split [OF d0(1)]
    by (auto simp: tree_inv_def count_ok_def up_ok_def down_ok_def child_ok_def I0_def blank_node_def nth_list_update)
  have pre: "split_pre C g n m 0 n ?nT ?nH 0 {..<n} I0 ?s1"
    using C' d0 m fs(2) ok inv T0 by (simp add: split_pre_def tree_of_def Let_def I0_def nth_list_update blank_node_def)
  have "max_depth C - 0 < Suc (max_depth C)" by simp
  with pre have "\<exists>s I. split_node (Suc (max_depth C)) C qs g 0 n ?nT ?nH n m 0 ?s1 = (Inr (), s) \<and> split_post C g n 0 n I0 ?s1 I s"
    using split_run [of C qs g n m "Suc (max_depth C)", unfolded split_spec_def] by blast
  then obtain s I where S: "split_node (Suc (max_depth C)) C qs g 0 n ?nT ?nH n m 0 ?s1 = (Inr (), s)" "split_post C g n 0 n I0 ?s1 I s" by blast
  have I0: "I 0 = {..<n}" using S(2) by (simp add: split_post_def I0_def)
  have tree: "tree_inv C g (separated fs) (g_tree s) (g_n_tree s) I" using S(2) by (simp add: split_post_def tree_of_def)
  have chk: "check_tree C (g_tree s) (g_n_tree s) s = (Inr (), s)" by (rule check_tree_ok [OF tree]) (use C' in simp)
  have "build_tree C qsk qs X g m n ?s0 = (Inr (), s)"
    by (simp only: build_tree_def seq_Inr [where m = "preproc C qsk qs X m n g", OF fs(1)] prod.case
      seq_Inr [where m = "make_root ?nT ?nH", OF R] seq_Inr [where m = "split_node _ _ _ _ _ _ _ _ _ _ _", OF S(1)] seq_get_st chk)
  moreover have "tree_inv C g (below X m) (g_tree s) (g_n_tree s) I"
    by (rule tree_inv_mono [OF tree]) (use separated_below [OF fs(3)] I0 fs(2) in auto)
  ultimately show ?thesis using I0 by blast
qed


subsection \<open>The generated data\<close>

lemma fp_round_canon:
  assumes "fp_round F neg num den = Fin neg' m e" "0 < den" "0 < prec F" "emin F \<le> emax F"
  shows "m < 2 ^ prec F \<and> emin F \<le> e \<and> e \<le> emax F \<and> neg' = neg"
proof (cases "num = 0")
  case True
  then show ?thesis using assms by (auto simp: fp_round_def)
next
  case False
  define x where "x = pick_exp F num den"
  define k where "k = scaled num den x"
  have "0 < num" using False by simp
  note E = pick_exp_bounds [OF this assms(2), of F, folded x_def]
  have "(0 :: real) < 2 powr real_of_int x" by simp
  moreover have "real num / real den \<le> real (2 ^ prec F) * 2 powr real_of_int x"
    using E(1) by (simp add: powr_add powr_realpow mult.commute)
  ultimately have "real num / real den / 2 powr real_of_int x \<le> real (2 ^ prec F)"
    by (simp only: pos_divide_le_eq)
  then have k: "k \<le> 2 ^ prec F" unfolding k_def by (rule scaled_upper [OF assms(2)])
  have "fp_round F neg num den = (case if k = 2 ^ prec F then (2 ^ (prec F - 1), x + 1) else (k, x) of
      (m', e') \<Rightarrow> if emax F < e' then Infty neg else Fin neg m' e')"
    unfolding fp_round_def Let_def k_def x_def using False by (simp only: if_False)
  then show ?thesis using assms k E(2) by (auto split: if_splits)
qed

lemma F4_not_nan: "\<not> is_nan (f4_val (F4_of_nat n))"
proof -
  have F: "prec F32_fmt = 24" "emin F32_fmt = - 149" "emax F32_fmt = 104" by (simp_all add: F32_fmt_def)
  obtain num den where q: "fp_scale F32_fmt False n 0 = fp_round F32_fmt False num den" "0 < den"
    by (rule fp_scale_quot [of F32_fmt False n 0]) blast
  define b where "b = fp_bits F32_fmt 32 (fp_scale F32_fmt False n 0)"
  have b: "b < 255 * 2 ^ 23 \<or> b = 255 * 2 ^ 23"
  proof (cases "fp_scale F32_fmt False n 0")
    case (Fin s m e)
    then have "fp_round F32_fmt False num den = Fin s m e" using q(1) by simp
    from fp_round_canon [OF this q(2)] have c: "m < 2 ^ 24" "- 149 \<le> e" "e \<le> 104" "\<not> s" by (simp_all add: F)
    have "nat (e + 150) \<le> 254" using c by simp
    then have "nat (e + 150) * 2 ^ 23 \<le> 254 * 2 ^ 23" by (rule mult_right_mono) simp
    then have "m + nat (e + 150) * 8388608 - 8388608 < 2139095040" using c by simp
    then have "b < 255 * 2 ^ 23" using c \<open>nat (e + 150) \<le> 254\<close> by (simp add: b_def Fin fp_bits_def F Let_def add.commute)
    then show ?thesis ..
  next
    case (Infty s)
    then have "fp_round F32_fmt False num den = Infty s" using q(1) by simp
    then have "\<not> s" by (auto simp: fp_round_def Let_def split: if_splits prod.splits)
    then show ?thesis by (simp add: b_def Infty fp_bits_def F Let_def)
  next
    case (NaN s)
    then have "fp_round F32_fmt False num den = NaN s" using q(1) by simp
    then show ?thesis by (auto simp: fp_round_def Let_def split: if_splits prod.splits)
  qed
  then have lt: "b < 2 ^ 32" by auto
  then have u: "unat (F4_of_nat n) = b" by (simp add: F4_of_nat_def b_def unat_of_nat take_bit_nat_eq_self)
  show ?thesis
  proof (cases "b = 255 * 2 ^ 23")
    case True
    then show ?thesis by (simp add: f4_val_def u fp_of_bits_def F)
  next
    case False
    then have "b div 2 ^ 23 < 255" using b by (simp add: div_less_iff_less_mult)
    then have "b div 2 ^ 23 mod 2 ^ 8 \<noteq> 255" by simp
    then show ?thesis by (simp add: f4_val_def u fp_of_bits_def F Let_def)
  qed
qed

lemma init_and_permute_run:
  assumes "2 \<le> n" "n < 2 ^ 31" "length X = n"
  obtains X' k' where "init_and_permute rnd X n k = (Inr X', k')" "length X' = n" "mset X' = mset X"
proof -
  let ?f = "\<lambda>i X. seq (undef_if (u32_sub n i = 0)) (\<lambda>_. seq (random rnd) (\<lambda>r.
      let j = u32 (i + r mod u32_sub n i) in
      seq (undef_if (length X \<le> i \<or> length X \<le> j)) (\<lambda>_. ret (X[i := X ! j, j := X ! i]))))"
  let ?P = "\<lambda>i X' k'. length X' = n \<and> mset X' = mset X"
  have n2: "u32_sub n 2 = n - 2" using assms by (simp add: u32_sub_def)
  have "\<exists>X' k'. for_fold [0..<Suc (n - 2)] X ?f k = (Inr X', k') \<and> ?P (Suc (n - 2)) X' k'"
  proof (rule for_fold_upt [where P = ?P])
    fix i X' k' assume i: "i < Suc (n - 2)" and P: "?P i X' k'"
    have n: "u32_sub n i = n - i" "i < n" using i assms by (simp_all add: u32_sub_def)
    have lt: "rnd k' mod (n - i) < n - i" using n(2) by simp
    then have "i + rnd k' mod (n - i) < n" using n(2) by linarith
    moreover from this have "i + rnd k' mod (n - i) < 4294967296" using assms by simp
    ultimately obtain j where j: "u32 (i + rnd k' mod (n - i)) = j" "j < n" by simp
    have r: "random rnd k' = (Inr (rnd k'), Suc k')" by (simp add: random_def)
    have "?f i X' k' = (Inr (X'[i := X' ! j, j := X' ! i]), Suc k')"
      using n P j by (simp add: seq_Inr [where m = "random rnd", OF r] Let_def ret_def)
    moreover have "mset (X'[i := X' ! j, j := X' ! i]) = mset X'" using n P j by (intro mset_swap) auto
    ultimately show "\<exists>acc' s'. ?f i X' k' = (Inr acc', s') \<and> ?P (Suc i) acc' s'" using P by auto
  qed (use assms in auto)
  then show ?thesis using that unfolding init_and_permute_def n2 by blast
qed

lemma make_data_run:
  assumes "2 \<le> n" "n < 2 ^ 31"
  obtains X g k' where "make_data rnd m n k = (Inr (X, g), k')" "length X = m" "length g = n"
    "\<forall>j<m. mset (X ! j) = mset (map (\<lambda>i. F4_of_nat (i + 1)) [0..<n])" "\<forall>i<n. g ! i < 2"
proof -
  let ?base = "map (\<lambda>i. F4_of_nat (i + 1)) [0..<n]"
  let ?f = "\<lambda>j Xs. seq (init_and_permute rnd ?base n) (\<lambda>X. ret (Xs @ [X]))"
  let ?P = "\<lambda>j Xs k. length Xs = j \<and> (\<forall>i<j. mset (Xs ! i) = mset ?base)"
  have "\<exists>Xs k'. for_fold [0..<m] [] ?f k = (Inr Xs, k') \<and> ?P m Xs k'"
  proof (rule for_fold_upt [where P = ?P])
    fix j Xs k assume P: "?P j Xs k"
    obtain X' k' where X: "init_and_permute rnd ?base n k = (Inr X', k')" "mset X' = mset ?base"
      by (rule init_and_permute_run [OF assms, of ?base rnd k]) auto
    have "?f j Xs k = (Inr (Xs @ [X']), k')" by (simp only: seq_Inr [where m = "init_and_permute rnd ?base n", OF X(1)] ret_def)
    then show "\<exists>acc' s'. ?f j Xs k = (Inr acc', s') \<and> ?P (Suc j) acc' s'"
      using P X(2) by (auto simp: nth_append less_Suc_eq)
  qed simp_all
  then obtain Xs k1 where 1: "for_fold [0..<m] [] ?f k = (Inr Xs, k1)" "?P m Xs k1" by blast
  let ?h = "\<lambda>i g. seq (random rnd) (\<lambda>r. ret (g @ [r mod 2]))"
  let ?Q = "\<lambda>i g k. length g = i \<and> (\<forall>x<i. g ! x < (2 :: nat))"
  have "\<exists>g k'. for_fold [0..<n] [] ?h k1 = (Inr g, k') \<and> ?Q n g k'"
  proof (rule for_fold_upt [where P = ?Q])
    fix i g k assume Q: "?Q i g k"
    have r: "random rnd k = (Inr (rnd k), Suc k)" by (simp add: random_def)
    have "?h i g k = (Inr (g @ [rnd k mod 2]), Suc k)" by (simp add: seq_Inr [where m = "random rnd", OF r] ret_def)
    then show "\<exists>acc' s'. ?h i g k = (Inr acc', s') \<and> ?Q (Suc i) acc' s'" using Q by (auto simp: nth_append less_Suc_eq)
  qed simp_all
  then obtain g k2 where 2: "for_fold [0..<n] [] ?h k1 = (Inr g, k2)" "?Q n g k2" by blast
  have "(2 ^ 31 \<le> n) = False" using assms by simp
  then have "make_data rnd m n k = (Inr (Xs, g), k2)"
    by (simp only: make_data_def seq_bye_if if_False seq_Inr [where m = "for_fold [0..<m] [] ?f", OF 1(1)]
      seq_Inr [where m = "for_fold [0..<n] [] ?h", OF 2(1)] ret_def)
  then show ?thesis by (rule that) (use 1(2) 2(2) in auto)
qed

lemma gen_data_ok:
  assumes "mset Xj = mset (map (\<lambda>i. F4_of_nat (i + 1)) [0..<n])" "n \<le> length g" "\<forall>i<n. g ! i < 2" "0 < n" "n < 2 ^ 31"
  shows "data_ok Xj n g"
proof -
  have "length Xj = length (map (\<lambda>i. F4_of_nat (i + 1)) [0..<n])" using assms(1) by (rule mset_eq_length)
  then have l: "length Xj = n" by simp
  have S: "set Xj = set (map (\<lambda>i. F4_of_nat (i + 1)) [0..<n])" using assms(1) by (rule mset_eq_setD)
  have "\<not> is_nan (f4_val (Xj ! i))" if "i < n" for i
  proof -
    have "Xj ! i \<in> set Xj" using that l by simp
    then show ?thesis unfolding S using F4_not_nan by auto
  qed
  then show ?thesis using assms(2-5) l by (simp add: data_ok_def)
qed

lemma main_run:
  assumes q: "\<And>Xj g n. data_ok Xj n g \<Longrightarrow> sorts qsk sortfn (map (key_of Xj g) [0..<n])"
    and "4 \<le> length junk"
  shows "\<exists>s X g I. dt_main procs rnd qsk qs junk = (Inr (), s) \<and> fst (make_data rnd 4 32768 0) = Inr (X, g) \<and> I 0 = {..<32768} \<and>
    tree_inv (read_config procs) g (below X 4) (g_tree s) (g_n_tree s) I"
proof -
  let ?C = "read_config procs"
  obtain n :: nat where n: "n = 32768" by blast
  then have n2: "2 \<le> n" "n < 2 ^ 31" by simp_all
  obtain X g k where D: "make_data rnd 4 n 0 = (Inr (X, g), k)" "length X = 4" "length g = n"
    "\<forall>j<4. mset (X ! j) = mset (map (\<lambda>i. F4_of_nat (i + 1)) [0..<n])" "\<forall>i<n. g ! i < 2"
    by (rule make_data_run [OF n2, of rnd 4 0]) blast
  have d: "data_ok (X ! j) n g" if "j < 4" for j
    by (rule gen_data_ok) (use D n2 that in auto)
  have C: "config_ok ?C n" by (simp add: config_ok_def read_config_def n)
  have "\<exists>s I. build_tree ?C qsk qs X g 4 n (init_globals ?C junk) = (Inr (), s) \<and> I 0 = {..<n} \<and>
      tree_inv ?C g (below X 4) (g_tree s) (g_n_tree s) I"
    by (rule build_run [OF C]) (use d q D(2) assms(2) in auto)
  then obtain s I where B: "build_tree ?C qsk qs X g 4 n (init_globals ?C junk) = (Inr (), s)" "I 0 = {..<n}"
    "tree_inv ?C g (below X 4) (g_tree s) (g_n_tree s) I" by blast
  have p: "num_instances ?C = n" "num_features ?C mod 256 = 4" "\<not> g_sz_tree (init_globals ?C junk) < 0"
    by (simp_all add: read_config_def init_globals_def i32_def n)
  have "dt_main procs rnd qsk qs junk = (Inr (), s)" using p D(1) B(1) by (simp add: dt_main_def Let_def)
  then show ?thesis using B D(1) n by auto
qed

end
