(* ===== verification/Dt_Thms.thy ===== *)
theory Dt_Thms
  imports Dt_Build
begin

text \<open>
  The properties of the decision-tree builder (\<open>DT\<close>) and the inputs their witnesses run on.
\<close>

subsection \<open>A sorter that keeps the contract\<close>

text \<open>An insertion sort over a comparison in the style of \<open>qsort\<close>: the parameter of the model, made concrete.\<close>

fun put_in :: "('a \<Rightarrow> 'a \<Rightarrow> int) \<Rightarrow> 'a \<Rightarrow> 'a list \<Rightarrow> 'a list" where
  "put_in cmp x [] = [x]"
| "put_in cmp x (y # ys) = (if cmp y x < 0 then y # put_in cmp x ys else x # y # ys)"

primrec in_sort :: "'a sorter" where
  "in_sort cmp [] = []"
| "in_sort cmp (x # xs) = put_in cmp x (in_sort cmp xs)"

lemma mset_put_in: "mset (put_in cmp x ys) = add_mset x (mset ys)"
  by (induction cmp x ys rule: put_in.induct) auto

lemma mset_in_sort: "mset (in_sort cmp xs) = mset xs"
  by (induction xs) (simp_all add: mset_put_in)

lemma sortfn_less: "sortfn a b < 0 \<longleftrightarrow> fp_less (f4_val (ck_xval a)) (f4_val (ck_xval b))"
  by (simp add: sortfn_def)

lemma sortfn_trans: "\<not> sortfn b a < 0 \<Longrightarrow> \<not> sortfn c b < 0 \<Longrightarrow> \<not> is_nan (f4_val (ck_xval b)) \<Longrightarrow> \<not> sortfn c a < 0"
  unfolding sortfn_less fp_less_key by linarith

lemma sortfn_asym: "sortfn b a < 0 \<Longrightarrow> \<not> sortfn a b < 0"
  unfolding sortfn_less by (rule fp_less_asym)

lemma sorted_put_in:
  assumes "sorted_wrt (\<lambda>a b. \<not> sortfn b a < 0) ys" "\<forall>y\<in>set ys. \<not> is_nan (f4_val (ck_xval y))"
  shows "sorted_wrt (\<lambda>a b. \<not> sortfn b a < 0) (put_in sortfn x ys)"
  using assms
proof (induction ys)
  case (Cons y ys)
  have S: "set (put_in sortfn x ys) = insert x (set ys)" using mset_put_in [of sortfn x ys] by (metis set_mset_add_mset_insert set_mset_mset)
  have y: "\<forall>z\<in>set ys. \<not> sortfn z y < 0" using Cons.prems(1) by simp
  show ?case
  proof (cases "sortfn y x < 0")
    case True
    then show ?thesis using Cons y S sortfn_asym [of y x] by simp
  next
    case False
    have "\<forall>z\<in>set ys. \<not> sortfn z x < 0" using y False sortfn_trans [of y x] Cons.prems(2) by (metis list.set_intros(1))
    then show ?thesis using Cons.prems(1) False by simp
  qed
qed simp

lemma in_sort_sorts:
  assumes "\<forall>x\<in>set xs. \<not> is_nan (f4_val (ck_xval x))"
  shows "sorts in_sort sortfn xs"
proof -
  have "sorted_wrt (\<lambda>a b. \<not> sortfn b a < 0) (in_sort sortfn xs)"
    using assms
  proof (induction xs)
    case (Cons x xs)
    have "set (in_sort sortfn xs) = set xs" by (rule mset_eq_setD [OF mset_in_sort])
    then show ?case using Cons sorted_put_in by simp
  qed simp
  then show ?thesis by (simp add: sorts_def mset_in_sort)
qed

lemma in_sort_keys: "data_ok Xj n g \<Longrightarrow> sorts in_sort sortfn (map (key_of Xj g) [0..<n])"
  by (rule in_sort_sorts) (auto simp: data_ok_def key_of_def)

subsection \<open>Inputs of the witnesses\<close>

definition demo_cfg :: config_t where
  "demo_cfg = (read_config 4)\<lparr>min_partition_size := 1, min_leaf_size := 1, max_nodes_in_tree := 8\<rparr>"

text \<open>The floats 1 to 4 in two orders, and their goals.\<close>

definition demo_X :: "32 word list list" where
  "demo_X = [[0x3F800000, 0x40000000, 0x40400000, 0x40800000], [0x40400000, 0x40800000, 0x3F800000, 0x40000000]]"

definition demo_g :: "nat list" where
  "demo_g = [0, 1, 1, 0]"

definition blank_best :: best_t where
  "blank_best = \<lparr>b_metric = F8_of_nat 0, b_yval = 0, b_yidx = 0, b_num4 = zero_num4, b_splittable = False\<rparr>"

definition comps :: "(nat \<times> nat \<times> nat) list \<Rightarrow> 64 word list" where
  "comps = map (\<lambda>(i, g, y). x_mk_comp_val (of_nat i) (of_nat g) (of_nat y))"

text \<open>Two features of the four instances, and the state that holds them.\<close>

definition demo_feats :: "feature list" where
  "demo_feats = [\<lparr>f_Y = comps [(0, 0, 1), (1, 1, 2), (2, 1, 3), (3, 0, 4)], f_tmpY = replicate 4 0, f_to = [0, 1, 2, 3]\<rparr>,
    \<lparr>f_Y = comps [(2, 1, 1), (0, 0, 2), (3, 0, 3), (1, 1, 4)], f_tmpY = replicate 4 0, f_to = [1, 3, 0, 2]\<rparr>]"

definition demo_state :: dt_state where
  "demo_state = (init_globals demo_cfg [blank_best, blank_best])\<lparr>g_feats := demo_feats\<rparr>"

text \<open>One value that occurs once, and another that fills the rest.\<close>

definition tie_cfg :: config_t where
  "tie_cfg = (read_config 4)\<lparr>min_partition_size := 2, min_leaf_size := 1, max_nodes_in_tree := 8\<rparr>"

definition tie_Y :: "64 word list" where
  "tie_Y = comps [(0, 0, 1), (1, 1, 2), (2, 0, 2), (3, 1, 2), (4, 1, 2), (5, 0, 2)]"

lemma all_less_4: "(\<forall>i<4. P i) \<longleftrightarrow> P 0 \<and> P 1 \<and> P 2 \<and> P (3 :: nat)"
  by (simp add: numeral_eq_Suc All_less_Suc conj_ac)

lemma demo_floats: "\<not> is_nan (f4_val 0x3F800000)" "\<not> is_nan (f4_val 0x40000000)" "\<not> is_nan (f4_val 0x40400000)" "\<not> is_nan (f4_val 0x40800000)"
  by (simp_all add: f4_val_def fp_of_bits_def F32_fmt_def)

lemma demo_data: "\<forall>j<2. data_ok (demo_X ! j) 4 demo_g \<and> sorts in_sort sortfn (map (key_of (demo_X ! j) demo_g) [0..<4])"
proof -
  have "data_ok (demo_X ! 0) 4 demo_g" "data_ok (demo_X ! 1) 4 demo_g"
    by (simp_all add: data_ok_def demo_X_def demo_g_def all_less_4 demo_floats)
  then show ?thesis using in_sort_keys by (auto simp: less_2_cases_iff)
qed

lemma demo_feats_ok: "\<forall>f\<in>set demo_feats. feat_ok 4 demo_g f \<and> seg_ok {..<4} 0 4 f"
  by code_simp

subsection \<open>A run of equal values is cut\<close>

lemma extend_yidx:
  assumes "m_len B M" "p < B"
  obtains M' where "steps [set_yidx p i, count_goal p v] M = (Inr (), M')" "m_len B M'" "m_yidx M' = (m_yidx M)[p := i]"
proof -
  let ?M1 = "M\<lparr>m_yidx := (m_yidx M)[p := i]\<rparr>"
  have L: "m_len B ?M1" using assms(1) by (simp add: m_len_def)
  let ?M2 = "if v = 0 then ?M1\<lparr>m_nT := (m_nT ?M1)[p := u32 (m_nT ?M1 ! p + 1)]\<rparr>
     else ?M1\<lparr>m_nH := (m_nH ?M1)[p := u32 (m_nH ?M1 ! p + 1)]\<rparr>"
  have "set_yidx p i M = (Inr (), ?M1)" unfolding set_yidx_def using assms by (simp add: m_upd_run)
  moreover have "count_goal p v ?M1 = (Inr (), ?M2)" unfolding count_goal_def by (rule m_upd_run) (use L assms in simp)
  moreover have "m_len B ?M2" "m_yidx ?M2 = (m_yidx M)[p := i]" using L by (simp_all add: m_len_def)
  ultimately show ?thesis by (intro that [of ?M2]) (simp_all add: seq_def ret_def)
qed

lemma new_yidx:
  assumes "m_len B M" "p < B"
  obtains M' where "steps [set_cand p i yv nT nH, count_goal p v] M = (Inr (), M')" "m_len B M'" "m_yidx M' = (m_yidx M)[p := i]"
proof -
  let ?M1 = "M\<lparr>m_yidx := (m_yidx M)[p := i], m_yval := (m_yval M)[p := yv], m_nT := (m_nT M)[p := nT], m_nH := (m_nH M)[p := nH]\<rparr>"
  have L: "m_len B ?M1" using assms(1) by (simp add: m_len_def)
  let ?M2 = "if v = 0 then ?M1\<lparr>m_nT := (m_nT ?M1)[p := u32 (m_nT ?M1 ! p + 1)]\<rparr>
     else ?M1\<lparr>m_nH := (m_nH ?M1)[p := u32 (m_nH ?M1 ! p + 1)]\<rparr>"
  have "set_cand p i yv nT nH M = (Inr (), ?M1)" unfolding set_cand_def using assms by (simp add: m_upd_run)
  moreover have "count_goal p v ?M1 = (Inr (), ?M2)" unfolding count_goal_def by (rule m_upd_run) (use L assms in simp)
  moreover have "m_len B ?M2" "m_yidx ?M2 = (m_yidx M)[p := i]" using L by (simp_all add: m_len_def)
  ultimately show ?thesis by (intro that [of ?M2]) (simp_all add: seq_def ret_def)
qed

text \<open>Elements that open no candidate only move the end of the last one.\<close>

lemma acc_loop_skip:
  assumes "m_len B M" "p < B" "i \<le> k" "k \<le> ub" "ub \<le> length Y" "ub < 4294967295" "cons + (k - i) < 4294967295" "k - i \<le> left" "left < 4294967296"
    "i < k \<longrightarrow> (\<forall>x. i \<le> x \<and> x < k \<longrightarrow> get_yval (Y ! x) = cy) \<or> cons + (k - i) \<le> min_partition_size C"
  shows "\<exists>M'. acc_loop C Y ub i cy (Suc p) cons left M = acc_loop C Y ub k cy (Suc p) (cons + (k - i)) (left - (k - i)) M' \<and>
    m_len B M' \<and> m_yidx M' = (if i < k then (m_yidx M)[p := k - 1] else m_yidx M)"
  using assms
proof (induction "k - i" arbitrary: i M cons left)
  case 0
  then show ?case by auto
next
  case (Suc d)
  then have i: "i < k" "i < ub" "d = k - Suc i" by simp_all
  obtain M1 where M1: "steps [set_yidx p i, count_goal p (get_goal (Y ! i))] M = (Inr (), M1)" "m_len B M1" "m_yidx M1 = (m_yidx M)[p := i]"
    by (rule extend_yidx [OF Suc.prems(1,2)]) blast
  have "get_yval (Y ! i) = cy \<or> cons < min_partition_size C \<or> left < min_partition_size C" using Suc.prems(10) i by force
  note E = acc_loop_same [OF i(2) Suc.prems(5) this M1(1)]
  have u: "u32 (cons + 1) = cons + 1" "u32_sub left 1 = left - 1" using Suc.prems(7-9) i by (simp_all add: u32_sub_def)
  have "\<exists>M'. acc_loop C Y ub (Suc i) cy (Suc p) (cons + 1) (left - 1) M1 =
      acc_loop C Y ub k cy (Suc p) (cons + 1 + (k - Suc i)) (left - 1 - (k - Suc i)) M' \<and>
    m_len B M' \<and> m_yidx M' = (if Suc i < k then (m_yidx M1)[p := k - 1] else m_yidx M1)"
    by (rule Suc.hyps(1) [OF i(3) M1(2) Suc.prems(2)]) (use Suc.prems i in auto)
  then obtain M' where M': "acc_loop C Y ub (Suc i) cy (Suc p) (cons + 1) (left - 1) M1 =
      acc_loop C Y ub k cy (Suc p) (cons + 1 + (k - Suc i)) (left - 1 - (k - Suc i)) M'"
    "m_len B M'" "m_yidx M' = (if Suc i < k then (m_yidx M1)[p := k - 1] else m_yidx M1)" by blast
  have "cons + 1 + (k - Suc i) = cons + (k - i)" "left - 1 - (k - Suc i) = left - (k - i)" using i by simp_all
  then have "acc_loop C Y ub i cy (Suc p) cons left M = acc_loop C Y ub k cy (Suc p) (cons + (k - i)) (left - (k - i)) M'"
    by (simp only: E u M'(1))
  moreover have "m_yidx M' = (if i < k then (m_yidx M)[p := k - 1] else m_yidx M)"
  proof (cases "Suc i < k")
    case False
    then have "k - 1 = i" using i by simp
    then show ?thesis using M'(3) M1(3) i False by simp
  qed (use M'(3) M1(3) i in simp)
  ultimately show ?case using M'(2) by blast
qed

lemma cut_run:
  assumes B: "2 \<le> metrics_buffer_size C" "m_len (metrics_buffer_size C) M" and p: "2 \<le> min_partition_size C" "lb + 2 * min_partition_size C \<le> ub"
    and Y: "ub \<le> length Y" "ub < 4294967295" "get_yval (Y ! lb) \<noteq> b" "\<forall>i. lb < i \<and> i < ub \<longrightarrow> get_yval (Y ! i) = b"
  shows "\<exists>M'. accumulate C Y lb ub 0 0 nb nl M = (Inr (2, ub), M') \<and> m_yidx M' ! 0 = lb + min_partition_size C - 1"
proof -
  let ?B = "metrics_buffer_size C" and ?k = "lb + min_partition_size C" and ?a = "get_yval (Y ! lb)"
  have r: "Suc lb \<le> ?k" "?k \<le> ub" "lb < ub" "?k < ub" "lb < ?k" "Suc 0 < ?B" "0 < ?B" using p B(1) by simp_all
  obtain M1 where M1: "steps [set_cand 0 lb ?a 0 0, count_goal 0 (get_goal (Y ! lb))] M = (Inr (), M1)" "m_len ?B M1"
    by (rule new_yidx [OF B(2) r(7)]) blast
  have "\<exists>M2. acc_loop C Y ub (Suc lb) ?a (Suc 0) 1 (ub - lb - 1) M1 =
      acc_loop C Y ub ?k ?a (Suc 0) (1 + (?k - Suc lb)) (ub - lb - 1 - (?k - Suc lb)) M2 \<and>
    m_len ?B M2 \<and> m_yidx M2 = (if Suc lb < ?k then (m_yidx M1)[0 := ?k - 1] else m_yidx M1)"
    by (rule acc_loop_skip [OF M1(2) r(7,1,2) Y(1,2)]) (use p Y r in auto)
  then obtain M2 where M2: "acc_loop C Y ub (Suc lb) ?a (Suc 0) 1 (ub - lb - 1) M1 =
      acc_loop C Y ub ?k ?a (Suc 0) (1 + (?k - Suc lb)) (ub - lb - 1 - (?k - Suc lb)) M2"
    "m_len ?B M2" "m_yidx M2 = (if Suc lb < ?k then (m_yidx M1)[0 := ?k - 1] else m_yidx M1)" by blast
  have x2: "m_yidx M2 ! 0 = ?k - 1" using M2(2,3) p r by (simp add: m_len_def)
  obtain M3 where M3: "steps [set_cand (Suc 0) ?k (get_yval (Y ! ?k)) (m_nT M2 ! 0) (m_nH M2 ! 0), count_goal (Suc 0) (get_goal (Y ! ?k))] M2 = (Inr (), M3)"
    "m_len ?B M3" "m_yidx M3 = (m_yidx M2)[Suc 0 := ?k]" by (rule new_yidx [OF M2(2) r(6)]) blast
  have k: "get_yval (Y ! ?k) = b" "1 + (?k - Suc lb) = min_partition_size C" "ub - lb - 1 - (?k - Suc lb) = ub - ?k"
    using Y(4) p r by simp_all
  have "acc_loop C Y ub ?k ?a (Suc 0) (min_partition_size C) (ub - ?k) M2 =
      acc_loop C Y ub (Suc ?k) (get_yval (Y ! ?k)) (Suc (Suc 0)) (u32 (min_partition_size C + 1)) (u32_sub (ub - ?k) 1) M3"
    by (rule acc_loop_new [OF r(4) Y(1) _ _ _ _ M3(1)]) (use k p Y(3) B(1) in auto)
  also have "\<dots> = acc_loop C Y ub (Suc ?k) b (Suc (Suc 0)) (min_partition_size C + 1) (ub - ?k - 1) M3"
  proof -
    have "u32 (min_partition_size C + 1) = min_partition_size C + 1" "u32_sub (ub - ?k) 1 = ub - ?k - 1" "1 \<le> ub - ?k"
      using p Y(2) r by (simp_all add: u32_sub_def)
    then show ?thesis by (simp only: k(1))
  qed
  finally have E: "acc_loop C Y ub ?k ?a (Suc 0) (min_partition_size C) (ub - ?k) M2 =
      acc_loop C Y ub (Suc ?k) b (Suc (Suc 0)) (min_partition_size C + 1) (ub - ?k - 1) M3" .
  have "\<exists>M4. acc_loop C Y ub (Suc ?k) b (Suc (Suc 0)) (min_partition_size C + 1) (ub - ?k - 1) M3 =
      acc_loop C Y ub ub b (Suc (Suc 0)) (min_partition_size C + 1 + (ub - Suc ?k)) (ub - ?k - 1 - (ub - Suc ?k)) M4 \<and>
    m_len ?B M4 \<and> m_yidx M4 = (if Suc ?k < ub then (m_yidx M3)[Suc 0 := ub - 1] else m_yidx M3)"
    by (rule acc_loop_skip [OF M3(2) r(6) _ _ Y(1,2)]) (use p Y r in auto)
  then obtain M4 where M4: "acc_loop C Y ub (Suc ?k) b (Suc (Suc 0)) (min_partition_size C + 1) (ub - ?k - 1) M3 =
      acc_loop C Y ub ub b (Suc (Suc 0)) (min_partition_size C + 1 + (ub - Suc ?k)) (ub - ?k - 1 - (ub - Suc ?k)) M4"
    "m_yidx M4 = (if Suc ?k < ub then (m_yidx M3)[Suc 0 := ub - 1] else m_yidx M3)" by blast
  have fin: "acc_loop C Y ub ub b (Suc (Suc 0)) c l M4 = (Inr (2, ub), M4)" for c l
    using B(1) by (simp add: acc_loop.simps [of C Y ub ub] ret_def numeral_2_eq_2)
  have F: "(ub \<le> lb) = False" "(length Y \<le> lb) = False" "u32_sub (u32_sub (u32_sub ub lb) (u32 (0 + 0))) 1 = ub - lb - 1" "u32 (u32 (0 + 0) + 1) = 1"
    using r Y by (simp_all add: u32_sub_def)
  have "accumulate C Y lb ub 0 0 nb nl M = acc_loop C Y ub (Suc lb) ?a 1 1 (ub - lb - 1) M1"
    by (simp only: accumulate_def F if_False Let_def seq_undef_if seq_Inr [where m = "steps [set_cand 0 lb ?a 0 0, count_goal 0 (get_goal (Y ! lb))]", OF M1(1)])
  also have "\<dots> = (Inr (2, ub), M4)" by (simp only: One_nat_def [symmetric] M2(1) [unfolded One_nat_def [symmetric]] k(2,3) E [unfolded One_nat_def [symmetric]]
      M4(1) [unfolded One_nat_def [symmetric]] fin [unfolded One_nat_def [symmetric]])
  finally show ?thesis using M4(2) M3(3) x2 by auto
qed

subsection \<open>The debugging mode\<close>

lemma seq_fails: "(\<And>x s. \<exists>e s'. f x s = (Inl e, s')) \<Longrightarrow> \<exists>e s'. seq m f s = (Inl e, s')"
  by (cases "m s") (auto simp: seq_def split: sum.splits)

lemma preproc_j_debug: "is_debug C \<Longrightarrow> \<exists>e s'. preproc_j C qs Xj n g s = (Inl e, s')"
  unfolding preproc_j_def
  by (intro seq_fails) (auto simp: Let_def stop_def undef_if_def split: list.splits intro!: seq_fails)

subsection \<open>Properties\<close>

text \<open>C13. The program as it is configured: for every source of random numbers it generates its data, grows a tree,
  and its check of the tree passes.  Every node of the tree stands for a set of instances, the root for all of
  them; the counts of a node are the tails and heads of its set, a child's set is a part of its parent's, and some
  feature separates the two sides of a split.\<close>

theorem dt_main_grows_tree:
  assumes "\<And>Xj g n. data_ok Xj n g \<Longrightarrow> sorts qsk sortfn (map (key_of Xj g) [0..<n])" "4 \<le> length junk"
  shows "\<exists>s X g I. dt_main procs rnd qsk qs junk = (Inr (), s) \<and> fst (make_data rnd 4 32768 0) = Inr (X, g) \<and>
    I 0 = {..<32768} \<and> tree_inv (read_config procs) g (below X 4) (g_tree s) (g_n_tree s) I"
  by (rule main_run [OF assms])

theorem dt_main_grows_tree_witness:
  "\<exists>s X g I. dt_main 8 (\<lambda>k. k * k) in_sort in_sort (replicate 4 blank_best) = (Inr (), s) \<and>
    fst (make_data (\<lambda>k. k * k) 4 32768 0) = Inr (X, g) \<and> I 0 = {..<32768} \<and>
    tree_inv (read_config 8) g (below X 4) (g_tree s) (g_n_tree s) I"
  by (rule dt_main_grows_tree) (simp_all add: in_sort_keys)

text \<open>C9. Any data set without NaNs, with goals 0 and 1, under any configuration that allows a tree (\<open>config_ok\<close>: without
  \<open>is_debug\<close>, the smallest partition no larger than the data): the program ends without an access out of bounds, its check
  passes, and the tree describes the data.  The library's \<open>qsort\<close> is taken to sort also where values are equal, although
  \<open>sortfn\<close> then answers 1 in both directions, which the C standard does not allow.\<close>

theorem build_tree_describes_data:
  assumes "config_ok C n" "0 < m" "m \<le> length X" "m \<le> length junk"
    "\<forall>j<m. data_ok (X ! j) n g \<and> sorts qsk sortfn (map (key_of (X ! j) g) [0..<n])"
  shows "\<exists>s I. build_tree C qsk qs X g m n (init_globals C junk) = (Inr (), s) \<and> I 0 = {..<n} \<and>
    tree_inv C g (below X m) (g_tree s) (g_n_tree s) I"
  by (rule build_run [OF assms])

theorem build_tree_describes_data_witness:
  "\<exists>s I. build_tree demo_cfg in_sort in_sort demo_X demo_g 2 4 (init_globals demo_cfg [blank_best, blank_best]) = (Inr (), s) \<and>
    I 0 = {..<4} \<and> tree_inv demo_cfg demo_g (below demo_X 2) (g_tree s) (g_n_tree s) I"
  by (rule build_tree_describes_data)
    (use demo_data in \<open>auto simp: config_ok_def demo_cfg_def read_config_def demo_X_def\<close>)

text \<open>C18. \<open>reorder\<close> and the copy after it partition a segment of a feature stably: the composite values that go
  to the left of the split come first, each side in its old order, and the inverse array follows.\<close>

theorem reorder_partitions:
  assumes "feat_ok n g f" "Suc lb < ub" "ub \<le> n" "n < 4294967295" "lb \<le> sy" "sy \<le> ub" "length to_s = n"
    "length (filter (\<lambda>w. to_s ! get_from w < sy) (elems (f_Y f) lb ub)) = sy - lb"
  shows "\<exists>f1 f2. reorder to_s lb ub sy lb sy f = (Inr (sy, ub), f1) \<and> copy_back lb ub f1 = (Inr (), f2) \<and> feat_ok n g f2 \<and>
    elems (f_Y f2) lb ub = filter (\<lambda>w. to_s ! get_from w < sy) (elems (f_Y f) lb ub) @
      filter (\<lambda>w. \<not> to_s ! get_from w < sy) (elems (f_Y f) lb ub) \<and>
    (\<forall>i<n. i < lb \<or> ub \<le> i \<longrightarrow> f_Y f2 ! i = f_Y f ! i)"
  by (rule reorder_copy [OF assms(1-7) refl assms(8)]) blast

theorem reorder_partitions_witness:
  "\<exists>f1 f2. reorder [0, 1, 2, 3] 0 4 2 0 2 (demo_feats ! 1) = (Inr (2, 4), f1) \<and> copy_back 0 4 f1 = (Inr (), f2) \<and>
    elems (f_Y f2) 0 4 = comps [(0, 0, 2), (1, 1, 4), (2, 1, 1), (3, 0, 3)]"
proof -
  let ?to = "[0, 1, 2, 3] :: nat list"
  have "length (filter (\<lambda>w. ?to ! get_from w < 2) (elems (f_Y (demo_feats ! 1)) 0 4)) = 2 - 0" by code_simp
  from reorder_partitions [OF _ _ _ _ _ _ _ this, of 4 demo_g]
  obtain f1 f2 where "reorder ?to 0 4 2 0 2 (demo_feats ! 1) = (Inr (2, 4), f1)" "copy_back 0 4 f1 = (Inr (), f2)"
    "elems (f_Y f2) 0 4 = filter (\<lambda>w. ?to ! get_from w < 2) (elems (f_Y (demo_feats ! 1)) 0 4) @
      filter (\<lambda>w. \<not> ?to ! get_from w < 2) (elems (f_Y (demo_feats ! 1)) 0 4)"
    using demo_feats_ok by (auto simp: demo_feats_def)
  moreover have "filter (\<lambda>w. ?to ! get_from w < 2) (elems (f_Y (demo_feats ! 1)) 0 4) @
      filter (\<lambda>w. \<not> ?to ! get_from w < 2) (elems (f_Y (demo_feats ! 1)) 0 4) = comps [(0, 0, 2), (1, 1, 4), (2, 1, 1), (3, 0, 3)]" by code_simp
  ultimately show ?thesis by auto
qed

text \<open>C26. The loop over the features in \<open>split\<close> may run in any order: whatever permutation of the features it
  goes through, the features end up the same, so that its iterations can run in parallel.\<close>

theorem features_any_order:
  assumes "\<forall>f\<in>set (g_feats s). feat_ok n g f \<and> seg_ok A lb ub f" "Suc lb < ub" "ub \<le> n" "n < 4294967295" "lb \<le> sy" "sy \<le> ub"
    "split_j < length (g_feats s)" "distinct js" "set js = {..<length (g_feats s)}"
  shows "for_each js (reorder_feature lb ub split_j sy) s =
    for_each [0..<length (g_feats s)] (reorder_feature lb ub split_j sy) s"
proof -
  have S: "set js \<subseteq> {..<length (g_feats s)}" "set [0..<length (g_feats s)] \<subseteq> {..<length (g_feats s)}"
    "set js = set [0..<length (g_feats s)]" by (simp_all only: assms(9) set_upt atLeast0LessThan order_refl)
  show ?thesis
    by (rule trans [OF reorder_all_run [OF assms(1-8) S(1)]],
      rule trans [OF _ reorder_all_run [OF assms(1-7) distinct_upt S(2), symmetric]], simp only: S(3))
qed

theorem features_any_order_witness:
  "for_each [1, 0] (reorder_feature 0 4 0 2) demo_state = for_each [0..<2] (reorder_feature 0 4 0 2) demo_state"
proof -
  have "g_feats demo_state = demo_feats" "length demo_feats = 2" by (simp_all add: demo_state_def demo_feats_def)
  moreover have "set [1, 0] = {..<2 :: nat}" by auto
  ultimately show ?thesis using features_any_order [of demo_state 4 demo_g "{..<4}" 0 4 2 0 "[1, 0]"] demo_feats_ok by simp
qed

text \<open>C21. \<open>preproc_j\<close> encodes a feature: the composite values are sorted, name every instance once with its goal,
  the inverse array finds them, and two codes compare as the floats of their instances do, if \<open>qsort\<close> has sorted them
  (equal values included).\<close>

theorem preproc_j_encodes:
  assumes "data_ok Xj n g" "sorts qs sortfn (map (key_of Xj g) [0..<n])" "\<not> is_debug C"
  shows "\<exists>Y to. preproc_j C qs Xj n g s = (Inr (Y, to), s) \<and> feat_ok n g \<lparr>f_Y = Y, f_tmpY = replicate n 0, f_to = to\<rparr> \<and>
    sorted (map get_yval Y) \<and> (\<forall>i<n. \<forall>k<n. get_yval (Y ! i) < get_yval (Y ! k) \<longleftrightarrow>
      fp_less (f4_val (Xj ! get_from (Y ! i))) (f4_val (Xj ! get_from (Y ! k))))"
proof (rule preproc_j_run [OF assms(1,2), of C s])
  fix Y to assume "preproc_j C qs Xj n g s = (if is_debug C then (Inl Undef, s) else (Inr (Y, to), s))"
    "feat_ok n g \<lparr>f_Y = Y, f_tmpY = replicate n 0, f_to = to\<rparr>" "sorted (map get_yval Y)"
    "\<forall>i<n. \<forall>k<n. get_yval (Y ! i) < get_yval (Y ! k) \<longleftrightarrow> fp_less (f4_val (Xj ! get_from (Y ! i))) (f4_val (Xj ! get_from (Y ! k)))"
  with assms(3) show ?thesis by (simp only: if_False) blast
qed

theorem preproc_j_encodes_witness:
  "\<exists>Y to. preproc_j demo_cfg in_sort (demo_X ! 1) 4 demo_g () = (Inr (Y, to), ()) \<and>
    feat_ok 4 demo_g \<lparr>f_Y = Y, f_tmpY = replicate 4 0, f_to = to\<rparr>"
  using preproc_j_encodes [of "demo_X ! 1" 4 demo_g in_sort demo_cfg "()"] demo_data by (auto simp: demo_cfg_def read_config_def)

text \<open>C27. \<open>search\<close> ends for every segment with instances of goal 0 (\<open>split\<close> calls it for no other), without \<open>is_debug\<close>, and when it finds a split, the split lies inside of the segment and the
  four numbers with it are the exact counts of tails and heads on its two sides.\<close>

theorem search_counts_exactly:
  assumes "lb < ub" "ub \<le> n" "n < 4294967295" "0 < metrics_buffer_size C" "\<not> is_debug C"
    "m = length (g_feats s)" "m \<le> length (g_best s)" "\<forall>f\<in>set (g_feats s). length (f_Y f) = n"
    "\<forall>f\<in>set (g_feats s). cnt (f_Y f) 0 lb ub = nT \<and> cnt (f_Y f) 1 lb ub = nH" "nT \<noteq> 0"
  shows "\<exists>r s'. search C lb ub nT nH m n s = (Inr r, s') \<and> g_feats s' = g_feats s \<and> g_tree s' = g_tree s \<and> g_n_tree s' = g_n_tree s \<and>
    (s_splittable r \<longrightarrow> s_feature r < m \<and> lb < s_yidx r \<and> s_yidx r < ub \<and>
      (let Y = f_Y (g_feats s ! s_feature r) in s_num4 r = \<lparr>n_T_L = cnt Y 0 lb (s_yidx r), n_H_L = cnt Y 1 lb (s_yidx r),
         n_T_R = cnt Y 0 (s_yidx r) ub, n_H_R = cnt Y 1 (s_yidx r) ub\<rparr>))"
  by (rule search_run [OF assms]) (auto simp: srch_ok_def)

theorem search_counts_exactly_witness:
  "\<exists>r s'. search demo_cfg 0 4 2 2 2 4 demo_state = (Inr r, s') \<and> (s_splittable r \<longrightarrow> 0 < s_yidx r \<and> s_yidx r < 4)"
proof -
  have "g_feats demo_state = demo_feats" "length demo_feats = 2" "length (g_best demo_state) = 2"
    by (simp_all add: demo_state_def demo_feats_def init_globals_def)
  moreover have "\<forall>f\<in>set demo_feats. length (f_Y f) = 4" "\<forall>f\<in>set demo_feats. cnt (f_Y f) 0 0 4 = 2 \<and> cnt (f_Y f) 1 0 4 = 2" by code_simp+
  ultimately show ?thesis
    using search_counts_exactly [of 0 4 4 demo_cfg 2 demo_state 2 2] by (auto simp: demo_cfg_def read_config_def)
qed

text \<open>The metric of a split in IEEE double arithmetic: minus one when the right side is empty or the node has
  no tails, and otherwise a finite number, whatever the rounding does.\<close>

theorem gini_bounded:
  assumes "a \<le> nT" "b \<le> nH" "nT + nH < 4294967296" "0 < a + b"
  shows "if nT = 0 \<or> a + b = nT + nH then gini nT nH a b = F8_minus_one else between (- (1 / 2)) 2 (gini nT nH a b)"
  by (rule gini_cases [OF assms])

theorem gini_bounded_witness: "between (- (1 / 2)) 2 (gini 3 4 1 2)"
  using gini_bounded [of 1 3 2 4] by simp

text \<open>With the debugging checks switched on no tree is ever built: the preparation of the first feature stops
  at the latest at its write past the end of \<open>alt_to\<close>.\<close>

theorem debug_builds_nothing:
  assumes "is_debug C" "0 < m"
  shows "\<exists>e s'. build_tree C qsk qs X g m n s = (Inl e, s')"
proof -
  let ?f = "\<lambda>j fs. seq (undef_if (length X \<le> j)) (\<lambda>_.
      seq (preproc_j C qsk (X ! j) n g) (\<lambda>(Y, to). ret (fs @ [\<lparr>f_Y = Y, f_tmpY = replicate n 0, f_to = to\<rparr>])))"
  have inner: "\<exists>e s'. seq (preproc_j C qsk Xj n g) h s = (Inl e, s')" for Xj s and h :: "_ \<Rightarrow> feature list dprog"
    using preproc_j_debug [OF assms(1), of qsk Xj n g s] by (auto simp: seq_def)
  have f: "\<exists>e s'. ?f j fs s = (Inl e, s')" for j fs and s :: dt_state by (rule seq_fails) (rule inner)
  have "[0..<m] = 0 # [1..<m]" using assms(2) by (simp add: upt_conv_Cons)
  then have "\<exists>e s'. for_fold [0..<m] [] ?f s = (Inl e, s')" using f [of 0 "[]" s] by (auto simp: seq_def)
  then obtain e s' where "for_fold [0..<m] [] ?f s = (Inl e, s')" by blast
  then have "preproc C qsk qs X m n g s = (Inl e, s')" by (simp add: preproc_def seq_def)
  then show ?thesis by (simp add: build_tree_def seq_def)
qed

theorem debug_builds_nothing_witness:
  "\<exists>e s'. build_tree (demo_cfg\<lparr>is_debug := True\<rparr>) in_sort in_sort demo_X demo_g 2 4 demo_state = (Inl e, s')"
  by (rule debug_builds_nothing) simp_all

text \<open>\<open>accumulate\<close> cuts runs of equal values: when the first value of a segment differs from all the others,
  which are equal, its first candidate ends after the smallest allowed number of elements, between two equal values.\<close>

theorem accumulate_cuts_run:
  assumes "2 \<le> metrics_buffer_size C" "m_len (metrics_buffer_size C) M" "2 \<le> min_partition_size C" "lb + 2 * min_partition_size C \<le> ub"
    "ub \<le> length Y" "ub < 4294967295" "get_yval (Y ! lb) \<noteq> b" "\<forall>i. lb < i \<and> i < ub \<longrightarrow> get_yval (Y ! i) = b"
  shows "\<exists>M'. accumulate C Y lb ub 0 0 nb nl M = (Inr (2, ub), M') \<and> m_yidx M' ! 0 = lb + min_partition_size C - 1 \<and>
    get_yval (Y ! (m_yidx M' ! 0)) = get_yval (Y ! Suc (m_yidx M' ! 0))"
proof -
  obtain M' where M': "accumulate C Y lb ub 0 0 nb nl M = (Inr (2, ub), M')" "m_yidx M' ! 0 = lb + min_partition_size C - 1"
    using cut_run [OF assms] by blast
  have "lb < m_yidx M' ! 0" "Suc (m_yidx M' ! 0) < ub" using M'(2) assms(3,4) by linarith+
  then show ?thesis using M' assms(8) by simp
qed

theorem accumulate_cuts_run_witness:
  "\<exists>M'. accumulate tie_cfg tie_Y 0 6 0 0 0 0 (clear_M 8 0) = (Inr (2, 6), M') \<and> m_yidx M' ! 0 = 1"
proof -
  have ys: "map get_yval tie_Y = [1, 2, 2, 2, 2, 2]" by code_simp
  have l: "length tie_Y = 6" by (simp add: tie_Y_def comps_def)
  have Y: "get_yval (tie_Y ! 0) \<noteq> 2" "\<forall>i. 0 < i \<and> i < 6 \<longrightarrow> get_yval (tie_Y ! i) = 2"
  proof -
    have nth: "get_yval (tie_Y ! i) = [1, 2, 2, 2, 2, 2] ! i" if "i < 6" for i using that l ys by (metis nth_map)
    show "get_yval (tie_Y ! 0) \<noteq> 2" using nth [of 0] by simp
    show "\<forall>i. 0 < i \<and> i < 6 \<longrightarrow> get_yval (tie_Y ! i) = 2"
    proof (intro allI impI)
      fix i :: nat assume i: "0 < i \<and> i < 6"
      then consider "i = 1" | "i = 2" | "i = 3" | "i = 4" | "i = 5" by linarith
      then show "get_yval (tie_Y ! i) = 2" using nth [of i] by cases simp_all
    qed
  qed
  show ?thesis
    using accumulate_cuts_run [of tie_cfg "clear_M 8 0" 0 6 tie_Y 2 0 0] Y l
    by (auto simp: tie_cfg_def read_config_def m_len_def clear_M_def)
qed

end
