(* ===== verification/Aq_Data.thy ===== *)
theory Aq_Data
  imports Dt_Float
begin

text \<open>
  Approximate quantiles in one pass (the Munro-Paterson algorithm): \<open>OPERATORS/APPROX/QUANTILE\<close>.

  The C sources are the instance for 32-bit integers in \<open>test1\<close> of the templates in \<open>lua\<close>, with
  \<open>extra/determine_b_k.c\<close>.  An array of integers is a list of words.  Buffers, weights, the number of empty
  buffers and the outputs are the state.  A \<open>long long\<close> that counts elements is a natural number or an integer;
  the test against \<open>MAX_SZ\<close> keeps them far below \<open>2 ^ 63\<close>.  The parallel loops touch different packets and are run
  in order.  \<open>qsort_asc_I4\<close> is the one of \<open>test1\<close> that \<open>run_test.sh\<close> links: it hands its first two arguments to the
  library's \<open>qsort\<close> (the two further ones of the call are dropped).  Memory is not exhausted.
\<close>

subsection \<open>Doubles and integers\<close>

text \<open>The conversion to \<open>long long\<close> and \<open>ceil\<close> before it.  What does not fit gives the least number, as on x86.\<close>

fun fp_trunc :: "fp \<Rightarrow> int" where
  "fp_trunc (Fin n m e) = (let a = (if 0 \<le> e then int m * 2 ^ nat e else int m div 2 ^ nat (- e)) in if n then - a else a)"
| "fp_trunc _ = - (2 ^ 63)"

fun fp_ceil :: "fp \<Rightarrow> int" where
  "fp_ceil (Fin n m e) = (let s = (if n then - int m else int m) in if 0 \<le> e then s * 2 ^ nat e else - (- s div 2 ^ nat (- e)))"
| "fp_ceil _ = - (2 ^ 63)"

subsection \<open>The number and the size of the buffers (\<open>determine_b_k.c\<close>)\<close>

text \<open>\<open>pow(2, i)\<close> is exact.  The loop: \<open>b\<close> is at most 62, as \<open>eps * siz\<close> is below \<open>2 ^ 64\<close>.\<close>

definition pow2 :: "nat \<Rightarrow> fp" where
  "pow2 i = F8_of_nat (2 ^ i)"

primrec bk_loop :: "nat \<Rightarrow> fp \<Rightarrow> nat \<Rightarrow> nat option" where
  "bk_loop 0 bound b = None"
| "bk_loop (Suc fuel) bound b =
    (if fp_less (fp_add (fp_mul (F8_of_nat (b - 2)) (pow2 (b - 2))) (F8_of_nat 1)) bound then bk_loop fuel bound (b + 1) else Some b)"

definition bk_size :: "nat \<Rightarrow> nat \<Rightarrow> int" where
  "bk_size siz b =
    (if siz mod 2 ^ (b - 1) = 0 then fp_trunc (fp_div (F8_of_nat siz) (pow2 (b - 1)))
     else fp_trunc (fp_add (fp_div (F8_of_nat siz) (pow2 (b - 1))) (F8_of_nat 1)))"

text \<open>\<open>extra/determine_b_k.c\<close>\<close>

definition determine_b_k :: "fp \<Rightarrow> nat \<Rightarrow> ('s, nat \<times> int) prog" where
  "determine_b_k eps siz =
    (case bk_loop 64 (fp_mul eps (F8_of_nat siz)) 2 of None \<Rightarrow> stop Diverges
     | Some b \<Rightarrow> let b = b - 1; k = bk_size siz b; k = (if k < 10000 then 10000 else k) in ret (b, k))"

text \<open>\<open>src/determine_b_k.c\<close>, the version of the library.\<close>

definition determine_b_k_lib :: "fp \<Rightarrow> nat \<Rightarrow> ('s, nat \<times> nat) prog" where
  "determine_b_k_lib eps siz =
    (case bk_loop 64 (fp_mul eps (F8_of_nat siz)) 2 of None \<Rightarrow> stop Diverges
     | Some b \<Rightarrow>
        let b = b - 1 in
        seq (bye_if (b \<le> 0) (- 1)) (\<lambda>_.
        let k = nat (bk_size siz b) in
        seq (bye_if (2 ^ 31 - 1 < k) (- 1)) (\<lambda>_.
        seq (bye_if (k \<le> 0) (- 1)) (\<lambda>_.
        let k = (if k < 16384 then 16384 else k) in
        ret (u32 b, u32 k)))))"

subsection \<open>Merging two buffers (\<open>Collapse.c\<close>)\<close>

text \<open>\<open>tempBuffer\<close> and \<open>tempWeight\<close>\<close>

fun merge_w :: "int \<Rightarrow> int \<Rightarrow> 32 word list \<Rightarrow> 32 word list \<Rightarrow> (32 word \<times> int) list" where
  "merge_w w1 w2 (x # xs) (y # ys) =
    (if sint x \<le> sint y then (x, w1) # merge_w w1 w2 xs (y # ys) else (y, w2) # merge_w w1 w2 (x # xs) ys)"
| "merge_w w1 w2 xs [] = map (\<lambda>x. (x, w1)) xs"
| "merge_w w1 w2 [] ys = map (\<lambda>y. (y, w2)) ys"

text \<open>\<open>while ( kk >= offSet+jj*outWeight ) { buf1[jj++] = tempBuffer[ii]; }\<close>\<close>

function pick_at :: "int \<Rightarrow> int \<Rightarrow> int \<Rightarrow> 32 word \<Rightarrow> nat \<Rightarrow> 32 word list \<Rightarrow> ('s, nat \<times> 32 word list) prog" where
  "pick_at off W kk v jj buf =
    (if off + int jj * W \<le> kk then if length buf \<le> jj then stop Undef else pick_at off W kk v (Suc jj) (buf[jj := v])
     else ret (jj, buf))"
  by pat_completeness auto

termination
  by (relation "measure (\<lambda>(off, W, kk, v, jj, buf). length buf - jj)") auto

declare pick_at.simps [simp del]

fun pick_all :: "int \<Rightarrow> int \<Rightarrow> int \<Rightarrow> nat \<Rightarrow> 32 word list \<Rightarrow> (32 word \<times> int) list \<Rightarrow> ('s, 32 word list) prog" where
  "pick_all off W kk jj buf [] = ret buf"
| "pick_all off W kk jj buf ((v, w) # ts) =
    seq (pick_at off W (kk + w) v jj buf) (\<lambda>(jj, buf). pick_all off W (kk + w) jj buf ts)"

record aq =
  a_buf :: "32 word list list"
  a_weight :: "int list"
  a_empty :: int
  a_y :: "32 word list"
  a_good :: int

type_synonym 'a aqp = "(aq, 'a) prog"

definition Collapse :: "nat \<Rightarrow> nat \<Rightarrow> nat \<Rightarrow> nat \<Rightarrow> unit aqp" where
  "Collapse bufidx1 bufidx2 b k =
    seq get_st (\<lambda>s.
    seq (undef_if (length (a_buf s) \<le> bufidx1 \<or> length (a_buf s) \<le> bufidx2)) (\<lambda>_.
    seq (bye_if (b \<le> bufidx1) (- 1)) (\<lambda>_.
    seq (bye_if (b \<le> bufidx2) (- 1)) (\<lambda>_.
    seq (undef_if (length (a_weight s) \<le> bufidx1 \<or> length (a_weight s) \<le> bufidx2)) (\<lambda>_.
    let buf1 = a_buf s ! bufidx1; buf2 = a_buf s ! bufidx2; w1 = a_weight s ! bufidx1; w2 = a_weight s ! bufidx2 in
    seq (bye_if (w1 \<le> 0 \<or> w2 \<le> 0) (- 1)) (\<lambda>_.
    seq (undef_if (length buf1 < k \<or> length buf2 < k)) (\<lambda>_.
    let temp = merge_w w1 w2 (take k buf1) (take k buf2); outWeight = w1 + w2 in
    seq (undef_if (2 ^ 31 \<le> outWeight)) (\<lambda>_.
    let offSet = outWeight div 2 in
    seq (pick_all offSet outWeight 0 0 buf1 temp) (\<lambda>buf1.
    put_st (s\<lparr>a_buf := (a_buf s)[bufidx1 := buf1], a_weight := (a_weight s)[bufidx1 := outWeight, bufidx2 := 0]\<rparr>))))))))))"

subsection \<open>A new packet (\<open>New.c\<close> and the body of the loop in \<open>approx_quantile.c\<close>)\<close>

definition New :: "32 word list \<Rightarrow> int \<Rightarrow> nat \<Rightarrow> nat \<Rightarrow> nat \<Rightarrow> unit aqp" where
  "New src initial_weight bufidx b k =
    seq get_st (\<lambda>s.
    seq (undef_if (length (a_buf s) \<le> bufidx)) (\<lambda>_.
    seq (bye_if (b \<le> bufidx) (- 1)) (\<lambda>_.
    seq (undef_if (length src < k \<or> length (a_buf s ! bufidx) < k \<or> length (a_weight s) \<le> bufidx)) (\<lambda>_.
    put_st (s\<lparr>a_buf := (a_buf s)[bufidx := take k src @ drop k (a_buf s ! bufidx)],
      a_weight := (a_weight s)[bufidx := initial_weight]\<rparr>)))))"

text \<open>\<open>if ( status == -1 ) { *ptr_estimate_is_good = -1; go_BYE(-1); }\<close>\<close>

definition or_bad :: "unit aqp \<Rightarrow> unit aqp" where
  "or_bad m s =
    (case m s of
       (Inl (Status st), s') \<Rightarrow> if st = - 1 then (Inl (Status (- 1)), s'\<lparr>a_good := - 1\<rparr>) else (Inr (), s')
     | (r, s') \<Rightarrow> (r, s'))"

text \<open>Two buffers of the same positive weight, and an empty one.\<close>

definition find_pair :: "int list \<Rightarrow> nat \<Rightarrow> (nat \<times> nat) option" where
  "find_pair ws b = List.find (\<lambda>(ii, jj). ws ! ii = ws ! jj \<and> 0 < ws ! ii)
     (concat (map (\<lambda>ii. map (Pair ii) [ii + 1..<b]) [0..<b - 1]))"

definition find_free :: "int list \<Rightarrow> nat \<Rightarrow> nat option" where
  "find_free ws b = List.find (\<lambda>ii. ws ! ii = 0) [0..<b]"

text \<open>An index that was not found stays \<open>-1\<close> and \<open>buffer[-1]\<close> is read.\<close>

definition add_packet :: "nat \<Rightarrow> nat \<Rightarrow> 32 word list \<Rightarrow> unit aqp" where
  "add_packet b k p =
    seq get_st (\<lambda>s.
    seq (undef_if (length (a_weight s) < b)) (\<lambda>_.
    seq (if a_empty s = 0 then
           case find_pair (a_weight s) b of None \<Rightarrow> stop Undef
           | Some (bufidx1, bufidx2) \<Rightarrow>
               seq (or_bad (Collapse bufidx1 bufidx2 b k)) (\<lambda>_. upd_st (\<lambda>s. s\<lparr>a_empty := a_empty s + 1\<rparr>))
         else ret ()) (\<lambda>_.
    seq get_st (\<lambda>s.
    case find_free (a_weight s) b of None \<Rightarrow> stop Undef
    | Some bufidx1 \<Rightarrow>
        seq (upd_st (\<lambda>s. s\<lparr>a_empty := a_empty s - 1\<rparr>)) (\<lambda>_.
        or_bad (New p 1 bufidx1 b k))))))"

subsection \<open>Answering the queries (\<open>Output.c\<close>)\<close>

text \<open>The least value that is not processed and where it is: a buffer, \<open>b\<close> for the last packet, or nowhere.\<close>

definition least_unproc :: "32 word list list \<Rightarrow> int list \<Rightarrow> 32 word list option \<Rightarrow> nat \<Rightarrow> nat \<Rightarrow> nat list \<Rightarrow> nat \<Rightarrow> 32 word \<times> nat option" where
  "least_unproc bufs ws lastp b k locs lp =
    (let (v, loc) = foldl (\<lambda>(v, loc) ii.
            if 0 < ws ! ii \<and> locs ! ii < k \<and> sint (bufs ! ii ! (locs ! ii)) < sint v then (bufs ! ii ! (locs ! ii), Some ii) else (v, loc))
          (0x7FFFFFFF, None) [0..<b]
     in case lastp of None \<Rightarrow> (v, loc)
        | Some p \<Rightarrow> if lp < length p \<and> sint (p ! lp) < sint v then (p ! lp, Some b) else (v, loc))"

definition next_rank :: "nat \<Rightarrow> nat \<Rightarrow> nat \<Rightarrow> int" where
  "next_rank siz num_quantiles jj =
    fp_ceil (fp_div (fp_mul (F8_of_nat (jj + 1)) (F8_of_nat siz)) (F8_of_nat num_quantiles))"

function emit :: "nat \<Rightarrow> nat \<Rightarrow> int \<Rightarrow> 32 word \<Rightarrow> nat \<Rightarrow> nat aqp" where
  "emit siz q rank v jj =
    (if next_rank siz q jj \<le> rank \<and> jj < q then
       seq get_st (\<lambda>s.
       seq (undef_if (length (a_y s) \<le> jj)) (\<lambda>_.
       seq (put_st (s\<lparr>a_y := (a_y s)[jj := v]\<rparr>)) (\<lambda>_.
       emit siz q rank v (Suc jj))))
     else ret jj)"
  by pat_completeness auto

termination
  by (relation "measure (\<lambda>(siz, q, rank, v, jj). q - jj)") auto

declare emit.simps [simp del]

text \<open>Every round processes an element.\<close>

primrec out_loop :: "nat \<Rightarrow> 32 word list option \<Rightarrow> nat \<Rightarrow> nat \<Rightarrow> nat \<Rightarrow> nat \<Rightarrow> nat list \<Rightarrow> nat \<Rightarrow> int \<Rightarrow> nat \<Rightarrow> unit aqp" where
  "out_loop 0 lastp siz q b k locs lp rank jj = stop Diverges"
| "out_loop (Suc fuel) lastp siz q b k locs lp rank jj =
    seq get_st (\<lambda>s.
    case least_unproc (a_buf s) (a_weight s) lastp b k locs lp of
      (_, None) \<Rightarrow> ret ()
    | (v, Some l) \<Rightarrow>
        let (locs, lp, rank) = (if l < b then (locs[l := locs ! l + 1], lp, rank + a_weight s ! l) else (locs, lp + 1, rank + 1)) in
        seq (emit siz q rank v jj) (\<lambda>jj.
        out_loop fuel lastp siz q b k locs lp rank jj))"

text \<open>\<open>lastp\<close> is the last packet, if it is incomplete.\<close>

definition Output :: "32 word list option \<Rightarrow> nat \<Rightarrow> nat \<Rightarrow> nat \<Rightarrow> nat \<Rightarrow> unit aqp" where
  "Output lastp siz q b k =
    (let last_packet_siz = (case lastp of None \<Rightarrow> 0 | Some p \<Rightarrow> length p) in
     seq (bye_if (k < last_packet_siz) (- 1)) (\<lambda>_.
     seq get_st (\<lambda>s.
     seq (undef_if (length (a_weight s) < b \<or> length (a_buf s) < b \<or> list_ex (\<lambda>buf. length buf < k) (take b (a_buf s)))) (\<lambda>_.
     out_loop (Suc (b * k + last_packet_siz)) lastp siz q b k (replicate b 0) 0 0 0))))"

subsection \<open>The packets (\<open>approx_quantile.c\<close>)\<close>

text \<open>What a thread copies from \<open>x\<close>: \<open>used\<close> holds the packets, \<open>lastp\<close> the last one, if it is incomplete.\<close>

definition fill_packet :: "32 word list \<Rightarrow> nat \<Rightarrow> nat \<Rightarrow> nat \<Rightarrow> 32 word list list \<times> 32 word list option \<Rightarrow> 32 word list list \<times> 32 word list option" where
  "fill_packet x k cur tid ul =
    (case ul of (used, lastp) \<Rightarrow> let lb = cur + tid * k; ub = lb + k in
     if length x \<le> lb then (used, lastp)
     else if length x \<le> ub then
       if length x - lb \<noteq> k then (used, Some (drop lb x)) else (used[tid := take (length x - lb) (drop lb x)], lastp)
     else (used[tid := take k (drop lb x)], lastp))"

text \<open>With a selection: the selected elements one after the other.\<close>

function scan :: "32 word list \<Rightarrow> int list \<Rightarrow> nat \<Rightarrow> nat \<Rightarrow> nat \<Rightarrow> nat \<Rightarrow> 32 word list list \<Rightarrow> nat \<times> nat \<times> 32 word list list" where
  "scan x cfld k NT cur tid used =
    (if cur < length x \<and> tid < NT then
       if cfld ! cur = 0 then scan x cfld k NT (cur + 1) tid used
       else let used = used[tid := used ! tid @ [x ! cur]]; tid' = (if length (used ! tid) = k then tid + 1 else tid) in
         scan x cfld k NT (cur + 1) tid' used
     else (cur, tid, used))"
  by pat_completeness auto

termination
  by (relation "measure (\<lambda>(x, cfld, k, NT, cur, tid, used). length x - cur)") auto

declare scan.simps [simp del]

text \<open>The packets of a block: the result is the new \<open>current_loc_in_x\<close>, the packets and the last packet.  After the
  last element \<open>inputPacketsUsedSiz[tid]\<close> is read, also when \<open>tid\<close> is \<open>NUM_THREADS\<close>.\<close>

definition fill_block :: "32 word list \<Rightarrow> int list option \<Rightarrow> nat \<Rightarrow> nat \<Rightarrow> nat \<Rightarrow> nat \<times> 32 word list option \<Rightarrow> ('s, nat \<times> 32 word list list \<times> 32 word list option) prog" where
  "fill_block x cfld eff_siz k NT cl =
    (case cl of (cur, lastp) \<Rightarrow>
     if cfld = None \<or> eff_siz = length x then
       (let (used, lastp) = foldl (\<lambda>ul tid. fill_packet x k cur tid ul) (replicate NT [], lastp) [0..<NT];
            lastPacketUsedSiz = (case lastp of None \<Rightarrow> 0 | Some p \<Rightarrow> length p)
        in ret (cur + sum_list (map length used) + lastPacketUsedSiz, used, lastp))
     else
       (let (cur, tid, used) = scan x (the cfld) k NT cur 0 (replicate NT []) in
        if cur = length x then
          if NT \<le> tid then stop Undef
          else if length (used ! tid) \<noteq> 0 \<and> length (used ! tid) \<noteq> k then ret (cur, used[tid := []], Some (used ! tid))
          else ret (cur, used, lastp)
        else ret (cur, used, lastp)))"

text \<open>\<open>qsort_asc_I4.c\<close>: the comparison subtracts two ints.  \<open>qsort\<close> may compare any two elements, so that the sort is
  undefined when a difference does not fit an int; otherwise the result is the sorted list.\<close>

definition diff_fits :: "32 word list \<Rightarrow> bool" where
  "diff_fits p \<longleftrightarrow> list_all (\<lambda>a. list_all (\<lambda>b. - (2 ^ 31) \<le> sint a - sint b \<and> sint a - sint b < 2 ^ 31) p) p"

definition sort_packet :: "32 word list \<Rightarrow> ('s, 32 word list) prog" where
  "sort_packet p = seq (undef_if (\<not> diff_fits p)) (\<lambda>_. ret (sort_key sint p))"

primrec block_loop :: "nat \<Rightarrow> 32 word list \<Rightarrow> int list option \<Rightarrow> nat \<Rightarrow> nat \<Rightarrow> nat \<Rightarrow> nat \<Rightarrow> nat \<times> 32 word list option \<Rightarrow> 32 word list option aqp" where
  "block_loop 0 x cfld eff_siz b k NT cl = stop Diverges"
| "block_loop (Suc fuel) x cfld eff_siz b k NT cl =
    (if fst cl < length x then
       seq (fill_block x cfld eff_siz k NT cl) (\<lambda>(cur, used, lastp).
       seq (for_fold used [] (\<lambda>p acc. if length p \<noteq> k then ret (acc @ [p]) else seq (sort_packet p) (\<lambda>p. ret (acc @ [p])))) (\<lambda>used.
       seq (for_each used (\<lambda>p. if length p \<noteq> k then ret () else add_packet b k p)) (\<lambda>_.
       block_loop fuel x cfld eff_siz b k NT (cur, lastp))))
     else ret (snd cl))"

definition MAX_SZ :: nat where "MAX_SZ = 200 * 1048576"

text \<open>\<open>NUM_THREADS\<close> is halved until the memory suffices; one thread always does.\<close>

definition num_threads :: "nat \<Rightarrow> nat \<Rightarrow> nat option" where
  "num_threads b k = List.find (\<lambda>nt. (b + nt + 10) * k \<le> MAX_SZ) [128, 64, 32, 16, 8, 4, 2, 1]"

definition eff_size :: "32 word list \<Rightarrow> int list option \<Rightarrow> nat" where
  "eff_size x cfld = (case cfld of None \<Rightarrow> length x | Some c \<Rightarrow> length (filter (\<lambda>ii. c ! ii \<noteq> 0) [0..<length x]))"

definition approx_quantile :: "32 word list \<Rightarrow> int list option \<Rightarrow> int \<Rightarrow> fp \<Rightarrow> int \<Rightarrow> unit aqp" where
  "approx_quantile x cfld num_quantiles eps y_siz =
    seq (upd_st (\<lambda>s. s\<lparr>a_good := - 1\<rparr>)) (\<lambda>_.
    seq (bye_if (fp_less eps (F8_of_nat 0) \<or> fp_less (F8_of_nat 1) eps) (- 1)) (\<lambda>_.
    seq (bye_if (num_quantiles < 1) (- 1)) (\<lambda>_.
    seq (bye_if (length x \<le> 0) (- 1)) (\<lambda>_.
    seq (bye_if (y_siz < num_quantiles) (- 1)) (\<lambda>_.
    seq (undef_if (case cfld of None \<Rightarrow> False | Some c \<Rightarrow> length c < length x)) (\<lambda>_.
    let eff_siz = eff_size x cfld in
    seq (bye_if (eff_siz = 0) (- 1)) (\<lambda>_.
    seq (determine_b_k eps eff_siz) (\<lambda>(b, k).
    if b \<le> 0 \<or> k \<le> 0 then go_BYE (- 1)
    else if int MAX_SZ < int (b + 1 + 10) * k then upd_st (\<lambda>s. s\<lparr>a_good := - 2\<rparr>)
    else
      case num_threads b (nat k) of None \<Rightarrow> stop Diverges
      | Some NT \<Rightarrow>
          let k = nat k; q = nat num_quantiles in
          seq (upd_st (\<lambda>s. s\<lparr>a_good := 1, a_empty := int b, a_weight := replicate b 0, a_buf := replicate b (replicate k 0)\<rparr>)) (\<lambda>_.
          seq (block_loop (Suc (length x)) x cfld eff_siz b k NT (0, None)) (\<lambda>lastp.
          seq (case lastp of None \<Rightarrow> ret None | Some p \<Rightarrow> seq (sort_packet p) (\<lambda>p. ret (Some p))) (\<lambda>lastp.
          or_bad (Output lastp eff_siz q b k))))))))))))"

end
