(* ===== verification/Aq_Rank.thy ===== *)
theory Aq_Rank
  imports Aq_Data
begin

text \<open>
  Ranks of values in weighted lists, and what \<open>Collapse\<close> does to them.
\<close>

subsection \<open>Ranks\<close>

text \<open>How many values are at most \<open>x\<close>, without and with weights.\<close>

definition le_cnt :: "32 word list \<Rightarrow> int \<Rightarrow> nat" where
  "le_cnt vs x = length (filter (\<lambda>v. sint v \<le> x) vs)"

definition rank_w :: "(32 word \<times> int) list \<Rightarrow> int \<Rightarrow> int" where
  "rank_w ts x = sum_list (map (\<lambda>(v, w). if sint v \<le> x then w else 0) ts)"

definition total_w :: "(32 word \<times> int) list \<Rightarrow> int" where
  "total_w ts = sum_list (map snd ts)"

lemma le_cnt_simps [simp]: "le_cnt [] x = 0" "le_cnt (v # vs) x = (if sint v \<le> x then Suc (le_cnt vs x) else le_cnt vs x)"
  "le_cnt (us @ vs) x = le_cnt us x + le_cnt vs x"
  by (simp_all add: le_cnt_def)

lemma le_cnt_le: "le_cnt vs x \<le> length vs"
  by (simp add: le_cnt_def)

lemma le_cnt_mset: "mset us = mset vs \<Longrightarrow> le_cnt us x = le_cnt vs x"
  unfolding le_cnt_def by (metis mset_filter size_mset)

lemma le_cnt_all: "\<forall>v\<in>set vs. sint v \<le> x \<Longrightarrow> le_cnt vs x = length vs"
  by (simp add: le_cnt_def)

lemma le_cnt_none: "\<forall>v\<in>set vs. x < sint v \<Longrightarrow> le_cnt vs x = 0"
  by (auto simp: le_cnt_def filter_empty_conv)

lemma le_cnt_replicate [simp]: "le_cnt (replicate m v) x = (if sint v \<le> x then m else 0)"
  by (simp add: le_cnt_def)

lemma rank_w_simps [simp]: "rank_w [] x = 0" "rank_w ((v, w) # ts) x = (if sint v \<le> x then w else 0) + rank_w ts x"
  "rank_w (ts @ us) x = rank_w ts x + rank_w us x"
  by (simp_all add: rank_w_def)

lemma total_w_simps [simp]: "total_w [] = 0" "total_w ((v, w) # ts) = w + total_w ts" "total_w (ts @ us) = total_w ts + total_w us"
  by (simp_all add: total_w_def)

lemma rank_w_const: "rank_w (map (\<lambda>v. (v, w)) vs) x = w * int (le_cnt vs x)"
  by (induction vs) (simp_all add: algebra_simps)

lemma total_w_const: "total_w (map (\<lambda>v. (v, w)) vs) = w * int (length vs)"
  by (induction vs) (simp_all add: algebra_simps)

lemma total_w_nonneg: "\<forall>t\<in>set ts. 0 \<le> snd t \<Longrightarrow> 0 \<le> total_w ts"
  by (induction ts) auto

lemma rank_w_all: "\<forall>t\<in>set ts. sint (fst t) \<le> x \<Longrightarrow> rank_w ts x = total_w ts"
  by (induction ts) auto

lemma rank_w_none: "\<forall>t\<in>set ts. x < sint (fst t) \<Longrightarrow> rank_w ts x = 0"
  by (induction ts) auto

lemma rank_w_bounds: "\<forall>t\<in>set ts. 0 \<le> snd t \<Longrightarrow> 0 \<le> rank_w ts x \<and> rank_w ts x \<le> total_w ts"
  by (induction ts) auto

subsection \<open>Merging\<close>

definition up :: "32 word list \<Rightarrow> bool" where
  "up vs \<longleftrightarrow> sorted (map sint vs)"

lemma up_Nil [simp]: "up []" and up_Cons [simp]: "up (v # vs) \<longleftrightarrow> (\<forall>u\<in>set vs. sint v \<le> sint u) \<and> up vs"
  by (auto simp: up_def)

lemma up_append: "up (us @ vs) \<longleftrightarrow> up us \<and> up vs \<and> (\<forall>u\<in>set us. \<forall>v\<in>set vs. sint u \<le> sint v)"
  by (auto simp: up_def sorted_append)

lemma up_replicate [simp]: "up (replicate m v)"
  by (simp add: up_def)

lemma set_merge_w: "set (merge_w w1 w2 xs ys) = (\<lambda>x. (x, w1)) ` set xs \<union> (\<lambda>y. (y, w2)) ` set ys"
  by (induction w1 w2 xs ys rule: merge_w.induct) auto

lemma up_merge_w: "up xs \<Longrightarrow> up ys \<Longrightarrow> up (map fst (merge_w w1 w2 xs ys))"
  by (induction w1 w2 xs ys rule: merge_w.induct) (auto simp: set_merge_w comp_def)

lemma rank_merge_w: "rank_w (merge_w w1 w2 xs ys) x = w1 * int (le_cnt xs x) + w2 * int (le_cnt ys x)"
  by (induction w1 w2 xs ys rule: merge_w.induct) (simp_all add: rank_w_const algebra_simps)

lemma total_merge_w: "total_w (merge_w w1 w2 xs ys) = w1 * int (length xs) + w2 * int (length ys)"
  by (induction w1 w2 xs ys rule: merge_w.induct) (simp_all add: total_w_const algebra_simps)

subsection \<open>Picking\<close>

text \<open>The number of positions \<open>off, off + W, off + 2 W, \<dots>\<close> up to \<open>r\<close>.\<close>

definition picks :: "int \<Rightarrow> int \<Rightarrow> int \<Rightarrow> nat" where
  "picks off W r = (if r < off then 0 else nat ((r - off) div W) + 1)"

lemma le_div_int:
  assumes "0 < (W :: int)"
  shows "j \<le> a div W \<longleftrightarrow> j * W \<le> a"
proof
  assume "j \<le> a div W"
  then have "j * W \<le> a div W * W" using assms by (intro mult_right_mono) auto
  also have "a div W * W = a - a mod W" by (simp only: minus_mod_eq_div_mult)
  also have "\<dots> \<le> a" using assms by simp
  finally show "j * W \<le> a" .
next
  assume "j * W \<le> a"
  then have "j * W div W \<le> a div W" using assms by (rule zdiv_mono1)
  then show "j \<le> a div W" using assms by simp
qed

lemma picks_iff:
  assumes "0 < W"
  shows "j < picks off W r \<longleftrightarrow> off + int j * W \<le> r"
proof (cases "r < off")
  case True
  have "0 \<le> int j * W" using assms by simp
  then show ?thesis using True by (simp add: picks_def)
next
  case False
  then have d: "0 \<le> (r - off) div W" using assms by (simp add: pos_imp_zdiv_nonneg_iff)
  have "j < picks off W r \<longleftrightarrow> int j \<le> (r - off) div W" 
  proof -
    have "picks off W r = nat ((r - off) div W) + 1" using False by (simp add: picks_def)
    then show ?thesis using d by linarith
  qed
  also have "\<dots> \<longleftrightarrow> int j * W \<le> r - off" by (rule le_div_int [OF assms])
  also have "\<dots> \<longleftrightarrow> off + int j * W \<le> r" by linarith
  finally show ?thesis .
qed

lemma picks_mono:
  assumes "0 < W" "r \<le> r'"
  shows "picks off W r \<le> picks off W r'"
proof (rule ccontr)
  assume "\<not> picks off W r \<le> picks off W r'"
  then have "off + int (picks off W r') * W \<le> r" using picks_iff [OF assms(1), of "picks off W r'" off r] by simp
  then show False using picks_iff [OF assms(1), of "picks off W r'" off r'] assms(2) by simp
qed

lemma picks_0: "0 < off \<Longrightarrow> picks off W 0 = 0"
  by (simp add: picks_def)

lemma picks_full:
  assumes "0 < W" "0 < off" "off \<le> W"
  shows "picks off W (int k * W) = k"
proof (rule linorder_cases [of "picks off W (int k * W)" k])
  assume "picks off W (int k * W) < k"
  then obtain j where j: "j = picks off W (int k * W)" "Suc j \<le> k" by simp
  then have "int (Suc j) * W \<le> int k * W" using assms(1) by (intro mult_right_mono) auto
  then have "off + int j * W \<le> int k * W" using assms(3) by (simp add: algebra_simps)
  then show ?thesis using picks_iff [OF assms(1), of j off] j by blast
next
  assume "k < picks off W (int k * W)"
  then show ?thesis using picks_iff [OF assms(1), of k off] assms(2) by simp
qed simp

text \<open>A position stands for the \<open>W\<close> elements around it.\<close>

lemma picks_error:
  assumes "2 \<le> W" "0 \<le> r"
  shows "\<bar>W * int (picks (W div 2) W r) - r\<bar> \<le> W - W div 2"
proof (cases "r < W div 2")
  case True
  then show ?thesis using assms by (simp add: picks_def)
next
  case False
  then have d: "0 \<le> (r - W div 2) div W" using assms by (simp add: pos_imp_zdiv_nonneg_iff)
  define m where "m = (r - W div 2) mod W"
  have m: "0 \<le> m" "m < W" using assms by (simp_all add: m_def)
  have "W * ((r - W div 2) div W) = r - W div 2 - m" unfolding m_def by (simp add: minus_mod_eq_mult_div)
  then have "W * int (picks (W div 2) W r) = r - W div 2 - m + W" using False d by (simp add: picks_def distrib_left)
  then show ?thesis using m assms(1) by linarith
qed

lemma pick_at_run:
  assumes "0 < W" "jj \<le> picks off W kk" "picks off W kk \<le> length buf"
  shows "pick_at off W kk v jj buf s =
    (Inr (picks off W kk, take jj buf @ replicate (picks off W kk - jj) v @ drop (picks off W kk) buf), s)"
  using assms(2,3)
proof (induction "picks off W kk - jj" arbitrary: jj buf)
  case 0
  then have "jj = picks off W kk" by simp
  moreover from this have "\<not> off + int jj * W \<le> kk" using picks_iff [OF assms(1), of jj off kk] by simp
  ultimately show ?case by (subst pick_at.simps) (simp add: ret_def)
next
  case (Suc d)
  then have j: "jj < picks off W kk" "d = picks off W kk - Suc jj" by simp_all
  then have "off + int jj * W \<le> kk" using picks_iff [OF assms(1), of jj off kk] by simp
  moreover have "jj < length buf" using j Suc.prems by simp
  ultimately have "pick_at off W kk v jj buf s = pick_at off W kk v (Suc jj) (buf[jj := v]) s"
    by (simp add: pick_at.simps [of off W kk v jj])
  also have "\<dots> = (Inr (picks off W kk, take (Suc jj) (buf[jj := v]) @ replicate (picks off W kk - Suc jj) v @ drop (picks off W kk) (buf[jj := v])), s)"
    by (rule Suc.hyps(1) [OF j(2)]) (use j Suc.prems in simp_all)
  also have "take (Suc jj) (buf[jj := v]) = take jj buf @ [v]" using \<open>jj < length buf\<close> by (simp add: take_Suc_conv_app_nth)
  also have "drop (picks off W kk) (buf[jj := v]) = drop (picks off W kk) buf" using j by simp
  finally show ?case using j(1) by (simp add: replicate_Suc [symmetric] Suc_diff_Suc del: replicate_Suc)
qed

text \<open>Going through a sorted weighted list.  The picked values at most \<open>x\<close> are those of the positions up to the
  rank of \<open>x\<close>.\<close>

lemma pick_all_run:
  assumes "0 < W" "up (map fst (prev @ ts))" "\<forall>t\<in>set ts. 0 \<le> snd t" "picks off W (total_w (prev @ ts)) \<le> length buf"
    "set (take (picks off W (total_w prev)) buf) \<subseteq> fst ` set prev" "up (take (picks off W (total_w prev)) buf)"
    "\<forall>x. le_cnt (take (picks off W (total_w prev)) buf) x = picks off W (rank_w prev x)" "0 < off"
  shows "\<exists>buf'. pick_all off W (total_w prev) (picks off W (total_w prev)) buf ts s = (Inr buf', s) \<and> length buf' = length buf \<and>
    up (take (picks off W (total_w (prev @ ts))) buf') \<and> drop (picks off W (total_w (prev @ ts))) buf' = drop (picks off W (total_w (prev @ ts))) buf \<and>
    (\<forall>x. le_cnt (take (picks off W (total_w (prev @ ts))) buf') x = picks off W (rank_w (prev @ ts) x)) \<and>
    set (take (picks off W (total_w (prev @ ts))) buf') \<subseteq> fst ` set (prev @ ts)"
  using assms(2-7)
proof (induction ts arbitrary: prev buf)
  case Nil
  then show ?case by (simp add: ret_def)
next
  case (Cons t ts)
  obtain v w where t: "t = (v, w)" by force
  let ?j = "picks off W (total_w prev)" and ?j' = "picks off W (total_w prev + w)"
  define buf2 where "buf2 = take ?j buf @ replicate (?j' - ?j) v @ drop ?j' buf"
  have ws: "\<forall>t\<in>set ts. 0 \<le> snd t" using Cons.prems(2) by simp
  have w: "0 \<le> w" using Cons.prems(2) t by simp
  then have jj: "?j \<le> ?j'" by (intro picks_mono assms(1)) simp
  have "0 \<le> total_w ts" using Cons.prems(2) by (intro total_w_nonneg) simp
  then have "?j' \<le> picks off W (total_w (prev @ t # ts))" using t by (intro picks_mono assms(1)) simp
  then have l: "?j' \<le> length buf" using Cons.prems(3) by simp
  have P: "pick_at off W (total_w prev + w) v ?j buf s = (Inr (?j', buf2), s)" unfolding buf2_def by (rule pick_at_run [OF assms(1) jj l])
  have tk: "take ?j' buf2 = take ?j buf @ replicate (?j' - ?j) v" "length buf2 = length buf" "drop ?j' buf2 = drop ?j' buf" using jj l by (simp_all add: buf2_def)
  have tot: "total_w (prev @ [t]) = total_w prev + w" using t by simp
  have prev: "\<forall>u\<in>set prev. sint (fst u) \<le> sint v" using Cons.prems(1) t by (auto simp: up_append)
  have new: "set (take ?j' buf2) \<subseteq> fst ` set (prev @ [t])" using Cons.prems(4) t unfolding tk(1) by auto
  have up: "up (take ?j' buf2)" using Cons.prems(4,5) prev unfolding tk(1) by (auto simp: up_append)
  have cnt: "le_cnt (take ?j' buf2) x = picks off W (rank_w (prev @ [t]) x)" for x
  proof (cases "sint v \<le> x")
    case True
    then have "\<forall>u\<in>set prev. sint (fst u) \<le> x" using prev by fastforce
    then have "rank_w (prev @ [t]) x = total_w prev + w" using t True by (simp add: rank_w_all)
    moreover have "\<forall>u\<in>set (take ?j' buf2). sint u \<le> x" using new t True \<open>\<forall>u\<in>set prev. sint (fst u) \<le> x\<close> by auto
    then have "le_cnt (take ?j' buf2) x = length (take ?j' buf2)" by (rule le_cnt_all)
    ultimately show ?thesis using l tk(2) by simp
  next
    case False
    then show ?thesis using Cons.prems(6) t unfolding tk(1) by simp
  qed
  have "\<exists>buf'. pick_all off W (total_w (prev @ [t])) (picks off W (total_w (prev @ [t]))) buf2 ts s = (Inr buf', s) \<and> length buf' = length buf2 \<and>
    up (take (picks off W (total_w ((prev @ [t]) @ ts))) buf') \<and>
    drop (picks off W (total_w ((prev @ [t]) @ ts))) buf' = drop (picks off W (total_w ((prev @ [t]) @ ts))) buf2 \<and>
    (\<forall>x. le_cnt (take (picks off W (total_w ((prev @ [t]) @ ts))) buf') x = picks off W (rank_w ((prev @ [t]) @ ts) x)) \<and>
    set (take (picks off W (total_w ((prev @ [t]) @ ts))) buf') \<subseteq> fst ` set ((prev @ [t]) @ ts)"
    by (rule Cons.IH) (use Cons.prems(1,3) ws new up cnt tk(2) tot in \<open>simp_all only: append_assoc append_Cons append_Nil list.set_intros set_simps ball_simps insert_iff simp_thms\<close>)
  moreover have "drop (picks off W (total_w ((prev @ [t]) @ ts))) buf2 = drop (picks off W (total_w (prev @ t # ts))) buf"
  proof -
    have "picks off W (total_w ((prev @ [t]) @ ts)) = picks off W (total_w (prev @ t # ts))" by simp
    moreover have "drop m buf2 = drop (m - ?j') (drop ?j' buf2)" if "?j' \<le> m" for m using that by (simp only: drop_drop le_add_diff_inverse2)
    ultimately show ?thesis using \<open>?j' \<le> picks off W (total_w (prev @ t # ts))\<close> tk(3) by (simp only: drop_drop le_add_diff_inverse2)
  qed
  moreover have "pick_all off W (total_w prev) ?j buf (t # ts) s = pick_all off W (total_w (prev @ [t])) (picks off W (total_w (prev @ [t]))) buf2 ts s"
    by (simp only: t pick_all.simps seq_Inr [where m = "pick_at off W (total_w prev + w) v ?j buf", OF P] prod.case tot [unfolded t])
  ultimately show ?case using tk(2) by (simp only: append_assoc append_Cons append_Nil)
qed

text \<open>Collapsing: the new buffer is sorted, and ranks change by half of the weight at most.\<close>

lemma pick_merge:
  assumes "up xs" "up ys" "length xs = k" "length ys = k" "0 < w1" "0 < w2" "length buf = k"
  obtains buf' where "pick_all ((w1 + w2) div 2) (w1 + w2) 0 0 buf (merge_w w1 w2 xs ys) s = (Inr buf', s)" "length buf' = k" "up buf'"
    "\<forall>x. le_cnt buf' x = picks ((w1 + w2) div 2) (w1 + w2) (w1 * int (le_cnt xs x) + w2 * int (le_cnt ys x))" "set buf' \<subseteq> set xs \<union> set ys"
proof -
  let ?W = "w1 + w2" and ?off = "(w1 + w2) div 2" and ?ts = "merge_w w1 w2 xs ys"
  have W: "0 < ?W" "0 < ?off" "?off \<le> ?W" using assms(5,6) by simp_all
  have tot: "total_w ?ts = int k * ?W" using assms(3,4) by (simp add: total_merge_w algebra_simps)
  have full: "picks ?off ?W (total_w ?ts) = k" unfolding tot by (rule picks_full [OF W])
  have "\<exists>buf'. pick_all ?off ?W (total_w []) (picks ?off ?W (total_w [])) buf ?ts s = (Inr buf', s) \<and> length buf' = length buf \<and>
    up (take (picks ?off ?W (total_w ([] @ ?ts))) buf') \<and> drop (picks ?off ?W (total_w ([] @ ?ts))) buf' = drop (picks ?off ?W (total_w ([] @ ?ts))) buf \<and>
    (\<forall>x. le_cnt (take (picks ?off ?W (total_w ([] @ ?ts))) buf') x = picks ?off ?W (rank_w ([] @ ?ts) x)) \<and>
    set (take (picks ?off ?W (total_w ([] @ ?ts))) buf') \<subseteq> fst ` set ([] @ ?ts)"
    by (rule pick_all_run) (use W assms full picks_0 [OF W(2), of ?W] in \<open>auto simp: up_merge_w set_merge_w\<close>)
  moreover have "fst ` set ([] @ ?ts) = set xs \<union> set ys" by (simp add: set_merge_w image_Un image_image)
  ultimately show ?thesis using that full assms(7) picks_0 [OF W(2), of ?W] by (auto simp: rank_merge_w simp del: append_Nil)
qed

lemma Collapse_run:
  assumes b: "i < b" "j < b" "i \<noteq> j" "length (a_buf s) = b" "length (a_weight s) = b"
    and k: "length (a_buf s ! i) = k" "length (a_buf s ! j) = k" "up (a_buf s ! i)" "up (a_buf s ! j)"
    and w: "0 < a_weight s ! i" "0 < a_weight s ! j" "a_weight s ! i + a_weight s ! j < 2 ^ 31"
  obtains buf' where "Collapse i j b k s = (Inr (), s\<lparr>a_buf := (a_buf s)[i := buf'],
      a_weight := (a_weight s)[i := a_weight s ! i + a_weight s ! j, j := 0]\<rparr>)" "length buf' = k" "up buf'"
    "\<forall>x. \<bar>(a_weight s ! i + a_weight s ! j) * int (le_cnt buf' x) -
        (a_weight s ! i * int (le_cnt (a_buf s ! i) x) + a_weight s ! j * int (le_cnt (a_buf s ! j) x))\<bar> \<le>
      a_weight s ! i + a_weight s ! j - (a_weight s ! i + a_weight s ! j) div 2" "set buf' \<subseteq> set (a_buf s ! i) \<union> set (a_buf s ! j)"
proof -
  let ?w1 = "a_weight s ! i" and ?w2 = "a_weight s ! j" and ?b1 = "a_buf s ! i" and ?b2 = "a_buf s ! j"
  obtain buf' where P: "pick_all ((?w1 + ?w2) div 2) (?w1 + ?w2) 0 0 ?b1 (merge_w ?w1 ?w2 ?b1 ?b2) s = (Inr buf', s)" "length buf' = k" "up buf'"
    "\<forall>x. le_cnt buf' x = picks ((?w1 + ?w2) div 2) (?w1 + ?w2) (?w1 * int (le_cnt ?b1 x) + ?w2 * int (le_cnt ?b2 x))" "set buf' \<subseteq> set ?b1 \<union> set ?b2"
    by (rule pick_merge [OF k(3,4,1,2) w(1,2) k(1), of s]) blast
  have F: "(length (a_buf s) \<le> i \<or> length (a_buf s) \<le> j) = False" "(b \<le> i) = False" "(b \<le> j) = False"
    "(length (a_weight s) \<le> i \<or> length (a_weight s) \<le> j) = False" "(?w1 \<le> 0 \<or> ?w2 \<le> 0) = False" "(length ?b1 < k \<or> length ?b2 < k) = False"
    "(2 ^ 31 \<le> ?w1 + ?w2) = False" "take k ?b1 = ?b1" "take k ?b2 = ?b2" using b k w by simp_all
  have "Collapse i j b k s = (Inr (), s\<lparr>a_buf := (a_buf s)[i := buf'], a_weight := (a_weight s)[i := ?w1 + ?w2, j := 0]\<rparr>)"
    by (simp only: Collapse_def seq_get_st seq_undef_if seq_bye_if F if_False Let_def
      seq_Inr [where m = "pick_all ((?w1 + ?w2) div 2) (?w1 + ?w2) 0 0 ?b1 (merge_w ?w1 ?w2 ?b1 ?b2)", OF P(1)] put_st_def)
  moreover have "\<bar>(?w1 + ?w2) * int (le_cnt buf' x) - (?w1 * int (le_cnt ?b1 x) + ?w2 * int (le_cnt ?b2 x))\<bar> \<le> ?w1 + ?w2 - (?w1 + ?w2) div 2" for x
    unfolding P(4) [rule_format] by (rule picks_error) (use w in auto)
  ultimately show ?thesis using P(2,3,5) that by blast
qed

end
