(* ===== verification/Aq_Add.thy ===== *)
theory Aq_Add
  imports Aq_Rank
begin

text \<open>
  The buffers while packets come in: their weights are powers of two, count the packets, and bound the error
  of every rank.
\<close>

subsection \<open>Sums over the buffers\<close>

lemma sum_change:
  assumes "j < (b :: nat)" "\<And>i. i < b \<Longrightarrow> i \<noteq> j \<Longrightarrow> g i = f i"
  shows "(\<Sum>i<b. g i :: int) = (\<Sum>i<b. f i) - f j + g j"
proof -
  have "(\<Sum>i<b. g i) = g j + (\<Sum>i\<in>{..<b} - {j}. g i)" by (rule sum.remove) (use assms(1) in auto)
  moreover have "(\<Sum>i<b. f i) = f j + (\<Sum>i\<in>{..<b} - {j}. f i)" by (rule sum.remove) (use assms(1) in auto)
  moreover have "(\<Sum>i\<in>{..<b} - {j}. g i) = (\<Sum>i\<in>{..<b} - {j}. f i)" by (rule sum.cong) (use assms(2) in auto)
  ultimately show ?thesis by simp
qed

lemma sum_change2:
  assumes "i < (b :: nat)" "j < b" "i \<noteq> j" "\<And>m. m < b \<Longrightarrow> m \<noteq> i \<Longrightarrow> m \<noteq> j \<Longrightarrow> g m = f m"
  shows "(\<Sum>m<b. g m :: int) = (\<Sum>m<b. f m) - f i - f j + g i + g j"
proof -
  let ?h = "\<lambda>m. if m = i then g i else f m"
  have "(\<Sum>m<b. ?h m) = (\<Sum>m<b. f m) - f i + ?h i" by (rule sum_change) (use assms in auto)
  moreover have "(\<Sum>m<b. g m) = (\<Sum>m<b. ?h m) - ?h j + g j" by (rule sum_change) (use assms in auto)
  ultimately show ?thesis using assms(3) by simp
qed

lemma abs_step: "2 * \<bar>A - X\<bar> \<le> E \<Longrightarrow> \<bar>B - C\<bar> \<le> w \<Longrightarrow> 2 * \<bar>A - C + B - X\<bar> \<le> E + 2 * (w :: int)"
  by presburger

lemma abs_half: "P = X + X \<Longrightarrow> \<bar>P - (K + K)\<bar> \<le> D \<Longrightarrow> D = w \<Longrightarrow> 2 * (K - X) \<le> (w :: int)"
  by presburger

text \<open>Different powers of two.\<close>

lemma sum_powers: "finite S \<Longrightarrow> (2 :: int) ^ card S \<le> 1 + (\<Sum>l\<in>S. 2 ^ l)"
proof (induction S rule: finite_linorder_max_induct)
  case (insert m S)
  have "S \<subseteq> {..<m}" using insert.hyps(2) by auto
  then have "card S \<le> m" using card_mono [of "{..<m}" S] by simp
  then have "(2 :: int) ^ card S \<le> 2 ^ m" by (rule power_increasing) simp
  have "m \<notin> S" using insert.hyps(2) by auto
  then have "card (insert m S) = Suc (card S)" "(\<Sum>l\<in>insert m S. (2 :: int) ^ l) = 2 ^ m + (\<Sum>l\<in>S. 2 ^ l)" using insert.hyps(1) by simp_all
  moreover have "(2 :: int) ^ card S \<le> 2 ^ m" by fact
  ultimately show ?case using insert.IH by (simp only: power_Suc)
qed simp

lemma sum_powers_inj:
  assumes "inj_on L {..<b}"
  shows "(2 :: int) ^ b - 1 \<le> (\<Sum>i<b. 2 ^ L i)"
proof -
  have "(\<Sum>i<b. (2 :: int) ^ L i) = (\<Sum>l\<in>L ` {..<b}. 2 ^ l)" by (simp add: sum.reindex [OF assms])
  moreover have "card (L ` {..<b}) = b" using assms by (simp add: card_image)
  ultimately show ?thesis using sum_powers [of "L ` {..<b}"] by simp
qed

subsection \<open>The invariant\<close>

definition weight_sum :: "nat \<Rightarrow> aq \<Rightarrow> int" where
  "weight_sum b s = (\<Sum>i<b. a_weight s ! i)"

text \<open>The rank of \<open>x\<close> in the buffers.\<close>

definition buf_rank :: "nat \<Rightarrow> aq \<Rightarrow> int \<Rightarrow> int" where
  "buf_rank b s x = (\<Sum>i<b. a_weight s ! i * int (le_cnt (a_buf s ! i) x))"

definition aq_core :: "nat \<Rightarrow> nat \<Rightarrow> 32 word list \<Rightarrow> (nat \<Rightarrow> nat) \<Rightarrow> aq \<Rightarrow> bool" where
  "aq_core b k xs L s \<longleftrightarrow> length (a_buf s) = b \<and> length (a_weight s) = b \<and>
     (\<forall>i<b. length (a_buf s ! i) = k \<and> (a_weight s ! i = 0 \<or> a_weight s ! i = 2 ^ L i \<and> up (a_buf s ! i))) \<and>
     a_empty s = int (card {i \<in> {..<b}. a_weight s ! i = 0}) \<and>
     int (length xs) = weight_sum b s * int k \<and>
     (\<forall>x. 2 * \<bar>buf_rank b s x - int (le_cnt xs x)\<bar> \<le> (\<Sum>i<b. a_weight s ! i * int (L i))) \<and>
     (\<forall>i<b. a_weight s ! i \<noteq> 0 \<longrightarrow> set (a_buf s ! i) \<subseteq> set xs)"

definition aq_inv :: "nat \<Rightarrow> nat \<Rightarrow> 32 word list \<Rightarrow> (nat \<Rightarrow> nat) \<Rightarrow> aq \<Rightarrow> bool" where
  "aq_inv b k xs L s \<longleftrightarrow> aq_core b k xs L s \<and> (a_empty s = 0 \<or> (\<forall>i<b. a_weight s ! i \<le> 1))"

lemma core_weight: "aq_core b k xs L s \<Longrightarrow> i < b \<Longrightarrow> 0 \<le> a_weight s ! i"
  by (auto simp: aq_core_def dest!: spec [of _ i])

lemma core_full: "aq_core b k xs L s \<Longrightarrow> \<forall>v\<in>set xs. sint v \<le> x \<Longrightarrow> i < b \<Longrightarrow> a_weight s ! i \<noteq> 0 \<Longrightarrow> le_cnt (a_buf s ! i) x = k"
proof -
  assume core: "aq_core b k xs L s" and x: "\<forall>v\<in>set xs. sint v \<le> x" and i: "i < b" "a_weight s ! i \<noteq> 0"
  have "set (a_buf s ! i) \<subseteq> set xs" "length (a_buf s ! i) = k" using core i by (simp_all add: aq_core_def)
  then show ?thesis using x le_cnt_all [of "a_buf s ! i" x] by auto
qed

lemma core_none_empty:
  assumes "aq_core b k xs L s" "a_empty s = 0" "i < b"
  shows "a_weight s ! i = 2 ^ L i \<and> up (a_buf s ! i)"
proof -
  have "card {i \<in> {..<b}. a_weight s ! i = 0} = 0" using assms(1,2) by (simp add: aq_core_def)
  then have "{i \<in> {..<b}. a_weight s ! i = 0} = {}" by (subst (asm) card_0_eq) auto
  then show ?thesis using assms(1,3) by (auto simp: aq_core_def)
qed

lemma core_pair_weight:
  assumes "aq_core b k xs L s" "i < b" "j < b" "i \<noteq> j"
  shows "a_weight s ! i + a_weight s ! j \<le> weight_sum b s"
proof -
  have "(\<Sum>m\<in>{i, j}. a_weight s ! m) \<le> (\<Sum>m<b. a_weight s ! m)"
    by (rule sum_mono2) (use assms core_weight in auto)
  then show ?thesis using assms(4) by (simp add: weight_sum_def)
qed

subsection \<open>A packet comes in\<close>

lemma findD: "List.find P xs = Some x \<Longrightarrow> P x \<and> x \<in> set xs"
  by (induction xs) (auto split: if_splits)

lemma find_pairD:
  assumes "find_pair ws b = Some (i, j)"
  shows "i < j" "j < b" "ws ! i = ws ! j" "0 < ws ! i"
proof -
  let ?ps = "concat (map (\<lambda>ii. map (Pair ii) [ii + 1..<b]) [0..<b - 1])"
  have "ws ! i = ws ! j \<and> 0 < ws ! i" "(i, j) \<in> set ?ps" using findD [OF assms [unfolded find_pair_def]] by simp_all
  then show "i < j" "j < b" "ws ! i = ws ! j" "0 < ws ! i" by auto
qed

lemma find_pair_found:
  assumes "aq_core b k xs L s" "a_empty s = 0" "weight_sum b s < 2 ^ b - 1"
  obtains i j where "find_pair (a_weight s) b = Some (i, j)"
proof (cases "find_pair (a_weight s) b")
  case None
  then have no: "\<not> (a_weight s ! i = a_weight s ! j \<and> 0 < a_weight s ! i)" if "i < j" "j < b" for i j
    using that unfolding find_pair_def find_None_iff by fastforce
  have w: "a_weight s ! i = 2 ^ L i" if "i < b" for i using core_none_empty [OF assms(1,2) that] by simp
  have "L i \<noteq> L j" if "i < j" "j < b" for i j using no [OF that] w [of i] w [of j] that by auto
  then have "inj_on L {..<b}" unfolding inj_on_def by (metis lessThan_iff linorder_neqE_nat)
  moreover have "weight_sum b s = (\<Sum>i<b. 2 ^ L i)" unfolding weight_sum_def by (rule sum.cong) (use w in auto)
  ultimately show thesis using sum_powers_inj [of L b] assms(3) by simp
qed (use that in auto)

lemma Collapse_core:
  assumes core: "aq_core b k xs L s" and e: "a_empty s = 0" and P: "find_pair (a_weight s) b = Some (i, j)" and lt: "weight_sum b s < 2 ^ 31"
  obtains s' where "Collapse i j b k s = (Inr (), s')" "aq_core b k xs (L(i := Suc (L i))) (s'\<lparr>a_empty := 1\<rparr>)"
    "a_y s' = a_y s" "a_good s' = a_good s" "a_empty s' = 0" "weight_sum b s' = weight_sum b s"
proof -
  note ij = find_pairD [OF P]
  have i: "i < b" "i \<noteq> j" "j \<noteq> i" using ij by simp_all
  have len: "length (a_buf s) = b" "length (a_weight s) = b" "\<And>m. m < b \<Longrightarrow> length (a_buf s ! m) = k" using core by (simp_all add: aq_core_def)
  have ne: "\<And>m. m < b \<Longrightarrow> a_weight s ! m = 2 ^ L m \<and> up (a_buf s ! m)" by (rule core_none_empty [OF core e])
  define w where "w = a_weight s ! i"
  have w: "a_weight s ! i = w" "a_weight s ! j = w" "w = 2 ^ L i" "0 < w" using ij ne [OF i(1)] by (simp_all add: w_def)
  have lt2: "a_weight s ! i + a_weight s ! j < 2 ^ 31" using core_pair_weight [OF core i(1) ij(2) i(2)] lt by simp
  obtain buf' where C: "Collapse i j b k s = (Inr (), s\<lparr>a_buf := (a_buf s)[i := buf'], a_weight := (a_weight s)[i := w + w, j := 0]\<rparr>)"
    "length buf' = k" "up buf'"
    "\<forall>x. \<bar>(w + w) * int (le_cnt buf' x) - (w * int (le_cnt (a_buf s ! i) x) + w * int (le_cnt (a_buf s ! j) x))\<bar> \<le> w + w - (w + w) div 2" "set buf' \<subseteq> set (a_buf s ! i) \<union> set (a_buf s ! j)"
    using Collapse_run [OF i(1) ij(2) i(2) len(1,2) len(3) [OF i(1)] len(3) [OF ij(2)], unfolded w(1,2)] ne [OF i(1)] ne [OF ij(2)] w(4) lt2 w(1,2)
    by auto
  let ?s' = "s\<lparr>a_buf := (a_buf s)[i := buf'], a_weight := (a_weight s)[i := w + w, j := 0]\<rparr>"
  have nth: "a_weight ?s' ! m = (if m = j then 0 else if m = i then w + w else a_weight s ! m)" "a_buf ?s' ! m = (if m = i then buf' else a_buf s ! m)"
    if "m < b" for m using that len i by auto
  have ws: "weight_sum b ?s' = weight_sum b s"
  proof -
    have "(\<Sum>m<b. a_weight ?s' ! m) = (\<Sum>m<b. a_weight s ! m) - a_weight s ! i - a_weight s ! j + a_weight ?s' ! i + a_weight ?s' ! j"
      by (rule sum_change2 [OF i(1) ij(2) i(2)]) (simp only: nth if_False)
    then show ?thesis using nth(1) [OF i(1)] nth(1) [OF ij(2)] w i by (simp only: weight_sum_def) simp
  qed
  have rk: "buf_rank b ?s' x = buf_rank b s x - (w * int (le_cnt (a_buf s ! i) x) + w * int (le_cnt (a_buf s ! j) x)) + (w + w) * int (le_cnt buf' x)" for x
  proof -
    have "buf_rank b ?s' x = buf_rank b s x - a_weight s ! i * int (le_cnt (a_buf s ! i) x) - a_weight s ! j * int (le_cnt (a_buf s ! j) x)
        + a_weight ?s' ! i * int (le_cnt (a_buf ?s' ! i) x) + a_weight ?s' ! j * int (le_cnt (a_buf ?s' ! j) x)"
      unfolding buf_rank_def by (rule sum_change2 [OF i(1) ij(2) i(2)]) (simp only: nth if_False)
    then show ?thesis using nth [OF i(1)] nth [OF ij(2)] w(1,2) i by simp
  qed
  have lv: "(\<Sum>m<b. a_weight ?s' ! m * int ((L(i := Suc (L i))) m)) = (\<Sum>m<b. a_weight s ! m * int (L m)) + 2 * w"
  proof -
    have "L j = L i" using ne [OF ij(2)] w(2,3) by simp
    moreover have "(\<Sum>m<b. a_weight ?s' ! m * int ((L(i := Suc (L i))) m)) = (\<Sum>m<b. a_weight s ! m * int (L m)) - a_weight s ! i * int (L i) -
        a_weight s ! j * int (L j) + a_weight ?s' ! i * int ((L(i := Suc (L i))) i) + a_weight ?s' ! j * int ((L(i := Suc (L i))) j)"
      by (rule sum_change2 [OF i(1) ij(2) i(2)]) (simp add: nth fun_upd_apply)
    ultimately show ?thesis using nth(1) [OF i(1)] nth(1) [OF ij(2)] w(1,2) i by (simp add: algebra_simps)
  qed
  have "aq_core b k xs (L(i := Suc (L i))) (?s'\<lparr>a_empty := 1\<rparr>)"
  proof -
    have e1: "{m \<in> {..<b}. a_weight ?s' ! m = 0} = {j}"
    proof -
      have "a_weight s ! m \<noteq> 0" if "m < b" for m using ne [OF that] by simp
      then show ?thesis using ij(2) w(4) i(1) by (auto simp: nth_list_update len split: if_splits)
    qed
    have err: "2 * \<bar>buf_rank b ?s' x - int (le_cnt xs x)\<bar> \<le> (\<Sum>m<b. a_weight ?s' ! m * int ((L(i := Suc (L i))) m))" for x
    proof -
      have "2 * \<bar>buf_rank b s x - int (le_cnt xs x)\<bar> \<le> (\<Sum>m<b. a_weight s ! m * int (L m))" using core by (simp add: aq_core_def)
      moreover have "w + w - (w + w) div 2 = w" by simp
      ultimately show ?thesis unfolding rk lv by (intro abs_step) (use C(4) [rule_format, of x] in \<open>simp_all only:\<close>)
    qed
    have n: "length xs = weight_sum b ?s' * int k" unfolding ws using core by (simp add: aq_core_def)
    have "\<forall>m<b. length (a_buf ?s' ! m) = k \<and> (a_weight ?s' ! m = 0 \<or> a_weight ?s' ! m = 2 ^ (L(i := Suc (L i))) m \<and> up (a_buf ?s' ! m))"
      using C(2,3) len ne w i ij(2) by (auto simp: nth_list_update fun_upd_apply)
    moreover have "set (a_buf ?s' ! m) \<subseteq> set xs" if m: "m < b" "a_weight ?s' ! m \<noteq> 0" for m
    proof -
      have "set (a_buf s ! m') \<subseteq> set xs" if "m' < b" for m' using core ne [OF that] that by (simp add: aq_core_def)
      then show ?thesis using nth(2) [OF m(1)] C(5) m(1) i(1) ij(2) by (cases "m = i") fastforce+
    qed
    ultimately show ?thesis using len e1 err n by (simp add: aq_core_def weight_sum_def buf_rank_def)
  qed
  then show ?thesis using C(1) ws e by (intro that [of ?s']) (simp_all add: w)
qed

lemma New_core:
  assumes core: "aq_core b k xs L s" and F: "find_free (a_weight s) b = Some i" and p: "length p = k" "up p"
  obtains s' where "New p 1 i b k (s\<lparr>a_empty := a_empty s - 1\<rparr>) = (Inr (), s')" "aq_core b k (xs @ p) (L(i := 0)) s'"
    "a_y s' = a_y s" "a_good s' = a_good s" "a_empty s' = a_empty s - 1" "a_weight s' = (a_weight s)[i := 1]" "weight_sum b s' = weight_sum b s + 1"
proof -
  have "i < b" "a_weight s ! i = 0" using findD [OF F [unfolded find_free_def]] by auto
  note i = this
  have len: "length (a_buf s) = b" "length (a_weight s) = b" "\<And>m. m < b \<Longrightarrow> length (a_buf s ! m) = k" using core by (simp_all add: aq_core_def)
  let ?s' = "s\<lparr>a_empty := a_empty s - 1, a_buf := (a_buf s)[i := p], a_weight := (a_weight s)[i := 1]\<rparr>"
  have N: "New p 1 i b k (s\<lparr>a_empty := a_empty s - 1\<rparr>) = (Inr (), ?s')"
    using i len p by (simp add: New_def put_st_def)
  have nth: "a_weight ?s' ! m = (if m = i then 1 else a_weight s ! m)" "a_buf ?s' ! m = (if m = i then p else a_buf s ! m)"
    if "m < b" for m using that len i by auto
  have ws: "weight_sum b ?s' = weight_sum b s + 1"
  proof -
    have "(\<Sum>m<b. a_weight ?s' ! m) = (\<Sum>m<b. a_weight s ! m) - a_weight s ! i + a_weight ?s' ! i"
      by (rule sum_change [OF i(1)]) (simp only: nth if_False)
    then show ?thesis using nth(1) [OF i(1)] i(2) by (simp only: weight_sum_def) simp
  qed
  have rk: "buf_rank b ?s' x = buf_rank b s x + int (le_cnt p x)" for x
  proof -
    have "buf_rank b ?s' x = buf_rank b s x - a_weight s ! i * int (le_cnt (a_buf s ! i) x) + a_weight ?s' ! i * int (le_cnt (a_buf ?s' ! i) x)"
      unfolding buf_rank_def by (rule sum_change [OF i(1)]) (simp only: nth if_False)
    then show ?thesis using nth [OF i(1)] i(2) by simp
  qed
  have lv: "(\<Sum>m<b. a_weight ?s' ! m * int ((L(i := 0)) m)) = (\<Sum>m<b. a_weight s ! m * int (L m))"
  proof -
    have "(\<Sum>m<b. a_weight ?s' ! m * int ((L(i := 0)) m)) = (\<Sum>m<b. a_weight s ! m * int (L m)) - a_weight s ! i * int (L i)
        + a_weight ?s' ! i * int ((L(i := 0)) i)"
      by (rule sum_change [OF i(1)]) (simp add: nth fun_upd_apply)
    then show ?thesis using i(2) by simp
  qed
  have "aq_core b k (xs @ p) (L(i := 0)) ?s'"
  proof -
    have S: "{m \<in> {..<b}. a_weight ?s' ! m = 0} = {m \<in> {..<b}. a_weight s ! m = 0} - {i}"
      using i(1) by (auto simp: nth_list_update len split: if_splits)
    have "i \<in> {m \<in> {..<b}. a_weight s ! m = 0}" using i by simp
    then have "card {m \<in> {..<b}. a_weight s ! m = 0} = Suc (card ({m \<in> {..<b}. a_weight s ! m = 0} - {i}))"
      by (subst card_Suc_Diff1) auto
    then have e: "a_empty s - 1 = int (card {m \<in> {..<b}. a_weight ?s' ! m = 0})" using core unfolding S by (simp add: aq_core_def)
    have err: "2 * \<bar>buf_rank b ?s' x - int (le_cnt (xs @ p) x)\<bar> \<le> (\<Sum>m<b. a_weight ?s' ! m * int ((L(i := 0)) m))" for x
      using core unfolding rk lv by (simp add: aq_core_def)
    have n: "int (length (xs @ p)) = weight_sum b ?s' * int k" using core p(1) unfolding ws by (simp add: aq_core_def distrib_right)
    have "\<forall>m<b. length (a_buf ?s' ! m) = k \<and> (a_weight ?s' ! m = 0 \<or> a_weight ?s' ! m = 2 ^ (L(i := 0)) m \<and> up (a_buf ?s' ! m))"
    proof (intro allI impI)
      fix m assume m: "m < b"
      then have "length (a_buf s ! m) = k \<and> (a_weight s ! m = 0 \<or> a_weight s ! m = 2 ^ L m \<and> up (a_buf s ! m))" using core by (simp add: aq_core_def)
      then show "length (a_buf ?s' ! m) = k \<and> (a_weight ?s' ! m = 0 \<or> a_weight ?s' ! m = 2 ^ (L(i := 0)) m \<and> up (a_buf ?s' ! m))"
        using nth [OF m] p by (simp add: fun_upd_apply)
    qed
    moreover have "set (a_buf ?s' ! m) \<subseteq> set (xs @ p)" if m: "m < b" "a_weight ?s' ! m \<noteq> 0" for m
    proof (cases "m = i")
      case True
      then show ?thesis using nth(2) [OF m(1)] by simp
    next
      case False
      then show ?thesis using nth [OF m(1)] m core by (auto simp: aq_core_def)
    qed
    ultimately show ?thesis using len e err n by (simp add: aq_core_def weight_sum_def buf_rank_def)
  qed
  then show ?thesis using N ws by (intro that [of ?s']) simp_all
qed

lemma find_free_found:
  assumes "aq_core b k xs L s" "0 < a_empty s"
  obtains i where "find_free (a_weight s) b = Some i"
proof (cases "find_free (a_weight s) b")
  case None
  then have "{i \<in> {..<b}. a_weight s ! i = 0} = {}" unfolding find_free_def find_None_iff by auto
  then have "card {i \<in> {..<b}. a_weight s ! i = 0} = 0" by (simp only: card.empty)
  moreover have "a_empty s = int (card {i \<in> {..<b}. a_weight s ! i = 0})" using assms(1) unfolding aq_core_def by blast
  ultimately show thesis using assms(2) by linarith
qed (use that in auto)

lemma or_bad_Inr: "m s = (Inr (), s') \<Longrightarrow> or_bad m s = (Inr (), s')"
  by (simp add: or_bad_def)

lemma aq_core_more:
  assumes "aq_core b k xs L s" "a_buf s' = a_buf s" "a_weight s' = a_weight s" "a_empty s' = a_empty s"
  shows "aq_core b k xs L s'"
  using assms by (simp add: aq_core_def weight_sum_def buf_rank_def)

lemma add_packet_run:
  assumes inv: "aq_inv b k xs L s" and p: "length p = k" "up p" and lt: "weight_sum b s < 2 ^ b - 1" "weight_sum b s < 2 ^ 31"
  obtains s' L' where "add_packet b k p s = (Inr (), s')" "aq_inv b k (xs @ p) L' s'" "a_y s' = a_y s" "a_good s' = a_good s"
    "weight_sum b s' = weight_sum b s + 1"
proof -
  note result = that
  have core: "aq_core b k xs L s" and small: "a_empty s = 0 \<or> (\<forall>i<b. a_weight s ! i \<le> 1)" using inv by (simp_all add: aq_inv_def)
  have len: "(length (a_weight s) < b) = False" "length (a_weight s) = b" using core by (simp_all add: aq_core_def)
  have go: thesis if s1: "(if a_empty s = 0 then
           case find_pair (a_weight s) b of None \<Rightarrow> stop Undef
           | Some (bufidx1, bufidx2) \<Rightarrow>
               seq (or_bad (Collapse bufidx1 bufidx2 b k)) (\<lambda>_. upd_st (\<lambda>s. s\<lparr>a_empty := a_empty s + 1\<rparr>))
         else ret ()) s = (Inr (), s1)" "aq_core b k xs L1 s1" "0 < a_empty s1" "a_y s1 = a_y s" "a_good s1 = a_good s"
        "weight_sum b s1 = weight_sum b s" "a_empty s1 = 1 \<or> (\<forall>i<b. a_weight s1 ! i \<le> 1)" for s1 L1
  proof -
    obtain i where F: "find_free (a_weight s1) b = Some i" by (rule find_free_found [OF s1(2,3)])
    obtain s2 where N: "New p 1 i b k (s1\<lparr>a_empty := a_empty s1 - 1\<rparr>) = (Inr (), s2)" "aq_core b k (xs @ p) (L1(i := 0)) s2"
      "a_y s2 = a_y s1" "a_good s2 = a_good s1" "a_empty s2 = a_empty s1 - 1" "a_weight s2 = (a_weight s1)[i := 1]" "weight_sum b s2 = weight_sum b s1 + 1"
      by (rule New_core [OF s1(2) F p]) blast
    have "add_packet b k p s = (Inr (), s2)"
      by (simp only: add_packet_def seq_get_st seq_undef_if len less_irrefl if_False seq_Inr [where m = "if a_empty s = 0 then _ else _", OF s1(1)] F option.case
        seq_upd_st or_bad_Inr [where m = "New p 1 i b k", OF N(1)])
    moreover have "aq_inv b k (xs @ p) (L1(i := 0)) s2"
    proof -
      have "a_empty s2 = 0 \<or> (\<forall>m<b. a_weight s2 ! m \<le> 1)"
      proof (cases "a_empty s1 = 1")
        case False
        then have "\<forall>m<b. a_weight s1 ! m \<le> 1" using s1(7) by simp
        moreover have "length (a_weight s1) = b" using s1(2) by (simp add: aq_core_def)
        moreover have "i < b" using findD [OF F [unfolded find_free_def]] by simp
        ultimately show ?thesis unfolding N(6) by (intro disjI2) (simp add: nth_list_update)
      qed (use N(5) in simp)
      then show ?thesis using N(2) by (simp add: aq_inv_def)
    qed
    ultimately show thesis using N s1 by (intro result) simp_all
  qed
  show thesis
  proof (cases "a_empty s = 0")
    case True
    obtain i j where P: "find_pair (a_weight s) b = Some (i, j)" by (rule find_pair_found [OF core True lt(1)])
    obtain s1 where C: "Collapse i j b k s = (Inr (), s1)" "aq_core b k xs (L(i := Suc (L i))) (s1\<lparr>a_empty := 1\<rparr>)" "a_y s1 = a_y s" "a_good s1 = a_good s"
      "a_empty s1 = 0" "weight_sum b s1 = weight_sum b s" by (rule Collapse_core [OF core True P lt(2)]) blast
    show thesis
    proof (rule go [of "s1\<lparr>a_empty := 1\<rparr>"])
      show "(if a_empty s = 0 then
           case find_pair (a_weight s) b of None \<Rightarrow> stop Undef
           | Some (bufidx1, bufidx2) \<Rightarrow>
               seq (or_bad (Collapse bufidx1 bufidx2 b k)) (\<lambda>_. upd_st (\<lambda>s. s\<lparr>a_empty := a_empty s + 1\<rparr>))
         else ret ()) s = (Inr (), s1\<lparr>a_empty := 1\<rparr>)"
        using True P C(5) by (simp add: seq_Inr [where m = "or_bad _", OF or_bad_Inr [where m = "Collapse i j b k", OF C(1)]] upd_st_def)
      show "weight_sum b (s1\<lparr>a_empty := 1\<rparr>) = weight_sum b s" using C(6) by (simp add: weight_sum_def)
    qed (use C in simp_all)
  next
    case False
    moreover have "0 \<le> a_empty s" using core unfolding aq_core_def by linarith
    ultimately have "0 < a_empty s" by linarith
    then show thesis using False small core by (intro go [of s L]) (simp_all add: ret_def)
  qed
qed

text \<open>At the end the error is below the bound of the paper.\<close>

lemma inv_error:
  assumes inv: "aq_inv b k xs L s" and b: "0 < b" and P: "weight_sum b s \<le> 2 ^ (b - 1)"
  shows "\<bar>buf_rank b s x - int (le_cnt xs x)\<bar> \<le> int ((b - 2) * 2 ^ (b - 2))"
proof -
  have core: "aq_core b k xs L s" using inv by (simp add: aq_inv_def)
  have lv: "a_weight s ! i * int (L i) \<le> a_weight s ! i * int (b - 2)" if i: "i < b" for i
  proof (cases "a_weight s ! i = 0")
    case False
    then have w: "a_weight s ! i = 2 ^ L i" using core i by (auto simp: aq_core_def)
    have "a_weight s ! i \<le> weight_sum b s" unfolding weight_sum_def using core_weight [OF core] i by (intro member_le_sum) auto
    then have "(2 :: int) ^ L i \<le> 2 ^ (b - 1)" using w P by linarith
    then have le: "L i \<le> b - 1" by (simp add: power_increasing_iff [of "2 :: int"])
    have "L i \<le> b - 2"
    proof (rule ccontr)
      assume "\<not> L i \<le> b - 2"
      then have L: "L i = b - 1" "2 \<le> b" using le by simp_all
      have "1 < (2 :: int) ^ L i" by (rule one_less_power) (use L in auto)
      then have "1 < a_weight s ! i" using w by simp
      then have "\<not> (\<forall>i<b. a_weight s ! i \<le> 1)" using i by (meson not_less)
      then have e: "a_empty s = 0" using inv unfolding aq_inv_def by blast
      obtain j where j: "j < b" "j \<noteq> i" using L(2) by (metis One_nat_def Suc_1 lessI less_le_trans not_less_eq_eq zero_less_Suc zero_neq_one le_less_trans)
      have "1 \<le> a_weight s ! j" using core_none_empty [OF core e j(1)] by simp
      then show False using core_pair_weight [OF core i j(1) j(2) [symmetric]] P w L by simp
    qed
    then show ?thesis using w by (intro mult_left_mono) auto
  qed simp
  have "2 * \<bar>buf_rank b s x - int (le_cnt xs x)\<bar> \<le> (\<Sum>i<b. a_weight s ! i * int (L i))" using core by (simp add: aq_core_def)
  also have "\<dots> \<le> (\<Sum>i<b. a_weight s ! i * int (b - 2))" by (rule sum_mono) (use lv in auto)
  also have "\<dots> = weight_sum b s * int (b - 2)" by (simp add: weight_sum_def sum_distrib_right)
  also have "\<dots> \<le> 2 ^ (b - 1) * int (b - 2)" using P by (intro mult_right_mono) auto
  finally have "2 * \<bar>buf_rank b s x - int (le_cnt xs x)\<bar> \<le> 2 ^ (b - 1) * int (b - 2)" .
  moreover have "(2 :: int) ^ (b - 1) * int (b - 2) = 2 * int ((b - 2) * 2 ^ (b - 2))"
  proof (cases "2 \<le> b")
    case True
    then have "b - 1 = Suc (b - 2)" by simp
    then show ?thesis by simp
  qed simp
  ultimately show ?thesis by linarith
qed

end
