(* ===== verification/Aq_Num.thy ===== *)
theory Aq_Num
  imports Aq_Data Dt_Count
begin

text \<open>
  The computations with doubles of the approximate quantiles are exact, or rounded on the right side: the ranks
  that \<open>Output\<close> asks for, and the number and the size of the buffers.
\<close>

subsection \<open>From doubles to integers\<close>

lemma powr_neg_nat: "e < 0 \<Longrightarrow> 2 powr real_of_int e = 1 / 2 ^ nat (- e)"
  by (simp add: powr_realpow [symmetric] powr_minus_divide [symmetric])

lemma powr_nonneg_nat: "0 \<le> e \<Longrightarrow> 2 powr real_of_int e = 2 ^ nat e"
  by (simp add: powr_realpow [symmetric])

lemma fp_ceil_value: "is_fin v \<Longrightarrow> fp_ceil v = \<lceil>fp_value v\<rceil>"
proof (elim is_finE)
  fix n m e assume v: "v = Fin n m e"
  define s where "s = (if n then - int m else int m)"
  show ?thesis
  proof (cases "0 \<le> e")
    case True
    have "fp_value v = real_of_int (s * 2 ^ nat e)" unfolding v fin_value s_def [symmetric] powr_nonneg_nat [OF True] by simp
    then show ?thesis using True by (simp only: v fp_ceil.simps s_def [symmetric] Let_def if_True ceiling_of_int)
  next
    case False
    have "fp_value v = real_of_int s / real_of_int (2 ^ nat (- e))" unfolding v fin_value s_def [symmetric] using powr_neg_nat [of e] False by simp
    then have "\<lceil>fp_value v\<rceil> = - (- s div 2 ^ nat (- e))" by (simp only: ceiling_divide_eq_div)
    then show ?thesis using False by (simp only: v fp_ceil.simps s_def [symmetric] Let_def if_False)
  qed
qed

lemma fp_trunc_value: "is_fin v \<Longrightarrow> 0 \<le> fp_value v \<Longrightarrow> fp_trunc v = \<lfloor>fp_value v\<rfloor>"
proof (elim is_finE)
  fix n m e assume v: "v = Fin n m e" and pos: "0 \<le> fp_value v"
  define s where "s = (if n then - int m else int m)"
  have "0 \<le> real_of_int s * 2 powr real_of_int e" using pos unfolding v fin_value s_def .
  then have "0 \<le> s" by (simp add: zero_le_mult_iff)
  then have "s = int m \<and> (n \<longrightarrow> m = 0)" by (simp add: s_def split: if_splits)
  note s = this
  show ?thesis
  proof (cases "0 \<le> e")
    case True
    have "fp_value v = real_of_int (s * 2 ^ nat e)" unfolding v fin_value s_def [symmetric] powr_nonneg_nat [OF True] by simp
    then show ?thesis using True s by (simp only: v fp_trunc.simps floor_of_int) (auto simp: Let_def)
  next
    case False
    have "fp_value v = real_of_int s / real_of_int (2 ^ nat (- e))" unfolding v fin_value s_def [symmetric] using powr_neg_nat [of e] False by simp
    then have "\<lfloor>fp_value v\<rfloor> = s div 2 ^ nat (- e)" by (simp only: floor_divide_of_int_eq)
    then show ?thesis using False s by (simp only: v fp_trunc.simps) (auto simp: Let_def)
  qed
qed

lemma mul_exact: "is_fin x \<Longrightarrow> is_fin y \<Longrightarrow> repr F64_fmt (fp_value x * fp_value y) \<Longrightarrow> is_fin (fp_mul x y) \<and> fp_value (fp_mul x y) = fp_value x * fp_value y"
  using mul_between [of x y "fp_value x * fp_value y" "fp_value x * fp_value y"] by (auto simp: between_def)

lemma plus_exact: "is_fin x \<Longrightarrow> is_fin y \<Longrightarrow> repr F64_fmt (fp_value x + fp_value y) \<Longrightarrow> is_fin (fp_add x y) \<and> fp_value (fp_add x y) = fp_value x + fp_value y"
  using add_between [of x y "fp_value x + fp_value y" "fp_value x + fp_value y"] by (auto simp: between_def)

lemma div_exact: "is_fin x \<Longrightarrow> is_fin y \<Longrightarrow> fp_value y \<noteq> 0 \<Longrightarrow> repr F64_fmt (fp_value x / fp_value y) \<Longrightarrow>
    is_fin (fp_div x y) \<and> fp_value (fp_div x y) = fp_value x / fp_value y"
  using div_between [of x y "fp_value x / fp_value y" "fp_value x / fp_value y"] by (auto simp: between_def)

text \<open>A natural number over a power of two.\<close>

lemma repr_div_pow: "m < 2 ^ 53 \<Longrightarrow> t \<le> 1074 \<Longrightarrow> repr F64_fmt (real m / 2 ^ t)"
proof (rule repr_frac [of m "- int t"])
  assume "m < 2 ^ 53" "t \<le> 1074"
  show "\<bar>real m / 2 ^ t\<bar> = real m * 2 powr real_of_int (- int t)" by (simp add: powr_minus_divide powr_realpow)
qed auto

subsection \<open>The ranks\<close>

lemma pow_above: "0 < q \<Longrightarrow> \<exists>t. q \<le> 2 ^ t \<and> 2 ^ t < 2 * (q :: nat)"
proof (induction q rule: less_induct)
  case (less q)
  show ?case
  proof (cases "q = 1")
    case False
    define h where "h = (q + 1) div 2"
    have "h < q" "0 < h" "q \<le> 2 * h" "2 * h \<le> q + 1" using False less.prems by (simp_all add: h_def)
    then obtain t where t: "h \<le> 2 ^ t" "2 ^ t < 2 * h" using less.IH by blast
    have "(2 :: nat) ^ Suc t < 2 * q"
    proof (cases "t = 0")
      case False
      then obtain u where u: "t = Suc u" by (cases t) auto
      have "(2 :: nat) ^ t \<le> q" using t(2) \<open>2 * h \<le> q + 1\<close> by linarith
      moreover have "even ((2 :: nat) ^ t)" using False by simp
      moreover have "(2 :: nat) ^ t \<noteq> q"
      proof
        assume "(2 :: nat) ^ t = q"
        then have "h = 2 ^ u" "q = 2 * 2 ^ u" by (simp_all add: h_def u)
        then show False using t(2) by (simp add: u)
      qed
      ultimately show ?thesis by simp
    qed (use \<open>q \<noteq> 1\<close> less.prems in simp)
    then show ?thesis using t(1) \<open>q \<le> 2 * h\<close> by (intro exI [of _ "Suc t"]) auto
  qed (intro exI [of _ 0]; simp)
qed

text \<open>The division: rounding cannot push the quotient over the integer below it.\<close>

lemma ceil_div_exact:
  assumes x: "is_fin x" "fp_value x = real N" "N < 2 ^ 52" and y: "is_fin y" "fp_value y = real q" "0 < q" "q < 2 ^ 52"
  shows "fp_ceil (fp_div x y) = \<lceil>real N / real q\<rceil>"
proof (cases "N = 0")
  case True
  have "between 0 0 (fp_div x y)" using x y True by (intro div_between) simp_all
  then have "is_fin (fp_div x y)" "fp_value (fp_div x y) = 0" by (simp_all add: between_def)
  then show ?thesis using True by (simp add: fp_ceil_value)
next
  case False
  define r where "r = nat \<lceil>real N / real q\<rceil>"
  have "0 < \<lceil>real N / real q\<rceil>" using False y(3) by simp
  then have r: "int r = \<lceil>real N / real q\<rceil>" "0 < r" by (simp_all add: r_def)
  have up: "real N / real q \<le> real r" using r(1) by linarith
  have lo: "real (r - 1) < real N / real q" using r by linarith
  obtain t where t: "q \<le> 2 ^ t" "2 ^ t < 2 * q" using pow_above y(3) by blast
  have "(2 :: nat) ^ t < 2 ^ 53" using t(2) y(4) by simp
  then have t53: "t < 53" by (rule power_less_imp_less_exp [rotated]) simp
  let ?a = "real ((r - 1) * 2 ^ t + 1) / 2 ^ t"
  have rq: "(r - 1) * q < N"
  proof -
    have "real (r - 1) * real q < real N" using lo y(3) by (simp add: field_simps)
    then show ?thesis by (simp only: of_nat_mult [symmetric] of_nat_less_iff)
  qed
  have "(r - 1) * 2 ^ t + 1 \<le> (r - 1) * (2 * q) + 1" using t(2) by (intro add_mono mult_left_mono) auto
  also have "\<dots> < 2 ^ 53" using rq x(3) by simp
  finally have m: "(r - 1) * 2 ^ t + 1 < 2 ^ 53" .
  have "?a = real (r - 1) + 1 / 2 ^ t" by (simp add: add_divide_distrib)
  note a_eq = this
  have i1: "1 / 2 ^ t \<le> 1 / real q"
  proof -
    have "real q \<le> 2 ^ t" using t(1) by (metis of_nat_le_iff of_nat_numeral of_nat_power)
    then show ?thesis using y(3) by (simp add: field_simps)
  qed
  have i2: "real (r - 1) + 1 / real q \<le> real N / real q"
  proof -
    have "real ((r - 1) * q + 1) \<le> real N" using rq by (simp only: of_nat_le_iff)
    then have "real ((r - 1) * q + 1) / real q \<le> real N / real q" by (rule divide_right_mono) simp
    moreover have "real ((r - 1) * q + 1) / real q = real (r - 1) + 1 / real q" using y(3) by (simp add: add_divide_distrib)
    ultimately show ?thesis by simp
  qed
  have "0 < 1 / (2 :: real) ^ t" by simp
  then have a: "?a \<le> real N / real q" "real (r - 1) < ?a" unfolding a_eq using i1 i2 by linarith+
  have "r \<le> N"
  proof -
    have "r - 1 \<le> (r - 1) * q" using y(3) by simp
    then show ?thesis using rq by linarith
  qed
  then have "repr F64_fmt (real r)" "repr F64_fmt ?a" using x(3) repr_div_pow [OF m, of t] t53 by (auto intro!: repr_nat)
  then have "between ?a (real r) (fp_div x y)" using a(1) up unfolding x(2) [symmetric] y(2) [symmetric]
    by (intro div_between x(1) y(1)) (use y in simp_all)
  then have f: "is_fin (fp_div x y)" "?a \<le> fp_value (fp_div x y)" "fp_value (fp_div x y) \<le> real r" by (simp_all add: between_def)
  have "\<lceil>fp_value (fp_div x y)\<rceil> = int r" using f a r(2) by (intro ceiling_unique) auto
  then show ?thesis using f(1) r(1) by (simp add: fp_ceil_value)
qed

lemma next_rank_exact:
  assumes "(j + 1) * n < 2 ^ 52" "n < 2 ^ 52" "j < q" "q < 2 ^ 52"
  shows "next_rank n q j = \<lceil>real ((j + 1) * n) / real q\<rceil>"
proof -
  have J: "is_fin (F8_of_nat (j + 1))" "fp_value (F8_of_nat (j + 1)) = real (j + 1)"
    "is_fin (F8_of_nat n)" "fp_value (F8_of_nat n) = real n" "is_fin (F8_of_nat q)" "fp_value (F8_of_nat q) = real q"
    using F8_of_nat [of "j + 1"] F8_of_nat [of n] F8_of_nat [of q] assms by simp_all
  have "repr F64_fmt (real ((j + 1) * n))" by (rule repr_nat) (use assms in simp)
  then have "is_fin (fp_mul (F8_of_nat (j + 1)) (F8_of_nat n)) \<and> fp_value (fp_mul (F8_of_nat (j + 1)) (F8_of_nat n)) = real ((j + 1) * n)"
    using mul_exact [OF J(1,3)] unfolding J of_nat_mult by blast
  then show ?thesis unfolding next_rank_def using J assms by (intro ceil_div_exact) simp_all
qed

subsection \<open>The number and the size of the buffers\<close>

lemma bk_loop_run:
  defines "C \<equiv> \<lambda>bound b. fp_less (fp_add (fp_mul (F8_of_nat (b - 2)) (pow2 (b - 2))) (F8_of_nat 1)) bound"
  assumes "b0 \<le> c" "c - b0 < fuel" "\<not> C bound c"
  obtains b where "bk_loop fuel bound b0 = Some b" "b0 \<le> b" "b \<le> c" "\<forall>i. b0 \<le> i \<and> i < b \<longrightarrow> C bound i"
proof -
  have "\<exists>b. bk_loop fuel bound b0 = Some b \<and> b0 \<le> b \<and> b \<le> c \<and> (\<forall>i. b0 \<le> i \<and> i < b \<longrightarrow> C bound i)"
    using assms(2,3)
  proof (induction fuel arbitrary: b0)
    case (Suc fuel)
    show ?case
    proof (cases "C bound b0")
      case True
      then have "b0 \<noteq> c" using assms(4) by auto
      then have "Suc b0 \<le> c" "c - Suc b0 < fuel" using Suc.prems by linarith+
      then obtain b where b: "bk_loop fuel bound (Suc b0) = Some b" "Suc b0 \<le> b" "b \<le> c" "\<forall>i. Suc b0 \<le> i \<and> i < b \<longrightarrow> C bound i"
        using Suc.IH [of "Suc b0"] by blast
      moreover have "\<forall>i. b0 \<le> i \<and> i < b \<longrightarrow> C bound i" using b(4) True by (metis le_less Suc_leI)
      ultimately show ?thesis using True b by (intro exI [of _ b]) (simp add: C_def)
    next
      case False
      then show ?thesis using Suc.prems by (intro exI [of _ b0]) (auto simp: C_def)
    qed
  qed simp
  then show thesis using that by blast
qed

text \<open>The left side of the loop's condition is exact.\<close>

lemma err_exact:
  assumes "i * 2 ^ i + 1 < 2 ^ 53"
  shows "is_fin (fp_add (fp_mul (F8_of_nat i) (pow2 i)) (F8_of_nat 1))"
    "fp_value (fp_add (fp_mul (F8_of_nat i) (pow2 i)) (F8_of_nat 1)) = real (i * 2 ^ i + 1)"
proof -
  have i: "i < 53"
  proof (rule ccontr)
    assume "\<not> i < 53"
    then have "53 * 2 ^ 53 \<le> i * (2 :: nat) ^ i" by (intro mult_mono power_increasing) auto
    then show False using assms by simp
  qed
  have "(2 :: nat) ^ i < 2 ^ 53" using i by (intro power_strict_increasing) auto
  then have p: "is_fin (pow2 i)" "fp_value (pow2 i) = 2 ^ i" "is_fin (F8_of_nat i)" "fp_value (F8_of_nat i) = real i"
    using F8_of_nat [of "2 ^ i"] F8_of_nat [of i] i by (simp_all add: pow2_def)
  have "repr F64_fmt (real (i * 2 ^ i))" by (rule repr_nat) (use assms in simp)
  then have m: "is_fin (fp_mul (F8_of_nat i) (pow2 i)) \<and> fp_value (fp_mul (F8_of_nat i) (pow2 i)) = real (i * 2 ^ i)"
    using mul_exact [OF p(3,1)] unfolding p by simp
  have "repr F64_fmt (real (i * 2 ^ i + 1))" by (rule repr_nat) (use assms in simp)
  then have "repr F64_fmt (real (i * 2 ^ i) + 1)" by (simp add: add.commute)
  then show "is_fin (fp_add (fp_mul (F8_of_nat i) (pow2 i)) (F8_of_nat 1))"
    "fp_value (fp_add (fp_mul (F8_of_nat i) (pow2 i)) (F8_of_nat 1)) = real (i * 2 ^ i + 1)"
    using plus_exact [of "fp_mul (F8_of_nat i) (pow2 i)" "F8_of_nat 1"] m F8_of_nat [of 1] by simp_all
qed

lemma ceil_div_le: "n \<le> (if n mod p = 0 then n div p else n div p + 1) * p" if "0 < p" for n p :: nat
proof (cases "n mod p = 0")
  case False
  have "n div p * p + n mod p = n" "n mod p < p" using that by simp_all
  then have "n \<le> (n div p + 1) * p" unfolding distrib_right by linarith
  then show ?thesis by (simp only: False if_False)
qed auto

lemma bk_size_exact:
  assumes n: "n < 2 ^ 52" and b: "b \<le> 52"
  shows "n \<le> nat (bk_size n b) * 2 ^ (b - 1)" "0 \<le> bk_size n b" "bk_size n b \<le> int (n div 2 ^ (b - 1) + 1)"
proof -
  let ?p = "(2 :: nat) ^ (b - 1)"
  have "?p \<le> 2 ^ 51" using b by (intro power_increasing) auto
  then have p: "is_fin (pow2 (b - 1))" "fp_value (pow2 (b - 1)) = real ?p" "is_fin (F8_of_nat n)" "fp_value (F8_of_nat n) = real n"
    using F8_of_nat [of ?p] F8_of_nat [of n] n by (simp_all add: pow2_def)
  have "repr F64_fmt (real n / real ?p)" using repr_div_pow [of n "b - 1"] n b by simp
  then have d: "is_fin (fp_div (F8_of_nat n) (pow2 (b - 1)))" "fp_value (fp_div (F8_of_nat n) (pow2 (b - 1))) = real n / real ?p"
    using div_exact [OF p(3,1)] unfolding p by simp_all
  have e: "real n / real ?p + 1 = real (n + ?p) / 2 ^ (b - 1)" by (simp add: field_simps)
  have "repr F64_fmt (real (n + ?p) / 2 ^ (b - 1))" using \<open>?p \<le> 2 ^ 51\<close> n b by (intro repr_div_pow) auto
  then have a: "is_fin (fp_add (fp_div (F8_of_nat n) (pow2 (b - 1))) (F8_of_nat 1))"
    "fp_value (fp_add (fp_div (F8_of_nat n) (pow2 (b - 1))) (F8_of_nat 1)) = real n / real ?p + 1"
    using plus_exact [OF d(1), of "F8_of_nat 1"] F8_of_nat [of 1] d(2) e by simp_all
  have fl: "\<lfloor>real n / real ?p\<rfloor> = int (n div ?p)" by (metis floor_divide_of_nat_eq)
  have k: "bk_size n b = int (if n mod ?p = 0 then n div ?p else n div ?p + 1)"
    using d a fl by (auto simp: bk_size_def fp_trunc_value simp del: of_nat_power of_nat_numeral)
  show "0 \<le> bk_size n b" unfolding k by simp
  show "bk_size n b \<le> int (n div ?p + 1)" unfolding k by (simp only: of_nat_le_iff) simp
  have "n \<le> (if n mod ?p = 0 then n div ?p else n div ?p + 1) * ?p" by (rule ceil_div_le) simp
  then show "n \<le> nat (bk_size n b) * 2 ^ (b - 1)" unfolding k by (simp only: nat_int)
qed

lemma bk_run:
  assumes n: "n < 2 ^ 44" and eps: "is_fin eps" "0 \<le> fp_value eps" "fp_value eps \<le> 1"
  obtains b where "bk_loop 64 (fp_mul eps (F8_of_nat n)) 2 = Some (Suc b)" "1 \<le> b" "b \<le> 42"
    "real ((b - 2) * 2 ^ (b - 2)) \<le> fp_value eps * real n"
proof -
  let ?B = "fp_mul eps (F8_of_nat n)"
  have N: "is_fin (F8_of_nat n)" "fp_value (F8_of_nat n) = real n" using F8_of_nat [of n] n by simp_all
  have "fp_value eps * real n \<le> 1 * real n" by (rule mult_right_mono) (use eps in auto)
  then have "between 0 (real n) ?B" using N n eps by (intro mul_between repr_nat) simp_all
  then have B: "is_fin ?B" "fp_value ?B \<le> real n" by (simp_all add: between_def)
  have big: "(2 :: nat) ^ 44 \<le> 40 * 2 ^ 40 + 1" by simp
  have "\<not> fp_less (fp_add (fp_mul (F8_of_nat (42 - 2)) (pow2 (42 - 2))) (F8_of_nat 1)) ?B"
  proof -
    have s: "(40 :: nat) * 2 ^ 40 + 1 < 2 ^ 53" by simp
    have "real n \<le> real (40 * 2 ^ 40 + 1)" using n big by (simp only: of_nat_le_iff)
    then have "fp_value ?B \<le> real (40 * 2 ^ 40 + 1)" using B(2) by linarith
    then show ?thesis using err_exact [OF s] B(1) by (simp add: fin_less)
  qed
  then obtain b where b: "bk_loop 64 ?B 2 = Some b" "2 \<le> b" "b \<le> 42"
    "\<forall>i. 2 \<le> i \<and> i < b \<longrightarrow> fp_less (fp_add (fp_mul (F8_of_nat (i - 2)) (pow2 (i - 2))) (F8_of_nat 1)) ?B"
    using bk_loop_run [of 2 42 64 ?B] by auto
  have "real ((b - 1 - 2) * 2 ^ (b - 1 - 2)) \<le> fp_value eps * real n"
  proof (cases "b \<le> 3")
    case True
    then show ?thesis using eps by simp
  next
    case False
    define i where "i = b - 1 - 2"
    have "i \<le> 39" using b(3) by (simp add: i_def)
    then have "i * (2 :: nat) ^ i \<le> 39 * 2 ^ 39" by (intro mult_mono power_increasing) auto
    then have s: "i * 2 ^ i + 1 < (2 :: nat) ^ 53" by simp
    have "fp_less (fp_add (fp_mul (F8_of_nat i) (pow2 i)) (F8_of_nat 1)) ?B" 
      using b(4) [rule_format, of "b - 1"] False unfolding i_def by fastforce
    then have less: "real (i * 2 ^ i + 1) < fp_value ?B" using err_exact [OF s] B(1) by (simp add: fin_less)
    have "real (i * 2 ^ i + 1) \<le> fp_value eps * real n"
    proof (rule ccontr)
      assume "\<not> real (i * 2 ^ i + 1) \<le> fp_value eps * real n"
      then have "between 0 (real (i * 2 ^ i + 1)) ?B" using N n eps s by (intro mul_between repr_nat) simp_all
      then show False using less by (simp add: between_def)
    qed
    then show ?thesis unfolding i_def by simp
  qed
  then show thesis using b by (intro that [of "b - 1"]) auto
qed

lemma determine_b_k_run:
  assumes n: "0 < n" "n < 2 ^ 44" and eps: "is_fin eps" "0 \<le> fp_value eps" "fp_value eps \<le> 1"
  obtains b k where "\<And>s :: 's. determine_b_k eps n s = (Inr (b, int k), s)" "determine_b_k eps n () = (Inr (b, int k), ())" "1 \<le> b" "b \<le> 42" "10000 \<le> k" "n \<le> k * 2 ^ (b - 1)"
    "real ((b - 2) * 2 ^ (b - 2)) \<le> fp_value eps * real n" "k = 10000 \<or> k \<le> n div 2 ^ (b - 1) + 1"
proof -
  obtain b where b: "bk_loop 64 (fp_mul eps (F8_of_nat n)) 2 = Some (Suc b)" "1 \<le> b" "b \<le> 42"
    "real ((b - 2) * 2 ^ (b - 2)) \<le> fp_value eps * real n" by (rule bk_run [OF n(2) eps])
  have k: "n \<le> nat (bk_size n b) * 2 ^ (b - 1)" "0 \<le> bk_size n b" "bk_size n b \<le> int (n div 2 ^ (b - 1) + 1)" using bk_size_exact [of n b] n b by simp_all
  define k' where "k' = nat (if bk_size n b < 10000 then 10000 else bk_size n b)"
  have k': "int k' = (if bk_size n b < 10000 then 10000 else bk_size n b)" using k(2) by (auto simp: k'_def)
  have "nat (bk_size n b) \<le> k'" using k' k(2) by (simp split: if_splits)
  then have "nat (bk_size n b) * 2 ^ (b - 1) \<le> k' * 2 ^ (b - 1)" by (rule mult_right_mono) simp
  then have "n \<le> k' * 2 ^ (b - 1)" using k(1) by linarith
  moreover have "10000 \<le> k'" by (auto simp: k'_def)
  moreover have "determine_b_k eps n s = (Inr (b, int k'), s)" for s :: 's by (simp add: determine_b_k_def b(1) k' Let_def ret_def)
  moreover have "determine_b_k eps n () = (Inr (b, int k'), ())" by (simp add: determine_b_k_def b(1) k' Let_def ret_def)
  moreover have "k' = 10000 \<or> k' \<le> n div 2 ^ (b - 1) + 1" using k(2,3) by (auto simp: k'_def)
  ultimately show thesis using b by (intro that [of b k'])
qed

text \<open>The version of the library.\<close>

lemma determine_b_k_lib_run:
  assumes n: "0 < n" "n < 2 ^ 31 - 1" and eps: "is_fin eps" "0 \<le> fp_value eps" "fp_value eps \<le> 1"
  obtains b k where "determine_b_k_lib eps n s = (Inr (b, k), s)" "1 \<le> b" "b \<le> 42" "16384 \<le> k" "n \<le> k * 2 ^ (b - 1)"
    "real ((b - 2) * 2 ^ (b - 2)) \<le> fp_value eps * real n"
proof -
  have n44: "n < 2 ^ 44" using n by simp
  obtain b where b: "bk_loop 64 (fp_mul eps (F8_of_nat n)) 2 = Some (Suc b)" "1 \<le> b" "b \<le> 42"
    "real ((b - 2) * 2 ^ (b - 2)) \<le> fp_value eps * real n" by (rule bk_run [OF n44 eps])
  have k: "n \<le> nat (bk_size n b) * 2 ^ (b - 1)" "0 \<le> bk_size n b" "bk_size n b \<le> int (n div 2 ^ (b - 1) + 1)" using bk_size_exact [of n b] n b by simp_all
  define k0 where "k0 = nat (bk_size n b)"
  have "n div 2 ^ (b - 1) \<le> n" by (rule div_le_dividend)
  moreover have "int k0 = bk_size n b" using k(2) by (simp add: k0_def)
  ultimately have "k0 \<le> n + 1" using k(3) by linarith
  moreover have "k0 \<noteq> 0" using k(1) n(1) by (auto simp: k0_def)
  ultimately have k0: "k0 \<le> 2 ^ 31 - 1" "0 < k0" using n(2) by simp_all
  define k' where "k' = (if k0 < 16384 then 16384 else k0)"
  have "k0 \<le> k'" "16384 \<le> k'" "u32 k' = k'" "u32 b = b" using k0 b(3) by (auto simp: k'_def u32_def)
  moreover have "k0 * 2 ^ (b - 1) \<le> k' * 2 ^ (b - 1)" using \<open>k0 \<le> k'\<close> by (rule mult_right_mono) simp
  then have "n \<le> k' * 2 ^ (b - 1)" using k(1) unfolding k0_def by linarith
  moreover have c: "(b \<le> 0) = False" "(2 ^ 31 - 1 < k0) = False" "(k0 \<le> 0) = False" using b(2) k0 by simp_all
  have "determine_b_k_lib eps n s = (Inr (u32 b, u32 k'), s)"
    by (simp only: determine_b_k_lib_def b(1) option.case Let_def diff_Suc_1 seq_bye_if c if_False k0_def [symmetric] k'_def [symmetric] ret_def)
  ultimately show thesis using b k(1) by (intro that [of b k']) (simp_all add: k0_def)
qed

text \<open>With 17 million elements or less the memory suffices.\<close>

lemma memory_enough:
  assumes b: "1 \<le> b" "b \<le> 42" and k: "k = 10000 \<or> k \<le> n div 2 ^ (b - 1) + 1" and n: "n \<le> 17000000"
  shows "(b + 1 + 10) * k \<le> MAX_SZ"
proof (cases "k = 10000")
  case True
  have "(b + 1 + 10) * 10000 \<le> 53 * 10000" using b by (intro mult_right_mono) auto
  then show ?thesis using True by (simp add: MAX_SZ_def)
next
  case False
  let ?p = "(2 :: nat) ^ (b - 1)"
  have "b - 1 < ?p" by (rule less_exp)
  then have "b + 11 \<le> 12 * ?p" using b by linarith
  then have "(b + 11) * (n div ?p) \<le> 12 * ?p * (n div ?p)" by (rule mult_right_mono) simp
  moreover have "?p * (n div ?p) \<le> n" by simp
  ultimately have "(b + 11) * (n div ?p) \<le> 12 * n" by (simp only: mult.assoc)
  moreover have "(b + 11) * k \<le> (b + 11) * (n div ?p + 1)" using False k by (intro mult_left_mono) auto
  moreover have "(b + 11) * (n div ?p + 1) = (b + 11) * (n div ?p) + (b + 11)" by simp
  ultimately have "(b + 11) * k \<le> 12 * n + (b + 11)" by linarith
  then have "(b + 11) * k \<le> 204000053" using b n by linarith
  then show ?thesis by (simp add: MAX_SZ_def algebra_simps)
qed

end
