(* ===== verification/Aq_Out.thy ===== *)
theory Aq_Out
  imports Aq_Add Aq_Num
begin

text \<open>
  \<open>Output\<close> merges the buffers and the last packet, and answers every query with the element at which the
  weighted rank reaches the rank that was asked for.
\<close>

subsection \<open>What is merged\<close>

text \<open>The sources: the buffers, and the last packet as number \<open>b\<close> with weight 1.\<close>

definition src :: "nat \<Rightarrow> 32 word list list \<Rightarrow> 32 word list option \<Rightarrow> nat \<Rightarrow> 32 word list" where
  "src b bufs lastp i = (if i < b then bufs ! i else case lastp of None \<Rightarrow> [] | Some p \<Rightarrow> p)"

definition wt :: "nat \<Rightarrow> int list \<Rightarrow> nat \<Rightarrow> int" where
  "wt b ws i = (if i < b then ws ! i else 1)"

definition pos :: "nat \<Rightarrow> nat list \<Rightarrow> nat \<Rightarrow> nat \<Rightarrow> nat" where
  "pos b locs lp i = (if i < b then locs ! i else if i = b then lp else 0)"

text \<open>The weighted rank of \<open>x\<close>, and of what is processed.\<close>

definition src_rank :: "nat \<Rightarrow> (nat \<Rightarrow> 32 word list) \<Rightarrow> (nat \<Rightarrow> int) \<Rightarrow> int \<Rightarrow> int" where
  "src_rank b S W x = (\<Sum>i<Suc b. W i * int (le_cnt (S i) x))"

definition done_rank :: "nat \<Rightarrow> (nat \<Rightarrow> int) \<Rightarrow> (nat \<Rightarrow> nat) \<Rightarrow> int" where
  "done_rank b W P = (\<Sum>i<Suc b. W i * int (P i))"

definition pending :: "(nat \<Rightarrow> 32 word list) \<Rightarrow> (nat \<Rightarrow> int) \<Rightarrow> (nat \<Rightarrow> nat) \<Rightarrow> nat \<Rightarrow> bool" where
  "pending S W P i \<longleftrightarrow> 0 < W i \<and> P i < length (S i)"

abbreviation INT_MAX :: int where
  "INT_MAX \<equiv> 2147483647"

text \<open>The least value that is not processed.\<close>

definition heads_le :: "nat set \<Rightarrow> (nat \<Rightarrow> 32 word list) \<Rightarrow> (nat \<Rightarrow> int) \<Rightarrow> (nat \<Rightarrow> nat) \<Rightarrow> 32 word \<times> nat option \<Rightarrow> bool" where
  "heads_le I S W P r = (case r of
     (v, None) \<Rightarrow> v = 0x7FFFFFFF \<and> (\<forall>i\<in>I. pending S W P i \<longrightarrow> INT_MAX \<le> sint (S i ! P i))
   | (v, Some l) \<Rightarrow> l \<in> I \<and> pending S W P l \<and> v = S l ! P l \<and> sint v < INT_MAX \<and> (\<forall>i\<in>I. pending S W P i \<longrightarrow> sint v \<le> sint (S i ! P i)))"

lemma heads_le_step:
  assumes "heads_le I S W P (v, l)" "i \<notin> I"
  shows "heads_le (insert i I) S W P (if pending S W P i \<and> sint (S i ! P i) < sint v then (S i ! P i, Some i) else (v, l))"
proof -
  have m: "sint (0x7FFFFFFF :: 32 word) = INT_MAX" by simp
  show ?thesis using assms m by (cases l) (auto simp: heads_le_def split: if_splits)
qed

lemma least_unproc_heads:
  assumes len: "\<And>i. i < b \<Longrightarrow> length (bufs ! i) = k" and locs: "length locs = b"
  shows "heads_le {..<Suc b} (src b bufs lastp) (wt b ws) (pos b locs lp) (least_unproc bufs ws lastp b k locs lp)"
proof -
  let ?S = "src b bufs lastp" and ?W = "wt b ws" and ?P = "pos b locs lp"
  let ?f = "\<lambda>(v, loc) ii. if 0 < ws ! ii \<and> locs ! ii < k \<and> sint (bufs ! ii ! (locs ! ii)) < sint v then (bufs ! ii ! (locs ! ii), Some ii) else (v, loc)"
  have *: "m \<le> b \<Longrightarrow> heads_le {..<m} ?S ?W ?P (foldl ?f (0x7FFFFFFF, None) [0..<m])" for m
  proof (induction m)
    case 0
    show ?case by (simp add: heads_le_def)
  next
    case (Suc m)
    obtain v l where vl: "foldl ?f (0x7FFFFFFF, None) [0..<m] = (v, l)" by (cases "foldl ?f (0x7FFFFFFF, None) [0..<m]") auto
    have "heads_le {..<m} ?S ?W ?P (v, l)" using Suc vl by simp
    then have "heads_le (insert m {..<m}) ?S ?W ?P (if pending ?S ?W ?P m \<and> sint (?S m ! ?P m) < sint v then (?S m ! ?P m, Some m) else (v, l))"
      by (rule heads_le_step) simp
    moreover have "?S m = bufs ! m" "?P m = locs ! m" "pending ?S ?W ?P m \<longleftrightarrow> 0 < ws ! m \<and> locs ! m < k"
      using Suc.prems len [of m] by (simp_all add: src_def wt_def pos_def pending_def)
    ultimately show ?case using vl by (auto simp: lessThan_Suc split: if_splits)
  qed
  obtain v l where vl: "foldl ?f (0x7FFFFFFF, None) [0..<b] = (v, l)" by (cases "foldl ?f (0x7FFFFFFF, None) [0..<b]") auto
  have "heads_le {..<b} ?S ?W ?P (v, l)" using * [of b] vl by simp
  then have "heads_le (insert b {..<b}) ?S ?W ?P (if pending ?S ?W ?P b \<and> sint (?S b ! ?P b) < sint v then (?S b ! ?P b, Some b) else (v, l))"
    by (rule heads_le_step) simp
  moreover have "?P b = lp" "?W b = 1" by (simp_all add: wt_def pos_def)
  ultimately show ?thesis using vl by (cases lastp) (auto simp: least_unproc_def lessThan_Suc pending_def src_def [of b] split: if_splits)
qed

subsection \<open>The answers of a round\<close>

lemma emit_run:
  assumes "q \<le> length (a_y s)" "jj \<le> q"
  obtains jj' y where "emit n q r v jj s = (Inr jj', s\<lparr>a_y := y\<rparr>)" "jj \<le> jj'" "jj' \<le> q" "length y = length (a_y s)"
    "\<forall>j. jj \<le> j \<and> j < jj' \<longrightarrow> next_rank n q j \<le> r \<and> y ! j = v" "\<forall>j. j < jj \<or> jj' \<le> j \<longrightarrow> y ! j = a_y s ! j"
    "jj' < q \<longrightarrow> r < next_rank n q jj'"
proof -
  have "\<exists>jj' y. emit n q r v jj s = (Inr jj', s\<lparr>a_y := y\<rparr>) \<and> jj \<le> jj' \<and> jj' \<le> q \<and> length y = length (a_y s) \<and>
    (\<forall>j. jj \<le> j \<and> j < jj' \<longrightarrow> next_rank n q j \<le> r \<and> y ! j = v) \<and> (\<forall>j. j < jj \<or> jj' \<le> j \<longrightarrow> y ! j = a_y s ! j) \<and>
    (jj' < q \<longrightarrow> r < next_rank n q jj')"
    using assms
  proof (induction "q - jj" arbitrary: jj s)
    case 0
    then have "emit n q r v jj s = (Inr jj, s)" by (subst emit.simps) (simp add: ret_def)
    then show ?case using 0 by (intro exI [of _ jj] exI [of _ "a_y s"]) auto
  next
    case (Suc d)
    show ?case
    proof (cases "next_rank n q jj \<le> r")
      case False
      then have "emit n q r v jj s = (Inr jj, s)" by (subst emit.simps) (simp add: ret_def)
      then show ?thesis using Suc.prems False by (intro exI [of _ jj] exI [of _ "a_y s"]) auto
    next
      case True
      let ?s = "s\<lparr>a_y := (a_y s)[jj := v]\<rparr>"
      have lt: "jj < q" "jj < length (a_y s)" using Suc by auto
      have "d = q - Suc jj" "q \<le> length (a_y ?s)" "Suc jj \<le> q" using Suc.hyps(2) Suc.prems lt by simp_all
      from Suc.hyps(1) [OF this]
      obtain jj' y where e: "emit n q r v (Suc jj) ?s = (Inr jj', ?s\<lparr>a_y := y\<rparr>)" "Suc jj \<le> jj'" "jj' \<le> q" "length y = length (a_y ?s)"
        "\<forall>j. Suc jj \<le> j \<and> j < jj' \<longrightarrow> next_rank n q j \<le> r \<and> y ! j = v" "\<forall>j. j < Suc jj \<or> jj' \<le> j \<longrightarrow> y ! j = a_y ?s ! j"
        "jj' < q \<longrightarrow> r < next_rank n q jj'"
        by blast
      have "emit n q r v jj s = emit n q r v (Suc jj) ?s" using True lt by (subst emit.simps) (simp add: put_st_def not_le)
      then have "emit n q r v jj s = (Inr jj', s\<lparr>a_y := y\<rparr>)" using e(1) by simp
      moreover have "\<forall>j. jj \<le> j \<and> j < jj' \<longrightarrow> next_rank n q j \<le> r \<and> y ! j = v"
      proof (intro allI impI)
        fix j assume j: "jj \<le> j \<and> j < jj'"
        show "next_rank n q j \<le> r \<and> y ! j = v"
          using True e(5,6) lt j by (cases "j = jj") (auto simp: Suc_le_eq)
      qed
      moreover have "\<forall>j. j < jj \<or> jj' \<le> j \<longrightarrow> y ! j = a_y s ! j" using e(2,6) by auto
      ultimately show ?thesis using e by (intro exI [of _ jj'] exI [of _ y]) auto
    qed
  qed
  then show thesis using that by blast
qed

subsection \<open>The loop\<close>

text \<open>What holds before every round: what is processed is sorted below what is not.\<close>

definition out_inv :: "nat \<Rightarrow> (nat \<Rightarrow> 32 word list) \<Rightarrow> (nat \<Rightarrow> int) \<Rightarrow> (nat \<Rightarrow> nat) \<Rightarrow> bool" where
  "out_inv b S W P \<longleftrightarrow> (\<forall>i\<le>b. 0 \<le> W i \<and> P i \<le> length (S i) \<and> (0 < W i \<longrightarrow> up (S i))) \<and>
     (\<forall>i\<le>b. \<forall>j\<le>b. 0 < W i \<and> 0 < W j \<longrightarrow>
        (\<forall>u\<in>set (take (P i) (S i)). sint u < INT_MAX \<and> (\<forall>v\<in>set (drop (P j) (S j)). sint u \<le> sint v)))"

text \<open>The elements that are merged; \<open>v\<close> is the one of them at rank \<open>r\<close> for the rank function \<open>R\<close>.\<close>

definition src_set :: "nat \<Rightarrow> (nat \<Rightarrow> 32 word list) \<Rightarrow> (nat \<Rightarrow> int) \<Rightarrow> 32 word set" where
  "src_set b S W = (\<Union>i\<in>{i. i \<le> b \<and> 0 < W i}. set (S i))"

definition answers :: "32 word set \<Rightarrow> (int \<Rightarrow> int) \<Rightarrow> int \<Rightarrow> 32 word \<Rightarrow> bool" where
  "answers A R r v \<longleftrightarrow> v \<in> A \<and> r \<le> R (sint v) \<and> R (sint v - 1) < r"

lemma le_cnt_split: "le_cnt vs x = le_cnt (take n vs) x + le_cnt (drop n vs) x"
  using le_cnt_simps(3) [of "take n vs" "drop n vs" x] by simp

lemma drop_head: "n < length vs \<Longrightarrow> up vs \<Longrightarrow> u \<in> set (drop n vs) \<Longrightarrow> sint (vs ! n) \<le> sint u"
proof -
  assume a: "n < length vs" "up vs" "u \<in> set (drop n vs)"
  have "up (take n vs @ vs ! n # drop (Suc n) vs)" using a(1,2) by (simp add: id_take_nth_drop [symmetric])
  then show ?thesis using a(1,3) by (auto simp: up_append Cons_nth_drop_Suc [symmetric])
qed

lemma round_ranks:
  assumes inv: "out_inv b S W P" and head: "heads_le {..<Suc b} S W P (v, Some l)"
  shows "out_inv b S W (P(l := Suc (P l)))"
    "done_rank b W (P(l := Suc (P l))) = done_rank b W P + W l"
    "done_rank b W (P(l := Suc (P l))) \<le> src_rank b S W (sint v)"
    "src_rank b S W (sint v - 1) \<le> done_rank b W P"
proof -
  let ?P = "P(l := Suc (P l))"
  have l: "l \<le> b" "0 < W l" "P l < length (S l)" "v = S l ! P l" "sint v < INT_MAX"
    and least: "\<And>i. i \<le> b \<Longrightarrow> 0 < W i \<Longrightarrow> P i < length (S i) \<Longrightarrow> sint v \<le> sint (S i ! P i)"
    using head by (auto simp: heads_le_def pending_def)
  have tak: "set (take (?P i) (S i)) = (if i = l then insert v (set (take (P i) (S i))) else set (take (P i) (S i)))" for i
    using l(3,4) by (simp add: take_Suc_conv_app_nth)
  have drp: "set (drop (?P i) (S i)) \<subseteq> set (drop (P i) (S i))" for i using set_drop_subset_set_drop [of "P i" "Suc (P i)" "S i"] by auto
  have v_drop: "v \<in> set (drop (P l) (S l))" using l(3,4) by (simp add: Cons_nth_drop_Suc [symmetric])
  have I: "0 \<le> W i" "P i \<le> length (S i)" "0 < W i \<Longrightarrow> up (S i)" if "i \<le> b" for i using inv that by (auto simp: out_inv_def)
  have J: "sint u < INT_MAX" "w \<in> set (drop (P j) (S j)) \<Longrightarrow> sint u \<le> sint w"
    if "i \<le> b" "j \<le> b" "0 < W i" "0 < W j" "u \<in> set (take (P i) (S i))" for i j u w
    using inv that by (auto simp: out_inv_def)
  have v_le: "sint v \<le> sint u" if "i \<le> b" "0 < W i" "u \<in> set (drop (P i) (S i))" for i u
  proof -
    have "P i < length (S i)" using that(3) by (metis drop_all empty_iff empty_set not_le)
    then show ?thesis using least [OF that(1,2)] drop_head [of "P i" "S i" u] I(3) [OF that(1,2)] that(3) by fastforce
  qed
  show "out_inv b S W ?P"
    unfolding out_inv_def
  proof (intro conjI allI impI ballI)
    fix i assume i: "i \<le> b"
    show "0 \<le> W i" "?P i \<le> length (S i)" "0 < W i \<Longrightarrow> up (S i)" using I [OF i] l(3) by (auto simp: fun_upd_apply)
  next
    fix i j u assume i: "i \<le> b" "j \<le> b" "0 < W i \<and> 0 < W j" "u \<in> set (take (?P i) (S i))"
    then have "u = v \<or> u \<in> set (take (P i) (S i))" unfolding tak by (auto split: if_splits)
    then show "sint u < INT_MAX" using J(1) [of i j u] i l(5) by auto
    fix w assume "w \<in> set (drop (?P j) (S j))"
    then have "w \<in> set (drop (P j) (S j))" using drp by auto
    then show "sint u \<le> sint w" using \<open>u = v \<or> _\<close> J(2) [of i j u w] v_le [of j w] i by auto
  qed
  show dr: "done_rank b W ?P = done_rank b W P + W l"
  proof -
    have "(\<Sum>i<Suc b. W i * int (?P i)) = (\<Sum>i<Suc b. W i * int (P i)) - W l * int (P l) + W l * int (?P l)"
      by (rule sum_change) (use l(1) in \<open>auto simp: fun_upd_apply\<close>)
    then show ?thesis by (simp only: done_rank_def) (simp add: distrib_left)
  qed
  show "done_rank b W ?P \<le> src_rank b S W (sint v)"
    unfolding done_rank_def src_rank_def
  proof (rule sum_mono)
    fix i assume "i \<in> {..<Suc b}"
    then have i: "i \<le> b" by simp
    show "W i * int (?P i) \<le> W i * int (le_cnt (S i) (sint v))"
    proof (cases "0 < W i")
      case True
      have "\<forall>u\<in>set (take (?P i) (S i)). sint u \<le> sint v" unfolding tak using J(2) [OF i l(1) True l(2) _ v_drop] by auto
      then have "le_cnt (take (?P i) (S i)) (sint v) = length (take (?P i) (S i))" by (rule le_cnt_all)
      moreover have "?P i \<le> length (S i)" using I(2) [OF i] l(3) by (simp add: fun_upd_apply)
      ultimately have "?P i \<le> le_cnt (S i) (sint v)" using le_cnt_split [of "S i" "sint v" "?P i"] by simp
      then show ?thesis using True by (intro mult_left_mono) auto
    qed (use I(1) [OF i] in simp)
  qed
  show "src_rank b S W (sint v - 1) \<le> done_rank b W P"
    unfolding done_rank_def src_rank_def
  proof (rule sum_mono)
    fix i assume "i \<in> {..<Suc b}"
    then have i: "i \<le> b" by simp
    show "W i * int (le_cnt (S i) (sint v - 1)) \<le> W i * int (P i)"
    proof (cases "0 < W i")
      case True
      have "\<forall>u\<in>set (drop (P i) (S i)). sint v - 1 < sint u" using v_le [OF i True] by fastforce
      then have "le_cnt (drop (P i) (S i)) (sint v - 1) = 0" by (rule le_cnt_none)
      moreover have "le_cnt (take (P i) (S i)) (sint v - 1) \<le> P i" by (rule order_trans [OF le_cnt_le]) simp
      ultimately have "le_cnt (S i) (sint v - 1) \<le> P i" using le_cnt_split [of "S i" "sint v - 1" "P i"] by simp
      then show ?thesis using True by (intro mult_left_mono) auto
    qed (use I(1) [OF i] in simp)
  qed
qed

text \<open>When nothing is found, all that is below \<open>INT_MAX\<close> is processed.\<close>

lemma end_ranks:
  assumes inv: "out_inv b S W P" and head: "heads_le {..<Suc b} S W P (v, None)"
  shows "done_rank b W P = src_rank b S W (INT_MAX - 1)"
  unfolding done_rank_def src_rank_def
proof (rule sum.cong [OF refl])
  fix i assume "i \<in> {..<Suc b}"
  then have i: "i \<le> b" by simp
  have I: "0 \<le> W i" "P i \<le> length (S i)" "0 < W i \<Longrightarrow> up (S i)" using inv i by (auto simp: out_inv_def)
  show "W i * int (P i) = W i * int (le_cnt (S i) (INT_MAX - 1))"
  proof (cases "0 < W i")
    case True
    have "\<forall>u\<in>set (take (P i) (S i)). sint u \<le> INT_MAX - 1" using inv i True by (force simp: out_inv_def)
    then have t: "le_cnt (take (P i) (S i)) (INT_MAX - 1) = length (take (P i) (S i))" by (rule le_cnt_all)
    have "\<forall>u\<in>set (drop (P i) (S i)). INT_MAX - 1 < sint u"
    proof
      fix u assume u: "u \<in> set (drop (P i) (S i))"
      then have "P i < length (S i)" by (metis drop_all empty_iff empty_set not_le)
      moreover have "INT_MAX \<le> sint (S i ! P i)" using head i True calculation by (simp add: heads_le_def pending_def)
      ultimately show "INT_MAX - 1 < sint u" using drop_head [OF _ I(3) [OF True] u] by linarith
    qed
    then have "le_cnt (drop (P i) (S i)) (INT_MAX - 1) = 0" by (rule le_cnt_none)
    then have "le_cnt (S i) (INT_MAX - 1) = P i" using t I(2) le_cnt_split [of "S i" "INT_MAX - 1" "P i"] by simp
    then show ?thesis by simp
  qed (use I(1) in simp)
qed

lemma le_cnt_mono: "x \<le> y \<Longrightarrow> le_cnt vs x \<le> le_cnt vs y"
  by (induction vs) auto

lemma src_rank_mono: "(\<And>i. i \<le> b \<Longrightarrow> 0 \<le> W i) \<Longrightarrow> x \<le> y \<Longrightarrow> src_rank b S W x \<le> src_rank b S W y"
  unfolding src_rank_def
  by (intro sum_mono mult_left_mono) (auto simp: less_Suc_eq_le le_cnt_mono)

lemma pos_step:
  assumes "length locs = b" "l \<le> b"
  shows "pos b (if l < b then locs[l := locs ! l + 1] else locs) (if l < b then lp else lp + 1) = (pos b locs lp)(l := Suc (pos b locs lp l))"
  using assms by (auto simp: pos_def fun_eq_iff nth_list_update)

definition to_do :: "nat \<Rightarrow> (nat \<Rightarrow> 32 word list) \<Rightarrow> (nat \<Rightarrow> nat) \<Rightarrow> int" where
  "to_do b S P = (\<Sum>i<Suc b. int (length (S i)) - int (P i))"

lemma to_do_step: "l \<le> b \<Longrightarrow> to_do b S (P(l := Suc (P l))) = to_do b S P - 1"
proof -
  assume "l \<le> b"
  then have "(\<Sum>i<Suc b. int (length (S i)) - int ((P(l := Suc (P l))) i)) =
      (\<Sum>i<Suc b. int (length (S i)) - int (P i)) - (int (length (S l)) - int (P l)) + (int (length (S l)) - int ((P(l := Suc (P l))) l))"
    by (intro sum_change) (auto simp: fun_upd_apply)
  then show ?thesis by (simp only: to_do_def) simp
qed

lemma to_do_nonneg: "out_inv b S W P \<Longrightarrow> 0 \<le> to_do b S P"
  unfolding to_do_def by (intro sum_nonneg) (auto simp: out_inv_def)

lemma out_loop_run:
  fixes s :: aq and b :: nat and lastp :: "32 word list option"
  defines "S \<equiv> \<lambda>s :: aq. src b (a_buf s) lastp" and "W \<equiv> \<lambda>s :: aq. wt b (a_weight s)"
  assumes mono: "\<And>i j. i \<le> j \<Longrightarrow> j < q \<Longrightarrow> next_rank n q i \<le> next_rank n q j"
  assumes "\<And>i. i < b \<Longrightarrow> length (a_buf s ! i) = k" "length locs = b" "out_inv b (S s) (W s) (pos b locs lp)"
    "done_rank b (W s) (pos b locs lp) = rank" "jj \<le> q" "q \<le> length (a_y s)" "jj < q \<longrightarrow> rank < next_rank n q jj"
    "to_do b (S s) (pos b locs lp) < int fuel"
  shows "\<exists>y. out_loop fuel lastp n q b k locs lp rank jj s = (Inr (), s\<lparr>a_y := y\<rparr>) \<and> length y = length (a_y s) \<and>
    (\<forall>j. if jj \<le> j \<and> j < q \<and> next_rank n q j \<le> src_rank b (S s) (W s) (INT_MAX - 1) then answers (src_set b (S s) (W s)) (src_rank b (S s) (W s)) (next_rank n q j) (y ! j)
         else y ! j = a_y s ! j)"
  using assms(4-)
proof (induction fuel arbitrary: locs lp rank jj s)
  case 0
  then show ?case using to_do_nonneg [of b "S s" "W s" "pos b locs lp"] by simp
next
  case (Suc fuel)
  let ?S = "S s" and ?W = "W s" and ?P = "pos b locs lp"
  obtain v lo where h: "least_unproc (a_buf s) (a_weight s) lastp b k locs lp = (v, lo)"
    by (cases "least_unproc (a_buf s) (a_weight s) lastp b k locs lp") auto
  have heads: "heads_le {..<Suc b} ?S ?W ?P (v, lo)"
    unfolding h [symmetric] S_def W_def by (rule least_unproc_heads) (use Suc.prems in auto)
  show ?case
  proof (cases lo)
    case None
    have R: "src_rank b ?S ?W (INT_MAX - 1) = rank" using end_ranks [OF Suc.prems(3) heads [unfolded None]] Suc.prems(4) by simp
    have "\<not> next_rank n q j \<le> src_rank b ?S ?W (INT_MAX - 1)" if "jj \<le> j" "j < q" for j
      using mono [OF that] Suc.prems(7) that unfolding R by fastforce
    then show ?thesis using h None R by (intro exI [of _ "a_y s"]) (auto simp: ret_def)
  next
    case (Some l)
    note heads = heads [unfolded Some]
    have l: "l \<le> b" "sint v < INT_MAX" "v \<in> src_set b ?S ?W"
      using heads by (auto simp: heads_le_def pending_def src_set_def less_Suc_eq_le intro!: exI [of _ l])
    let ?locs = "if l < b then locs[l := locs ! l + 1] else locs" and ?lp = "if l < b then lp else lp + 1" and ?r = "rank + ?W l"
    note rr = round_ranks [OF Suc.prems(3) heads] pos_step [OF Suc.prems(2) l(1), of lp]
    have r: "done_rank b ?W (?P(l := Suc (?P l))) = ?r" using rr(2) Suc.prems(4) by simp
    obtain jj' y where e: "emit n q ?r v jj s = (Inr jj', s\<lparr>a_y := y\<rparr>)" "jj \<le> jj'" "jj' \<le> q" "length y = length (a_y s)"
      "\<forall>j. jj \<le> j \<and> j < jj' \<longrightarrow> next_rank n q j \<le> ?r \<and> y ! j = v" "\<forall>j. j < jj \<or> jj' \<le> j \<longrightarrow> y ! j = a_y s ! j"
      "jj' < q \<longrightarrow> ?r < next_rank n q jj'"
      by (rule emit_run [OF Suc.prems(6,5)])
    let ?s = "s\<lparr>a_y := y\<rparr>"
    have same: "S ?s = ?S" "W ?s = ?W" by (simp_all add: S_def W_def)
    have "out_inv b (S ?s) (W ?s) (pos b ?locs ?lp)" "done_rank b (W ?s) (pos b ?locs ?lp) = ?r"
      "to_do b (S ?s) (pos b ?locs ?lp) < int fuel" "length ?locs = b" "q \<le> length (a_y ?s)"
      using rr(1) r Suc.prems to_do_step [OF l(1), of ?S ?P] e(4) unfolding same rr(5) by simp_all
    then obtain y' where y': "out_loop fuel lastp n q b k ?locs ?lp ?r jj' ?s = (Inr (), ?s\<lparr>a_y := y'\<rparr>)" "length y' = length y"
      "\<And>j. if jj' \<le> j \<and> j < q \<and> next_rank n q j \<le> src_rank b ?S ?W (INT_MAX - 1) then answers (src_set b ?S ?W) (src_rank b ?S ?W) (next_rank n q j) (y' ! j)
         else y' ! j = y ! j"
      using Suc.IH [of ?s ?locs ?lp ?r jj'] Suc.prems(1) e(3,7) unfolding same by auto
    have "out_loop (Suc fuel) lastp n q b k locs lp rank jj s = out_loop fuel lastp n q b k ?locs ?lp ?r jj' ?s"
    proof -
      have "(if l < b then (locs[l := locs ! l + 1], lp, rank + a_weight s ! l) else (locs, lp + 1, rank + 1)) = (?locs, ?lp, ?r)"
        by (simp add: W_def wt_def)
      then show ?thesis
        by (simp only: out_loop.simps seq_get_st h Some prod.case option.case Let_def seq_Inr [where m = "emit n q ?r v jj", OF e(1)])
    qed
    moreover have "if jj \<le> j \<and> j < q \<and> next_rank n q j \<le> src_rank b ?S ?W (INT_MAX - 1) then answers (src_set b ?S ?W) (src_rank b ?S ?W) (next_rank n q j) (y' ! j)
         else y' ! j = a_y s ! j" for j
    proof (cases "jj \<le> j \<and> j < jj'")
      case True
      then have "y' ! j = v" "next_rank n q j \<le> ?r" using y'(3) [of j] e(5) by auto
      moreover have "next_rank n q j \<le> src_rank b ?S ?W (sint v)" using rr(3) r calculation(2) by simp
      moreover have "src_rank b ?S ?W (sint v) \<le> src_rank b ?S ?W (INT_MAX - 1)"
        using l(2) Suc.prems(3) by (intro src_rank_mono) (auto simp: out_inv_def)
      moreover have "src_rank b ?S ?W (sint v - 1) < next_rank n q j"
        using rr(4) Suc.prems(4,7) mono [of jj j] True e(3) by fastforce
      ultimately show ?thesis using True e(3) l(3) by (simp add: answers_def)
    next
      case False
      then have "y ! j = a_y s ! j" using e(6) by auto
      then show ?thesis using y'(3) [of j] False e(2) by (auto split: if_splits)
    qed
    ultimately show ?thesis using y' e(4) by (intro exI [of _ y']) simp
  qed
qed

subsection \<open>Output\<close>

lemma next_rank_props:
  assumes "0 < n" "q * n < 2 ^ 52"
  shows "j < q \<Longrightarrow> next_rank n q j = \<lceil>real ((j + 1) * n) / real q\<rceil>"
    "i \<le> j \<Longrightarrow> j < q \<Longrightarrow> next_rank n q i \<le> next_rank n q j"
    "j < q \<Longrightarrow> 0 < next_rank n q j" "j < q \<Longrightarrow> next_rank n q j \<le> int n"
proof -
  have e: "next_rank n q j = \<lceil>real ((j + 1) * n) / real q\<rceil>" if "j < q" for j
  proof (rule next_rank_exact)
    have "(j + 1) * n \<le> q * n" using that by (intro mult_right_mono) auto
    then show "(j + 1) * n < 2 ^ 52" using assms(2) by linarith
    have "1 * n \<le> q * n" using that by (intro mult_right_mono) auto
    then show "n < 2 ^ 52" using assms(2) by linarith
    have "q * 1 \<le> q * n" using assms(1) by (intro mult_left_mono) auto
    then show "q < 2 ^ 52" using assms(2) by linarith
  qed (use that in simp)
  show "j < q \<Longrightarrow> next_rank n q j = \<lceil>real ((j + 1) * n) / real q\<rceil>" by (rule e)
  show "next_rank n q i \<le> next_rank n q j" if "i \<le> j" "j < q"
  proof -
    have "real ((i + 1) * n) \<le> real ((j + 1) * n)" using that by (intro of_nat_mono mult_right_mono) auto
    then show ?thesis using that e [of i] e [of j] by (auto intro!: ceiling_mono divide_right_mono)
  qed
  show "0 < next_rank n q j" if "j < q"
  proof -
    have "0 < real ((j + 1) * n) / real q" using that assms(1) by (intro divide_pos_pos) (simp_all only: of_nat_0_less_iff, simp_all)
    then show ?thesis by (simp only: e [OF that] zero_less_ceiling)
  qed
  show "next_rank n q j \<le> int n" if "j < q"
  proof -
    have "(j + 1) * n \<le> q * n" using that by (intro mult_right_mono) auto
    then have "(j + 1) * n \<le> n * q" by (simp only: mult.commute)
    then have "real ((j + 1) * n) \<le> real n * real q" by (simp only: of_nat_mult [symmetric] of_nat_le_iff)
    then have "real ((j + 1) * n) / real q \<le> real n" using that by (simp add: pos_divide_le_eq)
    then show ?thesis using e [OF that] by (simp add: ceiling_le_iff)
  qed
qed

text \<open>The rank in the buffers and the last packet.\<close>

definition last_cnt :: "32 word list option \<Rightarrow> int \<Rightarrow> nat" where
  "last_cnt lastp x = (case lastp of None \<Rightarrow> 0 | Some p \<Rightarrow> le_cnt p x)"

definition out_rank :: "nat \<Rightarrow> 32 word list option \<Rightarrow> aq \<Rightarrow> int \<Rightarrow> int" where
  "out_rank b lastp s x = buf_rank b s x + int (last_cnt lastp x)"

definition out_set :: "nat \<Rightarrow> 32 word list option \<Rightarrow> aq \<Rightarrow> 32 word set" where
  "out_set b lastp s = src_set b (src b (a_buf s) lastp) (wt b (a_weight s))"

lemma src_rank_out: "src_rank b (src b (a_buf s) lastp) (wt b (a_weight s)) x = out_rank b lastp s x"
  by (cases lastp) (simp_all add: src_rank_def out_rank_def buf_rank_def last_cnt_def src_def wt_def)

lemma Output_run:
  fixes s :: aq
  assumes core: "aq_core b k xs L s" and p: "case lastp of None \<Rightarrow> True | Some p \<Rightarrow> length p \<le> k \<and> up p"
    and n: "0 < n" "q * n < 2 ^ 52" and q: "q \<le> length (a_y s)"
  obtains y where "Output lastp n q b k s = (Inr (), s\<lparr>a_y := y\<rparr>)" "length y = length (a_y s)"
    "\<And>j. if j < q \<and> next_rank n q j \<le> out_rank b lastp s (INT_MAX - 1) then answers (out_set b lastp s) (out_rank b lastp s) (next_rank n q j) (y ! j)
         else y ! j = a_y s ! j"
proof -
  let ?S = "src b (a_buf s) lastp" and ?W = "wt b (a_weight s)" and ?P = "pos b (replicate b 0) 0"
  have len: "length (a_buf s) = b" "length (a_weight s) = b" "\<And>i. i < b \<Longrightarrow> length (a_buf s ! i) = k" using core by (simp_all add: aq_core_def)
  have P: "?P i = 0" for i by (simp add: pos_def)
  have ups: "0 \<le> ?W i \<and> (0 < ?W i \<longrightarrow> up (?S i))" if "i \<le> b" for i
  proof (cases "i = b")
    case True
    then show ?thesis using p by (auto simp: wt_def src_def split: option.splits)
  next
    case False
    then have "i < b" using that by simp
    then have "a_weight s ! i = 0 \<or> a_weight s ! i = 2 ^ L i \<and> up (a_buf s ! i)" using core by (simp add: aq_core_def)
    then show ?thesis using \<open>i < b\<close> by (auto simp: wt_def src_def)
  qed
  then have inv: "out_inv b ?S ?W ?P" by (simp add: out_inv_def P)
  have dr: "done_rank b ?W ?P = 0" by (simp add: done_rank_def P)
  let ?m = "case lastp of None \<Rightarrow> 0 | Some p \<Rightarrow> length p"
  have td: "to_do b ?S ?P < int (Suc (b * k + ?m))"
  proof -
    have "(\<Sum>i<b. int (length (?S i)) - int (?P i)) = (\<Sum>i<b. int k)" by (rule sum.cong) (use len(3) P in \<open>auto simp: src_def\<close>)
    moreover have "int (length (?S b)) - int (?P b) = int ?m" by (cases lastp) (simp_all add: src_def P)
    ultimately show ?thesis by (simp add: to_do_def)
  qed
  have "0 < q \<longrightarrow> 0 < next_rank n q 0" using next_rank_props(3) [OF n] by blast
  then obtain y where y: "out_loop (Suc (b * k + ?m)) lastp n q b k (replicate b 0) 0 0 0 s = (Inr (), s\<lparr>a_y := y\<rparr>)" "length y = length (a_y s)"
    "\<forall>j. if 0 \<le> j \<and> j < q \<and> next_rank n q j \<le> src_rank b ?S ?W (INT_MAX - 1) then answers (src_set b ?S ?W) (src_rank b ?S ?W) (next_rank n q j) (y ! j)
         else y ! j = a_y s ! j"
    using out_loop_run [OF next_rank_props(2) [OF n] len(3) length_replicate inv dr le0 q _ td] by blast
  have R: "src_rank b ?S ?W = out_rank b lastp s" by (rule ext) (rule src_rank_out)
  have "(k < ?m) = False" using p by (auto split: option.splits)
  moreover have "list_ex (\<lambda>buf. length buf < k) (take b (a_buf s)) = False" using len by (auto simp: list_ex_iff in_set_conv_nth)
  ultimately have "Output lastp n q b k s = (Inr (), s\<lparr>a_y := y\<rparr>)"
    using len y(1) by (simp only: Output_def Let_def seq_bye_if seq_undef_if seq_get_st if_False less_irrefl disj.left_neutral)
  then show thesis using y(2,3) unfolding R out_set_def [symmetric] by (intro that [of y]) auto
qed

end
