(* ===== verification/Aq_Run.thy ===== *)
theory Aq_Run
  imports Aq_Out
begin

text \<open>
  The whole run without a selection: every block of packets goes into the buffers, the last packet is kept,
  and the answers are within the error that was asked for.
\<close>

subsection \<open>Sorting a packet\<close>

lemma diff_fits_iff: "diff_fits p \<longleftrightarrow> (\<forall>a\<in>set p. \<forall>b\<in>set p. - (2 ^ 31) \<le> sint a - sint b \<and> sint a - sint b < 2 ^ 31)"
  by (simp add: diff_fits_def list_all_iff)

lemma diff_fits_sub: "diff_fits x \<Longrightarrow> set p \<subseteq> set x \<Longrightarrow> diff_fits p"
  unfolding diff_fits_iff by blast

lemma sort_packet_run:
  assumes "diff_fits p"
  obtains p' where "sort_packet p s = (Inr p', s)" "mset p' = mset p" "up p'" "length p' = length p"
proof -
  have "sort_packet p s = (Inr (sort_key sint p), s)" using assms by (simp add: sort_packet_def ret_def)
  then show thesis by (rule that) (simp_all add: up_def)
qed

lemma sort_packet_bad: "\<not> diff_fits p \<Longrightarrow> sort_packet p s = (Inl Undef, s)"
  by (simp add: sort_packet_def)

subsection \<open>The packets of a block\<close>

text \<open>The full packets of \<open>R\<close>, at most \<open>m\<close>, then empty ones.\<close>

definition packets :: "nat \<Rightarrow> 32 word list \<Rightarrow> nat \<Rightarrow> 32 word list list" where
  "packets k R m = map (\<lambda>t. if (t + 1) * k \<le> length R then take k (drop (t * k) R) else []) [0..<m]"

definition rest :: "nat \<Rightarrow> 32 word list \<Rightarrow> nat \<Rightarrow> 32 word list option \<Rightarrow> 32 word list option" where
  "rest k R m lastp = (if length R div k < m \<and> length R mod k \<noteq> 0 then Some (drop (length R div k * k) R) else lastp)"

lemma full_iff: "0 < k \<Longrightarrow> (t + 1) * k \<le> n \<longleftrightarrow> t < n div (k :: nat)"
  by (metis Suc_eq_plus1 Suc_le_eq less_eq_div_iff_mult_less_eq)

lemma fill_packets:
  assumes k: "0 < k" and m: "m \<le> NT" and cur: "cur \<le> length x"
  shows "foldl (\<lambda>ul tid. fill_packet x k cur tid ul) (replicate NT [], lastp) [0..<m] =
    (packets k (drop cur x) m @ replicate (NT - m) [], rest k (drop cur x) m lastp)"
  using m
proof (induction m)
  case 0
  show ?case by (simp add: packets_def rest_def)
next
  case (Suc m)
  let ?R = "drop cur x"
  have len: "length (packets k ?R m) = m" by (simp add: packets_def)
  have "NT - m = Suc (NT - Suc m)" using Suc.prems by simp
  then have rep: "replicate (NT - m) [] = [] # replicate (NT - Suc m) ([] :: 32 word list)" by simp
  have upd: "(packets k ?R m @ replicate (NT - m) [])[m := v] = packets k ?R m @ v # replicate (NT - Suc m) []" for v
    unfolding rep using len by (simp add: list_update_append)
  have "foldl (\<lambda>ul tid. fill_packet x k cur tid ul) (replicate NT [], lastp) [0..<Suc m] =
      fill_packet x k cur m (packets k ?R m @ replicate (NT - m) [], rest k ?R m lastp)" using Suc by simp
  also have "\<dots> = (packets k ?R (Suc m) @ replicate (NT - Suc m) [], rest k ?R (Suc m) lastp)"
  proof (cases "m < length ?R div k")
    case True
    then have "(m + 1) * k \<le> length ?R" using full_iff [OF k] by blast
    then have le: "cur + (m + 1) * k \<le> length x" using cur by simp
    have "packets k ?R (Suc m) = packets k ?R m @ [take k (drop (m * k) ?R)]" using \<open>(m + 1) * k \<le> length ?R\<close> by (simp add: packets_def)
    moreover have "rest k ?R (Suc m) lastp = lastp" "rest k ?R m lastp = lastp" using True by (simp_all add: rest_def)
    moreover have "drop (cur + m * k) x = drop (m * k) ?R" by (simp add: add.commute)
    moreover have "fill_packet x k cur m (us, lo) = (us[m := take k (drop (cur + m * k) x)], lo)" for us lo
    proof (cases "length x = cur + m * k + k")
      case False
      then show ?thesis using le k by (auto simp: fill_packet_def Let_def)
    qed (use k in \<open>simp add: fill_packet_def\<close>)
    ultimately show ?thesis by (simp only: upd append_assoc append_Cons append_Nil)
  next
    case False
    then have "\<not> (m + 1) * k \<le> length ?R" using full_iff [OF k] by blast
    then have gt: "length x < cur + m * k + k" using cur by simp
    have P: "packets k ?R (Suc m) @ replicate (NT - Suc m) [] = packets k ?R m @ replicate (NT - m) []"
      using \<open>\<not> (m + 1) * k \<le> length ?R\<close> by (simp add: packets_def rep)
    show ?thesis
    proof (cases "m = length ?R div k \<and> length ?R mod k \<noteq> 0")
      case True
      have "m * k + length ?R mod k = length ?R" using True by simp
      then have "m * k < length ?R" using True by linarith
      then have "cur + m * k < length x" by simp
      moreover have "rest k ?R (Suc m) lastp = Some (drop (m * k) ?R)" using True by (simp add: rest_def)
      moreover have "length x - (cur + m * k) \<noteq> k" "length x \<le> cur + m * k + k" using gt calculation(1) by linarith+
      ultimately show ?thesis unfolding P by (simp add: fill_packet_def Let_def add.commute)
    next
      case no: False
      have "length ?R \<le> m * k"
      proof (cases "m = length ?R div k")
        case True
        then have "length ?R mod k = 0" using no by blast
        then have "length ?R = length ?R div k * k" using div_mult_mod_eq [of "length ?R" k] by linarith
        then show ?thesis unfolding True by linarith
      next
        case ne: False
        then have "0 < m" "\<not> (m - 1 + 1) * k \<le> length ?R" using False full_iff [OF k, of "m - 1" "length ?R"] by simp_all
        moreover have "m - 1 + 1 = m" using \<open>0 < m\<close> by simp
        ultimately show ?thesis by (simp only: not_le less_imp_le)
      qed
      then have "length x \<le> cur + m * k" by simp
      moreover have "rest k ?R (Suc m) lastp = rest k ?R m lastp" using no False by (auto simp: rest_def)
      ultimately show ?thesis unfolding P by (simp add: fill_packet_def)
    qed
  qed
  finally show ?case .
qed

lemma packets_full:
  assumes "0 < k"
  shows "concat (filter (\<lambda>p. length p = k) (packets k R m)) = take (min (length R div k) m * k) R"
    "sum_list (map length (packets k R m)) = min (length R div k) m * k"
proof -
  have "concat (filter (\<lambda>p. length p = k) (packets k R m)) = take (min (length R div k) m * k) R \<and>
      sum_list (map length (packets k R m)) = min (length R div k) m * k"
  proof (induction m)
    case (Suc m)
    show ?case
    proof (cases "m < length R div k")
      case True
      then have le: "(m + 1) * k \<le> length R" using full_iff [OF assms] by blast
      then have P: "packets k R (Suc m) = packets k R m @ [take k (drop (m * k) R)]" by (simp add: packets_def)
      have "take (Suc m * k) R = take (m * k) R @ take k (drop (m * k) R)" by (metis take_add add.commute mult_Suc)
      moreover have "min (length R div k) (Suc m) = Suc m" "min (length R div k) m = m" using True by simp_all
      moreover have "length (take k (drop (m * k) R)) = k" using le by simp
      ultimately show ?thesis using Suc.IH unfolding P by simp
    next
      case False
      then have "\<not> (m + 1) * k \<le> length R" using full_iff [OF assms] by blast
      then have P: "packets k R (Suc m) = packets k R m @ [[]]" by (simp add: packets_def)
      have "min (length R div k) (Suc m) = min (length R div k) m" using False by simp
      then show ?thesis using Suc.IH assms unfolding P by simp
    qed
  qed (simp add: packets_def)
  then show "concat (filter (\<lambda>p. length p = k) (packets k R m)) = take (min (length R div k) m * k) R"
    "sum_list (map length (packets k R m)) = min (length R div k) m * k" by blast+
qed

lemma fill_block_run:
  assumes k: "0 < k" and cur: "cur \<le> length x"
  shows "fill_block x None n k NT (cur, None) s =
    (Inr (cur + min (length (drop cur x) div k) NT * k + (case rest k (drop cur x) NT None of None \<Rightarrow> 0 | Some p \<Rightarrow> length p),
          packets k (drop cur x) NT, rest k (drop cur x) NT None), s)"
  using fill_packets [OF k order.refl cur, of NT None] by (simp add: fill_block_def packets_full [OF k] ret_def)

subsection \<open>The packets go into the buffers\<close>

lemma sort_packets_run:
  assumes "\<forall>p\<in>set us. length p = k \<longrightarrow> diff_fits p"
  obtains us' where "for_fold us acc (\<lambda>p acc. if length p \<noteq> k then ret (acc @ [p]) else seq (sort_packet p) (\<lambda>p. ret (acc @ [p]))) s = (Inr (acc @ us'), s)"
    "list_all2 (\<lambda>p p'. mset p' = mset p \<and> (length p = k \<longrightarrow> up p')) us us'"
proof -
  have "\<exists>us'. for_fold us acc (\<lambda>p acc. if length p \<noteq> k then ret (acc @ [p]) else seq (sort_packet p) (\<lambda>p. ret (acc @ [p]))) s = (Inr (acc @ us'), s) \<and>
      list_all2 (\<lambda>p p'. mset p' = mset p \<and> (length p = k \<longrightarrow> up p')) us us'"
    using assms
  proof (induction us arbitrary: acc)
    case (Cons p us)
    show ?case
    proof (cases "length p = k")
      case True
      obtain p' where p': "sort_packet p s = (Inr p', s)" "mset p' = mset p" "up p'" by (rule sort_packet_run [of p s]) (use Cons.prems True in auto)
      obtain us' where us': "for_fold us (acc @ [p']) (\<lambda>p acc. if length p \<noteq> k then ret (acc @ [p]) else seq (sort_packet p) (\<lambda>p. ret (acc @ [p]))) s =
          (Inr ((acc @ [p']) @ us'), s)" "list_all2 (\<lambda>p p'. mset p' = mset p \<and> (length p = k \<longrightarrow> up p')) us us'"
        using Cons.IH [of "acc @ [p']"] Cons.prems by auto
      show ?thesis using True p' us' by (intro exI [of _ "p' # us'"]) (simp add: seq_assoc seq_Inr [where m = "sort_packet p", OF p'(1)])
    next
      case False
      obtain us' where us': "for_fold us (acc @ [p]) (\<lambda>p acc. if length p \<noteq> k then ret (acc @ [p]) else seq (sort_packet p) (\<lambda>p. ret (acc @ [p]))) s =
          (Inr ((acc @ [p]) @ us'), s)" "list_all2 (\<lambda>p p'. mset p' = mset p \<and> (length p = k \<longrightarrow> up p')) us us'"
        using Cons.IH [of "acc @ [p]"] Cons.prems by auto
      show ?thesis using False us' by (intro exI [of _ "p # us'"]) simp
    qed
  qed (simp add: ret_def)
  then show thesis using that by blast
qed

lemma fst_Inl_iff: "fst r = Inl e \<longleftrightarrow> (\<exists>s. r = (Inl e, s))"
  by (cases r) auto

lemma sort_packets_bad:
  "\<exists>p\<in>set us. length p = k \<and> \<not> diff_fits p \<Longrightarrow>
    fst (for_fold us acc (\<lambda>p acc. if length p \<noteq> k then ret (acc @ [p]) else seq (sort_packet p) (\<lambda>p. ret (acc @ [p]))) s) = Inl Undef"
proof (induction us arbitrary: acc)
  case (Cons p us)
  show ?case
  proof (cases "length p = k")
    case True
    show ?thesis
    proof (cases "diff_fits p")
      case fits: True
      then obtain p' where p': "sort_packet p s = (Inr p', s)" by (rule sort_packet_run)
      show ?thesis using Cons fits True by (simp add: seq_assoc seq_Inr [where m = "sort_packet p", OF p'])
    next
      case False
      then show ?thesis using True by (simp add: seq_assoc seq_Inl [where m = "sort_packet p", OF sort_packet_bad])
    qed
  next
    case False
    then show ?thesis using Cons by simp
  qed
qed simp

lemma packets_sub: "p \<in> set (packets k R m) \<Longrightarrow> set p \<subseteq> set R"
  by (auto simp: packets_def split: if_splits dest!: in_set_takeD in_set_dropD)

lemma add_packets_run:
  assumes b: "0 < b" "0 < k" "n \<le> k * 2 ^ (b - 1)" "n < 2 ^ 31 * k"
    and "aq_inv b k xs L s" "\<forall>p\<in>set us. length p = k \<longrightarrow> up p" "length xs + length (concat (filter (\<lambda>p. length p = k) us)) \<le> n"
  shows "\<exists>s' L'. for_each us (\<lambda>p. if length p \<noteq> k then ret () else add_packet b k p) s = (Inr (), s') \<and>
    aq_inv b k (xs @ concat (filter (\<lambda>p. length p = k) us)) L' s' \<and> a_y s' = a_y s \<and> a_good s' = a_good s"
  using assms(5-)
proof (induction us arbitrary: xs L s)
  case Nil
  then show ?case by (auto simp: ret_def)
next
  case (Cons p us)
  show ?case
  proof (cases "length p = k")
    case True
    have "int (length xs) = weight_sum b s * int k" using Cons.prems(1) by (simp add: aq_inv_def aq_core_def)
    moreover have "length xs + k \<le> n" using Cons.prems(3) True by simp
    ultimately have w: "(weight_sum b s + 1) * int k \<le> int n" unfolding distrib_right by linarith
    have "int n \<le> 2 ^ (b - 1) * int k" using b(3) unfolding of_nat_le_iff [symmetric, where 'a = int] by (simp add: mult.commute)
    then have "(weight_sum b s + 1) * int k \<le> 2 ^ (b - 1) * int k" using w by linarith
    then have "weight_sum b s + 1 \<le> 2 ^ (b - 1)" using b(2) by simp
    moreover have "(2 :: int) ^ (b - 1) + 2 ^ (b - 1) = 2 ^ b" using b(1) by (cases b) auto
    moreover have "(1 :: int) \<le> 2 ^ (b - 1)" by simp
    ultimately have lt1: "weight_sum b s < 2 ^ b - 1" by linarith
    have "int n < 2 ^ 31 * int k" using b(4) unfolding of_nat_less_iff [symmetric, where 'a = int] by simp
    then have "(weight_sum b s + 1) * int k < 2 ^ 31 * int k" using w by linarith
    then have lt2: "weight_sum b s < 2 ^ 31" using b(2) by simp
    have "up p" using Cons.prems(2) True by simp
    then obtain s1 L1 where s1: "add_packet b k p s = (Inr (), s1)" "aq_inv b k (xs @ p) L1 s1" "a_y s1 = a_y s" "a_good s1 = a_good s"
      using add_packet_run [OF Cons.prems(1) True _ lt1 lt2] by metis
    obtain s' L' where "for_each us (\<lambda>p. if length p \<noteq> k then ret () else add_packet b k p) s1 = (Inr (), s')"
      "aq_inv b k ((xs @ p) @ concat (filter (\<lambda>p. length p = k) us)) L' s'" "a_y s' = a_y s1" "a_good s' = a_good s1"
      using Cons.IH [OF s1(2)] Cons.prems(2,3) True by auto
    then show ?thesis using True s1
      by (intro exI [of _ s'] exI [of _ L']) (simp add: seq_Inr [where m = "add_packet b k p", OF s1(1)])
  next
    case False
    then show ?thesis using Cons.IH [OF Cons.prems(1)] Cons.prems by simp
  qed
qed

lemma filter_sorted_packets:
  assumes "list_all2 (\<lambda>p p'. mset p' = mset p \<and> (length p = k \<longrightarrow> up p')) us us'"
  shows "mset (concat (filter (\<lambda>p. length p = k) us')) = mset (concat (filter (\<lambda>p. length p = k) us))"
    "\<forall>p\<in>set us'. length p = k \<longrightarrow> up p" "map length us' = map length us"
  using assms by (induction us us' rule: list_all2_induct) (auto dest: mset_eq_length)

text \<open>All blocks: \<open>R cur\<close> is what is still to be read.  \<open>bad\<close>: the last element is selected, so that the block is full at
  the end of \<open>x\<close> if it takes all that is left.\<close>

lemma block_step:
  assumes b: "0 < b" "0 < k" "N \<le> k * 2 ^ (b - 1)" "N < 2 ^ 31 * k"
    and inv: "aq_inv b k xs L s" "length xs + length R = N" and cur: "cur < length x"
    and fb: "fill_block x cfld e k NT (cur, None) s = (Inr (cur', packets k R NT, rest k R NT None), s)"
  obtains (unsafe) "fst (block_loop (Suc fuel) x cfld e b k NT (cur, None) s) = Inl Undef" "\<not> diff_fits R"
  | (step) s' L' xs' where "block_loop (Suc fuel) x cfld e b k NT (cur, None) s = block_loop fuel x cfld e b k NT (cur', rest k R NT None) s'"
    "aq_inv b k xs' L' s'" "mset xs' = mset (xs @ take (min (length R div k) NT * k) R)" "a_y s' = a_y s" "a_good s' = a_good s"
proof (cases "\<forall>p\<in>set (packets k R NT). length p = k \<longrightarrow> diff_fits p")
  case False
  let ?us = "packets k R NT"
  have "\<not> diff_fits R" using False packets_sub diff_fits_sub by blast
  moreover have "fst (for_fold ?us [] (\<lambda>p acc. if length p \<noteq> k then ret (acc @ [p]) else seq (sort_packet p) (\<lambda>p. ret (acc @ [p]))) s) = Inl Undef"
    by (rule sort_packets_bad) (use False in blast)
  from this [unfolded fst_Inl_iff] obtain s' where "for_fold ?us [] (\<lambda>p acc. if length p \<noteq> k then ret (acc @ [p]) else seq (sort_packet p) (\<lambda>p. ret (acc @ [p]))) s = (Inl Undef, s')" ..
  then have "fst (block_loop (Suc fuel) x cfld e b k NT (cur, None) s) = Inl Undef"
    by (simp only: block_loop.simps fst_conv cur if_True seq_Inr [where m = "fill_block _ _ _ _ _ _", OF fb] prod.case
      seq_Inl [where m = "for_fold _ _ _"])
  ultimately show thesis by (intro unsafe)
next
  case True
  let ?us = "packets k R NT" and ?l = "rest k R NT None"
  from True obtain us' where us: "for_fold ?us [] (\<lambda>p acc. if length p \<noteq> k then ret (acc @ [p]) else seq (sort_packet p) (\<lambda>p. ret (acc @ [p]))) s = (Inr us', s)"
    "list_all2 (\<lambda>p p'. mset p' = mset p \<and> (length p = k \<longrightarrow> up p')) ?us us'"
    using sort_packets_run [of ?us k "[]" s] by auto
  note fs = filter_sorted_packets [OF us(2)]
  have C: "mset (concat (filter (\<lambda>p. length p = k) us')) = mset (take (min (length R div k) NT * k) R)"
    using fs(1) packets_full(1) [OF b(2), of R NT] by simp
  have "length (concat (filter (\<lambda>p. length p = k) us')) \<le> length R" using mset_eq_length [OF C] by simp
  then have "length xs + length (concat (filter (\<lambda>p. length p = k) us')) \<le> N" using inv(2) by linarith
  from add_packets_run [OF b(1-4) inv(1) fs(2) this]
  obtain s' L' where s': "for_each us' (\<lambda>p. if length p \<noteq> k then ret () else add_packet b k p) s = (Inr (), s')"
    "aq_inv b k (xs @ concat (filter (\<lambda>p. length p = k) us')) L' s'" "a_y s' = a_y s" "a_good s' = a_good s" by blast
  have "mset (xs @ concat (filter (\<lambda>p. length p = k) us')) = mset (xs @ take (min (length R div k) NT * k) R)"
    using C by simp
  moreover have "block_loop (Suc fuel) x cfld e b k NT (cur, None) s = block_loop fuel x cfld e b k NT (cur', ?l) s'"
    by (simp only: block_loop.simps fst_conv cur if_True seq_Inr [where m = "fill_block _ _ _ _ _ _", OF fb] prod.case
      seq_Inr [where m = "for_fold _ _ _", OF us(1)] seq_Inr [where m = "for_each _ _", OF s'(1)])
  ultimately show thesis using s' step by blast
qed

lemma mset_take_drop: "mset us = mset (vs @ take t R) \<Longrightarrow> mset (us @ drop t R) = mset (vs @ R)"
  by (metis append.assoc append_take_drop_id mset_append)

definition next_ok :: "nat \<Rightarrow> nat \<Rightarrow> nat \<Rightarrow> (nat \<Rightarrow> 32 word list) \<Rightarrow> nat \<Rightarrow> nat \<Rightarrow> bool" where
  "next_ok k NT n R cur cur' \<longleftrightarrow> cur < cur' \<and> cur' \<le> n \<and>
     (if rest k (R cur) NT None = None then R cur' = drop (min (length (R cur) div k) NT * k) (R cur) else cur' = n)"

lemma block_loop_run:
  assumes b: "0 < b" "0 < k" "N \<le> k * 2 ^ (b - 1)" "N < 2 ^ 31 * k" "0 < NT"
    and step: "\<And>cur s :: aq. cur < length x \<Longrightarrow> if bad \<and> length (R cur) = NT * k then fill_block x cfld e k NT (cur, None) s = (Inl Undef, s)
      else \<exists>cur'. fill_block x cfld e k NT (cur, None) s = (Inr (cur', packets k (R cur) NT, rest k (R cur) NT None), s) \<and>
        next_ok k NT (length x) R cur cur'"
    and fin: "R (length x) = []" "\<And>cur. bad \<Longrightarrow> cur < length x \<Longrightarrow> R cur \<noteq> []"
    and "aq_inv b k xs L s" "length xs + length (R cur) = N" "cur \<le> length x" "length x - cur < fuel"
  shows "if bad \<and> cur < length x \<and> NT * k dvd length (R cur) then fst (block_loop fuel x cfld e b k NT (cur, None) s) = Inl Undef
    else diff_fits (R cur) \<longrightarrow> (\<exists>lastp s' L' xs'. block_loop fuel x cfld e b k NT (cur, None) s = (Inr lastp, s') \<and> aq_inv b k xs' L' s' \<and>
      a_y s' = a_y s \<and> a_good s' = a_good s \<and>
      (case lastp of None \<Rightarrow> mset xs' = mset (xs @ R cur) | Some p \<Rightarrow> length p < k \<and> mset (xs' @ p) = mset (xs @ R cur)))"
  using assms(9-)
proof (induction fuel arbitrary: cur s L xs)
  case (Suc fuel)
  let ?R = "R cur" and ?l = "rest k (R cur) NT None" and ?m = "min (length (R cur) div k) NT"
  have dm: "length ?R div k * k + length ?R mod k = length ?R" by (rule div_mult_mod_eq)
  show ?case
  proof (cases "cur < length x")
    case False
    then have "block_loop (Suc fuel) x cfld e b k NT (cur, None) s = (Inr None, s)" "?R = []" using fin(1) Suc.prems(3) by (simp_all add: ret_def)
    then show ?thesis using Suc.prems False by auto
  next
    case True
    note st = step [OF True, of s]
    show ?thesis
    proof (cases "bad \<and> length ?R = NT * k")
      case over: True
      then have "block_loop (Suc fuel) x cfld e b k NT (cur, None) s = (Inl Undef, s)"
        using st True by (simp add: seq_Inl [where m = "fill_block _ _ _ _ _ _"])
      then show ?thesis using over True by simp
    next
      case ok: False
      then obtain cur' where fb: "fill_block x cfld e k NT (cur, None) s = (Inr (cur', packets k ?R NT, ?l), s)" "next_ok k NT (length x) R cur cur'"
        using st by (simp only: if_False) blast
      note nx = fb(2) [unfolded next_ok_def]
      have f: "length x - cur' < fuel" "cur' \<le> length x" using nx Suc.prems(4) by linarith+
      consider (unsafe) "fst (block_loop (Suc fuel) x cfld e b k NT (cur, None) s) = Inl Undef" "\<not> diff_fits ?R"
        | (step) s1 L1 xs1 where "block_loop (Suc fuel) x cfld e b k NT (cur, None) s = block_loop fuel x cfld e b k NT (cur', ?l) s1"
          "aq_inv b k xs1 L1 s1" "mset xs1 = mset (xs @ take (?m * k) ?R)" "a_y s1 = a_y s" "a_good s1 = a_good s"
        by (rule block_step [OF b(1-4) Suc.prems(1,2) True fb(1), where fuel = fuel]) blast+
      then show ?thesis
      proof cases
        case unsafe
        then show ?thesis by (simp split del: if_split add: if_bool_eq_disj)
      next
      case s1: (step s1 L1 xs1)
      show ?thesis
      proof (cases "?l = None")
        case False
        let ?p = "drop (length ?R div k * k) ?R"
        have last: "length ?R div k < NT" "length ?R mod k \<noteq> 0" "?l = Some ?p" using False by (auto simp: rest_def split: if_splits)
        have "length ?p = length ?R - length ?R div k * k" by (rule length_drop)
        then have "length ?p = length ?R mod k" using dm by linarith
        moreover have "\<not> NT * k dvd length ?R" using last(2) by (meson dvd_mult_right mod_0_imp_dvd dvd_imp_mod_0)
        moreover have "block_loop fuel x cfld e b k NT (cur', ?l) s1 = (Inr (Some ?p), s1)"
          using f False nx unfolding last(3) by (cases fuel) (simp_all add: ret_def)
        moreover have "mset (xs1 @ ?p) = mset (xs @ ?R)" using s1(3) last(1) by (intro mset_take_drop) simp
        ultimately show ?thesis using s1 b(2) by (auto intro!: exI [of _ "Some ?p"] exI [of _ s1] exI [of _ L1] exI [of _ xs1])
      next
        case none: True
        then have R': "R cur' = drop (?m * k) ?R" using nx by simp
        have "?m * k \<le> length ?R div k * k" by (intro mult_right_mono) auto
        then have le: "?m * k \<le> length ?R" using dm by linarith
        have "length xs1 = length xs + ?m * k" using mset_eq_length [OF s1(3)] le by simp
        then have n': "length xs1 + length (R cur') = N" using Suc.prems(2) le R' by simp
        have ms: "mset (xs1 @ R cur') = mset (xs @ ?R)"
          unfolding R' by (rule mset_take_drop [OF s1(3)])
        have div: "bad \<and> cur' < length x \<and> NT * k dvd length (R cur') \<longleftrightarrow> bad \<and> NT * k dvd length ?R"
        proof (cases bad)
          case bad: True
          have Rne: "0 < length ?R" using fin(2) [OF bad True] by simp
          show ?thesis
          proof (cases "NT \<le> length ?R div k")
            case True
            then have m: "?m * k = NT * k" "NT * k \<le> length ?R" using le by simp_all
            then have d: "NT * k dvd length (R cur') \<longleftrightarrow> NT * k dvd length ?R" unfolding R' m(1) length_drop by (simp add: dvd_minus_self)
            have "length (R cur') \<noteq> 0" using ok bad m(2) unfolding R' m(1) length_drop by simp
            then have "cur' < length x" using fin(1) nx by (cases "cur' = length x") auto
            then show ?thesis using d by simp
          next
            case False
            then have "length ?R mod k = 0" using none by (auto simp: rest_def split: if_splits)
            then have "length ?R = ?m * k" using False dm by simp
            then have "R cur' = []" unfolding R' by simp
            then have "\<not> cur' < length x" using fin(2) [OF bad, of cur'] by blast
            moreover have "length ?R div k * k < NT * k" using False b(2) by simp
            then have "length ?R < NT * k" using dm \<open>length ?R mod k = 0\<close> by linarith
            then have "\<not> NT * k dvd length ?R" using Rne by (auto dest: dvd_imp_le)
            ultimately show ?thesis by blast
          qed
        qed blast
        show ?thesis using Suc.IH [OF s1(2) n' f(2,1)] True s1(4,5) unfolding s1(1) none div mset_append [symmetric] ms
          using diff_fits_sub [of ?R "R cur'"] set_drop_subset [of "?m * k" ?R] unfolding R' [symmetric] by (simp only: True simp_thms) (simp split: if_splits)
      qed
      qed
    qed
  qed
qed simp

end
