(* ===== verification/Aq_Sel.thy ===== *)
theory Aq_Sel
  imports Aq_Run
begin

text \<open>
  The blocks with a selection: the scan takes the selected elements, \<open>k\<close> to a packet.
\<close>

definition selected :: "32 word list \<Rightarrow> int list option \<Rightarrow> nat \<Rightarrow> 32 word list" where
  "selected x cfld cur = (case cfld of None \<Rightarrow> drop cur x | Some c \<Rightarrow> map (nth x) (filter (\<lambda>i. c ! i \<noteq> 0) [cur..<length x]))"

lemma selected_step:
  "cur < length x \<Longrightarrow> selected x (Some c) cur = (if c ! cur \<noteq> 0 then x ! cur # selected x (Some c) (Suc cur) else selected x (Some c) (Suc cur))"
  by (simp add: selected_def upt_conv_Cons)

lemma selected_end: "selected x cfld (length x) = []"
  by (simp add: selected_def split: option.splits)

lemma eff_size_selected: "eff_size x cfld = length (selected x cfld 0)"
  by (simp add: eff_size_def selected_def split: option.splits)

lemma selected_last: "cur < length x \<Longrightarrow> c ! (length x - 1) \<noteq> 0 \<Longrightarrow> selected x (Some c) cur \<noteq> []"
  by (auto simp: selected_def filter_empty_conv intro!: bexI [of _ "length x - 1"])

subsection \<open>The packets while they fill\<close>

definition chunks :: "nat \<Rightarrow> 32 word list \<Rightarrow> nat \<Rightarrow> 32 word list list" where
  "chunks k D m = map (\<lambda>t. take k (drop (t * k) D)) [0..<m]"

lemma chunk_nth:
  assumes "0 < k" "t < m"
  shows "chunks k D m ! t = (if t = length D div k then drop (length D div k * k) D else if t < length D div k then take k (drop (t * k) D) else [])"
proof -
  have dm: "length D div k * k + length D mod k = length D" by (rule div_mult_mod_eq)
  have mk: "length D mod k < k" using assms(1) by simp
  have ch: "chunks k D m ! t = take k (drop (t * k) D)" using assms(2) by (simp add: chunks_def)
  show ?thesis
  proof (cases "t \<le> length D div k")
    case True
    have "length (drop (length D div k * k) D) < k" using dm mk by (simp only: length_drop)
    then show ?thesis using True ch by auto
  next
    case False
    then have "(length D div k + 1) * k \<le> t * k" by (intro mult_right_mono) auto
    then have "length D \<le> t * k" using dm mk unfolding distrib_right by linarith
    then show ?thesis using False ch by simp
  qed
qed

lemma chunks_add:
  assumes k: "0 < k" and t: "length D div k < m"
  shows "(chunks k D m)[length D div k := chunks k D m ! (length D div k) @ [v]] = chunks k (D @ [v]) m"
    "length (chunks k (D @ [v]) m ! (length D div k)) = length D mod k + 1"
    "(if length D mod k + 1 = k then length D div k + 1 else length D div k) = length (D @ [v]) div k"
proof -
  let ?t = "length D div k"
  have dm: "?t * k + length D mod k = length D" by (rule div_mult_mod_eq)
  have mk: "length D mod k < k" using k by simp
  show "(chunks k D m)[?t := chunks k D m ! ?t @ [v]] = chunks k (D @ [v]) m"
  proof (rule nth_equalityI)
    fix t assume "t < length ((chunks k D m)[?t := chunks k D m ! ?t @ [v]])"
    then have tm: "t < m" by (simp add: chunks_def)
    have new: "chunks k (D @ [v]) m ! t = take k (drop (t * k) (D @ [v]))" using tm by (simp add: chunks_def)
    consider "t < ?t" | "t = ?t" | "?t < t" by linarith
    then show "(chunks k D m)[?t := chunks k D m ! ?t @ [v]] ! t = chunks k (D @ [v]) m ! t"
    proof cases
      case 1
      then have "(t + 1) * k \<le> length D" using full_iff [OF k] by blast
      then show ?thesis using 1 tm new chunk_nth [OF k tm, of D] by simp
    next
      case 2
      have "t * k \<le> length D" "length D - t * k < k" using dm mk unfolding 2 by linarith+
      then show ?thesis using 2 tm new chunk_nth [OF k tm, of D] by (simp add: chunks_def)
    next
      case 3
      then have "(?t + 1) * k \<le> t * k" by (intro mult_right_mono) auto
      then have "Suc (length D) \<le> t * k" using dm mk unfolding distrib_right mult_1 by linarith
      then have "length (D @ [v]) \<le> t * k" by simp
      then show ?thesis using 3 tm new chunk_nth [OF k tm, of D] by simp
    qed
  qed (simp add: chunks_def)
  have "?t * k \<le> length D" "length D - ?t * k = length D mod k" using dm by linarith+
  then show "length (chunks k (D @ [v]) m ! ?t) = length D mod k + 1" using t mk by (simp add: chunks_def)
  show "(if length D mod k + 1 = k then ?t + 1 else ?t) = length (D @ [v]) div k"
    by (simp add: div_Suc mod_Suc)
qed

lemma scan_run:
  fixes x :: "32 word list" and c :: "int list"
  assumes k: "0 < k" and "length D \<le> m * k" "cur \<le> length x"
  defines "S \<equiv> selected x (Some c)"
  shows "\<exists>cur'. scan x c k m cur (length D div k) (chunks k D m) =
      (cur', length (D @ take (m * k - length D) (S cur)) div k, chunks k (D @ take (m * k - length D) (S cur)) m) \<and>
    cur \<le> cur' \<and> cur' \<le> length x \<and> S cur' = drop (m * k - length D) (S cur) \<and> (length (S cur) < m * k - length D \<longrightarrow> cur' = length x) \<and>
    (cur < length x \<and> length D < m * k \<longrightarrow> cur < cur') \<and>
    (length (S cur) = m * k - length D \<and> length D < m * k \<longrightarrow> (cur' = length x \<longleftrightarrow> cur < length x \<and> c ! (length x - 1) \<noteq> 0))"
  using assms(2,3)
proof (induction "length x - cur" arbitrary: cur D)
  case 0
  then have "cur = length x" by simp
  moreover from this have "scan x c k m cur (length D div k) (chunks k D m) = (cur, length D div k, chunks k D m)"
    by (subst scan.simps) simp
  ultimately
  show ?case using 0 selected_end [of x "Some c"] by (intro exI [of _ cur]) (simp add: S_def)
next
  case (Suc d)
  have lt: "cur < length x" using Suc.hyps(2) by simp
  show ?case
  proof (cases "length D = m * k")
    case True
    then have "scan x c k m cur (length D div k) (chunks k D m) = (cur, length D div k, chunks k D m)" using k by (subst scan.simps) simp
    then show ?thesis using True Suc.prems by (intro exI [of _ cur]) simp
  next
    case False
    then have D: "length D < m * k" using Suc.prems(1) by simp
    then have tid: "length D div k < m" using k by (simp add: less_mult_imp_div_less)
    show ?thesis
    proof (cases "c ! cur = 0")
      case True
      have "scan x c k m cur (length D div k) (chunks k D m) = scan x c k m (Suc cur) (length D div k) (chunks k D m)"
        using True lt tid by (subst scan.simps) simp
      moreover have "S cur = S (Suc cur)" using selected_step [OF lt, of c] True by (simp add: S_def)
      moreover have "d = length x - Suc cur" "Suc cur \<le> length x" using Suc.hyps(2) lt by simp_all
      moreover note Suc.hyps(1) [OF calculation(3) Suc.prems(1) calculation(4)]
      moreover have "Suc cur = length x \<Longrightarrow> c ! (length x - 1) = 0" using True by (metis diff_Suc_1)
      ultimately show ?thesis using lt D by (auto intro: Suc_leD simp: selected_end S_def)
    next
      case sel: False
      let ?D = "D @ [x ! cur]"
      have "(if length (chunks k ?D m ! (length D div k)) = k then length D div k + 1 else length D div k) = length ?D div k"
        using chunks_add(2,3) [OF k tid, of "x ! cur"] by simp
      then have sc: "scan x c k m cur (length D div k) (chunks k D m) = scan x c k m (Suc cur) (length ?D div k) (chunks k ?D m)"
        using sel lt tid chunks_add(1) [OF k tid, of "x ! cur"] by (subst scan.simps) (simp add: Let_def)
      have S: "S cur = x ! cur # S (Suc cur)" using selected_step [OF lt, of c] sel by (simp add: S_def)
      have h: "d = length x - Suc cur" "length ?D \<le> m * k" "Suc cur \<le> length x" using Suc.hyps(2) lt D by simp_all
      obtain M where M: "m * k - length D = Suc M" "m * k - length ?D = M" using D by (cases "m * k - length D") auto
      obtain cur' where c': "scan x c k m (Suc cur) (length ?D div k) (chunks k ?D m) =
          (cur', length (?D @ take M (S (Suc cur))) div k, chunks k (?D @ take M (S (Suc cur))) m)"
        "Suc cur \<le> cur'" "cur' \<le> length x" "S cur' = drop M (S (Suc cur))" "length (S (Suc cur)) < M \<longrightarrow> cur' = length x"
        "length (S (Suc cur)) = M \<and> length ?D < m * k \<longrightarrow> (cur' = length x \<longleftrightarrow> Suc cur < length x \<and> c ! (length x - 1) \<noteq> 0)"
        using Suc.hyps(1) [OF h] unfolding M by blast
      have "cur' = length x \<longleftrightarrow> c ! (length x - 1) \<noteq> 0" if e: "length (S (Suc cur)) = M"
      proof (cases "length ?D < m * k")
        case True
        then have "0 < M" using M(2) by simp
        then have "S (Suc cur) \<noteq> []" using e by auto
        then have "Suc cur < length x" using selected_end [of x "Some c"] h(3) by (cases "Suc cur = length x") (auto simp: S_def)
        then show ?thesis using c'(6) e True by blast
      next
        case False
        then have M0: "M = 0" using M(2) h(2) by simp
        then have "scan x c k m (Suc cur) (length ?D div k) (chunks k ?D m) = (Suc cur, length ?D div k, chunks k ?D m)"
          using False h(2) k by (subst scan.simps) (simp add: le_antisym)
        then have "cur' = Suc cur" using c'(1) by simp
        moreover have "S (Suc cur) = []" using e M0 by simp
        then have "c ! (length x - 1) \<noteq> 0 \<Longrightarrow> \<not> Suc cur < length x" using selected_last [of "Suc cur" x c] by (auto simp: S_def)
        moreover have "Suc cur = length x \<Longrightarrow> c ! (length x - 1) \<noteq> 0" using sel by (metis diff_Suc_1)
        ultimately show ?thesis using h(3) by auto
      qed
      then show ?thesis using sc c' S lt unfolding M by (intro exI [of _ cur']) auto
    qed
  qed
qed

subsection \<open>A block\<close>

lemma chunks_Nil: "chunks k [] m = replicate m []"
  by (simp add: chunks_def map_replicate_const)

text \<open>Without the chunk that is not full.\<close>

lemma chunks_packets:
  assumes k: "0 < k"
  shows "m \<le> length R div k \<Longrightarrow> chunks k (take (m * k) R) m = packets k R m"
    "length R div k < m \<Longrightarrow> (chunks k R m)[length R div k := []] = packets k R m"
    "length R div k < m \<Longrightarrow> length R mod k = 0 \<Longrightarrow> chunks k R m = packets k R m"
    "length R div k < m \<Longrightarrow> chunks k R m ! (length R div k) = drop (length R div k * k) R"
proof -
  have dm: "length R div k * k + length R mod k = length R" by (rule div_mult_mod_eq)
  have pk: "packets k R m ! t = (if t < length R div k then take k (drop (t * k) R) else [])" if "t < m" for t
    using that full_iff [OF k, of t "length R"] by (simp add: packets_def)
  have len: "length (packets k R m) = m" "length (chunks k R m) = m" by (simp_all add: packets_def chunks_def)
  show "chunks k (take (m * k) R) m = packets k R m" if m: "m \<le> length R div k"
  proof (rule nth_equalityI)
    fix t assume "t < length (chunks k (take (m * k) R) m)"
    then have t: "t < m" by (simp add: chunks_def)
    then have "(t + 1) * k \<le> m * k" by (intro mult_right_mono) auto
    then show "chunks k (take (m * k) R) m ! t = packets k R m ! t" using t m pk [OF t] by (simp add: chunks_def drop_take min_def)
  qed (simp add: chunks_def packets_def)
  show "(chunks k R m)[length R div k := []] = packets k R m" if m: "length R div k < m"
    using m len pk chunk_nth [OF k, of _ m R] by (intro nth_equalityI) (auto simp: nth_list_update)
  show "chunks k R m = packets k R m" if m: "length R div k < m" "length R mod k = 0"
  proof -
    have "drop (length R div k * k) R = []" using dm m(2) by simp
    then show ?thesis using m len pk chunk_nth [OF k, of _ m R] by (intro nth_equalityI) auto
  qed
  show "chunks k R m ! (length R div k) = drop (length R div k * k) R" if "length R div k < m" using chunk_nth [OF k that, of R] by simp
qed

lemma fill_block_selected:
  fixes x :: "32 word list" and c :: "int list"
  assumes k: "0 < k" "0 < NT" and cur: "cur < length x" and e: "e \<noteq> length x"
  defines "S \<equiv> selected x (Some c)"
  shows "if c ! (length x - 1) \<noteq> 0 \<and> length (S cur) = NT * k then fill_block x (Some c) e k NT (cur, None) s = (Inl Undef, s)
    else \<exists>cur'. fill_block x (Some c) e k NT (cur, None) s = (Inr (cur', packets k (S cur) NT, rest k (S cur) NT None), s) \<and>
      next_ok k NT (length x) S cur cur'"
proof -
  let ?R = "S cur"
  have dm: "length ?R div k * k + length ?R mod k = length ?R" by (rule div_mult_mod_eq)
  have mk: "length ?R mod k < k" using k by simp
  obtain cur' where sc: "scan x c k NT cur 0 (replicate NT []) = (cur', length (take (NT * k) ?R) div k, chunks k (take (NT * k) ?R) NT)"
    "cur' \<le> length x" "S cur' = drop (NT * k) ?R" "length ?R < NT * k \<longrightarrow> cur' = length x" "cur < cur'"
    "length ?R = NT * k \<longrightarrow> (cur' = length x \<longleftrightarrow> c ! (length x - 1) \<noteq> 0)"
    using scan_run [OF k(1), of "[]" NT cur x c] cur k by (auto simp: chunks_Nil S_def)
  have fb: "fill_block x (Some c) e k NT (cur, None) =
      (let (cur, tid, used) = (cur', length (take (NT * k) ?R) div k, chunks k (take (NT * k) ?R) NT) in
        if cur = length x then
          if NT \<le> tid then stop Undef
          else if length (used ! tid) \<noteq> 0 \<and> length (used ! tid) \<noteq> k then ret (cur, used[tid := []], Some (used ! tid))
          else ret (cur, used, None)
        else ret (cur, used, None))"
    by (simp only: fill_block_def prod.case e option.simps simp_thms if_False option.sel sc(1))
  show ?thesis
  proof (cases "length ?R < NT * k")
    case True
    then have t: "length ?R div k < NT" using k by (simp add: less_mult_imp_div_less)
    note cp = chunks_packets(2-4) [OF k(1) t]
    have ln: "length (drop (length ?R div k * k) ?R) = length ?R mod k" using dm by (simp only: length_drop)
    have ch: "length (chunks k ?R NT ! (length ?R div k)) = length ?R mod k" using cp(3) ln by simp
    have "fill_block x (Some c) e k NT (cur, None) s = (Inr (cur', packets k ?R NT, rest k ?R NT None), s)"
    proof (cases "length ?R mod k = 0")
      case mod: True
      then show ?thesis unfolding fb using True t sc(4) cp(2) [OF mod] ch [unfolded mod length_0_conv] by (simp add: rest_def ret_def mod)
    next
      case mod: False
      have "length ?R mod k \<noteq> k" using mk by simp
      then show ?thesis unfolding fb using True t sc(4) cp(1,3) ch mod by (simp add: rest_def ret_def)
    qed
    moreover have "next_ok k NT (length x) S cur cur'"
    proof (cases "length ?R mod k = 0")
      case mod: True
      then have "drop (length ?R div k * k) ?R = []" using dm by simp
      then show ?thesis using sc(2,3,5) True t mod by (simp add: next_ok_def rest_def min_def)
    qed (use sc(2,4,5) True t in \<open>simp add: next_ok_def rest_def\<close>)
    ultimately show ?thesis using True by auto
  next
    case False
    then have le: "NT * k \<le> length ?R" by simp
    then have d: "NT \<le> length ?R div k" using k by (simp add: less_eq_div_iff_mult_less_eq)
    have tid: "length (take (NT * k) ?R) div k = NT" using le k by simp
    note cp = chunks_packets(1) [OF k(1) d]
    show ?thesis
    proof (cases "c ! (length x - 1) \<noteq> 0 \<and> length ?R = NT * k")
      case True
      then have "cur' = length x" using sc(6) by blast
      then have "fill_block x (Some c) e k NT (cur, None) s = (Inl Undef, s)" unfolding fb prod.case Let_def tid by (simp add: stop_def)
      then show ?thesis using True by simp
    next
      case no: False
      have "cur' \<noteq> length x"
      proof (cases "length ?R = NT * k")
        case False
        then have "S cur' \<noteq> []" using le sc(3) by simp
        then show ?thesis using selected_end [of x "Some c"] by (auto simp: S_def)
      qed (use sc(6) no in blast)
      then have "fill_block x (Some c) e k NT (cur, None) s = (Inr (cur', packets k ?R NT, rest k ?R NT None), s)"
        unfolding fb prod.case Let_def cp using d by (simp add: ret_def rest_def)
      moreover have "next_ok k NT (length x) S cur cur'" using sc(2,3,5) d by (simp add: next_ok_def rest_def min_def)
      ultimately show ?thesis using no by auto
    qed
  qed
qed

text \<open>Without a selection, or when all is selected.\<close>

lemma fill_block_all:
  assumes k: "0 < k" "0 < NT" and cur: "cur < length x" and e: "cfld = None \<or> e = length x"
  shows "\<exists>cur'. fill_block x cfld e k NT (cur, None) s = (Inr (cur', packets k (drop cur x) NT, rest k (drop cur x) NT None), s) \<and>
      next_ok k NT (length x) (\<lambda>cur. drop cur x) cur cur'"
proof -
  let ?R = "drop cur x"
  have dm: "length ?R div k * k + length ?R mod k = length ?R" by (rule div_mult_mod_eq)
  have lR: "length ?R = length x - cur" by (rule length_drop)
  let ?cur' = "cur + min (length ?R div k) NT * k + (case rest k ?R NT None of None \<Rightarrow> 0 | Some p \<Rightarrow> length p)"
  have "fill_block x cfld e k NT (cur, None) s = fill_block x None e k NT (cur, None) s" using e by (auto simp: fill_block_def)
  then have "fill_block x cfld e k NT (cur, None) s = (Inr (?cur', packets k ?R NT, rest k ?R NT None), s)"
    using fill_block_run [OF k(1) less_imp_le [OF cur], of e NT s] by simp
  moreover have "next_ok k NT (length x) (\<lambda>cur. drop cur x) cur ?cur'"
  proof (cases "rest k ?R NT None = None")
    case True
    have "0 < min (length ?R div k) NT"
    proof (cases "length ?R div k = 0")
      case z: True
      then have "length ?R mod k = length ?R" using dm unfolding z by simp
      then show ?thesis using True z k(2) cur lR by (auto simp: rest_def split: if_splits)
    qed (use k in simp)
    then have "1 * 1 \<le> min (length ?R div k) NT * k" using k by (intro mult_mono) auto
    moreover have "min (length ?R div k) NT * k \<le> length ?R div k * k" by (intro mult_right_mono) auto
    ultimately have "cur < cur + min (length ?R div k) NT * k" "cur + min (length ?R div k) NT * k \<le> length x" using dm lR cur by linarith+
    then show ?thesis unfolding next_ok_def True option.case by (simp add: add.commute)
  next
    case False
    then have last: "length ?R div k < NT" "length ?R mod k \<noteq> 0" "rest k ?R NT None = Some (drop (length ?R div k * k) ?R)"
      by (auto simp: rest_def split: if_splits)
    have "length (drop (length ?R div k * k) ?R) = length ?R mod k" using dm by (simp only: length_drop)
    then have "?cur' = length x" unfolding last(3) option.case using last(1) dm lR cur by (simp only: min_def less_imp_le if_True)
    then show ?thesis unfolding next_ok_def using False cur by (simp only: if_False order.refl simp_thms)
  qed
  ultimately show ?thesis by blast
qed

end
