(* ===== verification/Aq_Full.thy ===== *)
theory Aq_Full
  imports Aq_Sel
begin

text \<open>
  The whole run: the blocks, the last packet and the answers.
\<close>

lemma init_inv:
  assumes "a_empty s = int b" "a_weight s = replicate b 0" "a_buf s = replicate b (replicate k 0)"
  shows "aq_inv b k [] (\<lambda>_. 0) s"
proof -
  have "{i \<in> {..<b}. a_weight s ! i = 0} = {..<b}" using assms by auto
  then show ?thesis using assms by (simp add: aq_inv_def aq_core_def weight_sum_def buf_rank_def)
qed

lemma num_threads_found:
  assumes "(b + 1 + 10) * k \<le> MAX_SZ"
  obtains NT where "num_threads b k = Some NT" "0 < NT"
proof (cases "num_threads b k")
  case None
  then have "\<not> (\<exists>nt. nt \<in> set [128, 64, 32, 16, 8, 4, 2, 1] \<and> (b + nt + 10) * k \<le> MAX_SZ)"
    by (simp only: num_threads_def find_None_iff not_False_eq_True)
  moreover have "(1 :: nat) \<in> set [128, 64, 32, 16, 8, 4, 2, 1]" by simp
  ultimately show thesis using assms by blast
next
  case (Some NT)
  then show thesis using that findD [of "\<lambda>nt. (b + nt + 10) * k \<le> MAX_SZ" "[128, 64, 32, 16, 8, 4, 2, 1]" NT] by (auto simp: num_threads_def)
qed

text \<open>What the buffers and the last packet know of the ranks in \<open>x\<close>.\<close>

lemma final_ranks:
  assumes inv: "aq_inv b k xs L s" and b: "0 < b" "0 < k" and n: "length x \<le> k * 2 ^ (b - 1)"
    and l: "case lastp of None \<Rightarrow> mset xs = mset x | Some p \<Rightarrow> mset (xs @ p) = mset x"
  shows "\<bar>out_rank b lastp s z - int (le_cnt x z)\<bar> \<le> int ((b - 2) * 2 ^ (b - 2))"
    "\<forall>v\<in>set x. sint v \<le> z \<Longrightarrow> out_rank b lastp s z = int (length x)"
proof -
  have core: "aq_core b k xs L s" using inv by (simp add: aq_inv_def)
  then have w: "int (length xs) = weight_sum b s * int k" by (simp add: aq_core_def)
  define ls where "ls = (case lastp of None \<Rightarrow> [] | Some p \<Rightarrow> p)"
  have ml: "mset (xs @ ls) = mset x" using l by (auto simp: ls_def split: option.splits)
  have cnt: "le_cnt x y = le_cnt xs y + last_cnt lastp y" for y
    using le_cnt_mset [OF ml, of y] by (cases lastp) (simp_all add: ls_def last_cnt_def)
  have lx: "length xs \<le> length x" using mset_eq_length [OF ml] by simp
  have "int (length x) \<le> 2 ^ (b - 1) * int k" using n unfolding of_nat_le_iff [symmetric, where 'a = int] by (simp add: mult.commute)
  then have "weight_sum b s * int k \<le> 2 ^ (b - 1) * int k" using w lx by linarith
  then have P: "weight_sum b s \<le> 2 ^ (b - 1)" using b(2) by simp
  show "\<bar>out_rank b lastp s z - int (le_cnt x z)\<bar> \<le> int ((b - 2) * 2 ^ (b - 2))"
    using inv_error [OF inv b(1) P, of z] unfolding out_rank_def cnt by simp
  assume x: "\<forall>v\<in>set x. sint v \<le> z"
  have "set xs \<subseteq> set x" using mset_eq_setD [OF ml] by auto
  then have "le_cnt (a_buf s ! i) z = k" if "i < b" "a_weight s ! i \<noteq> 0" for i using x \<open>set xs \<subseteq> set x\<close> by (intro core_full [OF core _ that]) auto
  then have "buf_rank b s z = (\<Sum>i<b. a_weight s ! i * int k)" unfolding buf_rank_def by (intro sum.cong) auto
  also have "\<dots> = int (length xs)" by (simp add: w weight_sum_def sum_distrib_right)
  finally have br: "buf_rank b s z = int (length xs)" .
  have "le_cnt x z = length x" using x by (rule le_cnt_all)
  moreover have "le_cnt xs z = length xs" using x \<open>set xs \<subseteq> set x\<close> by (intro le_cnt_all) auto
  ultimately show "out_rank b lastp s z = int (length x)" unfolding out_rank_def br using cnt [of z] by simp
qed

text \<open>\<open>v\<close> is an element of \<open>x\<close> within \<open>d\<close> of rank \<open>r\<close>.\<close>

definition near_rank :: "32 word list \<Rightarrow> real \<Rightarrow> int \<Rightarrow> 32 word \<Rightarrow> bool" where
  "near_rank x d r v \<longleftrightarrow> v \<in> set x \<and> real_of_int r - d \<le> real (le_cnt x (sint v)) \<and> real (le_cnt x (sint v - 1)) < real_of_int r + d"

lemma answers_near:
  assumes "answers A R r v" "A \<subseteq> set x" "\<And>z. \<bar>R z - int (le_cnt x z)\<bar> \<le> int e" "real e \<le> d"
  shows "near_rank x d r v"
proof -
  have "r \<le> R (sint v)" "R (sint v - 1) < r" using assms(1) by (simp_all add: answers_def)
  moreover have "\<bar>R (sint v) - int (le_cnt x (sint v))\<bar> \<le> int e" "\<bar>R (sint v - 1) - int (le_cnt x (sint v - 1))\<bar> \<le> int e" using assms(3) by blast+
  ultimately have "r \<le> int (le_cnt x (sint v)) + int e" "int (le_cnt x (sint v - 1)) < r + int e" by linarith+
  then have "real_of_int r \<le> real (le_cnt x (sint v)) + real e" "real (le_cnt x (sint v - 1)) < real_of_int r + real e" by linarith+
  then show ?thesis using assms(1,2,4) by (auto simp: near_rank_def answers_def)
qed

subsection \<open>Blocks, last packet and output\<close>

text \<open>The last element is selected, and not all are.\<close>

definition last_selected :: "32 word list \<Rightarrow> int list option \<Rightarrow> bool" where
  "last_selected x cfld = (case cfld of None \<Rightarrow> False | Some c \<Rightarrow> eff_size x cfld \<noteq> length x \<and> c ! (length x - 1) \<noteq> 0)"

lemma selected_all: "length (selected x cfld 0) = length x \<Longrightarrow> selected x cfld 0 = x"
proof (cases cfld)
  case (Some c)
  assume "length (selected x cfld 0) = length x"
  then have "length (filter (\<lambda>i. c ! i \<noteq> 0) [0..<length x]) = length [0..<length x]" using Some by (simp add: selected_def)
  then have "filter (\<lambda>i. c ! i \<noteq> 0) [0..<length x] = [0..<length x]" by (metis filter_id_conv length_filter_less nat_neq_iff)
  then show ?thesis using Some by (simp add: selected_def map_nth)
qed (simp add: selected_def)

lemma blocks_run:
  fixes s :: aq
  defines "B \<equiv> \<lambda>x cfld b k NT s :: aq. block_loop (Suc (length x)) x cfld (eff_size x cfld) b k NT (0, None) s"
  assumes b: "0 < b" "0 < k" "length (selected x cfld 0) \<le> k * 2 ^ (b - 1)" "length (selected x cfld 0) < 2 ^ 31 * k"
      "0 < NT"
    and x: "selected x cfld 0 \<noteq> []" and inv: "aq_inv b k [] L s"
  shows "if last_selected x cfld \<and> NT * k dvd eff_size x cfld then fst (B x cfld b k NT s) = Inl Undef
    else diff_fits (selected x cfld 0) \<longrightarrow> (\<exists>lastp s' L' xs'. B x cfld b k NT s = (Inr lastp, s') \<and> aq_inv b k xs' L' s' \<and> a_y s' = a_y s \<and> a_good s' = a_good s \<and>
      (case lastp of None \<Rightarrow> mset xs' = mset (selected x cfld 0) | Some p \<Rightarrow> length p < k \<and> mset (xs' @ p) = mset (selected x cfld 0)))"
proof -
  have e: "eff_size x cfld = length (selected x cfld 0)" by (rule eff_size_selected)
  have ne: "0 < length x" using x by (cases x) (auto simp: selected_def split: option.splits)
  show ?thesis
  proof (cases "cfld = None \<or> eff_size x cfld = length x")
    case True
    then have X: "selected x cfld 0 = x" using selected_all [of x cfld] e by (auto simp: selected_def)
    have l: "\<not> last_selected x cfld" using True by (auto simp: last_selected_def split: option.splits)
    have "if False \<and> 0 < length x \<and> NT * k dvd length (drop 0 x) then fst (B x cfld b k NT s) = Inl Undef
      else diff_fits (drop 0 x) \<longrightarrow> (\<exists>lastp s' L' xs'. B x cfld b k NT s = (Inr lastp, s') \<and> aq_inv b k xs' L' s' \<and> a_y s' = a_y s \<and> a_good s' = a_good s \<and>
        (case lastp of None \<Rightarrow> mset xs' = mset ([] @ drop 0 x) | Some p \<Rightarrow> length p < k \<and> mset (xs' @ p) = mset ([] @ drop 0 x)))"
      unfolding B_def
      by (rule block_loop_run [OF b(1,2) b(3,4) [unfolded X] b(5), where R = "\<lambda>cur. drop cur x" and bad = False])
        (use fill_block_all [OF b(2,5) _ True] inv in \<open>simp_all\<close>)
    then show ?thesis using l by (simp only: X drop_0 append_Nil simp_thms if_False)
  next
    case False
    then obtain c where c: "cfld = Some c" "eff_size x cfld \<noteq> length x" by auto
    let ?bad = "c ! (length x - 1) \<noteq> 0"
    have "if ?bad \<and> 0 < length x \<and> NT * k dvd length (selected x (Some c) 0) then fst (B x cfld b k NT s) = Inl Undef
      else diff_fits (selected x (Some c) 0) \<longrightarrow> (\<exists>lastp s' L' xs'. B x cfld b k NT s = (Inr lastp, s') \<and> aq_inv b k xs' L' s' \<and> a_y s' = a_y s \<and> a_good s' = a_good s \<and>
        (case lastp of None \<Rightarrow> mset xs' = mset ([] @ selected x (Some c) 0) | Some p \<Rightarrow> length p < k \<and> mset (xs' @ p) = mset ([] @ selected x (Some c) 0)))"
      unfolding B_def c(1)
    proof (rule block_loop_run [OF b(1,2) b(3,4) [unfolded c(1)] b(5), where R = "selected x (Some c)" and bad = ?bad])
      fix cur and s :: aq assume cur: "cur < length x"
      show "if ?bad \<and> length (selected x (Some c) cur) = NT * k then fill_block x (Some c) (eff_size x (Some c)) k NT (cur, None) s = (Inl Undef, s)
        else \<exists>cur'. fill_block x (Some c) (eff_size x (Some c)) k NT (cur, None) s = (Inr (cur', packets k (selected x (Some c) cur) NT, rest k (selected x (Some c) cur) NT None), s) \<and>
          next_ok k NT (length x) (selected x (Some c)) cur cur'"
        using fill_block_selected [OF b(2,5) cur c(2) [unfolded c(1)]] .
    qed (use selected_end selected_last inv in simp_all)
    moreover have "last_selected x (Some c) \<longleftrightarrow> ?bad" using c by (simp add: last_selected_def)
    ultimately show ?thesis using ne by (simp only: e [unfolded c(1)] c(1) append_Nil simp_thms)
  qed
qed

lemma last_packet_run:
  fixes s :: aq
  assumes "case lastp of None \<Rightarrow> mset xs = mset X | Some p \<Rightarrow> length p < k \<and> mset (xs @ p) = mset X" "diff_fits X"
  obtains lastp' where "(case lastp of None \<Rightarrow> ret None | Some p \<Rightarrow> seq (sort_packet p) (\<lambda>p. ret (Some p))) s = (Inr lastp', s)"
    "case lastp' of None \<Rightarrow> mset xs = mset X | Some p \<Rightarrow> mset (xs @ p) = mset X"
    "case lastp' of None \<Rightarrow> True | Some p \<Rightarrow> length p \<le> k \<and> up p"
proof (cases lastp)
  case None
  then show thesis using assms by (intro that [of None]) (simp_all add: ret_def)
next
  case (Some p)
  then have p: "length p < k" "mset (xs @ p) = mset X" using assms by simp_all
  have "diff_fits p" using mset_eq_setD [OF p(2)] by (intro diff_fits_sub [OF assms(2)]) auto
  then obtain p' where p': "sort_packet p s = (Inr p', s)" "mset p' = mset p" "up p'" "length p' = length p" by (rule sort_packet_run)
  show thesis
  proof (rule that [of "Some p'"])
    show "(case lastp of None \<Rightarrow> ret None | Some p \<Rightarrow> seq (sort_packet p) (\<lambda>p. ret (Some p))) s = (Inr (Some p'), s)"
      unfolding Some option.case seq_Inr [where m = "sort_packet p", OF p'(1)] by (simp add: ret_def)
  qed (use p p' in simp_all)
qed

text \<open>The answers, from a state after the blocks.\<close>

lemma answers_run:
  fixes s :: aq
  assumes inv: "aq_inv b k xs L s" and b: "0 < b" "0 < k" "length X \<le> k * 2 ^ (b - 1)"
    and l: "case lastp of None \<Rightarrow> mset xs = mset X | Some p \<Rightarrow> mset (xs @ p) = mset X"
      "case lastp of None \<Rightarrow> True | Some p \<Rightarrow> length p \<le> k \<and> up p"
    and X: "X \<noteq> []" "real ((b - 2) * 2 ^ (b - 2)) \<le> d" and q: "q * length X < 2 ^ 52" "q \<le> length (a_y s)"
  obtains y m where "Output lastp (length X) q b k s = (Inr (), s\<lparr>a_y := y\<rparr>)" "length y = length (a_y s)"
    "\<And>j. if j < q \<and> next_rank (length X) q j \<le> m then near_rank X d (next_rank (length X) q j) (y ! j) else y ! j = a_y s ! j"
    "\<bar>real_of_int m - real (le_cnt X (INT_MAX - 1))\<bar> \<le> d" "\<forall>v\<in>set X. sint v < INT_MAX \<Longrightarrow> m = int (length X)"
proof -
  have n0: "0 < length X" using X(1) by simp
  have core: "aq_core b k xs L s" using inv by (simp add: aq_inv_def)
  note fr = final_ranks [OF inv b l(1)]
  from Output_run [OF core l(2) n0 q]
  obtain y where y: "Output lastp (length X) q b k s = (Inr (), s\<lparr>a_y := y\<rparr>)" "length y = length (a_y s)"
    "\<And>j. if j < q \<and> next_rank (length X) q j \<le> out_rank b lastp s (INT_MAX - 1) then answers (out_set b lastp s) (out_rank b lastp s) (next_rank (length X) q j) (y ! j)
         else y ! j = a_y s ! j" by blast
  have A: "out_set b lastp s \<subseteq> set X"
  proof -
    have sub: "set (case lastp of None \<Rightarrow> xs | Some p \<Rightarrow> xs @ p) = set X"
      by (rule mset_eq_setD) (use l(1) in \<open>cases lastp; simp\<close>)
    have "set (src b (a_buf s) lastp i) \<subseteq> set X" if i: "i \<le> b" "0 < wt b (a_weight s) i" for i
    proof (cases "i < b")
      case True
      then have "set (a_buf s ! i) \<subseteq> set xs" using core i by (auto simp: aq_core_def wt_def)
      then show ?thesis using True sub by (auto simp: src_def split: option.splits)
    qed (use sub in \<open>auto simp: src_def split: option.splits\<close>)
    then show ?thesis by (auto simp: out_set_def src_set_def)
  qed
  show thesis
  proof (rule that [OF y(1,2)])
    show "if j < q \<and> next_rank (length X) q j \<le> out_rank b lastp s (INT_MAX - 1) then near_rank X d (next_rank (length X) q j) (y ! j)
       else y ! j = a_y s ! j" for j
      using y(3) [of j] answers_near [OF _ A fr(1) X(2)] by (auto split: if_splits)
    have "real_of_int \<bar>out_rank b lastp s (INT_MAX - 1) - int (le_cnt X (INT_MAX - 1))\<bar> \<le> real ((b - 2) * 2 ^ (b - 2))"
      using fr(1) [of "INT_MAX - 1"] by (metis of_int_le_iff of_int_of_nat_eq)
    then show "\<bar>real_of_int (out_rank b lastp s (INT_MAX - 1)) - real (le_cnt X (INT_MAX - 1))\<bar> \<le> d" using X(2) by simp
    show "out_rank b lastp s (INT_MAX - 1) = int (length X)" if "\<forall>v\<in>set X. sint v < INT_MAX"
      using that by (intro fr(2)) fastforce
  qed
qed

subsection \<open>From the call to the answers\<close>

text \<open>How many elements a block takes.\<close>

definition block_size :: "fp \<Rightarrow> nat \<Rightarrow> nat" where
  "block_size eps n = (case determine_b_k eps n () of (Inr (b, k), _) \<Rightarrow> (case num_threads b (nat k) of Some NT \<Rightarrow> NT * nat k | None \<Rightarrow> 0) | _ \<Rightarrow> 0)"

text \<open>The selection ends at the end of \<open>x\<close> and fills the blocks without a remainder.\<close>

definition overrun :: "32 word list \<Rightarrow> int list option \<Rightarrow> fp \<Rightarrow> bool" where
  "overrun x cfld eps \<longleftrightarrow> last_selected x cfld \<and> block_size eps (eff_size x cfld) dvd eff_size x cfld"

text \<open>The arguments of a call that passes the checks.\<close>

definition aq_args :: "32 word list \<Rightarrow> int list option \<Rightarrow> nat \<Rightarrow> fp \<Rightarrow> int \<Rightarrow> aq \<Rightarrow> bool" where
  "aq_args x cfld q eps y_siz s \<longleftrightarrow> (case cfld of None \<Rightarrow> True | Some c \<Rightarrow> length x \<le> length c) \<and> selected x cfld 0 \<noteq> [] \<and>
     is_fin eps \<and> 0 \<le> fp_value eps \<and> fp_value eps \<le> 1 \<and> 1 \<le> q \<and> int q \<le> y_siz \<and> q \<le> length (a_y s) \<and>
     length (selected x cfld 0) < 2 ^ 44 \<and> q * length (selected x cfld 0) < 2 ^ 52"

lemma approx_run:
  fixes s :: aq
  assumes args: "aq_args x cfld q eps y_siz s"
  defines "X \<equiv> selected x cfld 0"
  obtains (memory) s' where "approx_quantile x cfld (int q) eps y_siz s = (Inr (), s')" "a_good s' = - 2" "a_y s' = a_y s" "17000000 < length X"
  | (overrun) "overrun x cfld eps" "fst (approx_quantile x cfld (int q) eps y_siz s) = Inl Undef"
  | (unsorted) "\<not> overrun x cfld eps" "\<not> diff_fits X"
  | (answered) s' m where "approx_quantile x cfld (int q) eps y_siz s = (Inr (), s')" "a_good s' = 1" "length (a_y s') = length (a_y s)" "\<not> overrun x cfld eps"
      "\<And>j. if j < q \<and> next_rank (length X) q j \<le> m then near_rank X (fp_value eps * real (length X)) (next_rank (length X) q j) (a_y s' ! j)
        else a_y s' ! j = a_y s ! j"
      "\<bar>real_of_int m - real (le_cnt X (INT_MAX - 1))\<bar> \<le> fp_value eps * real (length X)" "\<forall>v\<in>set X. sint v < INT_MAX \<Longrightarrow> m = int (length X)"
proof -
  have x: "selected x cfld 0 \<noteq> []" "length X < 2 ^ 44" and eps: "is_fin eps" "0 \<le> fp_value eps" "fp_value eps \<le> 1"
    and q: "1 \<le> q" "int q \<le> y_siz" "q \<le> length (a_y s)" "q * length X < 2 ^ 52"
    and c: "(case cfld of None \<Rightarrow> False | Some c \<Rightarrow> length c < length x) = False"
    using args by (auto simp: aq_args_def X_def split: option.splits)
  have X0: "X \<noteq> []" using x(1) by (simp add: X_def)
  have n0: "0 < length X" using X0 by simp
  have eX: "eff_size x cfld = length X" unfolding X_def by (rule eff_size_selected)
  have lx: "0 < length x" using x(1) by (cases x) (auto simp: selected_def split: option.splits)
  obtain b k where bk: "\<And>s :: aq. determine_b_k eps (length X) s = (Inr (b, int k), s)" "determine_b_k eps (length X) () = (Inr (b, int k), ())"
    "1 \<le> b" "b \<le> 42" "10000 \<le> k" "length X \<le> k * 2 ^ (b - 1)" "real ((b - 2) * 2 ^ (b - 2)) \<le> fp_value eps * real (length X)"
    "k = 10000 \<or> k \<le> length X div 2 ^ (b - 1) + 1"
    by (rule determine_b_k_run [OF n0 x(2) eps]) blast
  have f: "is_fin (F8_of_nat 0)" "fp_value (F8_of_nat 0) = 0" "is_fin (F8_of_nat 1)" "fp_value (F8_of_nat 1) = 1"
    using F8_of_nat [of 0] F8_of_nat [of 1] by (simp_all only: of_nat_0 of_nat_1) simp_all
  have g: "(fp_less eps (F8_of_nat 0) \<or> fp_less (F8_of_nat 1) eps) = False"
    unfolding fin_less [OF eps(1) f(1)] fin_less [OF f(3) eps(1)] f(2,4) using eps(2,3) by simp
  have g2: "(int q < 1) = False" "(length x \<le> 0) = False" "(y_siz < int q) = False" "(length X = 0) = False" using q lx n0 by auto
  have g3: "(b \<le> 0 \<or> int k \<le> 0) = False" using bk(3,5) by simp
  note call = approx_quantile_def seq_upd_st seq_bye_if seq_undef_if g g2 if_False Let_def eX c
        seq_Inr [where m = "determine_b_k eps (length X)", OF bk(1)] prod.case g3
  let ?s0 = "s\<lparr>a_good := - 1\<rparr>"
  let ?s1 = "?s0\<lparr>a_good := 1, a_empty := int b, a_weight := replicate b 0, a_buf := replicate b (replicate k 0)\<rparr>"
  show thesis
  proof (cases "int MAX_SZ < int (b + 1 + 10) * int k")
    case True
    have "approx_quantile x cfld (int q) eps y_siz s = (Inr (), ?s0\<lparr>a_good := - 2\<rparr>)"
      by (simp only: call True if_True) (simp add: upd_st_def)
    moreover have "17000000 < length X" using True memory_enough [OF bk(3,4,8)] by (metis not_less of_nat_le_iff of_nat_mult)
    ultimately show thesis by (intro memory [of "?s0\<lparr>a_good := - 2\<rparr>"]) simp_all
  next
    case mem: False
    then have "int ((b + 1 + 10) * k) \<le> int MAX_SZ" by (simp only: of_nat_mult not_less)
    then have "(b + 1 + 10) * k \<le> MAX_SZ" by (simp only: of_nat_le_iff)
    then obtain NT where NT: "num_threads b k = Some NT" "0 < NT" by (rule num_threads_found)
    have c: "0 < b" "0 < k" using bk(3,5) by simp_all
    have "(2 :: nat) ^ 44 < 2 ^ 31 * 10000" by simp
    moreover have "2 ^ 31 * 10000 \<le> 2 ^ 31 * k" using bk(5) by (intro mult_left_mono) auto
    ultimately have c4: "length X < 2 ^ 31 * k" using x(2) by linarith
    have ov: "overrun x cfld eps \<longleftrightarrow> last_selected x cfld \<and> NT * k dvd eff_size x cfld"
      by (simp add: overrun_def block_size_def eX bk(2) NT(1))
    have inv: "aq_inv b k [] (\<lambda>_. 0) ?s1" by (rule init_inv) simp_all
    note bl = blocks_run [OF c(1,2) bk(6) [unfolded X_def] c4 [unfolded X_def] NT(2) x(1) inv, folded ov X_def, unfolded eX]
    show thesis
    proof (cases "overrun x cfld eps")
      case True
      then have "fst (block_loop (Suc (length x)) x cfld (length X) b k NT (0, None) ?s1) = Inl Undef" using bl by (simp only: if_True)
      then obtain s2 where "block_loop (Suc (length x)) x cfld (length X) b k NT (0, None) ?s1 = (Inl Undef, s2)" by (metis prod.collapse)
      then have "fst (approx_quantile x cfld (int q) eps y_siz s) = Inl Undef"
        by (simp only: call mem nat_int NT(1) option.case seq_Inl [where m = "block_loop _ _ _ _ _ _ _ _"] fst_conv)
      then show thesis using True by (intro overrun)
    next
      case ok: False
      show thesis
      proof (cases "diff_fits X")
      case False
      then show thesis using ok by (rule unsorted [rotated])
      next
      case fits: True
      from ok fits obtain lastp s2 L' xs' where B: "block_loop (Suc (length x)) x cfld (length X) b k NT (0, None) ?s1 = (Inr lastp, s2)" "aq_inv b k xs' L' s2"
        "a_y s2 = a_y ?s1" "a_good s2 = a_good ?s1" "case lastp of None \<Rightarrow> mset xs' = mset X | Some p \<Rightarrow> length p < k \<and> mset (xs' @ p) = mset X"
        using bl by (simp only: if_False) blast
      obtain lastp' where lp: "(case lastp of None \<Rightarrow> ret None | Some p \<Rightarrow> seq (sort_packet p) (\<lambda>p. ret (Some p))) s2 = (Inr lastp', s2)"
        "case lastp' of None \<Rightarrow> mset xs' = mset X | Some p \<Rightarrow> mset (xs' @ p) = mset X"
        "case lastp' of None \<Rightarrow> True | Some p \<Rightarrow> length p \<le> k \<and> up p"
        by (rule last_packet_run [OF B(5) fits])
      have qy: "q \<le> length (a_y s2)" using q(3) B(3) by simp
      obtain y m where O: "Output lastp' (length X) q b k s2 = (Inr (), s2\<lparr>a_y := y\<rparr>)" "length y = length (a_y s2)"
        "\<And>j. if j < q \<and> next_rank (length X) q j \<le> m then near_rank X (fp_value eps * real (length X)) (next_rank (length X) q j) (y ! j)
          else y ! j = a_y s2 ! j"
        "\<bar>real_of_int m - real (le_cnt X (INT_MAX - 1))\<bar> \<le> fp_value eps * real (length X)" "\<forall>v\<in>set X. sint v < INT_MAX \<Longrightarrow> m = int (length X)"
        by (rule answers_run [OF B(2) c(1,2) bk(6) lp(2,3) X0 bk(7) q(4) qy]) blast
      have "approx_quantile x cfld (int q) eps y_siz s = (Inr (), s2\<lparr>a_y := y\<rparr>)"
        by (simp only: call mem nat_int NT(1) option.case seq_Inr [where m = "block_loop _ _ _ _ _ _ _ _", OF B(1)]
          seq_Inr [where m = "case_option _ _ _", OF lp(1)] or_bad_Inr [where m = "Output _ _ _ _ _", OF O(1)])
      then show thesis by (rule answered [of "s2\<lparr>a_y := y\<rparr>" m]) (use B(3,4) O(2-5) ok in simp_all)
      qed
    qed
  qed
qed

end
