(* ===== verification/Aq_Thms.thy ===== *)
theory Aq_Thms
  imports Aq_Full
begin

text \<open>
  What the approximate quantiles promise: every answer is within \<open>eps * n\<close> of the rank that was asked for; the two
  inputs for which they do not keep it; the error of a merge and the invariant of the buffers.
\<close>

subsection \<open>An input that overruns\<close>

lemma determine_b_k_0:
  assumes "10000 \<le> n" "n < 2 ^ 44"
  shows "determine_b_k (Fin False 0 0) n s = (Inr (1, int n), s)"
proof -
  let ?B = "fp_mul (Fin False 0 0) (F8_of_nat n)"
  have N: "is_fin (F8_of_nat n)" "fp_value (F8_of_nat n) = real n" using F8_of_nat [of n] assms by simp_all
  have "between 0 0 ?B" using N by (intro mul_between) simp_all
  then have B: "is_fin ?B" "fp_value ?B = 0" by (simp_all add: between_def)
  have s: "(0 :: nat) * 2 ^ 0 + 1 < 2 ^ 53" by simp
  have "\<not> fp_less (fp_add (fp_mul (F8_of_nat (2 - 2)) (pow2 (2 - 2))) (F8_of_nat 1)) ?B"
    unfolding diff_self_eq_0 fin_less [OF err_exact(1) [OF s] B(1)] err_exact(2) [OF s] B(2) by simp
  moreover have "64 = Suc 63" by simp
  ultimately have loop: "bk_loop 64 ?B 2 = Some 2" by (simp only: bk_loop.simps if_False)
  have "n mod 2 ^ (1 - 1) = 0" by simp
  have p: "is_fin (pow2 0)" "fp_value (pow2 0) = 1" using F8_of_nat [of 1] by (simp_all add: pow2_def)
  have "repr F64_fmt (real n)" using assms(2) by (intro repr_nat) simp
  then have "is_fin (fp_div (F8_of_nat n) (pow2 0)) \<and> fp_value (fp_div (F8_of_nat n) (pow2 0)) = real n"
    using div_exact [OF N(1) p(1)] N(2) p(2) by simp
  then have "bk_size n 1 = int n" by (simp add: bk_size_def fp_trunc_value)
  moreover have "2 - 1 = (1 :: nat)" by simp
  ultimately show ?thesis using assms(1) by (simp only: determine_b_k_def loop option.case Let_def ret_def) simp
qed

lemma num_threads_1:
  assumes "12 * k \<le> MAX_SZ" "MAX_SZ < 13 * k"
  shows "num_threads 1 k = Some 1"
proof -
  have no: "\<not> (1 + nt + 10) * k \<le> MAX_SZ" if "2 \<le> nt" for nt
  proof -
    have "13 * k \<le> (1 + nt + 10) * k" using that by (intro mult_right_mono) auto
    then show ?thesis using assms(2) by linarith
  qed
  show ?thesis using assms(1) no [of 128] no [of 64] no [of 32] no [of 16] no [of 8] no [of 4] no [of 2] by (simp add: num_threads_def)
qed

text \<open>All but the first element are selected, and a block has room for just as many.\<close>

lemma overrun_input:
  assumes "10000 \<le> N" "12 * N \<le> MAX_SZ" "MAX_SZ < 13 * N"
  defines "x \<equiv> replicate (Suc N) (0 :: 32 word)" and "c \<equiv> 0 # replicate N (1 :: int)"
  shows "overrun x (Some c) (Fin False 0 0)" "length (selected x (Some c) 0) = N" "length x \<le> length c"
proof -
  have c: "c ! i \<noteq> 0 \<longleftrightarrow> 0 < i" if "i < Suc N" for i using that by (cases i) (auto simp: c_def)
  have "filter (\<lambda>i. c ! i \<noteq> 0) [0..<length x] = filter (\<lambda>i. 0 < i) [0..<Suc N]" by (rule filter_cong [OF _ c]) (simp_all add: x_def del: upt_Suc)
  also have "\<dots> = [1..<Suc N]" by (simp add: upt_conv_Cons del: upt_Suc)
  finally show l: "length (selected x (Some c) 0) = N" by (simp add: selected_def)
  have e: "eff_size x (Some c) = N" using l eff_size_selected by metis
  have "N < 2 ^ 44" using assms(2) by (simp add: MAX_SZ_def)
  then have "block_size (Fin False 0 0) N = N"
    using determine_b_k_0 [OF assms(1), of "()"] num_threads_1 [OF assms(2,3)] by (simp add: block_size_def)
  moreover have "length x = Suc N" by (simp add: x_def)
  moreover have "c ! N \<noteq> 0" using c [of N] assms(1) by simp
  ultimately show "overrun x (Some c) (Fin False 0 0)" using e by (simp add: overrun_def last_selected_def)
  show "length x \<le> length c" by (simp add: x_def c_def)
qed

subsection \<open>Properties\<close>

text \<open>C10. The quantiles are approximate as promised: a call with arguments that pass the checks, on values below the largest
  integer whose differences fit an int (the comparison of the sort subtracts them), and without an overrun, returns 0.  Either it reports that it needs too much memory (which does not happen
  with 17 million elements or less), or the \<open>j\<close>-th answer is an element whose rank among the \<open>n\<close> selected elements
  is within \<open>eps * n\<close> of \<open>(j + 1) * n / num_quantiles\<close>, rounded up; all arithmetic is that of doubles and
  32-bit integers.\<close>

theorem approx_quantile_rank:
  fixes s :: aq
  assumes "aq_args x cfld q eps y_siz s" "\<not> overrun x cfld eps" "\<forall>v\<in>set (selected x cfld 0). sint v < 2147483647"
    "diff_fits (selected x cfld 0)"
  shows "\<exists>s'. approx_quantile x cfld (int q) eps y_siz s = (Inr (), s') \<and>
    (if a_good s' = 1 then length (a_y s') = length (a_y s) \<and>
       (\<forall>j<q. near_rank (selected x cfld 0) (fp_value eps * real (eff_size x cfld)) \<lceil>real ((j + 1) * eff_size x cfld) / real q\<rceil> (a_y s' ! j))
     else a_good s' = - 2 \<and> a_y s' = a_y s \<and> 17000000 < eff_size x cfld)"
  using assms(1)
proof (cases rule: approx_run)
  case (answered s' m)
  have n: "0 < length (selected x cfld 0)" "q * length (selected x cfld 0) < 2 ^ 52" using assms(1) by (simp_all add: aq_args_def)
  have "near_rank (selected x cfld 0) (fp_value eps * real (length (selected x cfld 0)))
      \<lceil>real ((j + 1) * length (selected x cfld 0)) / real q\<rceil> (a_y s' ! j)" if "j < q" for j
    using answered(5) [of j] answered(7) [OF assms(3)] that next_rank_props(4) [OF n that] by (simp only: next_rank_props(1) [OF n that, symmetric] simp_thms if_True)
  then show ?thesis using answered(1-3) by (simp only: eff_size_selected) auto
qed (use assms(2,4) in \<open>auto simp: eff_size_selected\<close>)

lemma approx_quantile_rank_witness:
  defines "s \<equiv> \<lparr>a_buf = [], a_weight = [], a_empty = 0, a_y = [0, 0], a_good = 0\<rparr>"
  shows "\<exists>s'. approx_quantile [7, - 3, 5, 9] (Some [1, 1, 1, 0]) 2 (Fin False 1 (- 2)) 2 s = (Inr (), s') \<and>
    near_rank [7, - 3, 5] (3 / 4) 2 (a_y s' ! 0) \<and> near_rank [7, - 3, 5] (3 / 4) 3 (a_y s' ! 1)"
proof -
  let ?x = "[7, - 3, 5, 9] :: 32 word list" and ?c = "[1, 1, 1, 0] :: int list"
  have S: "selected ?x (Some ?c) 0 = [7, - 3, 5]" by (simp add: selected_def upt_rec)
  have e: "eff_size ?x (Some ?c) = 3" by (simp add: eff_size_selected S)
  have v: "fp_value (Fin False 1 (- 2)) = 1 / 4" by (simp add: powr_minus_divide)
  have A: "aq_args ?x (Some ?c) 2 (Fin False 1 (- 2)) 2 s" unfolding aq_args_def S v by (simp add: s_def)
  have O: "\<not> overrun ?x (Some ?c) (Fin False 1 (- 2))" by (simp add: overrun_def last_selected_def)
  have c2: "\<lceil>3 / 2 :: real\<rceil> = 2" by (rule ceiling_unique) simp_all
  have F: "diff_fits (selected ?x (Some ?c) 0)" unfolding S by (simp add: diff_fits_def)
  show ?thesis using approx_quantile_rank [OF A O _ F] unfolding S e v by (fastforce simp: c2 dest: spec [of _ 0] spec [of _ 1] split: if_splits)
qed

text \<open>C36. The largest integer is never an answer: an answer whose rank is past the elements below it (by more than the error)
  is not written, although the call returns 0.  (With negative elements beside it the comparison of the sort overflows.)\<close>

theorem approx_quantile_int_max:
  fixes s :: aq
  assumes "aq_args x cfld q eps y_siz s" "\<not> overrun x cfld eps" "j < q" "diff_fits (selected x cfld 0)"
    "real (le_cnt (selected x cfld 0) (2147483647 - 1)) + fp_value eps * real (eff_size x cfld) < real ((j + 1) * eff_size x cfld) / real q"
  shows "\<exists>s'. approx_quantile x cfld (int q) eps y_siz s = (Inr (), s') \<and> a_y s' ! j = a_y s ! j"
  using assms(1)
proof (cases rule: approx_run)
  case (answered s' m)
  have n: "0 < length (selected x cfld 0)" "q * length (selected x cfld 0) < 2 ^ 52" using assms(1) by (simp_all add: aq_args_def)
  have "real_of_int m < real ((j + 1) * length (selected x cfld 0)) / real q" using answered(6) assms(5) unfolding eff_size_selected by linarith
  also have "\<dots> \<le> real_of_int (next_rank (length (selected x cfld 0)) q j)" unfolding next_rank_props(1) [OF n assms(3)] by (rule le_of_int_ceiling)
  finally have "\<not> next_rank (length (selected x cfld 0)) q j \<le> m" by simp
  then show ?thesis using answered(1) answered(5) [of j] by auto
qed (use assms(2,4) in auto)

lemma approx_quantile_int_max_witness:
  defines "s \<equiv> \<lparr>a_buf = [], a_weight = [], a_empty = 0, a_y = [17], a_good = 0\<rparr>"
  shows "\<exists>s'. approx_quantile [0x7FFFFFFF] None 1 (Fin False 0 0) 1 s = (Inr (), s') \<and> a_y s' ! 0 = 17"
proof -
  let ?x = "[0x7FFFFFFF] :: 32 word list"
  have S: "selected ?x None 0 = ?x" by (simp add: selected_def)
  have e: "eff_size ?x None = 1" by (simp add: eff_size_selected S)
  have A: "aq_args ?x None 1 (Fin False 0 0) 1 s" unfolding aq_args_def S by (simp add: s_def)
  have O: "\<not> overrun ?x None (Fin False 0 0)" by (simp add: overrun_def last_selected_def)
  have F: "diff_fits (selected ?x None 0)" unfolding S by (simp add: diff_fits_def)
  show ?thesis using approx_quantile_int_max [OF A O _ F, of 0] unfolding S e by (simp add: s_def)
qed

text \<open>C37. A selection that ends with the last element of \<open>x\<close> and fills the blocks without a remainder reads
  \<open>inputPacketsUsedSiz\<close> out of bounds: with up to 17 million selected elements such a call is undefined.\<close>

theorem approx_quantile_overrun:
  fixes s :: aq
  assumes "aq_args x cfld q eps y_siz s" "overrun x cfld eps" "eff_size x cfld \<le> 17000000"
  shows "fst (approx_quantile x cfld (int q) eps y_siz s) = Inl Undef"
  using assms(1) by (cases rule: approx_run) (use assms(2,3) in \<open>auto simp: eff_size_selected\<close>)

lemma approx_quantile_overrun_witness:
  "fst (approx_quantile (replicate (Suc 17000000) 0) (Some (0 # replicate 17000000 1)) 1 (Fin False 0 0) 1
     \<lparr>a_buf = [], a_weight = [], a_empty = 0, a_y = [0], a_good = 0\<rparr>) = Inl Undef"
proof -
  obtain N :: nat where N: "N = 17000000" by simp
  have "10000 \<le> N" "12 * N \<le> MAX_SZ" "MAX_SZ < 13 * N" by (simp_all add: N MAX_SZ_def)
  note o = overrun_input [OF this]
  let ?x = "replicate (Suc N) 0 :: 32 word list" and ?c = "0 # replicate N 1 :: int list"
  have "selected ?x (Some ?c) 0 \<noteq> []" using o(2) by (metis N list.size(3) zero_neq_numeral)
  then have "aq_args ?x (Some ?c) 1 (Fin False 0 0) 1 \<lparr>a_buf = [], a_weight = [], a_empty = 0, a_y = [0], a_good = 0\<rparr>"
    unfolding aq_args_def o(2) using o(3) by (simp add: N del: replicate_Suc)
  moreover have "eff_size ?x (Some ?c) \<le> 17000000" unfolding eff_size_selected o(2) by (simp add: N)
  ultimately have "fst (approx_quantile ?x (Some ?c) (int 1) (Fin False 0 0) 1 \<lparr>a_buf = [], a_weight = [], a_empty = 0, a_y = [0], a_good = 0\<rparr>) = Inl Undef"
    by (intro approx_quantile_overrun o(1))
  then show ?thesis unfolding N of_nat_1 .
qed

text \<open>C28. A merge of two sorted buffers of weights \<open>w1\<close> and \<open>w2\<close> gives a sorted buffer of weight \<open>w1 + w2\<close> and an empty one.
  The weighted number of elements up to any \<open>x\<close> changes by at most half of the new weight, rounded up.\<close>

theorem Collapse_rank_error:
  fixes s :: aq
  assumes "i < b" "j < b" "i \<noteq> j" "length (a_buf s) = b" "length (a_weight s) = b"
    "length (a_buf s ! i) = k" "length (a_buf s ! j) = k" "sorted (map sint (a_buf s ! i))" "sorted (map sint (a_buf s ! j))"
    "0 < a_weight s ! i" "0 < a_weight s ! j" "a_weight s ! i + a_weight s ! j < 2 ^ 31"
  shows "\<exists>buf'. Collapse i j b k s = (Inr (), s\<lparr>a_buf := (a_buf s)[i := buf'], a_weight := (a_weight s)[i := a_weight s ! i + a_weight s ! j, j := 0]\<rparr>) \<and>
    length buf' = k \<and> sorted (map sint buf') \<and>
    (\<forall>x. \<bar>(a_weight s ! i + a_weight s ! j) * int (le_cnt buf' x) -
        (a_weight s ! i * int (le_cnt (a_buf s ! i) x) + a_weight s ! j * int (le_cnt (a_buf s ! j) x))\<bar> \<le>
      a_weight s ! i + a_weight s ! j - (a_weight s ! i + a_weight s ! j) div 2)"
  using Collapse_run [OF assms(1-7) _ _ assms(10-12), unfolded up_def] assms(8,9) by blast

lemma Collapse_rank_error_witness:
  defines "s \<equiv> \<lparr>a_buf = [[- 4, 0, 8], [0, 0, 0], [1, 5, 6]], a_weight = [2, 0, 1], a_empty = 1, a_y = [], a_good = 1\<rparr>"
  shows "\<exists>buf'. Collapse 0 2 3 3 s = (Inr (), s\<lparr>a_buf := [buf', [0, 0, 0], [1, 5, 6]], a_weight := [3, 0, 0]\<rparr>) \<and> sorted (map sint buf') \<and>
    \<bar>3 * int (le_cnt buf' 5) - 6\<bar> \<le> 2"
proof -
  have "sorted (map sint [- 4, 0, 8 :: 32 word])" "sorted (map sint [1, 5, 6 :: 32 word])" by simp_all
  then show ?thesis using Collapse_rank_error [of 0 3 2 s 3] by (auto simp: s_def dest!: spec [of _ 5])
qed

text \<open>C19. A new packet keeps the invariant of the buffers: as long as no more than \<open>2 ^ (b - 1)\<close> packets come in, there is
  always an empty buffer or two of the same weight, the weights are powers of two and count the packets, and the rank of
  any \<open>x\<close> in the buffers is within \<open>(b - 2) * 2 ^ (b - 2)\<close> of the rank among all elements so far.\<close>

theorem add_packet_invariant:
  fixes s :: aq
  assumes "aq_inv b k xs L s" "length p = k" "sorted (map sint p)" "0 < k" "0 < b" "length xs + k \<le> k * 2 ^ (b - 1)" "length xs + k < 2 ^ 31 * k"
  shows "\<exists>s' L'. add_packet b k p s = (Inr (), s') \<and> aq_inv b k (xs @ p) L' s' \<and> a_y s' = a_y s \<and>
    (\<forall>x. \<bar>buf_rank b s' x - int (le_cnt (xs @ p) x)\<bar> \<le> int ((b - 2) * 2 ^ (b - 2)))"
proof -
  obtain s' L' where r: "add_packet b k p s = (Inr (), s')" "aq_inv b k (xs @ p) L' s'" "a_y s' = a_y s"
    using add_packets_run [OF assms(5,4,6,7,1), of "[p]"] assms(2,3) by (auto simp: up_def seq_Inr_iff ret_def)
  have "length (xs @ p) \<le> k * 2 ^ (b - 1)" using assms(2,6) by simp
  from final_ranks(1) [OF r(2) assms(5,4) this, of None]
  show ?thesis using r by (auto simp: out_rank_def last_cnt_def)
qed

lemma add_packet_invariant_witness:
  defines "s \<equiv> \<lparr>a_buf = [[0, 0], [0, 0]], a_weight = [0, 0], a_empty = 2, a_y = [], a_good = 1\<rparr>"
  shows "\<exists>s' L'. add_packet 2 2 [3, 8] s = (Inr (), s') \<and> aq_inv 2 2 [3, 8] L' s' \<and> (\<forall>x. buf_rank 2 s' x = int (le_cnt [3, 8] x))"
proof -
  have "aq_inv 2 2 [] (\<lambda>_. 0) s" by (rule init_inv) (simp_all add: s_def numeral_2_eq_2)
  then show ?thesis using add_packet_invariant [of 2 2 "[]" "\<lambda>_. 0" s "[3, 8]"] by (auto simp: s_def)
qed

end
