(* ===== verification/Graph_Data.thy ===== *)
theory Graph_Data
  imports Dt_Float
begin

text \<open>
  Connected components of a graph: the two programs \<open>conn.c\<close> and \<open>conn_comp.c\<close> of \<open>GRAPH/CONN_COMP/src\<close>.

  Nodes are natural numbers below the number of nodes.  Files that are mapped are lists: the edges of \<open>conn.c\<close>, two
  32-bit integers each, and for \<open>conn_comp.c\<close> the bounds of the neighbours of every node and the neighbours.  Printing
  and timing are left out; memory is not exhausted.  Files are too short for the counters to wrap: the number of blocks
  fits an \<open>int\<close> (fewer than \<open>2 ^ 34\<close> numbers in the file) and nodes fit 32 bits.
\<close>

subsection \<open>Labels that sink to the least one (\<open>conn_comp.c\<close>)\<close>

text \<open>The threads of a pass take the nodes in any order.  Reading the labels of its neighbours and writing
  its own is one step of a node: steps of two nodes do not overlap here.\<close>

record lab =
  l_lbl :: "nat list"
  l_change :: bool

definition label_node :: "nat list \<Rightarrow> nat list \<Rightarrow> nat list \<Rightarrow> nat \<Rightarrow> (lab, unit) prog" where
  "label_node lb ub to i =
    seq (undef_if (length lb \<le> i \<or> length ub \<le> i)) (\<lambda>_.
    if ub ! i \<le> lb ! i then ret ()
    else
      seq get_st (\<lambda>s.
      seq (for_fold [lb ! i..<ub ! i] (l_lbl s ! i) (\<lambda>j minval.
        seq (undef_if (length to \<le> j \<or> length (l_lbl s) \<le> to ! j)) (\<lambda>_. ret (min minval (l_lbl s ! (to ! j)))))) (\<lambda>minval.
      if l_lbl s ! i \<noteq> minval then put_st (s\<lparr>l_lbl := (l_lbl s)[i := minval], l_change := True\<rparr>) else ret ())))"

text \<open>The nodes of a pass are shared out among threads: \<open>ord iter\<close> is the order in which pass \<open>iter\<close> takes them.\<close>

primrec label_loop :: "nat \<Rightarrow> nat \<Rightarrow> (nat \<Rightarrow> nat list) \<Rightarrow> nat list \<Rightarrow> nat list \<Rightarrow> nat list \<Rightarrow> (lab, unit) prog" where
  "label_loop 0 iter ord lb ub to = stop Diverges"
| "label_loop (Suc fuel) iter ord lb ub to =
    seq get_st (\<lambda>s.
    if l_change s then
      seq (upd_st (\<lambda>s. s\<lparr>l_change := False\<rparr>)) (\<lambda>_.
      seq (for_each (ord iter) (label_node lb ub to)) (\<lambda>_.
      label_loop fuel (Suc iter) ord lb ub to))
    else ret ())"

definition conn_comp :: "(nat \<Rightarrow> nat list) \<Rightarrow> nat list \<Rightarrow> nat list \<Rightarrow> nat list \<Rightarrow> (lab, unit) prog" where
  "conn_comp ord lb ub to =
    (let n_nodes = length lb in
     seq (upd_st (\<lambda>s. s\<lparr>l_lbl := [0..<n_nodes], l_change := True\<rparr>)) (\<lambda>_.
     label_loop (n_nodes * n_nodes + 2) 0 ord lb ub to))"

subsection \<open>Representatives with path compression (\<open>conn.c\<close>)\<close>

record conn =
  c_rep :: "nat list"
  c_changes :: nat
  c_live :: nat
  c_exst :: nat
  c_out :: "(nat \<times> nat) list"

type_synonym 'a cp = "(conn, 'a) prog"

definition bad_id :: "nat \<Rightarrow> int \<Rightarrow> bool" where
  "bad_id n v \<longleftrightarrow> v < 0 \<or> int n \<le> v"

definition edge_step :: "int list \<Rightarrow> nat \<Rightarrow> unit cp" where
  "edge_step E e =
    seq get_st (\<lambda>s.
    seq (undef_if (length E \<le> e + 1 \<or> bad_id (length (c_rep s)) (E ! e) \<or> bad_id (length (c_rep s)) (E ! (e + 1)))) (\<lambda>_.
    let frm = nat (E ! e); to = nat (E ! (e + 1)); from_rep = c_rep s ! frm; to_rep = c_rep s ! to;
        s = s\<lparr>c_exst := c_exst s + 1\<rparr>;
        s' = s\<lparr>c_changes := c_changes s + 1, c_live := c_live s + 1\<rparr> in
    put_st (if from_rep < to_rep then s'\<lparr>c_rep := (c_rep s)[to := from_rep]\<rparr>
            else if to_rep < from_rep then s'\<lparr>c_rep := (c_rep s)[frm := to_rep]\<rparr> else s)))"

definition MAX_CHAIN_LENGTH :: nat where "MAX_CHAIN_LENGTH = 1024"

text \<open>\<open>while ( me != parent ) { ... me = parent, parent = rep[parent]; }\<close>\<close>

primrec chain_walk :: "nat \<Rightarrow> nat list \<Rightarrow> nat \<Rightarrow> nat \<Rightarrow> nat list \<Rightarrow> (nat \<times> nat list) option" where
  "chain_walk 0 rep me parent chain = None"
| "chain_walk (Suc fuel) rep me parent chain =
    (if me \<noteq> parent then
       chain_walk fuel rep parent (rep ! parent) (if length chain < MAX_CHAIN_LENGTH then chain @ [parent] else chain)
     else Some (parent, chain))"

definition jump :: "nat \<Rightarrow> unit cp" where
  "jump i =
    seq get_st (\<lambda>s.
    case chain_walk (Suc (length (c_rep s))) (c_rep s) i (c_rep s ! i) [] of None \<Rightarrow> stop Diverges
    | Some (parent, chain) \<Rightarrow>
        put_st (if parent \<noteq> i then s\<lparr>c_rep := foldl (\<lambda>rep j. rep[j := parent]) ((c_rep s)[i := parent]) chain\<rparr> else s))"

text \<open>A block of edges, two numbers each, and the jumps of all nodes (\<open>omp_get_num_threads()\<close> is 1 outside of a parallel
  region, so that there is one range of nodes).\<close>

definition conn_block :: "nat \<Rightarrow> int list \<Rightarrow> nat \<Rightarrow> nat \<Rightarrow> unit cp" where
  "conn_block nV E lb ub =
    steps [for_each (map (\<lambda>k. lb + 2 * k) [0..<(ub - lb + 1) div 2]) (edge_step E), for_each [0..<nV] jump]"

definition conn_round :: "nat \<Rightarrow> int list \<Rightarrow> unit cp" where
  "conn_round nV E =
    (let nE = length E; n_blocks = (nE div nV) div 4 in
     seq (undef_if (n_blocks = 0)) (\<lambda>_.
     let block_size = nE div n_blocks in
     seq (upd_st (\<lambda>s. s\<lparr>c_changes := 0, c_live := 0, c_exst := 0\<rparr>)) (\<lambda>_.
     for_each [0..<n_blocks] (\<lambda>b.
       let lb = b * block_size; ub = (if b = n_blocks - 1 then nE else lb + block_size) in conn_block nV E lb ub))))"

text \<open>\<open>new_E\<close> has room for \<open>num_live_edges * 2\<close> numbers.  \<open>0.1\<close> as a double.\<close>

definition fp_tenth :: fp where
  "fp_tenth = Fin False 7205759403792794 (- 56)"

definition condense_step :: "int list \<Rightarrow> nat \<Rightarrow> nat \<Rightarrow> nat cp" where
  "condense_step E i eidx =
    seq get_st (\<lambda>s.
    seq (undef_if (length E \<le> i + 1 \<or> bad_id (length (c_rep s)) (E ! i) \<or> bad_id (length (c_rep s)) (E ! (i + 1)))) (\<lambda>_.
    let frm = nat (E ! i); to = nat (E ! (i + 1)); from_rep = c_rep s ! frm; to_rep = c_rep s ! to in
    if from_rep = to_rep \<and> from_rep \<noteq> frm \<and> to_rep \<noteq> to then ret eidx
    else seq (undef_if (2 * c_live s < eidx + 2)) (\<lambda>_. ret (eidx + 2))))"

definition condense :: "int list \<Rightarrow> unit cp" where
  "condense E =
    seq get_st (\<lambda>s.
    if fp_less (fp_div (F8_of_nat (c_live s)) (F8_of_nat (c_exst s))) fp_tenth then
      seq (for_fold (map (\<lambda>k. 2 * k) [0..<(length E + 1) div 2]) 0 (condense_step E)) (\<lambda>_. ret ())
    else ret ())"

primrec conn_loop :: "nat \<Rightarrow> nat \<Rightarrow> int list \<Rightarrow> unit cp" where
  "conn_loop 0 nV E = stop Diverges"
| "conn_loop (Suc fuel) nV E =
    seq (conn_round nV E) (\<lambda>_.
    seq (condense E) (\<lambda>_.
    seq get_st (\<lambda>s.
    if c_changes s \<noteq> 0 then conn_loop fuel nV E else ret ())))"

text \<open>\<open>main\<close>, after the arguments are read and the file is mapped; \<open>c_out\<close> is what is written to the two files.\<close>

definition conn_main :: "int \<Rightarrow> int list \<Rightarrow> unit cp" where
  "conn_main max_id E =
    seq (bye_if (max_id \<le> 0) (- 1)) (\<lambda>_.
    seq (undef_if (2 ^ 31 - 2 \<le> max_id)) (\<lambda>_.
    let nV = nat (max_id + 1); nV = (if nV mod 2 \<noteq> 0 then nV + 1 else nV) in
    seq (upd_st (\<lambda>s. s\<lparr>c_rep := [0..<nV]\<rparr>)) (\<lambda>_.
    seq (conn_loop (nV * nV + 2) nV E) (\<lambda>_.
    upd_st (\<lambda>s. s\<lparr>c_out := filter (\<lambda>(i, r). 0 < r) (zip [0..<nV] (c_rep s))\<rparr>)))))"

end
