(* ===== verification/Graph_Label.thy ===== *)
theory Graph_Label
  imports Graph_Data
begin

text \<open>
  \<open>conn_comp\<close> gives every node the least node that can be reached from it, in whatever order the passes take
  the nodes.
\<close>

subsection \<open>Labels\<close>

text \<open>A label is a node that is reached and is not above the node itself; when no edge leads to a lower one, all labels are
  least.\<close>

definition label_ok :: "(nat \<times> nat) set \<Rightarrow> nat list \<Rightarrow> bool" where
  "label_ok R lbl \<longleftrightarrow> (\<forall>i<length lbl. lbl ! i \<le> i \<and> (i, lbl ! i) \<in> R\<^sup>*)"

lemma label_ok_init: "label_ok R [0..<n]"
  by (simp add: label_ok_def)

lemma label_ok_upd:
  assumes "label_ok R lbl" "v \<le> lbl ! i" "i < length lbl \<Longrightarrow> (i, v) \<in> R\<^sup>*"
  shows "label_ok R (lbl[i := v])"
  unfolding label_ok_def
proof (intro allI impI)
  fix j assume j: "j < length (lbl[i := v])"
  then have "lbl ! j \<le> j \<and> (j, lbl ! j) \<in> R\<^sup>*" using assms(1) by (simp add: label_ok_def)
  then show "lbl[i := v] ! j \<le> j \<and> (j, lbl[i := v] ! j) \<in> R\<^sup>*" using assms(2,3) j by (cases "j = i") auto
qed

lemma labels_least:
  assumes ok: "label_ok R lbl" and R: "R \<subseteq> {..<length lbl} \<times> {..<length lbl}" and i: "i < length lbl"
    and least: "\<forall>(j, k)\<in>R. lbl ! j \<le> lbl ! k"
  shows "lbl ! i = Min (R\<^sup>* `` {i})"
proof -
  have le: "k < length lbl \<and> lbl ! i \<le> lbl ! k" if "(i, k) \<in> R\<^sup>*" for k
    using that
  proof (induction rule: rtrancl_induct)
    case (step j k)
    then show ?case using R least by fastforce
  qed (use i in simp)
  then have sub: "R\<^sup>* `` {i} \<subseteq> {..<length lbl}" by auto
  have "lbl ! i \<le> k" if "(i, k) \<in> R\<^sup>*" for k using le [OF that] ok by (auto simp: label_ok_def intro: order_trans)
  moreover have "lbl ! i \<in> R\<^sup>* `` {i}" using ok i by (simp add: label_ok_def)
  ultimately show ?thesis using finite_subset [OF sub] by (intro Min_eqI [symmetric]) auto
qed

lemma sum_list_less:
  fixes xs ys :: "nat list"
  assumes "length ys = length xs" "\<forall>i<length xs. ys ! i \<le> xs ! i" "ys \<noteq> xs"
  shows "sum_list ys < sum_list xs"
proof -
  obtain i where i: "i < length xs" "ys ! i \<noteq> xs ! i" using assms(1,3) nth_equalityI by metis
  then have "ys ! i < xs ! i" using assms(2) by (simp add: le_neq_implies_less)
  then have "(\<Sum>i = 0..<length xs. ys ! i) < (\<Sum>i = 0..<length xs. xs ! i)"
    using i(1) assms(2) by (intro sum_strict_mono_ex1) auto
  then show ?thesis using assms(1) by (simp add: sum_list_sum_nth)
qed

subsection \<open>A node\<close>

definition nbrs :: "nat list \<Rightarrow> nat list \<Rightarrow> nat list \<Rightarrow> nat \<Rightarrow> nat set" where
  "nbrs lb ub to i = (\<lambda>j. to ! j) ` {lb ! i..<ub ! i}"

definition edges :: "nat list \<Rightarrow> nat list \<Rightarrow> nat list \<Rightarrow> (nat \<times> nat) set" where
  "edges lb ub to = {(i, k). i < length lb \<and> k \<in> nbrs lb ub to i}"

definition graph_ok :: "nat list \<Rightarrow> nat list \<Rightarrow> nat list \<Rightarrow> bool" where
  "graph_ok lb ub to \<longleftrightarrow> length ub = length lb \<and> (\<forall>i<length lb. \<forall>j\<in>{lb ! i..<ub ! i}. j < length to \<and> to ! j < length lb)"

lemma edges_below: "graph_ok lb ub to \<Longrightarrow> edges lb ub to \<subseteq> {..<length lb} \<times> {..<length lb}"
  by (auto simp: edges_def nbrs_def graph_ok_def)

lemma fold_min_run:
  assumes "\<forall>j\<in>set js. \<not> P j"
  shows "for_fold js a (\<lambda>j m. seq (undef_if (P j)) (\<lambda>_. ret (min m (f j)))) s = (Inr (foldl (\<lambda>m j. min m (f j)) a js), s)"
  using assms by (induction js arbitrary: a) (simp_all add: undef_if_def ret_def seq_def)

lemma foldl_min:
  fixes a :: nat
  shows "foldl (\<lambda>m j. min m (f j)) a js \<le> a \<and> (\<forall>j\<in>set js. foldl (\<lambda>m j. min m (f j)) a js \<le> f j) \<and>
    (foldl (\<lambda>m j. min m (f j)) a js = a \<or> (\<exists>j\<in>set js. foldl (\<lambda>m j. min m (f j)) a js = f j))"
proof (induction js arbitrary: a)
  case (Cons j js)
  have "min a (f j) \<le> a" "min a (f j) \<le> f j" "min a (f j) = a \<or> min a (f j) = f j" by (simp_all add: min_def)
  then show ?case using Cons.IH [of "min a (f j)"] by (auto intro: order_trans)
qed simp

lemma label_node_run:
  fixes s :: lab
  assumes g: "graph_ok lb ub to" and len: "length (l_lbl s) = length lb" and i: "i < length lb"
  obtains v where "label_node lb ub to i s = (Inr (), s\<lparr>l_lbl := (l_lbl s)[i := v], l_change := l_change s \<or> v \<noteq> l_lbl s ! i\<rparr>)"
    "v \<le> l_lbl s ! i" "\<forall>k\<in>nbrs lb ub to i. v \<le> l_lbl s ! k" "v = l_lbl s ! i \<or> (\<exists>k\<in>nbrs lb ub to i. v = l_lbl s ! k)"
proof (cases "ub ! i \<le> lb ! i")
  case True
  then have "label_node lb ub to i s = (Inr (), s)" using g i by (simp add: label_node_def graph_ok_def ret_def)
  then show thesis using True by (intro that [of "l_lbl s ! i"]) (simp_all add: nbrs_def)
next
  case False
  let ?js = "[lb ! i..<ub ! i]" and ?f = "\<lambda>j. l_lbl s ! (to ! j)"
  let ?v = "foldl (\<lambda>m j. min m (?f j)) (l_lbl s ! i) ?js"
  have "\<forall>j\<in>set ?js. \<not> (length to \<le> j \<or> length (l_lbl s) \<le> to ! j)" using g i len by (auto simp: graph_ok_def not_le)
  note F = fold_min_run [OF this, of "l_lbl s ! i" ?f s]
  have "label_node lb ub to i s = (if l_lbl s ! i \<noteq> ?v then put_st (s\<lparr>l_lbl := (l_lbl s)[i := ?v], l_change := True\<rparr>) else ret ()) s"
    using False g i by (simp add: label_node_def graph_ok_def seq_Inr [where m = "for_fold _ _ _", OF F])
  also have "\<dots> = (Inr (), s\<lparr>l_lbl := (l_lbl s)[i := ?v], l_change := l_change s \<or> ?v \<noteq> l_lbl s ! i\<rparr>)"
  proof (cases "?v = l_lbl s ! i")
    case True
    then show ?thesis unfolding True by (simp add: ret_def)
  qed (auto simp: put_st_def)
  finally show thesis using foldl_min [of ?f "l_lbl s ! i" ?js] by (intro that [of ?v]) (auto simp: nbrs_def)
qed

subsection \<open>A pass\<close>

lemma label_pass_run:
  fixes s :: lab
  assumes g: "graph_ok lb ub to" and "length (l_lbl s) = length lb" "label_ok (edges lb ub to) (l_lbl s)" "set ns \<subseteq> {..<length lb}"
  obtains s' where "for_each ns (label_node lb ub to) s = (Inr (), s')" "length (l_lbl s') = length lb" "label_ok (edges lb ub to) (l_lbl s')"
    "\<forall>i<length lb. l_lbl s' ! i \<le> l_lbl s ! i"
    "if l_change s' then l_change s \<or> l_lbl s' \<noteq> l_lbl s
     else \<not> l_change s \<and> l_lbl s' = l_lbl s \<and> (\<forall>i\<in>set ns. \<forall>k\<in>nbrs lb ub to i. l_lbl s ! i \<le> l_lbl s ! k)"
proof -
  have "\<exists>s'. for_each ns (label_node lb ub to) s = (Inr (), s') \<and> length (l_lbl s') = length lb \<and> label_ok (edges lb ub to) (l_lbl s') \<and>
    (\<forall>i<length lb. l_lbl s' ! i \<le> l_lbl s ! i) \<and>
    (if l_change s' then l_change s \<or> l_lbl s' \<noteq> l_lbl s
     else \<not> l_change s \<and> l_lbl s' = l_lbl s \<and> (\<forall>i\<in>set ns. \<forall>k\<in>nbrs lb ub to i. l_lbl s ! i \<le> l_lbl s ! k))"
    using assms(2-)
  proof (induction ns arbitrary: s)
    case (Cons i ns)
    have i: "i < length lb" using Cons.prems(3) by simp
    obtain v where v: "label_node lb ub to i s = (Inr (), s\<lparr>l_lbl := (l_lbl s)[i := v], l_change := l_change s \<or> v \<noteq> l_lbl s ! i\<rparr>)"
      "v \<le> l_lbl s ! i" "\<forall>k\<in>nbrs lb ub to i. v \<le> l_lbl s ! k" "v = l_lbl s ! i \<or> (\<exists>k\<in>nbrs lb ub to i. v = l_lbl s ! k)"
      by (rule label_node_run [OF g Cons.prems(1) i])
    let ?s = "s\<lparr>l_lbl := (l_lbl s)[i := v], l_change := l_change s \<or> v \<noteq> l_lbl s ! i\<rparr>"
    have "(i, v) \<in> (edges lb ub to)\<^sup>*"
      using v(4)
    proof
      assume "\<exists>k\<in>nbrs lb ub to i. v = l_lbl s ! k"
      then obtain k where k: "k \<in> nbrs lb ub to i" "v = l_lbl s ! k" by blast
      then have "(i, k) \<in> edges lb ub to" using i by (simp add: edges_def)
      moreover have "k < length lb" using k(1) g i by (auto simp: nbrs_def graph_ok_def)
      ultimately show ?thesis using Cons.prems(1,2) k(2) by (auto simp: label_ok_def intro: converse_rtrancl_into_rtrancl)
    qed (use Cons.prems(1,2) i in \<open>simp add: label_ok_def\<close>)
    then have "label_ok (edges lb ub to) (l_lbl ?s)" using label_ok_upd [OF Cons.prems(2) v(2)] by simp
    then obtain s' where s': "for_each ns (label_node lb ub to) ?s = (Inr (), s')" "length (l_lbl s') = length lb" "label_ok (edges lb ub to) (l_lbl s')"
      "\<forall>i<length lb. l_lbl s' ! i \<le> l_lbl ?s ! i"
      "if l_change s' then l_change ?s \<or> l_lbl s' \<noteq> l_lbl ?s
       else \<not> l_change ?s \<and> l_lbl s' = l_lbl ?s \<and> (\<forall>i\<in>set ns. \<forall>k\<in>nbrs lb ub to i. l_lbl ?s ! i \<le> l_lbl ?s ! k)"
    proof -
      have "length (l_lbl ?s) = length lb" "set ns \<subseteq> {..<length lb}" using Cons.prems(1,3) by simp_all
      from Cons.IH [OF this(1) \<open>label_ok _ (l_lbl ?s)\<close> this(2)] show thesis using that by blast
    qed
    have le: "\<forall>j<length lb. l_lbl s' ! j \<le> l_lbl s ! j"
    proof (intro allI impI)
      fix j assume "j < length lb"
      then show "l_lbl s' ! j \<le> l_lbl s ! j" using s'(4) v(2) Cons.prems(1) by (cases "j = i") (auto simp: nth_list_update dest!: spec [of _ j])
    qed
    have "if l_change s' then l_change s \<or> l_lbl s' \<noteq> l_lbl s
      else \<not> l_change s \<and> l_lbl s' = l_lbl s \<and> (\<forall>j\<in>set (i # ns). \<forall>k\<in>nbrs lb ub to j. l_lbl s ! j \<le> l_lbl s ! k)"
    proof (cases "v = l_lbl s ! i")
      case True
      then have "(l_lbl s)[i := v] = l_lbl s" by simp
      then show ?thesis using s'(5) True v(3) by (auto split: if_splits)
    next
      case False
      have "l_lbl s' ! i \<le> v" using s'(4) i Cons.prems(1) by (auto dest!: spec [of _ i])
      then have "l_lbl s' ! i \<noteq> l_lbl s ! i" using False v(2) by simp
      then show ?thesis using s'(5) False by (auto split: if_splits)
    qed
    then show ?case using s' le by (intro exI [of _ s']) (simp add: seq_Inr [where m = "label_node lb ub to i", OF v(1)])
  qed (simp add: ret_def)
  then show thesis using that by blast
qed

subsection \<open>All passes\<close>

lemma label_loop_run:
  fixes s :: lab
  assumes g: "graph_ok lb ub to" and ord: "\<And>it. set (ord it) = {..<length lb}"
    and "length (l_lbl s) = length lb" "label_ok (edges lb ub to) (l_lbl s)" "sum_list (l_lbl s) + 1 < fuel"
    "l_change s \<or> (\<forall>(j, k)\<in>edges lb ub to. l_lbl s ! j \<le> l_lbl s ! k)"
  shows "\<exists>s'. label_loop fuel it ord lb ub to s = (Inr (), s') \<and> length (l_lbl s') = length lb \<and> label_ok (edges lb ub to) (l_lbl s') \<and>
    (\<forall>(j, k)\<in>edges lb ub to. l_lbl s' ! j \<le> l_lbl s' ! k)"
  using assms(3-)
proof (induction fuel arbitrary: it s)
  case (Suc fuel)
  show ?case
  proof (cases "l_change s")
    case False
    then show ?thesis using Suc.prems by (intro exI [of _ s]) (simp add: ret_def)
  next
    case True
    let ?s = "s\<lparr>l_change := False\<rparr>"
    obtain s1 where s1: "for_each (ord it) (label_node lb ub to) ?s = (Inr (), s1)" "length (l_lbl s1) = length lb" "label_ok (edges lb ub to) (l_lbl s1)"
      "\<forall>i<length lb. l_lbl s1 ! i \<le> l_lbl ?s ! i"
      "if l_change s1 then l_change ?s \<or> l_lbl s1 \<noteq> l_lbl ?s
       else \<not> l_change ?s \<and> l_lbl s1 = l_lbl ?s \<and> (\<forall>i\<in>set (ord it). \<forall>k\<in>nbrs lb ub to i. l_lbl ?s ! i \<le> l_lbl ?s ! k)"
      by (rule label_pass_run [OF g, of ?s "ord it"]) (use Suc.prems ord in simp_all)
    have step: "label_loop (Suc fuel) it ord lb ub to s = label_loop fuel (Suc it) ord lb ub to s1"
      using True by (simp add: seq_Inr [where m = "for_each _ _", OF s1(1)])
    show ?thesis
    proof (cases "l_change s1")
      case True
      then have "sum_list (l_lbl s1) < sum_list (l_lbl s)" using s1(2,4,5) Suc.prems(1) by (intro sum_list_less) auto
      then show ?thesis unfolding step using Suc.prems(3) True s1(2,3) by (intro Suc.IH) auto
    next
      case False
      then have "\<forall>(j, k)\<in>edges lb ub to. l_lbl s1 ! j \<le> l_lbl s1 ! k" using s1(5) ord by (auto simp: edges_def)
      moreover obtain f where "fuel = Suc f" using Suc.prems(3) by (cases fuel) auto
      ultimately show ?thesis unfolding step using s1(2,3) False by (intro exI [of _ s1]) (simp add: ret_def)
    qed
  qed
qed simp

lemma sum_upt_le: "sum_list [0..<n] \<le> n * n"
proof -
  have "sum_list [0..<n] \<le> (\<Sum>_\<leftarrow>[0..<n]. n)" using sum_list_mono [of "[0..<n]" "\<lambda>i. i" "\<lambda>_. n"] by simp
  then show ?thesis by (simp add: sum_list_triv)
qed

lemma conn_comp_run:
  fixes s :: lab
  assumes g: "graph_ok lb ub to" and ord: "\<And>it. set (ord it) = {..<length lb}"
  obtains s' where "conn_comp ord lb ub to s = (Inr (), s')" "length (l_lbl s') = length lb"
    "\<forall>i<length lb. l_lbl s' ! i = Min ((edges lb ub to)\<^sup>* `` {i})"
proof -
  let ?s = "s\<lparr>l_lbl := [0..<length lb], l_change := True\<rparr>"
  have "sum_list (l_lbl ?s) + 1 < length lb * length lb + 2" using sum_upt_le [of "length lb"] by simp
  then obtain s' where s': "label_loop (length lb * length lb + 2) 0 ord lb ub to ?s = (Inr (), s')" "length (l_lbl s') = length lb"
    "label_ok (edges lb ub to) (l_lbl s')" "\<forall>(j, k)\<in>edges lb ub to. l_lbl s' ! j \<le> l_lbl s' ! k"
    using label_loop_run [where ord = ord and s = ?s and fuel = "length lb * length lb + 2" and it = 0, OF g ord] label_ok_init
    by (simp del: label_loop.simps) blast
  moreover have "l_lbl s' ! i = Min ((edges lb ub to)\<^sup>* `` {i})" if "i < length lb" for i
    using labels_least [OF s'(3) _ _ s'(4)] edges_below [OF g] s'(2) that by simp
  ultimately show thesis using that by (simp add: conn_comp_def Let_def)
qed

end
