(* ===== verification/Graph_Conn.thy ===== *)
theory Graph_Conn
  imports Graph_Label Aq_Num
begin

text \<open>
  The representatives of \<open>conn.c\<close>: the jumps send every node to the root of its chain, and a round that changes
  nothing leaves the least node of every component.
\<close>

subsection \<open>Roots\<close>

function rep_root :: "nat list \<Rightarrow> nat \<Rightarrow> nat" where
  "rep_root rep i = (if rep ! i < i then rep_root rep (rep ! i) else i)"
  by pat_completeness auto

termination
  by (relation "measure snd") auto

declare rep_root.simps [simp del]

lemma root_le: "rep_root rep i \<le> i"
proof (induction rep i rule: rep_root.induct)
  case (1 rep i)
  then show ?case by (subst rep_root.simps) auto
qed

lemma root_fix: "label_ok R rep \<Longrightarrow> i < length rep \<Longrightarrow> rep ! rep_root rep i = rep_root rep i"
proof (induction rep i rule: rep_root.induct)
  case (1 rep i)
  show ?case
  proof (cases "rep ! i < i")
    case True
    then show ?thesis using 1 by (subst (1 2) rep_root.simps) simp
  next
    case False
    then show ?thesis using 1(2,3) by (subst (1 2) rep_root.simps) (auto simp: label_ok_def intro: le_antisym)
  qed
qed

lemma root_label: "label_ok R rep \<Longrightarrow> i < length rep \<Longrightarrow> (i, rep_root rep i) \<in> R\<^sup>*"
proof (induction rep i rule: rep_root.induct)
  case (1 rep i)
  then show ?case by (subst rep_root.simps) (auto simp: label_ok_def intro: rtrancl_trans)
qed

lemma root_self: "rep ! i = i \<Longrightarrow> rep_root rep i = i"
  by (subst rep_root.simps) simp

lemma root_rep: "label_ok R rep \<Longrightarrow> i < length rep \<Longrightarrow> rep_root rep (rep ! i) = rep_root rep i"
proof (cases "rep ! i < i")
  case True
  then show ?thesis by (subst (2) rep_root.simps) simp
next
  case False
  assume "label_ok R rep" "i < length rep"
  then have "rep ! i \<le> i" by (simp add: label_ok_def)
  then show ?thesis using False by simp
qed

text \<open>Some entries are replaced by the root.\<close>

definition compressed :: "nat list \<Rightarrow> nat list \<Rightarrow> bool" where
  "compressed rep rep' \<longleftrightarrow> length rep' = length rep \<and> (\<forall>x<length rep. rep' ! x = rep ! x \<or> rep' ! x = rep_root rep x)"

lemma compressed_refl: "compressed rep rep"
  by (simp add: compressed_def)

lemma compressed_root:
  assumes "label_ok R rep" "compressed rep rep'" "x < length rep"
  shows "rep_root rep' x = rep_root rep x"
  using assms(3)
proof (induction x rule: less_induct)
  case (less x)
  have "rep ! x \<le> x" using assms(1) less.prems by (simp add: label_ok_def)
  consider "rep' ! x = rep ! x" | "rep' ! x = rep_root rep x" using assms(2) less.prems by (auto simp: compressed_def)
  then show ?case
  proof cases
    case 1
    show ?thesis
    proof (cases "rep ! x < x")
      case True
      then show ?thesis using 1 less by (subst (1 2) rep_root.simps) auto
    qed (subst (1 2) rep_root.simps, simp add: 1)
  next
    case 2
    show ?thesis
    proof (cases "rep_root rep x < x")
      case True
      then have "rep_root rep' (rep_root rep x) = rep_root rep (rep_root rep x)" using less by auto
      also have "\<dots> = rep_root rep x" by (rule root_self) (rule root_fix [OF assms(1) less.prems])
      finally show ?thesis using True 2 by (subst rep_root.simps) simp
    next
      case False
      then have "rep_root rep x = x" using root_le [of rep x] by simp
      then show ?thesis using 2 by (subst rep_root.simps) simp
    qed
  qed
qed

lemma compressed_ok: "label_ok R rep \<Longrightarrow> compressed rep rep' \<Longrightarrow> label_ok R rep'"
proof -
  assume a: "label_ok R rep" "compressed rep rep'"
  show ?thesis
    unfolding label_ok_def
  proof (intro allI impI)
    fix i assume "i < length rep'"
    then have i: "i < length rep" using a(2) by (simp add: compressed_def)
    then have "rep' ! i = rep ! i \<or> rep' ! i = rep_root rep i" using a(2) by (simp add: compressed_def)
    then show "rep' ! i \<le> i \<and> (i, rep' ! i) \<in> R\<^sup>*" using a(1) i root_le [of rep i] root_label [OF a(1) i] by (auto simp: label_ok_def)
  qed
qed

lemma compressed_trans:
  assumes "label_ok R rep" "compressed rep rep1" "compressed rep1 rep2"
  shows "compressed rep rep2"
  unfolding compressed_def
proof (intro conjI allI impI)
  fix x assume x: "x < length rep"
  have "rep2 ! x = rep1 ! x \<or> rep2 ! x = rep_root rep1 x" using assms(2,3) x by (simp add: compressed_def)
  then show "rep2 ! x = rep ! x \<or> rep2 ! x = rep_root rep x"
    using assms(2) x compressed_root [OF assms(1,2) x] by (auto simp: compressed_def)
qed (use assms(2,3) in \<open>simp add: compressed_def\<close>)

subsection \<open>Jumps\<close>

lemma chain_walk_run:
  assumes ok: "label_ok R rep"
  shows "me < length rep \<Longrightarrow> me < fuel \<Longrightarrow> \<exists>chain'. chain_walk fuel rep me (rep ! me) chain = Some (rep_root rep me, chain') \<and>
    set chain' \<subseteq> set chain \<union> {x. x < length rep \<and> rep_root rep x = rep_root rep me}"
proof (induction fuel arbitrary: me chain)
  case (Suc fuel)
  have le: "rep ! me \<le> me" using ok Suc.prems(1) by (simp add: label_ok_def)
  show ?case
  proof (cases "rep ! me = me")
    case True
    then show ?thesis by (simp add: root_self)
  next
    case False
    then have lt: "rep ! me < me" using le by simp
    let ?chain = "if length chain < MAX_CHAIN_LENGTH then chain @ [rep ! me] else chain"
    have r: "rep_root rep (rep ! me) = rep_root rep me" by (rule root_rep [OF ok Suc.prems(1)])
    obtain chain' where c: "chain_walk fuel rep (rep ! me) (rep ! (rep ! me)) ?chain = Some (rep_root rep (rep ! me), chain')"
      "set chain' \<subseteq> set ?chain \<union> {x. x < length rep \<and> rep_root rep x = rep_root rep (rep ! me)}"
      using Suc.IH [of "rep ! me" ?chain] lt Suc.prems by auto
    have "set ?chain \<subseteq> set chain \<union> {x. x < length rep \<and> rep_root rep x = rep_root rep me}" using r lt Suc.prems(1) by auto
    then show ?thesis using False c r by (intro exI [of _ chain']) auto
  qed
qed simp

lemma foldl_assign: "length (foldl (\<lambda>r j. r[j := p]) r js) = length r \<and>
    (\<forall>x<length r. foldl (\<lambda>r j. r[j := p]) r js ! x = (if x \<in> set js then p else r ! x))"
proof (induction js arbitrary: r)
  case (Cons j js)
  then show ?case using Cons.IH [of "r[j := p]"] by (auto simp: nth_list_update)
qed simp

lemma jump_run:
  fixes s :: conn
  assumes ok: "label_ok R (c_rep s)" and i: "i < length (c_rep s)"
  obtains rep' where "jump i s = (Inr (), s\<lparr>c_rep := rep'\<rparr>)" "compressed (c_rep s) rep'" "rep' ! i = rep_root (c_rep s) i"
proof -
  let ?rep = "c_rep s" and ?r = "rep_root (c_rep s) i"
  obtain chain where w: "chain_walk (Suc (length ?rep)) ?rep i (?rep ! i) [] = Some (?r, chain)"
    "set chain \<subseteq> {x. x < length ?rep \<and> rep_root ?rep x = ?r}"
    using chain_walk_run [OF ok i, of "Suc (length ?rep)" "[]"] i by auto
  show thesis
  proof (cases "?r = i")
    case True
    then have "jump i s = (Inr (), s\<lparr>c_rep := ?rep\<rparr>)" using w(1) by (simp add: jump_def put_st_def del: chain_walk.simps)
    moreover have "?rep ! i = ?r" using root_fix [OF ok i] True by simp
    ultimately show thesis using that compressed_refl by blast
  next
    case False
    let ?new = "foldl (\<lambda>rep j. rep[j := ?r]) (?rep[i := ?r]) chain"
    have "jump i s = (Inr (), s\<lparr>c_rep := ?new\<rparr>)" using w(1) False by (simp add: jump_def put_st_def del: chain_walk.simps)
    moreover have "compressed ?rep ?new"
    proof -
      have "?new ! x = ?rep ! x \<or> ?new ! x = rep_root ?rep x" if x: "x < length ?rep" for x
      proof -
        have "?new ! x = (if x \<in> set chain then ?r else ?rep[i := ?r] ! x)" using foldl_assign [of ?r "?rep[i := ?r]" chain] x by simp
        then show ?thesis using w(2) by (cases "x = i") (auto simp: i)
      qed
      then show ?thesis using foldl_assign [of ?r "?rep[i := ?r]" chain] by (simp add: compressed_def)
    qed
    moreover have "?new ! i = ?r" using foldl_assign [of ?r "?rep[i := ?r]" chain] i by simp
    ultimately show thesis using that by blast
  qed
qed

lemma jumps_run:
  fixes s :: conn
  assumes "label_ok R (c_rep s)" "set is \<subseteq> {..<length (c_rep s)}"
  obtains rep' where "for_each is jump s = (Inr (), s\<lparr>c_rep := rep'\<rparr>)" "compressed (c_rep s) rep'" "\<forall>i\<in>set is. rep' ! i = rep_root (c_rep s) i"
proof -
  have "\<exists>rep'. for_each is jump s = (Inr (), s\<lparr>c_rep := rep'\<rparr>) \<and> compressed (c_rep s) rep' \<and> (\<forall>i\<in>set is. rep' ! i = rep_root (c_rep s) i)"
    using assms
  proof (induction "is" arbitrary: s)
    case Nil
    show ?case by (rule exI [of _ "c_rep s"]) (simp add: ret_def compressed_refl)
  next
    case (Cons i ns)
    have i: "i < length (c_rep s)" using Cons.prems(2) by simp
    obtain rep1 where r1: "jump i s = (Inr (), s\<lparr>c_rep := rep1\<rparr>)" "compressed (c_rep s) rep1" "rep1 ! i = rep_root (c_rep s) i"
      by (rule jump_run [OF Cons.prems(1) i])
    have ok1: "label_ok R rep1" by (rule compressed_ok [OF Cons.prems(1) r1(2)])
    have len: "length rep1 = length (c_rep s)" using r1(2) by (simp add: compressed_def)
    obtain rep' where r': "for_each ns jump (s\<lparr>c_rep := rep1\<rparr>) = (Inr (), s\<lparr>c_rep := rep'\<rparr>)" "compressed rep1 rep'" "\<forall>i\<in>set ns. rep' ! i = rep_root rep1 i"
      using Cons.IH [of "s\<lparr>c_rep := rep1\<rparr>"] ok1 len Cons.prems(2) by auto
    have same: "rep_root rep1 x = rep_root (c_rep s) x" if "x < length (c_rep s)" for x by (rule compressed_root [OF Cons.prems(1) r1(2) that])
    have "rep' ! i = rep_root (c_rep s) i" using r'(2) r1(3) same [OF i] i len by (auto simp: compressed_def)
    moreover have "\<forall>j\<in>set ns. rep' ! j = rep_root (c_rep s) j" using r'(3) same Cons.prems(2) by auto
    ultimately show ?case using r1(1) r' compressed_trans [OF Cons.prems(1) r1(2) r'(2)]
      by (intro exI [of _ rep']) (simp add: seq_Inr [where m = "jump i", OF r1(1)])
  qed
  then show thesis using that by blast
qed

subsection \<open>Edges\<close>

definition pairs :: "int list \<Rightarrow> nat set \<Rightarrow> (nat \<times> nat) set" where
  "pairs E I = (\<Union>e\<in>I. {(nat (E ! e), nat (E ! (e + 1))), (nat (E ! (e + 1)), nat (E ! e))})"

definition valid_at :: "nat \<Rightarrow> int list \<Rightarrow> nat \<Rightarrow> bool" where
  "valid_at n E e \<longleftrightarrow> e + 1 < length E \<and> \<not> bad_id n (E ! e) \<and> \<not> bad_id n (E ! (e + 1))"

abbreviation agree :: "int list \<Rightarrow> (nat \<Rightarrow> nat) \<Rightarrow> nat \<Rightarrow> bool" where
  "agree E f e \<equiv> f (nat (E ! e)) = f (nat (E ! (e + 1)))"

definition below :: "nat list \<Rightarrow> nat list \<Rightarrow> bool" where
  "below rep' rep \<longleftrightarrow> length rep' = length rep \<and> (\<forall>x<length rep. rep' ! x \<le> rep ! x)"

lemma below_refl: "below rep rep"
  by (simp add: below_def)

lemma below_trans: "below a b \<Longrightarrow> below b c \<Longrightarrow> below a c"
  by (auto simp: below_def intro: order_trans)

lemma below_sum: "below a b \<Longrightarrow> sum_list a \<le> sum_list b \<and> (a \<noteq> b \<longrightarrow> sum_list a < sum_list b)"
  using sum_list_less [of a b] by (cases "a = b") (auto simp: below_def)

lemma below_antisym: "below a b \<Longrightarrow> below b a \<Longrightarrow> a = b"
  by (auto simp: below_def intro!: nth_equalityI le_antisym)

lemma edge_step_run:
  fixes s :: conn
  assumes ok: "label_ok (pairs E I) (c_rep s)" and e: "e \<in> I" and v: "valid_at (length (c_rep s)) E e"
  obtains rep' d where "edge_step E e s = (Inr (), s\<lparr>c_rep := rep', c_changes := c_changes s + d, c_live := c_live s + d, c_exst := c_exst s + 1\<rparr>)"
    "label_ok (pairs E I) rep'" "below rep' (c_rep s)" "if d = 0 then rep' = c_rep s \<and> agree E ((!) (c_rep s)) e else rep' \<noteq> c_rep s"
proof -
  let ?rep = "c_rep s" and ?f = "nat (E ! e)" and ?t = "nat (E ! (e + 1))"
  have b: "?f < length ?rep" "?t < length ?rep" using v by (auto simp: valid_at_def bad_id_def)
  have c: "(length E \<le> e + 1 \<or> bad_id (length ?rep) (E ! e) \<or> bad_id (length ?rep) (E ! (e + 1))) = False" using v by (auto simp: valid_at_def)
  have P: "(?f, ?t) \<in> pairs E I" "(?t, ?f) \<in> pairs E I" using e by (auto simp: pairs_def)
  have L: "?rep ! ?f \<le> ?f" "?rep ! ?t \<le> ?t" "(?f, ?rep ! ?f) \<in> (pairs E I)\<^sup>*" "(?t, ?rep ! ?t) \<in> (pairs E I)\<^sup>*" using ok b by (auto simp: label_ok_def)
  have T: "(?t, ?rep ! ?f) \<in> (pairs E I)\<^sup>*" "(?f, ?rep ! ?t) \<in> (pairs E I)\<^sup>*" using P L(3,4) by (auto intro: converse_rtrancl_into_rtrancl)
  note run = edge_step_def seq_get_st seq_undef_if c if_False Let_def put_st_def
  consider "?rep ! ?f < ?rep ! ?t" | "?rep ! ?t < ?rep ! ?f" | "?rep ! ?f = ?rep ! ?t" by linarith
  then show thesis
  proof cases
    case 1
    have "edge_step E e s = (Inr (), s\<lparr>c_rep := ?rep[?t := ?rep ! ?f], c_changes := c_changes s + 1, c_live := c_live s + 1, c_exst := c_exst s + 1\<rparr>)"
      using 1 by (simp only: run if_True) simp
    moreover have "label_ok (pairs E I) (?rep[?t := ?rep ! ?f])" using 1 T(1) by (intro label_ok_upd [OF ok]) auto
    moreover have "?rep[?t := ?rep ! ?f] \<noteq> ?rep" using 1 b by (metis nat_neq_iff nth_list_update_eq)
    ultimately show thesis using 1 b by (intro that [where d = 1 and rep' = "?rep[?t := ?rep ! ?f]"]) (auto simp: below_def nth_list_update)
  next
    case 2
    have "edge_step E e s = (Inr (), s\<lparr>c_rep := ?rep[?f := ?rep ! ?t], c_changes := c_changes s + 1, c_live := c_live s + 1, c_exst := c_exst s + 1\<rparr>)"
      using 2 by (simp only: run if_True) simp
    moreover have "label_ok (pairs E I) (?rep[?f := ?rep ! ?t])" using 2 T(2) by (intro label_ok_upd [OF ok]) auto
    moreover have "?rep[?f := ?rep ! ?t] \<noteq> ?rep" using 2 b by (metis nat_neq_iff nth_list_update_eq)
    ultimately show thesis using 2 b by (intro that [where d = 1 and rep' = "?rep[?f := ?rep ! ?t]"]) (auto simp: below_def nth_list_update)
  next
    case 3
    have "edge_step E e s = (Inr (), s\<lparr>c_exst := c_exst s + 1\<rparr>)" by (simp only: run 3 less_irrefl)
    then show thesis using ok 3 below_refl by (intro that [where d = 0 and rep' = ?rep]) simp_all
  qed
qed

lemma edge_step_bad: "\<not> valid_at (length (c_rep s)) E e \<Longrightarrow> edge_step E e s = (Inl Undef, s)"
proof -
  assume "\<not> valid_at (length (c_rep s)) E e"
  then have "(length E \<le> e + 1 \<or> bad_id (length (c_rep s)) (E ! e) \<or> bad_id (length (c_rep s)) (E ! (e + 1))) = True" by (auto simp: valid_at_def)
  then show ?thesis by (simp only: edge_step_def seq_get_st seq_undef_if if_True)
qed

text \<open>The step \<open>m\<close> on the edges at \<open>es\<close>: an edge with a node that does not exist is undefined; otherwise entries only sink, and
  when none is written all edges agree and nothing has changed.\<close>

definition good :: "(nat list \<Rightarrow> bool) \<Rightarrow> int list \<Rightarrow> nat list \<Rightarrow> unit cp \<Rightarrow> conn \<Rightarrow> bool" where
  "good P E es m s \<longleftrightarrow>
    (if \<forall>e\<in>set es. valid_at (length (c_rep s)) E e
     then \<exists>rep' d. m s = (Inr (), s\<lparr>c_rep := rep', c_changes := c_changes s + d, c_live := c_live s + d, c_exst := c_exst s + length es\<rparr>) \<and>
       P rep' \<and> below rep' (c_rep s) \<and>
       (if d = 0 then rep' = c_rep s \<and> (\<forall>e\<in>set es. agree E ((!) (c_rep s)) e) else rep' \<noteq> c_rep s)
     else fst (m s) = Inl Undef)"

lemma goodE:
  assumes "good P E es m s" "\<forall>e\<in>set es. valid_at (length (c_rep s)) E e"
  obtains rep' d where "m s = (Inr (), s\<lparr>c_rep := rep', c_changes := c_changes s + d, c_live := c_live s + d, c_exst := c_exst s + length es\<rparr>)"
    "P rep'" "below rep' (c_rep s)" "d = 0 \<Longrightarrow> rep' = c_rep s \<and> (\<forall>e\<in>set es. agree E ((!) (c_rep s)) e)" "d \<noteq> 0 \<Longrightarrow> rep' \<noteq> c_rep s"
  using assms by (fastforce simp: good_def)

lemma good_bad: "good P E es m s \<Longrightarrow> \<not> (\<forall>e\<in>set es. valid_at (length (c_rep s)) E e) \<Longrightarrow> fst (m s) = Inl Undef"
  by (simp only: good_def if_False)

lemma goodI:
  assumes "\<forall>e\<in>set es. valid_at (length (c_rep s)) E e"
    "m s = (Inr (), s\<lparr>c_rep := rep', c_changes := c_changes s + d, c_live := c_live s + d, c_exst := c_exst s + length es\<rparr>)"
    "P rep'" "below rep' (c_rep s)" "d = 0 \<Longrightarrow> rep' = c_rep s \<and> (\<forall>e\<in>set es. agree E ((!) (c_rep s)) e)" "d \<noteq> 0 \<Longrightarrow> rep' \<noteq> c_rep s"
  shows "good P E es m s"
  unfolding good_def if_P [OF assms(1)] using assms(2-) by (intro exI [of _ rep'] exI [of _ d]) simp

lemma good_seq:
  assumes m: "good P E es m s" and m': "\<And>s'. P (c_rep s') \<Longrightarrow> length (c_rep s') = length (c_rep s) \<Longrightarrow> good P E es' m' s'"
  shows "good P E (es @ es') (seq m (\<lambda>_. m')) s"
proof (cases "\<forall>e\<in>set es. valid_at (length (c_rep s)) E e")
  case False
  then have "fst (m s) = Inl Undef" by (rule good_bad [OF m])
  then obtain s' where "m s = (Inl Undef, s')" by (cases "m s") auto
  then have "fst (seq m (\<lambda>_. m') s) = Inl Undef" by (simp add: seq_Inl [where m = m])
  moreover have "\<not> (\<forall>e\<in>set (es @ es'). valid_at (length (c_rep s)) E e)" using False by auto
  ultimately show ?thesis by (simp only: good_def if_False)
next
  case v: True
  obtain rep1 d1 where r1: "m s = (Inr (), s\<lparr>c_rep := rep1, c_changes := c_changes s + d1, c_live := c_live s + d1, c_exst := c_exst s + length es\<rparr>)"
    "P rep1" "below rep1 (c_rep s)" "d1 = 0 \<Longrightarrow> rep1 = c_rep s \<and> (\<forall>e\<in>set es. agree E ((!) (c_rep s)) e)" "d1 \<noteq> 0 \<Longrightarrow> rep1 \<noteq> c_rep s"
    by (rule goodE [OF m v]) (rule that)
  let ?s = "s\<lparr>c_rep := rep1, c_changes := c_changes s + d1, c_live := c_live s + d1, c_exst := c_exst s + length es\<rparr>"
  have step: "seq m (\<lambda>_. m') s = m' ?s" by (rule seq_Inr [where m = m, OF r1(1)])
  have len: "length rep1 = length (c_rep s)" using r1(3) by (simp add: below_def)
  have g: "good P E es' m' ?s" by (rule m') (simp_all add: r1(2) len)
  show ?thesis
  proof (cases "\<forall>e\<in>set es'. valid_at (length (c_rep s)) E e")
    case False
    then have "\<not> (\<forall>e\<in>set es'. valid_at (length (c_rep ?s)) E e)" using len by simp
    then have "fst (m' ?s) = Inl Undef" by (rule good_bad [OF g])
    moreover have "\<not> (\<forall>e\<in>set (es @ es'). valid_at (length (c_rep s)) E e)" using False by auto
    ultimately show ?thesis unfolding good_def step by (simp only: if_False)
  next
    case v': True
    then have "\<forall>e\<in>set es'. valid_at (length (c_rep ?s)) E e" using len by simp
    then obtain rep' d where r0: "m' ?s = (Inr (), ?s\<lparr>c_rep := rep', c_changes := c_changes ?s + d, c_live := c_live ?s + d, c_exst := c_exst ?s + length es'\<rparr>)"
      "P rep'" "below rep' (c_rep ?s)" "d = 0 \<Longrightarrow> rep' = c_rep ?s \<and> (\<forall>e\<in>set es'. agree E ((!) (c_rep ?s)) e)" "d \<noteq> 0 \<Longrightarrow> rep' \<noteq> c_rep ?s"
      by (rule goodE [OF g]) (rule that)
    have "c_rep ?s = rep1" by simp
    note r' = r0 [unfolded this]
    have ne: "rep' \<noteq> c_rep s" if "d1 + d \<noteq> 0"
    proof
      assume "rep' = c_rep s"
      then have "rep1 = c_rep s" using below_antisym [OF r1(3)] r'(3) by simp
      then show False using r1(5) r'(5) \<open>rep' = c_rep s\<close> that by (cases "d1 = 0") auto
    qed
    show ?thesis
    proof (rule goodI [where d = "d1 + d" and rep' = rep'])
      show "\<forall>e\<in>set (es @ es'). valid_at (length (c_rep s)) E e" using v v' by auto
      show "seq m (\<lambda>_. m') s = (Inr (), s\<lparr>c_rep := rep', c_changes := c_changes s + (d1 + d), c_live := c_live s + (d1 + d), c_exst := c_exst s + length (es @ es')\<rparr>)"
        unfolding step r'(1) by (simp add: add.assoc)
      show "below rep' (c_rep s)" by (rule below_trans [OF r'(3) r1(3)])
    qed (use r'(2,4) r1(4) ne in auto)
  qed
qed

lemma good_for_each:
  assumes "\<And>x s. x \<in> set xs \<Longrightarrow> P (c_rep s) \<Longrightarrow> length (c_rep s) = n \<Longrightarrow> good P E (h x) (f x) s"
    "P (c_rep s)" "length (c_rep s) = n"
  shows "good P E (concat (map h xs)) (for_each xs f) s"
  using assms
proof (induction xs arbitrary: s)
  case Nil
  then show ?case by (intro goodI [where d = 0 and rep' = "c_rep s"]) (simp_all add: ret_def below_refl)
next
  case (Cons x xs)
  have "good P E (h x @ concat (map h xs)) (seq (f x) (\<lambda>_. for_each xs f)) s"
  proof (rule good_seq)
    show "good P E (h x) (f x) s" using Cons.prems by simp
  next
    fix s' :: conn assume "P (c_rep s')" "length (c_rep s') = length (c_rep s)"
    then show "good P E (concat (map h xs)) (for_each xs f) s'" using Cons.prems by (intro Cons.IH) auto
  qed
  then show ?case by simp
qed

lemma edge_good: "label_ok (pairs E I) (c_rep s) \<Longrightarrow> e \<in> I \<Longrightarrow> good (label_ok (pairs E I)) E [e] (edge_step E e) s"
proof (cases "valid_at (length (c_rep s)) E e")
  case True
  assume "label_ok (pairs E I) (c_rep s)" "e \<in> I"
  from edge_step_run [OF this True] obtain rep' d where
    "edge_step E e s = (Inr (), s\<lparr>c_rep := rep', c_changes := c_changes s + d, c_live := c_live s + d, c_exst := c_exst s + 1\<rparr>)"
    "label_ok (pairs E I) rep'" "below rep' (c_rep s)" "if d = 0 then rep' = c_rep s \<and> agree E ((!) (c_rep s)) e else rep' \<noteq> c_rep s" .
  then show ?thesis using True by (intro goodI [where d = d and rep' = rep']) (simp_all split: if_splits)
next
  case False
  then show ?thesis using edge_step_bad [OF False] by (simp add: good_def)
qed

lemma edges_good:
  assumes "label_ok (pairs E I) (c_rep s)" "set es \<subseteq> I"
  shows "good (label_ok (pairs E I)) E es (for_each es (edge_step E)) s"
proof -
  have "good (label_ok (pairs E I)) E (concat (map (\<lambda>e. [e]) es)) (for_each es (edge_step E)) s"
    by (rule good_for_each) (use assms in \<open>auto intro: edge_good\<close>)
  then show ?thesis by simp
qed

end
