(* ===== verification/Graph_Round.thy ===== *)
theory Graph_Round
  imports Graph_Conn
begin

text \<open>
  Rounds of \<open>conn.c\<close> over all edges, and what the loop around them comes to.
\<close>

subsection \<open>A block\<close>

text \<open>After the jumps every representative stands for itself.\<close>

definition flat :: "nat list \<Rightarrow> bool" where
  "flat rep \<longleftrightarrow> (\<forall>x<length rep. rep ! (rep ! x) = rep ! x)"

lemma flat_root: "label_ok R rep \<Longrightarrow> flat rep \<Longrightarrow> x < length rep \<Longrightarrow> rep_root rep x = rep ! x"
  using root_rep [of R rep x] root_self [of rep "rep ! x"] by (simp add: flat_def)

lemma compressed_below: "label_ok R rep \<Longrightarrow> compressed rep rep' \<Longrightarrow> below rep' rep"
proof -
  assume a: "label_ok R rep" "compressed rep rep'"
  have "rep' ! x \<le> rep ! x" if x: "x < length rep" for x
  proof -
    have "rep_root rep x \<le> rep ! x" using root_le [of rep "rep ! x"] root_rep [OF a(1) x] by simp
    then show ?thesis using a(2) x by (auto simp: compressed_def)
  qed
  then show ?thesis using a(2) by (simp add: below_def compressed_def)
qed

lemma jumps_flat:
  fixes s :: conn
  assumes ok: "label_ok R (c_rep s)"
  obtains rep' where "for_each [0..<length (c_rep s)] jump s = (Inr (), s\<lparr>c_rep := rep'\<rparr>)" "label_ok R rep'" "flat rep'" "below rep' (c_rep s)"
    "flat (c_rep s) \<Longrightarrow> rep' = c_rep s"
proof -
  obtain rep' where r: "for_each [0..<length (c_rep s)] jump s = (Inr (), s\<lparr>c_rep := rep'\<rparr>)" "compressed (c_rep s) rep'"
    "\<forall>i\<in>set [0..<length (c_rep s)]. rep' ! i = rep_root (c_rep s) i"
    by (rule jumps_run [OF ok, of "[0..<length (c_rep s)]"]) auto
  have len: "length rep' = length (c_rep s)" using r(2) by (simp add: compressed_def)
  have at: "rep' ! x = rep_root (c_rep s) x" if "x < length (c_rep s)" for x using r(3) that by simp
  have "rep' ! (rep' ! x) = rep' ! x" if x: "x < length (c_rep s)" for x
  proof -
    have "rep_root (c_rep s) x < length (c_rep s)" using root_le [of "c_rep s" x] x by simp
    then have "rep' ! (rep' ! x) = rep_root (c_rep s) (rep_root (c_rep s) x)" using at x by simp
    then show ?thesis using at [OF x] root_self [OF root_fix [OF ok x]] by simp
  qed
  then have "flat rep'" by (simp add: flat_def len)
  moreover have "rep' = c_rep s" if "flat (c_rep s)" using at flat_root [OF ok that] len by (intro nth_equalityI) simp_all
  ultimately show thesis by (rule that [OF r(1) compressed_ok [OF ok r(2)] _ compressed_below [OF ok r(2)]])
qed

abbreviation rep_ok :: "(nat \<times> nat) set \<Rightarrow> nat list \<Rightarrow> bool" where
  "rep_ok R rep \<equiv> label_ok R rep \<and> flat rep"

lemma block_good:
  fixes s :: conn
  assumes ok: "rep_ok (pairs E I) (c_rep s)" and es: "set es \<subseteq> I" and n: "nV = length (c_rep s)"
  shows "good (rep_ok (pairs E I)) E es (steps [for_each es (edge_step E), for_each [0..<nV] jump]) s"
proof -
  let ?m = "steps [for_each es (edge_step E), for_each [0..<nV] jump]"
  have g: "good (label_ok (pairs E I)) E es (for_each es (edge_step E)) s" using ok es by (intro edges_good) simp_all
  show ?thesis
  proof (cases "\<forall>e\<in>set es. valid_at (length (c_rep s)) E e")
    case False
    then obtain s' where "for_each es (edge_step E) s = (Inl Undef, s')"
      using good_bad [OF g] by (cases "for_each es (edge_step E) s") auto
    then have "fst (?m s) = Inl Undef" by (simp add: seq_Inl [where m = "for_each es (edge_step E)"])
    then show ?thesis using False by (simp only: good_def if_False)
  next
    case v: True
    then obtain rep1 d where r1: "for_each es (edge_step E) s = (Inr (), s\<lparr>c_rep := rep1, c_changes := c_changes s + d, c_live := c_live s + d, c_exst := c_exst s + length es\<rparr>)"
      "label_ok (pairs E I) rep1" "below rep1 (c_rep s)" "d = 0 \<Longrightarrow> rep1 = c_rep s \<and> (\<forall>e\<in>set es. agree E ((!) (c_rep s)) e)" "d \<noteq> 0 \<Longrightarrow> rep1 \<noteq> c_rep s"
      by (rule goodE [OF g]) (rule that)
    let ?s = "s\<lparr>c_rep := rep1, c_changes := c_changes s + d, c_live := c_live s + d, c_exst := c_exst s + length es\<rparr>"
    have len: "length rep1 = length (c_rep s)" using r1(3) by (simp add: below_def)
    obtain rep' where r: "for_each [0..<length (c_rep ?s)] jump ?s = (Inr (), ?s\<lparr>c_rep := rep'\<rparr>)" "label_ok (pairs E I) rep'" "flat rep'"
      "below rep' (c_rep ?s)" "flat (c_rep ?s) \<Longrightarrow> rep' = c_rep ?s"
      by (rule jumps_flat [of "pairs E I" ?s]) (use r1(2) in simp_all)
    have "?m s = (Inr (), ?s\<lparr>c_rep := rep'\<rparr>)" using r(1) len n by (simp add: seq_Inr [where m = "for_each es (edge_step E)", OF r1(1)] seq_Inr [where m = "for_each _ jump"] ret_def)
    then show ?thesis
    proof (intro goodI [where d = d and rep' = rep', OF v])
      show "below rep' (c_rep s)" using below_trans [OF r(4)] r1(3) by simp
      show "rep' \<noteq> c_rep s" if "d \<noteq> 0"
      proof
        assume "rep' = c_rep s"
        then have "rep1 = c_rep s" using below_antisym [OF r1(3)] r(4) by simp
        then show False using r1(5) that by simp
      qed
      show "rep' = c_rep s \<and> (\<forall>e\<in>set es. agree E ((!) (c_rep s)) e)" if "d = 0" using r1(4) [OF that] r(5) ok by simp
    qed (use r(2,3) in simp_all)
  qed
qed

subsection \<open>The edges of a round\<close>

text \<open>Where the edges of the blocks start; \<open>even_blocks\<close>: a block is a whole number of edges.\<close>

definition block_pos :: "nat \<Rightarrow> nat \<Rightarrow> nat \<Rightarrow> nat list" where
  "block_pos m n b =
    (let lb = b * (m div n); ub = (if b = n - 1 then m else lb + m div n) in map (\<lambda>k. lb + 2 * k) [0..<(ub - lb + 1) div 2])"

definition n_blocks :: "nat \<Rightarrow> int list \<Rightarrow> nat" where
  "n_blocks nV E = length E div nV div 4"

definition even_blocks :: "nat \<Rightarrow> int list \<Rightarrow> bool" where
  "even_blocks nV E \<longleftrightarrow> even (length E) \<and> (n_blocks nV E = 1 \<or> even (length E div n_blocks nV E))"

definition round_pos :: "nat \<Rightarrow> int list \<Rightarrow> nat list" where
  "round_pos nV E = concat (map (block_pos (length E) (n_blocks nV E)) [0..<n_blocks nV E])"

lemma even_upto: "even (x::nat) \<Longrightarrow> (x + 1) div 2 = x div 2"
  by presburger

lemma block_pos_set:
  assumes "even m" "n = 1 \<or> even (m div n)" "b < n"
  shows "set (block_pos m n b) = {e. even e \<and> b * (m div n) \<le> e \<and> e < (if b = n - 1 then m else b * (m div n) + m div n)}"
proof -
  let ?lb = "b * (m div n)" and ?ub = "if b = n - 1 then m else b * (m div n) + m div n"
  have e: "even ?lb" "even ?ub" using assms by auto
  have "x \<in> (\<lambda>k. ?lb + 2 * k) ` {0..<(?ub - ?lb) div 2} \<longleftrightarrow> even x \<and> ?lb \<le> x \<and> x < ?ub" for x
  proof
    assume "x \<in> (\<lambda>k. ?lb + 2 * k) ` {0..<(?ub - ?lb) div 2}"
    then show "even x \<and> ?lb \<le> x \<and> x < ?ub" using e by auto
  next
    assume x: "even x \<and> ?lb \<le> x \<and> x < ?ub"
    then have "x = ?lb + 2 * ((x - ?lb) div 2)" "(x - ?lb) div 2 < (?ub - ?lb) div 2" using e by (auto elim!: evenE)
    then show "x \<in> (\<lambda>k. ?lb + 2 * k) ` {0..<(?ub - ?lb) div 2}" by (intro image_eqI [of _ _ "(x - ?lb) div 2"]) auto
  qed
  moreover have "(?ub - ?lb + 1) div 2 = (?ub - ?lb) div 2" using e by (intro even_upto) simp
  ultimately show ?thesis unfolding block_pos_def Let_def by (simp only: set_map set_upt) blast
qed

lemma round_pos_set:
  assumes eb: "even_blocks nV E" and n: "0 < n_blocks nV E"
  shows "set (round_pos nV E) = {e. even e \<and> e < length E}"
proof -
  let ?m = "length E" and ?n = "n_blocks nV E"
  let ?s = "?m div ?n"
  have e: "even ?m" "?n = 1 \<or> even ?s" using eb by (auto simp: even_blocks_def)
  have le: "?n * ?s \<le> ?m" by (simp add: mult.commute)
  have "?s > 0" using n e(1) eb
    by (metis One_nat_def Suc_leI div_greater_zero_iff div_le_dividend le_trans n_blocks_def)
  show ?thesis
  proof (intro equalityI subsetI)
    fix x assume "x \<in> set (round_pos nV E)"
    then obtain b where b: "b < ?n" "x \<in> set (block_pos ?m ?n b)" by (auto simp: round_pos_def)
    have "b * ?s + ?s \<le> ?m" using b(1) mult_le_mono1 [of "b + 1" ?n ?s] le by (simp add: add.commute del: times_div_less_eq_dividend)
    then show "x \<in> {e. even e \<and> e < ?m}" using b(2) block_pos_set [OF e b(1)] by (auto split: if_splits)
  next
    fix x assume x: "x \<in> {e. even e \<and> e < ?m}"
    define b where "b = min (x div ?s) (?n - 1)"
    have b: "b < ?n" using n by (simp add: b_def)
    have "b * ?s \<le> x div ?s * ?s" by (rule mult_le_mono1) (simp add: b_def)
    then have "b * ?s \<le> x" using div_times_less_eq_dividend [of x ?s] by (rule le_trans)
    moreover have "x < b * ?s + ?s" if "b \<noteq> ?n - 1"
    proof -
      have "b = x div ?s" using that by (simp add: b_def min_def split: if_splits)
      then show ?thesis using \<open>?s > 0\<close> by (simp add: dividend_less_div_times add.commute)
    qed
    ultimately have "x \<in> set (block_pos ?m ?n b)" using x block_pos_set [OF e b] by simp
    then show "x \<in> set (round_pos nV E)" using b by (auto simp: round_pos_def)
  qed
qed

lemma conn_round_eq:
  "conn_round nV E s =
    (if n_blocks nV E = 0 then (Inl Undef, s)
     else for_each [0..<n_blocks nV E] (\<lambda>b. steps [for_each (block_pos (length E) (n_blocks nV E) b) (edge_step E), for_each [0..<nV] jump])
       (s\<lparr>c_changes := 0, c_live := 0, c_exst := 0\<rparr>))"
  by (simp add: conn_round_def conn_block_def block_pos_def n_blocks_def Let_def)

lemma round_good:
  fixes s :: conn
  assumes ok: "rep_ok (pairs E I) (c_rep s)" and n: "length (c_rep s) = nV" and I: "set (round_pos nV E) \<subseteq> I"
  shows "good (rep_ok (pairs E I)) E (round_pos nV E)
    (for_each [0..<n_blocks nV E] (\<lambda>b. steps [for_each (block_pos (length E) (n_blocks nV E) b) (edge_step E), for_each [0..<nV] jump])) s"
  unfolding round_pos_def
proof (rule good_for_each [where n = nV])
  fix b and s :: conn
  assume a: "b \<in> set [0..<n_blocks nV E]" "rep_ok (pairs E I) (c_rep s)" "length (c_rep s) = nV"
  then have "set (block_pos (length E) (n_blocks nV E) b) \<subseteq> set (round_pos nV E)" by (auto simp: round_pos_def)
  then have "set (block_pos (length E) (n_blocks nV E) b) \<subseteq> I" using I by (rule subset_trans)
  then show "good (rep_ok (pairs E I)) E (block_pos (length E) (n_blocks nV E) b)
    (steps [for_each (block_pos (length E) (n_blocks nV E) b) (edge_step E), for_each [0..<nV] jump]) s"
    by (rule block_good [OF a(2)]) (simp add: a(3))
qed (use ok n in simp_all)


lemma round_pos_length: "length (round_pos nV E) \<le> length E"
proof -
  let ?m = "length E" and ?n = "n_blocks nV E"
  let ?s = "?m div ?n"
  have half: "(x + 1) div 2 \<le> x" for x :: nat by presburger
  have part: "sum_list (map (\<lambda>b. length (block_pos ?m ?n b)) [0..<j]) \<le> j * ?s" if "j < ?n" for j
    using that
  proof (induction j)
    case (Suc j)
    then have "length (block_pos ?m ?n j) \<le> ?s" using half [of ?s] by (simp add: block_pos_def Let_def)
    then show ?case using Suc by simp
  qed simp
  show ?thesis
  proof (cases "?n = 0")
    case True
    then show ?thesis by (simp add: round_pos_def)
  next
    case False
    then obtain k where k: "?n = Suc k" by (cases ?n) auto
    have "k * ?s \<le> ?n * ?s" by (rule mult_le_mono1) (simp add: k)
    also have "\<dots> \<le> ?m" by simp
    finally have "k * ?s \<le> ?m" .
    moreover have "length (block_pos ?m ?n k) \<le> ?m - k * ?s" using half [of "?m - k * ?s"] by (simp add: block_pos_def Let_def k)
    moreover have "length (round_pos nV E) = sum_list (map (\<lambda>b. length (block_pos ?m ?n b)) [0..<k]) + length (block_pos ?m ?n k)"
      by (simp add: round_pos_def length_concat o_def) (simp add: k)
    ultimately show ?thesis using part [of k] k by simp
  qed
qed

lemma round_pos_first: "0 < n_blocks nV E \<Longrightarrow> 0 \<in> set (round_pos nV E)"
proof -
  assume n: "0 < n_blocks nV E"
  then have "0 < length E div n_blocks nV E"
    by (metis (no_types, lifting) div_greater_zero_iff div_le_dividend le_trans n_blocks_def)
  moreover have "0 < length E" using n by (auto simp: n_blocks_def intro: ccontr)
  ultimately have "0 \<in> set (block_pos (length E) (n_blocks nV E) 0)"
    unfolding block_pos_def Let_def by (auto intro!: image_eqI [of _ _ 0])
  then show ?thesis using n by (auto simp: round_pos_def)
qed

text \<open>A round: undefined when there is no block or an edge has a node that does not exist.\<close>

abbreviation round_edges :: "nat \<Rightarrow> int list \<Rightarrow> (nat \<times> nat) set" where
  "round_edges nV E \<equiv> pairs E (set (round_pos nV E))"

lemma round_run:
  fixes s :: conn
  assumes ok: "rep_ok (round_edges nV E) (c_rep s)" and n: "length (c_rep s) = nV"
  obtains (bad) "fst (conn_round nV E s) = Inl Undef" "n_blocks nV E = 0 \<or> \<not> (\<forall>e\<in>set (round_pos nV E). valid_at nV E e)"
  | (run) rep' d where "0 < n_blocks nV E" "\<forall>e\<in>set (round_pos nV E). valid_at nV E e"
      "conn_round nV E s = (Inr (), s\<lparr>c_rep := rep', c_changes := d, c_live := d, c_exst := length (round_pos nV E)\<rparr>)"
      "rep_ok (round_edges nV E) rep'" "length rep' = nV"
      "d = 0 \<Longrightarrow> rep' = c_rep s \<and> (\<forall>e\<in>set (round_pos nV E). agree E ((!) rep') e)" "d \<noteq> 0 \<Longrightarrow> sum_list rep' < sum_list (c_rep s)"
proof (cases "n_blocks nV E = 0")
  case True
  then show thesis by (intro bad) (simp_all add: conn_round_eq)
next
  case False
  let ?f = "for_each [0..<n_blocks nV E] (\<lambda>b. steps [for_each (block_pos (length E) (n_blocks nV E) b) (edge_step E), for_each [0..<nV] jump])"
  let ?s = "s\<lparr>c_changes := 0, c_live := 0, c_exst := 0\<rparr>"
  have g: "good (rep_ok (round_edges nV E)) E (round_pos nV E) ?f ?s" by (rule round_good) (use ok n in simp_all)
  have eq: "conn_round nV E s = ?f ?s" using False by (simp add: conn_round_eq)
  show thesis
  proof (cases "\<forall>e\<in>set (round_pos nV E). valid_at nV E e")
    case v: False
    then have "fst (?f ?s) = Inl Undef" using good_bad [OF g] n by simp
    then show thesis using bad v eq by simp
  next
    case v: True
    then have "\<forall>e\<in>set (round_pos nV E). valid_at (length (c_rep ?s)) E e" using n by simp
    then obtain rep' d where r: "?f ?s = (Inr (), ?s\<lparr>c_rep := rep', c_changes := c_changes ?s + d, c_live := c_live ?s + d, c_exst := c_exst ?s + length (round_pos nV E)\<rparr>)"
      "rep_ok (round_edges nV E) rep'" "below rep' (c_rep ?s)"
      "d = 0 \<Longrightarrow> rep' = c_rep ?s \<and> (\<forall>e\<in>set (round_pos nV E). agree E ((!) (c_rep ?s)) e)" "d \<noteq> 0 \<Longrightarrow> rep' \<noteq> c_rep ?s"
      by (rule goodE [OF g]) (rule that)
    show thesis
    proof (rule run [where rep' = rep' and d = d])
      show "conn_round nV E s = (Inr (), s\<lparr>c_rep := rep', c_changes := d, c_live := d, c_exst := length (round_pos nV E)\<rparr>)"
        unfolding eq r(1) by simp
      show "length rep' = nV" using r(3) n by (simp add: below_def)
      show "d \<noteq> 0 \<Longrightarrow> sum_list rep' < sum_list (c_rep s)" using r(3,5) below_sum [of rep' "c_rep s"] by simp
    qed (use False v r(2,4) in auto)
  qed
qed

end
