(* ===== verification/Graph_Thms.thy ===== *)
theory Graph_Thms
  imports Graph_Round
begin

text \<open>
  What the programs for connected components compute: rounds of \<open>conn.c\<close> end in the least nodes, but the condensing step
  between them writes past its block, whatever the input.
\<close>

subsection \<open>Condensing\<close>

text \<open>An edge is ignored when both of its nodes have the same representative and neither stands for itself.\<close>

lemma condense_fold:
  fixes s :: conn
  assumes "c_live s = 0" "i \<in> set ks" "length E \<le> i + 1 \<or> rep_self i"
    "\<And>i. rep_self i \<Longrightarrow> c_rep s ! nat (E ! i) = nat (E ! i) \<or> c_rep s ! nat (E ! (i + 1)) = nat (E ! (i + 1))"
  shows "fst (for_fold ks 0 (condense_step E) s) = Inl Undef"
  using assms(2)
proof (induction ks)
  case (Cons k ks)
  have "condense_step E k 0 s = (Inl Undef, s) \<or> condense_step E k 0 s = (Inr 0, s) \<and> \<not> (length E \<le> k + 1) \<and>
      \<not> (c_rep s ! nat (E ! k) = nat (E ! k) \<or> c_rep s ! nat (E ! (k + 1)) = nat (E ! (k + 1)))"
    using assms(1) by (simp add: condense_step_def Let_def ret_def)
  then show ?case
  proof
    assume "condense_step E k 0 s = (Inl Undef, s)"
    then show ?thesis by (simp add: seq_Inl [where m = "condense_step E k 0"])
  next
    assume c: "condense_step E k 0 s = (Inr 0, s) \<and> \<not> (length E \<le> k + 1) \<and>
      \<not> (c_rep s ! nat (E ! k) = nat (E ! k) \<or> c_rep s ! nat (E ! (k + 1)) = nat (E ! (k + 1)))"
    then have "i \<noteq> k" using assms(3,4) by blast
    then have "fst (for_fold ks 0 (condense_step E) s) = Inl Undef" using Cons by simp
    then show ?thesis using c by (simp add: seq_Inr [where m = "condense_step E k 0"])
  qed
qed simp

lemma condense_fold_cases:
  fixes s :: conn
  shows "fst (for_fold ks a (condense_step E) s) = Inl Undef \<or> (\<exists>a'. for_fold ks a (condense_step E) s = (Inr a', s))"
proof (induction ks arbitrary: a)
  case (Cons k ks)
  have "condense_step E k a s = (Inl Undef, s) \<or> condense_step E k a s = (Inr a, s) \<or> condense_step E k a s = (Inr (a + 2), s)"
    by (simp add: condense_step_def Let_def ret_def)
  then consider "condense_step E k a s = (Inl Undef, s)" | a' where "condense_step E k a s = (Inr a', s)" by blast
  then show ?case
  proof cases
    case 1
    then show ?thesis by (simp add: seq_Inl [where m = "condense_step E k a"])
  next
    case 2
    then show ?thesis using Cons by (simp add: seq_Inr [where m = "condense_step E k a"])
  qed
qed (simp add: ret_def)

lemma condense_cases: "fst (condense E s) = Inl Undef \<or> condense E s = (Inr (), s)"
proof -
  let ?ks = "map (\<lambda>k. 2 * k) [0..<(length E + 1) div 2]"
  consider "fst (for_fold ?ks 0 (condense_step E) s) = Inl Undef" | a' where "for_fold ?ks 0 (condense_step E) s = (Inr a', s)"
    using condense_fold_cases [of ?ks 0 E s] by blast
  then show ?thesis
  proof cases
    case 1
    then obtain s' where "for_fold ?ks 0 (condense_step E) s = (Inl Undef, s')" by (cases "for_fold ?ks 0 (condense_step E) s") auto
    then show ?thesis by (simp add: condense_def seq_Inl [where m = "for_fold _ _ _"] ret_def)
  next
    case 2
    then show ?thesis by (simp add: condense_def seq_Inr [where m = "for_fold _ _ _"] ret_def)
  qed
qed

lemma no_live_few: "0 < n \<Longrightarrow> n < 2 ^ 53 \<Longrightarrow> fp_less (fp_div (F8_of_nat 0) (F8_of_nat n)) fp_tenth"
proof -
  assume n: "0 < n" "n < 2 ^ 53"
  have v: "is_fin (F8_of_nat 0)" "fp_value (F8_of_nat 0) = 0" "is_fin (F8_of_nat n)" "fp_value (F8_of_nat n) = real n"
    using F8_of_nat [of 0] F8_of_nat [of n] n by simp_all
  have "between 0 0 (fp_div (F8_of_nat 0) (F8_of_nat n))" using v n by (intro div_between) simp_all
  moreover have "is_fin fp_tenth" "0 < fp_value fp_tenth" by (simp_all add: fp_tenth_def)
  ultimately show ?thesis by (auto simp: between_def is_fin_def fp_less_key)
qed

lemma condense_overruns:
  fixes s :: conn
  assumes ok: "rep_ok (round_edges nV E) (c_rep s)" and n: "length (c_rep s) = nV" "0 < n_blocks nV E"
    and v: "\<forall>e\<in>set (round_pos nV E). valid_at nV E e" and ag: "\<forall>e\<in>set (round_pos nV E). agree E ((!) (c_rep s)) e"
    and live: "c_live s = 0" and exst: "c_exst s = length (round_pos nV E)" and small: "length E < 2 ^ 53"
  shows "fst (condense E s) = Inl Undef"
proof -
  let ?rep = "c_rep s" and ?R = "round_edges nV E"
  let ?self = "\<lambda>e. ?rep ! nat (E ! e) = nat (E ! e)"
  have first: "0 \<in> set (round_pos nV E)" by (rule round_pos_first [OF n(2)])
  have x: "nat (E ! 0) < nV" "0 < length E" using v first by (auto simp: valid_at_def bad_id_def)
  have r: "(nat (E ! 0), ?rep ! nat (E ! 0)) \<in> ?R\<^sup>*" using ok x n by (simp add: label_ok_def)
  have f: "?rep ! (?rep ! nat (E ! 0)) = ?rep ! nat (E ! 0)" using ok x n by (simp add: flat_def)
  obtain p where p: "p < length E" "?self p"
    using r
  proof (cases rule: rtranclE)
    case base
    then show thesis using that [of 0] x by simp
  next
    case (step y)
    then obtain e where "e \<in> set (round_pos nV E)" "?rep ! nat (E ! 0) = nat (E ! e) \<or> ?rep ! nat (E ! 0) = nat (E ! (e + 1))"
      by (auto simp: pairs_def)
    then show thesis using that [of e] that [of "e + 1"] v f by (auto simp: valid_at_def)
  qed
  let ?i = "2 * (p div 2)" and ?ks = "map (\<lambda>k. 2 * k) [0..<(length E + 1) div 2]"
  have "fst (for_fold ?ks 0 (condense_step E) s) = Inl Undef"
  proof (rule condense_fold [OF live, where i = ?i and rep_self = "\<lambda>i. ?self i \<or> ?self (i + 1)"])
    show "?i \<in> set ?ks" using p(1) by auto
    have "p = ?i \<or> p = ?i + 1" by presburger
    then show "length E \<le> ?i + 1 \<or> (?self ?i \<or> ?self (?i + 1))" using p(2) by (metis (no_types))
  qed
  then obtain s' where u: "for_fold ?ks 0 (condense_step E) s = (Inl Undef, s')" by (cases "for_fold ?ks 0 (condense_step E) s") auto
  have "0 < length (round_pos nV E)" using first by (cases "round_pos nV E") auto
  then have "fp_less (fp_div (F8_of_nat (c_live s)) (F8_of_nat (c_exst s))) fp_tenth"
    unfolding live exst using round_pos_length [of nV E] small by (intro no_live_few) simp_all
  then have "condense E s = (Inl Undef, s')" unfolding condense_def seq_get_st if_True by (simp only: if_True seq_Inl [where m = "for_fold _ _ _", OF u])
  then show ?thesis by simp
qed

subsection \<open>All rounds\<close>

lemma conn_loop_undef:
  fixes s :: conn
  assumes "rep_ok (round_edges nV E) (c_rep s)" "length (c_rep s) = nV" "sum_list (c_rep s) < fuel" "length E < 2 ^ 53"
  shows "fst (conn_loop fuel nV E s) = Inl Undef"
  using assms
proof (induction fuel arbitrary: s)
  case (Suc fuel)
  have bad: "fst (conn_loop (Suc fuel) nV E s) = Inl Undef" if "fst (conn_round nV E s) = Inl Undef"
  proof -
    obtain s' where "conn_round nV E s = (Inl Undef, s')" using \<open>fst _ = _\<close> by (cases "conn_round nV E s") auto
    then show ?thesis by (simp add: seq_Inl [where m = "conn_round nV E"])
  qed
  show ?case
    using Suc.prems(1,2)
  proof (cases rule: round_run)
    case (run rep' d)
    let ?s = "s\<lparr>c_rep := rep', c_changes := d, c_live := d, c_exst := length (round_pos nV E)\<rparr>"
    have step: "conn_loop (Suc fuel) nV E s = seq (condense E) (\<lambda>_. seq get_st (\<lambda>s. if c_changes s \<noteq> 0 then conn_loop fuel nV E else ret ())) ?s"
      by (simp add: seq_Inr [where m = "conn_round nV E", OF run(3)])
    show ?thesis
    proof (cases "fst (condense E ?s) = Inl Undef")
      case True
      then obtain s' where "condense E ?s = (Inl Undef, s')" by (cases "condense E ?s") auto
      then show ?thesis unfolding step by (simp add: seq_Inl [where m = "condense E"])
    next
      case False
      have "d \<noteq> 0"
      proof
        assume d: "d = 0"
        then have "fst (condense E ?s) = Inl Undef" using run Suc.prems(4) by (intro condense_overruns [where nV = nV]) auto
        then show False using False by simp
      qed
      moreover have "condense E ?s = (Inr (), ?s)" using condense_cases [of E ?s] False by blast
      ultimately have "conn_loop (Suc fuel) nV E s = conn_loop fuel nV E ?s" unfolding step by (simp add: seq_Inr [where m = "condense E"])
      then show ?thesis using Suc.IH [of ?s] run(4,5) run(7) [OF \<open>d \<noteq> 0\<close>] Suc.prems(3,4) by simp
    qed
  qed (rule bad)
qed simp

lemma flat_init: "flat [0..<n]"
  by (simp add: flat_def)

lemma rounds_run:
  fixes s :: conn
  assumes "rep_ok (round_edges nV E) (c_rep s)" "length (c_rep s) = nV" "0 < n_blocks nV E" "\<forall>e\<in>set (round_pos nV E). valid_at nV E e"
  shows "\<exists>k s'. k \<le> sum_list (c_rep s) + 1 \<and> for_each (replicate k ()) (\<lambda>_. conn_round nV E) s = (Inr (), s') \<and> c_changes s' = 0 \<and>
    rep_ok (round_edges nV E) (c_rep s') \<and> length (c_rep s') = nV \<and> (\<forall>e\<in>set (round_pos nV E). agree E ((!) (c_rep s')) e)"
  using assms(1,2)
proof (induction "sum_list (c_rep s)" arbitrary: s rule: less_induct)
  case less
  from less.prems show ?case
  proof (cases rule: round_run)
    case bad
    then show ?thesis using assms(3,4) by simp
  next
    case (run rep' d)
    let ?s = "s\<lparr>c_rep := rep', c_changes := d, c_live := d, c_exst := length (round_pos nV E)\<rparr>"
    show ?thesis
    proof (cases "d = 0")
      case True
      have "for_each (replicate 1 ()) (\<lambda>_. conn_round nV E) s = (Inr (), ?s)" using run(3) by (simp add: seq_Inr [where m = "conn_round nV E", OF run(3)] ret_def)
      moreover have "\<forall>e\<in>set (round_pos nV E). agree E ((!) (c_rep ?s)) e" using conjunct2 [OF run(6) [OF True]] by simp
      ultimately show ?thesis using run(4,5) True by (intro exI [of _ 1] exI [of _ ?s] conjI) simp_all
    next
      case False
      have "sum_list (c_rep ?s) < sum_list (c_rep s)" using run(7) [OF False] by simp
      then obtain k s' where k: "k \<le> sum_list rep' + 1" "for_each (replicate k ()) (\<lambda>_. conn_round nV E) ?s = (Inr (), s')" "c_changes s' = 0"
        "rep_ok (round_edges nV E) (c_rep s')" "length (c_rep s') = nV" "\<forall>e\<in>set (round_pos nV E). agree E ((!) (c_rep s')) e"
        using less.hyps [of ?s] run(4,5) by auto
      have "for_each (replicate (Suc k) ()) (\<lambda>_. conn_round nV E) s = (Inr (), s')"
        using k(2) by (simp add: seq_Inr [where m = "conn_round nV E", OF run(3)])
      moreover have "Suc k \<le> sum_list (c_rep s) + 1" using k(1) run(7) [OF False] by simp
      ultimately show ?thesis using k(3-) by blast
    qed
  qed
qed


subsection \<open>Properties\<close>

text \<open>C22. \<open>conn_comp.c\<close> ends with the least reachable node as the label of every node, in whatever order the threads
  take the nodes of each pass, a node being one step: \<open>ord it\<close> is any list of all nodes.\<close>

theorem conn_comp_least:
  assumes "graph_ok lb ub to" "\<And>it. set (ord it) = {..<length lb}"
  shows "\<exists>s'. conn_comp ord lb ub to s = (Inr (), s') \<and> length (l_lbl s') = length lb \<and>
    (\<forall>i<length lb. l_lbl s' ! i = Min ((edges lb ub to)\<^sup>* `` {i}))"
  by (rule conn_comp_run [where s = s and ord = ord, OF assms]) blast

theorem conn_comp_least_witness:
  "\<exists>s'. conn_comp (\<lambda>it. if even it then [2, 1, 0] else [0, 2, 1]) [0, 0, 1] [0, 1, 2] [0, 1] \<lparr>l_lbl = [], l_change = False\<rparr> = (Inr (), s') \<and>
    length (l_lbl s') = 3 \<and> l_lbl s' ! 2 = Min ((edges [0, 0, 1] [0, 1, 2] [0, 1])\<^sup>* `` {2})"
proof -
  have "graph_ok [0, 0, 1] [0, 1, 2] [0, 1]" by (auto simp: graph_ok_def less_Suc_eq numeral_3_eq_3)
  moreover have "set (if even it then [2, 1, 0] else [0, 2, 1]) = {..<length [0 :: nat, 0, 1]}" for it :: nat by auto
  ultimately show ?thesis
    using conn_comp_least [of "[0, 0, 1]" "[0, 1, 2]" "[0, 1]" "\<lambda>it. if even it then [2, 1, 0] else [0, 2, 1]" "\<lparr>l_lbl = [], l_change = False\<rparr>"] by auto
qed

text \<open>C30. \<open>conn.c\<close>: when the file holds whole edges between nodes that exist and the blocks hold whole edges, the rounds reach
  one without a change after at most \<open>nV * nV + 1\<close> of them, and then every node has the least node of its component as
  representative (edges are read in both directions).\<close>

theorem conn_rounds_least:
  assumes eb: "even_blocks nV E" "0 < n_blocks nV E" and ids: "list_all (\<lambda>v. \<not> bad_id nV v) E"
  shows "\<exists>k s'. k \<le> nV * nV + 1 \<and> for_each (replicate k ()) (\<lambda>_. conn_round nV E) (s\<lparr>c_rep := [0..<nV]\<rparr>) = (Inr (), s') \<and>
    c_changes s' = 0 \<and> length (c_rep s') = nV \<and> (\<forall>i<nV. c_rep s' ! i = Min ((pairs E {e. even e \<and> e < length E})\<^sup>* `` {i}))"
proof -
  let ?s = "s\<lparr>c_rep := [0..<nV]\<rparr>" and ?R = "round_edges nV E"
  have I: "set (round_pos nV E) = {e. even e \<and> e < length E}" by (rule round_pos_set [OF eb])
  have v: "\<forall>e\<in>set (round_pos nV E). valid_at nV E e"
  proof
    fix e assume "e \<in> set (round_pos nV E)"
    then have "e + 1 < length E" using eb(1) unfolding I even_blocks_def by (auto elim!: evenE)
    then show "valid_at nV E e" using ids by (simp add: valid_at_def list_all_length)
  qed
  have b: "?R \<subseteq> {..<nV} \<times> {..<nV}" using v by (fastforce simp: pairs_def valid_at_def bad_id_def)
  have "rep_ok ?R (c_rep ?s)" "length (c_rep ?s) = nV" using label_ok_init [of ?R nV] flat_init by simp_all
  then obtain k s' where k: "k \<le> sum_list (c_rep ?s) + 1" "for_each (replicate k ()) (\<lambda>_. conn_round nV E) ?s = (Inr (), s')" "c_changes s' = 0"
    "rep_ok ?R (c_rep s')" "length (c_rep s') = nV" "\<forall>e\<in>set (round_pos nV E). agree E ((!) (c_rep s')) e"
    using rounds_run [OF _ _ eb(2) v] by blast
  have "k \<le> nV * nV + 1" using k(1) sum_upt_le [of nV] by simp
  moreover have "c_rep s' ! i = Min (?R\<^sup>* `` {i})" if "i < nV" for i
    using k(4,5,6) b that by (intro labels_least) (auto simp: pairs_def)
  ultimately show ?thesis using k(2,3,5) unfolding I by blast
qed

theorem conn_rounds_least_witness:
  "\<exists>k s'. k \<le> 5 \<and> for_each (replicate k ()) (\<lambda>_. conn_round 2 [0, 1, 1, 0, 0, 1, 1, 0])
      \<lparr>c_rep = [0, 1], c_changes = 0, c_live = 0, c_exst = 0, c_out = []\<rparr> = (Inr (), s') \<and>
    c_changes s' = 0 \<and> c_rep s' ! 1 = Min ((pairs [0, 1, 1, 0, 0, 1, 1, 0] {e. even e \<and> e < 8})\<^sup>* `` {1})"
proof -
  let ?E = "[0, 1, 1, 0, 0, 1, 1, 0] :: int list" and ?s = "\<lparr>c_rep = [0, 1], c_changes = 0, c_live = 0, c_exst = 0, c_out = []\<rparr>"
  have "even_blocks 2 ?E" "0 < n_blocks 2 ?E" "list_all (\<lambda>v. \<not> bad_id 2 v) ?E" by (simp_all add: even_blocks_def n_blocks_def bad_id_def)
  note r = conn_rounds_least [OF this, of ?s]
  have "?s\<lparr>c_rep := [0..<2]\<rparr> = ?s" "length ?E = 8" "2 * 2 + 1 = (5 :: nat)" by (simp_all add: upt_rec)
  note r [unfolded this]
  moreover have "1 < (2 :: nat)" by simp
  ultimately show ?thesis by blast
qed

text \<open>C38. No run of \<open>conn.c\<close> that has accepted its arguments and mapped a file of less than \<open>2 ^ 34\<close> numbers is defined: either there are too few edges and it divides by zero, or an edge has a node that
  does not exist, or, in the last round at the latest, no edge is live and the condensing step writes the edges at the
  representatives into a block of length zero.\<close>

theorem conn_main_undefined: "length E < 2 ^ 34 \<Longrightarrow> 0 < max_id \<Longrightarrow> fst (conn_main max_id E s) = Inl Undef"
proof -
  assume "length E < 2 ^ 34" and m: "0 < max_id"
  then have small: "length E < 2 ^ 53" by simp
  let ?n = "nat (max_id + 1)"
  let ?nV = "if ?n mod 2 \<noteq> 0 then ?n + 1 else ?n"
  let ?s = "s\<lparr>c_rep := [0..<?nV]\<rparr>"
  have "rep_ok (round_edges n E) [0..<n]" "sum_list [0..<n] < n * n + 2" for n
    using sum_upt_le [of n] by (simp_all add: label_ok_init flat_init)
  then have "fst (conn_loop (n * n + 2) n E (s\<lparr>c_rep := [0..<n]\<rparr>)) = Inl Undef" for n using small by (intro conn_loop_undef) simp_all
  then obtain s' where u: "conn_loop (?nV * ?nV + 2) ?nV E ?s = (Inl Undef, s')" by (metis prod.collapse)
  show ?thesis unfolding conn_main_def Let_def seq_bye_if seq_undef_if
    using m by (simp only: not_le if_False seq_upd_st seq_Inl [where m = "conn_loop _ _ _", OF u]) simp
qed

theorem conn_main_undefined_witness:
  "length ([0, 1, 1, 0, 0, 1, 1, 0] :: int list) < 2 ^ 34 \<and> (0 :: int) < 1 \<and>
    fst (conn_main 1 [0, 1, 1, 0, 0, 1, 1, 0] \<lparr>c_rep = [], c_changes = 0, c_live = 0, c_exst = 0, c_out = []\<rparr>) = Inl Undef"
  using conn_main_undefined [of "[0, 1, 1, 0, 0, 1, 1, 0]" 1 "\<lparr>c_rep = [], c_changes = 0, c_live = 0, c_exst = 0, c_out = []\<rparr>"] by simp

end
