(* ===== verification/Spec2Isabelle.thy ===== *)
theory Spec2Isabelle
  imports Key_Counter Vctr_Thms Vec_Check Chnk_Level Lma_Lock Csv_Trip Dt_Thms Aq_Thms Graph_Thms
begin

text \<open>
  Verification development for Q, a column store whose runtime is written in C and driven from Lua
  (\<open>src/\<close> of the repository; paths below are relative to it).

  Parts and how they interact.  A vector is a column of typed elements, cut into chunks.  The runtime
  keeps all vectors and all chunks of a tablespace in two hash maps, \<open>g_vctr_hmap\<close> and \<open>g_chnk_hmap\<close>,
  instances of one Robin Hood hash map template.  Operators append elements or chunks to vectors and read
  them back; every chunk counts its readers and writers, is accounted for in the memory counter, and can be
  backed up to a file of its own or, with all the others of its vector, to one linear file that is then
  mapped.  CSV files are loaded into column buffers and columns are printed as CSV; sorting works on the
  memory of a column.  An operator answers approximate quantiles in one pass.  A separate
  program grows decision trees over columns of floats.  Element types are described by \<open>qtype_t\<close>.

  Conventions (\<open>Prelude\<close>).  A C function is a \<open>prog\<close>: it maps a state to a state and either a result or an
  \<open>error\<close>, which is the negative status \<open>go_BYE\<close> returns, undefined behaviour of C (\<open>Undef\<close>), or a loop that
  does not end (\<open>Diverges\<close>).  Integers that wrap are words, or natural numbers with \<open>u16\<close>, \<open>u32\<close>, \<open>u64\<close>
  applied wherever C truncates.  Code under \<open>DEBUG\<close> and \<open>VERBOSE\<close> is off.  What the environment decides
  (allocation, opening of files, random numbers, time stamps) is an argument or a field of the state.

  Theories, and the code they model:

  \<^item> \<open>Fastdiv\<close>: \<open>fastdiv.h\<close>, \<open>set_probe_loc.c\<close>.  Division by a multiplier is exact for every divisor and dividend.
  \<^item> \<open>Hmap_Size\<close>, \<open>Hmap\<close>: \<open>aux.c\<close>, \<open>calc_new_size.c\<close> and \<open>rs_hmap_*.c\<close> of \<open>TMPL_FIX_HASHMAP/src\<close>.  \<open>Hmap_Inv\<close>,
    \<open>Hmap_Ops\<close>, \<open>Hmap_Get_Del\<close> prove the Robin Hood invariant of put, get and delete, \<open>Hmap_Laws\<close> the resizing
    operations; \<open>Hmap_Api\<close> states the contract of a map as a locale (\<open>fixes\<close> the calls, \<open>assumes\<close> the laws of
    lookup, update and delete) and interprets it on the code; \<open>Hmap_Thms\<close> holds the properties.
  \<^item> \<open>Fasthash\<close>, \<open>Key_Counter\<close>: the hash function, the template instances, and the map that counts keys.
  \<^item> \<open>Qtypes\<close>, \<open>Qstate\<close>: \<open>qtypes.c\<close>; the globals of the runtime as the record \<open>qst\<close> with the two tables as
    association lists (which the properties of the hash map justify), the heap of blocks, the files and counters.
  \<^item> \<open>Mem_Acct\<close>, \<open>L2_File\<close>: \<open>mod_mem_used.c\<close> (also as an inductive step relation of interleaved threads, in which taking the
    lock, reading the counter, comparing, changing it and unlocking are steps of their own), \<open>l2_file_name.c\<close>.
  \<^item> \<open>Chnk_Ops\<close>, \<open>Vctr_Admin\<close>, \<open>Vctr_Lma\<close>, \<open>Vctr_Data\<close>, \<open>Vctr_Move\<close>, \<open>Vctr_Chk\<close>: the files of \<open>RUNTIME/VCTR/src\<close>, one
    definition per function.  \<open>Vec_Inv\<close> relates the runtime to abstract vectors (lists of elements, the number
    given up at the front, whether the end was reached); \<open>Vec_Step\<close> to \<open>Vec_Life\<close> prove the refinement of each
    operation; \<open>Vec_Store\<close> states appending and sealing as locales and interprets them on the runtime;
    \<open>Vctr_Thms\<close>, \<open>Vec_Check\<close> (the check after any sequence of calls), \<open>Chnk_Level\<close> and \<open>Lma_Lock\<close> hold the
    properties, \<open>Vec_Demo\<close> the concrete states of the witnesses.
  \<^item> \<open>Csv_Text\<close>, \<open>Csv_Float\<close>: \<open>txt_to_*.c\<close> and \<open>*_to_txt.c\<close> of \<open>UTILS/DEPRECATED/src\<close> with the parts of the C library
    they call written out.  \<open>Csv_Cell\<close>, \<open>Csv_Load\<close>: \<open>get_cell.c\<close>, \<open>trim.c\<close> and the loader of
    \<open>OPERATORS/LOAD_CSV/src\<close>; \<open>Csv_Run\<close>, \<open>Csv_Table\<close>, \<open>Csv_Values\<close>, \<open>Csv_Thms\<close> its properties.  \<open>Csv_Print\<close>:
    \<open>OPERATORS/PRINT/src/cprint.c\<close>; \<open>Csv_Trip\<close>: loading undoes printing for tables of integers, booleans, nonempty
    strings and nulls (floats are printed with too few digits for that).
  \<^item> \<open>Sort_Quick\<close>: \<open>OPERATORS/F_IN_PLACE/src/qsort_asc_I4.c\<close> over any comparison; \<open>Sort_Part\<close>, \<open>Sort_Loop\<close>, \<open>Sort_Insert\<close>
    prove it correct in the locale \<open>sort_order\<close> of what it needs of the comparison; \<open>Sort_Thms\<close> interprets the
    locale on the comparisons of the code and has the instances of the sort.
  \<^item> \<open>Dt_Float\<close>: the conversions and the arithmetic of IEEE doubles with correct rounding, and bounds that rounding
    keeps.  \<open>Dt_Data\<close>, \<open>Dt_Search\<close>, \<open>Dt_Split\<close>: the decision-tree builder of \<open>DT/src\<close> (\<open>types.h\<close>, \<open>read_config.c\<close>,
    \<open>make_data.c\<close>, \<open>preproc_j.c\<close>; \<open>accumulate.c\<close>, \<open>eval_metrics.c\<close>, \<open>calc_best_metric.c\<close>, \<open>search_j.c\<close>, \<open>search.c\<close>;
    \<open>reorder.c\<close>, \<open>split.c\<close>, \<open>check.c\<close>, \<open>check_tree.c\<close>, \<open>preproc.c\<close>, \<open>main.c\<close>), one definition per function.  A feature is
    a sorted array of 64-bit composites (instance, goal, code of the value) with its inverse array; a segment of
    every feature holds the same instances, those of a node of the tree.  \<open>Dt_Count\<close> and \<open>Dt_Find\<close> prove the search of
    a split and its counts, \<open>Dt_Part\<close> the stable partition of all features in any order, \<open>Dt_Prep\<close> the encoding,
    \<open>Dt_Grow\<close> and \<open>Dt_Build\<close> that the recursion keeps the invariant \<open>tree_inv\<close> between the tree and the data, which
    implies the program's own check of the tree; \<open>Dt_Thms\<close> holds the properties.
  \<^item> \<open>Aq_Data\<close>: the approximate quantiles of \<open>OPERATORS/APPROX/QUANTILE\<close> (\<open>determine_b_k.c\<close>; \<open>Collapse.c\<close>, \<open>New.c\<close>,
    \<open>Output.c\<close>, \<open>qsort_asc_I4.c\<close>, \<open>approx_quantile.c\<close> of \<open>test1\<close>, the instance of the templates for 32-bit integers).  \<open>Aq_Rank\<close> bounds
    what a merge does to the ranks, \<open>Aq_Add\<close> states the invariant of the weighted buffers and proves it for a new
    packet, \<open>Aq_Num\<close> shows that the computations with doubles are exact or rounded on the right side, \<open>Aq_Out\<close> that
    the output answers by weighted rank, \<open>Aq_Run\<close>, \<open>Aq_Sel\<close> and \<open>Aq_Full\<close> follow the blocks without and with a
    selection and put the parts together; \<open>Aq_Thms\<close> holds the properties.
  \<^item> \<open>Graph_Data\<close>: the connected components of \<open>GRAPH/CONN_COMP/src\<close>, \<open>conn_comp.c\<close> (labels that sink along the edges)
    and \<open>conn.c\<close> (representatives with path compression, block by block, and the condensing of edges).  \<open>Graph_Label\<close>
    proves the labels least in every order of the nodes; \<open>Graph_Conn\<close> that edges lower the representatives and jumps send
    every node to the root of its chain, \<open>Graph_Round\<close> the same of a round over all blocks, and \<open>Graph_Thms\<close> that rounds
    end in the least nodes, while the program as a whole always runs into an undefined step before it writes them.  The
    fuel of both loops is the square of the number of nodes and two: every pass but the last lowers an entry.
  Bounds and fuel.  The growth of a hash map is bounded by the size at which its 16-bit probe lengths and
  \<open>calc_new_size\<close> are safe (27846 items; the search for a prime stays below 65520).  Loops over chunks and elements
  are total functions; \<open>csv_rounds\<close> is one round per cell of a chunk and a header; the quicksort takes at most
  twice as many rounds as it has elements; \<open>search_loop\<close> one round per element at most, and \<open>split_node\<close> recurses
  to the maximal depth; \<open>bk_loop\<close> 64 rounds, \<open>out_loop\<close> one per element; in each case the properties prove that the
  bound is enough.  Chunk
  sizes are below 1 GiB and counts below \<open>2 ^ 32\<close> where the code computes with 32 bits.

  Not modelled.  The Lua side and the operators that are templates expanded by Lua are in another language;
  LuaJIT, the hash functions spooky, murmur and lookup3 are third-party code; the web server, the
  configuration and the Lua bindings pass data through; \<open>load_csv_par.c\<close> and \<open>vsplit.c\<close> do not compile against
  the header of \<open>get_cell\<close>; \<open>cmem\<close> and \<open>sclr\<close> are in a submodule and appear as records of the fields the code
  uses.  A failing \<open>posix_memalign\<close> returns a positive status that the code takes for success; the model then has
  a null pointer.  A mapped file read behind its end is undefined behaviour.  Of a not-a-number the payload
  is not kept.  The approximate quantiles are proved for fewer than \<open>2 ^ 44\<close> elements,
  where the doubles are exact, and for elements whose differences fit an \<open>int\<close>, as the comparison of the sort needs it.  Of the decision trees the evaluation of a tree, the data files and the vector kernels are left
  out; the C library's \<open>qsort\<close> is a parameter with the contract \<open>sorts\<close>, which \<open>Dt_Thms\<close> shows an insertion sort
  to keep; the contract is assumed of equal values too, where the comparison of \<open>preproc_j.c\<close> answers 1 in both directions and
  the C standard promises nothing.  Parallel loops are run in order; the steps of two nodes of a pass of \<open>conn_comp.c\<close> do
  not overlap.
\<close>

end
